(* ===== verification/Kvs_Prelude.thy ===== *)
theory Kvs_Prelude
  imports
    Main
    "HOL-Library.Char_ord"
    "HOL-Library.List_Lexorder"
begin

text \<open>
  Shared ground of the development: how C's ways of not returning are values of the
  model, C strings and their comparison, the surroundings of the process (what the
  memory system, \<open>rand\<close> and the kernel answer), byte regions with bounds-checked
  stores, and the lemmas every component uses.  Nothing in here is specific to one
  component of \<open>src/src/\<close>.
\<close>

section \<open>Abnormal ends as values\<close>

text \<open>
  A C function either returns or the process stops being defined: it dereferences NULL or
  a pointer to storage already given back, leaves an array, reads storage nothing was
  written to, overflows a signed integer, fails an assertion, loops forever, or calls
  \<open>exit\<close>.  Every operation that could do so returns a
  value of type \<open>'a run\<close>: \<open>Inl\<close> of the reason, or \<open>Inr\<close> of what the function
  returned together with the state it left behind.
\<close>

datatype halt =
    Null_deref
  | Out_of_bounds
  | Uninitialised
  | Int_overflow
  | Assert_failed
  | Dangling
  | Diverges
  | Exit_process int

type_synonym 'a run = "halt + 'a"

definition bindr :: "'a run \<Rightarrow> ('a \<Rightarrow> 'b run) \<Rightarrow> 'b run" where
  "bindr x f = (case x of Inl e \<Rightarrow> Inl e | Inr a \<Rightarrow> f a)"

lemma bindr_simps [simp]:
  "bindr (Inr a) f = f a"
  "bindr (Inl e) f = Inl e"
  by (simp_all add: bindr_def)

lemma bindr_eq_Inr: "bindr x f = Inr b \<longleftrightarrow> (\<exists>a. x = Inr a \<and> f a = Inr b)"
  by (cases x) auto

lemma bindr_eq_Inl: "bindr x f = Inl e \<longleftrightarrow> x = Inl e \<or> (\<exists>a. x = Inr a \<and> f a = Inl e)"
  by (cases x) auto

lemma bindr_assoc: "bindr (bindr x f) g = bindr x (\<lambda>a. bindr (f a) g)"
  by (cases x) auto

lemma bindr_cong [fundef_cong]:
  "x = y \<Longrightarrow> (\<And>a. y = Inr a \<Longrightarrow> f a = g a) \<Longrightarrow> bindr x f = bindr y g"
  by (cases y) auto

section \<open>Bytes, C strings and comparison\<close>

text \<open>
  A byte is a \<open>char\<close> and a C string is the list of the bytes before its terminating
  NUL.  \<open>strcmp\<close> promises only the sign of its result and compares bytes as
  \<open>unsigned char\<close>; a string that ends first is the smaller one.
\<close>

type_synonym bytes = "char list"

abbreviation byte_of :: "char \<Rightarrow> nat" where
  "byte_of \<equiv> of_char"

definition NUL :: char where
  "NUL = CHR 0x00"

definition CR :: char where
  "CR = CHR 0x0D"

definition LF :: char where
  "LF = CHR 0x0A"

definition CRLF :: bytes where
  "CRLF = [CR, LF]"

lemma line_chars_distinct [simp]:
  "NUL \<noteq> CR" "NUL \<noteq> LF" "CR \<noteq> LF" "CR \<noteq> NUL" "LF \<noteq> NUL" "LF \<noteq> CR"
  by (simp_all add: NUL_def CR_def LF_def)

lemma length_CRLF [simp]: "length CRLF = 2"
  by (simp add: CRLF_def)

fun strcmp :: "bytes \<Rightarrow> bytes \<Rightarrow> int" where
  "strcmp [] [] = 0"
| "strcmp [] (b # bs) = -1"
| "strcmp (a # as) [] = 1"
| "strcmp (a # as) (b # bs) =
     (if byte_of a < byte_of b then -1
      else if byte_of b < byte_of a then 1
      else strcmp as bs)"

lemma byte_of_less_iff: "(byte_of a < byte_of b) \<longleftrightarrow> a < b"
  by (simp add: less_char_def)

lemma strcmp_eq_0 [simp]: "strcmp a b = 0 \<longleftrightarrow> a = b"
  by (induction a b rule: strcmp.induct) (auto simp: byte_of_less_iff not_less dest: order.antisym)

lemma strcmp_less_0 [simp]: "strcmp a b < 0 \<longleftrightarrow> a < b"
  by (induction a b rule: strcmp.induct) (auto simp: byte_of_less_iff)

lemma strcmp_greater_0 [simp]: "0 < strcmp a b \<longleftrightarrow> b < a"
  by (induction a b rule: strcmp.induct) (auto simp: byte_of_less_iff)

section \<open>Limits and C arithmetic\<close>

text \<open>The platform is 64-bit Linux: \<open>int\<close> has 32 bits, \<open>size_t\<close> has 64.\<close>

definition INT_MAX :: int where
  "INT_MAX = 2147483647"

definition INT_MIN :: int where
  "INT_MIN = - 2147483648"

definition SIZE_MAX :: nat where
  "SIZE_MAX = 18446744073709551615"

text \<open>C's remainder truncates towards zero, so its sign is that of the dividend.\<close>

definition c_mod :: "int \<Rightarrow> int \<Rightarrow> int" where
  "c_mod a b = sgn a * (\<bar>a\<bar> mod \<bar>b\<bar>)"

lemma c_mod_nonneg: "0 \<le> a \<Longrightarrow> 0 < b \<Longrightarrow> c_mod a b = a mod b"
  by (cases "a = 0") (auto simp: c_mod_def)

lemma c_mod_neg: "a < 0 \<Longrightarrow> 0 < b \<Longrightarrow> c_mod a b = - ((- a) mod b)"
  by (simp add: c_mod_def)

section \<open>The surroundings of the process\<close>

text \<open>
  What the process cannot decide itself: whether the n-th allocation of a given size is
  granted, what the granted storage holds before anything is written to it, what the
  n-th call of \<open>rand\<close> returns, whether the n-th call into the kernel succeeds, and what
  the n-th kernel call with a number as its result answers.
  These answers are parameters of the model; the counters say how many questions have
  been asked.  \<open>s_patience\<close> bounds how often a loop that waits for the kernel is run
  before the model reports \<open>Diverges\<close>.  \<open>s_live\<close> counts the blocks handed out by \<open>kvs_malloc\<close> and not yet
  given back, which is what \<open>kvs_allocator_destroy\<close> insists to be zero.
\<close>

record sys =
  s_alloc :: "nat \<Rightarrow> nat \<Rightarrow> bool"
  s_fill :: "nat \<Rightarrow> nat \<Rightarrow> char"
  s_rand :: "nat \<Rightarrow> int"
  s_oscall :: "nat \<Rightarrow> bool"
  s_kern :: "nat \<Rightarrow> int"
  s_patience :: nat
  s_nalloc :: nat
  s_nrand :: nat
  s_nos :: nat
  s_nkern :: nat
  s_live :: int

text \<open>
  \<open>kvs_malloc\<close> hands the request to the allocator, which refuses a size of 0 and
  otherwise answers as the memory system does.  The first component says whether the
  returned pointer is not NULL.
\<close>

definition kvs_malloc :: "nat \<Rightarrow> sys \<Rightarrow> bool \<times> sys" where
  "kvs_malloc n s =
     (let ok = (n \<noteq> 0 \<and> s_alloc s (s_nalloc s) n)
      in (ok, s\<lparr>s_nalloc := Suc (s_nalloc s), s_live := s_live s + (if ok then 1 else 0)\<rparr>))"

text \<open>The same call, where the contents of the new block matter.\<close>

definition kvs_malloc_bytes :: "nat \<Rightarrow> sys \<Rightarrow> bytes option \<times> sys" where
  "kvs_malloc_bytes n s =
     (let (ok, s') = kvs_malloc n s
      in (if ok then Some (map (s_fill s (s_nalloc s)) [0..<n]) else None, s'))"

text \<open>\<open>kvs_free\<close> of a pointer that is not NULL; freeing NULL does nothing.\<close>

definition kvs_free :: "sys \<Rightarrow> sys" where
  "kvs_free s = s\<lparr>s_live := s_live s - 1\<rparr>"

definition kvs_free_opt :: "'a option \<Rightarrow> sys \<Rightarrow> sys" where
  "kvs_free_opt p s = (case p of None \<Rightarrow> s | Some _ \<Rightarrow> kvs_free s)"

definition c_rand :: "sys \<Rightarrow> int \<times> sys" where
  "c_rand s = (s_rand s (s_nrand s), s\<lparr>s_nrand := Suc (s_nrand s)\<rparr>)"

definition os_call :: "sys \<Rightarrow> bool \<times> sys" where
  "os_call s = (s_oscall s (s_nos s), s\<lparr>s_nos := Suc (s_nos s)\<rparr>)"

definition os_int :: "sys \<Rightarrow> int \<times> sys" where
  "os_int s = (s_kern s (s_nkern s), s\<lparr>s_nkern := Suc (s_nkern s)\<rparr>)"

text \<open>\<open>s'\<close> has been asked more questions than \<open>s\<close> but holds the same memory and is the same machine.\<close>

definition same_memory :: "sys \<Rightarrow> sys \<Rightarrow> bool" where
  "same_memory s s' \<longleftrightarrow> s_live s' = s_live s \<and> s_alloc s' = s_alloc s \<and> s_patience s' = s_patience s \<and>
     s_oscall s' = s_oscall s \<and> s_kern s' = s_kern s"

lemma same_memory_refl [simp]: "same_memory s s"
  by (simp add: same_memory_def)

lemma same_memory_trans [trans]: "same_memory s s' \<Longrightarrow> same_memory s' s'' \<Longrightarrow> same_memory s s''"
  by (simp add: same_memory_def)

lemma same_memory_os [simp]:
  "same_memory s (snd (os_call s))" "same_memory s (snd (os_int s))"
  "os_call s = (b, s') \<Longrightarrow> same_memory s s'" "os_int s = (n, s') \<Longrightarrow> same_memory s s'"
  by (auto simp: same_memory_def os_call_def os_int_def)

text \<open>Memory that never runs out: every request of at least one byte is granted.\<close>

definition plenty :: "sys \<Rightarrow> bool" where
  "plenty s \<longleftrightarrow> (\<forall>n sz. 0 < sz \<longrightarrow> s_alloc s n sz)"

lemma kvs_malloc_cases:
  obtains (granted) s' where "kvs_malloc n s = (True, s')" "s_live s' = s_live s + 1"
      "s_alloc s' = s_alloc s"
  | (refused) s' where "kvs_malloc n s = (False, s')" "s_live s' = s_live s"
      "s_alloc s' = s_alloc s" "n = 0 \<or> \<not> plenty s"
proof (cases "n \<noteq> 0 \<and> s_alloc s (s_nalloc s) n")
  case True
  then show thesis
    using granted [of "snd (kvs_malloc n s)"] by (auto simp: kvs_malloc_def Let_def)
next
  case False
  then show thesis
    using refused [of "snd (kvs_malloc n s)"]
    by (cases "n = 0") (auto simp: kvs_malloc_def Let_def plenty_def)
qed

lemma kvs_malloc_granted:
  "kvs_malloc n s = (True, s') \<Longrightarrow> s_live s' = s_live s + 1 \<and> s_alloc s' = s_alloc s"
  by (auto simp: kvs_malloc_def Let_def)

lemma kvs_malloc_refused:
  "kvs_malloc n s = (False, s') \<Longrightarrow>
     s_live s' = s_live s \<and> s_alloc s' = s_alloc s \<and> (0 < n \<longrightarrow> \<not> plenty s)"
  by (auto simp: kvs_malloc_def Let_def plenty_def)

lemma kvs_malloc_plenty: "plenty s \<Longrightarrow> 0 < n \<Longrightarrow> fst (kvs_malloc n s)"
  by (simp add: kvs_malloc_def Let_def plenty_def)

lemma plenty_cong: "s_alloc s' = s_alloc s \<Longrightarrow> plenty s' = plenty s"
  by (simp add: plenty_def)

lemma kvs_free_simps [simp]:
  "s_live (kvs_free s) = s_live s - 1"
  "s_alloc (kvs_free s) = s_alloc s"
  by (simp_all add: kvs_free_def)

lemma kvs_free_opt_simps [simp]:
  "kvs_free_opt None s = s"
  "kvs_free_opt (Some p) s = kvs_free s"
  "s_alloc (kvs_free_opt q s) = s_alloc s"
  by (simp_all add: kvs_free_opt_def split: option.split)

section \<open>Byte regions\<close>

text \<open>
  A region of memory is the list of its bytes, its size is the length of the list.
  \<open>store_at\<close> is a \<open>memcpy\<close> into the region (one assignment \<open>p[i] = c\<close> stores a
  list of one byte); it leaves the region only as an explicit \<open>Out_of_bounds\<close>.
\<close>

definition store_at :: "bytes \<Rightarrow> nat \<Rightarrow> bytes \<Rightarrow> bytes run" where
  "store_at buf pos xs =
     (if pos + length xs \<le> length buf
      then Inr (take pos buf @ xs @ drop (pos + length xs) buf)
      else Inl Out_of_bounds)"

lemma store_at_append:
  "length old = length xs \<Longrightarrow>
   store_at (pre @ old @ post) (length pre) xs = Inr (pre @ xs @ post)"
  by (simp add: store_at_def)

lemma store_at_length: "store_at buf pos xs = Inr buf' \<Longrightarrow> length buf' = length buf"
  by (auto simp: store_at_def split: if_splits)

text \<open>
  \<open>snprintf(region, capacity, ...)\<close> of the text \<open>str\<close>: returns the length the whole
  text has, writes as much of it as leaves room for the terminating NUL.
\<close>

definition c_snprintf :: "bytes \<Rightarrow> bytes \<Rightarrow> int \<times> bytes" where
  "c_snprintf region str =
     (int (length str),
      (if region = [] then region
       else let out = take (length region - 1) str @ [NUL]
            in out @ drop (length out) region))"

lemma c_snprintf_fits:
  "length str < length region \<Longrightarrow>
   c_snprintf region str =
     (int (length str), str @ [NUL] @ drop (length str + 1) region)"
  by (auto simp: c_snprintf_def Let_def)

lemma c_snprintf_length: "length (snd (c_snprintf region str)) = length region"
  by (cases region) (auto simp: c_snprintf_def Let_def min_def)

section \<open>Callbacks over a list of entries\<close>

text \<open>
  The order in which an engine's \<open>foreach\<close> calls its visitor, as a function of the
  entries it visits: the walk stops with \<open>-1\<close> at the first negative answer.
\<close>

fun visit_all :: "(bytes \<Rightarrow> bytes \<Rightarrow> 'c \<Rightarrow> (int \<times> 'c) run) \<Rightarrow>
    (bytes \<times> bytes) list \<Rightarrow> 'c \<Rightarrow> (int \<times> 'c) run" where
  "visit_all f [] c = Inr (0, c)"
| "visit_all f ((k, v) # es) c =
     bindr (f k v c) (\<lambda>(r, c'). if r < 0 then Inr (-1, c') else visit_all f es c')"

lemma visit_all_append:
  "visit_all f (xs @ ys) c =
     bindr (visit_all f xs c) (\<lambda>(r, c'). if r < 0 then Inr (r, c') else visit_all f ys c')"
  by (induction f xs c rule: visit_all.induct)
     (auto simp: bindr_assoc intro!: bindr_cong split: prod.splits)

lemma visit_all_codes: "visit_all f es c = Inr (r, c') \<Longrightarrow> r = 0 \<or> r = -1"
  by (induction f es c rule: visit_all.induct) (auto simp: bindr_eq_Inr split: if_splits)

lemma visit_all_norm:
  "bindr (visit_all f es c) (\<lambda>(r, c). Inr (if r < 0 then -1 else 0, c)) = visit_all f es c"
proof (cases "visit_all f es c")
  case (Inr p)
  then show ?thesis
    using visit_all_codes [of f es c] by (cases p) auto
qed simp

section \<open>Lists\<close>

lemma map_of_update_distinct:
  "distinct (map fst xs) \<Longrightarrow> i < length xs \<Longrightarrow>
   map_of (xs[i := (fst (xs ! i), v)]) k = ((map_of xs)(fst (xs ! i) \<mapsto> v)) k"
proof (induction xs arbitrary: i)
  case Nil
  then show ?case by simp
next
  case (Cons x xs)
  show ?case
  proof (cases i)
    case 0
    then show ?thesis by (cases x) simp
  next
    case (Suc j)
    with Cons have ih: "map_of (xs[j := (fst (xs ! j), v)]) k = ((map_of xs)(fst (xs ! j) \<mapsto> v)) k"
      by simp
    have "fst (xs ! j) \<in> fst ` set xs"
      using Cons.prems Suc by simp
    then have "fst (xs ! j) \<noteq> fst x"
      using Cons.prems by (metis distinct.simps(2) list.simps(9) list.set_map)
    with Suc ih show ?thesis
      by (cases x) auto
  qed
qed

lemma map_fst_update_same:
  "i < length xs \<Longrightarrow> map fst (xs[i := (fst (xs ! i), v)]) = map fst xs"
  by (metis fst_conv list_update_id map_update nth_map)

lemma map_of_None_notin: "map_of xs k = None \<longleftrightarrow> k \<notin> set (map fst xs)"
  by (simp add: map_of_eq_None_iff)

lemma map_of_insert_between:
  assumes "k \<notin> fst ` set xs"
  shows "map_of (xs @ (k, v) # ys) = (map_of (xs @ ys))(k \<mapsto> v)"
proof
  fix x
  have "map_of xs k = None"
    using assms by (simp add: map_of_eq_None_iff)
  then show "map_of (xs @ (k, v) # ys) x = ((map_of (xs @ ys))(k \<mapsto> v)) x"
    by (cases "x = k") (auto simp: map_add_def split: option.split)
qed

text \<open>Association lists with distinct keys are determined by their set of pairs.\<close>

lemma map_of_remove:
  assumes "distinct (map fst xs)" "distinct (map fst ys)" "(k, v) \<in> set xs"
    "set ys = set xs - {(k, v)}"
  shows "map_of ys = (map_of xs)(k := None)"
proof
  fix k'
  have "map_of ys k' = Some v' \<longleftrightarrow> ((map_of xs)(k := None)) k' = Some v'" for v'
    using assms by (auto simp: map_of_eq_Some_iff dest: eq_key_imp_eq_value)
  then show "map_of ys k' = ((map_of xs)(k := None)) k'"
    by (metis not_Some_eq)
qed

lemma map_of_delete_between:
  "distinct (map fst (xs @ (k, v) # ys)) \<Longrightarrow> map_of (xs @ ys) = (map_of (xs @ (k, v) # ys))(k := None)"
  by (rule map_of_remove [where v = v]) (auto simp: image_iff)

lemma map_of_cong_set:
  assumes "distinct (map fst xs)" "distinct (map fst ys)" "set xs = set ys"
  shows "map_of xs = map_of ys"
proof
  fix k
  have "map_of xs k = Some v \<longleftrightarrow> map_of ys k = Some v" for v
    using assms by (simp add: map_of_eq_Some_iff)
  then show "map_of xs k = map_of ys k"
    by (metis not_Some_eq)
qed

end
