(* ===== verification/Codec.thy ===== *)
theory Codec
  imports Kvs_Prelude
begin

text \<open>
  The length-prefixed command format of \<open>src/src/protocol/codec.c\<close>: the incremental
  parser that reads one command from the front of a byte stream, the two encoders, and
  the classification of a new connection by its first bytes.

  Sizes are natural numbers with the source's guards against \<open>SIZE_MAX\<close> written out;
  the lemmas show that no computed size passes it.  The return codes \<open>1\<close>, \<open>0\<close> and
  \<open>-1\<close> of the parser, whose out-parameters are meaningful for \<open>1\<close> only, are the
  constructors of \<open>parsed\<close>.  A slice is the run of bytes it points to, \<open>None\<close> when its
  \<open>data\<close> pointer is NULL.
\<close>

section \<open>Data\<close>

type_synonym kvs_slice_t = "bytes option"

datatype 'a parsed = Complete 'a | Incomplete | Malformed

datatype kvs_connection_kind_t =
    KVS_CONNECTION_NEED_MORE
  | KVS_CONNECTION_CLIENT
  | KVS_CONNECTION_REPLICA
  | KVS_CONNECTION_INVALID

definition is_digit :: "char \<Rightarrow> bool" where
  "is_digit c \<longleftrightarrow> 48 \<le> byte_of c \<and> byte_of c \<le> (57::nat)"

definition digit_value :: "char \<Rightarrow> nat" where
  "digit_value c = byte_of c - 48"

section \<open>Parsing\<close>

text \<open>
  The loop of \<open>parse_number\<close> over the digits at \<open>pos\<close>, with the value read so far;
  \<open>None\<close> where the next digit would take the value past \<open>SIZE_MAX\<close>.
\<close>

function scan_digits :: "bytes \<Rightarrow> nat \<Rightarrow> nat \<Rightarrow> (nat \<times> nat) option" where
  "scan_digits input pos val =
     (if pos < length input \<and> is_digit (input ! pos)
      then let digit = digit_value (input ! pos)
           in if val > (SIZE_MAX - digit) div 10 then None
              else scan_digits input (pos + 1) (val * 10 + digit)
      else Some (pos, val))"
  by pat_completeness auto
termination
  by (relation "measure (\<lambda>(input, pos, val). length input - pos)") auto

declare scan_digits.simps [simp del]

text \<open>The result carries the number and the offset behind its line end.\<close>

definition parse_number :: "bytes \<Rightarrow> nat \<Rightarrow> (nat \<times> nat) parsed" where
  "parse_number input offset =
     (if offset \<ge> length input then Incomplete
      else if \<not> is_digit (input ! offset) then Malformed
      else case scan_digits input offset 0 of
        None \<Rightarrow> Malformed
      | Some (pos, val) \<Rightarrow>
          if pos \<ge> length input then Incomplete
          else if input ! pos \<noteq> CR then Malformed
          else if pos + 1 \<ge> length input then Incomplete
          else if input ! (pos + 1) \<noteq> LF then Malformed
          else Complete (val, pos + 2))"

definition parse_field :: "bytes \<Rightarrow> nat \<Rightarrow> nat \<Rightarrow> (bytes \<times> nat) parsed" where
  "parse_field input offset max_command_bytes =
     (if offset \<ge> length input then Incomplete
      else if input ! offset \<noteq> CHR ''$'' then Malformed
      else case parse_number input (offset + 1) of
        Incomplete \<Rightarrow> Incomplete
      | Malformed \<Rightarrow> Malformed
      | Complete (len, pos) \<Rightarrow>
          if pos > max_command_bytes \<or> max_command_bytes - pos < 2 \<or>
             len > max_command_bytes - pos - 2 then Malformed
          else let remaining = length input - pos
               in if len > remaining \<or> remaining - len < 2 then Incomplete
                  else if input ! (pos + len) \<noteq> CR \<or> input ! (pos + len + 1) \<noteq> LF then Malformed
                  else Complete (take len (drop pos input), pos + len + 2))"

text \<open>The loop over the announced number of fields, starting at \<open>offset\<close>.\<close>

fun parse_fields :: "bytes \<Rightarrow> nat \<Rightarrow> nat \<Rightarrow> nat \<Rightarrow> (bytes list \<times> nat) parsed" where
  "parse_fields input max_command_bytes 0 offset = Complete ([], offset)"
| "parse_fields input max_command_bytes (Suc n) offset =
     (case parse_field input offset max_command_bytes of
        Incomplete \<Rightarrow> Incomplete
      | Malformed \<Rightarrow> Malformed
      | Complete (f, offset') \<Rightarrow>
          (case parse_fields input max_command_bytes n offset' of
             Incomplete \<Rightarrow> Incomplete
           | Malformed \<Rightarrow> Malformed
           | Complete (fs, end_offset) \<Rightarrow> Complete (f # fs, end_offset)))"

text \<open>
  \<open>input\<close> is \<open>None\<close> for a NULL pointer.  The result carries the fields and the number
  of bytes the command occupies.
\<close>

definition kvs_parse_command_limited ::
    "bytes option \<Rightarrow> nat \<Rightarrow> nat \<Rightarrow> (bytes list \<times> nat) parsed" where
  "kvs_parse_command_limited input_ptr field_capacity max_command_bytes =
     (case input_ptr of
        None \<Rightarrow> Malformed
      | Some input \<Rightarrow>
          if field_capacity = 0 \<or> max_command_bytes = 0 then Malformed
          else if length input = 0 then Incomplete
          else if input ! 0 \<noteq> CHR ''*'' then Malformed
          else case parse_number input 1 of
            Incomplete \<Rightarrow> Incomplete
          | Malformed \<Rightarrow> Malformed
          | Complete (count, offset) \<Rightarrow>
              if offset > max_command_bytes then Malformed
              else if count = 0 \<or> count > field_capacity then Malformed
              else parse_fields input max_command_bytes count offset)"

definition kvs_parse_command :: "bytes option \<Rightarrow> nat \<Rightarrow> (bytes list \<times> nat) parsed" where
  "kvs_parse_command input_ptr field_capacity =
     kvs_parse_command_limited input_ptr field_capacity SIZE_MAX"

section \<open>Encoding\<close>

fun decimal_digits_loop :: "nat \<Rightarrow> nat \<Rightarrow> nat" where
  "decimal_digits_loop val digits =
     (if 10 \<le> val then decimal_digits_loop (val div 10) (digits + 1) else digits)"

declare decimal_digits_loop.simps [simp del]

definition decimal_digits :: "nat \<Rightarrow> nat" where
  "decimal_digits val = decimal_digits_loop val 1"

text \<open>\<open>None\<close> is the return code \<open>-1\<close>, \<open>Some n\<close> is \<open>0\<close> with the size stored.\<close>

definition encoded_field_size :: "nat \<Rightarrow> nat option" where
  "encoded_field_size content_length =
     (let overhead = 1 + decimal_digits content_length + 4
      in if content_length > SIZE_MAX - overhead then None
         else Some (overhead + content_length))"

fun encoded_fields_size :: "kvs_slice_t list \<Rightarrow> nat \<Rightarrow> nat option" where
  "encoded_fields_size [] tot = Some tot"
| "encoded_fields_size (None # flds) tot = None"
| "encoded_fields_size (Some d # flds) tot =
     (case encoded_field_size (length d) of
        None \<Rightarrow> None
      | Some field_size \<Rightarrow>
          if tot > SIZE_MAX - field_size then None
          else encoded_fields_size flds (tot + field_size))"

definition kvs_encoded_command_size :: "kvs_slice_t list \<Rightarrow> nat option" where
  "kvs_encoded_command_size flds =
     (if length flds = 0 then None
      else encoded_fields_size flds (1 + decimal_digits (length flds) + 2))"

text \<open>\<open>i\<close> digits are still to be written, the last of them at \<open>base + i - 1\<close>.\<close>

fun write_decimal_loop :: "bytes \<Rightarrow> nat \<Rightarrow> nat \<Rightarrow> nat \<Rightarrow> bytes run" where
  "write_decimal_loop output base 0 val = Inr output"
| "write_decimal_loop output base (Suc i) val =
     bindr (store_at output (base + i) [char_of (48 + val mod 10)])
       (\<lambda>output'. write_decimal_loop output' base i (val div 10))"

definition write_decimal :: "bytes \<Rightarrow> nat \<Rightarrow> nat \<Rightarrow> (bytes \<times> nat) run" where
  "write_decimal output base val =
     (let digits = decimal_digits val
      in bindr (write_decimal_loop output base digits val) (\<lambda>output'. Inr (output', digits)))"

text \<open>One \<open>$length\r\n content \r\n\<close> group, written at \<open>pos\<close>.\<close>

definition encode_field_at :: "bytes \<Rightarrow> nat \<Rightarrow> bytes \<Rightarrow> (bytes \<times> nat) run" where
  "encode_field_at output pos d =
     bindr (store_at output pos ''$'') (\<lambda>output.
     bindr (write_decimal output (pos + 1) (length d)) (\<lambda>(output, n).
     let pos = pos + 1 + n in
     bindr (store_at output pos CRLF) (\<lambda>output.
     let pos = pos + 2 in
     bindr (store_at output pos d) (\<lambda>output.
     let pos = pos + length d in
     bindr (store_at output pos CRLF) (\<lambda>output. Inr (output, pos + 2))))))"

fun encode_fields_at :: "bytes \<Rightarrow> nat \<Rightarrow> kvs_slice_t list \<Rightarrow> (bytes \<times> nat) run" where
  "encode_fields_at output pos [] = Inr (output, pos)"
| "encode_fields_at output pos (None # flds) = Inl Null_deref"
| "encode_fields_at output pos (Some d # flds) =
     bindr (encode_field_at output pos d) (\<lambda>(output', pos'). encode_fields_at output' pos' flds)"

text \<open>
  The output region is as long as \<open>output_capacity\<close>.  The result is the return code,
  the region afterwards and \<open>*encoded_bytes\<close>.
\<close>

definition kvs_encode_command ::
    "kvs_slice_t list \<Rightarrow> bytes option \<Rightarrow> (int \<times> bytes option \<times> nat) run" where
  "kvs_encode_command flds output_ptr =
     (case output_ptr of
        None \<Rightarrow> Inr (-1, None, 0)
      | Some output \<Rightarrow>
          (case kvs_encoded_command_size flds of
             None \<Rightarrow> Inr (-1, Some output, 0)
           | Some required \<Rightarrow>
               if length output < required then Inr (-1, Some output, 0)
               else
                 bindr (store_at output 0 ''*'') (\<lambda>output.
                 bindr (write_decimal output 1 (length flds)) (\<lambda>(output, n).
                 bindr (store_at output (1 + n) CRLF) (\<lambda>output.
                 bindr (encode_fields_at output (1 + n + 2) flds) (\<lambda>(output, pos).
                 Inr (0, Some output, pos)))))))"

definition kvs_encoded_value_response_size :: "kvs_slice_t option \<Rightarrow> nat option" where
  "kvs_encoded_value_response_size val =
     (case val of
        Some (Some d) \<Rightarrow> encoded_field_size (length d)
      | _ \<Rightarrow> None)"

definition kvs_encode_value_response ::
    "kvs_slice_t option \<Rightarrow> bytes option \<Rightarrow> (int \<times> bytes option \<times> nat) run" where
  "kvs_encode_value_response val output_ptr =
     (case output_ptr of
        None \<Rightarrow> Inr (-1, None, 0)
      | Some output \<Rightarrow>
          (case kvs_encoded_value_response_size val of
             None \<Rightarrow> Inr (-1, Some output, 0)
           | Some required \<Rightarrow>
               if length output < required then Inr (-1, Some output, 0)
               else case val of
                 Some (Some d) \<Rightarrow>
                   bindr (encode_field_at output 0 d) (\<lambda>(output, pos). Inr (0, Some output, pos))
               | _ \<Rightarrow> Inl Null_deref))"

section \<open>Classifying a connection\<close>

definition handshake :: bytes where
  "handshake = ''PING'' @ CRLF"

definition kvs_identify_connection :: "bytes option \<Rightarrow> nat \<Rightarrow> kvs_connection_kind_t" where
  "kvs_identify_connection input_ptr len =
     (if len = 0 then KVS_CONNECTION_NEED_MORE
      else case input_ptr of
        None \<Rightarrow> KVS_CONNECTION_INVALID
      | Some input \<Rightarrow>
          if input ! 0 = CHR ''*'' then KVS_CONNECTION_CLIENT
          else let compare_length = (if len < length handshake then len else length handshake)
               in if take compare_length input \<noteq> take compare_length handshake
                  then KVS_CONNECTION_INVALID
                  else if len < length handshake then KVS_CONNECTION_NEED_MORE
                  else KVS_CONNECTION_REPLICA)"

section \<open>The parser under a growing input\<close>

text \<open>
  The network layer calls the parser again each time bytes arrive.  What it answered
  about a prefix must stay true of the longer input: a complete command stays the same
  command and a malformed one stays malformed.
\<close>

lemma scan_digits_bounds:
  "scan_digits input pos val = Some (p, n) \<Longrightarrow> pos \<le> length input \<Longrightarrow> pos \<le> p \<and> p \<le> length input"
proof (induction input pos val rule: scan_digits.induct)
  case (1 input pos val)
  then show ?case
    by (subst (asm) (2) scan_digits.simps)
       (auto simp: Let_def split: if_splits)
qed

lemma scan_digits_stop:
  "scan_digits input pos val = Some (p, n) \<Longrightarrow> p < length input \<Longrightarrow> \<not> is_digit (input ! p)"
proof (induction input pos val rule: scan_digits.induct)
  case (1 input pos val)
  then show ?case
    by (subst (asm) (2) scan_digits.simps)
       (auto simp: Let_def split: if_splits)
qed

lemma scan_digits_value_bound:
  "scan_digits input pos val = Some (p, n) \<Longrightarrow> val \<le> SIZE_MAX \<Longrightarrow> n \<le> SIZE_MAX"
proof (induction input pos val rule: scan_digits.induct)
  case (1 input pos val)
  have "val \<le> (SIZE_MAX - d) div 10 \<Longrightarrow> d \<le> 9 \<Longrightarrow> val * 10 + d \<le> SIZE_MAX" for d
    by (simp add: SIZE_MAX_def)
  moreover have "is_digit c \<Longrightarrow> digit_value c \<le> 9" for c
    by (auto simp: is_digit_def digit_value_def)
  ultimately show ?case
    using 1
    by (subst (asm) (2) scan_digits.simps)
       (auto simp: Let_def not_less split: if_splits)
qed

lemma scan_digits_append_Some:
  "scan_digits input pos val = Some (p, n) \<Longrightarrow> p < length input \<Longrightarrow>
   scan_digits (input @ rest) pos val = Some (p, n)"
proof (induction input pos val rule: scan_digits.induct)
  case (1 input pos val)
  show ?case
  proof (cases "pos < length input \<and> is_digit (input ! pos)")
    case True
    with 1 show ?thesis
      by (subst scan_digits.simps, subst (asm) (2) scan_digits.simps)
         (auto simp: Let_def nth_append split: if_splits)
  next
    case False
    with "1.prems" have "p = pos" "n = val"
      by (auto simp: scan_digits.simps [of input])
    with False "1.prems" show ?thesis
      by (subst scan_digits.simps) (auto simp: nth_append)
  qed
qed

lemma scan_digits_append_None:
  "scan_digits input pos val = None \<Longrightarrow> scan_digits (input @ rest) pos val = None"
proof (induction input pos val rule: scan_digits.induct)
  case (1 input pos val)
  then show ?case
    by (subst scan_digits.simps, subst (asm) (2) scan_digits.simps)
       (auto simp: Let_def nth_append split: if_splits)
qed

lemma parse_number_CompleteE:
  assumes "parse_number input offset = Complete (n, p)"
  obtains q where "scan_digits input offset 0 = Some (q, n)" "p = q + 2" "offset < length input"
    "is_digit (input ! offset)" "input ! q = CR" "input ! (q + 1) = LF" "q + 1 < length input"
  using assms by (auto simp: parse_number_def split: if_splits option.splits)

lemma parse_number_Complete:
  assumes "parse_number input offset = Complete (n, p)"
  shows "offset < p \<and> p \<le> length input \<and> n \<le> SIZE_MAX"
proof (rule parse_number_CompleteE [OF assms])
  fix q
  assume q: "scan_digits input offset 0 = Some (q, n)" "p = q + 2" "offset < length input"
    "q + 1 < length input"
  show ?thesis
    using q scan_digits_bounds [OF q(1)] scan_digits_value_bound [OF q(1)] by simp
qed

lemma parse_number_append_Complete:
  assumes "parse_number input offset = Complete r"
  shows "parse_number (input @ rest) offset = Complete r"
proof -
  obtain n p where r: "r = (n, p)" by (cases r)
  show ?thesis
  proof (rule parse_number_CompleteE [OF assms [unfolded r]])
    fix q
    assume q: "scan_digits input offset 0 = Some (q, n)" "p = q + 2" "offset < length input"
      "is_digit (input ! offset)" "input ! q = CR" "input ! (q + 1) = LF" "q + 1 < length input"
    then have "scan_digits (input @ rest) offset 0 = Some (q, n)"
      by (intro scan_digits_append_Some) auto
    with q r show ?thesis
      by (simp add: parse_number_def nth_append)
  qed
qed

lemma parse_number_append_Malformed:
  assumes "parse_number input offset = Malformed"
  shows "parse_number (input @ rest) offset = Malformed"
proof (cases "scan_digits input offset 0")
  case None
  then have "scan_digits (input @ rest) offset 0 = None"
    by (rule scan_digits_append_None)
  with assms show ?thesis
    by (auto simp: parse_number_def nth_append split: if_splits)
next
  case (Some r)
  obtain q n where r: "r = (q, n)" by (cases r)
  show ?thesis
  proof (cases "q < length input")
    case True
    with Some r have "scan_digits (input @ rest) offset 0 = Some (q, n)"
      by (auto intro: scan_digits_append_Some)
    with assms Some r True show ?thesis
      by (auto simp: parse_number_def nth_append split: if_splits)
  next
    case False
    with assms Some r show ?thesis
      by (auto simp: parse_number_def nth_append split: if_splits)
  qed
qed

lemma parse_field_CompleteE:
  assumes "parse_field input offset mx = Complete (f, p)"
  obtains len pos where "parse_number input (offset + 1) = Complete (len, pos)"
    "offset < length input" "input ! offset = CHR ''$''"
    "pos + len + 2 \<le> mx" "pos + len + 2 \<le> length input"
    "input ! (pos + len) = CR" "input ! (pos + len + 1) = LF"
    "f = take len (drop pos input)" "p = pos + len + 2"
proof -
  obtain len pos where num: "parse_number input (offset + 1) = Complete (len, pos)"
    using assms by (auto simp: parse_field_def split: if_splits parsed.splits)
  have pos: "pos \<le> length input"
    using parse_number_Complete [OF num] by simp
  have start: "offset < length input" "input ! offset = CHR ''$''"
    using assms by (auto simp: parse_field_def split: if_splits)
  have body: "(if pos > mx \<or> mx - pos < 2 \<or> len > mx - pos - 2 then Malformed
      else let remaining = length input - pos
           in if len > remaining \<or> remaining - len < 2 then Incomplete
              else if input ! (pos + len) \<noteq> CR \<or> input ! (pos + len + 1) \<noteq> LF then Malformed
              else Complete (take len (drop pos input), pos + len + 2)) = Complete (f, p)"
    using assms num start by (simp add: parse_field_def)
  show thesis
  proof (rule that [OF num start])
    show "pos + len + 2 \<le> mx" "pos + len + 2 \<le> length input"
      using body pos by (auto simp: Let_def split: if_splits)
    show "input ! (pos + len) = CR" "input ! (pos + len + 1) = LF"
      "f = take len (drop pos input)" "p = pos + len + 2"
      using body by (simp_all add: Let_def split: if_splits)
  qed
qed

lemma parse_field_CompleteI:
  assumes "parse_number input (offset + 1) = Complete (len, pos)"
    "offset < length input" "input ! offset = CHR ''$''"
    "pos + len + 2 \<le> mx" "pos + len + 2 \<le> length input"
    "input ! (pos + len) = CR" "input ! (pos + len + 1) = LF"
  shows "parse_field input offset mx = Complete (take len (drop pos input), pos + len + 2)"
  using assms by (auto simp: parse_field_def Let_def)

lemma parse_field_Complete:
  assumes "parse_field input offset mx = Complete (f, p)"
  shows "offset + length f + 3 \<le> p \<and> p \<le> length input \<and> p \<le> mx"
proof (rule parse_field_CompleteE [OF assms])
  fix len pos
  assume a: "parse_number input (offset + 1) = Complete (len, pos)" "pos + len + 2 \<le> mx"
    "pos + len + 2 \<le> length input" "f = take len (drop pos input)" "p = pos + len + 2"
  have "length f = len"
    using a by simp
  moreover have "offset + 1 < pos"
    using parse_number_Complete [OF a(1)] by simp
  ultimately show ?thesis
    using a by simp
qed

lemma parse_field_append_Complete:
  assumes "parse_field input offset mx = Complete (f, p)"
  shows "parse_field (input @ rest) offset mx = Complete (f, p)"
proof (rule parse_field_CompleteE [OF assms])
  fix len pos
  assume a: "parse_number input (offset + 1) = Complete (len, pos)"
    "offset < length input" "input ! offset = CHR ''$''"
    "pos + len + 2 \<le> mx" "pos + len + 2 \<le> length input"
    "input ! (pos + len) = CR" "input ! (pos + len + 1) = LF"
    "f = take len (drop pos input)" "p = pos + len + 2"
  have "parse_number (input @ rest) (offset + 1) = Complete (len, pos)"
    using a(1) by (rule parse_number_append_Complete)
  with a show ?thesis
    using parse_field_CompleteI [of "input @ rest" offset len pos mx] by (simp add: nth_append)
qed

lemma parse_field_append_Malformed:
  assumes "parse_field input offset mx = Malformed"
  shows "parse_field (input @ rest) offset mx = Malformed"
proof (cases "parse_number input (offset + 1)")
  case (Complete r)
  obtain len pos where r: "r = (len, pos)" by (cases r)
  have "parse_number (input @ rest) (offset + 1) = Complete (len, pos)"
    using Complete r by (auto intro: parse_number_append_Complete)
  with assms Complete r parse_number_Complete [of input "offset + 1" len pos] show ?thesis
    by (auto simp: parse_field_def Let_def nth_append split: if_splits)
next
  case Incomplete
  with assms show ?thesis
    by (auto simp: parse_field_def nth_append split: if_splits)
next
  case Malformed
  then have "parse_number (input @ rest) (offset + 1) = Malformed"
    by (rule parse_number_append_Malformed)
  with assms show ?thesis
    by (auto simp: parse_field_def nth_append split: if_splits)
qed

lemma parse_fields_Complete:
  "parse_fields input mx n offset = Complete (fs, p) \<Longrightarrow>
   length fs = n \<and> offset + sum_list (map length fs) + 3 * n \<le> p \<and>
   (0 < n \<longrightarrow> p \<le> length input \<and> p \<le> mx)"
proof (induction n arbitrary: offset fs)
  case 0
  then show ?case by simp
next
  case (Suc n)
  from Suc.prems obtain f offset' gs where
      f: "parse_field input offset mx = Complete (f, offset')"
    and gs: "parse_fields input mx n offset' = Complete (gs, p)" and fs: "fs = f # gs"
    by (auto split: parsed.splits)
  have ih: "length gs = n \<and> offset' + sum_list (map length gs) + 3 * n \<le> p \<and>
      (0 < n \<longrightarrow> p \<le> length input \<and> p \<le> mx)"
    using gs by (rule Suc.IH)
  have "n = 0 \<Longrightarrow> p = offset'"
    using gs by simp
  with ih parse_field_Complete [OF f] fs show ?case
    by (cases "n = 0") auto
qed

lemma parse_fields_append_Complete:
  "parse_fields input mx n offset = Complete r \<Longrightarrow>
   parse_fields (input @ rest) mx n offset = Complete r"
proof (induction n arbitrary: offset r)
  case 0
  then show ?case by simp
next
  case (Suc n)
  from Suc.prems obtain f offset' fs p where
      f: "parse_field input offset mx = Complete (f, offset')"
    and fs: "parse_fields input mx n offset' = Complete (fs, p)" and r: "r = (f # fs, p)"
    by (auto split: parsed.splits)
  show ?case
    using parse_field_append_Complete [OF f] Suc.IH [OF fs] r by simp
qed

lemma parse_fields_append_Malformed:
  "parse_fields input mx n offset = Malformed \<Longrightarrow>
   parse_fields (input @ rest) mx n offset = Malformed"
proof (induction n arbitrary: offset)
  case 0
  then show ?case by simp
next
  case (Suc n)
  show ?case
  proof (cases "parse_field input offset mx")
    case (Complete fo)
    obtain f offset' where fo: "fo = (f, offset')" by (cases fo)
    have "parse_field (input @ rest) offset mx = Complete (f, offset')"
      using Complete fo by (auto intro: parse_field_append_Complete)
    moreover have "parse_fields (input @ rest) mx n offset' = Malformed"
      using Suc Complete fo by (auto split: parsed.splits)
    ultimately show ?thesis by simp
  next
    case Malformed
    then have "parse_field (input @ rest) offset mx = Malformed"
      by (rule parse_field_append_Malformed)
    then show ?thesis by simp
  qed (use Suc.prems in auto)
qed

lemma parse_command_append_Complete:
  assumes "kvs_parse_command_limited (Some input) cap mx = Complete r"
  shows "kvs_parse_command_limited (Some (input @ rest)) cap mx = Complete r"
proof -
  obtain count offset where num: "parse_number input 1 = Complete (count, offset)"
    using assms by (auto simp: kvs_parse_command_limited_def split: if_splits parsed.splits)
  have "parse_number (input @ rest) 1 = Complete (count, offset)"
    using num by (rule parse_number_append_Complete)
  with assms num show ?thesis
    by (auto simp: kvs_parse_command_limited_def nth_append split: if_splits
             dest: parse_fields_append_Complete)
qed

lemma parse_command_append_Malformed:
  assumes "kvs_parse_command_limited (Some input) cap mx = Malformed"
  shows "kvs_parse_command_limited (Some (input @ rest)) cap mx = Malformed"
proof (cases "parse_number input 1")
  case (Complete r)
  obtain count offset where r: "r = (count, offset)" by (cases r)
  have "parse_number (input @ rest) 1 = Complete (count, offset)"
    using Complete r by (auto intro: parse_number_append_Complete)
  with assms Complete r show ?thesis
    by (auto simp: kvs_parse_command_limited_def nth_append parse_fields_append_Malformed
             split: if_splits)
next
  case Incomplete
  with assms show ?thesis
    by (auto simp: kvs_parse_command_limited_def nth_append split: if_splits)
next
  case Malformed
  then have "parse_number (input @ rest) 1 = Malformed"
    by (rule parse_number_append_Malformed)
  with assms show ?thesis
    by (auto simp: kvs_parse_command_limited_def nth_append split: if_splits)
qed

lemma parse_command_Complete:
  assumes "kvs_parse_command_limited (Some input) cap mx = Complete (fs, p)"
  shows "0 < length fs" "length fs \<le> cap" "p \<le> length input" "p \<le> mx"
    "sum_list (map length fs) + 3 * length fs < p"
proof -
  obtain count offset where num: "parse_number input 1 = Complete (count, offset)"
      and body: "0 < count" "count \<le> cap" "parse_fields input mx count offset = Complete (fs, p)"
    using assms by (auto simp: kvs_parse_command_limited_def split: if_splits parsed.splits)
  have "1 < offset"
    using parse_number_Complete [OF num] by simp
  with parse_fields_Complete [OF body(3)] body
  show "0 < length fs" "length fs \<le> cap" "p \<le> length input" "p \<le> mx"
    "sum_list (map length fs) + 3 * length fs < p" by auto
qed

section \<open>What the encoders write\<close>

text \<open>The wire format, as a function of the fields.\<close>

fun decimal :: "nat \<Rightarrow> bytes" where
  "decimal n =
     (if n < 10 then [char_of (48 + n)] else decimal (n div 10) @ [char_of (48 + n mod 10)])"

declare decimal.simps [simp del]

definition field_bytes :: "bytes \<Rightarrow> bytes" where
  "field_bytes d = ''$'' @ decimal (length d) @ CRLF @ d @ CRLF"

definition command_bytes :: "bytes list \<Rightarrow> bytes" where
  "command_bytes fs = ''*'' @ decimal (length fs) @ CRLF @ concat (map field_bytes fs)"

lemma decimal_digits_loop: "decimal_digits_loop n d + 1 = d + length (decimal n)"
proof (induction n arbitrary: d rule: decimal.induct)
  case (1 n)
  then show ?case
    by (subst decimal_digits_loop.simps, subst decimal.simps) auto
qed

lemma decimal_digits [simp]: "decimal_digits n = length (decimal n)"
  using decimal_digits_loop [of n 1] by (simp add: decimal_digits_def)

lemma decimal_nonempty [simp]: "decimal n \<noteq> []"
  by (subst decimal.simps) simp

lemma length_decimal_pos [simp]: "0 < length (decimal n)"
  by simp

lemma write_decimal_loop:
  "length old = length (decimal n) \<Longrightarrow>
   write_decimal_loop (pre @ old @ post) (length pre) (length old) n = Inr (pre @ decimal n @ post)"
proof (induction n arbitrary: old post rule: decimal.induct)
  case (1 n)
  show ?case
  proof (cases "n < 10")
    case True
    then have "decimal n = [char_of (48 + n)]"
      by (simp add: decimal.simps)
    moreover from this obtain x where "old = [x]"
      using "1.prems" by (cases old) auto
    ultimately show ?thesis
      using True store_at_append [of "[x]" "[char_of (48 + n)]" pre post] by simp
  next
    case False
    then have d: "decimal n = decimal (n div 10) @ [char_of (48 + n mod 10)]"
      by (subst decimal.simps) simp
    obtain old' x where old: "old = old' @ [x]"
      using "1.prems" by (cases old rule: rev_cases) auto
    have "store_at (pre @ old @ post) (length pre + length old') [char_of (48 + n mod 10)]
        = Inr (pre @ old' @ [char_of (48 + n mod 10)] @ post)"
      using store_at_append [of "[x]" "[char_of (48 + n mod 10)]" "pre @ old'" post] old by simp
    moreover have "write_decimal_loop (pre @ old' @ [char_of (48 + n mod 10)] @ post)
        (length pre) (length old') (n div 10) = Inr (pre @ decimal (n div 10) @ [char_of (48 + n mod 10)] @ post)"
      using "1.IH" [OF False] "1.prems" d old by simp
    ultimately show ?thesis
      using old d by simp
  qed
qed

lemma write_decimal_append:
  "length old = length (decimal n) \<Longrightarrow>
   write_decimal (pre @ old @ post) (length pre) n = Inr (pre @ decimal n @ post, length (decimal n))"
  using write_decimal_loop [of old n pre post] by (simp add: write_decimal_def)

lemma split_at: "n \<le> length xs \<Longrightarrow> \<exists>old post. xs = old @ post \<and> length old = n"
  by (intro exI [of _ "take n xs"] exI [of _ "drop n xs"]) simp

lemma encode_field_at:
  assumes "length old = length (field_bytes d)"
  shows "encode_field_at (pre @ old @ post) (length pre) d
       = Inr (pre @ field_bytes d @ post, length pre + length (field_bytes d))"
proof -
  let ?dec = "decimal (length d)"
  obtain a b c e f where old: "old = a @ b @ c @ e @ f" and
      len: "length a = 1" "length b = length ?dec" "length c = 2" "length e = length d" "length f = 2"
  proof -
    have "length old = 1 + (length ?dec + (2 + (length d + 2)))"
      using assms by (simp add: field_bytes_def)
    then show thesis
      using that [of "take 1 old" "take (length ?dec) (drop 1 old)"
          "take 2 (drop (length ?dec) (drop 1 old))"
          "take (length d) (drop 2 (drop (length ?dec) (drop 1 old)))"
          "drop (length d) (drop 2 (drop (length ?dec) (drop 1 old)))"]
      by (auto simp only: append_take_drop_id length_take length_drop)
  qed
  have "store_at (pre @ old @ post) (length pre) ''$'' = Inr (pre @ ''$'' @ b @ c @ e @ f @ post)"
    using store_at_append [of a "''$''" pre "b @ c @ e @ f @ post"] old len by simp
  moreover have "write_decimal (pre @ ''$'' @ b @ c @ e @ f @ post) (length pre + 1) (length d)
      = Inr (pre @ ''$'' @ ?dec @ c @ e @ f @ post, length ?dec)"
    using write_decimal_append [of b "length d" "pre @ ''$''" "c @ e @ f @ post"] len by simp
  moreover have "store_at (pre @ ''$'' @ ?dec @ c @ e @ f @ post) (length pre + 1 + length ?dec) CRLF
      = Inr (pre @ ''$'' @ ?dec @ CRLF @ e @ f @ post)"
    using store_at_append [of c CRLF "pre @ ''$'' @ ?dec" "e @ f @ post"] len by simp
  moreover have "store_at (pre @ ''$'' @ ?dec @ CRLF @ e @ f @ post) (length pre + 1 + length ?dec + 2) d
      = Inr (pre @ ''$'' @ ?dec @ CRLF @ d @ f @ post)"
    using store_at_append [of e d "pre @ ''$'' @ ?dec @ CRLF" "f @ post"] len by simp
  moreover have "store_at (pre @ ''$'' @ ?dec @ CRLF @ d @ f @ post)
      (length pre + 1 + length ?dec + 2 + length d) CRLF
      = Inr (pre @ ''$'' @ ?dec @ CRLF @ d @ CRLF @ post)"
    using store_at_append [of f CRLF "pre @ ''$'' @ ?dec @ CRLF @ d" post] len
    by (simp add: add.assoc)
  ultimately show ?thesis
    by (simp add: encode_field_at_def field_bytes_def Let_def)
qed

lemma encode_fields_at:
  "length old = length (concat (map field_bytes fs)) \<Longrightarrow>
   encode_fields_at (pre @ old @ post) (length pre) (map Some fs)
     = Inr (pre @ concat (map field_bytes fs) @ post, length pre + length (concat (map field_bytes fs)))"
proof (induction fs arbitrary: pre old)
  case Nil
  then show ?case by simp
next
  case (Cons d fs)
  obtain o1 o2 where o: "old = o1 @ o2" "length o1 = length (field_bytes d)"
    using split_at [of "length (field_bytes d)" old] Cons.prems by auto
  have "encode_field_at (pre @ o1 @ o2 @ post) (length pre) d
      = Inr (pre @ field_bytes d @ o2 @ post, length pre + length (field_bytes d))"
    using o(2) by (rule encode_field_at)
  moreover have "encode_fields_at ((pre @ field_bytes d) @ o2 @ post) (length (pre @ field_bytes d)) (map Some fs)
      = Inr ((pre @ field_bytes d) @ concat (map field_bytes fs) @ post,
             length (pre @ field_bytes d) + length (concat (map field_bytes fs)))"
    using Cons.prems o by (intro Cons.IH) simp
  ultimately show ?case
    using o by simp
qed

lemma encoded_field_size:
  "encoded_field_size (length d) =
     (if length (field_bytes d) \<le> SIZE_MAX then Some (length (field_bytes d)) else None)"
proof -
  define n k where "n = length d" and "k = length (decimal n)"
  have "n = 0 \<Longrightarrow> k = 1"
    by (simp add: k_def decimal.simps)
  then have "n > SIZE_MAX - (1 + k + 4) \<longleftrightarrow> \<not> 1 + k + 4 + n \<le> SIZE_MAX"
    by (cases "n = 0") (simp add: SIZE_MAX_def, arith)
  then show ?thesis
    by (simp add: encoded_field_size_def field_bytes_def n_def k_def)
qed

lemma encoded_fields_size:
  "tot \<le> SIZE_MAX \<Longrightarrow>
   encoded_fields_size (map Some fs) tot =
     (if tot + length (concat (map field_bytes fs)) \<le> SIZE_MAX
      then Some (tot + length (concat (map field_bytes fs))) else None)"
proof (induction fs arbitrary: tot)
  case Nil
  then show ?case by simp
next
  case (Cons d fs)
  have "tot \<le> SIZE_MAX - n \<longleftrightarrow> tot + n \<le> SIZE_MAX" if "n \<le> SIZE_MAX" for n
    using that by auto
  with Cons show ?case
    by (auto simp: encoded_field_size add.assoc)
qed

lemma length_decimal_le: "length (decimal n) \<le> Suc n"
proof (induction n rule: decimal.induct)
  case (1 n)
  then show ?case
    by (cases "n < 10") (subst decimal.simps, force)+
qed

lemma length_field_bytes: "length (field_bytes d) = length d + length (decimal (length d)) + 5"
  by (simp add: field_bytes_def)

lemma length_concat_field_bytes: "length fs \<le> length (concat (map field_bytes fs))"
  by (induction fs) (auto simp: length_field_bytes)

lemma kvs_encoded_command_size:
  "kvs_encoded_command_size (map Some fs) =
     (if fs \<noteq> [] \<and> length (command_bytes fs) \<le> SIZE_MAX then Some (length (command_bytes fs)) else None)"
proof (cases "3 + length (decimal (length fs)) \<le> SIZE_MAX")
  case True
  then show ?thesis
    using encoded_fields_size [of "Suc (Suc (Suc (length (decimal (length fs)))))" fs]
    by (auto simp: kvs_encoded_command_size_def command_bytes_def)
next
  case False
  moreover have "tot > SIZE_MAX \<Longrightarrow> fs \<noteq> [] \<Longrightarrow> encoded_fields_size (map Some fs) tot = None" for tot
    by (cases fs) (auto simp: encoded_field_size)
  ultimately show ?thesis
    by (auto simp: kvs_encoded_command_size_def command_bytes_def)
qed

lemma encoded_command_size_None: "None \<in> set flds \<Longrightarrow> kvs_encoded_command_size flds = None"
proof -
  have "None \<in> set flds \<Longrightarrow> encoded_fields_size flds tot = None" for tot
    by (induction flds tot rule: encoded_fields_size.induct) (auto split: option.split)
  then show "None \<in> set flds \<Longrightarrow> kvs_encoded_command_size flds = None"
    by (auto simp: kvs_encoded_command_size_def)
qed

lemma all_Some_map: "None \<notin> set xs \<Longrightarrow> \<exists>ys. xs = map Some ys"
proof (induction xs)
  case (Cons x xs)
  then obtain y ys where "x = Some y" "xs = map Some ys" by (cases x) auto
  then show ?case by (intro exI [of _ "y # ys"]) simp
qed simp

lemma kvs_encode_command_fits:
  assumes "fs \<noteq> []" "length (command_bytes fs) \<le> SIZE_MAX" "length (command_bytes fs) \<le> length out"
  shows "kvs_encode_command (map Some fs) (Some out) =
     Inr (0, Some (command_bytes fs @ drop (length (command_bytes fs)) out), length (command_bytes fs))"
proof -
  let ?dec = "decimal (length fs)" and ?body = "concat (map field_bytes fs)"
  have out: "out = take (length (command_bytes fs)) out @ drop (length (command_bytes fs)) out"
    by simp
  obtain a b c e where o: "take (length (command_bytes fs)) out = a @ b @ c @ e" and
      len: "length a = 1" "length b = length ?dec" "length c = 2" "length e = length ?body"
  proof -
    let ?o = "take (length (command_bytes fs)) out"
    have "length ?o = 1 + (length ?dec + (2 + length ?body))"
      using assms(3) by (simp add: command_bytes_def)
    then show thesis
      using that [of "take 1 ?o" "take (length ?dec) (drop 1 ?o)"
          "take 2 (drop (length ?dec) (drop 1 ?o))" "drop 2 (drop (length ?dec) (drop 1 ?o))"]
      by (auto simp only: append_take_drop_id length_take length_drop)
  qed
  define post where "post = drop (length (command_bytes fs)) out"
  have out: "out = a @ b @ c @ e @ post"
    using out o post_def by simp
  have "store_at out 0 ''*'' = Inr (''*'' @ b @ c @ e @ post)"
    using store_at_append [of a "''*''" "[]" "b @ c @ e @ post"] out len by simp
  moreover have "write_decimal (''*'' @ b @ c @ e @ post) 1 (length fs)
      = Inr (''*'' @ ?dec @ c @ e @ post, length ?dec)"
    using write_decimal_append [of b "length fs" "''*''" "c @ e @ post"] len by simp
  moreover have "store_at (''*'' @ ?dec @ c @ e @ post) (1 + length ?dec) CRLF
      = Inr (''*'' @ ?dec @ CRLF @ e @ post)"
    using store_at_append [of c CRLF "''*'' @ ?dec" "e @ post"] len by simp
  moreover have "encode_fields_at (''*'' @ ?dec @ CRLF @ e @ post) (1 + length ?dec + 2) (map Some fs)
      = Inr (''*'' @ ?dec @ CRLF @ ?body @ post, 1 + length ?dec + 2 + length ?body)"
    using encode_fields_at [of e fs "''*'' @ ?dec @ CRLF" post] len by simp
  ultimately show ?thesis
    using assms post_def
    by (simp add: kvs_encode_command_def kvs_encoded_command_size command_bytes_def)
qed

section \<open>Parsing what was encoded\<close>

definition digits_value :: "nat \<Rightarrow> bytes \<Rightarrow> nat" where
  "digits_value acc ds = foldl (\<lambda>a c. a * 10 + digit_value c) acc ds"

lemma digits_value_simps [simp]:
  "digits_value acc [] = acc"
  "digits_value acc (c # ds) = digits_value (acc * 10 + digit_value c) ds"
  "digits_value acc (ds @ es) = digits_value (digits_value acc ds) es"
  by (simp_all add: digits_value_def)

lemma digits_value_ge: "acc \<le> digits_value acc ds"
proof (induction ds arbitrary: acc)
  case (Cons c ds)
  have "acc \<le> acc * 10 + digit_value c" by simp
  also have "\<dots> \<le> digits_value (acc * 10 + digit_value c) ds" by (rule Cons.IH)
  finally show ?case by simp
qed simp

lemma digit_char: "n < 10 \<Longrightarrow> is_digit (char_of (48 + n)) \<and> digit_value (char_of (48 + n)) = n"
  by (simp add: is_digit_def digit_value_def)

lemma decimal_all_digits: "c \<in> set (decimal n) \<Longrightarrow> is_digit c"
proof (induction n rule: decimal.induct)
  case (1 n)
  then show ?case
    using digit_char by (subst (asm) (2) decimal.simps) (auto split: if_splits)
qed

lemma digits_value_decimal: "digits_value 0 (decimal n) = n"
proof (induction n rule: decimal.induct)
  case (1 n)
  show ?case
  proof (cases "n < 10")
    case True
    then show ?thesis
      using digit_char by (subst decimal.simps) simp
  next
    case False
    then show ?thesis
      using "1.IH" [OF False] digit_char [of "n mod 10"] by (subst decimal.simps) simp
  qed
qed

lemma CR_no_digit [simp]: "\<not> is_digit CR"
  by (simp add: is_digit_def CR_def)

lemma scan_digits_run:
  "(\<And>c. c \<in> set ds \<Longrightarrow> is_digit c) \<Longrightarrow> digits_value val ds \<le> SIZE_MAX \<Longrightarrow> \<not> is_digit c \<Longrightarrow>
   scan_digits (pre @ ds @ c # post) (length pre) val = Some (length pre + length ds, digits_value val ds)"
proof (induction ds arbitrary: pre val)
  case Nil
  then show ?case by (subst scan_digits.simps) simp
next
  case (Cons d ds)
  have "val * 10 + digit_value d \<le> SIZE_MAX"
    using Cons.prems(2) digits_value_ge [of "val * 10 + digit_value d" ds] by simp
  then have "\<not> val > (SIZE_MAX - digit_value d) div 10"
    by simp
  moreover have "scan_digits ((pre @ [d]) @ ds @ c # post) (length (pre @ [d])) (val * 10 + digit_value d)
      = Some (length (pre @ [d]) + length ds, digits_value (val * 10 + digit_value d) ds)"
    using Cons.prems by (intro Cons.IH) auto
  ultimately show ?case
    using Cons.prems(1) [of d] by (subst scan_digits.simps) (simp add: Let_def)
qed

lemma parse_number_decimal:
  assumes "n \<le> SIZE_MAX"
  shows "parse_number (pre @ decimal n @ CRLF @ post) (length pre)
       = Complete (n, length pre + length (decimal n) + 2)"
proof -
  let ?i = "pre @ decimal n @ CR # LF # post"
  have scan: "scan_digits ?i (length pre) 0 = Some (length pre + length (decimal n), n)"
    using scan_digits_run [of "decimal n" 0 CR pre "LF # post"] assms decimal_all_digits
    by (simp add: digits_value_decimal)
  obtain c cs where dec: "decimal n = c # cs"
    by (cases "decimal n") auto
  then have "is_digit (?i ! length pre)"
    using decimal_all_digits [of c n] by simp
  moreover have "?i ! (length pre + length (decimal n)) = CR"
    "?i ! (length pre + length (decimal n) + 1) = LF"
    by (simp_all add: nth_append)
  ultimately show ?thesis
    using scan by (simp add: parse_number_def CRLF_def)
qed

lemma parse_field_field_bytes:
  assumes "length pre + length (field_bytes d) \<le> mx" "mx \<le> SIZE_MAX"
  shows "parse_field (pre @ field_bytes d @ post) (length pre) mx
       = Complete (d, length pre + length (field_bytes d))"
proof -
  let ?dec = "decimal (length d)"
  let ?i = "pre @ field_bytes d @ post"
  have i: "?i = (pre @ ''$'') @ ?dec @ CRLF @ (d @ CRLF @ post)"
    by (simp add: field_bytes_def)
  have num: "parse_number ?i (length pre + 1) = Complete (length d, length pre + 1 + length ?dec + 2)"
    using parse_number_decimal [of "length d" "pre @ ''$''" "d @ CRLF @ post"] assms i
    by (simp add: length_field_bytes)
  define pos where "pos = length pre + 1 + length ?dec + 2"
  define front where "front = pre @ ''$'' @ ?dec @ CRLF"
  have split: "?i = front @ d @ CRLF @ post" and pos: "pos = length front"
    by (simp_all add: front_def pos_def field_bytes_def)
  have drop: "drop pos ?i = d @ CRLF @ post"
    by (simp add: split pos)
  have nth: "?i ! (pos + k) = (d @ CRLF @ post) ! k" for k
    by (simp add: split pos)
  have "?i ! (pos + length d) = CR" "?i ! (pos + length d + 1) = LF"
    using nth [of "length d"] nth [of "length d + 1"] by (simp_all add: nth_append CRLF_def add.assoc)
  moreover have "take (length d) (drop pos ?i) = d"
    using drop by simp
  moreover have total: "length pre + length (field_bytes d) = pos + length d + 2"
    by (simp add: pos_def length_field_bytes)
  moreover have "?i ! length pre = CHR ''$''" "length pre < length ?i"
    by (simp_all add: field_bytes_def)
  moreover have "pos + length d + 2 \<le> length ?i" "pos + length d + 2 \<le> mx"
    using total assms by simp_all
  moreover have "parse_number ?i (length pre + 1) = Complete (length d, pos)"
    using num by (simp only: pos_def)
  ultimately show ?thesis
    using parse_field_CompleteI by metis
qed

text \<open>A run of encoded fields, anywhere in the input.\<close>

lemma parse_fields_field_bytes:
  "length pre + length (concat (map field_bytes fs)) \<le> mx \<Longrightarrow> mx \<le> SIZE_MAX \<Longrightarrow>
   parse_fields (pre @ concat (map field_bytes fs) @ post) mx (length fs) (length pre)
     = Complete (fs, length pre + length (concat (map field_bytes fs)))"
proof (induction fs arbitrary: pre)
  case Nil
  then show ?case by simp
next
  case (Cons d fs)
  have "parse_field (pre @ field_bytes d @ concat (map field_bytes fs) @ post) (length pre) mx
      = Complete (d, length pre + length (field_bytes d))"
    using Cons.prems by (intro parse_field_field_bytes) auto
  moreover have "parse_fields ((pre @ field_bytes d) @ concat (map field_bytes fs) @ post) mx
      (length fs) (length (pre @ field_bytes d))
    = Complete (fs, length (pre @ field_bytes d) + length (concat (map field_bytes fs)))"
    using Cons.prems by (intro Cons.IH) auto
  ultimately show ?case by simp
qed

lemma parse_command_bytes:
  assumes "fs \<noteq> []" "length fs \<le> cap" "length (command_bytes fs) \<le> mx" "mx \<le> SIZE_MAX"
  shows "kvs_parse_command_limited (Some (command_bytes fs @ post)) cap mx
       = Complete (fs, length (command_bytes fs))"
proof -
  let ?dec = "decimal (length fs)" and ?body = "concat (map field_bytes fs)"
  have le: "length fs \<le> SIZE_MAX" and pos: "0 < cap"
    using assms length_concat_field_bytes [of fs] by (cases fs; simp add: command_bytes_def)+
  have "parse_number (''*'' @ ?dec @ CRLF @ (?body @ post)) (length ''*'')
      = Complete (length fs, length ''*'' + length ?dec + 2)"
    using le by (rule parse_number_decimal)
  moreover have "parse_fields ((''*'' @ ?dec @ CRLF) @ ?body @ post) mx (length fs)
        (length (''*'' @ ?dec @ CRLF))
      = Complete (fs, length (''*'' @ ?dec @ CRLF) + length ?body)"
    using assms by (intro parse_fields_field_bytes) (auto simp: command_bytes_def)
  ultimately show ?thesis
    using assms pos by (auto simp: kvs_parse_command_limited_def command_bytes_def)
qed

lemma parse_command_strict_prefix:
  assumes "fs \<noteq> []" "length fs \<le> cap" "length (command_bytes fs) \<le> mx" "mx \<le> SIZE_MAX"
    and part: "command_bytes fs = part @ missing" "missing \<noteq> []"
  shows "kvs_parse_command_limited (Some part) cap mx = Incomplete"
proof (cases "kvs_parse_command_limited (Some part) cap mx")
  case (Complete r)
  have "kvs_parse_command_limited (Some (part @ missing)) cap mx = Complete r"
    using Complete by (rule parse_command_append_Complete)
  then have "r = (fs, length (command_bytes fs))"
    using parse_command_bytes [OF assms(1-4), of "[]"] part(1) by simp
  then have "length (command_bytes fs) \<le> length part"
    using Complete parse_command_Complete(3) by blast
  with part show ?thesis by simp
next
  case Malformed
  then have "kvs_parse_command_limited (Some (part @ missing)) cap mx = Malformed"
    by (rule parse_command_append_Malformed)
  then show ?thesis
    using parse_command_bytes [OF assms(1-4), of "[]"] part(1) by simp
qed

lemmas codec_defs = kvs_parse_command_limited_def kvs_parse_command_def parse_field_def
  parse_number_def kvs_encode_command_def kvs_encoded_command_size_def encoded_field_size_def

end
