(* ===== verification/Buffer.thy ===== *)
theory Buffer
  imports Kvs_Prelude
begin

text \<open>
  The connection buffers of \<open>src/src/network/buffer.c\<close>: growing them, taking consumed
  bytes off the front of the input, and the line protocol that cuts a run of received
  bytes into frames.  \<open>int\<close> fields stay integers with the source's overflow guards;
  the storage behind \<open>data\<close> is the list of its bytes.
\<close>

section \<open>Growing a buffer\<close>

definition BUFFER_LENGTH :: int where
  "BUFFER_LENGTH = 1024"

record kvs_input_buffer_t =
  in_data :: "bytes option"
  in_length :: int
  in_capacity :: int

record kvs_output_buffer_t =
  out_data :: "bytes option"
  out_length :: int
  out_offset :: int
  out_capacity :: int

text \<open>
  The doubling loop.  It is entered with a positive capacity only (the old one, or
  \<open>BUFFER_LENGTH\<close>), which the first guard records.
\<close>

function grow_capacity :: "int \<Rightarrow> int \<Rightarrow> int" where
  "grow_capacity new_capacity required =
     (if 0 < new_capacity \<and> new_capacity < required
      then grow_capacity
             (if new_capacity > INT_MAX div 2 then required else new_capacity * 2) required
      else new_capacity)"
  by pat_completeness auto
termination
  by (relation "measure (\<lambda>(c, r). nat (r - c))") auto

declare grow_capacity.simps [simp del]

text \<open>
  The second half of \<open>ensure_buffer_space\<close>: request the new storage, copy the bytes in
  use, then give the old storage back.  A refused request changes nothing.
\<close>

definition replace_storage ::
    "bytes option \<Rightarrow> int \<Rightarrow> int \<Rightarrow> int \<Rightarrow> sys \<Rightarrow> (int \<times> bytes option \<times> int \<times> sys) run" where
  "replace_storage data len capacity new_capacity s =
     (case kvs_malloc_bytes (nat new_capacity) s of
        (None, s) \<Rightarrow> Inr (-1, data, capacity, s)
      | (Some new_data, s) \<Rightarrow>
          bindr (if len > 0 then
                   (case data of
                      None \<Rightarrow> Inl Null_deref
                    | Some old \<Rightarrow>
                        if nat len \<le> length old then store_at new_data 0 (take (nat len) old)
                        else Inl Out_of_bounds)
                 else Inr new_data)
            (\<lambda>new_data. Inr (0, Some new_data, new_capacity, kvs_free_opt data s)))"

text \<open>
  Shared by both kinds of buffer: the return code, the new \<open>*data\<close> and the new
  \<open>*capacity\<close>.
\<close>

definition ensure_buffer_space ::
    "bytes option \<Rightarrow> int \<Rightarrow> int \<Rightarrow> int \<Rightarrow> sys \<Rightarrow> (int \<times> bytes option \<times> int \<times> sys) run" where
  "ensure_buffer_space data len capacity minimum_free s =
     (if minimum_free \<le> 0 \<or> len < 0 \<or> capacity < 0 \<or> len > capacity
      then Inr (-1, data, capacity, s)
      else if (capacity = 0 \<and> data \<noteq> None) \<or> (capacity > 0 \<and> data = None)
      then Inr (-1, data, capacity, s)
      else if capacity - len \<ge> minimum_free then Inr (0, data, capacity, s)
      else if len > INT_MAX - minimum_free then Inr (-1, data, capacity, s)
      else
        let required = len + minimum_free;
            new_capacity = grow_capacity (if capacity > 0 then capacity else BUFFER_LENGTH) required
        in replace_storage data len capacity new_capacity s)"

definition kvs_input_buffer_ensure_space ::
    "kvs_input_buffer_t \<Rightarrow> int \<Rightarrow> sys \<Rightarrow> (int \<times> kvs_input_buffer_t \<times> sys) run" where
  "kvs_input_buffer_ensure_space buf minimum_free s =
     bindr (ensure_buffer_space (in_data buf) (in_length buf) (in_capacity buf) minimum_free s)
       (\<lambda>(r, data, capacity, s). Inr (r, buf\<lparr>in_data := data, in_capacity := capacity\<rparr>, s))"

definition kvs_input_buffer_free :: "kvs_input_buffer_t \<Rightarrow> sys \<Rightarrow> kvs_input_buffer_t \<times> sys" where
  "kvs_input_buffer_free buf s =
     (\<lparr>in_data = None, in_length = 0, in_capacity = 0\<rparr>, kvs_free_opt (in_data buf) s)"

definition kvs_output_buffer_ensure_space ::
    "kvs_output_buffer_t \<Rightarrow> int \<Rightarrow> sys \<Rightarrow> (int \<times> kvs_output_buffer_t \<times> sys) run" where
  "kvs_output_buffer_ensure_space buf minimum_free s =
     (if out_offset buf < 0 \<or> out_offset buf > out_length buf then Inr (-1, buf, s)
      else bindr (ensure_buffer_space (out_data buf) (out_length buf) (out_capacity buf) minimum_free s)
        (\<lambda>(r, data, capacity, s). Inr (r, buf\<lparr>out_data := data, out_capacity := capacity\<rparr>, s)))"

definition kvs_output_buffer_free :: "kvs_output_buffer_t \<Rightarrow> sys \<Rightarrow> kvs_output_buffer_t \<times> sys" where
  "kvs_output_buffer_free buf s =
     (\<lparr>out_data = None, out_length = 0, out_offset = 0, out_capacity = 0\<rparr>,
      kvs_free_opt (out_data buf) s)"

text \<open>
  \<open>memmove\<close> of the unprocessed tail to the front; the bytes behind the moved ones keep
  what they held.
\<close>

definition kvs_input_buffer_consume ::
    "kvs_input_buffer_t \<Rightarrow> int \<Rightarrow> (int \<times> kvs_input_buffer_t) run" where
  "kvs_input_buffer_consume buf consumed_length =
     (if consumed_length > in_length buf \<or> consumed_length < 0 then Inr (-1, buf)
      else let remaining_length = in_length buf - consumed_length
           in bindr (if consumed_length > 0 \<and> remaining_length > 0
                     then (case in_data buf of
                             None \<Rightarrow> Inl Null_deref
                           | Some d \<Rightarrow>
                               if nat (in_length buf) \<le> length d
                               then bindr (store_at d 0
                                      (take (nat remaining_length) (drop (nat consumed_length) d)))
                                    (\<lambda>d. Inr (Some d))
                               else Inl Out_of_bounds)
                     else Inr (in_data buf))
                (\<lambda>data. Inr (0, buf\<lparr>in_data := data, in_length := remaining_length\<rparr>)))"

section \<open>Cutting lines\<close>

text \<open>
  The scan of \<open>kvs_find_line_end\<close> from index \<open>i\<close>: the index of the delimiter and its
  length, or \<open>None\<close> (return code \<open>-1\<close>) when no newline has arrived yet.
\<close>

function find_newline :: "bytes \<Rightarrow> nat \<Rightarrow> (nat \<times> nat) option" where
  "find_newline msg i =
     (if i < length msg
      then if msg ! i \<noteq> LF then find_newline msg (i + 1)
           else if i > 0 \<and> msg ! (i - 1) = CR then Some (i - 1, 2)
           else Some (i, 1)
      else None)"
  by pat_completeness auto
termination
  by (relation "measure (\<lambda>(msg, i). length msg - i)") auto

declare find_newline.simps [simp del]

definition kvs_find_line_end :: "bytes \<Rightarrow> (nat \<times> nat) option" where
  "kvs_find_line_end msg = (if length msg \<le> 0 then None else find_newline msg 0)"

text \<open>
  A frame handler receives the connection, the frame and the room left in the response,
  and returns a length and the bytes it wrote there; \<open>'s\<close> is the state it works on.
\<close>

type_synonym 's kvs_frame_handler = "int \<Rightarrow> bytes \<Rightarrow> int \<Rightarrow> 's \<Rightarrow> (int \<times> bytes \<times> 's) run"

text \<open>
  The loop of \<open>kvs_line_batch_protocol\<close>.  \<open>request_offset\<close> is where the next frame
  starts; the response bytes written so far are \<open>response\<close>, whose length is
  \<open>response_offset\<close>.  The delimiter byte that is overwritten by NUL is written back
  into the message.  A loop round is made only while the offset is inside the message,
  and every round moves it forward.
\<close>

function line_batch_loop ::
    "int \<Rightarrow> bytes \<Rightarrow> int \<Rightarrow> 's kvs_frame_handler \<Rightarrow> nat \<Rightarrow> bytes \<Rightarrow> 's \<Rightarrow>
     (int \<times> nat \<times> bytes \<times> bytes \<times> 's) run" where
  "line_batch_loop fd msg response_capacity handler request_offset response st =
     (if request_offset < length msg then
        (case kvs_find_line_end (drop request_offset msg) of
           None \<Rightarrow> Inr (int (length response), request_offset, msg, response, st)
         | Some (frame_end, delimiter_length) \<Rightarrow>
             if frame_end = 0 then Inr (-1, 0, msg, response, st)
             else
               let msg = msg[request_offset + frame_end := NUL]
               in if int (length response) \<ge> response_capacity then Inr (-1, 0, msg, response, st)
                  else
                    let room = response_capacity - int (length response)
                    in bindr (handler fd (take frame_end (drop request_offset msg)) room st)
                         (\<lambda>(response_length, written, st).
                            if response_length < 0 \<or> response_length > room
                            then Inr (-1, 0, msg, response, st)
                            else line_batch_loop fd msg response_capacity handler
                                   (request_offset + (frame_end + delimiter_length))
                                   (response @ take (nat response_length) written) st))
      else Inr (int (length response), request_offset, msg, response, st))"
  by pat_completeness auto
termination
  by (relation "measure (\<lambda>(fd, msg, c, h, off, r, st). length msg - off)") auto

declare line_batch_loop.simps [simp del]

text \<open>Return value, \<open>*consumed_length\<close>, the message afterwards, the response, the state.\<close>

definition kvs_line_batch_protocol ::
    "int \<Rightarrow> bytes \<Rightarrow> int \<Rightarrow> 's kvs_frame_handler \<Rightarrow> 's \<Rightarrow>
     (int \<times> nat \<times> bytes \<times> bytes \<times> 's) run" where
  "kvs_line_batch_protocol fd msg response_capacity handler st =
     (if length msg \<le> 0 \<or> response_capacity \<le> 0 then Inr (-1, 0, msg, [], st)
      else line_batch_loop fd msg response_capacity handler 0 [] st)"

section \<open>Lemmas\<close>

text \<open>
  The shape of a buffer between calls: nothing allocated and no capacity, or storage of
  exactly \<open>capacity\<close> bytes of which the first \<open>length\<close> are in use.
\<close>

definition buffer_ok :: "bytes option \<Rightarrow> int \<Rightarrow> int \<Rightarrow> bool" where
  "buffer_ok data len capacity \<longleftrightarrow>
     0 \<le> len \<and> len \<le> capacity \<and> capacity \<le> INT_MAX \<and>
     (case data of None \<Rightarrow> capacity = 0 | Some d \<Rightarrow> 0 < capacity \<and> int (length d) = capacity)"

definition input_ok :: "kvs_input_buffer_t \<Rightarrow> bool" where
  "input_ok buf = buffer_ok (in_data buf) (in_length buf) (in_capacity buf)"

definition output_ok :: "kvs_output_buffer_t \<Rightarrow> bool" where
  "output_ok buf \<longleftrightarrow> buffer_ok (out_data buf) (out_length buf) (out_capacity buf) \<and>
     0 \<le> out_offset buf \<and> out_offset buf \<le> out_length buf"

text \<open>The bytes of a buffer that are in use.\<close>

definition contents :: "bytes option \<Rightarrow> int \<Rightarrow> bytes" where
  "contents data len = (case data of None \<Rightarrow> [] | Some d \<Rightarrow> take (nat len) d)"

lemma contents_0 [simp]: "contents data 0 = []"
  by (simp add: contents_def split: option.split)

lemma grow_capacity_ge: "0 < c \<Longrightarrow> required \<le> grow_capacity c required"
proof (induction c required rule: grow_capacity.induct)
  case (1 c required)
  then show ?case
    by (subst grow_capacity.simps) auto
qed

lemma grow_capacity_le:
  "0 < c \<Longrightarrow> c \<le> INT_MAX \<Longrightarrow> required \<le> INT_MAX \<Longrightarrow> grow_capacity c required \<le> INT_MAX"
proof (induction c required rule: grow_capacity.induct)
  case (1 c required)
  have "c \<le> INT_MAX div 2 \<Longrightarrow> c * 2 \<le> INT_MAX"
    by simp
  with 1 show ?case
    by (subst grow_capacity.simps) auto
qed

lemma kvs_malloc_bytes_cases:
  obtains (granted) d s' where "kvs_malloc_bytes n s = (Some d, s')" "length d = n"
      "s_live s' = s_live s + 1"
  | (refused) s' where "kvs_malloc_bytes n s = (None, s')" "s_live s' = s_live s"
      "n = 0 \<or> \<not> plenty s"
proof (cases rule: kvs_malloc_cases [of n s])
  case (granted s')
  then show thesis
    using that(1) by (simp add: kvs_malloc_bytes_def)
next
  case (refused s')
  then show thesis
    using that(2) by (simp add: kvs_malloc_bytes_def)
qed

text \<open>How many blocks the buffer holds.\<close>

definition owned_data :: "bytes option \<Rightarrow> int" where
  "owned_data data = (case data of None \<Rightarrow> 0 | Some _ \<Rightarrow> 1)"

lemma replace_storage_spec:
  assumes ok: "buffer_ok data len capacity" and nc: "len < nc" "nc \<le> INT_MAX"
  obtains (installed) d s' where "replace_storage data len capacity nc s = Inr (0, Some d, nc, s')"
      "buffer_ok (Some d) len nc" "contents (Some d) len = contents data len"
      "s_live s' = s_live s + 1 - owned_data data"
  | (refused) s' where "replace_storage data len capacity nc s = Inr (-1, data, capacity, s')"
      "s_live s' = s_live s" "\<not> plenty s"
proof (cases rule: kvs_malloc_bytes_cases [of "nat nc" s])
  case r: (refused s')
  moreover have "nat nc \<noteq> 0"
    using ok nc by (simp add: buffer_ok_def)
  ultimately show thesis
    using refused by (simp add: replace_storage_def)
next
  case (granted d s')
  define d' where "d' = (if len > 0 then take (nat len) (the data) @ drop (nat len) d else d)"
  show thesis
  proof (rule installed [of d' "kvs_free_opt data s'"])
    show "replace_storage data len capacity nc s = Inr (0, Some d', nc, kvs_free_opt data s')"
      using granted ok nc
      by (auto simp: replace_storage_def d'_def store_at_def buffer_ok_def min_def split: option.splits)
    show "buffer_ok (Some d') len nc" "contents (Some d') len = contents data len"
      using granted ok nc
      by (auto simp: d'_def buffer_ok_def contents_def min_def split: option.splits)
    show "s_live (kvs_free_opt data s') = s_live s + 1 - owned_data data"
      using granted by (simp add: owned_data_def split: option.split)
  qed
qed

lemma ensure_buffer_space_spec:
  assumes ok: "buffer_ok data len capacity"
  obtains r data' capacity' s' where
    "ensure_buffer_space data len capacity minimum_free s = Inr (r, data', capacity', s')"
    "buffer_ok data' len capacity'" "contents data' len = contents data len"
    "capacity \<le> capacity'"
    "s_live s' - owned_data data' = s_live s - owned_data data"
    "r = 0 \<and> minimum_free \<le> capacity' - len \<or> r = -1 \<and> data' = data \<and> capacity' = capacity"
    "plenty s \<Longrightarrow> 0 < minimum_free \<Longrightarrow> len + minimum_free \<le> INT_MAX \<Longrightarrow> r = 0"
proof -
  have shape: "\<not> (len < 0 \<or> capacity < 0 \<or> len > capacity)"
    "\<not> ((capacity = 0 \<and> data \<noteq> None) \<or> (capacity > 0 \<and> data = None))"
    using ok by (auto simp: buffer_ok_def split: option.splits)
  consider (refuse) "minimum_free \<le> 0 \<or> len > INT_MAX - minimum_free \<and> \<not> capacity - len \<ge> minimum_free"
    | (fits) "0 < minimum_free" "capacity - len \<ge> minimum_free"
    | (grow) "0 < minimum_free" "\<not> capacity - len \<ge> minimum_free" "len \<le> INT_MAX - minimum_free"
    by linarith
  then show thesis
  proof cases
    case refuse
    then have "ensure_buffer_space data len capacity minimum_free s = Inr (-1, data, capacity, s)"
      using shape by (auto simp: ensure_buffer_space_def)
    then show thesis
      by (rule that) (use ok refuse in auto)
  next
    case fits
    then have "ensure_buffer_space data len capacity minimum_free s = Inr (0, data, capacity, s)"
      using shape by (simp add: ensure_buffer_space_def)
    then show thesis
      by (rule that) (use ok fits in auto)
  next
    case grow
    define c0 where "c0 = (if capacity > 0 then capacity else BUFFER_LENGTH)"
    define nc where "nc = grow_capacity c0 (len + minimum_free)"
    have "0 < c0" "c0 \<le> INT_MAX"
      using ok by (auto simp: c0_def BUFFER_LENGTH_def INT_MAX_def buffer_ok_def)
    then have nc: "len + minimum_free \<le> nc" "nc \<le> INT_MAX"
      using grow_capacity_ge [of c0 "len + minimum_free"] grow_capacity_le [of c0 "len + minimum_free"]
        grow by (auto simp: nc_def)
    have unfold: "ensure_buffer_space data len capacity minimum_free s = replace_storage data len capacity nc s"
      using grow shape by (auto simp: ensure_buffer_space_def nc_def c0_def Let_def)
    have "len < nc"
      using nc grow by simp
    from ok this nc(2) show thesis
    proof (cases rule: replace_storage_spec [where s = s])
      case (installed d s')
      then show thesis
        by (intro that [of 0 "Some d" nc s']) (use unfold nc grow in \<open>auto simp: owned_data_def\<close>)
    next
      case (refused s')
      then show thesis
        by (intro that [of "-1" data capacity s']) (use unfold ok in auto)
    qed
  qed
qed

lemma input_ensure_space:
  assumes "input_ok buf"
  shows "\<exists>r buf' s'. kvs_input_buffer_ensure_space buf minimum_free s = Inr (r, buf', s') \<and>
     input_ok buf' \<and> in_length buf' = in_length buf \<and>
     contents (in_data buf') (in_length buf') = contents (in_data buf) (in_length buf) \<and>
     s_live s' - owned_data (in_data buf') = s_live s - owned_data (in_data buf) \<and>
     (r = 0 \<and> minimum_free \<le> in_capacity buf' - in_length buf' \<or> r = -1 \<and> buf' = buf)"
  by (rule ensure_buffer_space_spec [OF assms [unfolded input_ok_def], of minimum_free s])
     (auto simp: kvs_input_buffer_ensure_space_def input_ok_def)

lemma output_ensure_space:
  assumes "output_ok buf"
  obtains r buf' s' where "kvs_output_buffer_ensure_space buf minimum_free s = Inr (r, buf', s')"
    "output_ok buf'" "out_length buf' = out_length buf" "out_offset buf' = out_offset buf"
    "contents (out_data buf') (out_length buf') = contents (out_data buf) (out_length buf)"
    "s_live s' - owned_data (out_data buf') = s_live s - owned_data (out_data buf)"
    "r = 0 \<and> minimum_free \<le> out_capacity buf' - out_length buf' \<or> r = -1 \<and> buf' = buf"
proof -
  have ok: "buffer_ok (out_data buf) (out_length buf) (out_capacity buf)"
      and off: "\<not> (out_offset buf < 0 \<or> out_offset buf > out_length buf)"
    using assms by (auto simp: output_ok_def)
  show thesis
  proof (rule ensure_buffer_space_spec [OF ok, of minimum_free s])
    fix r data' capacity' s'
    assume a: "ensure_buffer_space (out_data buf) (out_length buf) (out_capacity buf) minimum_free s
        = Inr (r, data', capacity', s')"
      "buffer_ok data' (out_length buf) capacity'"
      "contents data' (out_length buf) = contents (out_data buf) (out_length buf)"
      "s_live s' - owned_data data' = s_live s - owned_data (out_data buf)"
      "r = 0 \<and> minimum_free \<le> capacity' - out_length buf \<or>
       r = -1 \<and> data' = out_data buf \<and> capacity' = out_capacity buf"
    have "kvs_output_buffer_ensure_space buf minimum_free s
        = Inr (r, buf\<lparr>out_data := data', out_capacity := capacity'\<rparr>, s')"
      using off a(1) by (simp add: kvs_output_buffer_ensure_space_def)
    then show thesis
      by (rule that) (use a(2-) assms in \<open>auto simp: output_ok_def\<close>)
  qed
qed

lemma input_consume:
  assumes ok: "input_ok buf" and n: "0 \<le> n" "n \<le> in_length buf"
  shows "\<exists>buf'. kvs_input_buffer_consume buf n = Inr (0, buf') \<and> input_ok buf' \<and>
     in_length buf' = in_length buf - n \<and> in_capacity buf' = in_capacity buf \<and>
     contents (in_data buf') (in_length buf') = drop (nat n) (contents (in_data buf) (in_length buf))"
proof (cases "in_data buf")
  case None
  then show ?thesis
    using ok n
    by (auto simp: input_ok_def buffer_ok_def kvs_input_buffer_consume_def contents_def)
next
  case (Some d)
  then have d: "in_length buf \<le> int (length d)"
    using ok by (auto simp: input_ok_def buffer_ok_def)
  show ?thesis
  proof (cases "n > 0 \<and> in_length buf - n > 0")
    case True
    let ?d = "take (nat (in_length buf - n)) (drop (nat n) d) @ drop (nat (in_length buf - n)) d"
    have len: "length (take (nat (in_length buf - n)) (drop (nat n) d)) = nat (in_length buf - n)"
        "nat (in_length buf) \<le> length d" "nat (in_length buf - n) \<le> length d"
      using True d n by (simp_all add: nat_diff_distrib)
    have "store_at d 0 (take (nat (in_length buf - n)) (drop (nat n) d)) = Inr ?d"
      using len(3) by (simp add: store_at_def len(1) del: length_take)
    then have "kvs_input_buffer_consume buf n =
        Inr (0, buf\<lparr>in_data := Some ?d, in_length := in_length buf - n\<rparr>)"
      using True Some n len(2)
      by (simp add: kvs_input_buffer_consume_def Let_def)
    moreover have "length ?d = length d"
      using True d n by simp
    ultimately show ?thesis
      using ok Some True d n
      by (auto simp: input_ok_def buffer_ok_def contents_def drop_take nat_diff_distrib)
  next
    case False
    then have "n = 0 \<or> in_length buf = n"
      using n by auto
    with False show ?thesis
      using ok Some n
      by (auto simp: kvs_input_buffer_consume_def input_ok_def buffer_ok_def contents_def Let_def)
  qed
qed

lemma input_consume_refused:
  "n < 0 \<or> in_length buf < n \<Longrightarrow> kvs_input_buffer_consume buf n = Inr (-1, buf)"
  by (auto simp: kvs_input_buffer_consume_def)

lemma find_newline_spec:
  "find_newline msg i = Some (e, n) \<Longrightarrow> (\<And>j. j < i \<Longrightarrow> msg ! j \<noteq> LF) \<Longrightarrow>
   i \<le> e + n \<and> e + n \<le> length msg \<and> (n = 1 \<or> n = 2 \<and> msg ! e = CR) \<and>
   msg ! (e + n - 1) = LF \<and> LF \<notin> set (take (e + n - 1) msg)"
proof (induction msg i rule: find_newline.induct)
  case (1 msg i)
  show ?case
  proof (cases "i < length msg \<and> msg ! i = LF")
    case True
    have "LF \<notin> set (take i msg)"
      using True "1.prems"(2) by (auto simp: in_set_conv_nth)
    moreover have "find_newline msg i = (if i > 0 \<and> msg ! (i - 1) = CR then Some (i - 1, 2) else Some (i, 1))"
      using True by (subst find_newline.simps) simp
    ultimately show ?thesis
      using True "1.prems"(1) by (auto split: if_splits)
  next
    case False
    then have i: "i < length msg" "msg ! i \<noteq> LF" "find_newline msg (i + 1) = Some (e, n)"
      using "1.prems"(1) by (simp_all add: find_newline.simps [of msg i] split: if_splits)
    have "msg ! j \<noteq> LF" if "j < i + 1" for j
      using that "1.prems"(2) i(2) by (cases "j = i") auto
    with "1.IH" [OF i(1,2,3)] show ?thesis by simp
  qed
qed

lemma find_newline_None: "find_newline msg i = None \<longleftrightarrow> LF \<notin> set (drop i msg)"
proof (induction msg i rule: find_newline.induct)
  case (1 msg i)
  show ?case
  proof (cases "i < length msg")
    case True
    then have "drop i msg = msg ! i # drop (i + 1) msg"
      by (simp add: Cons_nth_drop_Suc)
    with 1 True show ?thesis
      by (subst find_newline.simps) auto
  next
    case False
    then show ?thesis
      by (subst find_newline.simps) simp
  qed
qed

lemma find_line_end_None: "kvs_find_line_end msg = None \<longleftrightarrow> LF \<notin> set msg"
  by (auto simp: kvs_find_line_end_def find_newline_None)

lemma find_line_end_Some:
  assumes "kvs_find_line_end msg = Some (e, n)"
  shows "e + n \<le> length msg" "n = 1 \<or> n = 2 \<and> msg ! e = CR" "msg ! (e + n - 1) = LF"
    "LF \<notin> set (take (e + n - 1) msg)"
  using assms find_newline_spec [of msg 0 e n] by (auto simp: kvs_find_line_end_def split: if_splits)

lemmas find_line_end_facts = find_line_end_None find_line_end_Some

text \<open>
  What the loop leaves when it does not fail: everything up to the last newline is
  consumed, the rest is untouched, and the response has not passed its capacity.
\<close>

lemma line_batch_loop_spec:
  "line_batch_loop fd msg cap h off response st = Inr (r, consumed, msg', response', st') \<Longrightarrow>
   off \<le> length msg \<Longrightarrow> int (length response) \<le> cap \<Longrightarrow>
   r = -1 \<and> consumed = 0 \<or>
   r = int (length response') \<and> r \<le> cap \<and> off \<le> consumed \<and> consumed \<le> length msg \<and>
   drop consumed msg' = drop consumed msg \<and> LF \<notin> set (drop consumed msg)"
proof (induction fd msg cap h off response st rule: line_batch_loop.induct)
  case (1 fd msg cap h off response st)
  show ?case
  proof (cases "off < length msg \<and> LF \<in> set (drop off msg)")
    case False
    then have "kvs_find_line_end (drop off msg) = None \<or> off = length msg"
      using "1.prems"(2) by (auto simp: find_line_end_None)
    then have "line_batch_loop fd msg cap h off response st
        = Inr (int (length response), off, msg, response, st)"
      by (subst line_batch_loop.simps) auto
    with False "1.prems" show ?thesis by auto
  next
    case True
    then obtain e n where fe: "kvs_find_line_end (drop off msg) = Some (e, n)"
      by (metis find_line_end_None not_None_eq surj_pair)
    have en: "e + n \<le> length msg - off" "0 < n"
      using find_line_end_Some [OF fe] by auto
    define m where "m = msg[off + e := NUL]"
    define room where "room = cap - int (length response)"
    have loop: "line_batch_loop fd msg cap h off response st =
      (if e = 0 then Inr (-1, 0, msg, response, st)
       else if int (length response) \<ge> cap then Inr (-1, 0, m, response, st)
       else bindr (h fd (take e (drop off m)) room st)
              (\<lambda>(response_length, written, st).
                 if response_length < 0 \<or> response_length > room
                 then Inr (-1, 0, m, response, st)
                 else line_batch_loop fd m cap h (off + (e + n))
                        (response @ take (nat response_length) written) st))"
      unfolding m_def room_def using True fe by (subst line_batch_loop.simps) (simp add: Let_def)
    show ?thesis
    proof (cases "e = 0 \<or> int (length response) \<ge> cap")
      case stop: True
      with loop "1.prems"(1) show ?thesis by (auto split: if_splits)
    next
      case go: False
      then obtain rl w st1 where h: "h fd (take e (drop off m)) room st = Inr (rl, w, st1)"
        using loop "1.prems"(1) by (cases "h fd (take e (drop off m)) room st") auto
      show ?thesis
      proof (cases "rl < 0 \<or> rl > room")
        case bad: True
        with loop go h "1.prems"(1) show ?thesis by auto
      next
        case False
        then have next_round: "line_batch_loop fd m cap h (off + (e + n))
            (response @ take (nat rl) w) st1 = Inr (r, consumed, msg', response', st')"
          using loop go h "1.prems"(1) by simp
        have "int (length (response @ take (nat rl) w)) \<le> cap"
          using False by (auto simp: room_def)
        moreover have "off + (e + n) \<le> length m"
          using True en by (simp add: m_def)
        ultimately have ih: "r = -1 \<and> consumed = 0 \<or>
            r = int (length response') \<and> r \<le> cap \<and> off + (e + n) \<le> consumed \<and> consumed \<le> length m \<and>
            drop consumed msg' = drop consumed m \<and> LF \<notin> set (drop consumed m)"
          using "1.IH" [OF _ fe refl _ m_def _ room_def h refl refl _ next_round] True go False
          by simp
        have "off + (e + n) \<le> consumed \<Longrightarrow> drop consumed m = drop consumed msg"
          using en by (simp add: m_def)
        with ih show ?thesis
          by (auto simp: m_def)
      qed
    qed
  qed
qed

text \<open>
  The reference for the batch: lines, a handler called on each of them in turn.  A line loses the
  carriage return before its newline; it must not be empty then, there must be room in the
  response, and what the handler returns must fit that room.
\<close>

definition joined :: "bytes list \<Rightarrow> bytes" where
  "joined ls = concat (map (\<lambda>l. l @ [LF]) ls)"

definition frame_of :: "bytes \<Rightarrow> bytes" where
  "frame_of l = (if l \<noteq> [] \<and> last l = CR then butlast l else l)"

fun feed_lines :: "int \<Rightarrow> int \<Rightarrow> 's kvs_frame_handler \<Rightarrow> bytes list \<Rightarrow> bytes \<Rightarrow> 's \<Rightarrow> (int \<times> bytes \<times> 's) run" where
  "feed_lines fd cap h [] response st = Inr (int (length response), response, st)"
| "feed_lines fd cap h (l # ls) response st =
     (let room = cap - int (length response) in
      if frame_of l = [] \<or> room \<le> 0 then Inr (-1, response, st)
      else bindr (h fd (frame_of l) room st) (\<lambda>(n, written, st).
        if n < 0 \<or> n > room then Inr (-1, response, st)
        else feed_lines fd cap h ls (response @ take (nat n) written) st))"

lemma joined_simps [simp]: "joined [] = []" "joined (l # ls) = l @ LF # joined ls"
  by (simp_all add: joined_def)

text \<open>Every message is whole lines and an unfinished rest.\<close>

lemma joined_exists: "\<exists>ls rest. msg = joined ls @ rest \<and> LF \<notin> set rest \<and> list_all (\<lambda>l. LF \<notin> set l) ls"
proof (induction msg)
  case Nil
  have "[] = joined [] @ [] \<and> LF \<notin> set [] \<and> list_all (\<lambda>l. LF \<notin> set l) []"
    by simp
  then show ?case by blast
next
  case (Cons c msg)
  then obtain ls rest where *: "msg = joined ls @ rest" "LF \<notin> set rest" "list_all (\<lambda>l. LF \<notin> set l) ls"
    by blast
  consider "c = LF" | "c \<noteq> LF" "ls = []" | l ls' where "c \<noteq> LF" "ls = l # ls'"
    by (cases ls) auto
  then show ?case
  proof cases
    case 1
    then show ?thesis using * by (intro exI [of _ "[] # ls"] exI [of _ rest]) simp
  next
    case 2
    then show ?thesis using * by (intro exI [of _ "[]"] exI [of _ "c # rest"]) simp
  next
    case 3
    then show ?thesis using * by (intro exI [of _ "(c # l) # ls'"] exI [of _ rest]) simp
  qed
qed

lemma find_newline_skip:
  "LF \<notin> set l \<Longrightarrow> i \<le> length l \<Longrightarrow> find_newline (l @ LF # after) i = find_newline (l @ LF # after) (length l)"
proof (induction "length l - i" arbitrary: i)
  case (Suc n)
  then have "i < length l" "l ! i \<noteq> LF"
    by (auto simp: in_set_conv_nth)
  then have "find_newline (l @ LF # after) i = find_newline (l @ LF # after) (i + 1)"
    by (subst find_newline.simps) (simp add: nth_append)
  also have "\<dots> = find_newline (l @ LF # after) (length l)"
    using Suc \<open>i < length l\<close> by (intro Suc.hyps(1)) auto
  finally show ?case .
qed simp

lemma find_line_end_frame:
  assumes "LF \<notin> set l"
  shows "kvs_find_line_end (l @ LF # after) = Some (length (frame_of l), length l + 1 - length (frame_of l))"
    "take (length (frame_of l)) l = frame_of l" "length (frame_of l) \<le> length l"
proof -
  have "find_newline (l @ LF # after) (length l) = Some (length (frame_of l), length l + 1 - length (frame_of l))"
  proof (cases l rule: rev_cases)
    case Nil
    then show ?thesis by (subst find_newline.simps) (simp add: frame_of_def)
  next
    case (snoc ys y)
    then show ?thesis by (subst find_newline.simps) (auto simp: nth_append frame_of_def)
  qed
  then show "kvs_find_line_end (l @ LF # after) = Some (length (frame_of l), length l + 1 - length (frame_of l))"
    using find_newline_skip [OF assms, of 0 after] by (simp add: kvs_find_line_end_def)
  show "take (length (frame_of l)) l = frame_of l" "length (frame_of l) \<le> length l"
    by (auto simp: frame_of_def butlast_conv_take)
qed

lemma line_batch_loop_feed:
  assumes "msg = pre @ joined ls @ rest" "LF \<notin> set rest" "list_all (\<lambda>l. LF \<notin> set l) ls"
  shows "bindr (line_batch_loop fd msg cap h (length pre) response st) (\<lambda>x. Inr (fst x, fst (snd x), snd (snd (snd x)))) =
    bindr (feed_lines fd cap h ls response st)
      (\<lambda>x. Inr (fst x, if fst x = -1 then 0 else length msg - length rest, snd x))"
  using assms
proof (induction ls arbitrary: msg pre response st)
  case Nil
  then have "kvs_find_line_end (drop (length pre) msg) = None"
    by (simp add: find_line_end_None)
  then show ?case
    using Nil.prems by (subst line_batch_loop.simps) simp
next
  case (Cons l ls)
  let ?f = "frame_of l" and ?tail = "joined ls @ rest"
  define n where "n = Suc (length l) - length ?f"
  define m where "m = msg[length pre + length ?f := NUL]"
  define room where "room = cap - int (length response)"
  have l: "LF \<notin> set l"
    using Cons.prems(3) by simp
  note fr = find_line_end_frame(2,3) [OF l]
  have d: "drop (length pre) msg = l @ LF # ?tail"
    using Cons.prems(1) by simp
  have lt: "length pre < length msg"
    using Cons.prems(1) by simp
  have frame: "take (length ?f) (drop (length pre) m) = ?f"
    using fr d by (simp add: m_def drop_update_swap)
  have m: "m = (pre @ (l @ [LF])[length ?f := NUL]) @ ?tail"
    using fr(2) Cons.prems(1) by (simp add: m_def list_update_append)
  have off: "length pre + (length ?f + n) = length (pre @ (l @ [LF])[length ?f := NUL])"
    using fr(2) by (simp add: n_def)
  have lm: "length m = length msg"
    by (simp add: m_def)
  have loop: "line_batch_loop fd msg cap h (length pre) response st =
    (if ?f = [] then Inr (-1, 0, msg, response, st)
     else if int (length response) \<ge> cap then Inr (-1, 0, m, response, st)
     else bindr (h fd ?f room st)
            (\<lambda>(response_length, written, st).
               if response_length < 0 \<or> response_length > room
               then Inr (-1, 0, m, response, st)
               else line_batch_loop fd m cap h (length pre + (length ?f + n))
                      (response @ take (nat response_length) written) st))"
    unfolding m_def room_def n_def using lt find_line_end_frame(1) [OF l, of ?tail] frame [unfolded m_def]
    by (subst line_batch_loop.simps) (simp add: d Let_def)
  have ih: "bindr (line_batch_loop fd m cap h (length pre + (length ?f + n)) response' st')
        (\<lambda>x. Inr (fst x, fst (snd x), snd (snd (snd x)))) =
      bindr (feed_lines fd cap h ls response' st')
        (\<lambda>x. Inr (fst x, if fst x = -1 then 0 else length msg - length rest, snd x))" for response' st'
    unfolding off lm [symmetric] by (rule Cons.IH [OF m Cons.prems(2)]) (use Cons.prems(3) in simp)
  show ?case
  proof (cases "?f = [] \<or> int (length response) \<ge> cap")
    case True
    then show ?thesis
      by (auto simp: loop Let_def)
  next
    case False
    then show ?thesis
      using ih by (cases "h fd ?f room st") (auto simp: loop Let_def room_def)
  qed
qed

lemma line_batch_protocol_feed:
  assumes "msg \<noteq> []" "0 < cap" "msg = joined ls @ rest" "LF \<notin> set rest" "list_all (\<lambda>l. LF \<notin> set l) ls"
  shows "case feed_lines fd cap h ls [] st of
      Inl e \<Rightarrow> kvs_line_batch_protocol fd msg cap h st = Inl e
    | Inr (r, response, st') \<Rightarrow>
        \<exists>msg'. kvs_line_batch_protocol fd msg cap h st = Inr (r, if r = -1 then 0 else length (joined ls), msg', response, st') \<and>
          (r = -1 \<or> r = int (length response) \<and> r \<le> cap \<and> drop (length (joined ls)) msg' = rest)"
proof -
  let ?b = "line_batch_loop fd msg cap h 0 [] st"
  have p: "kvs_line_batch_protocol fd msg cap h st = ?b"
    using assms(1,2) by (simp add: kvs_line_batch_protocol_def)
  have f: "bindr ?b (\<lambda>x. Inr (fst x, fst (snd x), snd (snd (snd x)))) =
      bindr (feed_lines fd cap h ls [] st) (\<lambda>x. Inr (fst x, if fst x = -1 then 0 else length msg - length rest, snd x))"
    using line_batch_loop_feed [of msg "[]" ls rest fd cap h "[]" st] assms(3-5) by simp
  have lj: "length msg - length rest = length (joined ls)"
    using assms(3) by simp
  show ?thesis
  proof (cases ?b)
    case (Inl e)
    then have "feed_lines fd cap h ls [] st = Inl e"
      using f by (cases "feed_lines fd cap h ls [] st") auto
    then show ?thesis
      using p Inl by simp
  next
    case (Inr x)
    obtain r used msg' response st' where x: "x = (r, used, msg', response, st')"
      by (cases x) auto
    have fe: "feed_lines fd cap h ls [] st = Inr (r, response, st')" "used = (if r = -1 then 0 else length (joined ls))"
      using f [unfolded Inr x] lj by (cases "feed_lines fd cap h ls [] st"; simp split: if_splits)+
    have sp: "r = -1 \<and> used = 0 \<or> r = int (length response) \<and> r \<le> cap \<and> drop used msg' = drop used msg"
      using line_batch_loop_spec [OF Inr [unfolded x]] assms(2) by auto
    have d: "drop (length (joined ls)) msg = rest"
      using assms(3) by simp
    show ?thesis
      unfolding fe(1) p Inr x sum.case prod.case
      by (rule exI [of _ msg']) (use sp fe(2) d in \<open>simp split: if_splits\<close>)
  qed
qed

end
