(* ===== verification/Engine_Spec.thy ===== *)
theory Engine_Spec
  imports Kvs_Prelude
begin

text \<open>
  What the rest of the program expects of a storage engine.  The four engines under
  \<open>src/src/engines/\<close> have the same operations (\<open>set\<close>, \<open>mod\<close>, \<open>del\<close>, \<open>get\<close>,
  \<open>exist\<close>, \<open>foreach\<close>) with the same return-code conventions; the locale states them
  against a finite map from keys to values.  Each engine's theory interprets the locale
  on its own operations, and the command executor relies on the laws only.

  An operation's result is its return code, the engine and the surroundings afterwards.
  The law on \<open>owned\<close> says that no block of memory is lost or given back twice: the
  number of live blocks changes exactly as the number the engine holds.
\<close>

type_synonym 'e modify = "'e \<Rightarrow> bytes option \<Rightarrow> sys \<Rightarrow> (int \<times> 'e \<times> sys) run"
type_synonym 'e store = "'e \<Rightarrow> bytes option \<Rightarrow> bytes option \<Rightarrow> sys \<Rightarrow> (int \<times> 'e \<times> sys) run"

text \<open>The memory balance and the answers of the memory system are kept.\<close>

definition balanced :: "('e \<Rightarrow> int) \<Rightarrow> 'e \<Rightarrow> sys \<Rightarrow> 'e \<Rightarrow> sys \<Rightarrow> bool" where
  "balanced owned e s e' s' \<longleftrightarrow>
     s_live s' - owned e' = s_live s - owned e \<and> s_alloc s' = s_alloc s"

lemma balanced_refl [simp]: "balanced owned e s e s"
  by (simp add: balanced_def)

lemma balanced_trans [trans]:
  "balanced owned e s e' s' \<Longrightarrow> balanced owned e' s' e'' s'' \<Longrightarrow> balanced owned e s e'' s''"
  by (simp add: balanced_def)

lemma balanced_plenty: "balanced owned e s e' s' \<Longrightarrow> plenty s' = plenty s"
  by (simp add: balanced_def plenty_def)

text \<open>Operations as data, for runs of several of them.\<close>

datatype engine_op = Op_set bytes bytes | Op_mod bytes bytes | Op_del bytes

fun op_key :: "engine_op \<Rightarrow> bytes" where
  "op_key (Op_set k v) = k"
| "op_key (Op_mod k v) = k"
| "op_key (Op_del k) = k"

text \<open>What an operation does to the map when its return code is \<open>0\<close>.\<close>

fun apply_op :: "engine_op \<Rightarrow> (bytes \<rightharpoonup> bytes) \<Rightarrow> (bytes \<rightharpoonup> bytes)" where
  "apply_op (Op_set k v) m = m(k \<mapsto> v)"
| "apply_op (Op_mod k v) m = m(k \<mapsto> v)"
| "apply_op (Op_del k) m = m(k := None)"

fun run_op :: "'e store \<Rightarrow> 'e store \<Rightarrow> 'e modify \<Rightarrow> engine_op \<Rightarrow> 'e \<Rightarrow> sys \<Rightarrow> (int \<times> 'e \<times> sys) run" where
  "run_op eset emod edel (Op_set k v) e s = eset e (Some k) (Some v) s"
| "run_op eset emod edel (Op_mod k v) e s = emod e (Some k) (Some v) s"
| "run_op eset emod edel (Op_del k) e s = edel e (Some k) s"

text \<open>A run, with the return code of every operation.\<close>

fun run_ops :: "'e store \<Rightarrow> 'e store \<Rightarrow> 'e modify \<Rightarrow> engine_op list \<Rightarrow> 'e \<Rightarrow> sys \<Rightarrow>
    (int list \<times> 'e \<times> sys) run" where
  "run_ops eset emod edel [] e s = Inr ([], e, s)"
| "run_ops eset emod edel (x # xs) e s =
     bindr (run_op eset emod edel x e s) (\<lambda>(r, e, s).
     bindr (run_ops eset emod edel xs e s) (\<lambda>(rs, e, s). Inr (r # rs, e, s)))"

text \<open>The map after a run whose return codes are given: only \<open>0\<close> has an effect.\<close>

fun apply_ops :: "engine_op list \<Rightarrow> int list \<Rightarrow> (bytes \<rightharpoonup> bytes) \<Rightarrow> (bytes \<rightharpoonup> bytes)" where
  "apply_ops (x # xs) (r # rs) m = apply_ops xs rs (if r = 0 then apply_op x m else m)"
| "apply_ops _ _ m = m"

locale kv_engine =
  fixes inv :: "'e \<Rightarrow> bool"
    and key_ok :: "bytes \<Rightarrow> bool"
    and amap :: "'e \<Rightarrow> bytes \<rightharpoonup> bytes"
    and owned :: "'e \<Rightarrow> int"
    and room :: "'e \<Rightarrow> bool"
    and entries :: "'e \<Rightarrow> (bytes \<times> bytes) list"
    and eset :: "'e store"
    and emod :: "'e store"
    and edel :: "'e modify"
    and eget :: "'e \<Rightarrow> bytes option \<Rightarrow> bytes option run"
    and eexist :: "'e \<Rightarrow> bytes option \<Rightarrow> int run"
    and eforeach :: "'e \<Rightarrow> (bytes \<Rightarrow> bytes \<Rightarrow> 'c \<Rightarrow> (int \<times> 'c) run) \<Rightarrow> 'c \<Rightarrow> (int \<times> 'c) run"
  assumes eset_law: "inv e \<Longrightarrow> key_ok k \<Longrightarrow>
      \<exists>r e' s'. eset e (Some k) (Some v) s = Inr (r, e', s') \<and> inv e' \<and> balanced owned e s e' s' \<and>
        (r = 0 \<and> amap e' = (amap e)(k \<mapsto> v) \<or> r < 0 \<and> e' = e) \<and>
        (plenty s \<and> (amap e k \<noteq> None \<or> room e) \<longrightarrow> r = 0)"
    and emod_law: "inv e \<Longrightarrow> key_ok k \<Longrightarrow>
      \<exists>r e' s'. emod e (Some k) (Some v) s = Inr (r, e', s') \<and> inv e' \<and> balanced owned e s e' s' \<and>
        (r = 0 \<and> amap e k \<noteq> None \<and> amap e' = (amap e)(k \<mapsto> v) \<or>
         r < 0 \<and> amap e k \<noteq> None \<and> e' = e \<and> \<not> plenty s \<or>
         r = 1 \<and> amap e k = None \<and> e' = e \<and> s' = s)"
    and edel_law: "inv e \<Longrightarrow> key_ok k \<Longrightarrow>
      \<exists>r e' s'. edel e (Some k) s = Inr (r, e', s') \<and> inv e' \<and> balanced owned e s e' s' \<and>
        (r = 0 \<and> amap e k \<noteq> None \<and> amap e' = (amap e)(k := None) \<or>
         r \<noteq> 0 \<and> amap e k = None \<and> e' = e \<and> s' = s)"
    and eget_law: "inv e \<Longrightarrow> key_ok k \<Longrightarrow> eget e (Some k) = Inr (amap e k)"
    and eexist_law: "inv e \<Longrightarrow> key_ok k \<Longrightarrow> eexist e (Some k) = Inr (if amap e k = None then 1 else 0)"
    and entries_law: "inv e \<Longrightarrow> distinct (map fst (entries e)) \<and> map_of (entries e) = amap e"
    and eforeach_law: "inv e \<Longrightarrow> eforeach e f c = visit_all f (entries e) c"
begin

text \<open>A successful \<open>set\<close> is read back by \<open>get\<close>, and no other key changes.\<close>

lemma get_after_set:
  assumes "inv e" "key_ok k" "eset e (Some k) (Some v) s = Inr (0, e', s')" "key_ok k'"
  shows "eget e' (Some k') = Inr (if k' = k then Some v else amap e k')"
  using eset_law [OF assms(1,2), of v s] assms eget_law [of e' k'] by auto

lemma get_after_del:
  assumes "inv e" "key_ok k" "edel e (Some k) s = Inr (0, e', s')" "key_ok k'"
  shows "eget e' (Some k') = Inr (if k' = k then None else amap e k')"
  using edel_law [OF assms(1,2), of s] assms eget_law [of e' k'] by auto

text \<open>One operation of a run: the invariant, the balance, the map and the codes.\<close>

lemma run_op_law:
  assumes "inv e" "key_ok (op_key x)"
  obtains r e' s' where "run_op eset emod edel x e s = Inr (r, e', s')" "inv e'"
    "balanced owned e s e' s'" "amap e' = (if r = 0 then apply_op x (amap e) else amap e)"
proof (cases x)
  case (Op_set k v)
  then show thesis
    using eset_law [OF assms(1), of k v s] assms(2) that by (auto split: if_splits)
next
  case (Op_mod k v)
  then show thesis
    using emod_law [OF assms(1), of k v s] assms(2) that by (auto split: if_splits)
next
  case (Op_del k)
  then show thesis
    using edel_law [OF assms(1), of k s] assms(2) that by (auto split: if_splits)
qed

text \<open>
  Any run of operations returns, keeps the invariant and the memory balance, and leaves
  the map that its return codes say.
\<close>

lemma run_ops_law:
  "inv e \<Longrightarrow> (\<And>x. x \<in> set xs \<Longrightarrow> key_ok (op_key x)) \<Longrightarrow>
   \<exists>rs e' s'. run_ops eset emod edel xs e s = Inr (rs, e', s') \<and> inv e' \<and> length rs = length xs \<and>
     balanced owned e s e' s' \<and> amap e' = apply_ops xs rs (amap e)"
proof (induction xs arbitrary: e s)
  case Nil
  then show ?case by simp
next
  case (Cons x xs)
  have "key_ok (op_key x)"
    using Cons.prems(2) by simp
  with Cons.prems(1) show ?case
  proof (rule run_op_law [of _ _ s])
    fix r e1 s1
    assume one: "run_op eset emod edel x e s = Inr (r, e1, s1)" "inv e1" "balanced owned e s e1 s1"
      "amap e1 = (if r = 0 then apply_op x (amap e) else amap e)"
    obtain rs e' s' where "run_ops eset emod edel xs e1 s1 = Inr (rs, e', s')" "inv e'"
        "length rs = length xs" "balanced owned e1 s1 e' s'" "amap e' = apply_ops xs rs (amap e1)"
      using Cons.IH [OF one(2), of s1] Cons.prems(2) by auto
    with one show ?thesis
      by (intro exI [of _ "r # rs"] exI [of _ e'] exI [of _ s'])
         (auto intro: balanced_trans)
  qed
qed

text \<open>The walk sees every binding once: visiting with a collector gives the bindings.\<close>

lemma visit_order_complete:
  assumes "inv e"
  shows "(k, v) \<in> set (entries e) \<longleftrightarrow> amap e k = Some v"
  using entries_law [OF assms] by (metis map_of_eq_Some_iff)

end

text \<open>
  An engine together with its constructor and destructor.  \<open>fresh\<close> says what the
  constructor needs of the memory it is given, and what the destructor leaves there.
\<close>

locale kv_managed = kv_engine inv key_ok amap owned room entries eset emod edel eget eexist eforeach
  for inv :: "'e \<Rightarrow> bool"
    and key_ok amap owned room entries eset emod edel eget eexist
    and eforeach :: "'e \<Rightarrow> (bytes \<Rightarrow> bytes \<Rightarrow> 'c \<Rightarrow> (int \<times> 'c) run) \<Rightarrow> 'c \<Rightarrow> (int \<times> 'c) run" +
  fixes fresh :: "'e \<Rightarrow> bool"
    and ecreate :: "'e \<Rightarrow> sys \<Rightarrow> int \<times> 'e \<times> sys"
    and edestory :: "'e \<Rightarrow> sys \<Rightarrow> ('e \<times> sys) run"
  assumes ecreate_law: "fresh e \<Longrightarrow>
      \<exists>r e' s'. ecreate e s = (r, e', s') \<and> s_alloc s' = s_alloc s \<and>
        (r = 0 \<and> inv e' \<and> entries e' = [] \<and> s_live s' = s_live s + owned e' \<or>
         r = -1 \<and> s_live s' = s_live s \<and> \<not> plenty s)"
    and edestory_law: "inv e \<Longrightarrow>
      \<exists>e' s'. edestory e s = Inr (e', s') \<and> fresh e' \<and> s_live s' = s_live s - owned e \<and> s_alloc s' = s_alloc s"
begin

lemma created:
  assumes "fresh e" "ecreate e s = (0, e', s')"
  shows "inv e'" "amap e' = Map.empty" "s_live s' = s_live s + owned e'" "s_alloc s' = s_alloc s"
proof -
  have c: "inv e' \<and> entries e' = [] \<and> s_live s' = s_live s + owned e' \<and> s_alloc s' = s_alloc s"
    using ecreate_law [OF assms(1), of s] assms(2) by auto
  then show "inv e'" "s_live s' = s_live s + owned e'" "s_alloc s' = s_alloc s"
    by auto
  show "amap e' = Map.empty"
    using c entries_law [of e'] by auto
qed

text \<open>
  The life of an engine: whatever is done between constructor and destructor, every key
  reads as the return codes say, and the destructor gives back all of the memory.
\<close>

lemma lifecycle:
  assumes "fresh e" "ecreate e s = (0, e0, s0)" "\<And>x. x \<in> set xs \<Longrightarrow> key_ok (op_key x)"
  shows "\<exists>rs e1 s1 e2 s2. run_ops eset emod edel xs e0 s0 = Inr (rs, e1, s1) \<and> length rs = length xs \<and>
     (\<forall>k. key_ok k \<longrightarrow> eget e1 (Some k) = Inr (apply_ops xs rs Map.empty k)) \<and>
     edestory e1 s1 = Inr (e2, s2) \<and> fresh e2 \<and> s_live s2 = s_live s"
proof -
  note c = created [OF assms(1,2)]
  obtain rs e1 s1 where run: "run_ops eset emod edel xs e0 s0 = Inr (rs, e1, s1)" "inv e1"
      "length rs = length xs" "balanced owned e0 s0 e1 s1" "amap e1 = apply_ops xs rs (amap e0)"
    using run_ops_law [OF c(1), of xs s0] assms(3) by blast
  obtain e2 s2 where d: "edestory e1 s1 = Inr (e2, s2)" "fresh e2" "s_live s2 = s_live s1 - owned e1"
    using edestory_law [OF run(2), of s1] by blast
  have "s_live s2 = s_live s"
    using d(3) run(4) c(3) by (simp add: balanced_def)
  moreover have "key_ok k \<Longrightarrow> eget e1 (Some k) = Inr (apply_ops xs rs Map.empty k)" for k
    using eget_law [OF run(2)] run(5) c(2) by simp
  ultimately show ?thesis
    using run(1,3) d(1,2) by blast
qed

end

end
