(* ===== verification/Array_Engine.thy ===== *)
theory Array_Engine
  imports Engine_Spec
begin

text \<open>
  The array engine, \<open>src/src/engines/kvs_array.c\<close>: a table of \<open>KVS_ARRAY_SIZE\<close> slots
  whose first \<open>total\<close> hold the entries, searched linearly.  A slot of the freshly
  allocated table is \<open>Uninit\<close> until it is written; its pointers may be NULL.  The
  global instance is never a NULL pointer, so the checks of \<open>inst\<close> itself are omitted;
  a NULL key or value argument is \<open>None\<close>.
\<close>

section \<open>Data and operations\<close>

definition KVS_ARRAY_SIZE :: nat where
  "KVS_ARRAY_SIZE = 1024"

datatype kvs_array_item_t = Uninit | Item "bytes option" "bytes option"

record kvs_array_t =
  table :: "kvs_array_item_t list option"
  idx :: nat
  tot :: nat

definition array_cleared :: kvs_array_t where
  "array_cleared = \<lparr>table = None, idx = 0, tot = 0\<rparr>"

definition array_item_bytes :: nat where
  "array_item_bytes = 16"

text \<open>Reading \<open>inst->table[i]\<close>.\<close>

definition array_read :: "kvs_array_t \<Rightarrow> nat \<Rightarrow> (bytes option \<times> bytes option) run" where
  "array_read inst i =
     (case table inst of
        None \<Rightarrow> Inl Null_deref
      | Some t \<Rightarrow>
          if i < length t
          then (case t ! i of Uninit \<Rightarrow> Inl Uninitialised | Item k v \<Rightarrow> Inr (k, v))
          else Inl Out_of_bounds)"

definition array_write :: "kvs_array_t \<Rightarrow> nat \<Rightarrow> bytes option \<Rightarrow> bytes option \<Rightarrow> kvs_array_t run" where
  "array_write inst i k v =
     (case table inst of
        None \<Rightarrow> Inl Null_deref
      | Some t \<Rightarrow>
          if i < length t then Inr (inst\<lparr>table := Some (t[i := Item k v])\<rparr>) else Inl Out_of_bounds)"

definition kvs_array_create :: "kvs_array_t \<Rightarrow> sys \<Rightarrow> int \<times> kvs_array_t \<times> sys" where
  "kvs_array_create inst s =
     (if table inst \<noteq> None then (-1, inst, s)
      else case kvs_malloc (KVS_ARRAY_SIZE * array_item_bytes) s of
        (False, s) \<Rightarrow> (-1, inst, s)
      | (True, s) \<Rightarrow> (0, inst\<lparr>table := Some (replicate KVS_ARRAY_SIZE Uninit), tot := 0\<rparr>, s))"

text \<open>The loop of \<open>kvs_array_destory\<close> from slot \<open>i\<close> on.\<close>

function array_free_slots :: "kvs_array_t \<Rightarrow> nat \<Rightarrow> sys \<Rightarrow> (kvs_array_t \<times> sys) run" where
  "array_free_slots inst i s =
     (if i < tot inst then
        bindr (array_read inst i) (\<lambda>(k, v).
          case table inst of
            None \<Rightarrow> Inl Null_deref
          | Some t \<Rightarrow>
              array_free_slots (inst\<lparr>table := Some (t[i := Item None None])\<rparr>) (i + 1)
                (kvs_free_opt v (kvs_free_opt k s)))
      else Inr (inst, s))"
  by pat_completeness auto
termination
  by (relation "measure (\<lambda>(inst, i, s). tot inst - i)") auto

declare array_free_slots.simps [simp del]

definition kvs_array_destory :: "kvs_array_t \<Rightarrow> sys \<Rightarrow> (kvs_array_t \<times> sys) run" where
  "kvs_array_destory inst s =
     (if table inst = None then Inr (inst, s)
      else bindr (array_free_slots inst 0 s) (\<lambda>(inst, s).
        Inr (inst\<lparr>table := None, tot := 0, idx := 0\<rparr>, kvs_free s)))"

text \<open>
  The search of \<open>kvs_array_get\<close> and \<open>kvs_array_mod\<close>: the first slot from \<open>i\<close> on whose
  key is equal, skipping slots with a NULL key.
\<close>

function array_scan :: "kvs_array_t \<Rightarrow> bytes \<Rightarrow> nat \<Rightarrow> nat option run" where
  "array_scan inst key i =
     (if i < tot inst then
        bindr (array_read inst i) (\<lambda>(k, v).
          case k of
            None \<Rightarrow> array_scan inst key (i + 1)
          | Some k \<Rightarrow> if strcmp k key = 0 then Inr (Some i) else array_scan inst key (i + 1))
      else Inr None)"
  by pat_completeness auto
termination
  by (relation "measure (\<lambda>(inst, key, i). tot inst - i)") auto

declare array_scan.simps [simp del]

definition kvs_array_mod :: "kvs_array_t store" where
  "kvs_array_mod inst key val s =
     (case (key, val) of
        (Some key, Some val) \<Rightarrow>
          bindr (array_scan inst key 0) (\<lambda>found.
            case found of
              None \<Rightarrow> Inr (1, inst, s)
            | Some i \<Rightarrow>
                (case kvs_malloc (length val + 1) s of
                   (False, s) \<Rightarrow> Inr (-2, inst, s)
                 | (True, s) \<Rightarrow>
                     bindr (array_read inst i) (\<lambda>(k, old).
                     bindr (array_write inst i k (Some val)) (\<lambda>inst.
                       Inr (0, inst, kvs_free_opt old s)))))
      | _ \<Rightarrow> Inr (-1, inst, s))"

text \<open>The second loop of \<open>kvs_array_set\<close>: a slot below \<open>total\<close> whose key is NULL.\<close>

function array_free_slot :: "kvs_array_t \<Rightarrow> nat \<Rightarrow> nat option run" where
  "array_free_slot inst i =
     (if i < tot inst then
        bindr (array_read inst i) (\<lambda>(k, v).
          if k = None then Inr (Some i) else array_free_slot inst (i + 1))
      else Inr None)"
  by pat_completeness auto
termination
  by (relation "measure (\<lambda>(inst, i). tot inst - i)") auto

declare array_free_slot.simps [simp del]

definition array_insert :: "kvs_array_t \<Rightarrow> bytes \<Rightarrow> bytes \<Rightarrow> sys \<Rightarrow> (int \<times> kvs_array_t \<times> sys) run" where
  "array_insert inst key val s =
     (if tot inst \<ge> KVS_ARRAY_SIZE then Inr (-1, inst, s)
      else case kvs_malloc (length key + 1) s of
        (False, s) \<Rightarrow> Inr (-2, inst, s)
      | (True, s) \<Rightarrow>
          (case kvs_malloc (length val + 1) s of
             (False, s) \<Rightarrow> Inr (-2, inst, kvs_free s)
           | (True, s) \<Rightarrow>
               bindr (array_free_slot inst 0) (\<lambda>hole.
                 case hole of
                   Some i \<Rightarrow>
                     bindr (array_write inst i (Some key) (Some val)) (\<lambda>inst.
                       Inr (0, inst\<lparr>tot := tot inst + 1\<rparr>, s))
                 | None \<Rightarrow>
                     if tot inst < KVS_ARRAY_SIZE then
                       bindr (array_write inst (tot inst) (Some key) (Some val)) (\<lambda>inst.
                         Inr (0, inst\<lparr>tot := tot inst + 1\<rparr>, s))
                     else Inr (0, inst, s))))"

definition kvs_array_set :: "kvs_array_t store" where
  "kvs_array_set inst key val s =
     (case (table inst, key, val) of
        (Some _, Some k, Some v) \<Rightarrow>
          bindr (kvs_array_mod inst key val s) (\<lambda>(update_result, inst, s).
            if update_result \<le> 0 then Inr (update_result, inst, s)
            else array_insert inst k v s)
      | _ \<Rightarrow> Inr (-1, inst, s))"

definition kvs_array_get :: "kvs_array_t \<Rightarrow> bytes option \<Rightarrow> bytes option run" where
  "kvs_array_get inst key =
     (case key of
        None \<Rightarrow> Inr None
      | Some key \<Rightarrow>
          bindr (array_scan inst key 0) (\<lambda>found.
            case found of
              None \<Rightarrow> Inr None
            | Some i \<Rightarrow> bindr (array_read inst i) (\<lambda>(k, v). Inr v)))"

text \<open>The search of \<open>kvs_array_del\<close>, which compares without looking for a NULL key.\<close>

function array_scan_del :: "kvs_array_t \<Rightarrow> bytes \<Rightarrow> nat \<Rightarrow> nat option run" where
  "array_scan_del inst key i =
     (if i < tot inst then
        bindr (array_read inst i) (\<lambda>(k, v).
          case k of
            None \<Rightarrow> Inl Null_deref
          | Some k \<Rightarrow> if strcmp k key = 0 then Inr (Some i) else array_scan_del inst key (i + 1))
      else Inr None)"
  by pat_completeness auto
termination
  by (relation "measure (\<lambda>(inst, key, i). tot inst - i)") auto

declare array_scan_del.simps [simp del]

text \<open>Emptying slot \<open>i\<close>: the last entry moves into it and the last slot is cleared.\<close>

definition array_remove :: "kvs_array_t \<Rightarrow> nat \<Rightarrow> kvs_array_t run" where
  "array_remove inst i =
     bindr (array_write inst i None None) (\<lambda>inst.
     let inst = inst\<lparr>tot := tot inst - 1\<rparr> in
     bindr (if i \<noteq> tot inst
            then bindr (array_read inst (tot inst)) (\<lambda>(k, v). array_write inst i k v)
            else Inr inst) (\<lambda>inst.
     bindr (array_write inst (tot inst) None None) (\<lambda>inst.
     Inr (inst\<lparr>idx := i\<rparr>))))"

definition kvs_array_del :: "kvs_array_t modify" where
  "kvs_array_del inst key s =
     (case key of
        None \<Rightarrow> Inr (-1, inst, s)
      | Some key \<Rightarrow>
          bindr (array_scan_del inst key 0) (\<lambda>found.
            case found of
              None \<Rightarrow> Inr (1, inst, s)
            | Some i \<Rightarrow>
                bindr (array_read inst i) (\<lambda>(k, v).
                bindr (array_remove inst i) (\<lambda>inst.
                Inr (0, inst, kvs_free_opt v (kvs_free_opt k s))))))"

definition kvs_array_exist :: "kvs_array_t \<Rightarrow> bytes option \<Rightarrow> int run" where
  "kvs_array_exist inst key =
     bindr (kvs_array_get inst key) (\<lambda>str. Inr (if str = None then 1 else 0))"

function array_foreach_loop ::
    "kvs_array_t \<Rightarrow> (bytes \<Rightarrow> bytes \<Rightarrow> 'c \<Rightarrow> (int \<times> 'c) run) \<Rightarrow> nat \<Rightarrow> 'c \<Rightarrow> (int \<times> 'c) run" where
  "array_foreach_loop inst visitor i c =
     (if i < tot inst then
        bindr (array_read inst i) (\<lambda>(k, v).
          case (k, v) of
            (Some k, Some v) \<Rightarrow>
              bindr (visitor k v c) (\<lambda>(ret, c).
                if ret < 0 then Inr (-1, c) else array_foreach_loop inst visitor (i + 1) c)
          | _ \<Rightarrow> array_foreach_loop inst visitor (i + 1) c)
      else Inr (0, c))"
  by pat_completeness auto
termination
  by (relation "measure (\<lambda>(inst, f, i, c). tot inst - i)") auto

declare array_foreach_loop.simps [simp del]

definition kvs_array_foreach ::
    "kvs_array_t \<Rightarrow> (bytes \<Rightarrow> bytes \<Rightarrow> 'c \<Rightarrow> (int \<times> 'c) run) \<Rightarrow> 'c \<Rightarrow> (int \<times> 'c) run" where
  "kvs_array_foreach inst visitor c =
     (if table inst = None then Inr (-1, c) else array_foreach_loop inst visitor 0 c)"

section \<open>Representation\<close>

text \<open>
  The instance holds the entries \<open>ps\<close>, in this order, in its first \<open>total\<close> slots.
\<close>

definition full_slot :: "bytes \<times> bytes \<Rightarrow> kvs_array_item_t" where
  "full_slot p = Item (Some (fst p)) (Some (snd p))"

definition array_rep :: "kvs_array_t \<Rightarrow> (bytes \<times> bytes) list \<Rightarrow> bool" where
  "array_rep inst ps \<longleftrightarrow>
     (\<exists>spare. table inst = Some (map full_slot ps @ spare) \<and>
        length ps + length spare = KVS_ARRAY_SIZE) \<and> tot inst = length ps \<and> distinct (map fst ps)"

fun slot_pair :: "kvs_array_item_t \<Rightarrow> bytes \<times> bytes" where
  "slot_pair (Item k v) = (case k of None \<Rightarrow> [] | Some k \<Rightarrow> k, case v of None \<Rightarrow> [] | Some v \<Rightarrow> v)"
| "slot_pair Uninit = ([], [])"

definition array_entries :: "kvs_array_t \<Rightarrow> (bytes \<times> bytes) list" where
  "array_entries inst =
     (case table inst of None \<Rightarrow> [] | Some t \<Rightarrow> map slot_pair (take (tot inst) t))"

definition array_inv :: "kvs_array_t \<Rightarrow> bool" where
  "array_inv inst \<longleftrightarrow> array_rep inst (array_entries inst)"

definition array_map :: "kvs_array_t \<Rightarrow> bytes \<rightharpoonup> bytes" where
  "array_map inst = map_of (array_entries inst)"

definition array_owned :: "kvs_array_t \<Rightarrow> int" where
  "array_owned inst = (if table inst = None then 0 else 1 + 2 * int (tot inst))"

definition array_room :: "kvs_array_t \<Rightarrow> bool" where
  "array_room inst \<longleftrightarrow> tot inst < KVS_ARRAY_SIZE"

lemma slot_pair_full [simp]: "slot_pair (full_slot p) = p"
  by (simp add: full_slot_def)

lemma slot_pair_comp_full [simp]: "slot_pair \<circ> full_slot = id"
  by (rule ext) simp

lemma array_rep_entries: "array_rep inst ps \<Longrightarrow> array_entries inst = ps"
  by (auto simp: array_rep_def array_entries_def)

lemma array_rep_inv: "array_rep inst ps \<Longrightarrow> array_inv inst"
  by (simp add: array_inv_def array_rep_entries)

lemma array_read_rep:
  "array_rep inst ps \<Longrightarrow> i < length ps \<Longrightarrow> array_read inst i = Inr (Some (fst (ps ! i)), Some (snd (ps ! i)))"
  by (auto simp: array_rep_def array_read_def nth_append full_slot_def)

lemma array_rep_tot: "array_rep inst ps \<Longrightarrow> tot inst = length ps"
  by (simp add: array_rep_def)

text \<open>Both searches find the slot of a key that is present, and nothing otherwise.\<close>

definition position :: "(bytes \<times> bytes) list \<Rightarrow> bytes \<Rightarrow> nat \<Rightarrow> nat option" where
  "position ps key i = List.find (\<lambda>j. fst (ps ! j) = key) [i..<length ps]"

lemma position_step:
  "position ps key i =
     (if i < length ps then if fst (ps ! i) = key then Some i else position ps key (i + 1) else None)"
  by (simp add: position_def upt_conv_Cons)

lemma position_Some: "position ps key i = Some j \<Longrightarrow> i \<le> j \<and> j < length ps \<and> fst (ps ! j) = key"
  by (auto simp: position_def find_Some_iff)

lemma position_None: "position ps key 0 = None \<longleftrightarrow> map_of ps key = None"
proof -
  have "position ps key 0 = None \<longleftrightarrow> (\<forall>j < length ps. fst (ps ! j) \<noteq> key)"
    by (auto simp: position_def find_None_iff)
  also have "\<dots> \<longleftrightarrow> key \<notin> set (map fst ps)"
    by (metis (no_types, lifting) in_set_conv_nth length_map nth_map)
  finally show ?thesis
    by (simp add: map_of_eq_None_iff)
qed

lemma array_scan_rep: "array_rep inst ps \<Longrightarrow> array_scan inst key i = Inr (position ps key i)"
proof (induction inst key i rule: array_scan.induct)
  case (1 inst key i)
  then show ?case
    by (subst array_scan.simps, subst position_step)
       (auto simp: array_rep_tot array_read_rep)
qed

lemma array_scan_del_rep: "array_rep inst ps \<Longrightarrow> array_scan_del inst key i = Inr (position ps key i)"
proof (induction inst key i rule: array_scan_del.induct)
  case (1 inst key i)
  then show ?case
    by (subst array_scan_del.simps, subst position_step)
       (auto simp: array_rep_tot array_read_rep)
qed

lemma array_free_slot_rep: "array_rep inst ps \<Longrightarrow> array_free_slot inst i = Inr None"
proof (induction inst i rule: array_free_slot.induct)
  case (1 inst i)
  then show ?case
    by (subst array_free_slot.simps) (auto simp: array_rep_tot array_read_rep)
qed

lemma array_foreach_rep:
  "array_rep inst ps \<Longrightarrow> array_foreach_loop inst f i c = visit_all f (drop i ps) c"
proof (induction "length ps - i" arbitrary: i c)
  case 0
  then show ?case
    by (subst array_foreach_loop.simps) (simp add: array_rep_tot)
next
  case (Suc n)
  obtain k v where kv: "ps ! i = (k, v)" by (cases "ps ! i")
  have i: "i < length ps" and n: "n = length ps - (i + 1)"
    using Suc.hyps(2) by auto
  have "array_foreach_loop inst f i c =
      bindr (f k v c) (\<lambda>(ret, c). if ret < 0 then Inr (-1, c) else array_foreach_loop inst f (i + 1) c)"
    using i Suc.prems kv
    by (subst array_foreach_loop.simps) (simp add: array_rep_tot array_read_rep)
  moreover have "drop i ps = (k, v) # drop (i + 1) ps"
    using i kv Cons_nth_drop_Suc [of i ps] by simp
  ultimately show ?case
    using Suc.hyps(1) [OF n Suc.prems] by (simp add: case_prod_unfold cong: if_cong)
qed

text \<open>Writing slots.\<close>

lemma array_rep_update_value:
  assumes "array_rep inst ps" "i < length ps"
  shows "\<exists>inst'. array_write inst i (Some (fst (ps ! i))) (Some v) = Inr inst' \<and>
     array_rep inst' (ps[i := (fst (ps ! i), v)])"
  using assms
  by (auto simp: array_rep_def array_write_def list_update_append map_update full_slot_def)
     (metis (no_types) list_update_id nth_map)

lemma array_rep_append:
  assumes "array_rep inst ps" "length ps < KVS_ARRAY_SIZE" "k \<notin> set (map fst ps)"
  shows "\<exists>inst'. array_write inst (length ps) (Some k) (Some v) = Inr inst' \<and> tot inst' = length ps \<and>
     array_rep (inst'\<lparr>tot := length ps + 1\<rparr>) (ps @ [(k, v)])"
proof -
  obtain spare where t: "table inst = Some (map full_slot ps @ spare)"
      "length ps + length spare = KVS_ARRAY_SIZE"
    using assms(1) by (auto simp: array_rep_def)
  then obtain x xs where "spare = x # xs"
    using assms(2) by (cases spare) auto
  with t have "array_write inst (length ps) (Some k) (Some v)
      = Inr (inst\<lparr>table := Some (map full_slot (ps @ [(k, v)]) @ xs)\<rparr>)"
    by (simp add: array_write_def list_update_append full_slot_def)
  with t assms \<open>spare = x # xs\<close> show ?thesis
    by (auto simp: array_rep_def)
qed

text \<open>Taking entry \<open>i\<close> out: the last entry moves into its slot.\<close>

lemma array_remove_rep:
  assumes rep: "array_rep inst (qs @ [l])" and i: "i < length (qs @ [l])"
  shows "\<exists>inst'. array_remove inst i = Inr inst' \<and> array_rep inst' (qs[i := l])"
proof -
  obtain spare where t: "table inst = Some (map full_slot qs @ [full_slot l] @ spare)"
      "Suc (length qs + length spare) = KVS_ARRAY_SIZE" "tot inst = Suc (length qs)"
      "distinct (map fst (qs @ [l]))"
    using rep by (auto simp: array_rep_def)
  have distinct: "distinct (map fst (qs[i := l]))"
    using t(4) by (simp add: map_update distinct_list_update)
  show ?thesis
  proof (cases "i = length qs")
    case True
    with t distinct show ?thesis
      by (simp add: array_remove_def array_write_def list_update_append Let_def array_rep_def
          list_update_beyond)
  next
    case False
    with i have "i < length qs" by simp
    with t distinct show ?thesis
      by (simp add: array_remove_def array_write_def array_read_def list_update_append nth_append
          full_slot_def Let_def array_rep_def map_update)
  qed
qed

lemma array_remove_map:
  assumes "distinct (map fst (qs @ [l]))" "i < length (qs @ [l])"
  shows "map_of (qs[i := l]) = (map_of (qs @ [l]))(fst ((qs @ [l]) ! i) := None)"
proof (rule map_of_remove [where v = "snd ((qs @ [l]) ! i)"])
  have dq: "distinct qs" "l \<notin> set qs"
    using assms(1) by (auto simp: distinct_map)
  show "distinct (map fst (qs[i := l]))"
    using assms(1) by (simp add: map_update distinct_list_update)
  show "(fst ((qs @ [l]) ! i), snd ((qs @ [l]) ! i)) \<in> set (qs @ [l])"
    using assms(2) by (metis nth_mem prod.collapse)
  show "set (qs[i := l]) = set (qs @ [l]) - {(fst ((qs @ [l]) ! i), snd ((qs @ [l]) ! i))}"
    using dq assms(2)
    by (cases "i < length qs")
       (auto simp: nth_append set_update_distinct list_update_beyond not_less less_Suc_eq)
qed (rule assms)

section \<open>The laws of an engine\<close>

lemma array_owned_rep: "array_rep inst ps \<Longrightarrow> array_owned inst = 1 + 2 * int (length ps)"
  by (auto simp: array_rep_def array_owned_def)

lemma array_map_rep: "array_rep inst ps \<Longrightarrow> array_map inst = map_of ps"
  by (simp add: array_map_def array_rep_entries)

lemma array_mod_law:
  assumes rep: "array_rep inst ps"
  shows "\<exists>r inst' s'. kvs_array_mod inst (Some k) (Some v) s = Inr (r, inst', s') \<and>
     array_inv inst' \<and> balanced array_owned inst s inst' s' \<and>
     (r = 0 \<and> map_of ps k \<noteq> None \<and> array_map inst' = (map_of ps)(k \<mapsto> v) \<or>
      r < 0 \<and> map_of ps k \<noteq> None \<and> inst' = inst \<and> \<not> plenty s \<or>
      r = 1 \<and> map_of ps k = None \<and> inst' = inst \<and> s' = s)"
proof (cases "position ps k 0")
  case None
  moreover from this have "map_of ps k = None"
    by (simp add: position_None)
  ultimately show ?thesis
    using rep by (simp add: kvs_array_mod_def array_scan_rep array_rep_inv)
next
  case (Some i)
  then have i: "i < length ps" "fst (ps ! i) = k" and present: "map_of ps k \<noteq> None"
    using position_Some [OF Some] position_None [of ps k] by auto
  obtain inst' where w: "array_write inst i (Some k) (Some v) = Inr inst'"
      "array_rep inst' (ps[i := (k, v)])"
    using array_rep_update_value [OF rep i(1), of v] i(2) by auto
  show ?thesis
  proof (cases rule: kvs_malloc_cases [of "length v + 1" s])
    case (granted s')
    have "kvs_array_mod inst (Some k) (Some v) s = Inr (0, inst', kvs_free s')"
      using rep Some granted i w by (simp add: kvs_array_mod_def array_scan_rep array_read_rep)
    moreover have "array_map inst' = (map_of ps)(k \<mapsto> v)"
      using map_of_update_distinct [of ps i v] rep i
      by (auto simp: array_map_rep [OF w(2)] array_rep_def)
    moreover have "balanced array_owned inst s inst' (kvs_free s')"
      using granted by (simp add: balanced_def array_owned_rep [OF w(2)] array_owned_rep [OF rep])
    ultimately show ?thesis
      using present array_rep_inv [OF w(2)] by blast
  next
    case (refused s')
    with rep Some show ?thesis
      using present by (simp add: kvs_array_mod_def array_scan_rep array_rep_inv balanced_def)
  qed
qed

lemma array_insert_law:
  assumes rep: "array_rep inst ps" and new: "map_of ps k = None"
  shows "\<exists>r inst' s'. array_insert inst k v s = Inr (r, inst', s') \<and>
     array_inv inst' \<and> balanced array_owned inst s inst' s' \<and>
     (r = 0 \<and> array_map inst' = (map_of ps)(k \<mapsto> v) \<or> r < 0 \<and> inst' = inst) \<and>
     (plenty s \<and> array_room inst \<longrightarrow> r = 0)"
proof (cases "tot inst < KVS_ARRAY_SIZE")
  case False
  with rep show ?thesis
    by (simp add: array_insert_def array_room_def array_rep_inv)
next
  case full: True
  show ?thesis
  proof (cases rule: kvs_malloc_cases [of "length k + 1" s])
    case (refused s1)
    with rep full show ?thesis
      by (simp add: array_insert_def array_rep_inv balanced_def)
  next
    case g1: (granted s1)
    show ?thesis
    proof (cases rule: kvs_malloc_cases [of "length v + 1" s1])
      case (refused s2)
      moreover have "plenty s1 = plenty s"
        using g1 by (simp add: plenty_def)
      ultimately show ?thesis
        using rep full g1 by (simp add: array_insert_def array_rep_inv balanced_def)
    next
      case g2: (granted s2)
      obtain inst' where w: "array_write inst (length ps) (Some k) (Some v) = Inr inst'"
          "tot inst' = length ps" "array_rep (inst'\<lparr>tot := length ps + 1\<rparr>) (ps @ [(k, v)])"
        using array_rep_append [OF rep, of k v] full new
        by (auto simp: array_rep_tot [OF rep] map_of_eq_None_iff)
      have "array_insert inst k v s = Inr (0, inst'\<lparr>tot := length ps + 1\<rparr>, s2)"
        using rep full g1 g2 w
        by (simp add: array_insert_def array_free_slot_rep array_rep_tot)
      moreover have "array_map (inst'\<lparr>tot := length ps + 1\<rparr>) = (map_of ps)(k \<mapsto> v)"
        unfolding array_map_rep [OF w(3)]
        using new by (auto simp: map_add_def fun_eq_iff split: option.split)
      moreover have "balanced array_owned inst s (inst'\<lparr>tot := length ps + 1\<rparr>) s2"
        unfolding balanced_def array_owned_rep [OF w(3)] array_owned_rep [OF rep]
        using g1 g2 by simp
      ultimately show ?thesis
        using array_rep_inv [OF w(3)] by blast
    qed
  qed
qed

lemma array_set_law:
  assumes rep: "array_rep inst ps"
  shows "\<exists>r inst' s'. kvs_array_set inst (Some k) (Some v) s = Inr (r, inst', s') \<and>
     array_inv inst' \<and> balanced array_owned inst s inst' s' \<and>
     (r = 0 \<and> array_map inst' = (map_of ps)(k \<mapsto> v) \<or> r < 0 \<and> inst' = inst) \<and>
     (plenty s \<and> (map_of ps k \<noteq> None \<or> array_room inst) \<longrightarrow> r = 0)"
proof -
  obtain t where t: "table inst = Some t"
    using rep by (auto simp: array_rep_def)
  obtain r inst' s' where m: "kvs_array_mod inst (Some k) (Some v) s = Inr (r, inst', s')"
      "array_inv inst'" "balanced array_owned inst s inst' s'"
      "r = 0 \<and> map_of ps k \<noteq> None \<and> array_map inst' = (map_of ps)(k \<mapsto> v) \<or>
       r < 0 \<and> map_of ps k \<noteq> None \<and> inst' = inst \<and> \<not> plenty s \<or>
       r = 1 \<and> map_of ps k = None \<and> inst' = inst \<and> s' = s"
    using array_mod_law [OF rep, of k v s] by blast
  show ?thesis
  proof (cases "map_of ps k")
    case None
    with m t have "kvs_array_set inst (Some k) (Some v) s = array_insert inst k v s"
      by (auto simp: kvs_array_set_def)
    with None array_insert_law [OF rep None, of v s] show ?thesis
      by simp
  next
    case (Some old)
    with m t have "kvs_array_set inst (Some k) (Some v) s = Inr (r, inst', s')"
      by (auto simp: kvs_array_set_def)
    with Some m show ?thesis by auto
  qed
qed

lemma array_del_law:
  assumes rep: "array_rep inst ps"
  shows "\<exists>r inst' s'. kvs_array_del inst (Some k) s = Inr (r, inst', s') \<and>
     array_inv inst' \<and> balanced array_owned inst s inst' s' \<and>
     (r = 0 \<and> map_of ps k \<noteq> None \<and> array_map inst' = (map_of ps)(k := None) \<or>
      r \<noteq> 0 \<and> map_of ps k = None \<and> inst' = inst \<and> s' = s)"
proof (cases "position ps k 0")
  case None
  moreover from this have "map_of ps k = None"
    by (simp add: position_None)
  ultimately show ?thesis
    using rep by (simp add: kvs_array_del_def array_scan_del_rep array_rep_inv)
next
  case (Some i)
  then have i: "i < length ps" "fst (ps ! i) = k" and present: "map_of ps k \<noteq> None"
    using position_Some [OF Some] position_None [of ps k] by auto
  then obtain qs l where ps: "ps = qs @ [l]"
    by (cases ps rule: rev_cases) auto
  obtain inst' where r: "array_remove inst i = Inr inst'" "array_rep inst' (qs[i := l])"
    using array_remove_rep rep i ps by blast
  have "kvs_array_del inst (Some k) s = Inr (0, inst', kvs_free (kvs_free s))"
    using rep Some i r(1) by (simp add: kvs_array_del_def array_scan_del_rep array_read_rep)
  moreover have "array_map inst' = (map_of ps)(k := None)"
    using array_remove_map [of qs l i] rep i ps by (simp add: array_map_rep [OF r(2)] array_rep_def)
  moreover have "balanced array_owned inst s inst' (kvs_free (kvs_free s))"
    by (simp add: balanced_def array_owned_rep [OF r(2)] array_owned_rep [OF rep] ps)
  ultimately show ?thesis
    using present array_rep_inv [OF r(2)] by blast
qed

lemma array_get_law:
  assumes rep: "array_rep inst ps"
  shows "kvs_array_get inst (Some k) = Inr (map_of ps k)"
proof (cases "position ps k 0")
  case None
  moreover from this have "map_of ps k = None"
    by (simp add: position_None)
  ultimately show ?thesis
    using rep by (simp add: kvs_array_get_def array_scan_rep)
next
  case (Some i)
  then have i: "i < length ps" "fst (ps ! i) = k"
    using position_Some [OF Some] by auto
  then have "map_of ps k = Some (snd (ps ! i))"
    using rep by (auto simp: array_rep_def intro: map_of_is_SomeI)
  with rep Some i show ?thesis
    by (simp add: kvs_array_get_def array_scan_rep array_read_rep)
qed

interpretation array: kv_engine array_inv "\<lambda>_. True" array_map array_owned array_room array_entries
  kvs_array_set kvs_array_mod kvs_array_del kvs_array_get kvs_array_exist kvs_array_foreach
proof (unfold_locales, goal_cases)
  case (1 e k v s)
  then show ?case
    using array_set_law [of e "array_entries e" k v s] by (simp add: array_inv_def array_map_def)
next
  case (2 e k v s)
  then show ?case
    using array_mod_law [of e "array_entries e" k v s] by (simp add: array_inv_def array_map_def)
next
  case (3 e k s)
  then show ?case
    using array_del_law [of e "array_entries e" k s] by (simp add: array_inv_def array_map_def)
next
  case (4 e k)
  then show ?case
    by (simp add: array_inv_def array_map_def array_get_law)
next
  case (5 e k)
  then show ?case
    by (simp add: array_inv_def array_map_def kvs_array_exist_def array_get_law)
next
  case (6 e)
  then show ?case
    by (simp add: array_inv_def array_map_def array_rep_def)
next
  case (7 e f c)
  then have "table e \<noteq> None"
    by (auto simp: array_inv_def array_rep_def)
  with 7 show ?case
    by (auto simp: array_inv_def kvs_array_foreach_def array_foreach_rep)
qed

section \<open>Creation and destruction\<close>

lemma array_create_law:
  "table inst = None \<Longrightarrow>
   (\<exists>inst' s'. kvs_array_create inst s = (0, inst', s') \<and> array_inv inst' \<and> array_entries inst' = [] \<and>
      s_live s' = s_live s + array_owned inst' \<and> s_alloc s' = s_alloc s) \<or>
   (\<exists>s'. kvs_array_create inst s = (-1, inst, s') \<and> s_live s' = s_live s \<and> s_alloc s' = s_alloc s \<and> \<not> plenty s)"
  by (cases rule: kvs_malloc_cases [of "KVS_ARRAY_SIZE * array_item_bytes" s])
     (auto simp: kvs_array_create_def array_inv_def array_rep_def array_entries_def array_owned_def
        KVS_ARRAY_SIZE_def array_item_bytes_def)

lemma array_free_slots_law:
  assumes "table inst = Some t" "tot inst \<le> length t"
    "\<And>j. i \<le> j \<Longrightarrow> j < tot inst \<Longrightarrow> \<exists>k v. t ! j = Item (Some k) (Some v)"
  shows "\<exists>inst' s'. array_free_slots inst i s = Inr (inst', s') \<and>
     s_live s' = s_live s - 2 * int (tot inst - i) \<and> s_alloc s' = s_alloc s"
  using assms
proof (induction "tot inst - i" arbitrary: inst t i s)
  case 0
  then show ?case by (subst array_free_slots.simps) simp
next
  case (Suc n)
  then have i: "i < tot inst" and n: "n = tot inst - (i + 1)"
    by auto
  obtain k v where kv: "t ! i = Item (Some k) (Some v)"
    using Suc.prems(3) [of i] i by auto
  define inst1 where "inst1 = inst\<lparr>table := Some (t[i := Item None None])\<rparr>"
  have step: "array_free_slots inst i s = array_free_slots inst1 (i + 1) (kvs_free (kvs_free s))"
    using i kv Suc.prems(1,2)
    by (subst array_free_slots.simps) (simp add: array_read_def inst1_def)
  have "\<exists>inst' s'. array_free_slots inst1 (i + 1) (kvs_free (kvs_free s)) = Inr (inst', s') \<and>
      s_live s' = s_live (kvs_free (kvs_free s)) - 2 * int (tot inst1 - (i + 1)) \<and>
      s_alloc s' = s_alloc (kvs_free (kvs_free s))"
  proof (rule Suc.hyps(1) [where t = "t[i := Item None None]"])
    show "n = tot inst1 - (i + 1)" "table inst1 = Some (t[i := Item None None])"
      "tot inst1 \<le> length (t[i := Item None None])"
      using n Suc.prems(1,2) by (simp_all add: inst1_def)
    show "\<exists>k v. t[i := Item None None] ! j = Item (Some k) (Some v)" if "i + 1 \<le> j" "j < tot inst1" for j
      using that Suc.prems(3) [of j] by (simp add: inst1_def)
  qed
  with step i show ?case
    by (auto simp: inst1_def)
qed

lemma array_destory_law:
  assumes "array_inv inst"
  shows "\<exists>s'. kvs_array_destory inst s = Inr (array_cleared, s') \<and>
     s_live s' = s_live s - array_owned inst \<and> s_alloc s' = s_alloc s"
proof -
  obtain ps where rep: "array_rep inst ps"
    using assms by (auto simp: array_inv_def)
  then obtain spare where t: "table inst = Some (map full_slot ps @ spare)" "tot inst = length ps"
    by (auto simp: array_rep_def)
  have "\<exists>k v. (map full_slot ps @ spare) ! j = Item (Some k) (Some v)" if "j < tot inst" for j
    using that t by (simp add: nth_append full_slot_def)
  then obtain inst' s' where "array_free_slots inst 0 s = Inr (inst', s')"
      "s_live s' = s_live s - 2 * int (tot inst)" "s_alloc s' = s_alloc s"
    using array_free_slots_law [OF t(1), of 0 s] t(2) by auto
  then show ?thesis
    using t by (simp add: kvs_array_destory_def array_owned_def array_cleared_def)
qed

interpretation array_life: kv_managed array_inv "\<lambda>_. True" array_map array_owned array_room array_entries
  kvs_array_set kvs_array_mod kvs_array_del kvs_array_get kvs_array_exist kvs_array_foreach
  "\<lambda>inst. table inst = None" kvs_array_create kvs_array_destory
proof (unfold_locales, goal_cases)
  case (1 e s)
  then show ?case using array_create_law [of e s] by auto
next
  case (2 e s)
  then show ?case using array_destory_law [of e s] by (auto simp: array_cleared_def)
qed

end
