(* ===== verification/Hash_Engine.thy ===== *)
theory Hash_Engine
  imports Engine_Spec
begin

text \<open>
  The hash engine, \<open>src/src/engines/kvs_hash.c\<close>: \<open>MAX_TABLE_SIZE\<close> buckets, each a
  singly linked chain of nodes, which the model keeps as the list of the nodes' keys and
  values from the head on.  The table pointer is \<open>None\<close> before creation and after
  destruction.

  The bucket of a key is the sum of its bytes, read as plain \<open>char\<close> (signed on this
  platform), reduced by C's \<open>%\<close>.  Where the sum is negative so is the index, and the
  access \<open>hash->nodes[idx]\<close> leaves the table: the model shows it as
  \<open>Out_of_bounds\<close>.  \<open>hash_ok\<close> is the condition on keys under which it cannot happen.
\<close>

section \<open>Data and operations\<close>

definition MAX_TABLE_SIZE :: int where
  "MAX_TABLE_SIZE = 1024"

definition hashnode_bytes :: nat where
  "hashnode_bytes = 24"

type_synonym hashnode_t = "bytes \<times> bytes"

record kvs_hash_t =
  nodes :: "hashnode_t list list option"
  max_slots :: nat
  hcount :: int

definition hash_cleared :: kvs_hash_t where
  "hash_cleared = \<lparr>nodes = None, max_slots = 0, hcount = 0\<rparr>"

definition signed_char :: "char \<Rightarrow> int" where
  "signed_char c = (let n = int (byte_of c) in if n < 128 then n else n - 256)"

fun hash_sum :: "bytes \<Rightarrow> int \<Rightarrow> int run" where
  "hash_sum [] acc = Inr acc"
| "hash_sum (c # cs) acc =
     (let acc' = acc + signed_char c
      in if acc' < INT_MIN \<or> INT_MAX < acc' then Inl Int_overflow else hash_sum cs acc')"

definition hash_index :: "bytes option \<Rightarrow> int \<Rightarrow> int run" where
  "hash_index key sz =
     (case key of
        None \<Rightarrow> Inr (-1)
      | Some k \<Rightarrow> bindr (hash_sum k 0) (\<lambda>acc. Inr (c_mod acc sz)))"

definition bucket_read :: "kvs_hash_t \<Rightarrow> int \<Rightarrow> hashnode_t list run" where
  "bucket_read hash i =
     (case nodes hash of
        None \<Rightarrow> Inl Null_deref
      | Some ns \<Rightarrow> if 0 \<le> i \<and> nat i < length ns then Inr (ns ! nat i) else Inl Out_of_bounds)"

definition bucket_write :: "kvs_hash_t \<Rightarrow> int \<Rightarrow> hashnode_t list \<Rightarrow> kvs_hash_t run" where
  "bucket_write hash i chain =
     (case nodes hash of
        None \<Rightarrow> Inl Null_deref
      | Some ns \<Rightarrow>
          if 0 \<le> i \<and> nat i < length ns then Inr (hash\<lparr>nodes := Some (ns[nat i := chain])\<rparr>)
          else Inl Out_of_bounds)"

text \<open>Walking a chain: the value of the first node with the key, and replacing it.\<close>

fun chain_find :: "hashnode_t list \<Rightarrow> bytes \<Rightarrow> bytes option" where
  "chain_find [] key = None"
| "chain_find ((k, v) # ns) key = (if strcmp k key = 0 then Some v else chain_find ns key)"

fun chain_replace :: "hashnode_t list \<Rightarrow> bytes \<Rightarrow> bytes \<Rightarrow> hashnode_t list" where
  "chain_replace [] key val = []"
| "chain_replace ((k, v) # ns) key val =
     (if strcmp k key = 0 then (k, val) # ns else (k, v) # chain_replace ns key val)"

text \<open>Unlinking the first node with the key from behind its predecessor.\<close>

fun chain_unlink :: "hashnode_t list \<Rightarrow> bytes \<Rightarrow> hashnode_t list option" where
  "chain_unlink [] key = None"
| "chain_unlink ((k, v) # ns) key =
     (if strcmp k key = 0 then Some ns
      else case chain_unlink ns key of None \<Rightarrow> None | Some ns' \<Rightarrow> Some ((k, v) # ns'))"

definition hash_create_node :: "bytes \<Rightarrow> bytes \<Rightarrow> sys \<Rightarrow> hashnode_t option \<times> sys" where
  "hash_create_node key val s =
     (case kvs_malloc hashnode_bytes s of
        (False, s) \<Rightarrow> (None, s)
      | (True, s) \<Rightarrow>
          (case kvs_malloc (length key + 1) s of
             (False, s) \<Rightarrow> (None, kvs_free s)
           | (True, s) \<Rightarrow>
               (case kvs_malloc (length val + 1) s of
                  (False, s) \<Rightarrow> (None, kvs_free (kvs_free s))
                | (True, s) \<Rightarrow> (Some (key, val), s))))"

text \<open>Key, value and the node itself.\<close>

definition hash_node_free :: "sys \<Rightarrow> sys" where
  "hash_node_free s = kvs_free (kvs_free (kvs_free s))"

definition kvs_hash_create :: "kvs_hash_t \<Rightarrow> sys \<Rightarrow> int \<times> kvs_hash_t \<times> sys" where
  "kvs_hash_create hash s =
     (case kvs_malloc (8 * nat MAX_TABLE_SIZE) s of
        (False, s) \<Rightarrow> (-1, hash\<lparr>nodes := None\<rparr>, s)
      | (True, s) \<Rightarrow>
          (0, hash\<lparr>nodes := Some (replicate (nat MAX_TABLE_SIZE) []),
                   max_slots := nat MAX_TABLE_SIZE, hcount := 0\<rparr>, s))"

fun hash_free_chain :: "hashnode_t list \<Rightarrow> sys \<Rightarrow> sys" where
  "hash_free_chain [] s = s"
| "hash_free_chain (n # ns) s = hash_free_chain ns (hash_node_free s)"

text \<open>\<open>n\<close> slots are still to be visited, the next is \<open>max_slots - n\<close>.\<close>

fun hash_free_slots :: "kvs_hash_t \<Rightarrow> nat \<Rightarrow> sys \<Rightarrow> (kvs_hash_t \<times> sys) run" where
  "hash_free_slots hash 0 s = Inr (hash, s)"
| "hash_free_slots hash (Suc n) s =
     (let i = int (max_slots hash - Suc n) in
      bindr (bucket_read hash i) (\<lambda>chain.
      bindr (bucket_write hash i []) (\<lambda>hash.
      hash_free_slots hash n (hash_free_chain chain s))))"

definition kvs_hash_destory :: "kvs_hash_t \<Rightarrow> sys \<Rightarrow> (kvs_hash_t \<times> sys) run" where
  "kvs_hash_destory hash s =
     bindr (hash_free_slots hash (max_slots hash) s) (\<lambda>(hash, s).
       Inr (hash\<lparr>nodes := None, max_slots := 0, hcount := 0\<rparr>, kvs_free_opt (nodes hash) s))"

definition kvs_hash_set :: "kvs_hash_t store" where
  "kvs_hash_set hash key val s =
     (case (key, val) of
        (Some key, Some val) \<Rightarrow>
          bindr (hash_index (Some key) MAX_TABLE_SIZE) (\<lambda>i.
          bindr (bucket_read hash i) (\<lambda>chain.
            case chain_find chain key of
              Some old \<Rightarrow>
                (case kvs_malloc (length val + 1) s of
                   (False, s) \<Rightarrow> Inr (-2, hash, s)
                 | (True, s) \<Rightarrow>
                     bindr (bucket_write hash i (chain_replace chain key val)) (\<lambda>hash.
                       Inr (0, hash, kvs_free s)))
            | None \<Rightarrow>
                (case hash_create_node key val s of
                   (None, s) \<Rightarrow> Inr (-1, hash, s)
                 | (Some node, s) \<Rightarrow>
                     bindr (bucket_write hash i (node # chain)) (\<lambda>hash.
                       Inr (0, hash\<lparr>hcount := hcount hash + 1\<rparr>, s)))))
      | _ \<Rightarrow> Inr (-1, hash, s))"

definition kvs_hash_get :: "kvs_hash_t \<Rightarrow> bytes option \<Rightarrow> bytes option run" where
  "kvs_hash_get hash key =
     (case key of
        None \<Rightarrow> Inr None
      | Some k \<Rightarrow>
          bindr (hash_index key MAX_TABLE_SIZE) (\<lambda>i.
          bindr (bucket_read hash i) (\<lambda>chain. Inr (chain_find chain k))))"

definition kvs_hash_mod :: "kvs_hash_t store" where
  "kvs_hash_mod hash key val s =
     (case key of
        None \<Rightarrow> Inr (-1, hash, s)
      | Some k \<Rightarrow>
          bindr (hash_index key MAX_TABLE_SIZE) (\<lambda>i.
          bindr (bucket_read hash i) (\<lambda>chain.
            case chain_find chain k of
              None \<Rightarrow> Inr (1, hash, s)
            | Some old \<Rightarrow>
                (case val of
                   None \<Rightarrow> Inl Null_deref
                 | Some v \<Rightarrow>
                     (case kvs_malloc (length v + 1) s of
                        (False, s) \<Rightarrow> Inr (-2, hash, s)
                      | (True, s) \<Rightarrow>
                          bindr (bucket_write hash i (chain_replace chain k v)) (\<lambda>hash.
                            Inr (0, hash, kvs_free s)))))))"

definition kvs_hash_count :: "kvs_hash_t \<Rightarrow> int" where
  "kvs_hash_count hash = hcount hash"

definition kvs_hash_del :: "kvs_hash_t modify" where
  "kvs_hash_del hash key s =
     (case key of
        None \<Rightarrow> Inr (-2, hash, s)
      | Some k \<Rightarrow>
          bindr (hash_index key MAX_TABLE_SIZE) (\<lambda>i.
          bindr (bucket_read hash i) (\<lambda>chain.
            case chain_unlink chain k of
              None \<Rightarrow> Inr (-1, hash, s)
            | Some chain' \<Rightarrow>
                bindr (bucket_write hash i chain') (\<lambda>hash.
                  Inr (0, hash\<lparr>hcount := hcount hash - 1\<rparr>, hash_node_free s)))))"

definition kvs_hash_exist :: "kvs_hash_t \<Rightarrow> bytes option \<Rightarrow> int run" where
  "kvs_hash_exist hash key =
     bindr (kvs_hash_get hash key) (\<lambda>val. Inr (if val = None then 1 else 0))"

text \<open>The walk over one chain, then over the \<open>n\<close> slots still to be visited.\<close>

fun hash_visit_chain ::
    "(bytes \<Rightarrow> bytes \<Rightarrow> 'c \<Rightarrow> (int \<times> 'c) run) \<Rightarrow> hashnode_t list \<Rightarrow> 'c \<Rightarrow> (int \<times> 'c) run" where
  "hash_visit_chain visitor [] c = Inr (0, c)"
| "hash_visit_chain visitor ((k, v) # ns) c =
     bindr (visitor k v c) (\<lambda>(ret, c). if ret < 0 then Inr (-1, c) else hash_visit_chain visitor ns c)"

fun hash_visit_slots ::
    "kvs_hash_t \<Rightarrow> (bytes \<Rightarrow> bytes \<Rightarrow> 'c \<Rightarrow> (int \<times> 'c) run) \<Rightarrow> nat \<Rightarrow> 'c \<Rightarrow> (int \<times> 'c) run" where
  "hash_visit_slots hash visitor 0 c = Inr (0, c)"
| "hash_visit_slots hash visitor (Suc n) c =
     bindr (bucket_read hash (int (max_slots hash - Suc n))) (\<lambda>chain.
     bindr (hash_visit_chain visitor chain c) (\<lambda>(ret, c).
       if ret < 0 then Inr (-1, c) else hash_visit_slots hash visitor n c))"

definition kvs_hash_foreach ::
    "kvs_hash_t \<Rightarrow> (bytes \<Rightarrow> bytes \<Rightarrow> 'c \<Rightarrow> (int \<times> 'c) run) \<Rightarrow> 'c \<Rightarrow> (int \<times> 'c) run" where
  "kvs_hash_foreach hash visitor c =
     (if nodes hash = None then Inr (-1, c) else hash_visit_slots hash visitor (max_slots hash) c)"

section \<open>Representation\<close>

definition hash_ok :: "bytes \<Rightarrow> bool" where
  "hash_ok key = (case hash_index (Some key) MAX_TABLE_SIZE of Inl _ \<Rightarrow> False | Inr i \<Rightarrow> 0 \<le> i)"

definition bucket_of :: "bytes \<Rightarrow> nat" where
  "bucket_of key = (case hash_index (Some key) MAX_TABLE_SIZE of Inl _ \<Rightarrow> 0 | Inr i \<Rightarrow> nat i)"

definition buckets_ok :: "hashnode_t list list \<Rightarrow> bool" where
  "buckets_ok ns \<longleftrightarrow> length ns = nat MAX_TABLE_SIZE \<and>
     (\<forall>i < length ns. distinct (map fst (ns ! i)) \<and>
        (\<forall>p \<in> set (ns ! i). hash_ok (fst p) \<and> bucket_of (fst p) = i))"

definition hash_entries :: "kvs_hash_t \<Rightarrow> (bytes \<times> bytes) list" where
  "hash_entries hash = (case nodes hash of None \<Rightarrow> [] | Some ns \<Rightarrow> concat ns)"

definition hash_inv :: "kvs_hash_t \<Rightarrow> bool" where
  "hash_inv hash \<longleftrightarrow> (\<exists>ns. nodes hash = Some ns \<and> buckets_ok ns) \<and>
     max_slots hash = nat MAX_TABLE_SIZE \<and> hcount hash = int (length (hash_entries hash))"

definition hash_map :: "kvs_hash_t \<Rightarrow> bytes \<rightharpoonup> bytes" where
  "hash_map hash = map_of (hash_entries hash)"

definition hash_owned :: "kvs_hash_t \<Rightarrow> int" where
  "hash_owned hash = (if nodes hash = None then 0 else 1 + 3 * int (length (hash_entries hash)))"

lemma hash_okD:
  assumes "hash_ok key"
  shows "hash_index (Some key) MAX_TABLE_SIZE = Inr (int (bucket_of key))"
    "bucket_of key < nat MAX_TABLE_SIZE"
proof -
  obtain acc where acc: "hash_sum key 0 = Inr acc" "0 \<le> c_mod acc MAX_TABLE_SIZE"
    using assms by (cases "hash_sum key 0") (auto simp: hash_ok_def hash_index_def)
  have "c_mod acc MAX_TABLE_SIZE < MAX_TABLE_SIZE"
    using acc(2) by (cases "0 \<le> acc") (auto simp: c_mod_nonneg c_mod_neg MAX_TABLE_SIZE_def)
  with acc show "hash_index (Some key) MAX_TABLE_SIZE = Inr (int (bucket_of key))"
    "bucket_of key < nat MAX_TABLE_SIZE"
    by (auto simp: hash_index_def bucket_of_def)
qed

text \<open>Keys of plain ASCII bytes, short enough for the sum to stay an \<open>int\<close>, are fine.\<close>

lemma hash_sum_ascii:
  "(\<And>c. c \<in> set cs \<Longrightarrow> byte_of c < (128::nat)) \<Longrightarrow> 0 \<le> acc \<Longrightarrow> acc + 127 * int (length cs) \<le> INT_MAX \<Longrightarrow>
   \<exists>acc'. hash_sum cs acc = Inr acc' \<and> 0 \<le> acc'"
proof (induction cs arbitrary: acc)
  case Nil
  then show ?case by simp
next
  case (Cons c cs)
  have "0 \<le> signed_char c" "signed_char c \<le> 127"
    using Cons.prems(1) [of c] by (auto simp: signed_char_def Let_def)
  with Cons.prems Cons.IH [of "acc + signed_char c"] show ?case
    by (auto simp: Let_def INT_MIN_def)
qed

lemma hash_ok_ascii:
  assumes "\<And>c. c \<in> set key \<Longrightarrow> byte_of c < (128::nat)" "length key \<le> 16909320"
  shows "hash_ok key"
proof -
  obtain acc where "hash_sum key 0 = Inr acc" "0 \<le> acc"
    using hash_sum_ascii [of key 0] assms by (auto simp: INT_MAX_def)
  then show ?thesis
    by (simp add: hash_ok_def hash_index_def c_mod_nonneg MAX_TABLE_SIZE_def)
qed

text \<open>Chains.\<close>

lemma chain_find: "chain_find ns key = map_of ns key"
  by (induction ns key rule: chain_find.induct) auto

lemma chain_replace_map:
  "map_of ns key \<noteq> None \<Longrightarrow> map_of (chain_replace ns key val) = (map_of ns)(key \<mapsto> val)"
  by (induction ns key val rule: chain_replace.induct) (auto simp: fun_eq_iff)

lemma chain_replace_keys [simp]: "map fst (chain_replace ns key val) = map fst ns"
  by (induction ns key val rule: chain_replace.induct) auto

lemma chain_replace_length [simp]: "length (chain_replace ns key val) = length ns"
  by (induction ns key val rule: chain_replace.induct) auto

lemma chain_unlink_None: "chain_unlink ns key = None \<longleftrightarrow> map_of ns key = None"
  by (induction ns key rule: chain_unlink.induct) (auto split: option.splits)

lemma chain_unlink_Some:
  "chain_unlink ns key = Some ns' \<Longrightarrow> distinct (map fst ns) \<Longrightarrow>
   distinct (map fst ns') \<and> set ns' \<subseteq> set ns \<and> length ns = Suc (length ns') \<and>
   map_of ns' = (map_of ns)(key := None)"
proof (induction ns key arbitrary: ns' rule: chain_unlink.induct)
  case (2 k v ns key)
  show ?case
  proof (cases "k = key")
    case True
    with 2 show ?thesis by (auto simp: fun_eq_iff map_of_eq_None_iff)
  next
    case False
    then obtain ns1 where "chain_unlink ns key = Some ns1" "ns' = (k, v) # ns1"
      using 2 by (auto split: option.splits)
    with 2 False show ?thesis by (auto simp: fun_eq_iff)
  qed
qed simp

text \<open>The table as one association list.\<close>

lemma buckets_distinct:
  assumes "\<And>i. i < length ns \<Longrightarrow> distinct (map fst (ns ! i)) \<and> (\<forall>p \<in> set (ns ! i). f (fst p) = i + off)"
  shows "distinct (map fst (concat ns))"
  using assms
proof (induction ns arbitrary: off)
  case Nil
  then show ?case by simp
next
  case (Cons c ns)
  have head: "distinct (map fst c)" "\<forall>p \<in> set c. f (fst p) = off"
    using Cons.prems [of 0] by auto
  have tail: "distinct (map fst (ns ! i)) \<and> (\<forall>p \<in> set (ns ! i). f (fst p) = i + Suc off)"
    if "i < length ns" for i
    using Cons.prems [of "Suc i"] that by auto
  have "off < f (fst p)" if p: "p \<in> set (concat ns)" for p
  proof -
    obtain c' where "c' \<in> set ns" "p \<in> set c'"
      using p by auto
    then obtain i where "i < length ns" "p \<in> set (ns ! i)"
      by (auto simp: in_set_conv_nth)
    with tail show ?thesis by fastforce
  qed
  then have "set (map fst c) \<inter> set (map fst (concat ns)) = {}"
    using head(2) by fastforce
  with head(1) Cons.IH [of "Suc off"] tail show ?case
    by simp
qed

lemma buckets_okD:
  "buckets_ok ns \<Longrightarrow> i < length ns \<Longrightarrow> (k, v) \<in> set (ns ! i) \<Longrightarrow> hash_ok k \<and> bucket_of k = i"
  by (fastforce simp: buckets_ok_def)

lemma buckets_ok_distinct: "buckets_ok ns \<Longrightarrow> distinct (map fst (concat ns))"
  using buckets_distinct [of ns bucket_of 0] by (auto simp: buckets_ok_def)

lemma buckets_ok_lookup:
  assumes "buckets_ok ns" "hash_ok key"
  shows "map_of (concat ns) key = map_of (ns ! bucket_of key) key"
proof -
  have b: "bucket_of key < length ns"
    using assms hash_okD(2) [OF assms(2)] by (simp add: buckets_ok_def)
  then have "distinct (map fst (ns ! bucket_of key))"
    using assms(1) by (simp add: buckets_ok_def)
  moreover have "(key, v) \<in> set (concat ns) \<longleftrightarrow> (key, v) \<in> set (ns ! bucket_of key)" for v
  proof
    assume "(key, v) \<in> set (concat ns)"
    then obtain c where "c \<in> set ns" "(key, v) \<in> set c"
      by auto
    then obtain i where i: "i < length ns" "(key, v) \<in> set (ns ! i)"
      by (auto simp: in_set_conv_nth [of c ns])
    then have "bucket_of key = i"
      using buckets_okD [OF assms(1)] by blast
    with i show "(key, v) \<in> set (ns ! bucket_of key)" by simp
  next
    assume "(key, v) \<in> set (ns ! bucket_of key)"
    then show "(key, v) \<in> set (concat ns)"
      using nth_mem [OF b] by auto
  qed
  ultimately have "map_of (concat ns) key = Some v \<longleftrightarrow> map_of (ns ! bucket_of key) key = Some v" for v
    using buckets_ok_distinct [OF assms(1)] by (simp add: map_of_eq_Some_iff)
  then show ?thesis
    by (metis not_Some_eq)
qed

lemma buckets_ok_no_bad_key:
  assumes "buckets_ok ns" "\<not> hash_ok key"
  shows "map_of (concat ns) key = None"
proof (rule ccontr)
  assume "map_of (concat ns) key \<noteq> None"
  then obtain v c where "c \<in> set ns" "(key, v) \<in> set c"
    by (auto dest!: map_of_SomeD)
  then obtain i where "i < length ns" "(key, v) \<in> set (ns ! i)"
    by (auto simp: in_set_conv_nth [of c ns])
  with assms show False
    using buckets_okD by blast
qed

text \<open>
  Replacing the chain of \<open>key\<close> by one that differs from it at \<open>key\<close> only.
\<close>

lemma buckets_update:
  assumes ok: "buckets_ok ns" "hash_ok key"
    and c: "distinct (map fst c)" "fst ` set c \<subseteq> insert key (fst ` set (ns ! bucket_of key))"
      "map_of c = (map_of (ns ! bucket_of key))(key := new)"
  shows "buckets_ok (ns[bucket_of key := c])"
    "map_of (concat (ns[bucket_of key := c])) = (map_of (concat ns))(key := new)"
proof -
  have b: "bucket_of key < length ns"
    using ok hash_okD(2) [OF ok(2)] by (simp add: buckets_ok_def)
  have "hash_ok k \<and> bucket_of k = bucket_of key" if k: "k \<in> fst ` set c" for k
  proof (cases "k = key")
    case False
    then have "k \<in> fst ` set (ns ! bucket_of key)"
      using k c(2) by blast
    then obtain v where "(k, v) \<in> set (ns ! bucket_of key)"
      by force
    then show ?thesis
      by (rule buckets_okD [OF ok(1) b])
  qed (use ok(2) in simp)
  then have "distinct (map fst (ns[bucket_of key := c] ! i)) \<and>
      (\<forall>p \<in> set (ns[bucket_of key := c] ! i). hash_ok (fst p) \<and> bucket_of (fst p) = i)"
    if "i < length ns" for i
    using that ok(1) c(1) b by (cases "i = bucket_of key") (auto simp: buckets_ok_def)
  then show ok': "buckets_ok (ns[bucket_of key := c])"
    using ok(1) by (simp add: buckets_ok_def)
  show "map_of (concat (ns[bucket_of key := c])) = (map_of (concat ns))(key := new)"
  proof
    fix k
    show "map_of (concat (ns[bucket_of key := c])) k = ((map_of (concat ns))(key := new)) k"
    proof (cases "hash_ok k")
      case True
      show ?thesis
        using buckets_ok_lookup [OF ok' True] buckets_ok_lookup [OF ok(1) True] b c(3) ok(2)
        by (cases "bucket_of k = bucket_of key") auto
    next
      case False
      with ok(2) have "k \<noteq> key" by auto
      with False show ?thesis
        using buckets_ok_no_bad_key [OF ok'] buckets_ok_no_bad_key [OF ok(1)] by simp
    qed
  qed
qed

lemma length_concat_update:
  "i < length ns \<Longrightarrow> length (concat (ns[i := c])) + length (ns ! i) = length (concat ns) + length c"
proof (induction ns arbitrary: i)
  case (Cons x ns)
  then show ?case by (cases i) (auto simp: add.assoc)
qed simp

text \<open>What an operation on one key needs from the invariant.\<close>

lemma hash_invE:
  assumes "hash_inv hash" "hash_ok key"
  obtains ns where "nodes hash = Some ns" "buckets_ok ns" "bucket_of key < length ns"
    "hash_index (Some key) MAX_TABLE_SIZE = Inr (int (bucket_of key))"
    "bucket_read hash (int (bucket_of key)) = Inr (ns ! bucket_of key)"
    "\<And>c. bucket_write hash (int (bucket_of key)) c = Inr (hash\<lparr>nodes := Some (ns[bucket_of key := c])\<rparr>)"
    "hash_entries hash = concat ns" "hash_map hash key = map_of (ns ! bucket_of key) key"
    "distinct (map fst (ns ! bucket_of key))"
proof -
  obtain ns where ns: "nodes hash = Some ns" "buckets_ok ns"
    using assms(1) by (auto simp: hash_inv_def)
  then have b: "bucket_of key < length ns"
    using hash_okD(2) [OF assms(2)] by (simp add: buckets_ok_def)
  show thesis
    by (rule that [OF ns b hash_okD(1) [OF assms(2)]])
       (use ns b buckets_ok_lookup [OF ns(2) assms(2)] in
         \<open>auto simp: bucket_read_def bucket_write_def hash_entries_def hash_map_def buckets_ok_def\<close>)
qed

lemma hash_write_chain:
  assumes inv: "hash_inv hash" "hash_ok key" and ns: "nodes hash = Some ns"
    and c: "distinct (map fst c)" "fst ` set c \<subseteq> insert key (fst ` set (ns ! bucket_of key))"
      "map_of c = (map_of (ns ! bucket_of key))(key := new)"
    and n: "n = hcount hash + int (length c) - int (length (ns ! bucket_of key))"
  shows "hash_inv (hash\<lparr>nodes := Some (ns[bucket_of key := c]), hcount := n\<rparr>)"
    "hash_map (hash\<lparr>nodes := Some (ns[bucket_of key := c]), hcount := n\<rparr>) = (hash_map hash)(key := new)"
    "hash_owned (hash\<lparr>nodes := Some (ns[bucket_of key := c]), hcount := n\<rparr>) =
       hash_owned hash + 3 * (int (length c) - int (length (ns ! bucket_of key)))"
proof -
  have ok: "buckets_ok ns" and b: "bucket_of key < length ns"
    using inv ns hash_okD(2) [OF inv(2)] by (auto simp: hash_inv_def buckets_ok_def)
  note up = buckets_update [OF ok inv(2) c]
  have len: "int (length (concat (ns[bucket_of key := c]))) =
      int (length (concat ns)) + int (length c) - int (length (ns ! bucket_of key))"
    using length_concat_update [OF b, of c] by linarith
  show "hash_inv (hash\<lparr>nodes := Some (ns[bucket_of key := c]), hcount := n\<rparr>)"
    using inv(1) ns up(1) n len by (auto simp: hash_inv_def hash_entries_def)
  show "hash_map (hash\<lparr>nodes := Some (ns[bucket_of key := c]), hcount := n\<rparr>) = (hash_map hash)(key := new)"
    using up(2) ns by (simp add: hash_map_def hash_entries_def)
  show "hash_owned (hash\<lparr>nodes := Some (ns[bucket_of key := c]), hcount := n\<rparr>) =
      hash_owned hash + 3 * (int (length c) - int (length (ns ! bucket_of key)))"
    using ns len by (simp add: hash_owned_def hash_entries_def)
qed

lemma hash_create_node_cases:
  obtains (made) s' where "hash_create_node key val s = (Some (key, val), s')"
      "s_live s' = s_live s + 3" "s_alloc s' = s_alloc s"
  | (refused) s' where "hash_create_node key val s = (None, s')"
      "s_live s' = s_live s" "s_alloc s' = s_alloc s" "\<not> plenty s"
proof (cases rule: kvs_malloc_cases [of hashnode_bytes s])
  case r: (refused s1)
  then show thesis
    using refused by (simp add: hash_create_node_def hashnode_bytes_def)
next
  case g1: (granted s1)
  show thesis
  proof (cases rule: kvs_malloc_cases [of "length key + 1" s1])
    case r: (refused s2)
    then show thesis
      using g1 refused [of "kvs_free s2"] plenty_cong [OF g1(3)] by (simp add: hash_create_node_def)
  next
    case g2: (granted s2)
    then have p: "plenty s2 = plenty s"
      using g1 by (simp add: plenty_def)
    show thesis
    proof (cases rule: kvs_malloc_cases [of "length val + 1" s2])
      case r: (refused s3)
      then show thesis
        using g1 g2 p refused [of "kvs_free (kvs_free s3)"] by (simp add: hash_create_node_def)
    next
      case g3: (granted s3)
      then show thesis
        using g1 g2 made by (simp add: hash_create_node_def)
    qed
  qed
qed

section \<open>The laws of an engine\<close>

lemma hash_store_chain:
  fixes val :: bytes
  assumes inv: "hash_inv hash" "hash_ok key" and ns: "nodes hash = Some ns"
    and present: "map_of (ns ! bucket_of key) key \<noteq> None"
    and dist: "distinct (map fst (ns ! bucket_of key))"
  defines "hash' \<equiv> hash\<lparr>nodes := Some (ns[bucket_of key := chain_replace (ns ! bucket_of key) key val])\<rparr>"
  shows "hash_inv hash'" "hash_map hash' = (hash_map hash)(key \<mapsto> val)" "hash_owned hash' = hash_owned hash"
proof -
  let ?c = "chain_replace (ns ! bucket_of key) key val"
  have eq: "hash' = hash\<lparr>nodes := Some (ns[bucket_of key := ?c]), hcount := hcount hash\<rparr>"
    by (simp add: hash'_def)
  have keys: "fst ` set ?c = fst ` set (ns ! bucket_of key)"
    by (metis chain_replace_keys list.set_map)
  show "hash_inv hash'" "hash_map hash' = (hash_map hash)(key \<mapsto> val)" "hash_owned hash' = hash_owned hash"
    using hash_write_chain [OF inv ns, of ?c "Some val" "hcount hash"] dist keys
      chain_replace_map [OF present] by (auto simp: eq)
qed

lemma hash_mod_law:
  assumes inv: "hash_inv hash" and ok: "hash_ok k"
  shows "\<exists>r hash' s'. kvs_hash_mod hash (Some k) (Some v) s = Inr (r, hash', s') \<and>
     hash_inv hash' \<and> balanced hash_owned hash s hash' s' \<and>
     (r = 0 \<and> hash_map hash k \<noteq> None \<and> hash_map hash' = (hash_map hash)(k \<mapsto> v) \<or>
      r < 0 \<and> hash_map hash k \<noteq> None \<and> hash' = hash \<and> \<not> plenty s \<or>
      r = 1 \<and> hash_map hash k = None \<and> hash' = hash \<and> s' = s)"
proof (rule hash_invE [OF inv ok])
  fix ns
  assume a: "nodes hash = Some ns" "hash_index (Some k) MAX_TABLE_SIZE = Inr (int (bucket_of k))"
    "bucket_read hash (int (bucket_of k)) = Inr (ns ! bucket_of k)"
    "\<And>c. bucket_write hash (int (bucket_of k)) c = Inr (hash\<lparr>nodes := Some (ns[bucket_of k := c])\<rparr>)"
    "hash_map hash k = map_of (ns ! bucket_of k) k" "distinct (map fst (ns ! bucket_of k))"
  show ?thesis
  proof (cases "map_of (ns ! bucket_of k) k")
    case None
    with a inv show ?thesis
      by (simp add: kvs_hash_mod_def chain_find)
  next
    case (Some old)
    then have present: "map_of (ns ! bucket_of k) k \<noteq> None" by simp
    note st = hash_store_chain [OF inv ok a(1) present a(6), of v]
    show ?thesis
    proof (cases rule: kvs_malloc_cases [of "length v + 1" s])
      case (granted s')
      then show ?thesis
        using a Some st by (simp add: kvs_hash_mod_def chain_find balanced_def)
    next
      case (refused s')
      then show ?thesis
        using a Some inv by (simp add: kvs_hash_mod_def chain_find balanced_def)
    qed
  qed
qed

lemma hash_set_law:
  assumes inv: "hash_inv hash" and ok: "hash_ok k"
  shows "\<exists>r hash' s'. kvs_hash_set hash (Some k) (Some v) s = Inr (r, hash', s') \<and>
     hash_inv hash' \<and> balanced hash_owned hash s hash' s' \<and>
     (r = 0 \<and> hash_map hash' = (hash_map hash)(k \<mapsto> v) \<or> r < 0 \<and> hash' = hash) \<and>
     (plenty s \<longrightarrow> r = 0)"
proof (rule hash_invE [OF inv ok])
  fix ns
  assume a: "nodes hash = Some ns" "hash_index (Some k) MAX_TABLE_SIZE = Inr (int (bucket_of k))"
    "bucket_read hash (int (bucket_of k)) = Inr (ns ! bucket_of k)"
    "\<And>c. bucket_write hash (int (bucket_of k)) c = Inr (hash\<lparr>nodes := Some (ns[bucket_of k := c])\<rparr>)"
    "distinct (map fst (ns ! bucket_of k))"
  show ?thesis
  proof (cases "map_of (ns ! bucket_of k) k")
    case None
    let ?c = "(k, v) # ns ! bucket_of k"
    let ?h = "hash\<lparr>nodes := Some (ns[bucket_of k := ?c]), hcount := hcount hash + 1\<rparr>"
    have w: "hash_inv ?h" "hash_map ?h = (hash_map hash)(k \<mapsto> v)" "hash_owned ?h = hash_owned hash + 3"
      using hash_write_chain [OF inv ok a(1), of ?c "Some v" "hcount hash + 1"] None a(5)
      by (auto simp: map_of_eq_None_iff)
    show ?thesis
    proof (cases rule: hash_create_node_cases [of k v s])
      case (made s')
      then show ?thesis
        using a None w by (simp add: kvs_hash_set_def chain_find balanced_def)
    next
      case (refused s')
      then show ?thesis
        using a None inv by (simp add: kvs_hash_set_def chain_find balanced_def)
    qed
  next
    case (Some old)
    then have present: "map_of (ns ! bucket_of k) k \<noteq> None" by simp
    note st = hash_store_chain [OF inv ok a(1) present a(5), of v]
    show ?thesis
    proof (cases rule: kvs_malloc_cases [of "length v + 1" s])
      case (granted s')
      then show ?thesis
        using a Some st by (simp add: kvs_hash_set_def chain_find balanced_def)
    next
      case (refused s')
      then show ?thesis
        using a Some inv by (simp add: kvs_hash_set_def chain_find balanced_def)
    qed
  qed
qed

lemma hash_del_law:
  assumes inv: "hash_inv hash" and ok: "hash_ok k"
  shows "\<exists>r hash' s'. kvs_hash_del hash (Some k) s = Inr (r, hash', s') \<and>
     hash_inv hash' \<and> balanced hash_owned hash s hash' s' \<and>
     (r = 0 \<and> hash_map hash k \<noteq> None \<and> hash_map hash' = (hash_map hash)(k := None) \<or>
      r = -1 \<and> hash_map hash k = None \<and> hash' = hash \<and> s' = s)"
proof (rule hash_invE [OF inv ok])
  fix ns
  assume a: "nodes hash = Some ns" "hash_index (Some k) MAX_TABLE_SIZE = Inr (int (bucket_of k))"
    "bucket_read hash (int (bucket_of k)) = Inr (ns ! bucket_of k)"
    "\<And>c. bucket_write hash (int (bucket_of k)) c = Inr (hash\<lparr>nodes := Some (ns[bucket_of k := c])\<rparr>)"
    "hash_map hash k = map_of (ns ! bucket_of k) k" "distinct (map fst (ns ! bucket_of k))"
  show ?thesis
  proof (cases "chain_unlink (ns ! bucket_of k) k")
    case None
    moreover from this have "map_of (ns ! bucket_of k) k = None"
      by (simp add: chain_unlink_None)
    ultimately show ?thesis
      using a inv by (simp add: kvs_hash_del_def)
  next
    case (Some c)
    let ?h = "hash\<lparr>nodes := Some (ns[bucket_of k := c]), hcount := hcount hash - 1\<rparr>"
    have c: "distinct (map fst c)" "set c \<subseteq> set (ns ! bucket_of k)"
        "length (ns ! bucket_of k) = Suc (length c)" "map_of c = (map_of (ns ! bucket_of k))(k := None)"
      using chain_unlink_Some [OF Some a(6)] by auto
    have w: "hash_inv ?h" "hash_map ?h = (hash_map hash)(k := None)" "hash_owned ?h = hash_owned hash - 3"
      using hash_write_chain [OF inv ok a(1), of c None "hcount hash - 1"] c by auto
    have "map_of (ns ! bucket_of k) k \<noteq> None"
      using Some chain_unlink_None [of "ns ! bucket_of k" k] by auto
    then show ?thesis
      using a Some w by (simp add: kvs_hash_del_def balanced_def hash_node_free_def)
  qed
qed

lemma hash_get_law:
  assumes inv: "hash_inv hash" and ok: "hash_ok k"
  shows "kvs_hash_get hash (Some k) = Inr (hash_map hash k)"
  by (rule hash_invE [OF assms]) (simp add: kvs_hash_get_def chain_find)

lemma hash_visit_chain: "hash_visit_chain f ns c = visit_all f ns c"
  by (induction f ns c rule: hash_visit_chain.induct)
     (auto simp: case_prod_unfold cong: if_cong intro!: bindr_cong)

lemma bucket_read_nth: "nodes hash = Some ns \<Longrightarrow> i < length ns \<Longrightarrow> bucket_read hash (int i) = Inr (ns ! i)"
  by (simp add: bucket_read_def)

lemma hash_visit_slots:
  assumes "nodes hash = Some ns" "length ns = max_slots hash"
  shows "n \<le> max_slots hash \<Longrightarrow>
    hash_visit_slots hash f n c = visit_all f (concat (drop (max_slots hash - n) ns)) c"
proof (induction n arbitrary: c)
  case 0
  then show ?case using assms by simp
next
  case (Suc n)
  let ?i = "max_slots hash - Suc n"
  have i: "?i < length ns" "Suc ?i = max_slots hash - n"
    using Suc.prems assms by auto
  have "drop ?i ns = ns ! ?i # drop (max_slots hash - n) ns"
    using Cons_nth_drop_Suc [OF i(1)] i(2) by simp
  moreover have "bucket_read hash (int ?i) = Inr (ns ! ?i)"
    using i(1) by (rule bucket_read_nth [OF assms(1)])
  moreover have "hash_visit_slots hash f n c' = visit_all f (concat (drop (max_slots hash - n) ns)) c'" for c'
    using Suc by simp
  moreover have "visit_all f xs c = Inr (r, c') \<Longrightarrow> r < 0 \<Longrightarrow> r = -1" for xs c r c'
    by (induction f xs c rule: visit_all.induct) (auto simp: bindr_eq_Inr split: if_splits)
  ultimately show ?case
    by (auto simp: visit_all_append hash_visit_chain intro!: bindr_cong)
qed

interpretation hash: kv_engine hash_inv hash_ok hash_map hash_owned "\<lambda>_. True" hash_entries
  kvs_hash_set kvs_hash_mod kvs_hash_del kvs_hash_get kvs_hash_exist kvs_hash_foreach
proof (unfold_locales, goal_cases)
  case (1 e k v s)
  then show ?case using hash_set_law [of e k v s] by simp
next
  case (2 e k v s)
  then show ?case by (rule hash_mod_law)
next
  case (3 e k s)
  then show ?case using hash_del_law [of e k s] by force
next
  case (4 e k)
  then show ?case by (rule hash_get_law)
next
  case (5 e k)
  then show ?case by (simp add: kvs_hash_exist_def hash_get_law)
next
  case (6 e)
  then show ?case
    using buckets_ok_distinct by (auto simp: hash_inv_def hash_entries_def hash_map_def)
next
  case (7 e f c)
  then obtain ns where "nodes e = Some ns" "buckets_ok ns" "max_slots e = nat MAX_TABLE_SIZE"
    by (auto simp: hash_inv_def)
  then show ?case
    using hash_visit_slots [of e ns "max_slots e" f c]
    by (simp add: kvs_hash_foreach_def hash_entries_def buckets_ok_def)
qed

section \<open>Creation and destruction\<close>

lemma hash_create_law:
  "(\<exists>hash' s'. kvs_hash_create hash s = (0, hash', s') \<and> hash_inv hash' \<and> hash_entries hash' = [] \<and>
      s_live s' = s_live s + hash_owned hash' \<and> s_alloc s' = s_alloc s) \<or>
   (\<exists>s'. kvs_hash_create hash s = (-1, hash\<lparr>nodes := None\<rparr>, s') \<and> s_live s' = s_live s \<and>
      s_alloc s' = s_alloc s \<and> \<not> plenty s)"
  by (cases rule: kvs_malloc_cases [of "8 * nat MAX_TABLE_SIZE" s])
     (auto simp: kvs_hash_create_def hash_inv_def hash_entries_def hash_owned_def buckets_ok_def
        MAX_TABLE_SIZE_def)

lemma hash_free_chain: "s_live (hash_free_chain ns s) = s_live s - 3 * int (length ns)"
    "s_alloc (hash_free_chain ns s) = s_alloc s"
  by (induction ns s rule: hash_free_chain.induct) (auto simp: hash_node_free_def)

lemma hash_free_slots_law:
  assumes "nodes hash = Some ns" "length ns = max_slots hash" "n \<le> max_slots hash"
  shows "\<exists>hash' s'. hash_free_slots hash n s = Inr (hash', s') \<and> nodes hash' \<noteq> None \<and>
     s_live s' = s_live s - 3 * int (length (concat (drop (max_slots hash - n) ns))) \<and>
     s_alloc s' = s_alloc s"
  using assms
proof (induction n arbitrary: hash ns s)
  case 0
  then show ?case by simp
next
  case (Suc n)
  let ?i = "max_slots hash - Suc n"
  define hash1 where "hash1 = hash\<lparr>nodes := Some (ns[?i := []])\<rparr>"
  have i: "?i < length ns" "Suc ?i = max_slots hash - n"
    using Suc.prems by auto
  have d: "drop ?i ns = ns ! ?i # drop (max_slots hash - n) ns"
    using Cons_nth_drop_Suc [OF i(1)] i(2) by simp
  have "bucket_write hash (int ?i) [] = Inr hash1"
    using Suc.prems(1) i(1) nat_int [of ?i] by (simp only: bucket_write_def hash1_def) simp
  then have step: "hash_free_slots hash (Suc n) s =
      hash_free_slots hash1 n (hash_free_chain (ns ! ?i) s)"
    using bucket_read_nth [OF Suc.prems(1) i(1)] by (simp add: Let_def)
  have "\<exists>hash' s'. hash_free_slots hash1 n (hash_free_chain (ns ! ?i) s) = Inr (hash', s') \<and>
      nodes hash' \<noteq> None \<and>
      s_live s' = s_live (hash_free_chain (ns ! ?i) s) -
        3 * int (length (concat (drop (max_slots hash1 - n) (ns[?i := []])))) \<and>
      s_alloc s' = s_alloc (hash_free_chain (ns ! ?i) s)"
    using Suc.prems by (intro Suc.IH) (auto simp: hash1_def)
  moreover have "drop (max_slots hash1 - n) (ns[?i := []]) = drop (max_slots hash - n) ns"
    using i(2) by (simp add: hash1_def)
  ultimately show ?case
    using step d by (auto simp: hash_free_chain)
qed

lemma hash_destory_law:
  assumes "hash_inv hash"
  shows "\<exists>s'. kvs_hash_destory hash s = Inr (hash_cleared, s') \<and>
     s_live s' = s_live s - hash_owned hash \<and> s_alloc s' = s_alloc s"
proof -
  obtain ns where ns: "nodes hash = Some ns" "length ns = max_slots hash"
    using assms by (auto simp: hash_inv_def buckets_ok_def)
  obtain hash' s' where "hash_free_slots hash (max_slots hash) s = Inr (hash', s')" "nodes hash' \<noteq> None"
      "s_live s' = s_live s - 3 * int (length (concat ns))" "s_alloc s' = s_alloc s"
    using hash_free_slots_law [OF ns order_refl, of s] by auto
  then show ?thesis
    using ns by (auto simp: kvs_hash_destory_def hash_owned_def hash_entries_def hash_cleared_def)
qed

interpretation hash_life: kv_managed hash_inv hash_ok hash_map hash_owned "\<lambda>_. True" hash_entries
  kvs_hash_set kvs_hash_mod kvs_hash_del kvs_hash_get kvs_hash_exist kvs_hash_foreach
  "\<lambda>_. True" kvs_hash_create kvs_hash_destory
proof (unfold_locales, goal_cases)
  case (1 e s)
  then show ?case using hash_create_law [of e s] by auto
next
  case (2 e s)
  then show ?case using hash_destory_law [of e s] by auto
qed

section \<open>Keys whose bucket lies outside the table\<close>

lemma hash_sum_exact:
  assumes "\<bar>acc\<bar> + 128 * int (length cs) \<le> INT_MAX"
  shows "hash_sum cs acc = Inr (acc + sum_list (map signed_char cs))"
  using assms
proof (induction cs arbitrary: acc)
  case (Cons c cs)
  have "- 128 \<le> signed_char c" "signed_char c \<le> 127"
    using nat_of_char_less_256 [of c] unfolding signed_char_def Let_def by (simp_all del: nat_of_char_less_256 split: if_split)
  with Cons.prems Cons.IH [of "acc + signed_char c"] show ?case
    by (auto simp: Let_def INT_MIN_def INT_MAX_def abs_le_iff)
qed simp

lemma c_mod_negative: "0 < b \<Longrightarrow> c_mod a b < 0 \<longleftrightarrow> a < 0 \<and> \<not> b dvd a"
  using pos_mod_sign [of b a] pos_mod_bound [of b a]
  by (cases "a < 0") (auto simp: c_mod_neg c_mod_nonneg not_less dvd_eq_mod_eq_0 zmod_zminus1_eq_if)

text \<open>Exactly the keys with such a sum index the table below its start.\<close>

definition leaves_table :: "bytes \<Rightarrow> bool" where
  "leaves_table key \<longleftrightarrow>
     (let n = sum_list (map signed_char key) in n < 0 \<and> \<not> MAX_TABLE_SIZE dvd n)"

lemma hash_index_exact:
  assumes "128 * int (length key) \<le> INT_MAX"
  shows "hash_index (Some key) MAX_TABLE_SIZE = Inr (c_mod (sum_list (map signed_char key)) MAX_TABLE_SIZE)"
    "leaves_table key \<longleftrightarrow> c_mod (sum_list (map signed_char key)) MAX_TABLE_SIZE < 0"
    "hash_ok key \<longleftrightarrow> \<not> leaves_table key"
proof -
  show i: "hash_index (Some key) MAX_TABLE_SIZE = Inr (c_mod (sum_list (map signed_char key)) MAX_TABLE_SIZE)"
    using hash_sum_exact [of 0 key] assms by (simp add: hash_index_def)
  show l: "leaves_table key \<longleftrightarrow> c_mod (sum_list (map signed_char key)) MAX_TABLE_SIZE < 0"
    using c_mod_negative [of MAX_TABLE_SIZE] by (simp add: leaves_table_def Let_def MAX_TABLE_SIZE_def)
  show "hash_ok key \<longleftrightarrow> \<not> leaves_table key"
    by (auto simp: hash_ok_def i l)
qed

lemma hash_leaves_table:
  assumes "hash_inv hash" "128 * int (length key) \<le> INT_MAX" "leaves_table key"
  shows "kvs_hash_set hash (Some key) (Some v) s = Inl Out_of_bounds"
    "kvs_hash_get hash (Some key) = Inl Out_of_bounds"
    "kvs_hash_mod hash (Some key) (Some v) s = Inl Out_of_bounds"
    "kvs_hash_del hash (Some key) s = Inl Out_of_bounds"
    "kvs_hash_exist hash (Some key) = Inl Out_of_bounds"
proof -
  obtain ns where "nodes hash = Some ns"
    using assms(1) by (auto simp: hash_inv_def)
  then have "bucket_read hash (c_mod (sum_list (map signed_char key)) MAX_TABLE_SIZE) = Inl Out_of_bounds"
    using assms(3) hash_index_exact(2) [OF assms(2)] by (simp add: bucket_read_def)
  then show "kvs_hash_set hash (Some key) (Some v) s = Inl Out_of_bounds"
    "kvs_hash_get hash (Some key) = Inl Out_of_bounds"
    "kvs_hash_mod hash (Some key) (Some v) s = Inl Out_of_bounds"
    "kvs_hash_del hash (Some key) s = Inl Out_of_bounds"
    "kvs_hash_exist hash (Some key) = Inl Out_of_bounds"
    by (simp_all add: kvs_hash_set_def kvs_hash_get_def kvs_hash_mod_def kvs_hash_del_def kvs_hash_exist_def
        hash_index_exact(1) [OF assms(2)])
qed

end
