(* ===== verification/Skiplist_Engine.thy ===== *)
theory Skiplist_Engine
  imports Engine_Spec
begin

text \<open>
  The skip-list engine, \<open>src/src/engines/kvs_skiplist.c\<close>.  The nodes live in a heap: a
  map from addresses to nodes whose \<open>forward\<close> array holds addresses or NULL, exactly the
  pointers of the source, so that \<open>set\<close> and \<open>del\<close> are the source's pointer
  assignments.  A new node gets the next unused address.

  A walk along one level is run for at most one step per address ever used.  The walk's
  only state is the node it is at, so a longer one would have met a node twice and would
  never end: it is reported as \<open>Diverges\<close>, and the laws show that it never happens.
  The level of a new node is decided by \<open>rand\<close>, whose answers are parameters.
\<close>

section \<open>Data and operations\<close>

definition KVS_SKIPLIST_MAX_LEVEL :: nat where
  "KVS_SKIPLIST_MAX_LEVEL = 6"

definition RAND_MAX :: int where
  "RAND_MAX = 2147483647"

definition skiplist_node_bytes :: nat where
  "skiplist_node_bytes = 24"

record kvs_skiplist_node_t =
  sl_key :: bytes
  sl_value :: bytes
  sl_forward :: "nat option list"

record kvs_skiplist_t =
  level :: nat
  header :: "nat option"
  sl_heap :: "nat \<Rightarrow> kvs_skiplist_node_t option"
  sl_next :: nat

definition skiplist_cleared :: kvs_skiplist_t where
  "skiplist_cleared = \<lparr>level = 0, header = None, sl_heap = (\<lambda>_. None), sl_next = 0\<rparr>"

definition sl_read :: "kvs_skiplist_t \<Rightarrow> nat \<Rightarrow> kvs_skiplist_node_t run" where
  "sl_read sk a = (case sl_heap sk a of None \<Rightarrow> Inl Dangling | Some n \<Rightarrow> Inr n)"

text \<open>\<open>a->forward[i]\<close>, read and written.\<close>

definition get_forward :: "kvs_skiplist_t \<Rightarrow> nat \<Rightarrow> nat \<Rightarrow> nat option run" where
  "get_forward sk a i =
     bindr (sl_read sk a) (\<lambda>n.
       if i < length (sl_forward n) then Inr (sl_forward n ! i) else Inl Out_of_bounds)"

definition set_forward :: "kvs_skiplist_t \<Rightarrow> nat \<Rightarrow> nat \<Rightarrow> nat option \<Rightarrow> kvs_skiplist_t run" where
  "set_forward sk a i p =
     bindr (sl_read sk a) (\<lambda>n.
       if i < length (sl_forward n)
       then Inr (sk\<lparr>sl_heap := (sl_heap sk)(a \<mapsto> n\<lparr>sl_forward := (sl_forward n)[i := p]\<rparr>)\<rparr>)
       else Inl Out_of_bounds)"

text \<open>The address of the new node, or \<open>None\<close>.\<close>

definition skiplist_create_node ::
    "kvs_skiplist_t \<Rightarrow> nat \<Rightarrow> bytes \<Rightarrow> bytes \<Rightarrow> sys \<Rightarrow> nat option \<times> kvs_skiplist_t \<times> sys" where
  "skiplist_create_node sk lvl key val s =
     (if lvl > KVS_SKIPLIST_MAX_LEVEL then (None, sk, s)
      else case kvs_malloc skiplist_node_bytes s of
        (False, s) \<Rightarrow> (None, sk, s)
      | (True, s) \<Rightarrow>
          (case kvs_malloc (length key + 1) s of
             (False, s) \<Rightarrow> (None, sk, kvs_free s)
           | (True, s) \<Rightarrow>
               (case kvs_malloc (length val + 1) s of
                  (False, s) \<Rightarrow> (None, sk, kvs_free (kvs_free s))
                | (True, s) \<Rightarrow>
                    (case kvs_malloc ((lvl + 1) * 8) s of
                       (False, s) \<Rightarrow> (None, sk, kvs_free (kvs_free (kvs_free s)))
                     | (True, s) \<Rightarrow>
                         let a = sl_next sk;
                             n = \<lparr>sl_key = key, sl_value = val, sl_forward = replicate (lvl + 1) None\<rparr>
                         in (Some a, sk\<lparr>sl_heap := (sl_heap sk)(a \<mapsto> n), sl_next := a + 1\<rparr>, s)))))"

definition kvs_skiplist_create :: "kvs_skiplist_t \<Rightarrow> sys \<Rightarrow> int \<times> kvs_skiplist_t \<times> sys" where
  "kvs_skiplist_create sk s =
     (let sk = sk\<lparr>level := 0\<rparr>;
          (h, sk, s) = skiplist_create_node sk KVS_SKIPLIST_MAX_LEVEL [] [] s;
          sk = sk\<lparr>header := h\<rparr>
      in (if h = None then -1 else 0, sk, s))"

text \<open>Freeing a node: its key, its value, its forward array, the node.\<close>

definition sl_release :: "kvs_skiplist_t \<Rightarrow> nat \<Rightarrow> sys \<Rightarrow> kvs_skiplist_t \<times> sys" where
  "sl_release sk a s =
     (sk\<lparr>sl_heap := (sl_heap sk)(a := None)\<rparr>, kvs_free (kvs_free (kvs_free (kvs_free s))))"

fun sl_free_all :: "nat \<Rightarrow> kvs_skiplist_t \<Rightarrow> nat option \<Rightarrow> sys \<Rightarrow> (kvs_skiplist_t \<times> sys) run" where
  "sl_free_all 0 sk cur s = Inl Diverges"
| "sl_free_all (Suc fuel) sk cur s =
     (case cur of
        None \<Rightarrow> Inr (sk, s)
      | Some a \<Rightarrow>
          bindr (get_forward sk a 0) (\<lambda>nxt.
          let (sk, s) = sl_release sk a s in sl_free_all fuel sk nxt s))"

definition kvs_skiplist_destory :: "kvs_skiplist_t \<Rightarrow> sys \<Rightarrow> (kvs_skiplist_t \<times> sys) run" where
  "kvs_skiplist_destory sk s =
     (case header sk of
        None \<Rightarrow> Inr (sk, s)
      | Some h \<Rightarrow>
          bindr (get_forward sk h 0) (\<lambda>cur.
          bindr (sl_free_all (sl_next sk + 1) sk cur s) (\<lambda>(sk, s).
          bindr (sl_read sk h) (\<lambda>_.
          let (sk, s) = sl_release sk h s in Inr (sk\<lparr>header := None, level := 0\<rparr>, s)))))"

text \<open>\<open>rand\<close> is asked before the level is compared.\<close>

function random_level_loop :: "nat \<Rightarrow> sys \<Rightarrow> nat \<times> sys" where
  "random_level_loop lvl s =
     (let (r, s) = c_rand s
      in if r < RAND_MAX div 2 \<and> lvl < KVS_SKIPLIST_MAX_LEVEL then random_level_loop (lvl + 1) s
         else (lvl, s))"
  by pat_completeness auto
termination
  by (relation "measure (\<lambda>(lvl, s). KVS_SKIPLIST_MAX_LEVEL - lvl)") auto

declare random_level_loop.simps [simp del]

definition skiplist_random_level :: "sys \<Rightarrow> nat \<times> sys" where
  "skiplist_random_level s = random_level_loop 0 s"

text \<open>The inner loop of every search: along level \<open>i\<close> while the next key is smaller.\<close>

fun sl_advance :: "nat \<Rightarrow> kvs_skiplist_t \<Rightarrow> nat \<Rightarrow> bytes \<Rightarrow> nat \<Rightarrow> nat run" where
  "sl_advance 0 sk i key cur = Inl Diverges"
| "sl_advance (Suc fuel) sk i key cur =
     bindr (get_forward sk cur i) (\<lambda>nxt.
       case nxt of
         None \<Rightarrow> Inr cur
       | Some b \<Rightarrow>
           bindr (sl_read sk b) (\<lambda>n.
             if strcmp (sl_key n) key < 0 then sl_advance fuel sk i key b else Inr cur))"

text \<open>
  The outer loop over the levels \<open>n - 1, \<dots>, 0\<close>: the node it ends at and the array
  \<open>update\<close>, indexed by level.
\<close>

fun sl_descend :: "kvs_skiplist_t \<Rightarrow> bytes \<Rightarrow> nat \<Rightarrow> nat \<Rightarrow> (nat \<times> nat list) run" where
  "sl_descend sk key 0 cur = Inr (cur, [])"
| "sl_descend sk key (Suc i) cur =
     bindr (sl_advance (sl_next sk + 1) sk i key cur) (\<lambda>c.
     bindr (sl_descend sk key i c) (\<lambda>(e, upd). Inr (e, upd @ [c])))"

text \<open>The candidate behind the last smaller node, if it has the key.\<close>

definition sl_candidate :: "kvs_skiplist_t \<Rightarrow> bytes \<Rightarrow> nat \<Rightarrow> nat option run" where
  "sl_candidate sk key cur =
     bindr (get_forward sk cur 0) (\<lambda>cand.
       case cand of
         None \<Rightarrow> Inr None
       | Some c \<Rightarrow>
           bindr (sl_read sk c) (\<lambda>n. if strcmp (sl_key n) key \<noteq> 0 then Inr None else Inr (Some c)))"

text \<open>Linking the new node in at the levels \<open>i, \<dots>, i + n - 1\<close>.\<close>

fun sl_link :: "kvs_skiplist_t \<Rightarrow> nat \<Rightarrow> nat list \<Rightarrow> nat \<Rightarrow> nat \<Rightarrow> kvs_skiplist_t run" where
  "sl_link sk new upd i 0 = Inr sk"
| "sl_link sk new upd i (Suc n) =
     (if i < length upd then
        bindr (get_forward sk (upd ! i) i) (\<lambda>p.
        bindr (set_forward sk new i p) (\<lambda>sk.
        bindr (set_forward sk (upd ! i) i (Some new)) (\<lambda>sk.
        sl_link sk new upd (i + 1) n)))
      else Inl Uninitialised)"

definition sl_set_value :: "kvs_skiplist_t \<Rightarrow> nat \<Rightarrow> bytes \<Rightarrow> kvs_skiplist_t run" where
  "sl_set_value sk a v =
     bindr (sl_read sk a) (\<lambda>n. Inr (sk\<lparr>sl_heap := (sl_heap sk)(a \<mapsto> n\<lparr>sl_value := v\<rparr>)\<rparr>))"

text \<open>The new value is copied before the old one is freed, in \<open>set\<close> and in \<open>mod\<close>.\<close>

definition sl_replace_value ::
    "kvs_skiplist_t \<Rightarrow> nat \<Rightarrow> bytes \<Rightarrow> sys \<Rightarrow> (int \<times> kvs_skiplist_t \<times> sys) run" where
  "sl_replace_value sk a v s =
     (case kvs_malloc (length v + 1) s of
        (False, s) \<Rightarrow> Inr (-2, sk, s)
      | (True, s) \<Rightarrow> bindr (sl_set_value sk a v) (\<lambda>sk. Inr (0, sk, kvs_free s)))"

text \<open>The branch of \<open>set\<close> for a new key; \<open>upd\<close> has one entry per current level.\<close>

definition sl_insert ::
    "kvs_skiplist_t \<Rightarrow> nat \<Rightarrow> nat list \<Rightarrow> bytes \<Rightarrow> bytes \<Rightarrow> sys \<Rightarrow> (int \<times> kvs_skiplist_t \<times> sys) run" where
  "sl_insert sk h upd key val s =
     (let (lvl, s) = skiplist_random_level s;
          upd = (if lvl > level sk then upd @ replicate (lvl - level sk) h else upd)
      in case skiplist_create_node sk lvl key val s of
           (None, sk, s) \<Rightarrow> Inr (-2, sk, s)
         | (Some new, sk, s) \<Rightarrow>
             let sk = (if lvl > level sk then sk\<lparr>level := lvl\<rparr> else sk)
             in bindr (sl_link sk new upd 0 (lvl + 1)) (\<lambda>sk. Inr (0, sk, s)))"

definition kvs_skiplist_set :: "kvs_skiplist_t store" where
  "kvs_skiplist_set sk key val s =
     (case (key, val, header sk) of
        (Some key, Some val, Some h) \<Rightarrow>
          bindr (sl_descend sk key (level sk + 1) h) (\<lambda>(cur, upd).
          bindr (sl_candidate sk key cur) (\<lambda>cand.
            case cand of
              None \<Rightarrow> sl_insert sk h upd key val s
            | Some c \<Rightarrow> sl_replace_value sk c val s))
      | _ \<Rightarrow> Inr (-1, sk, s))"

definition skiplist_search_node :: "kvs_skiplist_t \<Rightarrow> bytes option \<Rightarrow> nat option run" where
  "skiplist_search_node sk key =
     (case key of
        None \<Rightarrow> Inr None
      | Some key \<Rightarrow>
          (case header sk of
             None \<Rightarrow> Inl Null_deref
           | Some h \<Rightarrow>
               bindr (sl_descend sk key (level sk + 1) h) (\<lambda>(cur, upd). sl_candidate sk key cur)))"

definition kvs_skiplist_get :: "kvs_skiplist_t \<Rightarrow> bytes option \<Rightarrow> bytes option run" where
  "kvs_skiplist_get sk key =
     (if key = None then Inr None
      else bindr (skiplist_search_node sk key) (\<lambda>node.
        case node of
          None \<Rightarrow> Inr None
        | Some a \<Rightarrow> bindr (sl_read sk a) (\<lambda>n. Inr (Some (sl_value n)))))"

text \<open>Taking \<open>c\<close> out of the levels \<open>i, \<dots>, i + n - 1\<close>, until one does not hold it.\<close>

fun sl_unlink :: "kvs_skiplist_t \<Rightarrow> nat \<Rightarrow> nat list \<Rightarrow> nat \<Rightarrow> nat \<Rightarrow> kvs_skiplist_t run" where
  "sl_unlink sk c upd i 0 = Inr sk"
| "sl_unlink sk c upd i (Suc n) =
     (if i < length upd then
        bindr (get_forward sk (upd ! i) i) (\<lambda>p.
          if p \<noteq> Some c then Inr sk
          else
            bindr (get_forward sk c i) (\<lambda>q.
            bindr (set_forward sk (upd ! i) i q) (\<lambda>sk. sl_unlink sk c upd (i + 1) n)))
      else Inl Uninitialised)"

text \<open>Lowering the level while the header's pointer at it is NULL; \<open>l\<close> is the level.\<close>

fun sl_shrink :: "kvs_skiplist_t \<Rightarrow> nat \<Rightarrow> nat \<Rightarrow> kvs_skiplist_t run" where
  "sl_shrink sk h 0 = Inr (sk\<lparr>level := 0\<rparr>)"
| "sl_shrink sk h (Suc l) =
     bindr (get_forward sk h (Suc l)) (\<lambda>p.
       if p = None then sl_shrink sk h l else Inr (sk\<lparr>level := Suc l\<rparr>))"

definition kvs_skiplist_del :: "kvs_skiplist_t modify" where
  "kvs_skiplist_del sk key s =
     (case (key, header sk) of
        (Some key, Some h) \<Rightarrow>
          bindr (sl_descend sk key (level sk + 1) h) (\<lambda>(cur, upd).
          bindr (sl_candidate sk key cur) (\<lambda>cand.
            case cand of
              None \<Rightarrow> Inr (1, sk, s)
            | Some c \<Rightarrow>
                bindr (sl_unlink sk c upd 0 (level sk + 1)) (\<lambda>sk.
                bindr (sl_shrink sk h (level sk)) (\<lambda>sk.
                let (sk, s) = sl_release sk c s in Inr (0, sk, s)))))
      | _ \<Rightarrow> Inr (-1, sk, s))"

definition kvs_skiplist_mod :: "kvs_skiplist_t store" where
  "kvs_skiplist_mod sk key val s =
     (case (key, val, header sk) of
        (Some _, Some v, Some h) \<Rightarrow>
          bindr (skiplist_search_node sk key) (\<lambda>node.
            case node of
              None \<Rightarrow> Inr (1, sk, s)
            | Some a \<Rightarrow> sl_replace_value sk a v s)
      | _ \<Rightarrow> Inr (-1, sk, s))"

definition kvs_skiplist_exist :: "kvs_skiplist_t \<Rightarrow> bytes option \<Rightarrow> int run" where
  "kvs_skiplist_exist sk key =
     (if key = None \<or> header sk = None then Inr (-1)
      else bindr (skiplist_search_node sk key) (\<lambda>node. Inr (if node \<noteq> None then 0 else 1)))"

fun sl_visit ::
    "nat \<Rightarrow> kvs_skiplist_t \<Rightarrow> (bytes \<Rightarrow> bytes \<Rightarrow> 'c \<Rightarrow> (int \<times> 'c) run) \<Rightarrow> nat option \<Rightarrow> 'c \<Rightarrow> (int \<times> 'c) run" where
  "sl_visit 0 sk visitor node c = Inl Diverges"
| "sl_visit (Suc fuel) sk visitor node c =
     (case node of
        None \<Rightarrow> Inr (0, c)
      | Some a \<Rightarrow>
          bindr (sl_read sk a) (\<lambda>n.
          bindr (visitor (sl_key n) (sl_value n) c) (\<lambda>(ret, c).
            if ret < 0 then Inr (-1, c)
            else bindr (get_forward sk a 0) (\<lambda>nxt. sl_visit fuel sk visitor nxt c))))"

definition kvs_skiplist_foreach ::
    "kvs_skiplist_t \<Rightarrow> (bytes \<Rightarrow> bytes \<Rightarrow> 'c \<Rightarrow> (int \<times> 'c) run) \<Rightarrow> 'c \<Rightarrow> (int \<times> 'c) run" where
  "kvs_skiplist_foreach sk visitor c =
     (case header sk of
        None \<Rightarrow> Inr (-1, c)
      | Some h \<Rightarrow> bindr (get_forward sk h 0) (\<lambda>node. sl_visit (sl_next sk + 1) sk visitor node c))"

section \<open>Pointer paths\<close>

text \<open>
  \<open>link_path f a bs p\<close>: following \<open>f\<close> from \<open>a\<close> meets the nodes \<open>bs\<close> in order, and the
  pointer of the last one is \<open>p\<close>.  A level of the list is a path of that level's forward
  pointers from the header to NULL.
\<close>

fun link_path :: "(nat \<Rightarrow> nat option) \<Rightarrow> nat \<Rightarrow> nat list \<Rightarrow> nat option \<Rightarrow> bool" where
  "link_path f a [] p \<longleftrightarrow> f a = p"
| "link_path f a (b # bs) p \<longleftrightarrow> f a = Some b \<and> link_path f b bs p"

definition first_or :: "nat option \<Rightarrow> nat list \<Rightarrow> nat option" where
  "first_or p bs = (case bs of [] \<Rightarrow> p | b # _ \<Rightarrow> Some b)"

lemma first_or_simps [simp]: "first_or p [] = p" "first_or p (b # bs) = Some b"
  by (simp_all add: first_or_def)

lemma link_path_append:
  "link_path f a (bs @ cs) p \<longleftrightarrow> link_path f a bs (first_or p cs) \<and> link_path f (last (a # bs)) cs p"
proof (induction bs arbitrary: a)
  case Nil
  then show ?case by (cases cs) auto
next
  case (Cons b bs)
  then show ?case by simp
qed

lemma link_path_last: "link_path f a bs p \<Longrightarrow> f (last (a # bs)) = p"
  by (induction bs arbitrary: a) auto

lemma link_path_cong:
  "(\<And>x. x \<in> set (a # bs) \<Longrightarrow> f x = g x) \<Longrightarrow> link_path f a bs p \<longleftrightarrow> link_path g a bs p"
  by (induction bs arbitrary: a) auto

lemma link_path_upd_last:
  "link_path f a bs p \<Longrightarrow> distinct (a # bs) \<Longrightarrow> link_path (f(last (a # bs) := q)) a bs q"
proof (induction bs arbitrary: a)
  case Nil
  then show ?case by simp
next
  case (Cons b bs)
  have "last (b # bs) \<noteq> a"
    using Cons.prems(2) by (metis distinct.simps(2) last_in_set list.distinct(1))
  with Cons show ?case by simp
qed

lemma link_path_insert:
  assumes "link_path f a (bs @ cs) p" "distinct (a # bs @ cs)" "c \<notin> set (a # bs @ cs)"
  shows "link_path (f(c := f (last (a # bs)), last (a # bs) := Some c)) a (bs @ c # cs) p"
proof -
  let ?l = "last (a # bs)"
  let ?g = "f(c := f ?l, ?l := Some c)"
  have l: "?l \<in> set (a # bs)"
    by (rule last_in_set) simp
  have fl: "f ?l = first_or p cs" and p1: "link_path f a bs (first_or p cs)" and p2: "link_path f ?l cs p"
    using assms(1) link_path_last [of f a bs "first_or p cs"] by (simp_all add: link_path_append)
  have "link_path (f(?l := Some c)) a bs (Some c)"
    using link_path_upd_last [OF p1] assms(2) by simp
  then have a: "link_path ?g a bs (Some c)"
    by (rule link_path_cong [THEN iffD1, rotated]) (use assms(3) in auto)
  have "link_path ?g c cs p"
  proof (cases cs)
    case Nil
    then show ?thesis using fl l assms(3) by auto
  next
    case (Cons d ds)
    have "link_path f d ds p"
      using p2 Cons by simp
    then have "link_path ?g d ds p"
      by (rule link_path_cong [THEN iffD1, rotated]) (use Cons assms(2,3) l in auto)
    then show ?thesis
      using Cons fl l assms(3) by auto
  qed
  with a show ?thesis
    by (simp add: link_path_append)
qed

lemma link_path_delete:
  assumes "link_path f a (bs @ c # cs) p" "distinct (a # bs @ c # cs)"
  shows "link_path (f(last (a # bs) := f c)) a (bs @ cs) p"
proof -
  let ?l = "last (a # bs)"
  have l: "?l \<in> set (a # bs)"
    by (rule last_in_set) simp
  have p1: "link_path f a bs (Some c)" and p2: "link_path f c cs p"
    using assms(1) by (simp_all add: link_path_append)
  have fc: "f c = first_or p cs"
    using p2 by (cases cs) auto
  have a: "link_path (f(?l := f c)) a bs (first_or p cs)"
    using link_path_upd_last [OF p1, of "f c"] assms(2) fc by simp
  have "link_path (f(?l := f c)) ?l cs p"
  proof (cases cs)
    case Nil
    then show ?thesis using fc by simp
  next
    case (Cons d ds)
    have "link_path f d ds p"
      using p2 Cons by simp
    then have "link_path (f(?l := f c)) d ds p"
      by (rule link_path_cong [THEN iffD1, rotated]) (use Cons assms(2) l in auto)
    then show ?thesis
      using Cons fc by simp
  qed
  with a show ?thesis
    by (simp add: link_path_append)
qed

lemma link_path_suffix: "link_path f a (us @ c # vs) p \<Longrightarrow> link_path f c vs p"
  by (simp add: link_path_append)

section \<open>The representation invariant\<close>

definition sl_node :: "kvs_skiplist_t \<Rightarrow> nat \<Rightarrow> kvs_skiplist_node_t" where
  "sl_node sk a = the (sl_heap sk a)"

definition sl_height :: "kvs_skiplist_t \<Rightarrow> nat \<Rightarrow> nat" where
  "sl_height sk a = length (sl_forward (sl_node sk a))"

definition sl_keyof :: "kvs_skiplist_t \<Rightarrow> nat \<Rightarrow> bytes" where
  "sl_keyof sk a = sl_key (sl_node sk a)"

definition sl_valof :: "kvs_skiplist_t \<Rightarrow> nat \<Rightarrow> bytes" where
  "sl_valof sk a = sl_value (sl_node sk a)"

definition sl_lev :: "kvs_skiplist_t \<Rightarrow> nat \<Rightarrow> nat \<Rightarrow> nat option" where
  "sl_lev sk i a = sl_forward (sl_node sk a) ! i"

lemmas sl_access = sl_node_def sl_height_def sl_keyof_def sl_valof_def sl_lev_def

text \<open>
  \<open>sl_rep sk h as\<close>: the nodes are the header \<open>h\<close> and \<open>as\<close>, in the strict order of
  their keys, and each level links the nodes tall enough for it, in that order.
\<close>

definition sl_rep :: "kvs_skiplist_t \<Rightarrow> nat \<Rightarrow> nat list \<Rightarrow> bool" where
  "sl_rep sk h as \<longleftrightarrow>
     header sk = Some h \<and> (\<forall>a. sl_heap sk a \<noteq> None \<longleftrightarrow> a \<in> set (h # as)) \<and>
     distinct (h # as) \<and> (\<forall>a \<in> set (h # as). a < sl_next sk) \<and>
     level sk \<le> KVS_SKIPLIST_MAX_LEVEL \<and> sl_height sk h = KVS_SKIPLIST_MAX_LEVEL + 1 \<and>
     (\<forall>a \<in> set as. 1 \<le> sl_height sk a \<and> sl_height sk a \<le> level sk + 1) \<and>
     sorted_wrt (<) (map (sl_keyof sk) as) \<and>
     (\<forall>i \<le> KVS_SKIPLIST_MAX_LEVEL. link_path (sl_lev sk i) h (filter (\<lambda>a. i < sl_height sk a) as) None)"

definition skiplist_inv :: "kvs_skiplist_t \<Rightarrow> bool" where
  "skiplist_inv sk \<longleftrightarrow> (\<exists>h as. sl_rep sk h as)"

text \<open>The bindings, read off the bottom level.\<close>

fun sl_walk :: "nat \<Rightarrow> kvs_skiplist_t \<Rightarrow> nat option \<Rightarrow> (bytes \<times> bytes) list" where
  "sl_walk 0 sk p = []"
| "sl_walk (Suc fuel) sk p =
     (case p of
        None \<Rightarrow> []
      | Some a \<Rightarrow> (sl_keyof sk a, sl_valof sk a) # sl_walk fuel sk (sl_lev sk 0 a))"

definition skiplist_entries :: "kvs_skiplist_t \<Rightarrow> (bytes \<times> bytes) list" where
  "skiplist_entries sk =
     (case header sk of None \<Rightarrow> [] | Some h \<Rightarrow> sl_walk (sl_next sk + 1) sk (sl_lev sk 0 h))"

definition skiplist_map :: "kvs_skiplist_t \<Rightarrow> bytes \<rightharpoonup> bytes" where
  "skiplist_map sk = map_of (skiplist_entries sk)"

text \<open>Four blocks per node, the header's included.\<close>

definition skiplist_owned :: "kvs_skiplist_t \<Rightarrow> int" where
  "skiplist_owned sk = 4 * int (1 + length (skiplist_entries sk))"

lemma sl_repD:
  assumes "sl_rep sk h as"
  shows "header sk = Some h" "a \<in> set (h # as) \<Longrightarrow> sl_heap sk a = Some (sl_node sk a)"
    "distinct (h # as)" "a \<in> set (h # as) \<Longrightarrow> a < sl_next sk"
    "level sk \<le> KVS_SKIPLIST_MAX_LEVEL" "sl_height sk h = KVS_SKIPLIST_MAX_LEVEL + 1"
    "a \<in> set as \<Longrightarrow> 1 \<le> sl_height sk a" "a \<in> set as \<Longrightarrow> sl_height sk a \<le> level sk + 1"
    "sorted_wrt (<) (map (sl_keyof sk) as)"
    "i \<le> KVS_SKIPLIST_MAX_LEVEL \<Longrightarrow> link_path (sl_lev sk i) h (filter (\<lambda>a. i < sl_height sk a) as) None"
    "sl_heap sk a \<noteq> None \<longleftrightarrow> a \<in> set (h # as)"
proof -
  show "a \<in> set (h # as) \<Longrightarrow> sl_heap sk a = Some (sl_node sk a)"
    using assms by (metis sl_rep_def option.collapse sl_node_def)
qed (use assms in \<open>auto simp: sl_rep_def\<close>)

lemma sl_rep_length:
  assumes "sl_rep sk h as" shows "length as < sl_next sk"
proof -
  have "set (h # as) \<subseteq> {..<sl_next sk}"
    using sl_repD(4) [OF assms] by auto
  then have "card (set (h # as)) \<le> sl_next sk"
    by (metis card_lessThan card_mono finite_lessThan)
  then show ?thesis
    using sl_repD(3) [OF assms] by (simp add: distinct_card del: list.set)
qed

lemma sl_rep_bottom:
  assumes "sl_rep sk h as" shows "link_path (sl_lev sk 0) h as None"
proof -
  have "filter (\<lambda>a. 0 < sl_height sk a) as = as"
    using sl_repD(7) [OF assms] by (auto simp: filter_id_conv Suc_le_eq)
  then show ?thesis
    using sl_repD(10) [OF assms, of 0] by simp
qed

lemma sl_read_node: "sl_heap sk a = Some n \<Longrightarrow> sl_read sk a = Inr n"
  by (simp add: sl_read_def)

lemma get_forward_ok:
  "sl_heap sk a = Some (sl_node sk a) \<Longrightarrow> i < sl_height sk a \<Longrightarrow> get_forward sk a i = Inr (sl_lev sk i a)"
  by (simp add: get_forward_def sl_read_def sl_height_def sl_lev_def)

lemma sl_walk_path:
  "link_path (sl_lev sk 0) a bs None \<Longrightarrow> length bs < fuel \<Longrightarrow>
   sl_walk fuel sk (sl_lev sk 0 a) = map (\<lambda>b. (sl_keyof sk b, sl_valof sk b)) bs"
proof (induction bs arbitrary: a fuel)
  case Nil
  then show ?case by (cases fuel) auto
next
  case (Cons b bs)
  then show ?case by (cases fuel) auto
qed

lemma skiplist_entries_rep:
  assumes "sl_rep sk h as"
  shows "skiplist_entries sk = map (\<lambda>b. (sl_keyof sk b, sl_valof sk b)) as"
  using sl_walk_path [OF sl_rep_bottom [OF assms], of "sl_next sk + 1"] sl_rep_length [OF assms]
    sl_repD(1) [OF assms]
  by (simp add: skiplist_entries_def del: sl_walk.simps)

lemma sl_keys_distinct:
  assumes "sl_rep sk h as" shows "distinct (map (sl_keyof sk) as)"
  using sl_repD(9) [OF assms] strict_sorted_iff [of "map (sl_keyof sk) as"] by simp

section \<open>Searching\<close>

text \<open>
  The nodes with a smaller key and the others; \<open>sl_pred\<close> is the last node of level
  \<open>i\<close> with a smaller key, the header if there is none.
\<close>

definition sl_low :: "kvs_skiplist_t \<Rightarrow> bytes \<Rightarrow> nat list \<Rightarrow> nat list" where
  "sl_low sk k as = takeWhile (\<lambda>a. sl_keyof sk a < k) as"

definition sl_high :: "kvs_skiplist_t \<Rightarrow> bytes \<Rightarrow> nat list \<Rightarrow> nat list" where
  "sl_high sk k as = dropWhile (\<lambda>a. sl_keyof sk a < k) as"

definition at_level :: "kvs_skiplist_t \<Rightarrow> nat \<Rightarrow> nat list \<Rightarrow> nat list" where
  "at_level sk i as = filter (\<lambda>a. i < sl_height sk a) as"

definition sl_pred :: "kvs_skiplist_t \<Rightarrow> bytes \<Rightarrow> nat \<Rightarrow> nat list \<Rightarrow> nat \<Rightarrow> nat" where
  "sl_pred sk k h as i = last (h # at_level sk i (sl_low sk k as))"

lemma sl_low_high: "sl_low sk k as @ sl_high sk k as = as"
  by (simp add: sl_low_def sl_high_def)

lemma at_level_append [simp]: "at_level sk i (xs @ ys) = at_level sk i xs @ at_level sk i ys"
  by (simp add: at_level_def)

lemma at_level_Cons [simp]:
  "at_level sk i (x # xs) = (if i < sl_height sk x then x # at_level sk i xs else at_level sk i xs)"
  by (simp add: at_level_def)

lemma at_level_Nil [simp]: "at_level sk i [] = []"
  by (simp add: at_level_def)

lemma set_at_level [simp]: "set (at_level sk i as) = {a \<in> set as. i < sl_height sk a}"
  by (simp add: at_level_def)

lemma length_at_level: "length (at_level sk i as) \<le> length as"
  by (simp add: at_level_def)

lemma sl_low_less: "a \<in> set (sl_low sk k as) \<Longrightarrow> sl_keyof sk a < k"
  by (auto simp: sl_low_def dest: set_takeWhileD)

lemma sl_high_geq:
  "sorted_wrt (<) (map (sl_keyof sk) as) \<Longrightarrow> a \<in> set (sl_high sk k as) \<Longrightarrow> k \<le> sl_keyof sk a"
proof (induction as)
  case Nil
  then show ?case by (simp add: sl_high_def)
next
  case (Cons b as)
  then show ?case
    by (cases "sl_keyof sk b < k") (fastforce simp: sl_high_def)+
qed

lemma sl_pred_in: "sl_pred sk k h as i \<in> set (h # sl_low sk k as)"
proof -
  have "sl_pred sk k h as i \<in> set (h # at_level sk i (sl_low sk k as))"
    unfolding sl_pred_def by (rule last_in_set) simp
  then show ?thesis by auto
qed

lemma sl_pred_rep:
  assumes "sl_rep sk h as" "i \<le> KVS_SKIPLIST_MAX_LEVEL"
  shows "sl_pred sk k h as i \<in> set (h # as)" "i < sl_height sk (sl_pred sk k h as i)"
proof -
  have "set (sl_low sk k as) \<subseteq> set as"
    by (auto simp: sl_low_def dest: set_takeWhileD)
  then show "sl_pred sk k h as i \<in> set (h # as)"
    using sl_pred_in [of sk k h as i] by auto
  have "sl_pred sk k h as i \<in> set (h # at_level sk i (sl_low sk k as))"
    unfolding sl_pred_def by (rule last_in_set) simp
  then show "i < sl_height sk (sl_pred sk k h as i)"
    using sl_repD(6) [OF assms(1)] assms(2) by auto
qed

lemma sl_level_path:
  assumes "sl_rep sk h as" "i \<le> KVS_SKIPLIST_MAX_LEVEL"
  shows "link_path (sl_lev sk i) h (at_level sk i (sl_low sk k as) @ at_level sk i (sl_high sk k as)) None"
  using sl_repD(10) [OF assms]
  by (simp flip: at_level_append add: sl_low_high, simp add: at_level_def)

lemma sl_advance_path:
  "link_path (sl_lev sk i) cur bs None \<Longrightarrow>
   (\<And>b. b \<in> set (cur # bs) \<Longrightarrow> sl_heap sk b = Some (sl_node sk b) \<and> i < sl_height sk b) \<Longrightarrow>
   length bs < fuel \<Longrightarrow>
   sl_advance fuel sk i k cur = Inr (last (cur # takeWhile (\<lambda>b. sl_keyof sk b < k) bs))"
proof (induction bs arbitrary: cur fuel)
  case Nil
  then show ?case
    by (cases fuel) (auto simp: get_forward_ok)
next
  case (Cons b bs)
  obtain fuel' where f: "fuel = Suc fuel'"
    using Cons.prems(3) by (cases fuel) auto
  have fwd: "get_forward sk cur i = Inr (Some b)"
    using Cons.prems(1) Cons.prems(2) [of cur] by (simp add: get_forward_ok)
  have rd: "sl_read sk b = Inr (sl_node sk b)"
    using Cons.prems(2) [of b] by (simp add: sl_read_node)
  show ?case
  proof (cases "sl_keyof sk b < k")
    case True
    have "sl_advance fuel' sk i k b = Inr (last (b # takeWhile (\<lambda>b. sl_keyof sk b < k) bs))"
      by (rule Cons.IH) (use Cons.prems f in auto)
    then show ?thesis
      using True f fwd rd by (simp add: sl_keyof_def)
  next
    case False
    then show ?thesis
      using f fwd rd by (simp add: sl_keyof_def)
  qed
qed

text \<open>One level down, from the last smaller node of the level above.\<close>

lemma sl_advance_pred:
  assumes rep: "sl_rep sk h as" and i: "i \<le> KVS_SKIPLIST_MAX_LEVEL"
  shows "sl_advance (sl_next sk + 1) sk i k (sl_pred sk k h as (Suc i)) = Inr (sl_pred sk k h as i)"
proof -
  let ?L = "at_level sk i (sl_low sk k as)" and ?H = "at_level sk i (sl_high sk k as)"
  let ?c = "sl_pred sk k h as (Suc i)"
  have "\<exists>ws. link_path (sl_lev sk i) ?c (ws @ ?H) None \<and> set ws \<subseteq> set ?L \<and> length ws \<le> length ?L \<and>
      last (?c # ws) = last (h # ?L)"
  proof (cases "at_level sk (Suc i) (sl_low sk k as) = []")
    case True
    then have "?c = h" by (simp add: sl_pred_def)
    with sl_level_path [OF rep i, of k] show ?thesis
      by (metis order_refl)
  next
    case False
    then have "?c = last (at_level sk (Suc i) (sl_low sk k as))"
      by (simp add: sl_pred_def)
    then have "?c \<in> set (at_level sk (Suc i) (sl_low sk k as))"
      using last_in_set [OF False] by metis
    then have "?c \<in> set ?L" by auto
    then obtain us ws where L: "?L = us @ ?c # ws"
      by (meson split_list)
    have "link_path (sl_lev sk i) ?c (ws @ ?H) None"
      using sl_level_path [OF rep i, of k] unfolding L by (simp add: link_path_append)
    moreover have "set ws \<subseteq> set ?L \<and> length ws \<le> length ?L \<and> last (?c # ws) = last (h # ?L)"
      unfolding L by (auto simp del: set_at_level)
    ultimately show ?thesis
      by blast
  qed
  then obtain ws where ws: "link_path (sl_lev sk i) ?c (ws @ ?H) None" "set ws \<subseteq> set ?L"
      "length ws \<le> length ?L" "last (?c # ws) = last (h # ?L)"
    by blast
  have sub: "set (ws @ ?H) \<subseteq> {a \<in> set as. i < sl_height sk a}"
    using ws(2) sl_low_high [of sk k as] by (auto simp: sl_low_def sl_high_def dest: set_takeWhileD set_dropWhileD)
  have len: "length (ws @ ?H) < sl_next sk + 1"
    using ws(3) length_at_level [of sk i "sl_low sk k as"] length_at_level [of sk i "sl_high sk k as"]
      arg_cong [OF sl_low_high [of sk k as], of length] sl_rep_length [OF rep] by simp
  have "?c \<in> set (h # as)" "i < sl_height sk ?c"
  proof -
    show "?c \<in> set (h # as)"
      using sl_pred_in [of sk k h as "Suc i"] by (auto simp: sl_low_def dest: set_takeWhileD)
    have "?c \<in> set (h # at_level sk (Suc i) (sl_low sk k as))"
      unfolding sl_pred_def by (rule last_in_set) simp
    then show "i < sl_height sk ?c"
      using sl_repD(6) [OF rep] i by auto
  qed
  then have "sl_advance (sl_next sk + 1) sk i k ?c =
      Inr (last (?c # takeWhile (\<lambda>b. sl_keyof sk b < k) (ws @ ?H)))"
    using sub sl_repD(2) [OF rep] by (intro sl_advance_path [OF ws(1) _ len]) auto
  moreover have "takeWhile (\<lambda>b. sl_keyof sk b < k) (ws @ ?H) = ws"
  proof -
    have "\<forall>b \<in> set ws. sl_keyof sk b < k"
      using ws(2) sl_low_less by auto
    moreover have "\<forall>b \<in> set ?H. \<not> sl_keyof sk b < k"
      using sl_high_geq [OF sl_repD(9) [OF rep]] by (auto simp: not_less)
    ultimately show ?thesis
      by (cases ?H) (auto simp: takeWhile_append)
  qed
  ultimately show ?thesis
    using ws(4) by (simp add: sl_pred_def)
qed

lemma sl_descend_pred:
  assumes rep: "sl_rep sk h as"
  shows "n \<le> KVS_SKIPLIST_MAX_LEVEL + 1 \<Longrightarrow>
    sl_descend sk k n (sl_pred sk k h as n) =
      Inr (sl_pred sk k h as 0, map (sl_pred sk k h as) [0..<n])"
proof (induction n)
  case 0
  then show ?case by simp
next
  case (Suc n)
  then show ?case
    using sl_advance_pred [OF rep, of n k] by (simp del: sl_advance.simps)
qed

text \<open>The search every operation starts with.\<close>

lemma sl_descend_rep:
  assumes rep: "sl_rep sk h as"
  shows "sl_descend sk k (level sk + 1) h =
    Inr (sl_pred sk k h as 0, map (sl_pred sk k h as) [0..<level sk + 1])"
proof -
  have "at_level sk (level sk + 1) (sl_low sk k as) = []"
    using sl_repD(8) [OF rep]
    by (fastforce simp: at_level_def filter_empty_conv sl_low_def dest: set_takeWhileD)
  then have "sl_pred sk k h as (level sk + 1) = h"
    by (simp add: sl_pred_def)
  then show ?thesis
    using sl_descend_pred [OF rep, of "level sk + 1" k] sl_repD(5) [OF rep] by simp
qed

text \<open>What the search finds: the node with the key, or that there is none.\<close>

lemma sl_search_cases:
  assumes rep: "sl_rep sk h as"
  obtains (found) c hi where "as = sl_low sk k as @ c # hi" "sl_high sk k as = c # hi" "sl_keyof sk c = k"
      "sl_candidate sk k (sl_pred sk k h as 0) = Inr (Some c)"
  | (missing) "k \<notin> set (map (sl_keyof sk) as)" "sl_candidate sk k (sl_pred sk k h as 0) = Inr None"
proof -
  let ?p = "sl_pred sk k h as 0"
  have all: "at_level sk 0 xs = xs" if "set xs \<subseteq> set as" for xs
    using that sl_repD(7) [OF rep] by (force simp: at_level_def filter_id_conv Suc_le_eq)
  have "link_path (sl_lev sk 0) h (sl_low sk k as @ sl_high sk k as) None"
    using sl_rep_bottom [OF rep] sl_low_high [of sk k as] by simp
  then have "link_path (sl_lev sk 0) h (sl_low sk k as) (first_or None (sl_high sk k as))"
    by (simp add: link_path_append)
  then have "sl_lev sk 0 ?p = first_or None (sl_high sk k as)"
    using link_path_last all [of "sl_low sk k as"] set_takeWhileD unfolding sl_pred_def
    by (metis sl_low_def subsetI)
  then have fwd: "get_forward sk ?p 0 = Inr (first_or None (sl_high sk k as))"
    using get_forward_ok [OF sl_repD(2) [OF rep]] sl_pred_rep [OF rep, of 0] by simp
  have split: "as = sl_low sk k as @ sl_high sk k as"
    by (simp add: sl_low_high)
  have no_low: "k \<notin> sl_keyof sk ` set (sl_low sk k as)"
    using sl_low_less [of _ sk k as] by force
  show thesis
  proof (cases "sl_high sk k as")
    case Nil
    then show thesis
      using missing fwd no_low split by (simp add: sl_candidate_def)
  next
    case (Cons c hi)
    have "c \<in> set as"
      using split Cons by (metis in_set_conv_decomp)
    then have rd: "sl_read sk c = Inr (sl_node sk c)"
      using sl_repD(2) [OF rep, of c] by (simp add: sl_read_node)
    show thesis
    proof (cases "sl_keyof sk c = k")
      case True
      then show thesis
        using found [of c hi] split Cons fwd rd by (simp add: sl_candidate_def sl_keyof_def)
    next
      case False
      have "sorted_wrt (<) (map (sl_keyof sk) (sl_low sk k as @ c # hi))"
        using sl_repD(9) [OF rep] split Cons by metis
      moreover have "k \<le> sl_keyof sk c"
        using sl_high_geq [OF sl_repD(9) [OF rep], of c k] Cons by simp
      ultimately have "k \<notin> sl_keyof sk ` set (c # hi)"
        using False by (auto simp: sorted_wrt_append)
      then have "k \<notin> set (map (sl_keyof sk) as)"
        using no_low Cons split by (metis Un_iff image_Un set_append set_map)
      then show thesis
        using missing fwd rd Cons False by (simp add: sl_candidate_def sl_keyof_def)
    qed
  qed
qed

lemma skiplist_map_rep:
  assumes "sl_rep sk h as"
  shows "c \<in> set as \<Longrightarrow> skiplist_map sk (sl_keyof sk c) = Some (sl_valof sk c)"
    "k \<notin> set (map (sl_keyof sk) as) \<Longrightarrow> skiplist_map sk k = None"
proof -
  have "distinct (map fst (skiplist_entries sk))"
    using sl_keys_distinct [OF assms] by (simp add: skiplist_entries_rep [OF assms] comp_def)
  moreover assume "c \<in> set as"
  then have "(sl_keyof sk c, sl_valof sk c) \<in> set (skiplist_entries sk)"
    by (auto simp: skiplist_entries_rep [OF assms])
  ultimately show "skiplist_map sk (sl_keyof sk c) = Some (sl_valof sk c)"
    by (simp add: skiplist_map_def)
next
  assume "k \<notin> set (map (sl_keyof sk) as)"
  then show "skiplist_map sk k = None"
    by (auto simp: skiplist_map_def map_of_eq_None_iff skiplist_entries_rep [OF assms])
qed

lemma skiplist_search_node_rep:
  assumes rep: "sl_rep sk h as"
  shows "skiplist_search_node sk (Some k) = sl_candidate sk k (sl_pred sk k h as 0)"
  using sl_descend_rep [OF rep, of k] sl_repD(1) [OF rep] by (simp add: skiplist_search_node_def)

lemma skiplist_get_law:
  assumes "skiplist_inv sk"
  shows "kvs_skiplist_get sk (Some k) = Inr (skiplist_map sk k)"
proof -
  obtain h as where rep: "sl_rep sk h as"
    using assms by (auto simp: skiplist_inv_def)
  from rep show ?thesis
  proof (cases rule: sl_search_cases [where k = k])
    case (found c hi)
    then have c: "c \<in> set as"
      by (metis in_set_conv_decomp)
    then have "sl_read sk c = Inr (sl_node sk c)"
      using sl_repD(2) [OF rep, of c] by (simp add: sl_read_node)
    then show ?thesis
      using found skiplist_map_rep(1) [OF rep c] skiplist_search_node_rep [OF rep, of k]
      by (simp add: kvs_skiplist_get_def sl_valof_def)
  next
    case missing
    then show ?thesis
      using skiplist_map_rep(2) [OF rep, of k] skiplist_search_node_rep [OF rep, of k]
      by (simp add: kvs_skiplist_get_def)
  qed
qed

lemma skiplist_exist_law:
  assumes "skiplist_inv sk"
  shows "kvs_skiplist_exist sk (Some k) = Inr (if skiplist_map sk k = None then 1 else 0)"
proof -
  obtain h as where rep: "sl_rep sk h as"
    using assms by (auto simp: skiplist_inv_def)
  from rep show ?thesis
  proof (cases rule: sl_search_cases [where k = k])
    case (found c hi)
    then have "c \<in> set as"
      by (metis in_set_conv_decomp)
    then show ?thesis
      using found skiplist_map_rep(1) [OF rep] skiplist_search_node_rep [OF rep, of k] sl_repD(1) [OF rep]
      by (auto simp: kvs_skiplist_exist_def)
  next
    case missing
    then show ?thesis
      using skiplist_map_rep(2) [OF rep, of k] skiplist_search_node_rep [OF rep, of k] sl_repD(1) [OF rep]
      by (simp add: kvs_skiplist_exist_def)
  qed
qed

lemma sl_visit_path:
  "link_path (sl_lev sk 0) a bs None \<Longrightarrow>
   (\<And>b. b \<in> set bs \<Longrightarrow> sl_heap sk b = Some (sl_node sk b) \<and> 0 < sl_height sk b) \<Longrightarrow>
   length bs < fuel \<Longrightarrow>
   sl_visit fuel sk f (sl_lev sk 0 a) c = visit_all f (map (\<lambda>b. (sl_keyof sk b, sl_valof sk b)) bs) c"
proof (induction bs arbitrary: a fuel c)
  case Nil
  then show ?case by (cases fuel) auto
next
  case (Cons b bs)
  obtain fuel' where f: "fuel = Suc fuel'"
    using Cons.prems(3) by (cases fuel) auto
  have rd: "sl_read sk b = Inr (sl_node sk b)" "get_forward sk b 0 = Inr (sl_lev sk 0 b)"
    using Cons.prems(2) [of b] by (simp_all add: sl_read_node get_forward_ok)
  have "sl_visit fuel' sk f (sl_lev sk 0 b) c' =
      visit_all f (map (\<lambda>b. (sl_keyof sk b, sl_valof sk b)) bs) c'" for c'
    by (rule Cons.IH) (use Cons.prems f in auto)
  then show ?case
    using Cons.prems(1) f rd
    by (auto simp: sl_keyof_def sl_valof_def intro!: bindr_cong split: prod.split)
qed

lemma skiplist_foreach_law:
  assumes "skiplist_inv sk"
  shows "kvs_skiplist_foreach sk f c = visit_all f (skiplist_entries sk) c"
proof -
  obtain h as where rep: "sl_rep sk h as"
    using assms by (auto simp: skiplist_inv_def)
  have "sl_visit (sl_next sk + 1) sk f (sl_lev sk 0 h) c = visit_all f (skiplist_entries sk) c"
    unfolding skiplist_entries_rep [OF rep]
    using sl_rep_bottom [OF rep] sl_repD(2,7) [OF rep] sl_rep_length [OF rep]
    by (intro sl_visit_path) (auto simp: Suc_le_eq)
  moreover have "get_forward sk h 0 = Inr (sl_lev sk 0 h)"
    using sl_repD(2,6) [OF rep] by (intro get_forward_ok) auto
  ultimately show ?thesis
    using sl_repD(1) [OF rep] by (simp add: kvs_skiplist_foreach_def del: sl_visit.simps)
qed

section \<open>Changing a value\<close>

lemma sl_set_value_node:
  assumes "sl_heap sk c = Some (sl_node sk c)"
  shows "\<exists>sk'. sl_set_value sk c v = Inr sk' \<and> header sk' = header sk \<and> level sk' = level sk \<and>
    sl_next sk' = sl_next sk \<and> (\<forall>a. sl_heap sk' a = None \<longleftrightarrow> sl_heap sk a = None) \<and>
    sl_height sk' = sl_height sk \<and> sl_keyof sk' = sl_keyof sk \<and> sl_lev sk' = sl_lev sk \<and>
    sl_valof sk' = (sl_valof sk)(c := v)"
  using assms by (cases "sl_heap sk c") (simp_all add: sl_set_value_def sl_read_def sl_access fun_eq_iff)

lemma skiplist_set_value:
  assumes rep: "sl_rep sk h as" and c: "c \<in> set as"
  shows "\<exists>sk'. sl_set_value sk c v = Inr sk' \<and> sl_rep sk' h as \<and>
    skiplist_map sk' = (skiplist_map sk)(sl_keyof sk c \<mapsto> v) \<and> skiplist_owned sk' = skiplist_owned sk"
proof -
  obtain sk' where sk': "sl_set_value sk c v = Inr sk'" "header sk' = header sk" "level sk' = level sk"
      "sl_next sk' = sl_next sk" "\<forall>a. sl_heap sk' a = None \<longleftrightarrow> sl_heap sk a = None"
      "sl_height sk' = sl_height sk" "sl_keyof sk' = sl_keyof sk" "sl_lev sk' = sl_lev sk"
      "sl_valof sk' = (sl_valof sk)(c := v)"
    using sl_set_value_node [of sk c v] sl_repD(2) [OF rep, of c] c by auto
  have rep': "sl_rep sk' h as"
    using rep sk' by (simp add: sl_rep_def)
  have "skiplist_map sk' = (skiplist_map sk)(sl_keyof sk c \<mapsto> v)"
  proof
    fix k
    show "skiplist_map sk' k = ((skiplist_map sk)(sl_keyof sk c \<mapsto> v)) k"
    proof (cases "k \<in> set (map (sl_keyof sk) as)")
      case True
      then obtain a where a: "a \<in> set as" "k = sl_keyof sk a" by auto
      then show ?thesis
        using skiplist_map_rep(1) [OF rep' a(1)] skiplist_map_rep(1) [OF rep a(1)] sk' c
          sl_keys_distinct [OF rep] by (auto simp: distinct_map dest: inj_onD)
    next
      case False
      then show ?thesis
        using skiplist_map_rep(2) [OF rep', of k] skiplist_map_rep(2) [OF rep, of k] sk' c by auto
    qed
  qed
  then show ?thesis
    using sk'(1) rep' by (simp add: skiplist_owned_def skiplist_entries_rep [OF rep] skiplist_entries_rep [OF rep'])
qed

lemma skiplist_replace:
  assumes rep: "sl_rep sk h as" and c: "c \<in> set as"
  shows "\<exists>r sk' s'. sl_replace_value sk c v s = Inr (r, sk', s') \<and>
     skiplist_inv sk' \<and> balanced skiplist_owned sk s sk' s' \<and>
     (r = 0 \<and> skiplist_map sk' = (skiplist_map sk)(sl_keyof sk c \<mapsto> v) \<or>
      r < 0 \<and> sk' = sk \<and> \<not> plenty s)"
proof (cases rule: kvs_malloc_cases [of "length v + 1" s])
  case (granted s')
  then show ?thesis
    using skiplist_set_value [OF assms, of v] skiplist_inv_def by (fastforce simp: balanced_def sl_replace_value_def)
next
  case (refused s')
  then show ?thesis
    using rep by (auto simp: balanced_def skiplist_inv_def sl_replace_value_def)
qed

lemma skiplist_mod_law:
  assumes "skiplist_inv sk"
  shows "\<exists>r sk' s'. kvs_skiplist_mod sk (Some k) (Some v) s = Inr (r, sk', s') \<and> skiplist_inv sk' \<and>
    balanced skiplist_owned sk s sk' s' \<and>
    (r = 0 \<and> skiplist_map sk k \<noteq> None \<and> skiplist_map sk' = (skiplist_map sk)(k \<mapsto> v) \<or>
     r < 0 \<and> skiplist_map sk k \<noteq> None \<and> sk' = sk \<and> \<not> plenty s \<or>
     r = 1 \<and> skiplist_map sk k = None \<and> sk' = sk \<and> s' = s)"
proof -
  obtain h as where rep: "sl_rep sk h as"
    using assms by (auto simp: skiplist_inv_def)
  from rep show ?thesis
  proof (cases rule: sl_search_cases [where k = k])
    case (found c hi)
    then have c: "c \<in> set as"
      by (metis in_set_conv_decomp)
    have "skiplist_map sk k \<noteq> None"
      using skiplist_map_rep(1) [OF rep c] found by simp
    then show ?thesis
      using skiplist_replace [OF rep c, of v s] found(3,4) sl_repD(1) [OF rep]
      by (simp add: kvs_skiplist_mod_def skiplist_search_node_rep [OF rep]) blast
  next
    case missing
    then show ?thesis
      using skiplist_map_rep(2) [OF rep, of k] sl_repD(1) [OF rep] assms
      by (simp add: kvs_skiplist_mod_def skiplist_search_node_rep [OF rep])
  qed
qed

section \<open>Inserting\<close>

text \<open>\<open>sk'\<close> differs from \<open>sk\<close> at most in the forward pointers.\<close>

definition sl_relinked :: "kvs_skiplist_t \<Rightarrow> kvs_skiplist_t \<Rightarrow> bool" where
  "sl_relinked sk sk' \<longleftrightarrow>
     header sk' = header sk \<and> level sk' = level sk \<and> sl_next sk' = sl_next sk \<and>
     (\<forall>a. sl_heap sk' a = None \<longleftrightarrow> sl_heap sk a = None) \<and>
     sl_height sk' = sl_height sk \<and> sl_keyof sk' = sl_keyof sk \<and> sl_valof sk' = sl_valof sk"

lemma sl_relinked_refl [simp]: "sl_relinked sk sk"
  by (simp add: sl_relinked_def)

lemma sl_relinked_trans [trans]: "sl_relinked sk sk' \<Longrightarrow> sl_relinked sk' sk'' \<Longrightarrow> sl_relinked sk sk''"
  by (simp add: sl_relinked_def)

lemma sl_relinked_node:
  "sl_relinked sk sk' \<Longrightarrow> sl_heap sk a = Some (sl_node sk a) \<Longrightarrow> sl_heap sk' a = Some (sl_node sk' a)"
  by (cases "sl_heap sk' a") (auto simp: sl_relinked_def sl_node_def)

lemma set_forward_ok:
  assumes "sl_heap sk a = Some (sl_node sk a)" "i < sl_height sk a"
  shows "\<exists>sk'. set_forward sk a i p = Inr sk' \<and> sl_relinked sk sk' \<and>
    (\<forall>j. sl_lev sk' j = (if j = i then (sl_lev sk i)(a := p) else sl_lev sk j))"
  using assms
  by (cases "sl_heap sk a")
     (simp_all add: set_forward_def sl_read_def sl_access fun_eq_iff sl_relinked_def nth_list_update)

lemma sl_link_levels:
  assumes "\<And>j. j < i + n \<Longrightarrow> j < length upd \<and> sl_heap sk (upd ! j) = Some (sl_node sk (upd ! j)) \<and>
      j < sl_height sk (upd ! j)"
    and "sl_heap sk new = Some (sl_node sk new)" "i + n \<le> sl_height sk new" "new \<notin> set upd"
  shows "\<exists>sk'. sl_link sk new upd i n = Inr sk' \<and> sl_relinked sk sk' \<and>
    (\<forall>j. sl_lev sk' j = (if i \<le> j \<and> j < i + n
        then (sl_lev sk j)(new := sl_lev sk j (upd ! j), upd ! j := Some new) else sl_lev sk j))"
  using assms
proof (induction n arbitrary: i sk)
  case 0
  then show ?case by auto
next
  case (Suc n)
  let ?u = "upd ! i"
  have u: "i < length upd" "sl_heap sk ?u = Some (sl_node sk ?u)" "i < sl_height sk ?u"
    using Suc.prems(1) [of i] by auto
  have ne: "new \<noteq> ?u"
    using Suc.prems(4) u(1) by (metis nth_mem)
  obtain sk1 where sk1: "set_forward sk new i (sl_lev sk i ?u) = Inr sk1" "sl_relinked sk sk1"
      "\<forall>j. sl_lev sk1 j = (if j = i then (sl_lev sk i)(new := sl_lev sk i ?u) else sl_lev sk j)"
    using set_forward_ok [of sk new i] Suc.prems(2,3) by fastforce
  have "sl_heap sk1 ?u = Some (sl_node sk1 ?u)" "i < sl_height sk1 ?u"
    using sl_relinked_node [OF sk1(2) u(2)] sk1(2) u(3) by (simp_all add: sl_relinked_def)
  then obtain sk2 where sk2: "set_forward sk1 ?u i (Some new) = Inr sk2" "sl_relinked sk1 sk2"
      "\<forall>j. sl_lev sk2 j = (if j = i then (sl_lev sk1 i)(?u := Some new) else sl_lev sk1 j)"
    using set_forward_ok [of sk1 ?u i] by fastforce
  have r: "sl_relinked sk sk2"
    using sk1(2) sk2(2) by (rule sl_relinked_trans)
  then have hts: "sl_height sk2 = sl_height sk"
    by (simp add: sl_relinked_def)
  have "\<exists>sk'. sl_link sk2 new upd (i + 1) n = Inr sk' \<and> sl_relinked sk2 sk' \<and>
    (\<forall>j. sl_lev sk' j = (if i + 1 \<le> j \<and> j < i + 1 + n
        then (sl_lev sk2 j)(new := sl_lev sk2 j (upd ! j), upd ! j := Some new) else sl_lev sk2 j))"
  proof (rule Suc.IH)
    fix j assume "j < i + 1 + n"
    then show "j < length upd \<and> sl_heap sk2 (upd ! j) = Some (sl_node sk2 (upd ! j)) \<and>
        j < sl_height sk2 (upd ! j)"
      using Suc.prems(1) [of j] sl_relinked_node [OF r] hts by simp
  qed (use Suc.prems sl_relinked_node [OF r] hts in auto)
  then obtain sk' where sk': "sl_link sk2 new upd (i + 1) n = Inr sk'" "sl_relinked sk2 sk'"
      "\<forall>j. sl_lev sk' j = (if i + 1 \<le> j \<and> j < i + 1 + n
        then (sl_lev sk2 j)(new := sl_lev sk2 j (upd ! j), upd ! j := Some new) else sl_lev sk2 j)"
    by blast
  have "sl_link sk new upd i (Suc n) = Inr sk'"
    using u sk1(1) sk2(1) sk'(1) by (simp add: get_forward_ok)
  moreover have "sl_relinked sk sk'"
    using r sk'(2) by (rule sl_relinked_trans)
  moreover have "\<forall>j. sl_lev sk' j = (if i \<le> j \<and> j < i + Suc n
        then (sl_lev sk j)(new := sl_lev sk j (upd ! j), upd ! j := Some new) else sl_lev sk j)"
    using sk'(3) sk2(3) sk1(3) ne by (auto simp: le_eq_less_or_eq)
  ultimately show ?case
    by blast
qed

lemma random_level_bound:
  "lvl \<le> KVS_SKIPLIST_MAX_LEVEL \<Longrightarrow> random_level_loop lvl s = (lvl', s') \<Longrightarrow>
   lvl' \<le> KVS_SKIPLIST_MAX_LEVEL \<and> s_live s' = s_live s \<and> s_alloc s' = s_alloc s"
proof (induction lvl s rule: random_level_loop.induct)
  case (1 lvl s)
  let ?r = "s_rand s (s_nrand s)" and ?s = "s\<lparr>s_nrand := Suc (s_nrand s)\<rparr>"
  have r: "c_rand s = (?r, ?s)"
    by (simp add: c_rand_def)
  show ?case
  proof (cases "?r < RAND_MAX div 2 \<and> lvl < KVS_SKIPLIST_MAX_LEVEL")
    case True
    then have "random_level_loop (lvl + 1) ?s = (lvl', s')"
      using 1(3) r by (simp add: random_level_loop.simps [of lvl])
    then show ?thesis
      using 1(1) [OF _ refl True, of ?s] True r by simp
  next
    case False
    then show ?thesis
      using 1(2,3) r by (auto simp add: random_level_loop.simps [of lvl])
  qed
qed

lemma skiplist_create_node_cases:
  assumes "lvl \<le> KVS_SKIPLIST_MAX_LEVEL"
  obtains (granted) sk' s' where "skiplist_create_node sk lvl k v s = (Some (sl_next sk), sk', s')"
      "sk' = sk\<lparr>sl_heap := (sl_heap sk)(sl_next sk \<mapsto>
         \<lparr>sl_key = k, sl_value = v, sl_forward = replicate (lvl + 1) None\<rparr>), sl_next := sl_next sk + 1\<rparr>"
      "s_live s' = s_live s + 4" "s_alloc s' = s_alloc s"
  | (refused) s' where "skiplist_create_node sk lvl k v s = (None, sk, s')"
      "s_live s' = s_live s" "s_alloc s' = s_alloc s" "\<not> plenty s"
proof -
  have lvl: "\<not> KVS_SKIPLIST_MAX_LEVEL < lvl" and pos: "skiplist_node_bytes \<noteq> 0"
    using assms by (simp_all add: skiplist_node_bytes_def)
  note create = skiplist_create_node_def [of sk lvl k v s]
  show thesis
  proof (cases rule: kvs_malloc_cases [of skiplist_node_bytes s])
    case (refused s1)
    then show thesis
      using lvl pos by (intro that(2) [of "s1"]) (simp_all add: create)
  next
    case one: (granted s1)
    show thesis
    proof (cases rule: kvs_malloc_cases [of "length k + 1" s1])
      case (refused s2)
      then show thesis
        using lvl one plenty_cong [OF one(3)] by (intro that(2) [of "kvs_free s2"]) (simp_all add: create)
    next
      case two: (granted s2)
      show thesis
      proof (cases rule: kvs_malloc_cases [of "length v + 1" s2])
        case (refused s3)
        then show thesis
          using lvl one two plenty_cong [OF one(3)] plenty_cong [OF two(3)]
          by (intro that(2) [of "kvs_free (kvs_free s3)"]) (simp_all add: create)
      next
        case three: (granted s3)
        show thesis
        proof (cases rule: kvs_malloc_cases [of "(lvl + 1) * 8" s3])
          case (refused s4)
          then show thesis
            using lvl one two three plenty_cong [OF one(3)] plenty_cong [OF two(3)] plenty_cong [OF three(3)]
            by (intro that(2) [of "kvs_free (kvs_free (kvs_free s4))"]) (simp_all add: create)
        next
          case (granted s4)
          then show thesis
            using lvl one two three by (intro that(1) [OF _ refl, of s4]) (simp_all add: create Let_def)
        qed
      qed
    qed
  qed
qed

text \<open>The list after a node with a new key has been linked in.\<close>

definition sl_with_node :: "kvs_skiplist_t \<Rightarrow> nat \<Rightarrow> bytes \<Rightarrow> bytes \<Rightarrow> kvs_skiplist_t" where
  "sl_with_node sk lvl k v =
     sk\<lparr>sl_heap := (sl_heap sk)(sl_next sk \<mapsto>
          \<lparr>sl_key = k, sl_value = v, sl_forward = replicate (lvl + 1) None\<rparr>),
        sl_next := sl_next sk + 1, level := max (level sk) lvl\<rparr>"

lemma sl_with_node_access:
  "a \<noteq> sl_next sk \<Longrightarrow> sl_heap (sl_with_node sk lvl k v) a = sl_heap sk a"
  "a \<noteq> sl_next sk \<Longrightarrow> sl_node (sl_with_node sk lvl k v) a = sl_node sk a"
  "a \<noteq> sl_next sk \<Longrightarrow> sl_height (sl_with_node sk lvl k v) a = sl_height sk a"
  "a \<noteq> sl_next sk \<Longrightarrow> sl_keyof (sl_with_node sk lvl k v) a = sl_keyof sk a"
  "a \<noteq> sl_next sk \<Longrightarrow> sl_valof (sl_with_node sk lvl k v) a = sl_valof sk a"
  "a \<noteq> sl_next sk \<Longrightarrow> sl_lev (sl_with_node sk lvl k v) i a = sl_lev sk i a"
  "sl_height (sl_with_node sk lvl k v) (sl_next sk) = lvl + 1"
  "sl_keyof (sl_with_node sk lvl k v) (sl_next sk) = k"
  "sl_valof (sl_with_node sk lvl k v) (sl_next sk) = v"
  "sl_heap (sl_with_node sk lvl k v) (sl_next sk) = Some (sl_node (sl_with_node sk lvl k v) (sl_next sk))"
  "header (sl_with_node sk lvl k v) = header sk" "level (sl_with_node sk lvl k v) = max (level sk) lvl"
  "sl_next (sl_with_node sk lvl k v) = sl_next sk + 1"
  by (simp_all add: sl_with_node_def sl_access)

lemma at_level_cong:
  "(\<And>a. a \<in> set as \<Longrightarrow> sl_height sk' a = sl_height sk a) \<Longrightarrow> at_level sk' i as = at_level sk i as"
  by (auto simp: at_level_def intro: filter_cong)

lemma sl_pred_above:
  assumes "sl_rep sk h as" "level sk < i" shows "sl_pred sk k h as i = h"
proof -
  have "\<not> i < sl_height sk a" if "a \<in> set (sl_low sk k as)" for a
    using sl_repD(8) [OF assms(1), of a] that assms(2) by (auto simp: sl_low_def dest: set_takeWhileD)
  then have "at_level sk i (sl_low sk k as) = []"
    by (simp add: at_level_def filter_empty_conv)
  then show ?thesis by (simp add: sl_pred_def)
qed

lemma sl_linked_rep:
  assumes rep: "sl_rep sk h as" and k: "k \<notin> set (map (sl_keyof sk) as)"
    and lvl: "lvl \<le> KVS_SKIPLIST_MAX_LEVEL" and re: "sl_relinked (sl_with_node sk lvl k v) sk'"
    and lev: "\<And>j. sl_lev sk' j = (if j < lvl + 1
        then (sl_lev (sl_with_node sk lvl k v) j)(sl_next sk := sl_lev (sl_with_node sk lvl k v) j (sl_pred sk k h as j),
          sl_pred sk k h as j := Some (sl_next sk))
        else sl_lev (sl_with_node sk lvl k v) j)"
  shows "sl_rep sk' h (sl_low sk k as @ sl_next sk # sl_high sk k as)"
proof -
  let ?new = "sl_next sk" and ?n = "sl_with_node sk lvl k v"
  let ?L = "sl_low sk k as" and ?H = "sl_high sk k as"
  have as: "?L @ ?H = as" by (rule sl_low_high)
  then have set_as: "set as = set ?L \<union> set ?H" by (metis set_append)
  have fresh: "a \<in> set (h # as) \<Longrightarrow> a \<noteq> ?new" for a
    using sl_repD(4) [OF rep, of a] by auto
  have dist: "distinct (h # ?L @ ?H)" "?new \<notin> set (h # ?L @ ?H)"
    using sl_repD(3) [OF rep] fresh as by auto
  have ht: "sl_height sk' a = sl_height sk a" and ky: "sl_keyof sk' a = sl_keyof sk a"
    if "a \<in> set (h # as)" for a
    using re fresh [OF that] by (simp_all add: sl_relinked_def sl_with_node_access)
  have new: "sl_height sk' ?new = lvl + 1" "sl_keyof sk' ?new = k"
    using re by (simp_all add: sl_relinked_def sl_with_node_access)
  have keys: "map (sl_keyof sk') ?L = map (sl_keyof sk) ?L" "map (sl_keyof sk') ?H = map (sl_keyof sk) ?H"
    using ky set_as by auto
  have "sorted_wrt (<) (map (sl_keyof sk) ?L @ map (sl_keyof sk) ?H)"
    using sl_repD(9) [OF rep] as by (metis map_append)
  moreover have "\<forall>a \<in> set ?L. sl_keyof sk a < k"
    using sl_low_less by blast
  moreover have "\<forall>a \<in> set ?H. k < sl_keyof sk a"
    using sl_high_geq [OF sl_repD(9) [OF rep], of _ k] k set_as by (force simp: le_less)
  ultimately have sorted: "sorted_wrt (<) (map (sl_keyof sk') (?L @ ?new # ?H))"
    by (simp add: keys new sorted_wrt_append)
  have lists: "at_level sk' i ?L = at_level sk i ?L" "at_level sk' i ?H = at_level sk i ?H" for i
    using ht set_as by (auto intro: at_level_cong)
  have paths: "link_path (sl_lev sk' i) h (at_level sk' i (?L @ ?new # ?H)) None" if i: "i \<le> KVS_SKIPLIST_MAX_LEVEL" for i
  proof -
    have old: "link_path (sl_lev ?n i) h (at_level sk i ?L @ at_level sk i ?H) None"
    proof (rule link_path_cong [THEN iffD1, OF _ sl_level_path [OF rep i, of k]])
      fix x assume "x \<in> set (h # at_level sk i ?L @ at_level sk i ?H)"
      then have "x \<noteq> ?new"
        using fresh [of x] set_as by auto
      then show "sl_lev sk i x = sl_lev ?n i x"
        by (simp add: sl_with_node_access)
    qed
    show ?thesis
    proof (cases "i < lvl + 1")
      case True
      have "link_path ((sl_lev ?n i)(?new := sl_lev ?n i (sl_pred sk k h as i), sl_pred sk k h as i := Some ?new))
          h (at_level sk i ?L @ ?new # at_level sk i ?H) None"
        unfolding sl_pred_def by (rule link_path_insert [OF old]) (use dist in \<open>auto simp: at_level_def\<close>)
      then show ?thesis
        using True lev [of i] by (simp add: lists new)
    next
      case False
      then show ?thesis
        using old lev [of i] by (simp add: lists new)
    qed
  qed
  have heap: "sl_heap sk' a \<noteq> None \<longleftrightarrow> a \<in> set (h # ?L @ ?new # ?H)" for a
  proof -
    have "sl_heap sk' a \<noteq> None \<longleftrightarrow> a = ?new \<or> sl_heap sk a \<noteq> None"
      using re by (simp add: sl_relinked_def sl_with_node_def)
    also have "\<dots> \<longleftrightarrow> a \<in> set (h # ?L @ ?new # ?H)"
      using sl_repD(11) [OF rep, of a] set_as by auto
    finally show ?thesis .
  qed
  show ?thesis
    unfolding sl_rep_def
  proof (intro conjI allI impI ballI)
    show "header sk' = Some h" "level sk' \<le> KVS_SKIPLIST_MAX_LEVEL"
      using re sl_repD(1,5) [OF rep] lvl by (simp_all add: sl_relinked_def sl_with_node_access)
    show "distinct (h # ?L @ ?new # ?H)"
      using dist by auto
    show "sl_height sk' h = KVS_SKIPLIST_MAX_LEVEL + 1"
      using ht [of h] sl_repD(6) [OF rep] by simp
    show "link_path (sl_lev sk' i) h (filter (\<lambda>a. i < sl_height sk' a) (?L @ ?new # ?H)) None"
      if "i \<le> KVS_SKIPLIST_MAX_LEVEL" for i
      using paths [OF that] unfolding at_level_def .
  next
    fix a assume a: "a \<in> set (?L @ ?new # ?H)"
    have lv: "level sk' = max (level sk) lvl"
      using re by (simp add: sl_relinked_def sl_with_node_access)
    have "a = ?new \<or> a \<in> set as"
      using a set_as by simp
    then have "1 \<le> sl_height sk' a \<and> sl_height sk' a \<le> level sk' + 1"
      using ht [of a] new(1) sl_repD(7,8) [OF rep, of a] unfolding lv by (elim disjE) simp_all
    then show "1 \<le> sl_height sk' a" "sl_height sk' a \<le> level sk' + 1"
      by simp_all
  next
    fix a assume "a \<in> set (h # ?L @ ?new # ?H)"
    then show "a < sl_next sk'"
      using sl_repD(4) [OF rep, of a] set_as re by (auto simp: sl_relinked_def sl_with_node_access)
  next
    show "sl_heap sk' a \<noteq> None \<longleftrightarrow> a \<in> set (h # ?L @ ?new # ?H)" for a
      by (rule heap)
    show "sorted_wrt (<) (map (sl_keyof sk') (?L @ ?new # ?H))"
      by (rule sorted)
  qed
qed

text \<open>The bindings after an insertion or before a deletion.\<close>

lemma skiplist_map_insert:
  assumes rep: "sl_rep sk h as" and rep': "sl_rep sk' h (sl_low sk k as @ new # sl_high sk k as)"
    and same: "\<And>a. a \<in> set as \<Longrightarrow> sl_keyof sk' a = sl_keyof sk a \<and> sl_valof sk' a = sl_valof sk a"
    and new: "sl_keyof sk' new = k" "sl_valof sk' new = v"
  shows "skiplist_map sk' = (skiplist_map sk)(k \<mapsto> v)" "skiplist_owned sk' = skiplist_owned sk + 4"
proof -
  let ?L = "sl_low sk k as" and ?H = "sl_high sk k as"
  have as: "?L @ ?H = as" by (rule sl_low_high)
  have e: "map (\<lambda>b. (sl_keyof sk' b, sl_valof sk' b)) xs = map (\<lambda>b. (sl_keyof sk b, sl_valof sk b)) xs"
    if "set xs \<subseteq> set as" for xs
    using that same by (auto intro: map_cong)
  have sub: "set ?L \<subseteq> set as" "set ?H \<subseteq> set as"
    using as by (metis set_append Un_upper1 Un_upper2)+
  have ent': "skiplist_entries sk' =
      map (\<lambda>b. (sl_keyof sk b, sl_valof sk b)) ?L @ (k, v) # map (\<lambda>b. (sl_keyof sk b, sl_valof sk b)) ?H"
    by (simp add: skiplist_entries_rep [OF rep'] new e sub)
  have ent: "skiplist_entries sk =
      map (\<lambda>b. (sl_keyof sk b, sl_valof sk b)) ?L @ map (\<lambda>b. (sl_keyof sk b, sl_valof sk b)) ?H"
    by (metis as map_append skiplist_entries_rep [OF rep])
  have "k \<notin> fst ` set (map (\<lambda>b. (sl_keyof sk b, sl_valof sk b)) ?L)"
    using sl_low_less [of _ sk k as] by force
  then show "skiplist_map sk' = (skiplist_map sk)(k \<mapsto> v)"
    unfolding skiplist_map_def ent ent' by (rule map_of_insert_between)
  show "skiplist_owned sk' = skiplist_owned sk + 4"
    by (simp add: skiplist_owned_def ent ent')
qed

lemma sl_upd_array:
  assumes rep: "sl_rep sk h as"
  shows "(if lvl > level sk then map (sl_pred sk k h as) [0..<level sk + 1] @ replicate (lvl - level sk) h
          else map (sl_pred sk k h as) [0..<level sk + 1]) =
    map (sl_pred sk k h as) [0..<max (level sk) lvl + 1]"
proof (cases "lvl > level sk")
  case True
  have "replicate (lvl - level sk) h = map (sl_pred sk k h as) [level sk + 1..<lvl + 1]"
    using sl_pred_above [OF rep, of _ k] by (intro nth_equalityI) (simp_all del: upt_Suc)
  moreover have "[0..<lvl + 1] = [0..<level sk + 1] @ [level sk + 1..<lvl + 1]"
    using True upt_add_eq_append [of 0 "level sk + 1" "lvl - level sk"] by simp
  ultimately show ?thesis
    using True by (simp add: max_def del: upt_Suc)
next
  case False
  then show ?thesis by (simp add: max_def)
qed

lemma sl_insert_rep:
  assumes rep: "sl_rep sk h as" and k: "k \<notin> set (map (sl_keyof sk) as)"
  shows "\<exists>r sk' s'. sl_insert sk h (map (sl_pred sk k h as) [0..<level sk + 1]) k v s = Inr (r, sk', s') \<and>
    skiplist_inv sk' \<and> balanced skiplist_owned sk s sk' s' \<and>
    (r = 0 \<and> skiplist_map sk' = (skiplist_map sk)(k \<mapsto> v) \<or> r < 0 \<and> sk' = sk \<and> \<not> plenty s)"
proof -
  obtain lvl s1 where rnd: "skiplist_random_level s = (lvl, s1)"
    by (metis surj_pair)
  then have lvl: "lvl \<le> KVS_SKIPLIST_MAX_LEVEL" and s1: "s_live s1 = s_live s" "s_alloc s1 = s_alloc s"
    using random_level_bound [of 0 s lvl s1] by (auto simp: skiplist_random_level_def)
  let ?upd = "map (sl_pred sk k h as) [0..<max (level sk) lvl + 1]"
  note ins = sl_insert_def [of sk h "map (sl_pred sk k h as) [0..<level sk + 1]"]
  from lvl show ?thesis
  proof (cases rule: skiplist_create_node_cases [where sk = sk and k = k and v = v and s = s1])
    case (granted sk1 s2)
    let ?n = "sl_with_node sk lvl k v"
    have n: "(if lvl > level sk1 then sk1\<lparr>level := lvl\<rparr> else sk1) = ?n"
      by (simp add: granted(2) sl_with_node_def max_def)
    have pred: "sl_pred sk k h as j \<in> set (h # as)" "j < sl_height sk (sl_pred sk k h as j)"
      if "j \<le> KVS_SKIPLIST_MAX_LEVEL" for j
      using sl_pred_rep [OF rep that] by auto
    have fresh: "a \<in> set (h # as) \<Longrightarrow> a \<noteq> sl_next sk" for a
      using sl_repD(4) [OF rep, of a] by auto
    have "\<exists>sk'. sl_link ?n (sl_next sk) ?upd 0 (lvl + 1) = Inr sk' \<and> sl_relinked ?n sk' \<and>
      (\<forall>j. sl_lev sk' j = (if 0 \<le> j \<and> j < 0 + (lvl + 1)
        then (sl_lev ?n j)(sl_next sk := sl_lev ?n j (?upd ! j), ?upd ! j := Some (sl_next sk)) else sl_lev ?n j))"
    proof (rule sl_link_levels)
      fix j assume j: "j < 0 + (lvl + 1)"
      then have "?upd ! j = sl_pred sk k h as j" "j \<le> KVS_SKIPLIST_MAX_LEVEL"
        using lvl by (simp_all add: nth_append del: upt_Suc)
      then show "j < length ?upd \<and> sl_heap ?n (?upd ! j) = Some (sl_node ?n (?upd ! j)) \<and>
          j < sl_height ?n (?upd ! j)"
        using pred [of j] fresh [of "sl_pred sk k h as j"] sl_repD(2) [OF rep, of "sl_pred sk k h as j"] j
        by (simp add: sl_with_node_access)
    next
      have "sl_pred sk k h as j \<noteq> sl_next sk" if "j < max (level sk) lvl + 1" for j
        using fresh [OF pred(1) [of j]] that lvl sl_repD(5) [OF rep] by simp
      then show "sl_next sk \<notin> set ?upd"
        by (auto simp: image_iff simp del: upt_Suc) metis
    qed (simp_all add: sl_with_node_access)
    then obtain sk' where sk': "sl_link ?n (sl_next sk) ?upd 0 (lvl + 1) = Inr sk'" "sl_relinked ?n sk'"
        "\<And>j. sl_lev sk' j = (if j < lvl + 1
          then (sl_lev ?n j)(sl_next sk := sl_lev ?n j (sl_pred sk k h as j), sl_pred sk k h as j := Some (sl_next sk))
          else sl_lev ?n j)"
      by (auto simp: nth_append simp del: upt_Suc cong: if_cong)
    have rep': "sl_rep sk' h (sl_low sk k as @ sl_next sk # sl_high sk k as)"
      by (rule sl_linked_rep [OF rep k lvl sk'(2,3)])
    have "sl_keyof sk' a = sl_keyof sk a \<and> sl_valof sk' a = sl_valof sk a" if "a \<in> set as" for a
      using sk'(2) fresh [of a] that by (simp add: sl_relinked_def sl_with_node_access)
    then have "skiplist_map sk' = (skiplist_map sk)(k \<mapsto> v)" "skiplist_owned sk' = skiplist_owned sk + 4"
      using skiplist_map_insert [OF rep rep'] sk'(2) by (simp_all add: sl_relinked_def sl_with_node_access)
    moreover have "sl_insert sk h (map (sl_pred sk k h as) [0..<level sk + 1]) k v s = Inr (0, sk', s2)"
      unfolding ins rnd using granted(1) sk'(1) n
      by (simp add: sl_upd_array [OF rep] del: upt_Suc sl_link.simps)
    ultimately show ?thesis
      using rep' granted(3,4) s1 by (auto simp: balanced_def skiplist_inv_def)
  next
    case (refused s2)
    then have "sl_insert sk h (map (sl_pred sk k h as) [0..<level sk + 1]) k v s = Inr (-2, sk, s2)"
      unfolding ins rnd by simp
    then show ?thesis
      using refused s1 rep plenty_cong [OF s1(2)] by (auto simp: balanced_def skiplist_inv_def)
  qed
qed

lemma skiplist_set_law:
  assumes "skiplist_inv sk"
  shows "\<exists>r sk' s'. kvs_skiplist_set sk (Some k) (Some v) s = Inr (r, sk', s') \<and> skiplist_inv sk' \<and>
    balanced skiplist_owned sk s sk' s' \<and>
    (r = 0 \<and> skiplist_map sk' = (skiplist_map sk)(k \<mapsto> v) \<or> r < 0 \<and> sk' = sk \<and> \<not> plenty s)"
proof -
  obtain h as where rep: "sl_rep sk h as"
    using assms by (auto simp: skiplist_inv_def)
  note run = kvs_skiplist_set_def [of sk "Some k" "Some v" s] sl_descend_rep [OF rep, of k] sl_repD(1) [OF rep]
  from rep show ?thesis
  proof (cases rule: sl_search_cases [where k = k])
    case (found c hi)
    then have c: "c \<in> set as"
      by (metis in_set_conv_decomp)
    have "kvs_skiplist_set sk (Some k) (Some v) s = sl_replace_value sk c v s"
      using found(4) run by simp
    then show ?thesis
      using skiplist_replace [OF rep c, of v s] found(3) by simp
  next
    case missing
    have "kvs_skiplist_set sk (Some k) (Some v) s =
        sl_insert sk h (map (sl_pred sk k h as) [0..<level sk + 1]) k v s"
      using missing(2) run by simp
    then show ?thesis
      using sl_insert_rep [OF rep missing(1), of v s] by simp
  qed
qed

section \<open>Deleting\<close>

lemma sl_unlink_levels:
  assumes "\<And>j. j < i + n \<Longrightarrow> j < length upd \<and> sl_heap sk (upd ! j) = Some (sl_node sk (upd ! j)) \<and>
      j < sl_height sk (upd ! j)"
    and "\<And>j. i \<le> j \<Longrightarrow> j < i + n \<Longrightarrow> sl_lev sk j (upd ! j) = Some c \<longleftrightarrow> j < sl_height sk c"
    and "sl_heap sk c = Some (sl_node sk c)"
  shows "\<exists>sk'. sl_unlink sk c upd i n = Inr sk' \<and> sl_relinked sk sk' \<and>
    (\<forall>j. sl_lev sk' j = (if i \<le> j \<and> j < i + n \<and> j < sl_height sk c
        then (sl_lev sk j)(upd ! j := sl_lev sk j c) else sl_lev sk j))"
  using assms
proof (induction n arbitrary: i sk)
  case 0
  then show ?case by auto
next
  case (Suc n)
  let ?u = "upd ! i"
  have u: "i < length upd" "sl_heap sk ?u = Some (sl_node sk ?u)" "i < sl_height sk ?u"
    using Suc.prems(1) [of i] by auto
  show ?case
  proof (cases "i < sl_height sk c")
    case False
    then have "sl_lev sk i ?u \<noteq> Some c"
      using Suc.prems(2) [of i] by simp
    then show ?thesis
      using u False by (auto simp: get_forward_ok)
  next
    case True
    then have fwd: "sl_lev sk i ?u = Some c"
      using Suc.prems(2) [of i] by simp
    obtain sk1 where sk1: "set_forward sk ?u i (sl_lev sk i c) = Inr sk1" "sl_relinked sk sk1"
        "\<forall>j. sl_lev sk1 j = (if j = i then (sl_lev sk i)(?u := sl_lev sk i c) else sl_lev sk j)"
      using set_forward_ok [OF u(2,3), of "sl_lev sk i c"] by blast
    have hts: "sl_height sk1 = sl_height sk"
      using sk1(2) by (simp add: sl_relinked_def)
    have "\<exists>sk'. sl_unlink sk1 c upd (i + 1) n = Inr sk' \<and> sl_relinked sk1 sk' \<and>
      (\<forall>j. sl_lev sk' j = (if i + 1 \<le> j \<and> j < i + 1 + n \<and> j < sl_height sk1 c
          then (sl_lev sk1 j)(upd ! j := sl_lev sk1 j c) else sl_lev sk1 j))"
    proof (rule Suc.IH)
      fix j assume "j < i + 1 + n"
      then show "j < length upd \<and> sl_heap sk1 (upd ! j) = Some (sl_node sk1 (upd ! j)) \<and>
          j < sl_height sk1 (upd ! j)"
        using Suc.prems(1) [of j] sl_relinked_node [OF sk1(2)] hts by simp
    next
      fix j assume "i + 1 \<le> j" "j < i + 1 + n"
      then show "sl_lev sk1 j (upd ! j) = Some c \<longleftrightarrow> j < sl_height sk1 c"
        using Suc.prems(2) [of j] sk1(3) hts by simp
    qed (rule sl_relinked_node [OF sk1(2) Suc.prems(3)])
    then obtain sk' where sk': "sl_unlink sk1 c upd (i + 1) n = Inr sk'" "sl_relinked sk1 sk'"
        "\<forall>j. sl_lev sk' j = (if i + 1 \<le> j \<and> j < i + 1 + n \<and> j < sl_height sk c
          then (sl_lev sk1 j)(upd ! j := sl_lev sk1 j c) else sl_lev sk1 j)"
      unfolding hts by blast
    have "sl_unlink sk c upd i (Suc n) = Inr sk'"
      using u sk1(1) sk'(1) fwd True Suc.prems(3) by (simp add: get_forward_ok)
    moreover have "sl_relinked sk sk'"
      using sk1(2) sk'(2) by (rule sl_relinked_trans)
    moreover have "\<forall>j. sl_lev sk' j = (if i \<le> j \<and> j < i + Suc n \<and> j < sl_height sk c
        then (sl_lev sk j)(upd ! j := sl_lev sk j c) else sl_lev sk j)"
      using sk'(3) sk1(3) True by (auto simp: le_eq_less_or_eq)
    ultimately show ?thesis
      by blast
  qed
qed

lemma sl_shrink_level:
  assumes "sl_heap sk h = Some (sl_node sk h)" "l < sl_height sk h"
  shows "\<exists>l'. sl_shrink sk h l = Inr (sk\<lparr>level := l'\<rparr>) \<and> l' \<le> l \<and> (\<forall>i. l' < i \<longrightarrow> i \<le> l \<longrightarrow> sl_lev sk i h = None)"
  using assms(2)
proof (induction l)
  case 0
  then show ?case by simp
next
  case (Suc l)
  have fwd: "get_forward sk h (Suc l) = Inr (sl_lev sk (Suc l) h)"
    by (rule get_forward_ok [OF assms(1) Suc.prems])
  show ?case
  proof (cases "sl_lev sk (Suc l) h = None")
    case True
    obtain l' where "sl_shrink sk h l = Inr (sk\<lparr>level := l'\<rparr>)" "l' \<le> l"
        "\<forall>i. l' < i \<longrightarrow> i \<le> l \<longrightarrow> sl_lev sk i h = None"
      using Suc.IH Suc.prems by auto
    then show ?thesis
      using fwd True by (intro exI [of _ l']) (auto simp: le_Suc_eq)
  next
    case False
    then show ?thesis
      using fwd by (intro exI [of _ "Suc l"]) auto
  qed
qed

text \<open>The pointer behind the last smaller node leads to the found node at its levels only.\<close>

lemma sl_pred_forward:
  assumes rep: "sl_rep sk h as" and hi: "sl_high sk k as = c # hi" and i: "i \<le> KVS_SKIPLIST_MAX_LEVEL"
  shows "sl_lev sk i (sl_pred sk k h as i) = Some c \<longleftrightarrow> i < sl_height sk c"
proof -
  have "link_path (sl_lev sk i) h (at_level sk i (sl_low sk k as)) (first_or None (at_level sk i (sl_high sk k as)))"
    using sl_level_path [OF rep i, of k] by (simp add: link_path_append)
  then have f: "sl_lev sk i (sl_pred sk k h as i) = first_or None (at_level sk i (c # hi))"
    using link_path_last hi unfolding sl_pred_def by metis
  have "distinct (sl_low sk k as @ c # hi)"
    using sl_repD(3) [OF rep] sl_low_high [of sk k as] hi by simp
  then have "first_or None (at_level sk i hi) \<noteq> Some c"
    by (cases "at_level sk i hi") (use set_at_level [of sk i hi] in auto)
  then show ?thesis
    using f by simp
qed

text \<open>The list after the node has been taken out of its levels and freed.\<close>

lemma sl_unlinked_rep:
  assumes rep: "sl_rep sk h as" and as: "as = sl_low sk k as @ c # hi" and re: "sl_relinked sk sk1"
    and lev: "\<And>j. sl_lev sk1 j = (if j < sl_height sk c
        then (sl_lev sk j)(sl_pred sk k h as j := sl_lev sk j c) else sl_lev sk j)"
    and l': "l' \<le> level sk" "\<And>i. l' < i \<Longrightarrow> i \<le> level sk \<Longrightarrow> sl_lev sk1 i h = None"
  shows "sl_rep (fst (sl_release (sk1\<lparr>level := l'\<rparr>) c s)) h (sl_low sk k as @ hi)"
proof -
  let ?L = "sl_low sk k as" and ?sk = "fst (sl_release (sk1\<lparr>level := l'\<rparr>) c s)"
  have hi: "sl_high sk k as = c # hi"
    using sl_low_high [of sk k as] as by (metis same_append_eq)
  have dist: "distinct (h # ?L @ c # hi)"
    using sl_repD(3) [OF rep] as by metis
  have set_as: "set as = insert c (set (?L @ hi))"
    using as by (metis Un_insert_right list.simps(15) set_append)
  have c: "a \<in> set (h # ?L @ hi) \<Longrightarrow> a \<noteq> c" for a
    using dist by auto
  have acc: "sl_height ?sk a = sl_height sk a" "sl_keyof ?sk a = sl_keyof sk a" "sl_lev ?sk i a = sl_lev sk1 i a"
    if "a \<noteq> c" for a i
    using that re by (simp_all add: sl_release_def sl_relinked_def sl_access fun_eq_iff)
  have lists: "at_level ?sk i xs = at_level sk i xs" if "set xs \<subseteq> set (?L @ hi)" for i xs
    by (rule at_level_cong, rule acc(1)) (use that c in auto)
  have paths: "link_path (sl_lev sk1 i) h (at_level sk i (?L @ hi)) None" if i: "i \<le> KVS_SKIPLIST_MAX_LEVEL" for i
  proof (cases "i < sl_height sk c")
    case True
    have "link_path (sl_lev sk i) h (at_level sk i ?L @ c # at_level sk i hi) None"
      using sl_level_path [OF rep i, of k] hi True by simp
    then have "link_path ((sl_lev sk i)(sl_pred sk k h as i := sl_lev sk i c)) h (at_level sk i ?L @ at_level sk i hi) None"
      unfolding sl_pred_def by (rule link_path_delete) (use dist in \<open>auto simp: at_level_def\<close>)
    then show ?thesis
      using True lev [of i] by simp
  next
    case False
    then show ?thesis
      using sl_level_path [OF rep i, of k] hi lev [of i] by simp
  qed
  have paths': "link_path (sl_lev ?sk i) h (at_level sk i (?L @ hi)) None" if i: "i \<le> KVS_SKIPLIST_MAX_LEVEL" for i
    by (rule link_path_cong [THEN iffD1, OF _ paths [OF i]]) (use acc(3) c in auto)
  have low: "sl_height sk a \<le> l' + 1" if a: "a \<in> set (?L @ hi)" for a
  proof (rule ccontr)
    assume n: "\<not> sl_height sk a \<le> l' + 1"
    moreover have le: "sl_height sk a \<le> level sk + 1"
      using sl_repD(8) [OF rep, of a] a set_as by simp
    ultimately have "link_path (sl_lev sk1 (l' + 1)) h (at_level sk (l' + 1) (?L @ hi)) None"
      using sl_repD(5) [OF rep] by (intro paths) simp
    moreover have "a \<in> set (at_level sk (l' + 1) (?L @ hi))"
      using a n by simp
    ultimately have "sl_lev sk1 (l' + 1) h \<noteq> None"
      by (cases "at_level sk (l' + 1) (?L @ hi)") (auto simp del: set_at_level at_level_append)
    then show False
      using l'(2) [of "l' + 1"] n le by simp
  qed
  show ?thesis
    unfolding sl_rep_def
  proof (intro conjI allI impI ballI)
    show "header ?sk = Some h" "level ?sk \<le> KVS_SKIPLIST_MAX_LEVEL" "distinct (h # ?L @ hi)"
      using re sl_repD(1,5) [OF rep] l'(1) dist by (auto simp: sl_release_def sl_relinked_def)
    show "sl_height ?sk h = KVS_SKIPLIST_MAX_LEVEL + 1"
      using acc(1) [of h] c [of h] sl_repD(6) [OF rep] by simp
    show "sorted_wrt (<) (map (sl_keyof ?sk) (?L @ hi))"
    proof -
      have "map (sl_keyof ?sk) (?L @ hi) = map (sl_keyof sk) (?L @ hi)"
        by (rule map_cong [OF refl], rule acc(2)) (use c in auto)
      moreover have "sorted_wrt (<) (map (sl_keyof sk) (?L @ c # hi))"
        using sl_repD(9) [OF rep] as by metis
      ultimately show ?thesis
        by (simp only: sorted_wrt_append map_append list.map) simp
    qed
    show "link_path (sl_lev ?sk i) h (filter (\<lambda>a. i < sl_height ?sk a) (?L @ hi)) None"
      if "i \<le> KVS_SKIPLIST_MAX_LEVEL" for i
      using paths' [OF that] lists [of "?L @ hi" i] by (simp add: at_level_def)
  next
    fix a assume a: "a \<in> set (?L @ hi)"
    show "1 \<le> sl_height ?sk a" "sl_height ?sk a \<le> level ?sk + 1"
      using acc(1) [of a] c [of a] a low [OF a] sl_repD(7) [OF rep, of a] set_as
      by (simp_all add: sl_release_def)
  next
    fix a assume "a \<in> set (h # ?L @ hi)"
    then show "a < sl_next ?sk"
      using sl_repD(4) [OF rep, of a] set_as re by (auto simp: sl_release_def sl_relinked_def)
  next
    fix a
    have "sl_heap ?sk a \<noteq> None \<longleftrightarrow> a \<noteq> c \<and> sl_heap sk a \<noteq> None"
      using re by (simp add: sl_release_def sl_relinked_def del: not_None_eq)
    also have "\<dots> \<longleftrightarrow> a \<in> set (h # ?L @ hi)"
      using sl_repD(11) [OF rep, of a] c [of a] set_as by (auto simp del: not_None_eq)
    finally show "sl_heap ?sk a \<noteq> None \<longleftrightarrow> a \<in> set (h # ?L @ hi)" .
  qed
qed

lemma skiplist_map_delete:
  assumes rep: "sl_rep sk h as" and as: "as = sl_low sk k as @ c # hi" and k: "sl_keyof sk c = k"
    and rep': "sl_rep sk' h (sl_low sk k as @ hi)"
    and same: "\<And>a. a \<noteq> c \<Longrightarrow> sl_keyof sk' a = sl_keyof sk a \<and> sl_valof sk' a = sl_valof sk a"
  shows "skiplist_map sk' = (skiplist_map sk)(k := None)" "skiplist_owned sk' = skiplist_owned sk - 4"
proof -
  let ?e = "\<lambda>b. (sl_keyof sk b, sl_valof sk b)" and ?L = "sl_low sk k as"
  have "distinct (?L @ c # hi)"
    using sl_repD(3) [OF rep] as by (metis distinct.simps(2))
  then have "\<forall>a \<in> set (?L @ hi). a \<noteq> c"
    by auto
  then have "skiplist_entries sk' = map ?e (?L @ hi)"
    unfolding skiplist_entries_rep [OF rep'] using same by (intro map_cong [OF refl]) blast
  moreover have ent: "skiplist_entries sk = map ?e (?L @ c # hi)"
    using skiplist_entries_rep [OF rep] as by metis
  moreover have "distinct (map fst (map ?e (?L @ c # hi)))"
    using sl_keys_distinct [OF rep] as by (simp add: comp_def)
  ultimately show "skiplist_map sk' = (skiplist_map sk)(k := None)" "skiplist_owned sk' = skiplist_owned sk - 4"
    using map_of_delete_between [of "map ?e ?L" k "sl_valof sk c" "map ?e hi"] k
    by (simp_all add: skiplist_map_def skiplist_owned_def)
qed

lemma skiplist_del_law:
  assumes "skiplist_inv sk"
  shows "\<exists>r sk' s'. kvs_skiplist_del sk (Some k) s = Inr (r, sk', s') \<and> skiplist_inv sk' \<and>
    balanced skiplist_owned sk s sk' s' \<and>
    (r = 0 \<and> skiplist_map sk k \<noteq> None \<and> skiplist_map sk' = (skiplist_map sk)(k := None) \<or>
     r = 1 \<and> skiplist_map sk k = None \<and> sk' = sk \<and> s' = s)"
proof -
  obtain h as where rep: "sl_rep sk h as"
    using assms by (auto simp: skiplist_inv_def)
  let ?p = "sl_pred sk k h as"
  let ?upd = "map ?p [0..<level sk + 1]"
  note run = kvs_skiplist_del_def [of sk "Some k" s] sl_descend_rep [OF rep, of k] sl_repD(1) [OF rep]
  from rep show ?thesis
  proof (cases rule: sl_search_cases [where k = k])
    case missing
    then show ?thesis
      using skiplist_map_rep(2) [OF rep, of k] assms run by simp
  next
    case (found c hi)
    then have c: "c \<in> set as"
      by (metis in_set_conv_decomp)
    then have c_node: "sl_heap sk c = Some (sl_node sk c)" and h_node: "sl_heap sk h = Some (sl_node sk h)"
      using sl_repD(2) [OF rep] by auto
    have nth: "j < level sk + 1 \<Longrightarrow> ?upd ! j = ?p j \<and> j \<le> KVS_SKIPLIST_MAX_LEVEL" for j
      using sl_repD(5) [OF rep] by (simp add: nth_append del: upt_Suc)
    have "\<exists>sk1. sl_unlink sk c ?upd 0 (level sk + 1) = Inr sk1 \<and> sl_relinked sk sk1 \<and>
      (\<forall>j. sl_lev sk1 j = (if 0 \<le> j \<and> j < 0 + (level sk + 1) \<and> j < sl_height sk c
        then (sl_lev sk j)(?upd ! j := sl_lev sk j c) else sl_lev sk j))"
    proof (rule sl_unlink_levels [OF _ _ c_node])
      fix j assume j: "j < 0 + (level sk + 1)"
      then show "j < length ?upd \<and> sl_heap sk (?upd ! j) = Some (sl_node sk (?upd ! j)) \<and> j < sl_height sk (?upd ! j)"
        using nth [of j] sl_pred_rep [OF rep, of j k] sl_repD(2) [OF rep, of "?p j"]
        by (simp del: upt_Suc)
      show "sl_lev sk j (?upd ! j) = Some c \<longleftrightarrow> j < sl_height sk c"
        using sl_pred_forward [OF rep found(2), of j] nth [of j] j by (simp del: upt_Suc)
    qed
    then obtain sk1 where sk1: "sl_unlink sk c ?upd 0 (level sk + 1) = Inr sk1" "sl_relinked sk sk1"
        "\<And>j. sl_lev sk1 j = (if j < sl_height sk c then (sl_lev sk j)(?p j := sl_lev sk j c) else sl_lev sk j)"
      using nth sl_repD(8) [OF rep c] by (auto simp del: upt_Suc cong: if_cong)
    have "level sk1 < sl_height sk1 h" and lv: "level sk1 = level sk"
      using sk1(2) sl_repD(5,6) [OF rep] by (simp_all add: sl_relinked_def)
    then obtain l' where l': "sl_shrink sk1 h (level sk1) = Inr (sk1\<lparr>level := l'\<rparr>)" "l' \<le> level sk"
        "\<And>i. l' < i \<Longrightarrow> i \<le> level sk \<Longrightarrow> sl_lev sk1 i h = None"
      using sl_shrink_level [OF sl_relinked_node [OF sk1(2) h_node], of "level sk1"] by auto
    let ?out = "fst (sl_release (sk1\<lparr>level := l'\<rparr>) c s)" and ?s = "snd (sl_release (sk1\<lparr>level := l'\<rparr>) c s)"
    have "kvs_skiplist_del sk (Some k) s = Inr (0, ?out, ?s)"
      using found(4) run sk1(1) l'(1)
      by (simp add: sl_release_def del: upt_Suc sl_unlink.simps sl_shrink.simps)
    moreover have rep': "sl_rep ?out h (sl_low sk k as @ hi)"
      by (rule sl_unlinked_rep [OF rep found(1) sk1(2,3) l'(2,3)])
    moreover have "sl_keyof ?out a = sl_keyof sk a \<and> sl_valof ?out a = sl_valof sk a" if "a \<noteq> c" for a
      using that sk1(2) by (simp add: sl_release_def sl_relinked_def sl_access fun_eq_iff)
    then have "skiplist_map ?out = (skiplist_map sk)(k := None)" "skiplist_owned ?out = skiplist_owned sk - 4"
      using skiplist_map_delete [OF rep found(1,3) rep'] by simp_all
    moreover have "skiplist_map sk k \<noteq> None"
      using skiplist_map_rep(1) [OF rep c] found(3) by simp
    moreover have "s_live ?s = s_live s - 4" "s_alloc ?s = s_alloc s"
      by (simp_all add: sl_release_def)
    ultimately show ?thesis
      unfolding balanced_def skiplist_inv_def
      by (intro exI [of _ 0] exI [of _ ?out] exI [of _ ?s]) auto
  qed
qed

section \<open>The engine's contract\<close>

interpretation skip: kv_engine skiplist_inv "\<lambda>_. True" skiplist_map skiplist_owned "\<lambda>_. True" skiplist_entries
    kvs_skiplist_set kvs_skiplist_mod kvs_skiplist_del kvs_skiplist_get kvs_skiplist_exist kvs_skiplist_foreach
proof unfold_locales
  fix sk k v s
  assume "skiplist_inv sk"
  then show "\<exists>r e' s'. kvs_skiplist_set sk (Some k) (Some v) s = Inr (r, e', s') \<and> skiplist_inv e' \<and>
      balanced skiplist_owned sk s e' s' \<and>
      (r = 0 \<and> skiplist_map e' = (skiplist_map sk)(k \<mapsto> v) \<or> r < 0 \<and> e' = sk) \<and>
      (plenty s \<and> (skiplist_map sk k \<noteq> None \<or> True) \<longrightarrow> r = 0)"
    using skiplist_set_law [of sk k v s] by blast
next
  fix sk k s
  assume "skiplist_inv sk"
  then show "\<exists>r e' s'. kvs_skiplist_del sk (Some k) s = Inr (r, e', s') \<and> skiplist_inv e' \<and>
      balanced skiplist_owned sk s e' s' \<and>
      (r = 0 \<and> skiplist_map sk k \<noteq> None \<and> skiplist_map e' = (skiplist_map sk)(k := None) \<or>
       r \<noteq> 0 \<and> skiplist_map sk k = None \<and> e' = sk \<and> s' = s)"
    using skiplist_del_law [of sk k s] by fastforce
next
  fix sk
  assume "skiplist_inv sk"
  then obtain h as where rep: "sl_rep sk h as"
    by (auto simp: skiplist_inv_def)
  show "distinct (map fst (skiplist_entries sk)) \<and> map_of (skiplist_entries sk) = skiplist_map sk"
    using sl_keys_distinct [OF rep] by (simp add: skiplist_entries_rep [OF rep] skiplist_map_def comp_def)
qed (rule skiplist_mod_law, assumption,
     simp_all add: skiplist_get_law skiplist_exist_law skiplist_foreach_law)

text \<open>The walk of a skip list sees the keys in strictly ascending order.\<close>

lemma skiplist_entries_sorted:
  assumes "skiplist_inv sk" shows "sorted_wrt (<) (map fst (skiplist_entries sk))"
proof -
  obtain h as where rep: "sl_rep sk h as"
    using assms by (auto simp: skiplist_inv_def)
  show ?thesis
    using sl_repD(9) [OF rep] by (simp add: skiplist_entries_rep [OF rep] comp_def)
qed

section \<open>Creating and destroying\<close>

lemma sl_header_rep:
  assumes "sl_heap sk = (\<lambda>_. None)"
  shows "sl_rep (sk\<lparr>level := 0, sl_heap := [sl_next sk \<mapsto>
      \<lparr>sl_key = [], sl_value = [], sl_forward = replicate (KVS_SKIPLIST_MAX_LEVEL + 1) None\<rparr>],
      sl_next := sl_next sk + 1, header := Some (sl_next sk)\<rparr>) (sl_next sk) []"
  by (simp add: sl_rep_def sl_access less_Suc_eq_le nth_replicate del: replicate.simps)

lemma skiplist_create_law:
  assumes "sl_heap sk = (\<lambda>_. None)"
  shows "\<exists>r sk' s'. kvs_skiplist_create sk s = (r, sk', s') \<and> s_alloc s' = s_alloc s \<and>
    (r = 0 \<and> skiplist_inv sk' \<and> skiplist_entries sk' = [] \<and> s_live s' = s_live s + skiplist_owned sk' \<or>
     r = -1 \<and> header sk' = None \<and> sl_heap sk' = (\<lambda>_. None) \<and> s_live s' = s_live s \<and> \<not> plenty s)"
proof (cases rule: skiplist_create_node_cases [where lvl = KVS_SKIPLIST_MAX_LEVEL and sk = "sk\<lparr>level := 0\<rparr>"
      and k = "[]" and v = "[]" and s = s, case_names le granted refused])
  case le
  then show ?case by simp
next
  case (granted sk' s')
  have rep: "sl_rep (sk'\<lparr>header := Some (sl_next sk)\<rparr>) (sl_next sk) []"
    using sl_header_rep [OF assms] granted(2) assms by simp
  have "kvs_skiplist_create sk s = (0, sk'\<lparr>header := Some (sl_next sk)\<rparr>, s')"
    using granted(1) by (simp add: kvs_skiplist_create_def)
  then show ?thesis
    using granted(3,4) rep skiplist_entries_rep [OF rep] by (auto simp: skiplist_inv_def skiplist_owned_def)
next
  case (refused s')
  then show ?thesis
    using assms by (auto simp: kvs_skiplist_create_def)
qed

text \<open>A path, seen from the pointer that leads to it.\<close>

fun link_chain :: "(nat \<Rightarrow> nat option) \<Rightarrow> nat option \<Rightarrow> nat list \<Rightarrow> bool" where
  "link_chain f p [] \<longleftrightarrow> p = None"
| "link_chain f p (b # bs) \<longleftrightarrow> p = Some b \<and> link_chain f (f b) bs"

lemma link_path_chain: "link_path f a bs None \<longleftrightarrow> link_chain f (f a) bs"
  by (induction bs arbitrary: a) auto

lemma link_chain_cong: "(\<And>x. x \<in> set bs \<Longrightarrow> f x = g x) \<Longrightarrow> link_chain f p bs \<longleftrightarrow> link_chain g p bs"
  by (induction bs arbitrary: p) auto

lemma sl_free_all_chain:
  "link_chain (sl_lev sk 0) p bs \<Longrightarrow> distinct bs \<Longrightarrow>
   (\<And>b. b \<in> set bs \<Longrightarrow> sl_heap sk b = Some (sl_node sk b) \<and> 0 < sl_height sk b) \<Longrightarrow>
   length bs < fuel \<Longrightarrow>
   \<exists>s'. sl_free_all fuel sk p s =
      Inr (sk\<lparr>sl_heap := (\<lambda>x. if x \<in> set bs then None else sl_heap sk x)\<rparr>, s') \<and>
     s_live s' = s_live s - 4 * int (length bs) \<and> s_alloc s' = s_alloc s"
proof (induction bs arbitrary: p fuel sk s)
  case Nil
  then show ?case by (cases fuel) auto
next
  case (Cons b bs)
  obtain fuel' where f: "fuel = Suc fuel'"
    using Cons.prems(4) by (cases fuel) auto
  let ?sk = "sk\<lparr>sl_heap := (sl_heap sk)(b := None)\<rparr>" and ?s = "snd (sl_release sk b s)"
  have fwd: "get_forward sk b 0 = Inr (sl_lev sk 0 b)" "p = Some b"
    using Cons.prems(1,3) by (auto simp: get_forward_ok)
  have acc: "sl_node ?sk x = sl_node sk x" "sl_heap ?sk x = sl_heap sk x" if "x \<in> set bs" for x
    using that Cons.prems(2) by (auto simp: sl_node_def)
  have step: "sl_free_all fuel sk p s = sl_free_all fuel' ?sk (sl_lev sk 0 b) ?s"
    using fwd f by (simp add: sl_release_def)
  have "link_chain (sl_lev ?sk 0) (sl_lev sk 0 b) bs"
  proof (rule link_chain_cong [THEN iffD1])
    show "link_chain (sl_lev sk 0) (sl_lev sk 0 b) bs"
      using Cons.prems(1) by simp
    show "sl_lev sk 0 x = sl_lev ?sk 0 x" if "x \<in> set bs" for x
      using acc(1) [OF that] by (simp add: sl_lev_def)
  qed
  then have "\<exists>s'. sl_free_all fuel' ?sk (sl_lev sk 0 b) ?s =
      Inr (?sk\<lparr>sl_heap := (\<lambda>x. if x \<in> set bs then None else sl_heap ?sk x)\<rparr>, s') \<and>
     s_live s' = s_live ?s - 4 * int (length bs) \<and> s_alloc s' = s_alloc ?s"
  proof (rule Cons.IH)
    show "sl_heap ?sk x = Some (sl_node ?sk x) \<and> 0 < sl_height ?sk x" if "x \<in> set bs" for x
      using Cons.prems(3) [of x] acc [OF that] that by (simp add: sl_height_def)
  qed (use Cons.prems f in auto)
  moreover have "(\<lambda>x. if x \<in> set bs then None else sl_heap ?sk x) =
      (\<lambda>x. if x \<in> set (b # bs) then None else sl_heap sk x)"
    by auto
  ultimately show ?case
    using step by (auto simp: sl_release_def)
qed

text \<open>Destroying a list gives back every block of every node and leaves the empty heap.\<close>

lemma skiplist_destory_law:
  assumes "skiplist_inv sk"
  shows "\<exists>sk' s'. kvs_skiplist_destory sk s = Inr (sk', s') \<and> header sk' = None \<and> level sk' = 0 \<and>
    sl_heap sk' = (\<lambda>_. None) \<and> s_live s' = s_live s - skiplist_owned sk \<and> s_alloc s' = s_alloc s"
proof -
  obtain h as where rep: "sl_rep sk h as"
    using assms by (auto simp: skiplist_inv_def)
  have h: "sl_heap sk h = Some (sl_node sk h)" "h \<notin> set as"
    using sl_repD(2,3) [OF rep] by auto
  have fwd: "get_forward sk h 0 = Inr (sl_lev sk 0 h)"
    using h sl_repD(6) [OF rep] by (intro get_forward_ok) auto
  let ?sk = "sk\<lparr>sl_heap := (\<lambda>x. if x \<in> set as then None else sl_heap sk x)\<rparr>"
  have "\<exists>s1. sl_free_all (sl_next sk + 1) sk (sl_lev sk 0 h) s = Inr (?sk, s1) \<and>
      s_live s1 = s_live s - 4 * int (length as) \<and> s_alloc s1 = s_alloc s"
  proof (rule sl_free_all_chain)
    show "link_chain (sl_lev sk 0) (sl_lev sk 0 h) as"
      using sl_rep_bottom [OF rep] by (simp add: link_path_chain)
    show "sl_heap sk b = Some (sl_node sk b) \<and> 0 < sl_height sk b" if "b \<in> set as" for b
      using sl_repD(2,7) [OF rep, of b] that by simp
  qed (use sl_repD(3) [OF rep] sl_rep_length [OF rep] in auto)
  then obtain s1 where s1: "sl_free_all (sl_next sk + 1) sk (sl_lev sk 0 h) s = Inr (?sk, s1)"
      "s_live s1 = s_live s - 4 * int (length as)" "s_alloc s1 = s_alloc s"
    by blast
  have "sl_heap sk x = None" if "x \<noteq> h" "x \<notin> set as" for x
    using sl_repD(11) [OF rep, of x] that by auto
  then have "(\<lambda>x. if x \<in> set as then None else sl_heap sk x)(h := None) = (\<lambda>_. None)"
    by (auto simp: fun_eq_iff)
  then show ?thesis
    using fwd s1 h sl_repD(1) [OF rep]
    by (simp add: kvs_skiplist_destory_def sl_read_def sl_release_def skiplist_owned_def skiplist_entries_rep [OF rep]
        del: sl_free_all.simps)
qed

interpretation skip_life: kv_managed skiplist_inv "\<lambda>_. True" skiplist_map skiplist_owned "\<lambda>_. True" skiplist_entries
    kvs_skiplist_set kvs_skiplist_mod kvs_skiplist_del kvs_skiplist_get kvs_skiplist_exist kvs_skiplist_foreach
    "\<lambda>sk. sl_heap sk = (\<lambda>_. None)" kvs_skiplist_create kvs_skiplist_destory
proof (unfold_locales, goal_cases)
  case (1 e s)
  then show ?case using skiplist_create_law [of e s] by auto
next
  case (2 e s)
  then show ?case using skiplist_destory_law [of e s] by auto
qed

end
