(* ===== verification/Rbtree_Engine.thy ===== *)
theory Rbtree_Engine
  imports Engine_Spec
begin

text \<open>
  The red-black tree engine, \<open>src/src/engines/kvs_rbtree.c\<close>.  As in the source the nodes
  live in a heap and hold pointers to their children and their parent, the sentinel
  \<open>nil\<close> is a node of its own whose \<open>parent\<close> field the deletion writes, and both
  rebalancing loops are pointer assignments.  A pointer is an address or NULL.

  The two branches of each rebalancing loop, and the two rotations, are mirror images of
  each other in the source; they are one definition with the side as a parameter.

  Loops carry a bound; a loop that would exceed it is reported as \<open>Diverges\<close>.  A walk
  down or up the tree visits distinct nodes, and the rebalancing loops climb, so the
  number of addresses ever used, with a small constant, is enough.
\<close>

section \<open>Nodes, pointers and fields\<close>

datatype color = RED | BLACK

datatype side = Lft | Rgt

fun other :: "side \<Rightarrow> side" where
  "other Lft = Rgt"
| "other Rgt = Lft"

type_synonym ptr = "nat option"

record rbtree_node =
  rb_color :: color
  rb_left :: ptr
  rb_right :: ptr
  rb_parent :: ptr
  rb_key :: "bytes option"
  rb_value :: "bytes option"

record rbtree =
  rb_root :: ptr
  rb_nil :: ptr
  rb_heap :: "nat \<Rightarrow> rbtree_node option"
  rb_next :: nat

definition rbtree_cleared :: rbtree where
  "rbtree_cleared = \<lparr>rb_root = None, rb_nil = None, rb_heap = (\<lambda>_. None), rb_next = 0\<rparr>"

definition rbtree_node_bytes :: nat where
  "rbtree_node_bytes = 48"

definition deref :: "rbtree \<Rightarrow> ptr \<Rightarrow> rbtree_node run" where
  "deref T p =
     (case p of
        None \<Rightarrow> Inl Null_deref
      | Some a \<Rightarrow> (case rb_heap T a of None \<Rightarrow> Inl Dangling | Some n \<Rightarrow> Inr n))"

text \<open>Reading \<open>p->left\<close> or \<open>p->right\<close>, \<open>p->parent\<close> and \<open>p->color\<close>.\<close>

definition get_child :: "rbtree \<Rightarrow> side \<Rightarrow> ptr \<Rightarrow> ptr run" where
  "get_child T d p = bindr (deref T p) (\<lambda>n. Inr (case d of Lft \<Rightarrow> rb_left n | Rgt \<Rightarrow> rb_right n))"

definition get_parent :: "rbtree \<Rightarrow> ptr \<Rightarrow> ptr run" where
  "get_parent T p = bindr (deref T p) (\<lambda>n. Inr (rb_parent n))"

definition get_color :: "rbtree \<Rightarrow> ptr \<Rightarrow> color run" where
  "get_color T p = bindr (deref T p) (\<lambda>n. Inr (rb_color n))"

text \<open>An assignment to a field of \<open>*p\<close>.\<close>

definition assign :: "rbtree \<Rightarrow> ptr \<Rightarrow> (rbtree_node \<Rightarrow> rbtree_node) \<Rightarrow> rbtree run" where
  "assign T p f = bindr (deref T p) (\<lambda>n. Inr (T\<lparr>rb_heap := (rb_heap T)(the p \<mapsto> f n)\<rparr>))"

definition set_child :: "rbtree \<Rightarrow> side \<Rightarrow> ptr \<Rightarrow> ptr \<Rightarrow> rbtree run" where
  "set_child T d p q = assign T p (\<lambda>n. case d of Lft \<Rightarrow> n\<lparr>rb_left := q\<rparr> | Rgt \<Rightarrow> n\<lparr>rb_right := q\<rparr>)"

definition set_parent :: "rbtree \<Rightarrow> ptr \<Rightarrow> ptr \<Rightarrow> rbtree run" where
  "set_parent T p q = assign T p (\<lambda>n. n\<lparr>rb_parent := q\<rparr>)"

definition set_color :: "rbtree \<Rightarrow> ptr \<Rightarrow> color \<Rightarrow> rbtree run" where
  "set_color T p c = assign T p (\<lambda>n. n\<lparr>rb_color := c\<rparr>)"

definition loop_bound :: "rbtree \<Rightarrow> nat" where
  "loop_bound T = rb_next T + 2"

section \<open>Walking\<close>

fun rbtree_mini_loop :: "nat \<Rightarrow> rbtree \<Rightarrow> ptr \<Rightarrow> ptr run" where
  "rbtree_mini_loop 0 T x = Inl Diverges"
| "rbtree_mini_loop (Suc fuel) T x =
     bindr (get_child T Lft x) (\<lambda>l. if l \<noteq> rb_nil T then rbtree_mini_loop fuel T l else Inr x)"

definition rbtree_mini :: "rbtree \<Rightarrow> ptr \<Rightarrow> ptr run" where
  "rbtree_mini T x = rbtree_mini_loop (loop_bound T) T x"

fun rbtree_climb :: "nat \<Rightarrow> rbtree \<Rightarrow> ptr \<Rightarrow> ptr \<Rightarrow> ptr run" where
  "rbtree_climb 0 T x y = Inl Diverges"
| "rbtree_climb (Suc fuel) T x y =
     (if y = rb_nil T then Inr y
      else bindr (get_child T Rgt y) (\<lambda>r.
        if x = r then bindr (get_parent T y) (\<lambda>p. rbtree_climb fuel T y p) else Inr y))"

definition rbtree_successor :: "rbtree \<Rightarrow> ptr \<Rightarrow> ptr run" where
  "rbtree_successor T x =
     bindr (get_parent T x) (\<lambda>y.
     bindr (get_child T Rgt x) (\<lambda>r.
       if r \<noteq> rb_nil T then rbtree_mini T r else rbtree_climb (loop_bound T) T x y))"

text \<open>\<open>strcmp\<close> on a key that is NULL would read through NULL.\<close>

definition strcmp_ptr :: "bytes option \<Rightarrow> bytes option \<Rightarrow> int run" where
  "strcmp_ptr a b =
     (case (a, b) of (Some a, Some b) \<Rightarrow> Inr (strcmp a b) | _ \<Rightarrow> Inl Null_deref)"

fun rbtree_search_loop :: "nat \<Rightarrow> rbtree \<Rightarrow> bytes \<Rightarrow> ptr \<Rightarrow> ptr run" where
  "rbtree_search_loop 0 T key node = Inl Diverges"
| "rbtree_search_loop (Suc fuel) T key node =
     (if node = rb_nil T then Inr (rb_nil T)
      else bindr (deref T node) (\<lambda>n.
        bindr (strcmp_ptr (Some key) (rb_key n)) (\<lambda>c.
          if c < 0 then rbtree_search_loop fuel T key (rb_left n)
          else if c > 0 then rbtree_search_loop fuel T key (rb_right n)
          else Inr node)))"

definition rbtree_search :: "rbtree \<Rightarrow> bytes \<Rightarrow> ptr run" where
  "rbtree_search T key = rbtree_search_loop (loop_bound T) T key (rb_root T)"

section \<open>Rotations\<close>

text \<open>
  \<open>rbtree_rotate Lft\<close> is \<open>rbtree_left_rotate\<close>, \<open>rbtree_rotate Rgt\<close> is
  \<open>rbtree_right_rotate\<close>.
\<close>

definition rbtree_rotate :: "side \<Rightarrow> rbtree \<Rightarrow> ptr \<Rightarrow> rbtree run" where
  "rbtree_rotate d T x =
     bindr (get_child T (other d) x) (\<lambda>y.
     bindr (get_child T d y) (\<lambda>yl.
     bindr (set_child T (other d) x yl) (\<lambda>T.
     bindr (if yl \<noteq> rb_nil T then set_parent T yl x else Inr T) (\<lambda>T.
     bindr (get_parent T x) (\<lambda>xp.
     bindr (set_parent T y xp) (\<lambda>T.
     bindr (if xp = rb_nil T then Inr (T\<lparr>rb_root := y\<rparr>)
            else bindr (get_child T d xp) (\<lambda>xpl.
              if x = xpl then set_child T d xp y else set_child T (other d) xp y)) (\<lambda>T.
     bindr (set_child T d y x) (\<lambda>T.
     set_parent T x y))))))))"

definition rbtree_left_rotate :: "rbtree \<Rightarrow> ptr \<Rightarrow> rbtree run" where
  "rbtree_left_rotate T x = rbtree_rotate Lft T x"

definition rbtree_right_rotate :: "rbtree \<Rightarrow> ptr \<Rightarrow> rbtree run" where
  "rbtree_right_rotate T y = rbtree_rotate Rgt T y"

section \<open>Insertion\<close>

text \<open>
  One round of the loop of \<open>rbtree_insert_fixup\<close>, with \<open>d\<close> the side of its grandparent
  that \<open>z\<close>'s parent is on: the tree and the \<open>z\<close> of the next round.
\<close>

definition insert_fixup_step :: "side \<Rightarrow> rbtree \<Rightarrow> ptr \<Rightarrow> ptr \<Rightarrow> ptr \<Rightarrow> (rbtree \<times> ptr) run" where
  "insert_fixup_step d T z zp zpp =
     bindr (get_child T (other d) zpp) (\<lambda>y.
     bindr (get_color T y) (\<lambda>yc.
       if yc = RED then
         bindr (set_color T zp BLACK) (\<lambda>T.
         bindr (set_color T y BLACK) (\<lambda>T.
         bindr (set_color T zpp RED) (\<lambda>T. Inr (T, zpp))))
       else
         bindr (get_child T (other d) zp) (\<lambda>zpr.
         bindr (if z = zpr then bindr (rbtree_rotate d T zp) (\<lambda>T. Inr (T, zp)) else Inr (T, z)) (\<lambda>(T, z).
         bindr (get_parent T z) (\<lambda>zp.
         bindr (set_color T zp BLACK) (\<lambda>T.
         bindr (get_parent T zp) (\<lambda>zpp.
         bindr (set_color T zpp RED) (\<lambda>T.
         bindr (rbtree_rotate (other d) T zpp) (\<lambda>T. Inr (T, z)))))))))) "

fun insert_fixup_loop :: "nat \<Rightarrow> rbtree \<Rightarrow> ptr \<Rightarrow> rbtree run" where
  "insert_fixup_loop 0 T z = Inl Diverges"
| "insert_fixup_loop (Suc fuel) T z =
     bindr (get_parent T z) (\<lambda>zp.
     bindr (get_color T zp) (\<lambda>zpc.
       if zpc = RED then
         bindr (get_parent T zp) (\<lambda>zpp.
         bindr (get_child T Lft zpp) (\<lambda>zppl.
         bindr (insert_fixup_step (if zp = zppl then Lft else Rgt) T z zp zpp) (\<lambda>(T, z).
         insert_fixup_loop fuel T z)))
       else Inr T))"

definition rbtree_insert_fixup :: "rbtree \<Rightarrow> ptr \<Rightarrow> rbtree run" where
  "rbtree_insert_fixup T z =
     bindr (insert_fixup_loop (loop_bound T) T z) (\<lambda>T. set_color T (rb_root T) BLACK)"

text \<open>The descent: \<open>None\<close> when the key is met, otherwise the parent of the place found.\<close>

fun insert_descend :: "nat \<Rightarrow> rbtree \<Rightarrow> bytes option \<Rightarrow> ptr \<Rightarrow> ptr \<Rightarrow> ptr option run" where
  "insert_descend 0 T key x y = Inl Diverges"
| "insert_descend (Suc fuel) T key x y =
     (if x = rb_nil T then Inr (Some y)
      else bindr (deref T x) (\<lambda>n.
        bindr (strcmp_ptr key (rb_key n)) (\<lambda>c.
          if c < 0 then insert_descend fuel T key (rb_left n) x
          else if c > 0 then insert_descend fuel T key (rb_right n) x
          else Inr None)))"

definition rbtree_insert :: "rbtree \<Rightarrow> ptr \<Rightarrow> rbtree run" where
  "rbtree_insert T z =
     bindr (deref T z) (\<lambda>zn.
     bindr (insert_descend (loop_bound T) T (rb_key zn) (rb_root T) (rb_nil T)) (\<lambda>place.
       case place of
         None \<Rightarrow> Inr T
       | Some y \<Rightarrow>
           bindr (set_parent T z y) (\<lambda>T.
           bindr (if y = rb_nil T then Inr (T\<lparr>rb_root := z\<rparr>)
                  else bindr (deref T y) (\<lambda>yn.
                    bindr (strcmp_ptr (rb_key zn) (rb_key yn)) (\<lambda>c.
                      if c < 0 then set_child T Lft y z else set_child T Rgt y z))) (\<lambda>T.
           bindr (set_child T Lft z (rb_nil T)) (\<lambda>T.
           bindr (set_child T Rgt z (rb_nil T)) (\<lambda>T.
           bindr (set_color T z RED) (\<lambda>T.
           rbtree_insert_fixup T z)))))))"

section \<open>Deletion\<close>

text \<open>One round of \<open>rbtree_delete_fixup\<close>, with \<open>d\<close> the side of its parent \<open>x\<close> is on.\<close>

definition delete_fixup_step :: "side \<Rightarrow> rbtree \<Rightarrow> ptr \<Rightarrow> (rbtree \<times> ptr) run" where
  "delete_fixup_step d T x =
     bindr (get_parent T x) (\<lambda>xp.
     bindr (get_child T (other d) xp) (\<lambda>w.
     bindr (get_color T w) (\<lambda>wc.
     bindr (if wc = RED then
              bindr (set_color T w BLACK) (\<lambda>T.
              bindr (set_color T xp RED) (\<lambda>T.
              bindr (rbtree_rotate d T xp) (\<lambda>T.
              bindr (get_parent T x) (\<lambda>xp.
              bindr (get_child T (other d) xp) (\<lambda>w. Inr (T, w))))))
            else Inr (T, w)) (\<lambda>(T, w).
     bindr (get_child T Lft w) (\<lambda>wl.
     bindr (get_color T wl) (\<lambda>wlc.
     bindr (if wlc = BLACK then
              bindr (get_child T Rgt w) (\<lambda>wr. bindr (get_color T wr) (\<lambda>wrc. Inr (wrc = BLACK)))
            else Inr False) (\<lambda>both_black.
       if both_black then
         bindr (set_color T w RED) (\<lambda>T.
         bindr (get_parent T x) (\<lambda>xp. Inr (T, xp)))
       else
         bindr (get_child T (other d) w) (\<lambda>wo.
         bindr (get_color T wo) (\<lambda>woc.
         bindr (if woc = BLACK then
                  bindr (get_child T d w) (\<lambda>wi.
                  bindr (set_color T wi BLACK) (\<lambda>T.
                  bindr (set_color T w RED) (\<lambda>T.
                  bindr (rbtree_rotate (other d) T w) (\<lambda>T.
                  bindr (get_parent T x) (\<lambda>xp.
                  bindr (get_child T (other d) xp) (\<lambda>w. Inr (T, w)))))))
                else Inr (T, w)) (\<lambda>(T, w).
         bindr (get_parent T x) (\<lambda>xp.
         bindr (get_color T xp) (\<lambda>xpc.
         bindr (set_color T w xpc) (\<lambda>T.
         bindr (set_color T xp BLACK) (\<lambda>T.
         bindr (get_child T (other d) w) (\<lambda>wo.
         bindr (set_color T wo BLACK) (\<lambda>T.
         bindr (rbtree_rotate d T xp) (\<lambda>T. Inr (T, rb_root T))))))))))))))))))"

fun delete_fixup_loop :: "nat \<Rightarrow> rbtree \<Rightarrow> ptr \<Rightarrow> (rbtree \<times> ptr) run" where
  "delete_fixup_loop 0 T x = Inl Diverges"
| "delete_fixup_loop (Suc fuel) T x =
     (if x = rb_root T then Inr (T, x)
      else bindr (get_color T x) (\<lambda>xc.
        if xc = BLACK then
          bindr (get_parent T x) (\<lambda>xp.
          bindr (get_child T Lft xp) (\<lambda>xpl.
          bindr (delete_fixup_step (if x = xpl then Lft else Rgt) T x) (\<lambda>(T, x).
          delete_fixup_loop fuel T x)))
        else Inr (T, x)))"

definition rbtree_delete_fixup :: "rbtree \<Rightarrow> ptr \<Rightarrow> rbtree run" where
  "rbtree_delete_fixup T x =
     bindr (delete_fixup_loop (loop_bound T) T x) (\<lambda>(T, x). set_color T x BLACK)"

text \<open>The node taken out of the tree, which need not be the one that held the key.\<close>

definition rbtree_delete :: "rbtree \<Rightarrow> ptr \<Rightarrow> (ptr \<times> rbtree) run" where
  "rbtree_delete T z =
     bindr (get_child T Lft z) (\<lambda>zl.
     bindr (get_child T Rgt z) (\<lambda>zr.
     bindr (if zl = rb_nil T \<or> zr = rb_nil T then Inr z else rbtree_successor T z) (\<lambda>y.
     bindr (get_child T Lft y) (\<lambda>yl.
     bindr (get_child T Rgt y) (\<lambda>yr.
     let x = (if yl \<noteq> rb_nil T then yl else if yr \<noteq> rb_nil T then yr else rb_nil T) in
     bindr (get_parent T y) (\<lambda>yp.
     bindr (set_parent T x yp) (\<lambda>T.
     bindr (if yp = rb_nil T then Inr (T\<lparr>rb_root := x\<rparr>)
            else bindr (get_child T Lft yp) (\<lambda>ypl.
              if y = ypl then set_child T Lft yp x else set_child T Rgt yp x)) (\<lambda>T.
     bindr (if y \<noteq> z then
              bindr (deref T z) (\<lambda>zn.
              bindr (deref T y) (\<lambda>yn.
              bindr (assign T z (\<lambda>n. n\<lparr>rb_key := rb_key yn, rb_value := rb_value yn\<rparr>)) (\<lambda>T.
              assign T y (\<lambda>n. n\<lparr>rb_key := rb_key zn, rb_value := rb_value zn\<rparr>))))
            else Inr T) (\<lambda>T.
     bindr (get_color T y) (\<lambda>yc.
     bindr (if yc = BLACK then rbtree_delete_fixup T x else Inr T) (\<lambda>T.
     Inr (y, T))))))))))))"

section \<open>The engine\<close>

definition rbtree_node_free :: "rbtree \<Rightarrow> ptr \<Rightarrow> sys \<Rightarrow> (rbtree \<times> sys) run" where
  "rbtree_node_free T p s =
     (case p of
        None \<Rightarrow> Inr (T, s)
      | Some a \<Rightarrow>
          bindr (deref T p) (\<lambda>n.
            Inr (T\<lparr>rb_heap := (rb_heap T)(a := None)\<rparr>,
                 kvs_free (kvs_free_opt (rb_value n) (kvs_free_opt (rb_key n) s)))))"

definition kvs_rbtree_create :: "rbtree \<Rightarrow> sys \<Rightarrow> int \<times> rbtree \<times> sys" where
  "kvs_rbtree_create T s =
     (case kvs_malloc rbtree_node_bytes s of
        (False, s) \<Rightarrow> (-1, T\<lparr>rb_nil := None, rb_root := None\<rparr>, s)
      | (True, s) \<Rightarrow>
          let a = rb_next T;
              n = \<lparr>rb_color = BLACK, rb_left = Some a, rb_right = Some a, rb_parent = Some a,
                   rb_key = None, rb_value = None\<rparr>
          in (0, T\<lparr>rb_nil := Some a, rb_root := Some a, rb_heap := (rb_heap T)(a \<mapsto> n), rb_next := a + 1\<rparr>, s))"

fun rbtree_destroy_loop :: "nat \<Rightarrow> rbtree \<Rightarrow> sys \<Rightarrow> (rbtree \<times> sys) run" where
  "rbtree_destroy_loop 0 T s = Inl Diverges"
| "rbtree_destroy_loop (Suc fuel) T s =
     (if rb_root T = rb_nil T then Inr (T, s)
      else
        bindr (rbtree_mini T (rb_root T)) (\<lambda>mini.
        bindr (rbtree_delete T mini) (\<lambda>(removed, T).
        bindr (rbtree_node_free T removed s) (\<lambda>(T, s).
        rbtree_destroy_loop fuel T s))))"

definition kvs_rbtree_destory :: "rbtree \<Rightarrow> sys \<Rightarrow> (rbtree \<times> sys) run" where
  "kvs_rbtree_destory T s =
     (case rb_nil T of
        None \<Rightarrow> Inr (T, s)
      | Some a \<Rightarrow>
          bindr (rbtree_destroy_loop (loop_bound T) T s) (\<lambda>(T, s).
          Inr (T\<lparr>rb_heap := (rb_heap T)(a := None), rb_nil := None, rb_root := None\<rparr>, kvs_free s)))"

text \<open>The new value is copied before the old one is freed, in \<open>set\<close> and in \<open>mod\<close>.\<close>

definition rbtree_replace_value :: "rbtree \<Rightarrow> ptr \<Rightarrow> bytes \<Rightarrow> sys \<Rightarrow> (int \<times> rbtree \<times> sys) run" where
  "rbtree_replace_value T p v s =
     (case kvs_malloc (length v + 1) s of
        (False, s) \<Rightarrow> Inr (-2, T, s)
      | (True, s) \<Rightarrow>
          bindr (deref T p) (\<lambda>n.
          bindr (assign T p (\<lambda>n. n\<lparr>rb_value := Some v\<rparr>)) (\<lambda>T.
          Inr (0, T, kvs_free_opt (rb_value n) s))))"

text \<open>
  A node fresh from \<open>kvs_malloc\<close> has its links and its color set by
  \<open>rbtree_insert\<close> before anything reads them; until then they are NULL and \<open>BLACK\<close> here.
\<close>

definition rbtree_new_node :: "rbtree \<Rightarrow> bytes \<Rightarrow> bytes \<Rightarrow> rbtree" where
  "rbtree_new_node T key val =
     T\<lparr>rb_heap := (rb_heap T)(rb_next T \<mapsto>
         \<lparr>rb_color = BLACK, rb_left = None, rb_right = None, rb_parent = None,
          rb_key = Some key, rb_value = Some val\<rparr>),
       rb_next := rb_next T + 1\<rparr>"

definition kvs_rbtree_set :: "rbtree store" where
  "kvs_rbtree_set T key val s =
     (case (key, val) of
        (Some key, Some val) \<Rightarrow>
          bindr (rbtree_search T key) (\<lambda>existing.
            if existing \<noteq> rb_nil T then rbtree_replace_value T existing val s
            else case kvs_malloc rbtree_node_bytes s of
              (False, s) \<Rightarrow> Inr (-2, T, s)
            | (True, s) \<Rightarrow>
                (case kvs_malloc (length key + 1) s of
                   (False, s) \<Rightarrow> Inr (-2, T, kvs_free s)
                 | (True, s) \<Rightarrow>
                     (case kvs_malloc (length val + 1) s of
                        (False, s) \<Rightarrow> Inr (-2, T, kvs_free (kvs_free s))
                      | (True, s) \<Rightarrow>
                          bindr (rbtree_insert (rbtree_new_node T key val) (Some (rb_next T)))
                            (\<lambda>T. Inr (0, T, s)))))
      | _ \<Rightarrow> Inr (-1, T, s))"

definition kvs_rbtree_get :: "rbtree \<Rightarrow> bytes option \<Rightarrow> bytes option run" where
  "kvs_rbtree_get T key =
     (case key of
        None \<Rightarrow> Inr None
      | Some key \<Rightarrow> bindr (rbtree_search T key) (\<lambda>node. bindr (deref T node) (\<lambda>n. Inr (rb_value n))))"

definition kvs_rbtree_del :: "rbtree modify" where
  "kvs_rbtree_del T key s =
     (case key of
        None \<Rightarrow> Inr (-1, T, s)
      | Some key \<Rightarrow>
          bindr (rbtree_search T key) (\<lambda>node.
            if node = rb_nil T then Inr (1, T, s)
            else bindr (rbtree_delete T node) (\<lambda>(cur, T).
              bindr (rbtree_node_free T cur s) (\<lambda>(T, s). Inr (0, T, s)))))"

definition kvs_rbtree_mod :: "rbtree store" where
  "kvs_rbtree_mod T key val s =
     (case (key, val) of
        (Some key, Some val) \<Rightarrow>
          bindr (rbtree_search T key) (\<lambda>node.
            if node = rb_nil T then Inr (1, T, s) else rbtree_replace_value T node val s)
      | _ \<Rightarrow> Inr (-1, T, s))"

definition kvs_rbtree_exist :: "rbtree \<Rightarrow> bytes option \<Rightarrow> int run" where
  "kvs_rbtree_exist T key =
     (case key of
        None \<Rightarrow> Inr (-1)
      | Some key \<Rightarrow> bindr (rbtree_search T key) (\<lambda>node. Inr (if node = rb_nil T then 1 else 0)))"

text \<open>The in-order walk; its bound is on the depth of the recursion.\<close>

fun kvs_rbtree_foreach_node ::
    "nat \<Rightarrow> rbtree \<Rightarrow> ptr \<Rightarrow> (bytes \<Rightarrow> bytes \<Rightarrow> 'c \<Rightarrow> (int \<times> 'c) run) \<Rightarrow> 'c \<Rightarrow> (int \<times> 'c) run" where
  "kvs_rbtree_foreach_node 0 T node visitor c = Inl Diverges"
| "kvs_rbtree_foreach_node (Suc fuel) T node visitor c =
     (if node = None then Inr (-1, c)
      else if node = rb_nil T then Inr (0, c)
      else bindr (deref T node) (\<lambda>n.
        bindr (kvs_rbtree_foreach_node fuel T (rb_left n) visitor c) (\<lambda>(ret, c).
          if ret < 0 then Inr (-1, c)
          else bindr (case (rb_key n, rb_value n) of
                   (Some k, Some v) \<Rightarrow> visitor k v c
                 | _ \<Rightarrow> Inr (0, c)) (\<lambda>(ret, c).
            if ret < 0 then Inr (-1, c)
            else bindr (kvs_rbtree_foreach_node fuel T (rb_right n) visitor c) (\<lambda>(ret, c).
              Inr (if ret < 0 then -1 else 0, c))))))"

definition kvs_rbtree_foreach ::
    "rbtree \<Rightarrow> (bytes \<Rightarrow> bytes \<Rightarrow> 'c \<Rightarrow> (int \<times> 'c) run) \<Rightarrow> 'c \<Rightarrow> (int \<times> 'c) run" where
  "kvs_rbtree_foreach T visitor c =
     (if rb_root T = None \<or> rb_nil T = None then Inr (-1, c)
      else kvs_rbtree_foreach_node (loop_bound T) T (rb_root T) visitor c)"

section \<open>The tree in the heap\<close>

text \<open>The shape of a tree, with the address of each node.\<close>

datatype shape = Leaf | Node shape nat shape

fun nodes_of :: "shape \<Rightarrow> nat list" where
  "nodes_of Leaf = []"
| "nodes_of (Node l a r) = nodes_of l @ a # nodes_of r"

fun depth :: "shape \<Rightarrow> nat" where
  "depth Leaf = 0"
| "depth (Node l a r) = Suc (max (depth l) (depth r))"

lemma depth_le: "depth t \<le> length (nodes_of t)"
  by (induction t) auto

definition rb_node :: "rbtree \<Rightarrow> nat \<Rightarrow> rbtree_node" where
  "rb_node T a = the (rb_heap T a)"

definition key_at :: "rbtree \<Rightarrow> nat \<Rightarrow> bytes" where
  "key_at T a = the (rb_key (rb_node T a))"

definition val_at :: "rbtree \<Rightarrow> nat \<Rightarrow> bytes" where
  "val_at T a = the (rb_value (rb_node T a))"

text \<open>\<open>tree_at T p t\<close>: the child pointers from \<open>p\<close> on have the shape \<open>t\<close>.\<close>

fun tree_at :: "rbtree \<Rightarrow> ptr \<Rightarrow> shape \<Rightarrow> bool" where
  "tree_at T p Leaf \<longleftrightarrow> p = rb_nil T"
| "tree_at T p (Node l a r) \<longleftrightarrow>
     p = Some a \<and> p \<noteq> rb_nil T \<and> rb_heap T a = Some (rb_node T a) \<and>
     rb_key (rb_node T a) \<noteq> None \<and> rb_value (rb_node T a) \<noteq> None \<and>
     tree_at T (rb_left (rb_node T a)) l \<and> tree_at T (rb_right (rb_node T a)) r"

text \<open>
  A search tree: the sentinel exists and holds nothing, the nodes are distinct, and an
  in-order walk meets the keys in strictly ascending order.
\<close>

definition search_tree :: "rbtree \<Rightarrow> shape \<Rightarrow> bool" where
  "search_tree T t \<longleftrightarrow>
     (\<exists>a n. rb_nil T = Some a \<and> rb_heap T a = Some n \<and> rb_key n = None \<and> rb_value n = None) \<and>
     tree_at T (rb_root T) t \<and> distinct (nodes_of t) \<and> (\<forall>a \<in> set (nodes_of t). a < rb_next T) \<and>
     sorted_wrt (<) (map (key_at T) (nodes_of t))"

definition entry_at :: "rbtree \<Rightarrow> nat \<Rightarrow> bytes \<times> bytes" where
  "entry_at T a = (key_at T a, val_at T a)"

text \<open>The bindings, by the in-order walk.\<close>

fun rb_walk :: "nat \<Rightarrow> rbtree \<Rightarrow> ptr \<Rightarrow> (bytes \<times> bytes) list" where
  "rb_walk 0 T p = []"
| "rb_walk (Suc fuel) T p =
     (case p of
        None \<Rightarrow> []
      | Some a \<Rightarrow>
          if p = rb_nil T then []
          else rb_walk fuel T (rb_left (rb_node T a)) @ entry_at T a # rb_walk fuel T (rb_right (rb_node T a)))"

definition rbtree_entries :: "rbtree \<Rightarrow> (bytes \<times> bytes) list" where
  "rbtree_entries T = rb_walk (loop_bound T) T (rb_root T)"

definition rbtree_map :: "rbtree \<Rightarrow> bytes \<rightharpoonup> bytes" where
  "rbtree_map T = map_of (rbtree_entries T)"

lemma rb_walk_tree:
  "tree_at T p t \<Longrightarrow> depth t < fuel \<Longrightarrow> rb_walk fuel T p = map (entry_at T) (nodes_of t)"
proof (induction t arbitrary: p fuel)
  case Leaf
  then show ?case by (cases fuel) (auto split: option.split)
next
  case (Node l a r)
  obtain fuel' where "fuel = Suc fuel'"
    using Node.prems(2) by (cases fuel) auto
  then show ?case
    using Node by auto
qed

lemma search_tree_depth:
  assumes "search_tree T t" shows "depth t < loop_bound T"
proof -
  have "card (set (nodes_of t)) \<le> rb_next T"
    using assms unfolding search_tree_def by (metis card_lessThan card_mono finite_lessThan lessThan_iff subsetI)
  then show ?thesis
    using assms depth_le [of t] by (simp add: search_tree_def distinct_card loop_bound_def)
qed

lemma rbtree_entries_tree: "search_tree T t \<Longrightarrow> rbtree_entries T = map (entry_at T) (nodes_of t)"
  using rb_walk_tree [of T "rb_root T" t] search_tree_depth [of T t]
  by (simp add: rbtree_entries_def search_tree_def)

lemma rbtree_keys_distinct: "search_tree T t \<Longrightarrow> distinct (map fst (rbtree_entries T))"
  using strict_sorted_iff [of "map (key_at T) (nodes_of t)"] rbtree_entries_tree [of T t]
  by (simp add: entry_at_def comp_def search_tree_def)

lemma rbtree_map_tree:
  assumes "search_tree T t"
  shows "a \<in> set (nodes_of t) \<Longrightarrow> rbtree_map T (key_at T a) = Some (val_at T a)"
    "k \<notin> key_at T ` set (nodes_of t) \<Longrightarrow> rbtree_map T k = None"
proof -
  assume "a \<in> set (nodes_of t)"
  then have "(key_at T a, val_at T a) \<in> set (rbtree_entries T)"
    by (auto simp: rbtree_entries_tree [OF assms] entry_at_def)
  then show "rbtree_map T (key_at T a) = Some (val_at T a)"
    using rbtree_keys_distinct [OF assms] by (simp add: rbtree_map_def)
next
  assume "k \<notin> key_at T ` set (nodes_of t)"
  then show "rbtree_map T k = None"
    by (auto simp: rbtree_map_def map_of_eq_None_iff rbtree_entries_tree [OF assms] entry_at_def)
qed

section \<open>Reading\<close>

lemma search_loop_tree:
  "tree_at T p t \<Longrightarrow> sorted_wrt (<) (map (key_at T) (nodes_of t)) \<Longrightarrow> depth t < fuel \<Longrightarrow>
   \<exists>q. rbtree_search_loop fuel T k p = Inr q \<and>
     (q = rb_nil T \<and> k \<notin> key_at T ` set (nodes_of t) \<or>
      (\<exists>a \<in> set (nodes_of t). q = Some a \<and> q \<noteq> rb_nil T \<and> key_at T a = k))"
proof (induction t arbitrary: p fuel)
  case Leaf
  then show ?case by (cases fuel) auto
next
  case (Node l a r)
  obtain fuel' where fuel: "fuel = Suc fuel'"
    using Node.prems(3) by (cases fuel) auto
  let ?n = "rb_node T a"
  have p: "p = Some a" "p \<noteq> rb_nil T" and n: "deref T p = Inr ?n" "rb_key ?n = Some (key_at T a)"
    using Node.prems(1) by (auto simp: deref_def key_at_def)
  have less: "\<forall>b \<in> set (nodes_of l). key_at T b < key_at T a" "\<forall>b \<in> set (nodes_of r). key_at T a < key_at T b"
    and sorted: "sorted_wrt (<) (map (key_at T) (nodes_of l))" "sorted_wrt (<) (map (key_at T) (nodes_of r))"
    using Node.prems(2) by (auto simp: sorted_wrt_append)
  have step: "rbtree_search_loop fuel T k p =
      (if k < key_at T a then rbtree_search_loop fuel' T k (rb_left ?n)
       else if key_at T a < k then rbtree_search_loop fuel' T k (rb_right ?n) else Inr p)"
    using fuel p(2) n by (simp add: strcmp_ptr_def)
  consider "k < key_at T a" | "key_at T a < k" | "k = key_at T a"
    by fastforce
  then show ?case
  proof cases
    case 1
    obtain q where "rbtree_search_loop fuel' T k (rb_left ?n) = Inr q"
        "q = rb_nil T \<and> k \<notin> key_at T ` set (nodes_of l) \<or>
         (\<exists>b \<in> set (nodes_of l). q = Some b \<and> q \<noteq> rb_nil T \<and> key_at T b = k)"
      using Node.IH(1) [of "rb_left ?n" fuel'] Node.prems fuel sorted by auto
    then show ?thesis
      using step 1 less(2) by fastforce
  next
    case 2
    obtain q where "rbtree_search_loop fuel' T k (rb_right ?n) = Inr q"
        "q = rb_nil T \<and> k \<notin> key_at T ` set (nodes_of r) \<or>
         (\<exists>b \<in> set (nodes_of r). q = Some b \<and> q \<noteq> rb_nil T \<and> key_at T b = k)"
      using Node.IH(2) [of "rb_right ?n" fuel'] Node.prems fuel sorted by auto
    then show ?thesis
      using step 2 less(1) by fastforce
  next
    case 3
    then show ?thesis
      using step p by auto
  qed
qed

lemma tree_at_key: "tree_at T p t \<Longrightarrow> a \<in> set (nodes_of t) \<Longrightarrow> rb_key (rb_node T a) = Some (key_at T a)"
  by (induction t arbitrary: p) (auto simp: key_at_def)

lemma tree_at_node:
  "tree_at T p t \<Longrightarrow> a \<in> set (nodes_of t) \<Longrightarrow>
   rb_heap T a = Some (rb_node T a) \<and> rb_value (rb_node T a) = Some (val_at T a) \<and> Some a \<noteq> rb_nil T"
  by (induction t arbitrary: p) (auto simp: val_at_def)

lemma rbtree_search_cases:
  assumes "search_tree T t"
  obtains (found) a where "a \<in> set (nodes_of t)" "rbtree_search T k = Inr (Some a)" "Some a \<noteq> rb_nil T"
      "key_at T a = k" "deref T (Some a) = Inr (rb_node T a)" "rb_value (rb_node T a) = Some (val_at T a)"
  | (missing) n where "rbtree_search T k = Inr (rb_nil T)" "rbtree_map T k = None" "deref T (rb_nil T) = Inr n"
      "rb_value n = None"
proof -
  have tree: "tree_at T (rb_root T) t" "sorted_wrt (<) (map (key_at T) (nodes_of t))"
    using assms by (simp_all add: search_tree_def)
  obtain q where q: "rbtree_search T k = Inr q"
      "q = rb_nil T \<and> k \<notin> key_at T ` set (nodes_of t) \<or>
       (\<exists>a \<in> set (nodes_of t). q = Some a \<and> q \<noteq> rb_nil T \<and> key_at T a = k)"
    using search_loop_tree [OF tree search_tree_depth [OF assms], of k] unfolding rbtree_search_def by blast
  from q(2) show thesis
  proof
    assume nil: "q = rb_nil T \<and> k \<notin> key_at T ` set (nodes_of t)"
    obtain n where "deref T (rb_nil T) = Inr n" "rb_value n = None"
      using assms by (auto simp: search_tree_def deref_def)
    then show thesis
      using missing q(1) nil rbtree_map_tree(2) [OF assms] by blast
  next
    assume "\<exists>a \<in> set (nodes_of t). q = Some a \<and> q \<noteq> rb_nil T \<and> key_at T a = k"
    then obtain a where a: "a \<in> set (nodes_of t)" "q = Some a" "q \<noteq> rb_nil T" "key_at T a = k"
      by blast
    then show thesis
      using found [of a] q(1) tree_at_node [OF tree(1) a(1)] by (simp add: deref_def)
  qed
qed

lemma rbtree_get_law:
  assumes "search_tree T t"
  shows "kvs_rbtree_get T (Some k) = Inr (rbtree_map T k)"
  using assms
proof (cases rule: rbtree_search_cases [where k = k])
  case (found a)
  then show ?thesis
    using rbtree_map_tree(1) [OF assms found(1)] by (simp add: kvs_rbtree_get_def)
next
  case (missing n)
  then show ?thesis
    by (simp add: kvs_rbtree_get_def)
qed

lemma rbtree_exist_law:
  assumes "search_tree T t"
  shows "kvs_rbtree_exist T (Some k) = Inr (if rbtree_map T k = None then 1 else 0)"
  using assms
proof (cases rule: rbtree_search_cases [where k = k])
  case (found a)
  then show ?thesis
    using rbtree_map_tree(1) [OF assms found(1)] by (auto simp: kvs_rbtree_exist_def)
next
  case (missing n)
  then show ?thesis
    by (simp add: kvs_rbtree_exist_def)
qed

lemma foreach_node_tree:
  "tree_at T p t \<Longrightarrow> rb_nil T \<noteq> None \<Longrightarrow> depth t < fuel \<Longrightarrow>
   kvs_rbtree_foreach_node fuel T p f c = visit_all f (map (entry_at T) (nodes_of t)) c"
proof (induction t arbitrary: p fuel c)
  case Leaf
  then show ?case by (cases fuel) auto
next
  case (Node l a r)
  obtain fuel' where fuel: "fuel = Suc fuel'"
    using Node.prems(3) by (cases fuel) auto
  let ?n = "rb_node T a"
  have n: "p = Some a" "p \<noteq> rb_nil T" "deref T p = Inr ?n" "rb_key ?n = Some (key_at T a)"
      "rb_value ?n = Some (val_at T a)"
    using Node.prems(1) by (auto simp: deref_def key_at_def val_at_def)
  have l: "kvs_rbtree_foreach_node fuel' T (rb_left ?n) f c' = visit_all f (map (entry_at T) (nodes_of l)) c'"
    and r: "kvs_rbtree_foreach_node fuel' T (rb_right ?n) f c' = visit_all f (map (entry_at T) (nodes_of r)) c'" for c'
    using Node.IH(1) [of "rb_left ?n" fuel' c'] Node.IH(2) [of "rb_right ?n" fuel' c'] Node.prems fuel by auto
  have "kvs_rbtree_foreach_node fuel T p f c =
      bindr (visit_all f (map (entry_at T) (nodes_of l)) c) (\<lambda>(ret, c).
        if ret < 0 then Inr (-1, c)
        else bindr (f (key_at T a) (val_at T a) c) (\<lambda>(ret, c).
          if ret < 0 then Inr (-1, c) else visit_all f (map (entry_at T) (nodes_of r)) c))"
    using fuel n(1,2,3) by (simp add: n(4,5) l r visit_all_norm cong: if_cong)
  also have "\<dots> = visit_all f (map (entry_at T) (nodes_of l) @ entry_at T a # map (entry_at T) (nodes_of r)) c"
    unfolding visit_all_append
    by (rule bindr_cong [OF refl])
       (use visit_all_codes [of f "map (entry_at T) (nodes_of l)" c] in \<open>force simp: entry_at_def split: prod.split\<close>)
  finally show ?case by simp
qed

lemma rbtree_foreach_law:
  assumes "search_tree T t"
  shows "kvs_rbtree_foreach T f c = visit_all f (rbtree_entries T) c"
proof -
  have tree: "tree_at T (rb_root T) t" and nil: "rb_nil T \<noteq> None"
    using assms by (auto simp: search_tree_def)
  then have "rb_root T \<noteq> None"
    by (cases t) auto
  then show ?thesis
    using foreach_node_tree [OF tree nil search_tree_depth [OF assms]] nil
    by (auto simp: kvs_rbtree_foreach_def rbtree_entries_tree [OF assms])
qed

section \<open>Changing a value\<close>

lemma tree_at_cong:
  "tree_at T p t \<Longrightarrow> rb_nil T' = rb_nil T \<Longrightarrow>
   (\<And>a. a \<in> set (nodes_of t) \<Longrightarrow> rb_heap T' a \<noteq> None \<and> rb_left (rb_node T' a) = rb_left (rb_node T a) \<and>
      rb_right (rb_node T' a) = rb_right (rb_node T a) \<and> rb_key (rb_node T' a) \<noteq> None \<and> rb_value (rb_node T' a) \<noteq> None) \<Longrightarrow>
   tree_at T' p t"
proof (induction t arbitrary: p)
  case Leaf
  then show ?case by simp
next
  case (Node l a r)
  have "rb_heap T' a = Some (rb_node T' a)"
    using Node.prems(3) [of a] by (auto simp: rb_node_def)
  then show ?case
    using Node by auto
qed

lemma rbtree_set_value:
  assumes tree: "search_tree T t" and a: "a \<in> set (nodes_of t)"
  shows "\<exists>T'. assign T (Some a) (\<lambda>n. n\<lparr>rb_value := Some v\<rparr>) = Inr T' \<and> search_tree T' t \<and>
    rbtree_map T' = (rbtree_map T)(key_at T a \<mapsto> v) \<and> length (rbtree_entries T') = length (rbtree_entries T)"
proof -
  have root: "tree_at T (rb_root T) t"
    using tree by (simp add: search_tree_def)
  note a_node = tree_at_node [OF root a]
  let ?T = "T\<lparr>rb_heap := (rb_heap T)(a \<mapsto> (rb_node T a)\<lparr>rb_value := Some v\<rparr>)\<rparr>"
  have as: "assign T (Some a) (\<lambda>n. n\<lparr>rb_value := Some v\<rparr>) = Inr ?T"
    using a_node by (simp add: assign_def deref_def)
  have node: "rb_node ?T b = (if b = a then (rb_node T a)\<lparr>rb_value := Some v\<rparr> else rb_node T b)" for b
    by (simp add: rb_node_def)
  have keys: "key_at ?T b = key_at T b" for b
    by (simp add: key_at_def node)
  have vals: "val_at ?T b = (if b = a then v else val_at T b)" for b
    by (simp add: val_at_def node)
  have "tree_at ?T (rb_root T) t"
  proof (rule tree_at_cong [OF root])
    fix b assume b: "b \<in> set (nodes_of t)"
    show "rb_heap ?T b \<noteq> None \<and> rb_left (rb_node ?T b) = rb_left (rb_node T b) \<and>
        rb_right (rb_node ?T b) = rb_right (rb_node T b) \<and> rb_key (rb_node ?T b) \<noteq> None \<and> rb_value (rb_node ?T b) \<noteq> None"
      using tree_at_node [OF root b] tree_at_key [OF root b] by (auto simp: node)
  qed simp
  moreover have "key_at ?T = key_at T"
    by (rule ext) (rule keys)
  ultimately have tree': "search_tree ?T t"
    using tree a_node by (auto simp: search_tree_def)
  have "rbtree_map ?T k = ((rbtree_map T)(key_at T a \<mapsto> v)) k" for k
  proof (cases "k \<in> key_at T ` set (nodes_of t)")
    case True
    then obtain b where b: "b \<in> set (nodes_of t)" "k = key_at T b" by auto
    have "distinct (map (key_at T) (nodes_of t))"
      using tree strict_sorted_iff [of "map (key_at T) (nodes_of t)"] by (simp add: search_tree_def)
    then have "key_at T b = key_at T a \<Longrightarrow> b = a"
      using a b by (auto simp: distinct_map dest: inj_onD)
    then show ?thesis
      using rbtree_map_tree(1) [OF tree' b(1)] rbtree_map_tree(1) [OF tree b(1)] b(2) by (auto simp: keys vals)
  next
    case False
    then show ?thesis
      using rbtree_map_tree(2) [OF tree', of k] rbtree_map_tree(2) [OF tree, of k] a by (auto simp: keys)
  qed
  then show ?thesis
    using as tree' by (auto simp: rbtree_entries_tree [OF tree] rbtree_entries_tree [OF tree'])
qed

end
