(* ===== verification/Uring_Io.thy ===== *)
theory Uring_Io
  imports Kvs_Prelude
begin

text \<open>
  Batched writes and syncs through io_uring, \<open>src/src/persistence/uring_io.c\<close>.  The queue
  itself belongs to liburing and the kernel: here it is the list of requests prepared and
  not submitted, and the list of those submitted and not yet completed.  The kernel's
  answers (how many requests a submission took, which request completes next and with
  what result) are parameters; its documented behaviour is built in: a submission takes at
  most what is queued, a completed write has put the reported number of bytes, at most the
  number requested, into the file, a sync reports \<open>0\<close> or an error, and nothing else changes
  the file.

  The file is its contents.  The main result is that a batch that returns \<open>0\<close> has
  written every byte of every block, however the kernel cut and reordered the work.
\<close>

section \<open>Files and the queue\<close>

definition KVS_URING_QUEUE_DEPTH :: nat where
  "KVS_URING_QUEUE_DEPTH = 8"

definition EINTR :: int where "EINTR = 4"
definition ENOENT :: int where "ENOENT = 2"

definition OFF_MAX :: nat where
  "OFF_MAX = 9223372036854775807"

text \<open>A write at a position; a hole before it reads as NUL bytes.\<close>

definition write_at :: "bytes \<Rightarrow> nat \<Rightarrow> bytes \<Rightarrow> bytes" where
  "write_at f pos d =
     (if d = [] then f
      else take pos (f @ replicate (pos - length f) NUL) @ d @ drop (pos + length d) f)"

datatype sqe = Sqe_write nat bytes nat | Sqe_fsync nat

record kvs_uring_io_t =
  io_initialized :: bool
  io_sq :: "sqe list"
  io_inflight :: "sqe list"

definition io_cleared :: kvs_uring_io_t where
  "io_cleared = \<lparr>io_initialized = False, io_sq = [], io_inflight = []\<rparr>"

record kvs_uring_write_t =
  uw_data :: bytes
  uw_offset :: nat

record uring_write_progress_t =
  completed_bytes :: nat
  requested_bytes :: nat

text \<open>\<open>io_uring_get_sqe\<close> and filling the entry in: refused when the queue is full.\<close>

definition push_sqe :: "kvs_uring_io_t \<Rightarrow> sqe \<Rightarrow> kvs_uring_io_t option" where
  "push_sqe io q =
     (if length (io_sq io) < KVS_URING_QUEUE_DEPTH then Some (io\<lparr>io_sq := io_sq io @ [q]\<rparr>) else None)"

text \<open>\<open>io_uring_submit\<close>: an error, or the number of requests taken.\<close>

definition io_uring_submit :: "kvs_uring_io_t \<Rightarrow> sys \<Rightarrow> int \<times> kvs_uring_io_t \<times> sys" where
  "io_uring_submit io s =
     (let (r, s) = os_int s
      in if r < 0 then (r, io, s)
         else let n = min (nat r) (length (io_sq io))
              in (int n, io\<lparr>io_sq := drop n (io_sq io), io_inflight := io_inflight io @ take n (io_sq io)\<rparr>, s))"

text \<open>
  \<open>io_uring_wait_cqe\<close>: an error, or one of the requests in flight completes with some
  result.  With nothing in flight it would wait for ever.
\<close>

datatype cqe = Cqe nat int

fun complete_sqe :: "sqe \<Rightarrow> int \<Rightarrow> bytes \<Rightarrow> cqe \<times> bytes" where
  "complete_sqe (Sqe_write ud d pos) r f =
     (let r = min r (int (length d)) in (Cqe ud r, write_at f pos (take (nat r) d)))"
| "complete_sqe (Sqe_fsync ud) r f = (Cqe ud (min r 0), f)"

definition io_uring_wait_cqe ::
    "kvs_uring_io_t \<Rightarrow> bytes \<Rightarrow> sys \<Rightarrow> ((int + cqe) \<times> kvs_uring_io_t \<times> bytes \<times> sys) run" where
  "io_uring_wait_cqe io f s =
     (let (r, s) = os_int s
      in if r < 0 then Inr (Inl r, io, f, s)
         else if io_inflight io = [] then Inl Diverges
         else let (which, s) = os_int s;
                  (res, s) = os_int s;
                  i = nat which mod length (io_inflight io);
                  (c, f) = complete_sqe (io_inflight io ! i) res f
              in Inr (Inr c, io\<lparr>io_inflight := take i (io_inflight io) @ drop (Suc i) (io_inflight io)\<rparr>, f, s))"

section \<open>The operations\<close>

definition kvs_uring_io_init :: "kvs_uring_io_t \<Rightarrow> sys \<Rightarrow> int \<times> kvs_uring_io_t \<times> sys" where
  "kvs_uring_io_init io s =
     (if io_initialized io then (-1, io, s)
      else let (ok, s) = os_call s
           in if ok then (0, \<lparr>io_initialized = True, io_sq = [], io_inflight = []\<rparr>, s) else (-1, io, s))"

definition kvs_uring_io_close :: "kvs_uring_io_t \<Rightarrow> kvs_uring_io_t" where
  "kvs_uring_io_close io = (if io_initialized io then io_cleared else io)"

text \<open>
  Preparing the blocks from number \<open>i\<close> on: whether every request found a place, the
  number prepared, the progress and the queue.
\<close>

fun uring_prepare_writes ::
    "kvs_uring_io_t \<Rightarrow> nat \<Rightarrow> kvs_uring_write_t list \<Rightarrow> uring_write_progress_t list \<Rightarrow>
     bool \<times> nat \<times> uring_write_progress_t list \<times> kvs_uring_io_t" where
  "uring_prepare_writes io i (b # bs) (p # ps) =
     (let p = p\<lparr>requested_bytes := 0\<rparr>
      in if completed_bytes p = length (uw_data b) then
           (let (ok, n, ps, io) = uring_prepare_writes io (Suc i) bs ps in (ok, n, p # ps, io))
         else
           let request = min (length (uw_data b) - completed_bytes p) (nat INT_MAX);
               d = take request (drop (completed_bytes p) (uw_data b))
           in case push_sqe io (Sqe_write i d (uw_offset b + completed_bytes p)) of
                None \<Rightarrow> (False, 0, p # ps, io)
              | Some io \<Rightarrow>
                  let p = p\<lparr>requested_bytes := request\<rparr>;
                      (ok, n, ps, io) = uring_prepare_writes io (Suc i) bs ps
                  in (ok, Suc n, p # ps, io))"
| "uring_prepare_writes io i _ ps = (True, 0, ps, io)"

text \<open>Submitting until \<open>prepared\<close> requests have been taken: the result and the number taken.\<close>

fun submit_loop :: "nat \<Rightarrow> kvs_uring_io_t \<Rightarrow> nat \<Rightarrow> nat \<Rightarrow> sys \<Rightarrow> (int \<times> nat \<times> kvs_uring_io_t \<times> sys) run" where
  "submit_loop 0 io prepared submitted s = Inl Diverges"
| "submit_loop (Suc fuel) io prepared submitted s =
     (if submitted < prepared then
        (let (r, io, s) = io_uring_submit io s
         in if r = - EINTR then submit_loop fuel io prepared submitted s
            else if r \<le> 0 then Inr (-1, submitted, io, s)
            else submit_loop fuel io prepared (submitted + nat r) s)
      else Inr (0, submitted, io, s))"

definition uring_submit_prepared :: "kvs_uring_io_t \<Rightarrow> nat \<Rightarrow> sys \<Rightarrow> (int \<times> nat \<times> kvs_uring_io_t \<times> sys) run" where
  "uring_submit_prepared io prepared s = submit_loop (s_patience s) io prepared 0 s"

text \<open>\<open>None\<close> when waiting failed.\<close>

fun receive_loop ::
    "nat \<Rightarrow> kvs_uring_io_t \<Rightarrow> bytes \<Rightarrow> sys \<Rightarrow> (cqe option \<times> kvs_uring_io_t \<times> bytes \<times> sys) run" where
  "receive_loop 0 io f s = Inl Diverges"
| "receive_loop (Suc fuel) io f s =
     bindr (io_uring_wait_cqe io f s) (\<lambda>(r, io, f, s).
       case r of
         Inl e \<Rightarrow> if e = - EINTR then receive_loop fuel io f s else Inr (None, io, f, s)
       | Inr c \<Rightarrow> Inr (Some c, io, f, s))"

definition uring_receive_write_result ::
    "kvs_uring_io_t \<Rightarrow> bytes \<Rightarrow> sys \<Rightarrow> (cqe option \<times> kvs_uring_io_t \<times> bytes \<times> sys) run" where
  "uring_receive_write_result io f s = receive_loop (s_patience s) io f s"

text \<open>One cancellation, retried when interrupted: whether the process may go on.\<close>

fun cancel_loop :: "nat \<Rightarrow> sys \<Rightarrow> (bool \<times> sys) run" where
  "cancel_loop 0 s = Inl Diverges"
| "cancel_loop (Suc fuel) s =
     (let (r, s) = os_int s
      in if r = - EINTR then cancel_loop fuel s else Inr (\<not> (r < 0 \<and> r \<noteq> - ENOENT), s))"

fun cancel_all :: "nat \<Rightarrow> sys \<Rightarrow> sys run" where
  "cancel_all 0 s = Inr s"
| "cancel_all (Suc n) s =
     bindr (cancel_loop (s_patience s) s) (\<lambda>(ok, s). if ok then cancel_all n s else Inl (Exit_process 1))"

fun reap_all :: "nat \<Rightarrow> kvs_uring_io_t \<Rightarrow> bytes \<Rightarrow> sys \<Rightarrow> (kvs_uring_io_t \<times> bytes \<times> sys) run" where
  "reap_all 0 io f s = Inr (io, f, s)"
| "reap_all (Suc n) io f s =
     bindr (uring_receive_write_result io f s) (\<lambda>(c, io, f, s).
       if c = None then Inl (Exit_process 1) else reap_all n io f s)"

definition uring_abort_requests ::
    "kvs_uring_io_t \<Rightarrow> nat \<Rightarrow> bytes \<Rightarrow> sys \<Rightarrow> (kvs_uring_io_t \<times> bytes \<times> sys) run" where
  "uring_abort_requests io pending f s =
     bindr (if pending > 0 then
              bindr (cancel_all KVS_URING_QUEUE_DEPTH s) (\<lambda>s. reap_all pending io f s)
            else Inr (io, f, s)) (\<lambda>(io, f, s).
     Inr (kvs_uring_io_close io, f, s))"

text \<open>The checks of a batch before anything is written.\<close>

definition uw_end :: "kvs_uring_write_t \<Rightarrow> nat" where
  "uw_end b = uw_offset b + length (uw_data b)"

definition uw_overlap :: "kvs_uring_write_t \<Rightarrow> kvs_uring_write_t \<Rightarrow> bool" where
  "uw_overlap a b \<longleftrightarrow>
     uw_data a \<noteq> [] \<and> uw_data b \<noteq> [] \<and> uw_offset a < uw_end b \<and> uw_offset b < uw_end a"

fun ranges_ok :: "kvs_uring_write_t list \<Rightarrow> kvs_uring_write_t list \<Rightarrow> bool" where
  "ranges_ok before [] = True"
| "ranges_ok before (b # bs) =
     (if uw_end b > OFF_MAX then False
      else if list_ex (\<lambda>a. uw_overlap b a) before then False
      else ranges_ok (before @ [b]) bs)"

text \<open>One completion: the progress, and whether it counts as an error.\<close>

definition note_completion ::
    "cqe \<Rightarrow> nat \<Rightarrow> uring_write_progress_t list \<Rightarrow> bool \<times> uring_write_progress_t list" where
  "note_completion c count ps =
     (case c of Cqe i r \<Rightarrow>
        if i \<ge> count \<or> requested_bytes (ps ! i) = 0 then (True, ps)
        else
          let requested = requested_bytes (ps ! i);
              ps = ps[i := (ps ! i)\<lparr>requested_bytes := 0\<rparr>]
          in if r = - EINTR then (False, ps)
             else if r \<le> 0 \<or> nat r > requested then (True, ps)
             else (False, ps[i := (ps ! i)\<lparr>completed_bytes := completed_bytes (ps ! i) + nat r\<rparr>]))"

text \<open>
  Receiving the completions of a round: \<open>None\<close> if waiting failed with the given number
  still out, otherwise whether one of them was an error.
\<close>

fun receive_round ::
    "nat \<Rightarrow> nat \<Rightarrow> bool \<Rightarrow> uring_write_progress_t list \<Rightarrow> kvs_uring_io_t \<Rightarrow> bytes \<Rightarrow> sys \<Rightarrow>
     ((nat + bool) \<times> uring_write_progress_t list \<times> kvs_uring_io_t \<times> bytes \<times> sys) run" where
  "receive_round 0 count err ps io f s = Inr (Inr err, ps, io, f, s)"
| "receive_round (Suc n) count err ps io f s =
     bindr (uring_receive_write_result io f s) (\<lambda>(c, io, f, s).
       case c of
         None \<Rightarrow> Inr (Inl (Suc n), ps, io, f, s)
       | Some c \<Rightarrow>
           let (e, ps) = note_completion c count ps
           in receive_round n count (err \<or> e) ps io f s)"

fun write_batch_loop ::
    "nat \<Rightarrow> kvs_uring_write_t list \<Rightarrow> uring_write_progress_t list \<Rightarrow> kvs_uring_io_t \<Rightarrow> bytes \<Rightarrow> sys \<Rightarrow>
     (int \<times> kvs_uring_io_t \<times> bytes \<times> sys) run" where
  "write_batch_loop 0 ws ps io f s = Inl Diverges"
| "write_batch_loop (Suc fuel) ws ps io f s =
     (let (ok, prepared, ps, io) = uring_prepare_writes io 0 ws ps
      in if \<not> ok then
           bindr (uring_abort_requests io 0 f s) (\<lambda>(io, f, s). Inr (-1, io, f, s))
         else if prepared = 0 then Inr (0, io, f, s)
         else
           bindr (uring_submit_prepared io prepared s) (\<lambda>(r, submitted, io, s).
             if r < 0 then
               bindr (uring_abort_requests io submitted f s) (\<lambda>(io, f, s). Inr (-1, io, f, s))
             else
               bindr (receive_round submitted (length ws) False ps io f s) (\<lambda>(out, ps, io, f, s).
                 case out of
                   Inl pending \<Rightarrow>
                     bindr (uring_abort_requests io pending f s) (\<lambda>(io, f, s). Inr (-1, io, f, s))
                 | Inr err \<Rightarrow>
                     if err then Inr (-1, io, f, s) else write_batch_loop fuel ws ps io f s)))"

text \<open>
  \<open>o_append\<close> says whether the descriptor was opened with \<open>O_APPEND\<close>; the blocks' data and
  offsets are never NULL and never negative.
\<close>

definition kvs_uring_io_write_batch ::
    "kvs_uring_io_t \<Rightarrow> bool \<Rightarrow> kvs_uring_write_t list \<Rightarrow> bytes \<Rightarrow> sys \<Rightarrow>
     (int \<times> kvs_uring_io_t \<times> bytes \<times> sys) run" where
  "kvs_uring_io_write_batch io o_append ws f s =
     (if \<not> io_initialized io \<or> length ws > KVS_URING_QUEUE_DEPTH then Inr (-1, io, f, s)
      else if ws = [] then Inr (0, io, f, s)
      else let (ok, s) = os_call s
           in if \<not> ok then Inr (-1, io, f, s)
              else if o_append then Inr (-1, io, f, s)
              else if \<not> ranges_ok [] ws then Inr (-1, io, f, s)
              else write_batch_loop (s_patience s) ws
                     (replicate (length ws) \<lparr>completed_bytes = 0, requested_bytes = 0\<rparr>) io f s)"

text \<open>Submitting the one sync request, retried when interrupted.\<close>

fun sync_submit_loop :: "nat \<Rightarrow> kvs_uring_io_t \<Rightarrow> sys \<Rightarrow> (int \<times> kvs_uring_io_t \<times> sys) run" where
  "sync_submit_loop 0 io s = Inl Diverges"
| "sync_submit_loop (Suc fuel) io s =
     (let (r, io, s) = io_uring_submit io s
      in if r = - EINTR then sync_submit_loop fuel io s else Inr (r, io, s))"

fun sync_loop :: "nat \<Rightarrow> kvs_uring_io_t \<Rightarrow> bytes \<Rightarrow> sys \<Rightarrow> (int \<times> kvs_uring_io_t \<times> bytes \<times> sys) run" where
  "sync_loop 0 io f s = Inl Diverges"
| "sync_loop (Suc fuel) io f s =
     (case push_sqe io (Sqe_fsync 0) of
        None \<Rightarrow> Inr (-1, io, f, s)
      | Some io \<Rightarrow>
          bindr (sync_submit_loop (s_patience s) io s) (\<lambda>(r, io, s).
            if r \<noteq> 1 then Inr (-1, kvs_uring_io_close io, f, s)
            else
              bindr (uring_receive_write_result io f s) (\<lambda>(c, io, f, s).
                case c of
                  None \<Rightarrow>
                    bindr (uring_abort_requests io 1 f s) (\<lambda>(io, f, s). Inr (-1, io, f, s))
                | Some (Cqe ud res) \<Rightarrow>
                    if res = - EINTR then sync_loop fuel io f s
                    else if res \<noteq> 0 then Inr (-1, io, f, s)
                    else Inr (0, io, f, s))))"

definition kvs_uring_io_sync :: "kvs_uring_io_t \<Rightarrow> bytes \<Rightarrow> sys \<Rightarrow> (int \<times> kvs_uring_io_t \<times> bytes \<times> sys) run" where
  "kvs_uring_io_sync io f s =
     (if \<not> io_initialized io then Inr (-1, io, f, s) else sync_loop (s_patience s) io f s)"

section \<open>File contents byte by byte\<close>

definition fbyte :: "bytes \<Rightarrow> nat \<Rightarrow> char option" where
  "fbyte f p = (if p < length f then Some (f ! p) else None)"

lemma fbyte_eqI: "(\<And>p. fbyte f p = fbyte g p) \<Longrightarrow> f = g"
proof -
  assume eq: "\<And>p. fbyte f p = fbyte g p"
  have "length f = length g"
    using eq [of "length f"] eq [of "length g"] by (auto simp: fbyte_def split: if_splits)
  moreover have "f ! p = g ! p" if "p < length f" for p
    using eq [of p] that by (auto simp: fbyte_def split: if_splits)
  ultimately show "f = g"
    by (simp add: list_eq_iff_nth_eq)
qed

lemma fbyte_append: "fbyte (f @ g) p = (if p < length f then fbyte f p else fbyte g (p - length f))"
  by (auto simp: fbyte_def nth_append)

lemma fbyte_write_at:
  assumes "d \<noteq> []"
  shows "fbyte (write_at f pos d) p =
    (if pos \<le> p \<and> p < pos + length d then Some (d ! (p - pos))
     else if p < length f then fbyte f p else if p < pos then Some NUL else None)"
proof -
  have "length (take pos (f @ replicate (pos - length f) NUL)) = pos"
    by simp
  then show ?thesis
    using assms by (auto simp: write_at_def fbyte_def nth_append min_def)
qed

lemma write_at_Nil [simp]: "write_at f pos [] = f"
  by (simp add: write_at_def)

lemma write_at_end: "write_at f (length f) d = f @ d"
  by (simp add: write_at_def)

section \<open>What a batch does\<close>

definition in_block :: "kvs_uring_write_t \<Rightarrow> nat \<Rightarrow> bool" where
  "in_block b p \<longleftrightarrow> uw_offset b \<le> p \<and> p < uw_end b"

text \<open>Outside the blocks, and outside a hole before one of them, the file is as it was.\<close>

definition framed :: "kvs_uring_write_t list \<Rightarrow> bytes \<Rightarrow> bytes \<Rightarrow> bool" where
  "framed ws f0 f \<longleftrightarrow>
     (\<forall>p. (\<forall>b \<in> set ws. \<not> in_block b p) \<longrightarrow> p < length f0 \<or> (\<forall>b \<in> set ws. uw_end b \<le> p) \<longrightarrow>
        fbyte f p = fbyte f0 p)"

definition blocks_disjoint :: "kvs_uring_write_t list \<Rightarrow> bool" where
  "blocks_disjoint ws \<longleftrightarrow>
     (\<forall>i < length ws. \<forall>j < length ws. i \<noteq> j \<longrightarrow> (\<forall>p. \<not> (in_block (ws ! i) p \<and> in_block (ws ! j) p)))"

lemma uw_overlapI: "in_block a p \<Longrightarrow> in_block b p \<Longrightarrow> uw_overlap a b"
  by (auto simp: in_block_def uw_overlap_def uw_end_def)

lemma uw_overlap_sym: "uw_overlap a b = uw_overlap b a"
  by (auto simp: uw_overlap_def)

lemma ranges_ok_disjoint:
  "ranges_ok before bs \<Longrightarrow> i < j \<Longrightarrow> j < length (before @ bs) \<Longrightarrow> length before \<le> j \<Longrightarrow>
   \<not> uw_overlap ((before @ bs) ! i) ((before @ bs) ! j)"
proof (induction bs arbitrary: before)
  case Nil
  then show ?case by simp
next
  case (Cons b bs)
  show ?case
  proof (cases "j = length before")
    case True
    then have "(before @ b # bs) ! i \<in> set before" "(before @ b # bs) ! j = b"
      using Cons.prems by (simp_all add: nth_append)
    then show ?thesis
      using Cons.prems(1) by (auto simp: list_ex_iff uw_overlap_sym split: if_splits)
  next
    case False
    then show ?thesis
      using Cons.IH [of "before @ [b]"] Cons.prems by (auto split: if_splits)
  qed
qed

lemma ranges_ok_blocks: "ranges_ok [] ws \<Longrightarrow> blocks_disjoint ws"
  unfolding blocks_disjoint_def
  using ranges_ok_disjoint [of "[]" ws] uw_overlapI uw_overlap_sym
  by (metis append_Nil le0 list.size(3) nat_neq_iff)

definition idle :: "kvs_uring_io_t \<Rightarrow> bool" where
  "idle io \<longleftrightarrow> io_initialized io \<and> io_sq io = [] \<and> io_inflight io = []"

text \<open>A request of a round: the unwritten rest of its block, or the first part of it.\<close>

definition req_ok :: "kvs_uring_write_t list \<Rightarrow> uring_write_progress_t list \<Rightarrow> sqe \<Rightarrow> bool" where
  "req_ok ws ps q =
     (case q of
        Sqe_write i d pos \<Rightarrow>
          i < length ws \<and> requested_bytes (ps ! i) = length d \<and> d \<noteq> [] \<and>
          completed_bytes (ps ! i) + length d \<le> length (uw_data (ws ! i)) \<and>
          d = take (length d) (drop (completed_bytes (ps ! i)) (uw_data (ws ! i))) \<and>
          pos = uw_offset (ws ! i) + completed_bytes (ps ! i)
      | Sqe_fsync _ \<Rightarrow> False)"

fun sq_index :: "sqe \<Rightarrow> nat" where
  "sq_index (Sqe_write i d pos) = i"
| "sq_index (Sqe_fsync i) = i"

definition batch_inv ::
    "kvs_uring_write_t list \<Rightarrow> uring_write_progress_t list \<Rightarrow> bytes \<Rightarrow> bytes \<Rightarrow> sqe list \<Rightarrow> bool" where
  "batch_inv ws ps f0 f qs \<longleftrightarrow>
     length ps = length ws \<and>
     (\<forall>i < length ws. completed_bytes (ps ! i) \<le> length (uw_data (ws ! i)) \<and>
        (\<forall>j < completed_bytes (ps ! i). fbyte f (uw_offset (ws ! i) + j) = Some (uw_data (ws ! i) ! j))) \<and>
     framed ws f0 f \<and> (\<forall>q \<in> set qs. req_ok ws ps q) \<and> distinct (map sq_index qs)"

lemma framed_write:
  assumes "framed ws f0 f" "b \<in> set ws" "uw_offset b \<le> pos" "pos + length d \<le> uw_end b"
  shows "framed ws f0 (write_at f pos d)"
proof (cases "d = []")
  case True
  then show ?thesis using assms by simp
next
  case False
  have "fbyte (write_at f pos d) p = fbyte f0 p"
    if p: "\<forall>b \<in> set ws. \<not> in_block b p" "p < length f0 \<or> (\<forall>b \<in> set ws. uw_end b \<le> p)" for p
  proof -
    have eq: "fbyte f p = fbyte f0 p"
      using assms(1) p unfolding framed_def by blast
    have "\<not> (pos \<le> p \<and> p < pos + length d)"
      using p(1) assms(2-4) by (auto simp: in_block_def)
    moreover have "p < length f \<or> (p \<ge> length f0 \<and> \<not> p < pos)"
      using p(2) eq assms(2-4) False by (fastforce simp: fbyte_def split: if_splits)
    ultimately show ?thesis
      using eq unfolding fbyte_write_at [OF False] by (auto simp: fbyte_def split: if_splits)
  qed
  then show ?thesis
    by (simp add: framed_def)
qed

text \<open>A write into one block leaves the bytes of the others and those already written.\<close>

lemma write_keeps:
  assumes "blocks_disjoint ws" "i < length ws" "j < length ws"
    and "uw_offset (ws ! i) \<le> pos" "pos + length d \<le> uw_end (ws ! i)"
    and "n < length (uw_data (ws ! j))" "j = i \<Longrightarrow> uw_offset (ws ! i) + n < pos"
    and "fbyte f (uw_offset (ws ! j) + n) = Some x"
  shows "fbyte (write_at f pos d) (uw_offset (ws ! j) + n) = Some x"
proof (cases "d = []")
  case True
  then show ?thesis using assms by simp
next
  case False
  let ?p = "uw_offset (ws ! j) + n"
  have "\<not> (pos \<le> ?p \<and> ?p < pos + length d)"
  proof
    assume h: "pos \<le> ?p \<and> ?p < pos + length d"
    then have ne: "i \<noteq> j"
      using assms(7) by auto
    have "in_block (ws ! i) ?p" "in_block (ws ! j) ?p"
      using h assms(4-6) by (auto simp: in_block_def uw_end_def)
    then show False
      using assms(1-3) ne unfolding blocks_disjoint_def by blast
  qed
  moreover have "?p < length f"
    using assms(8) by (auto simp: fbyte_def split: if_splits)
  ultimately show ?thesis
    unfolding fbyte_write_at [OF False] using assms(8) by auto
qed

lemma batch_invD:
  assumes "batch_inv ws ps f0 f qs"
  shows "length ps = length ws" "i < length ws \<Longrightarrow> completed_bytes (ps ! i) \<le> length (uw_data (ws ! i))"
    "i < length ws \<Longrightarrow> j < completed_bytes (ps ! i) \<Longrightarrow>
       fbyte f (uw_offset (ws ! i) + j) = Some (uw_data (ws ! i) ! j)"
    "framed ws f0 f" "q \<in> set qs \<Longrightarrow> req_ok ws ps q" "distinct (map sq_index qs)"
  using assms unfolding batch_inv_def by blast+

text \<open>
  One completed request: the file and the progress move together, and the requests still
  out stay what they were.
\<close>

lemma completion_step:
  assumes disj: "blocks_disjoint ws" and inv: "batch_inv ws ps f0 f (q # qs)"
    and fin: "complete_sqe q r f = (c, f')" and upd: "note_completion c (length ws) ps = (e, ps')"
  shows "batch_inv ws ps' f0 f' qs"
    "\<And>j. j < length ws \<Longrightarrow> completed_bytes (ps ! j) \<le> completed_bytes (ps' ! j)"
    "0 < r \<Longrightarrow> \<not> e \<and> completed_bytes (ps ! sq_index q) < completed_bytes (ps' ! sq_index q)"
proof -
  obtain i d pos where q: "q = Sqe_write i d pos" and i: "i < length ws"
    and req: "requested_bytes (ps ! i) = length d" "d \<noteq> []"
      "completed_bytes (ps ! i) + length d \<le> length (uw_data (ws ! i))"
      "d = take (length d) (drop (completed_bytes (ps ! i)) (uw_data (ws ! i)))"
      "pos = uw_offset (ws ! i) + completed_bytes (ps ! i)"
    using batch_invD(5) [OF inv, of q] by (auto simp: req_ok_def split: sqe.splits)
  note len = batch_invD(1) [OF inv]
  define m where "m = min r (int (length d))"
  define w where "w = take (nat m) d"
  have c: "c = Cqe i m" and f': "f' = write_at f pos w"
    using fin by (auto simp: q m_def w_def Let_def)
  have m_le: "\<not> nat m > length d"
    by (auto simp: m_def)
  have w_len: "length w = nat m"
    using m_le by (simp add: w_def)
  have ps': "ps' = (if m = - EINTR \<or> m \<le> 0 then ps[i := (ps ! i)\<lparr>requested_bytes := 0\<rparr>]
      else ps[i := (ps ! i)\<lparr>requested_bytes := 0, completed_bytes := completed_bytes (ps ! i) + nat m\<rparr>])"
    and e: "e = (m \<noteq> - EINTR \<and> m \<le> 0)"
    using upd i len req(1,2) m_le by (auto simp: c note_completion_def Let_def split: if_splits)
  have comp: "completed_bytes (ps' ! j) = completed_bytes (ps ! j) + (if j = i then nat m else 0)"
    and reqd: "requested_bytes (ps' ! j) = (if j = i then 0 else requested_bytes (ps ! j))"
    if "j < length ws" for j
    using that len by (auto simp: ps' nth_list_update EINTR_def)
  have len': "length ps' = length ws"
    using len by (simp add: ps')
  have pos: "uw_offset (ws ! i) \<le> pos" "pos + length w \<le> uw_end (ws ! i)"
    using req(3,5) w_len m_le by (auto simp: uw_end_def)
  have frame: "framed ws f0 f'"
    unfolding f' by (rule framed_write [OF batch_invD(4) [OF inv] _ pos]) (use i in simp)
  have bytes: "fbyte f' (uw_offset (ws ! j) + n) = Some (uw_data (ws ! j) ! n)"
    if j: "j < length ws" and n: "n < completed_bytes (ps' ! j)" for j n
  proof (cases "n < completed_bytes (ps ! j)")
    case True
    then have "n < length (uw_data (ws ! j))"
      using batch_invD(2) [OF inv j] by simp
    then show ?thesis
      unfolding f' using True batch_invD(3) [OF inv j True] req(5)
      by (intro write_keeps [OF disj i j pos]) auto
  next
    case False
    then have ji: "j = i" and n': "n - completed_bytes (ps ! i) < nat m"
      using n comp [OF j] by (auto split: if_splits)
    then have w_ne: "w \<noteq> []"
      using w_len by auto
    have "w ! (n - completed_bytes (ps ! i)) = uw_data (ws ! i) ! n"
    proof -
      have "w ! (n - completed_bytes (ps ! i)) = d ! (n - completed_bytes (ps ! i))"
        using n' by (simp add: w_def)
      also have "\<dots> = uw_data (ws ! i) ! n"
        using n' m_le req(3) False ji by (subst req(4)) simp
      finally show ?thesis .
    qed
    then show ?thesis
      unfolding f' fbyte_write_at [OF w_ne] using n' False w_len ji req(5) by auto
  qed
  have "req_ok ws ps' q'" if q': "q' \<in> set qs" for q'
  proof -
    have "sq_index q' \<noteq> i"
      using batch_invD(6) [OF inv] q' q by force
    then show ?thesis
      using batch_invD(5) [OF inv, of q'] q' comp reqd by (auto simp: req_ok_def split: sqe.splits)
  qed
  moreover have "completed_bytes (ps' ! j) \<le> length (uw_data (ws ! j))" if "j < length ws" for j
    using batch_invD(2) [OF inv that] comp [OF that] req(3) m_le by (auto split: if_splits)
  ultimately show "batch_inv ws ps' f0 f' qs"
    unfolding batch_inv_def using len' frame bytes batch_invD(6) [OF inv] by auto
  show "completed_bytes (ps ! j) \<le> completed_bytes (ps' ! j)" if "j < length ws" for j
    using comp [OF that] by simp
  show "\<not> e \<and> completed_bytes (ps ! sq_index q) < completed_bytes (ps' ! sq_index q)" if "0 < r"
  proof -
    have "0 < m" using that req(2) by (simp add: m_def)
    then show ?thesis
      using comp [OF i] e q by (simp add: EINTR_def)
  qed
qed

section \<open>Preparing and submitting a round\<close>

definition request_size :: "kvs_uring_write_t \<Rightarrow> uring_write_progress_t \<Rightarrow> nat" where
  "request_size b p = min (length (uw_data b) - completed_bytes p) (nat INT_MAX)"

fun round_requests :: "nat \<Rightarrow> kvs_uring_write_t list \<Rightarrow> uring_write_progress_t list \<Rightarrow> sqe list" where
  "round_requests i (b # bs) (p # ps) =
     (if completed_bytes p = length (uw_data b) then []
      else [Sqe_write i (take (request_size b p) (drop (completed_bytes p) (uw_data b))) (uw_offset b + completed_bytes p)]) @
     round_requests (Suc i) bs ps"
| "round_requests i _ _ = []"

definition round_progress :: "kvs_uring_write_t list \<Rightarrow> uring_write_progress_t list \<Rightarrow> uring_write_progress_t list" where
  "round_progress ws ps = map (\<lambda>(b, p). p\<lparr>requested_bytes := request_size b p\<rparr>) (zip ws ps)"

lemma uring_prepare_writes_spec:
  "length ps = length bs \<Longrightarrow> length (io_sq io) + length bs \<le> KVS_URING_QUEUE_DEPTH \<Longrightarrow>
   uring_prepare_writes io i bs ps =
     (True, length (round_requests i bs ps), round_progress bs ps,
      io\<lparr>io_sq := io_sq io @ round_requests i bs ps\<rparr>)"
proof (induction io i bs ps rule: uring_prepare_writes.induct)
  case (1 io i b bs p ps)
  show ?case
  proof (cases "completed_bytes p = length (uw_data b)")
    case True
    have "uring_prepare_writes io (Suc i) bs ps =
        (True, length (round_requests (Suc i) bs ps), round_progress bs ps,
         io\<lparr>io_sq := io_sq io @ round_requests (Suc i) bs ps\<rparr>)"
      by (rule "1.IH"(1) [OF refl]) (use True "1.prems" in auto)
    then show ?thesis
      using True by (simp add: round_progress_def request_size_def)
  next
    case False
    let ?q = "Sqe_write i (take (request_size b p) (drop (completed_bytes p) (uw_data b))) (uw_offset b + completed_bytes p)"
    let ?io = "io\<lparr>io_sq := io_sq io @ [?q]\<rparr>"
    have push: "push_sqe io ?q = Some ?io"
      using "1.prems" by (simp add: push_sqe_def)
    have "uring_prepare_writes ?io (Suc i) bs ps =
        (True, length (round_requests (Suc i) bs ps), round_progress bs ps,
         ?io\<lparr>io_sq := io_sq ?io @ round_requests (Suc i) bs ps\<rparr>)"
      by (rule "1.IH"(2) [OF refl _ refl refl _ refl])
         (use False push "1.prems" in \<open>auto simp: request_size_def\<close>)
    then show ?thesis
      using False push by (simp add: round_progress_def Let_def request_size_def)
  qed
qed (auto simp: round_progress_def)

lemma round_requests_in:
  "length ps = length bs \<Longrightarrow> q \<in> set (round_requests i bs ps) \<Longrightarrow>
   \<exists>j < length bs. completed_bytes (ps ! j) \<noteq> length (uw_data (bs ! j)) \<and>
     q = Sqe_write (i + j) (take (request_size (bs ! j) (ps ! j)) (drop (completed_bytes (ps ! j)) (uw_data (bs ! j))))
           (uw_offset (bs ! j) + completed_bytes (ps ! j))"
proof (induction i bs ps rule: round_requests.induct)
  case (1 i b bs p ps)
  show ?case
  proof (cases "q \<in> set (round_requests (Suc i) bs ps)")
    case True
    then obtain j where "j < length bs" "completed_bytes (ps ! j) \<noteq> length (uw_data (bs ! j))"
        "q = Sqe_write (Suc i + j) (take (request_size (bs ! j) (ps ! j)) (drop (completed_bytes (ps ! j)) (uw_data (bs ! j))))
           (uw_offset (bs ! j) + completed_bytes (ps ! j))"
      using 1 by auto
    then show ?thesis
      by (intro exI [of _ "Suc j"]) simp
  next
    case False
    then show ?thesis
      using "1.prems" by (intro exI [of _ 0]) (auto split: if_splits)
  qed
qed auto

lemma round_requests_indices:
  "length ps = length bs \<Longrightarrow>
   (\<forall>q \<in> set (round_requests i bs ps). i \<le> sq_index q) \<and> distinct (map sq_index (round_requests i bs ps))"
  by (induction i bs ps rule: round_requests.induct) (auto simp: Suc_le_eq)

lemma round_requests_all:
  "length ps = length bs \<Longrightarrow> j < length bs \<Longrightarrow> completed_bytes (ps ! j) \<noteq> length (uw_data (bs ! j)) \<Longrightarrow>
   i + j \<in> sq_index ` set (round_requests i bs ps)"
proof (induction i bs ps arbitrary: j rule: round_requests.induct)
  case (1 i b bs p ps)
  then show ?case by (cases j) (auto simp: image_Un)
qed auto

lemma round_batch_inv:
  assumes inv: "batch_inv ws ps f0 f []"
  shows "batch_inv ws (round_progress ws ps) f0 f (round_requests 0 ws ps)"
proof -
  note len = batch_invD(1) [OF inv]
  have pr: "completed_bytes (round_progress ws ps ! i) = completed_bytes (ps ! i)"
    "requested_bytes (round_progress ws ps ! i) = request_size (ws ! i) (ps ! i)" if "i < length ws" for i
    using that len by (simp_all add: round_progress_def)
  have "req_ok ws (round_progress ws ps) q" if q: "q \<in> set (round_requests 0 ws ps)" for q
  proof -
    obtain j where j: "j < length ws" "completed_bytes (ps ! j) \<noteq> length (uw_data (ws ! j))"
        "q = Sqe_write j (take (request_size (ws ! j) (ps ! j)) (drop (completed_bytes (ps ! j)) (uw_data (ws ! j))))
           (uw_offset (ws ! j) + completed_bytes (ps ! j))"
      using round_requests_in [OF len q] by auto
    have "completed_bytes (ps ! j) \<le> length (uw_data (ws ! j))"
      by (rule batch_invD(2) [OF inv j(1)])
    then show ?thesis
      using j pr [OF j(1)] by (auto simp: req_ok_def request_size_def INT_MAX_def min_def)
  qed
  moreover have "length (round_progress ws ps) = length ws"
    using len by (simp add: round_progress_def)
  ultimately show ?thesis
    using inv pr round_requests_indices [OF len, of 0] unfolding batch_inv_def by simp
qed

text \<open>A submission takes the first requests of the queue.\<close>

definition submitted_from :: "kvs_uring_io_t \<Rightarrow> nat \<Rightarrow> kvs_uring_io_t" where
  "submitted_from io m =
     io\<lparr>io_sq := drop m (io_sq io), io_inflight := io_inflight io @ take m (io_sq io)\<rparr>"

lemma submitted_from_0 [simp]: "submitted_from io 0 = io"
  by (simp add: submitted_from_def)

lemma submitted_from_add:
  "submitted_from (submitted_from io m) n = submitted_from io (m + n)"
  by (simp add: submitted_from_def take_add add.commute)

lemma io_uring_submit_cases:
  obtains (failed) r s' where "io_uring_submit io s = (r, io, s')" "r < 0" "same_memory s s'"
  | (taken) n s' where "io_uring_submit io s = (int n, submitted_from io n, s')" "n \<le> length (io_sq io)"
      "same_memory s s'"
proof -
  obtain r s' where r: "os_int s = (r, s')"
    by (metis surj_pair)
  show thesis
  proof (cases "r < 0")
    case True
    then show thesis
      using failed [of r s'] r by (simp add: io_uring_submit_def)
  next
    case False
    then show thesis
      using taken [of "min (nat r) (length (io_sq io))" s'] r
      by (simp add: io_uring_submit_def submitted_from_def Let_def)
  qed
qed

lemma submit_loop_spec:
  "submit_loop fuel io prepared sub s = Inr (r, sub', io', s') \<Longrightarrow>
   \<exists>m \<le> length (io_sq io). io' = submitted_from io m \<and> sub' = sub + m \<and> same_memory s s' \<and>
     (r = 0 \<and> prepared \<le> sub' \<or> r = -1)"
proof (induction fuel arbitrary: io sub s)
  case 0
  then show ?case by simp
next
  case (Suc fuel)
  show ?case
  proof (cases "sub < prepared")
    case False
    then show ?thesis
      using Suc.prems by (intro exI [of _ 0]) auto
  next
    case True
    show ?thesis
    proof (cases rule: io_uring_submit_cases [of io s])
      case (failed q s1)
      show ?thesis
      proof (cases "q = - EINTR")
        case eintr: True
        then have "submit_loop fuel io prepared sub s1 = Inr (r, sub', io', s')"
          using Suc.prems True failed(1) by simp
        then show ?thesis
          using Suc.IH failed(3) same_memory_trans by blast
      next
        case False
        then show ?thesis
          using Suc.prems True failed by (intro exI [of _ 0]) auto
      qed
    next
      case (taken n s1)
      show ?thesis
      proof (cases "n = 0")
        case zero: True
        then show ?thesis
          using Suc.prems True taken by (intro exI [of _ 0]) (auto simp: EINTR_def)
      next
        case False
        then have "submit_loop fuel (submitted_from io n) prepared (sub + n) s1 = Inr (r, sub', io', s')"
          using Suc.prems True taken(1) by (simp add: EINTR_def)
        then obtain m where m: "m \<le> length (io_sq (submitted_from io n))"
            "io' = submitted_from (submitted_from io n) m" "sub' = sub + n + m" "same_memory s1 s'"
            "r = 0 \<and> prepared \<le> sub' \<or> r = -1"
          using Suc.IH by blast
        moreover have "n + m \<le> length (io_sq io)"
          using m(1) taken(2) by (simp add: submitted_from_def)
        ultimately show ?thesis
          using same_memory_trans [OF taken(3) m(4)]
          by (intro exI [of _ "n + m"]) (simp add: submitted_from_add)
      qed
    qed
  qed
qed

text \<open>With a kernel that takes at least one request at a time, all are taken.\<close>

definition progressing :: "sys \<Rightarrow> bool" where
  "progressing s \<longleftrightarrow> (\<forall>n. 0 < s_kern s n)"

lemma os_int_progressing:
  "progressing s \<Longrightarrow> os_int s = (r, s') \<Longrightarrow> 0 < r \<and> progressing s' \<and> s_patience s' = s_patience s"
  by (auto simp: os_int_def progressing_def)

lemma submit_loop_progress:
  "progressing s \<Longrightarrow> prepared = sub + length (io_sq io) \<Longrightarrow> length (io_sq io) < fuel \<Longrightarrow>
   \<exists>s'. submit_loop fuel io prepared sub s = Inr (0, prepared, submitted_from io (length (io_sq io)), s') \<and>
     progressing s' \<and> s_patience s' = s_patience s"
proof (induction fuel arbitrary: io sub s)
  case 0
  then show ?case by simp
next
  case (Suc fuel)
  obtain r s1 where r: "os_int s = (r, s1)"
    by (metis surj_pair)
  note s1 = os_int_progressing [OF Suc.prems(1) r]
  show ?case
  proof (cases "io_sq io = []")
    case True
    then show ?thesis
      using Suc.prems by simp
  next
    case False
    define n where "n = min (nat r) (length (io_sq io))"
    have n: "0 < n" "n \<le> length (io_sq io)"
      using s1 False by (simp_all add: n_def)
    have sub: "io_uring_submit io s = (int n, submitted_from io n, s1)"
      using r s1 by (simp add: io_uring_submit_def submitted_from_def n_def Let_def)
    have step: "submit_loop (Suc fuel) io prepared sub s = submit_loop fuel (submitted_from io n) prepared (sub + n) s1"
      using sub n Suc.prems(2) False by (simp add: EINTR_def)
    have "\<exists>s'. submit_loop fuel (submitted_from io n) prepared (sub + n) s1 =
        Inr (0, prepared, submitted_from (submitted_from io n) (length (io_sq (submitted_from io n))), s') \<and>
        progressing s' \<and> s_patience s' = s_patience s1"
      by (rule Suc.IH) (use s1 Suc.prems n in \<open>auto simp: submitted_from_def\<close>)
    moreover have "submitted_from (submitted_from io n) (length (io_sq (submitted_from io n))) =
        submitted_from io (length (io_sq io))"
      unfolding submitted_from_add using n by (simp add: submitted_from_def)
    ultimately show ?thesis
      using step s1 by simp
  qed
qed

section \<open>Receiving the completions of a round\<close>

definition drop_nth :: "nat \<Rightarrow> 'a list \<Rightarrow> 'a list" where
  "drop_nth k xs = take k xs @ drop (Suc k) xs"

lemma length_drop_nth [simp]: "k < length xs \<Longrightarrow> length (drop_nth k xs) = length xs - 1"
  by (simp add: drop_nth_def)

lemma nth_drop_nth_split: "k < length xs \<Longrightarrow> xs = take k xs @ xs ! k # drop (Suc k) xs"
  by (simp add: id_take_nth_drop)

lemma batch_inv_pick:
  assumes "batch_inv ws ps f0 f qs" "k < length qs"
  shows "batch_inv ws ps f0 f (qs ! k # drop_nth k qs)"
proof -
  have set: "set (qs ! k # drop_nth k qs) = set qs"
    by (subst (3) nth_drop_nth_split [OF assms(2)]) (auto simp: drop_nth_def)
  have "distinct (map sq_index (take k qs @ qs ! k # drop (Suc k) qs))"
    using batch_invD(6) [OF assms(1)] nth_drop_nth_split [OF assms(2)] by simp
  then have "distinct (map sq_index (qs ! k # drop_nth k qs))"
    by (auto simp: drop_nth_def)
  then show ?thesis
    using assms(1) unfolding batch_inv_def set by blast
qed

text \<open>What waiting for one completion gives, retries included.\<close>

lemma receive_loop_spec:
  assumes "receive_loop fuel io f s = Inr (c, io', f', s')"
  shows "same_memory s s' \<and>
    (c = None \<and> io' = io \<and> f' = f \<or>
     (\<exists>k r cq. k < length (io_inflight io) \<and> c = Some cq \<and> complete_sqe (io_inflight io ! k) r f = (cq, f') \<and>
        io' = io\<lparr>io_inflight := drop_nth k (io_inflight io)\<rparr>))"
  using assms
proof (induction fuel arbitrary: s)
  case 0
  then show ?case by simp
next
  case (Suc fuel)
  obtain r s1 where r: "os_int s = (r, s1)" by (metis surj_pair)
  obtain w s2 where w: "os_int s1 = (w, s2)" by (metis surj_pair)
  obtain q s3 where q: "os_int s2 = (q, s3)" by (metis surj_pair)
  have mem: "same_memory s s1" "same_memory s s3"
    using r w q same_memory_os(4) same_memory_trans by blast+
  show ?case
  proof (cases "r < 0")
    case True
    then have wait: "io_uring_wait_cqe io f s = Inr (Inl r, io, f, s1)"
      using r by (simp add: io_uring_wait_cqe_def)
    show ?thesis
    proof (cases "r = - EINTR")
      case eintr: True
      then have "receive_loop fuel io f s1 = Inr (c, io', f', s')"
        using Suc.prems wait by simp
      then show ?thesis
        using Suc.IH [of s1] mem(1) same_memory_trans by blast
    next
      case False
      then show ?thesis
        using Suc.prems wait mem(1) by simp
    qed
  next
    case False
    show ?thesis
    proof (cases "io_inflight io = []")
      case True
      then show ?thesis
        using Suc.prems False r by (simp add: io_uring_wait_cqe_def)
    next
      case busy: False
      let ?k = "nat w mod length (io_inflight io)"
      obtain cq g where cq: "complete_sqe (io_inflight io ! ?k) q f = (cq, g)"
        by (metis surj_pair)
      have "io_uring_wait_cqe io f s = Inr (Inr cq, io\<lparr>io_inflight := drop_nth ?k (io_inflight io)\<rparr>, g, s3)"
        using False busy r w q cq by (simp add: io_uring_wait_cqe_def Let_def drop_nth_def)
      moreover have "?k < length (io_inflight io)"
        using busy by simp
      ultimately show ?thesis
        using Suc.prems mem(2) cq by auto
    qed
  qed
qed

lemma receive_round_spec:
  assumes "blocks_disjoint ws"
  shows "batch_inv ws ps f0 f (io_inflight io) \<Longrightarrow> n = length (io_inflight io) \<Longrightarrow>
   receive_round n (length ws) err ps io f s = Inr (out, ps', io', f', s') \<Longrightarrow>
   batch_inv ws ps' f0 f' (io_inflight io') \<and> io_sq io' = io_sq io \<and> io_initialized io' = io_initialized io \<and>
   same_memory s s' \<and> (case out of Inl pending \<Rightarrow> pending = length (io_inflight io') | Inr e \<Rightarrow> io_inflight io' = [])"
proof (induction n arbitrary: err ps io f s)
  case 0
  then show ?case by auto
next
  case (Suc n)
  obtain c io1 f1 s1 where rc: "uring_receive_write_result io f s = Inr (c, io1, f1, s1)"
    using Suc.prems(3) by (auto simp: bindr_eq_Inr split: prod.splits)
  show ?case
  proof (cases c)
    case None
    then have "io1 = io" "f1 = f" "same_memory s s1"
      using receive_loop_spec [OF rc [unfolded uring_receive_write_result_def]] by auto
    moreover have "out = Inl (Suc n)" "ps' = ps" "io' = io1" "f' = f1" "s' = s1"
      using Suc.prems(3) rc None by auto
    ultimately show ?thesis
      using Suc.prems(1,2) by simp
  next
    case (Some cq)
    then obtain k r where k: "k < length (io_inflight io)" "complete_sqe (io_inflight io ! k) r f = (cq, f1)"
        "io1 = io\<lparr>io_inflight := drop_nth k (io_inflight io)\<rparr>" and m: "same_memory s s1"
      using receive_loop_spec [OF rc [unfolded uring_receive_write_result_def]] by auto
    obtain e ps1 where e: "note_completion cq (length ws) ps = (e, ps1)"
      by (metis surj_pair)
    have inv: "batch_inv ws ps1 f0 f1 (io_inflight io1)"
      using completion_step(1) [OF assms batch_inv_pick [OF Suc.prems(1) k(1)] k(2) e] k(3) by simp
    have "receive_round n (length ws) (err \<or> e) ps1 io1 f1 s1 = Inr (out, ps', io', f', s')"
      using Suc.prems(3) rc Some e by simp
    from Suc.IH [OF inv _ this] show ?thesis
      using k Suc.prems(2) same_memory_trans [OF m] by simp
  qed
qed

section \<open>Aborting\<close>

lemma cancel_loop_memory: "cancel_loop fuel s = Inr (ok, s') \<Longrightarrow> same_memory s s'"
proof (induction fuel arbitrary: s)
  case 0
  then show ?case by simp
next
  case (Suc fuel)
  obtain r s1 where r: "os_int s = (r, s1)" by (metis surj_pair)
  then have m: "same_memory s s1" by simp
  show ?case
  proof (cases "r = - EINTR")
    case True
    then show ?thesis
      using Suc r same_memory_trans [OF m] by simp
  next
    case False
    then show ?thesis
      using Suc.prems r m by simp
  qed
qed

lemma cancel_all_memory: "cancel_all n s = Inr s' \<Longrightarrow> same_memory s s'"
proof (induction n arbitrary: s)
  case 0
  then show ?case by simp
next
  case (Suc n)
  then obtain s1 where "cancel_loop (s_patience s) s = Inr (True, s1)" "cancel_all n s1 = Inr s'"
    by (auto simp: bindr_eq_Inr split: if_splits)
  then show ?case
    using Suc.IH cancel_loop_memory same_memory_trans by blast
qed

text \<open>Whatever a write in flight does, it stays inside its block.\<close>

definition queue_in :: "kvs_uring_write_t list \<Rightarrow> sqe list \<Rightarrow> bool" where
  "queue_in ws qs \<longleftrightarrow>
     (\<forall>q \<in> set qs. case q of
        Sqe_write i d pos \<Rightarrow> \<exists>b \<in> set ws. uw_offset b \<le> pos \<and> pos + length d \<le> uw_end b
      | Sqe_fsync _ \<Rightarrow> True)"

lemma batch_inv_queue_in: "batch_inv ws ps f0 f qs \<Longrightarrow> queue_in ws qs"
proof -
  assume inv: "batch_inv ws ps f0 f qs"
  have "\<exists>b \<in> set ws. uw_offset b \<le> pos \<and> pos + length d \<le> uw_end b"
    if "Sqe_write i d pos \<in> set qs" for i d pos
    using batch_invD(5) [OF inv that] by (intro bexI [of _ "ws ! i"]) (auto simp: req_ok_def uw_end_def)
  moreover have "Sqe_fsync i \<notin> set qs" for i
    using batch_invD(5) [OF inv, of "Sqe_fsync i"] by (auto simp: req_ok_def)
  ultimately show ?thesis
    by (auto simp: queue_in_def split: sqe.split)
qed

lemma complete_framed:
  assumes "framed ws f0 f" "queue_in ws qs" "q \<in> set qs" "complete_sqe q r f = (c, f')"
  shows "framed ws f0 f'"
proof (cases q)
  case (Sqe_write i d pos)
  then have "\<exists>b \<in> set ws. uw_offset b \<le> pos \<and> pos + length d \<le> uw_end b"
    using assms(2,3) by (force simp: queue_in_def)
  then obtain b where b: "b \<in> set ws" "uw_offset b \<le> pos" "pos + length d \<le> uw_end b"
    by blast
  have "framed ws f0 (write_at f pos (take (nat (min r (int (length d)))) d))"
    using b by (intro framed_write [OF assms(1) b(1)]) auto
  then show ?thesis
    using assms(4) Sqe_write by (auto simp: Let_def)
next
  case (Sqe_fsync i)
  then show ?thesis using assms by simp
qed

lemma queue_in_drop_nth: "queue_in ws qs \<Longrightarrow> queue_in ws (drop_nth k qs)"
  by (auto simp: queue_in_def drop_nth_def dest: in_set_takeD in_set_dropD)

lemma reap_all_framed:
  "reap_all n io f s = Inr (io', f', s') \<Longrightarrow> framed ws f0 f \<Longrightarrow> queue_in ws (io_inflight io) \<Longrightarrow>
   framed ws f0 f' \<and> same_memory s s' \<and> io_initialized io' = io_initialized io"
proof (induction n arbitrary: io f s)
  case 0
  then show ?case by simp
next
  case (Suc n)
  then obtain c io1 f1 s1 where rc: "receive_loop (s_patience s) io f s = Inr (Some c, io1, f1, s1)"
      and rest: "reap_all n io1 f1 s1 = Inr (io', f', s')"
    by (auto simp: bindr_eq_Inr uring_receive_write_result_def split: if_splits)
  from receive_loop_spec [OF rc] obtain k r where k: "k < length (io_inflight io)" "same_memory s s1"
      "complete_sqe (io_inflight io ! k) r f = (c, f1)" "io1 = io\<lparr>io_inflight := drop_nth k (io_inflight io)\<rparr>"
    by auto
  have "framed ws f0 f1"
    using complete_framed [OF Suc.prems(2,3) _ k(3)] k(1) by simp
  then show ?case
    using Suc.IH [OF rest] k(2,4) queue_in_drop_nth [OF Suc.prems(3)] same_memory_trans by auto
qed

lemma abort_framed:
  assumes "uring_abort_requests io n f s = Inr (io', f', s')" "framed ws f0 f" "queue_in ws (io_inflight io)"
    "io_initialized io"
  shows "framed ws f0 f' \<and> same_memory s s' \<and> io' = io_cleared"
proof (cases "n > 0")
  case True
  then obtain s1 io1 where "cancel_all KVS_URING_QUEUE_DEPTH s = Inr s1"
      "reap_all n io f s1 = Inr (io1, f', s')" "io' = kvs_uring_io_close io1"
    using assms(1) by (auto simp: uring_abort_requests_def bindr_eq_Inr)
  then show ?thesis
    using reap_all_framed [OF _ assms(2,3)] cancel_all_memory same_memory_trans assms(4)
    by (metis kvs_uring_io_close_def)
next
  case False
  then show ?thesis
    using assms by (simp add: uring_abort_requests_def kvs_uring_io_close_def)
qed

section \<open>The batch\<close>

lemma write_batch_loop_spec:
  assumes disj: "blocks_disjoint ws" and small: "length ws \<le> KVS_URING_QUEUE_DEPTH"
  shows "batch_inv ws ps f0 f [] \<Longrightarrow> idle io \<Longrightarrow>
   write_batch_loop fuel ws ps io f s = Inr (r, io', f', s') \<Longrightarrow>
   same_memory s s' \<and> framed ws f0 f' \<and>
   (r = 0 \<and> idle io' \<and> (\<forall>b \<in> set ws. \<forall>j < length (uw_data b). fbyte f' (uw_offset b + j) = Some (uw_data b ! j)) \<or>
    r = -1 \<and> (idle io' \<or> io' = io_cleared))"
proof (induction fuel arbitrary: ps io f s)
  case 0
  then show ?case by simp
next
  case (Suc fuel)
  note inv = Suc.prems(1) and io = Suc.prems(2)
  note len = batch_invD(1) [OF inv]
  let ?qs = "round_requests 0 ws ps" and ?ps = "round_progress ws ps"
  let ?io = "io\<lparr>io_sq := ?qs\<rparr>"
  have prep: "uring_prepare_writes io 0 ws ps = (True, length ?qs, ?ps, ?io)"
    using uring_prepare_writes_spec [OF len, of io 0] small io by (simp add: idle_def)
  have inv1: "batch_inv ws ?ps f0 f ?qs"
    by (rule round_batch_inv [OF inv])
  show ?case
  proof (cases "?qs = []")
    case True
    have "completed_bytes (ps ! i) = length (uw_data (ws ! i))" if "i < length ws" for i
      using round_requests_all [OF len that, of 0] True by auto
    then have "fbyte f (uw_offset b + j) = Some (uw_data b ! j)" if "b \<in> set ws" "j < length (uw_data b)" for b j
      using batch_invD(3) [OF inv] that by (metis in_set_conv_nth)
    moreover have "r = 0" "io' = ?io" "f' = f" "s' = s"
      using Suc.prems(3) prep True by auto
    ultimately show ?thesis
      using io batch_invD(4) [OF inv] True by (simp add: idle_def)
  next
    case False
    then obtain r1 sub io1 s1 where sub: "submit_loop (s_patience s) ?io (length ?qs) 0 s = Inr (r1, sub, io1, s1)"
      using Suc.prems(3) prep by (auto simp: bindr_eq_Inr uring_submit_prepared_def)
    from submit_loop_spec [OF this] obtain m where m: "m \<le> length ?qs" "io1 = submitted_from ?io m" "sub = m"
        "same_memory s s1" "r1 = 0 \<and> length ?qs \<le> m \<or> r1 = -1"
      by auto
    have infl: "io_inflight io1 = take m ?qs" "io_sq io1 = drop m ?qs" "io_initialized io1"
      using m(2) io by (simp_all add: submitted_from_def idle_def)
    have inv2: "batch_inv ws ?ps f0 f (take m ?qs)"
      using inv1 distinct_take [of "map sq_index ?qs" m] unfolding batch_inv_def
      by (auto simp: take_map dest: in_set_takeD)
    note q_in = batch_inv_queue_in [OF inv2]
    show ?thesis
    proof (cases "r1 < 0")
      case True
      then have "uring_abort_requests io1 sub f s1 = Inr (io', f', s') \<and> r = -1"
        using Suc.prems(3) prep False sub by (auto simp: uring_submit_prepared_def bindr_eq_Inr)
      then show ?thesis
        using abort_framed [of io1 sub f s1 io' f' s' ws f0] batch_invD(4) [OF inv] q_in infl
          same_memory_trans [OF m(4)] by auto
    next
      case False
      then have all: "m = length ?qs" "r1 = 0"
        using m by auto
      obtain out ps2 io2 f2 s2 where rr: "receive_round m (length ws) False ?ps io1 f s1 = Inr (out, ps2, io2, f2, s2)"
        using Suc.prems(3) prep \<open>?qs \<noteq> []\<close> sub all m(3) by (auto simp: uring_submit_prepared_def bindr_eq_Inr)
      have inv3: "batch_inv ws ps2 f0 f2 (io_inflight io2)" and io2: "io_sq io2 = io_sq io1"
          "io_initialized io2 = io_initialized io1" "same_memory s1 s2"
          "case out of Inl pending \<Rightarrow> pending = length (io_inflight io2) | Inr e \<Rightarrow> io_inflight io2 = []"
        using receive_round_spec [OF disj, of ?ps f0 f io1 m False s1 out ps2 io2 f2 s2] inv2 infl rr all by auto
      have mem: "same_memory s s2"
        using m(4) io2(3) by (rule same_memory_trans)
      have cont: "(case out of
          Inl pending \<Rightarrow> bindr (uring_abort_requests io2 pending f2 s2) (\<lambda>(io, f, s). Inr (-1, io, f, s))
        | Inr err \<Rightarrow> if err then Inr (-1, io2, f2, s2) else write_batch_loop fuel ws ps2 io2 f2 s2) = Inr (r, io', f', s')"
        using Suc.prems(3) prep \<open>?qs \<noteq> []\<close> sub all m(3) rr by (simp add: uring_submit_prepared_def)
      show ?thesis
      proof (cases out)
        case (Inl pending)
        then have "uring_abort_requests io2 pending f2 s2 = Inr (io', f', s') \<and> r = -1"
          using cont by (auto simp: bindr_eq_Inr)
        then show ?thesis
          using abort_framed [of io2 pending f2 s2 io' f' s' ws f0] batch_invD(4) [OF inv3] batch_inv_queue_in [OF inv3]
            io2 infl same_memory_trans [OF mem] by auto
      next
        case (Inr err)
        then have idle2: "idle io2" and inv4: "batch_inv ws ps2 f0 f2 []"
          using io2 infl all inv3 by (auto simp: idle_def)
        show ?thesis
        proof (cases err)
          case True
          then show ?thesis
            using cont Inr idle2 batch_invD(4) [OF inv4] mem by auto
        next
          case False
          then have "write_batch_loop fuel ws ps2 io2 f2 s2 = Inr (r, io', f', s')"
            using cont Inr by simp
          then show ?thesis
            using Suc.IH [OF inv4 idle2] same_memory_trans [OF mem] by blast
        qed
      qed
    qed
  qed
qed

lemma batch_inv_start:
  "batch_inv ws (replicate (length ws) \<lparr>completed_bytes = 0, requested_bytes = 0\<rparr>) f f []"
  by (simp add: batch_inv_def framed_def)

text \<open>
  The result of a batch: every byte written, or an error with nothing changed outside
  the blocks; either way no request is left behind.
\<close>

lemma write_batch_law:
  assumes "idle io" "kvs_uring_io_write_batch io o_append ws f s = Inr (r, io', f', s')"
  shows "same_memory s s' \<and> framed ws f f' \<and>
   (r = 0 \<and> idle io' \<and> (\<forall>b \<in> set ws. \<forall>j < length (uw_data b). fbyte f' (uw_offset b + j) = Some (uw_data b ! j)) \<or>
    r = -1 \<and> (idle io' \<or> io' = io_cleared))"
proof -
  obtain ok s1 where os: "os_call s = (ok, s1)"
    by (metis surj_pair)
  then have m: "same_memory s s1" by simp
  have fr: "framed ws f f"
    by (simp add: framed_def)
  show ?thesis
  proof (cases "length ws \<le> KVS_URING_QUEUE_DEPTH \<and> ws \<noteq> [] \<and> ok \<and> \<not> o_append \<and> ranges_ok [] ws")
    case True
    then have "write_batch_loop (s_patience s1) ws
        (replicate (length ws) \<lparr>completed_bytes = 0, requested_bytes = 0\<rparr>) io f s1 = Inr (r, io', f', s')"
      using assms os by (auto simp: kvs_uring_io_write_batch_def idle_def)
    then show ?thesis
      using write_batch_loop_spec [OF ranges_ok_blocks _ batch_inv_start assms(1)] True same_memory_trans [OF m]
      by blast
  next
    case False
    then show ?thesis
      using assms os m fr by (auto simp: kvs_uring_io_write_batch_def idle_def split: if_splits)
  qed
qed

text \<open>Blocks that follow each other in the file.\<close>

fun contiguous :: "nat \<Rightarrow> kvs_uring_write_t list \<Rightarrow> bool" where
  "contiguous off [] = True"
| "contiguous off (b # bs) = (uw_offset b = off \<and> contiguous (uw_end b) bs)"

lemma contiguous_bytes:
  "contiguous off ws \<Longrightarrow> j < length (concat (map uw_data ws)) \<Longrightarrow>
   \<exists>b \<in> set ws. \<exists>i < length (uw_data b). off + j = uw_offset b + i \<and> concat (map uw_data ws) ! j = uw_data b ! i"
proof (induction ws arbitrary: off j)
  case Nil
  then show ?case by simp
next
  case (Cons b ws)
  show ?case
  proof (cases "j < length (uw_data b)")
    case True
    then show ?thesis
      using Cons.prems by (intro bexI [of _ b] exI [of _ j]) (auto simp: nth_append)
  next
    case False
    let ?j = "j - length (uw_data b)"
    have "\<exists>c \<in> set ws. \<exists>i < length (uw_data c). uw_end b + ?j = uw_offset c + i \<and>
        concat (map uw_data ws) ! ?j = uw_data c ! i"
      by (rule Cons.IH) (use Cons.prems False in auto)
    then show ?thesis
      using Cons.prems False by (auto simp: nth_append uw_end_def)
  qed
qed

lemma contiguous_in:
  "contiguous off ws \<Longrightarrow> b \<in> set ws \<Longrightarrow> off \<le> uw_offset b \<and> uw_end b \<le> off + length (concat (map uw_data ws))"
  by (induction ws arbitrary: off) (force simp: uw_end_def)+

lemma contiguous_written:
  assumes c: "contiguous off ws" "off \<le> length f" and fr: "framed ws f f'"
    and w: "\<forall>b \<in> set ws. \<forall>j < length (uw_data b). fbyte f' (uw_offset b + j) = Some (uw_data b ! j)"
  shows "f' = write_at f off (concat (map uw_data ws))"
proof (cases "concat (map uw_data ws) = []")
  case True
  have "fbyte f' p = fbyte f p" for p
  proof -
    have "\<forall>b \<in> set ws. \<not> in_block b p"
      using True by (auto simp: in_block_def uw_end_def)
    moreover have "p < length f \<or> (\<forall>b \<in> set ws. uw_end b \<le> p)"
      using contiguous_in [OF c(1)] c(2) True by fastforce
    ultimately show ?thesis
      using fr unfolding framed_def by blast
  qed
  then have "f' = f"
    by (rule fbyte_eqI)
  then show ?thesis
    unfolding True by simp
next
  case False
  let ?d = "concat (map uw_data ws)"
  show ?thesis
  proof (rule fbyte_eqI)
    fix p
    show "fbyte f' p = fbyte (write_at f off ?d) p"
    proof (cases "off \<le> p \<and> p < off + length ?d")
      case True
      then obtain b i where "b \<in> set ws" "i < length (uw_data b)" "p = uw_offset b + i" "?d ! (p - off) = uw_data b ! i"
        using contiguous_bytes [OF c(1), of "p - off"]
        by (metis add_diff_inverse_nat diff_less_mono add_diff_cancel_left' not_less)
      then show ?thesis
        unfolding fbyte_write_at [OF False] using w True by simp
    next
      case out: False
      then have "\<forall>b \<in> set ws. \<not> in_block b p"
        using contiguous_in [OF c(1)] by (fastforce simp: in_block_def)
      moreover have "p < length f \<or> (\<forall>b \<in> set ws. uw_end b \<le> p)"
        using contiguous_in [OF c(1)] c(2) out by fastforce
      ultimately have "fbyte f' p = fbyte f p"
        using fr unfolding framed_def by blast
      then show ?thesis
        unfolding fbyte_write_at [OF False] using out c(2) by (auto simp: fbyte_def)
    qed
  qed
qed

text \<open>Before the first block nothing changes, whatever happens.\<close>

lemma contiguous_kept:
  assumes c: "contiguous off ws" "off \<le> length f" and fr: "framed ws f f'"
  shows "off \<le> length f'" "take off f' = take off f"
proof -
  have eq: "fbyte f' p = fbyte f p" if "p < off" for p
  proof -
    have "\<forall>b \<in> set ws. \<not> in_block b p"
      using contiguous_in [OF c(1)] that by (fastforce simp: in_block_def)
    then show ?thesis
      using fr that c(2) unfolding framed_def by (meson less_le_trans)
  qed
  show len: "off \<le> length f'"
  proof (cases off)
    case (Suc n)
    then show ?thesis
      using eq [of n] c(2) by (auto simp: fbyte_def split: if_splits)
  qed simp
  show "take off f' = take off f"
    using eq len c(2) by (intro nth_equalityI) (force simp: fbyte_def)+
qed

section \<open>Syncing\<close>

lemma sync_submit_loop_spec:
  "sync_submit_loop fuel io s = Inr (r, io', s') \<Longrightarrow>
   same_memory s s' \<and> (r < 0 \<and> io' = io \<or> (\<exists>n \<le> length (io_sq io). r = int n \<and> io' = submitted_from io n))"
proof (induction fuel arbitrary: s)
  case 0
  then show ?case by simp
next
  case (Suc fuel)
  show ?case
  proof (cases rule: io_uring_submit_cases [of io s])
    case (failed q s1)
    show ?thesis
    proof (cases "q = - EINTR")
      case True
      then show ?thesis
        using Suc failed same_memory_trans [OF failed(3)] by simp
    next
      case False
      then show ?thesis
        using Suc.prems failed by auto
    qed
  next
    case (taken n s1)
    then show ?thesis
      using Suc.prems by (auto simp: EINTR_def)
  qed
qed

lemma sync_loop_spec:
  "idle io \<Longrightarrow> sync_loop fuel io f s = Inr (r, io', f', s') \<Longrightarrow>
   f' = f \<and> same_memory s s' \<and> (r = 0 \<and> idle io' \<or> r = -1 \<and> (idle io' \<or> io' = io_cleared))"
proof (induction fuel arbitrary: io s)
  case 0
  then show ?case by simp
next
  case (Suc fuel)
  let ?io = "io\<lparr>io_sq := [Sqe_fsync 0]\<rparr>"
  have push: "push_sqe io (Sqe_fsync 0) = Some ?io"
    using Suc.prems(1) by (simp add: push_sqe_def idle_def KVS_URING_QUEUE_DEPTH_def)
  then obtain r1 io1 s1 where sub: "sync_submit_loop (s_patience s) ?io s = Inr (r1, io1, s1)"
    using Suc.prems(2) by (auto simp: bindr_eq_Inr)
  note sub' = sync_submit_loop_spec [OF sub]
  have init: "io_initialized io1"
    using sub' Suc.prems(1) by (auto simp: submitted_from_def idle_def)
  show ?case
  proof (cases "r1 = 1")
    case False
    then show ?thesis
      using Suc.prems(2) push sub sub' init by (auto simp: kvs_uring_io_close_def)
  next
    case True
    then have io1: "io1 = io\<lparr>io_sq := [], io_inflight := [Sqe_fsync 0]\<rparr>" and m1: "same_memory s s1"
      using sub' Suc.prems(1) by (auto simp: submitted_from_def idle_def)
    obtain c io2 f2 s2 where rc: "receive_loop (s_patience s1) io1 f s1 = Inr (c, io2, f2, s2)"
      using Suc.prems(2) push sub True by (auto simp: bindr_eq_Inr uring_receive_write_result_def)
    note rc' = receive_loop_spec [OF rc]
    have m2: "same_memory s s2"
      using rc' same_memory_trans [OF m1] by blast
    show ?thesis
    proof (cases c)
      case None
      then have ab: "uring_abort_requests io1 1 f s2 = Inr (io', f', s')" "r = -1"
        using Suc.prems(2) push sub True rc rc' by (auto simp: bindr_eq_Inr uring_receive_write_result_def)
      have "framed [] f f" "queue_in [] (io_inflight io1)"
        by (auto simp: framed_def queue_in_def io1)
      from abort_framed [OF ab(1) this init] show ?thesis
        using ab(2) same_memory_trans [OF m2] fbyte_eqI [of f' f] by (auto simp: framed_def)
    next
      case (Some cq)
      then obtain q where cq: "cq = Cqe 0 (min q 0)" and f2: "f2 = f" and io2: "io2 = io1\<lparr>io_inflight := []\<rparr>"
        using rc' by (auto simp: io1 drop_nth_def)
      have idle2: "idle io2"
        using io2 io1 Suc.prems(1) by (simp add: idle_def)
      have "(if min q 0 = - EINTR then sync_loop fuel io2 f s2
          else if min q 0 \<noteq> 0 then Inr (-1, io2, f, s2) else Inr (0, io2, f, s2)) = Inr (r, io', f', s')"
        using Suc.prems(2) push sub True rc Some cq f2 by (simp add: uring_receive_write_result_def)
      then show ?thesis
        using Suc.IH [OF idle2, of s2] same_memory_trans [OF m2] m2 idle2 by (auto split: if_splits)
    qed
  qed
qed

lemma sync_law:
  assumes "idle io" "kvs_uring_io_sync io f s = Inr (r, io', f', s')"
  shows "f' = f \<and> same_memory s s' \<and> (r = 0 \<and> idle io' \<or> r = -1 \<and> (idle io' \<or> io' = io_cleared))"
  using assms sync_loop_spec [OF assms(1)] by (auto simp: kvs_uring_io_sync_def idle_def)

section \<open>A kernel that makes progress\<close>

text \<open>
  A kernel whose every answer is positive takes at least one request per submission and
  writes at least one byte per request, but may cut every write short and complete the
  requests in any order.  The batch then returns \<open>0\<close>, within a number of rounds bounded by
  the longest block.
\<close>

lemma receive_progress:
  assumes "progressing s" "io_inflight io \<noteq> []" "0 < s_patience s"
  obtains k r cq f' s' where "uring_receive_write_result io f s =
      Inr (Some cq, io\<lparr>io_inflight := drop_nth k (io_inflight io)\<rparr>, f', s')"
    "k < length (io_inflight io)" "complete_sqe (io_inflight io ! k) r f = (cq, f')" "0 < r"
    "progressing s'" "s_patience s' = s_patience s"
proof -
  obtain fuel where fuel: "s_patience s = Suc fuel"
    using assms(3) by (cases "s_patience s") auto
  obtain r s1 where r: "os_int s = (r, s1)" by (metis surj_pair)
  obtain w s2 where w: "os_int s1 = (w, s2)" by (metis surj_pair)
  obtain q s3 where q: "os_int s2 = (q, s3)" by (metis surj_pair)
  note p1 = os_int_progressing [OF assms(1) r]
  then have p2: "0 < w \<and> progressing s2 \<and> s_patience s2 = s_patience s1"
    using os_int_progressing w by blast
  then have p3: "0 < q \<and> progressing s3 \<and> s_patience s3 = s_patience s2"
    using os_int_progressing q by blast
  let ?k = "nat w mod length (io_inflight io)"
  obtain cq g where cq: "complete_sqe (io_inflight io ! ?k) q f = (cq, g)"
    by (metis surj_pair)
  have "uring_receive_write_result io f s =
      Inr (Some cq, io\<lparr>io_inflight := drop_nth ?k (io_inflight io)\<rparr>, g, s3)"
    using assms(2) fuel r w q cq p1
    by (simp add: uring_receive_write_result_def io_uring_wait_cqe_def Let_def drop_nth_def)
  then show thesis
    using that [of cq ?k g s3 q] cq p1 p2 p3 assms(2) by simp
qed

lemma receive_round_progress:
  assumes "blocks_disjoint ws"
  shows "batch_inv ws ps f0 f (io_inflight io) \<Longrightarrow> n = length (io_inflight io) \<Longrightarrow> progressing s \<Longrightarrow>
   0 < s_patience s \<Longrightarrow>
   \<exists>ps' io' f' s'. receive_round n (length ws) err ps io f s = Inr (Inr err, ps', io', f', s') \<and>
     progressing s' \<and> s_patience s' = s_patience s \<and>
     (\<forall>j < length ws. completed_bytes (ps ! j) \<le> completed_bytes (ps' ! j)) \<and>
     (\<forall>q \<in> set (io_inflight io). completed_bytes (ps ! sq_index q) < completed_bytes (ps' ! sq_index q))"
proof (induction n arbitrary: ps io f s)
  case 0
  then show ?case by auto
next
  case (Suc n)
  then have ne: "io_inflight io \<noteq> []" by auto
  obtain k r cq f1 s1 where rc: "uring_receive_write_result io f s =
      Inr (Some cq, io\<lparr>io_inflight := drop_nth k (io_inflight io)\<rparr>, f1, s1)"
      "k < length (io_inflight io)" "complete_sqe (io_inflight io ! k) r f = (cq, f1)" "0 < r"
      "progressing s1" "s_patience s1 = s_patience s"
    using receive_progress [OF Suc.prems(3) ne Suc.prems(4), of f] by metis
  let ?io = "io\<lparr>io_inflight := drop_nth k (io_inflight io)\<rparr>" and ?q = "io_inflight io ! k"
  obtain e ps1 where e: "note_completion cq (length ws) ps = (e, ps1)"
    by (metis surj_pair)
  have pick: "batch_inv ws ps f0 f (?q # drop_nth k (io_inflight io))"
    by (rule batch_inv_pick [OF Suc.prems(1) rc(2)])
  note step = completion_step [OF assms pick rc(3) e]
  obtain ps' io' f' s' where rest: "receive_round n (length ws) err ps1 ?io f1 s1 = Inr (Inr err, ps', io', f', s')"
      "progressing s'" "s_patience s' = s_patience s1"
      "\<forall>j < length ws. completed_bytes (ps1 ! j) \<le> completed_bytes (ps' ! j)"
      "\<forall>q \<in> set (drop_nth k (io_inflight io)). completed_bytes (ps1 ! sq_index q) < completed_bytes (ps' ! sq_index q)"
  proof -
    have "n = length (io_inflight ?io)"
      using Suc.prems(2) rc(2) by simp
    then show thesis
      using Suc.IH [of ps1 f1 ?io s1] step(1) rc(5,6) Suc.prems(4) that by auto
  qed
  have idx: "sq_index q < length ws" if "q \<in> set (?q # drop_nth k (io_inflight io))" for q
    using batch_invD(5) [OF pick that] by (auto simp: req_ok_def split: sqe.splits)
  have "receive_round (Suc n) (length ws) err ps io f s = Inr (Inr err, ps', io', f', s')"
    using rc(1) e rest(1) step(3) [OF rc(4)] by simp
  moreover have "completed_bytes (ps ! j) \<le> completed_bytes (ps' ! j)" if "j < length ws" for j
    using step(2) [OF that] rest(4) that by (meson le_trans)
  moreover have "completed_bytes (ps ! sq_index q) < completed_bytes (ps' ! sq_index q)"
    if "q \<in> set (io_inflight io)" for q
  proof -
    have "q \<in> set (?q # drop_nth k (io_inflight io))"
      using that by (subst (asm) nth_drop_nth_split [OF rc(2)]) (auto simp: drop_nth_def)
    moreover have "sq_index q < length ws"
      using idx calculation .
    moreover have "completed_bytes (ps ! sq_index q) \<le> completed_bytes (ps1 ! sq_index q)"
      "completed_bytes (ps1 ! sq_index q) \<le> completed_bytes (ps' ! sq_index q)"
      using step(2) rest(4) calculation(2) by blast+
    ultimately show ?thesis
      using step(3) [OF rc(4)] rest(5) by auto
  qed
  ultimately show ?case
    using rest(2,3) rc(6) by auto
qed

lemma write_batch_loop_returns:
  assumes disj: "blocks_disjoint ws" and small: "length ws \<le> KVS_URING_QUEUE_DEPTH"
  shows "batch_inv ws ps f0 f [] \<Longrightarrow> idle io \<Longrightarrow> progressing s \<Longrightarrow> KVS_URING_QUEUE_DEPTH < s_patience s \<Longrightarrow>
   (\<And>i. i < length ws \<Longrightarrow> length (uw_data (ws ! i)) - completed_bytes (ps ! i) < fuel) \<Longrightarrow> 0 < fuel \<Longrightarrow>
   \<exists>io' f' s'. write_batch_loop fuel ws ps io f s = Inr (0, io', f', s') \<and> progressing s' \<and>
     s_patience s' = s_patience s"
proof (induction fuel arbitrary: ps io f s)
  case 0
  then show ?case by simp
next
  case (Suc fuel)
  note inv = Suc.prems(1) and io = Suc.prems(2)
  note len = batch_invD(1) [OF inv]
  let ?qs = "round_requests 0 ws ps" and ?ps = "round_progress ws ps"
  let ?io = "io\<lparr>io_sq := ?qs\<rparr>"
  have prep: "uring_prepare_writes io 0 ws ps = (True, length ?qs, ?ps, ?io)"
    using uring_prepare_writes_spec [OF len, of io 0] small io by (simp add: idle_def)
  show ?case
  proof (cases "?qs = []")
    case True
    then show ?thesis
      using prep Suc.prems(3) by simp
  next
    case False
    have "length ?qs \<le> length ws"
    proof -
      have "sq_index ` set ?qs \<subseteq> {..<length ws}"
        using round_requests_in [OF len, of _ 0] by fastforce
      then have "card (set (map sq_index ?qs)) \<le> length ws"
        by (metis card_lessThan card_mono finite_lessThan set_map)
      then show ?thesis
        using round_requests_indices [OF len, of 0] by (metis distinct_card length_map)
    qed
    then have "length ?qs < s_patience s"
      using small Suc.prems(4) by simp
    then obtain s1 where sub: "submit_loop (s_patience s) ?io (length ?qs) 0 s =
        Inr (0, length ?qs, submitted_from ?io (length ?qs), s1)" "progressing s1" "s_patience s1 = s_patience s"
      using submit_loop_progress [OF Suc.prems(3), of "length ?qs" 0 ?io "s_patience s"] by auto
    let ?io1 = "submitted_from ?io (length ?qs)"
    have infl: "io_inflight ?io1 = ?qs" "io_sq ?io1 = []" "io_initialized ?io1"
      using io by (simp_all add: submitted_from_def idle_def)
    have "0 < s_patience s1"
      using sub(3) Suc.prems(4) by simp
    then obtain ps2 io2 f2 s2 where rr: "receive_round (length ?qs) (length ws) False ?ps ?io1 f s1 =
        Inr (Inr False, ps2, io2, f2, s2)" "progressing s2" "s_patience s2 = s_patience s1"
        "\<forall>j < length ws. completed_bytes (?ps ! j) \<le> completed_bytes (ps2 ! j)"
        "\<forall>q \<in> set ?qs. completed_bytes (?ps ! sq_index q) < completed_bytes (ps2 ! sq_index q)"
      using receive_round_progress [OF disj, of ?ps f0 f ?io1 "length ?qs" s1 False] round_batch_inv [OF inv] infl sub(2)
      by auto
    have inv3: "batch_inv ws ps2 f0 f2 []" and idle2: "idle io2"
      using receive_round_spec [OF disj _ _ rr(1), of f0] round_batch_inv [OF inv] infl by (auto simp: idle_def)
    have less: "length (uw_data (ws ! i)) - completed_bytes (ps2 ! i) < fuel" if i: "i < length ws" for i
    proof (cases "completed_bytes (ps ! i) = length (uw_data (ws ! i))")
      case True
      obtain q where "q \<in> set ?qs" using False by (cases ?qs) auto
      then obtain j where j: "j < length ws" "completed_bytes (ps ! j) \<noteq> length (uw_data (ws ! j))"
        using round_requests_in [OF len, of q 0] by auto
      then have "0 < fuel"
        using Suc.prems(5) [OF j(1)] batch_invD(2) [OF inv j(1)] by (cases fuel) auto
      moreover have "completed_bytes (ps ! i) \<le> completed_bytes (ps2 ! i)"
        using rr(4) i len by (simp add: round_progress_def)
      ultimately show ?thesis
        using True by simp
    next
      case ne: False
      then obtain q where "q \<in> set ?qs" "sq_index q = i"
        using round_requests_all [OF len i ne, of 0] by auto
      then have "completed_bytes (ps ! i) < completed_bytes (ps2 ! i)"
        using rr(5) i len by (force simp: round_progress_def)
      then show ?thesis
        using Suc.prems(5) [OF i] batch_invD(2) [OF inv i] ne by simp
    qed
    have "ws \<noteq> []"
      using False by auto
    then have "0 < fuel"
      using less [of 0] by simp
    then have "\<exists>io' f' s'. write_batch_loop fuel ws ps2 io2 f2 s2 = Inr (0, io', f', s') \<and> progressing s' \<and>
        s_patience s' = s_patience s2"
      using Suc.IH [OF inv3 idle2 rr(2) _ less] rr(3) sub(3) Suc.prems(4) by simp
    then show ?thesis
      using prep False sub rr by (simp add: uring_submit_prepared_def)
  qed
qed

lemma write_batch_returns:
  assumes "idle io" "length ws \<le> KVS_URING_QUEUE_DEPTH" "ranges_ok [] ws" "progressing s"
    "\<And>n. s_oscall s n" "KVS_URING_QUEUE_DEPTH < s_patience s" "\<And>b. b \<in> set ws \<Longrightarrow> length (uw_data b) < s_patience s"
  shows "\<exists>io' f' s'. kvs_uring_io_write_batch io False ws f s = Inr (0, io', f', s') \<and> progressing s' \<and>
    s_patience s' = s_patience s"
proof -
  obtain s1 where s1: "os_call s = (True, s1)" "progressing s1" "s_patience s1 = s_patience s"
    using assms(4,5) by (auto simp: os_call_def progressing_def)
  have "\<exists>io' f' s'. write_batch_loop (s_patience s1) ws
      (replicate (length ws) \<lparr>completed_bytes = 0, requested_bytes = 0\<rparr>) io f s1 = Inr (0, io', f', s') \<and>
      progressing s' \<and> s_patience s' = s_patience s1"
    using assms s1 by (intro write_batch_loop_returns [OF ranges_ok_blocks [OF assms(3)] assms(2) batch_inv_start]) auto
  then show ?thesis
    using assms s1 by (cases "ws = []") (auto simp: kvs_uring_io_write_batch_def idle_def)
qed

end
