(* ===== verification/Rbtree_Zipper.thy ===== *)
theory Rbtree_Zipper
  imports Rbtree_Engine
begin

text \<open>
  The pointer structure of \<open>kvs_rbtree.c\<close> at a position: a coloured tree below it and the
  path from it to the root above it, both read off the heap with their parent pointers.
  The assignments of the source are shown to change such a picture in the expected way;
  the theories on insertion and deletion work with pictures only.
\<close>

section \<open>Coloured trees and paths\<close>

datatype ctree = Tip | Bin color ctree nat ctree

text \<open>A node whose child on side \<open>d\<close> is \<open>t\<close> and whose other child is \<open>u\<close>.\<close>

fun mk :: "side \<Rightarrow> color \<Rightarrow> nat \<Rightarrow> ctree \<Rightarrow> ctree \<Rightarrow> ctree" where
  "mk Lft c a t u = Bin c t a u"
| "mk Rgt c a t u = Bin c u a t"

fun cnodes :: "ctree \<Rightarrow> nat list" where
  "cnodes Tip = []"
| "cnodes (Bin c l a r) = cnodes l @ a # cnodes r"

fun strip :: "ctree \<Rightarrow> shape" where
  "strip Tip = Leaf"
| "strip (Bin c l a r) = Node (strip l) a (strip r)"

lemma nodes_of_strip [simp]: "nodes_of (strip t) = cnodes t"
  by (induction t) auto

fun rcol :: "ctree \<Rightarrow> color" where
  "rcol Tip = BLACK"
| "rcol (Bin c l a r) = c"

text \<open>One step of a path: the side on which it continues downwards, the node, the other child.\<close>

datatype frame = Frame side color nat ctree

fun plug :: "frame list \<Rightarrow> ctree \<Rightarrow> ctree" where
  "plug [] t = t"
| "plug (Frame d c a u # ctx) t = plug ctx (mk d c a t u)"

fun ctx_nodes :: "frame list \<Rightarrow> nat list" where
  "ctx_nodes [] = []"
| "ctx_nodes (Frame d c a u # ctx) = a # cnodes u @ ctx_nodes ctx"

lemma other_other [simp]: "other (other d) = d"
  by (cases d) auto

lemma other_neq [simp]: "other d \<noteq> d" "d \<noteq> other d"
  by (cases d; simp)+

lemma mk_other: "mk (other d) c a t u = mk d c a u t"
  by (cases d) auto

lemma mk_neq_Tip [simp]: "mk d c a t u \<noteq> Tip" "Tip \<noteq> mk d c a t u"
  by (cases d; simp)+

lemma rcol_mk [simp]: "rcol (mk d c a t u) = c"
  by (cases d) auto

lemma mset_mk [simp]: "set (cnodes (mk d c a t u)) = insert a (set (cnodes t) \<union> set (cnodes u))"
  by (cases d) auto

lemma distinct_mk [simp]:
  "distinct (cnodes (mk d c a t u)) \<longleftrightarrow>
     distinct (cnodes t) \<and> distinct (cnodes u) \<and> a \<notin> set (cnodes t) \<and> a \<notin> set (cnodes u) \<and>
     set (cnodes t) \<inter> set (cnodes u) = {}"
  by (cases d) auto

lemma mk_exists: "t \<noteq> Tip \<Longrightarrow> \<exists>c a l r. t = mk d c a l r"
  by (cases t; cases d) (auto intro: exI [of _ "Tip"])

lemma mk_inject [simp]: "mk d c a t u = mk d c' a' t' u' \<longleftrightarrow> c = c' \<and> a = a' \<and> t = t' \<and> u = u'"
  by (cases d) auto

section \<open>Reading the heap\<close>

fun child :: "side \<Rightarrow> rbtree_node \<Rightarrow> ptr" where
  "child Lft n = rb_left n"
| "child Rgt n = rb_right n"

fun upd_child :: "side \<Rightarrow> ptr \<Rightarrow> rbtree_node \<Rightarrow> rbtree_node" where
  "upd_child Lft q n = n\<lparr>rb_left := q\<rparr>"
| "upd_child Rgt q n = n\<lparr>rb_right := q\<rparr>"

lemma upd_child_simps [simp]:
  "child d (upd_child d q n) = q" "child (other d) (upd_child d q n) = child (other d) n"
  "child d (upd_child (other d) q n) = child d n"
  "rb_color (upd_child d q n) = rb_color n" "rb_parent (upd_child d q n) = rb_parent n"
  "rb_key (upd_child d q n) = rb_key n" "rb_value (upd_child d q n) = rb_value n"
  "child e (n\<lparr>rb_color := c\<rparr>) = child e n" "child e (n\<lparr>rb_parent := p\<rparr>) = child e n"
  "child e (n\<lparr>rb_key := k\<rparr>) = child e n" "child e (n\<lparr>rb_value := v\<rparr>) = child e n"
  by (cases d; simp; fail | cases e; simp)+

definition upd :: "rbtree \<Rightarrow> nat \<Rightarrow> (rbtree_node \<Rightarrow> rbtree_node) \<Rightarrow> rbtree" where
  "upd T a f = T\<lparr>rb_heap := (rb_heap T)(a \<mapsto> f (rb_node T a))\<rparr>"

lemma upd_simps [simp]:
  "rb_nil (upd T a f) = rb_nil T" "rb_root (upd T a f) = rb_root T" "rb_next (upd T a f) = rb_next T"
  "rb_node (upd T a f) b = (if b = a then f (rb_node T a) else rb_node T b)"
  "rb_heap (upd T a f) b = (if b = a then Some (f (rb_node T a)) else rb_heap T b)"
  "rb_node (T\<lparr>rb_root := p\<rparr>) b = rb_node T b"
  by (simp_all add: upd_def rb_node_def)

lemma heap_accesses:
  assumes "rb_heap T a \<noteq> None"
  shows "deref T (Some a) = Inr (rb_node T a)"
    "get_child T d (Some a) = Inr (child d (rb_node T a))" "get_parent T (Some a) = Inr (rb_parent (rb_node T a))"
    "get_color T (Some a) = Inr (rb_color (rb_node T a))" "assign T (Some a) f = Inr (upd T a f)"
    "set_child T d (Some a) q = Inr (upd T a (upd_child d q))" "set_parent T (Some a) q = Inr (upd T a (\<lambda>n. n\<lparr>rb_parent := q\<rparr>))"
    "set_color T (Some a) c = Inr (upd T a (\<lambda>n. n\<lparr>rb_color := c\<rparr>))"
  using assms
  by (cases d; auto simp: deref_def get_child_def get_parent_def get_color_def assign_def set_child_def set_parent_def
      set_color_def upd_def rb_node_def fun_eq_iff split: side.splits)+

definition node_in :: "rbtree \<Rightarrow> nat \<Rightarrow> color \<Rightarrow> ptr \<Rightarrow> side \<Rightarrow> ptr \<Rightarrow> ptr \<Rightarrow> bool" where
  "node_in T a c q d p1 p2 \<longleftrightarrow>
     rb_heap T a \<noteq> None \<and> Some a \<noteq> rb_nil T \<and> a < rb_next T \<and> rb_key (rb_node T a) \<noteq> None \<and> rb_value (rb_node T a) \<noteq> None \<and>
     rb_color (rb_node T a) = c \<and> rb_parent (rb_node T a) = q \<and> child d (rb_node T a) = p1 \<and> child (other d) (rb_node T a) = p2"

lemma node_in_other: "node_in T a c q (other d) p1 p2 = node_in T a c q d p2 p1"
  by (cases d) (auto simp: node_in_def)

fun ptr_of :: "rbtree \<Rightarrow> ctree \<Rightarrow> ptr" where
  "ptr_of T Tip = rb_nil T"
| "ptr_of T (Bin c l a r) = Some a"

fun sub_at :: "rbtree \<Rightarrow> ptr \<Rightarrow> ctree \<Rightarrow> bool" where
  "sub_at T q Tip \<longleftrightarrow> True"
| "sub_at T q (Bin c l a r) \<longleftrightarrow>
     node_in T a c q Lft (ptr_of T l) (ptr_of T r) \<and> sub_at T (Some a) l \<and> sub_at T (Some a) r"

fun up :: "rbtree \<Rightarrow> frame list \<Rightarrow> ptr" where
  "up T [] = rb_nil T"
| "up T (Frame d c a u # ctx) = Some a"

fun ctx_at :: "rbtree \<Rightarrow> ptr \<Rightarrow> frame list \<Rightarrow> bool" where
  "ctx_at T p [] \<longleftrightarrow> rb_root T = p"
| "ctx_at T p (Frame d c a u # ctx) \<longleftrightarrow>
     node_in T a c (up T ctx) d p (ptr_of T u) \<and> sub_at T (Some a) u \<and> ctx_at T (Some a) ctx"

definition nil_ok :: "rbtree \<Rightarrow> bool" where
  "nil_ok T \<longleftrightarrow> (\<exists>a. rb_nil T = Some a \<and> rb_heap T a \<noteq> None \<and> a < rb_next T \<and> rb_key (rb_node T a) = None \<and>
     rb_value (rb_node T a) = None \<and> rb_color (rb_node T a) = BLACK)"

text \<open>The picture: the tree \<open>t\<close> below the position, the path \<open>ctx\<close> above it.\<close>

definition rb_at :: "rbtree \<Rightarrow> frame list \<Rightarrow> ctree \<Rightarrow> bool" where
  "rb_at T ctx t \<longleftrightarrow>
     nil_ok T \<and> sub_at T (up T ctx) t \<and> ctx_at T (ptr_of T t) ctx \<and> distinct (cnodes t @ ctx_nodes ctx)"

lemma ptr_of_mk [simp]: "ptr_of T (mk d c a t u) = Some a"
  by (cases d) auto

lemma sub_at_mk [simp]:
  "sub_at T q (mk d c a t u) \<longleftrightarrow>
     node_in T a c q d (ptr_of T t) (ptr_of T u) \<and> sub_at T (Some a) t \<and> sub_at T (Some a) u"
  using node_in_other [of T a c q Lft] by (cases d) auto

text \<open>Moving the position up and down changes nothing.\<close>

lemma rb_at_up: "rb_at T (Frame d c a u # ctx) t \<longleftrightarrow> rb_at T ctx (mk d c a t u)"
  by (auto simp: rb_at_def)

lemma rb_at_plug: "rb_at T [] (plug ctx t) \<longleftrightarrow> rb_at T ctx t"
  by (induction ctx t rule: plug.induct) (simp_all add: rb_at_up)

section \<open>Changing the heap\<close>

lemma ptr_of_cong: "rb_nil T' = rb_nil T \<Longrightarrow> ptr_of T' t = ptr_of T t"
  by (cases t) auto

lemma up_cong: "rb_nil T' = rb_nil T \<Longrightarrow> up T' ctx = up T ctx"
  by (induction ctx rule: ctx_nodes.induct) auto

lemma ptr_of_upd [simp]: "ptr_of (upd T a f) t = ptr_of T t" "ptr_of (T\<lparr>rb_root := p\<rparr>) t = ptr_of T t"
  by (rule ptr_of_cong, simp)+

lemma up_upd [simp]: "up (upd T a f) ctx = up T ctx" "up (T\<lparr>rb_root := p\<rparr>) ctx = up T ctx"
  by (rule up_cong, simp)+

lemma node_in_upd_neq [simp]:
  "b \<noteq> a \<Longrightarrow> node_in (upd T a f) b c q d p1 p2 = node_in T b c q d p1 p2"
  "node_in (T\<lparr>rb_root := p\<rparr>) b c q d p1 p2 = node_in T b c q d p1 p2"
  by (simp_all add: node_in_def)

lemma sub_at_upd [simp]: "a \<notin> set (cnodes t) \<Longrightarrow> sub_at (upd T a f) q t = sub_at T q t"
  by (induction t arbitrary: q) auto

lemma sub_at_root [simp]: "sub_at (T\<lparr>rb_root := p\<rparr>) q t = sub_at T q t"
  by (induction t arbitrary: q) auto

lemma ctx_at_upd [simp]: "a \<notin> set (ctx_nodes ctx) \<Longrightarrow> ctx_at (upd T a f) p ctx = ctx_at T p ctx"
  by (induction ctx arbitrary: p rule: ctx_nodes.induct) auto

lemma nil_ok_upd [simp]:
  "Some a \<noteq> rb_nil T \<Longrightarrow> nil_ok (upd T a f) = nil_ok T" "nil_ok (T\<lparr>rb_root := p\<rparr>) = nil_ok T"
  by (auto simp: nil_ok_def)

text \<open>What the tree operations leave alone: the data of every node, the sentinel, the addresses in use.\<close>

definition same_data :: "rbtree \<Rightarrow> rbtree \<Rightarrow> bool" where
  "same_data T T' \<longleftrightarrow> rb_nil T' = rb_nil T \<and> rb_next T' = rb_next T \<and>
     (\<forall>a. (rb_heap T' a = None \<longleftrightarrow> rb_heap T a = None) \<and> rb_key (rb_node T' a) = rb_key (rb_node T a) \<and>
       rb_value (rb_node T' a) = rb_value (rb_node T a) \<and> (Some a = rb_nil T \<longrightarrow> rb_node T' a = rb_node T a))"

lemma same_data_refl [simp]: "same_data T T"
  by (simp add: same_data_def)

lemma same_data_trans [trans]: "same_data T T1 \<Longrightarrow> same_data T1 T2 \<Longrightarrow> same_data T T2"
  by (simp add: same_data_def)

lemma same_data_upd:
  assumes "rb_heap T a \<noteq> None" "Some a \<noteq> rb_nil T" "\<And>n. rb_key (f n) = rb_key n \<and> rb_value (f n) = rb_value n"
  shows "same_data T (upd T a f)"
  using assms by (auto simp: same_data_def)

lemma same_data_root [simp]: "same_data T (T\<lparr>rb_root := p\<rparr>)"
  by (simp add: same_data_def)

lemma ptr_of_same: "same_data T T' \<Longrightarrow> ptr_of T' t = ptr_of T t"
  by (rule ptr_of_cong) (simp add: same_data_def)

text \<open>Reading at a position.\<close>

lemma node_in_access:
  assumes "node_in T a c q d p1 p2"
  shows "rb_heap T a \<noteq> None" "Some a \<noteq> rb_nil T" "get_child T d (Some a) = Inr p1" "get_child T (other d) (Some a) = Inr p2"
    "get_color T (Some a) = Inr c" "get_parent T (Some a) = Inr q"
  using assms by (auto simp: node_in_def heap_accesses)

lemma rb_at_node:
  assumes "rb_at T ctx (mk d c a t u)"
  shows "node_in T a c (up T ctx) d (ptr_of T t) (ptr_of T u)"
  using assms by (simp add: rb_at_def)

lemma rb_at_color:
  assumes "rb_at T ctx t"
  shows "get_color T (ptr_of T t) = Inr (rcol t)"
proof (cases t)
  case Tip
  then show ?thesis using assms by (auto simp: rb_at_def nil_ok_def heap_accesses)
next
  case (Bin c l a r)
  then show ?thesis
    using assms by (auto simp: rb_at_def intro: node_in_access(5))
qed

text \<open>Painting the node at the position.\<close>

lemma rb_at_paint:
  assumes "rb_at T ctx (mk d c a t u)"
  shows "\<exists>T'. set_color T (Some a) c' = Inr T' \<and> rb_at T' ctx (mk d c' a t u) \<and> same_data T T' \<and> rb_root T' = rb_root T"
proof -
  note n = rb_at_node [OF assms]
  let ?T = "upd T a (\<lambda>n. n\<lparr>rb_color := c'\<rparr>)"
  have "set_color T (Some a) c' = Inr ?T" "same_data T ?T"
    using n by (simp_all add: node_in_def heap_accesses same_data_upd)
  moreover have "node_in ?T a c' (up T ctx) d (ptr_of T t) (ptr_of T u)"
    using n by (simp add: node_in_def)
  then have "rb_at ?T ctx (mk d c' a t u)"
    using assms n by (auto simp: rb_at_def node_in_def)
  ultimately show ?thesis by auto
qed


section \<open>Rotations\<close>

text \<open>The two assignments of a rotation that depend on what is there.\<close>

fun reparent :: "rbtree \<Rightarrow> ptr \<Rightarrow> ctree \<Rightarrow> rbtree" where
  "reparent T q Tip = T"
| "reparent T q (Bin c l a r) = upd T a (\<lambda>n. n\<lparr>rb_parent := q\<rparr>)"

fun relink :: "rbtree \<Rightarrow> frame list \<Rightarrow> ptr \<Rightarrow> rbtree" where
  "relink T [] p = T\<lparr>rb_root := p\<rparr>"
| "relink T (Frame d c a u # ctx) p = upd T a (upd_child d p)"

lemma reparent_fields [simp]:
  "rb_nil (reparent T q t) = rb_nil T" "rb_next (reparent T q t) = rb_next T" "rb_root (reparent T q t) = rb_root T"
  "ptr_of (reparent T q t) u = ptr_of T u" "up (reparent T q t) ctx = up T ctx"
  "b \<notin> set (cnodes t) \<Longrightarrow> rb_node (reparent T q t) b = rb_node T b"
  "b \<notin> set (cnodes t) \<Longrightarrow> rb_heap (reparent T q t) b = rb_heap T b"
  by (cases t; simp)+

lemma relink_fields [simp]:
  "rb_nil (relink T ctx p) = rb_nil T" "rb_next (relink T ctx p) = rb_next T"
  "ptr_of (relink T ctx p) u = ptr_of T u" "up (relink T ctx p) ctx' = up T ctx'"
  "b \<notin> set (ctx_nodes ctx) \<Longrightarrow> rb_node (relink T ctx p) b = rb_node T b"
  "b \<notin> set (ctx_nodes ctx) \<Longrightarrow> rb_heap (relink T ctx p) b = rb_heap T b"
  by (cases "(T, ctx, p)" rule: relink.cases; simp)+

lemma reparent_at:
  assumes "sub_at T q t" "distinct (cnodes t)" "nil_ok T"
  shows "(if ptr_of T t \<noteq> rb_nil T then set_parent T (ptr_of T t) q' else Inr T) = Inr (reparent T q' t)"
    "sub_at (reparent T q' t) q' t" "same_data T (reparent T q' t)" "nil_ok (reparent T q' t)"
proof -
  show "(if ptr_of T t \<noteq> rb_nil T then set_parent T (ptr_of T t) q' else Inr T) = Inr (reparent T q' t)"
    using assms by (cases t) (auto simp: node_in_def heap_accesses)
  show "same_data T (reparent T q' t)" "nil_ok (reparent T q' t)"
    using assms by (cases t; auto simp: node_in_def intro: same_data_upd)+
  show "sub_at (reparent T q' t) q' t"
  proof (cases t)
    case (Bin c l a r)
    then have "node_in (upd T a (\<lambda>n. n\<lparr>rb_parent := q'\<rparr>)) a c q' Lft (ptr_of T l) (ptr_of T r)"
      using assms(1) by (simp add: node_in_def)
    then show ?thesis using assms Bin by simp
  qed simp
qed

lemma sub_at_reparent [simp]: "set (cnodes t) \<inter> set (cnodes u) = {} \<Longrightarrow> sub_at (reparent T q t) p u = sub_at T p u"
  by (cases t) auto

lemma ctx_at_reparent [simp]: "set (cnodes t) \<inter> set (ctx_nodes ctx) = {} \<Longrightarrow> ctx_at (reparent T q t) p ctx = ctx_at T p ctx"
  by (cases t) auto

lemma node_in_reparent [simp]: "b \<notin> set (cnodes t) \<Longrightarrow> node_in (reparent T q' t) b c q d p1 p2 = node_in T b c q d p1 p2"
  by (cases t) auto

lemma sub_at_relink [simp]: "set (ctx_nodes ctx) \<inter> set (cnodes u) = {} \<Longrightarrow> sub_at (relink T ctx p) q u = sub_at T q u"
  by (cases "(T, ctx, p)" rule: relink.cases) auto

lemma node_in_relink [simp]: "b \<notin> set (ctx_nodes ctx) \<Longrightarrow> node_in (relink T ctx p) b c q d p1 p2 = node_in T b c q d p1 p2"
  by (cases "(T, ctx, p)" rule: relink.cases) auto

lemma relink_at:
  assumes "ctx_at T p0 ctx" "distinct (ctx_nodes ctx)" "nil_ok T"
  shows "ctx_at (relink T ctx p) p ctx" "same_data T (relink T ctx p)" "nil_ok (relink T ctx p)"
proof -
  show "same_data T (relink T ctx p)" "nil_ok (relink T ctx p)"
    using assms by (cases "(T, ctx, p)" rule: relink.cases; auto simp: node_in_def intro: same_data_upd)+
  show "ctx_at (relink T ctx p) p ctx"
  proof (cases ctx rule: ctx_nodes.cases)
    case (2 e c a u ctx')
    then have "node_in (upd T a (upd_child e p)) a c (up T ctx') e p (ptr_of T u)"
      using assms(1) by (simp add: node_in_def)
    then show ?thesis using assms 2 by auto
  qed simp
qed

lemma relink_run:
  assumes "ctx_at T (Some x) ctx" "x \<notin> set (ctx_nodes ctx)" "Some x \<noteq> rb_nil T"
  shows "(if up T ctx = rb_nil T then Inr (T\<lparr>rb_root := p\<rparr>)
      else bindr (get_child T d (up T ctx)) (\<lambda>q. if Some x = q then set_child T d (up T ctx) p else set_child T (other d) (up T ctx) p))
      = Inr (relink T ctx p)"
proof (cases ctx rule: ctx_nodes.cases)
  case (2 e c a u ctx')
  have n: "node_in T a c (up T ctx') e (Some x) (ptr_of T u)" and "x \<notin> set (cnodes u)"
    using assms 2 by auto
  then have "ptr_of T u \<noteq> Some x"
    using assms(3) by (cases u) auto
  moreover have "e = d \<or> e = other d"
    by (cases e; cases d) auto
  ultimately show ?thesis
    using n 2 node_in_other [of T a c "up T ctx'" d] by (auto simp: node_in_def heap_accesses)
qed simp

lemma rotate_at:
  assumes at: "rb_at T ctx (mk d c x t (mk d c' y u v))"
  shows "\<exists>T'. rbtree_rotate d T (Some x) = Inr T' \<and> rb_at T' ctx (mk d c' y (mk d c x t u) v) \<and> same_data T T'"
proof -
  have nil: "nil_ok T" and sub: "sub_at T (Some x) t" "sub_at T (Some y) u" "sub_at T (Some y) v"
    and x: "node_in T x c (up T ctx) d (ptr_of T t) (Some y)" and y: "node_in T y c' (Some x) d (ptr_of T u) (ptr_of T v)"
    and ctx: "ctx_at T (Some x) ctx" "distinct (ctx_nodes ctx)"
    using at by (auto simp: rb_at_def)
  have dist: "x \<noteq> y" "x \<notin> set (cnodes t)" "x \<notin> set (cnodes u)" "x \<notin> set (cnodes v)"
      "y \<notin> set (cnodes t)" "y \<notin> set (cnodes u)" "y \<notin> set (cnodes v)" "x \<notin> set (ctx_nodes ctx)" "y \<notin> set (ctx_nodes ctx)"
      "set (cnodes u) \<inter> set (cnodes t) = {}" "set (cnodes u) \<inter> set (cnodes v) = {}" "set (cnodes u) \<inter> set (ctx_nodes ctx) = {}"
      "set (ctx_nodes ctx) \<inter> set (cnodes t) = {}" "set (ctx_nodes ctx) \<inter> set (cnodes u) = {}" "set (ctx_nodes ctx) \<inter> set (cnodes v) = {}"
      "distinct (cnodes u)"
    using at by (auto simp: rb_at_def)
  define T1 where "T1 = upd T x (upd_child (other d) (ptr_of T u))"
  define T2 where "T2 = reparent T1 (Some x) u"
  define T3 where "T3 = upd T2 y (\<lambda>n. n\<lparr>rb_parent := up T ctx\<rparr>)"
  define T4 where "T4 = relink T3 ctx (Some y)"
  define T5 where "T5 = upd T4 y (upd_child d (Some x))"
  define T6 where "T6 = upd T5 x (\<lambda>n. n\<lparr>rb_parent := Some y\<rparr>)"
  note defs = T6_def T5_def T4_def T3_def T2_def T1_def
  have nn: "Some x \<noteq> rb_nil T" "Some y \<noteq> rb_nil T" "rb_heap T x \<noteq> None" "rb_heap T y \<noteq> None"
    using x y by (simp_all add: node_in_def)
  have nils: "nil_ok T1" "rb_nil T1 = rb_nil T" "ptr_of T1 u = ptr_of T u"
    using nil nn by (simp_all add: T1_def)
  have s1: "sub_at T1 (Some y) u"
    using sub(2) dist by (simp add: T1_def)
  have r2: "(if ptr_of T u \<noteq> rb_nil T1 then set_parent T1 (ptr_of T u) (Some x) else Inr T1) = Inr T2"
      "sub_at T2 (Some x) u" "same_data T1 T2" "nil_ok T2"
    unfolding T2_def by (fact reparent_at [OF s1 dist(16) nils(1), of "Some x", unfolded nils(3)])+
  have h2: "rb_heap T2 x \<noteq> None" "rb_heap T2 y \<noteq> None" "rb_parent (rb_node T2 x) = up T ctx" "rb_nil T2 = rb_nil T"
    using x y dist nn by (simp_all add: T2_def T1_def node_in_def)
  have c3: "ctx_at T3 (Some x) ctx" "nil_ok T3" "rb_nil T3 = rb_nil T" "up T3 ctx = up T ctx"
    using ctx dist nn r2(4) by (simp_all add: T3_def T2_def T1_def)
  have "Some x \<noteq> rb_nil T3"
    using nn c3 by simp
  note relk = relink_run [OF c3(1) dist(8) this, where p = "Some y" and d = d, unfolded c3(4)]
    relink_at [OF c3(1) ctx(2) c3(2), where p = "Some y"]
  have r4: "(if up T ctx = rb_nil T3 then Inr (T3\<lparr>rb_root := Some y\<rparr>)
      else bindr (get_child T3 d (up T ctx)) (\<lambda>q. if Some x = q then set_child T3 d (up T ctx) (Some y) else set_child T3 (other d) (up T ctx) (Some y)))
      = Inr T4" "ctx_at T4 (Some y) ctx" "same_data T3 T4" "nil_ok T4"
    unfolding T4_def
    by (fact relk)+
  have h4: "rb_heap T4 y \<noteq> None" "rb_heap T5 x \<noteq> None"
    using h2 dist by (simp_all add: T5_def T4_def T3_def)
  have e: "set_child T (other d) (Some x) (ptr_of T u) = Inr T1" "get_parent T2 (Some x) = Inr (up T ctx)"
      "set_parent T2 (Some y) (up T ctx) = Inr T3" "set_child T4 d (Some y) (Some x) = Inr T5" "set_parent T5 (Some x) (Some y) = Inr T6"
    using nn h2 h4 by (simp_all add: heap_accesses T1_def T3_def T5_def T6_def)
  have run: "rbtree_rotate d T (Some x) = Inr T6"
    unfolding rbtree_rotate_def
    by (simp only: node_in_access(4) [OF x] node_in_access(3) [OF y] e r2(1) r4(1) bindr_simps)
  have "same_data T T1" "same_data T2 T3" "same_data T4 T5" "same_data T5 T6"
    unfolding T1_def T3_def T5_def T6_def
    by (rule same_data_upd; use nn h2 h4 dist in \<open>simp add: T5_def T4_def T3_def T2_def T1_def\<close>)+
  then have same: "same_data T T6"
    using r2(3) r4(3) same_data_trans by blast
  have "node_in T6 y c' (up T ctx) d (Some x) (ptr_of T v)" "node_in T6 x c (Some y) d (ptr_of T t) (ptr_of T u)"
    using x y dist by (simp_all add: defs node_in_def)
  moreover have "sub_at T6 (Some x) t" "sub_at T6 (Some x) u" "sub_at T6 (Some y) v" "ctx_at T6 (Some y) ctx" "nil_ok T6"
    using sub dist r2(2) r4(2,4) nn by (simp_all add: defs)
  ultimately have "rb_at T6 ctx (mk d c' y (mk d c x t u) v)"
    using at by (auto simp: rb_at_def defs)
  with run same show ?thesis by blast
qed


section \<open>Colours and black heights\<close>

fun bh :: "ctree \<Rightarrow> nat" where
  "bh Tip = 0"
| "bh (Bin c l a r) = (if c = BLACK then Suc (bh l) else bh l)"

fun invh :: "ctree \<Rightarrow> bool" where
  "invh Tip \<longleftrightarrow> True"
| "invh (Bin c l a r) \<longleftrightarrow> bh l = bh r \<and> invh l \<and> invh r"

fun invc :: "ctree \<Rightarrow> bool" where
  "invc Tip \<longleftrightarrow> True"
| "invc (Bin c l a r) \<longleftrightarrow> (c = RED \<longrightarrow> rcol l = BLACK \<and> rcol r = BLACK) \<and> invc l \<and> invc r"

fun paint :: "color \<Rightarrow> ctree \<Rightarrow> ctree" where
  "paint c Tip = Tip"
| "paint c (Bin b l a r) = Bin c l a r"

text \<open>The path around a tree of black height \<open>h\<close>, and around a tree whose root has a given colour.\<close>

fun hctx :: "nat \<Rightarrow> frame list \<Rightarrow> bool" where
  "hctx h [] \<longleftrightarrow> True"
| "hctx h (Frame d c a u # ctx) \<longleftrightarrow> bh u = h \<and> invh u \<and> hctx (if c = BLACK then Suc h else h) ctx"

fun cctx :: "color \<Rightarrow> frame list \<Rightarrow> bool" where
  "cctx col [] \<longleftrightarrow> True"
| "cctx col (Frame d c a u # ctx) \<longleftrightarrow> (c = RED \<longrightarrow> col = BLACK \<and> rcol u = BLACK) \<and> invc u \<and> cctx c ctx"

fun top_col :: "color \<Rightarrow> frame list \<Rightarrow> color" where
  "top_col col [] = col"
| "top_col col (Frame d c a u # ctx) = top_col c ctx"

lemma color_neq [simp]: "c \<noteq> BLACK \<longleftrightarrow> c = RED" "c \<noteq> RED \<longleftrightarrow> c = BLACK"
  by (cases c; simp)+

lemma mk_invs [simp]:
  "invh (mk d c a t u) \<longleftrightarrow> bh t = bh u \<and> invh t \<and> invh u"
  "invc (mk d c a t u) \<longleftrightarrow> (c = RED \<longrightarrow> rcol t = BLACK \<and> rcol u = BLACK) \<and> invc t \<and> invc u"
  "paint b (mk d c a t u) = mk d b a t u"
  by (cases d; auto)+

lemma bh_mk: "bh t = bh u \<Longrightarrow> bh (mk d c a t u) = (if c = BLACK then Suc (bh u) else bh u)"
  by (cases d) auto

lemma plug_invh: "invh (plug ctx t) \<longleftrightarrow> invh t \<and> hctx (bh t) ctx"
  by (induction ctx t rule: plug.induct) (auto simp: bh_mk)

lemma plug_invc: "invc (plug ctx t) \<longleftrightarrow> invc t \<and> cctx (rcol t) ctx"
  by (induction ctx t rule: plug.induct) auto

lemma plug_rcol: "rcol (plug ctx t) = top_col (rcol t) ctx"
  by (induction ctx t rule: plug.induct) auto

lemma plug_neq_Tip: "t \<noteq> Tip \<Longrightarrow> plug ctx t \<noteq> Tip"
  by (induction ctx t rule: plug.induct) auto

lemma top_col_nonempty: "ctx \<noteq> [] \<Longrightarrow> top_col b ctx = top_col b' ctx"
  by (cases ctx rule: ctx_nodes.cases) auto

lemma cctx_weaken: "cctx RED ctx \<Longrightarrow> cctx col ctx"
  by (cases ctx rule: ctx_nodes.cases) auto

lemma cnodes_mk_cong: "cnodes t = cnodes t' \<Longrightarrow> cnodes u = cnodes u' \<Longrightarrow> cnodes (mk d c a t u) = cnodes (mk d c' a t' u')"
  by (cases d) auto

lemma cnodes_plug_cong: "cnodes t = cnodes t' \<Longrightarrow> cnodes (plug ctx t) = cnodes (plug ctx t')"
proof (induction ctx t arbitrary: t' rule: plug.induct)
  case (2 d c a u ctx t)
  show ?case
    using "2.IH" [OF cnodes_mk_cong [OF "2.prems" refl]] by simp
qed simp

lemma cnodes_rotate: "cnodes (mk d c x t (mk d c' y u v)) = cnodes (mk d b y (mk d b' x t u) v)"
  by (cases d) auto

lemma paint_simps [simp]:
  "cnodes (paint c t) = cnodes t" "rcol (paint BLACK t) = BLACK" "invh (paint c t) = invh t"
  "paint c t = Tip \<longleftrightarrow> t = Tip" "paint b (paint c t) = paint b t"
  by (cases t; simp)+

lemma invc_paint: "invc t \<Longrightarrow> invc (paint BLACK t)"
  by (cases t) auto

lemma length_ctx_nodes: "length ctx \<le> length (ctx_nodes ctx)"
  by (induction ctx rule: ctx_nodes.induct) auto

lemma sub_at_below: "sub_at T q t \<Longrightarrow> \<forall>a \<in> set (cnodes t). a < rb_next T \<and> Some a \<noteq> rb_nil T"
  by (induction t arbitrary: q) (auto simp: node_in_def)

lemma ctx_at_below: "ctx_at T p ctx \<Longrightarrow> \<forall>a \<in> set (ctx_nodes ctx). a < rb_next T \<and> Some a \<noteq> rb_nil T"
  by (induction T p ctx rule: ctx_at.induct) (auto simp: node_in_def dest: sub_at_below)

text \<open>The bound of the loops is never reached: every node of the path has an address of its own.\<close>

lemma rb_at_bound:
  assumes "rb_at T ctx t"
  shows "length (cnodes t @ ctx_nodes ctx) < rb_next T" "length ctx + 2 < loop_bound T"
proof -
  obtain n where n: "rb_nil T = Some n" "n < rb_next T"
    using assms by (auto simp: rb_at_def nil_ok_def)
  have "set (cnodes t @ ctx_nodes ctx) \<subseteq> {..< rb_next T} - {n}"
    using assms sub_at_below ctx_at_below n by (fastforce simp: rb_at_def)
  then have "card (set (cnodes t @ ctx_nodes ctx)) \<le> card ({..< rb_next T} - {n})"
    by (intro card_mono) auto
  then have "length (cnodes t @ ctx_nodes ctx) \<le> rb_next T - 1"
    using assms n(2) distinct_card [of "cnodes t @ ctx_nodes ctx"] unfolding rb_at_def by simp
  then show "length (cnodes t @ ctx_nodes ctx) < rb_next T"
    using n(2) by simp
  then show "length ctx + 2 < loop_bound T"
    using length_ctx_nodes [of ctx] by (simp add: loop_bound_def)
qed


section \<open>The order of the nodes around a position\<close>

fun lnodes :: "frame list \<Rightarrow> nat list" where
  "lnodes [] = []"
| "lnodes (Frame d c a u # ctx) = (case d of Lft \<Rightarrow> lnodes ctx | Rgt \<Rightarrow> lnodes ctx @ cnodes u @ [a])"

fun rnodes :: "frame list \<Rightarrow> nat list" where
  "rnodes [] = []"
| "rnodes (Frame d c a u # ctx) = (case d of Lft \<Rightarrow> a # cnodes u @ rnodes ctx | Rgt \<Rightarrow> rnodes ctx)"

lemma cnodes_plug: "cnodes (plug ctx t) = lnodes ctx @ cnodes t @ rnodes ctx"
proof (induction ctx t rule: plug.induct)
  case (2 d c a u ctx t)
  then show ?case by (cases d) auto
qed simp

section \<open>The invariant of the engine\<close>

definition rb_tree :: "rbtree \<Rightarrow> ctree \<Rightarrow> bool" where
  "rb_tree T t \<longleftrightarrow> rb_at T [] t \<and> invh t \<and> invc t \<and> rcol t = BLACK \<and> sorted_wrt (<) (map (key_at T) (cnodes t))"

lemma sub_at_tree: "sub_at T q t \<Longrightarrow> tree_at T (ptr_of T t) (strip t)"
  by (induction t arbitrary: q) (auto simp: node_in_def rb_node_def)

lemma rb_tree_search: "rb_tree T t \<Longrightarrow> search_tree T (strip t)"
  unfolding rb_tree_def search_tree_def rb_at_def nil_ok_def
  using sub_at_tree [of T "rb_nil T" t] sub_at_below [of T "rb_nil T" t] by (auto simp: rb_node_def)

lemma same_data_keys: "same_data T T' \<Longrightarrow> key_at T' = key_at T" "same_data T T' \<Longrightarrow> val_at T' = val_at T"
  "same_data T T' \<Longrightarrow> entry_at T' = entry_at T"
  by (auto simp: same_data_def key_at_def val_at_def entry_at_def)

lemma map_of_insert_fresh: "k \<notin> fst ` set xs \<Longrightarrow> map_of (xs @ (k, v) # ys) = (map_of (xs @ ys))(k \<mapsto> v)"
  by (induction xs) auto

lemma map_of_cut:
  assumes "k \<notin> fst ` set (xs @ ys)"
  shows "map_of (xs @ ys) = (map_of (xs @ (k, v) # ys))(k := None)"
proof -
  have "map_of (xs @ ys) k = None"
    using assms unfolding map_of_eq_None_iff .
  moreover have "map_of (xs @ (k, v) # ys) = (map_of (xs @ ys))(k \<mapsto> v)"
    by (rule map_of_insert_fresh) (use assms in auto)
  ultimately show ?thesis by (simp add: fun_upd_idem)
qed

lemma rb_tree_entries: "rb_tree T t \<Longrightarrow> rbtree_entries T = map (entry_at T) (cnodes t)"
  using rbtree_entries_tree [OF rb_tree_search] by simp

text \<open>The final step of both rebalancings: the root is painted black.\<close>

lemma paint_root:
  assumes "rb_at T [] u" "u \<noteq> Tip" "invh u" "invc (paint BLACK u)" "sorted_wrt (<) (map (key_at T) (cnodes u))"
  shows "\<exists>T'. set_color T (rb_root T) BLACK = Inr T' \<and> same_data T T' \<and> rb_tree T' (paint BLACK u)"
proof -
  obtain c a l r where u: "u = mk Lft c a l r"
    using mk_exists assms(2) by blast
  then have root: "rb_root T = Some a"
    using assms(1) by (simp add: rb_at_def)
  obtain T' where T': "set_color T (Some a) BLACK = Inr T'" "rb_at T' [] (mk Lft BLACK a l r)" "same_data T T'"
    using rb_at_paint [of T "[]" Lft c a l r BLACK] assms(1) u by blast
  then have "rb_tree T' (paint BLACK u)"
    using assms(3-5) u same_data_keys(1) [OF T'(3)] by (auto simp: rb_tree_def)
  with T' root show ?thesis by auto
qed

end
