(* ===== verification/Rbtree_Insert.thy ===== *)
theory Rbtree_Insert
  imports Rbtree_Zipper
begin

text \<open>
  Insertion into the red-black tree: one round of \<open>rbtree_insert_fixup\<close> on the picture of
  the heap, the loop, the descent to the place of a new key, and \<open>rbtree_insert\<close> as a
  whole.
\<close>

section \<open>Rebalancing\<close>

text \<open>Which side of the grandparent the parent is on, as the source finds out.\<close>

lemma found_side:
  assumes "rb_at T (Frame e c g w # ctx) t" "ptr_of T t = Some p" "t \<noteq> Tip"
  shows "get_child T Lft (Some g) = Inr (if e = Lft then Some p else ptr_of T w)"
    "(if Some p = (if e = Lft then Some p else ptr_of T w) then Lft else Rgt) = e"
proof -
  have n: "node_in T g c (up T ctx) e (Some p) (ptr_of T w)"
    using assms by (simp add: rb_at_def)
  then show "get_child T Lft (Some g) = Inr (if e = Lft then Some p else ptr_of T w)"
    using node_in_access(3,4) [OF n] by (cases e) auto
  have "p \<in> set (cnodes t)"
    using assms(2,3) by (cases t) auto
  then have "p \<notin> set (cnodes w)"
    using assms(1) by (auto simp: rb_at_def)
  moreover have "Some p \<noteq> rb_nil T"
    using assms by (cases t) (auto simp: rb_at_def node_in_def)
  ultimately have "ptr_of T w \<noteq> Some p"
    by (cases w) auto
  then show "(if Some p = (if e = Lft then Some p else ptr_of T w) then Lft else Rgt) = e"
    by (cases e) auto
qed

text \<open>The uncle is red: three nodes are painted and the violation moves up by two.\<close>

lemma step_red_uncle:
  assumes at: "rb_at T (Frame d RED p s # Frame e BLACK g (mk e RED y u v) # ctx) t"
  shows "\<exists>T'. insert_fixup_step e T z (Some p) (Some g) = Inr (T', Some g) \<and> same_data T T' \<and>
    rb_at T' ctx (mk e RED g (mk d BLACK p t s) (mk e BLACK y u v))"
proof -
  have n: "node_in T g BLACK (up T ctx) e (Some p) (Some y)"
    using at by (simp add: rb_at_def)
  have y: "get_color T (Some y) = Inr RED"
    using rb_at_color [of T "Frame (other e) BLACK g (mk d RED p t s) # ctx" "mk e RED y u v"] at
    by (simp add: rb_at_up mk_other)
  obtain T1 where T1: "set_color T (Some p) BLACK = Inr T1" "same_data T T1"
      "rb_at T1 (Frame e BLACK g (mk e RED y u v) # ctx) (mk d BLACK p t s)"
    using rb_at_paint [of T _ d RED p t s BLACK] at unfolding rb_at_up [of T d] by blast
  have "rb_at T1 (Frame (other e) BLACK g (mk d BLACK p t s) # ctx) (mk e RED y u v)"
    using T1(3) by (simp add: rb_at_up mk_other)
  then obtain T2 where T2: "set_color T1 (Some y) BLACK = Inr T2" "same_data T1 T2"
      "rb_at T2 (Frame (other e) BLACK g (mk d BLACK p t s) # ctx) (mk e BLACK y u v)"
    using rb_at_paint by blast
  then have "rb_at T2 ctx (mk e BLACK g (mk d BLACK p t s) (mk e BLACK y u v))"
    by (simp add: rb_at_up mk_other)
  then obtain T3 where T3: "set_color T2 (Some g) RED = Inr T3" "same_data T2 T3"
      "rb_at T3 ctx (mk e RED g (mk d BLACK p t s) (mk e BLACK y u v))"
    using rb_at_paint by blast
  have "insert_fixup_step e T z (Some p) (Some g) = Inr (T3, Some g)"
    by (simp add: insert_fixup_step_def node_in_access(4) [OF n] y T1(1) T2(1) T3(1))
  with T1 T2 T3 same_data_trans show ?thesis by blast
qed

text \<open>The uncle is black and the new node is on the outer side: paint and rotate.\<close>

lemma step_outer:
  assumes at: "rb_at T (Frame e RED q r # Frame e BLACK g w # ctx) (mk e RED z a b)"
  shows "\<exists>T'. bindr (get_parent T (Some z)) (\<lambda>zp.
         bindr (set_color T zp BLACK) (\<lambda>T.
         bindr (get_parent T zp) (\<lambda>zpp.
         bindr (set_color T zpp RED) (\<lambda>T.
         bindr (rbtree_rotate (other e) T zpp) (\<lambda>T. Inr (T, Some z)))))) = Inr (T', Some z) \<and> same_data T T' \<and>
    rb_at T' (Frame e BLACK q (mk e RED g r w) # ctx) (mk e RED z a b)"
proof -
  have p: "get_parent T (Some z) = Inr (Some q)"
    using rb_at_node [OF at] by (auto intro: node_in_access(6))
  have "rb_at T (Frame e BLACK g w # ctx) (mk e RED q (mk e RED z a b) r)"
    using at by (simp add: rb_at_up)
  then obtain T1 where T1: "set_color T (Some q) BLACK = Inr T1" "same_data T T1"
      "rb_at T1 (Frame e BLACK g w # ctx) (mk e BLACK q (mk e RED z a b) r)"
    using rb_at_paint by blast
  have p1: "get_parent T1 (Some q) = Inr (Some g)"
    using rb_at_node [OF T1(3)] by (auto intro: node_in_access(6))
  have "rb_at T1 ctx (mk e BLACK g (mk e BLACK q (mk e RED z a b) r) w)"
    using T1(3) by (simp add: rb_at_up)
  then obtain T2 where T2: "set_color T1 (Some g) RED = Inr T2" "same_data T1 T2"
      "rb_at T2 ctx (mk e RED g (mk e BLACK q (mk e RED z a b) r) w)"
    using rb_at_paint by blast
  have "rb_at T2 ctx (mk (other e) RED g w (mk (other e) BLACK q r (mk e RED z a b)))"
    using T2(3) by (simp add: mk_other)
  then obtain T3 where T3: "rbtree_rotate (other e) T2 (Some g) = Inr T3" "same_data T2 T3"
      "rb_at T3 ctx (mk (other e) BLACK q (mk (other e) RED g w r) (mk e RED z a b))"
    using rotate_at by blast
  then have "rb_at T3 (Frame e BLACK q (mk e RED g r w) # ctx) (mk e RED z a b)"
    by (simp add: rb_at_up mk_other)
  moreover have "same_data T T3"
    using T1(2) T2(2) T3(2) same_data_trans by blast
  ultimately show ?thesis
    by (intro exI [of _ T3]) (simp add: p T1(1) p1 T2(1) T3(1))
qed

text \<open>The uncle is black: if the new node is on the inner side it is rotated outwards first.\<close>

lemma step_black_uncle:
  assumes at: "rb_at T (Frame d RED p s # Frame e BLACK g w # ctx) (mk e RED z a b)" and w: "rcol w = BLACK"
  shows "\<exists>T' q z' r t. insert_fixup_step e T (Some z) (Some p) (Some g) = Inr (T', Some z') \<and> same_data T T' \<and>
    rb_at T' (Frame e BLACK q (mk e RED g r w) # ctx) t \<and> ptr_of T' t = Some z' \<and>
    cnodes (mk e BLACK q t (mk e RED g r w)) = cnodes (mk e BLACK g (mk d RED p (mk e RED z a b) s) w) \<and>
    (\<exists>x y. t = mk e RED z' x y \<and> {x, y, r} = {a, b, s})"
proof -
  have n: "node_in T g BLACK (up T ctx) e (Some p) (ptr_of T w)"
    using at by (simp add: rb_at_def)
  have c: "get_color T (ptr_of T w) = Inr BLACK"
    using rb_at_color [of T "Frame (other e) BLACK g (mk d RED p (mk e RED z a b) s) # ctx" w] at w
    by (simp add: rb_at_up mk_other)
  have pz: "node_in T p RED (Some g) d (Some z) (ptr_of T s)"
    using at by (simp add: rb_at_def)
  have "z \<notin> set (cnodes s)" "Some z \<noteq> rb_nil T"
    using at by (auto simp: rb_at_def node_in_def)
  then have s: "ptr_of T s \<noteq> Some z"
    by (cases s) auto
  have de: "d = e \<or> d = other e"
    by (cases d; cases e) auto
  show ?thesis
  proof (cases "d = e")
    case True
    have g: "get_child T (other e) (Some p) = Inr (ptr_of T s)"
      using node_in_access(4) [OF pz] True by simp
    obtain T' where "bindr (get_parent T (Some z)) (\<lambda>zp.
         bindr (set_color T zp BLACK) (\<lambda>T. bindr (get_parent T zp) (\<lambda>zpp. bindr (set_color T zpp RED) (\<lambda>T.
         bindr (rbtree_rotate (other e) T zpp) (\<lambda>T. Inr (T, Some z)))))) = Inr (T', Some z)" "same_data T T'"
        "rb_at T' (Frame e BLACK p (mk e RED g s w) # ctx) (mk e RED z a b)"
      using step_outer [OF at [unfolded True]] by blast
    moreover from this(1) have "insert_fixup_step e T (Some z) (Some p) (Some g) = Inr (T', Some z)"
      using s by (simp add: insert_fixup_step_def node_in_access(4) [OF n] c g)
    moreover have "cnodes (mk e BLACK p (mk e RED z a b) (mk e RED g s w)) = cnodes (mk e BLACK g (mk d RED p (mk e RED z a b) s) w)"
      using True by (cases e) auto
    ultimately show ?thesis by fastforce
  next
    case False
    then have d: "d = other e" using de by blast
    have g: "get_child T (other e) (Some p) = Inr (Some z)"
      using node_in_access(3) [OF pz] d by simp
    have "rb_at T (Frame e BLACK g w # ctx) (mk e RED p s (mk e RED z a b))"
      using at d by (simp add: rb_at_up mk_other)
    then obtain T1 where T1: "rbtree_rotate e T (Some p) = Inr T1" "same_data T T1"
        "rb_at T1 (Frame e BLACK g w # ctx) (mk e RED z (mk e RED p s a) b)"
      using rotate_at by blast
    then have "rb_at T1 (Frame e RED z b # Frame e BLACK g w # ctx) (mk e RED p s a)"
      by (simp add: rb_at_up)
    then obtain T' where T': "bindr (get_parent T1 (Some p)) (\<lambda>zp.
         bindr (set_color T1 zp BLACK) (\<lambda>T. bindr (get_parent T zp) (\<lambda>zpp. bindr (set_color T zpp RED) (\<lambda>T.
         bindr (rbtree_rotate (other e) T zpp) (\<lambda>T. Inr (T, Some p)))))) = Inr (T', Some p)" "same_data T1 T'"
        "rb_at T' (Frame e BLACK z (mk e RED g b w) # ctx) (mk e RED p s a)"
      using step_outer by blast
    have "insert_fixup_step e T (Some z) (Some p) (Some g) = Inr (T', Some p)"
      using T'(1) T1(1) by (simp add: insert_fixup_step_def node_in_access(4) [OF n] c g)
    moreover have "cnodes (mk e BLACK z (mk e RED p s a) (mk e RED g b w)) = cnodes (mk e BLACK g (mk d RED p (mk e RED z a b) s) w)"
      using d by (cases e) auto
    moreover have "same_data T T'"
      using T1(2) T'(2) same_data_trans by blast
    moreover have "ptr_of T' (mk e RED p s a) = Some p" "{s, a, b} = {a, b, s}"
      by auto
    ultimately show ?thesis
      using T'(3) by blast
  qed
qed

text \<open>The whole loop: it ends, and leaves a tree with the same nodes in the same order and equal black heights.\<close>

lemma insert_fixup_loop_at:
  "rb_at T ctx (mk e RED z a b) \<Longrightarrow> invc (mk e RED z a b) \<Longrightarrow> invh (mk e RED z a b) \<Longrightarrow> hctx (bh a) ctx \<Longrightarrow>
   cctx BLACK ctx \<Longrightarrow> top_col BLACK ctx = BLACK \<Longrightarrow> length ctx < fuel \<Longrightarrow>
   \<exists>T' u. insert_fixup_loop fuel T (Some z) = Inr T' \<and> same_data T T' \<and> rb_at T' [] u \<and> u \<noteq> Tip \<and>
     cnodes u = cnodes (plug ctx (mk e RED z a b)) \<and> invh u \<and> invc (paint BLACK u)"
proof (induction fuel arbitrary: T ctx e z a b)
  case (Suc fuel)
  note at = Suc.prems(1)
  let ?t = "mk e RED z a b"
  have hz: "bh ?t = bh a"
    using Suc.prems(3) by (simp add: bh_mk)
  have p: "get_parent T (Some z) = Inr (up T ctx)"
    by (rule node_in_access(6) [OF rb_at_node [OF at]])
  show ?case
  proof (cases "\<exists>d p s ctx1. ctx = Frame d RED p s # ctx1")
    case False
    have "get_color T (up T ctx) = Inr BLACK"
    proof (cases ctx rule: ctx_nodes.cases)
      case 1
      then show ?thesis using at by (auto simp: rb_at_def nil_ok_def heap_accesses)
    next
      case (2 d c q s ctx1)
      then show ?thesis
        using False at node_in_access(5) [of T q c] by (cases c) (auto simp: rb_at_def)
    qed
    then have "insert_fixup_loop (Suc fuel) T (Some z) = Inr T"
      using p by simp
    moreover have "invc (paint BLACK (plug ctx ?t))"
    proof (cases ctx rule: ctx_nodes.cases)
      case 1
      then show ?thesis using Suc.prems(2) by (simp add: invc_paint)
    next
      case (2 d c q s ctx1)
      then have "c = BLACK" using False by (cases c) auto
      then have "invc (plug ctx ?t)"
        using 2 Suc.prems(2,5) by (simp add: plug_invc)
      then show ?thesis by (rule invc_paint)
    qed
    moreover have "invh (plug ctx ?t)"
      using Suc.prems(3,4) hz by (simp add: plug_invh)
    ultimately show ?thesis
      using at by (intro exI [of _ T] exI [of _ "plug ctx ?t"]) (simp add: rb_at_plug plug_neq_Tip)
  next
    case True
    then obtain d q s ctx1 where ctx1: "ctx = Frame d RED q s # ctx1" by blast
    then obtain f c g w ctx2 where "ctx1 = Frame f c g w # ctx2"
      using Suc.prems(6) by (cases ctx1 rule: ctx_nodes.cases) auto
    moreover have "c = BLACK"
      using Suc.prems(5) ctx1 calculation by (cases c) auto
    ultimately have ctx: "ctx = Frame d RED q s # Frame f BLACK g w # ctx2"
      using ctx1 by simp
    have inv: "rcol s = BLACK" "invc s" "invc w" "cctx BLACK ctx2" "bh s = bh a" "invh s" "bh w = bh a" "invh w"
        "hctx (Suc (bh a)) ctx2" "invc a" "invc b" "rcol a = BLACK" "rcol b = BLACK" "bh b = bh a" "invh a" "invh b"
      using Suc.prems(2-5) ctx by simp_all
    have at2: "rb_at T (Frame f BLACK g w # ctx2) (mk d RED q ?t s)"
      using at ctx by (simp add: rb_at_up)
    have q: "get_color T (Some q) = Inr RED" "get_parent T (Some q) = Inr (Some g)"
      using node_in_access(5,6) [OF rb_at_node [OF at2]] by simp_all
    note side = found_side [OF at2, of q]
    have run: "insert_fixup_loop (Suc fuel) T (Some z) =
        bindr (insert_fixup_step f T (Some z) (Some q) (Some g)) (\<lambda>(T, z). insert_fixup_loop fuel T z)"
      using p ctx q side by (simp del: split_paired_All)
    show ?thesis
    proof (cases "rcol w")
      case RED
      then obtain y u v where w: "w = mk f RED y u v"
        using mk_exists [of w f] by (cases "w = Tip") auto
      obtain T1 where T1: "insert_fixup_step f T (Some z) (Some q) (Some g) = Inr (T1, Some g)" "same_data T T1"
          "rb_at T1 ctx2 (mk f RED g (mk d BLACK q ?t s) (mk f BLACK y u v))"
        using step_red_uncle [OF at [unfolded ctx w]] by blast
      have b: "bh (mk d BLACK q ?t s) = Suc (bh a)"
        using inv hz by (simp add: bh_mk)
      have "bh u = bh a" "bh v = bh a" "invh u" "invh v" "invc u" "invc v"
        using inv w bh_mk [of u v f RED y] by auto
      then have "\<exists>T' t'. insert_fixup_loop fuel T1 (Some g) = Inr T' \<and> same_data T1 T' \<and> rb_at T' [] t' \<and> t' \<noteq> Tip \<and>
          cnodes t' = cnodes (plug ctx2 (mk f RED g (mk d BLACK q ?t s) (mk f BLACK y u v))) \<and> invh t' \<and> invc (paint BLACK t')"
        using Suc.prems(2,3,6,7) ctx inv b hz by (intro Suc.IH [OF T1(3)]) (simp_all add: bh_mk)
      moreover have "cnodes (plug ctx2 (mk f RED g (mk d BLACK q ?t s) (mk f BLACK y u v))) = cnodes (plug ctx ?t)"
        unfolding ctx w plug.simps by (intro cnodes_plug_cong cnodes_mk_cong refl)
      ultimately show ?thesis
        using run T1(1,2) same_data_trans by fastforce
    next
      case BLACK
      obtain a' b' where ab: "?t = mk f RED z a' b'" "{a', b'} = {a, b}"
        by (cases "e = f"; cases e; cases f) auto
      obtain T1 q' z' r t x y where T1: "insert_fixup_step f T (Some z) (Some q) (Some g) = Inr (T1, Some z')" "same_data T T1"
          "rb_at T1 (Frame f BLACK q' (mk f RED g r w) # ctx2) t" "ptr_of T1 t = Some z'"
          "cnodes (mk f BLACK q' t (mk f RED g r w)) = cnodes (mk f BLACK g (mk d RED q ?t s) w)"
          "t = mk f RED z' x y" "{x, y, r} = {a', b', s}"
        using step_black_uncle [OF at [unfolded ctx ab(1)] BLACK] ab(1) by auto
      have "{x, y, r} = {a, b, s}"
        using T1(7) ab(2) by auto
      then have parts: "\<forall>k \<in> {x, y, r}. rcol k = BLACK \<and> invc k \<and> invh k \<and> bh k = bh a"
        using inv by auto
      let ?u = "plug (Frame f BLACK q' (mk f RED g r w) # ctx2) t"
      have "invh ?u" "invc ?u"
        using parts inv BLACK unfolding T1(6) by (simp_all add: plug_invh plug_invc bh_mk)
      moreover have "cnodes ?u = cnodes (plug ctx ?t)"
        unfolding ctx plug.simps by (rule cnodes_plug_cong) (rule T1(5))
      moreover have "?u \<noteq> Tip"
        using T1(6) by (simp add: plug_neq_Tip)
      moreover have "rb_at T1 [] ?u"
        using T1(3) by (simp only: rb_at_plug)
      moreover have "insert_fixup_loop fuel T1 (Some z') = Inr T1"
      proof -
        obtain fuel' where "fuel = Suc fuel'"
          using Suc.prems(7) ctx by (cases fuel) auto
        moreover have "get_parent T1 (Some z') = Inr (Some q')"
          using node_in_access(6) [OF rb_at_node [OF T1(3) [unfolded T1(6)]]] by simp
        moreover have "rb_at T1 ctx2 (mk f BLACK q' t (mk f RED g r w))"
          using T1(3) by (simp add: rb_at_up)
        then have "get_color T1 (Some q') = Inr BLACK"
          by (rule node_in_access(5) [OF rb_at_node])
        ultimately show ?thesis by simp
      qed
      ultimately show ?thesis
        using run T1(1,2) invc_paint by fastforce
    qed
  qed
qed simp


lemma rbtree_insert_fixup_at:
  assumes at: "rb_at T ctx (mk e RED z Tip Tip)" and inv: "hctx 0 ctx" "cctx BLACK ctx" "top_col BLACK ctx = BLACK"
    and sorted: "sorted_wrt (<) (map (key_at T) (lnodes ctx @ z # rnodes ctx))"
  shows "\<exists>T' u. rbtree_insert_fixup T (Some z) = Inr T' \<and> same_data T T' \<and> rb_tree T' u \<and> cnodes u = lnodes ctx @ z # rnodes ctx"
proof -
  have "length ctx < loop_bound T"
    using rb_at_bound(2) [OF at] by simp
  then obtain T1 u where T1: "insert_fixup_loop (loop_bound T) T (Some z) = Inr T1" "same_data T T1" "rb_at T1 [] u" "u \<noteq> Tip"
      "cnodes u = cnodes (plug ctx (mk e RED z Tip Tip))" "invh u" "invc (paint BLACK u)"
    using insert_fixup_loop_at [OF at, of "loop_bound T"] inv by auto
  have u: "cnodes u = lnodes ctx @ z # rnodes ctx"
    using T1(5) cnodes_plug [of ctx "mk e RED z Tip Tip"] by (cases e) auto
  obtain T2 where "set_color T1 (rb_root T1) BLACK = Inr T2" "same_data T1 T2" "rb_tree T2 (paint BLACK u)"
    using paint_root [OF T1(3,4,6,7)] sorted same_data_keys(1) [OF T1(2)] u by auto
  then show ?thesis
    using T1(1,2) u same_data_trans by (auto simp: rbtree_insert_fixup_def)
qed

section \<open>The descent\<close>

lemma descend_at:
  "rb_at T ctx t \<Longrightarrow> (\<forall>a \<in> set (lnodes ctx). key_at T a < k) \<Longrightarrow> (\<forall>a \<in> set (rnodes ctx). k < key_at T a) \<Longrightarrow>
   sorted_wrt (<) (map (key_at T) (cnodes t)) \<Longrightarrow> k \<notin> key_at T ` set (cnodes t) \<Longrightarrow> depth (strip t) < fuel \<Longrightarrow>
   \<exists>ctx'. insert_descend fuel T (Some k) (ptr_of T t) (up T ctx) = Inr (Some (up T ctx')) \<and> plug ctx' Tip = plug ctx t \<and>
     (\<forall>a \<in> set (lnodes ctx'). key_at T a < k) \<and> (\<forall>a \<in> set (rnodes ctx'). k < key_at T a)"
proof (induction t arbitrary: ctx fuel)
  case Tip
  then show ?case by (cases fuel) auto
next
  case (Bin c l a r)
  obtain fuel' where fuel: "fuel = Suc fuel'"
    using Bin.prems(6) by (cases fuel) auto
  have n: "node_in T a c (up T ctx) Lft (ptr_of T l) (ptr_of T r)"
    using Bin.prems(1) by (simp add: rb_at_def)
  have d: "deref T (Some a) = Inr (rb_node T a)" "rb_key (rb_node T a) = Some (key_at T a)" "Some a \<noteq> rb_nil T"
      "rb_left (rb_node T a) = ptr_of T l" "rb_right (rb_node T a) = ptr_of T r"
    using n by (auto simp: node_in_def heap_accesses key_at_def)
  have lr: "\<forall>x \<in> set (cnodes l). key_at T x < key_at T a" "\<forall>x \<in> set (cnodes r). key_at T a < key_at T x"
      "sorted_wrt (<) (map (key_at T) (cnodes l))" "sorted_wrt (<) (map (key_at T) (cnodes r))"
    using Bin.prems(4) by (auto simp: sorted_wrt_append)
  have run: "insert_descend fuel T (Some k) (ptr_of T (Bin c l a r)) (up T ctx) =
      (if k < key_at T a then insert_descend fuel' T (Some k) (ptr_of T l) (Some a)
       else insert_descend fuel' T (Some k) (ptr_of T r) (Some a))"
    using fuel d Bin.prems(5) by (auto simp: strcmp_ptr_def)
  have at: "rb_at T (Frame Lft c a r # ctx) l" "rb_at T (Frame Rgt c a l # ctx) r"
    using Bin.prems(1) by (simp_all add: rb_at_up)
  show ?case
  proof (cases "k < key_at T a")
    case True
    then have "\<forall>x \<in> set (rnodes (Frame Lft c a r # ctx)). k < key_at T x"
      using lr(2) Bin.prems(3) by (auto intro: less_trans)
    from Bin.IH(1) [OF at(1) _ this lr(3), of fuel'] show ?thesis
      using True Bin.prems(2,5,6) fuel run by auto
  next
    case False
    then have "key_at T a < k"
      using Bin.prems(5) by auto
    then have "\<forall>x \<in> set (lnodes (Frame Rgt c a l # ctx)). key_at T x < k"
      using lr(1) Bin.prems(2) by (auto intro: less_trans)
    from Bin.IH(2) [OF at(2) this _ lr(4), of fuel'] show ?thesis
      using False Bin.prems(3,5,6) fuel run by auto
  qed
qed


section \<open>Linking a new node\<close>

lemma new_node_fields [simp]:
  "rb_nil (rbtree_new_node T k v) = rb_nil T" "rb_root (rbtree_new_node T k v) = rb_root T"
  "rb_next (rbtree_new_node T k v) = Suc (rb_next T)"
  "a \<noteq> rb_next T \<Longrightarrow> rb_node (rbtree_new_node T k v) a = rb_node T a"
  "a \<noteq> rb_next T \<Longrightarrow> rb_heap (rbtree_new_node T k v) a = rb_heap T a"
  "rb_heap (rbtree_new_node T k v) (rb_next T) \<noteq> None"
  "rb_key (rb_node (rbtree_new_node T k v) (rb_next T)) = Some k" "rb_value (rb_node (rbtree_new_node T k v) (rb_next T)) = Some v"
  by (simp_all add: rbtree_new_node_def rb_node_def)

lemma new_node_in: "node_in T a c q d p1 p2 \<Longrightarrow> node_in (rbtree_new_node T k v) a c q d p1 p2"
  by (auto simp: node_in_def)

lemma new_node_ptrs [simp]:
  "ptr_of (rbtree_new_node T k v) t = ptr_of T t" "up (rbtree_new_node T k v) ctx = up T ctx"
  by (rule ptr_of_cong up_cong; simp)+

lemma new_node_sub: "sub_at T q t \<Longrightarrow> sub_at (rbtree_new_node T k v) q t"
  by (induction t arbitrary: q) (auto intro: new_node_in)

lemma new_node_at:
  assumes "rb_at T [] t"
  shows "rb_at (rbtree_new_node T k v) [] t" "rb_next T \<notin> set (cnodes t)" "Some (rb_next T) \<noteq> rb_nil T"
proof -
  show fresh: "rb_next T \<notin> set (cnodes t)" "Some (rb_next T) \<noteq> rb_nil T"
    using assms sub_at_below by (fastforce simp: rb_at_def nil_ok_def)+
  show "rb_at (rbtree_new_node T k v) [] t"
    using assms new_node_sub by (auto simp: rb_at_def nil_ok_def)
qed

text \<open>The place is below a node that the key was compared with: on the side the comparison says.\<close>

lemma link_run:
  assumes "ctx_at T (rb_nil T) ctx" "nil_ok T" "\<forall>a \<in> set (lnodes ctx). key_at T a < k" "\<forall>a \<in> set (rnodes ctx). k < key_at T a"
  shows "(if up T ctx = rb_nil T then Inr (T\<lparr>rb_root := p\<rparr>)
      else bindr (deref T (up T ctx)) (\<lambda>yn. bindr (strcmp_ptr (Some k) (rb_key yn)) (\<lambda>c.
        if c < 0 then set_child T Lft (up T ctx) p else set_child T Rgt (up T ctx) p))) = Inr (relink T ctx p)"
proof (cases ctx rule: ctx_nodes.cases)
  case (2 d c a u ctx')
  then have n: "node_in T a c (up T ctx') d (rb_nil T) (ptr_of T u)"
    using assms(1) by simp
  have "d = Lft \<longleftrightarrow> k < key_at T a"
    using assms(3,4) 2 by (cases d) auto
  moreover have "rb_key (rb_node T a) = Some (key_at T a)"
    using n by (auto simp: node_in_def key_at_def)
  ultimately show ?thesis
    using n 2 by (cases d) (auto simp: node_in_def heap_accesses strcmp_ptr_def)
qed simp

text \<open>A new node, linked and coloured red, at the place found.\<close>

lemma link_at:
  assumes at: "rb_at T ctx Tip" and z: "z \<notin> set (ctx_nodes ctx)" "Some z \<noteq> rb_nil T" "z < rb_next T" "rb_heap T z \<noteq> None"
    "rb_key (rb_node T z) = Some k" "rb_value (rb_node T z) = Some v"
    and order: "\<forall>a \<in> set (lnodes ctx). key_at T a < k" "\<forall>a \<in> set (rnodes ctx). k < key_at T a"
  shows "\<exists>T'. bindr (set_parent T (Some z) (up T ctx)) (\<lambda>T'.
           bindr (if up T ctx = rb_nil T' then Inr (T'\<lparr>rb_root := Some z\<rparr>)
                  else bindr (deref T' (up T ctx)) (\<lambda>yn.
                    bindr (strcmp_ptr (Some k) (rb_key yn)) (\<lambda>c.
                      if c < 0 then set_child T' Lft (up T ctx) (Some z) else set_child T' Rgt (up T ctx) (Some z)))) (\<lambda>T.
           bindr (set_child T Lft (Some z) (rb_nil T)) (\<lambda>T.
           bindr (set_child T Rgt (Some z) (rb_nil T)) (\<lambda>T.
           bindr (set_color T (Some z) RED) f)))) = f T' \<and>
    same_data T T' \<and> rb_at T' ctx (mk Lft RED z Tip Tip)"
proof -
  define T1 where "T1 = upd T z (\<lambda>n. n\<lparr>rb_parent := up T ctx\<rparr>)"
  define T2 where "T2 = relink T1 ctx (Some z)"
  define T3 where "T3 = upd T2 z (upd_child Lft (rb_nil T))"
  define T4 where "T4 = upd T3 z (upd_child Rgt (rb_nil T))"
  define T5 where "T5 = upd T4 z (\<lambda>n. n\<lparr>rb_color := RED\<rparr>)"
  have base: "nil_ok T" "ctx_at T (rb_nil T) ctx" "distinct (ctx_nodes ctx)"
    using at by (simp_all add: rb_at_def)
  have c1: "ctx_at T1 (rb_nil T1) ctx" "nil_ok T1" "up T1 ctx = up T ctx" "rb_nil T1 = rb_nil T"
    using base z by (simp_all add: T1_def)
  have "key_at T1 a = key_at T a" for a
    by (simp add: T1_def key_at_def)
  then have run2: "(if up T ctx = rb_nil T1 then Inr (T1\<lparr>rb_root := Some z\<rparr>)
      else bindr (deref T1 (up T ctx)) (\<lambda>yn. bindr (strcmp_ptr (Some k) (rb_key yn)) (\<lambda>c.
        if c < 0 then set_child T1 Lft (up T ctx) (Some z) else set_child T1 Rgt (up T ctx) (Some z)))) = Inr T2"
    using link_run [OF c1(1,2), of k "Some z"] order unfolding c1(3) T2_def by simp
  have l: "ctx_at T2 (Some z) ctx" "same_data T1 T2" "nil_ok T2"
    unfolding T2_def by (rule relink_at [OF c1(1) base(3) c1(2)])+
  have h: "rb_heap T2 z \<noteq> None" "rb_node T2 z = (rb_node T z)\<lparr>rb_parent := up T ctx\<rparr>" "rb_nil T2 = rb_nil T" "rb_next T2 = rb_next T"
    using z by (simp_all add: T2_def T1_def)
  have e: "set_parent T (Some z) (up T ctx) = Inr T1" "set_child T2 Lft (Some z) (rb_nil T2) = Inr T3"
      "set_child T3 Rgt (Some z) (rb_nil T3) = Inr T4" "set_color T4 (Some z) RED = Inr T5"
    using z(4) h by (simp_all add: heap_accesses T1_def T3_def T4_def T5_def)
  have "same_data T T1" "same_data T2 T3" "same_data T3 T4" "same_data T4 T5"
    unfolding T1_def T3_def T4_def T5_def by (rule same_data_upd; use z h in simp)+
  then have "same_data T T5"
    using l(2) same_data_trans by blast
  moreover have "node_in T5 z RED (up T ctx) Lft (rb_nil T) (rb_nil T)"
    using z h by (simp add: T5_def T4_def T3_def node_in_def)
  then have "rb_at T5 ctx (mk Lft RED z Tip Tip)"
    using l z h(3) base(3) by (simp add: rb_at_def T5_def T4_def T3_def T2_def T1_def)
  ultimately show ?thesis
    by (intro exI [of _ T5]) (simp only: e run2 bindr_simps simp_thms)
qed

section \<open>Insertion as a whole\<close>

lemma ctx_nodes_plug: "set (cnodes (plug ctx t)) = set (ctx_nodes ctx) \<union> set (cnodes t)"
  by (induction ctx t rule: plug.induct) auto

lemma rbtree_insert_at:
  assumes tree: "rb_tree T t" and k: "k \<notin> key_at T ` set (cnodes t)"
  shows "\<exists>T' u ls rs. rbtree_insert (rbtree_new_node T k v) (Some (rb_next T)) = Inr T' \<and> rb_tree T' u \<and>
    cnodes t = ls @ rs \<and> cnodes u = ls @ rb_next T # rs \<and> entry_at T' (rb_next T) = (k, v) \<and>
    (\<forall>a \<in> set (cnodes t). entry_at T' a = entry_at T a)"
proof -
  define z where "z = rb_next T"
  define T0 where "T0 = rbtree_new_node T k v"
  have at: "rb_at T [] t"
    using tree by (simp add: rb_tree_def)
  have at0: "rb_at T0 [] t" and fresh: "z \<notin> set (cnodes t)" "Some z \<noteq> rb_nil T"
    using new_node_at [OF at] by (simp_all add: T0_def z_def)
  have z: "z < rb_next T0" "rb_heap T0 z \<noteq> None" "rb_key (rb_node T0 z) = Some k" "rb_value (rb_node T0 z) = Some v" "rb_nil T0 = rb_nil T"
    by (simp_all add: T0_def z_def)
  have keep: "entry_at T0 a = entry_at T a" "key_at T0 a = key_at T a" if "a \<in> set (cnodes t)" for a
  proof -
    have "a \<noteq> rb_next T"
      using that fresh by (auto simp: z_def)
    then show "entry_at T0 a = entry_at T a" "key_at T0 a = key_at T a"
      by (simp_all add: T0_def entry_at_def key_at_def val_at_def)
  qed
  have sorted0: "sorted_wrt (<) (map (key_at T0) (cnodes t))"
    using tree keep(2) by (simp add: rb_tree_def cong: map_cong)
  have "depth (strip t) < loop_bound T0"
    using rb_at_bound(1) [OF at0] depth_le [of "strip t"] by (simp add: loop_bound_def)
  moreover have "k \<notin> key_at T0 ` set (cnodes t)"
    using k keep(2) by auto
  ultimately obtain ctx where ctx: "insert_descend (loop_bound T0) T0 (Some k) (rb_root T0) (rb_nil T0) = Inr (Some (up T0 ctx))"
      "plug ctx Tip = t" "\<forall>a \<in> set (lnodes ctx). key_at T0 a < k" "\<forall>a \<in> set (rnodes ctx). k < key_at T0 a"
    using descend_at [OF at0, of k "loop_bound T0"] sorted0 at0 by (auto simp: rb_at_def)
  have atc: "rb_at T0 ctx Tip"
    using at0 rb_at_plug [of T0 ctx Tip] ctx(2) by simp
  have nodes: "cnodes t = lnodes ctx @ rnodes ctx"
    using cnodes_plug [of ctx Tip] ctx(2) by simp
  have "set (ctx_nodes ctx) = set (cnodes t)"
    using ctx_nodes_plug [of ctx Tip] ctx(2) by simp
  then have zc: "z \<notin> set (ctx_nodes ctx)" "Some z \<noteq> rb_nil T0"
    using fresh z(5) by simp_all
  obtain T5 where T5: "rbtree_insert T0 (Some z) = rbtree_insert_fixup T5 (Some z)" "same_data T0 T5"
      "rb_at T5 ctx (mk Lft RED z Tip Tip)"
    using link_at [OF atc zc z(1-4) ctx(3,4), of "\<lambda>T. rbtree_insert_fixup T (Some z)"]
    unfolding rbtree_insert_def heap_accesses(1) [OF z(2)] bindr_simps z(3) ctx(1) option.case by blast
  have key: "key_at T5 = key_at T0"
    by (rule same_data_keys(1) [OF T5(2)])
  have kz: "key_at T0 z = k"
    using z(3) by (simp add: key_at_def)
  have inv: "hctx 0 ctx" "cctx BLACK ctx" "top_col BLACK ctx = BLACK"
    using tree plug_invh [of ctx Tip] plug_invc [of ctx Tip] plug_rcol [of ctx Tip] ctx(2) by (simp_all add: rb_tree_def)
  have "sorted_wrt (<) (map (key_at T5) (lnodes ctx @ z # rnodes ctx))"
    using sorted0 nodes ctx(3,4) kz unfolding key by (auto simp: sorted_wrt_append intro: less_trans)
  then obtain T' u where T': "rbtree_insert_fixup T5 (Some z) = Inr T'" "same_data T5 T'" "rb_tree T' u"
      "cnodes u = lnodes ctx @ z # rnodes ctx"
    using rbtree_insert_fixup_at [OF T5(3) inv] by blast
  have "entry_at T' = entry_at T0"
    using same_data_keys(3) [OF T5(2)] same_data_keys(3) [OF T'(2)] by simp
  moreover have "entry_at T0 z = (k, v)"
    using z(3,4) by (simp add: entry_at_def key_at_def val_at_def)
  ultimately show ?thesis
    using T5(1) T'(1,3,4) nodes keep(1) unfolding T0_def z_def
    by (intro exI [of _ T'] exI [of _ u] exI [of _ "lnodes ctx"] exI [of _ "rnodes ctx"]) simp
qed

section \<open>Setting a key\<close>

definition rbtree_inv :: "rbtree \<Rightarrow> bool" where
  "rbtree_inv T \<longleftrightarrow> (\<exists>t. rb_tree T t)"

text \<open>The sentinel, and per binding a node, a key and a value.\<close>

definition rbtree_owned :: "rbtree \<Rightarrow> int" where
  "rbtree_owned T = 1 + 3 * int (length (rbtree_entries T))"

lemma rbtree_insert_map:
  assumes tree: "rb_tree T t" and k: "rbtree_map T k = None"
  shows "\<exists>T'. rbtree_insert (rbtree_new_node T k v) (Some (rb_next T)) = Inr T' \<and> rbtree_inv T' \<and>
    rbtree_map T' = (rbtree_map T)(k \<mapsto> v) \<and> length (rbtree_entries T') = Suc (length (rbtree_entries T))"
proof -
  note E = rb_tree_entries [OF tree]
  have k': "k \<notin> key_at T ` set (cnodes t)"
    using k by (auto simp: rbtree_map_def E map_of_eq_None_iff entry_at_def image_image)
  obtain T' u ls rs where T': "rbtree_insert (rbtree_new_node T k v) (Some (rb_next T)) = Inr T'" "rb_tree T' u"
      "cnodes t = ls @ rs" "cnodes u = ls @ rb_next T # rs" "entry_at T' (rb_next T) = (k, v)"
      "\<forall>a \<in> set (cnodes t). entry_at T' a = entry_at T a"
    using rbtree_insert_at [OF tree k'] by blast
  have E': "rbtree_entries T' = map (entry_at T) ls @ (k, v) # map (entry_at T) rs"
    using T'(3,5,6) by (simp add: rb_tree_entries [OF T'(2)] T'(4))
  have "k \<notin> fst ` set (map (entry_at T) ls)"
    using k' T'(3) by (auto simp: entry_at_def image_image)
  then have "rbtree_map T' = (rbtree_map T)(k \<mapsto> v)"
    unfolding rbtree_map_def E' E T'(3) map_append by (rule map_of_insert_fresh)
  then show ?thesis
    using T'(1-3) E E' by (auto simp: rbtree_inv_def)
qed


text \<open>A value is replaced in place.\<close>

lemma sub_at_value: "sub_at T q t \<Longrightarrow> sub_at (upd T a (\<lambda>n. n\<lparr>rb_value := Some v\<rparr>)) q t"
proof (induction t arbitrary: q)
  case (Bin c l b r)
  then have "node_in (upd T a (\<lambda>n. n\<lparr>rb_value := Some v\<rparr>)) b c q Lft (ptr_of T l) (ptr_of T r)"
    by (auto simp: node_in_def)
  then show ?case using Bin by simp
qed simp

lemma replace_value_at:
  assumes tree: "rb_tree T t" and a: "a \<in> set (cnodes t)"
  shows "\<exists>T'. assign T (Some a) (\<lambda>n. n\<lparr>rb_value := Some v\<rparr>) = Inr T' \<and> rbtree_inv T' \<and>
    rbtree_map T' = (rbtree_map T)(key_at T a \<mapsto> v) \<and> length (rbtree_entries T') = length (rbtree_entries T)"
proof -
  let ?T = "upd T a (\<lambda>n. n\<lparr>rb_value := Some v\<rparr>)"
  have at: "rb_at T [] t"
    using tree by (simp add: rb_tree_def)
  then have h: "rb_heap T a \<noteq> None" "Some a \<noteq> rb_nil T"
    using a tree_at_node [OF sub_at_tree, of T "rb_nil T" t a] by (auto simp: rb_at_def)
  have "key_at ?T = key_at T"
    by (auto simp: key_at_def)
  moreover have "rb_at ?T [] t"
    using at h sub_at_value by (simp add: rb_at_def)
  ultimately have "rb_tree ?T t"
    using tree by (simp add: rb_tree_def)
  moreover have "assign T (Some a) (\<lambda>n. n\<lparr>rb_value := Some v\<rparr>) = Inr ?T"
    using h by (simp add: heap_accesses)
  ultimately show ?thesis
    using rbtree_set_value [OF rb_tree_search [OF tree], of a v] a by (auto simp: rbtree_inv_def)
qed

lemma rbtree_replace_law:
  assumes tree: "rb_tree T t" and a: "a \<in> set (cnodes t)"
  shows "\<exists>r T' s'. rbtree_replace_value T (Some a) v s = Inr (r, T', s') \<and> rbtree_inv T' \<and>
    balanced rbtree_owned T s T' s' \<and>
    (r = 0 \<and> rbtree_map T' = (rbtree_map T)(key_at T a \<mapsto> v) \<or> r < 0 \<and> T' = T \<and> \<not> plenty s)"
proof -
  obtain T' where T': "assign T (Some a) (\<lambda>n. n\<lparr>rb_value := Some v\<rparr>) = Inr T'" "rbtree_inv T'"
      "rbtree_map T' = (rbtree_map T)(key_at T a \<mapsto> v)" "length (rbtree_entries T') = length (rbtree_entries T)"
    using replace_value_at [OF assms] by blast
  have d: "deref T (Some a) = Inr (rb_node T a)" "rb_value (rb_node T a) = Some (val_at T a)"
    using tree a tree_at_node [OF sub_at_tree, of T "rb_nil T" t a] by (auto simp: rb_tree_def rb_at_def deref_def)
  have inv: "rbtree_inv T"
    using tree by (auto simp: rbtree_inv_def)
  show ?thesis
  proof (cases rule: kvs_malloc_cases [of "length v + 1" s])
    case (granted s')
    then show ?thesis
      using T' d by (simp add: rbtree_replace_value_def balanced_def rbtree_owned_def)
  next
    case (refused s')
    then show ?thesis
      using inv by (simp add: rbtree_replace_value_def balanced_def)
  qed
qed

lemma rbtree_found:
  assumes "rb_tree T t"
  obtains (found) a where "a \<in> set (cnodes t)" "rbtree_search T k = Inr (Some a)" "Some a \<noteq> rb_nil T" "key_at T a = k" "rbtree_map T k \<noteq> None"
  | (missing) "rbtree_search T k = Inr (rb_nil T)" "rbtree_map T k = None"
  using rb_tree_search [OF assms]
proof (cases rule: rbtree_search_cases [where k = k])
  case (found a)
  then show thesis
    using that(1) [of a] rbtree_map_tree(1) [OF rb_tree_search [OF assms], of a] by simp
next
  case (missing n)
  then show thesis using that(2) by simp
qed

lemma rbtree_set_law:
  assumes "rbtree_inv T"
  shows "\<exists>r T' s'. kvs_rbtree_set T (Some k) (Some v) s = Inr (r, T', s') \<and> rbtree_inv T' \<and> balanced rbtree_owned T s T' s' \<and>
    (r = 0 \<and> rbtree_map T' = (rbtree_map T)(k \<mapsto> v) \<or> r < 0 \<and> T' = T) \<and> (plenty s \<longrightarrow> r = 0)"
proof -
  obtain t where tree: "rb_tree T t"
    using assms by (auto simp: rbtree_inv_def)
  from tree show ?thesis
  proof (cases rule: rbtree_found [where k = k])
    case (found a)
    then have "kvs_rbtree_set T (Some k) (Some v) s = rbtree_replace_value T (Some a) v s"
      by (simp add: kvs_rbtree_set_def)
    then show ?thesis
      using rbtree_replace_law [OF tree found(1), of v s] found(4) by auto
  next
    case missing
    obtain T' where T': "rbtree_insert (rbtree_new_node T k v) (Some (rb_next T)) = Inr T'" "rbtree_inv T'"
        "rbtree_map T' = (rbtree_map T)(k \<mapsto> v)" "length (rbtree_entries T') = Suc (length (rbtree_entries T))"
      using rbtree_insert_map [OF tree missing(2)] by blast
    show ?thesis
    proof (cases rule: kvs_malloc_cases [of rbtree_node_bytes s])
      case (refused s1)
      then show ?thesis
        using missing assms by (simp add: kvs_rbtree_set_def balanced_def rbtree_node_bytes_def)
    next
      case 1: (granted s1)
      show ?thesis
      proof (cases rule: kvs_malloc_cases [of "length k + 1" s1])
        case (refused s2)
        then show ?thesis
          using missing assms 1 by (simp add: kvs_rbtree_set_def balanced_def plenty_def)
      next
        case 2: (granted s2)
        show ?thesis
        proof (cases rule: kvs_malloc_cases [of "length v + 1" s2])
          case (refused s3)
          then show ?thesis
            using missing assms 1 2 by (simp add: kvs_rbtree_set_def balanced_def plenty_def)
        next
          case (granted s3)
          then show ?thesis
            using missing 1 2 T' by (simp add: kvs_rbtree_set_def balanced_def rbtree_owned_def)
        qed
      qed
    qed
  qed
qed

lemma rbtree_mod_law:
  assumes "rbtree_inv T"
  shows "\<exists>r T' s'. kvs_rbtree_mod T (Some k) (Some v) s = Inr (r, T', s') \<and> rbtree_inv T' \<and> balanced rbtree_owned T s T' s' \<and>
    (r = 0 \<and> rbtree_map T k \<noteq> None \<and> rbtree_map T' = (rbtree_map T)(k \<mapsto> v) \<or>
     r < 0 \<and> rbtree_map T k \<noteq> None \<and> T' = T \<and> \<not> plenty s \<or>
     r = 1 \<and> rbtree_map T k = None \<and> T' = T \<and> s' = s)"
proof -
  obtain t where tree: "rb_tree T t"
    using assms by (auto simp: rbtree_inv_def)
  from tree show ?thesis
  proof (cases rule: rbtree_found [where k = k])
    case (found a)
    then have "kvs_rbtree_mod T (Some k) (Some v) s = rbtree_replace_value T (Some a) v s"
      by (simp add: kvs_rbtree_mod_def)
    then show ?thesis
      using rbtree_replace_law [OF tree found(1), of v s] found(4,5) by auto
  next
    case missing
    then show ?thesis
      using assms by (simp add: kvs_rbtree_mod_def)
  qed
qed

end
