(* ===== verification/Rbtree_Delete.thy ===== *)
theory Rbtree_Delete
  imports Rbtree_Insert
begin

text \<open>
  Deletion from the red-black tree: the cases of \<open>rbtree_delete_fixup\<close> on the picture of
  the heap, its loop, splicing a node out, and \<open>rbtree_delete\<close> as a whole; then the engine's
  \<open>del\<close> and destructor, and the engine as an instance of the interface of all engines.
\<close>

section \<open>The position of the missing black\<close>

text \<open>
  The tree at the position may be the sentinel; then its \<open>parent\<close> field has been set to
  the node above.
\<close>

definition hole_at :: "rbtree \<Rightarrow> frame list \<Rightarrow> ctree \<Rightarrow> bool" where
  "hole_at T ctx t \<longleftrightarrow> rb_at T ctx t \<and> (t = Tip \<longrightarrow> rb_parent (rb_node T (the (rb_nil T))) = up T ctx)"

lemma hole_parent: "hole_at T ctx t \<Longrightarrow> get_parent T (ptr_of T t) = Inr (up T ctx)"
  by (cases t) (auto simp: hole_at_def rb_at_def nil_ok_def heap_accesses intro: node_in_access(6))

lemma hole_at_same:
  assumes "hole_at T ctx t" "same_data T T'" "rb_at T' ctx' t" "up T' ctx' = up T ctx"
  shows "hole_at T' ctx' t"
proof -
  obtain n where "rb_nil T = Some n"
    using assms(1) by (auto simp: hole_at_def rb_at_def nil_ok_def)
  then have "rb_nil T' = Some n" "rb_node T' n = rb_node T n"
    using assms(2) by (auto simp: same_data_def)
  with assms(1,3,4) \<open>rb_nil T = Some n\<close> show ?thesis by (simp add: hole_at_def)
qed

lemma hole_ptr_same: "same_data T T' \<Longrightarrow> ptr_of T t = ptr_of T' t"
  by (rule ptr_of_same [symmetric])

text \<open>Which side of its parent the position is on, as the source finds out; the sibling is a real node.\<close>

lemma hole_side:
  assumes at: "rb_at T (Frame d c p s # ctx) t" and s: "s \<noteq> Tip"
  shows "get_child T Lft (Some p) = Inr (if d = Lft then ptr_of T t else ptr_of T s)"
    "(if ptr_of T t = (if d = Lft then ptr_of T t else ptr_of T s) then Lft else Rgt) = d"
proof -
  have n: "node_in T p c (up T ctx) d (ptr_of T t) (ptr_of T s)"
    using at by (simp add: rb_at_def)
  then show "get_child T Lft (Some p) = Inr (if d = Lft then ptr_of T t else ptr_of T s)"
    using node_in_access(3,4) [OF n] by (cases d) auto
  have "ptr_of T t \<noteq> ptr_of T s"
    using at s by (cases t; cases s) (auto simp: rb_at_def node_in_def)
  then show "(if ptr_of T t = (if d = Lft then ptr_of T t else ptr_of T s) then Lft else Rgt) = d"
    by (cases d) auto
qed

lemma hole_root:
  assumes "rb_at T ctx t"
  shows "ptr_of T t = rb_root T \<longleftrightarrow> ctx = []"
proof
  assume root: "ptr_of T t = rb_root T"
  show "ctx = []"
  proof (rule ccontr)
    assume "ctx \<noteq> []"
    have "\<exists>a \<in> set (ctx_nodes ctx). rb_root T = Some a" if "ctx_at T p ctx" "ctx \<noteq> []" for p
      using that
    proof (induction ctx arbitrary: p rule: ctx_nodes.induct)
      case (2 d c a u ctx)
      then show ?case by (cases "ctx = []") auto
    qed simp
    then obtain a where "a \<in> set (ctx_nodes ctx)" "ptr_of T t = Some a" "Some a \<noteq> rb_nil T"
      using assms \<open>ctx \<noteq> []\<close> root ctx_at_below by (fastforce simp: rb_at_def)
    moreover from this have "a \<in> set (cnodes t)"
      by (cases t) auto
    ultimately show False
      using assms by (auto simp: rb_at_def)
  qed
next
  assume "ctx = []"
  then show "ptr_of T t = rb_root T" using assms by (simp add: rb_at_def)
qed

section \<open>One round\<close>

text \<open>What a round does once the sibling is black.\<close>

definition delete_rest :: "side \<Rightarrow> rbtree \<Rightarrow> ptr \<Rightarrow> ptr \<Rightarrow> (rbtree \<times> ptr) run" where
  "delete_rest d T x w =
     bindr (get_child T Lft w) (\<lambda>wl.
     bindr (get_color T wl) (\<lambda>wlc.
     bindr (if wlc = BLACK then
              bindr (get_child T Rgt w) (\<lambda>wr. bindr (get_color T wr) (\<lambda>wrc. Inr (wrc = BLACK)))
            else Inr False) (\<lambda>both_black.
       if both_black then
         bindr (set_color T w RED) (\<lambda>T.
         bindr (get_parent T x) (\<lambda>xp. Inr (T, xp)))
       else
         bindr (get_child T (other d) w) (\<lambda>wo.
         bindr (get_color T wo) (\<lambda>woc.
         bindr (if woc = BLACK then
                  bindr (get_child T d w) (\<lambda>wi.
                  bindr (set_color T wi BLACK) (\<lambda>T.
                  bindr (set_color T w RED) (\<lambda>T.
                  bindr (rbtree_rotate (other d) T w) (\<lambda>T.
                  bindr (get_parent T x) (\<lambda>xp.
                  bindr (get_child T (other d) xp) (\<lambda>w. Inr (T, w)))))))
                else Inr (T, w)) (\<lambda>(T, w).
         bindr (get_parent T x) (\<lambda>xp.
         bindr (get_color T xp) (\<lambda>xpc.
         bindr (set_color T w xpc) (\<lambda>T.
         bindr (set_color T xp BLACK) (\<lambda>T.
         bindr (get_child T (other d) w) (\<lambda>wo.
         bindr (set_color T wo BLACK) (\<lambda>T.
         bindr (rbtree_rotate d T xp) (\<lambda>T. Inr (T, rb_root T))))))))))))))"

lemma delete_fixup_step_split:
  "delete_fixup_step d T x =
     bindr (get_parent T x) (\<lambda>xp.
     bindr (get_child T (other d) xp) (\<lambda>w.
     bindr (get_color T w) (\<lambda>wc.
     bindr (if wc = RED then
              bindr (set_color T w BLACK) (\<lambda>T.
              bindr (set_color T xp RED) (\<lambda>T.
              bindr (rbtree_rotate d T xp) (\<lambda>T.
              bindr (get_parent T x) (\<lambda>xp.
              bindr (get_child T (other d) xp) (\<lambda>w. Inr (T, w))))))
            else Inr (T, w)) (\<lambda>(T, w). delete_rest d T x w))))"
  unfolding delete_fixup_step_def delete_rest_def ..

lemma both_children_black:
  assumes "rb_at T ctx (mk d c w wi wo)"
  shows "bindr (get_child T Lft (Some w)) (\<lambda>wl. bindr (get_color T wl) (\<lambda>wlc.
     bindr (if wlc = BLACK then bindr (get_child T Rgt (Some w)) (\<lambda>wr. bindr (get_color T wr) (\<lambda>wrc. Inr (wrc = BLACK)))
            else Inr False) f)) = f (rcol wi = BLACK \<and> rcol wo = BLACK)"
    "get_child T (other d) (Some w) = Inr (ptr_of T wo)" "get_color T (ptr_of T wo) = Inr (rcol wo)"
    "get_child T d (Some w) = Inr (ptr_of T wi)"
proof -
  have n: "node_in T w c (up T ctx) d (ptr_of T wi) (ptr_of T wo)"
    by (rule rb_at_node [OF assms])
  have ci: "get_color T (ptr_of T wi) = Inr (rcol wi)"
    using assms rb_at_color [of T "Frame d c w wo # ctx" wi] by (simp add: rb_at_up)
  show co: "get_color T (ptr_of T wo) = Inr (rcol wo)"
    using assms rb_at_color [of T "Frame (other d) c w wi # ctx" wo] by (simp add: rb_at_up mk_other)
  show g: "get_child T (other d) (Some w) = Inr (ptr_of T wo)" "get_child T d (Some w) = Inr (ptr_of T wi)"
    using node_in_access(3,4) [OF n] by simp_all
  show "bindr (get_child T Lft (Some w)) (\<lambda>wl. bindr (get_color T wl) (\<lambda>wlc.
     bindr (if wlc = BLACK then bindr (get_child T Rgt (Some w)) (\<lambda>wr. bindr (get_color T wr) (\<lambda>wrc. Inr (wrc = BLACK)))
            else Inr False) f)) = f (rcol wi = BLACK \<and> rcol wo = BLACK)"
    using g ci co by (cases d; cases "rcol wi"; cases "rcol wo") simp_all
qed

text \<open>Both children of the sibling are black: the sibling becomes red and the position moves up.\<close>

lemma rest_move_up:
  assumes hole: "hole_at T (Frame d c p (mk d BLACK w wi wo) # ctx) t" and black: "rcol wi = BLACK" "rcol wo = BLACK"
  shows "\<exists>T'. delete_rest d T (ptr_of T t) (Some w) = Inr (T', Some p) \<and> same_data T T' \<and>
    rb_at T' ctx (mk d c p t (mk d RED w wi wo))"
proof -
  have w: "rb_at T (Frame (other d) c p t # ctx) (mk d BLACK w wi wo)"
    using hole by (simp add: hole_at_def rb_at_up mk_other)
  obtain T1 where T1: "set_color T (Some w) RED = Inr T1" "same_data T T1" "rb_at T1 (Frame (other d) c p t # ctx) (mk d RED w wi wo)"
    using rb_at_paint [OF w] by blast
  then have at1: "rb_at T1 ctx (mk d c p t (mk d RED w wi wo))"
    by (simp add: rb_at_up mk_other)
  then have "hole_at T1 (Frame d c p (mk d RED w wi wo) # ctx) t"
    by (intro hole_at_same [OF hole T1(2)]) (simp_all add: rb_at_up)
  then have "get_parent T1 (ptr_of T t) = Inr (Some p)"
    using hole_parent hole_ptr_same [OF T1(2)] by fastforce
  then have "delete_rest d T (ptr_of T t) (Some w) = Inr (T1, Some p)"
    unfolding delete_rest_def both_children_black(1) [OF w] using black T1(1) by simp
  with T1(2) at1 show ?thesis by blast
qed

text \<open>The outer child of the sibling is red: painting and one rotation end the loop.\<close>

lemma rest_outer_red:
  assumes hole: "hole_at T (Frame d c p (mk d BLACK w wi (mk d RED o1 x y)) # ctx) t"
  shows "\<exists>T'. bindr (get_parent T (ptr_of T t)) (\<lambda>xp.
         bindr (get_color T xp) (\<lambda>xpc.
         bindr (set_color T (Some w) xpc) (\<lambda>T.
         bindr (set_color T xp BLACK) (\<lambda>T.
         bindr (get_child T (other d) (Some w)) (\<lambda>wo.
         bindr (set_color T wo BLACK) (\<lambda>T.
         bindr (rbtree_rotate d T xp) (\<lambda>T. Inr (T, rb_root T)))))))) = Inr (T', rb_root T') \<and>
    same_data T T' \<and> rb_at T' ctx (mk d c w (mk d BLACK p t wi) (mk d BLACK o1 x y))"
proof -
  let ?o = "mk d RED o1 x y"
  have at: "rb_at T (Frame d c p (mk d BLACK w wi ?o) # ctx) t"
    using hole by (simp add: hole_at_def)
  have p: "get_parent T (ptr_of T t) = Inr (Some p)"
    using hole_parent [OF hole] by simp
  have pc: "get_color T (Some p) = Inr c"
    by (rule node_in_access(5) [OF rb_at_node [OF at [unfolded rb_at_up]]])
  have "rb_at T (Frame (other d) c p t # ctx) (mk d BLACK w wi ?o)"
    using at by (simp add: rb_at_up mk_other)
  then obtain T1 where T1: "set_color T (Some w) c = Inr T1" "same_data T T1" "rb_at T1 (Frame (other d) c p t # ctx) (mk d c w wi ?o)"
    using rb_at_paint by blast
  then have "rb_at T1 ctx (mk d c p t (mk d c w wi ?o))"
    by (simp add: rb_at_up mk_other)
  then obtain T2 where T2: "set_color T1 (Some p) BLACK = Inr T2" "same_data T1 T2" "rb_at T2 ctx (mk d BLACK p t (mk d c w wi ?o))"
    using rb_at_paint by blast
  then have w2: "rb_at T2 (Frame (other d) BLACK p t # ctx) (mk d c w wi ?o)"
    by (simp add: rb_at_up mk_other)
  have g2: "get_child T2 (other d) (Some w) = Inr (Some o1)"
    using both_children_black(2) [OF w2] by simp
  have "rb_at T2 (Frame (other d) c w wi # Frame (other d) BLACK p t # ctx) ?o"
    using w2 by (simp add: rb_at_up mk_other)
  then obtain T3 where T3: "set_color T2 (Some o1) BLACK = Inr T3" "same_data T2 T3"
      "rb_at T3 (Frame (other d) c w wi # Frame (other d) BLACK p t # ctx) (mk d BLACK o1 x y)"
    using rb_at_paint by blast
  then have "rb_at T3 ctx (mk d BLACK p t (mk d c w wi (mk d BLACK o1 x y)))"
    by (simp add: rb_at_up mk_other)
  then obtain T4 where T4: "rbtree_rotate d T3 (Some p) = Inr T4" "same_data T3 T4"
      "rb_at T4 ctx (mk d c w (mk d BLACK p t wi) (mk d BLACK o1 x y))"
    using rotate_at by blast
  have "same_data T T4"
    using T1(2) T2(2) T3(2) T4(2) same_data_trans by blast
  with T4(3) show ?thesis
    by (intro exI [of _ T4]) (simp add: p pc T1(1) T2(1) g2 T3(1) T4(1))
qed


text \<open>Only the inner child of the sibling is red: it is rotated to the outer side first.\<close>

lemma rest_inner_red:
  assumes hole: "hole_at T (Frame d c p (mk d BLACK w (mk d RED v a b) wo) # ctx) t" and wo: "rcol wo = BLACK"
  shows "\<exists>T'. delete_rest d T (ptr_of T t) (Some w) = Inr (T', rb_root T') \<and> same_data T T' \<and>
    rb_at T' ctx (mk d c v (mk d BLACK p t a) (mk d BLACK w b wo))"
proof -
  let ?i = "mk d RED v a b"
  have w: "rb_at T (Frame (other d) c p t # ctx) (mk d BLACK w ?i wo)"
    using hole by (simp add: hole_at_def rb_at_up mk_other)
  note g = both_children_black [OF w]
  have "rb_at T (Frame d BLACK w wo # Frame (other d) c p t # ctx) ?i"
    using w by (simp add: rb_at_up)
  then obtain T1 where T1: "set_color T (Some v) BLACK = Inr T1" "same_data T T1"
      "rb_at T1 (Frame d BLACK w wo # Frame (other d) c p t # ctx) (mk d BLACK v a b)"
    using rb_at_paint by blast
  then have "rb_at T1 (Frame (other d) c p t # ctx) (mk d BLACK w (mk d BLACK v a b) wo)"
    by (simp add: rb_at_up)
  then obtain T2 where T2: "set_color T1 (Some w) RED = Inr T2" "same_data T1 T2"
      "rb_at T2 (Frame (other d) c p t # ctx) (mk d RED w (mk d BLACK v a b) wo)"
    using rb_at_paint by blast
  have "rb_at T2 (Frame (other d) c p t # ctx) (mk (other d) RED w wo (mk (other d) BLACK v b a))"
    using T2(3) by (simp add: mk_other)
  then obtain T3 where T3: "rbtree_rotate (other d) T2 (Some w) = Inr T3" "same_data T2 T3"
      "rb_at T3 (Frame (other d) c p t # ctx) (mk (other d) BLACK v (mk (other d) RED w wo b) a)"
    using rotate_at by blast
  have same: "same_data T T3"
    using T1(2) T2(2) T3(2) same_data_trans by blast
  have at3: "rb_at T3 (Frame d c p (mk d BLACK v a (mk d RED w b wo)) # ctx) t"
    using T3(3) by (simp add: rb_at_up mk_other)
  then have hole3: "hole_at T3 (Frame d c p (mk d BLACK v a (mk d RED w b wo)) # ctx) t"
    by (intro hole_at_same [OF hole same]) simp_all
  have ptr: "ptr_of T t = ptr_of T3 t"
    by (rule hole_ptr_same [OF same])
  have x3: "get_parent T3 (ptr_of T3 t) = Inr (Some p)" "get_child T3 (other d) (Some p) = Inr (Some v)"
    using hole_parent [OF hole3] both_children_black(2) [OF at3 [unfolded rb_at_up]] by simp_all
  obtain T4 where T4: "bindr (get_parent T3 (ptr_of T3 t)) (\<lambda>xp.
         bindr (get_color T3 xp) (\<lambda>xpc.
         bindr (set_color T3 (Some v) xpc) (\<lambda>T.
         bindr (set_color T xp BLACK) (\<lambda>T.
         bindr (get_child T (other d) (Some v)) (\<lambda>wo.
         bindr (set_color T wo BLACK) (\<lambda>T.
         bindr (rbtree_rotate d T xp) (\<lambda>T. Inr (T, rb_root T)))))))) = Inr (T4, rb_root T4)" "same_data T3 T4"
      "rb_at T4 ctx (mk d c v (mk d BLACK p t a) (mk d BLACK w b wo))"
    using rest_outer_red [OF hole3] by blast
  have "delete_rest d T (ptr_of T t) (Some w) = Inr (T4, rb_root T4)"
    unfolding delete_rest_def g(1) using wo
    by (simp add: g(2-4) [simplified] T1(1) T2(1) T3(1) ptr x3 T4(1) [simplified x3 bindr_simps])
  with T4(2,3) same same_data_trans show ?thesis by blast
qed

lemma rest_outer_red_run:
  assumes hole: "hole_at T (Frame d c p (mk d BLACK w wi (mk d RED o1 x y)) # ctx) t"
  shows "\<exists>T'. delete_rest d T (ptr_of T t) (Some w) = Inr (T', rb_root T') \<and> same_data T T' \<and>
    rb_at T' ctx (mk d c w (mk d BLACK p t wi) (mk d BLACK o1 x y))"
proof -
  have w: "rb_at T (Frame (other d) c p t # ctx) (mk d BLACK w wi (mk d RED o1 x y))"
    using hole by (simp add: hole_at_def rb_at_up mk_other)
  note g = both_children_black [OF w]
  obtain T' where T': "bindr (get_parent T (ptr_of T t)) (\<lambda>xp.
         bindr (get_color T xp) (\<lambda>xpc.
         bindr (set_color T (Some w) xpc) (\<lambda>T.
         bindr (set_color T xp BLACK) (\<lambda>T.
         bindr (get_child T (other d) (Some w)) (\<lambda>wo.
         bindr (set_color T wo BLACK) (\<lambda>T.
         bindr (rbtree_rotate d T xp) (\<lambda>T. Inr (T, rb_root T)))))))) = Inr (T', rb_root T')" "same_data T T'"
      "rb_at T' ctx (mk d c w (mk d BLACK p t wi) (mk d BLACK o1 x y))"
    using rest_outer_red [OF hole] by blast
  have "delete_rest d T (ptr_of T t) (Some w) = Inr (T', rb_root T')"
    unfolding delete_rest_def g(1) using T'(1) by (simp add: g(2-4) [simplified])
  with T'(2,3) show ?thesis by blast
qed

text \<open>
  The sibling is black: either the position moves up to the parent, or the loop is about to
  end with the same nodes in the same order and every colour and height right.
\<close>

lemma rest_at:
  assumes hole: "hole_at T (Frame d c p s # ctx) t" and s: "rcol s = BLACK" "bh s = Suc (bh t)" "invh s" "invc s"
    and t: "rcol t = BLACK" "invh t" "invc t"
  shows "\<exists>T' x u. delete_rest d T (ptr_of T t) (ptr_of T s) = Inr (T', x) \<and> same_data T T' \<and> rb_at T' ctx u \<and>
    cnodes u = cnodes (mk d c p t s) \<and> invh u \<and>
    (x = ptr_of T' u \<and> invc (paint BLACK u) \<and> rcol u = c \<and> bh u = (if c = BLACK then Suc (bh t) else bh t) \<and> u \<noteq> Tip \<or>
     x = rb_root T' \<and> invc u \<and> rcol u = c \<and> bh u = (if c = BLACK then Suc (Suc (bh t)) else Suc (bh t)) \<and> u \<noteq> Tip)"
proof -
  obtain w wi wo where ss: "s = mk d BLACK w wi wo"
    using mk_exists [of s d] s(1,2) by (cases "s = Tip") auto
  have inv: "bh wi = bh t" "bh wo = bh t" "invh wi" "invh wo" "invc wi" "invc wo"
    using s ss bh_mk [of wi wo d BLACK w] by auto
  note hole = hole [unfolded ss]
  have p: "ptr_of T s = Some w" by (simp add: ss)
  consider (up) "rcol wi = BLACK" "rcol wo = BLACK" | (outer) "rcol wo = RED" | (inner) "rcol wi = RED" "rcol wo = BLACK"
    by (cases "rcol wi"; cases "rcol wo") auto
  then show ?thesis
  proof cases
    case up
    obtain T' where T': "delete_rest d T (ptr_of T t) (Some w) = Inr (T', Some p)" "same_data T T'"
        "rb_at T' ctx (mk d c p t (mk d RED w wi wo))"
      using rest_move_up [OF hole up] by blast
    moreover have "cnodes (mk d c p t (mk d RED w wi wo)) = cnodes (mk d c p t s)"
      unfolding ss by (intro cnodes_mk_cong refl)
    ultimately show ?thesis
      using inv t up p by (intro exI [of _ T'] exI [of _ "Some p"] exI [of _ "mk d c p t (mk d RED w wi wo)"]) (simp add: bh_mk)
  next
    case outer
    then obtain o1 x y where o: "wo = mk d RED o1 x y"
      using mk_exists [of wo d] by (cases "wo = Tip") auto
    have i: "bh x = bh t" "bh y = bh t" "invh x" "invh y" "invc x" "invc y"
      using inv o bh_mk [of x y d RED o1] by auto
    obtain T' where T': "delete_rest d T (ptr_of T t) (Some w) = Inr (T', rb_root T')" "same_data T T'"
        "rb_at T' ctx (mk d c w (mk d BLACK p t wi) (mk d BLACK o1 x y))"
      using rest_outer_red_run [OF hole [unfolded o]] by blast
    moreover have "cnodes (mk d c w (mk d BLACK p t wi) (mk d BLACK o1 x y)) = cnodes (mk d c p t s)"
      unfolding ss o by (cases d) auto
    ultimately show ?thesis
      using inv i t p by (intro exI [of _ T'] exI [of _ "rb_root T'"] exI [of _ "mk d c w (mk d BLACK p t wi) (mk d BLACK o1 x y)"])
        (simp add: bh_mk)
  next
    case inner
    then obtain v x y where o: "wi = mk d RED v x y"
      using mk_exists [of wi d] by (cases "wi = Tip") auto
    have i: "bh x = bh t" "bh y = bh t" "invh x" "invh y" "invc x" "invc y" "rcol y = BLACK" "rcol x = BLACK"
      using inv o bh_mk [of x y d RED v] by auto
    obtain T' where T': "delete_rest d T (ptr_of T t) (Some w) = Inr (T', rb_root T')" "same_data T T'"
        "rb_at T' ctx (mk d c v (mk d BLACK p t x) (mk d BLACK w y wo))"
      using rest_inner_red [OF hole [unfolded o] inner(2)] by blast
    moreover have "cnodes (mk d c v (mk d BLACK p t x) (mk d BLACK w y wo)) = cnodes (mk d c p t s)"
      unfolding ss o by (cases d) auto
    ultimately show ?thesis
      using inv i t p by (intro exI [of _ T'] exI [of _ "rb_root T'"] exI [of _ "mk d c v (mk d BLACK p t x) (mk d BLACK w y wo)"])
        (simp add: bh_mk)
  qed
qed


text \<open>The sibling is red: painting and a rotation give the position a black sibling.\<close>

lemma red_sibling:
  assumes hole: "hole_at T (Frame d BLACK p (mk d RED w wi wo) # ctx) t"
  shows "\<exists>T'. bindr (set_color T (Some w) BLACK) (\<lambda>T1.
        bindr (set_color T1 (Some p) RED) (\<lambda>T1.
        bindr (rbtree_rotate d T1 (Some p)) (\<lambda>T1.
        bindr (get_parent T1 (ptr_of T t)) (\<lambda>xp.
        bindr (get_child T1 (other d) xp) (\<lambda>w. Inr (T1, w)))))) = Inr (T', ptr_of T' wi) \<and> same_data T T' \<and>
    hole_at T' (Frame d RED p wi # Frame d BLACK w wo # ctx) t"
proof -
  have "rb_at T (Frame (other d) BLACK p t # ctx) (mk d RED w wi wo)"
    using hole by (simp add: hole_at_def rb_at_up mk_other)
  then obtain T1 where T1: "set_color T (Some w) BLACK = Inr T1" "same_data T T1" "rb_at T1 (Frame (other d) BLACK p t # ctx) (mk d BLACK w wi wo)"
    using rb_at_paint by blast
  then have "rb_at T1 ctx (mk d BLACK p t (mk d BLACK w wi wo))"
    by (simp add: rb_at_up mk_other)
  then obtain T2 where T2: "set_color T1 (Some p) RED = Inr T2" "same_data T1 T2" "rb_at T2 ctx (mk d RED p t (mk d BLACK w wi wo))"
    using rb_at_paint by blast
  then obtain T3 where T3: "rbtree_rotate d T2 (Some p) = Inr T3" "same_data T2 T3" "rb_at T3 ctx (mk d BLACK w (mk d RED p t wi) wo)"
    using rotate_at by blast
  have same: "same_data T T3"
    using T1(2) T2(2) T3(2) same_data_trans by blast
  have at3: "rb_at T3 (Frame d RED p wi # Frame d BLACK w wo # ctx) t"
    using T3(3) by (simp add: rb_at_up)
  then have hole3: "hole_at T3 (Frame d RED p wi # Frame d BLACK w wo # ctx) t"
    by (intro hole_at_same [OF hole same]) simp_all
  have "get_parent T3 (ptr_of T t) = Inr (Some p)" "get_child T3 (other d) (Some p) = Inr (ptr_of T3 wi)"
    using hole_parent [OF hole3] hole_ptr_same [OF same] both_children_black(2) [OF at3 [unfolded rb_at_up [of T3 d RED]]] by simp_all
  with same hole3 show ?thesis
    by (intro exI [of _ T3]) (simp add: T1(1) T2(1) T3(1))
qed

section \<open>The loop\<close>

definition hole_inv :: "frame list \<Rightarrow> ctree \<Rightarrow> bool" where
  "hole_inv ctx t \<longleftrightarrow> invh t \<and> invc (paint BLACK t) \<and> hctx (Suc (bh t)) ctx \<and> cctx BLACK ctx \<and> top_col BLACK ctx = BLACK"

text \<open>
  One round from a black position below a parent: the position moves, to the parent's place
  or a red node, or the loop is over with \<open>x\<close> the root.
\<close>

lemma delete_step_at:
  assumes hole: "hole_at T (Frame d c p s # ctx) t" and inv: "hole_inv (Frame d c p s # ctx) t" and black: "rcol t = BLACK"
  shows "\<exists>T' x u ctx'. delete_fixup_step d T (ptr_of T t) = Inr (T', x) \<and> same_data T T' \<and> rb_at T' ctx' u \<and> u \<noteq> Tip \<and>
    cnodes (plug ctx' u) = cnodes (plug (Frame d c p s # ctx) t) \<and>
    (x = ptr_of T' u \<and> hole_inv ctx' u \<and> (length ctx' \<le> length ctx \<or> length ctx' = Suc (length ctx) \<and> rcol u = RED) \<or>
     x = rb_root T' \<and> invh (plug ctx' u) \<and> invc (plug ctx' u))"
proof -
  have t: "invh t" "invc t" and s: "bh s = Suc (bh t)" "invh s" "invc s" "c = RED \<Longrightarrow> rcol s = BLACK" "s \<noteq> Tip"
    and ctx: "hctx (if c = BLACK then Suc (Suc (bh t)) else Suc (bh t)) ctx" "cctx c ctx" "top_col c ctx = BLACK"
    using inv black unfolding hole_inv_def by (cases t; auto)+
  have top: "top_col BLACK ctx = BLACK"
    using ctx(3) top_col_nonempty [of ctx BLACK c] by (cases "ctx = []") auto
  have par: "get_parent T (ptr_of T t) = Inr (Some p)" "get_child T (other d) (Some p) = Inr (ptr_of T s)" "get_color T (ptr_of T s) = Inr (rcol s)"
    using hole_parent [OF hole] hole both_children_black(2,3) [of T ctx d c p t s] by (simp_all add: hole_at_def rb_at_up)
  show ?thesis
  proof (cases "rcol s")
    case BLACK
    then have run: "delete_fixup_step d T (ptr_of T t) = delete_rest d T (ptr_of T t) (ptr_of T s)"
      by (simp add: delete_fixup_step_split par)
    obtain T' x u where R: "delete_rest d T (ptr_of T t) (ptr_of T s) = Inr (T', x)" "same_data T T'" "rb_at T' ctx u"
        "cnodes u = cnodes (mk d c p t s)" "invh u" "rcol u = c" "u \<noteq> Tip"
        "x = ptr_of T' u \<and> invc (paint BLACK u) \<and> bh u = (if c = BLACK then Suc (bh t) else bh t) \<or>
         x = rb_root T' \<and> invc u \<and> bh u = (if c = BLACK then Suc (Suc (bh t)) else Suc (bh t))"
      using rest_at [OF hole BLACK s(1-3) black t] by blast
    have "cnodes (plug ctx u) = cnodes (plug (Frame d c p s # ctx) t)"
      using cnodes_plug_cong [OF R(4)] by simp
    moreover from R(8) have "x = ptr_of T' u \<and> hole_inv ctx u \<or> x = rb_root T' \<and> invh (plug ctx u) \<and> invc (plug ctx u)"
      using R(5,6) ctx top cctx_weaken [of ctx BLACK] by (cases c) (auto simp: hole_inv_def plug_invh plug_invc)
    ultimately show ?thesis
      using run R(1-3,7) by (intro exI [of _ T'] exI [of _ x] exI [of _ u] exI [of _ ctx]) auto
  next
    case RED
    then have c: "c = BLACK" using s(4) by (cases c) auto
    obtain w wi wo where ss: "s = mk d RED w wi wo"
      using mk_exists [OF s(5), of d] RED by auto
    have i: "bh wi = Suc (bh t)" "bh wo = Suc (bh t)" "invh wi" "invh wo" "invc wi" "invc wo" "rcol wi = BLACK" "rcol wo = BLACK"
      using s ss bh_mk [of wi wo d RED w] by auto
    obtain T1 where T1: "bindr (set_color T (Some w) BLACK) (\<lambda>T1.
        bindr (set_color T1 (Some p) RED) (\<lambda>T1.
        bindr (rbtree_rotate d T1 (Some p)) (\<lambda>T1.
        bindr (get_parent T1 (ptr_of T t)) (\<lambda>xp.
        bindr (get_child T1 (other d) xp) (\<lambda>w. Inr (T1, w)))))) = Inr (T1, ptr_of T1 wi)" "same_data T T1"
        "hole_at T1 (Frame d RED p wi # Frame d BLACK w wo # ctx) t"
      using red_sibling [OF hole [unfolded c ss]] by blast
    have "delete_fixup_step d T (ptr_of T t) = delete_rest d T1 (ptr_of T t) (ptr_of T1 wi)"
      using T1(1) RED by (simp add: delete_fixup_step_split par ss [symmetric]) (simp add: ss)
    then have run: "delete_fixup_step d T (ptr_of T t) = delete_rest d T1 (ptr_of T1 t) (ptr_of T1 wi)"
      unfolding hole_ptr_same [OF T1(2), of t] .
    obtain T' x u where R: "delete_rest d T1 (ptr_of T1 t) (ptr_of T1 wi) = Inr (T', x)" "same_data T1 T'"
        "rb_at T' (Frame d BLACK w wo # ctx) u" "cnodes u = cnodes (mk d RED p t wi)" "invh u" "rcol u = RED" "u \<noteq> Tip"
        "x = ptr_of T' u \<and> invc (paint BLACK u) \<and> bh u = bh t \<or> x = rb_root T' \<and> invc u \<and> bh u = Suc (bh t)"
      using rest_at [OF T1(3) i(7,1,3,5) black t] by fastforce
    have nodes: "cnodes (mk d BLACK w u wo) = cnodes (mk d c p t s)"
      using R(4) unfolding ss by (cases d) auto
    have "cnodes (plug (Frame d BLACK w wo # ctx) u) = cnodes (plug (Frame d c p s # ctx) t)"
      using cnodes_plug_cong [OF nodes, of ctx] by simp
    moreover from R(8) have "x = ptr_of T' u \<and> hole_inv (Frame d BLACK w wo # ctx) u \<or>
        x = rb_root T' \<and> invh (plug (Frame d BLACK w wo # ctx) u) \<and> invc (plug (Frame d BLACK w wo # ctx) u)"
      using R(5,6) ctx c top i by (auto simp: hole_inv_def plug_invh plug_invc bh_mk)
    ultimately show ?thesis
      using run R(1,3,6,7) same_data_trans [OF T1(2) R(2)]
      by (intro exI [of _ T'] exI [of _ x] exI [of _ u] exI [of _ "Frame d BLACK w wo # ctx"]) auto
  qed
qed


lemma paint_any:
  assumes "rb_at T ctx t"
  shows "\<exists>T'. set_color T (ptr_of T t) BLACK = Inr T' \<and> same_data T T' \<and> rb_at T' ctx (paint BLACK t)"
proof (cases "t = Tip")
  case True
  obtain n where n: "rb_nil T = Some n" "rb_heap T n \<noteq> None" "rb_color (rb_node T n) = BLACK"
    using assms by (auto simp: rb_at_def nil_ok_def)
  have "upd T n (\<lambda>x. x\<lparr>rb_color := BLACK\<rparr>) = T"
    using n by (auto simp: upd_def rb_node_def fun_upd_idem)
  then have "set_color T (ptr_of T t) BLACK = Inr T"
    using n True by (simp add: heap_accesses)
  then show ?thesis using assms True by auto
next
  case False
  then obtain c a l r where "t = mk Lft c a l r"
    using mk_exists by blast
  then show ?thesis
    using rb_at_paint [of T ctx Lft c a l r BLACK] assms by auto
qed

lemma delete_fixup_loop_at:
  "hole_at T ctx t \<Longrightarrow> hole_inv ctx t \<Longrightarrow> length ctx + (if rcol t = RED then 1 else 2) \<le> fuel \<Longrightarrow>
   \<exists>T' x T'' u. delete_fixup_loop fuel T (ptr_of T t) = Inr (T', x) \<and> set_color T' x BLACK = Inr T'' \<and> same_data T T'' \<and>
     rb_at T'' [] u \<and> invh u \<and> invc u \<and> rcol u = BLACK \<and> cnodes u = cnodes (plug ctx t)"
proof (induction fuel arbitrary: T ctx t)
  case 0
  then show ?case by (auto split: if_splits)
next
  case (Suc fuel)
  have at: "rb_at T ctx t"
    using Suc.prems(1) by (simp add: hole_at_def)
  have inv: "invh t" "invc (paint BLACK t)" "hctx (Suc (bh t)) ctx" "cctx BLACK ctx" "top_col BLACK ctx = BLACK"
    using Suc.prems(2) by (simp_all add: hole_inv_def)
  note col = rb_at_color [OF at]
  show ?case
  proof (cases "ctx = [] \<or> rcol t = RED")
    case True
    obtain T'' where T'': "set_color T (ptr_of T t) BLACK = Inr T''" "same_data T T''" "rb_at T'' ctx (paint BLACK t)"
      using paint_any [OF at] by blast
    have "delete_fixup_loop (Suc fuel) T (ptr_of T t) = Inr (T, ptr_of T t)"
      using True hole_root [OF at] col by auto
    moreover have "invh (plug ctx (paint BLACK t))" "invc (plug ctx (paint BLACK t))" "rcol (plug ctx (paint BLACK t)) = BLACK"
      using True inv by (cases t; auto simp: plug_invh plug_invc plug_rcol)+
    moreover have "cnodes (plug ctx (paint BLACK t)) = cnodes (plug ctx t)"
      by (rule cnodes_plug_cong) simp
    ultimately show ?thesis
      using T'' by (intro exI [of _ T] exI [of _ "ptr_of T t"] exI [of _ T''] exI [of _ "plug ctx (paint BLACK t)"])
        (simp add: rb_at_plug)
  next
    case False
    then obtain d c p s ctx1 where ctx: "ctx = Frame d c p s # ctx1"
      by (cases ctx rule: ctx_nodes.cases) auto
    have black: "rcol t = BLACK" using False by (cases "rcol t") auto
    have "s \<noteq> Tip"
      using inv(3) ctx by auto
    note side = hole_side [OF at [unfolded ctx] this]
    have "ptr_of T t \<noteq> rb_root T" "get_parent T (ptr_of T t) = Inr (Some p)"
      using hole_root [OF at] False hole_parent [OF Suc.prems(1)] ctx by simp_all
    then have run: "delete_fixup_loop (Suc fuel) T (ptr_of T t) =
        bindr (delete_fixup_step d T (ptr_of T t)) (\<lambda>(T, x). delete_fixup_loop fuel T x)"
      using col black side by simp
    obtain T1 x u ctx' where S: "delete_fixup_step d T (ptr_of T t) = Inr (T1, x)" "same_data T T1" "rb_at T1 ctx' u" "u \<noteq> Tip"
        "cnodes (plug ctx' u) = cnodes (plug ctx t)"
        "x = ptr_of T1 u \<and> hole_inv ctx' u \<and> (length ctx' \<le> length ctx1 \<or> length ctx' = Suc (length ctx1) \<and> rcol u = RED) \<or>
         x = rb_root T1 \<and> invh (plug ctx' u) \<and> invc (plug ctx' u)"
      using delete_step_at [OF Suc.prems(1,2) [unfolded ctx] black] ctx by auto
    have "length ctx1 + 2 \<le> fuel"
      using Suc.prems(3) ctx black by simp
    with S(6) consider (on) "x = ptr_of T1 u" "hole_inv ctx' u" "length ctx' + (if rcol u = RED then 1 else 2) \<le> fuel"
      | (off) "x = rb_root T1" "invh (plug ctx' u)" "invc (plug ctx' u)" "fuel \<noteq> 0"
      by (cases "rcol u") auto
    then show ?thesis
    proof cases
      case on
      have "hole_at T1 ctx' u"
        using S(3,4) by (simp add: hole_at_def)
      from Suc.IH [OF this on(2,3)] obtain T' y T'' v where I: "delete_fixup_loop fuel T1 (ptr_of T1 u) = Inr (T', y)"
          "set_color T' y BLACK = Inr T''" "same_data T1 T''" "rb_at T'' [] v" "invh v" "invc v" "rcol v = BLACK" "cnodes v = cnodes (plug ctx' u)"
        by blast
      then show ?thesis
        using run S(1,5) on(1) same_data_trans [OF S(2) I(3)]
        by (intro exI [of _ T'] exI [of _ y] exI [of _ T''] exI [of _ v]) simp
    next
      case off
      have at0: "rb_at T1 [] (plug ctx' u)"
        using S(3) by (simp add: rb_at_plug)
      then have root: "ptr_of T1 (plug ctx' u) = rb_root T1"
        using hole_root by blast
      obtain T'' where T'': "set_color T1 (rb_root T1) BLACK = Inr T''" "same_data T1 T''" "rb_at T'' [] (paint BLACK (plug ctx' u))"
        using paint_any [OF at0] root by auto
      have "delete_fixup_loop fuel T1 x = Inr (T1, rb_root T1)"
        using off(1,4) by (cases fuel) simp_all
      then show ?thesis
        using run S(1,5) T'' off(2,3) same_data_trans [OF S(2) T''(2)]
        by (intro exI [of _ T1] exI [of _ "rb_root T1"] exI [of _ T''] exI [of _ "paint BLACK (plug ctx' u)"])
           (simp add: invc_paint)
    qed
  qed
qed

lemma rbtree_delete_fixup_at:
  assumes "hole_at T ctx t" "hole_inv ctx t"
  shows "\<exists>T' u. rbtree_delete_fixup T (ptr_of T t) = Inr T' \<and> same_data T T' \<and> rb_at T' [] u \<and> invh u \<and> invc u \<and>
    rcol u = BLACK \<and> cnodes u = cnodes (plug ctx t)"
proof -
  have "length ctx + (if rcol t = RED then 1 else 2) \<le> loop_bound T"
    using rb_at_bound(2) [of T ctx t] assms(1) by (auto simp: hole_at_def)
  then show ?thesis
    using delete_fixup_loop_at [OF assms, of "loop_bound T"] unfolding rbtree_delete_fixup_def by fastforce
qed


section \<open>Splicing a node out\<close>

text \<open>The data of every node is kept; the sentinel's \<open>parent\<close> may have been written.\<close>

definition same_kv :: "rbtree \<Rightarrow> rbtree \<Rightarrow> bool" where
  "same_kv T T' \<longleftrightarrow> rb_nil T' = rb_nil T \<and> rb_next T' = rb_next T \<and>
     (\<forall>a. (rb_heap T' a = None \<longleftrightarrow> rb_heap T a = None) \<and> rb_key (rb_node T' a) = rb_key (rb_node T a) \<and>
       rb_value (rb_node T' a) = rb_value (rb_node T a))"

lemma same_data_kv: "same_data T T' \<Longrightarrow> same_kv T T'"
  by (simp add: same_data_def same_kv_def)

lemma same_kv_trans [trans]: "same_kv T T1 \<Longrightarrow> same_kv T1 T2 \<Longrightarrow> same_kv T T2"
  by (simp add: same_kv_def)

lemma same_kv_entry: "same_kv T T' \<Longrightarrow> entry_at T' = entry_at T"
  by (auto simp: same_kv_def entry_at_def key_at_def val_at_def)

lemma splice_at:
  assumes at: "rb_at T ctx (mk e cy y x Tip)"
  shows "\<exists>T1 T2. set_parent T (ptr_of T x) (up T ctx) = Inr T1 \<and>
    (if up T ctx = rb_nil T1 then Inr (T1\<lparr>rb_root := ptr_of T x\<rparr>)
     else bindr (get_child T1 Lft (up T ctx)) (\<lambda>q. if Some y = q then set_child T1 Lft (up T ctx) (ptr_of T x)
            else set_child T1 Rgt (up T ctx) (ptr_of T x))) = Inr T2 \<and>
    same_kv T T2 \<and> hole_at T2 ctx x \<and> rb_node T2 y = rb_node T y"
proof -
  obtain n where n: "rb_nil T = Some n" "rb_heap T n \<noteq> None"
    using at by (auto simp: rb_at_def nil_ok_def)
  obtain b where b: "ptr_of T x = Some b"
    using n by (cases x) auto
  have facts: "nil_ok T" "sub_at T (Some y) x" "ctx_at T (Some y) ctx" "distinct (ctx_nodes ctx)" "distinct (cnodes x)"
      "set (cnodes x) \<inter> set (ctx_nodes ctx) = {}" "y \<notin> set (cnodes x)" "y \<notin> set (ctx_nodes ctx)" "Some y \<noteq> rb_nil T"
    using at by (auto simp: rb_at_def node_in_def)
  have nn: "n \<notin> set (ctx_nodes ctx)"
    using ctx_at_below [OF facts(3)] n by auto
  have bx: "b \<noteq> y" "b \<notin> set (ctx_nodes ctx)" "rb_heap T b \<noteq> None"
    using facts b n nn by (cases x; auto simp: node_in_def)+
  define T1 where "T1 = upd T b (\<lambda>m. m\<lparr>rb_parent := up T ctx\<rparr>)"
  define T2 where "T2 = relink T1 ctx (Some b)"
  have r1: "set_parent T (ptr_of T x) (up T ctx) = Inr T1"
    using b bx(3) by (simp add: T1_def heap_accesses)
  have kv1: "same_kv T T1"
    using bx(3) by (auto simp: T1_def same_kv_def)
  have nil1: "nil_ok T1"
    using facts(1) by (auto simp: T1_def nil_ok_def)
  have x1: "sub_at T1 (up T ctx) x"
    using reparent_at(2) [OF facts(2,5,1), of "up T ctx"] b by (cases x) (simp_all add: T1_def)
  have c1: "ctx_at T1 (Some y) ctx" "up T1 ctx = up T ctx" "rb_nil T1 = rb_nil T"
    using facts(3) bx(2) by (simp_all add: T1_def)
  have "Some y \<noteq> rb_nil T1" using facts(9) c1(3) by simp
  note run2 = relink_run [OF c1(1) facts(8) this, of "Some b" Lft, unfolded c1(2)]
  have c2: "ctx_at T2 (Some b) ctx" "same_data T1 T2" "nil_ok T2"
    unfolding T2_def by (rule relink_at [OF c1(1) facts(4) nil1])+
  have ptrs: "ptr_of T2 x = Some b" "up T2 ctx = up T ctx"
    using b by (simp_all add: T2_def T1_def)
  have "sub_at T2 (up T ctx) x"
    using x1 facts(6) by (simp add: T2_def Int_commute)
  then have at2: "rb_at T2 ctx x"
    using c2 ptrs facts by (simp add: rb_at_def)
  have "rb_parent (rb_node T2 n) = up T ctx" if "x = Tip"
    using that b n nn by (simp add: T2_def T1_def)
  then have hole: "hole_at T2 ctx x"
    using at2 ptrs(2) n(1) c2(2) by (auto simp: hole_at_def T2_def T1_def)
  have node: "rb_node T2 y = rb_node T y"
    using bx facts(8) by (simp add: T2_def T1_def)
  have kv2: "same_kv T T2"
    using kv1 same_data_kv [OF c2(2)] same_kv_trans by blast
  have "set_parent T (Some b) (up T ctx) = Inr T1"
    using r1 by (simp only: b)
  with run2 hole node kv2 show ?thesis
    unfolding b T2_def [symmetric] other.simps by blast
qed

text \<open>Writing a key and a value into a node.\<close>

lemma node_in_data:
  "node_in T b c q d p1 p2 \<Longrightarrow> node_in (upd T a (\<lambda>n. n\<lparr>rb_key := Some k, rb_value := Some v\<rparr>)) b c q d p1 p2"
  by (auto simp: node_in_def)

lemma sub_at_data: "sub_at T q t \<Longrightarrow> sub_at (upd T a (\<lambda>n. n\<lparr>rb_key := Some k, rb_value := Some v\<rparr>)) q t"
  by (induction t arbitrary: q) (auto intro: node_in_data)

lemma hole_at_data:
  assumes "hole_at T ctx t" "Some a \<noteq> rb_nil T"
  shows "hole_at (upd T a (\<lambda>n. n\<lparr>rb_key := Some k, rb_value := Some v\<rparr>)) ctx t"
proof -
  let ?T = "upd T a (\<lambda>n. n\<lparr>rb_key := Some k, rb_value := Some v\<rparr>)"
  have "ctx_at T p ctx \<Longrightarrow> ctx_at ?T p ctx" for p
    by (induction ctx arbitrary: p rule: ctx_nodes.induct) (auto intro: node_in_data sub_at_data)
  moreover obtain n where "rb_nil T = Some n"
    using assms(1) by (auto simp: hole_at_def rb_at_def nil_ok_def)
  ultimately show ?thesis
    using assms by (auto simp: hole_at_def rb_at_def intro: sub_at_data)
qed

text \<open>The colour of the node taken out decides whether a black is missing at its place.\<close>

lemma close_hole:
  assumes hole: "hole_at T ctx x" and inv: "invh (plug ctx (mk e cy y x Tip))" "invc (plug ctx (mk e cy y x Tip))"
    "rcol (plug ctx (mk e cy y x Tip)) = BLACK"
  shows "\<exists>T' u. (if cy = BLACK then rbtree_delete_fixup T (ptr_of T x) else Inr T) = Inr T' \<and> same_data T T' \<and>
    rb_at T' [] u \<and> invh u \<and> invc u \<and> rcol u = BLACK \<and> cnodes u = cnodes (plug ctx x)"
proof (cases cy)
  case BLACK
  then have "hole_inv ctx x"
    using inv top_col_nonempty [of ctx] bh_mk [of x Tip e cy y]
    by (auto simp: hole_inv_def plug_invh plug_invc plug_rcol invc_paint)
  then show ?thesis
    using rbtree_delete_fixup_at [OF hole] BLACK by simp
next
  case RED
  then have x: "x = Tip"
    using inv(1,2) by (cases x) (auto simp: plug_invh plug_invc)
  have ctx: "ctx \<noteq> []" "hctx 0 ctx" "cctx RED ctx" "top_col RED ctx = BLACK"
    using inv RED bh_mk [of Tip Tip e RED y] by (auto simp: plug_invh plug_invc plug_rcol x)
  then have "invh (plug ctx x)" "invc (plug ctx x)" "rcol (plug ctx x) = BLACK"
    using cctx_weaken [of ctx BLACK] top_col_nonempty [of ctx BLACK RED] by (simp_all add: plug_invh plug_invc plug_rcol x)
  then show ?thesis
    using hole RED by (intro exI [of _ T] exI [of _ "plug ctx x"]) (simp add: hole_at_def rb_at_plug)
qed


section \<open>Finding the node to take out\<close>

lemma zip_node: "a \<in> set (cnodes t) \<Longrightarrow> \<exists>ctx' c l r. plug ctx' (Bin c l a r) = plug ctx t"
proof (induction t arbitrary: ctx)
  case (Bin c l b r)
  consider "a \<in> set (cnodes l)" | "a = b" | "a \<in> set (cnodes r)"
    using Bin.prems by auto
  then show ?case
  proof cases
    case 1
    then show ?thesis using Bin.IH(1) [of "Frame Lft c b r # ctx"] by simp
  next
    case 2
    then show ?thesis by blast
  next
    case 3
    then show ?thesis using Bin.IH(2) [of "Frame Rgt c b l # ctx"] by simp
  qed
qed simp

text \<open>The leftmost node of a tree.\<close>

lemma mini_at:
  "rb_at T ctx t \<Longrightarrow> t \<noteq> Tip \<Longrightarrow> depth (strip t) \<le> fuel \<Longrightarrow>
   \<exists>ctx' c y r. rbtree_mini_loop fuel T (ptr_of T t) = Inr (Some y) \<and> plug ctx' (Bin c Tip y r) = plug ctx t \<and>
     lnodes ctx' = lnodes ctx \<and> y \<in> set (cnodes t)"
proof (induction fuel arbitrary: ctx t)
  case 0
  then show ?case by (cases t) auto
next
  case (Suc fuel)
  then obtain c l a r where t: "t = Bin c l a r"
    by (cases t) auto
  have n: "get_child T Lft (Some a) = Inr (ptr_of T l)"
    using Suc.prems(1) t by (auto simp: rb_at_def intro: node_in_access(3))
  show ?case
  proof (cases "l = Tip")
    case True
    then show ?thesis
      using n t by (intro exI [of _ ctx] exI [of _ c] exI [of _ a] exI [of _ r]) simp
  next
    case False
    have at: "rb_at T (Frame Lft c a r # ctx) l"
      using Suc.prems(1) t by (simp add: rb_at_up)
    then have "ptr_of T l \<noteq> rb_nil T"
      using False by (cases l) (auto simp: rb_at_def node_in_def)
    then have "rbtree_mini_loop (Suc fuel) T (ptr_of T t) = rbtree_mini_loop fuel T (ptr_of T l)"
      using n t by simp
    then show ?thesis
      using Suc.IH [OF at False] Suc.prems(3) t by auto
  qed
qed

lemma rbtree_mini_at:
  assumes "rb_at T ctx t" "t \<noteq> Tip"
  shows "\<exists>ctx' c y r. rbtree_mini T (ptr_of T t) = Inr (Some y) \<and> plug ctx' (Bin c Tip y r) = plug ctx t \<and>
     lnodes ctx' = lnodes ctx \<and> y \<in> set (cnodes t)"
proof -
  have "depth (strip t) \<le> loop_bound T"
    using rb_at_bound(1) [OF assms(1)] depth_le [of "strip t"] by (simp add: loop_bound_def)
  then show ?thesis
    using mini_at [OF assms] unfolding rbtree_mini_def by blast
qed

text \<open>
  The node \<open>rbtree_delete\<close> takes out: \<open>z\<close> itself when it lacks a child, its in-order
  successor otherwise; it has at most one child.
\<close>

lemma delete_choice:
  assumes at: "rb_at T [] t" and a: "a \<in> set (cnodes t)"
  shows "\<exists>y ctx e c x zl zr. get_child T Lft (Some a) = Inr zl \<and> get_child T Rgt (Some a) = Inr zr \<and>
    (if zl = rb_nil T \<or> zr = rb_nil T then Inr (Some a) else rbtree_successor T (Some a)) = Inr (Some y) \<and>
    plug ctx (mk e c y x Tip) = t \<and> (y \<noteq> a \<longrightarrow> e = Rgt \<and> (\<exists>ls. lnodes ctx = ls @ [a]))"
proof -
  obtain ctx c l r where t: "plug ctx (Bin c l a r) = t"
    using zip_node [OF a, of "[]"] by auto
  have atz: "rb_at T ctx (mk Lft c a l r)"
    using at t rb_at_plug [of T ctx "Bin c l a r"] by simp
  note n = rb_at_node [OF atz]
  have g: "get_child T Lft (Some a) = Inr (ptr_of T l)" "get_child T Rgt (Some a) = Inr (ptr_of T r)"
      "get_parent T (Some a) = Inr (up T ctx)"
    using node_in_access(3,4,6) [OF n] by simp_all
  have nil: "ptr_of T l = rb_nil T \<longleftrightarrow> l = Tip" "ptr_of T r = rb_nil T \<longleftrightarrow> r = Tip"
    using atz by (cases l; cases r; auto simp: rb_at_def node_in_def)+
  show ?thesis
  proof (cases "l = Tip \<or> r = Tip")
    case True
    then have "plug ctx (mk (if r = Tip then Lft else Rgt) c a (if r = Tip then l else r) Tip) = t"
      using t by auto
    then show ?thesis
      using g nil True by (intro exI [of _ a] exI [of _ ctx] exI [of _ "if r = Tip then Lft else Rgt"] exI [of _ c]
         exI [of _ "if r = Tip then l else r"] exI [of _ "ptr_of T l"] exI [of _ "ptr_of T r"]) simp
  next
    case False
    have "rb_at T (Frame Rgt c a l # ctx) r"
      using atz by (simp add: rb_at_up)
    then obtain ctx' c' y r' where m: "rbtree_mini T (ptr_of T r) = Inr (Some y)"
        "plug ctx' (Bin c' Tip y r') = plug (Frame Rgt c a l # ctx) r" "lnodes ctx' = lnodes (Frame Rgt c a l # ctx)"
      using rbtree_mini_at False by blast
    have "rbtree_successor T (Some a) = Inr (Some y)"
      using g nil False m(1) by (simp add: rbtree_successor_def)
    then show ?thesis
      using g nil False m(2,3) t by (intro exI [of _ y] exI [of _ ctx'] exI [of _ Rgt] exI [of _ c']
         exI [of _ r'] exI [of _ "ptr_of T l"] exI [of _ "ptr_of T r"]) simp
  qed
qed


section \<open>Deletion as a whole\<close>

text \<open>The exchange of the data of \<open>z\<close> and \<open>y\<close>.\<close>

lemma swap_at:
  assumes hole: "hole_at T ctx x"
    and a: "Some a \<noteq> rb_nil T" "rb_heap T a \<noteq> None" "rb_key (rb_node T a) = Some ka" "rb_value (rb_node T a) = Some va"
    and y: "Some y \<noteq> rb_nil T" "rb_heap T y \<noteq> None" "rb_key (rb_node T y) = Some ky" "rb_value (rb_node T y) = Some vy"
  shows "\<exists>T'. (if Some y \<noteq> Some a then bindr (deref T (Some a)) (\<lambda>zn. bindr (deref T (Some y)) (\<lambda>yn.
        bindr (assign T (Some a) (\<lambda>n. n\<lparr>rb_key := rb_key yn, rb_value := rb_value yn\<rparr>)) (\<lambda>T.
        assign T (Some y) (\<lambda>n. n\<lparr>rb_key := rb_key zn, rb_value := rb_value zn\<rparr>)))) else Inr T) = Inr T' \<and>
    hole_at T' ctx x \<and> rb_nil T' = rb_nil T \<and> rb_heap T' y \<noteq> None \<and> rb_color (rb_node T' y) = rb_color (rb_node T y) \<and>
    rb_key (rb_node T' y) \<noteq> None \<and> rb_value (rb_node T' y) \<noteq> None \<and> entry_at T' a = (ky, vy) \<and>
    (\<forall>b. b \<noteq> a \<and> b \<noteq> y \<longrightarrow> entry_at T' b = entry_at T b) \<and> ptr_of T' x = ptr_of T x"
proof (cases "y = a")
  case True
  then show ?thesis
    using hole y by (intro exI [of _ T]) (simp add: entry_at_def key_at_def val_at_def)
next
  case False
  let ?T1 = "upd T a (\<lambda>n. n\<lparr>rb_key := Some ky, rb_value := Some vy\<rparr>)"
  let ?T2 = "upd ?T1 y (\<lambda>n. n\<lparr>rb_key := Some ka, rb_value := Some va\<rparr>)"
  have "hole_at ?T2 ctx x"
    by (rule hole_at_data [OF hole_at_data [OF hole a(1)]]) (use y(1) in simp)
  then show ?thesis
    using False a y by (intro exI [of _ ?T2]) (simp add: heap_accesses entry_at_def key_at_def val_at_def)
qed

lemma deleted_entries:
  assumes nodes: "lnodes ctx @ cnodes (mk e c y x Tip) @ rnodes ctx = N" "distinct N"
    and y: "y \<noteq> a \<longrightarrow> e = Rgt \<and> (\<exists>ls. lnodes ctx = ls @ [a])"
    and E: "\<forall>b \<in> set N. b \<noteq> a \<and> b \<noteq> y \<longrightarrow> f b = g b" "f a = g y"
  shows "\<exists>ls rs. map g N = ls @ g a # rs \<and> map f (lnodes ctx @ cnodes x @ rnodes ctx) = ls @ rs"
proof (cases "y = a")
  case True
  have eq: "map f xs = map g xs" if "set xs \<subseteq> set N - {a}" for xs
    using that E(1) True by (intro map_cong) auto
  show ?thesis
  proof (cases e)
    case Lft
    then have N: "N = (lnodes ctx @ cnodes x) @ a # rnodes ctx"
      using nodes True by simp
    then show ?thesis
      using nodes(2) eq [of "lnodes ctx"] eq [of "cnodes x"] eq [of "rnodes ctx"]
      by (intro exI [of _ "map g (lnodes ctx @ cnodes x)"] exI [of _ "map g (rnodes ctx)"]) auto
  next
    case Rgt
    then have N: "N = lnodes ctx @ a # cnodes x @ rnodes ctx"
      using nodes True by simp
    then show ?thesis
      using nodes(2) eq [of "lnodes ctx"] eq [of "cnodes x"] eq [of "rnodes ctx"]
      by (intro exI [of _ "map g (lnodes ctx)"] exI [of _ "map g (cnodes x @ rnodes ctx)"]) auto
  qed
next
  case False
  then obtain ls where ls: "e = Rgt" "lnodes ctx = ls @ [a]"
    using y by blast
  have eq: "map f xs = map g xs" if "set xs \<subseteq> set N - {a, y}" for xs
    using that E(1) by (intro map_cong) auto
  have N: "N = ls @ a # y # cnodes x @ rnodes ctx"
    using nodes ls by simp
  then show ?thesis
    using nodes(2) ls E(2) eq [of ls] eq [of "cnodes x"] eq [of "rnodes ctx"]
    by (intro exI [of _ "map g ls"] exI [of _ "g y # map g (cnodes x @ rnodes ctx)"]) auto
qed

lemma rbtree_delete_at:
  assumes tree: "rb_tree T t" and a: "a \<in> set (cnodes t)"
  shows "\<exists>y T' u ls rs. rbtree_delete T (Some a) = Inr (Some y, T') \<and> rb_tree T' u \<and> y \<notin> set (cnodes u) \<and>
    Some y \<noteq> rb_nil T' \<and> rb_heap T' y \<noteq> None \<and> rb_key (rb_node T' y) \<noteq> None \<and> rb_value (rb_node T' y) \<noteq> None \<and>
    map (entry_at T) (cnodes t) = ls @ entry_at T a # rs \<and> map (entry_at T') (cnodes u) = ls @ rs"
proof -
  have at: "rb_at T [] t" and inv: "invh t" "invc t" "rcol t = BLACK"
    using tree by (simp_all add: rb_tree_def)
  obtain y ctx e c x zl zr where ch: "get_child T Lft (Some a) = Inr zl" "get_child T Rgt (Some a) = Inr zr"
      "(if zl = rb_nil T \<or> zr = rb_nil T then Inr (Some a) else rbtree_successor T (Some a)) = Inr (Some y)"
      "plug ctx (mk e c y x Tip) = t" "y \<noteq> a \<longrightarrow> e = Rgt \<and> (\<exists>ls. lnodes ctx = ls @ [a])"
    using delete_choice [OF at a] by metis
  have aty: "rb_at T ctx (mk e c y x Tip)"
    using at ch(4) rb_at_plug by metis
  note n = rb_at_node [OF aty]
  have nilx: "ptr_of T x = rb_nil T \<longleftrightarrow> x = Tip"
    using aty by (cases x) (auto simp: rb_at_def node_in_def)
  obtain yl yr where kids: "get_child T Lft (Some y) = Inr yl" "get_child T Rgt (Some y) = Inr yr"
      "(if yl \<noteq> rb_nil T then yl else if yr \<noteq> rb_nil T then yr else rb_nil T) = ptr_of T x"
    using node_in_access(3,4) [OF n] by (cases e) auto
  have par: "get_parent T (Some y) = Inr (up T ctx)"
    by (rule node_in_access(6) [OF n])
  obtain T1 T2 where T2: "set_parent T (ptr_of T x) (up T ctx) = Inr T1"
      "(if up T ctx = rb_nil T1 then Inr (T1\<lparr>rb_root := ptr_of T x\<rparr>)
        else bindr (get_child T1 Lft (up T ctx)) (\<lambda>q. if Some y = q then set_child T1 Lft (up T ctx) (ptr_of T x)
            else set_child T1 Rgt (up T ctx) (ptr_of T x))) = Inr T2"
      "same_kv T T2" "hole_at T2 ctx x" "rb_node T2 y = rb_node T y"
    using splice_at [OF aty] by blast
  have data: "Some b \<noteq> rb_nil T2 \<and> rb_heap T2 b \<noteq> None \<and> rb_key (rb_node T2 b) = Some (key_at T b) \<and> rb_value (rb_node T2 b) = Some (val_at T b)"
    if "b \<in> set (cnodes t)" for b
    using tree_at_node [OF sub_at_tree, of T "rb_nil T" t b] tree_at_key [OF sub_at_tree, of T "rb_nil T" t b] that at T2(3)
    by (auto simp: rb_at_def same_kv_def)
  have nodes: "lnodes ctx @ cnodes (mk e c y x Tip) @ rnodes ctx = cnodes t"
    using cnodes_plug [of ctx "mk e c y x Tip"] ch(4) by simp
  then have yt: "y \<in> set (cnodes t)"
    by (metis Un_iff insertI1 mset_mk set_append)
  obtain T3 where T3: "(if Some y \<noteq> Some a then bindr (deref T2 (Some a)) (\<lambda>zn. bindr (deref T2 (Some y)) (\<lambda>yn.
        bindr (assign T2 (Some a) (\<lambda>n. n\<lparr>rb_key := rb_key yn, rb_value := rb_value yn\<rparr>)) (\<lambda>T.
        assign T (Some y) (\<lambda>n. n\<lparr>rb_key := rb_key zn, rb_value := rb_value zn\<rparr>)))) else Inr T2) = Inr T3"
      "hole_at T3 ctx x" "rb_nil T3 = rb_nil T2" "rb_heap T3 y \<noteq> None" "rb_color (rb_node T3 y) = rb_color (rb_node T2 y)"
      "rb_key (rb_node T3 y) \<noteq> None" "rb_value (rb_node T3 y) \<noteq> None" "entry_at T3 a = entry_at T y"
      "\<forall>b. b \<noteq> a \<and> b \<noteq> y \<longrightarrow> entry_at T3 b = entry_at T2 b" "ptr_of T3 x = ptr_of T2 x"
    using swap_at [OF T2(4), of a "key_at T a" "val_at T a" y "key_at T y" "val_at T y"] data [OF a] data [OF yt]
    by (auto simp: entry_at_def)
  have col: "get_color T3 (Some y) = Inr c"
    using T3(4,5) T2(5) n by (simp add: heap_accesses node_in_def)
  have ptr: "ptr_of T x = ptr_of T3 x"
    using T3(10) T2(3) ptr_of_cong [of T2 T] by (simp add: same_kv_def)
  obtain T4 u where T4: "(if c = BLACK then rbtree_delete_fixup T3 (ptr_of T x) else Inr T3) = Inr T4" "same_data T3 T4"
      "rb_at T4 [] u" "invh u" "invc u" "rcol u = BLACK" "cnodes u = cnodes (plug ctx x)"
    using close_hole [OF T3(2), of e c y] inv ch(4) unfolding ptr by blast
  have run: "rbtree_delete T (Some a) = Inr (Some y, T4)"
    unfolding rbtree_delete_def Let_def
    by (simp only: ch(1-3) kids par T2(1,2) T3(1) col T4(1) bindr_simps)
  have E4: "entry_at T4 = entry_at T3"
    by (rule same_data_keys(3) [OF T4(2)])
  have dist: "distinct (cnodes t)"
    using at by (simp add: rb_at_def)
  have "\<forall>b \<in> set (cnodes t). b \<noteq> a \<and> b \<noteq> y \<longrightarrow> entry_at T4 b = entry_at T b" "entry_at T4 a = entry_at T y"
    using T3(8,9) E4 same_kv_entry [OF T2(3)] by simp_all
  from deleted_entries [OF nodes dist ch(5) this] obtain ls rs where L: "map (entry_at T) (cnodes t) = ls @ entry_at T a # rs"
      "map (entry_at T4) (cnodes u) = ls @ rs"
    using T4(7) cnodes_plug [of ctx x] by auto
  have keys: "map (key_at S) xs = map fst (map (entry_at S) xs)" for S xs
    by (simp add: entry_at_def comp_def)
  have "sorted_wrt (<) (map (key_at T4) (cnodes u))"
    using tree L unfolding rb_tree_def keys by (auto simp: sorted_wrt_append)
  then have "rb_tree T4 u"
    using T4 by (simp add: rb_tree_def)
  moreover have "y \<notin> set (cnodes u)"
    using T4(7) cnodes_plug [of ctx x] dist unfolding nodes [symmetric] by (cases e) auto
  moreover have "Some y \<noteq> rb_nil T4" "rb_heap T4 y \<noteq> None" "rb_key (rb_node T4 y) \<noteq> None" "rb_value (rb_node T4 y) \<noteq> None"
    using T4(2) T3(3,4,6,7) data [OF yt] by (auto simp: same_data_def)
  ultimately show ?thesis
    using run L by blast
qed


section \<open>The engine's \<open>del\<close> and destructor\<close>

lemma drop_node:
  assumes "rb_tree T u" "y \<notin> set (cnodes u)" "Some y \<noteq> rb_nil T"
  shows "rb_tree (T\<lparr>rb_heap := (rb_heap T)(y := None)\<rparr>) u"
    "map (entry_at (T\<lparr>rb_heap := (rb_heap T)(y := None)\<rparr>)) (cnodes u) = map (entry_at T) (cnodes u)"
proof -
  let ?T = "T\<lparr>rb_heap := (rb_heap T)(y := None)\<rparr>"
  have node: "b \<noteq> y \<Longrightarrow> rb_node ?T b = rb_node T b" for b
    by (simp add: rb_node_def)
  have ptr: "ptr_of ?T t = ptr_of T t" for t
    by (rule ptr_of_cong) simp
  have "sub_at T q t \<Longrightarrow> y \<notin> set (cnodes t) \<Longrightarrow> sub_at ?T q t" for q t
    by (induction t arbitrary: q) (auto simp: node_in_def node ptr)
  moreover have "nil_ok T \<Longrightarrow> nil_ok ?T"
    using assms(3) by (auto simp: nil_ok_def node)
  ultimately have "rb_at T [] u \<Longrightarrow> rb_at ?T [] u"
    using assms(2) by (simp add: rb_at_def ptr)
  moreover have data: "key_at ?T b = key_at T b" "entry_at ?T b = entry_at T b" if "b \<in> set (cnodes u)" for b
  proof -
    have "b \<noteq> y" using that assms(2) by auto
    then show "key_at ?T b = key_at T b" "entry_at ?T b = entry_at T b"
      using node [of b] by (simp_all add: entry_at_def key_at_def val_at_def)
  qed
  ultimately show "rb_tree ?T u"
    using assms(1) by (simp add: rb_tree_def cong: map_cong)
  show "map (entry_at ?T) (cnodes u) = map (entry_at T) (cnodes u)"
    by (rule map_cong [OF refl data(2)])
qed

text \<open>Taking a node out and giving its memory back: one binding and three blocks fewer.\<close>

lemma delete_and_free:
  assumes tree: "rb_tree T t" and a: "a \<in> set (cnodes t)"
  shows "\<exists>y T1 T' s'. rbtree_delete T (Some a) = Inr (y, T1) \<and> rbtree_node_free T1 y s = Inr (T', s') \<and> rbtree_inv T' \<and>
    rbtree_map T' = (rbtree_map T)(key_at T a := None) \<and> length (rbtree_entries T) = Suc (length (rbtree_entries T')) \<and>
    s_live s' = s_live s - 3 \<and> s_alloc s' = s_alloc s"
proof -
  obtain y T1 u ls rs where D: "rbtree_delete T (Some a) = Inr (Some y, T1)" "rb_tree T1 u" "y \<notin> set (cnodes u)"
      "Some y \<noteq> rb_nil T1" "rb_heap T1 y \<noteq> None" "rb_key (rb_node T1 y) \<noteq> None" "rb_value (rb_node T1 y) \<noteq> None"
      "map (entry_at T) (cnodes t) = ls @ entry_at T a # rs" "map (entry_at T1) (cnodes u) = ls @ rs"
    using rbtree_delete_at [OF assms] by blast
  let ?T = "T1\<lparr>rb_heap := (rb_heap T1)(y := None)\<rparr>"
  let ?s = "kvs_free (kvs_free_opt (rb_value (rb_node T1 y)) (kvs_free_opt (rb_key (rb_node T1 y)) s))"
  note dn = drop_node [OF D(2-4)]
  have E: "rbtree_entries T = ls @ entry_at T a # rs" "rbtree_entries ?T = ls @ rs"
    using rb_tree_entries [OF tree] rb_tree_entries [OF dn(1)] dn(2) D(8,9) by simp_all
  have "distinct (map fst (rbtree_entries T))"
    by (rule rbtree_keys_distinct [OF rb_tree_search [OF tree]])
  then have "key_at T a \<notin> fst ` set (ls @ rs)"
    unfolding E(1) by (auto simp: entry_at_def)
  then have "rbtree_map ?T = (rbtree_map T)(key_at T a := None)"
    unfolding rbtree_map_def E entry_at_def by (rule map_of_cut)
  moreover have "rbtree_node_free T1 (Some y) s = Inr (?T, ?s)"
    using D(5) by (simp add: rbtree_node_free_def heap_accesses)
  moreover have "s_live ?s = s_live s - 3 \<and> s_alloc ?s = s_alloc s"
    using D(6,7) by (auto simp: kvs_free_def)
  ultimately show ?thesis
    using D(1) dn(1) E by (auto simp: rbtree_inv_def)
qed

lemma rbtree_del_law:
  assumes "rbtree_inv T"
  shows "\<exists>r T' s'. kvs_rbtree_del T (Some k) s = Inr (r, T', s') \<and> rbtree_inv T' \<and> balanced rbtree_owned T s T' s' \<and>
    (r = 0 \<and> rbtree_map T k \<noteq> None \<and> rbtree_map T' = (rbtree_map T)(k := None) \<or>
     r \<noteq> 0 \<and> rbtree_map T k = None \<and> T' = T \<and> s' = s)"
proof -
  obtain t where tree: "rb_tree T t"
    using assms by (auto simp: rbtree_inv_def)
  from tree show ?thesis
  proof (cases rule: rbtree_found [where k = k])
    case (found a)
    obtain y T1 T' s' where "rbtree_delete T (Some a) = Inr (y, T1)" "rbtree_node_free T1 y s = Inr (T', s')" "rbtree_inv T'"
        "rbtree_map T' = (rbtree_map T)(key_at T a := None)" "length (rbtree_entries T) = Suc (length (rbtree_entries T'))"
        "s_live s' = s_live s - 3" "s_alloc s' = s_alloc s"
      using delete_and_free [OF tree found(1)] by blast
    then show ?thesis
      using found by (simp add: kvs_rbtree_del_def balanced_def rbtree_owned_def)
  next
    case missing
    then show ?thesis
      using assms by (simp add: kvs_rbtree_del_def)
  qed
qed

lemma destroy_loop_law:
  "rbtree_inv T \<Longrightarrow> length (rbtree_entries T) < fuel \<Longrightarrow>
   \<exists>T' s'. rbtree_destroy_loop fuel T s = Inr (T', s') \<and> rbtree_inv T' \<and> rbtree_entries T' = [] \<and>
     s_live s' = s_live s - 3 * int (length (rbtree_entries T)) \<and> s_alloc s' = s_alloc s"
proof (induction fuel arbitrary: T s)
  case (Suc fuel)
  then obtain t where tree: "rb_tree T t"
    by (auto simp: rbtree_inv_def)
  have at: "rb_at T [] t"
    using tree by (simp add: rb_tree_def)
  have root: "rb_root T = ptr_of T t"
    using at by (simp add: rb_at_def)
  show ?case
  proof (cases "t = Tip")
    case True
    then show ?thesis
      using Suc.prems(1) root rb_tree_entries [OF tree] by simp
  next
    case False
    then have "rb_root T \<noteq> rb_nil T"
      using root at by (cases t) (auto simp: rb_at_def node_in_def)
    moreover obtain y where y: "rbtree_mini T (rb_root T) = Inr (Some y)" "y \<in> set (cnodes t)"
      using rbtree_mini_at [OF at False] root by auto
    moreover obtain p T1 T' s' where "rbtree_delete T (Some y) = Inr (p, T1)" "rbtree_node_free T1 p s = Inr (T', s')" "rbtree_inv T'"
        "length (rbtree_entries T) = Suc (length (rbtree_entries T'))" "s_live s' = s_live s - 3" "s_alloc s' = s_alloc s"
      using delete_and_free [OF tree y(2)] by blast
    ultimately show ?thesis
      using Suc.IH [of T' s'] Suc.prems(2) by auto
  qed
qed simp

lemma rbtree_destory_law:
  assumes "rbtree_inv T"
  shows "\<exists>T' s'. kvs_rbtree_destory T s = Inr (T', s') \<and> rb_nil T' = None \<and> s_live s' = s_live s - rbtree_owned T \<and> s_alloc s' = s_alloc s"
proof -
  obtain t where tree: "rb_tree T t"
    using assms by (auto simp: rbtree_inv_def)
  then obtain n where n: "rb_nil T = Some n"
    by (auto simp: rb_tree_def rb_at_def nil_ok_def)
  have "length (rbtree_entries T) < loop_bound T"
    using rb_tree_entries [OF tree] tree rb_at_bound(1) [of T "[]" t] by (simp add: rb_tree_def loop_bound_def)
  from destroy_loop_law [OF assms this, of s] show ?thesis
    using n by (auto simp: kvs_rbtree_destory_def rbtree_owned_def kvs_free_def)
qed

lemma rbtree_create_law:
  "\<exists>r T' s'. kvs_rbtree_create T s = (r, T', s') \<and> s_alloc s' = s_alloc s \<and>
    (r = 0 \<and> rbtree_inv T' \<and> rbtree_entries T' = [] \<and> s_live s' = s_live s + rbtree_owned T' \<or>
     r = -1 \<and> s_live s' = s_live s \<and> \<not> plenty s)"
proof (cases rule: kvs_malloc_cases [of rbtree_node_bytes s])
  case (granted s')
  then obtain T' where T': "kvs_rbtree_create T s = (0, T', s')" "rb_at T' [] Tip"
    by (simp add: kvs_rbtree_create_def Let_def rb_at_def nil_ok_def rb_node_def)
  then have "rb_tree T' Tip"
    by (simp add: rb_tree_def)
  then show ?thesis
    using T'(1) granted rb_tree_entries [of T' Tip] by (auto simp: rbtree_inv_def rbtree_owned_def)
next
  case (refused s')
  then show ?thesis
    by (auto simp: kvs_rbtree_create_def rbtree_node_bytes_def)
qed

section \<open>The red-black tree implements the interface\<close>

interpretation rbtree: kv_engine rbtree_inv "\<lambda>_. True" rbtree_map rbtree_owned "\<lambda>_. True" rbtree_entries
  kvs_rbtree_set kvs_rbtree_mod kvs_rbtree_del kvs_rbtree_get kvs_rbtree_exist kvs_rbtree_foreach
proof (unfold_locales, goal_cases)
  case (1 T k v s)
  then show ?case using rbtree_set_law [of T k v s] by blast
next
  case (2 T k v s)
  then show ?case using rbtree_mod_law [of T k v s] by blast
next
  case (3 T k s)
  then show ?case using rbtree_del_law [of T k s] by blast
next
  case (4 T k)
  then show ?case unfolding rbtree_inv_def by (blast intro: rbtree_get_law rb_tree_search)
next
  case (5 T k)
  then show ?case unfolding rbtree_inv_def by (blast intro: rbtree_exist_law rb_tree_search)
next
  case (6 T)
  then show ?case unfolding rbtree_inv_def rbtree_map_def by (blast intro: rbtree_keys_distinct rb_tree_search)
next
  case (7 T f c)
  then show ?case unfolding rbtree_inv_def by (blast intro: rbtree_foreach_law rb_tree_search)
qed

interpretation rbtree_life: kv_managed rbtree_inv "\<lambda>_. True" rbtree_map rbtree_owned "\<lambda>_. True" rbtree_entries
  kvs_rbtree_set kvs_rbtree_mod kvs_rbtree_del kvs_rbtree_get kvs_rbtree_exist kvs_rbtree_foreach
  "\<lambda>T. rb_nil T = None" kvs_rbtree_create kvs_rbtree_destory
proof (unfold_locales, goal_cases)
  case (1 T s)
  show ?case by (rule rbtree_create_law)
next
  case (2 T s)
  then show ?case using rbtree_destory_law [of T s] by blast
qed

text \<open>The walk is in ascending order of the keys.\<close>

lemma rbtree_entries_sorted: "rbtree_inv T \<Longrightarrow> sorted_wrt (<) (map fst (rbtree_entries T))"
  using rb_tree_entries by (auto simp: rbtree_inv_def rb_tree_def entry_at_def comp_def)


section \<open>Balance\<close>

lemma depth_bh: "invh t \<Longrightarrow> invc t \<Longrightarrow> depth (strip t) \<le> 2 * bh t + (if rcol t = RED then 1 else 0)"
  by (induction t) (auto split: if_splits)

lemma nodes_bh: "invh t \<Longrightarrow> 2 ^ bh t \<le> length (cnodes t) + 1"
  by (induction t) (auto split: if_splits)

text \<open>The height of the tree is at most twice the logarithm of the number of bindings.\<close>

lemma rb_tree_depth:
  assumes "rb_tree T t"
  shows "2 ^ depth (strip t) \<le> (length (rbtree_entries T) + 1) ^ 2"
proof -
  have "depth (strip t) \<le> 2 * bh t" "2 ^ bh t \<le> length (cnodes t) + 1"
    using assms depth_bh [of t] nodes_bh [of t] by (auto simp: rb_tree_def)
  then have "(2::nat) ^ depth (strip t) \<le> 2 ^ (2 * bh t)" "((2::nat) ^ bh t) ^ 2 \<le> (length (cnodes t) + 1) ^ 2"
    by (simp, intro power_mono) simp_all
  moreover have "((2::nat) ^ bh t) ^ 2 = 2 ^ (2 * bh t)"
    by (simp add: power_mult [symmetric] mult.commute)
  ultimately have "(2::nat) ^ depth (strip t) \<le> (length (cnodes t) + 1) ^ 2"
    by linarith
  then show ?thesis
    using rb_tree_entries [OF assms] by simp
qed

lemma rbtree_search_bound:
  assumes "rbtree_inv T" "(length (rbtree_entries T) + 1) ^ 2 < 2 ^ fuel"
  shows "rbtree_search_loop fuel T k (rb_root T) = rbtree_search T k"
proof -
  obtain t where tree: "rb_tree T t"
    using assms(1) by (auto simp: rbtree_inv_def)
  have "(2::nat) ^ depth (strip t) < 2 ^ fuel"
    using rb_tree_depth [OF tree] assms(2) by linarith
  then have "depth (strip t) < fuel"
    by simp
  moreover have "depth (strip t) < loop_bound T"
    by (rule search_tree_depth [OF rb_tree_search [OF tree]])
  moreover have at: "tree_at T (rb_root T) (strip t)"
    using rb_tree_search [OF tree] by (simp add: search_tree_def)
  moreover have "tree_at T p u \<Longrightarrow> depth u < f1 \<Longrightarrow> depth u < f2 \<Longrightarrow>
      rbtree_search_loop f1 T k p = rbtree_search_loop f2 T k p" for p u f1 f2
  proof (induction u arbitrary: p f1 f2)
    case Leaf
    then show ?case by (cases f1; cases f2) simp_all
  next
    case (Node l a r)
    obtain g1 where "f1 = Suc g1"
      using Node.prems(2) by (cases f1) simp_all
    moreover obtain g2 where "f2 = Suc g2"
      using Node.prems(3) by (cases f2) simp_all
    moreover have "p = Some a" "deref T (Some a) = Inr (rb_node T a)"
      using Node.prems(1) by (auto simp: deref_def)
    moreover have "rbtree_search_loop g1 T k (rb_left (rb_node T a)) = rbtree_search_loop g2 T k (rb_left (rb_node T a))"
        "rbtree_search_loop g1 T k (rb_right (rb_node T a)) = rbtree_search_loop g2 T k (rb_right (rb_node T a))"
      using Node.IH(1) [of "rb_left (rb_node T a)" g1 g2] Node.IH(2) [of "rb_right (rb_node T a)" g1 g2] Node.prems calculation(1,2)
      by simp_all
    ultimately show ?case by (simp cong: if_cong)
  qed
  ultimately show ?thesis
    unfolding rbtree_search_def by blast
qed

end
