(* ===== verification/Store_State.thy ===== *)
theory Store_State
  imports Array_Engine Hash_Engine Skiplist_Engine Rbtree_Delete
begin

text \<open>
  The process-wide state of the four engines and its life cycle, \<open>init_kvengine\<close> and
  \<open>dest_kvengine\<close> of \<open>src/src/kvstore.c\<close>.  The order of creation and the release in the
  opposite order after a failure are the source's.
\<close>

record engines =
  global_array :: kvs_array_t
  global_rbtree :: rbtree
  global_hash :: kvs_hash_t
  global_skiplist :: kvs_skiplist_t

text \<open>\<open>memset\<close> of an engine's control block; nodes of a former tree or list stay allocated.\<close>

definition rbtree_memset :: "rbtree \<Rightarrow> rbtree" where
  "rbtree_memset T = T\<lparr>rb_root := None, rb_nil := None\<rparr>"

definition skiplist_memset :: "kvs_skiplist_t \<Rightarrow> kvs_skiplist_t" where
  "skiplist_memset sk = sk\<lparr>level := 0, header := None\<rparr>"

definition init_kvengine :: "engines \<Rightarrow> sys \<Rightarrow> (int \<times> engines \<times> sys) run" where
  "init_kvengine g s =
     (let (ra, a, s) = kvs_array_create array_cleared s;
          array_created = (ra = 0);
          (rr, t, s) = (if array_created then kvs_rbtree_create (rbtree_memset (global_rbtree g)) s
                        else (-1, rbtree_memset (global_rbtree g), s));
          rbtree_created = (rr = 0);
          (rh, h, s) = (if rbtree_created then kvs_hash_create hash_cleared s else (-1, hash_cleared, s));
          hash_created = (rh = 0);
          (rs, k, s) = (if hash_created then kvs_skiplist_create (skiplist_memset (global_skiplist g)) s
                        else (-1, skiplist_memset (global_skiplist g), s));
          skiplist_created = (rs = 0)
      in if skiplist_created then
           Inr (0, \<lparr>global_array = a, global_rbtree = t, global_hash = h, global_skiplist = k\<rparr>, s)
         else
           bindr (if hash_created then kvs_hash_destory h s else Inr (h, s)) (\<lambda>(h, s).
           bindr (if rbtree_created then kvs_rbtree_destory t s else Inr (t, s)) (\<lambda>(t, s).
           bindr (if array_created then kvs_array_destory a s else Inr (a, s)) (\<lambda>(a, s).
           Inr (-1, \<lparr>global_array = a, global_rbtree = t, global_hash = h, global_skiplist = k\<rparr>, s)))))"

definition dest_kvengine :: "engines \<Rightarrow> sys \<Rightarrow> (engines \<times> sys) run" where
  "dest_kvengine g s =
     bindr (kvs_array_destory (global_array g) s) (\<lambda>(a, s).
     bindr (kvs_rbtree_destory (global_rbtree g) s) (\<lambda>(t, s).
     bindr (kvs_hash_destory (global_hash g) s) (\<lambda>(h, s).
     bindr (kvs_skiplist_destory (global_skiplist g) s) (\<lambda>(k, s).
     Inr (\<lparr>global_array = a, global_rbtree = t, global_hash = h, global_skiplist = k\<rparr>, s)))))"


section \<open>The four engines together\<close>

definition engines_inv :: "engines \<Rightarrow> bool" where
  "engines_inv g \<longleftrightarrow> array_inv (global_array g) \<and> rbtree_inv (global_rbtree g) \<and>
     hash_inv (global_hash g) \<and> skiplist_inv (global_skiplist g)"

definition engines_owned :: "engines \<Rightarrow> int" where
  "engines_owned g = array_owned (global_array g) + rbtree_owned (global_rbtree g) +
     hash_owned (global_hash g) + skiplist_owned (global_skiplist g)"

definition engines_fresh :: "engines \<Rightarrow> bool" where
  "engines_fresh g \<longleftrightarrow> sl_heap (global_skiplist g) = (\<lambda>_. None)"

definition engines_empty :: "engines \<Rightarrow> bool" where
  "engines_empty g \<longleftrightarrow> array_entries (global_array g) = [] \<and> rbtree_entries (global_rbtree g) = [] \<and>
     hash_entries (global_hash g) = [] \<and> skiplist_entries (global_skiplist g) = []"

lemma dest_kvengine_law:
  assumes "engines_inv g"
  shows "\<exists>g' s'. dest_kvengine g s = Inr (g', s') \<and> engines_fresh g' \<and> s_live s' = s_live s - engines_owned g \<and> s_alloc s' = s_alloc s"
proof -
  have inv: "array_inv (global_array g)" "rbtree_inv (global_rbtree g)" "hash_inv (global_hash g)" "skiplist_inv (global_skiplist g)"
    using assms by (simp_all add: engines_inv_def)
  obtain a s1 where a: "kvs_array_destory (global_array g) s = Inr (a, s1)" "s_live s1 = s_live s - array_owned (global_array g)" "s_alloc s1 = s_alloc s"
    using array_life.edestory_law [OF inv(1)] by blast
  obtain t s2 where t: "kvs_rbtree_destory (global_rbtree g) s1 = Inr (t, s2)" "s_live s2 = s_live s1 - rbtree_owned (global_rbtree g)" "s_alloc s2 = s_alloc s1"
    using rbtree_life.edestory_law [OF inv(2)] by blast
  obtain h s3 where h: "kvs_hash_destory (global_hash g) s2 = Inr (h, s3)" "s_live s3 = s_live s2 - hash_owned (global_hash g)" "s_alloc s3 = s_alloc s2"
    using hash_life.edestory_law [OF inv(3)] by blast
  obtain k s4 where k: "kvs_skiplist_destory (global_skiplist g) s3 = Inr (k, s4)" "sl_heap k = (\<lambda>_. None)"
      "s_live s4 = s_live s3 - skiplist_owned (global_skiplist g)" "s_alloc s4 = s_alloc s3"
    using skip_life.edestory_law [OF inv(4)] by blast
  show ?thesis
    using a t h k by (simp add: dest_kvengine_def engines_fresh_def engines_owned_def)
qed

text \<open>All four engines are created, or none is left and no memory is lost.\<close>

lemma init_kvengine_law:
  assumes "engines_fresh g"
  shows "\<exists>r g' s'. init_kvengine g s = Inr (r, g', s') \<and> s_alloc s' = s_alloc s \<and>
    (r = 0 \<and> engines_inv g' \<and> engines_empty g' \<and> s_live s' = s_live s + engines_owned g' \<or>
     r = -1 \<and> s_live s' = s_live s \<and> \<not> plenty s)"
proof -
  obtain ra a s1 where a: "kvs_array_create array_cleared s = (ra, a, s1)" "s_alloc s1 = s_alloc s"
      "ra = 0 \<and> array_inv a \<and> array_entries a = [] \<and> s_live s1 = s_live s + array_owned a \<or> ra = -1 \<and> s_live s1 = s_live s \<and> \<not> plenty s"
    using array_life.ecreate_law [of array_cleared s] by (auto simp: array_cleared_def)
  obtain rr t s2 where t: "kvs_rbtree_create (rbtree_memset (global_rbtree g)) s1 = (rr, t, s2)" "s_alloc s2 = s_alloc s1"
      "rr = 0 \<and> rbtree_inv t \<and> rbtree_entries t = [] \<and> s_live s2 = s_live s1 + rbtree_owned t \<or> rr = -1 \<and> s_live s2 = s_live s1 \<and> \<not> plenty s1"
    using rbtree_life.ecreate_law [of "rbtree_memset (global_rbtree g)" s1] by (auto simp: rbtree_memset_def)
  obtain rh h s3 where h: "kvs_hash_create hash_cleared s2 = (rh, h, s3)" "s_alloc s3 = s_alloc s2"
      "rh = 0 \<and> hash_inv h \<and> hash_entries h = [] \<and> s_live s3 = s_live s2 + hash_owned h \<or> rh = -1 \<and> s_live s3 = s_live s2 \<and> \<not> plenty s2"
    using hash_life.ecreate_law [of hash_cleared s2] by blast
  obtain rk k s4 where k: "kvs_skiplist_create (skiplist_memset (global_skiplist g)) s3 = (rk, k, s4)" "s_alloc s4 = s_alloc s3"
      "rk = 0 \<and> skiplist_inv k \<and> skiplist_entries k = [] \<and> s_live s4 = s_live s3 + skiplist_owned k \<or> rk = -1 \<and> s_live s4 = s_live s3 \<and> \<not> plenty s3"
    using skip_life.ecreate_law [of "skiplist_memset (global_skiplist g)" s3] assms by (auto simp: skiplist_memset_def engines_fresh_def)
  have mem: "plenty s1 = plenty s" "plenty s2 = plenty s" "plenty s3 = plenty s"
    using a(2) t(2) h(2) by (simp_all add: plenty_def)
  consider (array) "ra = -1" | (rbtree) "ra = 0" "rr = -1" | (hash) "ra = 0" "rr = 0" "rh = -1"
    | (skip) "ra = 0" "rr = 0" "rh = 0" "rk = -1" | (all) "ra = 0" "rr = 0" "rh = 0" "rk = 0"
    using a(3) t(3) h(3) k(3) by blast
  then show ?thesis
  proof cases
    case array
    then show ?thesis using a by (simp add: init_kvengine_def)
  next
    case rbtree
    then have inv: "array_inv a" using a(3) by simp
    show ?thesis
      using array_life.edestory_law [OF inv, of s2] rbtree a t mem by (auto simp: init_kvengine_def)
  next
    case hash
    then have inv: "array_inv a" "rbtree_inv t" using a(3) t(3) by simp_all
    obtain t' s5 where d: "kvs_rbtree_destory t s3 = Inr (t', s5)" "s_live s5 = s_live s3 - rbtree_owned t" "s_alloc s5 = s_alloc s3"
      using rbtree_life.edestory_law [OF inv(2), of s3] by blast
    show ?thesis
      using array_life.edestory_law [OF inv(1), of s5] hash a t h d mem by (auto simp: init_kvengine_def)
  next
    case skip
    then have inv: "array_inv a" "rbtree_inv t" "hash_inv h" using a(3) t(3) h(3) by simp_all
    obtain h' s5 where d: "kvs_hash_destory h s4 = Inr (h', s5)" "s_live s5 = s_live s4 - hash_owned h" "s_alloc s5 = s_alloc s4"
      using hash_life.edestory_law [OF inv(3), of s4] by blast
    obtain t' s6 where e: "kvs_rbtree_destory t s5 = Inr (t', s6)" "s_live s6 = s_live s5 - rbtree_owned t" "s_alloc s6 = s_alloc s5"
      using rbtree_life.edestory_law [OF inv(2), of s5] by blast
    show ?thesis
      using array_life.edestory_law [OF inv(1), of s6] skip a t h k d e mem by (auto simp: init_kvengine_def)
  next
    case all
    then show ?thesis
      using a t h k by (simp add: init_kvengine_def engines_inv_def engines_empty_def engines_owned_def)
  qed
qed

end
