(* ===== verification/Snapshot_Format.thy ===== *)
theory Snapshot_Format
  imports Kvs_Prelude "HOL-Library.Word"
begin

unbundle bit_operations_syntax

text \<open>
  The binary snapshot file, the reading half of \<open>src/src/persistence/snapshot_store.c\<close>:
  big-endian numbers, the CRC-32, the cursor over the mapped file, the header in its two
  versions, and the validation pass that every snapshot goes through before a single record
  is restored.  Numbers keep their width: lengths and the checksum are 32-bit words, the
  record count and the checkpoint 64-bit words.  A function that returns \<open>-1\<close> in the
  source returns \<open>None\<close>; \<open>errno\<close> is not modelled.
\<close>

section \<open>Numbers\<close>

type_synonym u32 = "32 word"
type_synonym u64 = "64 word"

text \<open>The cast to \<open>unsigned char\<close>, and a byte as a number.\<close>

definition u8_of :: "'a::len word \<Rightarrow> char" where
  "u8_of w = char_of (unat w)"

definition word_of_byte :: "char \<Rightarrow> 'a::len word" where
  "word_of_byte c = word_of_nat (byte_of c)"

definition encode_u32_be :: "u32 \<Rightarrow> bytes" where
  "encode_u32_be v = [u8_of (drop_bit 24 v), u8_of (drop_bit 16 v), u8_of (drop_bit 8 v), u8_of v]"

definition decode_u32_be :: "bytes \<Rightarrow> u32" where
  "decode_u32_be b =
     push_bit 24 (word_of_byte (b ! 0)) OR push_bit 16 (word_of_byte (b ! 1)) OR
     push_bit 8 (word_of_byte (b ! 2)) OR word_of_byte (b ! 3)"

definition encode_u64_be :: "u64 \<Rightarrow> bytes" where
  "encode_u64_be v = map (\<lambda>i. u8_of (drop_bit (56 - i * 8) v)) [0..<8]"

definition decode_u64_be :: "bytes \<Rightarrow> u64" where
  "decode_u64_be b = foldl (\<lambda>v c. push_bit 8 v OR word_of_byte c) 0 (take 8 b)"

section \<open>CRC-32\<close>

definition crc_bit :: "u32 \<Rightarrow> u32" where
  "crc_bit c = (if c AND 1 \<noteq> 0 then drop_bit 1 c XOR 0xedb88320 else drop_bit 1 c)"

fun crc_bits :: "nat \<Rightarrow> u32 \<Rightarrow> u32" where
  "crc_bits 0 c = c"
| "crc_bits (Suc n) c = crc_bits n (crc_bit c)"

fun snapshot_crc32_update :: "u32 \<Rightarrow> bytes \<Rightarrow> u32" where
  "snapshot_crc32_update crc [] = crc"
| "snapshot_crc32_update crc (b # bs) = snapshot_crc32_update (crc_bits 8 (crc XOR word_of_byte b)) bs"

definition CRC_INIT :: u32 where
  "CRC_INIT = 0xffffffff"

section \<open>The cursor\<close>

record kvs_snapshot_checkpoint_t =
  has_offset :: int
  ck_offset :: int

definition no_checkpoint :: kvs_snapshot_checkpoint_t where
  "no_checkpoint = \<lparr>has_offset = 0, ck_offset = 0\<rparr>"

text \<open>The mapped file and the place reading has come to; the length is that of the data.\<close>

record snapshot_read_cursor_t =
  cur_data :: bytes
  cur_offset :: nat
  cur_checkpoint :: kvs_snapshot_checkpoint_t

definition snapshot_cursor_take ::
    "snapshot_read_cursor_t \<Rightarrow> nat \<Rightarrow> (bytes \<times> snapshot_read_cursor_t) option" where
  "snapshot_cursor_take c n =
     (if cur_offset c > length (cur_data c) then None
      else if n > length (cur_data c) - cur_offset c then None
      else Some (take n (drop (cur_offset c) (cur_data c)), c\<lparr>cur_offset := cur_offset c + n\<rparr>))"

section \<open>Header, records, validation\<close>

definition SNAPSHOT_MAGIC :: bytes where
  "SNAPSHOT_MAGIC = ''91KVSNAP''"

definition SNAPSHOT_HEADER_V1_SIZE :: nat where "SNAPSHOT_HEADER_V1_SIZE = 20"
definition SNAPSHOT_HEADER_V2_SIZE :: nat where "SNAPSHOT_HEADER_V2_SIZE = 32"
definition SNAPSHOT_RECORD_HEADER_SIZE :: nat where "SNAPSHOT_RECORD_HEADER_SIZE = 9"
definition SNAPSHOT_CHECKSUM_SIZE :: nat where "SNAPSHOT_CHECKSUM_SIZE = 4"
definition INT64_MAX :: int where "INT64_MAX = 9223372036854775807"

text \<open>The record count, the checksum so far and the cursor.\<close>

definition snapshot_read_header ::
    "snapshot_read_cursor_t \<Rightarrow> u32 \<Rightarrow> (u64 \<times> u32 \<times> snapshot_read_cursor_t) option" where
  "snapshot_read_header c crc =
     (case snapshot_cursor_take c 12 of
        None \<Rightarrow> None
      | Some (prefix, c) \<Rightarrow>
          if take 8 prefix \<noteq> SNAPSHOT_MAGIC then None
          else
            let version = decode_u32_be (drop 8 prefix) in
            if version \<noteq> 1 \<and> version \<noteq> 2 then None
            else
              let header_size = (if version = 1 then SNAPSHOT_HEADER_V1_SIZE else SNAPSHOT_HEADER_V2_SIZE) in
              case snapshot_cursor_take c (header_size - 12) of
                None \<Rightarrow> None
              | Some (body, c) \<Rightarrow>
                  let crc' = snapshot_crc32_update (snapshot_crc32_update crc prefix) body in
                  if version = 1 then
                    Some (decode_u64_be body, crc', c\<lparr>cur_checkpoint := no_checkpoint\<rparr>)
                  else
                    let flags = decode_u32_be body;
                        offset = decode_u64_be (drop 12 body)
                    in if flags AND NOT 1 \<noteq> 0 \<or> uint offset > INT64_MAX then None
                       else if flags AND 1 = 0 \<and> offset \<noteq> 0 then None
                       else Some (decode_u64_be (drop 4 body), crc',
                              c\<lparr>cur_checkpoint :=
                                  \<lparr>has_offset = (if flags AND 1 \<noteq> 0 then 1 else 0), ck_offset = uint offset\<rparr>\<rparr>))"

definition snapshot_check_field ::
    "snapshot_read_cursor_t \<Rightarrow> u32 \<Rightarrow> u32 \<Rightarrow> (u32 \<times> snapshot_read_cursor_t) option" where
  "snapshot_check_field c len crc =
     (case snapshot_cursor_take c (unat len) of
        None \<Rightarrow> None
      | Some (field, c) \<Rightarrow>
          if len > 0 then
            (if NUL \<in> set field then None else Some (snapshot_crc32_update crc field, c))
          else Some (crc, c))"

definition engine_code_ok :: "nat \<Rightarrow> bool" where
  "engine_code_ok e \<longleftrightarrow> 1 \<le> e \<and> e \<le> 4"

definition snapshot_check_record ::
    "snapshot_read_cursor_t \<Rightarrow> u32 \<Rightarrow> (u32 \<times> snapshot_read_cursor_t) option" where
  "snapshot_check_record c crc =
     (case snapshot_cursor_take c SNAPSHOT_RECORD_HEADER_SIZE of
        None \<Rightarrow> None
      | Some (h, c) \<Rightarrow>
          if \<not> engine_code_ok (byte_of (h ! 0)) then None
          else
            let key_length = decode_u32_be (drop 1 h);
                value_length = decode_u32_be (drop 5 h);
                crc = snapshot_crc32_update crc h
            in case snapshot_check_field c key_length crc of
                 None \<Rightarrow> None
               | Some (crc, c) \<Rightarrow> snapshot_check_field c value_length crc)"

fun check_records :: "nat \<Rightarrow> snapshot_read_cursor_t \<Rightarrow> u32 \<Rightarrow> (u32 \<times> snapshot_read_cursor_t) option" where
  "check_records 0 c crc = Some (crc, c)"
| "check_records (Suc n) c crc =
     (case snapshot_check_record c crc of None \<Rightarrow> None | Some (crc, c) \<Rightarrow> check_records n c crc)"

definition snapshot_validate :: "snapshot_read_cursor_t \<Rightarrow> snapshot_read_cursor_t option" where
  "snapshot_validate c =
     (if length (cur_data c) < SNAPSHOT_HEADER_V1_SIZE + SNAPSHOT_CHECKSUM_SIZE then None
      else
        case snapshot_read_header (c\<lparr>cur_offset := 0\<rparr>) CRC_INIT of
          None \<Rightarrow> None
        | Some (count, crc, c) \<Rightarrow>
            let remaining = length (cur_data c) - cur_offset c in
            if remaining < SNAPSHOT_CHECKSUM_SIZE then None
            else if unat count > (remaining - SNAPSHOT_CHECKSUM_SIZE) div SNAPSHOT_RECORD_HEADER_SIZE then None
            else
              case check_records (unat count) c crc of
                None \<Rightarrow> None
              | Some (crc, c) \<Rightarrow>
                  (case snapshot_cursor_take c SNAPSHOT_CHECKSUM_SIZE of
                     None \<Rightarrow> None
                   | Some (checksum, c) \<Rightarrow>
                       if crc XOR 0xffffffff \<noteq> decode_u32_be checksum then None
                       else if cur_offset c \<noteq> length (cur_data c) then None
                       else Some c))"

section \<open>The numbers are read back\<close>

lemma unat_word_of_byte: "8 \<le> LENGTH('a) \<Longrightarrow> unat (word_of_byte c :: 'a::len word) = byte_of c"
proof -
  assume "8 \<le> LENGTH('a)"
  then have "(2::nat) ^ 8 \<le> 2 ^ LENGTH('a)"
    by (rule power_increasing) simp
  then have "(byte_of c :: nat) < 2 ^ LENGTH('a)"
    using less_le_trans [OF nat_of_char_less_256 [of c]] by simp
  then show ?thesis
    by (simp add: word_of_byte_def unat_of_nat)
qed

lemma bit_word_of_byte: "8 \<le> LENGTH('a) \<Longrightarrow> bit (word_of_byte c :: 'a::len word) n \<longleftrightarrow> n < 8 \<and> bit (byte_of c :: nat) n"
proof -
  assume l: "8 \<le> LENGTH('a)"
  have "bit (word_of_byte c :: 'a word) n \<longleftrightarrow> bit (unat (word_of_byte c :: 'a word)) n"
    by (simp add: bit_unsigned_iff)
  also have "\<dots> \<longleftrightarrow> n < 8 \<and> bit (byte_of c :: nat) n"
  proof -
    have "byte_of c = take_bit 8 (byte_of c :: nat)"
      by (simp add: take_bit_eq_mod)
    then show ?thesis
      unfolding unat_word_of_byte [OF l] by (metis bit_take_bit_iff)
  qed
  finally show ?thesis .
qed

lemma byte_of_u8: "byte_of (u8_of w) = unat (take_bit 8 w)"
  unfolding u8_of_def of_char_of unsigned_take_bit_eq by (simp add: take_bit_eq_mod)

lemma bit_u8: "bit (byte_of (u8_of w) :: nat) n \<longleftrightarrow> n < 8 \<and> bit w n"
  unfolding byte_of_u8 by (auto simp: bit_unsigned_iff bit_take_bit_iff dest: bit_imp_le_length)

lemma word_of_u8: "8 \<le> LENGTH('a) \<Longrightarrow> (word_of_byte (u8_of (w :: 'a::len word)) :: 'a word) = take_bit 8 w"
  by (rule bit_word_eqI) (auto simp: bit_word_of_byte bit_u8 bit_take_bit_iff)

lemma u8_word_of_byte: "8 \<le> LENGTH('a) \<Longrightarrow> u8_of (word_of_byte c :: 'a::len word) = c"
  by (simp add: u8_of_def unat_word_of_byte)

lemma u8_eqI: "(\<And>n. n < 8 \<Longrightarrow> bit v n \<longleftrightarrow> bit w n) \<Longrightarrow> u8_of v = u8_of w"
proof -
  assume eq: "\<And>n. n < 8 \<Longrightarrow> bit v n \<longleftrightarrow> bit w n"
  have "(byte_of (u8_of v) :: nat) = byte_of (u8_of w)"
    by (rule bit_eqI) (use eq in \<open>auto simp: bit_u8\<close>)
  then show ?thesis
    by simp
qed

lemma decode_encode_u32 [simp]: "decode_u32_be (encode_u32_be v @ rest) = v"
proof (rule bit_word_eqI)
  fix n
  assume "n < LENGTH(32)"
  then consider "n < 8" | "8 \<le> n" "n < 16" | "16 \<le> n" "n < 24" | "24 \<le> n" "n < 32"
    by fastforce
  then show "bit (decode_u32_be (encode_u32_be v @ rest)) n \<longleftrightarrow> bit v n"
    by cases (auto simp: decode_u32_be_def encode_u32_be_def bit_or_iff bit_push_bit_iff bit_word_of_byte bit_u8
        bit_drop_bit_eq nth_Cons')
qed

lemma length_encode_u32 [simp]: "length (encode_u32_be v) = 4"
  by (simp add: encode_u32_be_def)

lemma length_encode_u64 [simp]: "length (encode_u64_be v) = 8"
  by (simp add: encode_u64_be_def)

lemma encode_decode_u32: "length b = 4 \<Longrightarrow> encode_u32_be (decode_u32_be b) = b"
proof -
  assume "length b = 4"
  then obtain b0 b1 b2 b3 where b: "b = [b0, b1, b2, b3]"
    by (auto simp: length_Suc_conv numeral_eq_Suc)
  have "u8_of (drop_bit 24 (decode_u32_be b)) = u8_of (word_of_byte b0 :: u32)"
    "u8_of (drop_bit 16 (decode_u32_be b)) = u8_of (word_of_byte b1 :: u32)"
    "u8_of (drop_bit 8 (decode_u32_be b)) = u8_of (word_of_byte b2 :: u32)"
    "u8_of (decode_u32_be b) = u8_of (word_of_byte b3 :: u32)"
    by (rule u8_eqI, simp add: b decode_u32_be_def bit_or_iff bit_push_bit_iff bit_word_of_byte bit_drop_bit_eq)+
  then show ?thesis
    by (simp add: encode_u32_be_def u8_word_of_byte b)
qed

lemma encode_u64_list:
  "encode_u64_be v = [u8_of (drop_bit 56 v), u8_of (drop_bit 48 v), u8_of (drop_bit 40 v), u8_of (drop_bit 32 v),
     u8_of (drop_bit 24 v), u8_of (drop_bit 16 v), u8_of (drop_bit 8 v), u8_of v]"
  by (simp add: encode_u64_be_def upt_rec)

lemma decode_encode_u64 [simp]: "decode_u64_be (encode_u64_be v @ rest) = v"
proof (rule bit_word_eqI)
  fix n
  assume n: "n < LENGTH(64)"
  have *: "take 8 (encode_u64_be v @ rest) = encode_u64_be v"
    by simp
  have bits: "bit (push_bit k (word_of_byte (u8_of (drop_bit k v))) :: u64) n \<longleftrightarrow> k \<le> n \<and> n < k + 8 \<and> bit v n" for k
    using n by (auto simp: bit_push_bit_iff bit_word_of_byte bit_u8 bit_drop_bit_eq)
  have "bit (decode_u64_be (encode_u64_be v @ rest)) n \<longleftrightarrow> n < 64 \<and> bit v n"
    unfolding decode_u64_be_def * encode_u64_list
    using n bits [of 0] by (auto simp: bit_or_iff bits)
  then show "bit (decode_u64_be (encode_u64_be v @ rest)) n \<longleftrightarrow> bit v n"
    using n by simp
qed

lemma decode_encode_exact [simp]:
  "decode_u32_be (encode_u32_be v) = v" "decode_u64_be (encode_u64_be w) = w"
  using decode_encode_u32 [of v "[]"] decode_encode_u64 [of w "[]"] by simp_all

lemma encode_decode_u64: "length b = 8 \<Longrightarrow> encode_u64_be (decode_u64_be b) = b"
proof -
  assume "length b = 8"
  then obtain b0 b1 b2 b3 b4 b5 b6 b7 where b: "b = [b0, b1, b2, b3, b4, b5, b6, b7]"
    by (auto simp: length_Suc_conv numeral_eq_Suc)
  have "u8_of (drop_bit 56 (decode_u64_be b)) = u8_of (word_of_byte b0 :: u64)"
    "u8_of (drop_bit 48 (decode_u64_be b)) = u8_of (word_of_byte b1 :: u64)"
    "u8_of (drop_bit 40 (decode_u64_be b)) = u8_of (word_of_byte b2 :: u64)"
    "u8_of (drop_bit 32 (decode_u64_be b)) = u8_of (word_of_byte b3 :: u64)"
    "u8_of (drop_bit 24 (decode_u64_be b)) = u8_of (word_of_byte b4 :: u64)"
    "u8_of (drop_bit 16 (decode_u64_be b)) = u8_of (word_of_byte b5 :: u64)"
    "u8_of (drop_bit 8 (decode_u64_be b)) = u8_of (word_of_byte b6 :: u64)"
    "u8_of (decode_u64_be b) = u8_of (word_of_byte b7 :: u64)"
    by (rule u8_eqI, simp add: b decode_u64_be_def bit_or_iff bit_push_bit_iff bit_word_of_byte bit_drop_bit_eq)+
  then show ?thesis
    by (simp add: encode_u64_list u8_word_of_byte b)
qed

lemma encode_decode_prefix: "length b = 8 \<Longrightarrow> encode_u64_be (decode_u64_be (b @ r)) = b"
  using encode_decode_u64 [of b] by (simp add: decode_u64_be_def)

lemma encode_decode_u32_prefix: "length b = 4 \<Longrightarrow> encode_u32_be (decode_u32_be (b @ r)) = b"
  using encode_decode_u32 [of b] by (simp add: decode_u32_be_def nth_append)

section \<open>The checksum tells single-byte changes apart\<close>

lemma xor_cancel: "a XOR x = b XOR x \<Longrightarrow> a = b" for a b x :: "'a::len word"
proof (rule bit_word_eqI)
  fix n
  assume "a XOR x = b XOR x"
  then have "bit (a XOR x) n \<longleftrightarrow> bit (b XOR x) n"
    by simp
  then show "bit a n \<longleftrightarrow> bit b n"
    by (auto simp: bit_xor_iff)
qed

lemma crc_bit_top: "bit (crc_bit c) 31 \<longleftrightarrow> bit c 0"
proof -
  have "bit (0xedb88320 :: u32) 31" "\<not> bit (drop_bit 1 c) 31"
    by (simp_all add: bit_drop_bit_eq) (auto dest: bit_imp_le_length)
  then show ?thesis
    by (simp add: crc_bit_def bit_xor_iff one_and_eq and_one_eq odd_iff_mod_2_eq_one bit_0)
qed

lemma crc_bit_inj: "crc_bit c = crc_bit d \<Longrightarrow> c = d"
proof -
  assume eq: "crc_bit c = crc_bit d"
  then have b0: "bit c 0 \<longleftrightarrow> bit d 0"
    by (metis crc_bit_top)
  have iff: "x AND 1 \<noteq> 0 \<longleftrightarrow> bit x 0" for x :: u32
    by (simp add: and_one_eq bit_0 odd_iff_mod_2_eq_one)
  have "drop_bit 1 c = drop_bit 1 d"
  proof (cases "bit c 0")
    case True
    then have "drop_bit 1 c XOR 0xedb88320 = drop_bit 1 d XOR (0xedb88320 :: u32)"
      using eq b0 iff by (simp add: crc_bit_def)
    then show ?thesis
      by (rule xor_cancel)
  next
    case False
    then show ?thesis
      using eq b0 iff by (simp add: crc_bit_def)
  qed
  show "c = d"
  proof (rule bit_word_eqI)
    fix n
    show "bit c n \<longleftrightarrow> bit d n"
    proof (cases n)
      case (Suc m)
      then show ?thesis
        using \<open>drop_bit 1 c = drop_bit 1 d\<close> by (metis bit_drop_bit_eq comp_apply plus_1_eq_Suc)
    qed (use b0 in simp)
  qed
qed

lemma crc_bits_inj: "crc_bits n c = crc_bits n d \<Longrightarrow> c = d"
  by (induction n arbitrary: c d) (auto dest: crc_bit_inj)

lemma word_of_byte_inj: "(word_of_byte c :: u32) = word_of_byte d \<Longrightarrow> c = d"
proof -
  assume "(word_of_byte c :: u32) = word_of_byte d"
  then have "u8_of (word_of_byte c :: u32) = u8_of (word_of_byte d :: u32)"
    by (rule arg_cong)
  then show ?thesis
    by (simp add: u8_word_of_byte)
qed

lemma crc32_update_inj: "snapshot_crc32_update c bs = snapshot_crc32_update d bs \<Longrightarrow> c = d"
proof (induction bs arbitrary: c d)
  case Nil
  then show ?case by simp
next
  case (Cons b bs)
  have "crc_bits 8 (c XOR word_of_byte b) = crc_bits 8 (d XOR word_of_byte b)"
    by (rule Cons.IH) (use Cons.prems in simp)
  then have "c XOR word_of_byte b = d XOR word_of_byte b"
    by (rule crc_bits_inj)
  then show ?case
    by (rule xor_cancel)
qed

lemma crc32_update_append:
  "snapshot_crc32_update crc (as @ bs) = snapshot_crc32_update (snapshot_crc32_update crc as) bs"
  by (induction as arbitrary: crc) auto

text \<open>Two byte strings of the same length that differ in one byte have different checksums.\<close>

lemma crc32_single_byte:
  assumes "x \<noteq> y"
  shows "snapshot_crc32_update crc (as @ x # bs) \<noteq> snapshot_crc32_update crc (as @ y # bs)"
proof
  assume "snapshot_crc32_update crc (as @ x # bs) = snapshot_crc32_update crc (as @ y # bs)"
  then have "crc_bits 8 (snapshot_crc32_update crc as XOR word_of_byte x) =
      crc_bits 8 (snapshot_crc32_update crc as XOR word_of_byte y)"
    unfolding crc32_update_append snapshot_crc32_update.simps by (rule crc32_update_inj)
  then have "(snapshot_crc32_update crc as XOR word_of_byte x) = (snapshot_crc32_update crc as XOR word_of_byte y)"
    by (rule crc_bits_inj)
  then have "(word_of_byte x :: u32) = word_of_byte y"
    using xor_cancel [of "word_of_byte x" "snapshot_crc32_update crc as" "word_of_byte y"] by (simp add: xor.commute)
  then show False
    using assms word_of_byte_inj by blast
qed

section \<open>What validation accepts\<close>

text \<open>A record: the engine's number, the key and the value.\<close>

type_synonym srecord = "nat \<times> bytes \<times> bytes"

definition record_ok :: "srecord \<Rightarrow> bool" where
  "record_ok r = (case r of (e, k, v) \<Rightarrow>
     engine_code_ok e \<and> NUL \<notin> set k \<and> NUL \<notin> set v \<and> length k < 2 ^ 32 \<and> length v < 2 ^ 32)"

definition record_header :: "nat \<Rightarrow> nat \<Rightarrow> nat \<Rightarrow> bytes" where
  "record_header e kl vl = char_of e # encode_u32_be (word_of_nat kl) @ encode_u32_be (word_of_nat vl)"

definition record_bytes :: "srecord \<Rightarrow> bytes" where
  "record_bytes r = (case r of (e, k, v) \<Rightarrow> record_header e (length k) (length v) @ k @ v)"

definition records_bytes :: "srecord list \<Rightarrow> bytes" where
  "records_bytes rs = concat (map record_bytes rs)"

lemma records_bytes_simps [simp]:
  "records_bytes [] = []" "records_bytes (r # rs) = record_bytes r @ records_bytes rs"
  by (simp_all add: records_bytes_def)

lemma length_record_header [simp]: "length (record_header e kl vl) = 9"
  by (simp add: record_header_def)

lemma length_record_bytes: "9 \<le> length (record_bytes r)"
  by (auto simp: record_bytes_def split: prod.split)

lemma length_records_bytes: "9 * length rs \<le> length (records_bytes rs)"
proof (induction rs)
  case (Cons r rs)
  then show ?case
    using length_record_bytes [of r] by simp
qed simp

text \<open>Everything the cursor has passed.\<close>

definition consumed :: "snapshot_read_cursor_t \<Rightarrow> bytes" where
  "consumed c = take (cur_offset c) (cur_data c)"

definition advanced :: "snapshot_read_cursor_t \<Rightarrow> bytes \<Rightarrow> snapshot_read_cursor_t \<Rightarrow> bool" where
  "advanced c bs c' \<longleftrightarrow> cur_data c' = cur_data c \<and> cur_offset c' = cur_offset c + length bs \<and>
     cur_offset c' \<le> length (cur_data c) \<and> consumed c' = consumed c @ bs"

lemma advanced_trans: "advanced c as c' \<Longrightarrow> advanced c' bs c'' \<Longrightarrow> advanced c (as @ bs) c''"
  by (auto simp: advanced_def)

lemma cursor_take_advanced:
  "snapshot_cursor_take c n = Some (x, c') \<Longrightarrow>
   advanced c x c' \<and> length x = n \<and> cur_checkpoint c' = cur_checkpoint c"
proof -
  assume a: "snapshot_cursor_take c n = Some (x, c')"
  then have n: "cur_offset c + n \<le> length (cur_data c)" and x: "x = take n (drop (cur_offset c) (cur_data c))"
      and c': "c' = c\<lparr>cur_offset := cur_offset c + n\<rparr>"
    by (auto simp: snapshot_cursor_take_def split: if_splits)
  then show ?thesis
    by (auto simp: advanced_def consumed_def take_add)
qed

lemma cursor_take_at:
  "cur_data c = pre @ x @ rest \<Longrightarrow> cur_offset c = length pre \<Longrightarrow> n = length x \<Longrightarrow>
   snapshot_cursor_take c n = Some (x, c\<lparr>cur_offset := length pre + length x\<rparr>)"
  by (simp add: snapshot_cursor_take_def)

lemma unat_of_length: "n < 2 ^ 32 \<Longrightarrow> unat (word_of_nat n :: u32) = n"
  by (simp add: unat_of_nat)

lemma check_field_advanced:
  assumes "snapshot_check_field c len crc = Some (crc', c')"
  shows "\<exists>f. advanced c f c' \<and> length f = unat len \<and> NUL \<notin> set f \<and> crc' = snapshot_crc32_update crc f \<and>
    cur_checkpoint c' = cur_checkpoint c"
proof -
  obtain f c1 where t: "snapshot_cursor_take c (unat len) = Some (f, c1)"
    using assms by (auto simp: snapshot_check_field_def split: option.splits)
  show ?thesis
  proof (cases "len > 0")
    case True
    then show ?thesis
      using assms t cursor_take_advanced [OF t] by (auto simp: snapshot_check_field_def split: if_splits)
  next
    case False
    then have "len = 0"
      by (simp add: word_gt_0)
    then show ?thesis
      using assms t cursor_take_advanced [OF t] by (auto simp: snapshot_check_field_def)
  qed
qed

lemma check_field_at:
  assumes "cur_data c = pre @ f @ rest" "cur_offset c = length pre" "length f < 2 ^ 32" "NUL \<notin> set f"
  shows "snapshot_check_field c (word_of_nat (length f)) crc =
    Some (snapshot_crc32_update crc f, c\<lparr>cur_offset := length pre + length f\<rparr>)"
proof -
  have n: "unat (word_of_nat (length f) :: u32) = length f"
    by (rule unat_of_length) (rule assms(3))
  have "f = []" if "\<not> (word_of_nat (length f) :: u32) > 0"
    using that n by (metis length_0_conv unat_0 word_gt_0)
  then show ?thesis
    using cursor_take_at [OF assms(1,2) refl] n assms(4) by (auto simp: snapshot_check_field_def)
qed

lemma record_header_decode:
  "kl < 2 ^ 32 \<Longrightarrow> decode_u32_be (drop 1 (record_header e kl vl)) = word_of_nat kl"
  "decode_u32_be (drop 5 (record_header e kl vl)) = word_of_nat vl"
  "record_header e kl vl ! 0 = char_of e"
proof -
  show "decode_u32_be (drop 1 (record_header e kl vl)) = word_of_nat kl"
    by (simp add: record_header_def)
  have "drop 5 (record_header e kl vl) = encode_u32_be (word_of_nat vl) @ []"
    by (simp add: record_header_def numeral_eq_Suc)
  then show "decode_u32_be (drop 5 (record_header e kl vl)) = word_of_nat vl"
    by (metis decode_encode_u32)
  show "record_header e kl vl ! 0 = char_of e"
    by (simp add: record_header_def)
qed

text \<open>A well-formed record is accepted, and only such a record is.\<close>

lemma check_record_at:
  assumes d: "cur_data c = pre @ record_bytes r @ rest" "cur_offset c = length pre" and ok: "record_ok r"
  shows "snapshot_check_record c crc =
    Some (snapshot_crc32_update crc (record_bytes r), c\<lparr>cur_offset := length pre + length (record_bytes r)\<rparr>)"
proof -
  obtain e k v where r: "r = (e, k, v)"
    by (cases r)
  let ?h = "record_header e (length k) (length v)"
  have okr: "engine_code_ok e" "NUL \<notin> set k" "NUL \<notin> set v" "length k < 2 ^ 32" "length v < 2 ^ 32"
    using ok by (auto simp: record_ok_def r)
  have "e < 256"
    using okr(1) by (simp add: engine_code_ok_def)
  then have e: "engine_code_ok (byte_of (?h ! 0))"
    using okr(1) by (simp add: record_header_decode)
  let ?c1 = "c\<lparr>cur_offset := length pre + 9\<rparr>"
  let ?c2 = "c\<lparr>cur_offset := length pre + 9 + length k\<rparr>"
  have t: "snapshot_cursor_take c SNAPSHOT_RECORD_HEADER_SIZE = Some (?h, ?c1)"
    using cursor_take_at [of c pre ?h "k @ v @ rest"] d by (simp add: r record_bytes_def SNAPSHOT_RECORD_HEADER_SIZE_def)
  have k: "snapshot_check_field ?c1 (word_of_nat (length k)) crc' = Some (snapshot_crc32_update crc' k, ?c2)" for crc'
    using check_field_at [of ?c1 "pre @ ?h" k "v @ rest" crc'] d okr by (simp add: r record_bytes_def)
  have v: "snapshot_check_field ?c2 (word_of_nat (length v)) crc' =
      Some (snapshot_crc32_update crc' v, c\<lparr>cur_offset := length pre + 9 + length k + length v\<rparr>)" for crc'
    using check_field_at [of ?c2 "pre @ ?h @ k" v rest crc'] d okr by (simp add: r record_bytes_def add.assoc)
  show ?thesis
    using t e k v okr(4) record_header_decode(1) [of "length k" e "length v"]
      record_header_decode(2) [of e "length k" "length v"]
    by (simp add: snapshot_check_record_def Let_def crc32_update_append r record_bytes_def add.assoc)
qed

lemma check_record_advanced:
  assumes "snapshot_check_record c crc = Some (crc', c')"
  shows "\<exists>r. record_ok r \<and> advanced c (record_bytes r) c' \<and> crc' = snapshot_crc32_update crc (record_bytes r) \<and>
    cur_checkpoint c' = cur_checkpoint c"
proof -
  obtain h c1 where t: "snapshot_cursor_take c 9 = Some (h, c1)"
    using assms by (auto simp: snapshot_check_record_def SNAPSHOT_RECORD_HEADER_SIZE_def split: option.splits)
  note h = cursor_take_advanced [OF t]
  have e: "engine_code_ok (byte_of (h ! 0))"
    using assms t by (auto simp: snapshot_check_record_def SNAPSHOT_RECORD_HEADER_SIZE_def split: if_splits)
  obtain crc2 c2 where k: "snapshot_check_field c1 (decode_u32_be (drop 1 h)) (snapshot_crc32_update crc h) = Some (crc2, c2)"
      and v: "snapshot_check_field c2 (decode_u32_be (drop 5 h)) crc2 = Some (crc', c')"
    using assms t e
    by (auto simp: snapshot_check_record_def SNAPSHOT_RECORD_HEADER_SIZE_def Let_def split: option.splits)
  obtain key where key: "advanced c1 key c2" "length key = unat (decode_u32_be (drop 1 h))" "NUL \<notin> set key"
      "crc2 = snapshot_crc32_update (snapshot_crc32_update crc h) key" "cur_checkpoint c2 = cur_checkpoint c1"
    using check_field_advanced [OF k] by blast
  obtain val where val: "advanced c2 val c'" "length val = unat (decode_u32_be (drop 5 h))" "NUL \<notin> set val"
      "crc' = snapshot_crc32_update crc2 val" "cur_checkpoint c' = cur_checkpoint c2"
    using check_field_advanced [OF v] by blast
  let ?r = "(byte_of (h ! 0), key, val)"
  have "h = h ! 0 # take 4 (drop 1 h) @ drop 5 h"
  proof -
    have "h = h ! 0 # drop 1 h"
      using h by (cases h) auto
    moreover have "drop 1 h = take 4 (drop 1 h) @ drop 5 h"
      using append_take_drop_id [of 4 "drop 1 h"] by simp
    ultimately show ?thesis
      by metis
  qed
  moreover have "encode_u32_be (word_of_nat (length key)) = take 4 (drop 1 h)"
  proof -
    have "decode_u32_be (drop 1 h) = decode_u32_be (take 4 (drop 1 h))"
      by (simp add: decode_u32_be_def)
    then show ?thesis
      using key(2) h encode_decode_u32 [of "take 4 (drop 1 h)"] by simp
  qed
  moreover have "encode_u32_be (word_of_nat (length val)) = drop 5 h"
    using val(2) h encode_decode_u32 [of "drop 5 h"] by simp
  ultimately have hdr: "record_header (byte_of (h ! 0)) (length key) (length val) = h"
    by (simp add: record_header_def)
  then have bytes: "record_bytes ?r = h @ key @ val"
    by (simp add: record_bytes_def)
  have lens: "length key < 2 ^ 32" "length val < 2 ^ 32"
    using key(2) val(2) unsigned_less [of "decode_u32_be (drop 1 h)"] unsigned_less [of "decode_u32_be (drop 5 h)"]
    by simp_all
  have "record_ok ?r"
    using e key(3) val(3) lens by (simp add: record_ok_def)
  moreover have "advanced c (record_bytes ?r) c'"
    unfolding bytes using h key(1) val(1) by (blast intro: advanced_trans)
  ultimately show ?thesis
    using key(4,5) val(4,5) h by (intro exI [of _ ?r]) (simp add: bytes crc32_update_append)
qed

lemma check_records_at:
  "cur_data c = pre @ records_bytes rs @ rest \<Longrightarrow> cur_offset c = length pre \<Longrightarrow> list_all record_ok rs \<Longrightarrow>
   check_records (length rs) c crc =
     Some (snapshot_crc32_update crc (records_bytes rs), c\<lparr>cur_offset := length pre + length (records_bytes rs)\<rparr>)"
proof (induction rs arbitrary: c pre crc)
  case Nil
  then show ?case by simp
next
  case (Cons r rs)
  let ?c = "c\<lparr>cur_offset := length pre + length (record_bytes r)\<rparr>"
  have "snapshot_check_record c crc = Some (snapshot_crc32_update crc (record_bytes r), ?c)"
    using check_record_at [of c pre r "records_bytes rs @ rest" crc] Cons.prems by simp
  moreover have "check_records (length rs) ?c (snapshot_crc32_update crc (record_bytes r)) =
      Some (snapshot_crc32_update (snapshot_crc32_update crc (record_bytes r)) (records_bytes rs),
        ?c\<lparr>cur_offset := length (pre @ record_bytes r) + length (records_bytes rs)\<rparr>)"
    by (rule Cons.IH) (use Cons.prems in auto)
  ultimately show ?case
    by (simp add: crc32_update_append add.assoc)
qed

lemma check_records_advanced:
  "check_records n c crc = Some (crc', c') \<Longrightarrow> cur_offset c \<le> length (cur_data c) \<Longrightarrow>
   \<exists>rs. length rs = n \<and> list_all record_ok rs \<and> advanced c (records_bytes rs) c' \<and>
     crc' = snapshot_crc32_update crc (records_bytes rs) \<and> cur_checkpoint c' = cur_checkpoint c"
proof (induction n arbitrary: c crc)
  case 0
  then show ?case
    by (auto simp: advanced_def)
next
  case (Suc n)
  then obtain crc1 c1 where one: "snapshot_check_record c crc = Some (crc1, c1)"
      and rest: "check_records n c1 crc1 = Some (crc', c')"
    by (auto split: option.splits)
  obtain r where r: "record_ok r" "advanced c (record_bytes r) c1"
      "crc1 = snapshot_crc32_update crc (record_bytes r)" "cur_checkpoint c1 = cur_checkpoint c"
    using check_record_advanced [OF one] by blast
  have "cur_offset c1 \<le> length (cur_data c1)"
    using r(2) by (simp add: advanced_def)
  then obtain rs where "length rs = n" "list_all record_ok rs" "advanced c1 (records_bytes rs) c'"
      "crc' = snapshot_crc32_update crc1 (records_bytes rs)" "cur_checkpoint c' = cur_checkpoint c1"
    using Suc.IH [OF rest] by blast
  then show ?case
    using r advanced_trans [OF r(2)] by (intro exI [of _ "r # rs"]) (auto simp: crc32_update_append)
qed

section \<open>The whole file\<close>

text \<open>A file closed by the checksum of everything before it.\<close>

definition sealed :: "bytes \<Rightarrow> bytes" where
  "sealed body = body @ encode_u32_be (snapshot_crc32_update CRC_INIT body XOR 0xffffffff)"

definition checkpoint_ok :: "kvs_snapshot_checkpoint_t \<Rightarrow> bool" where
  "checkpoint_ok cp \<longleftrightarrow>
     has_offset cp = 1 \<and> 0 \<le> ck_offset cp \<and> ck_offset cp \<le> INT64_MAX \<or> has_offset cp = 0 \<and> ck_offset cp = 0"

text \<open>The header the writer makes.\<close>

definition header_v2 :: "kvs_snapshot_checkpoint_t \<Rightarrow> nat \<Rightarrow> bytes" where
  "header_v2 cp count =
     SNAPSHOT_MAGIC @ encode_u32_be 2 @ encode_u32_be (if has_offset cp \<noteq> 0 then 1 else 0) @
     encode_u64_be (word_of_nat count) @ encode_u64_be (if has_offset cp \<noteq> 0 then word_of_int (ck_offset cp) else 0)"

definition snapshot_image :: "kvs_snapshot_checkpoint_t \<Rightarrow> srecord list \<Rightarrow> bytes" where
  "snapshot_image cp rs = sealed (header_v2 cp (length rs) @ records_bytes rs)"

lemma length_magic [simp]: "length SNAPSHOT_MAGIC = 8"
  by (simp add: SNAPSHOT_MAGIC_def)

lemma length_header_v2 [simp]: "length (header_v2 cp n) = 32"
  by (simp add: header_v2_def)

lemma read_header_v2:
  assumes d: "cur_data c = header_v2 cp n @ rest" "cur_offset c = 0" and cp: "checkpoint_ok cp"
  shows "snapshot_read_header c crc =
    Some (word_of_nat n, snapshot_crc32_update crc (header_v2 cp n), c\<lparr>cur_offset := 32, cur_checkpoint := cp\<rparr>)"
proof -
  let ?f = "if has_offset cp \<noteq> 0 then 1 else 0 :: u32"
  let ?o = "if has_offset cp \<noteq> 0 then word_of_int (ck_offset cp) else 0 :: u64"
  let ?p = "SNAPSHOT_MAGIC @ encode_u32_be 2" and ?b = "encode_u32_be ?f @ encode_u64_be (word_of_nat n) @ encode_u64_be ?o"
  have h: "header_v2 cp n = ?p @ ?b"
    by (simp add: header_v2_def)
  have t1: "snapshot_cursor_take c 12 = Some (?p, c\<lparr>cur_offset := 12\<rparr>)"
    using cursor_take_at [of c "[]" ?p "?b @ rest" 12] d h by simp
  have t2: "snapshot_cursor_take (c\<lparr>cur_offset := 12\<rparr>) 20 = Some (?b, c\<lparr>cur_offset := 32\<rparr>)"
    using cursor_take_at [of "c\<lparr>cur_offset := 12\<rparr>" ?p ?b rest 20] d h by simp
  have ver: "decode_u32_be (drop 8 ?p) = 2"
    using decode_encode_u32 [of 2 "[]"] by simp
  have fl: "decode_u32_be ?b = ?f" "decode_u64_be (drop 4 ?b) = word_of_nat n"
    by simp_all
  have off: "decode_u64_be (drop 12 ?b) = ?o"
    using decode_encode_u64 [of ?o "[]"] by simp
  have int: "uint (word_of_int (ck_offset cp) :: u64) = ck_offset cp" if "has_offset cp \<noteq> 0"
    using cp that by (auto simp: checkpoint_ok_def INT64_MAX_def uint_word_of_int intro!: mod_pos_pos_trivial)
  have cp': "\<lparr>has_offset = (if ?f AND 1 \<noteq> 0 then 1 else 0), ck_offset = uint ?o\<rparr> = cp"
    using cp int by (cases cp) (auto simp: checkpoint_ok_def)
  have ok: "\<not> (?f AND NOT 1 \<noteq> 0 \<or> uint ?o > INT64_MAX)" "\<not> (?f AND 1 = 0 \<and> ?o \<noteq> 0)"
    using cp int by (auto simp: checkpoint_ok_def INT64_MAX_def)
  have sz: "SNAPSHOT_HEADER_V2_SIZE - 12 = 20"
    by (simp add: SNAPSHOT_HEADER_V2_SIZE_def)
  have two: "(2::u32) \<noteq> 1"
    by simp
  show ?thesis
    unfolding snapshot_read_header_def t1 option.case prod.case ver Let_def fl off
    using t2 ok cp' sz two by (cases "has_offset cp = 0") (simp_all add: fl off h crc32_update_append del: One_nat_def)
qed

text \<open>The header of the older version, which the reader accepts too.\<close>

definition header_v1 :: "nat \<Rightarrow> bytes" where
  "header_v1 count = SNAPSHOT_MAGIC @ encode_u32_be 1 @ encode_u64_be (word_of_nat count)"

lemma length_header_v1 [simp]: "length (header_v1 n) = 20"
  by (simp add: header_v1_def)

lemma read_header_v1:
  assumes d: "cur_data c = header_v1 n @ rest" "cur_offset c = 0"
  shows "snapshot_read_header c crc =
    Some (word_of_nat n, snapshot_crc32_update crc (header_v1 n), c\<lparr>cur_offset := 20, cur_checkpoint := no_checkpoint\<rparr>)"
proof -
  let ?p = "SNAPSHOT_MAGIC @ encode_u32_be 1" and ?b = "encode_u64_be (word_of_nat n)"
  have h: "header_v1 n = ?p @ ?b"
    by (simp add: header_v1_def)
  have t1: "snapshot_cursor_take c 12 = Some (?p, c\<lparr>cur_offset := 12\<rparr>)"
    using cursor_take_at [of c "[]" ?p "?b @ rest" 12] d by (simp add: h del: One_nat_def)
  have e: "cur_data (c\<lparr>cur_offset := 12\<rparr>) = ?p @ ?b @ rest"
    using d(1) by (simp add: h)
  have t2: "snapshot_cursor_take (c\<lparr>cur_offset := 12\<rparr>) 8 = Some (?b, c\<lparr>cur_offset := 20\<rparr>)"
  proof -
    have l: "length ?p = 12" "length ?b = 8"
      by simp_all
    have "snapshot_cursor_take (c\<lparr>cur_offset := 12\<rparr>) 8 = Some (?b, c\<lparr>cur_offset := 12\<rparr>\<lparr>cur_offset := length ?p + length ?b\<rparr>)"
      by (rule cursor_take_at [OF e]) (simp_all only: l, simp)
    then show ?thesis
      unfolding l by simp
  qed
  have ver: "decode_u32_be (drop 8 ?p) = 1"
    using decode_encode_u32 [of 1 "[]"] by simp
  have sz: "SNAPSHOT_HEADER_V1_SIZE - 12 = 8"
    by (simp add: SNAPSHOT_HEADER_V1_SIZE_def)
  show ?thesis
    unfolding snapshot_read_header_def t1 option.case prod.case ver Let_def
    using t2 sz by (simp add: h crc32_update_append del: One_nat_def)
qed

text \<open>A header for a number of records, with what it says of the replication offset.\<close>

definition is_header :: "kvs_snapshot_checkpoint_t \<Rightarrow> nat \<Rightarrow> bytes \<Rightarrow> bool" where
  "is_header cp n h \<longleftrightarrow> checkpoint_ok cp \<and> h = header_v2 cp n \<or> cp = no_checkpoint \<and> h = header_v1 n"

lemma read_header_at:
  assumes "cur_data c = h @ rest" "cur_offset c = 0" "is_header cp n h"
  shows "snapshot_read_header c crc =
    Some (word_of_nat n, snapshot_crc32_update crc h, c\<lparr>cur_offset := length h, cur_checkpoint := cp\<rparr>)"
  using assms read_header_v1 [of c n rest crc] read_header_v2 [of c cp n rest crc] by (auto simp: is_header_def)

definition cursor_on :: "bytes \<Rightarrow> snapshot_read_cursor_t" where
  "cursor_on d = \<lparr>cur_data = d, cur_offset = 0, cur_checkpoint = no_checkpoint\<rparr>"

lemma length_sealed [simp]: "length (sealed body) = length body + 4"
  by (simp add: sealed_def)

text \<open>What the writer makes is accepted.\<close>

lemma validate_at:
  assumes h: "is_header cp (length rs) h" and rs: "list_all record_ok rs" "length rs < 2 ^ 64"
    and c: "cur_data c = sealed (h @ records_bytes rs)"
  shows "snapshot_validate c = Some (c\<lparr>cur_offset := length (cur_data c), cur_checkpoint := cp\<rparr>)"
proof -
  let ?rb = "records_bytes rs"
  let ?crc = "snapshot_crc32_update (snapshot_crc32_update CRC_INIT h) ?rb"
  let ?sum = "encode_u32_be (?crc XOR 0xffffffff)"
  have len: "20 \<le> length h"
    using h by (auto simp: is_header_def)
  have d: "cur_data c = h @ ?rb @ ?sum"
    by (simp add: c sealed_def crc32_update_append)
  let ?c0 = "c\<lparr>cur_offset := 0\<rparr>" and ?c1 = "c\<lparr>cur_offset := length h, cur_checkpoint := cp\<rparr>"
  let ?c2 = "c\<lparr>cur_offset := length h + length ?rb, cur_checkpoint := cp\<rparr>"
  have hd: "snapshot_read_header ?c0 CRC_INIT =
      Some (word_of_nat (length rs), snapshot_crc32_update CRC_INIT h, ?c1)"
    using read_header_at [of ?c0 h "?rb @ ?sum" cp "length rs"] d h by simp
  have n: "unat (word_of_nat (length rs) :: u64) = length rs"
    using rs(2) by (simp add: unat_of_nat)
  have recs: "check_records (length rs) ?c1 (snapshot_crc32_update CRC_INIT h) = Some (?crc, ?c2)"
    using check_records_at [of ?c1 h rs ?sum] d rs(1) by simp
  have t: "snapshot_cursor_take ?c2 4 = Some (?sum, ?c2\<lparr>cur_offset := length h + length ?rb + 4\<rparr>)"
    using cursor_take_at [of ?c2 "h @ ?rb" ?sum "[]" 4] d by simp
  have "length rs \<le> length ?rb div 9"
    using length_records_bytes [of rs] by simp
  then show ?thesis
    using hd n recs t d len
    by (simp add: snapshot_validate_def Let_def SNAPSHOT_HEADER_V1_SIZE_def SNAPSHOT_CHECKSUM_SIZE_def
        SNAPSHOT_RECORD_HEADER_SIZE_def crc32_update_append add.assoc)
qed

lemma validate_image:
  assumes "checkpoint_ok cp" "list_all record_ok rs" "length rs < 2 ^ 64" "cur_data c = snapshot_image cp rs"
  shows "snapshot_validate c =
    Some (c\<lparr>cur_offset := length (snapshot_image cp rs), cur_checkpoint := cp\<rparr>)"
  using validate_at [of cp rs "header_v2 cp (length rs)" c] assms by (simp add: is_header_def snapshot_image_def)

lemma flag_word: "f AND NOT 1 = 0 \<Longrightarrow> f = (if f AND 1 \<noteq> 0 then 1 else 0)" for f :: u32
proof -
  assume a: "f AND NOT 1 = 0"
  have "f = f AND 1 OR f AND NOT 1"
    by (rule bit_word_eqI) (auto simp: bit_or_iff bit_and_iff bit_not_iff)
  with a have "f = f AND 1"
    by simp
  moreover have "f AND 1 = 0 \<or> f AND 1 = 1"
    by (simp add: and_one_eq odd_iff_mod_2_eq_one mod2_eq_if)
  ultimately show ?thesis
    by (metis one_neq_zero)
qed

lemma header_v2_eq:
  "b = encode_u32_be f @ encode_u64_be n @ encode_u64_be o' \<Longrightarrow> f = (if has_offset cp \<noteq> 0 then 1 else 0) \<Longrightarrow>
   o' = (if has_offset cp \<noteq> 0 then word_of_int (ck_offset cp) else 0) \<Longrightarrow> p = SNAPSHOT_MAGIC @ encode_u32_be 2 \<Longrightarrow>
   p @ b = header_v2 cp (unat n)"
  by (simp add: header_v2_def)

lemma read_header_exact:
  assumes "snapshot_read_header c crc = Some (n, crc', c')"
  shows "\<exists>h. is_header (cur_checkpoint c') (unat n) h \<and> advanced c h c' \<and> crc' = snapshot_crc32_update crc h"
proof -
  obtain p c1 where t1: "snapshot_cursor_take c 12 = Some (p, c1)"
    using assms by (auto simp: snapshot_read_header_def split: option.splits)
  let ?v = "decode_u32_be (drop 8 p)"
  define sz where "sz = (if ?v = 1 then SNAPSHOT_HEADER_V1_SIZE else SNAPSHOT_HEADER_V2_SIZE) - 12"
  have m: "take 8 p = SNAPSHOT_MAGIC" "?v = 1 \<or> ?v = 2"
    using assms t1 by (auto simp: snapshot_read_header_def Let_def split: if_splits)
  obtain b c2 where t2: "snapshot_cursor_take c1 sz = Some (b, c2)"
    using assms t1 by (auto simp: snapshot_read_header_def Let_def sz_def split: option.splits if_splits)
  note a1 = cursor_take_advanced [OF t1] and a2 = cursor_take_advanced [OF t2]
  have p: "p = SNAPSHOT_MAGIC @ encode_u32_be ?v"
    using m(1) a1 encode_decode_u32 [of "drop 8 p"] append_take_drop_id [of 8 p] by simp
  have adv: "advanced c (p @ b) (c2\<lparr>cur_checkpoint := cp\<rparr>)" for cp
    using advanced_trans a1 a2 by (fastforce simp: advanced_def consumed_def)
  have "is_header (cur_checkpoint c') (unat n) (p @ b) \<and> (\<exists>cp. c' = c2\<lparr>cur_checkpoint := cp\<rparr>) \<and>
      crc' = snapshot_crc32_update crc (p @ b)"
  proof (cases "?v = 1")
    case True
    then have "n = decode_u64_be b" "c' = c2\<lparr>cur_checkpoint := no_checkpoint\<rparr>" "crc' = snapshot_crc32_update crc (p @ b)"
      using assms t1 t2 by (simp_all add: snapshot_read_header_def Let_def sz_def m crc32_update_append)
    moreover have "length b = 8"
      using a2 True by (simp add: sz_def SNAPSHOT_HEADER_V1_SIZE_def)
    ultimately show ?thesis
      using p True by (auto simp: is_header_def header_v1_def encode_decode_u64)
  next
    case False
    then have v: "?v = 2"
      using m(2) by simp
    let ?f = "decode_u32_be b" and ?o = "decode_u64_be (drop 12 b)"
    let ?cp = "\<lparr>has_offset = (if ?f AND 1 \<noteq> 0 then 1 else 0), ck_offset = uint ?o\<rparr>"
    have len: "length b = 20"
      using a2 v by (simp add: sz_def SNAPSHOT_HEADER_V2_SIZE_def)
    have g: "?f AND NOT 1 = 0" "uint ?o \<le> INT64_MAX" "?f AND 1 = 0 \<longrightarrow> ?o = 0" "n = decode_u64_be (drop 4 b)"
        "c' = c2\<lparr>cur_checkpoint := ?cp\<rparr>" "crc' = snapshot_crc32_update crc (p @ b)"
      using assms t1 t2 by (auto simp: snapshot_read_header_def Let_def sz_def m v crc32_update_append split: if_splits)
    have "b = take 4 b @ take 8 (drop 4 b) @ drop 12 b"
      using append_take_drop_id [of 8 "drop 4 b"] by simp
    moreover have "encode_u32_be ?f = take 4 b" "encode_u64_be n = take 8 (drop 4 b)" "encode_u64_be ?o = drop 12 b"
      using encode_decode_u32_prefix [of "take 4 b" "drop 4 b"] encode_decode_prefix [of "take 8 (drop 4 b)" "drop 12 b"]
        encode_decode_u64 [of "drop 12 b"] append_take_drop_id [of 8 "drop 4 b"] len g(4) by simp_all
    ultimately have "b = encode_u32_be ?f @ encode_u64_be n @ encode_u64_be ?o"
      by simp
    moreover have "?f = (if has_offset ?cp \<noteq> 0 then 1 else 0)" "?o = (if has_offset ?cp \<noteq> 0 then word_of_int (ck_offset ?cp) else 0)"
      using flag_word [OF g(1)] g(3) by auto
    moreover have "p = SNAPSHOT_MAGIC @ encode_u32_be 2"
      using p v by simp
    ultimately have "p @ b = header_v2 ?cp (unat n)"
      by (intro header_v2_eq)
    moreover have "checkpoint_ok ?cp"
      using g(2,3) by (auto simp: checkpoint_ok_def)
    ultimately show ?thesis
      using g(5,6) by (auto simp: is_header_def)
  qed
  then show ?thesis
    using adv by blast
qed

text \<open>
  Whatever is accepted consists of a header of one of the two versions that announces the
  number of records, that many well-formed records and the checksum of all of it; in
  particular nothing follows.
\<close>

lemma validate_sound:
  assumes "snapshot_validate c = Some c'"
  shows "\<exists>h rs. list_all record_ok rs \<and> length rs < 2 ^ 64 \<and> is_header (cur_checkpoint c') (length rs) h \<and>
    cur_data c = sealed (h @ records_bytes rs) \<and> cur_data c' = cur_data c \<and> cur_offset c' = length (cur_data c)"
proof -
  let ?c0 = "c\<lparr>cur_offset := 0\<rparr>"
  obtain n crc1 c1 where hd: "snapshot_read_header ?c0 CRC_INIT = Some (n, crc1, c1)"
    using assms by (auto simp: snapshot_validate_def split: option.splits if_splits)
  obtain crc2 c2 where recs: "check_records (unat n) c1 crc1 = Some (crc2, c2)"
    using assms hd by (auto simp: snapshot_validate_def Let_def split: option.splits if_splits)
  obtain x c3 where t: "snapshot_cursor_take c2 4 = Some (x, c3)"
    using assms hd recs
    by (auto simp: snapshot_validate_def Let_def SNAPSHOT_CHECKSUM_SIZE_def split: option.splits if_splits)
  have fin: "c' = c3" "crc2 XOR 0xffffffff = decode_u32_be x" "cur_offset c3 = length (cur_data c3)"
    using assms hd recs t
    by (auto simp: snapshot_validate_def Let_def SNAPSHOT_CHECKSUM_SIZE_def split: if_splits)
  obtain h where h: "advanced ?c0 h c1" "crc1 = snapshot_crc32_update CRC_INIT h" "is_header (cur_checkpoint c1) (unat n) h"
    using read_header_exact [OF hd] by blast
  have "cur_offset c1 \<le> length (cur_data c1)"
    using h(1) by (simp add: advanced_def)
  then obtain rs where rs: "list_all record_ok rs" "advanced c1 (records_bytes rs) c2"
      "crc2 = snapshot_crc32_update crc1 (records_bytes rs)" "length rs = unat n" "cur_checkpoint c2 = cur_checkpoint c1"
    using check_records_advanced [OF recs] by blast
  have "length rs < 2 ^ 64"
    using rs(4) unsigned_less [of n] by simp
  note x = cursor_take_advanced [OF t]
  have adv: "advanced ?c0 ((h @ records_bytes rs) @ x) c3"
    using advanced_trans [OF advanced_trans [OF h(1) rs(2)]] x by blast
  have data: "cur_data c3 = cur_data c"
    using adv by (simp add: advanced_def)
  have "cur_data c = (h @ records_bytes rs) @ x"
    using adv fin(3) data by (simp add: advanced_def consumed_def)
  moreover have "x = encode_u32_be (snapshot_crc32_update CRC_INIT (h @ records_bytes rs) XOR 0xffffffff)"
    using encode_decode_u32 [of x] x fin(2) h(2) rs(3) by (simp add: crc32_update_append)
  ultimately have "cur_data c = sealed (h @ records_bytes rs)"
    by (simp add: sealed_def)
  moreover have "is_header (cur_checkpoint c') (length rs) h"
    using h(3) rs(4,5) x fin(1) by simp
  ultimately show ?thesis
    using rs(1) \<open>length rs < 2 ^ 64\<close> fin(1,3) data by auto
qed

lemma sealed_single_byte:
  assumes a: "as @ x # bs = sealed b1" and b: "as @ y # bs = sealed b2"
  shows "x = y"
proof (rule ccontr)
  assume ne: "x \<noteq> y"
  have len: "length b1 = length b2"
    using arg_cong [OF a, of length] arg_cong [OF b, of length] by simp
  show False
  proof (cases "length as < length b1")
    case True
    let ?m = "length b1 - length as - 1"
    have b1: "b1 = as @ x # take ?m bs"
      using arg_cong [OF a, of "take (length b1)"] True
      by (simp add: sealed_def take_Cons')
    have b2: "b2 = as @ y # take ?m bs"
      using arg_cong [OF b, of "take (length b2)"] True len
      by (simp add: sealed_def take_Cons')
    have "drop (length b1) (as @ x # bs) = drop (length b1) (as @ y # bs)"
      using True by (simp add: drop_Cons')
    then have "encode_u32_be (snapshot_crc32_update CRC_INIT b1 XOR 0xffffffff) =
        encode_u32_be (snapshot_crc32_update CRC_INIT b2 XOR 0xffffffff)"
      using a b len by (simp add: sealed_def)
    then have "snapshot_crc32_update CRC_INIT b1 XOR 0xffffffff = snapshot_crc32_update CRC_INIT b2 XOR 0xffffffff"
      by (metis decode_encode_exact(1))
    then have "snapshot_crc32_update CRC_INIT b1 = snapshot_crc32_update CRC_INIT b2"
      by (rule xor_cancel)
    then show False
      using crc32_single_byte [OF ne, of CRC_INIT as "take ?m bs"] b1 b2 by metis
  next
    case False
    have "b1 = take (length b1) as"
      using arg_cong [OF a, of "take (length b1)"] False by (simp add: sealed_def)
    moreover have "b2 = take (length b1) as"
      using arg_cong [OF b, of "take (length b2)"] False len by (simp add: sealed_def)
    ultimately have "b1 = b2"
      by simp
    then have "as @ x # bs = as @ y # bs"
      using a b by simp
    then show False
      using ne by simp
  qed
qed

end
