(* ===== verification/Snapshot_Store.thy ===== *)
theory Snapshot_Store
  imports Snapshot_Format Uring_Io Store_State
begin

text \<open>
  Saving and loading snapshots, the rest of
  \<open>src/src/persistence/snapshot_store.c\<close> with the file mapping of
  \<open>src/src/persistence/mapped_file.c\<close>.  Files are a map from paths to contents; a
  temporary file is written through the batched writer, synced, and renamed over the
  snapshot.  The six characters \<open>mkstemp\<close> puts into the temporary name are a parameter.
\<close>

section \<open>The buffered writer\<close>

type_synonym files = "bytes \<rightharpoonup> bytes"

definition SNAPSHOT_WRITE_BLOCK_SIZE :: nat where "SNAPSHOT_WRITE_BLOCK_SIZE = 65536"
definition SNAPSHOT_WRITE_BUFFER_SIZE :: nat where "SNAPSHOT_WRITE_BUFFER_SIZE = 262144"

text \<open>\<open>sw_buffer\<close> is the part of the buffer that holds data, \<open>None\<close> when there is no buffer.\<close>

record snapshot_writer_t =
  sw_io :: kvs_uring_io_t
  sw_buffer :: "bytes option"
  sw_next :: nat
  sw_checkpoint :: kvs_snapshot_checkpoint_t

definition writer_cleared :: snapshot_writer_t where
  "writer_cleared = \<lparr>sw_io = io_cleared, sw_buffer = None, sw_next = 0, sw_checkpoint = no_checkpoint\<rparr>"

definition snapshot_writer_init :: "snapshot_writer_t \<Rightarrow> sys \<Rightarrow> int \<times> snapshot_writer_t \<times> sys" where
  "snapshot_writer_init w s =
     (if sw_buffer w \<noteq> None \<or> io_initialized (sw_io w) then (-1, w, s)
      else
        let w = w\<lparr>sw_next := 0\<rparr> in
        case kvs_malloc SNAPSHOT_WRITE_BUFFER_SIZE s of
          (False, s) \<Rightarrow> (-1, w, s)
        | (True, s) \<Rightarrow>
            (case kvs_uring_io_init (sw_io w) s of
               (r, io, s) \<Rightarrow>
                 if r < 0 then (-1, w\<lparr>sw_io := io\<rparr>, kvs_free s)
                 else (0, w\<lparr>sw_io := io, sw_buffer := Some []\<rparr>, s)))"

definition snapshot_writer_close :: "snapshot_writer_t \<Rightarrow> sys \<Rightarrow> snapshot_writer_t \<times> sys" where
  "snapshot_writer_close w s = (writer_cleared, kvs_free_opt (sw_buffer w) s)"

text \<open>The data as blocks of at most 64 KiB, one after the other in the file.\<close>

function split_blocks :: "bytes \<Rightarrow> nat \<Rightarrow> kvs_uring_write_t list" where
  "split_blocks buf off =
     (if buf = [] then []
      else let n = min (length buf) SNAPSHOT_WRITE_BLOCK_SIZE
           in \<lparr>uw_data = take n buf, uw_offset = off\<rparr> # split_blocks (drop n buf) (off + n))"
  by pat_completeness auto
termination
  by (relation "measure (\<lambda>(buf, off). length buf)") (auto simp: SNAPSHOT_WRITE_BLOCK_SIZE_def)

declare split_blocks.simps [simp del]

definition snapshot_writer_flush ::
    "snapshot_writer_t \<Rightarrow> bytes \<Rightarrow> sys \<Rightarrow> (int \<times> snapshot_writer_t \<times> bytes \<times> sys) run" where
  "snapshot_writer_flush w f s =
     (case sw_buffer w of
        None \<Rightarrow> Inr (-1, w, f, s)
      | Some buf \<Rightarrow>
          if \<not> io_initialized (sw_io w) \<or> length buf > SNAPSHOT_WRITE_BUFFER_SIZE then Inr (-1, w, f, s)
          else if buf = [] then Inr (0, w, f, s)
          else if sw_next w + length buf > OFF_MAX then Inr (-1, w, f, s)
          else
            bindr (kvs_uring_io_write_batch (sw_io w) False (split_blocks buf (sw_next w)) f s) (\<lambda>(r, io, f, s).
              if r < 0 then Inr (-1, w\<lparr>sw_io := io\<rparr>, f, s)
              else Inr (0, w\<lparr>sw_io := io, sw_next := sw_next w + length buf, sw_buffer := Some []\<rparr>, f, s)))"

text \<open>A round that could not copy anything would be repeated for ever.\<close>

function writer_append_loop ::
    "snapshot_writer_t \<Rightarrow> bytes \<Rightarrow> bytes \<Rightarrow> sys \<Rightarrow> (int \<times> snapshot_writer_t \<times> bytes \<times> sys) run" where
  "writer_append_loop w d f s =
     (if d = [] then Inr (0, w, f, s)
      else
        bindr (if sw_buffer w \<noteq> None \<and> length (the (sw_buffer w)) = SNAPSHOT_WRITE_BUFFER_SIZE
               then snapshot_writer_flush w f s else Inr (0, w, f, s)) (\<lambda>(r, w, f, s).
          if r < 0 then Inr (-1, w, f, s)
          else case sw_buffer w of
            None \<Rightarrow> Inl Null_deref
          | Some buf \<Rightarrow>
              let n = min (length d) (SNAPSHOT_WRITE_BUFFER_SIZE - length buf)
              in if n = 0 then Inl Diverges
                 else writer_append_loop (w\<lparr>sw_buffer := Some (buf @ take n d)\<rparr>) (drop n d) f s))"
  by pat_completeness auto
termination
  by (relation "measure (\<lambda>(w, d, f, s). length d)") auto

declare writer_append_loop.simps [simp del]

definition snapshot_writer_append ::
    "snapshot_writer_t \<Rightarrow> bytes \<Rightarrow> bytes \<Rightarrow> sys \<Rightarrow> (int \<times> snapshot_writer_t \<times> bytes \<times> sys) run" where
  "snapshot_writer_append w d f s =
     (case sw_buffer w of
        None \<Rightarrow> Inr (-1, w, f, s)
      | Some buf \<Rightarrow>
          if \<not> io_initialized (sw_io w) \<or> length buf > SNAPSHOT_WRITE_BUFFER_SIZE then Inr (-1, w, f, s)
          else writer_append_loop w d f s)"

section \<open>Writing the contents\<close>

definition snapshot_count_item :: "bytes \<Rightarrow> bytes \<Rightarrow> u64 \<Rightarrow> (int \<times> u64) run" where
  "snapshot_count_item k v n = Inr (if n = -1 then (-1, n) else (0, n + 1))"

text \<open>The four walks one after the other, stopping at the first that fails.\<close>

definition foreach_engines ::
    "engines \<Rightarrow> (nat \<Rightarrow> bytes \<Rightarrow> bytes \<Rightarrow> 'c \<Rightarrow> (int \<times> 'c) run) \<Rightarrow> 'c \<Rightarrow> (int \<times> 'c) run" where
  "foreach_engines g f c =
     bindr (kvs_array_foreach (global_array g) (f 1) c) (\<lambda>(r, c). if r < 0 then Inr (-1, c) else
     bindr (kvs_rbtree_foreach (global_rbtree g) (f 2) c) (\<lambda>(r, c). if r < 0 then Inr (-1, c) else
     bindr (kvs_hash_foreach (global_hash g) (f 3) c) (\<lambda>(r, c). if r < 0 then Inr (-1, c) else
     bindr (kvs_skiplist_foreach (global_skiplist g) (f 4) c) (\<lambda>(r, c). Inr (if r < 0 then -1 else 0, c)))))"

definition snapshot_count_records :: "engines \<Rightarrow> (int \<times> u64) run" where
  "snapshot_count_records g = foreach_engines g (\<lambda>_. snapshot_count_item) 0"

definition snapshot_write_header ::
    "snapshot_writer_t \<Rightarrow> u64 \<Rightarrow> u32 \<Rightarrow> bytes \<Rightarrow> sys \<Rightarrow> (int \<times> u32 \<times> snapshot_writer_t \<times> bytes \<times> sys) run" where
  "snapshot_write_header w count crc f s =
     (let cp = sw_checkpoint w in
      if (has_offset cp \<noteq> 0 \<and> has_offset cp \<noteq> 1) \<or> (has_offset cp \<noteq> 0 \<and> ck_offset cp < 0)
      then Inr (-1, crc, w, f, s)
      else
        let flags = (if has_offset cp \<noteq> 0 then 1 else 0);
            offset = (if has_offset cp \<noteq> 0 then word_of_int (ck_offset cp) else 0);
            hdr = SNAPSHOT_MAGIC @ encode_u32_be 2 @ encode_u32_be flags @ encode_u64_be count @ encode_u64_be offset
        in bindr (snapshot_writer_append w hdr f s) (\<lambda>(r, w, f, s).
             if r < 0 then Inr (-1, crc, w, f, s)
             else Inr (0, snapshot_crc32_update crc hdr, w, f, s)))"

type_synonym write_context = "snapshot_writer_t \<times> u32 \<times> bytes \<times> sys"

definition snapshot_write_record :: "nat \<Rightarrow> bytes \<Rightarrow> bytes \<Rightarrow> write_context \<Rightarrow> (int \<times> write_context) run" where
  "snapshot_write_record engine key val ctx =
     (case ctx of (w, crc, f, s) \<Rightarrow>
        if engine < 1 \<or> engine > 4 then Inr (-1, ctx)
        else if length key > 4294967295 \<or> length val > 4294967295 then Inr (-1, ctx)
        else
          let h = char_of engine # encode_u32_be (word_of_nat (length key)) @ encode_u32_be (word_of_nat (length val)) in
          bindr (snapshot_writer_append w h f s) (\<lambda>(r, w, f, s).
            if r < 0 then Inr (-1, w, crc, f, s) else
          bindr (snapshot_writer_append w key f s) (\<lambda>(r, w, f, s).
            if r < 0 then Inr (-1, w, crc, f, s) else
          bindr (snapshot_writer_append w val f s) (\<lambda>(r, w, f, s).
            if r < 0 then Inr (-1, w, crc, f, s) else
          let crc = snapshot_crc32_update crc h;
              crc = snapshot_crc32_update crc key;
              crc = snapshot_crc32_update crc val
          in Inr (0, w, crc, f, s)))))"

definition snapshot_write_records :: "engines \<Rightarrow> write_context \<Rightarrow> (int \<times> write_context) run" where
  "snapshot_write_records g ctx = foreach_engines g snapshot_write_record ctx"

definition snapshot_write_contents ::
    "engines \<Rightarrow> snapshot_writer_t \<Rightarrow> bytes \<Rightarrow> sys \<Rightarrow> (int \<times> snapshot_writer_t \<times> bytes \<times> sys) run" where
  "snapshot_write_contents g w f s =
     bindr (snapshot_count_records g) (\<lambda>(r, count).
       if r < 0 then Inr (-1, w, f, s) else
     bindr (snapshot_write_header w count CRC_INIT f s) (\<lambda>(r, crc, w, f, s).
       if r < 0 then Inr (-1, w, f, s) else
     bindr (snapshot_write_records g (w, crc, f, s)) (\<lambda>(r, w, crc, f, s).
       if r < 0 then Inr (-1, w, f, s) else
     bindr (snapshot_writer_append w (encode_u32_be (crc XOR 0xffffffff)) f s) (\<lambda>(r, w, f, s).
       if r < 0 then Inr (-1, w, f, s) else
     snapshot_writer_flush w f s))))"

section \<open>Saving\<close>

text \<open>\<open>fsync\<close>, repeated when interrupted.\<close>

fun sync_fd_loop :: "nat \<Rightarrow> sys \<Rightarrow> (int \<times> sys) run" where
  "sync_fd_loop 0 s = Inl Diverges"
| "sync_fd_loop (Suc fuel) s =
     (let (r, s) = os_int s in if r = - EINTR then sync_fd_loop fuel s else Inr (if r < 0 then -1 else 0, s))"

definition snapshot_sync_fd :: "sys \<Rightarrow> (int \<times> sys) run" where
  "snapshot_sync_fd s = sync_fd_loop (s_patience s) s"

text \<open>Whether the parent directory could be opened; the copy of the path is freed either way.\<close>

definition snapshot_open_parent_directory :: "bytes \<Rightarrow> sys \<Rightarrow> bool \<times> sys" where
  "snapshot_open_parent_directory path s =
     (if path = [] then (False, s)
      else case kvs_malloc (length path + 1) s of
        (False, s) \<Rightarrow> (False, s)
      | (True, s) \<Rightarrow> (case os_call s of (ok, s) \<Rightarrow> (ok, kvs_free s)))"

text \<open>
  The part of SAVE behind the successful \<open>mkstemp\<close> up to the label \<open>done\<close>: the result,
  whether the temporary file still exists and the descriptor is still open, the writer and
  the files.
\<close>

definition save_temp_file ::
    "engines \<Rightarrow> bytes \<Rightarrow> bytes \<Rightarrow> snapshot_writer_t \<Rightarrow> files \<Rightarrow> sys \<Rightarrow>
     (int \<times> bool \<times> bool \<times> snapshot_writer_t \<times> files \<times> sys) run" where
  "save_temp_file g path tmp w fs s =
     (case snapshot_writer_init w s of
        (r, w, s) \<Rightarrow>
          if r < 0 then Inr (-1, True, True, w, fs, s)
          else
            bindr (snapshot_write_contents g w [] s) (\<lambda>(r, w, f, s).
              let fs = fs(tmp \<mapsto> f) in
              if r < 0 then Inr (-1, True, True, w, fs, s) else
            bindr (kvs_uring_io_sync (sw_io w) f s) (\<lambda>(r, io, f, s).
              let w = w\<lparr>sw_io := io\<rparr> in
              if r < 0 then Inr (-1, True, True, w, fs, s)
              else case os_call s of
                (False, s) \<Rightarrow> Inr (-1, True, False, w, fs, s)
              | (True, s) \<Rightarrow>
                  (case os_call s of
                     (False, s) \<Rightarrow> Inr (-1, True, False, w, fs, s)
                   | (True, s) \<Rightarrow>
                       let fs = fs(path \<mapsto> f, tmp := None) in
                       bindr (snapshot_sync_fd s) (\<lambda>(r, s).
                         Inr (if r < 0 then -1 else 0, False, False, w, fs, s))))))"

definition save_cleanup ::
    "bytes \<Rightarrow> int \<Rightarrow> bool \<Rightarrow> bool \<Rightarrow> snapshot_writer_t \<Rightarrow> files \<Rightarrow> sys \<Rightarrow> int \<times> files \<times> sys" where
  "save_cleanup tmp result temp_exists fd_open w fs s =
     (let (w, s) = snapshot_writer_close w s;
          s = (if fd_open then snd (os_call s) else s);
          (fs, s) = (if temp_exists then (case os_call s of (ok, s) \<Rightarrow> (if ok then fs(tmp := None) else fs, s)) else (fs, s));
          (ok, s) = os_call s;
          result = (if \<not> ok \<and> result = 0 then -1 else result)
      in (result, fs, kvs_free s))"

definition temp_name :: "bytes \<Rightarrow> bytes \<Rightarrow> bytes" where
  "temp_name path suffix = path @ ''.tmp.'' @ suffix"

definition kvs_snapshot_store_save_with_checkpoint ::
    "bytes \<Rightarrow> engines \<Rightarrow> bytes \<Rightarrow> kvs_snapshot_checkpoint_t option \<Rightarrow> files \<Rightarrow> sys \<Rightarrow> (int \<times> files \<times> sys) run" where
  "kvs_snapshot_store_save_with_checkpoint suffix g path cp fs s =
     (if path = [] then Inr (-1, fs, s)
      else if length path > SIZE_MAX - 12 then Inr (-1, fs, s)
      else case kvs_malloc (length path + 12) s of
        (False, s) \<Rightarrow> Inr (-1, fs, s)
      | (True, s) \<Rightarrow>
          (case snapshot_open_parent_directory path s of
             (False, s) \<Rightarrow> Inr (-1, fs, kvs_free s)
           | (True, s) \<Rightarrow>
               let tmp = temp_name path suffix;
                   w = (case cp of None \<Rightarrow> writer_cleared | Some c \<Rightarrow> writer_cleared\<lparr>sw_checkpoint := c\<rparr>)
               in case os_call s of
                 (ok, s) \<Rightarrow>
                   if \<not> ok \<or> fs tmp \<noteq> None then Inr (save_cleanup tmp (-1) False False w fs s)
                   else
                     bindr (save_temp_file g path tmp w (fs(tmp \<mapsto> [])) s) (\<lambda>(r, temp_exists, fd_open, w, fs, s).
                     Inr (save_cleanup tmp r temp_exists fd_open w fs s))))"

definition kvs_snapshot_store_save :: "bytes \<Rightarrow> engines \<Rightarrow> bytes \<Rightarrow> files \<Rightarrow> sys \<Rightarrow> (int \<times> files \<times> sys) run" where
  "kvs_snapshot_store_save suffix g path fs s = kvs_snapshot_store_save_with_checkpoint suffix g path None fs s"

section \<open>Mapping a file\<close>

datatype mapping_result = Map_missing | Map_failed | Mapped bytes

definition kvs_mapped_file_open :: "files \<Rightarrow> bytes \<Rightarrow> sys \<Rightarrow> mapping_result \<times> sys" where
  "kvs_mapped_file_open fs path s =
     (if path = [] then (Map_failed, s)
      else case fs path of
        None \<Rightarrow> (Map_missing, s)
      | Some d \<Rightarrow>
          (case os_call s of
             (False, s) \<Rightarrow> (Map_failed, s)
           | (True, s) \<Rightarrow>
               (case os_call s of
                  (stat_ok, s) \<Rightarrow>
                    (case (if stat_ok \<and> length d \<le> SIZE_MAX
                           then (if d = [] then (True, s) else os_call s) else (False, s)) of
                       (ok, s) \<Rightarrow>
                         (case os_call s of
                            (closed, s) \<Rightarrow> (if ok \<and> closed then Mapped d else Map_failed, s))))))"

text \<open>Unmapping: only a file that is not empty was mapped.\<close>

definition kvs_mapped_file_close :: "bytes \<Rightarrow> sys \<Rightarrow> int \<times> sys" where
  "kvs_mapped_file_close d s =
     (if d = [] then (0, s) else case os_call s of (ok, s) \<Rightarrow> (if ok then 0 else -1, s))"

section \<open>Loading\<close>

text \<open>The field as a C string, which ends at the first NUL.\<close>

definition snapshot_read_field ::
    "snapshot_read_cursor_t \<Rightarrow> u32 \<Rightarrow> sys \<Rightarrow> bytes option \<times> snapshot_read_cursor_t \<times> sys" where
  "snapshot_read_field c len s =
     (case snapshot_cursor_take c (unat len) of
        None \<Rightarrow> (None, c, s)
      | Some (field, c) \<Rightarrow>
          (case kvs_malloc (unat len + 1) s of
             (False, s) \<Rightarrow> (None, c, s)
           | (True, s) \<Rightarrow> (Some (takeWhile (\<lambda>x. x \<noteq> NUL) field), c, s)))"

definition snapshot_insert_record ::
    "nat \<Rightarrow> bytes \<Rightarrow> bytes \<Rightarrow> engines \<Rightarrow> sys \<Rightarrow> (int \<times> engines \<times> sys) run" where
  "snapshot_insert_record engine key val g s =
     (if engine = 1 then
        bindr (kvs_array_get (global_array g) (Some key)) (\<lambda>old.
          if old \<noteq> None then Inr (1, g, s)
          else bindr (kvs_array_set (global_array g) (Some key) (Some val) s) (\<lambda>(r, e, s).
            Inr (r, g\<lparr>global_array := e\<rparr>, s)))
      else if engine = 2 then
        bindr (kvs_rbtree_get (global_rbtree g) (Some key)) (\<lambda>old.
          if old \<noteq> None then Inr (1, g, s)
          else bindr (kvs_rbtree_set (global_rbtree g) (Some key) (Some val) s) (\<lambda>(r, e, s).
            Inr (r, g\<lparr>global_rbtree := e\<rparr>, s)))
      else if engine = 3 then
        bindr (kvs_hash_get (global_hash g) (Some key)) (\<lambda>old.
          if old \<noteq> None then Inr (1, g, s)
          else bindr (kvs_hash_set (global_hash g) (Some key) (Some val) s) (\<lambda>(r, e, s).
            Inr (r, g\<lparr>global_hash := e\<rparr>, s)))
      else if engine = 4 then
        bindr (kvs_skiplist_get (global_skiplist g) (Some key)) (\<lambda>old.
          if old \<noteq> None then Inr (1, g, s)
          else bindr (kvs_skiplist_set (global_skiplist g) (Some key) (Some val) s) (\<lambda>(r, e, s).
            Inr (r, g\<lparr>global_skiplist := e\<rparr>, s)))
      else Inr (-1, g, s))"

definition snapshot_load_record ::
    "snapshot_read_cursor_t \<Rightarrow> engines \<Rightarrow> sys \<Rightarrow> (int \<times> snapshot_read_cursor_t \<times> engines \<times> sys) run" where
  "snapshot_load_record c g s =
     (case snapshot_cursor_take c SNAPSHOT_RECORD_HEADER_SIZE of
        None \<Rightarrow> Inr (-1, c, g, s)
      | Some (h, c) \<Rightarrow>
          let engine = byte_of (h ! 0) in
          if \<not> engine_code_ok engine then Inr (-1, c, g, s)
          else
            (case snapshot_read_field c (decode_u32_be (drop 1 h)) s of
               (None, c, s) \<Rightarrow> Inr (-1, c, g, s)
             | (Some key, c, s) \<Rightarrow>
                 (case snapshot_read_field c (decode_u32_be (drop 5 h)) s of
                    (None, c, s) \<Rightarrow> Inr (-1, c, g, kvs_free s)
                  | (Some val, c, s) \<Rightarrow>
                      bindr (snapshot_insert_record engine key val g s) (\<lambda>(r, g, s).
                        let s = kvs_free (kvs_free s)
                        in Inr (if r = 0 then 0 else -1, c, g, s)))))"

fun load_records ::
    "nat \<Rightarrow> snapshot_read_cursor_t \<Rightarrow> engines \<Rightarrow> sys \<Rightarrow> (int \<times> snapshot_read_cursor_t \<times> engines \<times> sys) run" where
  "load_records 0 c g s = Inr (0, c, g, s)"
| "load_records (Suc n) c g s =
     bindr (snapshot_load_record c g s) (\<lambda>(r, c, g, s).
       if r < 0 then Inr (-1, c, g, s) else load_records n c g s)"

text \<open>The result, the checkpoint where the load succeeded, the engines.\<close>

definition kvs_snapshot_store_load_with_checkpoint ::
    "files \<Rightarrow> bytes \<Rightarrow> engines \<Rightarrow> sys \<Rightarrow> (int \<times> kvs_snapshot_checkpoint_t option \<times> engines \<times> sys) run" where
  "kvs_snapshot_store_load_with_checkpoint fs path g s =
     (case kvs_mapped_file_open fs path s of
        (Map_missing, s) \<Rightarrow> Inr (1, None, g, s)
      | (Map_failed, s) \<Rightarrow> Inr (-1, None, g, s)
      | (Mapped d, s) \<Rightarrow>
          bindr (case snapshot_validate (cursor_on d) of
                   None \<Rightarrow> Inr (-1, cursor_on d, g, s)
                 | Some c \<Rightarrow>
                     (case snapshot_read_header (c\<lparr>cur_offset := 0\<rparr>) CRC_INIT of
                        None \<Rightarrow> Inr (-1, c, g, s)
                      | Some (count, crc, c) \<Rightarrow> load_records (unat count) c g s)) (\<lambda>(r, c, g, s).
          case kvs_mapped_file_close d s of
            (closed, s) \<Rightarrow>
              let r = (if closed < 0 \<and> r = 0 then -1 else r)
              in Inr (r, if r = 0 then Some (cur_checkpoint c) else None, g, s)))"

definition kvs_snapshot_store_load :: "files \<Rightarrow> bytes \<Rightarrow> engines \<Rightarrow> sys \<Rightarrow> (int \<times> engines \<times> sys) run" where
  "kvs_snapshot_store_load fs path g s =
     bindr (kvs_snapshot_store_load_with_checkpoint fs path g s) (\<lambda>(r, cp, g, s). Inr (r, g, s))"

section \<open>The writer delivers the bytes in order\<close>

lemma split_blocks_contiguous: "contiguous off (split_blocks buf off)"
  by (induction buf off rule: split_blocks.induct)
     (subst split_blocks.simps, auto simp: Let_def uw_end_def min_def SNAPSHOT_WRITE_BLOCK_SIZE_def)

lemma split_blocks_data: "concat (map uw_data (split_blocks buf off)) = buf"
  by (induction buf off rule: split_blocks.induct) (subst split_blocks.simps, auto simp: Let_def)

definition writer_ok :: "snapshot_writer_t \<Rightarrow> bytes \<Rightarrow> bool" where
  "writer_ok w f \<longleftrightarrow> idle (sw_io w) \<and> sw_next w = length f \<and>
     (\<exists>buf. sw_buffer w = Some buf \<and> length buf \<le> SNAPSHOT_WRITE_BUFFER_SIZE)"

text \<open>What the file will hold once the buffer is written out.\<close>

definition writer_contents :: "snapshot_writer_t \<Rightarrow> bytes \<Rightarrow> bytes" where
  "writer_contents w f = f @ (case sw_buffer w of None \<Rightarrow> [] | Some buf \<Rightarrow> buf)"

text \<open>After a failure only the buffer is left to be released.\<close>

definition writer_step ::
    "snapshot_writer_t \<Rightarrow> sys \<Rightarrow> int \<Rightarrow> snapshot_writer_t \<Rightarrow> bytes \<Rightarrow> sys \<Rightarrow> bytes \<Rightarrow> bool" where
  "writer_step w s r w' f' s' out \<longleftrightarrow>
     same_memory s s' \<and> sw_buffer w' \<noteq> None \<and> sw_checkpoint w' = sw_checkpoint w \<and>
     (r = 0 \<and> writer_ok w' f' \<and> writer_contents w' f' = out \<or> r = -1)"

lemma writer_flush_law:
  assumes ok: "writer_ok w f" and run: "snapshot_writer_flush w f s = Inr (r, w', f', s')"
  shows "writer_step w s r w' f' s' (writer_contents w f) \<and> (r = 0 \<longrightarrow> sw_buffer w' = Some [])"
proof -
  obtain buf where buf: "sw_buffer w = Some buf" "length buf \<le> SNAPSHOT_WRITE_BUFFER_SIZE"
      and io: "idle (sw_io w)" "io_initialized (sw_io w)" and n: "sw_next w = length f"
    using ok by (auto simp: writer_ok_def idle_def)
  show ?thesis
  proof (cases "buf = [] \<or> sw_next w + length buf > OFF_MAX")
    case True
    then show ?thesis
      using run buf io ok by (auto simp: snapshot_writer_flush_def writer_step_def split: if_splits)
  next
    case False
    then obtain r1 io1 where wb: "kvs_uring_io_write_batch (sw_io w) False (split_blocks buf (length f)) f s = Inr (r1, io1, f', s')"
        and out: "r = (if r1 < 0 then -1 else 0)"
          "w' = (if r1 < 0 then w\<lparr>sw_io := io1\<rparr>
                 else w\<lparr>sw_io := io1, sw_next := sw_next w + length buf, sw_buffer := Some []\<rparr>)"
      using run buf io n by (auto simp: snapshot_writer_flush_def bindr_eq_Inr split: if_splits)
    note law = write_batch_law [OF io(1) wb]
    show ?thesis
    proof (cases "r1 = 0")
      case True
      then have "f' = write_at f (length f) buf"
        using contiguous_written [OF split_blocks_contiguous order_refl, of buf f f'] law
        by (auto simp: split_blocks_data)
      then have "f' = f @ buf"
        by (simp add: write_at_end)
      then show ?thesis
        using True law out buf n by (auto simp: writer_step_def writer_ok_def writer_contents_def)
    next
      case ne: False
      then show ?thesis
        using law out buf by (auto simp: writer_step_def)
    qed
  qed
qed

lemma writer_step_trans:
  "writer_step w s 0 w1 f1 s1 mid \<Longrightarrow> writer_step w1 s1 r w2 f2 s2 out \<Longrightarrow> writer_step w s r w2 f2 s2 out"
  by (auto simp: writer_step_def intro: same_memory_trans)

lemma writer_append_loop_law:
  "writer_ok w f \<Longrightarrow> writer_append_loop w d f s = Inr (r, w', f', s') \<Longrightarrow>
   writer_step w s r w' f' s' (writer_contents w f @ d)"
proof (induction w d f s rule: writer_append_loop.induct)
  case (1 w d f s)
  show ?case
  proof (cases "d = []")
    case True
    then show ?thesis
      using "1.prems" by (auto simp: writer_append_loop.simps [of w] writer_step_def writer_ok_def)
  next
    case False
    let ?pre = "if sw_buffer w \<noteq> None \<and> length (the (sw_buffer w)) = SNAPSHOT_WRITE_BUFFER_SIZE
               then snapshot_writer_flush w f s else Inr (0, w, f, s)"
    obtain r1 w1 f1 s1 where pre: "?pre = Inr (r1, w1, f1, s1)"
      using "1.prems"(2) False unfolding writer_append_loop.simps [of w d f s] by (auto simp: bindr_eq_Inr)
    have step: "writer_step w s r1 w1 f1 s1 (writer_contents w f)"
      using pre writer_flush_law [OF "1.prems"(1), of s] "1.prems"(1)
      by (auto simp: writer_step_def writer_ok_def split: if_splits)
    show ?thesis
    proof (cases "r1 < 0")
      case True
      then show ?thesis
        using "1.prems"(2) False pre step unfolding writer_append_loop.simps [of w d f s]
        by (auto simp: writer_step_def)
    next
      case nonneg: False
      then have ok1: "writer_ok w1 f1" and r1: "r1 = 0" and c1: "writer_contents w1 f1 = writer_contents w f"
        using step by (auto simp: writer_step_def)
      then obtain buf where buf: "sw_buffer w1 = Some buf" "length buf \<le> SNAPSHOT_WRITE_BUFFER_SIZE"
        by (auto simp: writer_ok_def)
      define n where "n = min (length d) (SNAPSHOT_WRITE_BUFFER_SIZE - length buf)"
      let ?w = "w1\<lparr>sw_buffer := Some (buf @ take n d)\<rparr>"
      have n0: "n \<noteq> 0" and run: "writer_append_loop ?w (drop n d) f1 s1 = Inr (r, w', f', s')"
        using "1.prems"(2) False pre nonneg buf unfolding writer_append_loop.simps [of w d f s]
        by (auto simp: Let_def n_def split: if_splits)
      have okw: "writer_ok ?w f1"
        using ok1 buf by (auto simp: writer_ok_def n_def)
      have "writer_step ?w s1 r w' f' s' (writer_contents ?w f1 @ drop n d)"
        using "1.IH" [of "(r1, w1, f1, s1)" r1 "(w1, f1, s1)" w1 "(f1, s1)" f1 s1 buf n] False pre nonneg buf n0 okw run
        unfolding n_def by blast
      moreover have "writer_contents ?w f1 @ drop n d = writer_contents w f @ d"
        using c1 buf by (simp add: writer_contents_def)
      moreover have "writer_step w s 0 ?w f1 s1 (writer_contents ?w f1)"
        using step okw r1 by (auto simp: writer_step_def)
      ultimately show ?thesis
        by (metis writer_step_trans)
    qed
  qed
qed

lemma writer_append_law:
  assumes "writer_ok w f" "snapshot_writer_append w d f s = Inr (r, w', f', s')"
  shows "writer_step w s r w' f' s' (writer_contents w f @ d)"
  using assms writer_append_loop_law [OF assms(1)]
  by (auto simp: snapshot_writer_append_def writer_ok_def idle_def)

section \<open>The file a save produces\<close>

text \<open>The records of the four engines, in the order they are written.\<close>

definition engine_records :: "engines \<Rightarrow> srecord list" where
  "engine_records g =
     map (Pair 1) (array_entries (global_array g)) @ map (Pair 2) (rbtree_entries (global_rbtree g)) @
     map (Pair 3) (hash_entries (global_hash g)) @ map (Pair 4) (skiplist_entries (global_skiplist g))"

text \<open>A walk over all engines is a walk over the records.\<close>

fun visit_records :: "(nat \<Rightarrow> bytes \<Rightarrow> bytes \<Rightarrow> 'c \<Rightarrow> (int \<times> 'c) run) \<Rightarrow> srecord list \<Rightarrow> 'c \<Rightarrow> (int \<times> 'c) run" where
  "visit_records f [] c = Inr (0, c)"
| "visit_records f ((e, k, v) # rs) c =
     bindr (f e k v c) (\<lambda>(r, c). if r < 0 then Inr (-1, c) else visit_records f rs c)"

lemma visit_records_single: "visit_records f (map (Pair e) es) c = visit_all (f e) es c"
  by (induction "f e" es c rule: visit_all.induct) (auto intro!: bindr_cong split: prod.split)

lemma visit_records_codes: "visit_records f rs c = Inr (r, c') \<Longrightarrow> r = 0 \<or> r = -1"
  by (induction f rs c rule: visit_records.induct) (auto simp: bindr_eq_Inr split: if_splits)

lemma visit_records_append:
  "visit_records f (xs @ ys) c =
     bindr (visit_records f xs c) (\<lambda>(r, c). if r < 0 then Inr (-1, c) else visit_records f ys c)"
proof (induction f xs c rule: visit_records.induct)
  case (2 f e k v rs c)
  then show ?case
    by (auto simp: bindr_assoc intro!: bindr_cong split: prod.splits)
qed simp

lemma visit_records_norm:
  "bindr (visit_records f rs c) (\<lambda>(r, c). Inr (if r < 0 then -1 else 0, c)) = visit_records f rs c"
  by (cases "visit_records f rs c") (auto dest: visit_records_codes)

lemma foreach_engines_law:
  assumes "engines_inv g"
  shows "foreach_engines g f c = visit_records f (engine_records g) c"
proof -
  have inv: "array_inv (global_array g)" "rbtree_inv (global_rbtree g)" "hash_inv (global_hash g)" "skiplist_inv (global_skiplist g)"
    using assms by (simp_all add: engines_inv_def)
  show ?thesis
    unfolding foreach_engines_def engine_records_def visit_records_append
      array.eforeach_law [OF inv(1)] rbtree.eforeach_law [OF inv(2)] hash.eforeach_law [OF inv(3)]
      skip.eforeach_law [OF inv(4)] visit_records_single [symmetric] visit_records_norm ..
qed

lemma count_records_visit:
  "visit_records (\<lambda>_. snapshot_count_item) rs (word_of_nat n) = Inr (r, c) \<Longrightarrow> r = 0 \<Longrightarrow> n + 0 < 2 ^ 64 \<Longrightarrow>
   n + length rs < 2 ^ 64 \<and> c = word_of_nat (n + length rs)"
proof (induction rs arbitrary: n)
  case Nil
  then show ?case by simp
next
  case (Cons x rs)
  obtain e k v where x: "x = (e, k, v)" by (cases x)
  have item: "snapshot_count_item k v (word_of_nat n) =
      Inr (if (word_of_nat n :: u64) = -1 then (-1, word_of_nat n) else (0, word_of_nat (n + 1)))"
    by (simp add: snapshot_count_item_def add.commute)
  have ne: "(word_of_nat n :: u64) \<noteq> -1"
    using Cons.prems(1,2) by (auto simp: x item)
  have "n + 1 < 2 ^ 64"
  proof (rule ccontr)
    assume "\<not> n + 1 < 2 ^ 64"
    then have n: "n = 18446744073709551615"
      using Cons.prems(3) by simp
    have "(word_of_nat n :: u64) = -1"
      unfolding n by simp
    then show False
      using ne by simp
  qed
  moreover have "visit_records (\<lambda>_. snapshot_count_item) rs (word_of_nat (n + 1)) = Inr (r, c)"
    using Cons.prems(1) ne by (simp add: x item)
  ultimately show ?case
    using Cons.IH [of "n + 1"] Cons.prems(2) by simp
qed

definition context_ok :: "write_context \<Rightarrow> bool" where
  "context_ok ctx = (case ctx of (w, crc, f, s) \<Rightarrow> writer_ok w f)"

lemma write_record_law:
  assumes ok: "writer_ok w f"
    and run: "snapshot_write_record e k v (w, crc, f, s) = Inr (r, w', crc', f', s')"
    and buf: "sw_buffer w \<noteq> None"
  shows "writer_step w s r w' f' s' (writer_contents w f @ record_bytes (e, k, v)) \<and>
    (r = 0 \<longrightarrow> crc' = snapshot_crc32_update crc (record_bytes (e, k, v)) \<and> engine_code_ok e \<and>
       length k < 2 ^ 32 \<and> length v < 2 ^ 32)"
proof (cases "e < 1 \<or> e > 4 \<or> length k > 4294967295 \<or> length v > 4294967295")
  case True
  then show ?thesis
    using run buf by (auto simp: snapshot_write_record_def writer_step_def split: if_splits)
next
  case False
  let ?h = "record_header e (length k) (length v)"
  have run': "bindr (snapshot_writer_append w ?h f s) (\<lambda>(r, w, f, s).
            if r < 0 then Inr (-1, w, crc, f, s) else
          bindr (snapshot_writer_append w k f s) (\<lambda>(r, w, f, s).
            if r < 0 then Inr (-1, w, crc, f, s) else
          bindr (snapshot_writer_append w v f s) (\<lambda>(r, w, f, s).
            if r < 0 then Inr (-1, w, crc, f, s) else
          Inr (0, w, snapshot_crc32_update crc (record_bytes (e, k, v)), f, s)))) = Inr (r, w', crc', f', s')"
    using run False by (simp add: snapshot_write_record_def record_header_def [symmetric] record_bytes_def
        crc32_update_append Let_def cong: if_cong)
  obtain r1 w1 f1 s1 where a1: "snapshot_writer_append w ?h f s = Inr (r1, w1, f1, s1)"
    using run' by (auto simp: bindr_eq_Inr)
  note l1 = writer_append_law [OF ok a1]
  show ?thesis
  proof (cases "r1 = 0")
    case False
    then show ?thesis
      using run' a1 l1 by (auto simp: writer_step_def)
  next
    case r1: True
    then have ok1: "writer_ok w1 f1"
      using l1 by (auto simp: writer_step_def)
    obtain r2 w2 f2 s2 where a2: "snapshot_writer_append w1 k f1 s1 = Inr (r2, w2, f2, s2)"
      using run' a1 r1 by (auto simp: bindr_eq_Inr)
    note l2 = writer_step_trans [OF l1 [unfolded r1] writer_append_law [OF ok1 a2]]
    show ?thesis
    proof (cases "r2 = 0")
      case False
      then show ?thesis
        using run' a1 r1 a2 l2 by (auto simp: writer_step_def)
    next
      case r2: True
      then have ok2: "writer_ok w2 f2"
        using l2 by (auto simp: writer_step_def)
      obtain r3 w3 f3 s3 where a3: "snapshot_writer_append w2 v f2 s2 = Inr (r3, w3, f3, s3)"
        using run' a1 r1 a2 r2 by (auto simp: bindr_eq_Inr)
      have "writer_contents w1 f1 = writer_contents w f @ ?h" "writer_contents w2 f2 = writer_contents w1 f1 @ k"
        using l1 r1 writer_append_law [OF ok1 a2] r2 by (auto simp: writer_step_def)
      then have "writer_step w s r3 w3 f3 s3 (writer_contents w f @ record_bytes (e, k, v))"
        using writer_step_trans [OF l2 [unfolded r2] writer_append_law [OF ok2 a3]] by (simp add: record_bytes_def)
      moreover have "engine_code_ok e" "length k < 2 ^ 32" "length v < 2 ^ 32"
        using \<open>\<not> (e < 1 \<or> _)\<close> by (simp_all add: engine_code_ok_def)
      ultimately show ?thesis
        using run' a1 r1 a2 r2 a3 by (cases "r3 = 0") (auto simp: writer_step_def)
    qed
  qed
qed

lemma write_records_law:
  "writer_ok w f \<Longrightarrow> sw_buffer w \<noteq> None \<Longrightarrow>
   visit_records snapshot_write_record rs (w, crc, f, s) = Inr (r, w', crc', f', s') \<Longrightarrow>
   writer_step w s r w' f' s' (writer_contents w f @ records_bytes rs) \<and>
   (r = 0 \<longrightarrow> crc' = snapshot_crc32_update crc (records_bytes rs))"
proof (induction rs arbitrary: w crc f s)
  case Nil
  then show ?case by (auto simp: writer_step_def)
next
  case (Cons x rs)
  obtain e k v where x: "x = (e, k, v)" by (cases x)
  obtain r1 w1 crc1 f1 s1 where one: "snapshot_write_record e k v (w, crc, f, s) = Inr (r1, w1, crc1, f1, s1)"
    using Cons.prems(3) by (auto simp: x bindr_eq_Inr)
  note l1 = write_record_law [OF Cons.prems(1) one Cons.prems(2)]
  show ?case
  proof (cases "r1 = 0")
    case False
    then show ?thesis
      using Cons.prems(3) one l1 by (auto simp: x writer_step_def)
  next
    case True
    then have ok1: "writer_ok w1 f1" "sw_buffer w1 \<noteq> None" and c1: "writer_contents w1 f1 = writer_contents w f @ record_bytes x"
      using l1 by (auto simp: writer_step_def x)
    have "visit_records snapshot_write_record rs (w1, crc1, f1, s1) = Inr (r, w', crc', f', s')"
      using Cons.prems(3) one True by (simp add: x)
    from Cons.IH [OF ok1 this] have "writer_step w1 s1 r w' f' s' (writer_contents w f @ records_bytes (x # rs)) \<and>
        (r = 0 \<longrightarrow> crc' = snapshot_crc32_update crc1 (records_bytes rs))"
      using c1 by simp
    then show ?thesis
      using writer_step_trans l1 True by (auto simp: x crc32_update_append)
  qed
qed

definition checkpoint_fits :: "kvs_snapshot_checkpoint_t \<Rightarrow> bool" where
  "checkpoint_fits cp \<longleftrightarrow> ck_offset cp \<le> INT64_MAX"

lemma write_contents_law:
  assumes inv: "engines_inv g" and ok: "writer_ok w f" "writer_contents w f = []"
    and run: "snapshot_write_contents g w f s = Inr (r, w', f', s')"
  shows "same_memory s s' \<and> sw_buffer w' \<noteq> None \<and>
    (r = 0 \<and> writer_ok w' f' \<and> f' = snapshot_image (sw_checkpoint w) (engine_records g) \<and>
       length (engine_records g) < 2 ^ 64 \<and> has_offset (sw_checkpoint w) \<in> {0, 1} \<and>
       (has_offset (sw_checkpoint w) = 1 \<longrightarrow> 0 \<le> ck_offset (sw_checkpoint w)) \<or> r = -1)"
proof -
  let ?rs = "engine_records g" and ?cp = "sw_checkpoint w"
  have buf: "sw_buffer w \<noteq> None"
    using ok(1) by (auto simp: writer_ok_def)
  obtain rc n where cnt: "snapshot_count_records g = Inr (rc, n)"
    using run by (auto simp: snapshot_write_contents_def bindr_eq_Inr)
  show ?thesis
  proof (cases "rc < 0")
    case True
    then show ?thesis
      using run cnt buf by (auto simp: snapshot_write_contents_def)
  next
    case False
    have "visit_records (\<lambda>_. snapshot_count_item) ?rs (word_of_nat 0) = Inr (rc, n)"
      using cnt foreach_engines_law [OF inv, of "\<lambda>_. snapshot_count_item"] by (simp add: snapshot_count_records_def)
    then have n: "n = word_of_nat (length ?rs)" "length ?rs < 2 ^ 64"
      using count_records_visit [of ?rs 0 rc n] visit_records_codes False by fastforce+
    obtain rh crc1 w1 f1 s1 where hd: "snapshot_write_header w n CRC_INIT f s = Inr (rh, crc1, w1, f1, s1)"
      using run cnt False by (auto simp: snapshot_write_contents_def bindr_eq_Inr)
    have rest: "(if rh < 0 then Inr (-1, w1, f1, s1) else
       bindr (snapshot_write_records g (w1, crc1, f1, s1)) (\<lambda>(r, w, crc, f, s).
         if r < 0 then Inr (-1, w, f, s) else
       bindr (snapshot_writer_append w (encode_u32_be (crc XOR 0xffffffff)) f s) (\<lambda>(r, w, f, s).
         if r < 0 then Inr (-1, w, f, s) else
       snapshot_writer_flush w f s))) = Inr (r, w', f', s')"
      using run cnt False hd by (simp add: snapshot_write_contents_def)
    have l1: "writer_step w s rh w1 f1 s1 (header_v2 ?cp (length ?rs)) \<and>
        (rh = 0 \<longrightarrow> crc1 = snapshot_crc32_update CRC_INIT (header_v2 ?cp (length ?rs)) \<and>
           has_offset ?cp \<in> {0, 1} \<and> (has_offset ?cp = 1 \<longrightarrow> 0 \<le> ck_offset ?cp))"
    proof (cases "(has_offset ?cp \<noteq> 0 \<and> has_offset ?cp \<noteq> 1) \<or> (has_offset ?cp \<noteq> 0 \<and> ck_offset ?cp < 0)")
      case True
      then show ?thesis
        using hd buf by (auto simp: snapshot_write_header_def writer_step_def)
    next
      case cp: False
      then have "bindr (snapshot_writer_append w (header_v2 ?cp (length ?rs)) f s) (\<lambda>(r, w, f, s).
          if r < 0 then Inr (-1, CRC_INIT, w, f, s)
          else Inr (0, snapshot_crc32_update CRC_INIT (header_v2 ?cp (length ?rs)), w, f, s)) = Inr (rh, crc1, w1, f1, s1)"
        using hd cp by (cases "has_offset ?cp = 0")
          (simp_all add: snapshot_write_header_def header_v2_def n Let_def cong: if_cong)
      then obtain ra where ap: "snapshot_writer_append w (header_v2 ?cp (length ?rs)) f s = Inr (ra, w1, f1, s1)"
          and out: "rh = (if ra < 0 then -1 else 0)"
            "ra \<ge> 0 \<longrightarrow> crc1 = snapshot_crc32_update CRC_INIT (header_v2 ?cp (length ?rs))"
        by (auto simp: bindr_eq_Inr split: if_splits)
      show ?thesis
        using writer_append_law [OF ok(1) ap] out cp by (auto simp: ok(2) writer_step_def)
    qed
    show ?thesis
    proof (cases "rh = 0")
      case False
      then show ?thesis
        using l1 rest by (auto simp: writer_step_def)
    next
      case rh: True
      then have ok1: "writer_ok w1 f1" "sw_buffer w1 \<noteq> None" "sw_checkpoint w1 = ?cp"
          and c1: "writer_contents w1 f1 = header_v2 ?cp (length ?rs)"
        using l1 by (auto simp: writer_step_def)
      obtain r2 w2 crc2 f2 s2 where recs: "snapshot_write_records g (w1, crc1, f1, s1) = Inr (r2, w2, crc2, f2, s2)"
        using rest rh by (auto simp: bindr_eq_Inr)
      have l2: "writer_step w1 s1 r2 w2 f2 s2 (header_v2 ?cp (length ?rs) @ records_bytes ?rs) \<and>
          (r2 = 0 \<longrightarrow> crc2 = snapshot_crc32_update crc1 (records_bytes ?rs))"
        using write_records_law [OF ok1(1,2), of ?rs crc1 s1 r2 w2 crc2 f2 s2] recs
          foreach_engines_law [OF inv, of snapshot_write_record] c1 by (simp add: snapshot_write_records_def)
      show ?thesis
      proof (cases "r2 = 0")
        case False
        then show ?thesis
          using rest rh recs l1 l2 by (auto simp: writer_step_def intro: same_memory_trans)
      next
        case r2: True
        then have ok2: "writer_ok w2 f2" and c2: "writer_contents w2 f2 = header_v2 ?cp (length ?rs) @ records_bytes ?rs"
          using l2 by (auto simp: writer_step_def)
        let ?sum = "encode_u32_be (crc2 XOR 0xffffffff)"
        obtain r3 w3 f3 s3 where a3: "snapshot_writer_append w2 ?sum f2 s2 = Inr (r3, w3, f3, s3)"
          using rest rh recs r2 by (auto simp: bindr_eq_Inr)
        have image: "writer_contents w2 f2 @ ?sum = snapshot_image ?cp ?rs"
          using l1 l2 rh r2 c2 by (simp add: snapshot_image_def sealed_def crc32_update_append)
        note l3 = writer_append_law [OF ok2 a3, unfolded image]
        have mem: "same_memory s s3"
          using l1 l2 l3 by (auto simp: writer_step_def intro: same_memory_trans)
        show ?thesis
        proof (cases "r3 = 0")
          case False
          then show ?thesis
            using rest rh recs r2 a3 l3 mem by (auto simp: writer_step_def)
        next
          case r3: True
          then have ok3: "writer_ok w3 f3" and c3: "writer_contents w3 f3 = snapshot_image ?cp ?rs"
            using l3 by (auto simp: writer_step_def)
          have "snapshot_writer_flush w3 f3 s3 = Inr (r, w', f', s')"
            using rest rh recs r2 a3 r3 by simp
          note l4 = writer_flush_law [OF ok3 this, unfolded c3]
          have "same_memory s s'" "sw_buffer w' \<noteq> None"
            using l4 mem by (auto simp: writer_step_def intro: same_memory_trans)
          moreover have "r = 0 \<and> writer_ok w' f' \<and> f' = snapshot_image ?cp ?rs \<or> r = -1"
            using l4 by (auto simp: writer_step_def writer_contents_def)
          ultimately show ?thesis
            using n(2) l1 rh by blast
        qed
      qed
    qed
  qed
qed

section \<open>Saving replaces the snapshot as a whole\<close>

lemma same_memory_live: "same_memory s s' \<Longrightarrow> s_live s' = s_live s"
  by (simp add: same_memory_def)

lemma os_call_live [simp]: "os_call s = (ok, s') \<Longrightarrow> s_live s' = s_live s" "s_live (snd (os_call s)) = s_live s"
  by (auto simp: os_call_def)

definition buffer_blocks :: "snapshot_writer_t \<Rightarrow> int" where
  "buffer_blocks w = (if sw_buffer w = None then 0 else 1)"

lemma writer_init_law:
  assumes "w = writer_cleared\<lparr>sw_checkpoint := cp\<rparr>" "snapshot_writer_init w s = (r, w', s')"
  shows "s_live s' - buffer_blocks w' = s_live s \<and>
    (r = 0 \<and> writer_ok w' [] \<and> writer_contents w' [] = [] \<and> sw_checkpoint w' = cp \<or> r = -1)"
proof (cases rule: kvs_malloc_cases [of SNAPSHOT_WRITE_BUFFER_SIZE s])
  case (refused s1)
  then show ?thesis
    using assms by (auto simp: snapshot_writer_init_def writer_cleared_def io_cleared_def buffer_blocks_def)
next
  case (granted s1)
  obtain ok s2 where os: "os_call s1 = (ok, s2)"
    by (metis surj_pair)
  show ?thesis
    using assms granted os os_call_live(1) [OF os]
    by (cases ok)
       (auto simp: snapshot_writer_init_def writer_cleared_def io_cleared_def kvs_uring_io_init_def buffer_blocks_def
          writer_ok_def writer_contents_def idle_def)
qed

definition saved_image :: "engines \<Rightarrow> kvs_snapshot_checkpoint_t option \<Rightarrow> bytes" where
  "saved_image g cp = snapshot_image (case cp of None \<Rightarrow> no_checkpoint | Some c \<Rightarrow> c) (engine_records g)"

text \<open>Which files a save may touch, and what it leaves under the snapshot's name.\<close>

definition save_effect ::
    "bytes \<Rightarrow> bytes \<Rightarrow> bytes \<Rightarrow> files \<Rightarrow> bool \<Rightarrow> files \<Rightarrow> bool" where
  "save_effect path tmp img fs replaced fs' \<longleftrightarrow>
     (\<forall>p. p \<noteq> path \<longrightarrow> p \<noteq> tmp \<longrightarrow> fs' p = fs p) \<and> fs' path = (if replaced then Some img else fs path)"

lemma sync_fd_live: "snapshot_sync_fd s = Inr (r, s') \<Longrightarrow> s_live s' = s_live s \<and> (r = 0 \<or> r = -1)"
proof -
  have "sync_fd_loop fuel s = Inr (r, s') \<Longrightarrow> s_live s' = s_live s \<and> (r = 0 \<or> r = -1)" for fuel
  proof (induction fuel arbitrary: s)
    case (Suc fuel)
    obtain q s1 where q: "os_int s = (q, s1)" by (metis surj_pair)
    then have "s_live s1 = s_live s"
      using same_memory_os(4) same_memory_live by blast
    then show ?case
      using Suc q by (cases "q = - EINTR") auto
  qed simp
  then show "snapshot_sync_fd s = Inr (r, s') \<Longrightarrow> s_live s' = s_live s \<and> (r = 0 \<or> r = -1)"
    by (simp add: snapshot_sync_fd_def)
qed

lemma save_temp_file_law:
  assumes inv: "engines_inv g" and w: "w = writer_cleared\<lparr>sw_checkpoint := cp\<rparr>" and ne: "tmp \<noteq> path"
    and run: "save_temp_file g path tmp w fs s = Inr (r, te, fo, w', fs', s')"
  shows "s_live s' - buffer_blocks w' = s_live s \<and>
    save_effect path tmp (snapshot_image cp (engine_records g)) fs (\<not> te) fs' \<and>
    (te \<longrightarrow> r = -1) \<and> (\<not> te \<longrightarrow> fs' tmp = None) \<and> (r = 0 \<or> r = -1)"
proof -
  let ?im = "snapshot_image cp (engine_records g)"
  obtain r1 w1 s1 where i: "snapshot_writer_init w s = (r1, w1, s1)"
    by (metis surj_pair)
  note init = writer_init_law [OF w i]
  show ?thesis
  proof (cases "r1 < 0")
    case True
    then show ?thesis
      using run i init by (auto simp: save_temp_file_def save_effect_def)
  next
    case False
    then have ok: "writer_ok w1 []" "writer_contents w1 [] = []" "sw_checkpoint w1 = cp"
      using init by auto
    obtain r2 w2 f2 s2 where c: "snapshot_write_contents g w1 [] s1 = Inr (r2, w2, f2, s2)"
      using run i False by (auto simp: save_temp_file_def bindr_eq_Inr)
    note contents = write_contents_law [OF inv ok(1,2) c]
    have live2: "s_live s2 - buffer_blocks w2 = s_live s"
      using init contents ok(1) by (auto simp: buffer_blocks_def writer_ok_def dest: same_memory_live)
    show ?thesis
    proof (cases "r2 < 0")
      case True
      then show ?thesis
        using run i False c live2 ne by (auto simp: save_temp_file_def save_effect_def)
    next
      case r2: False
      then have f2: "f2 = ?im" and ok2: "idle (sw_io w2)"
        using contents ok(3) by (auto simp: writer_ok_def)
      obtain r3 io3 f3 s3 where y: "kvs_uring_io_sync (sw_io w2) f2 s2 = Inr (r3, io3, f3, s3)"
        using run i False c r2 by (auto simp: save_temp_file_def Let_def bindr_eq_Inr)
      note sync = sync_law [OF ok2 y]
      let ?w = "w2\<lparr>sw_io := io3\<rparr>"
      have live3: "s_live s3 - buffer_blocks ?w = s_live s"
        using sync live2 by (auto simp: buffer_blocks_def dest: same_memory_live)
      obtain b4 s4 where o4: "os_call s3 = (b4, s4)" by (metis surj_pair)
      obtain b5 s5 where o5: "os_call s4 = (b5, s5)" by (metis surj_pair)
      note live = live3 os_call_live(1) [OF o4] os_call_live(1) [OF o5]
      have start: "save_temp_file g path tmp w fs s =
          (if r3 < 0 then Inr (-1, True, True, ?w, fs(tmp \<mapsto> f2), s3)
           else if \<not> b4 then Inr (-1, True, False, ?w, fs(tmp \<mapsto> f2), s4)
           else if \<not> b5 then Inr (-1, True, False, ?w, fs(tmp \<mapsto> f2), s5)
           else bindr (snapshot_sync_fd s5) (\<lambda>(r, s).
             Inr (if r < 0 then -1 else 0, False, False, ?w, fs(tmp \<mapsto> f2, path \<mapsto> f3, tmp := None), s)))"
        using i False c r2 y o4 o5 by (cases b4; cases b5) (simp_all add: save_temp_file_def Let_def)
      show ?thesis
      proof (cases "r3 < 0 \<or> \<not> b4 \<or> \<not> b5")
        case True
        then show ?thesis
          using run start live ne by (auto simp: save_effect_def split: if_splits)
      next
        case go: False
        then obtain r6 where d: "snapshot_sync_fd s5 = Inr (r6, s')"
            and out: "r = (if r6 < 0 then -1 else 0)" "\<not> te" "w' = ?w" "fs' = fs(tmp \<mapsto> f2, path \<mapsto> f3, tmp := None)"
          using run start by (auto simp: bindr_eq_Inr)
        show ?thesis
          using out live sync_fd_live [OF d] sync f2 ne by (auto simp: save_effect_def)
      qed
    qed
  qed
qed

lemma save_cleanup_law:
  assumes "save_cleanup tmp r te fo w fs s = (r', fs', s')" "tmp \<noteq> path"
  shows "s_live s' = s_live s - buffer_blocks w - 1" "fs' path = fs path" "p \<noteq> tmp \<Longrightarrow> fs' p = fs p"
    "\<not> te \<Longrightarrow> fs' = fs" "r = 0 \<or> r = -1 \<Longrightarrow> r' = 0 \<or> r' = -1" "r' = 0 \<Longrightarrow> r = 0"
proof -
  let ?s1 = "kvs_free_opt (sw_buffer w) s"
  let ?s2 = "if fo then snd (os_call ?s1) else ?s1"
  obtain ok3 s3 where o3: "os_call ?s2 = (ok3, s3)" by (metis surj_pair)
  let ?fs3 = "if te \<and> ok3 then fs(tmp := None) else fs" and ?s3 = "if te then s3 else ?s2"
  obtain ok4 s4 where o4: "os_call ?s3 = (ok4, s4)" by (metis surj_pair)
  have out: "r' = (if \<not> ok4 \<and> r = 0 then -1 else r)" "fs' = ?fs3" "s' = kvs_free s4"
    using assms(1) o3 o4 by (auto simp: save_cleanup_def snapshot_writer_close_def Let_def split: if_splits)
  have "s_live ?s2 = s_live s - buffer_blocks w"
    by (auto simp: buffer_blocks_def kvs_free_opt_def split: option.split)
  then show "s_live s' = s_live s - buffer_blocks w - 1"
    using os_call_live(1) [OF o3] os_call_live(1) [OF o4] out(3) by auto
  show "fs' path = fs path" "p \<noteq> tmp \<Longrightarrow> fs' p = fs p" "\<not> te \<Longrightarrow> fs' = fs"
    unfolding out(2) using assms(2) by simp_all
  show "r = 0 \<or> r = -1 \<Longrightarrow> r' = 0 \<or> r' = -1"
    unfolding out(1) by simp
  show "r' = 0 \<Longrightarrow> r = 0"
    unfolding out(1) by (simp split: if_splits)
qed

lemma temp_name_ne [simp]: "temp_name path suffix \<noteq> path"
  by (simp add: temp_name_def)

text \<open>
  A save returns \<open>0\<close> only with the complete new file under the snapshot's name; in every
  other case the old file or the complete new one is there.  No other file changes but the
  temporary one, and no memory is lost.
\<close>

lemma snapshot_save_law:
  assumes inv: "engines_inv g"
    and run: "kvs_snapshot_store_save_with_checkpoint suffix g path cp fs s = Inr (r, fs', s')"
  shows "s_live s' = s_live s \<and>
    (\<exists>replaced. save_effect path (temp_name path suffix) (saved_image g cp) fs replaced fs' \<and> (r = 0 \<longrightarrow> replaced)) \<and>
    (r = 0 \<or> r = -1)"
proof -
  let ?tmp = "temp_name path suffix"
  have same: "save_effect path ?tmp (saved_image g cp) fs False fs"
    by (simp add: save_effect_def)
  show ?thesis
  proof (cases "path = [] \<or> length path > SIZE_MAX - 12")
    case True
    then have "kvs_snapshot_store_save_with_checkpoint suffix g path cp fs s = Inr (-1, fs, s)"
      by (cases "path = []") (simp_all add: kvs_snapshot_store_save_with_checkpoint_def)
    then show ?thesis
      using run same by auto
  next
    case False
    show ?thesis
    proof (cases rule: kvs_malloc_cases [of "length path + 12" s])
      case (refused s1)
      then show ?thesis
        using run False same by (auto simp: kvs_snapshot_store_save_with_checkpoint_def)
    next
      case one: (granted s1)
      obtain dir s2 where dir: "snapshot_open_parent_directory path s1 = (dir, s2)"
        by (metis surj_pair)
      have live2: "s_live s2 = s_live s + 1"
        using dir one(2) False
        by (cases rule: kvs_malloc_cases [of "length path + 1" s1])
           (auto simp: snapshot_open_parent_directory_def split: prod.splits)
      show ?thesis
      proof (cases dir)
        case f: False
        then show ?thesis
          using run False one dir live2 same by (auto simp: kvs_snapshot_store_save_with_checkpoint_def)
      next
        case d: True
        define w where "w = writer_cleared\<lparr>sw_checkpoint := (case cp of None \<Rightarrow> no_checkpoint | Some c \<Rightarrow> c)\<rparr>"
        have w: "(case cp of None \<Rightarrow> writer_cleared | Some c \<Rightarrow> writer_cleared\<lparr>sw_checkpoint := c\<rparr>) = w"
          by (auto simp: w_def writer_cleared_def split: option.split)
        obtain mk s3 where mk: "os_call s2 = (mk, s3)"
          by (metis surj_pair)
        have live3: "s_live s3 = s_live s + 1"
          using live2 os_call_live(1) [OF mk] by simp
        have run2: "(if \<not> mk \<or> fs ?tmp \<noteq> None then Inr (save_cleanup ?tmp (-1) False False w fs s3)
            else bindr (save_temp_file g path ?tmp w (fs(?tmp \<mapsto> [])) s3) (\<lambda>(r, te, fo, w, fs, s).
              Inr (save_cleanup ?tmp r te fo w fs s))) = Inr (r, fs', s')"
          using run False one dir d mk w by (simp add: kvs_snapshot_store_save_with_checkpoint_def Let_def del: not_None_eq)
        show ?thesis
        proof (cases "\<not> mk \<or> fs ?tmp \<noteq> None")
          case True
          then have cl: "save_cleanup ?tmp (-1) False False w fs s3 = (r, fs', s')"
            using run2 by simp
          have "buffer_blocks w = 0"
            by (simp add: w_def writer_cleared_def buffer_blocks_def)
          then show ?thesis
            using save_cleanup_law [OF cl temp_name_ne] live3 same by auto
        next
          case go: False
          then obtain r4 te fo w4 fs4 s4 where
              t: "save_temp_file g path ?tmp w (fs(?tmp \<mapsto> [])) s3 = Inr (r4, te, fo, w4, fs4, s4)"
              and cl: "save_cleanup ?tmp r4 te fo w4 fs4 s4 = (r, fs', s')"
            using run2 by (auto simp: bindr_eq_Inr)
          note law = save_temp_file_law [OF inv w_def temp_name_ne t]
          note clean = save_cleanup_law [OF cl temp_name_ne]
          have image: "snapshot_image (case cp of None \<Rightarrow> no_checkpoint | Some c \<Rightarrow> c) (engine_records g) = saved_image g cp"
            by (simp add: saved_image_def)
          have eff: "save_effect path ?tmp (saved_image g cp) (fs(?tmp \<mapsto> [])) (\<not> te) fs4"
            using law unfolding image by blast
          have "save_effect path ?tmp (saved_image g cp) fs (\<not> te) fs'"
            unfolding save_effect_def
          proof (intro conjI allI impI)
            fix p
            assume "p \<noteq> path" "p \<noteq> ?tmp"
            then show "fs' p = fs p"
              using eff clean(3) [of p] by (simp add: save_effect_def)
          next
            show "fs' path = (if \<not> te then Some (saved_image g cp) else fs path)"
              using eff clean(2) not_sym [OF temp_name_ne [of path suffix]] by (simp add: save_effect_def)
          qed
          moreover have r4: "te \<longrightarrow> r4 = -1" "r4 = 0 \<or> r4 = -1" "s_live s4 - buffer_blocks w4 = s_live s3"
            using law by blast+
          have "r = 0 \<longrightarrow> \<not> te"
          proof
            assume "r = 0"
            then have "r4 = 0" by (rule clean(6))
            then show "\<not> te" using r4(1) by simp
          qed
          moreover have "r = 0 \<or> r = -1"
            by (rule clean(5) [OF r4(2)])
          moreover have "s_live s' = s_live s"
            using clean(1) r4(3) live3 by simp
          ultimately show ?thesis
            by blast
        qed
      qed
    qed
  qed
qed

end
