(* ===== verification/Aof.thy ===== *)
theory Aof
  imports Codec Snapshot_Store
begin

text \<open>
  The append-only file, \<open>src/src/persistence/aof.c\<close>: opening, appending with a sync per
  command, truncating to a replication offset, the block reader of the replication, and
  replaying at start-up.  The lemmas say what an append adds to the file, that a failed
  append keeps everything committed before, and that replaying a file made of whole
  commands hands exactly these commands to the handler, in order.
\<close>

section \<open>The writer\<close>

text \<open>
  A file descriptor is identified with the name it was opened under; \<open>None\<close> is the
  descriptor -1.  \<open>off_t\<close> values of the writer are never negative.
\<close>

record aof_writer_t =
  aw_fd :: "bytes option"
  aw_offset :: nat
  aw_io :: kvs_uring_io_t

definition aof_closed :: aof_writer_t where
  "aof_closed = \<lparr>aw_fd = None, aw_offset = 0, aw_io = io_cleared\<rparr>"

definition file_data :: "files \<Rightarrow> bytes \<Rightarrow> bytes" where
  "file_data fs path = (case fs path of None \<Rightarrow> [] | Some f \<Rightarrow> f)"

text \<open>
  The kernel's answers are asked for in the order of the calls: \<open>open\<close>, \<open>fstat\<close> (which
  also covers the file not being a regular one), the ring, and \<open>close\<close> on the way out of
  an error.
\<close>

definition kvs_aof_open :: "bytes \<Rightarrow> aof_writer_t \<Rightarrow> files \<Rightarrow> sys \<Rightarrow> int \<times> aof_writer_t \<times> files \<times> sys" where
  "kvs_aof_open path w fs s =
     (if path = [] then (-1, w, fs, s)
      else if aw_fd w \<noteq> None \<or> io_initialized (aw_io w) then (-1, w, fs, s)
      else case os_call s of
        (False, s) \<Rightarrow> (-1, w, fs, s)
      | (True, s) \<Rightarrow>
          let fs = fs(path \<mapsto> file_data fs path) in
          (case os_call s of
             (False, s) \<Rightarrow> (-1, w, fs, snd (os_call s))
           | (True, s) \<Rightarrow>
               (case kvs_uring_io_init (aw_io w) s of
                  (r, io, s) \<Rightarrow>
                    if r < 0 then (-1, w\<lparr>aw_io := io\<rparr>, fs, snd (os_call s))
                    else (0, \<lparr>aw_fd = Some path, aw_offset = length (file_data fs path), aw_io = io\<rparr>, fs, s))))"

definition kvs_aof_close :: "aof_writer_t \<Rightarrow> sys \<Rightarrow> int \<times> aof_writer_t \<times> sys" where
  "kvs_aof_close w s =
     (case aw_fd w of
        None \<Rightarrow> (-1, w, s)
      | Some path \<Rightarrow>
          (case os_call s of
             (ok, s) \<Rightarrow> (if ok then 0 else -1,
                          \<lparr>aw_fd = None, aw_offset = 0, aw_io = kvs_uring_io_close (aw_io w)\<rparr>, s)))"

text \<open>\<open>ftruncate\<close> to a length: cutting, or extending with NUL bytes.\<close>

definition file_resize :: "bytes \<Rightarrow> nat \<Rightarrow> bytes" where
  "file_resize f n = take n f @ replicate (n - length f) NUL"

fun truncate_loop :: "nat \<Rightarrow> bytes \<Rightarrow> nat \<Rightarrow> sys \<Rightarrow> (bool \<times> bytes \<times> sys) run" where
  "truncate_loop 0 f n s = Inl Diverges"
| "truncate_loop (Suc fuel) f n s =
     (case os_int s of
        (r, s) \<Rightarrow>
          if r = - EINTR then truncate_loop fuel f n s
          else if r < 0 then Inr (False, f, s)
          else Inr (True, file_resize f n, s))"

definition kvs_aof_reset_to_offset ::
    "int \<Rightarrow> aof_writer_t \<Rightarrow> files \<Rightarrow> sys \<Rightarrow> (int \<times> aof_writer_t \<times> files \<times> sys) run" where
  "kvs_aof_reset_to_offset offset w fs s =
     (case aw_fd w of
        None \<Rightarrow> Inr (-1, w, fs, s)
      | Some path \<Rightarrow>
          if \<not> io_initialized (aw_io w) \<or> offset < 0 then Inr (-1, w, fs, s)
          else if nat offset > OFF_MAX then Inr (-1, w, fs, s)
          else
            bindr (truncate_loop (s_patience s) (file_data fs path) (nat offset) s) (\<lambda>(ok, f, s).
              if \<not> ok then Inr (-1, w, fs, s)
              else
                let fs = fs(path \<mapsto> f); w = w\<lparr>aw_offset := nat offset\<rparr> in
                bindr (kvs_uring_io_sync (aw_io w) f s) (\<lambda>(r, io, f, s).
                  Inr (r, w\<lparr>aw_io := io\<rparr>, fs(path \<mapsto> f), s))))"

text \<open>
  Appending a command of two or three tokens.  The encoded bytes are released after the
  write and before the sync; the position moves only when both have succeeded.
\<close>

definition kvs_aof_append ::
    "bytes option list \<Rightarrow> aof_writer_t \<Rightarrow> files \<Rightarrow> sys \<Rightarrow> (int \<times> aof_writer_t \<times> files \<times> sys) run" where
  "kvs_aof_append tokens w fs s =
     (case aw_fd w of
        None \<Rightarrow> Inr (-1, w, fs, s)
      | Some path \<Rightarrow>
          if \<not> io_initialized (aw_io w) \<or> (length tokens \<noteq> 2 \<and> length tokens \<noteq> 3) then Inr (-1, w, fs, s)
          else if None \<in> set tokens then Inr (-1, w, fs, s)
          else case kvs_encoded_command_size tokens of
            None \<Rightarrow> Inr (-1, w, fs, s)
          | Some required \<Rightarrow>
              (case kvs_malloc_bytes required s of
                 (None, s) \<Rightarrow> Inr (-1, w, fs, s)
               | (Some encoded, s) \<Rightarrow>
                   bindr (kvs_encode_command tokens (Some encoded)) (\<lambda>(r, encoded, encoded_length).
                   if r \<noteq> 0 then Inr (-1, w, fs, kvs_free s)
                   else if aw_offset w + encoded_length > OFF_MAX then Inr (-1, w, fs, kvs_free s)
                   else
                     let request = \<lparr>uw_data = take encoded_length (the encoded), uw_offset = aw_offset w\<rparr> in
                     bindr (kvs_uring_io_write_batch (aw_io w) False [request] (file_data fs path) s) (\<lambda>(r, io, f, s).
                     let w = w\<lparr>aw_io := io\<rparr>; fs = fs(path \<mapsto> f); s = kvs_free s in
                     if r < 0 then Inr (-1, w, fs, s)
                     else
                       bindr (kvs_uring_io_sync io f s) (\<lambda>(r, io, f, s).
                       let w = w\<lparr>aw_io := io\<rparr>; fs = fs(path \<mapsto> f) in
                       if r < 0 then Inr (-1, w, fs, s)
                       else Inr (0, w\<lparr>aw_offset := aw_offset w + encoded_length\<rparr>, fs, s))))))"

definition kvs_aof_get_offset :: "aof_writer_t \<Rightarrow> int" where
  "kvs_aof_get_offset w = (case aw_fd w of None \<Rightarrow> -1 | Some _ \<Rightarrow> int (aw_offset w))"

section \<open>The block reader\<close>

record kvs_aof_reader_t =
  ar_fd :: "bytes option"
  ar_offset :: int
  ar_remaining :: int

definition reader_closed :: kvs_aof_reader_t where
  "reader_closed = \<lparr>ar_fd = None, ar_offset = 0, ar_remaining = 0\<rparr>"

definition kvs_aof_reader_open ::
    "kvs_aof_reader_t \<Rightarrow> bytes \<Rightarrow> int \<Rightarrow> int \<Rightarrow> files \<Rightarrow> sys \<Rightarrow> int \<times> kvs_aof_reader_t \<times> sys" where
  "kvs_aof_reader_open reader path start_offset end_offset fs s =
     (if path = [] \<or> start_offset < 0 \<or> end_offset < start_offset then (-1, reader, s)
      else case fs path of
        None \<Rightarrow> (-1, reader_closed, s)
      | Some f \<Rightarrow>
          (case os_call s of
             (False, s) \<Rightarrow> (-1, reader_closed, s)
           | (True, s) \<Rightarrow>
               (case os_call s of
                  (stat_ok, s) \<Rightarrow>
                    if \<not> stat_ok \<or> start_offset > int (length f) \<or> end_offset > int (length f)
                    then (-1, reader_closed, snd (os_call s))
                    else (0, \<lparr>ar_fd = Some path, ar_offset = start_offset,
                              ar_remaining = end_offset - start_offset\<rparr>, s))))"

text \<open>
  \<open>pread\<close>: an error, or at most the wanted number of bytes and at most what the file
  has from the position on.
\<close>

fun pread_loop :: "nat \<Rightarrow> bytes \<Rightarrow> nat \<Rightarrow> nat \<Rightarrow> sys \<Rightarrow> (int \<times> bytes \<times> sys) run" where
  "pread_loop 0 f wanted pos s = Inl Diverges"
| "pread_loop (Suc fuel) f wanted pos s =
     (case os_int s of
        (r, s) \<Rightarrow>
          if r = - EINTR then pread_loop fuel f wanted pos s
          else if r < 0 then Inr (-1, [], s)
          else
            let n = min (min (nat r) wanted) (length f - pos)
            in Inr (int n, take n (drop pos f), s))"

definition kvs_aof_reader_read ::
    "kvs_aof_reader_t \<Rightarrow> int \<Rightarrow> files \<Rightarrow> sys \<Rightarrow> (int \<times> bytes \<times> kvs_aof_reader_t \<times> sys) run" where
  "kvs_aof_reader_read reader output_capacity fs s =
     (case ar_fd reader of
        None \<Rightarrow> Inr (-1, [], reader, s)
      | Some path \<Rightarrow>
          if ar_offset reader < 0 \<or> ar_remaining reader < 0 \<or> output_capacity \<le> 0 then Inr (-1, [], reader, s)
          else if ar_remaining reader = 0 then Inr (0, [], reader, s)
          else
            let read_size = (if ar_remaining reader < output_capacity then ar_remaining reader else output_capacity) in
            bindr (pread_loop (s_patience s) (file_data fs path) (nat read_size) (nat (ar_offset reader)) s)
              (\<lambda>(result, out, s).
                 if result \<le> 0 then Inr (-1, [], reader, s)
                 else Inr (result, out,
                        reader\<lparr>ar_offset := ar_offset reader + result, ar_remaining := ar_remaining reader - result\<rparr>, s)))"

definition kvs_aof_reader_close :: "kvs_aof_reader_t \<Rightarrow> sys \<Rightarrow> kvs_aof_reader_t \<times> sys" where
  "kvs_aof_reader_close reader s =
     (reader_closed, case ar_fd reader of None \<Rightarrow> s | Some _ \<Rightarrow> snd (os_call s))"

section \<open>Replay\<close>

text \<open>
  The handler gets the fields, the response region of 1024 zero bytes, the state it works
  on and the surroundings.  The loop parses at the current position of the mapped file.
\<close>

type_synonym 'g replay_handler = "bytes list \<Rightarrow> bytes \<Rightarrow> 'g \<Rightarrow> sys \<Rightarrow> (int \<times> bytes \<times> 'g \<times> sys) run"

function replay_loop :: "'g replay_handler \<Rightarrow> bytes \<Rightarrow> nat \<Rightarrow> 'g \<Rightarrow> sys \<Rightarrow> (int \<times> 'g \<times> sys) run" where
  "replay_loop handler d pos g s =
     (if pos < length d then
        (case kvs_parse_command (Some (drop pos d)) 3 of
           Incomplete \<Rightarrow> Inr (-1, g, s)
         | Malformed \<Rightarrow> Inr (-1, g, s)
         | Complete (flds, parsed_bytes) \<Rightarrow>
             if parsed_bytes = 0 \<or> parsed_bytes > length d - pos then Inr (-1, g, s)
             else
               bindr (handler flds (replicate 1024 NUL) g s) (\<lambda>(response_length, response, g, s).
                 if response_length \<le> 0 \<or> response_length > 1024 then Inr (-1, g, s)
                 else replay_loop handler d (pos + parsed_bytes) g s))
      else Inr (0, g, s))"
  by pat_completeness auto
termination
  by (relation "measure (\<lambda>(h, d, pos, g, s). length d - pos)") auto

declare replay_loop.simps [simp del]

definition kvs_aof_replay ::
    "files \<Rightarrow> bytes \<Rightarrow> int \<Rightarrow> 'g replay_handler \<Rightarrow> 'g \<Rightarrow> sys \<Rightarrow> (int \<times> 'g \<times> sys) run" where
  "kvs_aof_replay fs path offset handler g s =
     (if offset < 0 then Inr (-1, g, s)
      else case kvs_mapped_file_open fs path s of
        (Map_missing, s) \<Rightarrow> Inr (0, g, s)
      | (Map_failed, s) \<Rightarrow> Inr (-1, g, s)
      | (Mapped d, s) \<Rightarrow>
          bindr (replay_loop handler d (if offset < int (length d) then nat offset else length d) g s) (\<lambda>(r, g, s).
          case kvs_mapped_file_close d s of
            (closed, s) \<Rightarrow> Inr (if closed < 0 \<and> r = 0 then -1 else r, g, s)))"

section \<open>What an append does\<close>

lemma kvs_malloc_bytes_granted:
  assumes "kvs_malloc_bytes n s = (Some d, s')"
  shows "length d = n" "s_live s' = s_live s + 1" "s_alloc s' = s_alloc s" "s_patience s' = s_patience s"
  using assms by (auto simp: kvs_malloc_bytes_def kvs_malloc_def Let_def split: if_splits prod.splits)

lemma kvs_malloc_bytes_none:
  assumes "kvs_malloc_bytes n s = (None, s')"
  shows "s_live s' = s_live s" "s_alloc s' = s_alloc s" "s_patience s' = s_patience s"
  using assms by (auto simp: kvs_malloc_bytes_def kvs_malloc_def Let_def split: if_splits prod.splits)

definition committed :: "aof_writer_t \<Rightarrow> files \<Rightarrow> bytes" where
  "committed w fs = (case aw_fd w of None \<Rightarrow> [] | Some path \<Rightarrow> take (aw_offset w) (file_data fs path))"

text \<open>An open writer between two calls: the position is within the file, the ring idle or given up.\<close>

definition aof_ok :: "aof_writer_t \<Rightarrow> files \<Rightarrow> bool" where
  "aof_ok w fs \<longleftrightarrow> (idle (aw_io w) \<or> aw_io w = io_cleared) \<and>
     (\<forall>path. aw_fd w = Some path \<longrightarrow> aw_offset w \<le> length (file_data fs path))"

definition append_effect :: "bytes list \<Rightarrow> int \<Rightarrow> aof_writer_t \<Rightarrow> files \<Rightarrow> aof_writer_t \<Rightarrow> files \<Rightarrow> bool" where
  "append_effect ts r w fs w' fs' \<longleftrightarrow>
     aw_fd w' = aw_fd w \<and> aof_ok w' fs' \<and> (\<forall>p. Some p \<noteq> aw_fd w \<longrightarrow> fs' p = fs p) \<and>
     (r = 0 \<and> aw_offset w' = aw_offset w + length (command_bytes ts) \<and> committed w' fs' = committed w fs @ command_bytes ts \<and>
        (\<forall>p. aw_fd w = Some p \<longrightarrow> file_data fs' p = write_at (file_data fs p) (aw_offset w) (command_bytes ts)) \<or>
      r = -1 \<and> aw_offset w' = aw_offset w \<and> committed w' fs' = committed w fs)"

lemma append_effect_none: "aof_ok w fs \<Longrightarrow> append_effect ts (-1) w fs w fs"
  by (simp add: append_effect_def)

lemma io_cleared_simps [simp]: "io_initialized io_cleared = False"
  by (simp add: io_cleared_def)

lemma idle_initialized: "idle io \<Longrightarrow> io_initialized io"
  by (simp add: idle_def)

lemma file_data_upd [simp]: "file_data (fs(p \<mapsto> f)) q = (if q = p then f else file_data fs q)"
  by (simp add: file_data_def)

lemma one_block_framed:
  assumes "framed [\<lparr>uw_data = d, uw_offset = off\<rparr>] f f'" "off \<le> length f"
  shows "off \<le> length f'" "take off f' = take off f"
  using contiguous_kept [OF _ assms(2) assms(1)] by auto

lemma one_block_written:
  assumes "framed [\<lparr>uw_data = d, uw_offset = off\<rparr>] f f'" "off \<le> length f"
    and "\<forall>b \<in> set [\<lparr>uw_data = d, uw_offset = off\<rparr>]. \<forall>j < length (uw_data b). fbyte f' (uw_offset b + j) = Some (uw_data b ! j)"
  shows "f' = write_at f off d"
  using contiguous_written [OF _ assms(2) assms(1) assms(3)] by auto

lemma take_write_at:
  assumes "off \<le> length f" "d \<noteq> []"
  shows "take (off + length d) (write_at f off d) = take off f @ d" "off + length d \<le> length (write_at f off d)"
  using assms by (auto simp: write_at_def)

lemma command_bytes_nonempty [simp]: "command_bytes ts \<noteq> []"
  by (simp add: command_bytes_def)

text \<open>The write and the sync of an encoded command.\<close>

lemma append_write_law:
  assumes ok: "aof_ok w fs" "aw_fd w = Some path" "io_initialized (aw_io w)" and d: "d = command_bytes ts"
    and run: "bindr (kvs_uring_io_write_batch (aw_io w) False [\<lparr>uw_data = d, uw_offset = aw_offset w\<rparr>] (file_data fs path) s)
       (\<lambda>(r, io, f, s).
          let w = w\<lparr>aw_io := io\<rparr>; fs = fs(path \<mapsto> f); s = kvs_free s in
          if r < 0 then Inr (-1, w, fs, s)
          else bindr (kvs_uring_io_sync io f s) (\<lambda>(r, io, f, s).
            let w = w\<lparr>aw_io := io\<rparr>; fs = fs(path \<mapsto> f) in
            if r < 0 then Inr (-1, w, fs, s)
            else Inr (0, w\<lparr>aw_offset := aw_offset w + length d\<rparr>, fs, s))) = Inr (r, w', fs', s')"
  shows "append_effect ts r w fs w' fs' \<and> s_live s' = s_live s - 1"
proof -
  let ?b = "[\<lparr>uw_data = d, uw_offset = aw_offset w\<rparr>]"
  have idle: "idle (aw_io w)" and off: "aw_offset w \<le> length (file_data fs path)"
    using ok by (auto simp: aof_ok_def)
  obtain r1 io1 f1 s1 where b: "kvs_uring_io_write_batch (aw_io w) False ?b (file_data fs path) s = Inr (r1, io1, f1, s1)"
    using run by (auto simp: bindr_eq_Inr)
  have "same_memory s s1" and fr: "framed ?b (file_data fs path) f1"
    and res: "r1 = 0 \<and> idle io1 \<and> (\<forall>b \<in> set ?b. \<forall>j < length (uw_data b). fbyte f1 (uw_offset b + j) = Some (uw_data b ! j)) \<or>
      r1 = -1 \<and> (idle io1 \<or> io1 = io_cleared)"
    using write_batch_law [OF idle b] by blast+
  then have live: "s_live s1 = s_live s"
    by (simp add: same_memory_def)
  note kept = one_block_framed [OF fr off]
  show ?thesis
  proof (cases "r1 < 0")
    case True
    then have "r = -1" "w' = w\<lparr>aw_io := io1\<rparr>" "fs' = fs(path \<mapsto> f1)" "s' = kvs_free s1"
      using run b by (auto simp: Let_def)
    then show ?thesis
      using True res live kept ok(2) by (auto simp: append_effect_def aof_ok_def committed_def)
  next
    case False
    then have r1: "idle io1" "f1 = write_at (file_data fs path) (aw_offset w) d"
      using res one_block_written [OF fr off] by auto
    obtain r2 io2 f2 s2 where sy: "kvs_uring_io_sync io1 f1 (kvs_free s1) = Inr (r2, io2, f2, s2)"
      using run b False by (auto simp: bindr_eq_Inr Let_def)
    have f2: "f2 = f1" "same_memory (kvs_free s1) s2" "r2 = 0 \<and> idle io2 \<or> r2 = -1 \<and> (idle io2 \<or> io2 = io_cleared)"
      using sync_law [OF r1(1) sy] by blast+
    have tk: "take (aw_offset w + length d) f1 = take (aw_offset w) (file_data fs path) @ d"
        "aw_offset w + length d \<le> length f1"
      using take_write_at [OF off, of d] d r1(2) by auto
    have live2: "s_live s2 = s_live s - 1"
      using f2(2) live by (simp add: same_memory_def)
    show ?thesis
    proof (cases "r2 < 0")
      case True
      then have "r = -1" "w' = w\<lparr>aw_io := io2\<rparr>" "fs' = fs(path \<mapsto> f1)" "s' = s2"
        using run b False sy f2(1) by (auto simp: Let_def)
      then show ?thesis
        using True f2 live2 kept ok(2) by (auto simp: append_effect_def aof_ok_def committed_def)
    next
      case ok2: False
      then have "r = 0" "w' = w\<lparr>aw_io := io2, aw_offset := aw_offset w + length d\<rparr>" "fs' = fs(path \<mapsto> f1)" "s' = s2"
        using run b False sy f2(1) by (auto simp: Let_def)
      then show ?thesis
        using ok2 f2 live2 tk ok(2) d r1(2) by (auto simp: append_effect_def aof_ok_def committed_def)
    qed
  qed
qed

lemma aof_append_law:
  assumes ok: "aof_ok w fs" and run: "kvs_aof_append (map Some ts) w fs s = Inr (r, w', fs', s')"
  shows "append_effect ts r w fs w' fs' \<and> s_live s' = s_live s"
proof (cases "aw_fd w")
  case None
  then show ?thesis
    using run append_effect_none [OF ok] by (auto simp: kvs_aof_append_def)
next
  case (Some path)
  show ?thesis
  proof (cases "\<not> io_initialized (aw_io w) \<or> (length ts \<noteq> 2 \<and> length ts \<noteq> 3) \<or> length (command_bytes ts) > SIZE_MAX")
    case True
    then have "(r, w', fs', s') = (-1, w, fs, s)"
      using run Some by (auto simp: kvs_aof_append_def kvs_encoded_command_size split: if_splits)
    then show ?thesis using append_effect_none [OF ok] by simp
  next
    case False
    then have ts: "ts \<noteq> []" "length (command_bytes ts) \<le> SIZE_MAX" "length ts = 2 \<or> length ts = 3" "io_initialized (aw_io w)"
      by auto
    have sz: "kvs_encoded_command_size (map Some ts) = Some (length (command_bytes ts))"
      using ts by (simp add: kvs_encoded_command_size)
    have nn: "None \<notin> set (map Some ts)"
      by auto
    show ?thesis
    proof (cases "kvs_malloc_bytes (length (command_bytes ts)) s")
      case (Pair mem s1)
      show ?thesis
      proof (cases mem)
        case None
        then have "(r, w', fs', s') = (-1, w, fs, s1)"
          using run Some ts sz nn Pair by (auto simp: kvs_aof_append_def)
        then show ?thesis
          using append_effect_none [OF ok] kvs_malloc_bytes_none [of _ s s1] Pair None by simp
      next
        case (Some d)
        have g: "length d = length (command_bytes ts)" "s_live s1 = s_live s + 1"
          using kvs_malloc_bytes_granted [of _ s d s1] Pair Some by auto
        have enc: "kvs_encode_command (map Some ts) (Some d) = Inr (0, Some (command_bytes ts), length (command_bytes ts))"
          using kvs_encode_command_fits [of ts d] ts g by simp
        show ?thesis
        proof (cases "aw_offset w + length (command_bytes ts) > OFF_MAX")
          case True
          then have "(r, w', fs', s') = (-1, w, fs, kvs_free s1)"
            using run \<open>aw_fd w = Some path\<close> ts sz nn Pair Some enc by (auto simp: kvs_aof_append_def)
          then show ?thesis
            using append_effect_none [OF ok] g by simp
        next
          case False
          have "append_effect ts r w fs w' fs' \<and> s_live s' = s_live s1 - 1"
          proof (rule append_write_law [OF ok \<open>aw_fd w = Some path\<close> ts(4) refl])
            show "bindr (kvs_uring_io_write_batch (aw_io w) False [\<lparr>uw_data = command_bytes ts, uw_offset = aw_offset w\<rparr>] (file_data fs path) s1)
               (\<lambda>(r, io, f, s).
                  let w = w\<lparr>aw_io := io\<rparr>; fs = fs(path \<mapsto> f); s = kvs_free s in
                  if r < 0 then Inr (-1, w, fs, s)
                  else bindr (kvs_uring_io_sync io f s) (\<lambda>(r, io, f, s).
                    let w = w\<lparr>aw_io := io\<rparr>; fs = fs(path \<mapsto> f) in
                    if r < 0 then Inr (-1, w, fs, s)
                    else Inr (0, w\<lparr>aw_offset := aw_offset w + length (command_bytes ts)\<rparr>, fs, s))) = Inr (r, w', fs', s')"
              using run \<open>aw_fd w = Some path\<close> ts sz nn Pair Some enc False by (auto simp: kvs_aof_append_def)
          qed
          then show ?thesis using g by simp
        qed
      qed
    qed
  qed
qed

section \<open>A log of commands\<close>

definition aof_image :: "bytes list list \<Rightarrow> bytes" where
  "aof_image cmds = concat (map command_bytes cmds)"

lemma aof_image_simps [simp]:
  "aof_image [] = []" "aof_image (c # cs) = command_bytes c @ aof_image cs" "aof_image (cs @ ds) = aof_image cs @ aof_image ds"
  by (simp_all add: aof_image_def)

text \<open>Appending one command after the other, with the list of those that were acknowledged.\<close>

fun append_log ::
    "bytes list list \<Rightarrow> aof_writer_t \<Rightarrow> files \<Rightarrow> sys \<Rightarrow> (bytes list list \<times> aof_writer_t \<times> files \<times> sys) run" where
  "append_log [] w fs s = Inr ([], w, fs, s)"
| "append_log (c # cs) w fs s =
     bindr (kvs_aof_append (map Some c) w fs s) (\<lambda>(r, w, fs, s).
     bindr (append_log cs w fs s) (\<lambda>(ok, w, fs, s).
     Inr ((if r = 0 then c # ok else ok), w, fs, s)))"

lemma append_log_law:
  "aof_ok w fs \<Longrightarrow> append_log cs w fs s = Inr (done_cs, w', fs', s') \<Longrightarrow>
   aof_ok w' fs' \<and> aw_fd w' = aw_fd w \<and> committed w' fs' = committed w fs @ aof_image done_cs \<and> s_live s' = s_live s"
proof (induction cs arbitrary: w fs s done_cs)
  case Nil
  then show ?case by simp
next
  case (Cons c cs)
  obtain r w1 fs1 s1 ok where one: "kvs_aof_append (map Some c) w fs s = Inr (r, w1, fs1, s1)"
      and rest: "append_log cs w1 fs1 s1 = Inr (ok, w', fs', s')" and d: "done_cs = (if r = 0 then c # ok else ok)"
    using Cons.prems(2) by (auto simp: bindr_eq_Inr split: prod.splits)
  have e: "append_effect c r w fs w1 fs1" "s_live s1 = s_live s"
    using aof_append_law [OF Cons.prems(1) one] by auto
  then have ok1: "aof_ok w1 fs1" and fd: "aw_fd w1 = aw_fd w"
    and com: "r = 0 \<and> committed w1 fs1 = committed w fs @ command_bytes c \<or> r = -1 \<and> committed w1 fs1 = committed w fs"
    unfolding append_effect_def by blast+
  from com show ?case
    using Cons.IH [OF ok1 rest] e(2) fd d by (elim disjE conjE) simp_all
qed

lemma append_log_length: "append_log cs w fs s = Inr (ok, w', fs', s') \<Longrightarrow> length ok \<le> length cs"
proof (induction cs arbitrary: ok w fs s)
  case (Cons c cs)
  obtain r w1 fs1 s1 ok1 where "kvs_aof_append (map Some c) w fs s = Inr (r, w1, fs1, s1)"
      "append_log cs w1 fs1 s1 = Inr (ok1, w', fs', s')" "ok = (if r = 0 then c # ok1 else ok1)"
    using Cons.prems by (auto simp: bindr_eq_Inr split: prod.splits)
  with Cons.IH [of w1 fs1 s1 ok1] show ?case by simp
qed simp

text \<open>When nothing lies behind the position, a successful append leaves nothing behind it either.\<close>

lemma append_log_whole:
  "aof_ok w fs \<Longrightarrow> aw_fd w = Some path \<Longrightarrow> aw_offset w = length (file_data fs path) \<Longrightarrow>
   append_log cs w fs s = Inr (cs, w', fs', s') \<Longrightarrow>
   file_data fs' path = file_data fs path @ aof_image cs \<and> aw_offset w' = length (file_data fs' path)"
proof (induction cs arbitrary: w fs s)
  case Nil
  then show ?case by simp
next
  case (Cons c cs)
  obtain r w1 fs1 s1 ok where one: "kvs_aof_append (map Some c) w fs s = Inr (r, w1, fs1, s1)"
      and rest: "append_log cs w1 fs1 s1 = Inr (ok, w', fs', s')" and d: "c # cs = (if r = 0 then c # ok else ok)"
    using Cons.prems(4) by (auto simp: bindr_eq_Inr split: prod.splits)
  have r: "r = 0" "ok = cs"
    using d append_log_length [OF rest] by (auto split: if_splits)
  have e: "append_effect c 0 w fs w1 fs1"
    using aof_append_law [OF Cons.prems(1) one] r by auto
  then have "file_data fs1 path = file_data fs path @ command_bytes c" "aof_ok w1 fs1" "aw_fd w1 = Some path"
      "aw_offset w1 = length (file_data fs1 path)"
    using Cons.prems(2,3) by (auto simp: append_effect_def write_at_end)
  with Cons.IH [of w1 fs1 s1] rest r(2) show ?case by simp
qed

section \<open>What a replay does\<close>

text \<open>Handing a list of commands to the handler, one after the other, as long as it accepts them.\<close>

fun run_commands :: "'g replay_handler \<Rightarrow> bytes list list \<Rightarrow> 'g \<Rightarrow> sys \<Rightarrow> (int \<times> 'g \<times> sys) run" where
  "run_commands handler [] g s = Inr (0, g, s)"
| "run_commands handler (c # cs) g s =
     bindr (handler c (replicate 1024 NUL) g s) (\<lambda>(n, response, g, s).
       if n \<le> 0 \<or> n > 1024 then Inr (-1, g, s) else run_commands handler cs g s)"

definition aof_command :: "bytes list \<Rightarrow> bool" where
  "aof_command c \<longleftrightarrow> c \<noteq> [] \<and> length c \<le> 3 \<and> length (command_bytes c) \<le> SIZE_MAX"

lemma replay_loop_image:
  assumes "list_all aof_command cmds"
  shows "replay_loop handler (pre @ aof_image cmds @ tail) (length pre) g s =
    bindr (run_commands handler cmds g s) (\<lambda>(r, g, s).
      if r < 0 then Inr (-1, g, s)
      else replay_loop handler (pre @ aof_image cmds @ tail) (length (pre @ aof_image cmds)) g s)"
  using assms
proof (induction cmds arbitrary: pre g s)
  case Nil
  then show ?case by simp
next
  case (Cons c cs)
  let ?d = "pre @ aof_image (c # cs) @ tail"
  have c: "c \<noteq> []" "length c \<le> 3" "length (command_bytes c) \<le> SIZE_MAX"
    using Cons.prems by (auto simp: aof_command_def)
  have pos: "0 < length (command_bytes c)"
    by simp
  have parse: "kvs_parse_command (Some (drop (length pre) ?d)) 3 = Complete (c, length (command_bytes c))"
    using parse_command_bytes [OF c(1,2,3) order.refl, of "aof_image cs @ tail"] by (simp add: kvs_parse_command_def)
  have d: "?d = (pre @ command_bytes c) @ aof_image cs @ tail"
    by simp
  have IH: "replay_loop handler ?d (length (pre @ command_bytes c)) g s =
    bindr (run_commands handler cs g s) (\<lambda>(r, g, s).
      if r < 0 then Inr (-1, g, s) else replay_loop handler ?d (length (pre @ aof_image (c # cs))) g s)" for g s
    using Cons.IH [of "pre @ command_bytes c" g s] Cons.prems by (simp cong: if_cong)
  have "replay_loop handler ?d (length pre) g s =
      bindr (handler c (replicate 1024 NUL) g s) (\<lambda>(n, response, g, s).
        if n \<le> 0 \<or> n > 1024 then Inr (-1, g, s) else replay_loop handler ?d (length (pre @ command_bytes c)) g s)"
    by (subst replay_loop.simps) (use parse pos in \<open>simp cong: if_cong\<close>)
  then show ?case
    unfolding IH by (cases "handler c (replicate 1024 NUL) g s") (auto split: prod.splits)
qed

lemma replay_loop_end: "length d \<le> p \<Longrightarrow> replay_loop handler d p g s = Inr (0, g, s)"
  by (subst replay_loop.simps) simp

lemma run_commands_codes: "run_commands handler cs g s = Inr (r, g', s') \<Longrightarrow> r = 0 \<or> r = -1"
  by (induction handler cs g s rule: run_commands.induct) (auto simp: bindr_eq_Inr split: if_splits prod.splits)

lemma replay_loop_whole:
  assumes "list_all aof_command cmds"
  shows "replay_loop handler (pre @ aof_image cmds) (length pre) g s = run_commands handler cmds g s"
proof (cases "run_commands handler cmds g s")
  case (Inl e)
  then show ?thesis
    using replay_loop_image [OF assms, of handler pre "[]" g s] by simp
next
  case (Inr x)
  obtain r g' s' where x: "x = (r, g', s')" by (cases x) auto
  with Inr have "run_commands handler cmds g s = Inr (r, g', s')"
    by simp
  then have "r = 0 \<or> r = -1"
    by (rule run_commands_codes)
  then show ?thesis
    using replay_loop_image [OF assms, of handler pre "[]" g s] Inr x
      replay_loop_end [of "pre @ aof_image cmds" "length (pre @ aof_image cmds)" handler g' s']
    by auto
qed

text \<open>A command of which only a part reached the file makes the replay fail, after the commands before it.\<close>

lemma replay_loop_torn:
  assumes "list_all aof_command cmds" "aof_command c" "command_bytes c = part @ missing" "part \<noteq> []" "missing \<noteq> []"
    and "run_commands handler cmds g s = Inr (r, g', s')"
  shows "replay_loop handler (pre @ aof_image cmds @ part) (length pre) g s = Inr (-1, g', s')"
proof -
  have "kvs_parse_command (Some part) 3 = Incomplete"
    using parse_command_strict_prefix [of c 3 SIZE_MAX part missing] assms(2-5)
    by (simp add: kvs_parse_command_def aof_command_def)
  then have "replay_loop handler (pre @ aof_image cmds @ part) (length (pre @ aof_image cmds)) g' s' = Inr (-1, g', s')"
    by (subst replay_loop.simps) (simp add: assms(4))
  moreover have "r = 0 \<or> r = -1"
    by (rule run_commands_codes [OF assms(6)])
  ultimately show ?thesis
    using replay_loop_image [OF assms(1), of handler pre part g s] assms(6) by auto
qed

lemma mapped_open_cases:
  assumes "fs path = Some d"
  obtains (mapped) s' where "kvs_mapped_file_open fs path s = (Mapped d, s')" "s_live s' = s_live s" "s_alloc s' = s_alloc s"
  | (failed) s' where "kvs_mapped_file_open fs path s = (Map_failed, s')" "s_live s' = s_live s" "s_alloc s' = s_alloc s"
proof -
  obtain m s' where m: "kvs_mapped_file_open fs path s = (m, s')"
    by (cases "kvs_mapped_file_open fs path s")
  then have "m = Mapped d \<or> m = Map_failed" "s_live s' = s_live s" "s_alloc s' = s_alloc s"
    using assms by (auto simp: kvs_mapped_file_open_def os_call_def split: if_splits bool.splits)
  with m that show thesis by blast
qed

section \<open>The block reader\<close>

definition reader_ok :: "kvs_aof_reader_t \<Rightarrow> files \<Rightarrow> bool" where
  "reader_ok reader fs \<longleftrightarrow> 0 \<le> ar_offset reader \<and> 0 \<le> ar_remaining reader \<and>
     (\<forall>path. ar_fd reader = Some path \<longrightarrow> ar_offset reader + ar_remaining reader \<le> int (length (file_data fs path)))"

definition reader_pending :: "kvs_aof_reader_t \<Rightarrow> files \<Rightarrow> bytes" where
  "reader_pending reader fs = (case ar_fd reader of None \<Rightarrow> []
     | Some path \<Rightarrow> take (nat (ar_remaining reader)) (drop (nat (ar_offset reader)) (file_data fs path)))"

lemma reader_open_law:
  assumes "kvs_aof_reader_open reader path a b fs s = (0, reader', s')"
  shows "reader_ok reader' fs \<and> ar_fd reader' = Some path \<and>
    reader_pending reader' fs = take (nat (b - a)) (drop (nat a) (file_data fs path))"
  using assms
  by (auto simp: kvs_aof_reader_open_def reader_ok_def reader_pending_def file_data_def Let_def reader_closed_def
      split: if_splits option.splits prod.splits bool.splits)

lemma pread_loop_spec:
  "pread_loop fuel f wanted pos s = Inr (r, out, s') \<Longrightarrow>
   r = -1 \<or> (\<exists>n. r = int n \<and> n \<le> wanted \<and> out = take n (drop pos f) \<and> pos + n \<le> max pos (length f))"
proof (induction fuel arbitrary: s)
  case (Suc fuel)
  obtain q s1 where q: "os_int s = (q, s1)" by (metis surj_pair)
  show ?case
  proof (cases "q = - EINTR")
    case True
    then show ?thesis using Suc q by simp
  next
    case False
    then show ?thesis
      using Suc.prems q by (auto simp: Let_def split: if_splits)
  qed
qed simp

text \<open>Each block is the next part of what is pending, and what is pending shrinks by it.\<close>

lemma reader_read_law:
  assumes ok: "reader_ok reader fs" and cap: "0 < cap"
    and run: "kvs_aof_reader_read reader cap fs s = Inr (n, out, reader', s')"
  shows "n = -1 \<and> reader' = reader \<or>
    n = 0 \<and> reader' = reader \<and> reader_pending reader fs = [] \<or>
    0 < n \<and> n \<le> cap \<and> n = int (length out) \<and> reader_ok reader' fs \<and> ar_fd reader' = ar_fd reader \<and>
      reader_pending reader fs = out @ reader_pending reader' fs"
proof (cases "ar_fd reader")
  case None
  then show ?thesis using run by (auto simp: kvs_aof_reader_read_def)
next
  case (Some path)
  define f where "f = file_data fs path"
  have pos: "0 \<le> ar_offset reader" "0 \<le> ar_remaining reader" "ar_offset reader + ar_remaining reader \<le> int (length f)"
    using ok Some by (auto simp: reader_ok_def f_def)
  show ?thesis
  proof (cases "ar_remaining reader = 0")
    case True
    then show ?thesis
      using run Some pos cap by (auto simp: kvs_aof_reader_read_def reader_pending_def)
  next
    case False
    define sz where "sz = (if ar_remaining reader < cap then ar_remaining reader else cap)"
    obtain r o1 s1 where p: "pread_loop (s_patience s) f (nat sz) (nat (ar_offset reader)) s = Inr (r, o1, s1)"
      and fin: "(if r \<le> 0 then Inr (-1, [], reader, s1) else Inr (r, o1,
         reader\<lparr>ar_offset := ar_offset reader + r, ar_remaining := ar_remaining reader - r\<rparr>, s1)) = (Inr (n, out, reader', s') :: (int \<times> bytes \<times> kvs_aof_reader_t \<times> sys) run)"
      using run Some pos cap False
      by (auto simp: kvs_aof_reader_read_def bindr_eq_Inr sz_def f_def Let_def split: prod.splits)
    show ?thesis
    proof (cases "r \<le> 0")
      case True
      then show ?thesis using fin by auto
    next
      case r: False
      obtain m where m: "r = int m" "m \<le> nat sz" "o1 = take m (drop (nat (ar_offset reader)) f)"
          "nat (ar_offset reader) + m \<le> max (nat (ar_offset reader)) (length f)"
        using pread_loop_spec [OF p] r by auto
      have sz: "sz \<le> ar_remaining reader" "sz \<le> cap" "0 < sz"
        using cap pos False by (auto simp: sz_def)
      have le: "int m \<le> ar_remaining reader" "int m \<le> cap"
        using m(2) sz by linarith+
      have res: "n = int m" "out = o1" "reader' = reader\<lparr>ar_offset := ar_offset reader + int m, ar_remaining := ar_remaining reader - int m\<rparr>"
        using fin r m(1) by auto
      have "length out = m"
        using res m(3) pos le by (simp add: nat_le_iff min_def; linarith)
      moreover have "reader_pending reader fs = out @ reader_pending reader' fs"
      proof -
        have "nat (ar_remaining reader) = m + nat (ar_remaining reader - int m)"
          "nat (ar_offset reader + int m) = m + nat (ar_offset reader)"
          using le pos by simp_all
        then show ?thesis
          using Some res m(3) by (simp add: reader_pending_def f_def [symmetric] take_add add.commute)
      qed
      moreover have "reader_ok reader' fs"
        using ok Some res le pos by (auto simp: reader_ok_def f_def)
      ultimately show ?thesis
        using res le r m(1) by auto
    qed
  qed
qed

section \<open>Truncating to a replication offset\<close>

lemma truncate_loop_spec:
  "truncate_loop fuel f n s = Inr (ok, f', s') \<Longrightarrow> same_memory s s' \<and> (ok \<and> f' = file_resize f n \<or> \<not> ok \<and> f' = f)"
proof (induction fuel arbitrary: s)
  case (Suc fuel)
  obtain q s1 where q: "os_int s = (q, s1)" by (metis surj_pair)
  then have "same_memory s s1" by simp
  then show ?case
    using Suc.prems q Suc.IH [of s1] same_memory_trans [of s s1 s'] by (cases "q = - EINTR") (auto split: if_splits)
qed simp

lemma length_file_resize [simp]: "length (file_resize f n) = n"
  by (simp add: file_resize_def)

lemma aof_reset_law:
  assumes ok: "aof_ok w fs" "aw_fd w = Some path"
    and run: "kvs_aof_reset_to_offset off w fs s = Inr (r, w', fs', s')"
  shows "aof_ok w' fs' \<and> aw_fd w' = Some path \<and> s_live s' = s_live s \<and>
    (r = 0 \<longrightarrow> 0 \<le> off \<and> file_data fs' path = file_resize (file_data fs path) (nat off) \<and> kvs_aof_get_offset w' = off)"
proof (cases "\<not> io_initialized (aw_io w) \<or> off < 0 \<or> nat off > OFF_MAX")
  case True
  then show ?thesis using run ok by (auto simp: kvs_aof_reset_to_offset_def split: if_splits)
next
  case False
  then have idle: "idle (aw_io w)" using ok by (auto simp: aof_ok_def)
  obtain b f s1 where t: "truncate_loop (s_patience s) (file_data fs path) (nat off) s = Inr (b, f, s1)"
    using run ok False by (auto simp: kvs_aof_reset_to_offset_def bindr_eq_Inr)
  have t1: "same_memory s s1" "b \<and> f = file_resize (file_data fs path) (nat off) \<or> \<not> b \<and> f = file_data fs path"
    using truncate_loop_spec [OF t] by auto
  show ?thesis
  proof (cases b)
    case False
    then show ?thesis
      using run ok t t1 \<open>\<not> (\<not> io_initialized (aw_io w) \<or> off < 0 \<or> nat off > OFF_MAX)\<close>
      by (auto simp: kvs_aof_reset_to_offset_def same_memory_def)
  next
    case b: True
    obtain r2 io2 f2 s2 where sy: "kvs_uring_io_sync (aw_io w) f s1 = Inr (r2, io2, f2, s2)"
      using run ok t b False by (auto simp: kvs_aof_reset_to_offset_def bindr_eq_Inr Let_def)
    have y: "f2 = f" "same_memory s1 s2" "r2 = 0 \<and> idle io2 \<or> r2 = -1 \<and> (idle io2 \<or> io2 = io_cleared)"
      using sync_law [OF idle sy] by blast+
    have "r = r2" "w' = w\<lparr>aw_offset := nat off, aw_io := io2\<rparr>" "fs' = fs(path \<mapsto> f)" "s' = s2"
      using run ok t b False sy y(1) by (auto simp: kvs_aof_reset_to_offset_def Let_def)
    then show ?thesis
      using y t1 b ok(2) False by (auto simp: aof_ok_def same_memory_def kvs_aof_get_offset_def)
  qed
qed

section \<open>Appending succeeds\<close>

text \<open>A machine on which nothing is refused and every wait makes progress.\<close>

definition willing :: "sys \<Rightarrow> bool" where
  "willing s \<longleftrightarrow> plenty s \<and> progressing s \<and> (\<forall>n. s_oscall s n) \<and> KVS_URING_QUEUE_DEPTH < s_patience s"

lemma sync_returns:
  assumes "idle io" "progressing s" "0 < s_patience s"
  shows "\<exists>io' s'. kvs_uring_io_sync io f s = Inr (0, io', f, s')"
proof -
  obtain fuel where pat: "s_patience s = Suc fuel"
    using assms(3) gr0_conv_Suc by blast
  let ?q = "Sqe_fsync 0"
  have push: "push_sqe io ?q = Some (io\<lparr>io_sq := [?q]\<rparr>)"
    using assms(1) by (simp add: push_sqe_def idle_def KVS_URING_QUEUE_DEPTH_def)
  obtain r s1 where r: "os_int s = (r, s1)" by (metis surj_pair)
  then have "0 < r" and p1: "progressing s1" "s_patience s1 = s_patience s"
    using os_int_progressing [OF assms(2)] by auto
  then have "io_uring_submit (io\<lparr>io_sq := [?q]\<rparr>) s = (1, io\<lparr>io_sq := [], io_inflight := [?q]\<rparr>, s1)"
    using r assms(1) by (simp add: io_uring_submit_def idle_def min_def nat_le_iff)
  then have sub: "sync_submit_loop (s_patience s) (io\<lparr>io_sq := [?q]\<rparr>) s = Inr (1, io\<lparr>io_sq := [], io_inflight := [?q]\<rparr>, s1)"
    by (simp add: pat EINTR_def)
  define io1 where "io1 = io\<lparr>io_sq := [], io_inflight := [?q]\<rparr>"
  have inf: "io_inflight io1 = [?q]" "io_inflight io1 \<noteq> []"
    by (simp_all add: io1_def)
  have "0 < s_patience s1"
    using p1 assms(3) by simp
  with p1(1) inf(2) show ?thesis
  proof (rule receive_progress [of s1 io1 f])
    fix k res cq f' s2
    assume rc: "uring_receive_write_result io1 f s1 = Inr (Some cq, io1\<lparr>io_inflight := drop_nth k (io_inflight io1)\<rparr>, f', s2)"
      "k < length (io_inflight io1)" "complete_sqe (io_inflight io1 ! k) res f = (cq, f')" "0 < res"
    then have "k = 0" "cq = Cqe 0 0" "f' = f"
      by (auto simp: inf min_def)
    then show ?thesis
      using push sub rc(1) assms(1) by (simp add: kvs_uring_io_sync_def pat idle_def EINTR_def io1_def)
  qed
qed

lemma kvs_malloc_bytes_willing:
  assumes "willing s" "0 < n"
  shows "\<exists>d s'. kvs_malloc_bytes n s = (Some d, s') \<and> length d = n \<and> willing s' \<and> s_patience s' = s_patience s"
  using assms by (auto simp: kvs_malloc_bytes_def kvs_malloc_def willing_def plenty_def progressing_def Let_def)

lemma aof_append_succeeds:
  assumes w: "aw_fd w = Some path" "idle (aw_io w)" and s: "willing s"
    and ts: "length ts = 2 \<or> length ts = 3" "length (command_bytes ts) \<le> SIZE_MAX"
      "aw_offset w + length (command_bytes ts) \<le> OFF_MAX" "length (command_bytes ts) < s_patience s"
  shows "\<exists>w' fs' s'. kvs_aof_append (map Some ts) w fs s = Inr (0, w', fs', s')"
proof -
  have ne: "ts \<noteq> []" and init: "io_initialized (aw_io w)"
    using ts w by (auto simp: idle_def)
  have sz: "kvs_encoded_command_size (map Some ts) = Some (length (command_bytes ts))"
    using ts ne by (simp add: kvs_encoded_command_size)
  have nn: "None \<notin> set (map Some ts)"
    by auto
  obtain d s1 where d: "kvs_malloc_bytes (length (command_bytes ts)) s = (Some d, s1)" "length d = length (command_bytes ts)"
      "willing s1" "s_patience s1 = s_patience s"
    using kvs_malloc_bytes_willing [OF s, of "length (command_bytes ts)"] by auto
  have enc: "kvs_encode_command (map Some ts) (Some d) = Inr (0, Some (command_bytes ts), length (command_bytes ts))"
    using kvs_encode_command_fits [of ts d] ts ne d(2) by simp
  let ?b = "[\<lparr>uw_data = command_bytes ts, uw_offset = aw_offset w\<rparr>]"
  have rng: "ranges_ok [] ?b"
    using ts by (simp add: uw_end_def)
  obtain io f s2 where b: "kvs_uring_io_write_batch (aw_io w) False ?b (file_data fs path) s1 = Inr (0, io, f, s2)"
      "progressing s2" "s_patience s2 = s_patience s1"
    using write_batch_returns [OF w(2) _ rng, of s1 "file_data fs path"] d ts by (auto simp: willing_def KVS_URING_QUEUE_DEPTH_def)
  have "idle io"
    using write_batch_law [OF w(2) b(1)] by auto
  moreover have "progressing (kvs_free s2)" "0 < s_patience (kvs_free s2)"
    using b(2,3) d(4) s by (auto simp: progressing_def kvs_free_def willing_def)
  ultimately obtain io' s3 where "kvs_uring_io_sync io f (kvs_free s2) = Inr (0, io', f, s3)"
    using sync_returns by blast
  then show ?thesis
    using w init ts sz nn d(1) enc b(1) by (auto simp: kvs_aof_append_def Let_def)
qed


section \<open>From opening to replaying\<close>

lemma aof_open_law:
  assumes "kvs_aof_open path w fs s = (0, w', fs', s')" "\<not> io_initialized (aw_io w)"
  shows "aof_ok w' fs' \<and> aw_fd w' = Some path \<and> idle (aw_io w') \<and> file_data fs' path = file_data fs path \<and>
    aw_offset w' = length (file_data fs path) \<and> (\<forall>p. p \<noteq> path \<longrightarrow> fs' p = fs p) \<and> s_live s' = s_live s"
proof -
  obtain b1 s1 b2 s2 r io s3 where call: "os_call s = (b1, s1)" "os_call s1 = (b2, s2)" "kvs_uring_io_init (aw_io w) s2 = (r, io, s3)"
    by (metis surj_pair)
  then have live: "s_live s1 = s_live s" "s_live s2 = s_live s1" "s_live s3 = s_live s2" and io: "r = 0 \<Longrightarrow> idle io" "r = 0 \<or> r = -1"
    using assms(2) by (auto simp: os_call_def kvs_uring_io_init_def idle_def Let_def split: if_splits)
  have "b1" "b2" "r = 0" "w' = \<lparr>aw_fd = Some path, aw_offset = length (file_data fs path), aw_io = io\<rparr>"
      "fs' = fs(path \<mapsto> file_data fs path)" "s' = s3"
    using assms(1) call io(2) unfolding kvs_aof_open_def
    by (auto simp: Let_def split: if_split_asm bool.split_asm)
  then show ?thesis
    using live io(1) by (simp add: aof_ok_def)
qed

lemma aof_append_command:
  assumes "kvs_aof_append (map Some ts) w fs s = Inr (0, w', fs', s')"
  shows "aof_command ts"
proof -
  obtain path where fd: "aw_fd w = Some path"
    using assms by (auto simp: kvs_aof_append_def split: option.splits)
  show ?thesis
  proof (rule ccontr)
    assume "\<not> aof_command ts"
    then have "kvs_encoded_command_size (map Some ts) = None \<or> length ts > 3"
      by (auto simp: aof_command_def kvs_encoded_command_size)
    with assms fd show False
      by (auto simp: kvs_aof_append_def split: if_splits)
  qed
qed

lemma append_log_commands:
  "append_log cs w fs s = Inr (cs', w', fs', s') \<Longrightarrow> list_all aof_command cs'"
  by (induction cs arbitrary: cs' w fs s)
     (auto simp: bindr_eq_Inr aof_append_command split: prod.splits if_splits)

lemma aof_replay_mapped:
  assumes "kvs_mapped_file_open fs path s = (Mapped d, s1)"
  shows "fs path = Some d" "kvs_aof_replay fs path (int n) handler g s =
    bindr (replay_loop handler d (min n (length d)) g s1) (\<lambda>(r, g, s).
      case kvs_mapped_file_close d s of (closed, s) \<Rightarrow> Inr (if closed < 0 \<and> r = 0 then -1 else r, g, s))"
  using assms
  by (auto simp: kvs_mapped_file_open_def kvs_aof_replay_def min_def split: if_splits option.splits prod.splits bool.splits)

lemma aof_replay_whole:
  assumes "kvs_mapped_file_open fs path s = (Mapped (pre @ aof_image cmds), s1)" "list_all aof_command cmds"
  shows "kvs_aof_replay fs path (int (length pre)) handler g s =
    bindr (run_commands handler cmds g s1) (\<lambda>(r, g, s).
      case kvs_mapped_file_close (pre @ aof_image cmds) s of (closed, s) \<Rightarrow> Inr (if closed < 0 \<and> r = 0 then -1 else r, g, s))"
  using aof_replay_mapped(2) [OF assms(1), of "length pre" handler g] replay_loop_whole [OF assms(2), of handler pre g s1]
  by (simp add: min_def)

lemma mapped_open_willing:
  assumes "fs path = Some d" "path \<noteq> []" "length d \<le> SIZE_MAX" "\<forall>n. s_oscall s n"
  shows "\<exists>s'. kvs_mapped_file_open fs path s = (Mapped d, s') \<and> s_oscall s' = s_oscall s"
proof (cases "d = []")
  case True
  then show ?thesis using assms by (simp add: kvs_mapped_file_open_def os_call_def)
next
  case False
  then show ?thesis using assms by (simp add: kvs_mapped_file_open_def os_call_def)
qed

end
