(* ===== verification/Snapshot_Io.thy ===== *)
theory Snapshot_Io
  imports Aof
begin

text \<open>
  Block-wise reading and writing of a snapshot file for the replication,
  \<open>src/src/persistence/snapshot_io.c\<close>.  The lemmas show that the reader hands out the file in
  order, that the writer puts the received bytes down in order and commits only a complete
  file, and that the two together copy a snapshot.
\<close>

section \<open>Reading\<close>

text \<open>An open descriptor is its file's name and the position the kernel keeps for it.\<close>

record kvs_snapshot_reader_t =
  sr_fd :: "bytes option"
  sr_pos :: nat
  sr_remaining :: int

definition snapshot_reader_idle :: kvs_snapshot_reader_t where
  "snapshot_reader_idle = \<lparr>sr_fd = None, sr_pos = 0, sr_remaining = 0\<rparr>"

definition kvs_snapshot_reader_open ::
    "kvs_snapshot_reader_t \<Rightarrow> bytes \<Rightarrow> int \<Rightarrow> files \<Rightarrow> sys \<Rightarrow> int \<times> kvs_snapshot_reader_t \<times> sys" where
  "kvs_snapshot_reader_open reader path expected_size fs s =
     (if path = [] \<or> expected_size \<le> 0 then (-1, reader, s)
      else case fs path of
        None \<Rightarrow> (-1, snapshot_reader_idle, s)
      | Some f \<Rightarrow>
          (case os_call s of
             (False, s) \<Rightarrow> (-1, snapshot_reader_idle, s)
           | (True, s) \<Rightarrow>
               (case os_call s of
                  (stat_ok, s) \<Rightarrow>
                    if \<not> stat_ok \<or> int (length f) \<noteq> expected_size then (-1, snapshot_reader_idle, snd (os_call s))
                    else (0, \<lparr>sr_fd = Some path, sr_pos = 0, sr_remaining = expected_size\<rparr>, s))))"

definition kvs_snapshot_reader_read ::
    "kvs_snapshot_reader_t \<Rightarrow> int \<Rightarrow> files \<Rightarrow> sys \<Rightarrow> (int \<times> bytes \<times> kvs_snapshot_reader_t \<times> sys) run" where
  "kvs_snapshot_reader_read reader output_capacity fs s =
     (case sr_fd reader of
        None \<Rightarrow> Inr (-1, [], reader, s)
      | Some path \<Rightarrow>
          if sr_remaining reader < 0 \<or> output_capacity \<le> 0 then Inr (-1, [], reader, s)
          else if sr_remaining reader = 0 then Inr (0, [], reader, s)
          else
            let read_size = (if sr_remaining reader < output_capacity then sr_remaining reader else output_capacity) in
            bindr (pread_loop (s_patience s) (file_data fs path) (nat read_size) (sr_pos reader) s)
              (\<lambda>(result, out, s).
                 if result \<le> 0 then Inr (-1, [], reader, s)
                 else Inr (result, out,
                        reader\<lparr>sr_pos := sr_pos reader + nat result, sr_remaining := sr_remaining reader - result\<rparr>, s)))"

definition kvs_snapshot_reader_close :: "kvs_snapshot_reader_t \<Rightarrow> sys \<Rightarrow> kvs_snapshot_reader_t \<times> sys" where
  "kvs_snapshot_reader_close reader s =
     (snapshot_reader_idle, case sr_fd reader of None \<Rightarrow> s | Some _ \<Rightarrow> snd (os_call s))"

section \<open>Writing\<close>

record kvs_snapshot_writer_t =
  sn_fd :: "bytes option"
  sn_pos :: nat
  sn_remaining :: int

definition snapshot_writer_idle :: kvs_snapshot_writer_t where
  "snapshot_writer_idle = \<lparr>sn_fd = None, sn_pos = 0, sn_remaining = 0\<rparr>"

definition kvs_snapshot_writer_open ::
    "kvs_snapshot_writer_t \<Rightarrow> bytes \<Rightarrow> int \<Rightarrow> files \<Rightarrow> sys \<Rightarrow> int \<times> kvs_snapshot_writer_t \<times> files \<times> sys" where
  "kvs_snapshot_writer_open writer temp_path expected_size fs s =
     (if temp_path = [] \<or> expected_size \<le> 0 then (-1, writer, fs, s)
      else case os_call s of
        (False, s) \<Rightarrow> (-1, snapshot_writer_idle, fs, s)
      | (True, s) \<Rightarrow>
          (0, \<lparr>sn_fd = Some temp_path, sn_pos = 0, sn_remaining = expected_size\<rparr>, fs(temp_path \<mapsto> []), s))"

text \<open>
  The loop around \<open>write\<close>: the descriptor's position and the file, whether every byte was
  taken.  The kernel may take fewer bytes than offered.
\<close>

fun write_loop :: "nat \<Rightarrow> bytes \<Rightarrow> nat \<Rightarrow> bytes \<Rightarrow> sys \<Rightarrow> (bool \<times> nat \<times> bytes \<times> sys) run" where
  "write_loop 0 d pos f s = (if d = [] then Inr (True, pos, f, s) else Inl Diverges)"
| "write_loop (Suc fuel) d pos f s =
     (if d = [] then Inr (True, pos, f, s)
      else case os_int s of
        (r, s) \<Rightarrow>
          let r = min r (int (length d)) in
          if r > 0 then write_loop fuel (drop (nat r) d) (pos + nat r) (write_at f pos (take (nat r) d)) s
          else if r = - EINTR then write_loop fuel d pos f s
          else Inr (False, pos, f, s))"

definition kvs_snapshot_writer_write ::
    "kvs_snapshot_writer_t \<Rightarrow> bytes \<Rightarrow> files \<Rightarrow> sys \<Rightarrow> (int \<times> kvs_snapshot_writer_t \<times> files \<times> sys) run" where
  "kvs_snapshot_writer_write writer d fs s =
     (case sn_fd writer of
        None \<Rightarrow> Inr (-1, writer, fs, s)
      | Some path \<Rightarrow>
          if sn_remaining writer < 0 \<or> d = [] then Inr (-1, writer, fs, s)
          else if sn_remaining writer = 0 then Inr (0, writer, fs, s)
          else
            let write_size = (if sn_remaining writer < int (length d) then nat (sn_remaining writer) else length d) in
            bindr (write_loop (s_patience s) (take write_size d) (sn_pos writer) (file_data fs path) s)
              (\<lambda>(ok, pos, f, s).
                 let fs = fs(path \<mapsto> f); writer = writer\<lparr>sn_pos := pos\<rparr> in
                 if \<not> ok then Inr (-1, writer, fs, s)
                 else Inr (int write_size, writer\<lparr>sn_remaining := sn_remaining writer - int write_size\<rparr>, fs, s)))"

definition kvs_snapshot_writer_commit ::
    "kvs_snapshot_writer_t \<Rightarrow> bytes \<Rightarrow> bytes \<Rightarrow> files \<Rightarrow> sys \<Rightarrow> int \<times> kvs_snapshot_writer_t \<times> files \<times> sys" where
  "kvs_snapshot_writer_commit writer temp_path final_path fs s =
     (if sn_fd writer = None \<or> sn_remaining writer \<noteq> 0 \<or> temp_path = [] \<or> final_path = [] then (-1, writer, fs, s)
      else case os_call s of
        (False, s) \<Rightarrow> (-1, writer\<lparr>sn_fd := None\<rparr>, fs, snd (os_call s))
      | (True, s) \<Rightarrow>
          (case os_call s of
             (False, s) \<Rightarrow> (-1, writer\<lparr>sn_fd := None\<rparr>, fs, s)
           | (True, s) \<Rightarrow>
               (case (os_call s, fs temp_path) of
                  ((True, s), Some f) \<Rightarrow>
                    (0, writer\<lparr>sn_fd := None\<rparr>, (if final_path = temp_path then fs else fs(final_path \<mapsto> f, temp_path := None)), s)
                | ((_, s), _) \<Rightarrow> (-1, writer\<lparr>sn_fd := None\<rparr>, fs, s))))"

definition kvs_snapshot_writer_abort ::
    "kvs_snapshot_writer_t \<Rightarrow> bytes \<Rightarrow> files \<Rightarrow> sys \<Rightarrow> kvs_snapshot_writer_t \<times> files \<times> sys" where
  "kvs_snapshot_writer_abort writer temp_path fs s =
     (let s = (if sn_fd writer = None then s else snd (os_call s));
          (fs, s) = (if temp_path = [] then (fs, s)
                     else case os_call s of (ok, s) \<Rightarrow> (if ok then fs(temp_path := None) else fs, s))
      in (snapshot_writer_idle, fs, s))"

section \<open>What the reader delivers\<close>

definition snapshot_pending :: "kvs_snapshot_reader_t \<Rightarrow> files \<Rightarrow> bytes" where
  "snapshot_pending reader fs = (case sr_fd reader of None \<Rightarrow> [] | Some path \<Rightarrow> drop (sr_pos reader) (file_data fs path))"

definition snapshot_reader_ok :: "kvs_snapshot_reader_t \<Rightarrow> files \<Rightarrow> bool" where
  "snapshot_reader_ok reader fs \<longleftrightarrow>
     (sr_fd reader \<noteq> None \<longrightarrow> sr_remaining reader = int (length (snapshot_pending reader fs)))"

lemma snapshot_reader_open_law:
  assumes "kvs_snapshot_reader_open reader path n fs s = (0, reader', s')"
  shows "snapshot_reader_ok reader' fs \<and> sr_fd reader' = Some path \<and> snapshot_pending reader' fs = file_data fs path \<and>
    n = int (length (file_data fs path)) \<and> 0 < n"
  using assms
  by (auto simp: kvs_snapshot_reader_open_def snapshot_reader_ok_def snapshot_pending_def file_data_def Let_def
      snapshot_reader_idle_def split: if_splits option.splits prod.splits bool.splits)

lemma snapshot_reader_read_law:
  assumes ok: "snapshot_reader_ok reader fs" and cap: "0 < cap"
    and run: "kvs_snapshot_reader_read reader cap fs s = Inr (n, out, reader', s')"
  shows "n = -1 \<and> reader' = reader \<or>
    n = 0 \<and> reader' = reader \<and> snapshot_pending reader fs = [] \<or>
    0 < n \<and> n \<le> cap \<and> n = int (length out) \<and> snapshot_reader_ok reader' fs \<and> sr_fd reader' = sr_fd reader \<and>
      snapshot_pending reader fs = out @ snapshot_pending reader' fs"
proof (cases "sr_fd reader")
  case None
  then show ?thesis using run by (auto simp: kvs_snapshot_reader_read_def)
next
  case (Some path)
  define f where "f = file_data fs path"
  have rem: "sr_remaining reader = int (length (drop (sr_pos reader) f))"
    using ok Some by (auto simp: snapshot_reader_ok_def snapshot_pending_def f_def)
  show ?thesis
  proof (cases "sr_remaining reader = 0")
    case True
    then show ?thesis
      using run Some cap rem by (auto simp: kvs_snapshot_reader_read_def snapshot_pending_def f_def)
  next
    case False
    define sz where "sz = (if sr_remaining reader < cap then sr_remaining reader else cap)"
    obtain r o1 s1 where p: "pread_loop (s_patience s) f (nat sz) (sr_pos reader) s = Inr (r, o1, s1)"
      and fin: "(if r \<le> 0 then Inr (-1, [], reader, s1) else Inr (r, o1,
         reader\<lparr>sr_pos := sr_pos reader + nat r, sr_remaining := sr_remaining reader - r\<rparr>, s1)) = (Inr (n, out, reader', s') :: (int \<times> bytes \<times> kvs_snapshot_reader_t \<times> sys) run)"
      using run Some cap False rem
      by (auto simp: kvs_snapshot_reader_read_def bindr_eq_Inr sz_def f_def Let_def split: prod.splits)
    show ?thesis
    proof (cases "r \<le> 0")
      case True
      then show ?thesis using fin by auto
    next
      case r: False
      obtain m where m: "r = int m" "m \<le> nat sz" "o1 = take m (drop (sr_pos reader) f)"
        using pread_loop_spec [OF p] r by auto
      have le: "int m \<le> sr_remaining reader" "int m \<le> cap"
        using m(2) cap False rem by (auto simp: sz_def split: if_splits)
      have res: "n = int m" "out = o1" "reader' = reader\<lparr>sr_pos := sr_pos reader + m, sr_remaining := sr_remaining reader - int m\<rparr>"
        using fin r m(1) by auto
      have "length out = m"
        using res m(3) le rem by simp
      moreover have "snapshot_pending reader fs = out @ snapshot_pending reader' fs"
        using Some res m(3) by (simp add: snapshot_pending_def f_def [symmetric] add.commute flip: drop_drop)
      moreover have "snapshot_reader_ok reader' fs"
        using Some res rem le by (auto simp: snapshot_reader_ok_def snapshot_pending_def f_def)
      ultimately show ?thesis
        using res le r m(1) by auto
    qed
  qed
qed

section \<open>What the writer makes\<close>

text \<open>A writer at the end of its temporary file.\<close>

definition snapshot_writer_ok :: "kvs_snapshot_writer_t \<Rightarrow> files \<Rightarrow> bool" where
  "snapshot_writer_ok writer fs \<longleftrightarrow>
     (\<forall>path. sn_fd writer = Some path \<longrightarrow> fs path \<noteq> None \<and> sn_pos writer = length (file_data fs path) \<and> 0 \<le> sn_remaining writer)"

lemma write_loop_spec:
  "write_loop fuel d (length f) f s = Inr (ok, pos, f', s') \<Longrightarrow>
   same_memory s s' \<and> (\<exists>n. f' = f @ take n d \<and> pos = length f' \<and> (ok \<longrightarrow> f' = f @ d))"
proof (induction fuel arbitrary: d f s)
  case 0
  then show ?case by (auto split: if_splits intro: exI [of _ 0])
next
  case (Suc fuel)
  show ?case
  proof (cases "d = []")
    case True
    then show ?thesis using Suc.prems by (auto intro: exI [of _ 0])
  next
    case False
    obtain r s1 where r: "os_int s = (r, s1)" by (metis surj_pair)
    then have mem: "same_memory s s1" by simp
    define k where "k = min r (int (length d))"
    have step: "write_loop (Suc fuel) d (length f) f s =
        (if k > 0 then write_loop fuel (drop (nat k) d) (length f + nat k) (write_at f (length f) (take (nat k) d)) s1
         else if k = - EINTR then write_loop fuel d (length f) f s1 else Inr (False, length f, f, s1))"
      using r False by (simp add: k_def Let_def)
    consider (some) "k > 0" | (intr) "\<not> k > 0" "k = - EINTR" | (err) "\<not> k > 0" "k \<noteq> - EINTR"
      by blast
    then show ?thesis
    proof cases
      case some
      have w: "write_at f (length f) (take (nat k) d) = f @ take (nat k) d"
        by (rule write_at_end)
      have "length f + nat k = length (f @ take (nat k) d)"
        using some by (simp add: k_def)
      then have "write_loop fuel (drop (nat k) d) (length (f @ take (nat k) d)) (f @ take (nat k) d) s1 = Inr (ok, pos, f', s')"
        using Suc.prems step some w by simp
      from Suc.IH [OF this] obtain n where "same_memory s1 s'" "f' = (f @ take (nat k) d) @ take n (drop (nat k) d)"
          "pos = length f'" "ok \<longrightarrow> f' = (f @ take (nat k) d) @ drop (nat k) d"
        by auto
      then show ?thesis
        using mem by (auto intro!: exI [of _ "nat k + n"] intro: same_memory_trans simp: take_add)
    next
      case intr
      then have "write_loop fuel d (length f) f s1 = Inr (ok, pos, f', s')"
        using Suc.prems step by simp
      from Suc.IH [OF this] show ?thesis
        using mem same_memory_trans by blast
    next
      case err
      then have "\<not> ok" "pos = length f" "f' = f" "s' = s1"
        using Suc.prems step by auto
      then show ?thesis
        using mem by (auto intro: exI [of _ 0])
    qed
  qed
qed

lemma snapshot_writer_write_law:
  assumes ok: "snapshot_writer_ok writer fs" "sn_fd writer = Some path"
    and run: "kvs_snapshot_writer_write writer d fs s = Inr (n, writer', fs', s')"
  shows "snapshot_writer_ok writer' fs' \<and> sn_fd writer' = Some path \<and> (\<forall>p. p \<noteq> path \<longrightarrow> fs' p = fs p) \<and> s_live s' = s_live s \<and>
    (n = -1 \<or> n = min (int (length d)) (sn_remaining writer) \<and> sn_remaining writer' = sn_remaining writer - n \<and>
       file_data fs' path = file_data fs path @ take (nat n) d)"
proof (cases "d = [] \<or> sn_remaining writer = 0")
  case True
  then show ?thesis
    using run ok by (auto simp: kvs_snapshot_writer_write_def snapshot_writer_ok_def split: if_splits)
next
  case False
  have w: "sn_pos writer = length (file_data fs path)" "0 \<le> sn_remaining writer"
    using ok by (auto simp: snapshot_writer_ok_def)
  define ws where "ws = (if sn_remaining writer < int (length d) then nat (sn_remaining writer) else length d)"
  have ws: "int ws = min (int (length d)) (sn_remaining writer)" "ws \<le> length d"
    using w by (auto simp: ws_def)
  obtain b pos f s1 where l: "write_loop (s_patience s) (take ws d) (length (file_data fs path)) (file_data fs path) s = Inr (b, pos, f, s1)"
    using run ok(2) False w by (auto simp: kvs_snapshot_writer_write_def bindr_eq_Inr ws_def Let_def split: if_splits)
  obtain m where m: "same_memory s s1" "f = file_data fs path @ take m (take ws d)" "pos = length f" "b \<longrightarrow> f = file_data fs path @ take ws d"
    using write_loop_spec [OF l] by auto
  have res: "(if \<not> b then Inr (-1, writer\<lparr>sn_pos := pos\<rparr>, fs(path \<mapsto> f), s1)
      else Inr (int ws, writer\<lparr>sn_pos := pos, sn_remaining := sn_remaining writer - int ws\<rparr>, fs(path \<mapsto> f), s1)) = (Inr (n, writer', fs', s') :: (int \<times> kvs_snapshot_writer_t \<times> files \<times> sys) run)"
    using run ok(2) False w l by (simp add: kvs_snapshot_writer_write_def ws_def Let_def split: if_splits)
  show ?thesis
  proof (cases b)
    case True
    then have "n = int ws" "writer' = writer\<lparr>sn_pos := pos, sn_remaining := sn_remaining writer - int ws\<rparr>" "fs' = fs(path \<mapsto> f)" "s' = s1"
      using res by auto
    moreover have "f = file_data fs path @ take (nat (int ws)) d" "s_live s1 = s_live s"
      using True m by (simp_all add: same_memory_def)
    ultimately show ?thesis
      using m(3) ws(1) w ok(2) by (simp add: snapshot_writer_ok_def)
  next
    case False
    then have "n = -1" "writer' = writer\<lparr>sn_pos := pos\<rparr>" "fs' = fs(path \<mapsto> f)" "s' = s1"
      using res by auto
    then show ?thesis
      using m w ok(2) by (auto simp: snapshot_writer_ok_def same_memory_def)
  qed
qed

lemma snapshot_writer_commit_law:
  assumes "kvs_snapshot_writer_commit writer tmp final fs s = (r, writer', fs', s')" "tmp \<noteq> final"
  shows "sn_fd writer' = None \<or> writer' = writer" "r = 0 \<or> r = -1"
    "r = 0 \<Longrightarrow> fs tmp \<noteq> None \<and> fs' = fs(final \<mapsto> file_data fs tmp, tmp := None) \<and> sn_remaining writer = 0"
    "r = -1 \<Longrightarrow> fs' = fs"
  using assms
  by (auto simp: kvs_snapshot_writer_commit_def file_data_def split: if_splits prod.splits bool.splits option.splits)

section \<open>Copying a snapshot\<close>

text \<open>
  The bytes the primary reads in blocks, each handed to the replica's writer: the temporary
  file grows by exactly what has been read.
\<close>

fun transfer :: "nat \<Rightarrow> int \<Rightarrow> kvs_snapshot_reader_t \<Rightarrow> files \<Rightarrow> sys \<Rightarrow> kvs_snapshot_writer_t \<Rightarrow> files \<Rightarrow> sys \<Rightarrow>
    (bool \<times> kvs_snapshot_reader_t \<times> kvs_snapshot_writer_t \<times> files) run" where
  "transfer 0 cap reader pfs ps writer rfs rs = Inr (False, reader, writer, rfs)"
| "transfer (Suc blocks) cap reader pfs ps writer rfs rs =
     bindr (kvs_snapshot_reader_read reader cap pfs ps) (\<lambda>(n, out, reader, ps).
       if n = 0 then Inr (True, reader, writer, rfs)
       else if n < 0 then Inr (False, reader, writer, rfs)
       else
         bindr (kvs_snapshot_writer_write writer out rfs rs) (\<lambda>(m, writer, rfs, rs).
           if m < 0 then Inr (False, reader, writer, rfs)
           else transfer blocks cap reader pfs ps writer rfs rs))"

lemma transfer_copies:
  "snapshot_reader_ok reader pfs \<Longrightarrow> snapshot_writer_ok writer rfs \<Longrightarrow> sn_fd writer = Some path \<Longrightarrow> 0 < cap \<Longrightarrow>
   sn_remaining writer = int (length (snapshot_pending reader pfs)) \<Longrightarrow>
   transfer blocks cap reader pfs ps writer rfs rs = Inr (True, reader', writer', rfs') \<Longrightarrow>
   file_data rfs' path = file_data rfs path @ snapshot_pending reader pfs \<and> sn_remaining writer' = 0 \<and>
   sn_fd writer' = Some path \<and> snapshot_writer_ok writer' rfs' \<and> (\<forall>p. p \<noteq> path \<longrightarrow> rfs' p = rfs p)"
proof (induction blocks arbitrary: reader ps writer rfs rs)
  case (Suc blocks)
  obtain n out reader1 ps1 where rd: "kvs_snapshot_reader_read reader cap pfs ps = Inr (n, out, reader1, ps1)"
    using Suc.prems(6) by (auto simp: bindr_eq_Inr)
  note law = snapshot_reader_read_law [OF Suc.prems(1,4) rd]
  show ?case
  proof (cases "n \<le> 0")
    case True
    then have "n = 0"
      using Suc.prems(6) rd by (auto split: if_splits)
    then have "snapshot_pending reader pfs = []" "writer' = writer" "rfs' = rfs"
      using law Suc.prems(6) rd by auto
    then show ?thesis using Suc.prems by simp
  next
    case False
    then have r1: "n = int (length out)" "snapshot_reader_ok reader1 pfs"
        "snapshot_pending reader pfs = out @ snapshot_pending reader1 pfs"
      using law by auto
    obtain m writer1 rfs1 rs1 where wr: "kvs_snapshot_writer_write writer out rfs rs = Inr (m, writer1, rfs1, rs1)"
      and rest: "\<not> m < 0" "transfer blocks cap reader1 pfs ps1 writer1 rfs1 rs1 = Inr (True, reader', writer', rfs')"
      using Suc.prems(6) rd False by (auto simp: bindr_eq_Inr split: if_splits)
    have w1: "snapshot_writer_ok writer1 rfs1" "sn_fd writer1 = Some path" "\<forall>p. p \<noteq> path \<longrightarrow> rfs1 p = rfs p"
        "m = min (int (length out)) (sn_remaining writer)" "sn_remaining writer1 = sn_remaining writer - m"
        "file_data rfs1 path = file_data rfs path @ take (nat m) out"
      using snapshot_writer_write_law [OF Suc.prems(2,3) wr] rest(1) by auto
    have "m = int (length out)"
      using w1(4) Suc.prems(5) r1 by simp
    with w1 have "file_data rfs1 path = file_data rfs path @ out"
        "sn_remaining writer1 = int (length (snapshot_pending reader1 pfs))"
      using Suc.prems(5) r1 by auto
    with Suc.IH [OF r1(2) w1(1,2) Suc.prems(4) _ rest(2)] w1(3) r1(3) show ?thesis
      by auto
  qed
qed simp

lemma snapshot_writer_open_law:
  assumes "kvs_snapshot_writer_open writer tmp n fs s = (0, writer', fs', s')"
  shows "snapshot_writer_ok writer' fs' \<and> sn_fd writer' = Some tmp \<and> file_data fs' tmp = [] \<and> sn_remaining writer' = n \<and>
    (\<forall>p. p \<noteq> tmp \<longrightarrow> fs' p = fs p) \<and> 0 < n"
  using assms
  by (auto simp: kvs_snapshot_writer_open_def snapshot_writer_ok_def split: if_splits prod.splits bool.splits)

end
