(* ===== verification/Rdma_Transport.thy ===== *)
theory Rdma_Transport
  imports Kvs_Prelude
begin

text \<open>
  The transport of the full synchronisation, \<open>src/src/network/rdma_transport.c\<close>: a listener,
  connections with one send and one receive buffer each, and the events of the connection
  manager.  The libraries \<open>librdmacm\<close> and \<open>libibverbs\<close> are outside the repository; what
  they answer is a parameter of the model, the record \<open>rdma_lib\<close>.  Of their objects the
  model keeps whether they exist, and for connection identifiers which one it is.
\<close>

section \<open>The libraries\<close>

datatype cm_event_type =
    RDMA_CM_EVENT_ADDR_RESOLVED | RDMA_CM_EVENT_ROUTE_RESOLVED | RDMA_CM_EVENT_CONNECT_REQUEST
  | RDMA_CM_EVENT_ESTABLISHED | RDMA_CM_EVENT_DISCONNECTED | RDMA_CM_EVENT_TIMEWAIT_EXIT | RDMA_CM_EVENT_OTHER

record rdma_cm_event =
  ce_event :: cm_event_type
  ce_id :: "nat option"
  ce_listen_id :: "nat option"
  ce_status :: int

datatype ibv_wc_opcode = IBV_WC_SEND | IBV_WC_RECV | IBV_WC_OTHER

text \<open>A completion: whether it is a success, whether it carries the connection's own work
  request id, its kind, and for a receive the bytes the adapter has put into the buffer.\<close>

record ibv_wc =
  wc_success :: bool
  wc_own :: bool
  wc_opcode :: ibv_wc_opcode
  wc_data :: bytes

text \<open>
  The answers by the number of the call: whether it succeeds, the number returned by
  \<open>poll\<close> and \<open>ibv_poll_cq\<close>, the event taken from a channel, the completion taken from a
  queue, what device an identifier is bound to (\<open>None\<close> for no device, otherwise whether it
  is an iWARP device), the clock in milliseconds.  \<open>rl_sent\<close> collects what was handed to
  \<open>ibv_post_send\<close>.
\<close>

record rdma_lib =
  rl_ok :: "nat \<Rightarrow> bool"
  rl_ready :: "nat \<Rightarrow> int"
  rl_event :: "nat \<Rightarrow> rdma_cm_event"
  rl_wc :: "nat \<Rightarrow> ibv_wc"
  rl_device :: "nat \<Rightarrow> bool option"
  rl_clock :: "nat \<Rightarrow> int"
  rl_id :: "nat \<Rightarrow> nat"
  rl_calls :: nat
  rl_sent :: "bytes list"

definition next_call :: "rdma_lib \<Rightarrow> rdma_lib" where
  "next_call L = L\<lparr>rl_calls := Suc (rl_calls L)\<rparr>"

definition lib_call :: "rdma_lib \<Rightarrow> bool \<times> rdma_lib" where
  "lib_call L = (rl_ok L (rl_calls L), next_call L)"

definition lib_ready :: "rdma_lib \<Rightarrow> int \<times> rdma_lib" where
  "lib_ready L = (rl_ready L (rl_calls L), next_call L)"

section \<open>Connections\<close>

record kvs_rdma_buffers_t =
  bu_recv_mr :: bool
  bu_send_mr :: bool
  bu_rbuffer :: "bytes option"
  bu_sbuffer :: "bytes option"
  bu_capacity :: nat

definition buffers_cleared :: kvs_rdma_buffers_t where
  "buffers_cleared = \<lparr>bu_recv_mr = False, bu_send_mr = False, bu_rbuffer = None, bu_sbuffer = None, bu_capacity = 0\<rparr>"

record kvs_rdma_listener =
  li_event_channel :: bool
  li_listen_id :: "nat option"

text \<open>\<open>rc_qp\<close> is \<open>cm_id->qp\<close>.\<close>

record kvs_rdma_connection =
  rc_cm_id :: "nat option"
  rc_qp :: bool
  rc_owned_cm_channel :: bool
  rc_resolve_timeout_ms :: int
  rc_connect_deadline_ms :: int
  rc_pending_cm_event :: "rdma_cm_event option"
  rc_pd :: bool
  rc_cq :: bool
  rc_buffers :: kvs_rdma_buffers_t
  rc_send_pending :: bool
  rc_recv_pending :: bool

definition connection_cleared :: kvs_rdma_connection where
  "connection_cleared =
     \<lparr>rc_cm_id = None, rc_qp = False, rc_owned_cm_channel = False, rc_resolve_timeout_ms = 0,
      rc_connect_deadline_ms = 0, rc_pending_cm_event = None, rc_pd = False, rc_cq = False,
      rc_buffers = buffers_cleared, rc_send_pending = False, rc_recv_pending = False\<rparr>"

definition UINT32_MAX :: nat where
  "UINT32_MAX = 4294967295"

text \<open>\<open>INT32_MAX / 2\<close>.\<close>

definition QUEUE_DEPTH_MAX :: int where
  "QUEUE_DEPTH_MAX = 1073741823"

definition kvs_rdma_buffers_destroy :: "kvs_rdma_buffers_t \<Rightarrow> rdma_lib \<Rightarrow> int \<times> kvs_rdma_buffers_t \<times> rdma_lib" where
  "kvs_rdma_buffers_destroy b L =
     (let (ok, L) = (if bu_send_mr b then lib_call L else (True, L))
      in if \<not> ok then (-1, b, L)
         else (let b = b\<lparr>bu_send_mr := False\<rparr>;
                   (ok, L) = (if bu_recv_mr b then lib_call L else (True, L))
               in if \<not> ok then (-1, b, L) else (0, buffers_cleared, L)))"

text \<open>The two \<open>calloc\<close>s are both made before either result is looked at.\<close>

definition kvs_rdma_buffers_init ::
    "kvs_rdma_buffers_t \<Rightarrow> bool \<Rightarrow> nat \<Rightarrow> rdma_lib \<Rightarrow> int \<times> kvs_rdma_buffers_t \<times> rdma_lib" where
  "kvs_rdma_buffers_init b pd capacity L =
     (if \<not> pd \<or> capacity = 0 \<or> capacity > UINT32_MAX then (-1, b, L)
      else if bu_rbuffer b \<noteq> None \<or> bu_sbuffer b \<noteq> None \<or> bu_recv_mr b \<or> bu_send_mr b \<or> bu_capacity b \<noteq> 0 then (-1, b, L)
      else
        let fail = (\<lambda>b L. case kvs_rdma_buffers_destroy b L of (r, b, L) \<Rightarrow> (-1, b, L));
            (r_ok, L) = lib_call L;
            (s_ok, L) = lib_call L;
            b = b\<lparr>bu_capacity := capacity,
                  bu_rbuffer := (if r_ok then Some (replicate capacity NUL) else None),
                  bu_sbuffer := (if s_ok then Some (replicate capacity NUL) else None)\<rparr>
        in if \<not> r_ok \<or> \<not> s_ok then fail b L
           else (case lib_call L of
                   (False, L) \<Rightarrow> fail b L
                 | (True, L) \<Rightarrow>
                     let b = b\<lparr>bu_send_mr := True\<rparr> in
                     (case lib_call L of
                        (False, L) \<Rightarrow> fail b L
                      | (True, L) \<Rightarrow> (0, b\<lparr>bu_recv_mr := True\<rparr>, L))))"

definition kvs_rdma_queuepair_init ::
    "kvs_rdma_connection \<Rightarrow> int \<Rightarrow> rdma_lib \<Rightarrow> int \<times> kvs_rdma_connection \<times> rdma_lib" where
  "kvs_rdma_queuepair_init c queue_depth L =
     (case rc_cm_id c of
        None \<Rightarrow> (-1, c, L)
      | Some i \<Rightarrow>
          if rl_device L i = None \<or> queue_depth \<le> 0 \<or> queue_depth > QUEUE_DEPTH_MAX then (-1, c, L)
          else if rc_pd c \<or> rc_cq c \<or> rc_qp c then (-1, c, L)
          else case lib_call L of
            (False, L) \<Rightarrow> (-1, c, L)
          | (True, L) \<Rightarrow>
              let c = c\<lparr>rc_pd := True\<rparr>;
                  (cq, L) = lib_call L;
                  c = c\<lparr>rc_cq := cq\<rparr>;
                  (qp, L) = (if cq then lib_call L else (False, L))
              in if qp then (0, c\<lparr>rc_qp := True\<rparr>, L)
                 else (let (ok, L) = (if rc_cq c then lib_call L else (True, L))
                       in if \<not> ok then (-1, c, L)
                          else (let c = c\<lparr>rc_cq := False\<rparr>
                                in case lib_call L of
                                     (False, L) \<Rightarrow> (-1, c, L)
                                   | (True, L) \<Rightarrow> (-1, c\<lparr>rc_pd := False\<rparr>, L))))"

definition kvs_rdma_post_recv :: "kvs_rdma_connection \<Rightarrow> rdma_lib \<Rightarrow> int \<times> kvs_rdma_connection \<times> rdma_lib" where
  "kvs_rdma_post_recv c L =
     (let b = rc_buffers c
      in if rc_cm_id c = None \<or> \<not> rc_qp c \<or> \<not> bu_recv_mr b \<or> bu_rbuffer b = None \<or> bu_capacity b = 0 \<or> bu_capacity b > UINT32_MAX
         then (-1, c, L)
         else if rc_recv_pending c then (-1, c, L)
         else case lib_call L of
           (False, L) \<Rightarrow> (-1, c, L)
         | (True, L) \<Rightarrow> (0, c\<lparr>rc_recv_pending := True\<rparr>, L))"

definition kvs_rdma_post_send :: "kvs_rdma_connection \<Rightarrow> nat \<Rightarrow> rdma_lib \<Rightarrow> int \<times> kvs_rdma_connection \<times> rdma_lib" where
  "kvs_rdma_post_send c len L =
     (let b = rc_buffers c
      in case bu_sbuffer b of
           None \<Rightarrow> (-1, c, L)
         | Some sbuffer \<Rightarrow>
             if rc_cm_id c = None \<or> \<not> rc_qp c \<or> \<not> bu_send_mr b \<or> len = 0 \<or> len > bu_capacity b \<or> len > UINT32_MAX
             then (-1, c, L)
             else if rc_send_pending c then (-1, c, L)
             else case lib_call L of
               (False, L) \<Rightarrow> (-1, c, L)
             | (True, L) \<Rightarrow> (0, c\<lparr>rc_send_pending := True\<rparr>, L\<lparr>rl_sent := rl_sent L @ [take len sbuffer]\<rparr>))"

text \<open>A completion that is taken: 1 with the completion, 0 for none, -1.\<close>

definition kvs_rdma_poll_completion ::
    "kvs_rdma_connection \<Rightarrow> rdma_lib \<Rightarrow> int \<times> ibv_wc \<times> kvs_rdma_connection \<times> rdma_lib" where
  "kvs_rdma_poll_completion c L =
     (let wc = rl_wc L (rl_calls L)
      in if \<not> rc_cq c then (-1, wc, c, L)
         else case lib_ready L of
           (n, L) \<Rightarrow>
             if n < 0 then (-1, wc, c, L)
             else if n = 0 then (0, wc, c, L)
             else if \<not> wc_success wc then (-1, wc, c, L)
             else if \<not> wc_own wc then (-1, wc, c, L)
             else (case wc_opcode wc of
                     IBV_WC_SEND \<Rightarrow>
                       if \<not> rc_send_pending c then (-1, wc, c, L) else (1, wc, c\<lparr>rc_send_pending := False\<rparr>, L)
                   | IBV_WC_RECV \<Rightarrow>
                       if \<not> rc_recv_pending c \<or> length (wc_data wc) > bu_capacity (rc_buffers c) then (-1, wc, c, L)
                       else (1, wc, c\<lparr>rc_recv_pending := False\<rparr>, L)
                   | IBV_WC_OTHER \<Rightarrow> (-1, wc, c, L)))"

definition kvs_rdma_resources_destroy :: "kvs_rdma_connection \<Rightarrow> rdma_lib \<Rightarrow> int \<times> kvs_rdma_connection \<times> rdma_lib" where
  "kvs_rdma_resources_destroy c L =
     (let (ok, L) = (if rc_cm_id c \<noteq> None \<and> rc_qp c then lib_call L else (True, L))
      in if \<not> ok then (-1, c, L)
         else
           let c = c\<lparr>rc_qp := (if rc_cm_id c \<noteq> None then False else rc_qp c), rc_send_pending := False, rc_recv_pending := False\<rparr>
           in case kvs_rdma_buffers_destroy (rc_buffers c) L of
                (r, b, L) \<Rightarrow>
                  let c = c\<lparr>rc_buffers := b\<rparr> in
                  if r < 0 then (-1, c, L)
                  else
                    let (ok, L) = (if rc_cq c then lib_call L else (True, L))
                    in if \<not> ok then (-1, c, L)
                       else
                         let c = c\<lparr>rc_cq := False\<rparr>;
                             (ok, L) = (if rc_pd c then lib_call L else (True, L))
                         in if \<not> ok then (-1, c, L) else (0, c\<lparr>rc_pd := False\<rparr>, L))"

section \<open>The listener\<close>

definition kvs_rdma_listener_init :: "kvs_rdma_listener \<Rightarrow> rdma_lib \<Rightarrow> int \<times> kvs_rdma_listener \<times> rdma_lib" where
  "kvs_rdma_listener_init l L =
     (if li_event_channel l \<or> li_listen_id l \<noteq> None then (-1, l, L)
      else case lib_call L of
        (False, L) \<Rightarrow> (-1, l, L)
      | (True, L) \<Rightarrow>
          (case lib_call L of
             (False, L) \<Rightarrow> (-1, l, L)
           | (True, L) \<Rightarrow>
               (case lib_call L of
                  (False, L) \<Rightarrow> (-1, l, L)
                | (True, L') \<Rightarrow>
                    (0, \<lparr>li_event_channel = True, li_listen_id = Some (rl_id L (rl_calls L))\<rparr>, L'))))"

text \<open>\<open>inet_pton\<close> is given by its result on the address.\<close>

definition kvs_rdma_listener_bind ::
    "(bytes \<Rightarrow> bool) \<Rightarrow> kvs_rdma_listener \<Rightarrow> bytes \<Rightarrow> nat \<Rightarrow> rdma_lib \<Rightarrow> int \<times> rdma_lib" where
  "kvs_rdma_listener_bind inet_pton l bind_ip port L =
     (case li_listen_id l of
        None \<Rightarrow> (-1, L)
      | Some i \<Rightarrow>
          if \<not> li_event_channel l \<or> port = 0 then (-1, L)
          else if \<not> inet_pton bind_ip then (-1, L)
          else case lib_call L of
            (False, L) \<Rightarrow> (-1, L)
          | (True, L) \<Rightarrow> (if rl_device L i = Some True then 0 else -1, L))"

definition kvs_rdma_listener_listen :: "kvs_rdma_listener \<Rightarrow> int \<Rightarrow> rdma_lib \<Rightarrow> int \<times> rdma_lib" where
  "kvs_rdma_listener_listen l backlog L =
     (if \<not> li_event_channel l \<or> li_listen_id l = None \<or> backlog \<le> 0 then (-1, L)
      else case lib_call L of (ok, L) \<Rightarrow> (if ok then 0 else -1, L))"

definition kvs_rdma_listener_destroy :: "kvs_rdma_listener \<Rightarrow> rdma_lib \<Rightarrow> int \<times> kvs_rdma_listener \<times> rdma_lib" where
  "kvs_rdma_listener_destroy l L =
     (let (ok, L) = (if li_listen_id l \<noteq> None then lib_call L else (True, L))
      in if \<not> ok then (-1, l, L) else (0, \<lparr>li_event_channel = False, li_listen_id = None\<rparr>, L))"

text \<open>
  Taking one event from a channel without blocking.  \<open>poll\<close> answers with an error (an
  interrupt counts as nothing to do), nothing, or ready; \<open>rdma_get_cm_event\<close> may still find
  nothing.
\<close>

definition kvs_rdma_poll_cm_event :: "rdma_lib \<Rightarrow> int \<times> rdma_cm_event option \<times> rdma_lib" where
  "kvs_rdma_poll_cm_event L =
     (case lib_ready L of
        (n, L) \<Rightarrow>
          if n = -4 then (0, None, L)
          else if n < 0 then (-1, None, L)
          else if n = 0 then (0, None, L)
          else if n \<noteq> 1 then (-1, None, L)
          else (case (lib_call L, lib_ready L) of
                  ((True, L'), _) \<Rightarrow> (1, Some (rl_event L (rl_calls L)), L')
                | ((False, L'), (again, _)) \<Rightarrow> (if again = 0 then 0 else -1, None, L')))"

definition kvs_rdma_listener_create :: "rdma_lib \<Rightarrow> kvs_rdma_listener option \<times> rdma_lib" where
  "kvs_rdma_listener_create L =
     (case lib_call L of
        (ok, L) \<Rightarrow> (if ok then Some \<lparr>li_event_channel = False, li_listen_id = None\<rparr> else None, L))"

definition kvs_rdma_listener_start ::
    "(bytes \<Rightarrow> bool) \<Rightarrow> kvs_rdma_listener \<Rightarrow> bytes \<Rightarrow> nat \<Rightarrow> int \<Rightarrow> rdma_lib \<Rightarrow> int \<times> kvs_rdma_listener \<times> rdma_lib" where
  "kvs_rdma_listener_start inet_pton l bind_ip port backlog L =
     (if port = 0 \<or> backlog \<le> 0 then (-1, l, L)
      else case kvs_rdma_listener_init l L of
        (r, l, L) \<Rightarrow>
          if r < 0 then (-1, l, L)
          else (case kvs_rdma_listener_bind inet_pton l bind_ip port L of
                  (r, L) \<Rightarrow>
                    if r < 0 then (-1, l, L)
                    else (case kvs_rdma_listener_listen l backlog L of (r, L) \<Rightarrow> (r, l, L))))"

definition kvs_rdma_listener_close :: "kvs_rdma_listener option \<Rightarrow> rdma_lib \<Rightarrow> int \<times> kvs_rdma_listener option \<times> rdma_lib" where
  "kvs_rdma_listener_close l L =
     (case l of
        None \<Rightarrow> (0, None, L)
      | Some li \<Rightarrow>
          (case kvs_rdma_listener_destroy li L of
             (r, li, L) \<Rightarrow> if r < 0 then (-1, Some li, L) else (0, None, L)))"

section \<open>Making and closing connections\<close>

definition kvs_rdma_connection_prepare ::
    "kvs_rdma_connection \<Rightarrow> nat \<Rightarrow> int \<Rightarrow> rdma_lib \<Rightarrow> int \<times> kvs_rdma_connection \<times> rdma_lib" where
  "kvs_rdma_connection_prepare c capacity queue_depth L =
     (case kvs_rdma_queuepair_init c queue_depth L of
        (r, c, L) \<Rightarrow>
          if r < 0 then (-1, c, L)
          else (case kvs_rdma_buffers_init (rc_buffers c) (rc_pd c) capacity L of
                  (r, b, L) \<Rightarrow>
                    let c = c\<lparr>rc_buffers := b\<rparr> in
                    if r < 0 then (-1, c, L) else kvs_rdma_post_recv c L))"

definition kvs_rdma_connection_disconnect :: "kvs_rdma_connection \<Rightarrow> rdma_lib \<Rightarrow> int \<times> rdma_lib" where
  "kvs_rdma_connection_disconnect c L =
     (if rc_cm_id c = None \<or> \<not> rc_qp c then (-1, L)
      else case lib_call L of (ok, L) \<Rightarrow> (if ok then 0 else -1, L))"

definition kvs_rdma_connection_close ::
    "kvs_rdma_connection option \<Rightarrow> rdma_lib \<Rightarrow> int \<times> kvs_rdma_connection option \<times> rdma_lib" where
  "kvs_rdma_connection_close conn L =
     (case conn of
        None \<Rightarrow> (0, None, L)
      | Some c \<Rightarrow>
          let (ok, L) = (if rc_pending_cm_event c \<noteq> None then lib_call L else (True, L))
          in if \<not> ok then (-1, Some c, L)
             else
               let c = c\<lparr>rc_pending_cm_event := None\<rparr> in
               (case kvs_rdma_resources_destroy c L of
                  (r, c, L) \<Rightarrow>
                    if r < 0 then (-1, Some c, L)
                    else
                      let (ok, L) = (if rc_cm_id c \<noteq> None then lib_call L else (True, L))
                      in if \<not> ok then (-1, Some c, L) else (0, None, L)))"

definition kvs_rdma_connection_accept :: "kvs_rdma_connection \<Rightarrow> rdma_lib \<Rightarrow> int \<times> rdma_lib" where
  "kvs_rdma_connection_accept c L =
     (if rc_cm_id c = None \<or> \<not> rc_qp c \<or> \<not> rc_recv_pending c then (-1, L)
      else case lib_call L of (ok, L) \<Rightarrow> (if ok then 0 else -1, L))"

definition kvs_rdma_handle_connect_request ::
    "kvs_rdma_listener \<Rightarrow> rdma_cm_event \<Rightarrow> kvs_rdma_connection \<Rightarrow> nat \<Rightarrow> int \<Rightarrow> rdma_lib \<Rightarrow>
     int \<times> kvs_rdma_connection \<times> rdma_lib" where
  "kvs_rdma_handle_connect_request l ev c capacity queue_depth L =
     (if li_listen_id l = None then (-1, c, L)
      else if ce_event ev \<noteq> RDMA_CM_EVENT_CONNECT_REQUEST \<or> ce_listen_id ev \<noteq> li_listen_id l \<or> ce_id ev = None \<or>
              rc_cm_id c \<noteq> ce_id ev \<or> ce_status ev \<noteq> 0 then (-1, c, L)
      else case kvs_rdma_connection_prepare c capacity queue_depth L of
        (r, c, L) \<Rightarrow>
          if r < 0 then (-1, c, L)
          else (case kvs_rdma_connection_accept c L of (r, L) \<Rightarrow> (r, c, L)))"

datatype kvs_rdma_event_type_t = KVS_RDMA_EVENT_ACCEPTING | KVS_RDMA_EVENT_ESTABLISHED | KVS_RDMA_EVENT_DISCONNECTED

text \<open>
  The event reported upwards comes as the second component; it is only meaningful when the
  result is 1.
\<close>

definition kvs_rdma_handle_connection_event ::
    "kvs_rdma_connection \<Rightarrow> rdma_cm_event \<Rightarrow> nat \<Rightarrow> int \<Rightarrow> rdma_lib \<Rightarrow>
     int \<times> kvs_rdma_event_type_t \<times> kvs_rdma_connection \<times> rdma_lib" where
  "kvs_rdma_handle_connection_event c ev capacity queue_depth L =
     (case rc_cm_id c of
        None \<Rightarrow> (-1, KVS_RDMA_EVENT_ACCEPTING, c, L)
      | Some i \<Rightarrow>
          if ce_id ev \<noteq> rc_cm_id c \<or> ce_status ev \<noteq> 0 then (-1, KVS_RDMA_EVENT_ACCEPTING, c, L)
          else (case ce_event ev of
                  RDMA_CM_EVENT_ADDR_RESOLVED \<Rightarrow>
                    if \<not> rc_owned_cm_channel c \<or> rc_resolve_timeout_ms c \<le> 0 \<or> rl_device L i \<noteq> Some True
                    then (-1, KVS_RDMA_EVENT_ACCEPTING, c, L)
                    else (case lib_call L of (ok, L) \<Rightarrow> (if ok then 0 else -1, KVS_RDMA_EVENT_ACCEPTING, c, L))
                | RDMA_CM_EVENT_ROUTE_RESOLVED \<Rightarrow>
                    if \<not> rc_owned_cm_channel c then (-1, KVS_RDMA_EVENT_ACCEPTING, c, L)
                    else (case kvs_rdma_connection_prepare c capacity queue_depth L of
                            (r, c, L) \<Rightarrow>
                              if r < 0 then (-1, KVS_RDMA_EVENT_ACCEPTING, c, L)
                              else (case lib_call L of (ok, L) \<Rightarrow> (if ok then 0 else -1, KVS_RDMA_EVENT_ACCEPTING, c, L)))
                | RDMA_CM_EVENT_ESTABLISHED \<Rightarrow>
                    (1, KVS_RDMA_EVENT_ESTABLISHED, c\<lparr>rc_connect_deadline_ms := 0\<rparr>, L)
                | RDMA_CM_EVENT_DISCONNECTED \<Rightarrow> (1, KVS_RDMA_EVENT_DISCONNECTED, c, L)
                | RDMA_CM_EVENT_TIMEWAIT_EXIT \<Rightarrow> (0, KVS_RDMA_EVENT_ACCEPTING, c, L)
                | _ \<Rightarrow> (-1, KVS_RDMA_EVENT_ACCEPTING, c, L)))"

definition kvs_rdma_dispatch_cm_event ::
    "kvs_rdma_listener \<Rightarrow> rdma_cm_event \<Rightarrow> kvs_rdma_connection \<Rightarrow> nat \<Rightarrow> int \<Rightarrow> rdma_lib \<Rightarrow>
     int \<times> kvs_rdma_event_type_t \<times> kvs_rdma_connection \<times> rdma_lib" where
  "kvs_rdma_dispatch_cm_event l ev c capacity queue_depth L =
     (if ce_event ev = RDMA_CM_EVENT_CONNECT_REQUEST
      then (case kvs_rdma_handle_connect_request l ev c capacity queue_depth L of
              (r, c, L) \<Rightarrow> (if r < 0 then -1 else 1, KVS_RDMA_EVENT_ACCEPTING, c, L))
      else kvs_rdma_handle_connection_event c ev capacity queue_depth L)"

text \<open>\<open>rdma_ack_cm_event\<close> on the event an object holds; it keeps the event when that fails.\<close>

definition kvs_rdma_ack_cm_event :: "kvs_rdma_connection \<Rightarrow> rdma_lib \<Rightarrow> int \<times> kvs_rdma_connection \<times> rdma_lib" where
  "kvs_rdma_ack_cm_event c L =
     (if rc_pending_cm_event c = None then (-1, c, L)
      else case lib_call L of
        (False, L) \<Rightarrow> (-1, c, L)
      | (True, L) \<Rightarrow> (0, c\<lparr>rc_pending_cm_event := None\<rparr>, L))"

section \<open>Sending and receiving\<close>

definition kvs_rdma_connection_send ::
    "kvs_rdma_connection \<Rightarrow> bytes \<Rightarrow> rdma_lib \<Rightarrow> int \<times> kvs_rdma_connection \<times> rdma_lib" where
  "kvs_rdma_connection_send c d L =
     (let b = rc_buffers c
      in case bu_sbuffer b of
           None \<Rightarrow> (-1, c, L)
         | Some sbuffer \<Rightarrow>
             if d = [] \<or> length d > bu_capacity b \<or> length d > UINT32_MAX then (-1, c, L)
             else if rc_send_pending c then (-1, c, L)
             else kvs_rdma_post_send
                    (c\<lparr>rc_buffers := b\<lparr>bu_sbuffer := Some (d @ drop (length d) sbuffer)\<rparr>\<rparr>) (length d) L)"

datatype kvs_rdma_completion_t = KVS_RDMA_COMPLETION_SEND | KVS_RDMA_COMPLETION_RECV bytes

definition kvs_rdma_connection_poll_completion ::
    "kvs_rdma_connection \<Rightarrow> rdma_lib \<Rightarrow> int \<times> kvs_rdma_completion_t \<times> kvs_rdma_connection \<times> rdma_lib" where
  "kvs_rdma_connection_poll_completion c L =
     (case kvs_rdma_poll_completion c L of
        (r, wc, c, L) \<Rightarrow>
          if r \<le> 0 then (r, KVS_RDMA_COMPLETION_SEND, c, L)
          else if wc_opcode wc = IBV_WC_SEND then (1, KVS_RDMA_COMPLETION_SEND, c, L)
          else (1, KVS_RDMA_COMPLETION_RECV (wc_data wc), c, L))"

definition kvs_rdma_connection_receive_next :: "kvs_rdma_connection \<Rightarrow> rdma_lib \<Rightarrow> int \<times> kvs_rdma_connection \<times> rdma_lib" where
  "kvs_rdma_connection_receive_next = kvs_rdma_post_recv"

section \<open>Events\<close>

text \<open>
  One event of the listener.  The connection slot of the caller afterwards, the event
  reported, and \<open>event->connection\<close> where that is an object of its own the caller has to
  clean up.
\<close>

definition kvs_rdma_listener_poll ::
    "kvs_rdma_listener option \<Rightarrow> kvs_rdma_connection option \<Rightarrow> nat \<Rightarrow> int \<Rightarrow> rdma_lib \<Rightarrow>
     int \<times> kvs_rdma_connection option \<times> kvs_rdma_event_type_t \<times> kvs_rdma_connection option \<times> rdma_lib" where
  "kvs_rdma_listener_poll listener conn capacity queue_depth L =
     (case listener of
        None \<Rightarrow> (-1, conn, KVS_RDMA_EVENT_ACCEPTING, None, L)
      | Some l \<Rightarrow>
          if li_listen_id l = None \<or> \<not> li_event_channel l \<or> capacity = 0 \<or> capacity > UINT32_MAX \<or>
             queue_depth \<le> 0 \<or> queue_depth > QUEUE_DEPTH_MAX
          then (-1, conn, KVS_RDMA_EVENT_ACCEPTING, None, L)
          else if (\<exists>c\<in>set_option conn. rc_pending_cm_event c \<noteq> None) then (-1, conn, KVS_RDMA_EVENT_ACCEPTING, None, L)
          else case lib_call L of
            (False, L) \<Rightarrow> (-1, conn, KVS_RDMA_EVENT_ACCEPTING, None, L)
          | (True, L) \<Rightarrow>
              (case kvs_rdma_poll_cm_event L of
                 (r, None, L) \<Rightarrow> (r, conn, KVS_RDMA_EVENT_ACCEPTING, None, L)
               | (r, Some ev, L) \<Rightarrow>
                   let owner = connection_cleared\<lparr>rc_pending_cm_event := Some ev\<rparr> in
                   if ce_event ev = RDMA_CM_EVENT_CONNECT_REQUEST \<and> ce_id ev \<noteq> None \<and> ce_id ev \<noteq> li_listen_id l then
                     let owner = owner\<lparr>rc_cm_id := ce_id ev\<rparr> in
                     (case conn of
                        None \<Rightarrow>
                          (case kvs_rdma_dispatch_cm_event l ev owner capacity queue_depth L of
                             (r, t, c, L) \<Rightarrow>
                               let L = (if r < 0 then snd (lib_call L) else L) in
                               (case kvs_rdma_ack_cm_event c L of
                                  (a, c, L) \<Rightarrow> (if a < 0 then -1 else r, Some c, t, None, L)))
                      | Some c \<Rightarrow>
                          (case lib_call L of
                             (ok, L) \<Rightarrow>
                               (case kvs_rdma_ack_cm_event owner L of
                                  (a, owner, L) \<Rightarrow>
                                    if a < 0 then (-1, conn, KVS_RDMA_EVENT_ACCEPTING, Some owner, L)
                                    else (case kvs_rdma_connection_close (Some owner) L of
                                            (cl, rest, L) \<Rightarrow>
                                              if cl < 0 then (-1, conn, KVS_RDMA_EVENT_ACCEPTING, rest, L)
                                              else (if ok then 0 else -1, conn, KVS_RDMA_EVENT_ACCEPTING, None, L)))))
                   else if ce_event ev \<noteq> RDMA_CM_EVENT_CONNECT_REQUEST \<and> conn \<noteq> None \<and> ce_id ev = rc_cm_id (the conn) then
                     (case kvs_rdma_dispatch_cm_event l ev ((the conn)\<lparr>rc_pending_cm_event := Some ev\<rparr>) capacity queue_depth L of
                        (r, t, c, L) \<Rightarrow>
                          (case kvs_rdma_ack_cm_event c L of
                             (a, c, L) \<Rightarrow> (if a < 0 then -1 else r, Some c, t, None, L)))
                   else
                     (case kvs_rdma_ack_cm_event owner L of
                        (a, owner, L) \<Rightarrow>
                          if a < 0 then (-1, conn, KVS_RDMA_EVENT_ACCEPTING, Some owner, L)
                          else (case kvs_rdma_connection_close (Some owner) L of
                                  (cl, rest, L) \<Rightarrow>
                                    (-1, conn, KVS_RDMA_EVENT_ACCEPTING, if cl < 0 then rest else None, L)))))"

text \<open>
  Starting a connection.  \<open>resolvable\<close> stands for \<open>inet_pton\<close> finding an address other
  than 0.0.0.0.
\<close>

definition kvs_rdma_connection_start ::
    "(bytes \<Rightarrow> bool) \<Rightarrow> kvs_rdma_connection option \<Rightarrow> bytes \<Rightarrow> nat \<Rightarrow> int \<Rightarrow> rdma_lib \<Rightarrow>
     int \<times> kvs_rdma_connection option \<times> rdma_lib" where
  "kvs_rdma_connection_start resolvable conn host port timeout_ms L =
     (if port = 0 \<or> timeout_ms \<le> 0 then (-1, conn, L)
      else if conn \<noteq> None then (-1, conn, L)
      else if \<not> resolvable host then (-1, conn, L)
      else case lib_call L of
        (False, L) \<Rightarrow> (-1, None, L)
      | (True, L) \<Rightarrow>
          let now = rl_clock L (rl_calls L) in
          (case lib_call L of
             (False, L) \<Rightarrow> (-1, None, L)
           | (True, L) \<Rightarrow>
               let c = connection_cleared\<lparr>rc_resolve_timeout_ms := timeout_ms, rc_connect_deadline_ms := now + timeout_ms\<rparr> in
               (case lib_call L of
                  (False, L) \<Rightarrow> (-1, Some c, L)
                | (True, L) \<Rightarrow>
                    let c = c\<lparr>rc_owned_cm_channel := True\<rparr> in
                    (case lib_call L of
                       (False, L) \<Rightarrow> (-1, Some c, L)
                     | (True, L) \<Rightarrow>
                         (case lib_call L of
                            (False, L') \<Rightarrow> (-1, Some c, L')
                          | (True, L') \<Rightarrow>
                              let c = c\<lparr>rc_cm_id := Some (rl_id L (rl_calls L))\<rparr> in
                              (case lib_call L' of (ok, L) \<Rightarrow> (if ok then 0 else -1, Some c, L)))))))"

definition kvs_rdma_connection_poll_event ::
    "kvs_rdma_connection \<Rightarrow> nat \<Rightarrow> int \<Rightarrow> rdma_lib \<Rightarrow> int \<times> kvs_rdma_event_type_t \<times> kvs_rdma_connection \<times> rdma_lib" where
  "kvs_rdma_connection_poll_event c capacity queue_depth L =
     (if rc_cm_id c = None \<or> \<not> rc_owned_cm_channel c \<or> capacity = 0 \<or> capacity > UINT32_MAX \<or>
         queue_depth \<le> 0 \<or> queue_depth > QUEUE_DEPTH_MAX
      then (-1, KVS_RDMA_EVENT_ACCEPTING, c, L)
      else if rc_pending_cm_event c \<noteq> None then (-1, KVS_RDMA_EVENT_ACCEPTING, c, L)
      else
        let (expired, L) =
              (if rc_connect_deadline_ms c \<noteq> 0
               then (let now = rl_clock L (rl_calls L)
                     in case lib_call L of (ok, L) \<Rightarrow> (\<not> ok \<or> now \<ge> rc_connect_deadline_ms c, L))
               else (False, L))
        in if expired then (-1, KVS_RDMA_EVENT_ACCEPTING, c, L)
           else case kvs_rdma_poll_cm_event L of
             (r, None, L) \<Rightarrow> (r, KVS_RDMA_EVENT_ACCEPTING, c, L)
           | (r, Some ev, L) \<Rightarrow>
               (case kvs_rdma_handle_connection_event (c\<lparr>rc_pending_cm_event := Some ev\<rparr>) ev capacity queue_depth L of
                  (r, t, c, L) \<Rightarrow>
                    (case kvs_rdma_ack_cm_event c L of
                       (a, c, L) \<Rightarrow> (if a < 0 then -1 else r, t, c, L))))"

end
