(* ===== verification/Replication_State.thy ===== *)
theory Replication_State
  imports Snapshot_Io Rdma_Transport
begin

text \<open>
  The roles of a server and the data the replication manager keeps, the types of
  \<open>src/include/role.h\<close>, \<open>src/include/replication.h\<close> and of
  \<open>src/src/replication/replication.c\<close>, with the one query the command layer makes.
\<close>

datatype kvs_role_t = ROLE_STANDALONE | ROLE_PRIMARY | ROLE_REPLICA

datatype kvs_replication_state_t =
    REPLICATION_DISCONNECTED | REPLICATION_CONNECTING | REPLICATION_HANDSHAKE
  | REPLICATION_FULL_SYNC | REPLICATION_CATCH_UP | REPLICATION_ONLINE

text \<open>
  One round of full synchronisation: the connection of the transport, or NULL, and how far
  the round has come.
\<close>

record kvs_replication_rdma_sync_t =
  sync_connection :: "kvs_rdma_connection option"
  sync_established :: bool
  sync_snapshot_bytes :: int
  sync_acknowledged_bytes :: int
  sync_send_pending :: bool
  sync_disconnect_pending :: bool

definition rdma_sync_idle :: kvs_replication_rdma_sync_t where
  "rdma_sync_idle = \<lparr>sync_connection = None, sync_established = False, sync_snapshot_bytes = 0,
     sync_acknowledged_bytes = 0, sync_send_pending = False, sync_disconnect_pending = False\<rparr>"

text \<open>
  Descriptors of sockets are numbers, -1 for none; the identifiers and the host are C
  strings, empty when they start with NUL; a handler is there or NULL.
\<close>

record kvs_replication_manager_t =
  rm_role :: kvs_role_t
  rm_listener :: "kvs_rdma_listener option"
  rm_sync :: kvs_replication_rdma_sync_t
  rm_cleanup_connection :: "kvs_rdma_connection option"
  rm_rdma_port :: nat
  rm_primary_rdma_port :: nat
  rm_replication_offset :: int
  rm_snapshot_file_size :: int
  rm_snapshot_reader :: kvs_snapshot_reader_t
  rm_aof_reader :: kvs_aof_reader_t
  rm_snapshot_writer :: kvs_snapshot_writer_t
  rm_snapshot_connection_fd :: int
  rm_replication_id :: bytes
  rm_full_sync_id :: bytes
  rm_primary_host :: bytes
  rm_primary_port :: nat
  rm_primary_connection_fd :: int
  rm_install_handler :: bool
  rm_command_handler :: bool
  rm_state :: kvs_replication_state_t
  rm_initialized :: bool

definition replication_manager :: kvs_replication_manager_t where
  "replication_manager =
     \<lparr>rm_role = ROLE_STANDALONE, rm_listener = None, rm_sync = rdma_sync_idle, rm_cleanup_connection = None,
      rm_rdma_port = 0, rm_primary_rdma_port = 0, rm_replication_offset = 0, rm_snapshot_file_size = -1,
      rm_snapshot_reader = snapshot_reader_idle, rm_aof_reader = reader_closed,
      rm_snapshot_writer = snapshot_writer_idle, rm_snapshot_connection_fd = -1,
      rm_replication_id = [], rm_full_sync_id = [], rm_primary_host = [], rm_primary_port = 0,
      rm_primary_connection_fd = -1, rm_install_handler = False, rm_command_handler = False,
      rm_state = REPLICATION_DISCONNECTED, rm_initialized = False\<rparr>"

definition kvs_replication_is_online :: "kvs_replication_manager_t \<Rightarrow> bool" where
  "kvs_replication_is_online rm \<longleftrightarrow>
     rm_initialized rm \<and> rm_role rm = ROLE_REPLICA \<and> rm_primary_connection_fd rm \<ge> 0 \<and> rm_state rm = REPLICATION_ONLINE"

end
