(* ===== verification/Commands.thy ===== *)
theory Commands
  imports Replication_State Buffer
begin

text \<open>
  The command layer, \<open>src/src/kvstore.c\<close>: the table of commands, turning parsed fields
  into C strings, executing a command on its engine with the write-ahead entry in the
  append-only file, and the replies of the client protocol.
\<close>

section \<open>Commands, roles and the server's state\<close>

abbreviation KVS_CMD_SET :: nat where "KVS_CMD_SET \<equiv> 0"
abbreviation KVS_CMD_GET :: nat where "KVS_CMD_GET \<equiv> 1"
abbreviation KVS_CMD_DEL :: nat where "KVS_CMD_DEL \<equiv> 2"
abbreviation KVS_CMD_MOD :: nat where "KVS_CMD_MOD \<equiv> 3"
abbreviation KVS_CMD_EXIST :: nat where "KVS_CMD_EXIST \<equiv> 4"
abbreviation KVS_CMD_RSET :: nat where "KVS_CMD_RSET \<equiv> 5"
abbreviation KVS_CMD_RGET :: nat where "KVS_CMD_RGET \<equiv> 6"
abbreviation KVS_CMD_RDEL :: nat where "KVS_CMD_RDEL \<equiv> 7"
abbreviation KVS_CMD_RMOD :: nat where "KVS_CMD_RMOD \<equiv> 8"
abbreviation KVS_CMD_REXIST :: nat where "KVS_CMD_REXIST \<equiv> 9"
abbreviation KVS_CMD_HSET :: nat where "KVS_CMD_HSET \<equiv> 10"
abbreviation KVS_CMD_HGET :: nat where "KVS_CMD_HGET \<equiv> 11"
abbreviation KVS_CMD_HDEL :: nat where "KVS_CMD_HDEL \<equiv> 12"
abbreviation KVS_CMD_HMOD :: nat where "KVS_CMD_HMOD \<equiv> 13"
abbreviation KVS_CMD_HEXIST :: nat where "KVS_CMD_HEXIST \<equiv> 14"
abbreviation KVS_CMD_SSET :: nat where "KVS_CMD_SSET \<equiv> 15"
abbreviation KVS_CMD_SGET :: nat where "KVS_CMD_SGET \<equiv> 16"
abbreviation KVS_CMD_SDEL :: nat where "KVS_CMD_SDEL \<equiv> 17"
abbreviation KVS_CMD_SMOD :: nat where "KVS_CMD_SMOD \<equiv> 18"
abbreviation KVS_CMD_SEXIST :: nat where "KVS_CMD_SEXIST \<equiv> 19"

definition command :: "bytes list" where
  "command =
     [''SET'', ''GET'', ''DEL'', ''MOD'', ''EXIST'',
      ''RSET'', ''RGET'', ''RDEL'', ''RMOD'', ''REXIST'',
      ''HSET'', ''HGET'', ''HDEL'', ''HMOD'', ''HEXIST'',
      ''SSET'', ''SGET'', ''SDEL'', ''SMOD'', ''SEXIST'']"

definition KVS_CMD_COUNT :: nat where
  "KVS_CMD_COUNT = 20"

definition KVS_MAX_TOKENS :: nat where
  "KVS_MAX_TOKENS = 128"

definition KVS_MAX_CLIENT_COMMAND_BYTES :: nat where
  "KVS_MAX_CLIENT_COMMAND_BYTES = 1048576"

datatype kvs_exec_status_t = EXEC_FAILED | EXEC_OK | EXEC_ALREADY_EXISTS | EXEC_NOT_FOUND | EXEC_FOUND

datatype kvs_command_source_t = SOURCE_CLIENT | SOURCE_RECOVERY | SOURCE_REPLICATION

datatype kvs_persistence_mode_t = PERSISTENCE_LEGACY_HYBRID | PERSISTENCE_SNAPSHOT | PERSISTENCE_AOF

text \<open>
  The process-wide state a command can reach.  \<open>sv_suffix\<close> is what \<open>mkstemp\<close> would
  make up for the temporary snapshot file.
\<close>

record server =
  sv_role :: kvs_role_t
  sv_mode :: kvs_persistence_mode_t
  sv_engines :: engines
  sv_aof :: aof_writer_t
  sv_files :: files
  sv_replication :: kvs_replication_manager_t
  sv_suffix :: bytes

definition kvs_is_write_command :: "nat \<Rightarrow> bool" where
  "kvs_is_write_command cmd \<longleftrightarrow> cmd < KVS_CMD_COUNT \<and> (cmd mod 5 = 0 \<or> cmd mod 5 = 2 \<or> cmd mod 5 = 3)"

text \<open>The search for a name in the table: its index, or \<open>KVS_CMD_COUNT\<close>.\<close>

fun find_command :: "bytes list \<Rightarrow> bytes \<Rightarrow> nat" where
  "find_command [] name = 0"
| "find_command (c # cs) name = (if strcmp name c = 0 then 0 else Suc (find_command cs name))"

definition command_index :: "bytes \<Rightarrow> nat" where
  "command_index name = find_command command name"

definition kvs_is_get_command :: "bytes \<Rightarrow> bool" where
  "kvs_is_get_command name \<longleftrightarrow>
     strcmp name ''GET'' = 0 \<or> strcmp name ''RGET'' = 0 \<or> strcmp name ''HGET'' = 0 \<or> strcmp name ''SGET'' = 0"

section \<open>Fields as C strings\<close>

fun free_blocks :: "nat \<Rightarrow> sys \<Rightarrow> sys" where
  "free_blocks 0 s = s"
| "free_blocks (Suc n) s = free_blocks n (kvs_free s)"

text \<open>
  Copies of the fields, each with a terminating NUL; the first bad field or refused
  allocation gives back the copies made so far.
\<close>

fun copy_fields :: "kvs_slice_t list \<Rightarrow> nat \<Rightarrow> sys \<Rightarrow> bytes list option \<times> sys" where
  "copy_fields [] made s = (Some [], s)"
| "copy_fields (f # fs) made s =
     (case f of
        None \<Rightarrow> (None, free_blocks made s)
      | Some d \<Rightarrow>
          if length d = SIZE_MAX \<or> NUL \<in> set d then (None, free_blocks made s)
          else case kvs_malloc (length d + 1) s of
            (False, s) \<Rightarrow> (None, free_blocks made s)
          | (True, s) \<Rightarrow>
              (case copy_fields fs (Suc made) s of
                 (None, s) \<Rightarrow> (None, s)
               | (Some ts, s) \<Rightarrow> (Some (d # ts), s)))"

definition kvs_fields_to_tokens :: "kvs_slice_t list \<Rightarrow> nat \<Rightarrow> sys \<Rightarrow> bytes list option \<times> sys" where
  "kvs_fields_to_tokens flds token_capacity s =
     (if flds = [] \<or> length flds > token_capacity then (None, s) else copy_fields flds 0 s)"

section \<open>Executing a command\<close>

definition kvs_get_value :: "nat \<Rightarrow> bytes option \<Rightarrow> engines \<Rightarrow> bytes option run" where
  "kvs_get_value cmd key g =
     (if key = None then Inr None
      else if cmd = KVS_CMD_GET then kvs_array_get (global_array g) key
      else if cmd = KVS_CMD_RGET then kvs_rbtree_get (global_rbtree g) key
      else if cmd = KVS_CMD_HGET then kvs_hash_get (global_hash g) key
      else if cmd = KVS_CMD_SGET then kvs_skiplist_get (global_skiplist g) key
      else Inr None)"

definition set_text :: "int \<Rightarrow> bytes" where
  "set_text ret = (if ret < 0 then ''ERROR'' @ CRLF else if ret = 0 then ''OK'' @ CRLF else ''EXIST'' @ CRLF)"

definition change_text :: "int \<Rightarrow> bytes" where
  "change_text ret = (if ret < 0 then ''ERROR'' @ CRLF else if ret = 0 then ''OK'' @ CRLF else ''NO EXIST'' @ CRLF)"

definition exist_text :: "int \<Rightarrow> bytes" where
  "exist_text ret = (if ret = 0 then ''EXIST'' @ CRLF else ''NO EXIST'' @ CRLF)"

definition get_text :: "bytes option \<Rightarrow> bytes" where
  "get_text result = (case result of None \<Rightarrow> ''NO EXIST'' @ CRLF | Some v \<Rightarrow> v @ CRLF)"

text \<open>
  The cases of the big switch, one function per engine: the return code of the engine, the
  text to be printed into the response, the engines and the surroundings.
\<close>

type_synonym executed = "(int \<times> bytes \<times> engines \<times> sys) run"

definition exec_array :: "nat \<Rightarrow> bytes option \<Rightarrow> bytes option \<Rightarrow> engines \<Rightarrow> sys \<Rightarrow> executed" where
  "exec_array cmd key val g s =
     (if cmd = KVS_CMD_SET then
        bindr (kvs_array_set (global_array g) key val s) (\<lambda>(ret, a, s). Inr (ret, set_text ret, g\<lparr>global_array := a\<rparr>, s))
      else if cmd = KVS_CMD_GET then
        bindr (kvs_get_value cmd key g) (\<lambda>v. Inr (0, get_text v, g, s))
      else if cmd = KVS_CMD_DEL then
        bindr (kvs_array_del (global_array g) key s) (\<lambda>(ret, a, s). Inr (ret, change_text ret, g\<lparr>global_array := a\<rparr>, s))
      else if cmd = KVS_CMD_MOD then
        bindr (kvs_array_mod (global_array g) key val s) (\<lambda>(ret, a, s). Inr (ret, change_text ret, g\<lparr>global_array := a\<rparr>, s))
      else
        bindr (kvs_array_exist (global_array g) key) (\<lambda>ret. Inr (ret, exist_text ret, g, s)))"

definition exec_rbtree :: "nat \<Rightarrow> bytes option \<Rightarrow> bytes option \<Rightarrow> engines \<Rightarrow> sys \<Rightarrow> executed" where
  "exec_rbtree cmd key val g s =
     (if cmd = KVS_CMD_RSET then
        bindr (kvs_rbtree_set (global_rbtree g) key val s) (\<lambda>(ret, t, s). Inr (ret, set_text ret, g\<lparr>global_rbtree := t\<rparr>, s))
      else if cmd = KVS_CMD_RGET then
        bindr (kvs_get_value cmd key g) (\<lambda>v. Inr (0, get_text v, g, s))
      else if cmd = KVS_CMD_RDEL then
        bindr (kvs_rbtree_del (global_rbtree g) key s) (\<lambda>(ret, t, s). Inr (ret, change_text ret, g\<lparr>global_rbtree := t\<rparr>, s))
      else if cmd = KVS_CMD_RMOD then
        bindr (kvs_rbtree_mod (global_rbtree g) key val s) (\<lambda>(ret, t, s). Inr (ret, change_text ret, g\<lparr>global_rbtree := t\<rparr>, s))
      else
        bindr (kvs_rbtree_exist (global_rbtree g) key) (\<lambda>ret. Inr (ret, exist_text ret, g, s)))"

definition exec_hash :: "nat \<Rightarrow> bytes option \<Rightarrow> bytes option \<Rightarrow> engines \<Rightarrow> sys \<Rightarrow> executed" where
  "exec_hash cmd key val g s =
     (if cmd = KVS_CMD_HSET then
        bindr (kvs_hash_set (global_hash g) key val s) (\<lambda>(ret, h, s). Inr (ret, set_text ret, g\<lparr>global_hash := h\<rparr>, s))
      else if cmd = KVS_CMD_HGET then
        bindr (kvs_get_value cmd key g) (\<lambda>v. Inr (0, get_text v, g, s))
      else if cmd = KVS_CMD_HDEL then
        bindr (kvs_hash_del (global_hash g) key s) (\<lambda>(ret, h, s). Inr (ret, change_text ret, g\<lparr>global_hash := h\<rparr>, s))
      else if cmd = KVS_CMD_HMOD then
        bindr (kvs_hash_mod (global_hash g) key val s) (\<lambda>(ret, h, s). Inr (ret, change_text ret, g\<lparr>global_hash := h\<rparr>, s))
      else
        bindr (kvs_hash_exist (global_hash g) key) (\<lambda>ret. Inr (ret, exist_text ret, g, s)))"

definition exec_skiplist :: "nat \<Rightarrow> bytes option \<Rightarrow> bytes option \<Rightarrow> engines \<Rightarrow> sys \<Rightarrow> executed" where
  "exec_skiplist cmd key val g s =
     (if cmd = KVS_CMD_SSET then
        bindr (kvs_skiplist_set (global_skiplist g) key val s) (\<lambda>(ret, k, s). Inr (ret, set_text ret, g\<lparr>global_skiplist := k\<rparr>, s))
      else if cmd = KVS_CMD_SGET then
        bindr (kvs_get_value cmd key g) (\<lambda>v. Inr (0, get_text v, g, s))
      else if cmd = KVS_CMD_SDEL then
        bindr (kvs_skiplist_del (global_skiplist g) key s) (\<lambda>(ret, k, s). Inr (ret, change_text ret, g\<lparr>global_skiplist := k\<rparr>, s))
      else if cmd = KVS_CMD_SMOD then
        bindr (kvs_skiplist_mod (global_skiplist g) key val s) (\<lambda>(ret, k, s). Inr (ret, change_text ret, g\<lparr>global_skiplist := k\<rparr>, s))
      else
        bindr (kvs_skiplist_exist (global_skiplist g) key) (\<lambda>ret. Inr (ret, exist_text ret, g, s)))"

definition exec_engine :: "nat \<Rightarrow> bytes option \<Rightarrow> bytes option \<Rightarrow> engines \<Rightarrow> sys \<Rightarrow> executed" where
  "exec_engine cmd key val g s =
     (if cmd \<le> KVS_CMD_EXIST then exec_array cmd key val g s
      else if cmd \<le> KVS_CMD_REXIST then exec_rbtree cmd key val g s
      else if cmd \<le> KVS_CMD_HEXIST then exec_hash cmd key val g s
      else exec_skiplist cmd key val g s)"

text \<open>The business result; a \<open>GET\<close> leaves the status as it was.\<close>

definition exec_status :: "nat \<Rightarrow> int \<Rightarrow> kvs_exec_status_t \<Rightarrow> kvs_exec_status_t" where
  "exec_status cmd ret status =
     (if ret < 0 then EXEC_FAILED
      else if cmd mod 5 = 0 then (if ret = 0 then EXEC_OK else EXEC_ALREADY_EXISTS)
      else if cmd mod 5 = 2 \<or> cmd mod 5 = 3 then (if ret = 0 then EXEC_OK else EXEC_NOT_FOUND)
      else if cmd mod 5 = 4 then (if ret = 0 then EXEC_FOUND else EXEC_NOT_FOUND)
      else status)"

text \<open>The entry in the append-only file; the process ends when it cannot be made.\<close>

definition log_command ::
    "nat \<Rightarrow> int \<Rightarrow> bytes list \<Rightarrow> kvs_command_source_t \<Rightarrow> server \<Rightarrow> sys \<Rightarrow> (server \<times> sys) run" where
  "log_command cmd ret tokens source sv s =
     (if ret = 0 \<and> kvs_is_write_command cmd \<and> source \<noteq> SOURCE_RECOVERY \<and> sv_mode sv \<noteq> PERSISTENCE_SNAPSHOT then
        bindr (kvs_aof_append (map Some tokens) (sv_aof sv) (sv_files sv) s) (\<lambda>(r, w, fs, s).
          if r < 0 then Inl (Exit_process 1) else Inr (sv\<lparr>sv_aof := w, sv_files := fs\<rparr>, s))
      else Inr (sv, s))"

definition token :: "bytes list \<Rightarrow> nat \<Rightarrow> bytes option" where
  "token tokens i = (if i < length tokens then Some (tokens ! i) else None)"

text \<open>
  \<open>region\<close> is the part of the response buffer the reply may use.  The tokens are never
  NULL: they come from \<open>kvs_fields_to_tokens\<close>, and the pointers behind the last are NULL.
\<close>

definition kvs_filter_protocol ::
    "bytes list \<Rightarrow> bytes \<Rightarrow> kvs_command_source_t \<Rightarrow> kvs_exec_status_t \<Rightarrow> server \<Rightarrow> sys \<Rightarrow>
     (int \<times> bytes \<times> kvs_exec_status_t \<times> server \<times> sys) run" where
  "kvs_filter_protocol tokens region source status sv s =
     (if tokens = [] \<or> region = [] then Inr (-1, region, EXEC_FAILED, sv, s)
      else
        let cmd = command_index (hd tokens) in
        if cmd = KVS_CMD_COUNT then
          (case c_snprintf region (''ERROR unknown command'' @ CRLF) of
             (n, region) \<Rightarrow> Inr (n, region, status, sv, s))
        else if sv_role sv = ROLE_REPLICA \<and> source = SOURCE_CLIENT \<and> kvs_is_write_command cmd then
          (case c_snprintf region (''READONLY replica does not accept client writes'' @ CRLF) of
             (n, region) \<Rightarrow> Inr (n, region, status, sv, s))
        else
          bindr (exec_engine cmd (token tokens 1) (token tokens 2) (sv_engines sv) s) (\<lambda>(ret, str, g, s).
          case c_snprintf region str of
            (n, region) \<Rightarrow>
              bindr (log_command cmd ret tokens source (sv\<lparr>sv_engines := g\<rparr>) s) (\<lambda>(sv, s).
              Inr (n, region, exec_status cmd ret status, sv, s))))"

definition kvs_execute_tokens ::
    "bytes list \<Rightarrow> bytes \<Rightarrow> kvs_command_source_t \<Rightarrow> kvs_exec_status_t \<Rightarrow> server \<Rightarrow> sys \<Rightarrow>
     (int \<times> bytes \<times> kvs_exec_status_t \<times> server \<times> sys) run" where
  "kvs_execute_tokens tokens region source status sv s =
     (if tokens = [] \<or> region = [] then Inr (-1, region, status, sv, s)
      else
        bindr (kvs_filter_protocol tokens region source status sv s) (\<lambda>(n, region, status, sv, s).
          Inr (if n < 0 \<or> n \<ge> int (length region) then -1 else n, region, status, sv, s)))"


section \<open>Replies\<close>

text \<open>
  The part of the response buffer behind what is already queued, and the buffer with that
  part replaced.
\<close>

definition reply_region :: "kvs_output_buffer_t \<Rightarrow> bytes" where
  "reply_region buf = (case out_data buf of None \<Rightarrow> [] | Some d \<Rightarrow> drop (nat (out_length buf)) d)"

definition with_region :: "kvs_output_buffer_t \<Rightarrow> bytes \<Rightarrow> kvs_output_buffer_t" where
  "with_region buf region =
     (case out_data buf of None \<Rightarrow> buf | Some d \<Rightarrow> buf\<lparr>out_data := Some (take (nat (out_length buf)) d @ region)\<rparr>)"

text \<open>A fixed reply, written where the queued output ends if it fits.\<close>

definition put_reply :: "bytes \<Rightarrow> kvs_output_buffer_t \<Rightarrow> (int \<times> kvs_output_buffer_t) run" where
  "put_reply reply buf =
     (if int (length reply) > out_capacity buf - out_length buf then Inr (-1, buf)
      else bindr (store_at (reply_region buf) 0 reply) (\<lambda>region. Inr (int (length reply), with_region buf region)))"

definition kvs_encode_value_to_output ::
    "kvs_output_buffer_t \<Rightarrow> bytes \<Rightarrow> sys \<Rightarrow> (int \<times> kvs_output_buffer_t \<times> sys) run" where
  "kvs_encode_value_to_output buf val s =
     (if out_length buf < 0 \<or> out_length buf > out_capacity buf then Inr (-1, buf, s)
      else case kvs_encoded_value_response_size (Some (Some val)) of
        None \<Rightarrow> Inr (-1, buf, s)
      | Some required \<Rightarrow>
          if int required > INT_MAX - out_length buf then Inr (-1, buf, s)
          else
            bindr (kvs_output_buffer_ensure_space buf (int required) s) (\<lambda>(r, buf, s).
            if r < 0 then Inr (-1, buf, s)
            else
              bindr (kvs_encode_value_response (Some (Some val)) (Some (reply_region buf))) (\<lambda>(r, region, n).
              if r \<noteq> 0 \<or> int n > INT_MAX then Inr (-1, buf, s)
              else Inr (int n, with_region buf (the region), s))))"

definition ping_reply :: "nat \<Rightarrow> bytes" where
  "ping_reply count = (if count = 1 then ''+PONG'' @ CRLF else ''-ERR wrong number of arguments for PING'' @ CRLF)"

definition kvs_save_current_snapshot :: "server \<Rightarrow> sys \<Rightarrow> (int \<times> server \<times> sys) run" where
  "kvs_save_current_snapshot sv s =
     (case sv_mode sv of
        PERSISTENCE_SNAPSHOT \<Rightarrow>
          bindr (kvs_snapshot_store_save (sv_suffix sv) (sv_engines sv) ''snapshot.bin'' (sv_files sv) s) (\<lambda>(r, fs, s).
          Inr (r, sv\<lparr>sv_files := fs\<rparr>, s))
      | PERSISTENCE_LEGACY_HYBRID \<Rightarrow>
          let offset = kvs_aof_get_offset (sv_aof sv) in
          if offset < 0 then Inr (-1, sv, s)
          else
            bindr (kvs_snapshot_store_save_with_checkpoint (sv_suffix sv) (sv_engines sv) ''snapshot.db''
                     (Some \<lparr>has_offset = 1, ck_offset = offset\<rparr>) (sv_files sv) s) (\<lambda>(r, fs, s).
            Inr (r, sv\<lparr>sv_files := fs\<rparr>, s))
      | PERSISTENCE_AOF \<Rightarrow> Inr (-1, sv, s))"

definition save_reply :: "nat \<Rightarrow> server \<Rightarrow> sys \<Rightarrow> (bytes \<times> server \<times> sys) run" where
  "save_reply count sv s =
     (if count \<noteq> 1 then Inr (''-ERR wrong number of arguments for SAVE'' @ CRLF, sv, s)
      else
        bindr (kvs_save_current_snapshot sv s) (\<lambda>(r, sv, s).
        Inr (if r < 0 then ''-ERR SAVE failed'' @ CRLF else ''+OK'' @ CRLF, sv, s)))"

text \<open>The reply to a client for a command whose business result is known.\<close>

definition client_reply :: "nat \<Rightarrow> kvs_exec_status_t \<Rightarrow> bytes" where
  "client_reply cmd status =
     (if cmd mod 5 = 0 then
        (if status = EXEC_OK then ''+OK'' @ CRLF
         else if status = EXEC_ALREADY_EXISTS then ''-ERR key already exists'' @ CRLF
         else ''-ERR SET failed'' @ CRLF)
      else if cmd mod 5 = 2 then
        (if status = EXEC_OK then '':1'' @ CRLF
         else if status = EXEC_NOT_FOUND then '':0'' @ CRLF
         else ''-ERR DEL failed'' @ CRLF)
      else if cmd mod 5 = 3 then
        (if status = EXEC_OK then ''+OK'' @ CRLF
         else if status = EXEC_NOT_FOUND then ''-ERR key not found'' @ CRLF
         else ''-ERR MOD failed'' @ CRLF)
      else
        (if status = EXEC_FOUND then '':1'' @ CRLF
         else if status = EXEC_NOT_FOUND then '':0'' @ CRLF
         else ''-ERR EXIST failed'' @ CRLF))"

definition expected_fields :: "nat \<Rightarrow> nat" where
  "expected_fields cmd = (if cmd mod 5 = 0 \<or> cmd mod 5 = 3 then 3 else 2)"

text \<open>A read command: the value as a length-prefixed reply, or the nil reply.\<close>

definition execute_get ::
    "nat \<Rightarrow> bytes list \<Rightarrow> kvs_output_buffer_t \<Rightarrow> server \<Rightarrow> sys \<Rightarrow> (int \<times> kvs_output_buffer_t \<times> sys) run" where
  "execute_get cmd tokens buf sv s =
     bindr (kvs_get_value cmd (token tokens 1) (sv_engines sv)) (\<lambda>v.
     case v of
       None \<Rightarrow> bindr (put_reply (''$-1'' @ CRLF) buf) (\<lambda>(r, buf). Inr (r, buf, s))
     | Some val \<Rightarrow> kvs_encode_value_to_output buf val s)"

text \<open>Any other command: the executor's text, replaced by the client's reply for a client.\<close>

definition execute_other ::
    "nat \<Rightarrow> bytes list \<Rightarrow> kvs_output_buffer_t \<Rightarrow> kvs_command_source_t \<Rightarrow> server \<Rightarrow> sys \<Rightarrow>
     (int \<times> kvs_exec_status_t \<times> kvs_output_buffer_t \<times> server \<times> sys) run" where
  "execute_other cmd tokens buf source sv s =
     bindr (kvs_execute_tokens tokens (reply_region buf) source EXEC_FAILED sv s) (\<lambda>(r, region, status, sv, s).
     let buf = with_region buf region; reported = (if r \<ge> 0 then status else EXEC_FAILED) in
     if r \<ge> 0 \<and> source = SOURCE_CLIENT \<and> cmd < KVS_CMD_COUNT \<and> cmd mod 5 \<noteq> 1 then
       bindr (put_reply (client_reply cmd status) buf) (\<lambda>(r, buf). Inr (r, reported, buf, sv, s))
     else Inr (r, reported, buf, sv, s))"

text \<open>
  The dispatch on the tokens, in the source's order.  The result, what \<open>*execution_status\<close>
  is left at, the response buffer, the server; the tokens are freed by the caller below.
\<close>

definition execute_dispatch ::
    "bytes list \<Rightarrow> kvs_output_buffer_t \<Rightarrow> kvs_command_source_t \<Rightarrow> server \<Rightarrow> sys \<Rightarrow>
     (int \<times> kvs_exec_status_t \<times> kvs_output_buffer_t \<times> server \<times> sys) run" where
  "execute_dispatch tokens buf source sv s =
     (let name = hd tokens; cmd = command_index name in
      if source = SOURCE_CLIENT \<and> strcmp name ''PING'' = 0 then
        bindr (put_reply (ping_reply (length tokens)) buf) (\<lambda>(r, buf). Inr (r, EXEC_FAILED, buf, sv, s))
      else if source = SOURCE_CLIENT \<and> sv_role sv = ROLE_REPLICA \<and> \<not> kvs_replication_is_online (sv_replication sv) then
        bindr (put_reply (''-LOADING replica synchronization in progress'' @ CRLF) buf) (\<lambda>(r, buf).
        Inr (r, EXEC_FAILED, buf, sv, s))
      else if source = SOURCE_CLIENT \<and> strcmp name ''SAVE'' = 0 then
        bindr (save_reply (length tokens) sv s) (\<lambda>(reply, sv, s).
        bindr (put_reply reply buf) (\<lambda>(r, buf). Inr (r, EXEC_FAILED, buf, sv, s)))
      else if cmd < KVS_CMD_COUNT \<and> length tokens \<noteq> expected_fields cmd then
        (if source = SOURCE_CLIENT then
           (case c_snprintf (reply_region buf) (''-ERR wrong number of arguments for '' @ name @ CRLF) of
              (n, region) \<Rightarrow>
                Inr (if n < 0 \<or> n \<ge> out_capacity buf - out_length buf then -1 else n,
                     EXEC_FAILED, with_region buf region, sv, s))
         else Inr (-1, EXEC_FAILED, buf, sv, s))
      else if source = SOURCE_CLIENT \<and> cmd = KVS_CMD_COUNT then
        bindr (put_reply (''-ERR unknown command'' @ CRLF) buf) (\<lambda>(r, buf). Inr (r, EXEC_FAILED, buf, sv, s))
      else if length tokens = 2 \<and> kvs_is_get_command name \<and> cmd < KVS_CMD_COUNT then
        bindr (execute_get cmd tokens buf sv s) (\<lambda>(r, buf, s). Inr (r, EXEC_FAILED, buf, sv, s))
      else execute_other cmd tokens buf source sv s)"

definition has_nul :: "kvs_slice_t \<Rightarrow> bool" where
  "has_nul f = (case f of None \<Rightarrow> False | Some d \<Rightarrow> NUL \<in> set d)"

definition bad_slice :: "kvs_slice_t \<Rightarrow> bool" where
  "bad_slice f = (case f of None \<Rightarrow> True | Some d \<Rightarrow> length d = SIZE_MAX)"

text \<open>The check of the fields, first to last: NULL or too long, or a NUL byte inside.\<close>

fun check_fields :: "kvs_slice_t list \<Rightarrow> (unit + bool)" where
  "check_fields [] = Inr True"
| "check_fields (f # fs) = (if bad_slice f then Inl () else if has_nul f then Inr False else check_fields fs)"

definition kvs_execute_fields ::
    "kvs_slice_t list \<Rightarrow> kvs_output_buffer_t \<Rightarrow> kvs_command_source_t \<Rightarrow> server \<Rightarrow> sys \<Rightarrow>
     (int \<times> kvs_exec_status_t \<times> kvs_output_buffer_t \<times> server \<times> sys) run" where
  "kvs_execute_fields flds buf source sv s =
     (if out_data buf = None \<or> out_capacity buf \<le> 0 \<or> out_length buf < 0 \<or> out_length buf > out_capacity buf \<or>
         flds = [] \<or> length flds > KVS_MAX_TOKENS \<or> int (length flds) > INT_MAX
      then Inr (-1, EXEC_FAILED, buf, sv, s)
      else case check_fields flds of
        Inl _ \<Rightarrow> Inr (-1, EXEC_FAILED, buf, sv, s)
      | Inr False \<Rightarrow>
          if source \<noteq> SOURCE_CLIENT then Inr (-1, EXEC_FAILED, buf, sv, s)
          else bindr (put_reply (''-ERR NUL bytes are not supported'' @ CRLF) buf) (\<lambda>(r, buf).
               Inr (r, EXEC_FAILED, buf, sv, s))
      | Inr True \<Rightarrow>
          (case kvs_fields_to_tokens flds KVS_MAX_TOKENS s of
             (None, s) \<Rightarrow> Inr (-1, EXEC_FAILED, buf, sv, s)
           | (Some tokens, s) \<Rightarrow>
               bindr (execute_dispatch tokens buf source sv s) (\<lambda>(r, status, buf, sv, s).
               Inr (r, status, buf, sv, free_blocks (length tokens) s))))"

text \<open>The wrappers used by the recovery and by the replication: the reply goes into a region of the caller.\<close>

definition fields_protocol ::
    "kvs_command_source_t \<Rightarrow> bytes list \<Rightarrow> bytes \<Rightarrow> server \<Rightarrow> sys \<Rightarrow> (int \<times> bytes \<times> server \<times> sys) run" where
  "fields_protocol source flds response sv s =
     (if response = [] then Inr (-1, response, sv, s)
      else
        let output = \<lparr>out_data = Some response, out_length = 0, out_offset = 0, out_capacity = int (length response)\<rparr> in
        bindr (kvs_execute_fields (map Some flds) output source sv s) (\<lambda>(n, status, output, sv, s).
        Inr (if n < 0 \<or> status \<noteq> EXEC_OK then -1 else n, the (out_data output), sv, s)))"

definition kvs_recovery_fields_protocol :: "bytes list \<Rightarrow> bytes \<Rightarrow> server \<Rightarrow> sys \<Rightarrow> (int \<times> bytes \<times> server \<times> sys) run" where
  "kvs_recovery_fields_protocol = fields_protocol SOURCE_RECOVERY"

definition kvs_replication_command_protocol :: "bytes list \<Rightarrow> bytes \<Rightarrow> server \<Rightarrow> sys \<Rightarrow> (int \<times> bytes \<times> server \<times> sys) run" where
  "kvs_replication_command_protocol = fields_protocol SOURCE_REPLICATION"

text \<open>
  One command of a client connection: the length of the reply added behind the queued
  output, the number of input bytes consumed.
\<close>

definition kvs_network_protocol ::
    "bytes \<Rightarrow> kvs_output_buffer_t \<Rightarrow> server \<Rightarrow> sys \<Rightarrow> (int \<times> int \<times> kvs_output_buffer_t \<times> server \<times> sys) run" where
  "kvs_network_protocol msg buf sv s =
     (if out_data buf = None \<or> out_capacity buf \<le> 0 \<or> out_length buf < 0 \<or> out_length buf > out_capacity buf
      then Inr (-1, 0, buf, sv, s)
      else if msg = [] then Inr (0, 0, buf, sv, s)
      else
        let refuse =
              (let reply = ''-ERR invalid or oversized request'' @ CRLF in
               if int (length reply) > out_capacity buf - out_length buf then Inr (-1, 0, buf, sv, s)
               else bindr (put_reply reply buf) (\<lambda>(r, buf). Inr (r, int (length msg), buf, sv, s)))
        in case kvs_parse_command_limited (Some msg) KVS_MAX_TOKENS KVS_MAX_CLIENT_COMMAND_BYTES of
          Malformed \<Rightarrow> refuse
        | Incomplete \<Rightarrow> if length msg \<ge> KVS_MAX_CLIENT_COMMAND_BYTES then refuse else Inr (0, 0, buf, sv, s)
        | Complete (flds, parsed_bytes) \<Rightarrow>
            bindr (kvs_execute_fields (map Some flds) buf SOURCE_CLIENT sv s) (\<lambda>(n, status, buf, sv, s).
            if n < 0 \<or> n > out_capacity buf - out_length buf then Inr (-1, 0, buf, sv, s)
            else Inr (n, int parsed_bytes, buf, sv, s)))"

end
