(* ===== verification/Allocator.thy ===== *)
theory Allocator
  imports Kvs_Prelude "HOL-Library.Word"
begin

unbundle bit_operations_syntax

text \<open>
  The allocator behind \<open>kvs_malloc\<close>, \<open>src/src/memory/kvs_allocator.c\<close>: small requests
  are served from 64 KiB slabs cut into blocks of one of sixteen sizes, larger ones from a
  mapping of their own.  The address space, the headers at the start of each region, the
  free lists threaded through the free blocks and the bitmaps are explicit, so that the
  address arithmetic of the source is the arithmetic of the model.

  The invariant of this memory is in \<open>Pool_Invariant\<close>, the laws of the operations in
  \<open>Allocator_Laws\<close>.
\<close>

section \<open>The address space\<close>

text \<open>
  The kernel's side of \<open>mmap\<close> and \<open>munmap\<close>.  \<open>k_space\<close> lists the mapped ranges (start
  and length).  Where the n-th anonymous mapping goes is the kernel's choice; documented is
  that it starts on a page boundary, is not at address 0 and does not overlap what is
  mapped already, so any other choice counts as a refusal.  \<open>k_unmap\<close> says whether the n-th
  \<open>munmap\<close> succeeds, \<open>k_page\<close> is the answer of \<open>sysconf(_SC_PAGESIZE)\<close>, and \<open>k_malloc\<close>
  the C library's \<open>malloc\<close> for the backend that uses it.
\<close>

record kernel =
  k_page :: int
  k_place :: "nat \<Rightarrow> nat option"
  k_unmap :: "nat \<Rightarrow> bool"
  k_malloc :: "nat \<Rightarrow> nat \<Rightarrow> nat option"
  k_nmap :: nat
  k_nunmap :: nat
  k_nmalloc :: nat
  k_space :: "(nat \<times> nat) list"

text \<open>Two address ranges that share no byte.\<close>

definition apart :: "nat \<times> nat \<Rightarrow> nat \<times> nat \<Rightarrow> bool" where
  "apart x y \<longleftrightarrow> fst x + snd x \<le> fst y \<or> fst y + snd y \<le> fst x"

definition placeable :: "kernel \<Rightarrow> nat \<Rightarrow> nat \<Rightarrow> bool" where
  "placeable K len a \<longleftrightarrow>
     0 < a \<and> a mod nat (k_page K) = 0 \<and> a + len \<le> 2 ^ 64 \<and> list_all (apart (a, len)) (k_space K)"

definition mmap :: "nat \<Rightarrow> kernel \<Rightarrow> nat option \<times> kernel" where
  "mmap len K =
     (let K' = K\<lparr>k_nmap := Suc (k_nmap K)\<rparr>
      in case k_place K (k_nmap K) of
           None \<Rightarrow> (None, K')
         | Some a \<Rightarrow>
             if placeable K len a then (Some a, K'\<lparr>k_space := (a, len) # k_space K\<rparr>)
             else (None, K'))"

text \<open>Taking a range out of one mapped range leaves at most a piece on each side.\<close>

definition cut_range :: "nat \<times> nat \<Rightarrow> nat \<times> nat \<Rightarrow> (nat \<times> nat) list" where
  "cut_range r x =
     (if apart r x then [x]
      else filter (\<lambda>y. 0 < snd y)
        [(fst x, fst r - fst x), (fst r + snd r, fst x + snd x - (fst r + snd r))])"

definition munmap :: "nat \<Rightarrow> nat \<Rightarrow> kernel \<Rightarrow> bool \<times> kernel" where
  "munmap a len K =
     (let K' = K\<lparr>k_nunmap := Suc (k_nunmap K)\<rparr>
      in if k_unmap K (k_nunmap K)
         then (True, K'\<lparr>k_space := concat (map (cut_range (a, len)) (k_space K))\<rparr>)
         else (False, K'))"

section \<open>Slabs, large objects and pools\<close>

definition KVS_SLAB_SIZE :: nat where
  "KVS_SLAB_SIZE = 65536"

text \<open>Sizes and alignment of the platform: \<open>sizeof(kvs_slab_t)\<close>, \<open>sizeof(kvs_large_t)\<close>,
  \<open>sizeof(kvs_free_block_t)\<close> and \<open>_Alignof(max_align_t)\<close>.\<close>

definition sizeof_slab :: nat where
  "sizeof_slab = 64"

definition sizeof_large :: nat where
  "sizeof_large = 32"

definition sizeof_free_block :: nat where
  "sizeof_free_block = 8"

definition max_alignment :: nat where
  "max_alignment = 16"

text \<open>
  A slab's bitmap lies behind its header, at \<open>slab + sizeof(kvs_slab_t)\<close>, and its bytes are
  kept with the header.
\<close>

record kvs_slab =
  sb_block_size :: nat
  sb_capacity :: nat
  sb_used_count :: nat
  sb_free_list :: "nat option"
  sb_bitmap :: "8 word list"
  sb_data :: nat
  sb_next :: "nat option"

record kvs_large =
  lg_mapping_size :: nat
  lg_prev :: "nat option"
  lg_next :: "nat option"

text \<open>The first field of both headers is the tag that tells them apart.\<close>

datatype kvs_region = KVS_REGION_SLAB kvs_slab | KVS_REGION_LARGE kvs_large

record kvs_size_class =
  sc_block_size :: nat
  sc_slabs :: "nat option"

datatype kvs_allocator_backend = KVS_ALLOCATOR_SYSTEM | KVS_ALLOCATOR_POOL

text \<open>
  The static variables of the file, the headers in memory by the address of their region,
  and \<open>next\<close> of the free blocks by the block's address.
\<close>

record allocator =
  allocator_initialized :: bool
  allocator_backend :: kvs_allocator_backend
  pools :: "kvs_size_class list"
  large_regions :: "nat option"
  al_regions :: "nat \<Rightarrow> kvs_region option"
  al_links :: "nat \<Rightarrow> nat option"
  al_kern :: kernel

definition class_sizes :: "nat list" where
  "class_sizes = [16, 32, 48, 64, 96, 128, 192, 256, 384, 512, 768, 1024, 1536, 2048, 3072, 4096]"

definition allocator_at_start :: "kernel \<Rightarrow> allocator" where
  "allocator_at_start K =
     \<lparr>allocator_initialized = False, allocator_backend = KVS_ALLOCATOR_SYSTEM,
      pools = map (\<lambda>n. \<lparr>sc_block_size = n, sc_slabs = None\<rparr>) class_sizes,
      large_regions = None, al_regions = (\<lambda>_. None), al_links = (\<lambda>_. None), al_kern = K\<rparr>"

text \<open>\<open>pools[SIZE_CLASS_COUNT - 1].block_size\<close>.\<close>

definition largest_class :: "allocator \<Rightarrow> nat" where
  "largest_class A = sc_block_size (last (pools A))"

text \<open>
  Reading and writing through a pointer to a slab or to a large object.  An address
  without a header is memory nothing is mapped at, or the inside of a region.
\<close>

definition get_slab :: "allocator \<Rightarrow> nat \<Rightarrow> kvs_slab run" where
  "get_slab A p = (case al_regions A p of Some (KVS_REGION_SLAB sb) \<Rightarrow> Inr sb | _ \<Rightarrow> Inl Dangling)"

definition put_slab :: "nat \<Rightarrow> kvs_slab \<Rightarrow> allocator \<Rightarrow> allocator" where
  "put_slab p sb A = A\<lparr>al_regions := (al_regions A)(p \<mapsto> KVS_REGION_SLAB sb)\<rparr>"

definition get_large :: "allocator \<Rightarrow> nat \<Rightarrow> kvs_large run" where
  "get_large A p = (case al_regions A p of Some (KVS_REGION_LARGE lg) \<Rightarrow> Inr lg | _ \<Rightarrow> Inl Dangling)"

definition put_large :: "nat \<Rightarrow> kvs_large \<Rightarrow> allocator \<Rightarrow> allocator" where
  "put_large p lg A = A\<lparr>al_regions := (al_regions A)(p \<mapsto> KVS_REGION_LARGE lg)\<rparr>"

text \<open>\<open>munmap\<close> of a whole region takes its header away with it.\<close>

definition release_region :: "nat \<Rightarrow> nat \<Rightarrow> allocator \<Rightarrow> bool \<times> allocator" where
  "release_region a len A =
     (case munmap a len (al_kern A) of
        (True, K) \<Rightarrow> (True, A\<lparr>al_kern := K, al_regions := (\<lambda>x. if a \<le> x \<and> x < a + len then None else al_regions A x)\<rparr>)
      | (False, K) \<Rightarrow> (False, A\<lparr>al_kern := K\<rparr>))"

text \<open>Every region in a list was made by an \<open>mmap\<close> of its own.\<close>

definition region_bound :: "allocator \<Rightarrow> nat" where
  "region_bound A = Suc (k_nmap (al_kern A))"

text \<open>\<open>address & ~(KVS_SLAB_SIZE - 1)\<close> on \<open>uintptr_t\<close>, and \<open>size_t\<close> subtraction.\<close>

definition slab_start :: "nat \<Rightarrow> nat" where
  "slab_start a = unat ((word_of_nat a :: 64 word) AND NOT (word_of_nat KVS_SLAB_SIZE - 1))"

definition size_minus :: "nat \<Rightarrow> nat \<Rightarrow> nat" where
  "size_minus a b = unat ((word_of_nat a :: 64 word) - word_of_nat b)"

section \<open>Operations\<close>

definition kvs_allocator_init :: "kvs_allocator_backend \<Rightarrow> allocator \<Rightarrow> int \<times> allocator" where
  "kvs_allocator_init backend A =
     (if allocator_initialized A then (-1, A)
      else (0, A\<lparr>pools := map (\<lambda>c. c\<lparr>sc_slabs := None\<rparr>) (pools A),
                 allocator_backend := backend, allocator_initialized := True\<rparr>))"

fun find_class_from :: "nat \<Rightarrow> kvs_size_class list \<Rightarrow> nat \<Rightarrow> nat option" where
  "find_class_from i [] req = None"
| "find_class_from i (c # cs) req = (if req \<le> sc_block_size c then Some i else find_class_from (Suc i) cs req)"

definition find_size_class :: "allocator \<Rightarrow> nat \<Rightarrow> nat option" where
  "find_size_class A req = find_class_from 0 (pools A) req"

text \<open>The bit of block \<open>i\<close>: bit \<open>i % 8\<close> of byte \<open>i / 8\<close>.\<close>

definition set_bit_of :: "8 word list \<Rightarrow> nat \<Rightarrow> 8 word list" where
  "set_bit_of bm i = bm[i div 8 := (bm ! (i div 8)) OR push_bit (i mod 8) 1]"

definition clear_bit_of :: "8 word list \<Rightarrow> nat \<Rightarrow> 8 word list" where
  "clear_bit_of bm i = bm[i div 8 := (bm ! (i div 8)) AND NOT (push_bit (i mod 8) 1)]"

definition slab_alloc_block :: "nat option \<Rightarrow> allocator \<Rightarrow> (nat option \<times> allocator) run" where
  "slab_alloc_block slab A =
     (case slab of
        None \<Rightarrow> Inr (None, A)
      | Some p \<Rightarrow> bindr (get_slab A p) (\<lambda>sb.
          case sb_free_list sb of
            None \<Rightarrow> Inr (None, A)
          | Some block \<Rightarrow>
              (let index = size_minus block (sb_data sb) div sb_block_size sb
               in if index div 8 < length (sb_bitmap sb)
                  then Inr (Some block,
                    put_slab p (sb\<lparr>sb_free_list := al_links A block, sb_bitmap := set_bit_of (sb_bitmap sb) index,
                                   sb_used_count := Suc (sb_used_count sb)\<rparr>) A)
                  else Inl Out_of_bounds)))"

definition region_memory_alloc :: "nat \<Rightarrow> allocator \<Rightarrow> nat option \<times> allocator" where
  "region_memory_alloc req A =
     (let page_size = k_page (al_kern A)
      in if page_size \<le> 0 \<or> KVS_SLAB_SIZE mod nat page_size \<noteq> 0 \<or> req = 0 \<or> req mod nat page_size \<noteq> 0
         then (None, A)
         else if req > SIZE_MAX - KVS_SLAB_SIZE then (None, A)
         else (let reserved_size = req + KVS_SLAB_SIZE
               in case mmap reserved_size (al_kern A) of
                    (None, K) \<Rightarrow> (None, A\<lparr>al_kern := K\<rparr>)
                  | (Some raw, K) \<Rightarrow>
                      (let aligned = slab_start (raw + KVS_SLAB_SIZE - 1);
                           prefix = size_minus aligned raw;
                           suffix = size_minus (size_minus reserved_size prefix) req;
                           (cut, K) = (if prefix \<noteq> 0 then munmap raw prefix K else (True, K))
                       in if \<not> cut
                          then (case munmap raw reserved_size K of (_, K) \<Rightarrow> (None, A\<lparr>al_kern := K\<rparr>))
                          else (let (cut, K) = (if suffix \<noteq> 0 then munmap (aligned + req) suffix K else (True, K))
                                in if \<not> cut
                                   then (case munmap aligned (size_minus reserved_size prefix) K of (_, K) \<Rightarrow>
                                           (None, A\<lparr>al_kern := K\<rparr>))
                                   else (Some aligned, A\<lparr>al_kern := K\<rparr>)))))"

text \<open>The loop that threads the free list through the blocks, block 0 first.\<close>

fun carve :: "nat \<Rightarrow> nat \<Rightarrow> nat \<Rightarrow> nat \<Rightarrow> (nat \<Rightarrow> nat option) \<times> nat option \<Rightarrow> (nat \<Rightarrow> nat option) \<times> nat option" where
  "carve start bsize i 0 (lk, fl) = (lk, fl)"
| "carve start bsize i (Suc n) (lk, fl) =
     carve start bsize (Suc i) n (lk(start + i * bsize := fl), Some (start + i * bsize))"

text \<open>The number of bitmap bytes and the offset of the first block, for a block size.\<close>

definition bitmap_bytes :: "nat \<Rightarrow> nat" where
  "bitmap_bytes bsize =
     (let upper_count = (KVS_SLAB_SIZE - sizeof_slab) div bsize
      in upper_count div 8 + (if upper_count mod 8 \<noteq> 0 then 1 else 0))"

definition data_offset :: "nat \<Rightarrow> nat" where
  "data_offset bsize =
     (sizeof_slab + bitmap_bytes bsize + max_alignment - 1) div max_alignment * max_alignment"

definition slab_create :: "nat \<Rightarrow> allocator \<Rightarrow> nat option \<times> allocator" where
  "slab_create bsize A =
     (if bsize < sizeof_free_block \<or> bsize mod max_alignment \<noteq> 0 \<or> bsize > largest_class A then (None, A)
      else (let offset = data_offset bsize
            in if offset \<ge> KVS_SLAB_SIZE \<or> (KVS_SLAB_SIZE - offset) div bsize = 0 then (None, A)
               else (case region_memory_alloc KVS_SLAB_SIZE A of
                       (None, A) \<Rightarrow> (None, A)
                     | (Some slab, A) \<Rightarrow>
                         (let cap = (KVS_SLAB_SIZE - offset) div bsize;
                              (lk, fl) = carve (slab + offset) bsize 0 cap (al_links A, None)
                          in (Some slab,
                              put_slab slab
                                \<lparr>sb_block_size = bsize, sb_capacity = cap, sb_used_count = 0, sb_free_list = fl,
                                 sb_bitmap = replicate (bitmap_bytes bsize) 0, sb_data = slab + offset, sb_next = None\<rparr>
                                (A\<lparr>al_links := lk\<rparr>))))))"

text \<open>\<open>while (slab != NULL && slab->free_list == NULL) slab = slab->next;\<close>\<close>

fun skip_full :: "nat \<Rightarrow> allocator \<Rightarrow> nat option \<Rightarrow> nat option run" where
  "skip_full 0 A p = Inl Diverges"
| "skip_full (Suc fuel) A p =
     (case p of
        None \<Rightarrow> Inr None
      | Some a \<Rightarrow> bindr (get_slab A a) (\<lambda>sb.
          if sb_free_list sb = None then skip_full fuel A (sb_next sb) else Inr (Some a)))"

definition pool_alloc_small :: "nat \<Rightarrow> allocator \<Rightarrow> (nat option \<times> allocator) run" where
  "pool_alloc_small req A =
     (if req = 0 then Inr (None, A)
      else (case find_size_class A req of
              None \<Rightarrow> Inr (None, A)
            | Some i \<Rightarrow> bindr (skip_full (region_bound A) A (sc_slabs (pools A ! i))) (\<lambda>slab.
                case slab of
                  Some p \<Rightarrow> slab_alloc_block (Some p) A
                | None \<Rightarrow>
                    (case slab_create (sc_block_size (pools A ! i)) A of
                       (None, A) \<Rightarrow> Inr (None, A)
                     | (Some p, A) \<Rightarrow> bindr (get_slab A p) (\<lambda>sb.
                         let A = put_slab p (sb\<lparr>sb_next := sc_slabs (pools A ! i)\<rparr>) A
                         in slab_alloc_block (Some p)
                              (A\<lparr>pools := (pools A)[i := (pools A ! i)\<lparr>sc_slabs := Some p\<rparr>]\<rparr>))))))"

definition pool_free_small :: "nat \<Rightarrow> allocator \<Rightarrow> (int \<times> allocator) run" where
  "pool_free_small address A =
     bindr (get_slab A (slab_start address)) (\<lambda>sb.
       if address < sb_data sb then Inr (-1, A)
       else (let offset = size_minus address (sb_data sb)
             in if offset mod sb_block_size sb \<noteq> 0 \<or> offset div sb_block_size sb \<ge> sb_capacity sb then Inr (-1, A)
                else (let index = offset div sb_block_size sb
                      in if \<not> index div 8 < length (sb_bitmap sb) then Inl Out_of_bounds
                         else if (sb_bitmap sb ! (index div 8)) AND push_bit (index mod 8) 1 = 0 \<or> sb_used_count sb = 0
                         then Inr (-1, A)
                         else Inr (0,
                           put_slab (slab_start address)
                             (sb\<lparr>sb_bitmap := clear_bit_of (sb_bitmap sb) index, sb_free_list := Some address,
                                 sb_used_count := sb_used_count sb - 1\<rparr>)
                             (A\<lparr>al_links := (al_links A)(address := sb_free_list sb)\<rparr>)))))"

text \<open>The first pass of \<open>pool_destroy\<close>: is any block of this pool in use?\<close>

fun slabs_unused :: "nat \<Rightarrow> allocator \<Rightarrow> nat option \<Rightarrow> bool run" where
  "slabs_unused 0 A p = Inl Diverges"
| "slabs_unused (Suc fuel) A p =
     (case p of
        None \<Rightarrow> Inr True
      | Some a \<Rightarrow> bindr (get_slab A a) (\<lambda>sb.
          if sb_used_count sb \<noteq> 0 then Inr False else slabs_unused fuel A (sb_next sb)))"

fun pools_unused :: "allocator \<Rightarrow> kvs_size_class list \<Rightarrow> bool run" where
  "pools_unused A [] = Inr True"
| "pools_unused A (c # cs) =
     bindr (slabs_unused (region_bound A) A (sc_slabs c)) (\<lambda>unused. if unused then pools_unused A cs else Inr False)"

text \<open>The second pass gives the slabs of pool \<open>i\<close> back to the kernel, the first one first.\<close>

fun release_slabs :: "nat \<Rightarrow> nat \<Rightarrow> allocator \<Rightarrow> (int \<times> allocator) run" where
  "release_slabs 0 i A = Inl Diverges"
| "release_slabs (Suc fuel) i A =
     (case sc_slabs (pools A ! i) of
        None \<Rightarrow> Inr (0, A)
      | Some a \<Rightarrow> bindr (get_slab A a) (\<lambda>sb.
          case release_region a KVS_SLAB_SIZE A of
            (False, A) \<Rightarrow> Inr (-1, A)
          | (True, A) \<Rightarrow>
              release_slabs fuel i (A\<lparr>pools := (pools A)[i := (pools A ! i)\<lparr>sc_slabs := sb_next sb\<rparr>]\<rparr>)))"

fun release_pools :: "nat list \<Rightarrow> allocator \<Rightarrow> (int \<times> allocator) run" where
  "release_pools [] A = Inr (0, A)"
| "release_pools (i # is) A =
     bindr (release_slabs (region_bound A) i A) (\<lambda>(r, A). if r \<noteq> 0 then Inr (-1, A) else release_pools is A)"

definition pool_destroy :: "allocator \<Rightarrow> (int \<times> allocator) run" where
  "pool_destroy A =
     bindr (pools_unused A (pools A)) (\<lambda>unused.
       if unused then release_pools [0..<length (pools A)] A else Inr (-1, A))"

definition kvs_allocator_destroy :: "allocator \<Rightarrow> (int \<times> allocator) run" where
  "kvs_allocator_destroy A =
     (if \<not> allocator_initialized A then Inr (0, A)
      else if large_regions A \<noteq> None then Inr (-1, A)
      else bindr (pool_destroy A) (\<lambda>(r, A).
        if r \<noteq> 0 then Inr (-1, A) else Inr (0, A\<lparr>allocator_initialized := False\<rparr>)))"

text \<open>\<open>prev->next = q\<close>, or the head of the list when \<open>prev\<close> is NULL; \<open>next->prev = q\<close>.\<close>

definition set_next_of :: "nat option \<Rightarrow> nat option \<Rightarrow> allocator \<Rightarrow> allocator run" where
  "set_next_of prev q A =
     (case prev of
        None \<Rightarrow> Inr (A\<lparr>large_regions := q\<rparr>)
      | Some p \<Rightarrow> bindr (get_large A p) (\<lambda>lg. Inr (put_large p (lg\<lparr>lg_next := q\<rparr>) A)))"

definition set_prev_of :: "nat option \<Rightarrow> nat option \<Rightarrow> allocator \<Rightarrow> allocator run" where
  "set_prev_of nxt q A =
     (case nxt of
        None \<Rightarrow> Inr A
      | Some p \<Rightarrow> bindr (get_large A p) (\<lambda>lg. Inr (put_large p (lg\<lparr>lg_prev := q\<rparr>) A)))"

text \<open>Where the usable part of a large object starts.\<close>

definition large_offset :: nat where
  "large_offset = (sizeof_large + max_alignment - 1) div max_alignment * max_alignment"

definition pool_alloc_large :: "nat \<Rightarrow> allocator \<Rightarrow> (nat option \<times> allocator) run" where
  "pool_alloc_large req A =
     (let page = k_page (al_kern A)
      in if page \<le> 0 \<or> req = 0 then Inr (None, A)
         else if large_offset \<ge> KVS_SLAB_SIZE \<or> req > SIZE_MAX - large_offset then Inr (None, A)
         else (let total = large_offset + req;
                   rest = total mod nat page;
                   padding = (if rest = 0 then 0 else nat page - rest)
               in if total > SIZE_MAX - padding then Inr (None, A)
                  else (case region_memory_alloc (total + padding) A of
                          (None, A) \<Rightarrow> Inr (None, A)
                        | (Some large, A) \<Rightarrow>
                            (let A = put_large large
                               \<lparr>lg_mapping_size = total + padding, lg_prev = None, lg_next = large_regions A\<rparr> A
                             in bindr (set_prev_of (large_regions A) (Some large) A) (\<lambda>A.
                                Inr (Some (large + large_offset), A\<lparr>large_regions := Some large\<rparr>))))))"

definition pool_free_large :: "nat \<Rightarrow> allocator \<Rightarrow> (int \<times> allocator) run" where
  "pool_free_large large A =
     bindr (get_large A large) (\<lambda>lg.
     bindr (set_next_of (lg_prev lg) (lg_next lg) A) (\<lambda>A.
     bindr (set_prev_of (lg_next lg) (lg_prev lg) A) (\<lambda>A.
       case release_region large (lg_mapping_size lg) A of
         (True, A) \<Rightarrow> Inr (0, A)
       | (False, A) \<Rightarrow>
           bindr (set_next_of (lg_prev lg) (Some large) A) (\<lambda>A.
           bindr (set_prev_of (lg_next lg) (Some large) A) (\<lambda>A. Inr (-1, A))))))"

definition kvs_allocator_alloc :: "nat \<Rightarrow> allocator \<Rightarrow> (nat option \<times> allocator) run" where
  "kvs_allocator_alloc req A =
     (if \<not> allocator_initialized A \<or> req = 0 then Inr (None, A)
      else if allocator_backend A = KVS_ALLOCATOR_POOL
      then (if req > largest_class A then pool_alloc_large req A else pool_alloc_small req A)
      else Inr (k_malloc (al_kern A) (k_nmalloc (al_kern A)) req,
                A\<lparr>al_kern := (al_kern A)\<lparr>k_nmalloc := Suc (k_nmalloc (al_kern A))\<rparr>\<rparr>))"

text \<open>\<open>abort()\<close> is an assertion that failed.\<close>

definition kvs_allocator_free :: "nat option \<Rightarrow> allocator \<Rightarrow> allocator run" where
  "kvs_allocator_free p A =
     (case p of
        None \<Rightarrow> Inr A
      | Some address \<Rightarrow>
          if \<not> allocator_initialized A then Inl Assert_failed
          else if allocator_backend A = KVS_ALLOCATOR_POOL
          then bindr (case al_regions A (slab_start address) of
                        None \<Rightarrow> Inl Dangling
                      | Some (KVS_REGION_SLAB _) \<Rightarrow> pool_free_small address A
                      | Some (KVS_REGION_LARGE _) \<Rightarrow> pool_free_large (slab_start address) A)
                 (\<lambda>(r, A). if r \<noteq> 0 then Inl Assert_failed else Inr A)
          else Inr A)"

record kvs_pool_stats =
  live_objects :: nat
  slab_count :: nat
  large_count :: nat
  mapped_bytes :: nat

fun count_slabs :: "nat \<Rightarrow> allocator \<Rightarrow> nat option \<Rightarrow> kvs_pool_stats \<Rightarrow> kvs_pool_stats run" where
  "count_slabs 0 A p st = Inl Diverges"
| "count_slabs (Suc fuel) A p st =
     (case p of
        None \<Rightarrow> Inr st
      | Some a \<Rightarrow> bindr (get_slab A a) (\<lambda>sb.
          count_slabs fuel A (sb_next sb)
            (st\<lparr>live_objects := live_objects st + sb_used_count sb, slab_count := Suc (slab_count st),
                mapped_bytes := mapped_bytes st + KVS_SLAB_SIZE\<rparr>)))"

fun count_pools :: "allocator \<Rightarrow> kvs_size_class list \<Rightarrow> kvs_pool_stats \<Rightarrow> kvs_pool_stats run" where
  "count_pools A [] st = Inr st"
| "count_pools A (c # cs) st = bindr (count_slabs (region_bound A) A (sc_slabs c) st) (count_pools A cs)"

fun count_large :: "nat \<Rightarrow> allocator \<Rightarrow> nat option \<Rightarrow> kvs_pool_stats \<Rightarrow> kvs_pool_stats run" where
  "count_large 0 A p st = Inl Diverges"
| "count_large (Suc fuel) A p st =
     (case p of
        None \<Rightarrow> Inr st
      | Some a \<Rightarrow> bindr (get_large A a) (\<lambda>lg.
          count_large fuel A (lg_next lg)
            (st\<lparr>live_objects := Suc (live_objects st), large_count := Suc (large_count st),
                mapped_bytes := mapped_bytes st + lg_mapping_size lg\<rparr>)))"

definition kvs_allocator_pool_stats :: "allocator \<Rightarrow> (int \<times> kvs_pool_stats option) run" where
  "kvs_allocator_pool_stats A =
     (if \<not> allocator_initialized A \<or> allocator_backend A \<noteq> KVS_ALLOCATOR_POOL then Inr (-1, None)
      else bindr (count_pools A (pools A) \<lparr>live_objects = 0, slab_count = 0, large_count = 0, mapped_bytes = 0\<rparr>) (\<lambda>st.
           bindr (count_large (region_bound A) A (large_regions A) st) (\<lambda>st. Inr (0, Some st))))"

end
