(* ===== verification/Config.thy ===== *)
theory Config
  imports Commands Allocator
begin

text \<open>
  Reading the configuration file, \<open>src/src/config/config.c\<close>: trimming, the table of
  fields, the value of each field, the constraints between fields, and the loop over the
  lines.  What \<open>inet_pton\<close> accepts is a parameter.  The lemmas show which configurations
  can come out and that a configuration written down is read back.
\<close>

section \<open>Fields and errors\<close>

datatype config_field =
    FIELD_ROLE | FIELD_BIND_IP | FIELD_SERVICE_PORT | FIELD_RDMA_PORT | FIELD_LOG_LEVEL
  | FIELD_PERSISTENCE_MODE | FIELD_REPLICATION_PORT | FIELD_PRIMARY_HOST | FIELD_PRIMARY_PORT | FIELD_ALLOCATOR

definition field_names :: "(bytes \<times> config_field) list" where
  "field_names =
     [(''role'', FIELD_ROLE), (''bind_ip'', FIELD_BIND_IP), (''service_port'', FIELD_SERVICE_PORT),
      (''rdma_port'', FIELD_RDMA_PORT), (''log_level'', FIELD_LOG_LEVEL),
      (''persistence_mode'', FIELD_PERSISTENCE_MODE), (''replication_port'', FIELD_REPLICATION_PORT),
      (''primary_host'', FIELD_PRIMARY_HOST), (''primary_port'', FIELD_PRIMARY_PORT), (''allocator'', FIELD_ALLOCATOR)]"

datatype kvs_log_level_t = LOG_ERROR | LOG_INFO | LOG_DEBUG

record kvs_config_t =
  cf_role :: kvs_role_t
  cf_bind_ip :: bytes
  cf_service_port :: nat
  cf_rdma_port :: nat
  cf_replication_port :: nat
  cf_primary_host :: bytes
  cf_primary_port :: nat
  cf_log_level :: kvs_log_level_t
  cf_persistence_mode :: kvs_persistence_mode_t
  cf_allocator_backend :: kvs_allocator_backend

text \<open>
  An error is the line it is reported for (0 for the file as a whole) and its reason; the
  text printed from them is not kept.
\<close>

datatype config_problem =
    Bad_arguments | Cannot_open | Read_failed | Close_failed
  | No_equal_sign | Not_one_pair | Unknown_field bytes | Duplicate_field bytes nat
  | Bad_value config_field bytes | Missing_field config_field | Only_for_primary config_field
  | Only_for_replica config_field | Ports_equal | Mode_unsupported | Removed_field config_field

type_synonym config_failure = "nat \<times> config_problem"

section \<open>Text\<close>

definition is_space :: "char \<Rightarrow> bool" where
  "is_space c \<longleftrightarrow> byte_of c = (32::nat) \<or> (9 \<le> byte_of c \<and> byte_of c \<le> (13::nat))"

definition trim :: "bytes \<Rightarrow> bytes" where
  "trim str = rev (dropWhile is_space (rev (dropWhile is_space str)))"

definition find_field :: "bytes \<Rightarrow> config_field option" where
  "find_field name = map_of field_names name"

definition parse_port :: "bytes \<Rightarrow> nat option" where
  "parse_port str =
     (if str = [] \<or> \<not> list_all is_digit str then None
      else let number = digits_value 0 str
           in if number < 1 \<or> number > 65535 then None else Some number)"

text \<open>\<open>snprintf\<close> of a text into a field of a given capacity.\<close>

definition stored :: "nat \<Rightarrow> bytes \<Rightarrow> bytes" where
  "stored capacity str = take (capacity - 1) str"

section \<open>One field\<close>

definition config_parse_field ::
    "(bytes \<Rightarrow> bool) \<Rightarrow> config_field \<Rightarrow> bytes \<Rightarrow> kvs_config_t \<Rightarrow> nat \<Rightarrow> config_failure + kvs_config_t" where
  "config_parse_field inet_pton field val parsed line_number =
     (let bad = Inl (line_number, Bad_value field val) in
      case field of
        FIELD_ROLE \<Rightarrow>
          (if val = ''standalone'' then Inr (parsed\<lparr>cf_role := ROLE_STANDALONE\<rparr>)
           else if val = ''primary'' then Inr (parsed\<lparr>cf_role := ROLE_PRIMARY\<rparr>)
           else if val = ''replica'' then Inr (parsed\<lparr>cf_role := ROLE_REPLICA\<rparr>)
           else bad)
      | FIELD_BIND_IP \<Rightarrow>
          (if \<not> inet_pton val then bad else Inr (parsed\<lparr>cf_bind_ip := stored 16 val\<rparr>))
      | FIELD_SERVICE_PORT \<Rightarrow>
          (case parse_port val of None \<Rightarrow> bad | Some p \<Rightarrow> Inr (parsed\<lparr>cf_service_port := p\<rparr>))
      | FIELD_RDMA_PORT \<Rightarrow>
          (case parse_port val of None \<Rightarrow> bad | Some p \<Rightarrow> Inr (parsed\<lparr>cf_rdma_port := p\<rparr>))
      | FIELD_LOG_LEVEL \<Rightarrow>
          (if val = ''error'' then Inr (parsed\<lparr>cf_log_level := LOG_ERROR\<rparr>)
           else if val = ''info'' then Inr (parsed\<lparr>cf_log_level := LOG_INFO\<rparr>)
           else if val = ''debug'' then Inr (parsed\<lparr>cf_log_level := LOG_DEBUG\<rparr>)
           else bad)
      | FIELD_PERSISTENCE_MODE \<Rightarrow>
          (if val = ''legacy_hybrid'' then Inr (parsed\<lparr>cf_persistence_mode := PERSISTENCE_LEGACY_HYBRID\<rparr>)
           else if val = ''snapshot'' then Inr (parsed\<lparr>cf_persistence_mode := PERSISTENCE_SNAPSHOT\<rparr>)
           else if val = ''aof'' then Inr (parsed\<lparr>cf_persistence_mode := PERSISTENCE_AOF\<rparr>)
           else bad)
      | FIELD_REPLICATION_PORT \<Rightarrow>
          (case parse_port val of None \<Rightarrow> bad | Some p \<Rightarrow> Inr (parsed\<lparr>cf_replication_port := p\<rparr>))
      | FIELD_PRIMARY_HOST \<Rightarrow>
          (if \<not> inet_pton val \<or> val = ''0.0.0.0'' then bad else Inr (parsed\<lparr>cf_primary_host := stored 256 val\<rparr>))
      | FIELD_PRIMARY_PORT \<Rightarrow>
          (case parse_port val of None \<Rightarrow> bad | Some p \<Rightarrow> Inr (parsed\<lparr>cf_primary_port := p\<rparr>))
      | FIELD_ALLOCATOR \<Rightarrow>
          (if val = ''system'' then Inr (parsed\<lparr>cf_allocator_backend := KVS_ALLOCATOR_SYSTEM\<rparr>)
           else if val = ''pool'' then Inr (parsed\<lparr>cf_allocator_backend := KVS_ALLOCATOR_POOL\<rparr>)
           else bad))"

section \<open>Constraints between fields\<close>

text \<open>
  \<open>seen\<close> is the line on which a field was set.  \<open>validate_role\<close> is the switch over the
  role; the first failure is reported.
\<close>

type_synonym seen_fields = "config_field \<rightharpoonup> nat"

definition line_of :: "seen_fields \<Rightarrow> config_field \<Rightarrow> nat" where
  "line_of seen field = (case seen field of None \<Rightarrow> 0 | Some n \<Rightarrow> n)"

definition validate_role :: "kvs_config_t \<Rightarrow> seen_fields \<Rightarrow> config_failure option" where
  "validate_role parsed seen =
     (case cf_role parsed of
        ROLE_STANDALONE \<Rightarrow>
          if seen FIELD_REPLICATION_PORT \<noteq> None
          then Some (line_of seen FIELD_REPLICATION_PORT, Only_for_primary FIELD_REPLICATION_PORT)
          else if seen FIELD_PRIMARY_HOST \<noteq> None
          then Some (line_of seen FIELD_PRIMARY_HOST, Only_for_replica FIELD_PRIMARY_HOST)
          else if seen FIELD_PRIMARY_PORT \<noteq> None
          then Some (line_of seen FIELD_PRIMARY_PORT, Only_for_replica FIELD_PRIMARY_PORT)
          else if cf_persistence_mode parsed \<noteq> PERSISTENCE_SNAPSHOT \<and> cf_persistence_mode parsed \<noteq> PERSISTENCE_AOF
          then Some (line_of seen FIELD_PERSISTENCE_MODE, Mode_unsupported)
          else None
      | ROLE_PRIMARY \<Rightarrow>
          if seen FIELD_REPLICATION_PORT \<noteq> None
          then Some (line_of seen FIELD_REPLICATION_PORT, Removed_field FIELD_REPLICATION_PORT)
          else if seen FIELD_PRIMARY_HOST \<noteq> None
          then Some (line_of seen FIELD_PRIMARY_HOST, Only_for_replica FIELD_PRIMARY_HOST)
          else if seen FIELD_PRIMARY_PORT \<noteq> None
          then Some (line_of seen FIELD_PRIMARY_PORT, Only_for_replica FIELD_PRIMARY_PORT)
          else None
      | ROLE_REPLICA \<Rightarrow>
          if seen FIELD_PRIMARY_HOST = None then Some (0, Missing_field FIELD_PRIMARY_HOST)
          else if seen FIELD_PRIMARY_PORT = None then Some (0, Missing_field FIELD_PRIMARY_PORT)
          else if seen FIELD_REPLICATION_PORT \<noteq> None
          then Some (line_of seen FIELD_REPLICATION_PORT, Only_for_primary FIELD_REPLICATION_PORT)
          else None)"

definition validate_config :: "kvs_config_t \<Rightarrow> seen_fields \<Rightarrow> config_failure option" where
  "validate_config parsed seen =
     (if seen FIELD_ROLE = None then Some (0, Missing_field FIELD_ROLE)
      else if seen FIELD_SERVICE_PORT = None then Some (0, Missing_field FIELD_SERVICE_PORT)
      else if seen FIELD_PERSISTENCE_MODE = None then Some (0, Missing_field FIELD_PERSISTENCE_MODE)
      else if seen FIELD_RDMA_PORT \<noteq> None \<and> cf_role parsed \<noteq> ROLE_PRIMARY
      then Some (line_of seen FIELD_RDMA_PORT, Only_for_primary FIELD_RDMA_PORT)
      else if seen FIELD_RDMA_PORT \<noteq> None \<and> cf_rdma_port parsed = cf_service_port parsed
      then Some (line_of seen FIELD_RDMA_PORT, Ports_equal)
      else case validate_role parsed seen of
        Some e \<Rightarrow> Some e
      | None \<Rightarrow>
          if (cf_role parsed = ROLE_PRIMARY \<or> cf_role parsed = ROLE_REPLICA) \<and>
             cf_persistence_mode parsed \<noteq> PERSISTENCE_LEGACY_HYBRID
          then Some (line_of seen FIELD_PERSISTENCE_MODE, Mode_unsupported)
          else if cf_role parsed = ROLE_PRIMARY \<and> seen FIELD_RDMA_PORT = None
          then Some (0, Missing_field FIELD_RDMA_PORT)
          else None)"

section \<open>The file\<close>

text \<open>\<open>getline\<close>: the lines of the file, each with its newline; the last may lack it.\<close>

function config_lines :: "bytes \<Rightarrow> bytes list" where
  "config_lines d =
     (if d = [] then []
      else let l = takeWhile (\<lambda>c. c \<noteq> LF) d; rest = dropWhile (\<lambda>c. c \<noteq> LF) d
           in (l @ take 1 rest) # config_lines (drop 1 rest))"
  by pat_completeness auto
termination
proof (relation "measure length", goal_cases)
  case (2 d l rest)
  then have "length rest \<le> length d" and "d \<noteq> []"
    by (simp_all add: length_dropWhile_le)
  then show ?case by (cases d) auto
qed simp

declare config_lines.simps [simp del]

text \<open>One line: skipped, or a pair that is entered.  A line is a C string, which ends at a NUL.\<close>

definition config_line ::
    "(bytes \<Rightarrow> bool) \<Rightarrow> bytes \<Rightarrow> nat \<Rightarrow> kvs_config_t \<Rightarrow> seen_fields \<Rightarrow> config_failure + (kvs_config_t \<times> seen_fields)" where
  "config_line inet_pton line line_number parsed seen =
     (let entry = trim (takeWhile (\<lambda>c. c \<noteq> NUL) line) in
      if entry = [] \<or> hd entry = CHR ''#'' then Inr (parsed, seen)
      else if CHR ''='' \<notin> set entry then Inl (line_number, No_equal_sign)
      else
        let key = trim (takeWhile (\<lambda>c. c \<noteq> CHR ''='') entry);
            val = trim (drop 1 (dropWhile (\<lambda>c. c \<noteq> CHR ''='') entry))
        in if key = [] \<or> val = [] \<or> CHR ''='' \<in> set val then Inl (line_number, Not_one_pair)
           else case find_field key of
             None \<Rightarrow> Inl (line_number, Unknown_field key)
           | Some field \<Rightarrow>
               (case seen field of
                  Some first \<Rightarrow> Inl (line_number, Duplicate_field key first)
                | None \<Rightarrow>
                    (case config_parse_field inet_pton field val parsed line_number of
                       Inl e \<Rightarrow> Inl e
                     | Inr parsed \<Rightarrow> Inr (parsed, seen(field \<mapsto> line_number)))))"

fun config_scan ::
    "(bytes \<Rightarrow> bool) \<Rightarrow> bytes list \<Rightarrow> nat \<Rightarrow> kvs_config_t \<Rightarrow> seen_fields \<Rightarrow> config_failure + (kvs_config_t \<times> seen_fields)" where
  "config_scan inet_pton [] line_number parsed seen = Inr (parsed, seen)"
| "config_scan inet_pton (l # ls) line_number parsed seen =
     (case config_line inet_pton l (Suc line_number) parsed seen of
        Inl e \<Rightarrow> Inl e
      | Inr (parsed, seen) \<Rightarrow> config_scan inet_pton ls (Suc line_number) parsed seen)"

definition config_defaults :: kvs_config_t where
  "config_defaults =
     \<lparr>cf_role = ROLE_STANDALONE, cf_bind_ip = ''0.0.0.0'', cf_service_port = 0, cf_rdma_port = 0, cf_replication_port = 0,
      cf_primary_host = [], cf_primary_port = 0, cf_log_level = LOG_INFO,
      cf_persistence_mode = PERSISTENCE_LEGACY_HYBRID, cf_allocator_backend = KVS_ALLOCATOR_POOL\<rparr>"

text \<open>
  The kernel is asked for \<open>fopen\<close>, for whether all of the file can be read (if not, how
  many lines \<open>getline\<close> delivers before it fails) and for \<open>fclose\<close>.  The result is the
  failure, or the configuration.
\<close>

definition read_lines :: "bytes \<Rightarrow> sys \<Rightarrow> bool \<times> bytes list \<times> sys" where
  "read_lines content s =
     (case os_call s of
        (True, s) \<Rightarrow> (True, config_lines content, s)
      | (False, s) \<Rightarrow> (case os_int s of (n, s) \<Rightarrow> (False, take (nat n) (config_lines content), s)))"

definition kvs_config_load ::
    "(bytes \<Rightarrow> bool) \<Rightarrow> files \<Rightarrow> bytes \<Rightarrow> sys \<Rightarrow> (config_failure + kvs_config_t) \<times> sys" where
  "kvs_config_load inet_pton fs path s =
     (if path = [] then (Inl (0, Bad_arguments), s)
      else case (fs path, os_call s) of
        (Some content, True, s) \<Rightarrow>
          (case read_lines content s of
             (whole, ls, s) \<Rightarrow>
               let result =
                     (case config_scan inet_pton ls 0 config_defaults (\<lambda>_. None) of
                        Inl e \<Rightarrow> Inl e
                      | Inr (parsed, seen) \<Rightarrow>
                          if \<not> whole then Inl (length ls, Read_failed)
                          else case validate_config parsed seen of
                            Some e \<Rightarrow> Inl e
                          | None \<Rightarrow> Inr parsed)
               in (case os_call s of
                     (closed, s) \<Rightarrow> (if \<not> closed \<and> \<not> isl result then Inl (0, Close_failed) else result, s)))
      | (_, _, s) \<Rightarrow> (Inl (0, Cannot_open), s))"

section \<open>What a loaded configuration satisfies\<close>

definition port_ok :: "nat \<Rightarrow> bool" where
  "port_ok p \<longleftrightarrow> 1 \<le> p \<and> p \<le> 65535"

text \<open>The configurations the server can run with.\<close>

definition config_valid :: "(bytes \<Rightarrow> bool) \<Rightarrow> kvs_config_t \<Rightarrow> bool" where
  "config_valid inet_pton cf \<longleftrightarrow>
     port_ok (cf_service_port cf) \<and> cf_replication_port cf = 0 \<and>
     (case cf_role cf of
        ROLE_STANDALONE \<Rightarrow> cf_persistence_mode cf \<noteq> PERSISTENCE_LEGACY_HYBRID \<and> cf_rdma_port cf = 0 \<and>
          cf_primary_host cf = [] \<and> cf_primary_port cf = 0
      | ROLE_PRIMARY \<Rightarrow> cf_persistence_mode cf = PERSISTENCE_LEGACY_HYBRID \<and> port_ok (cf_rdma_port cf) \<and>
          cf_rdma_port cf \<noteq> cf_service_port cf \<and> cf_primary_host cf = [] \<and> cf_primary_port cf = 0
      | ROLE_REPLICA \<Rightarrow> cf_persistence_mode cf = PERSISTENCE_LEGACY_HYBRID \<and> cf_rdma_port cf = 0 \<and>
          port_ok (cf_primary_port cf) \<and> (\<exists>v. inet_pton v \<and> v \<noteq> ''0.0.0.0'' \<and> cf_primary_host cf = stored 256 v)) \<and>
     (cf_bind_ip cf = ''0.0.0.0'' \<or> (\<exists>v. inet_pton v \<and> cf_bind_ip cf = stored 16 v))"

text \<open>The fields a file must name for a role, and those it may name for every role.\<close>

fun required_fields :: "kvs_role_t \<Rightarrow> config_field set" where
  "required_fields ROLE_STANDALONE = {FIELD_ROLE, FIELD_SERVICE_PORT, FIELD_PERSISTENCE_MODE}"
| "required_fields ROLE_PRIMARY = {FIELD_ROLE, FIELD_SERVICE_PORT, FIELD_PERSISTENCE_MODE, FIELD_RDMA_PORT}"
| "required_fields ROLE_REPLICA =
     {FIELD_ROLE, FIELD_SERVICE_PORT, FIELD_PERSISTENCE_MODE, FIELD_PRIMARY_HOST, FIELD_PRIMARY_PORT}"

definition optional_fields :: "config_field set" where
  "optional_fields = {FIELD_BIND_IP, FIELD_LOG_LEVEL, FIELD_ALLOCATOR}"

text \<open>What holds of the fields seen so far and of those not seen, while the lines are read.\<close>

definition scan_ok :: "(bytes \<Rightarrow> bool) \<Rightarrow> kvs_config_t \<Rightarrow> seen_fields \<Rightarrow> bool" where
  "scan_ok inet_pton cf seen \<longleftrightarrow>
     (seen FIELD_SERVICE_PORT \<noteq> None \<longrightarrow> port_ok (cf_service_port cf)) \<and>
     (if seen FIELD_RDMA_PORT \<noteq> None then port_ok (cf_rdma_port cf) else cf_rdma_port cf = 0) \<and>
     (if seen FIELD_REPLICATION_PORT \<noteq> None then port_ok (cf_replication_port cf) else cf_replication_port cf = 0) \<and>
     (if seen FIELD_PRIMARY_PORT \<noteq> None then port_ok (cf_primary_port cf) else cf_primary_port cf = 0) \<and>
     (if seen FIELD_PRIMARY_HOST \<noteq> None then \<exists>v. inet_pton v \<and> v \<noteq> ''0.0.0.0'' \<and> cf_primary_host cf = stored 256 v
      else cf_primary_host cf = []) \<and>
     (cf_bind_ip cf = ''0.0.0.0'' \<or> (\<exists>v. inet_pton v \<and> cf_bind_ip cf = stored 16 v))"

lemma parse_port_ok: "parse_port str = Some p \<Longrightarrow> port_ok p"
  by (auto simp: parse_port_def port_ok_def Let_def split: if_splits)

lemma parse_field_scan_ok:
  assumes "scan_ok inet_pton cf seen" "config_parse_field inet_pton field val cf n = Inr cf'"
  shows "scan_ok inet_pton cf' (seen(field \<mapsto> m))"
  using assms(2)
  by (cases field; simp add: config_parse_field_def split: if_split_asm option.split_asm; hypsubst?;
      insert assms(1); simp add: scan_ok_def parse_port_ok; blast?)

lemma config_line_scan_ok:
  assumes "scan_ok inet_pton cf seen" "config_line inet_pton l n cf seen = Inr (cf', seen')"
  shows "scan_ok inet_pton cf' seen'"
  using assms(2) parse_field_scan_ok [OF assms(1)] assms(1)
  unfolding config_line_def Let_def
  by (simp split: if_splits option.splits sum.splits) blast+

lemma config_scan_ok:
  "scan_ok inet_pton cf seen \<Longrightarrow> config_scan inet_pton ls n cf seen = Inr (cf', seen') \<Longrightarrow> scan_ok inet_pton cf' seen'"
proof (induction inet_pton ls n cf seen rule: config_scan.induct)
  case (2 inet_pton l ls n cf seen)
  then obtain cf1 seen1 where l: "config_line inet_pton l (Suc n) cf seen = Inr (cf1, seen1)"
      and ls: "config_scan inet_pton ls (Suc n) cf1 seen1 = Inr (cf', seen')"
    by (auto split: sum.splits)
  show ?case
    using "2.IH" [OF l refl config_line_scan_ok [OF "2.prems"(1) l] ls] .
qed simp

lemma validate_config_valid:
  assumes "scan_ok inet_pton cf seen" "validate_config cf seen = None"
  shows "config_valid inet_pton cf"
  using assms
  by (cases "cf_role cf"; cases "cf_persistence_mode cf")
     (auto simp: validate_config_def validate_role_def config_valid_def scan_ok_def split: if_splits option.splits)

lemma config_load_cases:
  assumes "kvs_config_load inet_pton fs path s = (Inr cf, s')"
  obtains content seen where "fs path = Some content" "validate_config cf seen = None"
    "config_scan inet_pton (config_lines content) 0 config_defaults (\<lambda>_. None) = Inr (cf, seen)"
  using assms
  by (auto simp: kvs_config_load_def read_lines_def Let_def split: if_splits option.splits prod.splits bool.splits sum.splits)

lemma validate_config_fields:
  assumes "validate_config cf seen = None"
  shows "required_fields (cf_role cf) \<subseteq> dom seen" "dom seen \<subseteq> required_fields (cf_role cf) \<union> optional_fields"
proof -
  show "required_fields (cf_role cf) \<subseteq> dom seen"
    using assms by (cases "cf_role cf") (auto simp: validate_config_def validate_role_def split: if_splits option.splits)
  have "f \<in> required_fields (cf_role cf) \<union> optional_fields" if "seen f \<noteq> None" for f
    using assms that
    by (cases f; cases "cf_role cf")
       (simp_all add: validate_config_def validate_role_def optional_fields_def split: if_splits option.splits)
  then show "dom seen \<subseteq> required_fields (cf_role cf) \<union> optional_fields"
    by (auto simp: dom_def)
qed

lemma config_load_valid:
  assumes "kvs_config_load inet_pton fs path s = (Inr cf, s')"
  obtains content seen where "config_valid inet_pton cf" "fs path = Some content"
    "config_scan inet_pton (config_lines content) 0 config_defaults (\<lambda>_. None) = Inr (cf, seen)"
    "required_fields (cf_role cf) \<subseteq> dom seen" "dom seen \<subseteq> required_fields (cf_role cf) \<union> optional_fields"
proof -
  obtain content seen where *: "fs path = Some content" "validate_config cf seen = None"
      "config_scan inet_pton (config_lines content) 0 config_defaults (\<lambda>_. None) = Inr (cf, seen)"
    by (rule config_load_cases [OF assms])
  have "scan_ok inet_pton config_defaults (\<lambda>_. None)"
    by (simp add: scan_ok_def config_defaults_def)
  then have "config_valid inet_pton cf"
    using config_scan_ok [OF _ *(3)] validate_config_valid [OF _ *(2)] by simp
  from that [OF this *(1,3) validate_config_fields [OF *(2)]] show ?thesis .
qed


section \<open>Writing a configuration down\<close>

text \<open>A text that can stand as a key or a value: not empty, no white space, no \<open>=\<close>, no NUL, not a comment.\<close>

definition token_text :: "bytes \<Rightarrow> bool" where
  "token_text t \<longleftrightarrow> t \<noteq> [] \<and> list_all (\<lambda>c. \<not> is_space c \<and> c \<noteq> CHR ''='' \<and> c \<noteq> NUL \<and> c \<noteq> CHR ''#'') t"

definition field_name :: "config_field \<Rightarrow> bytes" where
  "field_name f = fst (the (find (\<lambda>p. snd p = f) field_names))"

definition config_entry :: "config_field \<times> bytes \<Rightarrow> bytes" where
  "config_entry = (\<lambda>(f, v). field_name f @ ''='' @ v @ [LF])"

lemma field_name_token: "token_text (field_name f)"
  by (induction f; code_simp)

lemma find_field_name: "find_field (field_name f) = Some f"
  by (induction f; code_simp)

lemma space_LF: "is_space LF" "LF \<noteq> CHR ''=''" "LF \<noteq> NUL" "NUL \<noteq> CHR ''=''" "CHR ''='' \<noteq> NUL"
  by code_simp+

lemma token_text_LF: "token_text t \<Longrightarrow> LF \<notin> set t"
  using space_LF by (auto simp: token_text_def list_all_iff)

lemma trim_framed:
  assumes "t \<noteq> []" "\<not> is_space (hd t)" "\<not> is_space (last t)" "list_all is_space sp"
  shows "trim (t @ sp) = t"
proof -
  have *: "dropWhile is_space (rev t) = rev t"
    using assms(1,3) by (cases t rule: rev_cases) auto
  have "dropWhile is_space (t @ sp) = t @ sp"
    using assms(1,2) by (cases t) auto
  moreover have "dropWhile is_space (rev sp @ rev t) = dropWhile is_space (rev t)"
    using assms(4) by (intro dropWhile_append2) (simp add: list_all_iff)
  ultimately show ?thesis
    by (simp add: trim_def *)
qed

lemma trim_token: "token_text t \<Longrightarrow> trim t = t"
  using trim_framed [of t "[]"] by (cases t rule: rev_cases) (auto simp: token_text_def list_all_iff hd_append split: if_splits)

lemma takeWhile_stop: "(\<And>x. x \<in> set xs \<Longrightarrow> P x) \<Longrightarrow> \<not> P y \<Longrightarrow> takeWhile P (xs @ y # ys) = xs"
  by (simp add: takeWhile_append2)

lemma dropWhile_stop: "(\<And>x. x \<in> set xs \<Longrightarrow> P x) \<Longrightarrow> \<not> P y \<Longrightarrow> dropWhile P (xs @ y # ys) = y # ys"
  by (simp add: dropWhile_append2)

lemma entry_line:
  assumes "token_text v" "seen f = None"
  shows "config_line inet_pton (config_entry (f, v)) n parsed seen =
    (case config_parse_field inet_pton f v parsed n of Inl e \<Rightarrow> Inl e | Inr parsed \<Rightarrow> Inr (parsed, seen(f \<mapsto> n)))"
proof -
  let ?k = "field_name f"
  have k: "?k \<noteq> []" "hd ?k \<noteq> CHR ''#''" "\<And>c. c \<in> set ?k \<Longrightarrow> \<not> is_space c \<and> c \<noteq> CHR ''='' \<and> c \<noteq> NUL"
    using field_name_token [of f] by (auto simp: token_text_def list_all_iff)
  have v: "v \<noteq> []" "\<And>c. c \<in> set v \<Longrightarrow> \<not> is_space c \<and> c \<noteq> CHR ''='' \<and> c \<noteq> NUL"
    using assms(1) by (auto simp: token_text_def list_all_iff)
  have e: "config_entry (f, v) = (?k @ ''='' @ v) @ [LF]"
    by (simp add: config_entry_def)
  have "takeWhile (\<lambda>c. c \<noteq> NUL) (config_entry (f, v)) = config_entry (f, v)"
    using k v space_LF by (auto simp: e takeWhile_eq_all_conv)
  moreover have "trim (config_entry (f, v)) = ?k @ ''='' @ v"
    unfolding e by (rule trim_framed) (use k v space_LF in \<open>auto simp: hd_append\<close>)
  ultimately have entry: "trim (takeWhile (\<lambda>c. c \<noteq> NUL) (config_entry (f, v))) = ?k @ CHR ''='' # v"
    by (simp del: takeWhile_eq_all_conv)
  have parts: "takeWhile (\<lambda>c. c \<noteq> CHR ''='') (?k @ CHR ''='' # v) = ?k" "dropWhile (\<lambda>c. c \<noteq> CHR ''='') (?k @ CHR ''='' # v) = CHR ''='' # v"
    using k by (simp_all add: takeWhile_append2 dropWhile_append2)
  have "CHR ''='' \<notin> set v"
    using v by blast
  then show ?thesis
    using k(1,2) v(1) assms(2) trim_token [OF assms(1)] trim_token [OF field_name_token, of f]
    by (simp add: config_line_def Let_def find_field_name hd_append entry parts)
qed

lemma config_lines_cons:
  assumes "LF \<notin> set l"
  shows "config_lines (l @ LF # rest) = (l @ [LF]) # config_lines rest"
proof -
  have "takeWhile (\<lambda>c. c \<noteq> LF) (l @ LF # rest) = l" "dropWhile (\<lambda>c. c \<noteq> LF) (l @ LF # rest) = LF # rest"
    using assms by - (rule takeWhile_stop dropWhile_stop; auto)+
  then show ?thesis
    by (simp add: config_lines.simps [of "l @ LF # rest"] Let_def)
qed

lemma config_lines_entries:
  assumes "list_all (\<lambda>(f, v). token_text v) ps"
  shows "config_lines (concat (map config_entry ps)) = map config_entry ps"
  using assms
proof (induction ps)
  case Nil
  show ?case by (simp add: config_lines.simps)
next
  case (Cons p ps)
  obtain f v where p: "p = (f, v)" by (cases p)
  have "LF \<notin> set (field_name f @ ''='' @ v)"
    using Cons.prems p token_text_LF field_name_token space_LF by auto
  from config_lines_cons [OF this] show ?case
    using Cons p by (simp add: config_entry_def)
qed

text \<open>The fields of a configuration, as they are written down.\<close>

definition role_text :: "kvs_role_t \<Rightarrow> bytes" where
  "role_text r = (case r of ROLE_STANDALONE \<Rightarrow> ''standalone'' | ROLE_PRIMARY \<Rightarrow> ''primary'' | ROLE_REPLICA \<Rightarrow> ''replica'')"

definition log_level_text :: "kvs_log_level_t \<Rightarrow> bytes" where
  "log_level_text l = (case l of LOG_ERROR \<Rightarrow> ''error'' | LOG_INFO \<Rightarrow> ''info'' | LOG_DEBUG \<Rightarrow> ''debug'')"

definition mode_text :: "kvs_persistence_mode_t \<Rightarrow> bytes" where
  "mode_text m = (case m of PERSISTENCE_LEGACY_HYBRID \<Rightarrow> ''legacy_hybrid'' | PERSISTENCE_SNAPSHOT \<Rightarrow> ''snapshot'' | PERSISTENCE_AOF \<Rightarrow> ''aof'')"

definition allocator_text :: "kvs_allocator_backend \<Rightarrow> bytes" where
  "allocator_text a = (case a of KVS_ALLOCATOR_SYSTEM \<Rightarrow> ''system'' | KVS_ALLOCATOR_POOL \<Rightarrow> ''pool'')"

definition config_pairs :: "kvs_config_t \<Rightarrow> (config_field \<times> bytes) list" where
  "config_pairs cf =
     [(FIELD_ROLE, role_text (cf_role cf)), (FIELD_BIND_IP, cf_bind_ip cf), (FIELD_SERVICE_PORT, decimal (cf_service_port cf)),
      (FIELD_LOG_LEVEL, log_level_text (cf_log_level cf)), (FIELD_PERSISTENCE_MODE, mode_text (cf_persistence_mode cf)),
      (FIELD_ALLOCATOR, allocator_text (cf_allocator_backend cf))] @
     (case cf_role cf of
        ROLE_STANDALONE \<Rightarrow> []
      | ROLE_PRIMARY \<Rightarrow> [(FIELD_RDMA_PORT, decimal (cf_rdma_port cf))]
      | ROLE_REPLICA \<Rightarrow> [(FIELD_PRIMARY_HOST, cf_primary_host cf), (FIELD_PRIMARY_PORT, decimal (cf_primary_port cf))])"

definition config_text :: "kvs_config_t \<Rightarrow> bytes" where
  "config_text cf = concat (map config_entry (config_pairs cf))"

text \<open>Addresses that can be written down as they are.\<close>

definition config_plain :: "(bytes \<Rightarrow> bool) \<Rightarrow> kvs_config_t \<Rightarrow> bool" where
  "config_plain inet_pton cf \<longleftrightarrow>
     inet_pton (cf_bind_ip cf) \<and> token_text (cf_bind_ip cf) \<and> length (cf_bind_ip cf) \<le> 15 \<and> cf_replication_port cf = 0 \<and>
     (cf_role cf = ROLE_REPLICA \<longrightarrow> inet_pton (cf_primary_host cf) \<and> token_text (cf_primary_host cf) \<and>
        cf_primary_host cf \<noteq> ''0.0.0.0'' \<and> length (cf_primary_host cf) \<le> 255)"

lemma fixed_tokens: "token_text (role_text r)" "token_text (log_level_text l)" "token_text (mode_text m)" "token_text (allocator_text a)"
proof -
  show "token_text (role_text r)" by (induction r; code_simp)
  show "token_text (log_level_text l)" by (induction l; code_simp)
  show "token_text (mode_text m)" by (induction m; code_simp)
  show "token_text (allocator_text a)" by (induction a; code_simp)
qed

lemma digit_token: "is_digit c \<Longrightarrow> \<not> is_space c \<and> c \<noteq> CHR ''='' \<and> c \<noteq> NUL \<and> c \<noteq> CHR ''#''"
  by (auto simp: is_digit_def is_space_def NUL_def)

lemma decimal_token: "token_text (decimal n)"
  using decimal_all_digits [of _ n] digit_token by (subst token_text_def) (auto simp: list_all_iff)

lemma parse_port_decimal: "port_ok p \<Longrightarrow> parse_port (decimal p) = Some p"
  using decimal_token [of p] decimal_all_digits [of _ p]
  by (auto simp: parse_port_def port_ok_def digits_value_decimal token_text_def list_all_iff Let_def)

lemma config_pairs_tokens: "config_plain inet_pton cf \<Longrightarrow> list_all (\<lambda>(f, v). token_text v) (config_pairs cf)"
  by (auto simp: config_pairs_def config_plain_def fixed_tokens decimal_token split: kvs_role_t.split)

text \<open>The lines of a valid configuration are read back as that configuration.\<close>

lemma parse_texts:
  "config_parse_field inet_pton FIELD_ROLE (role_text r) parsed n = Inr (parsed\<lparr>cf_role := r\<rparr>)"
  "config_parse_field inet_pton FIELD_LOG_LEVEL (log_level_text l) parsed n = Inr (parsed\<lparr>cf_log_level := l\<rparr>)"
  "config_parse_field inet_pton FIELD_PERSISTENCE_MODE (mode_text m) parsed n = Inr (parsed\<lparr>cf_persistence_mode := m\<rparr>)"
  "config_parse_field inet_pton FIELD_ALLOCATOR (allocator_text a) parsed n = Inr (parsed\<lparr>cf_allocator_backend := a\<rparr>)"
  by (simp_all add: config_parse_field_def role_text_def log_level_text_def mode_text_def allocator_text_def
      split: kvs_role_t.split kvs_log_level_t.split kvs_persistence_mode_t.split kvs_allocator_backend.split)

lemma parse_values:
  "inet_pton v \<Longrightarrow> length v \<le> 15 \<Longrightarrow> config_parse_field inet_pton FIELD_BIND_IP v parsed n = Inr (parsed\<lparr>cf_bind_ip := v\<rparr>)"
  "port_ok p \<Longrightarrow> config_parse_field inet_pton FIELD_SERVICE_PORT (decimal p) parsed n = Inr (parsed\<lparr>cf_service_port := p\<rparr>)"
  "port_ok p \<Longrightarrow> config_parse_field inet_pton FIELD_RDMA_PORT (decimal p) parsed n = Inr (parsed\<lparr>cf_rdma_port := p\<rparr>)"
  "port_ok p \<Longrightarrow> config_parse_field inet_pton FIELD_PRIMARY_PORT (decimal p) parsed n = Inr (parsed\<lparr>cf_primary_port := p\<rparr>)"
  "inet_pton v \<Longrightarrow> length v \<le> 255 \<Longrightarrow> v \<noteq> ''0.0.0.0'' \<Longrightarrow>
     config_parse_field inet_pton FIELD_PRIMARY_HOST v parsed n = Inr (parsed\<lparr>cf_primary_host := v\<rparr>)"
  by (simp_all add: config_parse_field_def parse_port_decimal stored_def)

lemma scan_config_text:
  assumes "config_valid inet_pton cf" "config_plain inet_pton cf"
  shows "\<exists>seen. config_scan inet_pton (config_lines (config_text cf)) 0 config_defaults (\<lambda>_. None) = Inr (cf, seen) \<and>
    validate_config cf seen = None"
proof -
  have c: "port_ok (cf_service_port cf)" "inet_pton (cf_bind_ip cf)" "token_text (cf_bind_ip cf)" "length (cf_bind_ip cf) \<le> 15"
      "cf_replication_port cf = 0"
    using assms by (simp_all add: config_valid_def config_plain_def)
  let ?lines = "map config_entry (config_pairs cf)"
  have lines: "config_lines (config_text cf) = ?lines"
    unfolding config_text_def by (rule config_lines_entries [OF config_pairs_tokens [OF assms(2)]])
  note reading = config_pairs_def entry_line parse_texts parse_values fixed_tokens decimal_token c
  note constraints = validate_config_def validate_role_def config_defaults_def
  show ?thesis
  proof (cases "cf_role cf")
    case ROLE_STANDALONE
    then have r: "cf_rdma_port cf = 0" "cf_primary_host cf = []" "cf_primary_port cf = 0" "cf_persistence_mode cf \<noteq> PERSISTENCE_LEGACY_HYBRID"
      using assms(1) by (simp_all add: config_valid_def)
    then show ?thesis
      using c ROLE_STANDALONE unfolding lines
      by (cases cf; cases "cf_persistence_mode cf") (simp_all add: reading constraints)
  next
    case ROLE_PRIMARY
    then have r: "port_ok (cf_rdma_port cf)" "cf_rdma_port cf \<noteq> cf_service_port cf" "cf_primary_host cf = []" "cf_primary_port cf = 0"
        "cf_persistence_mode cf = PERSISTENCE_LEGACY_HYBRID"
      using assms(1) by (simp_all add: config_valid_def)
    then show ?thesis
      using c ROLE_PRIMARY unfolding lines by (cases cf) (simp add: reading constraints)
  next
    case ROLE_REPLICA
    then have r: "cf_rdma_port cf = 0" "port_ok (cf_primary_port cf)" "cf_persistence_mode cf = PERSISTENCE_LEGACY_HYBRID"
        "inet_pton (cf_primary_host cf)" "token_text (cf_primary_host cf)" "cf_primary_host cf \<noteq> ''0.0.0.0''" "length (cf_primary_host cf) \<le> 255"
      using assms by (simp_all add: config_valid_def config_plain_def)
    then show ?thesis
      using c ROLE_REPLICA unfolding lines by (cases cf) (simp add: reading constraints)
  qed
qed

lemma load_config_text:
  assumes "config_valid inet_pton cf" "config_plain inet_pton cf" "fs path = Some (config_text cf)" "path \<noteq> []" "\<forall>n. s_oscall s n"
  shows "fst (kvs_config_load inet_pton fs path s) = Inr cf"
proof -
  obtain seen where "config_scan inet_pton (config_lines (config_text cf)) 0 config_defaults (\<lambda>_. None) = Inr (cf, seen)"
      "validate_config cf seen = None"
    using scan_config_text [OF assms(1,2)] by blast
  then show ?thesis
    using assms(3-5) by (simp add: kvs_config_load_def read_lines_def os_call_def Let_def)
qed

end
