(* ===== verification/Pool_Invariant.thy ===== *)
theory Pool_Invariant
  imports Allocator
begin

unbundle bit_operations_syntax

text \<open>
  What holds of the allocator's memory between calls.  Regions are 64 KiB aligned, lie in
  mapped memory and do not overlap; every slab has the shape its block size gives it, and
  its free list threads exactly the blocks whose bit is clear; the headers form the lists
  the static variables start.  From this follows what the blocks in use are like.
\<close>

section \<open>Address arithmetic\<close>

lemma slab_start_eq:
  assumes "a < 2 ^ 64"
  shows "slab_start a = a div KVS_SLAB_SIZE * KVS_SLAB_SIZE"
proof -
  let ?w = "word_of_nat a :: 64 word"
  have m: "NOT (word_of_nat KVS_SLAB_SIZE - 1 :: 64 word) = NOT (mask 16)"
    by (simp add: KVS_SLAB_SIZE_def mask_eq_exp_minus_1)
  have "?w AND NOT (mask 16) = push_bit 16 (drop_bit 16 ?w)"
    by (rule bit_word_eqI) (auto simp: bit_simps)
  moreover have "unat (push_bit 16 (drop_bit 16 ?w)) = a div 65536 * 65536"
  proof -
    have "a div 65536 * 65536 < 2 ^ 64"
      using assms div_times_less_eq_dividend [of a 65536] by linarith
    then show ?thesis
      using assms by (simp add: push_bit_eq_mult drop_bit_eq_div unat_word_ariths unat_div unat_of_nat take_bit_nat_eq_self)
  qed
  ultimately show ?thesis
    by (simp only: slab_start_def m) (simp add: KVS_SLAB_SIZE_def)
qed

lemma size_minus_eq:
  assumes "b \<le> a" "a < 2 ^ 64"
  shows "size_minus a b = a - b"
  using assms by (simp add: size_minus_def unat_sub word_le_nat_alt unat_of_nat take_bit_nat_eq_self)


lemma slab_start_inside:
  assumes "p mod KVS_SLAB_SIZE = 0" "n < KVS_SLAB_SIZE" "p + n < 2 ^ 64"
  shows "slab_start (p + n) = p"
proof -
  have "(p + n) div KVS_SLAB_SIZE = p div KVS_SLAB_SIZE"
    using assms by (metis add.right_neutral div_less div_plus_div_distrib_dvd_left mod_0_imp_dvd)
  with assms show ?thesis
    by (simp add: slab_start_eq) (metis add.right_neutral div_mult_mod_eq)
qed

definition within :: "nat \<times> nat \<Rightarrow> nat \<times> nat \<Rightarrow> bool" where
  "within x y \<longleftrightarrow> fst y \<le> fst x \<and> fst x + snd x \<le> fst y + snd y"

lemma apart_sym: "apart x y \<longleftrightarrow> apart y x"
  by (auto simp: apart_def)

lemma apart_within: "apart x y \<Longrightarrow> within x' x \<Longrightarrow> within y' y \<Longrightarrow> apart x' y'"
  by (auto simp: apart_def within_def)

lemma within_trans: "within x y \<Longrightarrow> within y z \<Longrightarrow> within x z"
  by (auto simp: within_def)

lemma cut_range_keeps:
  assumes "within y x" "apart r y" "0 < snd y"
  shows "\<exists>z\<in>set (cut_range r x). within y z"
  using assms by (auto simp: cut_range_def apart_def within_def)

lemma munmap_keeps:
  assumes "munmap a len K = (b, K')" "x \<in> set (k_space K)" "within y x" "apart (a, len) y" "0 < snd y"
  shows "\<exists>z\<in>set (k_space K'). within y z"
proof (cases b)
  case False
  with assms show ?thesis
    by (auto simp: munmap_def Let_def split: if_splits)
next
  case True
  have "\<exists>z\<in>set (cut_range (a, len) x). within y z"
    by (rule cut_range_keeps [OF assms(3-5)])
  moreover have "k_space K' = concat (map (cut_range (a, len)) (k_space K))"
    using True assms(1) by (auto simp: munmap_def Let_def split: if_splits)
  ultimately show ?thesis
    using assms(2) by auto
qed

lemma munmap_simps:
  assumes "munmap a len K = (b, K')"
  shows "k_page K' = k_page K" "k_nmap K' = k_nmap K" "k_unmap K' = k_unmap K"
  using assms by (auto simp: munmap_def Let_def split: if_splits)

text \<open>A range lies in one mapped range; no part of a non-empty mapped range gets lost.\<close>

definition covered :: "kernel \<Rightarrow> nat \<times> nat \<Rightarrow> bool" where
  "covered K y \<longleftrightarrow> (\<exists>x\<in>set (k_space K). within y x)"

definition vacant :: "kernel \<Rightarrow> nat \<times> nat \<Rightarrow> bool" where
  "vacant K r \<longleftrightarrow> (\<forall>x\<in>set (k_space K). apart r x)"

lemma vacant_apart: "vacant K r \<Longrightarrow> covered K y \<Longrightarrow> apart r y"
  by (auto simp: vacant_def covered_def intro: apart_within simp: within_def)

lemma vacant_within: "vacant K r \<Longrightarrow> within r' r \<Longrightarrow> vacant K r'"
  by (auto simp: vacant_def intro: apart_within simp: within_def)

lemma munmap_covered:
  "munmap a len K = (b, K') \<Longrightarrow> covered K y \<Longrightarrow> apart (a, len) y \<Longrightarrow> 0 < snd y \<Longrightarrow> covered K' y"
  unfolding covered_def using munmap_keeps by metis

lemma mmap_law:
  assumes "mmap len K = (res, K')"
  shows "k_page K' = k_page K \<and> k_unmap K' = k_unmap K" "k_nmap K' = Suc (k_nmap K)"
    "covered K y \<Longrightarrow> covered K' y"
    "res = Some a \<Longrightarrow> 0 < a \<and> a mod nat (k_page K) = 0 \<and> a + len \<le> 2 ^ 64 \<and> vacant K (a, len) \<and> covered K' (a, len)"
    "res = None \<Longrightarrow> k_space K' = k_space K"
  using assms
  by (auto simp: mmap_def placeable_def covered_def vacant_def within_def list_all_iff Let_def
      split: option.splits if_splits)

lemma aligned_up:
  assumes "raw + req + KVS_SLAB_SIZE \<le> 2 ^ 64" "0 < req"
  defines "p \<equiv> slab_start (raw + KVS_SLAB_SIZE - 1)"
  shows "p mod KVS_SLAB_SIZE = 0" "raw \<le> p" "p < raw + KVS_SLAB_SIZE"
proof -
  have "raw + KVS_SLAB_SIZE - 1 < 2 ^ 64"
    using assms by (simp add: KVS_SLAB_SIZE_def)
  then have p: "p = (raw + KVS_SLAB_SIZE - 1) div KVS_SLAB_SIZE * KVS_SLAB_SIZE"
    unfolding p_def by (rule slab_start_eq)
  then show "p mod KVS_SLAB_SIZE = 0" "raw \<le> p" "p < raw + KVS_SLAB_SIZE"
    by (auto simp: KVS_SLAB_SIZE_def)
qed

definition region_kept :: "allocator \<Rightarrow> allocator \<Rightarrow> bool" where
  "region_kept A A' \<longleftrightarrow>
     (\<exists>K. A' = A\<lparr>al_kern := K\<rparr>) \<and> k_page (al_kern A') = k_page (al_kern A) \<and>
     k_unmap (al_kern A') = k_unmap (al_kern A) \<and> k_nmap (al_kern A) \<le> k_nmap (al_kern A') \<and>
     (\<forall>y. 0 < snd y \<longrightarrow> covered (al_kern A) y \<longrightarrow> covered (al_kern A') y)"

lemma optional_munmap:
  assumes "(if n \<noteq> 0 then munmap a n K else (True, K)) = (b, K')"
  shows "k_page K' = k_page K \<and> k_unmap K' = k_unmap K" "k_nmap K' = k_nmap K"
    "covered K y \<Longrightarrow> apart (a, n) y \<Longrightarrow> 0 < snd y \<Longrightarrow> covered K' y"
  using assms munmap_simps munmap_covered by (auto split: if_splits)

lemma region_memory_alloc_law:
  assumes "region_memory_alloc req A = (res, A')"
  shows "region_kept A A' \<and> (\<forall>p. res = Some p \<longrightarrow>
      p mod KVS_SLAB_SIZE = 0 \<and> 0 < p \<and> p + req \<le> 2 ^ 64 \<and> 0 < req \<and>
      vacant (al_kern A) (p, req) \<and> covered (al_kern A') (p, req) \<and> k_nmap (al_kern A) < k_nmap (al_kern A'))"
proof (cases "k_page (al_kern A) \<le> 0 \<or> KVS_SLAB_SIZE mod nat (k_page (al_kern A)) \<noteq> 0 \<or> req = 0 \<or>
    req mod nat (k_page (al_kern A)) \<noteq> 0 \<or> req > SIZE_MAX - KVS_SLAB_SIZE")
  case True
  then show ?thesis
    using assms by (auto simp: region_memory_alloc_def Let_def region_kept_def split: if_splits intro: exI [of _ "al_kern A"])
next
  case False
  obtain m K1 where m: "mmap (req + KVS_SLAB_SIZE) (al_kern A) = (m, K1)" by force
  note mm = mmap_law [OF m]
  show ?thesis
  proof (cases m)
    case None
    then show ?thesis
      using assms False m mm(1-3) by (auto simp: region_memory_alloc_def Let_def region_kept_def)
  next
    case (Some raw)
    let ?all = "(raw, req + KVS_SLAB_SIZE)"
    define p where "p = slab_start (raw + KVS_SLAB_SIZE - 1)"
    have p_def: "slab_start (raw + KVS_SLAB_SIZE - Suc 0) = p"
      by (simp add: p_def)
    have raw: "0 < raw" "raw + req + KVS_SLAB_SIZE \<le> 2 ^ 64" "vacant (al_kern A) ?all" "covered K1 ?all" "0 < req"
      using mm(4) [OF Some] False by auto
    have p: "p mod KVS_SLAB_SIZE = 0" "raw \<le> p" "p < raw + KVS_SLAB_SIZE"
      using aligned_up [OF raw(2,5)] by (simp_all add: p_def)
    define pre suf where "pre = p - raw" and "suf = KVS_SLAB_SIZE - pre"
    have sizes: "size_minus p raw = pre" "size_minus (req + KVS_SLAB_SIZE) pre = req + suf"
        "size_minus (req + suf) req = suf"
      using raw p False by (simp_all add: size_minus_eq pre_def suf_def SIZE_MAX_def KVS_SLAB_SIZE_def)
    obtain c1 K2 where c1: "(if pre \<noteq> 0 then munmap raw pre K1 else (True, K1)) = (c1, K2)" by force
    note k2 = optional_munmap [OF c1]
    obtain c2 K3 where c2: "(if suf \<noteq> 0 then munmap (p + req) suf K2 else (True, K2)) = (c2, K3)" by force
    note k3 = optional_munmap [OF c2]
    obtain b1 K4 where b1: "munmap raw (req + KVS_SLAB_SIZE) K2 = (b1, K4)" by force
    obtain b2 K5 where b2: "munmap p (req + suf) K3 = (b2, K5)" by force
    have run: "(res, A') = (if \<not> c1 then (None, A\<lparr>al_kern := K4\<rparr>) else if \<not> c2 then (None, A\<lparr>al_kern := K5\<rparr>)
        else (Some p, A\<lparr>al_kern := K3\<rparr>))"
      using assms False m Some c1 c2 b1 b2 sizes p_def
      by (simp add: region_memory_alloc_def Let_def split: if_splits)
    have parts: "within (raw, pre) ?all" "within (p + req, suf) ?all" "within (p, req + suf) ?all" "within (p, req) ?all"
      using p by (auto simp: within_def pre_def suf_def)
    have old: "apart x y" if "covered (al_kern A) y" "within x ?all" for x y
      using vacant_apart [OF vacant_within [OF raw(3) that(2)] that(1)] .
    have keep: "covered K3 y" "covered K4 y" "covered K5 y" if "covered (al_kern A) y" "0 < snd y" for y
    proof -
      have 2: "covered K2 y"
        using k2(3) [OF mm(3) [OF that(1)] old [OF that(1) parts(1)] that(2)] .
      then show 3: "covered K3 y"
        using k3(3) [OF _ old [OF that(1) parts(2)] that(2)] by blast
      show "covered K4 y"
        using munmap_covered [OF b1 2 old [OF that(1)] that(2)] by (simp add: within_def)
      show "covered K5 y"
        using munmap_covered [OF b2 3 old [OF that(1) parts(3)] that(2)] .
    qed
    have "covered K1 (p, req)"
      using raw(4) parts(4) by (auto simp: covered_def intro: within_trans)
    then have "covered K2 (p, req)"
      using k2(3) [of "(p, req)"] raw(5) p by (simp add: apart_def pre_def)
    then have "covered K3 (p, req)"
      using k3(3) [of "(p, req)"] raw(5) by (simp add: apart_def)
    moreover have "k_nmap K3 = Suc (k_nmap (al_kern A))" "k_nmap K4 = Suc (k_nmap (al_kern A))" "k_nmap K5 = Suc (k_nmap (al_kern A))"
        "k_page K3 = k_page (al_kern A)" "k_page K4 = k_page (al_kern A)" "k_page K5 = k_page (al_kern A)"
        "k_unmap K3 = k_unmap (al_kern A)" "k_unmap K4 = k_unmap (al_kern A)" "k_unmap K5 = k_unmap (al_kern A)"
      using mm(1,2) k2(1,2) k3(1,2) munmap_simps [OF b1] munmap_simps [OF b2] by simp_all
    ultimately show ?thesis
      using run keep p raw vacant_within [OF raw(3) parts(4)]
      by (auto simp: region_kept_def split: if_splits)
  qed
qed

section \<open>The invariant\<close>

text \<open>A block is in use when its bit is set.  The free blocks, by their index, in the order
  of the list threaded through them.\<close>

definition bit_at :: "8 word list \<Rightarrow> nat \<Rightarrow> bool" where
  "bit_at bm i = bit (bm ! (i div 8)) (i mod 8)"

fun free_chain :: "(nat \<Rightarrow> nat option) \<Rightarrow> nat \<Rightarrow> nat \<Rightarrow> nat option \<Rightarrow> nat list \<Rightarrow> bool" where
  "free_chain lk start n p [] \<longleftrightarrow> p = None"
| "free_chain lk start n p (i # is) \<longleftrightarrow> p = Some (start + i * n) \<and> free_chain lk start n (lk (start + i * n)) is"

definition slab_shape :: "nat \<Rightarrow> kvs_slab \<Rightarrow> bool" where
  "slab_shape x sb \<longleftrightarrow>
     sb_block_size sb \<in> set class_sizes \<and> sb_data sb = x + data_offset (sb_block_size sb) \<and>
     sb_capacity sb = (KVS_SLAB_SIZE - data_offset (sb_block_size sb)) div sb_block_size sb \<and>
     length (sb_bitmap sb) = bitmap_bytes (sb_block_size sb)"

definition slab_blocks :: "(nat \<Rightarrow> nat option) \<Rightarrow> kvs_slab \<Rightarrow> bool" where
  "slab_blocks lk sb \<longleftrightarrow>
     (\<exists>is. free_chain lk (sb_data sb) (sb_block_size sb) (sb_free_list sb) is \<and> distinct is \<and>
        set is = {i. i < sb_capacity sb \<and> \<not> bit_at (sb_bitmap sb) i} \<and>
        sb_used_count sb + length is = sb_capacity sb)"

definition region_size :: "kvs_region \<Rightarrow> nat" where
  "region_size r = (case r of KVS_REGION_SLAB _ \<Rightarrow> KVS_SLAB_SIZE | KVS_REGION_LARGE lg \<Rightarrow> lg_mapping_size lg)"

definition region_ok :: "(nat \<Rightarrow> nat option) \<Rightarrow> kernel \<Rightarrow> nat \<Rightarrow> kvs_region \<Rightarrow> bool" where
  "region_ok lk K x r \<longleftrightarrow>
     x mod KVS_SLAB_SIZE = 0 \<and> 0 < x \<and> x + region_size r \<le> 2 ^ 64 \<and> covered K (x, region_size r) \<and>
     (case r of
        KVS_REGION_SLAB sb \<Rightarrow> slab_shape x sb \<and> slab_blocks lk sb
      | KVS_REGION_LARGE lg \<Rightarrow> large_offset < lg_mapping_size lg)"

definition regions_ok :: "allocator \<Rightarrow> bool" where
  "regions_ok A \<longleftrightarrow>
     (\<forall>x r. al_regions A x = Some r \<longrightarrow> region_ok (al_links A) (al_kern A) x r) \<and>
     (\<forall>x y r r'. al_regions A x = Some r \<longrightarrow> al_regions A y = Some r' \<longrightarrow> x \<noteq> y \<longrightarrow>
        apart (x, region_size r) (y, region_size r'))"

text \<open>The lists of headers: what each header says of its neighbours.\<close>

definition slab_nodes :: "(nat \<Rightarrow> kvs_region option) \<Rightarrow> nat \<Rightarrow> (nat \<times> nat option) option" where
  "slab_nodes R x = (case R x of Some (KVS_REGION_SLAB sb) \<Rightarrow> Some (sb_block_size sb, sb_next sb) | _ \<Rightarrow> None)"

definition large_nodes :: "(nat \<Rightarrow> kvs_region option) \<Rightarrow> nat \<Rightarrow> (nat option \<times> nat option) option" where
  "large_nodes R x = (case R x of Some (KVS_REGION_LARGE lg) \<Rightarrow> Some (lg_prev lg, lg_next lg) | _ \<Rightarrow> None)"

fun slab_chain :: "(nat \<Rightarrow> (nat \<times> nat option) option) \<Rightarrow> nat \<Rightarrow> nat option \<Rightarrow> nat list \<Rightarrow> bool" where
  "slab_chain N n p [] \<longleftrightarrow> p = None"
| "slab_chain N n p (x # xs) \<longleftrightarrow> p = Some x \<and> (\<exists>q. N x = Some (n, q) \<and> slab_chain N n q xs)"

fun large_chain :: "(nat \<Rightarrow> (nat option \<times> nat option) option) \<Rightarrow> nat option \<Rightarrow> nat option \<Rightarrow> nat list \<Rightarrow> bool" where
  "large_chain L prev p [] \<longleftrightarrow> p = None"
| "large_chain L prev p (x # xs) \<longleftrightarrow> p = Some x \<and> (\<exists>q. L x = Some (prev, q) \<and> large_chain L (Some x) q xs)"

definition lists_ok :: "allocator \<Rightarrow> nat list list \<Rightarrow> nat list \<Rightarrow> bool" where
  "lists_ok A sss ls \<longleftrightarrow>
     list_all2 (\<lambda>c ss. slab_chain (slab_nodes (al_regions A)) (sc_block_size c) (sc_slabs c) ss) (pools A) sss \<and>
     large_chain (large_nodes (al_regions A)) None (large_regions A) ls \<and>
     distinct (concat sss @ ls) \<and> dom (al_regions A) = set (concat sss @ ls) \<and>
     length (concat sss @ ls) \<le> k_nmap (al_kern A)"

definition pool_inv :: "allocator \<Rightarrow> bool" where
  "pool_inv A \<longleftrightarrow> map sc_block_size (pools A) = class_sizes \<and> regions_ok A \<and> (\<exists>sss ls. lists_ok A sss ls)"

text \<open>What clients hold: start and usable length of every block in use.\<close>

definition region_live :: "nat \<Rightarrow> kvs_region \<Rightarrow> (nat \<times> nat) set" where
  "region_live x r =
     (case r of
        KVS_REGION_SLAB sb \<Rightarrow>
          {(sb_data sb + i * sb_block_size sb, sb_block_size sb) |i. i < sb_capacity sb \<and> bit_at (sb_bitmap sb) i}
      | KVS_REGION_LARGE lg \<Rightarrow> {(x + large_offset, lg_mapping_size lg - large_offset)})"

definition live_blocks :: "allocator \<Rightarrow> (nat \<times> nat) set" where
  "live_blocks A = {b. \<exists>x r. al_regions A x = Some r \<and> b \<in> region_live x r}"

section \<open>Slabs\<close>

lemma class_geometry:
  assumes "n \<in> set class_sizes"
  shows "n mod 16 = 0" "16 \<le> n" "n \<le> 4096" "64 \<le> data_offset n" "data_offset n mod 16 = 0" "data_offset n + n \<le> KVS_SLAB_SIZE"
    "(KVS_SLAB_SIZE - data_offset n) div n \<le> 8 * bitmap_bytes n"
proof -
  have "list_all (\<lambda>n. n mod 16 = 0 \<and> 16 \<le> n \<and> n \<le> 4096 \<and> 64 \<le> data_offset n \<and> data_offset n mod 16 = 0 \<and>
      data_offset n + n \<le> KVS_SLAB_SIZE \<and> (KVS_SLAB_SIZE - data_offset n) div n \<le> 8 * bitmap_bytes n) class_sizes"
    by (simp add: class_sizes_def data_offset_def bitmap_bytes_def KVS_SLAB_SIZE_def sizeof_slab_def max_alignment_def Let_def)
  with assms show "n mod 16 = 0" "16 \<le> n" "n \<le> 4096" "64 \<le> data_offset n" "data_offset n mod 16 = 0" "data_offset n + n \<le> KVS_SLAB_SIZE"
      "(KVS_SLAB_SIZE - data_offset n) div n \<le> 8 * bitmap_bytes n"
    by (auto simp: list_all_iff)
qed

lemma bit_at_set:
  assumes "i div 8 < length bm"
  shows "bit_at (set_bit_of bm i) j \<longleftrightarrow> i = j \<or> bit_at bm j"
proof (cases "i div 8 = j div 8")
  case True
  then have "i = j \<longleftrightarrow> i mod 8 = j mod 8"
    by (metis div_mult_mod_eq)
  moreover have "i mod 8 < 8" "j mod 8 < 8" by simp_all
  ultimately show ?thesis
    using True assms
    by (auto simp: bit_at_def set_bit_of_def bit_simps)
next
  case False
  then show ?thesis
    by (auto simp: bit_at_def set_bit_of_def)
qed

lemma bit_at_clear:
  assumes "i div 8 < length bm"
  shows "bit_at (clear_bit_of bm i) j \<longleftrightarrow> i \<noteq> j \<and> bit_at bm j"
proof (cases "i div 8 = j div 8")
  case True
  then have "i = j \<longleftrightarrow> i mod 8 = j mod 8"
    by (metis div_mult_mod_eq)
  moreover have "i mod 8 < 8" "j mod 8 < 8" by simp_all
  ultimately show ?thesis
    using True assms
    by (auto simp: bit_at_def clear_bit_of_def bit_simps)
next
  case False
  then show ?thesis
    by (auto simp: bit_at_def clear_bit_of_def)
qed

lemma bit_test:
  "(bm ! (i div 8)) AND push_bit (i mod 8) 1 = (0 :: 8 word) \<longleftrightarrow> \<not> bit_at bm i"
proof -
  have "i mod 8 < 8" by simp
  then show ?thesis
    by (auto simp: bit_at_def bit_eq_iff [where 'a = "8 word"] bit_simps dest: spec [where x = "i mod 8"])
qed

lemma free_chain_cong:
  "(\<And>i. i \<in> set is \<Longrightarrow> lk (start + i * n) = lk' (start + i * n)) \<Longrightarrow>
   free_chain lk start n p is \<longleftrightarrow> free_chain lk' start n p is"
  by (induction "is" arbitrary: p) auto

lemma carve_chain:
  assumes "carve start n i m (lk, fl) = (lk', fl')" "free_chain lk start n fl is" "\<forall>j\<in>set is. j < i" "distinct is" "0 < n"
  shows "(\<exists>js. free_chain lk' start n fl' js \<and> distinct js \<and> set js = {i..<i + m} \<union> set is \<and> length js = m + length is)
    \<and> (\<forall>a. (\<forall>j<i + m. a \<noteq> start + j * n) \<longrightarrow> lk' a = lk a)"
  using assms
proof (induction m arbitrary: i lk fl "is")
  case 0
  then show ?case by auto
next
  case (Suc m)
  let ?a = "start + i * n"
  have "free_chain (lk(?a := fl)) start n (Some ?a) (i # is)"
    using Suc.prems by (auto intro!: free_chain_cong [THEN iffD2, OF _ Suc.prems(2)])
  moreover have "carve start n (Suc i) m (lk(?a := fl), Some ?a) = (lk', fl')" "\<forall>j\<in>set (i # is). j < Suc i" "distinct (i # is)"
    using Suc.prems by (auto simp: less_Suc_eq)
  ultimately have "(\<exists>js. free_chain lk' start n fl' js \<and> distinct js \<and> set js = {Suc i..<Suc i + m} \<union> set (i # is) \<and> length js = m + length (i # is))
    \<and> (\<forall>a. (\<forall>j<Suc i + m. a \<noteq> start + j * n) \<longrightarrow> lk' a = (lk(?a := fl)) a)"
    using Suc.IH Suc.prems(5) by blast
  moreover have "{Suc i..<Suc i + m} \<union> set (i # is) = {i..<i + Suc m} \<union> set is"
    by auto
  moreover have "i < Suc i + m" by simp
  ultimately show ?case
    by (auto simp: add.commute)
qed

lemma slab_block_place:
  assumes "slab_shape x sb" "i < sb_capacity sb"
  defines "a \<equiv> sb_data sb + i * sb_block_size sb"
  shows "x + sizeof_slab \<le> a" "a + sb_block_size sb \<le> x + KVS_SLAB_SIZE" "i div 8 < length (sb_bitmap sb)"
    "x mod KVS_SLAB_SIZE = 0 \<Longrightarrow> a mod max_alignment = 0"
proof -
  let ?n = "sb_block_size sb"
  note g = class_geometry [of ?n]
  have n: "?n \<in> set class_sizes" and sh: "sb_data sb = x + data_offset ?n" "sb_capacity sb = (KVS_SLAB_SIZE - data_offset ?n) div ?n"
      "length (sb_bitmap sb) = bitmap_bytes ?n"
    using assms(1) by (auto simp: slab_shape_def)
  show "x + sizeof_slab \<le> a"
    using g [OF n] sh by (simp add: a_def sizeof_slab_def)
  have "Suc i * ?n \<le> KVS_SLAB_SIZE - data_offset ?n"
    using assms(2) sh(2) by (metis Suc_leI div_times_less_eq_dividend mult_le_mono1 order_trans)
  then show "a + ?n \<le> x + KVS_SLAB_SIZE"
    using g [OF n] sh by (simp add: a_def)
  show "i div 8 < length (sb_bitmap sb)"
    using g(7) [OF n] sh assms(2) by simp
  assume "x mod KVS_SLAB_SIZE = 0"
  then have "x mod 16 = 0"
    by (auto simp: KVS_SLAB_SIZE_def)
  then show "a mod max_alignment = 0"
    using g(1,5) [OF n] sh(1) by (auto simp: a_def max_alignment_def mod_eq_0_iff_dvd)
qed

lemma slab_block_index:
  assumes "slab_shape x sb" "i < sb_capacity sb" "x + KVS_SLAB_SIZE \<le> 2 ^ 64"
  defines "a \<equiv> sb_data sb + i * sb_block_size sb"
  shows "size_minus a (sb_data sb) = i * sb_block_size sb" "size_minus a (sb_data sb) div sb_block_size sb = i"
    "0 < sb_block_size sb"
proof -
  have n: "0 < sb_block_size sb"
    using assms(1) class_geometry(2) [of "sb_block_size sb"] by (auto simp: slab_shape_def)
  then show "0 < sb_block_size sb" .
  have "a < 2 ^ 64"
    using slab_block_place(2) [OF assms(1,2)] assms(3) n by (simp add: a_def)
  then show "size_minus a (sb_data sb) = i * sb_block_size sb"
    by (simp add: size_minus_eq a_def)
  with n show "size_minus a (sb_data sb) div sb_block_size sb = i"
    by simp
qed

lemma slab_take:
  assumes "slab_shape x sb" "slab_blocks lk sb" "sb_free_list sb = Some b"
  obtains i where "i < sb_capacity sb" "b = sb_data sb + i * sb_block_size sb" "\<not> bit_at (sb_bitmap sb) i"
    "slab_blocks lk (sb\<lparr>sb_free_list := lk b, sb_bitmap := set_bit_of (sb_bitmap sb) i, sb_used_count := Suc (sb_used_count sb)\<rparr>)"
proof -
  obtain "is" where "is": "free_chain lk (sb_data sb) (sb_block_size sb) (sb_free_list sb) is" "distinct is"
      "set is = {i. i < sb_capacity sb \<and> \<not> bit_at (sb_bitmap sb) i}" "sb_used_count sb + length is = sb_capacity sb"
    using assms(2) by (auto simp: slab_blocks_def)
  then obtain i js where i: "is = i # js"
    using assms(3) by (cases "is") auto
  have place: "i < sb_capacity sb" "\<not> bit_at (sb_bitmap sb) i" "b = sb_data sb + i * sb_block_size sb"
    using "is" i assms(3) by auto
  have "set js = {j. j < sb_capacity sb \<and> \<not> bit_at (set_bit_of (sb_bitmap sb) i) j}"
  proof -
    have "set js = set is - {i}"
      using "is"(2) i by auto
    then show ?thesis
      unfolding "is"(3) bit_at_set [OF slab_block_place(3) [OF assms(1) place(1)]] by blast
  qed
  then have "slab_blocks lk (sb\<lparr>sb_free_list := lk b, sb_bitmap := set_bit_of (sb_bitmap sb) i, sb_used_count := Suc (sb_used_count sb)\<rparr>)"
    unfolding slab_blocks_def using "is" i by (intro exI [of _ js]) (simp add: place(3))
  with place that show thesis by blast
qed

lemma slab_give:
  assumes "slab_shape x sb" "slab_blocks lk sb" "i < sb_capacity sb" "bit_at (sb_bitmap sb) i"
  defines "b \<equiv> sb_data sb + i * sb_block_size sb"
  shows "sb_used_count sb \<noteq> 0"
    "slab_blocks (lk(b := sb_free_list sb))
      (sb\<lparr>sb_bitmap := clear_bit_of (sb_bitmap sb) i, sb_free_list := Some b, sb_used_count := sb_used_count sb - 1\<rparr>)"
proof -
  obtain "is" where "is": "free_chain lk (sb_data sb) (sb_block_size sb) (sb_free_list sb) is" "distinct is"
      "set is = {i. i < sb_capacity sb \<and> \<not> bit_at (sb_bitmap sb) i}" "sb_used_count sb + length is = sb_capacity sb"
    using assms(2) by (auto simp: slab_blocks_def)
  have n: "0 < sb_block_size sb"
    using assms(1) class_geometry(2) [of "sb_block_size sb"] by (auto simp: slab_shape_def)
  have "set is \<subset> {i. i < sb_capacity sb}"
    using "is"(3) assms(3,4) by auto
  then have "length is < sb_capacity sb"
    using psubset_card_mono [of "{i. i < sb_capacity sb}" "set is"] "is"(2) by (simp add: distinct_card)
  then show used: "sb_used_count sb \<noteq> 0"
    using "is"(4) by simp
  have "free_chain (lk(b := sb_free_list sb)) (sb_data sb) (sb_block_size sb) (sb_free_list sb) is"
    using "is"(1) by (rule free_chain_cong [THEN iffD2, rotated]) (use "is"(3) assms(4) n in \<open>auto simp: b_def\<close>)
  moreover have "set (i # is) = {j. j < sb_capacity sb \<and> \<not> bit_at (clear_bit_of (sb_bitmap sb) i) j}"
    using "is"(3) assms(3) slab_block_place(3) [OF assms(1,3)] by (auto simp: bit_at_clear)
  moreover have "distinct (i # is)"
    using "is"(2,3) assms(4) by auto
  ultimately show "slab_blocks (lk(b := sb_free_list sb))
      (sb\<lparr>sb_bitmap := clear_bit_of (sb_bitmap sb) i, sb_free_list := Some b, sb_used_count := sb_used_count sb - 1\<rparr>)"
    unfolding slab_blocks_def using "is"(4) used by (intro exI [of _ "i # is"]) (auto simp: b_def)
qed

lemma slab_unused:
  assumes "slab_blocks lk sb"
  shows "sb_used_count sb = 0 \<longleftrightarrow> (\<forall>i < sb_capacity sb. \<not> bit_at (sb_bitmap sb) i)"
    and "sb_used_count sb = card {i. i < sb_capacity sb \<and> bit_at (sb_bitmap sb) i}"
proof -
  let ?used = "{i. i < sb_capacity sb \<and> bit_at (sb_bitmap sb) i}"
  let ?free = "{i. i < sb_capacity sb \<and> \<not> bit_at (sb_bitmap sb) i}"
  have "sb_used_count sb + card ?free = sb_capacity sb"
  proof -
    obtain "is" where "distinct is" "set is = ?free" "sb_used_count sb + length is = sb_capacity sb"
      using assms by (auto simp: slab_blocks_def)
    then show ?thesis by (metis distinct_card)
  qed
  moreover have "card ?used + card ?free = card (?used \<union> ?free)"
    by (rule card_Un_disjoint [symmetric]) auto
  moreover have "?used \<union> ?free = {..<sb_capacity sb}" by auto
  ultimately show u: "sb_used_count sb = card ?used" by simp
  then show "sb_used_count sb = 0 \<longleftrightarrow> (\<forall>i < sb_capacity sb. \<not> bit_at (sb_bitmap sb) i)"
    by auto
qed

section \<open>Regions\<close>

lemma region_ok_frame:
  assumes "region_ok lk K x r" "\<And>a. x \<le> a \<Longrightarrow> a < x + region_size r \<Longrightarrow> lk' a = lk a" "covered K' (x, region_size r)"
  shows "region_ok lk' K' x r"
proof (cases r)
  case (KVS_REGION_SLAB sb)
  then have sb: "slab_shape x sb" "slab_blocks lk sb" "region_size r = KVS_SLAB_SIZE"
    using assms(1) by (simp_all add: region_ok_def region_size_def)
  have "lk' (sb_data sb + i * sb_block_size sb) = lk (sb_data sb + i * sb_block_size sb)" if "i < sb_capacity sb" for i
    using slab_block_place(1,2) [OF sb(1) that] class_geometry(2) [of "sb_block_size sb"] sb
    by (intro assms(2)) (auto simp: slab_shape_def sizeof_slab_def)
  then have "free_chain lk' (sb_data sb) (sb_block_size sb) p is = free_chain lk (sb_data sb) (sb_block_size sb) p is"
    if "set is \<subseteq> {i. i < sb_capacity sb}" for p "is"
    using that by (intro free_chain_cong) auto
  then have "slab_blocks lk' sb"
    using sb(2) unfolding slab_blocks_def by (metis (no_types, lifting) mem_Collect_eq subsetI)
  with KVS_REGION_SLAB assms(1,3) show ?thesis
    by (simp add: region_ok_def)
next
  case (KVS_REGION_LARGE lg)
  with assms(1,3) show ?thesis
    by (simp add: region_ok_def)
qed

lemma region_size_pos: "region_ok lk K x r \<Longrightarrow> 0 < region_size r"
  by (auto simp: region_ok_def region_size_def KVS_SLAB_SIZE_def split: kvs_region.splits)

lemma regions_okD:
  assumes "regions_ok A" "al_regions A x = Some r"
  shows "region_ok (al_links A) (al_kern A) x r" "0 < region_size r" "covered (al_kern A) (x, region_size r)"
    "al_regions A y = Some r' \<Longrightarrow> x \<noteq> y \<Longrightarrow> apart (x, region_size r) (y, region_size r')"
proof -
  show r: "region_ok (al_links A) (al_kern A) x r"
    using assms by (auto simp: regions_ok_def)
  then show "0 < region_size r" "covered (al_kern A) (x, region_size r)"
    using region_size_pos by (auto simp: region_ok_def)
  show "al_regions A y = Some r' \<Longrightarrow> x \<noteq> y \<Longrightarrow> apart (x, region_size r) (y, region_size r')"
    using assms by (auto simp: regions_ok_def)
qed

lemma regions_ok_update:
  assumes "regions_ok A" "al_regions A x = Some r" "region_size r' = region_size r"
    and "region_ok (al_links A') (al_kern A) x r'" "\<And>a. \<not> (x \<le> a \<and> a < x + region_size r) \<Longrightarrow> al_links A' a = al_links A a"
    and "al_regions A' = (al_regions A)(x \<mapsto> r')" "al_kern A' = al_kern A"
  shows "regions_ok A'"
  unfolding regions_ok_def
proof (intro conjI allI impI)
  fix y q assume y: "al_regions A' y = Some q"
  show "region_ok (al_links A') (al_kern A') y q"
  proof (cases "y = x")
    case True
    with y assms show ?thesis by simp
  next
    case False
    with y assms(6) have q: "al_regions A y = Some q" by simp
    have ap: "apart (x, region_size r) (y, region_size q)"
      using regions_okD(4) [OF assms(1,2) q] False by blast
    show ?thesis
      using regions_okD(1,3) [OF assms(1) q] assms(7) ap
      by (auto intro!: region_ok_frame [of "al_links A" "al_kern A"] assms(5) simp: apart_def)
  qed
next
  fix y z q q' assume *: "al_regions A' y = Some q" "al_regions A' z = Some q'" "y \<noteq> z"
  then show "apart (y, region_size q) (z, region_size q')"
    using assms(2,3,6) regions_okD(4) [OF assms(1)] by (auto split: if_splits)
qed

lemma regions_ok_add:
  assumes "regions_ok A" "vacant (al_kern A) (x, region_size r)" "region_ok (al_links A') (al_kern A') x r"
    and "\<And>y. 0 < snd y \<Longrightarrow> covered (al_kern A) y \<Longrightarrow> covered (al_kern A') y"
    and "\<And>a. \<not> (x \<le> a \<and> a < x + region_size r) \<Longrightarrow> al_links A' a = al_links A a"
    and "al_regions A' = (al_regions A)(x \<mapsto> r)"
  shows "regions_ok A'" "al_regions A x = None"
proof -
  have ap: "apart (x, region_size r) (y, region_size q)" if "al_regions A y = Some q" for y q
    using vacant_apart [OF assms(2) regions_okD(3) [OF assms(1) that]] .
  show new: "al_regions A x = None"
  proof (rule ccontr)
    assume "al_regions A x \<noteq> None"
    then obtain q where "al_regions A x = Some q" by blast
    with ap [OF this] regions_okD(2) [OF assms(1) this] region_size_pos [OF assms(3)] show False
      by (auto simp: apart_def)
  qed
  show "regions_ok A'"
    unfolding regions_ok_def
  proof (intro conjI allI impI)
    fix y q assume y: "al_regions A' y = Some q"
    show "region_ok (al_links A') (al_kern A') y q"
    proof (cases "y = x")
      case True
      with y assms(3,6) show ?thesis by simp
    next
      case False
      with y assms(6) have q: "al_regions A y = Some q" by simp
      show ?thesis
        using ap [OF q] regions_okD(1-3) [OF assms(1) q]
        by (auto intro!: region_ok_frame [of "al_links A" "al_kern A"] assms(4,5) simp: apart_def)
    qed
  next
    fix y z q q' assume "al_regions A' y = Some q" "al_regions A' z = Some q'" "y \<noteq> z"
    then show "apart (y, region_size q) (z, region_size q')"
      using assms(6) ap ap [THEN apart_sym [THEN iffD1]] regions_okD(4) [OF assms(1)] by (auto split: if_splits)
  qed
qed

lemma release_region_law:
  assumes "regions_ok A" "al_regions A x = Some r" "release_region x (region_size r) A = (b, A')"
  shows "regions_ok A'" "al_regions A' = (if b then (al_regions A)(x := None) else al_regions A)"
    "pools A' = pools A" "large_regions A' = large_regions A" "al_links A' = al_links A"
    "k_nmap (al_kern A') = k_nmap (al_kern A)" "k_unmap (al_kern A') = k_unmap (al_kern A)"
    "allocator_initialized A' = allocator_initialized A" "allocator_backend A' = allocator_backend A"
proof -
  obtain K where K: "munmap x (region_size r) (al_kern A) = (b, K)"
      and A': "A' = (if b then A\<lparr>al_kern := K, al_regions := (\<lambda>y. if x \<le> y \<and> y < x + region_size r then None else al_regions A y)\<rparr>
        else A\<lparr>al_kern := K\<rparr>)"
    using assms(3) by (auto simp: release_region_def split: prod.splits bool.splits)
  have out: "\<not> (x \<le> y \<and> y < x + region_size r)" if "al_regions A y = Some q" "x \<noteq> y" for y q
    using regions_okD(4) [OF assms(1,2) that] regions_okD(2) [OF assms(1) that(1)] by (auto simp: apart_def)
  have R: "(\<lambda>y. if x \<le> y \<and> y < x + region_size r then None else al_regions A y) = (al_regions A)(x := None)"
  proof
    fix y show "(if x \<le> y \<and> y < x + region_size r then None else al_regions A y) = ((al_regions A)(x := None)) y"
      using out [of y] regions_okD(2) [OF assms(1,2)] by (cases "al_regions A y") auto
  qed
  show regs: "al_regions A' = (if b then (al_regions A)(x := None) else al_regions A)"
    using A' R by simp
  show "pools A' = pools A" "large_regions A' = large_regions A" "al_links A' = al_links A"
      "k_nmap (al_kern A') = k_nmap (al_kern A)" "k_unmap (al_kern A') = k_unmap (al_kern A)"
      "allocator_initialized A' = allocator_initialized A" "allocator_backend A' = allocator_backend A"
    using A' munmap_simps [OF K] by simp_all
  have kern: "al_kern A' = K" using A' by simp
  show "regions_ok A'"
    unfolding regions_ok_def
  proof (intro conjI allI impI)
    fix y q assume y: "al_regions A' y = Some q"
    then have q: "al_regions A y = Some q" and yx: "b \<Longrightarrow> y \<noteq> x"
      using regs by (auto split: if_splits)
    have "covered K (y, region_size q)"
    proof (cases b)
      case True
      show ?thesis
        using munmap_covered [OF K regions_okD(3) [OF assms(1) q] regions_okD(4) [OF assms(1,2) q]] yx [OF True]
          regions_okD(2) [OF assms(1) q] by simp
    next
      case False
      then show ?thesis
        using K regions_okD(3) [OF assms(1) q] by (auto simp: munmap_def covered_def Let_def split: if_splits)
    qed
    then show "region_ok (al_links A') (al_kern A') y q"
      using regions_okD(1) [OF assms(1) q] A' kern by (auto intro: region_ok_frame [of "al_links A" "al_kern A"])
  next
    fix y z q q' assume "al_regions A' y = Some q" "al_regions A' z = Some q'" "y \<noteq> z"
    then show "apart (y, region_size q) (z, region_size q')"
      using regs regions_okD(4) [OF assms(1)] by (auto split: if_splits)
  qed
qed

section \<open>The blocks in use\<close>

lemma region_live_within:
  assumes "region_ok lk K x r" "b \<in> region_live x r"
  shows "within b (x, region_size r)" "0 < snd b" "fst b mod max_alignment = 0" "slab_start (fst b) = x"
proof -
  have x: "x mod KVS_SLAB_SIZE = 0" "x + region_size r \<le> 2 ^ 64"
    using assms(1) by (auto simp: region_ok_def)
  have all: "within b (x, region_size r) \<and> 0 < snd b \<and> fst b mod max_alignment = 0 \<and> slab_start (fst b) = x"
  proof (cases r)
    case (KVS_REGION_SLAB sb)
    then have sh: "slab_shape x sb" and sz: "region_size r = KVS_SLAB_SIZE"
      using assms(1) by (auto simp: region_ok_def region_size_def)
    obtain i where i: "i < sb_capacity sb" "b = (sb_data sb + i * sb_block_size sb, sb_block_size sb)"
      using assms(2) KVS_REGION_SLAB by (auto simp: region_live_def)
    note place = slab_block_place [OF sh i(1)] and pos = slab_block_index(3) [OF sh i(1)]
    define n where "n = fst b - x"
    have n: "fst b = x + n" "n < KVS_SLAB_SIZE" "x + n < 2 ^ 64"
      using place(1,2) pos i(2) x(2) sz by (auto simp: n_def)
    then have "slab_start (fst b) = x"
      using slab_start_inside [OF x(1)] by metis
    with place(1,2) place(4) [OF x(1)] pos x(2) sz i(2) show ?thesis
      by (auto simp: within_def)
  next
    case (KVS_REGION_LARGE lg)
    then have b: "b = (x + large_offset, lg_mapping_size lg - large_offset)" and sz: "region_size r = lg_mapping_size lg"
        and lt: "large_offset < lg_mapping_size lg"
      using assms by (auto simp: region_live_def region_size_def region_ok_def)
    have off: "large_offset = 32" by (simp add: large_offset_def sizeof_large_def max_alignment_def)
    have "slab_start (x + large_offset) = x"
      using slab_start_inside [OF x(1), of large_offset] x(2) sz lt off by (simp add: KVS_SLAB_SIZE_def)
    moreover have "(x + large_offset) mod max_alignment = 0"
    proof -
      have "x mod 16 = 0"
        using x(1) by (auto simp: KVS_SLAB_SIZE_def)
      then show ?thesis
        unfolding off max_alignment_def by presburger
    qed
    ultimately show ?thesis
      using b sz lt by (simp add: within_def)
  qed
  then show "within b (x, region_size r)" "0 < snd b" "fst b mod max_alignment = 0" "slab_start (fst b) = x"
    by auto
qed

lemma region_live_apart:
  assumes "region_ok lk K x r" "b \<in> region_live x r" "b' \<in> region_live x r" "b \<noteq> b'"
  shows "apart b b'"
proof (cases r)
  case (KVS_REGION_SLAB sb)
  obtain i j where i: "b = (sb_data sb + i * sb_block_size sb, sb_block_size sb)"
      "b' = (sb_data sb + j * sb_block_size sb, sb_block_size sb)"
    using assms(2,3) KVS_REGION_SLAB by (auto simp: region_live_def)
  with assms(4) have "i < j \<or> j < i" by auto
  moreover have "k * n + n \<le> l * n" if "k < l" for k l n :: nat
    using mult_le_mono1 [of "Suc k" l n] that by simp
  ultimately show ?thesis
    using i by (auto simp: apart_def)
next
  case (KVS_REGION_LARGE lg)
  with assms show ?thesis by (auto simp: region_live_def)
qed

lemma live_blocksE:
  assumes "regions_ok A" "b \<in> live_blocks A"
  obtains r where "al_regions A (slab_start (fst b)) = Some r" "b \<in> region_live (slab_start (fst b)) r"
    "region_ok (al_links A) (al_kern A) (slab_start (fst b)) r"
proof -
  obtain x r where x: "al_regions A x = Some r" "b \<in> region_live x r"
    using assms(2) by (auto simp: live_blocks_def)
  note ok = regions_okD(1) [OF assms(1) x(1)]
  have "slab_start (fst b) = x"
    by (rule region_live_within(4) [OF ok x(2)])
  with x ok that show thesis by simp
qed

lemma live_blocks_iff:
  assumes "regions_ok A"
  shows "b \<in> live_blocks A \<longleftrightarrow> (\<exists>r. al_regions A (slab_start (fst b)) = Some r \<and> b \<in> region_live (slab_start (fst b)) r)"
proof
  assume "b \<in> live_blocks A"
  then show "\<exists>r. al_regions A (slab_start (fst b)) = Some r \<and> b \<in> region_live (slab_start (fst b)) r"
    by (rule live_blocksE [OF assms]) blast
qed (auto simp: live_blocks_def)

text \<open>Blocks in use are aligned, not empty, inside mapped memory, and do not overlap.\<close>

lemma live_blocks_apart:
  assumes "regions_ok A" "b \<in> live_blocks A" "b' \<in> live_blocks A" "b \<noteq> b'"
  shows "apart b b'"
proof (cases "slab_start (fst b) = slab_start (fst b')")
  case True
  obtain r where r: "al_regions A (slab_start (fst b)) = Some r" "b \<in> region_live (slab_start (fst b)) r"
      "region_ok (al_links A) (al_kern A) (slab_start (fst b)) r"
    using live_blocksE [OF assms(1,2)] .
  with True assms(3) have "b' \<in> region_live (slab_start (fst b)) r"
    by (simp add: live_blocks_iff [OF assms(1)])
  with region_live_apart [OF r(3,2)] assms(4) show ?thesis by blast
next
  case False
  obtain r where r: "al_regions A (slab_start (fst b)) = Some r" "b \<in> region_live (slab_start (fst b)) r"
      "region_ok (al_links A) (al_kern A) (slab_start (fst b)) r"
    using live_blocksE [OF assms(1,2)] .
  obtain r' where r': "al_regions A (slab_start (fst b')) = Some r'" "b' \<in> region_live (slab_start (fst b')) r'"
      "region_ok (al_links A) (al_kern A) (slab_start (fst b')) r'"
    using live_blocksE [OF assms(1,3)] .
  show ?thesis
    using apart_within [OF regions_okD(4) [OF assms(1) r(1) r'(1) False]
        region_live_within(1) [OF r(3,2)] region_live_within(1) [OF r'(3,2)]] .
qed

lemma live_blocks_sound:
  assumes "regions_ok A" "b \<in> live_blocks A"
  shows "0 < snd b" "fst b mod max_alignment = 0" "covered (al_kern A) b"
proof -
  obtain r where r: "al_regions A (slab_start (fst b)) = Some r" "b \<in> region_live (slab_start (fst b)) r"
      "region_ok (al_links A) (al_kern A) (slab_start (fst b)) r"
    using live_blocksE [OF assms] .
  note w = region_live_within [OF r(3,2)]
  show "0 < snd b" "fst b mod max_alignment = 0" by (rule w(2), rule w(3))
  show "covered (al_kern A) b"
    using regions_okD(3) [OF assms(1) r(1)] w(1) by (auto simp: covered_def intro: within_trans)
qed

lemma region_live_other:
  assumes "regions_ok A" "al_regions A x = Some r" "al_regions A y = Some q" "x \<noteq> y" "b \<in> region_live x r"
  shows "b \<notin> region_live y q"
proof
  assume "b \<in> region_live y q"
  then have "slab_start (fst b) = y"
    by (rule region_live_within(4) [OF regions_okD(1) [OF assms(1,3)]])
  moreover have "slab_start (fst b) = x"
    by (rule region_live_within(4) [OF regions_okD(1) [OF assms(1,2)] assms(5)])
  ultimately show False
    using assms(4) by simp
qed

definition live_except :: "allocator \<Rightarrow> nat \<Rightarrow> (nat \<times> nat) set" where
  "live_except A x = {b. \<exists>y r. y \<noteq> x \<and> al_regions A y = Some r \<and> b \<in> region_live y r}"

lemma live_blocks_split:
  "live_blocks A = live_except A x \<union> (case al_regions A x of None \<Rightarrow> {} | Some r \<Rightarrow> region_live x r)"
proof
  show "live_blocks A \<subseteq> live_except A x \<union> (case al_regions A x of None \<Rightarrow> {} | Some r \<Rightarrow> region_live x r)"
  proof
    fix b assume "b \<in> live_blocks A"
    then obtain y r where "al_regions A y = Some r" "b \<in> region_live y r"
      by (auto simp: live_blocks_def)
    then show "b \<in> live_except A x \<union> (case al_regions A x of None \<Rightarrow> {} | Some r \<Rightarrow> region_live x r)"
      by (cases "y = x") (auto simp: live_except_def)
  qed
qed (auto simp: live_blocks_def live_except_def split: option.splits)

lemma live_except_upd: "al_regions A' = (al_regions A)(x := q) \<Longrightarrow> live_except A' x = live_except A x"
  by (auto simp: live_except_def)

lemma live_except_remove:
  assumes "regions_ok A" "al_regions A x = Some r"
  shows "live_except A x = live_blocks A - region_live x r"
  using assms(2) region_live_other [OF assms] by (auto simp: live_blocks_split [of A x] live_except_def)

lemma live_blocks_update:
  assumes "regions_ok A" "al_regions A x = Some r" "al_regions A' = (al_regions A)(x \<mapsto> r')"
  shows "live_blocks A' = (live_blocks A - region_live x r) \<union> region_live x r'"
  using live_except_remove [OF assms(1,2)] live_except_upd [OF assms(3)] assms(3)
  by (simp add: live_blocks_split [of A' x])

lemma live_blocks_remove:
  assumes "regions_ok A" "al_regions A x = Some r" "al_regions A' = (al_regions A)(x := None)"
  shows "live_blocks A' = live_blocks A - region_live x r"
  using live_except_remove [OF assms(1,2)] live_except_upd [OF assms(3)] assms(3)
  by (simp add: live_blocks_split [of A' x])

lemma live_blocks_add:
  "al_regions A x = None \<Longrightarrow> al_regions A' = (al_regions A)(x \<mapsto> r) \<Longrightarrow> live_blocks A' = live_blocks A \<union> region_live x r"
  using live_except_upd [of A' A x "Some r"] by (simp add: live_blocks_split [of _ x])

end
