(* ===== verification/Allocator_Laws.thy ===== *)
theory Allocator_Laws
  imports Pool_Invariant
begin

text \<open>
  The laws of the allocator's operations: every one of them ends, keeps the invariant, and
  changes the set of blocks in use by exactly the block it hands out or takes back.
\<close>

section \<open>The lists of regions\<close>

lemma slab_nodes_upd [simp]:
  "slab_nodes (R(x \<mapsto> KVS_REGION_SLAB sb)) = (slab_nodes R)(x \<mapsto> (sb_block_size sb, sb_next sb))"
  "slab_nodes (R(x \<mapsto> KVS_REGION_LARGE lg)) = (slab_nodes R)(x := None)"
  "slab_nodes (R(x := None)) = (slab_nodes R)(x := None)"
  by (auto simp: slab_nodes_def)

lemma large_nodes_upd [simp]:
  "large_nodes (R(x \<mapsto> KVS_REGION_LARGE lg)) = (large_nodes R)(x \<mapsto> (lg_prev lg, lg_next lg))"
  "large_nodes (R(x \<mapsto> KVS_REGION_SLAB sb)) = (large_nodes R)(x := None)"
  "large_nodes (R(x := None)) = (large_nodes R)(x := None)"
  by (auto simp: large_nodes_def)

lemma slab_chain_upd [simp]: "x \<notin> set xs \<Longrightarrow> slab_chain (N(x := v)) n p xs \<longleftrightarrow> slab_chain N n p xs"
  by (induction xs arbitrary: p) auto

lemma large_chain_upd [simp]: "x \<notin> set xs \<Longrightarrow> large_chain (L(x := v)) prev p xs \<longleftrightarrow> large_chain L prev p xs"
  by (induction xs arbitrary: p prev) auto

lemma slab_chain_node: "slab_chain N n p xs \<Longrightarrow> x \<in> set xs \<Longrightarrow> \<exists>q. N x = Some (n, q)"
  by (induction xs arbitrary: p) auto

lemma slab_lists_node:
  "list_all2 (\<lambda>c ss. slab_chain N (sc_block_size c) (sc_slabs c) ss) cs sss \<Longrightarrow> x \<in> set (concat sss) \<Longrightarrow> \<exists>n q. N x = Some (n, q)"
  by (induction rule: list_all2_induct) (auto dest: slab_chain_node)

lemma large_chain_node: "large_chain L prev p xs \<Longrightarrow> x \<in> set xs \<Longrightarrow> \<exists>q. L x = Some q"
  by (induction xs arbitrary: p prev) auto

lemma slab_nodesD: "slab_nodes R x = Some (n, q) \<Longrightarrow> \<exists>sb. R x = Some (KVS_REGION_SLAB sb) \<and> sb_block_size sb = n \<and> sb_next sb = q"
  by (auto simp: slab_nodes_def split: option.splits kvs_region.splits)

lemma large_nodesD: "large_nodes R x = Some (p, q) \<Longrightarrow> \<exists>lg. R x = Some (KVS_REGION_LARGE lg) \<and> lg_prev lg = p \<and> lg_next lg = q"
  by (auto simp: large_nodes_def split: option.splits kvs_region.splits)

lemma list_all2_upd:
  "list_all2 P xs ys \<Longrightarrow> P x y \<Longrightarrow> list_all2 P (xs[i := x]) (ys[i := y])"
  by (simp add: list_all2_update_cong)

lemma set_concat_upd:
  assumes "i < length xss"
  shows "set (concat (xss[i := x # xss ! i])) = insert x (set (concat xss))"
    "length (concat (xss[i := x # xss ! i])) = Suc (length (concat xss))"
    "distinct (concat (xss[i := x # xss ! i])) \<longleftrightarrow> x \<notin> set (concat xss) \<and> distinct (concat xss)"
  using assms
proof (induction xss arbitrary: i)
  case (Cons xs xss)
  { case 1 then show ?case using Cons(1) by (cases i) auto }
  { case 2 then show ?case using Cons(2) by (cases i) auto }
  { case 3 then show ?case using Cons(1,3) by (cases i) auto }
qed auto

section \<open>Slabs of a pool\<close>

text \<open>A change of one slab that leaves its size and its place in the list alone.\<close>

lemma put_slab_inv:
  assumes "pool_inv A" "al_regions A p = Some (KVS_REGION_SLAB sb)"
    and "sb_block_size sb' = sb_block_size sb" "sb_next sb' = sb_next sb" "slab_shape p sb'" "slab_blocks lk sb'"
    and "\<And>a. \<not> (p \<le> a \<and> a < p + KVS_SLAB_SIZE) \<Longrightarrow> lk a = al_links A a"
  defines "A' \<equiv> put_slab p sb' (A\<lparr>al_links := lk\<rparr>)"
  shows "pool_inv A'" "regions_ok A'"
    "live_blocks A' = live_blocks A - region_live p (KVS_REGION_SLAB sb) \<union> region_live p (KVS_REGION_SLAB sb')"
proof -
  have ok: "regions_ok A" and R: "al_regions A' = (al_regions A)(p \<mapsto> KVS_REGION_SLAB sb')"
    using assms(1) by (simp_all add: pool_inv_def A'_def put_slab_def)
  have sz: "region_size (KVS_REGION_SLAB sb') = region_size (KVS_REGION_SLAB sb)" "region_size (KVS_REGION_SLAB sb) = KVS_SLAB_SIZE"
    by (simp_all add: region_size_def)
  show ok': "regions_ok A'"
  proof (rule regions_ok_update [OF ok assms(2) sz(1)])
    show "region_ok (al_links A') (al_kern A) p (KVS_REGION_SLAB sb')"
      using regions_okD(1) [OF ok assms(2)] assms(5,6) sz by (simp add: region_ok_def A'_def put_slab_def)
  qed (use assms(7) sz R in \<open>auto simp: A'_def put_slab_def\<close>)
  show "live_blocks A' = live_blocks A - region_live p (KVS_REGION_SLAB sb) \<union> region_live p (KVS_REGION_SLAB sb')"
    by (rule live_blocks_update [OF ok assms(2) R])
  have "slab_nodes (al_regions A') = slab_nodes (al_regions A)" "large_nodes (al_regions A') = large_nodes (al_regions A)"
    using assms(2-4) by (auto simp: R slab_nodes_def large_nodes_def)
  moreover have "dom (al_regions A') = dom (al_regions A)"
    using assms(2) by (auto simp: R)
  ultimately have "lists_ok A' sss ls = lists_ok A sss ls" for sss ls
    by (simp add: lists_ok_def A'_def put_slab_def)
  with assms(1) ok' show "pool_inv A'"
    by (auto simp: pool_inv_def A'_def put_slab_def)
qed

lemma slab_alloc_block_law:
  assumes "pool_inv A" "al_regions A p = Some (KVS_REGION_SLAB sb)" "sb_free_list sb \<noteq> None"
  obtains b A' where "slab_alloc_block (Some p) A = Inr (Some b, A')" "pool_inv A'"
    "(b, sb_block_size sb) \<notin> live_blocks A" "live_blocks A' = insert (b, sb_block_size sb) (live_blocks A)"
    "allocator_initialized A' = allocator_initialized A" "allocator_backend A' = allocator_backend A" "al_kern A' = al_kern A"
proof -
  let ?n = "sb_block_size sb"
  have ok: "regions_ok A" using assms(1) by (simp add: pool_inv_def)
  have slab: "slab_shape p sb" "slab_blocks (al_links A) sb" "p + KVS_SLAB_SIZE \<le> 2 ^ 64"
    using regions_okD(1) [OF ok assms(2)] by (auto simp: region_ok_def region_size_def)
  obtain b where b: "sb_free_list sb = Some b" using assms(3) by blast
  obtain i where i: "i < sb_capacity sb" "b = sb_data sb + i * ?n" "\<not> bit_at (sb_bitmap sb) i"
      "slab_blocks (al_links A) (sb\<lparr>sb_free_list := al_links A b, sb_bitmap := set_bit_of (sb_bitmap sb) i,
         sb_used_count := Suc (sb_used_count sb)\<rparr>)"
    using slab_take [OF slab(1,2) b] .
  define sb' where "sb' = sb\<lparr>sb_free_list := al_links A b, sb_bitmap := set_bit_of (sb_bitmap sb) i,
         sb_used_count := Suc (sb_used_count sb)\<rparr>"
  define A' where "A' = put_slab p sb' A"
  note place = slab_block_place [OF slab(1) i(1)] and idx = slab_block_index [OF slab(1) i(1) slab(3)]
  have run: "slab_alloc_block (Some p) A = Inr (Some b, A')"
    using assms(2) b place(3) idx(2) i(2)
    by (simp add: slab_alloc_block_def get_slab_def A'_def sb'_def)
  have sh: "slab_shape p sb'"
    using slab(1) by (simp add: sb'_def slab_shape_def set_bit_of_def)
  have A'_put: "A' = put_slab p sb' (A\<lparr>al_links := al_links A\<rparr>)"
    by (simp add: A'_def)
  have inv: "pool_inv A'" "regions_ok A'"
      "live_blocks A' = live_blocks A - region_live p (KVS_REGION_SLAB sb) \<union> region_live p (KVS_REGION_SLAB sb')"
    unfolding A'_put
    by (rule put_slab_inv [OF assms(1,2)]; use sh i(4) in \<open>simp add: sb'_def\<close>)+
  have "region_live p (KVS_REGION_SLAB sb') = insert (b, ?n) (region_live p (KVS_REGION_SLAB sb))"
    using i(1,2) place(3) by (auto simp: region_live_def sb'_def bit_at_set)
  moreover have "region_live p (KVS_REGION_SLAB sb) \<subseteq> live_blocks A"
    using assms(2) by (auto simp: live_blocks_def)
  ultimately have live: "live_blocks A' = insert (b, ?n) (live_blocks A)"
    using inv(3) by auto
  have "(b, ?n) \<notin> region_live p (KVS_REGION_SLAB sb)"
    using i idx(3) by (auto simp: region_live_def)
  moreover have "slab_start b = p"
    using region_live_within(4) [OF regions_okD(1) [OF inv(2)], of p "KVS_REGION_SLAB sb'" "(b, ?n)"] i place(3)
    by (auto simp: A'_def put_slab_def region_live_def sb'_def bit_at_set)
  ultimately have "(b, ?n) \<notin> live_blocks A"
    using assms(2) by (simp add: live_blocks_iff [OF ok])
  with run inv(1) live that show thesis
    by (simp add: A'_def put_slab_def)
qed

lemma skip_full_law:
  assumes "slab_chain (slab_nodes (al_regions A)) n p xs" "length xs < fuel"
  shows "\<exists>res. skip_full fuel A p = Inr res \<and>
    (\<forall>x. res = Some x \<longrightarrow> x \<in> set xs \<and> (\<exists>sb. al_regions A x = Some (KVS_REGION_SLAB sb) \<and> sb_block_size sb = n \<and> sb_free_list sb \<noteq> None))"
  using assms
proof (induction fuel arbitrary: p xs)
  case (Suc fuel)
  show ?case
  proof (cases xs)
    case Nil
    with Suc.prems show ?thesis by simp
  next
    case (Cons x ys)
    with Suc.prems obtain sb where sb: "p = Some x" "al_regions A x = Some (KVS_REGION_SLAB sb)" "sb_block_size sb = n"
        "slab_chain (slab_nodes (al_regions A)) n (sb_next sb) ys"
      by (auto dest: slab_nodesD)
    with Suc.IH [of "sb_next sb" ys] Suc.prems(2) Cons show ?thesis
      by (auto simp: get_slab_def)
  qed
qed simp

lemma largest_class_pool:
  assumes "map sc_block_size (pools A) = class_sizes"
  shows "largest_class A = 4096" "length (pools A) = 16"
proof -
  have "pools A \<noteq> []"
    using assms by (auto simp: class_sizes_def)
  then have "largest_class A = last (map sc_block_size (pools A))"
    by (simp add: largest_class_def last_map)
  then show "largest_class A = 4096"
    by (simp add: assms class_sizes_def)
  show "length (pools A) = 16"
    using arg_cong [OF assms, of length] by (simp add: class_sizes_def)
qed

lemma find_class_from_law:
  "find_class_from k cs n = Some i \<Longrightarrow> k \<le> i \<and> i < k + length cs \<and> n \<le> sc_block_size (cs ! (i - k))"
  "find_class_from k cs n = None \<Longrightarrow> c \<in> set cs \<Longrightarrow> sc_block_size c < n"
proof (induction cs arbitrary: k)
  case (Cons d cs)
  { case 1
    then show ?case
      using Cons(1) [of "Suc k"] by (cases "n \<le> sc_block_size d") (auto simp: nth_Cons') }
  { case 2
    then show ?case
      using Cons(2) [of "Suc k"] by (auto split: if_splits) }
qed simp_all

lemma find_size_class_law:
  assumes "map sc_block_size (pools A) = class_sizes" "n \<le> largest_class A"
  obtains i where "find_size_class A n = Some i" "i < length (pools A)" "n \<le> sc_block_size (pools A ! i)"
    "sc_block_size (pools A ! i) \<in> set class_sizes"
proof (cases "find_size_class A n")
  case None
  have "pools A \<noteq> []"
    using assms(1) by (auto simp: class_sizes_def)
  then have "last (pools A) \<in> set (pools A)" by simp
  then have "largest_class A < n"
    using find_class_from_law(2) [of 0 "pools A" n "last (pools A)"] None by (simp add: find_size_class_def largest_class_def)
  with assms(2) show thesis by simp
next
  case (Some i)
  then have i: "i < length (pools A)" "n \<le> sc_block_size (pools A ! i)"
    using find_class_from_law(1) [of 0 "pools A" n i] by (auto simp: find_size_class_def)
  then have "sc_block_size (pools A ! i) \<in> set (map sc_block_size (pools A))"
    by simp
  with Some i that assms(1) show thesis by simp
qed

lemma slab_create_law:
  assumes "map sc_block_size (pools A) = class_sizes" "n \<in> set class_sizes" "slab_create n A = (res, A')"
  shows "\<exists>A1 lk. region_kept A A1 \<and>
    (case res of
       None \<Rightarrow> A' = A1 \<and> fst (region_memory_alloc KVS_SLAB_SIZE A) = None
     | Some p \<Rightarrow> \<exists>sb. A' = put_slab p sb (A1\<lparr>al_links := lk\<rparr>) \<and> sb_block_size sb = n \<and> sb_free_list sb \<noteq> None \<and>
         slab_shape p sb \<and> slab_blocks lk sb \<and> sb_used_count sb = 0 \<and>
         (\<forall>a. \<not> (p \<le> a \<and> a < p + KVS_SLAB_SIZE) \<longrightarrow> lk a = al_links A a) \<and>
         p mod KVS_SLAB_SIZE = 0 \<and> 0 < p \<and> p + KVS_SLAB_SIZE \<le> 2 ^ 64 \<and> vacant (al_kern A) (p, KVS_SLAB_SIZE) \<and>
         covered (al_kern A1) (p, KVS_SLAB_SIZE) \<and> k_nmap (al_kern A) < k_nmap (al_kern A1))"
proof -
  note g = class_geometry [OF assms(2)]
  let ?cap = "(KVS_SLAB_SIZE - data_offset n) div n"
  have cap: "?cap \<noteq> 0" and off: "data_offset n < KVS_SLAB_SIZE"
    using g by (simp_all add: div_eq_0_iff)
  obtain r A1 where r: "region_memory_alloc KVS_SLAB_SIZE A = (r, A1)" by force
  note law = region_memory_alloc_law [OF r]
  have guard: "\<not> (n < sizeof_free_block \<or> n mod max_alignment \<noteq> 0 \<or> n > largest_class A)"
    using g largest_class_pool(1) [OF assms(1)] by (simp add: sizeof_free_block_def max_alignment_def)
  show ?thesis
  proof (cases r)
    case None
    with assms(3) guard cap off r law show ?thesis
      by (auto simp: slab_create_def Let_def)
  next
    case (Some p)
    obtain lk fl where c: "carve (p + data_offset n) n 0 ?cap (al_links A1, None) = (lk, fl)" by force
    have links: "al_links A1 = al_links A"
      using law by (auto simp: region_kept_def)
    define sb where "sb = \<lparr>sb_block_size = n, sb_capacity = ?cap, sb_used_count = 0, sb_free_list = fl,
        sb_bitmap = replicate (bitmap_bytes n) 0, sb_data = p + data_offset n, sb_next = None\<rparr>"
    have run: "res = Some p" "A' = put_slab p sb (A1\<lparr>al_links := lk\<rparr>)"
      using assms(3) guard cap off r Some c by (auto simp: slab_create_def Let_def sb_def)
    have sh: "slab_shape p sb"
      using assms(2) by (simp add: slab_shape_def sb_def)
    obtain js where js: "free_chain lk (p + data_offset n) n fl js" "distinct js" "set js = {0..<?cap}" "length js = ?cap"
        and out: "\<forall>a. (\<forall>j<?cap. a \<noteq> p + data_offset n + j * n) \<longrightarrow> lk a = al_links A a"
      using carve_chain [OF c, of "[]"] g links by auto
    have clear: "\<not> bit_at (sb_bitmap sb) i" if "i < ?cap" for i
      using slab_block_place(3) [OF sh, of i] that by (simp add: sb_def bit_at_def)
    then have "slab_blocks lk sb"
      unfolding slab_blocks_def using js by (intro exI [of _ js]) (auto simp: sb_def)
    moreover have "fl \<noteq> None"
      using js cap by (cases js) auto
    moreover have "lk a = al_links A a" if "\<not> (p \<le> a \<and> a < p + KVS_SLAB_SIZE)" for a
    proof (rule out [rule_format])
      fix j assume "j < ?cap"
      then show "a \<noteq> p + data_offset n + j * n"
        using slab_block_place(1,2) [OF sh, of j] that g(2) by (auto simp: sb_def)
    qed
    ultimately show ?thesis
      using law run sh Some by (intro exI [of _ A1] exI [of _ lk]) (auto simp: sb_def intro!: exI [of _ sb])
  qed
qed

lemma region_kept_inv:
  assumes "pool_inv A" "region_kept A A'"
  shows "pool_inv A'" "live_blocks A' = live_blocks A" "pools A' = pools A" "al_regions A' = al_regions A"
    "large_regions A' = large_regions A" "al_links A' = al_links A"
    "allocator_initialized A' = allocator_initialized A" "allocator_backend A' = allocator_backend A"
    "k_unmap (al_kern A') = k_unmap (al_kern A)"
proof -
  obtain K where A': "A' = A\<lparr>al_kern := K\<rparr>"
    using assms(2) by (auto simp: region_kept_def)
  show "k_unmap (al_kern A') = k_unmap (al_kern A)"
    using assms(2) by (simp add: region_kept_def)
  from A' show "live_blocks A' = live_blocks A" "pools A' = pools A" "al_regions A' = al_regions A"
      "large_regions A' = large_regions A" "al_links A' = al_links A"
      "allocator_initialized A' = allocator_initialized A" "allocator_backend A' = allocator_backend A"
    by (simp_all add: live_blocks_def)
  have ok: "regions_ok A" using assms(1) by (simp add: pool_inv_def)
  have cov: "covered K y" if "covered (al_kern A) y" "0 < snd y" for y
    using assms(2) that A' by (cases y) (auto simp: region_kept_def)
  have "regions_ok A'"
    unfolding regions_ok_def
  proof (intro conjI allI impI)
    fix x r assume "al_regions A' x = Some r"
    then have x: "al_regions A x = Some r" by (simp add: A')
    show "region_ok (al_links A') (al_kern A') x r"
      using regions_okD [OF ok x] cov by (auto simp: A' intro: region_ok_frame [of "al_links A" "al_kern A"])
  next
    fix x y r r' assume "al_regions A' x = Some r" "al_regions A' y = Some r'" "x \<noteq> y"
    then show "apart (x, region_size r) (y, region_size r')"
      using regions_okD(4) [OF ok] by (simp add: A')
  qed
  moreover have "lists_ok A sss ls \<Longrightarrow> lists_ok A' sss ls" for sss ls
  proof -
    have "k_nmap (al_kern A) \<le> k_nmap K"
      using assms(2) by (simp add: region_kept_def A')
    then show "lists_ok A sss ls \<Longrightarrow> lists_ok A' sss ls"
      unfolding lists_ok_def A' by simp
  qed
  ultimately show "pool_inv A'"
    using assms(1) by (auto simp: pool_inv_def A')
qed

lemma add_slab_inv:
  assumes "pool_inv A" "region_kept A A1" "i < length (pools A)" "k_nmap (al_kern A) < k_nmap (al_kern A1)"
    and "sb_block_size sb = sc_block_size (pools A ! i)" "sb_next sb = sc_slabs (pools A ! i)" "sb_used_count sb = 0"
    and "slab_shape p sb" "slab_blocks lk sb" "\<And>a. \<not> (p \<le> a \<and> a < p + KVS_SLAB_SIZE) \<Longrightarrow> lk a = al_links A a"
    and "p mod KVS_SLAB_SIZE = 0" "0 < p" "p + KVS_SLAB_SIZE \<le> 2 ^ 64" "vacant (al_kern A) (p, KVS_SLAB_SIZE)"
    and "covered (al_kern A1) (p, KVS_SLAB_SIZE)"
  defines "A2 \<equiv> (put_slab p sb (A1\<lparr>al_links := lk\<rparr>))\<lparr>pools := (pools A)[i := (pools A ! i)\<lparr>sc_slabs := Some p\<rparr>]\<rparr>"
  shows "pool_inv A2" "live_blocks A2 = live_blocks A"
proof -
  note kept = region_kept_inv [OF assms(1,2)]
  let ?r = "KVS_REGION_SLAB sb"
  have ok: "regions_ok A" and sz: "region_size ?r = KVS_SLAB_SIZE"
    using assms(1) by (simp_all add: pool_inv_def region_size_def)
  have R: "al_regions A2 = (al_regions A)(p \<mapsto> ?r)" and K: "al_kern A2 = al_kern A1" and L: "al_links A2 = lk"
    by (simp_all add: A2_def put_slab_def kept)
  have "region_ok (al_links A2) (al_kern A2) p ?r"
    using assms(8,9,11-13,15) by (simp add: region_ok_def sz K L)
  then have ok2: "regions_ok A2" and new: "al_regions A p = None"
    using regions_ok_add [OF ok, of p ?r A2] assms(2,10,14) sz R K L by (auto simp: region_kept_def)
  have "region_live p ?r = {}"
    using slab_unused(1) [OF assms(9)] assms(7) by (auto simp: region_live_def)
  then show "live_blocks A2 = live_blocks A"
    using live_blocks_add [OF new R] by simp
  obtain sss ls where lists: "lists_ok A sss ls"
    using assms(1) by (auto simp: pool_inv_def)
  let ?N = "slab_nodes (al_regions A)"
  have chains: "list_all2 (\<lambda>c ss. slab_chain ?N (sc_block_size c) (sc_slabs c) ss) (pools A) sss"
      and dom: "dom (al_regions A) = set (concat sss @ ls)"
    using lists by (auto simp: lists_ok_def)
  have len: "length sss = length (pools A)"
    using chains by (simp add: list_all2_lengthD)
  have fresh: "p \<notin> set (concat sss @ ls)"
    using new dom by blast
  have old: "list_all2 (\<lambda>c ss. slab_chain (slab_nodes (al_regions A2)) (sc_block_size c) (sc_slabs c) ss) (pools A) sss"
    using chains fresh unfolding R by (auto simp: list_all2_conv_all_nth)
  have pools2: "pools A2 = (pools A)[i := (pools A ! i)\<lparr>sc_slabs := Some p\<rparr>]"
    by (simp add: A2_def)
  have "slab_chain (slab_nodes (al_regions A2)) (sc_block_size (pools A ! i)) (Some p) (p # sss ! i)"
    using list_all2_nthD [OF old assms(3)] assms(5,6) by (simp add: R)
  then have "list_all2 (\<lambda>c ss. slab_chain (slab_nodes (al_regions A2)) (sc_block_size c) (sc_slabs c) ss) (pools A2) (sss[i := p # sss ! i])"
    using list_all2_upd [OF old, of "(pools A ! i)\<lparr>sc_slabs := Some p\<rparr>" "p # sss ! i" i] pools2 by simp
  moreover have "large_chain (large_nodes (al_regions A2)) None (large_regions A2) ls"
    using lists fresh R by (simp add: lists_ok_def A2_def put_slab_def kept)
  ultimately have "lists_ok A2 (sss[i := p # sss ! i]) ls"
    using lists fresh assms(3,4) len R K set_concat_upd [of i sss p]
    by (auto simp: lists_ok_def)
  moreover have "map sc_block_size (pools A2) = map sc_block_size (pools A)"
    unfolding pools2 map_update using list_update_id [of "map sc_block_size (pools A)" i] assms(3) by simp
  ultimately show "pool_inv A2"
    using ok2 assms(1) by (auto simp: pool_inv_def)
qed

text \<open>The effect of a request: nothing, or one new block that is large enough.\<close>

definition alloc_effect :: "nat \<Rightarrow> allocator \<Rightarrow> nat option \<Rightarrow> allocator \<Rightarrow> bool" where
  "alloc_effect n A res A' \<longleftrightarrow>
     pool_inv A' \<and> allocator_initialized A' = allocator_initialized A \<and> allocator_backend A' = allocator_backend A \<and>
     k_unmap (al_kern A') = k_unmap (al_kern A) \<and>
     (case res of
        None \<Rightarrow> live_blocks A' = live_blocks A
      | Some p \<Rightarrow> \<exists>m\<ge>n. (p, m) \<notin> live_blocks A \<and> live_blocks A' = insert (p, m) (live_blocks A))"

lemma pool_alloc_small_law:
  assumes "pool_inv A" "0 < n" "n \<le> largest_class A"
  shows "\<exists>res A'. pool_alloc_small n A = Inr (res, A') \<and> alloc_effect n A res A' \<and>
    (res = None \<longrightarrow> fst (region_memory_alloc KVS_SLAB_SIZE A) = None)"
proof -
  have sizes: "map sc_block_size (pools A) = class_sizes"
    using assms(1) by (simp add: pool_inv_def)
  obtain i where i: "find_size_class A n = Some i" "i < length (pools A)" "n \<le> sc_block_size (pools A ! i)"
      "sc_block_size (pools A ! i) \<in> set class_sizes"
    using find_size_class_law [OF sizes assms(3)] .
  obtain sss ls where lists: "lists_ok A sss ls"
    using assms(1) by (auto simp: pool_inv_def)
  then have chain: "slab_chain (slab_nodes (al_regions A)) (sc_block_size (pools A ! i)) (sc_slabs (pools A ! i)) (sss ! i)"
    using i(2) by (auto simp: lists_ok_def dest: list_all2_nthD)
  have "i < length sss"
    using lists i(2) by (auto simp: lists_ok_def dest: list_all2_lengthD)
  then have "length (sss ! i) \<le> length (concat sss)"
    by (simp add: length_concat member_le_sum_list)
  then have fuel: "length (sss ! i) < region_bound A"
    using lists by (simp add: lists_ok_def region_bound_def)
  obtain res where res: "skip_full (region_bound A) A (sc_slabs (pools A ! i)) = Inr res"
      "\<And>x. res = Some x \<Longrightarrow> \<exists>sb. al_regions A x = Some (KVS_REGION_SLAB sb) \<and>
        sb_block_size sb = sc_block_size (pools A ! i) \<and> sb_free_list sb \<noteq> None"
    using skip_full_law [OF chain fuel] by blast
  show ?thesis
  proof (cases res)
    case (Some p)
    then obtain sb where sb: "al_regions A p = Some (KVS_REGION_SLAB sb)" "sb_block_size sb = sc_block_size (pools A ! i)"
        "sb_free_list sb \<noteq> None"
      using res(2) by blast
    obtain b A' where "slab_alloc_block (Some p) A = Inr (Some b, A')" "pool_inv A'"
      "(b, sb_block_size sb) \<notin> live_blocks A" "live_blocks A' = insert (b, sb_block_size sb) (live_blocks A)"
      "allocator_initialized A' = allocator_initialized A" "allocator_backend A' = allocator_backend A" "al_kern A' = al_kern A"
      using slab_alloc_block_law [OF assms(1) sb(1,3)] .
    then show ?thesis
      using Some res i sb(2) assms(2) by (auto simp: pool_alloc_small_def alloc_effect_def)
  next
    case None
    obtain q A' where c: "slab_create (sc_block_size (pools A ! i)) A = (q, A')" by force
    obtain A1 lk where kept: "region_kept A A1" and law: "case q of None \<Rightarrow> A' = A1 \<and> fst (region_memory_alloc KVS_SLAB_SIZE A) = None
     | Some p \<Rightarrow> \<exists>sb. A' = put_slab p sb (A1\<lparr>al_links := lk\<rparr>) \<and> sb_block_size sb = sc_block_size (pools A ! i) \<and> sb_free_list sb \<noteq> None \<and>
         slab_shape p sb \<and> slab_blocks lk sb \<and> sb_used_count sb = 0 \<and>
         (\<forall>a. \<not> (p \<le> a \<and> a < p + KVS_SLAB_SIZE) \<longrightarrow> lk a = al_links A a) \<and>
         p mod KVS_SLAB_SIZE = 0 \<and> 0 < p \<and> p + KVS_SLAB_SIZE \<le> 2 ^ 64 \<and> vacant (al_kern A) (p, KVS_SLAB_SIZE) \<and>
         covered (al_kern A1) (p, KVS_SLAB_SIZE) \<and> k_nmap (al_kern A) < k_nmap (al_kern A1)"
      using slab_create_law [OF sizes i(4) c] by blast
    note inv1 = region_kept_inv [OF assms(1) kept]
    show ?thesis
    proof (cases q)
      case q: None
      then show ?thesis
        using c None res i assms(2) law inv1 by (simp add: pool_alloc_small_def alloc_effect_def)
    next
      case q: (Some p)
      with law obtain sb where sb: "A' = put_slab p sb (A1\<lparr>al_links := lk\<rparr>)" "sb_block_size sb = sc_block_size (pools A ! i)"
         "sb_free_list sb \<noteq> None" "slab_shape p sb" "slab_blocks lk sb" "sb_used_count sb = 0"
         "\<And>a. \<not> (p \<le> a \<and> a < p + KVS_SLAB_SIZE) \<Longrightarrow> lk a = al_links A a"
         "p mod KVS_SLAB_SIZE = 0" "0 < p" "p + KVS_SLAB_SIZE \<le> 2 ^ 64" "vacant (al_kern A) (p, KVS_SLAB_SIZE)"
         "covered (al_kern A1) (p, KVS_SLAB_SIZE)" "k_nmap (al_kern A) < k_nmap (al_kern A1)"
        by auto
      define sb' where "sb' = sb\<lparr>sb_next := sc_slabs (pools A ! i)\<rparr>"
      define A2 where "A2 = (put_slab p sb' (A1\<lparr>al_links := lk\<rparr>))\<lparr>pools := (pools A)[i := (pools A ! i)\<lparr>sc_slabs := Some p\<rparr>]\<rparr>"
      have inv2: "pool_inv A2" "live_blocks A2 = live_blocks A"
        unfolding A2_def using sb
        by (intro add_slab_inv [OF assms(1) kept i(2)]; simp add: sb'_def slab_shape_def slab_blocks_def)+
      have r: "al_regions A2 p = Some (KVS_REGION_SLAB sb')" "sb_free_list sb' \<noteq> None"
        using sb(3) by (simp_all add: A2_def put_slab_def sb'_def)
      obtain b A3 where b: "slab_alloc_block (Some p) A2 = Inr (Some b, A3)" "pool_inv A3"
          "(b, sb_block_size sb') \<notin> live_blocks A2" "live_blocks A3 = insert (b, sb_block_size sb') (live_blocks A2)"
          "allocator_initialized A3 = allocator_initialized A2" "allocator_backend A3 = allocator_backend A2" "al_kern A3 = al_kern A2"
        using slab_alloc_block_law [OF inv2(1) r] .
      have "pool_alloc_small n A = slab_alloc_block (Some p) A2"
        using assms(2) i(1) res(1) None c q sb(1) inv1(3)
        by (simp add: pool_alloc_small_def get_slab_def put_slab_def A2_def sb'_def Let_def)
      with b inv2 i(3) sb(2) inv1 show ?thesis
        by (auto simp: alloc_effect_def sb'_def A2_def put_slab_def)
    qed
  qed
qed

lemmas bit_test_pow = bit_test [unfolded push_bit_eq_mult mult_1]

section \<open>Giving a small block back\<close>

lemma pool_free_small_law:
  assumes "pool_inv A" "al_regions A (slab_start a) = Some (KVS_REGION_SLAB sb)" "(a, n) \<in> live_blocks A"
  obtains A' where "pool_free_small a A = Inr (0, A')" "pool_inv A'" "live_blocks A' = live_blocks A - {(a, n)}"
    "allocator_initialized A' = allocator_initialized A" "allocator_backend A' = allocator_backend A" "al_kern A' = al_kern A"
proof -
  let ?p = "slab_start a"
  have ok: "regions_ok A" using assms(1) by (simp add: pool_inv_def)
  have slab: "slab_shape ?p sb" "slab_blocks (al_links A) sb" "?p + KVS_SLAB_SIZE \<le> 2 ^ 64"
    using regions_okD(1) [OF ok assms(2)] by (auto simp: region_ok_def region_size_def)
  have here: "(a, n) \<in> region_live ?p (KVS_REGION_SLAB sb)"
    using assms(2,3) by (simp add: live_blocks_iff [OF ok])
  from here obtain i where i: "i < sb_capacity sb" "bit_at (sb_bitmap sb) i" "a = sb_data sb + i * sb_block_size sb" "n = sb_block_size sb"
    by (auto simp: region_live_def)
  define sb' where "sb' = sb\<lparr>sb_bitmap := clear_bit_of (sb_bitmap sb) i, sb_free_list := Some a, sb_used_count := sb_used_count sb - 1\<rparr>"
  define A' where "A' = put_slab ?p sb' (A\<lparr>al_links := (al_links A)(a := sb_free_list sb)\<rparr>)"
  note place = slab_block_place [OF slab(1) i(1)] and idx = slab_block_index [OF slab(1) i(1) slab(3)]
    and give = slab_give [OF slab(1,2) i(1,2)]
  have "pool_free_small a A = Inr (0, A')"
    using assms(2) i place(3) idx give(1)
    by (simp add: pool_free_small_def get_slab_def A'_def sb'_def bit_test_pow Let_def)
  moreover have sh: "slab_shape ?p sb'"
    using slab(1) by (simp add: sb'_def slab_shape_def clear_bit_of_def)
  moreover have inv: "pool_inv A'" "live_blocks A' = live_blocks A - region_live ?p (KVS_REGION_SLAB sb) \<union> region_live ?p (KVS_REGION_SLAB sb')"
    unfolding A'_def
    by (rule put_slab_inv [OF assms(1,2)]; use sh give(2) place(1,2) idx(3) i(3) in \<open>simp add: sb'_def; fail | auto simp: sb'_def\<close>)+
  moreover have "region_live ?p (KVS_REGION_SLAB sb') = region_live ?p (KVS_REGION_SLAB sb) - {(a, n)}"
    using i place(3) idx(3) by (auto simp: region_live_def sb'_def bit_at_clear)
  moreover have "region_live ?p (KVS_REGION_SLAB sb) \<subseteq> live_blocks A"
    using assms(2) by (auto simp: live_blocks_def)
  ultimately have "pool_free_small a A = Inr (0, A')" "pool_inv A'" "live_blocks A' = live_blocks A - {(a, n)}"
    using here by auto
  with that show thesis
    by (simp add: A'_def put_slab_def)
qed

text \<open>Anything else is refused without a change: the inside of a block, a block that is free already.\<close>

lemma pool_free_small_refuses:
  assumes "pool_inv A" "a < 2 ^ 64" "al_regions A (slab_start a) = Some (KVS_REGION_SLAB sb)" "\<forall>n. (a, n) \<notin> live_blocks A"
  shows "pool_free_small a A = Inr (-1, A)"
proof -
  let ?p = "slab_start a" and ?n = "sb_block_size sb"
  have ok: "regions_ok A" using assms(1) by (simp add: pool_inv_def)
  have slab: "slab_shape ?p sb" "?p + KVS_SLAB_SIZE \<le> 2 ^ 64"
    using regions_okD(1) [OF ok assms(3)] by (auto simp: region_ok_def region_size_def)
  show ?thesis
  proof (cases "a < sb_data sb \<or> (a - sb_data sb) mod ?n \<noteq> 0 \<or> (a - sb_data sb) div ?n \<ge> sb_capacity sb")
    case True
    then show ?thesis
      using assms(2,3) by (auto simp: pool_free_small_def get_slab_def Let_def size_minus_eq)
  next
    case False
    define i where "i = (a - sb_data sb) div ?n"
    have i: "i < sb_capacity sb" "a = sb_data sb + i * ?n"
      using False by (auto simp: i_def)
    have "(a, ?n) \<notin> region_live ?p (KVS_REGION_SLAB sb)"
      using assms(3,4) by (simp add: live_blocks_iff [OF ok])
    then have "\<not> bit_at (sb_bitmap sb) i"
      using i by (auto simp: region_live_def)
    with False show ?thesis
      using assms(2,3) slab_block_place(3) [OF slab(1) i(1)]
      by (simp add: pool_free_small_def get_slab_def Let_def size_minus_eq bit_test_pow flip: i_def)
  qed
qed

section \<open>Large objects\<close>

definition last_of :: "nat option \<Rightarrow> nat list \<Rightarrow> nat option" where
  "last_of prev ys = (if ys = [] then prev else Some (last ys))"

fun large_seg :: "(nat \<Rightarrow> (nat option \<times> nat option) option) \<Rightarrow> nat option \<Rightarrow> nat option \<Rightarrow> nat list \<Rightarrow> nat option \<Rightarrow> bool" where
  "large_seg L prev p [] q \<longleftrightarrow> p = q"
| "large_seg L prev p (y # ys) q \<longleftrightarrow> p = Some y \<and> (\<exists>r. L y = Some (prev, r) \<and> large_seg L (Some y) r ys q)"

lemma large_chain_append:
  "large_chain L prev p (ys @ zs) \<longleftrightarrow> (\<exists>q. large_seg L prev p ys q \<and> large_chain L (last_of prev ys) q zs)"
  by (induction ys arbitrary: prev p) (auto simp: last_of_def)

lemma large_seg_snoc:
  "large_seg L prev p (ys @ [y]) q \<longleftrightarrow> large_seg L prev p ys (Some y) \<and> L y = Some (last_of prev ys, q)"
  by (induction ys arbitrary: prev p) (auto simp: last_of_def)

lemma large_seg_upd [simp]: "x \<notin> set xs \<Longrightarrow> large_seg (L(x := v)) prev p xs q \<longleftrightarrow> large_seg L prev p xs q"
  by (induction xs arbitrary: p prev) auto

text \<open>\<open>prev->next = q\<close> and \<open>next->prev = q\<close> on what the headers say of their neighbours.\<close>

definition with_next :: "nat option \<Rightarrow> nat option \<Rightarrow> (nat \<Rightarrow> (nat option \<times> nat option) option) \<Rightarrow> nat \<Rightarrow> (nat option \<times> nat option) option" where
  "with_next p q L = (case p of None \<Rightarrow> L | Some a \<Rightarrow> L(a \<mapsto> (fst (the (L a)), q)))"

definition with_prev :: "nat option \<Rightarrow> nat option \<Rightarrow> (nat \<Rightarrow> (nat option \<times> nat option) option) \<Rightarrow> nat \<Rightarrow> (nat option \<times> nat option) option" where
  "with_prev p q L = (case p of None \<Rightarrow> L | Some a \<Rightarrow> L(a \<mapsto> (q, snd (the (L a)))))"

lemma large_chain_ends:
  assumes "large_chain L None p (ys @ x # zs)" "L x = Some (pr, nx)"
  shows "pr = last_of None ys" "ys = [] \<Longrightarrow> p = Some x" "nx = (case zs of [] \<Rightarrow> None | z # _ \<Rightarrow> Some z)"
    "pr = Some a \<Longrightarrow> \<exists>b. L a = Some (b, Some x)" "nx = Some c \<Longrightarrow> \<exists>d. L c = Some (Some x, d)"
proof -
  obtain q where q: "large_seg L None p ys q" "large_chain L (last_of None ys) q (x # zs)"
    using assms(1) by (auto simp: large_chain_append)
  then show pr: "pr = last_of None ys" "ys = [] \<Longrightarrow> p = Some x"
    using assms(2) by auto
  have nx: "large_chain L (Some x) nx zs"
    using q assms(2) by auto
  then show "nx = (case zs of [] \<Rightarrow> None | z # _ \<Rightarrow> Some z)"
    by (cases zs) auto
  show "nx = Some c \<Longrightarrow> \<exists>d. L c = Some (Some x, d)"
    using nx by (cases zs) auto
  show "pr = Some a \<Longrightarrow> \<exists>b. L a = Some (b, Some x)"
    using q pr by (cases ys rule: rev_cases) (auto simp: last_of_def large_seg_snoc)
qed

lemma large_chain_unlink:
  assumes "large_chain L None p (ys @ x # zs)" "distinct (ys @ x # zs)" "L x = Some (pr, nx)"
  shows "large_chain ((with_prev nx pr (with_next pr nx L))(x := None)) None (if pr = None then nx else p) (ys @ zs)"
proof -
  obtain q where q: "large_seg L None p ys q" "large_chain L (last_of None ys) q (x # zs)"
    using assms(1) by (auto simp: large_chain_append)
  note ends = large_chain_ends [OF assms(1,3)]
  let ?L1 = "with_next pr nx L" and ?L2 = "with_prev nx pr (with_next pr nx L)"
  have "large_chain L (Some x) nx zs"
    using q assms(3) by auto
  then have "large_chain ?L1 (Some x) nx zs"
    using assms(2) ends(1) by (cases ys rule: rev_cases) (auto simp: with_next_def last_of_def)
  then have rest: "large_chain ?L2 pr nx zs"
    using assms(2) ends(3) by (cases zs) (auto simp: with_prev_def)
  have front: "large_seg ?L2 None (if pr = None then nx else p) ys nx"
  proof (cases ys rule: rev_cases)
    case Nil
    with ends(1) show ?thesis by (simp add: last_of_def)
  next
    case (snoc ys' y)
    then have y: "pr = Some y" "large_seg L None p ys' (Some y)" "L y = Some (last_of None ys', q)"
      using ends(1) q(1) by (simp_all add: last_of_def large_seg_snoc)
    have "large_seg ?L1 None p ys nx"
      using y snoc assms(2) by (simp add: with_next_def large_seg_snoc)
    moreover have "\<forall>z. nx = Some z \<longrightarrow> z \<notin> set ys"
      using ends(3) assms(2) by (cases zs) auto
    ultimately show ?thesis
      using y(1) by (auto simp: with_prev_def split: option.splits)
  qed
  show ?thesis
    using front rest assms(2) ends(1) by (auto simp: large_chain_append)
qed

text \<open>A change of the links between large objects only.\<close>

definition relinked :: "(nat \<Rightarrow> kvs_region option) \<Rightarrow> (nat \<Rightarrow> kvs_region option) \<Rightarrow> bool" where
  "relinked R R' \<longleftrightarrow>
     (\<forall>x. R' x = R x \<or>
        (\<exists>lg lg'. R x = Some (KVS_REGION_LARGE lg) \<and> R' x = Some (KVS_REGION_LARGE lg') \<and> lg_mapping_size lg' = lg_mapping_size lg))"

lemma relinked_refl [simp]: "relinked R R"
  by (simp add: relinked_def)

lemma relinked_trans: "relinked R R' \<Longrightarrow> relinked R' R'' \<Longrightarrow> relinked R R''"
  unfolding relinked_def by (metis kvs_region.inject(2) option.inject)

lemma relinked_back:
  assumes "relinked R R'" "R' x = Some r'"
  obtains r where "R x = Some r" "region_size r' = region_size r" "region_live x r' = region_live x r"
    "region_ok lk K x r' = region_ok lk K x r"
proof -
  consider "R' x = R x" | lg lg' where "R x = Some (KVS_REGION_LARGE lg)" "R' x = Some (KVS_REGION_LARGE lg')"
      "lg_mapping_size lg' = lg_mapping_size lg"
    using assms(1) [unfolded relinked_def, rule_format, of x] by auto
  then show thesis
  proof cases
    case 1
    with assms(2) that show thesis by simp
  next
    case (2 lg lg')
    then have r': "r' = KVS_REGION_LARGE lg'" using assms(2) by simp
    show thesis
      by (rule that [of "KVS_REGION_LARGE lg"]) (use 2 in \<open>simp_all add: r' region_size_def region_live_def region_ok_def\<close>)
  qed
qed

lemma relinked_nodes:
  assumes "relinked R R'"
  shows "slab_nodes R' = slab_nodes R" "dom R' = dom R"
proof
  fix x show "slab_nodes R' x = slab_nodes R x"
    using assms [unfolded relinked_def, rule_format, of x] by (auto simp: slab_nodes_def)
next
  show "dom R' = dom R"
  proof (rule set_eqI)
    fix x show "x \<in> dom R' \<longleftrightarrow> x \<in> dom R"
      using assms [unfolded relinked_def, rule_format, of x] unfolding domIff by (elim disjE exE conjE) simp_all
  qed
qed

lemma relinked_sym: "relinked R R' \<Longrightarrow> relinked R' R"
  unfolding relinked_def by metis

lemma relinked_regions:
  assumes "relinked (al_regions A) (al_regions A')" "al_links A' = al_links A" "al_kern A' = al_kern A"
  shows "regions_ok A \<Longrightarrow> regions_ok A'" "live_blocks A' = live_blocks A"
proof -
  assume ok: "regions_ok A"
  show "regions_ok A'"
    unfolding regions_ok_def
  proof (intro conjI allI impI)
    fix x r' assume "al_regions A' x = Some r'"
    then obtain r where "al_regions A x = Some r" "region_ok (al_links A) (al_kern A) x r' = region_ok (al_links A) (al_kern A) x r"
      by (rule relinked_back [OF assms(1)])
    with regions_okD(1) [OF ok] assms(2,3) show "region_ok (al_links A') (al_kern A') x r'" by simp
  next
    fix x y r' q' assume xy: "al_regions A' x = Some r'" "al_regions A' y = Some q'" "x \<noteq> y"
    obtain r where r: "al_regions A x = Some r" "region_size r' = region_size r"
      using relinked_back [OF assms(1) xy(1)] by metis
    obtain q where q: "al_regions A y = Some q" "region_size q' = region_size q"
      using relinked_back [OF assms(1) xy(2)] by metis
    show "apart (x, region_size r') (y, region_size q')"
      using regions_okD(4) [OF ok r(1) q(1) xy(3)] r q by simp
  qed
next
  have "live_blocks B' \<subseteq> live_blocks B" if re: "relinked (al_regions B) (al_regions B')" for B B'
  proof
    fix b assume "b \<in> live_blocks B'"
    then obtain x r' where x: "al_regions B' x = Some r'" "b \<in> region_live x r'"
      by (auto simp: live_blocks_def)
    obtain r where "al_regions B x = Some r" "region_live x r' = region_live x r"
      using relinked_back [OF re x(1)] by metis
    with x(2) show "b \<in> live_blocks B" by (auto simp: live_blocks_def)
  qed
  from this [of A A'] this [of A' A] assms(1) relinked_sym show "live_blocks A' = live_blocks A"
    by blast
qed

lemma set_next_of_law:
  assumes "\<And>a. p = Some a \<Longrightarrow> \<exists>lg. al_regions A a = Some (KVS_REGION_LARGE lg)"
  obtains A' where "set_next_of p q A = Inr A'" "relinked (al_regions A) (al_regions A')"
    "large_nodes (al_regions A') = with_next p q (large_nodes (al_regions A))"
    "large_regions A' = (if p = None then q else large_regions A)"
    "pools A' = pools A" "al_links A' = al_links A" "al_kern A' = al_kern A"
    "allocator_initialized A' = allocator_initialized A" "allocator_backend A' = allocator_backend A"
    "\<And>x. Some x \<noteq> p \<Longrightarrow> al_regions A' x = al_regions A x"
proof (cases p)
  case None
  with that show thesis
    by (simp add: set_next_of_def with_next_def)
next
  case (Some a)
  then obtain lg where lg: "al_regions A a = Some (KVS_REGION_LARGE lg)"
    using assms by blast
  then have "large_nodes ((al_regions A)(a \<mapsto> KVS_REGION_LARGE (lg\<lparr>lg_next := q\<rparr>))) = with_next p q (large_nodes (al_regions A))"
    by (simp add: Some with_next_def) (simp add: large_nodes_def)
  with lg Some that show thesis
    by (simp add: set_next_of_def get_large_def put_large_def relinked_def)
qed

lemma set_prev_of_law:
  assumes "\<And>a. p = Some a \<Longrightarrow> \<exists>lg. al_regions A a = Some (KVS_REGION_LARGE lg)"
  obtains A' where "set_prev_of p q A = Inr A'" "relinked (al_regions A) (al_regions A')"
    "large_nodes (al_regions A') = with_prev p q (large_nodes (al_regions A))"
    "large_regions A' = large_regions A"
    "pools A' = pools A" "al_links A' = al_links A" "al_kern A' = al_kern A"
    "allocator_initialized A' = allocator_initialized A" "allocator_backend A' = allocator_backend A"
    "\<And>x. Some x \<noteq> p \<Longrightarrow> al_regions A' x = al_regions A x"
proof (cases p)
  case None
  with that show thesis
    by (simp add: set_prev_of_def with_prev_def)
next
  case (Some a)
  then obtain lg where lg: "al_regions A a = Some (KVS_REGION_LARGE lg)"
    using assms by blast
  then have "large_nodes ((al_regions A)(a \<mapsto> KVS_REGION_LARGE (lg\<lparr>lg_prev := q\<rparr>))) = with_prev p q (large_nodes (al_regions A))"
    by (simp add: Some with_prev_def) (simp add: large_nodes_def)
  with lg Some that show thesis
    by (simp add: set_prev_of_def get_large_def put_large_def relinked_def)
qed

lemma pool_free_large_law:
  assumes "pool_inv A" "al_regions A x = Some (KVS_REGION_LARGE lg)"
  shows "\<exists>r A'. pool_free_large x A = Inr (r, A') \<and>
    (r = 0 \<longrightarrow> pool_inv A' \<and> live_blocks A' = live_blocks A - region_live x (KVS_REGION_LARGE lg) \<and>
       allocator_initialized A' = allocator_initialized A \<and> allocator_backend A' = allocator_backend A \<and>
       k_unmap (al_kern A') = k_unmap (al_kern A)) \<and>
    (r \<noteq> 0 \<longrightarrow> \<not> k_unmap (al_kern A) (k_nunmap (al_kern A)))"
proof -
  let ?L = "large_nodes (al_regions A)" and ?r = "KVS_REGION_LARGE lg"
  have ok: "regions_ok A" using assms(1) by (simp add: pool_inv_def)
  obtain sss ls where lists: "lists_ok A sss ls"
    using assms(1) by (auto simp: pool_inv_def)
  have Lx: "?L x = Some (lg_prev lg, lg_next lg)" and Nx: "slab_nodes (al_regions A) x = None"
    using assms(2) by (simp_all add: large_nodes_def slab_nodes_def)
  have chains: "list_all2 (\<lambda>c ss. slab_chain (slab_nodes (al_regions A)) (sc_block_size c) (sc_slabs c) ss) (pools A) sss"
    using lists by (simp add: lists_ok_def)
  have "x \<notin> set (concat sss)"
    using slab_lists_node [OF chains] Nx by fastforce
  moreover have "x \<in> set (concat sss @ ls)"
    using lists assms(2) by (auto simp: lists_ok_def)
  ultimately have "x \<in> set ls" by simp
  then obtain ys zs where ls: "ls = ys @ x # zs"
    by (meson split_list)
  have chain: "large_chain ?L None (large_regions A) (ys @ x # zs)" and dist: "distinct (ys @ x # zs)"
    using lists ls by (auto simp: lists_ok_def)
  note ends = large_chain_ends [OF chain Lx]
  have other: "lg_prev lg \<noteq> Some x" "lg_next lg \<noteq> Some x"
    using ends(1,3) dist by (auto simp: last_of_def split: list.splits if_splits)
  have large: "\<exists>lg. al_regions A a = Some (KVS_REGION_LARGE lg)" if "lg_prev lg = Some a \<or> lg_next lg = Some a" for a
    using that ends(4,5) large_nodesD by metis
  obtain A1 where A1: "set_next_of (lg_prev lg) (lg_next lg) A = Inr A1" "relinked (al_regions A) (al_regions A1)"
    "large_nodes (al_regions A1) = with_next (lg_prev lg) (lg_next lg) ?L"
    "large_regions A1 = (if lg_prev lg = None then lg_next lg else large_regions A)"
    "pools A1 = pools A" "al_links A1 = al_links A" "al_kern A1 = al_kern A"
    "allocator_initialized A1 = allocator_initialized A" "allocator_backend A1 = allocator_backend A"
    "\<And>x. Some x \<noteq> lg_prev lg \<Longrightarrow> al_regions A1 x = al_regions A x"
    using set_next_of_law [of "lg_prev lg" A "lg_next lg"] large by blast
  have large1: "\<exists>lg. al_regions A1 a = Some (KVS_REGION_LARGE lg)" if "lg_prev lg = Some a \<or> lg_next lg = Some a" for a
    using large [OF that] A1(2) [unfolded relinked_def, rule_format, of a] by auto
  obtain A2 where A2: "set_prev_of (lg_next lg) (lg_prev lg) A1 = Inr A2" "relinked (al_regions A1) (al_regions A2)"
    "large_nodes (al_regions A2) = with_prev (lg_next lg) (lg_prev lg) (large_nodes (al_regions A1))"
    "large_regions A2 = large_regions A1" "pools A2 = pools A1" "al_links A2 = al_links A1" "al_kern A2 = al_kern A1"
    "allocator_initialized A2 = allocator_initialized A1" "allocator_backend A2 = allocator_backend A1"
    "\<And>x. Some x \<noteq> lg_next lg \<Longrightarrow> al_regions A2 x = al_regions A1 x"
    using set_prev_of_law [of "lg_next lg" A1 "lg_prev lg"] large1 by blast
  have re: "relinked (al_regions A) (al_regions A2)"
    using A1(2) A2(2) by (rule relinked_trans)
  have ok2: "regions_ok A2" and live2: "live_blocks A2 = live_blocks A"
    using relinked_regions [OF re] ok A1 A2 by simp_all
  have x2: "al_regions A2 x = Some ?r"
    using assms(2) other A1(10) [of x] A2(10) [of x] by metis
  obtain b A3 where b: "release_region x (region_size ?r) A2 = (b, A3)" by force
  note rel = release_region_law [OF ok2 x2 b]
  show ?thesis
  proof (cases b)
    case True
    have "pool_free_large x A = Inr (0, A3)"
      using assms(2) A1(1) A2(1) b True by (simp add: pool_free_large_def get_large_def region_size_def)
    moreover have "live_blocks A3 = live_blocks A - region_live x ?r"
      using live_blocks_remove [OF ok2 x2, of A3] rel(2) True live2 by simp
    moreover have "lists_ok A3 sss (ys @ zs)"
    proof -
      have N3: "slab_nodes (al_regions A3) = slab_nodes (al_regions A)"
        using rel(2) True relinked_nodes(1) [OF re] Nx by (simp add: fun_upd_idem)
      have "large_chain (large_nodes (al_regions A3)) None (large_regions A3) (ys @ zs)"
        using large_chain_unlink [OF chain dist Lx] rel(2,4) True A1(3,4) A2(3,4) by simp
      moreover have "dom (al_regions A3) = set (concat sss @ ls) - {x}"
        using rel(2) True relinked_nodes(2) [OF re] lists by (auto simp: lists_ok_def)
      moreover have "set (concat sss @ ls) - {x} = set (concat sss @ ys @ zs)"
        using lists ls by (auto simp: lists_ok_def)
      ultimately show ?thesis
        using lists N3 rel(3,6) A1(5,7) A2(5,7) ls by (simp add: lists_ok_def)
    qed
    ultimately show ?thesis
      using assms(1) rel A1 A2 by (auto simp: pool_inv_def)
  next
    case False
    have large3: "\<exists>lg. al_regions B a = Some (KVS_REGION_LARGE lg)"
      if "lg_prev lg = Some a \<or> lg_next lg = Some a" "relinked (al_regions A2) (al_regions B)" for a B
      using large1 [OF that(1)] A2(2) [unfolded relinked_def, rule_format, of a] that(2) [unfolded relinked_def, rule_format, of a]
      by auto
    have same: "al_regions A3 = al_regions A2" using rel(2) False by simp
    obtain A4 where A4: "set_next_of (lg_prev lg) (Some x) A3 = Inr A4" "relinked (al_regions A3) (al_regions A4)"
      using set_next_of_law [of "lg_prev lg" A3 "Some x"] large3 [of _ A3] same by (metis relinked_refl)
    obtain A5 where A5: "set_prev_of (lg_next lg) (Some x) A4 = Inr A5"
      using set_prev_of_law [of "lg_next lg" A4 "Some x"] large3 [of _ A4] same A4(2) by metis
    have "pool_free_large x A = Inr (-1, A5)"
      using assms(2) A1(1) A2(1) A4(1) A5 b False by (simp add: pool_free_large_def get_large_def region_size_def)
    moreover have "\<not> k_unmap (al_kern A) (k_nunmap (al_kern A))"
      using b False A1(7) A2(7) by (auto simp: release_region_def munmap_def Let_def split: if_splits)
    ultimately show ?thesis by auto
  qed
qed

lemma large_offset_value: "large_offset = 32"
  by (simp add: large_offset_def sizeof_large_def max_alignment_def)

text \<open>The new object goes to the front of the list.\<close>

lemma add_large_inv:
  assumes "pool_inv A" "region_kept A A1" "k_nmap (al_kern A) < k_nmap (al_kern A1)" "large_offset < m"
    and "p mod KVS_SLAB_SIZE = 0" "0 < p" "p + m \<le> 2 ^ 64" "vacant (al_kern A) (p, m)" "covered (al_kern A1) (p, m)"
  defines "lg \<equiv> \<lparr>lg_mapping_size = m, lg_prev = None, lg_next = large_regions A1\<rparr>"
  obtains A2 where
    "set_prev_of (large_regions A1) (Some p) (put_large p lg A1) = Inr A2"
    "pool_inv (A2\<lparr>large_regions := Some p\<rparr>)" "live_blocks A2 = insert (p + large_offset, m - large_offset) (live_blocks A)"
    "(p + large_offset, m - large_offset) \<notin> live_blocks A"
    "allocator_initialized A2 = allocator_initialized A" "allocator_backend A2 = allocator_backend A"
    "k_unmap (al_kern A2) = k_unmap (al_kern A)"
proof -
  note kept = region_kept_inv [OF assms(1,2)]
  let ?r = "KVS_REGION_LARGE lg"
  define B where "B = put_large p lg A1"
  have ok: "regions_ok A" and sz: "region_size ?r = m"
    using assms(1) by (simp_all add: pool_inv_def region_size_def lg_def)
  have R: "al_regions B = (al_regions A)(p \<mapsto> ?r)" and K: "al_kern B = al_kern A1" and L: "al_links B = al_links A"
    by (simp_all add: B_def put_large_def kept)
  have rok: "region_ok (al_links B) (al_kern B) p ?r"
    unfolding region_ok_def sz K using assms(4-7,9) by (simp add: lg_def)
  then have okB: "regions_ok B" and new: "al_regions A p = None"
    using regions_ok_add [OF ok, of p ?r B] assms(2,8) sz R K L by (auto simp: region_kept_def)
  have here: "region_live p ?r = {(p + large_offset, m - large_offset)}"
    by (simp add: region_live_def lg_def)
  have liveB: "live_blocks B = insert (p + large_offset, m - large_offset) (live_blocks A)"
    using live_blocks_add [OF new R] here by simp
  have "slab_start (p + large_offset) = p"
    using region_live_within(4) [OF rok, of "(p + large_offset, m - large_offset)"] here by simp
  then have fresh_block: "(p + large_offset, m - large_offset) \<notin> live_blocks A"
    using new by (simp add: live_blocks_iff [OF ok])
  obtain sss ls where lists: "lists_ok A sss ls"
    using assms(1) by (auto simp: pool_inv_def)
  have chain: "large_chain (large_nodes (al_regions A)) None (large_regions A) ls"
      and dom: "dom (al_regions A) = set (concat sss @ ls)"
    using lists by (auto simp: lists_ok_def)
  have fresh: "p \<notin> set (concat sss @ ls)"
    using new dom by blast
  have large: "\<exists>lg. al_regions B a = Some (KVS_REGION_LARGE lg)" if "large_regions A1 = Some a" for a
  proof -
    have "a \<in> set ls"
      using chain that kept(5) by (cases ls) auto
    then have "\<exists>q. large_nodes (al_regions A) a = Some q"
      by (rule large_chain_node [OF chain])
    with large_nodesD fresh \<open>a \<in> set ls\<close> show ?thesis by (fastforce simp: R)
  qed
  obtain A2 where A2: "set_prev_of (large_regions A1) (Some p) B = Inr A2" "relinked (al_regions B) (al_regions A2)"
    "large_nodes (al_regions A2) = with_prev (large_regions A1) (Some p) (large_nodes (al_regions B))"
    "pools A2 = pools B" "al_links A2 = al_links B" "al_kern A2 = al_kern B"
    "allocator_initialized A2 = allocator_initialized B" "allocator_backend A2 = allocator_backend B"
    using set_prev_of_law [of "large_regions A1" B "Some p"] large by metis
  have ok2: "regions_ok A2" and live2: "live_blocks A2 = live_blocks B"
    using relinked_regions [OF A2(2,5,6)] okB by blast+
  have "large_chain (large_nodes (al_regions A2)) None (Some p) (p # ls)"
  proof (cases ls)
    case Nil
    then show ?thesis
      using chain kept(5) by (simp add: A2(3) R with_prev_def lg_def)
  next
    case (Cons z zs)
    then show ?thesis
      using chain fresh kept(5) lists by (auto simp: A2(3) R with_prev_def lg_def lists_ok_def)
  qed
  moreover have "list_all2 (\<lambda>c ss. slab_chain (slab_nodes (al_regions A2)) (sc_block_size c) (sc_slabs c) ss) (pools A2) sss"
    using lists fresh unfolding relinked_nodes(1) [OF A2(2)] A2(4) R B_def
    by (auto simp: lists_ok_def list_all2_conv_all_nth put_large_def kept)
  moreover have "dom (al_regions A2) = set (concat sss @ p # ls)"
    unfolding relinked_nodes(2) [OF A2(2)] R using dom by simp
  moreover have "length (concat sss @ p # ls) \<le> k_nmap (al_kern A2)"
    using lists assms(3) unfolding A2(6) K lists_ok_def by simp
  moreover have "distinct (concat sss @ p # ls)"
    using lists fresh by (simp add: lists_ok_def)
  ultimately have "lists_ok (A2\<lparr>large_regions := Some p\<rparr>) sss (p # ls)"
    by (simp add: lists_ok_def)
  moreover have "regions_ok (A2\<lparr>large_regions := Some p\<rparr>)"
    using ok2 by (simp add: regions_ok_def)
  moreover have "pools A2 = pools A"
    by (simp add: A2 B_def put_large_def kept)
  ultimately have "pool_inv (A2\<lparr>large_regions := Some p\<rparr>)"
    using assms(1) by (auto simp: pool_inv_def)
  with that [of A2] A2 live2 liveB fresh_block kept show thesis
    by (simp add: B_def put_large_def)
qed

lemma pool_alloc_large_law:
  assumes "pool_inv A" "0 < n"
  shows "\<exists>res A'. pool_alloc_large n A = Inr (res, A') \<and> alloc_effect n A res A'"
proof -
  define page where "page = nat (k_page (al_kern A))"
  define total where "total = large_offset + n"
  define padding where "padding = (if total mod page = 0 then 0 else page - total mod page)"
  have stay: "alloc_effect n A None A"
    using assms(1) by (simp add: alloc_effect_def)
  show ?thesis
  proof (cases "k_page (al_kern A) \<le> 0 \<or> large_offset \<ge> KVS_SLAB_SIZE \<or> n > SIZE_MAX - large_offset \<or> total > SIZE_MAX - padding")
    case True
    then show ?thesis
      using stay assms(2) by (auto simp: pool_alloc_large_def Let_def page_def total_def padding_def)
  next
    case False
    obtain res A1 where r: "region_memory_alloc (total + padding) A = (res, A1)" by force
    note law = region_memory_alloc_law [OF r]
    have kept: "region_kept A A1" using law by blast
    show ?thesis
    proof (cases res)
      case None
      then show ?thesis
        using False r assms region_kept_inv [OF assms(1) kept]
        by (auto simp: pool_alloc_large_def Let_def page_def total_def padding_def alloc_effect_def)
    next
      case (Some p)
      let ?m = "total + padding"
      define lg where "lg = \<lparr>lg_mapping_size = ?m, lg_prev = None, lg_next = large_regions A1\<rparr>"
      have big: "large_offset < ?m" using assms(2) by (simp add: total_def)
      have p: "p mod KVS_SLAB_SIZE = 0" "0 < p" "p + ?m \<le> 2 ^ 64" "vacant (al_kern A) (p, ?m)" "covered (al_kern A1) (p, ?m)"
          "k_nmap (al_kern A) < k_nmap (al_kern A1)"
        using law Some by auto
      obtain A2 where A2: "set_prev_of (large_regions A1) (Some p) (put_large p lg A1) = Inr A2"
          "pool_inv (A2\<lparr>large_regions := Some p\<rparr>)" "live_blocks A2 = insert (p + large_offset, ?m - large_offset) (live_blocks A)"
          "(p + large_offset, ?m - large_offset) \<notin> live_blocks A"
          "allocator_initialized A2 = allocator_initialized A" "allocator_backend A2 = allocator_backend A"
          "k_unmap (al_kern A2) = k_unmap (al_kern A)"
        unfolding lg_def using add_large_inv [OF assms(1) kept p(6) big p(1-5)] .
      have live: "live_blocks (A2\<lparr>large_regions := Some p\<rparr>) = live_blocks A2"
        by (simp add: live_blocks_def)
      have "pool_alloc_large n A = Inr (Some (p + large_offset), A2\<lparr>large_regions := Some p\<rparr>)"
        unfolding pool_alloc_large_def Let_def page_def [symmetric] total_def [symmetric] padding_def [symmetric]
        using False r Some assms(2) A2(1) by (simp add: lg_def put_large_def)
      moreover have "n \<le> ?m - large_offset" by (simp add: total_def)
      ultimately show ?thesis
        using A2 live by (auto simp: alloc_effect_def)
    qed
  qed
qed

section \<open>The public operations\<close>

definition pool_ready :: "allocator \<Rightarrow> bool" where
  "pool_ready A \<longleftrightarrow> allocator_initialized A \<and> allocator_backend A = KVS_ALLOCATOR_POOL \<and> pool_inv A"

lemma allocator_start_law:
  assumes "kvs_allocator_init KVS_ALLOCATOR_POOL (allocator_at_start K) = (r, A)"
  shows "r = 0" "pool_ready A" "live_blocks A = {}"
proof -
  have A: "A = (allocator_at_start K)\<lparr>allocator_backend := KVS_ALLOCATOR_POOL, allocator_initialized := True\<rparr>" "r = 0"
    using assms by (simp_all add: kvs_allocator_init_def allocator_at_start_def comp_def)
  show "r = 0" by (rule A(2))
  show "live_blocks A = {}"
    by (simp add: A(1) live_blocks_def allocator_at_start_def)
  have none: "concat (map (\<lambda>_. []) xs) = []" for xs :: "nat list"
    by (induction xs) auto
  have "lists_ok A (map (\<lambda>_. []) class_sizes) []"
    by (simp add: lists_ok_def A(1) allocator_at_start_def none) (simp add: list_all2_conv_all_nth)
  moreover have "map (sc_block_size \<circ> (\<lambda>n. \<lparr>sc_block_size = n, sc_slabs = None\<rparr>)) class_sizes = class_sizes"
    by (simp add: comp_def)
  ultimately show "pool_ready A"
    by (auto simp: pool_ready_def pool_inv_def regions_ok_def A(1) allocator_at_start_def)
qed

lemma allocator_alloc_law:
  assumes "pool_ready A"
  shows "\<exists>res A'. kvs_allocator_alloc n A = Inr (res, A') \<and> alloc_effect n A res A'"
proof (cases "n = 0")
  case True
  then show ?thesis
    using assms by (simp add: kvs_allocator_alloc_def alloc_effect_def pool_ready_def)
next
  case False
  then show ?thesis
    using assms pool_alloc_large_law [of A n] pool_alloc_small_law [of A n]
    by (auto simp: kvs_allocator_alloc_def pool_ready_def)
qed

lemma alloc_effect_ready: "pool_ready A \<Longrightarrow> alloc_effect n A res A' \<Longrightarrow> pool_ready A'"
  by (simp add: pool_ready_def alloc_effect_def)

lemma allocator_free_law:
  assumes "pool_ready A" "(a, n) \<in> live_blocks A"
  shows "(\<exists>A'. kvs_allocator_free (Some a) A = Inr A' \<and> pool_ready A' \<and> live_blocks A' = live_blocks A - {(a, n)} \<and>
       k_unmap (al_kern A') = k_unmap (al_kern A)) \<or>
    kvs_allocator_free (Some a) A = Inl Assert_failed \<and> \<not> k_unmap (al_kern A) (k_nunmap (al_kern A))"
proof -
  have inv: "pool_inv A" and ok: "regions_ok A" and ini: "allocator_initialized A" "allocator_backend A = KVS_ALLOCATOR_POOL"
    using assms(1) by (simp_all add: pool_ready_def pool_inv_def)
  obtain r where r: "al_regions A (slab_start a) = Some r" "(a, n) \<in> region_live (slab_start a) r"
    using live_blocksE [OF ok assms(2)] by auto
  show ?thesis
  proof (cases r)
    case (KVS_REGION_SLAB sb)
    then have sb: "al_regions A (slab_start a) = Some (KVS_REGION_SLAB sb)" using r by simp
    obtain A' where "pool_free_small a A = Inr (0, A')" "pool_inv A'" "live_blocks A' = live_blocks A - {(a, n)}"
        "allocator_initialized A' = allocator_initialized A" "allocator_backend A' = allocator_backend A" "al_kern A' = al_kern A"
      using pool_free_small_law [OF inv sb assms(2)] .
    with sb ini show ?thesis
      by (simp add: kvs_allocator_free_def pool_ready_def)
  next
    case (KVS_REGION_LARGE lg)
    then have lg: "al_regions A (slab_start a) = Some (KVS_REGION_LARGE lg)" and
        one: "region_live (slab_start a) (KVS_REGION_LARGE lg) = {(a, n)}"
      using r by (auto simp: region_live_def)
    show ?thesis
      using pool_free_large_law [OF inv lg] lg ini unfolding one
      by (auto simp: kvs_allocator_free_def pool_ready_def)
  qed
qed

lemma allocator_double_free:
  assumes "pool_ready A" "a < 2 ^ 64" "al_regions A (slab_start a) = Some (KVS_REGION_SLAB sb)" "\<forall>n. (a, n) \<notin> live_blocks A"
  shows "kvs_allocator_free (Some a) A = Inl Assert_failed"
  using assms pool_free_small_refuses [OF _ assms(2-4)]
  by (simp add: kvs_allocator_free_def pool_ready_def)

section \<open>Destroying the allocator\<close>

lemma slabs_unused_law:
  assumes "slab_chain (slab_nodes (al_regions A)) n p xs" "length xs < fuel"
  shows "slabs_unused fuel A p = Inr (\<forall>x\<in>set xs. \<forall>sb. al_regions A x = Some (KVS_REGION_SLAB sb) \<longrightarrow> sb_used_count sb = 0)"
  using assms
proof (induction fuel arbitrary: p xs)
  case (Suc fuel)
  show ?case
  proof (cases xs)
    case Nil
    with Suc.prems show ?thesis by simp
  next
    case (Cons x ys)
    with Suc.prems obtain sb where sb: "p = Some x" "al_regions A x = Some (KVS_REGION_SLAB sb)"
        "slab_chain (slab_nodes (al_regions A)) n (sb_next sb) ys"
      by (auto dest: slab_nodesD)
    with Suc.IH [of "sb_next sb" ys] Suc.prems(2) Cons show ?thesis
      by (simp add: get_slab_def)
  qed
qed simp

lemma pools_unused_law:
  assumes "list_all2 (\<lambda>c ss. slab_chain (slab_nodes (al_regions A)) (sc_block_size c) (sc_slabs c) ss) cs sss"
    and "\<forall>ss\<in>set sss. length ss < region_bound A"
  shows "pools_unused A cs = Inr (\<forall>x\<in>set (concat sss). \<forall>sb. al_regions A x = Some (KVS_REGION_SLAB sb) \<longrightarrow> sb_used_count sb = 0)"
  using assms
proof (induction rule: list_all2_induct)
  case (Cons c cs ss sss)
  then show ?case
    using slabs_unused_law [OF Cons(1), of "region_bound A"] by (auto simp: ball_Un)
qed simp

lemma lists_ok_fuel: "lists_ok A sss ls \<Longrightarrow> ss \<in> set sss \<Longrightarrow> length ss < region_bound A"
proof -
  assume l: "lists_ok A sss ls" "ss \<in> set sss"
  have "length ss \<le> length (concat sss)"
    using l(2) by (simp add: length_concat member_le_sum_list)
  with l(1) show ?thesis
    by (simp add: lists_ok_def region_bound_def)
qed

lemma live_blocks_none:
  assumes "regions_ok A" "lists_ok A sss []"
  shows "(\<forall>x\<in>set (concat sss). \<forall>sb. al_regions A x = Some (KVS_REGION_SLAB sb) \<longrightarrow> sb_used_count sb = 0) \<longleftrightarrow> live_blocks A = {}"
proof -
  have live: "region_live x (KVS_REGION_SLAB sb) = {} \<longleftrightarrow> sb_used_count sb = 0"
    if "al_regions A x = Some (KVS_REGION_SLAB sb)" for x sb
    using slab_unused(1) [of "al_links A" sb] regions_okD(1) [OF assms(1) that] by (auto simp: region_live_def region_ok_def)
  have slabs: "\<exists>sb. al_regions A x = Some (KVS_REGION_SLAB sb)" if "x \<in> set (concat sss)" for x
  proof -
    have "list_all2 (\<lambda>c ss. slab_chain (slab_nodes (al_regions A)) (sc_block_size c) (sc_slabs c) ss) (pools A) sss"
      using assms(2) by (simp add: lists_ok_def)
    from slab_lists_node [OF this that] slab_nodesD show ?thesis by fast
  qed
  have dom: "dom (al_regions A) = set (concat sss)"
    using assms(2) by (simp add: lists_ok_def)
  have "live_blocks A = {} \<longleftrightarrow> (\<forall>x r. al_regions A x = Some r \<longrightarrow> region_live x r = {})"
    by (auto simp: live_blocks_def)
  also have "\<dots> \<longleftrightarrow> (\<forall>x\<in>set (concat sss). \<forall>r. al_regions A x = Some r \<longrightarrow> region_live x r = {})"
    unfolding dom [symmetric] by blast
  also have "\<dots> \<longleftrightarrow> (\<forall>x\<in>set (concat sss). \<forall>sb. al_regions A x = Some (KVS_REGION_SLAB sb) \<longrightarrow> sb_used_count sb = 0)"
    using live slabs by (metis option.inject)
  finally show ?thesis by blast
qed

text \<open>What the second pass keeps while it gives slabs back.\<close>

definition releasing :: "allocator \<Rightarrow> allocator \<Rightarrow> bool" where
  "releasing A A' \<longleftrightarrow>
     regions_ok A' \<and> map sc_block_size (pools A') = map sc_block_size (pools A) \<and>
     large_regions A' = large_regions A \<and> k_nmap (al_kern A') = k_nmap (al_kern A) \<and>
     k_unmap (al_kern A') = k_unmap (al_kern A) \<and> live_blocks A' \<subseteq> live_blocks A \<and>
     allocator_initialized A' = allocator_initialized A \<and> allocator_backend A' = allocator_backend A"

lemma releasing_trans: "releasing A A' \<Longrightarrow> releasing A' A'' \<Longrightarrow> releasing A A''"
  by (auto simp: releasing_def)

lemma release_head:
  assumes "regions_ok A" "lists_ok A sss ls" "i < length (pools A)" "sss ! i = x # xs"
  obtains sb where "sc_slabs (pools A ! i) = Some x" "al_regions A x = Some (KVS_REGION_SLAB sb)"
    "\<forall>b A1 A'. release_region x KVS_SLAB_SIZE A = (b, A1) \<longrightarrow>
       A' = (if b then A1\<lparr>pools := (pools A1)[i := (pools A1 ! i)\<lparr>sc_slabs := sb_next sb\<rparr>]\<rparr> else A1) \<longrightarrow>
       releasing A A' \<and> lists_ok A' (if b then sss[i := xs] else sss) ls \<and> pools A1 = pools A \<and>
       (\<not> b \<longrightarrow> \<not> k_unmap (al_kern A) (k_nunmap (al_kern A)))"
proof -
  let ?N = "slab_nodes (al_regions A)"
  have chains: "list_all2 (\<lambda>c ss. slab_chain ?N (sc_block_size c) (sc_slabs c) ss) (pools A) sss"
    using assms(2) by (simp add: lists_ok_def)
  then have len: "length sss = length (pools A)" by (simp add: list_all2_lengthD)
  have "slab_chain ?N (sc_block_size (pools A ! i)) (sc_slabs (pools A ! i)) (x # xs)"
    using list_all2_nthD [OF chains assms(3)] assms(4) by simp
  then obtain sb where sb: "sc_slabs (pools A ! i) = Some x" "al_regions A x = Some (KVS_REGION_SLAB sb)"
      "slab_chain ?N (sc_block_size (pools A ! i)) (sb_next sb) xs"
    by (auto dest: slab_nodesD)
  have conc: "x \<notin> set (concat (sss[i := xs]))" "set (concat sss) = insert x (set (concat (sss[i := xs])))"
      "distinct (concat (sss[i := xs]))" "length (concat sss) = Suc (length (concat (sss[i := xs])))"
    using set_concat_upd [of i "sss[i := xs]" x] assms(2-4) len list_update_id [of sss i]
    by (simp_all add: lists_ok_def)
  have notlarge: "x \<notin> set ls"
    using conc(2) assms(2) by (auto simp: lists_ok_def)
  have law: "releasing A A' \<and> lists_ok A' (if b then sss[i := xs] else sss) ls \<and> pools A1 = pools A \<and>
       (\<not> b \<longrightarrow> \<not> k_unmap (al_kern A) (k_nunmap (al_kern A)))"
    if run: "release_region x KVS_SLAB_SIZE A = (b, A1)"
      and A': "A' = (if b then A1\<lparr>pools := (pools A1)[i := (pools A1 ! i)\<lparr>sc_slabs := sb_next sb\<rparr>]\<rparr> else A1)" for b A1 A'
  proof -
    have sz: "region_size (KVS_REGION_SLAB sb) = KVS_SLAB_SIZE" by (simp add: region_size_def)
    note rel = release_region_law [OF assms(1) sb(2), unfolded sz, OF run]
    have un: "k_unmap (al_kern A1) = k_unmap (al_kern A)" "\<not> b \<Longrightarrow> \<not> k_unmap (al_kern A) (k_nunmap (al_kern A))"
      using run by (auto simp: release_region_def munmap_def Let_def split: if_splits)
    have live: "live_blocks A' \<subseteq> live_blocks A"
      using rel(2) A' by (auto simp: live_blocks_def split: if_splits)
    have sizes: "map sc_block_size (pools A') = map sc_block_size (pools A)"
      unfolding A' using rel(3) list_update_id [of "map sc_block_size (pools A)" i] assms(3)
      by (simp add: map_update)
    have "regions_ok A'"
      using rel(1) A' by (simp add: regions_ok_def)
    then have "releasing A A'"
      unfolding releasing_def using rel(4,6,8,9) un live sizes A' by simp
    moreover have "lists_ok A' (if b then sss[i := xs] else sss) ls"
    proof (cases b)
      case False
      then show ?thesis
        using assms(2) rel(2-6) A' by (simp add: lists_ok_def)
    next
      case True
      have N': "slab_nodes (al_regions A') = ?N(x := None)" and L': "large_nodes (al_regions A') = (large_nodes (al_regions A))(x := None)"
        using rel(2) True A' by simp_all
      have "list_all2 (\<lambda>c ss. slab_chain ?N (sc_block_size c) (sc_slabs c) ss) (pools A') (sss[i := xs])"
        using list_all2_upd [OF chains, of "(pools A ! i)\<lparr>sc_slabs := sb_next sb\<rparr>" xs i] sb(3) rel(3) A' True by simp
      then have "list_all2 (\<lambda>c ss. slab_chain (slab_nodes (al_regions A')) (sc_block_size c) (sc_slabs c) ss) (pools A') (sss[i := xs])"
        unfolding N' using conc(1) by (auto simp: list_all2_conv_all_nth)
      moreover have "large_chain (large_nodes (al_regions A')) None (large_regions A') ls"
        using assms(2) notlarge rel(4) A' True unfolding L' by (simp add: lists_ok_def)
      moreover have "dom (al_regions A') = set (concat (sss[i := xs]) @ ls)"
        using assms(2) conc(1,2) notlarge rel(2) True A' by (auto simp: lists_ok_def)
      ultimately show ?thesis
        using assms(2) conc notlarge rel(6) True A' by (simp add: lists_ok_def)
    qed
    ultimately show ?thesis
      using rel(3) un(2) by blast
  qed
  show thesis
    using that [OF sb(1,2)] law by blast
qed

lemma release_slabs_law:
  assumes "regions_ok A" "lists_ok A sss ls" "i < length (pools A)" "length (sss ! i) < fuel"
  shows "\<exists>r A' xs. release_slabs fuel i A = Inr (r, A') \<and> releasing A A' \<and> lists_ok A' (sss[i := xs]) ls \<and>
    (r = 0 \<and> xs = [] \<or> r = -1 \<and> (\<exists>k. \<not> k_unmap (al_kern A) k))"
  using assms
proof (induction fuel arbitrary: A sss)
  case (Suc fuel)
  show ?case
  proof (cases "sss ! i")
    case Nil
    then have "sc_slabs (pools A ! i) = None"
      using Suc.prems(2,3) by (auto simp: lists_ok_def dest!: list_all2_nthD [where p = i])
    then show ?thesis
      using Suc.prems(1,2) Nil list_update_id [of sss i] by (auto simp: releasing_def intro!: exI [of _ "[]"])
  next
    case (Cons x xs)
    obtain sb where sb: "sc_slabs (pools A ! i) = Some x" "al_regions A x = Some (KVS_REGION_SLAB sb)"
        "\<forall>b A1 A'. release_region x KVS_SLAB_SIZE A = (b, A1) \<longrightarrow>
       A' = (if b then A1\<lparr>pools := (pools A1)[i := (pools A1 ! i)\<lparr>sc_slabs := sb_next sb\<rparr>]\<rparr> else A1) \<longrightarrow>
       releasing A A' \<and> lists_ok A' (if b then sss[i := xs] else sss) ls \<and> pools A1 = pools A \<and>
       (\<not> b \<longrightarrow> \<not> k_unmap (al_kern A) (k_nunmap (al_kern A)))"
      using release_head [OF Suc.prems(1-3) Cons] .
    obtain b A1 where b: "release_region x KVS_SLAB_SIZE A = (b, A1)" by force
    define A' where "A' = (if b then A1\<lparr>pools := (pools A1)[i := (pools A1 ! i)\<lparr>sc_slabs := sb_next sb\<rparr>]\<rparr> else A1)"
    note step = sb(3) [rule_format, OF b A'_def]
    show ?thesis
    proof (cases b)
      case False
      then have "release_slabs (Suc fuel) i A = Inr (-1, A')"
        using sb(1,2) b by (simp add: get_slab_def A'_def)
      with step False list_update_id [of sss i] show ?thesis by metis
    next
      case True
      then have run: "release_slabs (Suc fuel) i A = release_slabs fuel i A'"
        using sb(1,2) b step by (simp add: get_slab_def A'_def)
      have "regions_ok A'" "lists_ok A' (sss[i := xs]) ls" "i < length (pools A')"
        using step True Suc.prems(3) by (auto simp: releasing_def A'_def)
      moreover have "length (sss[i := xs] ! i) < fuel"
        using Suc.prems(2-4) Cons by (auto simp: lists_ok_def dest!: list_all2_lengthD)
      ultimately obtain r A'' ys where "release_slabs fuel i A' = Inr (r, A'')" "releasing A' A''" "lists_ok A'' (sss[i := xs, i := ys]) ls"
          "r = 0 \<and> ys = [] \<or> r = -1 \<and> (\<exists>k. \<not> k_unmap (al_kern A') k)"
        using Suc.IH by blast
      moreover have "k_unmap (al_kern A') = k_unmap (al_kern A)"
        using step by (simp add: releasing_def)
      ultimately show ?thesis
        using run step releasing_trans by (auto intro!: exI [of _ ys])
    qed
  qed
qed simp

lemma release_pools_law:
  assumes "regions_ok A" "lists_ok A sss ls" "\<forall>i\<in>set is. i < length (pools A)"
  shows "\<exists>r A' sss'. release_pools is A = Inr (r, A') \<and> releasing A A' \<and> lists_ok A' sss' ls \<and> length sss' = length sss \<and>
    (r = 0 \<and> (\<forall>j. j \<in> set is \<or> sss ! j = [] \<longrightarrow> j < length sss \<longrightarrow> sss' ! j = []) \<or> r = -1 \<and> (\<exists>k. \<not> k_unmap (al_kern A) k))"
  using assms
proof (induction "is" arbitrary: A sss)
  case Nil
  then show ?case by (auto simp: releasing_def)
next
  case (Cons i "is")
  have "length sss = length (pools A)"
    using Cons.prems(2) by (auto simp: lists_ok_def dest: list_all2_lengthD)
  then have i: "i < length (pools A)" "length (sss ! i) < region_bound A"
    using Cons.prems lists_ok_fuel [OF Cons.prems(2), of "sss ! i"] by auto
  obtain r A1 xs where one: "release_slabs (region_bound A) i A = Inr (r, A1)" "releasing A A1" "lists_ok A1 (sss[i := xs]) ls"
      "r = 0 \<and> xs = [] \<or> r = -1 \<and> (\<exists>k. \<not> k_unmap (al_kern A) k)"
    using release_slabs_law [OF Cons.prems(1,2) i] by blast
  show ?case
  proof (cases "r = 0")
    case False
    with one show ?thesis by (auto intro!: exI [of _ "sss[i := xs]"])
  next
    case True
    have un: "k_unmap (al_kern A1) = k_unmap (al_kern A)" and ok1: "regions_ok A1"
        and len1: "map sc_block_size (pools A1) = map sc_block_size (pools A)"
      using one(2) by (simp_all add: releasing_def)
    have "\<forall>j\<in>set is. j < length (pools A1)"
      using Cons.prems(3) arg_cong [OF len1, of length] by simp
    from Cons.IH [OF ok1 one(3) this] obtain r' A2 sss' where
      two: "release_pools is A1 = Inr (r', A2)" "releasing A1 A2" "lists_ok A2 sss' ls" "length sss' = length (sss[i := xs])"
        "r' = 0 \<and> (\<forall>j. j \<in> set is \<or> sss[i := xs] ! j = [] \<longrightarrow> j < length (sss[i := xs]) \<longrightarrow> sss' ! j = []) \<or>
         r' = -1 \<and> (\<exists>k. \<not> k_unmap (al_kern A1) k)"
      by blast
    have "release_pools (i # is) A = Inr (r', A2)"
      using one(1) True two(1) by simp
    moreover have "sss' ! j = []" if "r' = 0" "j \<in> set (i # is) \<or> sss ! j = []" "j < length sss" for j
    proof -
      have "j \<in> set is \<or> sss[i := xs] ! j = []"
        using that(2,3) one(4) True by (cases "j = i") auto
      with two(5) that(1,3) show ?thesis by auto
    qed
    ultimately show ?thesis
      using two one(2) un releasing_trans by (intro exI [of _ r'] exI [of _ A2] exI [of _ sss']) auto
  qed
qed

lemma allocator_destroy_law:
  assumes "pool_ready A"
  shows "\<exists>r A'. kvs_allocator_destroy A = Inr (r, A') \<and>
    (live_blocks A \<noteq> {} \<longrightarrow> r = -1 \<and> A' = A) \<and>
    (r = 0 \<longrightarrow> \<not> allocator_initialized A' \<and> (\<forall>x. al_regions A' x = None)) \<and>
    (live_blocks A = {} \<longrightarrow> (\<forall>k. k_unmap (al_kern A) k) \<longrightarrow> r = 0) \<and>
    (r \<noteq> 0 \<longrightarrow> r = -1 \<and> pool_ready A' \<and> live_blocks A' = live_blocks A)"
proof -
  have inv: "pool_inv A" and ok: "regions_ok A" and ini: "allocator_initialized A" "allocator_backend A = KVS_ALLOCATOR_POOL"
    using assms by (simp_all add: pool_ready_def pool_inv_def)
  obtain sss ls where lists: "lists_ok A sss ls"
    using inv by (auto simp: pool_inv_def)
  show ?thesis
  proof (cases "large_regions A")
    case (Some x)
    then have "x \<in> set ls"
      using lists by (cases ls) (auto simp: lists_ok_def)
    then obtain q where "large_nodes (al_regions A) x = Some q"
      using lists large_chain_node by (fastforce simp: lists_ok_def)
    then obtain lg where "al_regions A x = Some (KVS_REGION_LARGE lg)"
      using large_nodesD by (cases q) blast
    then have "region_live x (KVS_REGION_LARGE lg) \<subseteq> live_blocks A"
      by (auto simp: live_blocks_def)
    then have "live_blocks A \<noteq> {}"
      by (auto simp: region_live_def)
    with Some ini show ?thesis
      using assms by (auto simp: kvs_allocator_destroy_def)
  next
    case None
    then have ls: "ls = []"
      using lists by (cases ls) (auto simp: lists_ok_def)
    have "list_all2 (\<lambda>c ss. slab_chain (slab_nodes (al_regions A)) (sc_block_size c) (sc_slabs c) ss) (pools A) sss"
      using lists by (simp add: lists_ok_def)
    then have un: "pools_unused A (pools A) = Inr (live_blocks A = {})" and len: "length sss = length (pools A)"
      using pools_unused_law [of A "pools A" sss] lists_ok_fuel [OF lists] live_blocks_none [OF ok] lists ls
      by (auto dest: list_all2_lengthD)
    obtain r A' sss' where rel: "release_pools [0..<length (pools A)] A = Inr (r, A')" "releasing A A'" "lists_ok A' sss' []"
        "length sss' = length sss" "r = 0 \<and> (\<forall>j<length sss. sss' ! j = []) \<or> r = -1 \<and> (\<exists>k. \<not> k_unmap (al_kern A) k)"
      using release_pools_law [OF ok lists, of "[0..<length (pools A)]"] ls len by auto
    have kept: "pool_inv A'"
      using rel(2,3) inv by (auto simp: releasing_def pool_inv_def)
    have gone: "al_regions A' x = None" if "r = 0" for x
    proof -
      have "set (concat sss') = {}"
        using rel(4,5) that by (auto simp: in_set_conv_nth)
      then have "dom (al_regions A') = {}"
        using rel(3) by (simp add: lists_ok_def)
      then show ?thesis by auto
    qed
    show ?thesis
    proof (cases "live_blocks A = {}")
      case False
      then show ?thesis
        using un ini None assms by (auto simp: kvs_allocator_destroy_def pool_destroy_def)
    next
      case True
      then have "live_blocks A' = {}"
        using rel(2) by (auto simp: releasing_def)
      then show ?thesis
        using True un ini None rel gone kept by (auto simp: kvs_allocator_destroy_def pool_destroy_def pool_ready_def releasing_def)
    qed
  qed
qed

section \<open>What clients write into their blocks\<close>

text \<open>
  A client may put anything into a block it holds, and so overwrite what was the link of
  the free list while the block was free.
\<close>

definition client_write :: "nat \<Rightarrow> nat \<Rightarrow> (nat \<Rightarrow> nat option) \<Rightarrow> allocator \<Rightarrow> allocator" where
  "client_write p n f A = A\<lparr>al_links := (\<lambda>a. if p \<le> a \<and> a < p + n then f a else al_links A a)\<rparr>"

lemma slab_blocks_written:
  assumes "slab_shape x sb" "slab_blocks lk sb" "(p, n) \<in> region_live x (KVS_REGION_SLAB sb)"
    and "\<And>a. \<not> (p \<le> a \<and> a < p + n) \<Longrightarrow> lk' a = lk a"
  shows "slab_blocks lk' sb"
proof -
  let ?n = "sb_block_size sb"
  obtain "is" where "is": "free_chain lk (sb_data sb) ?n (sb_free_list sb) is" "distinct is"
      "set is = {i. i < sb_capacity sb \<and> \<not> bit_at (sb_bitmap sb) i}" "sb_used_count sb + length is = sb_capacity sb"
    using assms(2) by (auto simp: slab_blocks_def)
  obtain j where j: "bit_at (sb_bitmap sb) j" "p = sb_data sb + j * ?n" "n = ?n"
    using assms(3) by (auto simp: region_live_def)
  have "lk' (sb_data sb + i * ?n) = lk (sb_data sb + i * ?n)" if "i \<in> set is" for i
  proof (rule assms(4))
    have "i < j \<or> j < i"
      using that "is"(3) j(1) by (metis (mono_tags, lifting) linorder_neqE_nat mem_Collect_eq)
    then have "Suc i * ?n \<le> j * ?n \<or> Suc j * ?n \<le> i * ?n"
      by (metis Suc_leI mult_le_mono1)
    moreover have "0 < ?n"
      using class_geometry(2) [of ?n] assms(1) by (auto simp: slab_shape_def)
    ultimately have "apart (sb_data sb + i * ?n, ?n) (p, n) \<and> 0 < ?n"
      unfolding j(2,3) apart_def by auto
    then show "\<not> (p \<le> sb_data sb + i * ?n \<and> sb_data sb + i * ?n < p + n)"
      unfolding apart_def fst_conv snd_conv by linarith
  qed
  then have "free_chain lk' (sb_data sb) ?n (sb_free_list sb) is"
    using free_chain_cong [of "is" lk' "sb_data sb" ?n lk] "is"(1) by blast
  with "is" show ?thesis
    by (auto simp: slab_blocks_def)
qed

lemma client_write_law:
  assumes "pool_ready A" "(p, n) \<in> live_blocks A"
  shows "pool_ready (client_write p n f A)" "live_blocks (client_write p n f A) = live_blocks A"
proof -
  let ?A = "client_write p n f A"
  have ok: "regions_ok A" using assms(1) by (simp add: pool_ready_def pool_inv_def)
  obtain r where r: "al_regions A (slab_start p) = Some r" "(p, n) \<in> region_live (slab_start p) r"
      "region_ok (al_links A) (al_kern A) (slab_start p) r"
    using live_blocksE [OF ok assms(2)] by auto
  note inside = region_live_within(1) [OF r(3,2)]
  have "region_ok (al_links ?A) (al_kern A) (slab_start p) r"
  proof (cases r)
    case (KVS_REGION_SLAB sb)
    then have sb: "slab_shape (slab_start p) sb" "slab_blocks (al_links A) sb" "(p, n) \<in> region_live (slab_start p) (KVS_REGION_SLAB sb)"
      using r by (simp_all add: region_ok_def)
    have "slab_blocks (al_links ?A) sb"
      by (rule slab_blocks_written [OF sb]) (auto simp: client_write_def)
    then show ?thesis
      using r(3) KVS_REGION_SLAB by (simp add: region_ok_def)
  next
    case (KVS_REGION_LARGE lg)
    then show ?thesis
      using r(3) by (simp add: region_ok_def)
  qed
  moreover have "al_links ?A a = al_links A a" if "\<not> (slab_start p \<le> a \<and> a < slab_start p + region_size r)" for a
    using that inside by (auto simp: client_write_def within_def)
  ultimately have "regions_ok ?A"
    using regions_ok_update [OF ok r(1), of r ?A] r(1) by (simp add: client_write_def fun_upd_idem)
  moreover have "lists_ok ?A sss ls = lists_ok A sss ls" for sss ls
    by (simp add: lists_ok_def client_write_def)
  ultimately show "pool_ready ?A"
    using assms(1) by (simp add: pool_ready_def pool_inv_def) (simp add: client_write_def)
  show "live_blocks ?A = live_blocks A"
    by (simp add: live_blocks_def client_write_def)
qed

section \<open>Statistics\<close>

definition slab_used :: "allocator \<Rightarrow> nat \<Rightarrow> nat" where
  "slab_used A x = (case al_regions A x of Some (KVS_REGION_SLAB sb) \<Rightarrow> sb_used_count sb | _ \<Rightarrow> 0)"

definition region_bytes :: "allocator \<Rightarrow> nat \<Rightarrow> nat" where
  "region_bytes A x = (case al_regions A x of Some r \<Rightarrow> region_size r | None \<Rightarrow> 0)"

lemma count_slabs_law:
  assumes "slab_chain (slab_nodes (al_regions A)) n p xs" "length xs < fuel"
  shows "count_slabs fuel A p st = Inr (st\<lparr>live_objects := live_objects st + sum_list (map (slab_used A) xs),
    slab_count := slab_count st + length xs, mapped_bytes := mapped_bytes st + sum_list (map (region_bytes A) xs)\<rparr>)"
  using assms
proof (induction fuel arbitrary: p xs st)
  case (Suc fuel)
  show ?case
  proof (cases xs)
    case Nil
    with Suc.prems show ?thesis by simp
  next
    case (Cons x ys)
    with Suc.prems obtain sb where sb: "p = Some x" "al_regions A x = Some (KVS_REGION_SLAB sb)"
        "slab_chain (slab_nodes (al_regions A)) n (sb_next sb) ys"
      by (auto dest: slab_nodesD)
    with Suc.IH [of "sb_next sb" ys] Suc.prems(2) Cons show ?thesis
      by (simp add: get_slab_def slab_used_def region_bytes_def region_size_def)
  qed
qed simp

lemma count_pools_law:
  assumes "list_all2 (\<lambda>c ss. slab_chain (slab_nodes (al_regions A)) (sc_block_size c) (sc_slabs c) ss) cs sss"
    and "\<forall>ss\<in>set sss. length ss < region_bound A"
  shows "count_pools A cs st = Inr (st\<lparr>live_objects := live_objects st + sum_list (map (slab_used A) (concat sss)),
    slab_count := slab_count st + length (concat sss), mapped_bytes := mapped_bytes st + sum_list (map (region_bytes A) (concat sss))\<rparr>)"
  using assms
proof (induction arbitrary: st rule: list_all2_induct)
  case (Cons c cs ss sss)
  then show ?case
    using count_slabs_law [OF Cons(1), of "region_bound A" st] by (simp add: add.assoc)
qed simp

lemma count_large_law:
  assumes "large_chain (large_nodes (al_regions A)) prev p xs" "length xs < fuel"
  shows "count_large fuel A p st = Inr (st\<lparr>live_objects := live_objects st + length xs,
    large_count := large_count st + length xs, mapped_bytes := mapped_bytes st + sum_list (map (region_bytes A) xs)\<rparr>)"
  using assms
proof (induction fuel arbitrary: p prev xs st)
  case (Suc fuel)
  show ?case
  proof (cases xs)
    case Nil
    with Suc.prems show ?thesis by simp
  next
    case (Cons x ys)
    with Suc.prems obtain lg where lg: "p = Some x" "al_regions A x = Some (KVS_REGION_LARGE lg)"
        "large_chain (large_nodes (al_regions A)) (Some x) (lg_next lg) ys"
      by (auto dest: large_nodesD)
    with Suc.IH [of "Some x" "lg_next lg" ys] Suc.prems(2) Cons show ?thesis
      by (simp add: get_large_def region_bytes_def region_size_def)
  qed
qed simp

lemma card_region_live:
  assumes "region_ok lk K x r"
  shows "card (region_live x r) = (case r of KVS_REGION_SLAB sb \<Rightarrow> sb_used_count sb | KVS_REGION_LARGE _ \<Rightarrow> 1)"
    "finite (region_live x r)"
proof -
  have "card (region_live x r) = (case r of KVS_REGION_SLAB sb \<Rightarrow> sb_used_count sb | KVS_REGION_LARGE _ \<Rightarrow> 1) \<and> finite (region_live x r)"
  proof (cases r)
    case (KVS_REGION_SLAB sb)
    let ?n = "sb_block_size sb" and ?I = "{i. i < sb_capacity sb \<and> bit_at (sb_bitmap sb) i}"
    have sb: "slab_shape x sb" "slab_blocks lk sb"
      using assms KVS_REGION_SLAB by (auto simp: region_ok_def)
    have img: "region_live x r = (\<lambda>i. (sb_data sb + i * ?n, ?n)) ` ?I"
      by (auto simp: KVS_REGION_SLAB region_live_def)
    have "inj_on (\<lambda>i. (sb_data sb + i * ?n, ?n)) ?I"
      using class_geometry(2) [of ?n] sb(1) by (auto simp: inj_on_def slab_shape_def)
    then have "card (region_live x r) = card ?I"
      unfolding img by (rule card_image)
    moreover have "finite (region_live x r)"
      unfolding img by simp
    ultimately show ?thesis
      using slab_unused(2) [OF sb(2)] by (simp add: KVS_REGION_SLAB)
  next
    case (KVS_REGION_LARGE lg)
    then show ?thesis by (simp add: region_live_def)
  qed
  then show "card (region_live x r) = (case r of KVS_REGION_SLAB sb \<Rightarrow> sb_used_count sb | KVS_REGION_LARGE _ \<Rightarrow> 1)"
    "finite (region_live x r)" by auto
qed

lemma card_live_blocks:
  assumes "regions_ok A" "lists_ok A sss ls"
  shows "card (live_blocks A) = sum_list (map (slab_used A) (concat sss)) + length ls"
proof -
  let ?live = "\<lambda>x. region_live x (the (al_regions A x))"
  have dom: "dom (al_regions A) = set (concat sss @ ls)" and dist: "distinct (concat sss @ ls)"
    using assms(2) by (auto simp: lists_ok_def)
  have "live_blocks A = (\<Union>x\<in>set (concat sss @ ls). ?live x)"
    unfolding dom [symmetric] by (force simp: live_blocks_def)
  moreover have "card (\<Union>x\<in>set (concat sss @ ls). ?live x) = (\<Sum>x\<in>set (concat sss @ ls). card (?live x))"
  proof (rule card_UN_disjoint)
    show "\<forall>x\<in>set (concat sss @ ls). finite (?live x)"
      unfolding dom [symmetric] using card_region_live(2) regions_okD(1) [OF assms(1)] by fastforce
    show "\<forall>x\<in>set (concat sss @ ls). \<forall>y\<in>set (concat sss @ ls). x \<noteq> y \<longrightarrow> ?live x \<inter> ?live y = {}"
    proof (intro ballI impI)
      fix x y assume xy: "x \<in> set (concat sss @ ls)" "y \<in> set (concat sss @ ls)" "x \<noteq> y"
      then obtain r q where "al_regions A x = Some r" "al_regions A y = Some q"
        unfolding dom [symmetric] by blast
      with region_live_other [OF assms(1) this xy(3)] show "?live x \<inter> ?live y = {}"
        by auto
    qed
  qed simp
  moreover have "(\<Sum>x\<in>set (concat sss @ ls). card (?live x)) = sum_list (map (\<lambda>x. card (?live x)) (concat sss @ ls))"
    using dist by (simp only: sum.distinct_set_conv_list)
  moreover have "map (\<lambda>x. card (?live x)) (concat sss) = map (slab_used A) (concat sss)"
  proof (rule map_cong [OF refl])
    fix x assume "x \<in> set (concat sss)"
    moreover have "list_all2 (\<lambda>c ss. slab_chain (slab_nodes (al_regions A)) (sc_block_size c) (sc_slabs c) ss) (pools A) sss"
      using assms(2) by (simp add: lists_ok_def)
    ultimately obtain sb where "al_regions A x = Some (KVS_REGION_SLAB sb)"
      using slab_lists_node slab_nodesD by metis
    with card_region_live(1) [OF regions_okD(1) [OF assms(1) this]] show "card (?live x) = slab_used A x"
      by (simp add: slab_used_def)
  qed
  moreover have "map (\<lambda>x. card (?live x)) ls = map (\<lambda>x. 1) ls"
  proof (rule map_cong [OF refl])
    fix x assume "x \<in> set ls"
    moreover have "large_chain (large_nodes (al_regions A)) None (large_regions A) ls"
      using assms(2) by (simp add: lists_ok_def)
    ultimately obtain lg where "al_regions A x = Some (KVS_REGION_LARGE lg)"
      using large_chain_node large_nodesD by (metis surj_pair)
    with card_region_live(1) [OF regions_okD(1) [OF assms(1) this]] show "card (?live x) = 1" by simp
  qed
  ultimately show ?thesis
    by (simp add: sum_list_triv)
qed

lemma allocator_stats_law:
  assumes "pool_ready A"
  obtains st where "kvs_allocator_pool_stats A = Inr (0, Some st)" "live_objects st = card (live_blocks A)"
    "slab_count st + large_count st = card (dom (al_regions A))"
    "mapped_bytes st = (\<Sum>x\<in>dom (al_regions A). region_bytes A x)"
proof -
  have ok: "regions_ok A" and ini: "allocator_initialized A" "allocator_backend A = KVS_ALLOCATOR_POOL"
    using assms by (simp_all add: pool_ready_def pool_inv_def)
  obtain sss ls where lists: "lists_ok A sss ls"
    using assms by (auto simp: pool_ready_def pool_inv_def)
  then have dom: "dom (al_regions A) = set (concat sss @ ls)" and dist: "distinct (concat sss @ ls)"
      and ls: "large_chain (large_nodes (al_regions A)) None (large_regions A) ls" "length ls < region_bound A"
      and sss: "list_all2 (\<lambda>c ss. slab_chain (slab_nodes (al_regions A)) (sc_block_size c) (sc_slabs c) ss) (pools A) sss"
    by (auto simp: lists_ok_def region_bound_def)
  define st where "st = \<lparr>live_objects = sum_list (map (slab_used A) (concat sss)) + length ls, slab_count = length (concat sss),
    large_count = length ls, mapped_bytes = sum_list (map (region_bytes A) (concat sss)) + sum_list (map (region_bytes A) ls)\<rparr>"
  have "kvs_allocator_pool_stats A = Inr (0, Some st)"
    using ini count_pools_law [OF sss] lists_ok_fuel [OF lists] count_large_law [OF ls]
    by (simp add: kvs_allocator_pool_stats_def st_def)
  moreover have "live_objects st = card (live_blocks A)"
    using card_live_blocks [OF ok lists] by (simp add: st_def)
  moreover have "slab_count st + large_count st = card (dom (al_regions A))"
    unfolding dom distinct_card [OF dist] by (simp add: st_def)
  moreover have "mapped_bytes st = (\<Sum>x\<in>dom (al_regions A). region_bytes A x)"
    unfolding dom using sum.distinct_set_conv_list [OF dist, of "region_bytes A"] by (simp add: st_def)
  ultimately show thesis by (rule that)
qed

section \<open>Requests that are granted\<close>

lemma region_memory_alloc_granted:
  assumes "0 < k_page (al_kern A)" "KVS_SLAB_SIZE mod nat (k_page (al_kern A)) = 0" "0 < req" "req mod nat (k_page (al_kern A)) = 0"
    and "req \<le> SIZE_MAX - KVS_SLAB_SIZE" "k_place (al_kern A) (k_nmap (al_kern A)) = Some raw"
    and "placeable (al_kern A) (req + KVS_SLAB_SIZE) raw" "\<forall>k. k_unmap (al_kern A) k"
  shows "fst (region_memory_alloc req A) \<noteq> None"
proof -
  have un: "fst (munmap a n K) \<and> k_unmap (snd (munmap a n K)) = k_unmap K" if "\<forall>k. k_unmap K k" for a n K
    using that by (simp add: munmap_def Let_def)
  obtain K1 where m: "mmap (req + KVS_SLAB_SIZE) (al_kern A) = (Some raw, K1)" "\<forall>k. k_unmap K1 k"
    using assms(6-8) by (simp add: mmap_def Let_def)
  have step: "\<exists>K'. (if n \<noteq> 0 then munmap a n K else (True, K)) = (True, K') \<and> (\<forall>k. k_unmap K' k)" if "\<forall>k. k_unmap K k" for a n K
    using un [OF that, of a n] that by (cases "munmap a n K") auto
  let ?p = "slab_start (raw + KVS_SLAB_SIZE - 1)"
  let ?suf = "size_minus (size_minus (req + KVS_SLAB_SIZE) (size_minus ?p raw)) req"
  obtain K2 where K2: "(if size_minus ?p raw \<noteq> 0 then munmap raw (size_minus ?p raw) K1 else (True, K1)) = (True, K2)" "\<forall>k. k_unmap K2 k"
    using step [OF m(2)] by blast
  obtain K3 where K3: "(if ?suf \<noteq> 0 then munmap (?p + req) ?suf K2 else (True, K2)) = (True, K3)"
    using step [OF K2(2)] by blast
  show ?thesis
    using assms(1-5) by (simp only: region_memory_alloc_def Let_def m(1) K2(1) K3 prod.case option.case) simp
qed

lemma allocator_small_granted:
  assumes "pool_ready A" "0 < n" "n \<le> 4096" "fst (region_memory_alloc KVS_SLAB_SIZE A) \<noteq> None"
  obtains p A' where "kvs_allocator_alloc n A = Inr (Some p, A')" "alloc_effect n A (Some p) A'"
proof -
  have "largest_class A = 4096" "pool_inv A"
    using assms(1) largest_class_pool(1) by (simp_all add: pool_ready_def pool_inv_def)
  then show thesis
    using pool_alloc_small_law [of A n] assms that
    by (auto simp: kvs_allocator_alloc_def pool_ready_def)
qed

section \<open>Giving a block back twice\<close>

lemma pool_free_small_region:
  "pool_free_small a A = Inr (r, A') \<Longrightarrow> al_regions A (slab_start a) = Some (KVS_REGION_SLAB sb) \<Longrightarrow>
   \<exists>sb'. al_regions A' (slab_start a) = Some (KVS_REGION_SLAB sb')"
  by (auto simp: pool_free_small_def get_slab_def put_slab_def Let_def split: if_splits)

lemma pool_free_large_region:
  assumes "pool_free_large x A = Inr (0, A')" "al_regions A x = Some (KVS_REGION_LARGE lg)" "0 < lg_mapping_size lg"
  shows "al_regions A' x = None"
proof -
  obtain A2 where A2: "(case release_region x (lg_mapping_size lg) A2 of
         (True, A) \<Rightarrow> Inr (0, A)
       | (False, A) \<Rightarrow>
           bindr (set_next_of (lg_prev lg) (Some x) A) (\<lambda>A.
           bindr (set_prev_of (lg_next lg) (Some x) A) (\<lambda>A. Inr (-1, A)))) = Inr (0 :: int, A')"
    using assms(1,2) unfolding pool_free_large_def get_large_def bindr_eq_Inr by auto
  then have "release_region x (lg_mapping_size lg) A2 = (True, A')"
    by (cases "release_region x (lg_mapping_size lg) A2"; cases "fst (release_region x (lg_mapping_size lg) A2)")
       (auto simp: bindr_eq_Inr)
  with assms(3) show ?thesis
    by (auto simp: release_region_def split: prod.splits bool.splits)
qed

text \<open>
  The second time, a small block is recognised as free; the header of a large one is no
  longer mapped.
\<close>

lemma allocator_free_twice:
  assumes "pool_ready A" "(a, n) \<in> live_blocks A" "kvs_allocator_free (Some a) A = Inr A'"
  shows "kvs_allocator_free (Some a) A' = Inl Assert_failed \<or> kvs_allocator_free (Some a) A' = Inl Dangling"
proof -
  have ok: "regions_ok A" and ini: "allocator_initialized A" "allocator_backend A = KVS_ALLOCATOR_POOL"
    using assms(1) by (simp_all add: pool_ready_def pool_inv_def)
  have A': "pool_ready A'" "live_blocks A' = live_blocks A - {(a, n)}"
    using allocator_free_law [OF assms(1,2)] assms(3) by auto
  obtain r where r: "al_regions A (slab_start a) = Some r" "(a, n) \<in> region_live (slab_start a) r"
      "region_ok (al_links A) (al_kern A) (slab_start a) r"
    using live_blocksE [OF ok assms(2)] by auto
  have gone: "(a, m) \<notin> live_blocks A'" for m
    using live_blocks_apart [OF ok assms(2), of "(a, m)"] live_blocks_sound(1) [OF ok assms(2)] live_blocks_sound(1) [OF ok, of "(a, m)"]
    by (auto simp: A'(2) apart_def)
  have small: "a < 2 ^ 64"
    using region_live_within(1,2) [OF r(3,2)] r(3) by (auto simp: within_def region_ok_def)
  show ?thesis
  proof (cases r)
    case (KVS_REGION_SLAB sb)
    then have "\<exists>A''. pool_free_small a A = Inr (0, A'') \<and> A'' = A'"
      using assms(3) r(1) ini by (auto simp: kvs_allocator_free_def bindr_eq_Inr split: if_splits)
    then obtain sb' where "al_regions A' (slab_start a) = Some (KVS_REGION_SLAB sb')"
      using pool_free_small_region r(1) KVS_REGION_SLAB by blast
    then show ?thesis
      using allocator_double_free [OF A'(1) small] gone by blast
  next
    case (KVS_REGION_LARGE lg)
    then have "pool_free_large (slab_start a) A = Inr (0, A')"
      using assms(3) r(1) ini by (auto simp: kvs_allocator_free_def bindr_eq_Inr split: if_splits)
    then have "al_regions A' (slab_start a) = None"
      using pool_free_large_region [of _ A A' lg] r(1,3) KVS_REGION_LARGE by (auto simp: region_ok_def)
    with A'(1) show ?thesis
      by (simp add: kvs_allocator_free_def pool_ready_def)
  qed
qed

end
