(* ===== verification/Memory_Client.thy ===== *)
theory Memory_Client
  imports Allocator_Laws
begin

text \<open>
  What the rest of the program may expect of \<open>kvs_allocator_alloc\<close> and
  \<open>kvs_allocator_free\<close>, stated as an interface, and what follows for any client: a program
  that requests blocks, writes into them and gives them back in any order runs to its end,
  and the blocks it holds never overlap; only a kernel that refuses to take memory back can
  stop it, when a block is given back.  The allocator of
  \<open>src/src/memory/kvs_allocator.c\<close> provides the interface.
\<close>

section \<open>The interface\<close>

text \<open>
  \<open>held s\<close> are the blocks handed out, each with the length that may be used.
  \<open>refused s\<close> says that the next memory given back to the kernel is not taken; what the
  kernel does about that, now and later, is its \<open>policy\<close>.  A release it refuses aborts.
\<close>

locale memory_manager =
  fixes alloc :: "nat \<Rightarrow> 's \<Rightarrow> (nat option \<times> 's) run"
    and release :: "nat option \<Rightarrow> 's \<Rightarrow> 's run"
    and store :: "nat \<Rightarrow> nat \<Rightarrow> (nat \<Rightarrow> nat option) \<Rightarrow> 's \<Rightarrow> 's"
    and ready :: "'s \<Rightarrow> bool"
    and policy :: "'s \<Rightarrow> 'k"
    and refused :: "'s \<Rightarrow> bool"
    and held :: "'s \<Rightarrow> (nat \<times> nat) set"
  assumes alloc_law: "ready s \<Longrightarrow> \<exists>r s'. alloc n s = Inr (r, s') \<and> ready s' \<and> policy s' = policy s \<and>
      (case r of None \<Rightarrow> held s' = held s | Some p \<Rightarrow> \<exists>m\<ge>n. (p, m) \<notin> held s \<and> held s' = insert (p, m) (held s))"
    and release_law: "ready s \<Longrightarrow> (p, m) \<in> held s \<Longrightarrow>
      (\<exists>s'. release (Some p) s = Inr s' \<and> ready s' \<and> policy s' = policy s \<and> held s' = held s - {(p, m)}) \<or>
      release (Some p) s = Inl Assert_failed \<and> refused s"
    and store_law: "ready s \<Longrightarrow> (p, m) \<in> held s \<Longrightarrow> n \<le> m \<Longrightarrow>
      ready (store p n f s) \<and> policy (store p n f s) = policy s \<and> held (store p n f s) = held s"
    and held_apart: "ready s \<Longrightarrow> b \<in> held s \<Longrightarrow> b' \<in> held s \<Longrightarrow> b \<noteq> b' \<Longrightarrow> apart b b' \<and> 0 < snd b"

text \<open>
  A client: it requests \<open>n\<close> bytes, writes into the i-th block it holds, or gives the i-th
  one back.  It remembers the address and the length it asked for.
\<close>

datatype client_op = Request nat | Fill nat "nat \<Rightarrow> nat option" | Give_back nat

fun run_client :: "(nat \<Rightarrow> 's \<Rightarrow> (nat option \<times> 's) run) \<Rightarrow> (nat option \<Rightarrow> 's \<Rightarrow> 's run) \<Rightarrow>
    (nat \<Rightarrow> nat \<Rightarrow> (nat \<Rightarrow> nat option) \<Rightarrow> 's \<Rightarrow> 's) \<Rightarrow>
    client_op list \<Rightarrow> (nat \<times> nat) list \<Rightarrow> 's \<Rightarrow> ((nat \<times> nat) list \<times> 's) run" where
  "run_client al re st [] hs s = Inr (hs, s)"
| "run_client al re st (Request n # ops) hs s =
     bindr (al n s) (\<lambda>(r, s). run_client al re st ops (case r of None \<Rightarrow> hs | Some p \<Rightarrow> (p, n) # hs) s)"
| "run_client al re st (Fill i f # ops) hs s =
     run_client al re st ops hs (if i < length hs then st (fst (hs ! i)) (snd (hs ! i)) f s else s)"
| "run_client al re st (Give_back i # ops) hs s =
     (if i < length hs
      then bindr (re (Some (fst (hs ! i))) s) (\<lambda>s. run_client al re st ops (take i hs @ drop (Suc i) hs) s)
      else run_client al re st ops hs s)"

text \<open>The client's record agrees with the blocks handed out.\<close>

definition holds :: "(nat \<times> nat) list \<Rightarrow> (nat \<times> nat) set \<Rightarrow> bool" where
  "holds hs H \<longleftrightarrow> distinct (map fst hs) \<and> (\<forall>b\<in>set hs. \<exists>m\<ge>snd b. (fst b, m) \<in> H) \<and> fst ` H = fst ` set hs"

lemma holds_nth: "holds hs H \<Longrightarrow> i < length hs \<Longrightarrow> \<exists>m. snd (hs ! i) \<le> m \<and> (fst (hs ! i), m) \<in> H"
  using nth_mem [of i hs] by (auto simp: holds_def)

context memory_manager
begin

lemma held_unique:
  assumes "ready s" "(p, m) \<in> held s" "(p, m') \<in> held s"
  shows "m = m'"
  using held_apart [OF assms(1), of "(p, m)" "(p, m')"] held_apart [OF assms(1), of "(p, m')" "(p, m)"] assms(2,3)
  by (auto simp: apart_def)

lemma holds_request:
  assumes "ready s" "ready s'" "holds hs (held s)" "n \<le> m" "(p, m) \<notin> held s" "held s' = insert (p, m) (held s)"
  shows "holds ((p, n) # hs) (held s')"
proof -
  have "p \<notin> fst ` held s"
    using held_unique [OF assms(2), of p m] assms(5,6) by fastforce
  then have "p \<notin> fst ` set hs"
    using assms(3) by (simp add: holds_def)
  with assms(3,4,6) show ?thesis
    by (auto simp: holds_def)
qed

lemma holds_give_back:
  assumes "ready s" "holds hs (held s)" "i < length hs" "(fst (hs ! i), m) \<in> held s"
  shows "holds (take i hs @ drop (Suc i) hs) (held s - {(fst (hs ! i), m)})"
proof -
  obtain xs b ys where hs: "hs = xs @ b # ys" "i = length xs"
    using id_take_nth_drop [OF assms(3)] assms(3) by (metis length_take min.absorb2 less_imp_le)
  have b: "(fst b, m) \<in> held s" using assms(4) hs by simp
  have d: "distinct (map fst (xs @ b # ys))" "\<forall>c\<in>set (xs @ b # ys). \<exists>m\<ge>snd c. (fst c, m) \<in> held s" "fst ` held s = fst ` set (xs @ b # ys)"
    using assms(2) hs by (auto simp: holds_def)
  have "fst ` (held s - {(fst b, m)}) = fst ` held s - {fst b}"
  proof (rule set_eqI)
    fix p
    have in_fst: "p \<in> fst ` H \<longleftrightarrow> (\<exists>n. (p, n) \<in> H)" for H :: "(nat \<times> nat) set"
      by force
    show "p \<in> fst ` (held s - {(fst b, m)}) \<longleftrightarrow> p \<in> fst ` held s - {fst b}"
      unfolding Diff_iff [of p] in_fst using held_unique [OF assms(1) b] by blast
  qed
  also have "\<dots> = fst ` set (xs @ ys)"
  proof -
    have "fst b \<notin> fst ` set (xs @ ys)" using d(1) by auto
    moreover have "fst ` set (xs @ b # ys) = insert (fst b) (fst ` set (xs @ ys))" by auto
    ultimately show ?thesis unfolding d(3) by (metis Diff_insert_absorb)
  qed
  finally have "fst ` (held s - {(fst b, m)}) = fst ` set (xs @ ys)" .
  moreover have "\<exists>m'\<ge>snd c. (fst c, m') \<in> held s - {(fst b, m)}" if "c \<in> set (xs @ ys)" for c
    using d(1,2) that by (auto simp: image_iff)
  ultimately show ?thesis
    using d(1) hs by (simp add: holds_def)
qed

text \<open>
  A client comes to its end, or it is stopped by the release of a block it holds, at a
  moment when the kernel takes nothing back.
\<close>

lemma client_runs:
  assumes "ready s" "holds hs (held s)"
  shows "(\<exists>hs' s'. run_client alloc release store ops hs s = Inr (hs', s') \<and> ready s' \<and> policy s' = policy s \<and> holds hs' (held s')) \<or>
    run_client alloc release store ops hs s = Inl Assert_failed \<and>
    (\<exists>ops1 i ops2 hs1 s1. ops = ops1 @ Give_back i # ops2 \<and> run_client alloc release store ops1 hs s = Inr (hs1, s1) \<and>
       i < length hs1 \<and> policy s1 = policy s \<and> release (Some (fst (hs1 ! i))) s1 = Inl Assert_failed \<and> refused s1)"
  using assms
proof (induction ops arbitrary: hs s)
  case (Cons op ops)
  have step: ?case
    if one: "\<And>rest. run_client alloc release store (op # rest) hs s = run_client alloc release store rest hs1 s1"
      and s1: "ready s1" "policy s1 = policy s" "holds hs1 (held s1)" for hs1 s1
    using Cons.IH [OF s1(1,3)]
  proof
    assume "\<exists>hs' s'. run_client alloc release store ops hs1 s1 = Inr (hs', s') \<and> ready s' \<and> policy s' = policy s1 \<and> holds hs' (held s')"
    with one s1(2) show ?thesis by simp
  next
    assume stop: "run_client alloc release store ops hs1 s1 = Inl Assert_failed \<and>
      (\<exists>ops1 i ops2 hs2 s2. ops = ops1 @ Give_back i # ops2 \<and> run_client alloc release store ops1 hs1 s1 = Inr (hs2, s2) \<and>
        i < length hs2 \<and> policy s2 = policy s1 \<and> release (Some (fst (hs2 ! i))) s2 = Inl Assert_failed \<and> refused s2)"
    then obtain ops1 i ops2 hs2 s2 where at: "ops = ops1 @ Give_back i # ops2" "run_client alloc release store ops1 hs1 s1 = Inr (hs2, s2)"
        "i < length hs2" "policy s2 = policy s1" "release (Some (fst (hs2 ! i))) s2 = Inl Assert_failed" "refused s2"
      by blast
    have "op # ops = (op # ops1) @ Give_back i # ops2" "run_client alloc release store (op # ops1) hs s = Inr (hs2, s2)"
      using at(1,2) one by simp_all
    with at(3-6) stop one s1(2) show ?thesis by metis
  qed
  show ?case
  proof (cases op)
    case (Request n)
    obtain r s1 where al: "alloc n s = Inr (r, s1)" "ready s1" "policy s1 = policy s"
        "case r of None \<Rightarrow> held s1 = held s | Some p \<Rightarrow> \<exists>m\<ge>n. (p, m) \<notin> held s \<and> held s1 = insert (p, m) (held s)"
      using alloc_law [OF Cons.prems(1)] by blast
    have after: "holds (case r of None \<Rightarrow> hs | Some p \<Rightarrow> (p, n) # hs) (held s1)"
      using al(4) Cons.prems(2) holds_request [OF Cons.prems(1) al(2) Cons.prems(2)] by (auto split: option.splits)
    show ?thesis
      by (rule step [OF _ al(2,3) after]) (simp only: Request run_client.simps al(1) bindr_simps prod.case)
  next
    case (Fill i f)
    show ?thesis
    proof (cases "i < length hs")
      case True
      then obtain m where "snd (hs ! i) \<le> m" "(fst (hs ! i), m) \<in> held s"
        using holds_nth [OF Cons.prems(2)] by blast
      note st = store_law [OF Cons.prems(1) this(2,1), of f]
      show ?thesis
        by (rule step [of hs "store (fst (hs ! i)) (snd (hs ! i)) f s"]) (use st Cons.prems(2) True Fill in simp_all)
    next
      case False
      then show ?thesis
        by (intro step [OF _ Cons.prems(1) refl Cons.prems(2)]) (simp add: Fill)
    qed
  next
    case (Give_back i)
    show ?thesis
    proof (cases "i < length hs")
      case True
      then obtain m where m: "(fst (hs ! i), m) \<in> held s"
        using holds_nth [OF Cons.prems(2)] by blast
      show ?thesis
        using release_law [OF Cons.prems(1) m]
      proof
        assume "\<exists>s'. release (Some (fst (hs ! i))) s = Inr s' \<and> ready s' \<and> policy s' = policy s \<and> held s' = held s - {(fst (hs ! i), m)}"
        then obtain s1 where s1: "release (Some (fst (hs ! i))) s = Inr s1" "ready s1" "policy s1 = policy s" "held s1 = held s - {(fst (hs ! i), m)}"
          by blast
        show ?thesis
          by (rule step [OF _ s1(2,3), of "take i hs @ drop (Suc i) hs"])
             (use s1(1,4) True holds_give_back [OF Cons.prems True m] in \<open>simp_all add: Give_back\<close>)
      next
        assume bad: "release (Some (fst (hs ! i))) s = Inl Assert_failed \<and> refused s"
        moreover have "run_client alloc release store [] hs s = Inr (hs, s)" "op # ops = [] @ Give_back i # ops"
          by (simp_all add: Give_back)
        moreover have "run_client alloc release store (op # ops) hs s = Inl Assert_failed"
          using bad True by (simp add: Give_back)
        ultimately show ?thesis
          using True by blast
      qed
    next
      case False
      then show ?thesis
        by (intro step [OF _ Cons.prems(1) refl Cons.prems(2)]) (simp add: Give_back)
    qed
  qed
qed auto

text \<open>Two different blocks of a client share no byte.\<close>

lemma client_blocks_apart:
  assumes "ready s" "holds hs (held s)" "i < length hs" "j < length hs" "i \<noteq> j"
  shows "apart (hs ! i) (hs ! j)"
proof -
  have ne: "fst (hs ! i) \<noteq> fst (hs ! j)"
    using assms(2-5) by (auto simp: holds_def distinct_conv_nth)
  obtain m m' where m: "snd (hs ! i) \<le> m" "(fst (hs ! i), m) \<in> held s" "snd (hs ! j) \<le> m'" "(fst (hs ! j), m') \<in> held s"
    using holds_nth [OF assms(2,3)] holds_nth [OF assms(2,4)] by blast
  have "apart (fst (hs ! i), m) (fst (hs ! j), m')"
    using held_apart [OF assms(1) m(2,4)] ne by simp
  with m(1,3) show ?thesis
    by (auto simp: apart_def)
qed

lemma holds_nothing: "holds hs (held s) \<Longrightarrow> held s = {} \<longleftrightarrow> hs = []"
  by (auto simp: holds_def)

end

section \<open>The pool allocator provides it\<close>

definition unmap_refused :: "allocator \<Rightarrow> bool" where
  "unmap_refused A \<longleftrightarrow> \<not> k_unmap (al_kern A) (k_nunmap (al_kern A))"

abbreviation unmap_policy :: "allocator \<Rightarrow> nat \<Rightarrow> bool" where
  "unmap_policy A \<equiv> k_unmap (al_kern A)"

lemma client_write_part:
  assumes "pool_ready A" "(p, m) \<in> live_blocks A" "n \<le> m"
  shows "client_write p n f A = client_write p m (\<lambda>a. if a < p + n then f a else al_links A a) A"
  using assms(3) by (auto simp: client_write_def fun_eq_iff)

interpretation pool: memory_manager kvs_allocator_alloc kvs_allocator_free client_write pool_ready unmap_policy unmap_refused live_blocks
proof
  fix s n assume "pool_ready s"
  then show "\<exists>r s'. kvs_allocator_alloc n s = Inr (r, s') \<and> pool_ready s' \<and> unmap_policy s' = unmap_policy s \<and>
      (case r of None \<Rightarrow> live_blocks s' = live_blocks s
       | Some p \<Rightarrow> \<exists>m\<ge>n. (p, m) \<notin> live_blocks s \<and> live_blocks s' = insert (p, m) (live_blocks s))"
    using allocator_alloc_law [of s n] alloc_effect_ready [of s n]
    by (fastforce simp: alloc_effect_def)
next
  fix s p m assume "pool_ready s" "(p, m) \<in> live_blocks s"
  then show "(\<exists>s'. kvs_allocator_free (Some p) s = Inr s' \<and> pool_ready s' \<and> unmap_policy s' = unmap_policy s \<and>
        live_blocks s' = live_blocks s - {(p, m)}) \<or>
      kvs_allocator_free (Some p) s = Inl Assert_failed \<and> unmap_refused s"
    using allocator_free_law [of s p m] by (auto simp: unmap_refused_def)
next
  fix s p m n f assume *: "pool_ready s" "(p, m) \<in> live_blocks s" "n \<le> m"
  show "pool_ready (client_write p n f s) \<and> unmap_policy (client_write p n f s) = unmap_policy s \<and>
      live_blocks (client_write p n f s) = live_blocks s"
    unfolding client_write_part [OF *] using client_write_law [OF *(1,2)]
    by simp (simp add: client_write_def)
next
  fix s b b' assume "pool_ready s" "b \<in> live_blocks s" "b' \<in> live_blocks s" "b \<noteq> b'"
  then show "apart b b' \<and> 0 < snd b"
    using live_blocks_apart [of s b b'] live_blocks_sound(1) [of s b] by (simp add: pool_ready_def pool_inv_def)
qed

text \<open>With a kernel that takes everything back, a release returns.\<close>

definition pool_steady :: "allocator \<Rightarrow> bool" where
  "pool_steady A \<longleftrightarrow> (\<forall>k. k_unmap (al_kern A) k)"

lemma pool_steady_release:
  assumes "pool_ready A" "pool_steady A" "(p, m) \<in> live_blocks A"
  obtains A' where "kvs_allocator_free (Some p) A = Inr A'" "pool_ready A'" "pool_steady A'" "live_blocks A' = live_blocks A - {(p, m)}"
  using pool.release_law [OF assms(1,3)] assms(2) by (auto simp: pool_steady_def unmap_refused_def)

section \<open>Properties of the allocator\<close>

text \<open>A kernel with pages of 4 KiB that grants every mapping, one MiB apart.\<close>

definition calm_kernel :: kernel where
  "calm_kernel = \<lparr>k_page = 4096, k_place = (\<lambda>n. Some (1048576 * Suc n)), k_unmap = (\<lambda>_. True), k_malloc = (\<lambda>_ _. None),
     k_nmap = 0, k_nunmap = 0, k_nmalloc = 0, k_space = []\<rparr>"

lemma calm_pool_ready:
  assumes "kvs_allocator_init KVS_ALLOCATOR_POOL (allocator_at_start calm_kernel) = (r, A)"
  shows "pool_ready A" "live_blocks A = {}" "pool_steady A" "al_kern A = calm_kernel"
proof -
  show "pool_ready A" "live_blocks A = {}" using allocator_start_law [OF assms] by auto
  show "al_kern A = calm_kernel"
    using assms by (auto simp: kvs_allocator_init_def allocator_at_start_def)
  then show "pool_steady A" by (simp add: pool_steady_def calm_kernel_def)
qed

lemma calm_pool_small:
  assumes "kvs_allocator_init KVS_ALLOCATOR_POOL (allocator_at_start calm_kernel) = (r, A)" "0 < n" "n \<le> 4096"
  obtains p m A1 where "kvs_allocator_alloc n A = Inr (Some p, A1)" "pool_ready A1" "pool_steady A1" "live_blocks A1 = {(p, m)}"
proof -
  note A = calm_pool_ready [OF assms(1)]
  have "fst (region_memory_alloc KVS_SLAB_SIZE A) \<noteq> None"
    by (rule region_memory_alloc_granted [where raw = 1048576])
       (simp_all add: A(4) calm_kernel_def KVS_SLAB_SIZE_def SIZE_MAX_def placeable_def)
  then obtain p A1 where p: "kvs_allocator_alloc n A = Inr (Some p, A1)" "alloc_effect n A (Some p) A1"
    using allocator_small_granted [OF A(1) assms(2,3)] by blast
  then obtain m where "live_blocks A1 = {(p, m)}"
    using A(2) by (auto simp: alloc_effect_def)
  moreover have "pool_ready A1" "pool_steady A1"
    using alloc_effect_ready [OF A(1) p(2)] p(2) A(3) by (auto simp: alloc_effect_def pool_steady_def)
  ultimately show thesis
    using that p(1) by blast
qed

lemma client_safe_at:
  assumes "pool_ready A" "holds hs (live_blocks A)"
  shows "(\<forall>i<length hs. \<forall>j<length hs. i \<noteq> j \<longrightarrow> apart (hs ! i) (hs ! j)) \<and>
    (\<forall>b\<in>set hs. fst b mod max_alignment = 0 \<and> covered (al_kern A) b) \<and>
    (\<exists>st. kvs_allocator_pool_stats A = Inr (0, Some st) \<and> live_objects st = length hs)"
proof -
  have ok: "regions_ok A" using assms(1) by (simp add: pool_ready_def pool_inv_def)
  have "fst b mod max_alignment = 0 \<and> covered (al_kern A) b" if "b \<in> set hs" for b
  proof -
    have "\<exists>m\<ge>snd b. (fst b, m) \<in> live_blocks A"
      using assms(2) that by (simp add: holds_def)
    then obtain m where m: "snd b \<le> m" "(fst b, m) \<in> live_blocks A" by blast
    have "within b (fst b, m)" using m(1) by (simp add: within_def)
    then show ?thesis
      using live_blocks_sound(2,3) [OF ok m(2)] within_trans unfolding covered_def fst_conv by blast
  qed
  moreover have "card (live_blocks A) = length hs"
  proof -
    have "inj_on fst (live_blocks A)"
      using pool.held_unique [OF assms(1)] by (auto simp: inj_on_def)
    then have "card (live_blocks A) = card (fst ` set hs)"
      using assms(2) by (metis card_image holds_def)
    also have "\<dots> = length hs"
      using assms(2) distinct_card [of "map fst hs"] by (simp add: holds_def)
    finally show ?thesis .
  qed
  moreover obtain st where "kvs_allocator_pool_stats A = Inr (0, Some st)" "live_objects st = card (live_blocks A)"
    using allocator_stats_law [OF assms(1)] by metis
  ultimately show ?thesis
    using pool.client_blocks_apart [OF assms] by auto
qed

text \<open>
  C30.  Memory safety of the pool.  Whatever sequence of requests, writes into its own
  blocks and releases a client performs on a freshly initialised pool, and whatever the
  kernel grants or refuses, one of two things happens.  Either every call returns, no two
  blocks the client holds share a byte, every block starts on a 16-byte boundary inside
  mapped memory, and the statistics count exactly the blocks it holds.  Or the process
  aborts in the release of a block it holds, because the kernel refused just that
  \<open>munmap\<close>; everything before that release returned.  On a kernel that never refuses a
  \<open>munmap\<close> every call returns.
\<close>

theorem allocator_client_safe:
  assumes "kvs_allocator_init KVS_ALLOCATOR_POOL (allocator_at_start K) = (r, A)"
  shows "(\<exists>hs A' st. run_client kvs_allocator_alloc kvs_allocator_free client_write ops [] A = Inr (hs, A') \<and>
      (\<forall>i<length hs. \<forall>j<length hs. i \<noteq> j \<longrightarrow> apart (hs ! i) (hs ! j)) \<and>
      (\<forall>b\<in>set hs. fst b mod max_alignment = 0 \<and> covered (al_kern A') b) \<and>
      kvs_allocator_pool_stats A' = Inr (0, Some st) \<and> live_objects st = length hs) \<or>
    run_client kvs_allocator_alloc kvs_allocator_free client_write ops [] A = Inl Assert_failed \<and>
    (\<exists>ops1 i ops2 hs1 A1. ops = ops1 @ Give_back i # ops2 \<and>
       run_client kvs_allocator_alloc kvs_allocator_free client_write ops1 [] A = Inr (hs1, A1) \<and> i < length hs1 \<and>
       kvs_allocator_free (Some (fst (hs1 ! i))) A1 = Inl Assert_failed \<and> \<not> k_unmap K (k_nunmap (al_kern A1)))"
proof -
  note A = allocator_start_law [OF assms]
  have K: "k_unmap (al_kern A) = k_unmap K"
    using assms by (auto simp: kvs_allocator_init_def allocator_at_start_def)
  have "holds [] (live_blocks A)"
    using A(3) by (simp add: holds_def)
  from pool.client_runs [OF A(2) this, of ops] show ?thesis
  proof
    assume "\<exists>hs A'. run_client kvs_allocator_alloc kvs_allocator_free client_write ops [] A = Inr (hs, A') \<and> pool_ready A' \<and>
      unmap_policy A' = unmap_policy A \<and> holds hs (live_blocks A')"
    then obtain hs A' where "run_client kvs_allocator_alloc kvs_allocator_free client_write ops [] A = Inr (hs, A')"
        "pool_ready A'" "holds hs (live_blocks A')"
      by blast
    with client_safe_at [OF this(2,3)] show ?thesis by blast
  next
    assume "run_client kvs_allocator_alloc kvs_allocator_free client_write ops [] A = Inl Assert_failed \<and>
      (\<exists>ops1 i ops2 hs1 A1. ops = ops1 @ Give_back i # ops2 \<and>
         run_client kvs_allocator_alloc kvs_allocator_free client_write ops1 [] A = Inr (hs1, A1) \<and> i < length hs1 \<and>
         unmap_policy A1 = unmap_policy A \<and> kvs_allocator_free (Some (fst (hs1 ! i))) A1 = Inl Assert_failed \<and> unmap_refused A1)"
    then show ?thesis
      unfolding unmap_refused_def K by metis
  qed
qed

text \<open>A kernel that grants every mapping and takes nothing back.\<close>

definition greedy_kernel :: kernel where
  "greedy_kernel = calm_kernel\<lparr>k_unmap := (\<lambda>_. False)\<rparr>"

theorem allocator_client_safe_witness:
  "(\<exists>hs A'. run_client kvs_allocator_alloc kvs_allocator_free client_write
       [Request 10, Request 5000, Fill 0 (\<lambda>_. None), Give_back 1, Request 20] []
       (snd (kvs_allocator_init KVS_ALLOCATOR_POOL (allocator_at_start calm_kernel))) = Inr (hs, A') \<and>
     (\<forall>i<length hs. \<forall>j<length hs. i \<noteq> j \<longrightarrow> apart (hs ! i) (hs ! j))) \<and>
   (\<exists>hs A'. run_client kvs_allocator_alloc kvs_allocator_free client_write [Request 10, Request 5000] []
       (snd (kvs_allocator_init KVS_ALLOCATOR_POOL (allocator_at_start greedy_kernel))) = Inr (hs, A') \<and>
     (\<forall>i<length hs. \<forall>j<length hs. i \<noteq> j \<longrightarrow> apart (hs ! i) (hs ! j)))"
proof
  let ?I = "kvs_allocator_init KVS_ALLOCATOR_POOL (allocator_at_start calm_kernel)"
  have "?I = (fst ?I, snd ?I)" "k_unmap calm_kernel k" for k
    by (simp_all add: calm_kernel_def)
  from allocator_client_safe [OF this(1)] this(2) show "\<exists>hs A'. run_client kvs_allocator_alloc kvs_allocator_free client_write
       [Request 10, Request 5000, Fill 0 (\<lambda>_. None), Give_back 1, Request 20] [] (snd ?I) = Inr (hs, A') \<and>
     (\<forall>i<length hs. \<forall>j<length hs. i \<noteq> j \<longrightarrow> apart (hs ! i) (hs ! j))"
    by blast
next
  let ?I = "kvs_allocator_init KVS_ALLOCATOR_POOL (allocator_at_start greedy_kernel)"
  have "?I = (fst ?I, snd ?I)"
    by simp
  from allocator_client_safe [OF this, of "[Request 10, Request 5000]"]
  show "\<exists>hs A'. run_client kvs_allocator_alloc kvs_allocator_free client_write [Request 10, Request 5000] [] (snd ?I) = Inr (hs, A') \<and>
     (\<forall>i<length hs. \<forall>j<length hs. i \<noteq> j \<longrightarrow> apart (hs ! i) (hs ! j))"
    by (auto simp: Cons_eq_append_conv)
qed

text \<open>
  C31.  \<open>kvs_allocator_destroy\<close> never pulls memory away from a client: while a block is in use
  it changes nothing and answers -1.  When none is, it unmaps every region and answers 0,
  unless the kernel refuses; then the allocator can still be used and destroyed later.
\<close>

theorem allocator_destroy_exact:
  assumes "pool_ready A"
  shows "\<exists>r A'. kvs_allocator_destroy A = Inr (r, A') \<and>
    (live_blocks A \<noteq> {} \<longrightarrow> r = -1 \<and> A' = A) \<and>
    (r = 0 \<longrightarrow> \<not> allocator_initialized A' \<and> (\<forall>x. al_regions A' x = None)) \<and>
    (live_blocks A = {} \<longrightarrow> (\<forall>k. k_unmap (al_kern A) k) \<longrightarrow> r = 0) \<and>
    (r \<noteq> 0 \<longrightarrow> r = -1 \<and> pool_ready A' \<and> live_blocks A' = live_blocks A)"
  by (rule allocator_destroy_law [OF assms])

theorem allocator_destroy_exact_witness:
  "\<exists>p A1 A2. kvs_allocator_alloc 10 (snd (kvs_allocator_init KVS_ALLOCATOR_POOL (allocator_at_start calm_kernel))) = Inr (Some p, A1) \<and>
     kvs_allocator_destroy A1 = Inr (-1, A1) \<and> kvs_allocator_free (Some p) A1 = Inr A2 \<and> (\<exists>A3. kvs_allocator_destroy A2 = Inr (0, A3))"
proof -
  let ?I = "kvs_allocator_init KVS_ALLOCATOR_POOL (allocator_at_start calm_kernel)"
  have I: "?I = (fst ?I, snd ?I)" by simp
  obtain p m A1 where A1: "kvs_allocator_alloc 10 (snd ?I) = Inr (Some p, A1)" "pool_ready A1" "pool_steady A1" "live_blocks A1 = {(p, m)}"
    by (rule calm_pool_small [OF I, of 10]) simp_all
  obtain A2 where A2: "kvs_allocator_free (Some p) A1 = Inr A2" "pool_ready A2" "pool_steady A2" "live_blocks A2 = {}"
    by (rule pool_steady_release [OF A1(2,3), of p m]) (simp_all add: A1(4))
  have "kvs_allocator_destroy A1 = Inr (-1, A1)"
    using allocator_destroy_exact [OF A1(2)] A1(4) by auto
  moreover have "\<exists>A3. kvs_allocator_destroy A2 = Inr (0, A3)"
    using allocator_destroy_exact [OF A2(2)] A2(3,4) by (auto simp: pool_steady_def)
  ultimately show ?thesis
    using A1(1) A2(1) by blast
qed

text \<open>
  C32.  Giving a block back twice never returns: a small block is found to be free and the
  process aborts, before the free list or the counter is touched; the header of a large
  one lies in memory that is no longer mapped.
\<close>

theorem allocator_double_free_stops:
  assumes "pool_ready A" "(a, n) \<in> live_blocks A" "kvs_allocator_free (Some a) A = Inr A'"
  shows "kvs_allocator_free (Some a) A' = Inl Assert_failed \<or> kvs_allocator_free (Some a) A' = Inl Dangling"
  by (rule allocator_free_twice [OF assms])

theorem allocator_double_free_stops_witness:
  "\<exists>p A1 A2. kvs_allocator_alloc 10 (snd (kvs_allocator_init KVS_ALLOCATOR_POOL (allocator_at_start calm_kernel))) = Inr (Some p, A1) \<and>
     kvs_allocator_free (Some p) A1 = Inr A2 \<and> (\<exists>e. kvs_allocator_free (Some p) A2 = Inl e)"
proof -
  let ?I = "kvs_allocator_init KVS_ALLOCATOR_POOL (allocator_at_start calm_kernel)"
  have I: "?I = (fst ?I, snd ?I)" by simp
  obtain p m A1 where A1: "kvs_allocator_alloc 10 (snd ?I) = Inr (Some p, A1)" "pool_ready A1" "pool_steady A1" "live_blocks A1 = {(p, m)}"
    by (rule calm_pool_small [OF I, of 10]) simp_all
  obtain A2 where A2: "kvs_allocator_free (Some p) A1 = Inr A2"
    by (rule pool_steady_release [OF A1(2,3), of p m]) (simp_all add: A1(4))
  have "\<exists>e. kvs_allocator_free (Some p) A2 = Inl e"
    using allocator_double_free_stops [OF A1(2) _ A2, of m] A1(4) by auto
  with A1(1) A2 show ?thesis by blast
qed

end
