(* ===== verification/Snapshot_Install.thy ===== *)
theory Snapshot_Install
  imports Commands
begin

text \<open>
  Replacing the whole data set of a replica by a snapshot of its primary,
  \<open>kvs_install_replication_snapshot\<close> of \<open>src/src/kvstore.c\<close>.
\<close>

text \<open>\<open>dest_kvengine\<close> and \<open>init_kvengine\<close>; the process ends when the engines cannot be made again.\<close>

definition recreate_engines :: "server \<Rightarrow> sys \<Rightarrow> (server \<times> sys) run" where
  "recreate_engines sv s =
     bindr (dest_kvengine (sv_engines sv) s) (\<lambda>(g, s).
     bindr (init_kvengine g s) (\<lambda>(r, g, s).
       if r < 0 then Inl (Exit_process 1) else Inr (sv\<lparr>sv_engines := g\<rparr>, s)))"

definition kvs_install_replication_snapshot :: "bytes \<Rightarrow> int \<Rightarrow> server \<Rightarrow> sys \<Rightarrow> (int \<times> server \<times> sys) run" where
  "kvs_install_replication_snapshot snapshot_path aof_offset sv s =
     (if snapshot_path = [] then Inr (-1, sv, s)
      else
        bindr (recreate_engines sv s) (\<lambda>(sv, s).
        bindr (kvs_snapshot_store_load_with_checkpoint (sv_files sv) snapshot_path (sv_engines sv) s) (\<lambda>(r, cp, g, s).
        let sv = sv\<lparr>sv_engines := g\<rparr> in
        if r \<noteq> 0 \<or> cp = None \<or> has_offset (the cp) = 0 \<or> ck_offset (the cp) \<noteq> aof_offset then
          bindr (recreate_engines sv s) (\<lambda>(sv, s). Inr (-1, sv, s))
        else
          bindr (kvs_aof_reset_to_offset aof_offset (sv_aof sv) (sv_files sv) s) (\<lambda>(r, w, fs, s).
          let sv = sv\<lparr>sv_aof := w, sv_files := fs\<rparr> in
          if r < 0 then bindr (recreate_engines sv s) (\<lambda>(sv, s). Inr (-1, sv, s))
          else Inr (0, sv, s)))))"

end
