(* ===== verification/Ntyco.thy ===== *)
theory Ntyco
  imports Codec Buffer
begin

text \<open>
  The network runtime, \<open>src/src/network/ntyco.c\<close>: listeners, the connector to a primary,
  and \<open>server_reader\<close>, the coroutine that serves one connection.  The coroutine library
  and the sockets are not part of the repository.  Coroutines share the process and are
  switched only where one waits; what the library answers to a call, and what the other
  coroutines have done to the process in the meantime, is the next entry of a list that
  is a parameter of the model.  A coroutine whose list has come to its end is suspended.
\<close>

section \<open>Waiting\<close>

text \<open>
  The answer to a call on a socket: how many bytes (or which descriptor), or the error.
  \<open>'p\<close> is the process the handlers work on.
\<close>

datatype answer = Answer nat | Interrupted | Try_again | Failing

type_synonym 'p resumption = "('p \<times> sys \<Rightarrow> 'p \<times> sys) \<times> answer"

text \<open>
  What a coroutine sees: the answers to come, the bytes the peer has sent or will send and
  that were not received yet, the bytes the kernel has taken from us, the process, the
  surroundings.
\<close>

record 'p scene =
  sc_answers :: "'p resumption list"
  sc_in :: bytes
  sc_out :: bytes
  sc_proc :: 'p
  sc_sys :: sys

datatype ('a, 's) outcome = Suspended 's | Broken halt | Finished 'a 's

definition bindo :: "('a, 's) outcome \<Rightarrow> ('a \<Rightarrow> 's \<Rightarrow> ('b, 's) outcome) \<Rightarrow> ('b, 's) outcome" where
  "bindo x f = (case x of Suspended s \<Rightarrow> Suspended s | Broken h \<Rightarrow> Broken h | Finished a s \<Rightarrow> f a s)"

lemma bindo_simps [simp]:
  "bindo (Suspended s) f = Suspended s" "bindo (Broken h) f = Broken h" "bindo (Finished a s) f = f a s"
  by (simp_all add: bindo_def)

lemma bindo_cong [fundef_cong]:
  "x = y \<Longrightarrow> (\<And>a s. y = Finished a s \<Longrightarrow> f a s = g a s) \<Longrightarrow> bindo x f = bindo y g"
  by (cases y) (simp_all add: bindo_def)

lemma bindo_Finished: "bindo x f = Finished b t \<longleftrightarrow> (\<exists>a s. x = Finished a s \<and> f a s = Finished b t)"
  by (cases x) (simp_all add: bindo_def)

lemma bindo_FinishedE:
  assumes "bindo x f = Finished b t"
  obtains a s where "x = Finished a s" "f a s = Finished b t"
  using assms by (auto simp: bindo_Finished)

text \<open>A computation of the process that does not wait.\<close>

definition lift_run :: "('a \<times> 'p \<times> sys) run \<Rightarrow> 'p scene \<Rightarrow> ('a, 'p scene) outcome" where
  "lift_run x sc = (case x of Inl h \<Rightarrow> Broken h | Inr (a, p, s) \<Rightarrow> Finished a (sc\<lparr>sc_proc := p, sc_sys := s\<rparr>))"

lemma lift_run_Finished: "lift_run x sc = Finished a sc' \<longleftrightarrow> (\<exists>p s. x = Inr (a, p, s) \<and> sc' = sc\<lparr>sc_proc := p, sc_sys := s\<rparr>)"
  by (auto simp: lift_run_def split: sum.splits)

lemma lift_run_answers: "lift_run x sc = Finished a sc' \<Longrightarrow> sc_answers sc' = sc_answers sc"
  by (auto simp: lift_run_Finished)

text \<open>A call that lets other coroutines run, and one that does not.\<close>

definition await :: "'p scene \<Rightarrow> (answer, 'p scene) outcome" where
  "await sc =
     (case sc_answers sc of
        [] \<Rightarrow> Suspended sc
      | (others, a) # as \<Rightarrow>
          (case others (sc_proc sc, sc_sys sc) of
             (p, s) \<Rightarrow> Finished a (sc\<lparr>sc_answers := as, sc_proc := p, sc_sys := s\<rparr>)))"

definition ask :: "'p scene \<Rightarrow> (answer, 'p scene) outcome" where
  "ask sc =
     (case sc_answers sc of
        [] \<Rightarrow> Suspended sc
      | (_, a) # as \<Rightarrow> Finished a (sc\<lparr>sc_answers := as\<rparr>))"

lemma await_shorter: "await sc = Finished a sc' \<Longrightarrow> length (sc_answers sc') < length (sc_answers sc)"
  by (auto simp: await_def split: list.splits prod.splits)

lemma ask_shorter: "ask sc = Finished a sc' \<Longrightarrow> length (sc_answers sc') < length (sc_answers sc)"
  by (auto simp: ask_def split: list.splits prod.splits)

section \<open>Configurations and contexts\<close>

type_synonym 'p msg_handler =
  "int \<Rightarrow> bytes \<Rightarrow> kvs_output_buffer_t \<Rightarrow> 'p \<Rightarrow> sys \<Rightarrow> (int \<times> int \<times> kvs_output_buffer_t \<times> 'p \<times> sys) run"
type_synonym 'p kvs_connection_stream_handler = "int \<Rightarrow> int \<Rightarrow> 'p \<Rightarrow> sys \<Rightarrow> (int \<times> bytes \<times> 'p \<times> sys) run"
type_synonym 'p kvs_connection_open_handler = "int \<Rightarrow> int \<Rightarrow> 'p \<Rightarrow> sys \<Rightarrow> int \<times> bytes \<times> 'p \<times> sys"
type_synonym 'p kvs_connection_close_handler = "int \<Rightarrow> 'p \<Rightarrow> sys \<Rightarrow> 'p \<times> sys"

definition KVS_STREAM_WAIT :: int where
  "KVS_STREAM_WAIT = -2"

definition NTYCO_MAX_LISTENER_COUNT :: nat where
  "NTYCO_MAX_LISTENER_COUNT = 2"

definition NTYCO_MAX_CONNECTOR_COUNT :: nat where
  "NTYCO_MAX_CONNECTOR_COUNT = 1"

definition NTYCO_REPLY_BATCH_THRESHOLD :: int where
  "NTYCO_REPLY_BATCH_THRESHOLD = 64 * 1024"

definition NTYCO_IDENTIFICATION_TIMEOUT_MS :: int where
  "NTYCO_IDENTIFICATION_TIMEOUT_MS = 5000"

record 'p kvs_listener_config_t =
  lc_port :: nat
  lc_handler :: "'p msg_handler option"
  lc_stream_handler :: "'p kvs_connection_stream_handler option"
  lc_bind_ip :: "bytes option"
  lc_replication_handler :: "'p msg_handler option"
  lc_replication_stream_handler :: "'p kvs_connection_stream_handler option"
  lc_replication_close_handler :: "'p kvs_connection_close_handler option"

record 'p kvs_connector_config_t =
  cc_host :: "bytes option"
  cc_port :: nat
  cc_open_handler :: "'p kvs_connection_open_handler option"
  cc_message_handler :: "'p msg_handler option"
  cc_stream_handler :: "'p kvs_connection_stream_handler option"
  cc_close_handler :: "'p kvs_connection_close_handler option"

record 'p ntyco_listener_context_t =
  ln_port :: nat
  ln_bind_ip :: "bytes option"
  ln_listen_fd :: int
  ln_handler :: "'p msg_handler"
  ln_stream_handler :: "'p kvs_connection_stream_handler option"
  ln_replication_handler :: "'p msg_handler option"
  ln_replication_stream_handler :: "'p kvs_connection_stream_handler option"
  ln_replication_close_handler :: "'p kvs_connection_close_handler option"

record 'p ntyco_connection_context_t =
  cn_fd :: int
  cn_handler :: "'p msg_handler"
  cn_stream_handler :: "'p kvs_connection_stream_handler option"
  cn_close_handler :: "'p kvs_connection_close_handler option"
  cn_heap_owned :: bool
  cn_replication_handler :: "'p msg_handler option"
  cn_replication_stream_handler :: "'p kvs_connection_stream_handler option"
  cn_identification_deadline_ms :: int
  cn_replication_close_handler :: "'p kvs_connection_close_handler option"

record 'p ntyco_connector_context_t =
  ct_host :: bytes
  ct_port :: nat
  ct_fd :: int
  ct_open_handler :: "'p kvs_connection_open_handler"
  ct_message_handler :: "'p msg_handler"
  ct_stream_handler :: "'p kvs_connection_stream_handler option"
  ct_close_handler :: "'p kvs_connection_close_handler"

definition ntyco_connector_context_init :: "'p kvs_connector_config_t \<Rightarrow> 'p ntyco_connector_context_t option" where
  "ntyco_connector_context_init config =
     (case (cc_host config, cc_open_handler config, cc_message_handler config, cc_close_handler config) of
        (Some host, Some open_handler, Some message_handler, Some close_handler) \<Rightarrow>
          if host = [] \<or> cc_port config = 0 then None
          else Some \<lparr>ct_host = host, ct_port = cc_port config, ct_fd = -1, ct_open_handler = open_handler,
                     ct_message_handler = message_handler, ct_stream_handler = cc_stream_handler config,
                     ct_close_handler = close_handler\<rparr>
      | _ \<Rightarrow> None)"

definition ntyco_listener_context_init :: "'p kvs_listener_config_t \<Rightarrow> 'p ntyco_listener_context_t option" where
  "ntyco_listener_context_init config =
     (case lc_handler config of
        None \<Rightarrow> None
      | Some handler \<Rightarrow>
          if lc_port config = 0 then None
          else Some \<lparr>ln_port = lc_port config, ln_bind_ip = lc_bind_ip config, ln_listen_fd = -1, ln_handler = handler,
                     ln_stream_handler = lc_stream_handler config, ln_replication_handler = lc_replication_handler config,
                     ln_replication_stream_handler = lc_replication_stream_handler config,
                     ln_replication_close_handler = lc_replication_close_handler config\<rparr>)"

definition ntyco_listener_context_destroy :: "'p ntyco_listener_context_t \<Rightarrow> 'p ntyco_listener_context_t" where
  "ntyco_listener_context_destroy context = (if ln_listen_fd context \<ge> 0 then context\<lparr>ln_listen_fd := -1\<rparr> else context)"

text \<open>A socket is created (its descriptor, or a negative number), bound and listened on.\<close>

definition ntyco_listener_open ::
    "(bytes \<Rightarrow> bool) \<Rightarrow> 'p ntyco_listener_context_t \<Rightarrow> sys \<Rightarrow> int \<times> 'p ntyco_listener_context_t \<times> sys" where
  "ntyco_listener_open inet_pton context s =
     (let ip = (case ln_bind_ip context of Some ip \<Rightarrow> ip | None \<Rightarrow> ''0.0.0.0'')
      in if \<not> inet_pton ip then (-1, context, s)
         else case os_int s of
           (fd, s) \<Rightarrow>
             if fd < 0 then (-1, context, s)
             else (case os_call s of
                     (False, s) \<Rightarrow> (-1, context, s)
                   | (True, s) \<Rightarrow>
                       (case os_call s of
                          (False, s) \<Rightarrow> (-1, context, s)
                        | (True, s) \<Rightarrow> (0, context\<lparr>ln_listen_fd := fd\<rparr>, s))))"


section \<open>Sending\<close>

function ntyco_send_loop :: "bytes \<Rightarrow> 'p scene \<Rightarrow> (int, 'p scene) outcome" where
  "ntyco_send_loop rest sc =
     (if rest = [] then Finished 0 sc
      else bindo (await sc) (\<lambda>a sc.
        case a of
          Answer n \<Rightarrow>
            if n > 0 then
              let k = min n (length rest)
              in ntyco_send_loop (drop k rest) (sc\<lparr>sc_out := sc_out sc @ take k rest\<rparr>)
            else Finished (-1) sc
        | Interrupted \<Rightarrow> ntyco_send_loop rest sc
        | _ \<Rightarrow> Finished (-1) sc))"
  by pat_completeness auto
termination
  by (relation "measure (\<lambda>(rest, sc). length (sc_answers sc))") (auto dest: await_shorter)

declare ntyco_send_loop.simps [simp del]

definition ntyco_send_all :: "int \<Rightarrow> bytes option \<Rightarrow> int \<Rightarrow> 'p scene \<Rightarrow> (int, 'p scene) outcome" where
  "ntyco_send_all fd data_ptr len sc =
     (case data_ptr of
        None \<Rightarrow> Finished (-1) sc
      | Some d \<Rightarrow>
          if fd < 0 \<or> len < 0 then Finished (-1) sc
          else if nat len > length d then Broken Out_of_bounds
          else ntyco_send_loop (take (nat len) d) sc)"

definition ntyco_flush_output :: "int \<Rightarrow> kvs_output_buffer_t \<Rightarrow> 'p scene \<Rightarrow> (int \<times> kvs_output_buffer_t, 'p scene) outcome" where
  "ntyco_flush_output fd output sc =
     (if out_length output = 0 then Finished (0, output) sc
      else bindo (ntyco_send_all fd (out_data output) (out_length output) sc) (\<lambda>r sc.
        if r < 0 then Finished (-1, output) sc
        else Finished (0, output\<lparr>out_length := 0, out_offset := 0\<rparr>) sc))"

text \<open>
  Properties of the scene that waiting, being interrupted by others and moving bytes do not
  change hold wherever a coroutine stops or is suspended.  \<open>H\<close> says for which reasons the
  process may come to an abnormal end.
\<close>

definition ends :: "(halt \<Rightarrow> bool) \<Rightarrow> ('s \<Rightarrow> bool) \<Rightarrow> ('a, 's) outcome \<Rightarrow> bool" where
  "ends H P x = (case x of Suspended s \<Rightarrow> P s | Broken h \<Rightarrow> H h | Finished a s \<Rightarrow> P s)"

lemma ends_simps [simp]: "ends H P (Suspended s) = P s" "ends H P (Broken h) = H h" "ends H P (Finished a s) = P s"
  by (simp_all add: ends_def)

lemma ends_bindo: "ends H P x \<Longrightarrow> (\<And>a s. x = Finished a s \<Longrightarrow> P s \<Longrightarrow> ends H P (f a s)) \<Longrightarrow> ends H P (bindo x f)"
  by (cases x) (simp_all add: ends_def)

definition stable :: "('p scene \<Rightarrow> bool) \<Rightarrow> bool" where
  "stable P \<longleftrightarrow> (\<forall>sc. P sc \<longrightarrow> ends (\<lambda>_. False) P (await sc)) \<and> (\<forall>sc. P sc \<longrightarrow> ends (\<lambda>_. False) P (ask sc)) \<and>
     (\<forall>sc d. P sc \<longrightarrow> P (sc\<lparr>sc_out := d\<rparr>)) \<and> (\<forall>sc n. P sc \<longrightarrow> P (sc\<lparr>sc_in := drop n (sc_in sc)\<rparr>)) \<and>
     (\<forall>sc s. P sc \<longrightarrow> s_live s = s_live (sc_sys sc) \<longrightarrow> P (sc\<lparr>sc_sys := s\<rparr>))"

lemma stableD:
  assumes "stable P" "P sc"
  shows "ends H P (await sc)" "ends H P (ask sc)" "P (sc\<lparr>sc_out := d\<rparr>)" "P (sc\<lparr>sc_in := drop n (sc_in sc)\<rparr>)"
    "s_live s = s_live (sc_sys sc) \<Longrightarrow> P (sc\<lparr>sc_sys := s\<rparr>)"
proof -
  have "ends (\<lambda>_. False) P (await sc)" "ends (\<lambda>_. False) P (ask sc)"
    using assms by (auto simp: stable_def)
  then show "ends H P (await sc)" "ends H P (ask sc)"
    by (cases "await sc"; cases "ask sc"; simp)+
qed (use assms in \<open>auto simp: stable_def\<close>)

lemma stable_shorter: "stable (\<lambda>sc. length (sc_answers sc) \<le> n)"
  by (auto simp: stable_def await_def ask_def split: list.splits prod.splits)

lemma send_loop_ends:
  assumes "stable P"
  shows "P sc \<Longrightarrow> ends H P (ntyco_send_loop rest sc)"
proof (induction rest sc rule: ntyco_send_loop.induct)
  case (1 rest sc)
  show ?case
  proof (cases "rest = []")
    case False
    have "ends H P (case a of Answer n \<Rightarrow> if n > 0 then let k = min n (length rest)
            in ntyco_send_loop (drop k rest) (sc1\<lparr>sc_out := sc_out sc1 @ take k rest\<rparr>) else Finished (-1) sc1
        | Interrupted \<Rightarrow> ntyco_send_loop rest sc1 | _ \<Rightarrow> Finished (-1) sc1)" if "await sc = Finished a sc1" "P sc1" for a sc1
      using that "1.IH" [OF False that(1)] stableD(3) [OF assms that(2)] by (cases a) (auto simp: Let_def)
    then show ?thesis
      using False stableD(1) [OF assms "1.prems"] by (subst ntyco_send_loop.simps) (auto intro: ends_bindo)
  qed (use "1.prems" in \<open>simp add: ntyco_send_loop.simps\<close>)
qed

lemma send_all_ends:
  "stable P \<Longrightarrow> P sc \<Longrightarrow> (\<And>d. data_ptr = Some d \<Longrightarrow> nat len \<le> length d \<or> H Out_of_bounds) \<Longrightarrow> ends H P (ntyco_send_all fd data_ptr len sc)"
  by (auto simp: ntyco_send_all_def send_loop_ends split: option.split)

lemma send_loop_bound: "ntyco_send_loop rest sc = Finished r sc' \<Longrightarrow> length (sc_answers sc') \<le> length (sc_answers sc)"
  using send_loop_ends [OF stable_shorter order_refl, where H = "\<lambda>_. True", of sc rest] by simp

lemma send_loop_shorter:
  assumes "ntyco_send_loop rest sc = Finished r sc'" "rest \<noteq> []"
  shows "length (sc_answers sc') < length (sc_answers sc)"
proof -
  obtain a sc1 where a: "await sc = Finished a sc1"
    using assms by (auto simp: ntyco_send_loop.simps [of rest] bindo_Finished)
  have "length (sc_answers sc') \<le> length (sc_answers sc1)"
    using assms by (cases a) (auto simp: ntyco_send_loop.simps [of rest sc] a Let_def split: if_splits dest!: send_loop_bound)
  then show ?thesis
    using await_shorter [OF a] by simp
qed

lemma send_all_shorter:
  "ntyco_send_all fd d len sc = Finished r sc' \<Longrightarrow> 0 < len \<Longrightarrow> 0 \<le> r \<Longrightarrow> length (sc_answers sc') < length (sc_answers sc)"
  by (auto simp: ntyco_send_all_def split: option.splits if_splits dest: send_loop_shorter)

section \<open>Receiving\<close>

text \<open>At most \<open>available\<close> bytes, and no more than the kernel has; nothing is the end of the stream.\<close>

definition take_in :: "nat \<Rightarrow> nat \<Rightarrow> 'p scene \<Rightarrow> bytes \<times> 'p scene" where
  "take_in n available sc =
     (let d = take (min n available) (sc_in sc) in (d, sc\<lparr>sc_in := drop (length d) (sc_in sc)\<rparr>))"

definition ntyco_monotonic_ms :: "sys \<Rightarrow> int \<times> sys" where
  "ntyco_monotonic_ms s = (case os_call s of (False, s) \<Rightarrow> (-1, s) | (True, s) \<Rightarrow> os_int s)"

text \<open>
  Receiving while the kind of the connection is not known: the bytes, or \<open>None\<close> for an
  error other than an interruption.  Without data the coroutine sleeps and tries again,
  which is the result \<open>None\<close> of a round.
\<close>

definition recv_round :: "nat \<Rightarrow> int \<Rightarrow> 'p scene \<Rightarrow> (bytes option option, 'p scene) outcome" where
  "recv_round capacity deadline_ms sc =
     (case ntyco_monotonic_ms (sc_sys sc) of
        (now, s) \<Rightarrow>
          let sc = sc\<lparr>sc_sys := s\<rparr> in
          if now < 0 then Finished (Some None) sc
          else if deadline_ms - now \<le> 0 then Finished (Some None) sc
          else bindo (ask sc) (\<lambda>a sc.
            case a of
              Answer n \<Rightarrow> (case take_in n capacity sc of (d, sc) \<Rightarrow> Finished (Some (Some d)) sc)
            | Interrupted \<Rightarrow> Finished None sc
            | Failing \<Rightarrow> Finished (Some None) sc
            | Try_again \<Rightarrow> bindo (await sc) (\<lambda>_ sc. Finished None sc)))"

lemma clock_live: "ntyco_monotonic_ms s = (now, s') \<Longrightarrow> s_live s' = s_live s"
  by (auto simp: ntyco_monotonic_ms_def os_call_def os_int_def split: prod.splits bool.splits)

lemma recv_round_shorter:
  "recv_round c t sc = Finished r sc' \<Longrightarrow> r = Some None \<or> length (sc_answers sc') < length (sc_answers sc)"
  by (cases "ntyco_monotonic_ms (sc_sys sc)")
     (auto simp: recv_round_def Let_def take_in_def split: if_splits answer.split_asm elim!: bindo_FinishedE dest!: await_shorter ask_shorter)

lemma recv_round_ends:
  assumes "stable P" "P sc"
  shows "ends H P (recv_round c t sc)"
proof -
  obtain now s where now: "ntyco_monotonic_ms (sc_sys sc) = (now, s)" by (metis surj_pair)
  have "P (sc\<lparr>sc_sys := s\<rparr>)"
    using stableD(5) [OF assms] clock_live [OF now] by simp
  then show ?thesis
    using stableD [OF assms(1)]
    by (auto simp: recv_round_def now Let_def take_in_def split: answer.split intro!: ends_bindo)
qed

function ntyco_recv_before_deadline :: "nat \<Rightarrow> int \<Rightarrow> 'p scene \<Rightarrow> (bytes option, 'p scene) outcome" where
  "ntyco_recv_before_deadline capacity deadline_ms sc =
     bindo (recv_round capacity deadline_ms sc) (\<lambda>r sc.
       case r of
         None \<Rightarrow> ntyco_recv_before_deadline capacity deadline_ms sc
       | Some d \<Rightarrow> Finished d sc)"
  by pat_completeness auto
termination
  by (relation "measure (\<lambda>(c, t, sc). length (sc_answers sc))") (auto dest!: recv_round_shorter)

declare ntyco_recv_before_deadline.simps [simp del]

lemma recv_ends: "stable P \<Longrightarrow> P sc \<Longrightarrow> ends H P (ntyco_recv_before_deadline c t sc)"
proof (induction c t sc rule: ntyco_recv_before_deadline.induct)
  case (1 c t sc)
  show ?case
    using "1.IH" "1.prems" recv_round_ends [OF "1.prems"]
    by (subst ntyco_recv_before_deadline.simps) (auto intro!: ends_bindo split: option.split)
qed

lemma recv_bound:
  "ntyco_recv_before_deadline c t sc = Finished d sc' \<Longrightarrow> length (sc_answers sc') \<le> length (sc_answers sc)"
  using recv_ends [OF stable_shorter order_refl, where H = "\<lambda>_. True", of sc c t] by simp

lemma recv_length: "ntyco_recv_before_deadline c t sc = Finished (Some d) sc' \<Longrightarrow> length d \<le> c"
proof (induction c t sc rule: ntyco_recv_before_deadline.induct)
  case (1 c t sc)
  have "length d' \<le> c" if "recv_round c t sc = Finished (Some (Some d')) sc1" for d' sc1
    using that by (cases "ntyco_monotonic_ms (sc_sys sc)")
      (auto simp: recv_round_def Let_def take_in_def split: if_splits answer.split_asm elim!: bindo_FinishedE)
  then show ?case
    using 1 by (auto simp: ntyco_recv_before_deadline.simps [of c t sc] split: option.split_asm elim!: bindo_FinishedE)
qed

text \<open>What is received is what the peer has sent.\<close>

lemma wait_input: "ask sc = Finished a sc' \<Longrightarrow> sc_in sc' = sc_in sc" "await sc = Finished a sc' \<Longrightarrow> sc_in sc' = sc_in sc"
  by (auto simp: ask_def await_def split: list.splits prod.splits)

lemma recv_round_input:
  assumes "recv_round c t sc = Finished r sc'"
  shows "r = None \<Longrightarrow> sc_in sc' = sc_in sc" "r = Some (Some d) \<Longrightarrow> set d \<subseteq> set (sc_in sc)"
proof -
  obtain now s where now: "ntyco_monotonic_ms (sc_sys sc) = (now, s)" by (metis surj_pair)
  show "r = None \<Longrightarrow> sc_in sc' = sc_in sc" "r = Some (Some d) \<Longrightarrow> set d \<subseteq> set (sc_in sc)"
    using assms
    by (auto simp: recv_round_def now Let_def take_in_def split: if_splits answer.split_asm elim!: bindo_FinishedE
        dest!: wait_input in_set_takeD)
qed

lemma recv_input: "ntyco_recv_before_deadline c t sc = Finished (Some d) sc' \<Longrightarrow> set d \<subseteq> set (sc_in sc)"
proof (induction c t sc rule: ntyco_recv_before_deadline.induct)
  case (1 c t sc)
  obtain r sc1 where r: "recv_round c t sc = Finished r sc1"
    using "1.prems" by (auto simp: ntyco_recv_before_deadline.simps [of c t sc] elim: bindo_FinishedE)
  then show ?case
    using 1 recv_round_input [OF r] by (auto simp: ntyco_recv_before_deadline.simps [of c t sc] split: option.split_asm)
qed

lemma recv_shorter:
  "ntyco_recv_before_deadline c t sc = Finished (Some d) sc' \<Longrightarrow> length (sc_answers sc') < length (sc_answers sc)"
  by (subst (asm) ntyco_recv_before_deadline.simps)
     (auto elim!: bindo_FinishedE split: option.split_asm dest!: recv_round_shorter recv_bound)

section \<open>One connection\<close>

text \<open>
  One round over the stream of a replication connection.  A block is written to the start of
  the output storage and sent; with nothing to send the socket is probed and the coroutine
  sleeps.  The result is \<open>None\<close> to go round again, or whether the connection stays
  open, with the output storage.
\<close>

definition stream_round ::
    "int \<Rightarrow> 'p kvs_connection_stream_handler \<Rightarrow> bytes option \<Rightarrow> 'p scene \<Rightarrow> (bool option \<times> bytes option, 'p scene) outcome" where
  "stream_round fd stream_handler data_ptr sc =
     bindo (lift_run (bindr (stream_handler fd BUFFER_LENGTH (sc_proc sc) (sc_sys sc)) (\<lambda>(n, str, p, s). Inr ((n, str), p, s))) sc)
       (\<lambda>(stream_length, str) sc.
          if stream_length = KVS_STREAM_WAIT then
            bindo (ask sc) (\<lambda>pending sc.
            if pending = Answer 0 \<or> pending = Failing then Finished (Some False, data_ptr) sc
            else bindo (await sc) (\<lambda>_ sc. Finished (None, data_ptr) sc))
          else if stream_length < 0 then Finished (Some False, data_ptr) sc
          else if stream_length = 0 then Finished (Some True, data_ptr) sc
          else
            case data_ptr of
              None \<Rightarrow> Broken Null_deref
            | Some d \<Rightarrow>
                (case store_at d 0 str of
                   Inl h \<Rightarrow> Broken h
                 | Inr d \<Rightarrow>
                     bindo (ntyco_send_all fd (Some d) stream_length sc) (\<lambda>r sc.
                     Finished (if r < 0 then Some False else None, Some d) sc)))"

lemma stream_round_shorter:
  "stream_round fd h d sc = Finished res sc' \<Longrightarrow> fst res = None \<Longrightarrow> length (sc_answers sc') < length (sc_answers sc)"
  by (auto simp: stream_round_def bindo_Finished split: if_splits option.splits sum.splits
      dest!: lift_run_answers await_shorter ask_shorter send_all_shorter)

function stream_loop ::
    "int \<Rightarrow> 'p kvs_connection_stream_handler \<Rightarrow> bytes option \<Rightarrow> 'p scene \<Rightarrow> (bool \<times> bytes option, 'p scene) outcome" where
  "stream_loop fd stream_handler data_ptr sc =
     bindo (stream_round fd stream_handler data_ptr sc) (\<lambda>res sc.
       case fst res of
         None \<Rightarrow> stream_loop fd stream_handler (snd res) sc
       | Some still_open \<Rightarrow> Finished (still_open, snd res) sc)"
  by pat_completeness auto
termination
  by (relation "measure (\<lambda>(fd, h, d, sc). length (sc_answers sc))") (auto dest: stream_round_shorter)

declare stream_loop.simps [simp del]

text \<open>The variables of \<open>server_reader\<close>; the replication handlers are the candidates.\<close>

record 'p reader =
  rd_fd :: int
  rd_handler :: "'p msg_handler"
  rd_stream_handler :: "'p kvs_connection_stream_handler option"
  rd_close_handler :: "'p kvs_connection_close_handler option"
  rd_replication_handler :: "'p msg_handler option"
  rd_replication_stream_handler :: "'p kvs_connection_stream_handler option"
  rd_replication_close_handler :: "'p kvs_connection_close_handler option"
  rd_protocol_selected :: bool
  rd_identification_deadline_ms :: int
  rd_input :: kvs_input_buffer_t
  rd_output :: kvs_output_buffer_t

text \<open>Why the inner loop goes on or ends: \<open>goto connection_closed\<close>, \<open>break\<close>, or the bytes consumed.\<close>

datatype progress = Close_connection | Wait_for_more | Consumed int

definition identify :: "'p reader \<Rightarrow> progress \<times> 'p reader" where
  "identify rd =
     (if rd_protocol_selected rd then (Consumed 0, rd)
      else case kvs_identify_connection (in_data (rd_input rd)) (nat (in_length (rd_input rd))) of
        KVS_CONNECTION_NEED_MORE \<Rightarrow> (Wait_for_more, rd)
      | KVS_CONNECTION_INVALID \<Rightarrow> (Close_connection, rd)
      | KVS_CONNECTION_REPLICA \<Rightarrow>
          (Consumed 0,
           rd\<lparr>rd_handler := the (rd_replication_handler rd), rd_stream_handler := rd_replication_stream_handler rd,
              rd_close_handler := rd_replication_close_handler rd, rd_protocol_selected := True\<rparr>)
      | KVS_CONNECTION_CLIENT \<Rightarrow> (Consumed 0, rd\<lparr>rd_protocol_selected := True\<rparr>))"

text \<open>The call of the handler on what has been received, and what it did to the two buffers.\<close>

definition take_reply :: "int \<Rightarrow> int \<Rightarrow> kvs_output_buffer_t \<Rightarrow> 'p reader \<Rightarrow> (progress \<times> 'p reader) run" where
  "take_reply response_length consumed_length out rd =
     (if response_length < 0 \<or> response_length > out_capacity out - out_length out
      then Inr (Close_connection, rd\<lparr>rd_output := out\<rparr>)
      else
        let rd = rd\<lparr>rd_output := out\<lparr>out_length := out_length out + response_length\<rparr>\<rparr>
        in bindr (kvs_input_buffer_consume (rd_input rd) consumed_length) (\<lambda>(r, inp).
           Inr (if r < 0 then Close_connection else Consumed consumed_length, rd\<lparr>rd_input := inp\<rparr>)))"

definition handle_input :: "'p reader \<Rightarrow> 'p \<Rightarrow> sys \<Rightarrow> ((progress \<times> 'p reader) \<times> 'p \<times> sys) run" where
  "handle_input rd p s =
     bindr (kvs_output_buffer_ensure_space (rd_output rd) BUFFER_LENGTH s) (\<lambda>(r, out, s).
     if r < 0 then Inr ((Close_connection, rd\<lparr>rd_output := out\<rparr>), p, s)
     else
       bindr (rd_handler rd (rd_fd rd) (contents (in_data (rd_input rd)) (in_length (rd_input rd))) out p s)
         (\<lambda>(response_length, consumed_length, out, p, s).
            bindr (take_reply response_length consumed_length out rd) (\<lambda>res. Inr (res, p, s))))"

text \<open>Sending what has been collected, and the stream of a replication connection.\<close>

definition send_replies :: "int \<Rightarrow> 'p reader \<Rightarrow> 'p scene \<Rightarrow> (progress \<times> 'p reader, 'p scene) outcome" where
  "send_replies consumed_length rd sc =
     (let out = rd_output rd in
      if out_length out = 0 \<and> rd_stream_handler rd = None \<or>
         rd_stream_handler rd = None \<and> rd_close_handler rd = None \<and> out_length out < NTYCO_REPLY_BATCH_THRESHOLD
      then Finished (Consumed consumed_length, rd) sc
      else
        bindo (ntyco_flush_output (rd_fd rd) out sc) (\<lambda>(r, out) sc.
        let rd = rd\<lparr>rd_output := out\<rparr> in
        if r < 0 then Finished (Close_connection, rd) sc
        else case rd_stream_handler rd of
          None \<Rightarrow> Finished (Consumed consumed_length, rd) sc
        | Some h \<Rightarrow>
            bindo (stream_loop (rd_fd rd) h (out_data out) sc) (\<lambda>(still_open, d) sc.
            Finished (if still_open then Consumed consumed_length else Close_connection,
                      rd\<lparr>rd_output := out\<lparr>out_data := d\<rparr>\<rparr>) sc)))"

definition reader_command :: "'p reader \<Rightarrow> 'p scene \<Rightarrow> (progress \<times> 'p reader, 'p scene) outcome" where
  "reader_command rd sc =
     (case identify (rd\<lparr>rd_output := (rd_output rd)\<lparr>out_offset := 0\<rparr>\<rparr>) of
        (Consumed _, rd) \<Rightarrow>
          bindo (lift_run (handle_input rd (sc_proc sc) (sc_sys sc)) sc) (\<lambda>(progress, rd) sc.
            case progress of
              Consumed consumed_length \<Rightarrow> send_replies consumed_length rd sc
            | _ \<Rightarrow> Finished (progress, rd) sc)
      | (progress, rd) \<Rightarrow> Finished (progress, rd) sc)"

lemma identify_input: "identify rd = (pr, rd') \<Longrightarrow> rd_input rd' = rd_input rd"
  by (auto simp: identify_def split: kvs_connection_kind_t.splits if_splits)

lemma consume_length:
  "kvs_input_buffer_consume inp n = Inr (r, inp') \<Longrightarrow> 0 \<le> r \<Longrightarrow> 0 \<le> n \<and> n \<le> in_length inp \<and> in_length inp' = in_length inp - n"
  by (auto simp: kvs_input_buffer_consume_def bindr_eq_Inr Let_def split: if_splits)

lemma take_reply_consumes:
  "take_reply m n out rd = Inr (Consumed k, rd') \<Longrightarrow> 0 \<le> k \<and> k \<le> in_length (rd_input rd) \<and> in_length (rd_input rd') = in_length (rd_input rd) - k"
  by (auto simp: take_reply_def bindr_eq_Inr Let_def split: if_splits dest!: consume_length)

lemma handle_input_consumes:
  "handle_input rd p s = Inr ((Consumed n, rd'), p', s') \<Longrightarrow>
   0 \<le> n \<and> n \<le> in_length (rd_input rd) \<and> in_length (rd_input rd') = in_length (rd_input rd) - n"
  by (auto simp: handle_input_def bindr_eq_Inr split: if_splits dest!: take_reply_consumes)

lemma send_replies_consumes:
  "send_replies m rd sc = Finished (Consumed n, rd') sc' \<Longrightarrow> n = m \<and> rd_input rd' = rd_input rd"
  by (auto simp: send_replies_def bindo_Finished Let_def split: if_splits option.splits)

lemma reader_command_consumes:
  assumes "reader_command rd sc = Finished (Consumed n, rd') sc'"
  shows "0 \<le> n \<and> n \<le> in_length (rd_input rd) \<and> in_length (rd_input rd') = in_length (rd_input rd) - n"
proof -
  obtain pr rd0 where i: "identify (rd\<lparr>rd_output := (rd_output rd)\<lparr>out_offset := 0\<rparr>\<rparr>) = (pr, rd0)"
    by (metis surj_pair)
  obtain m where m: "pr = Consumed m"
    using assms i by (cases pr) (auto simp: reader_command_def identify_def split: if_splits kvs_connection_kind_t.splits)
  obtain pr1 rd1 p s where h: "handle_input rd0 (sc_proc sc) (sc_sys sc) = Inr ((pr1, rd1), p, s)"
    using assms unfolding reader_command_def i m by (auto simp: bindo_Finished lift_run_Finished)
  obtain k where "pr1 = Consumed k" "send_replies k rd1 (sc\<lparr>sc_proc := p, sc_sys := s\<rparr>) = Finished (Consumed n, rd') sc'"
    using assms unfolding reader_command_def i m by (cases pr1) (simp_all add: lift_run_def h)
  then show ?thesis
    using h identify_input [OF i] handle_input_consumes send_replies_consumes by fastforce
qed

text \<open>The inner loop over what has been received: whether the connection stays open.\<close>

function reader_commands :: "'p reader \<Rightarrow> 'p scene \<Rightarrow> (bool \<times> 'p reader, 'p scene) outcome" where
  "reader_commands rd sc =
     bindo (reader_command rd sc) (\<lambda>res sc.
       let rd = snd res in
       case fst res of
         Close_connection \<Rightarrow> Finished (False, rd) sc
       | Wait_for_more \<Rightarrow> Finished (True, rd) sc
       | Consumed n \<Rightarrow> if in_length (rd_input rd) > 0 \<and> n > 0 then reader_commands rd sc else Finished (True, rd) sc)"
  by pat_completeness auto
termination
  by (relation "measure (\<lambda>(rd, sc). nat (in_length (rd_input rd)))") (auto dest!: reader_command_consumes)

declare reader_commands.simps [simp del]


section \<open>What holds while a connection is served\<close>

text \<open>
  A relation between the variables of \<open>server_reader\<close> and the scene that every step keeps.
  Where the coroutine is suspended it holds for the values the variables have there.
\<close>

definition ends_with :: "(halt \<Rightarrow> bool) \<Rightarrow> ('r \<Rightarrow> 's \<Rightarrow> bool) \<Rightarrow> ('a \<times> 'r, 's) outcome \<Rightarrow> bool" where
  "ends_with H P x = (case x of Suspended s \<Rightarrow> \<exists>rd. P rd s | Broken h \<Rightarrow> H h | Finished (a, rd) s \<Rightarrow> P rd s)"

lemma ends_with_simps [simp]:
  "ends_with H P (Suspended s) = (\<exists>rd. P rd s)" "ends_with H P (Broken h) = H h" "ends_with H P (Finished r s) = P (snd r) s"
  by (simp_all add: ends_with_def split_beta)

lemma ends_with_bindo:
  "ends_with H P x \<Longrightarrow> (\<And>r s. x = Finished r s \<Longrightarrow> P (snd r) s \<Longrightarrow> ends_with H P (f r s)) \<Longrightarrow> ends_with H P (bindo x f)"
  by (cases x) simp_all

lemma ends_with_after:
  "ends H (P rd) x \<Longrightarrow> (\<And>a s. x = Finished a s \<Longrightarrow> P rd s \<Longrightarrow> ends_with H P (f a s)) \<Longrightarrow> ends_with H P (bindo x f)"
  by (cases x) auto

locale reader_relation =
  fixes H :: "halt \<Rightarrow> bool"
    and P :: "'p reader \<Rightarrow> 'p scene \<Rightarrow> bool"
  assumes waits: "stable (P rd)"
    and handles: "P rd sc \<Longrightarrow> handle_input rd (sc_proc sc) (sc_sys sc) = Inr ((pr, rd'), p, s) \<Longrightarrow> P rd' (sc\<lparr>sc_proc := p, sc_sys := s\<rparr>)"
    and handle_fails: "P rd sc \<Longrightarrow> handle_input rd (sc_proc sc) (sc_sys sc) = Inl h \<Longrightarrow> H h"
    and handled: "P rd sc \<Longrightarrow> handle_input rd (sc_proc sc) (sc_sys sc) = Inr ((Consumed k, rd'), p, s) \<Longrightarrow>
      out_data (rd_output rd') \<noteq> None \<or> (\<forall>h. H h)"
    and identifies: "P rd sc \<Longrightarrow> identify (rd\<lparr>rd_output := (rd_output rd)\<lparr>out_offset := 0\<rparr>\<rparr>) = (pr, rd') \<Longrightarrow> P rd' sc"
    and output_fits: "P rd sc \<Longrightarrow> out_data (rd_output rd) = Some d \<Longrightarrow> nat (out_length (rd_output rd)) \<le> length d \<or> (\<forall>h. H h)"
    and flushed: "P rd sc \<Longrightarrow> P (rd\<lparr>rd_output := (rd_output rd)\<lparr>out_length := 0, out_offset := 0\<rparr>\<rparr>) sc"
    and streams: "P rd sc \<Longrightarrow> rd_stream_handler rd = Some f \<Longrightarrow> f fd BUFFER_LENGTH (sc_proc sc) (sc_sys sc) = Inr (r, str, p, s) \<Longrightarrow>
      P rd (sc\<lparr>sc_proc := p, sc_sys := s\<rparr>)"
    and stream_fails: "P rd sc \<Longrightarrow> rd_stream_handler rd = Some f \<Longrightarrow> f fd BUFFER_LENGTH (sc_proc sc) (sc_sys sc) = Inl h \<Longrightarrow> H h"
    and stream_fits: "P rd sc \<Longrightarrow> rd_stream_handler rd = Some f \<Longrightarrow> out_data (rd_output rd) = Some d \<Longrightarrow>
      f fd BUFFER_LENGTH (sc_proc sc) (sc_sys sc) = Inr (r, str, p, s) \<Longrightarrow> 0 < r \<Longrightarrow>
      length str \<le> length d \<and> nat r \<le> length d \<or> (\<forall>h. H h)"
    and streamed: "P rd sc \<Longrightarrow> out_data (rd_output rd) = Some d \<Longrightarrow> length d' = length d \<Longrightarrow>
      P (rd\<lparr>rd_output := (rd_output rd)\<lparr>out_data := Some d'\<rparr>\<rparr>) sc"
begin

text \<open>The relation while the stream uses the output storage.\<close>

definition streaming :: "'p reader \<Rightarrow> bytes option \<Rightarrow> 'p scene \<Rightarrow> bool" where
  "streaming rd d sc \<longleftrightarrow> P (rd\<lparr>rd_output := (rd_output rd)\<lparr>out_data := d\<rparr>\<rparr>) sc \<and> (d \<noteq> None \<or> (\<forall>h. H h))"

lemma streaming_stable: "stable (streaming rd d)"
proof (cases "d \<noteq> None \<or> (\<forall>h. H h)")
  case True
  then have "streaming rd d = P (rd\<lparr>rd_output := (rd_output rd)\<lparr>out_data := d\<rparr>\<rparr>)"
    by (auto simp: streaming_def fun_eq_iff)
  then show ?thesis using waits by simp
next
  case False
  then have "streaming rd d = (\<lambda>_. False)"
    by (auto simp: streaming_def fun_eq_iff)
  then show ?thesis by (simp add: stable_def)
qed

lemma stream_send_ends:
  assumes "streaming rd (Some d) sc" "rd_stream_handler rd = Some f" "f fd BUFFER_LENGTH (sc_proc sc) (sc_sys sc) = Inr (n, str, p, s)"
    "0 < n" "store_at d 0 str = Inr d'" "streaming rd (Some d) sc1"
  shows "ends_with H (streaming rd) (bindo (ntyco_send_all fd (Some d') n sc1) (\<lambda>r sc. Finished (if r < 0 then Some False else None, Some d') sc))"
proof -
  have "length d' = length d"
    using assms(5) by (rule store_at_length)
  then have "streaming rd (Some d') sc1"
    using assms(6) streamed [of "rd\<lparr>rd_output := (rd_output rd)\<lparr>out_data := Some d\<rparr>\<rparr>" sc1 d d'] by (simp add: streaming_def)
  moreover have "nat n \<le> length d' \<or> H Out_of_bounds"
    using stream_fits [of "rd\<lparr>rd_output := (rd_output rd)\<lparr>out_data := Some d\<rparr>\<rparr>" sc f d fd n str p s] assms(1-4) \<open>length d' = length d\<close>
    by (auto simp: streaming_def)
  ultimately show ?thesis
    by (auto intro!: ends_with_after [where rd = "Some d'"] send_all_ends [OF streaming_stable])
qed

lemma stream_round_ends:
  assumes R: "streaming rd d sc" and f: "rd_stream_handler rd = Some f"
  shows "ends_with H (streaming rd) (stream_round fd f d sc)"
proof (cases "f fd BUFFER_LENGTH (sc_proc sc) (sc_sys sc)")
  case (Inl h)
  then show ?thesis
    using stream_fails [of "rd\<lparr>rd_output := (rd_output rd)\<lparr>out_data := d\<rparr>\<rparr>" sc f] R f by (simp add: stream_round_def lift_run_def streaming_def)
next
  case (Inr res)
  obtain n str p s where res: "res = (n, str, p, s)" by (cases res)
  let ?sc = "sc\<lparr>sc_proc := p, sc_sys := s\<rparr>"
  have R1: "streaming rd d ?sc"
    using streams [of "rd\<lparr>rd_output := (rd_output rd)\<lparr>out_data := d\<rparr>\<rparr>" sc f] R f Inr res by (simp add: streaming_def)
  have w: "ends_with H (streaming rd) (bindo (ask ?sc) (\<lambda>pending sc. if pending = Answer 0 \<or> pending = Failing then Finished (Some False, d) sc
      else bindo (await sc) (\<lambda>_ sc. Finished (None, d) sc)))"
    using R1 by (auto intro!: ends_with_after [where rd = d] stableD(1,2) [OF streaming_stable])
  have b: "ends_with H (streaming rd) (case d of None \<Rightarrow> Broken Null_deref
      | Some d0 \<Rightarrow> (case store_at d0 0 str of Inl h \<Rightarrow> Broken h
          | Inr d' \<Rightarrow> bindo (ntyco_send_all fd (Some d') n ?sc) (\<lambda>r sc. Finished (if r < 0 then Some False else None, Some d') sc)))"
    if n: "0 < n"
  proof (cases d)
    case (Some d0)
    have "store_at d0 0 str = Inl h \<Longrightarrow> H h" for h
      using stream_fits [of "rd\<lparr>rd_output := (rd_output rd)\<lparr>out_data := Some d0\<rparr>\<rparr>" sc f d0 fd n str p s] R f Inr res n Some
      by (auto simp: streaming_def store_at_def split: if_splits)
    then show ?thesis
      using stream_send_ends [of rd d0 sc f fd n str p s _ ?sc] R R1 f Inr res n Some by (auto split: sum.split)
  qed (use R in \<open>simp add: streaming_def\<close>)
  show ?thesis
    using R1 w b by (auto simp: stream_round_def lift_run_def Inr res)
qed

lemma stream_loop_ends: "streaming rd d sc \<Longrightarrow> rd_stream_handler rd = Some f \<Longrightarrow> ends_with H (streaming rd) (stream_loop fd f d sc)"
proof (induction fd f d sc rule: stream_loop.induct)
  case (1 fd f d sc)
  show ?case
    using stream_round_ends [OF "1.prems", of fd] "1.IH" "1.prems"(2)
    by (subst stream_loop.simps) (auto intro!: ends_with_bindo split: option.split)
qed

lemma flush_ends:
  assumes "P rd sc"
  shows "ends_with H (\<lambda>out sc. P (rd\<lparr>rd_output := out\<rparr>) sc \<and> out_data out = out_data (rd_output rd)) (ntyco_flush_output fd (rd_output rd) sc)"
proof -
  have "ends H (P rd) (ntyco_send_all fd (out_data (rd_output rd)) (out_length (rd_output rd)) sc)"
    using output_fits [OF assms] by (intro send_all_ends [OF waits assms]) blast
  then show ?thesis
    using assms flushed
    by (cases "ntyco_send_all fd (out_data (rd_output rd)) (out_length (rd_output rd)) sc") (auto simp: ntyco_flush_output_def intro: exI [of _ "rd_output rd"])
qed

lemma send_replies_ends:
  assumes "P rd sc" "out_data (rd_output rd) \<noteq> None \<or> (\<forall>h. H h)"
  shows "ends_with H P (send_replies n rd sc)"
proof -
  have f: "ends_with H P (bindo (ntyco_flush_output (rd_fd rd) (rd_output rd) sc) g)"
    if g: "\<And>res sc. P (rd\<lparr>rd_output := snd res\<rparr>) sc \<Longrightarrow> out_data (snd res) = out_data (rd_output rd) \<Longrightarrow> ends_with H P (g res sc)"
    for g :: "int \<times> kvs_output_buffer_t \<Rightarrow> 'p scene \<Rightarrow> (progress \<times> 'p reader, 'p scene) outcome"
    using flush_ends [OF assms(1), of "rd_fd rd"] g by (cases "ntyco_flush_output (rd_fd rd) (rd_output rd) sc") auto
  have l: "ends_with H P (bindo (stream_loop fd h (out_data (rd_output rd)) sc1) (\<lambda>(still_open, d) sc.
      Finished (if still_open then Consumed n else Close_connection, rd\<lparr>rd_output := out\<lparr>out_data := d\<rparr>\<rparr>) sc))"
    if "P (rd\<lparr>rd_output := out\<rparr>) sc1" "out_data out = out_data (rd_output rd)" "rd_stream_handler rd = Some h" for fd h out sc1
  proof -
    have "(out_data out \<noteq> None \<or> (\<forall>h. H h))"
      using that(2) assms(2) by simp
    then have "streaming (rd\<lparr>rd_output := out\<rparr>) (out_data out) sc1"
      using that(1) by (simp add: streaming_def)
    from stream_loop_ends [OF this, of h fd] show ?thesis
      using that(3) unfolding that(2) [symmetric] by (cases "stream_loop fd h (out_data out) sc1") (auto simp: streaming_def)
  qed
  show ?thesis
    unfolding send_replies_def Let_def
    by (auto intro!: f l simp: assms(1) split: option.split)
qed

lemma reader_command_ends:
  assumes "P rd sc"
  shows "ends_with H P (reader_command rd sc)"
proof -
  obtain pr rd0 where i: "identify (rd\<lparr>rd_output := (rd_output rd)\<lparr>out_offset := 0\<rparr>\<rparr>) = (pr, rd0)" "P rd0 sc"
    using identifies [OF assms] by (metis surj_pair)
  let ?call = "lift_run (handle_input rd0 (sc_proc sc) (sc_sys sc)) sc"
  have h: "ends_with H P ?call"
    using handles [OF i(2)] handle_fails [OF i(2)] by (auto simp: lift_run_def split: sum.split)
  have "ends_with H P (send_replies k rd1 sc1)" if "?call = Finished (Consumed k, rd1) sc1" "P rd1 sc1" for k rd1 sc1
    using that handled [OF i(2)] by (intro send_replies_ends) (auto simp: lift_run_Finished)
  then show ?thesis
    using i h by (auto simp: reader_command_def split: progress.split intro!: ends_with_bindo)
qed

lemma reader_commands_ends: "P rd sc \<Longrightarrow> ends_with H P (reader_commands rd sc)"
proof (induction rd sc rule: reader_commands.induct)
  case (1 rd sc)
  show ?case
    using reader_command_ends [OF "1.prems"] "1.IH"
    by (subst reader_commands.simps) (auto intro!: ends_with_bindo simp: Let_def split: progress.split)
qed

end

interpretation bounded: reader_relation "\<lambda>_. True" "\<lambda>rd sc. length (sc_answers sc) \<le> n" for n
  by unfold_locales (simp_all add: stable_shorter)

section \<open>The reader\<close>

text \<open>
  Receiving into the free part of the input: \<open>Some True\<close> if bytes have arrived, \<open>Some False\<close>
  if the connection is at its end, \<open>None\<close> after an interruption.
\<close>

definition store_input :: "bytes \<Rightarrow> 'p reader \<Rightarrow> 'p scene \<Rightarrow> (bool option \<times> 'p reader, 'p scene) outcome" where
  "store_input d rd sc =
     (if d = [] then Finished (Some False, rd) sc
      else case in_data (rd_input rd) of
        None \<Rightarrow> Broken Null_deref
      | Some buf \<Rightarrow>
          (case store_at buf (nat (in_length (rd_input rd))) d of
             Inl h \<Rightarrow> Broken h
           | Inr buf \<Rightarrow>
               Finished (Some True, rd\<lparr>rd_input := (rd_input rd)\<lparr>in_data := Some buf, in_length := in_length (rd_input rd) + int (length d)\<rparr>\<rparr>) sc))"

definition receive :: "'p reader \<Rightarrow> 'p scene \<Rightarrow> (bool option \<times> 'p reader, 'p scene) outcome" where
  "receive rd sc =
     (case kvs_input_buffer_ensure_space (rd_input rd) 1 (sc_sys sc) of
        Inl h \<Rightarrow> Broken h
      | Inr (r, inp, s) \<Rightarrow>
          let rd = rd\<lparr>rd_input := inp\<rparr>; sc = sc\<lparr>sc_sys := s\<rparr>; available = nat (in_capacity inp - in_length inp) in
          if r < 0 then Finished (Some False, rd) sc
          else if \<not> rd_protocol_selected rd then
            bindo (ntyco_recv_before_deadline available (rd_identification_deadline_ms rd) sc) (\<lambda>d sc.
              case d of None \<Rightarrow> Finished (Some False, rd) sc | Some d \<Rightarrow> store_input d rd sc)
          else
            bindo (await sc) (\<lambda>a sc.
              case a of
                Answer n \<Rightarrow> (case take_in n available sc of (d, sc) \<Rightarrow> store_input d rd sc)
              | Interrupted \<Rightarrow> Finished (None, rd) sc
              | _ \<Rightarrow> Finished (Some False, rd) sc))"

text \<open>One round of the outer loop: whether there is another.\<close>

definition reader_round :: "'p reader \<Rightarrow> 'p scene \<Rightarrow> (bool \<times> 'p reader, 'p scene) outcome" where
  "reader_round rd sc =
     bindo (receive rd sc) (\<lambda>(received, rd) sc.
       case received of
         None \<Rightarrow> Finished (True, rd) sc
       | Some False \<Rightarrow> Finished (False, rd) sc
       | Some True \<Rightarrow>
           bindo (reader_commands rd sc) (\<lambda>(still_open, rd) sc.
             if \<not> still_open then Finished (False, rd) sc
             else bindo (ntyco_flush_output (rd_fd rd) (rd_output rd) sc) (\<lambda>(r, out) sc.
                    Finished (r \<ge> 0, rd\<lparr>rd_output := out\<rparr>) sc)))"

lemma store_input_answers: "store_input d rd sc = Finished res sc' \<Longrightarrow> sc' = sc"
  by (auto simp: store_input_def split: if_splits option.splits sum.splits)

lemma receive_shorter:
  "receive rd sc = Finished (got, rd') sc' \<Longrightarrow> got = Some False \<or> length (sc_answers sc') < length (sc_answers sc)"
  by (auto simp: receive_def Let_def take_in_def split: sum.splits if_splits option.split_asm answer.split_asm elim!: bindo_FinishedE
      dest!: await_shorter recv_shorter store_input_answers)

lemma commands_bound: "reader_commands rd sc = Finished r sc' \<Longrightarrow> length (sc_answers sc') \<le> length (sc_answers sc)"
  using bounded.reader_commands_ends [where sc = sc and rd = rd, OF order_refl] by simp

lemma flush_bound: "ntyco_flush_output fd out sc = Finished r sc' \<Longrightarrow> length (sc_answers sc') \<le> length (sc_answers sc)"
  using send_all_ends [OF stable_shorter order_refl, where H = "\<lambda>_. True" and sc = sc and data_ptr = "out_data out" and len = "out_length out" and fd = fd]
  by (auto simp: ntyco_flush_output_def split: if_splits elim!: bindo_FinishedE)

lemma reader_round_shorter:
  assumes "reader_round rd sc = Finished (True, rd') sc'"
  shows "length (sc_answers sc') < length (sc_answers sc)"
proof -
  obtain got rd1 sc1 where r: "receive rd sc = Finished (got, rd1) sc1"
    using assms by (auto simp: reader_round_def elim!: bindo_FinishedE)
  have "got \<noteq> Some False" "length (sc_answers sc') \<le> length (sc_answers sc1)"
    using assms by (auto simp: reader_round_def r split: option.split_asm bool.split_asm if_split_asm elim!: bindo_FinishedE
        dest!: commands_bound flush_bound)
  then show ?thesis
    using receive_shorter [OF r] by simp
qed

function reader_loop :: "'p reader \<Rightarrow> 'p scene \<Rightarrow> (unit \<times> 'p reader, 'p scene) outcome" where
  "reader_loop rd sc =
     bindo (reader_round rd sc) (\<lambda>res sc. if fst res then reader_loop (snd res) sc else Finished ((), snd res) sc)"
  by pat_completeness auto
termination
  by (relation "measure (\<lambda>(rd, sc). length (sc_answers sc))") (auto dest: reader_round_shorter)

declare reader_loop.simps [simp del]

text \<open>\<open>connection_closed\<close>: both buffers go back, and the business layer is told.\<close>

definition close_connection :: "'p reader \<Rightarrow> 'p \<Rightarrow> sys \<Rightarrow> 'p \<times> sys" where
  "close_connection rd p s =
     (case kvs_input_buffer_free (rd_input rd) s of
        (_, s) \<Rightarrow>
          (case kvs_output_buffer_free (rd_output rd) s of
             (_, s) \<Rightarrow> (case rd_close_handler rd of None \<Rightarrow> (p, s) | Some h \<Rightarrow> h (rd_fd rd) p s)))"

definition input_empty :: kvs_input_buffer_t where
  "input_empty = \<lparr>in_data = None, in_length = 0, in_capacity = 0\<rparr>"

definition output_empty :: kvs_output_buffer_t where
  "output_empty = \<lparr>out_data = None, out_length = 0, out_offset = 0, out_capacity = 0\<rparr>"

definition new_reader :: "'p ntyco_connection_context_t \<Rightarrow> 'p reader" where
  "new_reader context =
     \<lparr>rd_fd = cn_fd context, rd_handler = cn_handler context, rd_stream_handler = cn_stream_handler context,
      rd_close_handler = cn_close_handler context, rd_replication_handler = cn_replication_handler context,
      rd_replication_stream_handler = cn_replication_stream_handler context,
      rd_replication_close_handler = cn_replication_close_handler context,
      rd_protocol_selected = (cn_replication_handler context = None),
      rd_identification_deadline_ms = cn_identification_deadline_ms context,
      rd_input = input_empty, rd_output = output_empty\<rparr>"

definition server_reader :: "'p ntyco_connection_context_t \<Rightarrow> 'p scene \<Rightarrow> (unit, 'p scene) outcome" where
  "server_reader context sc =
     (let sc = (if cn_heap_owned context then sc\<lparr>sc_sys := kvs_free (sc_sys sc)\<rparr> else sc)
      in bindo (reader_loop (new_reader context) sc) (\<lambda>(_, rd) sc.
         case close_connection rd (sc_proc sc) (sc_sys sc) of
           (p, s) \<Rightarrow> Finished () (sc\<lparr>sc_proc := p, sc_sys := s\<rparr>)))"


section \<open>The connector to a primary\<close>

text \<open>
  The common end of the failures after the connection is made: the business
  layer is told and the output goes back.
\<close>

definition connector_fails :: "'p ntyco_connector_context_t \<Rightarrow> int \<Rightarrow> kvs_output_buffer_t \<Rightarrow> 'p scene \<Rightarrow> (unit, 'p scene) outcome" where
  "connector_fails context fd out sc =
     (case ct_close_handler context fd (sc_proc sc) (sc_sys sc) of
        (p, s) \<Rightarrow> Finished () (sc\<lparr>sc_proc := p, sc_sys := snd (kvs_output_buffer_free out s)\<rparr>))"

text \<open>The connection exists: the first message is made, sent, and the reader takes over.\<close>

definition connector_talks :: "'p ntyco_connector_context_t \<Rightarrow> int \<Rightarrow> 'p scene \<Rightarrow> (unit, 'p scene) outcome" where
  "connector_talks context fd sc =
     (case kvs_output_buffer_ensure_space output_empty BUFFER_LENGTH (sc_sys sc) of
        Inl h \<Rightarrow> Broken h
      | Inr (r, out, s) \<Rightarrow>
          let sc = sc\<lparr>sc_sys := s\<rparr> in
          if r < 0 then connector_fails context fd out sc
          else
            (case ct_open_handler context fd BUFFER_LENGTH (sc_proc sc) (sc_sys sc) of
               (len, str, p, s) \<Rightarrow>
                 let sc = sc\<lparr>sc_proc := p, sc_sys := s\<rparr> in
                 if len < 0 \<or> len > BUFFER_LENGTH then connector_fails context fd out sc
                 else
                   (case store_at (the (out_data out)) 0 str of
                      Inl h \<Rightarrow> Broken h
                    | Inr d \<Rightarrow>
                        let out = out\<lparr>out_data := Some d\<rparr> in
                        bindo (ntyco_send_loop (take (nat len) d) sc) (\<lambda>r sc.
                          if r < 0 then connector_fails context fd out sc
                          else
                            server_reader
                              \<lparr>cn_fd = fd, cn_handler = ct_message_handler context, cn_stream_handler = ct_stream_handler context,
                               cn_close_handler = Some (ct_close_handler context), cn_heap_owned = False, cn_replication_handler = None,
                               cn_replication_stream_handler = None, cn_identification_deadline_ms = 0, cn_replication_close_handler = None\<rparr>
                              (sc\<lparr>sc_sys := snd (kvs_output_buffer_free out (sc_sys sc))\<rparr>)))))"

definition ntyco_connector :: "(bytes \<Rightarrow> bool) \<Rightarrow> 'p ntyco_connector_context_t \<Rightarrow> 'p scene \<Rightarrow> (unit, 'p scene) outcome" where
  "ntyco_connector inet_pton context sc =
     (if \<not> inet_pton (ct_host context) then Finished () sc
      else case os_int (sc_sys sc) of
        (fd, s) \<Rightarrow>
          let sc = sc\<lparr>sc_sys := s\<rparr> in
          if fd < 0 then Finished () sc
          else bindo (await sc) (\<lambda>connected sc.
            if connected \<noteq> Answer 0 then Finished () sc else connector_talks context fd sc))"

section \<open>The listener\<close>

definition ntyco_connection_bytes :: nat where
  "ntyco_connection_bytes = 72"

text \<open>A new connection: the context handed to the coroutine created for it, if all goes well.\<close>

definition accept_connection :: "'p ntyco_listener_context_t \<Rightarrow> int \<Rightarrow> sys \<Rightarrow> 'p ntyco_connection_context_t option \<times> sys" where
  "accept_connection context cli_fd s =
     (case (if ln_replication_handler context = None then (0, s) else ntyco_monotonic_ms s) of
        (accepted_at, s) \<Rightarrow>
          if accepted_at < 0 then (None, s)
          else case kvs_malloc ntyco_connection_bytes s of
            (False, s) \<Rightarrow> (None, s)
          | (True, s) \<Rightarrow>
              let connection =
                    \<lparr>cn_fd = cli_fd, cn_handler = ln_handler context, cn_stream_handler = ln_stream_handler context,
                     cn_close_handler = None, cn_heap_owned = True, cn_replication_handler = ln_replication_handler context,
                     cn_replication_stream_handler = ln_replication_stream_handler context,
                     cn_identification_deadline_ms =
                       (if ln_replication_handler context = None then 0 else accepted_at + NTYCO_IDENTIFICATION_TIMEOUT_MS),
                     cn_replication_close_handler = ln_replication_close_handler context\<rparr>
              in (case os_call s of (True, s) \<Rightarrow> (Some connection, s) | (False, s) \<Rightarrow> (None, kvs_free s)))"

text \<open>
  The listener never returns; the connections it has started after the given answers, and
  the process then.
\<close>

fun accept_loop :: "'p ntyco_listener_context_t \<Rightarrow> 'p resumption list \<Rightarrow> 'p \<Rightarrow> sys \<Rightarrow> 'p ntyco_connection_context_t list \<times> 'p \<times> sys" where
  "accept_loop context [] p s = ([], p, s)"
| "accept_loop context ((others, a) # as) p s =
     (case others (p, s) of
        (p, s) \<Rightarrow>
          (case a of
             Answer fd \<Rightarrow>
               (case accept_connection context (int fd) s of
                  (new, s) \<Rightarrow>
                    (case accept_loop context as p s of
                       (started, p, s) \<Rightarrow> ((case new of None \<Rightarrow> started | Some c \<Rightarrow> c # started), p, s)))
           | _ \<Rightarrow> accept_loop context as p s))"

definition server :: "'p ntyco_listener_context_t \<Rightarrow> 'p resumption list \<Rightarrow> 'p \<Rightarrow> sys \<Rightarrow> 'p ntyco_connection_context_t list \<times> 'p \<times> sys" where
  "server context answers p s = (if ln_listen_fd context < 0 then ([], p, s) else accept_loop context answers p s)"

section \<open>The runtime\<close>

fun init_contexts :: "('c \<Rightarrow> 'x option) \<Rightarrow> 'c list \<Rightarrow> 'x list option" where
  "init_contexts init [] = Some []"
| "init_contexts init (c # cs) =
     (case init c of None \<Rightarrow> None | Some x \<Rightarrow> (case init_contexts init cs of None \<Rightarrow> None | Some xs \<Rightarrow> Some (x # xs)))"

fun open_listeners ::
    "(bytes \<Rightarrow> bool) \<Rightarrow> 'p ntyco_listener_context_t list \<Rightarrow> sys \<Rightarrow> int \<times> 'p ntyco_listener_context_t list \<times> sys" where
  "open_listeners inet_pton [] s = (0, [], s)"
| "open_listeners inet_pton (c # cs) s =
     (case ntyco_listener_open inet_pton c s of
        (r, c, s) \<Rightarrow>
          if r < 0 then (-1, c # cs, s)
          else (case open_listeners inet_pton cs s of (r, cs, s) \<Rightarrow> (r, c # cs, s)))"

text \<open>A coroutine for each context; the first that cannot be created ends the attempt.\<close>

fun create_coroutines :: "nat \<Rightarrow> sys \<Rightarrow> bool \<times> sys" where
  "create_coroutines 0 s = (True, s)"
| "create_coroutines (Suc n) s = (case os_call s of (True, s) \<Rightarrow> create_coroutines n s | (False, s) \<Rightarrow> (False, s))"

text \<open>
  \<open>schedule\<close> is \<open>nty_schedule_run\<close>: it runs the coroutines of the listeners and of the
  connectors until none is left.  The contexts of the listeners are part of the result,
  with the descriptors that are still open.
\<close>

type_synonym 'p schedule =
  "'p ntyco_listener_context_t list \<Rightarrow> 'p ntyco_connector_context_t list \<Rightarrow> 'p \<Rightarrow> sys \<Rightarrow> ('p \<times> sys) run"

definition ntyco_start_runtime ::
    "(bytes \<Rightarrow> bool) \<Rightarrow> 'p schedule \<Rightarrow> 'p kvs_listener_config_t list \<Rightarrow> 'p kvs_connector_config_t list \<Rightarrow> 'p \<Rightarrow> sys \<Rightarrow>
     (int \<times> 'p ntyco_listener_context_t list \<times> 'p \<times> sys) run" where
  "ntyco_start_runtime inet_pton schedule listeners connectors p s =
     (if listeners = [] \<or> length listeners > NTYCO_MAX_LISTENER_COUNT then Inr (-1, [], p, s)
      else if length connectors > NTYCO_MAX_CONNECTOR_COUNT then Inr (-1, [], p, s)
      else case init_contexts ntyco_listener_context_init listeners of
        None \<Rightarrow> Inr (-1, [], p, s)
      | Some contexts \<Rightarrow>
          (case init_contexts ntyco_connector_context_init connectors of
             None \<Rightarrow> Inr (-1, map ntyco_listener_context_destroy contexts, p, s)
           | Some connector_contexts \<Rightarrow>
               (case open_listeners inet_pton contexts s of
                  (r, contexts, s) \<Rightarrow>
                    if r < 0 then Inr (-1, map ntyco_listener_context_destroy contexts, p, s)
                    else case create_coroutines (length contexts + length connector_contexts) s of
                      (False, s) \<Rightarrow> Inr (-1, map ntyco_listener_context_destroy contexts, p, s)
                    | (True, s) \<Rightarrow>
                        bindr (schedule contexts connector_contexts p s) (\<lambda>(p, s).
                        Inr (0, map ntyco_listener_context_destroy contexts, p, s)))))"

definition ntyco_start_listeners ::
    "(bytes \<Rightarrow> bool) \<Rightarrow> 'p schedule \<Rightarrow> 'p kvs_listener_config_t list \<Rightarrow> 'p \<Rightarrow> sys \<Rightarrow>
     (int \<times> 'p ntyco_listener_context_t list \<times> 'p \<times> sys) run" where
  "ntyco_start_listeners inet_pton schedule listeners p s = ntyco_start_runtime inet_pton schedule listeners [] p s"

definition ntyco_start ::
    "(bytes \<Rightarrow> bool) \<Rightarrow> 'p schedule \<Rightarrow> nat \<Rightarrow> 'p msg_handler option \<Rightarrow> 'p \<Rightarrow> sys \<Rightarrow>
     (int \<times> 'p ntyco_listener_context_t list \<times> 'p \<times> sys) run" where
  "ntyco_start inet_pton schedule port handler p s =
     ntyco_start_listeners inet_pton schedule
       [\<lparr>lc_port = port, lc_handler = handler, lc_stream_handler = None, lc_bind_ip = None, lc_replication_handler = None,
         lc_replication_stream_handler = None, lc_replication_close_handler = None\<rparr>] p s"

end
