(* ===== verification/Replication.thy ===== *)
theory Replication
  imports Snapshot_Install Ntyco
begin

text \<open>
  The replication manager, \<open>src/src/replication/replication.c\<close>: the hand-shake over the
  control connection, the full synchronisation over the RDMA transport, catching up from
  the append-only file, and the hand-over to the online state, for both roles.  The
  manager's variables are the field \<open>sv_replication\<close> of the server; the install and the
  command handler it was given at start-up are the functions of \<open>src/src/kvstore.c\<close>.
\<close>

section \<open>The process\<close>

text \<open>
  The server, the answers of the RDMA libraries, and \<open>nd_resolvable\<close>, which host strings
  \<open>inet_pton\<close> turns into an address to connect to.
\<close>

record node =
  nd_server :: server
  nd_lib :: rdma_lib
  nd_resolvable :: "bytes \<Rightarrow> bool"

definition mgr :: "node \<Rightarrow> kvs_replication_manager_t" where
  "mgr n = sv_replication (nd_server n)"

definition upd :: "(kvs_replication_manager_t \<Rightarrow> kvs_replication_manager_t) \<Rightarrow> node \<Rightarrow> node" where
  "upd f n = n\<lparr>nd_server := (nd_server n)\<lparr>sv_replication := f (mgr n)\<rparr>\<rparr>"

definition upd_sync :: "(kvs_replication_rdma_sync_t \<Rightarrow> kvs_replication_rdma_sync_t) \<Rightarrow> node \<Rightarrow> node" where
  "upd_sync f = upd (\<lambda>m. m\<lparr>rm_sync := f (rm_sync m)\<rparr>)"

definition with_files :: "files \<Rightarrow> node \<Rightarrow> node" where
  "with_files fs n = n\<lparr>nd_server := (nd_server n)\<lparr>sv_files := fs\<rparr>\<rparr>"

definition conn :: "node \<Rightarrow> kvs_rdma_connection option" where
  "conn n = sync_connection (rm_sync (mgr n))"

definition with_conn :: "kvs_rdma_connection option \<Rightarrow> rdma_lib \<Rightarrow> node \<Rightarrow> node" where
  "with_conn c L n = (upd_sync (\<lambda>y. y\<lparr>sync_connection := c\<rparr>) n)\<lparr>nd_lib := L\<rparr>"

abbreviation nd_files :: "node \<Rightarrow> files" where
  "nd_files n \<equiv> sv_files (nd_server n)"

abbreviation nd_offset :: "node \<Rightarrow> int" where
  "nd_offset n \<equiv> kvs_aof_get_offset (sv_aof (nd_server n))"

definition KVS_REPLICATION_HOST_MAX_LENGTH :: nat where
  "KVS_REPLICATION_HOST_MAX_LENGTH = 256"

definition KVS_REPLICATION_ID_HEX_LENGTH :: nat where
  "KVS_REPLICATION_ID_HEX_LENGTH = 40"

definition KVS_REPLICATION_RDMA_BUFFER_CAPACITY :: nat where
  "KVS_REPLICATION_RDMA_BUFFER_CAPACITY = 1048576"

definition KVS_REPLICATION_RDMA_RESOLVE_TIMEOUT_MS :: int where
  "KVS_REPLICATION_RDMA_RESOLVE_TIMEOUT_MS = 3000"

definition primary_snapshot_path :: bytes where
  "primary_snapshot_path = ''replication.snapshot''"

definition primary_aof_path :: bytes where
  "primary_aof_path = ''appendonly.aof''"

definition replica_temp_path :: bytes where
  "replica_temp_path = ''snapshot.db.replication.tmp''"

definition replica_snapshot_path :: bytes where
  "replica_snapshot_path = ''snapshot.db''"

text \<open>\<open>%lld\<close> and \<open>%u\<close> of \<open>snprintf\<close>, and a whole \<open>snprintf\<close> into a buffer that must hold it.\<close>

definition int_text :: "int \<Rightarrow> bytes" where
  "int_text i = (if i < 0 then ''-'' @ decimal (nat (- i)) else decimal (nat i))"

definition print_text :: "bytes \<Rightarrow> int \<Rightarrow> int" where
  "print_text str capacity = (if int (length str) \<ge> capacity then -1 else int (length str))"

definition kvs_replication_rdma_sync_close :: "node \<Rightarrow> int \<times> node" where
  "kvs_replication_rdma_sync_close n =
     (case kvs_rdma_connection_close (conn n) (nd_lib n) of
        (r, c, L) \<Rightarrow>
          let n = with_conn c L n in
          if r < 0 then (-1, n)
          else (0, upd_sync (\<lambda>y. rdma_sync_idle\<lparr>sync_connection := c\<rparr>) n))"

section \<open>Reading control lines\<close>

text \<open>
  The conversions of \<open>sscanf\<close> that are used: white space in the format skips any, \<open>%lld\<close>
  and \<open>%u\<close> skip white space before a number with an optional sign, a width counts the sign.
  \<open>%lld\<close> saturates; a negative \<open>%u\<close> wraps.
\<close>

definition is_space :: "char \<Rightarrow> bool" where
  "is_space c \<longleftrightarrow> byte_of c = 32 \<or> 9 \<le> byte_of c \<and> byte_of c \<le> 13"

definition is_hex :: "char \<Rightarrow> bool" where
  "is_hex c \<longleftrightarrow> 48 \<le> byte_of c \<and> byte_of c \<le> 57 \<or> 97 \<le> byte_of c \<and> byte_of c \<le> 102"

definition is_dec :: "char \<Rightarrow> bool" where
  "is_dec c \<longleftrightarrow> 48 \<le> byte_of c \<and> byte_of c \<le> 57"

definition skip_space :: "bytes \<Rightarrow> bytes" where
  "skip_space = dropWhile is_space"

definition number_of :: "bytes \<Rightarrow> nat" where
  "number_of ds = foldl (\<lambda>n c. n * 10 + (byte_of c - 48)) 0 ds"

definition scan_hex :: "bytes \<Rightarrow> (bytes \<times> bytes) option" where
  "scan_hex xs =
     (let h = takeWhile is_hex (take KVS_REPLICATION_ID_HEX_LENGTH xs)
      in if h = [] then None else Some (h, drop (length h) xs))"

definition scan_sign :: "bytes \<Rightarrow> bool \<times> nat \<times> bytes" where
  "scan_sign xs =
     (case xs of
        c # cs \<Rightarrow> if byte_of c = 45 then (True, 1, cs) else if byte_of c = 43 then (False, 1, cs) else (False, 0, xs)
      | [] \<Rightarrow> (False, 0, []))"

definition LLONG_MAX :: int where
  "LLONG_MAX = 9223372036854775807"

definition scan_lld :: "bytes \<Rightarrow> (int \<times> bytes) option" where
  "scan_lld xs =
     (case scan_sign (skip_space xs) of
        (neg, _, ys) \<Rightarrow>
          let ds = takeWhile is_dec ys; v = int (number_of ds)
          in if ds = [] then None
             else Some (if neg then max (- LLONG_MAX - 1) (- v) else min LLONG_MAX v, drop (length ds) ys))"

definition scan_u5 :: "bytes \<Rightarrow> (nat \<times> bytes) option" where
  "scan_u5 xs =
     (case scan_sign (skip_space xs) of
        (neg, used, ys) \<Rightarrow>
          let ds = takeWhile is_dec (take (5 - used) ys); v = number_of ds
          in if ds = [] then None
             else Some (if neg then (2 ^ 32 - v) mod 2 ^ 32 else v, drop (length ds) ys))"

text \<open>A frame ends where its line ended; \<open>sscanf\<close> sees it up to the first NUL.\<close>

definition c_string :: "bytes \<Rightarrow> bytes" where
  "c_string = takeWhile (\<lambda>c. c \<noteq> NUL)"

record full_resync =
  fr_id :: bytes
  fr_offset :: int
  fr_size :: int
  fr_port :: nat
  fr_sync_id :: bytes

text \<open>\<open>FULLRESYNC_RDMA %40[0-9a-f] %lld %lld %5u %40[0-9a-f]%n\<close>: all five values and the
  number of bytes read, if all five matched.\<close>

definition scan_full_resync :: "bytes \<Rightarrow> (full_resync \<times> nat) option" where
  "scan_full_resync frame =
     (let str = c_string frame; lit = ''FULLRESYNC_RDMA''
      in if take (length lit) str \<noteq> lit then None
         else case scan_hex (skip_space (drop (length lit) str)) of
           None \<Rightarrow> None
         | Some (primary_id, xs) \<Rightarrow>
             (case scan_lld (skip_space xs) of
                None \<Rightarrow> None
              | Some (offset, xs) \<Rightarrow>
                  (case scan_lld (skip_space xs) of
                     None \<Rightarrow> None
                   | Some (sz, xs) \<Rightarrow>
                       (case scan_u5 (skip_space xs) of
                          None \<Rightarrow> None
                        | Some (port, xs) \<Rightarrow>
                            (case scan_hex (skip_space xs) of
                               None \<Rightarrow> None
                             | Some (sync_id, xs) \<Rightarrow>
                                 Some (\<lparr>fr_id = primary_id, fr_offset = offset, fr_size = sz, fr_port = port, fr_sync_id = sync_id\<rparr>,
                                       length str - length xs))))))"

text \<open>\<open>ONLINE %lld%n\<close>.\<close>

definition scan_online :: "bytes \<Rightarrow> (int \<times> nat) option" where
  "scan_online frame =
     (let str = c_string frame; lit = ''ONLINE''
      in if take (length lit) str \<noteq> lit then None
         else case scan_lld (skip_space (drop (length lit) str)) of
           None \<Rightarrow> None
         | Some (offset, xs) \<Rightarrow> Some (offset, length str - length xs))"

section \<open>The replica\<close>

definition kvs_replication_on_primary_connected :: "int \<Rightarrow> int \<Rightarrow> node \<Rightarrow> int \<times> bytes \<times> node" where
  "kvs_replication_on_primary_connected fd output_capacity n =
     (if \<not> rm_initialized (mgr n) \<or> rm_role (mgr n) \<noteq> ROLE_REPLICA \<or> fd < 0 \<or> output_capacity \<le> 0 then (-1, [], n)
      else
        let str = ''PING'' @ CRLF; len = print_text str output_capacity in
        if len < 0 then (-1, [], n)
        else (len, str, upd (\<lambda>m. m\<lparr>rm_primary_connection_fd := fd, rm_state := REPLICATION_HANDSHAKE\<rparr>) n))"

definition kvs_replication_on_primary_disconnected :: "int \<Rightarrow> node \<Rightarrow> sys \<Rightarrow> node \<times> sys" where
  "kvs_replication_on_primary_disconnected fd n s =
     (if \<not> rm_initialized (mgr n) \<or> rm_role (mgr n) \<noteq> ROLE_REPLICA then (n, s)
      else if rm_primary_connection_fd (mgr n) \<noteq> fd then (n, s)
      else case kvs_replication_rdma_sync_close n of
        (r, n) \<Rightarrow>
          let n = upd (\<lambda>m. m\<lparr>rm_primary_rdma_port := 0, rm_full_sync_id := []\<rparr>) n in
          (case kvs_snapshot_writer_abort (rm_snapshot_writer (mgr n)) replica_temp_path (nd_files n) s of
             (w, fs, s) \<Rightarrow>
               (upd (\<lambda>m. m\<lparr>rm_snapshot_writer := w, rm_primary_connection_fd := -1, rm_state := REPLICATION_DISCONNECTED\<rparr>)
                  (with_files fs n), s)))"

text \<open>What is stored of an accepted \<open>FULLRESYNC_RDMA\<close> line.\<close>

definition begin_full_sync :: "full_resync \<Rightarrow> node \<Rightarrow> node" where
  "begin_full_sync fr =
     upd (\<lambda>m. m\<lparr>rm_replication_id := fr_id fr, rm_primary_rdma_port := fr_port fr, rm_full_sync_id := fr_sync_id fr,
                rm_replication_offset := fr_offset fr, rm_snapshot_file_size := fr_size fr\<rparr>)"

definition full_resync_valid :: "full_resync \<Rightarrow> bool" where
  "full_resync_valid fr \<longleftrightarrow>
     length (fr_id fr) = KVS_REPLICATION_ID_HEX_LENGTH \<and> length (fr_sync_id fr) = KVS_REPLICATION_ID_HEX_LENGTH \<and>
     0 \<le> fr_offset fr \<and> 0 < fr_size fr \<and> fr_port fr \<noteq> 0 \<and> fr_port fr \<le> 65535"

definition accept_full_resync :: "full_resync \<Rightarrow> node \<Rightarrow> sys \<Rightarrow> int \<times> node \<times> sys" where
  "accept_full_resync fr n s =
     (case kvs_snapshot_writer_abort (rm_snapshot_writer (mgr n)) replica_temp_path (nd_files n) s of
        (w, fs, s) \<Rightarrow>
          (case kvs_snapshot_writer_open w replica_temp_path (fr_size fr) fs s of
             (r, w, fs, s) \<Rightarrow>
               let n = upd (\<lambda>m. m\<lparr>rm_snapshot_writer := w\<rparr>) (with_files fs n) in
               if r < 0 then (-1, n, s)
               else
                 let n = begin_full_sync fr n in
                 (case kvs_rdma_connection_start (nd_resolvable n) (conn n) (rm_primary_host (mgr n)) (rm_primary_rdma_port (mgr n))
                         KVS_REPLICATION_RDMA_RESOLVE_TIMEOUT_MS (nd_lib n) of
                    (r, c, L) \<Rightarrow>
                      let n = with_conn c L n in
                      if r < 0 then (-1, n, s) else (0, upd (\<lambda>m. m\<lparr>rm_state := REPLICATION_FULL_SYNC\<rparr>) n, s))))"

definition kvs_replication_upstream_frame_protocol :: "(node \<times> sys) kvs_frame_handler" where
  "kvs_replication_upstream_frame_protocol fd frame capacity st =
     (let (n, s) = st in
      if \<not> rm_initialized (mgr n) \<or> rm_role (mgr n) \<noteq> ROLE_REPLICA \<or> fd < 0 \<or> fd \<noteq> rm_primary_connection_fd (mgr n) \<or>
         frame = [] \<or> capacity \<le> 0 then Inr (-1, [], st)
      else if rm_state (mgr n) \<noteq> REPLICATION_HANDSHAKE then Inr (-1, [], st)
      else if frame = ''PONG'' then
        (let str = ''PSYNC ? -1'' @ CRLF; len = print_text str capacity
         in Inr (len, if len < 0 then [] else str, st))
      else if take 16 frame = ''FULLRESYNC_RDMA '' then
        (case scan_full_resync frame of
           None \<Rightarrow> Inr (-1, [], st)
         | Some (fr, parsed) \<Rightarrow>
             if parsed \<noteq> length frame \<or> \<not> full_resync_valid fr then Inr (-1, [], st)
             else (case accept_full_resync fr n s of (r, n, s) \<Rightarrow> Inr (r, [], (n, s))))
      else Inr (-1, [], st))"

definition receiving_commands :: "int \<Rightarrow> node \<Rightarrow> bool" where
  "receiving_commands fd n \<longleftrightarrow>
     rm_initialized (mgr n) \<and> rm_role (mgr n) = ROLE_REPLICA \<and>
     (rm_state (mgr n) = REPLICATION_CATCH_UP \<or> rm_state (mgr n) = REPLICATION_ONLINE) \<and>
     0 \<le> fd \<and> fd = rm_primary_connection_fd (mgr n)"

definition kvs_replication_online_control_frame_protocol :: "(node \<times> sys) kvs_frame_handler" where
  "kvs_replication_online_control_frame_protocol fd frame capacity st =
     (let (n, s) = st in
      if \<not> receiving_commands fd n \<or> frame = [] \<or> capacity < 5 then Inr (-1, [], st)
      else if take 7 frame = ''ONLINE '' then
        (case scan_online frame of
           None \<Rightarrow> Inr (-1, [], st)
         | Some (offset, parsed) \<Rightarrow>
             if parsed \<noteq> length frame \<or> offset < 0 then Inr (-1, [], st)
             else if nd_offset n < 0 \<or> nd_offset n \<noteq> offset then Inr (-1, [], st)
             else Inr (0, [], (upd (\<lambda>m. m\<lparr>rm_replication_offset := nd_offset n, rm_state := REPLICATION_ONLINE\<rparr>) n, s)))
      else Inr (-1, [], st))"

definition kvs_replication_catch_up_command_protocol ::
    "int \<Rightarrow> bytes list \<Rightarrow> bytes \<Rightarrow> node \<Rightarrow> sys \<Rightarrow> (int \<times> bytes \<times> node \<times> sys) run" where
  "kvs_replication_catch_up_command_protocol fd flds response n s =
     (if \<not> receiving_commands fd n \<or> \<not> rm_command_handler (mgr n) \<or> flds = [] \<or> response = [] then Inr (-1, response, n, s)
      else
        bindr (kvs_replication_command_protocol flds response (nd_server n) s) (\<lambda>(len, response, sv, s).
        let n = n\<lparr>nd_server := sv\<rparr> in
        if len \<le> 0 \<or> len \<ge> int (length response) then Inr (-1, response, n, s)
        else if nd_offset n < 0 then Inr (-1, response, n, s)
        else Inr (0, response, upd (\<lambda>m. m\<lparr>rm_replication_offset := nd_offset n\<rparr>) n, s)))"

text \<open>One control line at a time; the number of bytes consumed is the second component.\<close>

definition kvs_replication_control_line_protocol ::
    "int \<Rightarrow> bytes \<Rightarrow> int \<Rightarrow> (node \<times> sys) kvs_frame_handler \<Rightarrow> node \<times> sys \<Rightarrow> (int \<times> nat \<times> bytes \<times> (node \<times> sys)) run" where
  "kvs_replication_control_line_protocol fd msg capacity handler st =
     (let i = length (takeWhile (\<lambda>c. c \<noteq> LF) msg)
      in if i < length msg
         then bindr (kvs_line_batch_protocol fd (take (i + 1) msg) capacity handler st) (\<lambda>(r, consumed, _, response, st).
                Inr (r, consumed, response, st))
         else Inr (0, 0, [], st))"

definition kvs_replication_finish_full_sync :: "node \<Rightarrow> sys \<Rightarrow> (int \<times> node \<times> sys) run" where
  "kvs_replication_finish_full_sync n s =
     (if rm_state (mgr n) \<noteq> REPLICATION_FULL_SYNC \<or> sn_remaining (rm_snapshot_writer (mgr n)) \<noteq> 0 then Inr (-1, n, s)
      else case kvs_snapshot_writer_commit (rm_snapshot_writer (mgr n)) replica_temp_path replica_snapshot_path (nd_files n) s of
        (r, w, fs, s) \<Rightarrow>
          if r < 0 then
            (case kvs_snapshot_writer_abort w replica_temp_path fs s of
               (w, fs, s) \<Rightarrow> Inr (-1, upd (\<lambda>m. m\<lparr>rm_snapshot_writer := w\<rparr>) (with_files fs n), s))
          else
            let n = upd (\<lambda>m. m\<lparr>rm_snapshot_writer := w\<rparr>) (with_files fs n) in
            if \<not> rm_install_handler (mgr n) then Inr (-1, n, s)
            else
              bindr (kvs_install_replication_snapshot replica_snapshot_path (rm_replication_offset (mgr n)) (nd_server n) s)
                (\<lambda>(r, sv, s).
                   let n = n\<lparr>nd_server := sv\<rparr> in
                   if r < 0 then Inr (-1, n, s)
                   else Inr (0, upd (\<lambda>m. m\<lparr>rm_state := REPLICATION_CATCH_UP\<rparr>) n, s)))"

definition kvs_replication_receive_snapshot_data :: "int \<Rightarrow> bytes \<Rightarrow> node \<Rightarrow> sys \<Rightarrow> (int \<times> node \<times> sys) run" where
  "kvs_replication_receive_snapshot_data fd d n s =
     (if \<not> rm_initialized (mgr n) \<or> rm_role (mgr n) \<noteq> ROLE_REPLICA \<or> fd < 0 \<or> fd \<noteq> rm_primary_connection_fd (mgr n) \<or>
         rm_state (mgr n) \<noteq> REPLICATION_FULL_SYNC \<or> d = [] then Inr (-1, n, s)
      else
        bindr (kvs_snapshot_writer_write (rm_snapshot_writer (mgr n)) d (nd_files n) s) (\<lambda>(written, w, fs, s).
        let n = upd (\<lambda>m. m\<lparr>rm_snapshot_writer := w\<rparr>) (with_files fs n) in
        if written < 0 then Inr (-1, n, s)
        else if sn_remaining w = 0 then
          bindr (kvs_replication_finish_full_sync n s) (\<lambda>(r, n, s). Inr (if r < 0 then -1 else written, n, s))
        else Inr (written, n, s)))"

text \<open>
  The message handler of the connection to the primary: result, bytes consumed, the
  response buffer, the process.
\<close>

definition kvs_replication_upstream_network_protocol ::
    "int \<Rightarrow> bytes \<Rightarrow> kvs_output_buffer_t \<Rightarrow> node \<Rightarrow> sys \<Rightarrow> (int \<times> int \<times> kvs_output_buffer_t \<times> node \<times> sys) run" where
  "kvs_replication_upstream_network_protocol fd msg response n s =
     (case out_data response of
        None \<Rightarrow> Inr (-1, 0, response, n, s)
      | Some region \<Rightarrow>
          if \<not> rm_initialized (mgr n) \<or> rm_role (mgr n) \<noteq> ROLE_REPLICA \<or> fd < 0 \<or> fd \<noteq> rm_primary_connection_fd (mgr n) \<or>
             msg = [] \<or> out_capacity response \<le> 0 then Inr (-1, 0, response, n, s)
          else
            let line = (\<lambda>handler.
                  bindr (kvs_replication_control_line_protocol fd msg (out_capacity response) handler (n, s))
                    (\<lambda>(r, consumed, str, (n, s)).
                       bindr (store_at region 0 str) (\<lambda>region.
                       Inr (r, int consumed, response\<lparr>out_data := Some region\<rparr>, n, s))))
            in if rm_state (mgr n) = REPLICATION_HANDSHAKE then line kvs_replication_upstream_frame_protocol
               else if rm_state (mgr n) = REPLICATION_FULL_SYNC then Inr (-1, 0, response, n, s)
               else if rm_state (mgr n) = REPLICATION_CATCH_UP \<or> rm_state (mgr n) = REPLICATION_ONLINE then
                 (if hd msg = CHR ''*'' then
                    (case kvs_parse_command (Some msg) 3 of
                       Incomplete \<Rightarrow> Inr (0, 0, response, n, s)
                     | Malformed \<Rightarrow> Inr (-1, 0, response, n, s)
                     | Complete (flds, parsed_bytes) \<Rightarrow>
                         bindr (kvs_replication_catch_up_command_protocol fd flds region n s) (\<lambda>(r, region, n, s).
                         let response = response\<lparr>out_data := Some region\<rparr> in
                         if r < 0 then Inr (-1, 0, response, n, s) else Inr (0, int parsed_bytes, response, n, s)))
                  else line kvs_replication_online_control_frame_protocol)
               else Inr (-1, 0, response, n, s))"

text \<open>
  The replica's side of the full synchronisation, called again and again: one event of the
  connection manager, one acknowledgement when there is something to acknowledge, one
  completion.
\<close>

definition ready_message :: "bytes \<Rightarrow> bytes" where
  "ready_message sync_id = ''READY '' @ sync_id @ CRLF"

definition ack_message :: "int \<Rightarrow> bytes" where
  "ack_message n = ''SNAPSHOT_ACK '' @ int_text n @ CRLF"

text \<open>\<open>snprintf\<close> into 64 bytes and \<open>kvs_rdma_connection_send\<close> of the result.\<close>

definition send_message :: "bytes \<Rightarrow> kvs_rdma_connection \<Rightarrow> node \<Rightarrow> int \<times> node" where
  "send_message str c n =
     (if length str \<ge> 64 then (-1, n)
      else case kvs_rdma_connection_send c str (nd_lib n) of
        (r, c, L) \<Rightarrow>
          let n = with_conn (Some c) L n in
          if r < 0 then (-1, n) else (0, upd_sync (\<lambda>y. y\<lparr>sync_send_pending := True\<rparr>) n))"

definition replica_synchronised :: "node \<Rightarrow> bool" where
  "replica_synchronised n \<longleftrightarrow>
     rm_state (mgr n) = REPLICATION_CATCH_UP \<and> sync_snapshot_bytes (rm_sync (mgr n)) = rm_snapshot_file_size (mgr n) \<and>
     sync_acknowledged_bytes (rm_sync (mgr n)) = sync_snapshot_bytes (rm_sync (mgr n))"

text \<open>The event: \<open>Inl\<close> when the function returns, \<open>Inr\<close> when it goes on.\<close>

definition upstream_event :: "kvs_rdma_connection \<Rightarrow> node \<Rightarrow> (int \<times> node) + node" where
  "upstream_event c n =
     (case kvs_rdma_connection_poll_event c KVS_REPLICATION_RDMA_BUFFER_CAPACITY 1 (nd_lib n) of
        (r, event, c, L) \<Rightarrow>
          let n = with_conn (Some c) L n in
          if r < 0 then Inl (-1, n)
          else if r > 0 \<and> event = KVS_RDMA_EVENT_DISCONNECTED then
            (if \<not> replica_synchronised n then Inl (-1, n)
             else case kvs_rdma_connection_disconnect c (nd_lib n) of
               (r, L) \<Rightarrow>
                 let n = n\<lparr>nd_lib := L\<rparr> in
                 if r < 0 then Inl (-1, n) else Inl (kvs_replication_rdma_sync_close n))
          else if r > 0 \<and> event = KVS_RDMA_EVENT_ESTABLISHED then
            (let n = upd_sync (\<lambda>y. y\<lparr>sync_established := True\<rparr>) n in
             case send_message (ready_message (rm_full_sync_id (mgr n))) c n of
               (r, n) \<Rightarrow> if r < 0 then Inl (-1, n) else Inr n)
          else Inr n)"

definition upstream_acknowledge :: "node \<Rightarrow> int \<times> node" where
  "upstream_acknowledge n =
     (let y = rm_sync (mgr n)
      in if \<not> sync_send_pending y \<and> sync_snapshot_bytes y > sync_acknowledged_bytes y
         then (case send_message (ack_message (sync_snapshot_bytes y)) (the (sync_connection y)) n of
                 (r, n) \<Rightarrow>
                   if r < 0 then (-1, n)
                   else (0, upd_sync (\<lambda>y. y\<lparr>sync_acknowledged_bytes := sync_snapshot_bytes y\<rparr>) n))
         else (0, n))"

definition upstream_completion :: "int \<Rightarrow> node \<Rightarrow> sys \<Rightarrow> (int \<times> node \<times> sys) run" where
  "upstream_completion fd n s =
     (case kvs_rdma_connection_poll_completion (the (conn n)) (nd_lib n) of
        (completed, completion, c, L) \<Rightarrow>
          let n = with_conn (Some c) L n in
          if completed < 0 then Inr (-1, n, s)
          else if completed = 0 then Inr (KVS_STREAM_WAIT, n, s)
          else (case completion of
                  KVS_RDMA_COMPLETION_SEND \<Rightarrow> Inr (KVS_STREAM_WAIT, upd_sync (\<lambda>y. y\<lparr>sync_send_pending := False\<rparr>) n, s)
                | KVS_RDMA_COMPLETION_RECV d \<Rightarrow>
                    if rm_state (mgr n) \<noteq> REPLICATION_FULL_SYNC \<or> d = [] \<or> length d > KVS_REPLICATION_RDMA_BUFFER_CAPACITY \<or>
                       int (length d) > sn_remaining (rm_snapshot_writer (mgr n)) then Inr (-1, n, s)
                    else
                      bindr (kvs_replication_receive_snapshot_data fd d n s) (\<lambda>(written, n, s).
                      if written \<noteq> int (length d) then Inr (-1, n, s)
                      else
                        let n = upd_sync (\<lambda>y. y\<lparr>sync_snapshot_bytes := sync_snapshot_bytes y + written\<rparr>) n in
                        case kvs_rdma_connection_receive_next (the (conn n)) (nd_lib n) of
                          (r, c, L) \<Rightarrow> Inr (if r < 0 then -1 else KVS_STREAM_WAIT, with_conn (Some c) L n, s))))"

definition kvs_replication_upstream_stream :: "int \<Rightarrow> int \<Rightarrow> node \<Rightarrow> sys \<Rightarrow> (int \<times> node \<times> sys) run" where
  "kvs_replication_upstream_stream fd output_capacity n s =
     (if \<not> rm_initialized (mgr n) \<or> rm_role (mgr n) \<noteq> ROLE_REPLICA \<or> fd < 0 \<or> fd \<noteq> rm_primary_connection_fd (mgr n) \<or>
         output_capacity \<le> 0 then Inr (-1, n, s)
      else case conn n of
        None \<Rightarrow> Inr (0, n, s)
      | Some c \<Rightarrow>
          (case upstream_event c n of
             Inl (r, n) \<Rightarrow> Inr (r, n, s)
           | Inr n \<Rightarrow>
               if \<not> sync_established (rm_sync (mgr n)) then Inr (KVS_STREAM_WAIT, n, s)
               else (case upstream_acknowledge n of
                       (r, n) \<Rightarrow>
                         if r < 0 then Inr (-1, n, s)
                         else if replica_synchronised n then Inr (KVS_STREAM_WAIT, n, s)
                         else upstream_completion fd n s)))"

text \<open>The handlers as the runtime calls them; this stream never has bytes of its own to send.\<close>

definition kvs_replication_build_connector_config :: "node \<Rightarrow> node kvs_connector_config_t option" where
  "kvs_replication_build_connector_config n =
     (if \<not> rm_initialized (mgr n) \<or> rm_role (mgr n) \<noteq> ROLE_REPLICA \<or> rm_primary_host (mgr n) = [] \<or> rm_primary_port (mgr n) = 0
      then None
      else Some
        \<lparr>cc_host = Some (rm_primary_host (mgr n)), cc_port = rm_primary_port (mgr n),
         cc_open_handler = Some (\<lambda>fd capacity n s.
           case kvs_replication_on_primary_connected fd capacity n of (len, str, n) \<Rightarrow> (len, str, n, s)),
         cc_message_handler = Some kvs_replication_upstream_network_protocol,
         cc_stream_handler = Some (\<lambda>fd capacity n s.
           bindr (kvs_replication_upstream_stream fd capacity n s) (\<lambda>(r, n, s). Inr (r, [], n, s))),
         cc_close_handler = Some kvs_replication_on_primary_disconnected\<rparr>)"

section \<open>The primary\<close>

definition close_snapshot_reader :: "node \<Rightarrow> sys \<Rightarrow> node \<times> sys" where
  "close_snapshot_reader n s =
     (case kvs_snapshot_reader_close (rm_snapshot_reader (mgr n)) s of
        (rd, s) \<Rightarrow> (upd (\<lambda>m. m\<lparr>rm_snapshot_reader := rd\<rparr>) n, s))"

definition close_aof_reader :: "node \<Rightarrow> sys \<Rightarrow> node \<times> sys" where
  "close_aof_reader n s =
     (case kvs_aof_reader_close (rm_aof_reader (mgr n)) s of
        (rd, s) \<Rightarrow> (upd (\<lambda>m. m\<lparr>rm_aof_reader := rd\<rparr>) n, s))"

definition open_aof_reader :: "int \<Rightarrow> int \<Rightarrow> node \<Rightarrow> sys \<Rightarrow> int \<times> node \<times> sys" where
  "open_aof_reader lo hi n s =
     (case kvs_aof_reader_open (rm_aof_reader (mgr n)) primary_aof_path lo hi (nd_files n) s of
        (r, rd, s) \<Rightarrow> (r, upd (\<lambda>m. m\<lparr>rm_aof_reader := rd\<rparr>) n, s))"

definition kvs_replication_primary_start_catch_up :: "node \<Rightarrow> sys \<Rightarrow> int \<times> node \<times> sys" where
  "kvs_replication_primary_start_catch_up n s =
     (case close_snapshot_reader n s of
        (n, s) \<Rightarrow>
          let catch_up_end = nd_offset n in
          if catch_up_end < rm_replication_offset (mgr n) then (-1, n, s)
          else (case close_aof_reader n s of
                  (n, s) \<Rightarrow>
                    (case open_aof_reader (rm_replication_offset (mgr n)) catch_up_end n s of
                       (r, n, s) \<Rightarrow>
                         if r < 0 then (-1, n, s) else (0, upd (\<lambda>m. m\<lparr>rm_state := REPLICATION_CATCH_UP\<rparr>) n, s))))"

text \<open>The temporary block comes from the C library's \<open>malloc\<close>.\<close>

definition kvs_replication_rdma_send_snapshot_chunk :: "node \<Rightarrow> sys \<Rightarrow> (int \<times> node \<times> sys) run" where
  "kvs_replication_rdma_send_snapshot_chunk n s =
     (if sync_send_pending (rm_sync (mgr n)) then Inr (KVS_STREAM_WAIT, n, s)
      else case os_call s of
        (False, s) \<Rightarrow> Inr (-1, n, s)
      | (True, s) \<Rightarrow>
          bindr (kvs_snapshot_reader_read (rm_snapshot_reader (mgr n)) (int KVS_REPLICATION_RDMA_BUFFER_CAPACITY) (nd_files n) s)
            (\<lambda>(got, chunk, rd, s).
               let n = upd (\<lambda>m. m\<lparr>rm_snapshot_reader := rd\<rparr>) n in
               if got \<le> 0 then Inr (-1, n, s)
               else (case kvs_rdma_connection_send (the (conn n)) chunk (nd_lib n) of
                       (r, c, L) \<Rightarrow>
                         let n = with_conn (Some c) L n in
                         if r < 0 then Inr (-1, n, s)
                         else Inr (KVS_STREAM_WAIT,
                                upd_sync (\<lambda>y. y\<lparr>sync_send_pending := True, sync_snapshot_bytes := sync_snapshot_bytes y + got\<rparr>) n, s))))"

text \<open>The event of the listener: \<open>Inl\<close> when the function returns, \<open>Inr\<close> when it goes on.\<close>

definition primary_event :: "node \<Rightarrow> sys \<Rightarrow> (int \<times> node \<times> sys) + (node \<times> sys)" where
  "primary_event n s =
     (case kvs_rdma_listener_poll (rm_listener (mgr n)) (conn n) KVS_REPLICATION_RDMA_BUFFER_CAPACITY 1 (nd_lib n) of
        (r, c, event, extra, L) \<Rightarrow>
          let n = with_conn c L n; y = rm_sync (mgr n) in
          if r < 0 then
            Inl (-1, (case extra of None \<Rightarrow> n | Some e \<Rightarrow> upd (\<lambda>m. m\<lparr>rm_cleanup_connection := Some e\<rparr>) n), s)
          else if r > 0 \<and> event = KVS_RDMA_EVENT_DISCONNECTED then
            (if \<not> sync_disconnect_pending y \<or> sync_send_pending y \<or> sync_snapshot_bytes y \<noteq> rm_snapshot_file_size (mgr n) \<or>
                sync_acknowledged_bytes y \<noteq> sync_snapshot_bytes y then Inl (-1, n, s)
             else case kvs_replication_rdma_sync_close n of
               (r, n) \<Rightarrow>
                 if r < 0 then Inl (-1, n, s)
                 else (case kvs_replication_primary_start_catch_up n s of
                         (r, n, s) \<Rightarrow> if r < 0 then Inl (-1, n, s) else Inr (n, s)))
          else if r > 0 \<and> event = KVS_RDMA_EVENT_ESTABLISHED then
            Inr (upd_sync (\<lambda>y. y\<lparr>sync_established := True\<rparr>) n, s)
          else Inr (n, s))"

text \<open>A message received from the replica: an acknowledgement, or the first one.\<close>

definition primary_receive :: "bytes \<Rightarrow> node \<Rightarrow> sys \<Rightarrow> (int \<times> node \<times> sys) run" where
  "primary_receive d n s =
     (let y = rm_sync (mgr n);
          advance = (\<lambda>n. case kvs_rdma_connection_receive_next (the (conn n)) (nd_lib n) of (r, c, L) \<Rightarrow> (r, with_conn (Some c) L n))
      in if sync_snapshot_bytes y > 0 then
           (let expected = ack_message (sync_snapshot_bytes y)
            in if length expected \<ge> 64 \<or> sync_acknowledged_bytes y \<ge> sync_snapshot_bytes y \<or> d \<noteq> expected then Inr (-1, n, s)
               else case advance n of
                 (r, n) \<Rightarrow>
                   if r < 0 then Inr (-1, n, s)
                   else Inr (KVS_STREAM_WAIT, upd_sync (\<lambda>y. y\<lparr>sync_acknowledged_bytes := sync_snapshot_bytes y\<rparr>) n, s))
         else
           (let expected = ready_message (rm_full_sync_id (mgr n))
            in if sync_snapshot_bytes y \<noteq> 0 \<or> length expected \<ge> 64 \<or> d \<noteq> expected then Inr (-1, n, s)
               else case advance n of
                 (r, n) \<Rightarrow> if r < 0 then Inr (-1, n, s) else kvs_replication_rdma_send_snapshot_chunk n s))"

text \<open>The primary's side of the full synchronisation after the event was handled.\<close>

definition primary_transfer :: "node \<Rightarrow> sys \<Rightarrow> (int \<times> node \<times> sys) run" where
  "primary_transfer n s =
     (let y = rm_sync (mgr n)
      in if sync_disconnect_pending y then Inr (KVS_STREAM_WAIT, n, s)
         else if \<not> sync_established y then Inr (KVS_STREAM_WAIT, n, s)
         else if \<not> sync_send_pending y \<and> sync_snapshot_bytes y > 0 \<and> sync_acknowledged_bytes y = sync_snapshot_bytes y \<and>
                 sr_fd (rm_snapshot_reader (mgr n)) \<noteq> None then
           (if sr_remaining (rm_snapshot_reader (mgr n)) > 0 then kvs_replication_rdma_send_snapshot_chunk n s
            else case kvs_rdma_connection_disconnect (the (sync_connection y)) (nd_lib n) of
              (r, L) \<Rightarrow>
                let n = n\<lparr>nd_lib := L\<rparr> in
                if r < 0 then Inr (-1, n, s)
                else (case close_snapshot_reader (upd_sync (\<lambda>y. y\<lparr>sync_disconnect_pending := True\<rparr>) n) s of
                        (n, s) \<Rightarrow> Inr (KVS_STREAM_WAIT, n, s)))
         else case kvs_rdma_connection_poll_completion (the (sync_connection y)) (nd_lib n) of
           (completed, completion, c, L) \<Rightarrow>
             let n = with_conn (Some c) L n in
             if completed < 0 then Inr (-1, n, s)
             else if completed = 0 then Inr (KVS_STREAM_WAIT, n, s)
             else (case completion of
                     KVS_RDMA_COMPLETION_SEND \<Rightarrow> Inr (KVS_STREAM_WAIT, upd_sync (\<lambda>y. y\<lparr>sync_send_pending := False\<rparr>) n, s)
                   | KVS_RDMA_COMPLETION_RECV d \<Rightarrow> primary_receive d n s))"

text \<open>
  The loop over the open reader of the append-only file.  When a range is exhausted and the
  file has grown, the next range is opened and read in the next iteration; two iterations
  are always enough, and the third would be reported.
\<close>

fun stream_aof_loop :: "nat \<Rightarrow> int \<Rightarrow> node \<Rightarrow> sys \<Rightarrow> (int \<times> bytes \<times> node \<times> sys) run" where
  "stream_aof_loop 0 capacity n s = Inl Diverges"
| "stream_aof_loop (Suc fuel) capacity n s =
     bindr (kvs_aof_reader_read (rm_aof_reader (mgr n)) capacity (nd_files n) s) (\<lambda>(result, out, rd, s).
     let n = upd (\<lambda>m. m\<lparr>rm_aof_reader := rd\<rparr>) n in
     if result < 0 then (case close_aof_reader n s of (n, s) \<Rightarrow> Inr (-1, [], n, s))
     else if result > 0 then Inr (result, out, n, s)
     else
       let sent_offset = ar_offset (rm_aof_reader (mgr n)) in
       (case close_aof_reader n s of
          (n, s) \<Rightarrow>
            let latest_offset = nd_offset n in
            if latest_offset < sent_offset then Inr (-1, [], n, s)
            else if latest_offset > sent_offset then
              (case open_aof_reader sent_offset latest_offset n s of
                 (r, n, s) \<Rightarrow> if r < 0 then Inr (-1, [], n, s) else stream_aof_loop fuel capacity n s)
            else
              let n = upd (\<lambda>m. m\<lparr>rm_replication_offset := sent_offset\<rparr>) n in
              if rm_state (mgr n) = REPLICATION_ONLINE then Inr (KVS_STREAM_WAIT, [], n, s)
              else
                let str = ''ONLINE '' @ int_text sent_offset @ CRLF; len = print_text str capacity in
                if len < 0 then Inr (-1, [], n, s)
                else Inr (len, str,
                       upd (\<lambda>m. m\<lparr>rm_replication_offset := sent_offset, rm_state := REPLICATION_ONLINE\<rparr>) n, s)))"

text \<open>Online and nothing being read: has the append-only file grown?\<close>

definition stream_online :: "int \<Rightarrow> node \<Rightarrow> sys \<Rightarrow> (int \<times> bytes \<times> node \<times> sys) run" where
  "stream_online capacity n s =
     (let latest_offset = nd_offset n
      in if latest_offset < rm_replication_offset (mgr n) then Inr (-1, [], n, s)
         else if latest_offset = rm_replication_offset (mgr n) then Inr (KVS_STREAM_WAIT, [], n, s)
         else case open_aof_reader (rm_replication_offset (mgr n)) latest_offset n s of
           (r, n, s) \<Rightarrow>
             if r < 0 then Inr (-1, [], n, s)
             else
               bindr (kvs_aof_reader_read (rm_aof_reader (mgr n)) capacity (nd_files n) s) (\<lambda>(result, out, rd, s).
               let n = upd (\<lambda>m. m\<lparr>rm_aof_reader := rd\<rparr>) n in
               if result \<le> 0 then (case close_aof_reader n s of (n, s) \<Rightarrow> Inr (-1, [], n, s))
               else Inr (result, out, n, s)))"

definition kvs_replication_stream :: "int \<Rightarrow> int \<Rightarrow> node \<Rightarrow> sys \<Rightarrow> (int \<times> bytes \<times> node \<times> sys) run" where
  "kvs_replication_stream fd capacity n s =
     (if \<not> rm_initialized (mgr n) \<or> rm_role (mgr n) \<noteq> ROLE_PRIMARY \<or> fd < 0 \<or> capacity \<le> 0 then Inr (-1, [], n, s)
      else if rm_snapshot_connection_fd (mgr n) < 0 then Inr (0, [], n, s)
      else if fd \<noteq> rm_snapshot_connection_fd (mgr n) then Inr (0, [], n, s)
      else
        let catch_up = (\<lambda>n s.
              if ar_fd (rm_aof_reader (mgr n)) \<noteq> None then stream_aof_loop 3 capacity n s
              else if rm_state (mgr n) = REPLICATION_ONLINE then stream_online capacity n s
              else Inr (0, [], n, s))
        in if rm_state (mgr n) = REPLICATION_FULL_SYNC then
             (if rm_cleanup_connection (mgr n) \<noteq> None then Inr (-1, [], n, s)
              else case primary_event n s of
                Inl (r, n, s) \<Rightarrow> Inr (r, [], n, s)
              | Inr (n, s) \<Rightarrow>
                  if rm_state (mgr n) = REPLICATION_FULL_SYNC
                  then bindr (primary_transfer n s) (\<lambda>(r, n, s). Inr (r, [], n, s))
                  else catch_up n s)
           else catch_up n s)"

section \<open>Identifiers, the primary's control lines, start and end\<close>

text \<open>
  \<open>getrandom\<close> may deliver fewer bytes than asked for; the bytes themselves come from the
  same source of random numbers as \<open>rand\<close>.
\<close>

fun random_bytes :: "nat \<Rightarrow> sys \<Rightarrow> nat list \<times> sys" where
  "random_bytes 0 s = ([], s)"
| "random_bytes (Suc k) s =
     (case c_rand s of (v, s) \<Rightarrow> (case random_bytes k s of (bs, s) \<Rightarrow> (nat (v mod 256) # bs, s)))"

fun getrandom_loop :: "nat \<Rightarrow> nat \<Rightarrow> sys \<Rightarrow> (nat list option \<times> sys) run" where
  "getrandom_loop 0 missing s = (if missing = 0 then Inr (Some [], s) else Inl Diverges)"
| "getrandom_loop (Suc fuel) missing s =
     (if missing = 0 then Inr (Some [], s)
      else case os_int s of
        (r, s) \<Rightarrow>
          if r > 0 then
            (case random_bytes (min (nat r) missing) s of
               (bs, s) \<Rightarrow>
                 bindr (getrandom_loop fuel (missing - min (nat r) missing) s) (\<lambda>(rest, s).
                 Inr (case rest of None \<Rightarrow> None | Some cs \<Rightarrow> Some (bs @ cs), s)))
          else if r = - EINTR then getrandom_loop fuel missing s
          else Inr (None, s))"

definition hex_digits :: bytes where
  "hex_digits = ''0123456789abcdef''"

definition hex_text :: "nat list \<Rightarrow> bytes" where
  "hex_text bs = concat (map (\<lambda>b. [hex_digits ! (b div 16), hex_digits ! (b mod 16)]) bs)"

definition kvs_replication_generate_id :: "sys \<Rightarrow> (bytes option \<times> sys) run" where
  "kvs_replication_generate_id s =
     bindr (getrandom_loop (s_patience s) (KVS_REPLICATION_ID_HEX_LENGTH div 2) s) (\<lambda>(bs, s).
     Inr (case bs of None \<Rightarrow> None | Some bs \<Rightarrow> Some (hex_text bs), s))"

definition full_resync_line :: "full_resync \<Rightarrow> bytes" where
  "full_resync_line fr =
     ''FULLRESYNC_RDMA '' @ fr_id fr @ '' '' @ int_text (fr_offset fr) @ '' '' @ int_text (fr_size fr) @ '' '' @
     decimal (fr_port fr) @ '' '' @ fr_sync_id fr"

text \<open>The part of \<open>PSYNC\<close> after its checks: the snapshot, the reader on it, the identifier.\<close>

definition psync_prepare :: "int \<Rightarrow> node \<Rightarrow> sys \<Rightarrow> (bool \<times> node \<times> sys) run" where
  "psync_prepare fd n s =
     (let offset = nd_offset n; sv = nd_server n
      in if offset < 0 then Inr (False, n, s)
         else
           bindr (kvs_snapshot_store_save_with_checkpoint (sv_suffix sv) (sv_engines sv) primary_snapshot_path
                    (Some \<lparr>has_offset = 1, ck_offset = offset\<rparr>) (sv_files sv) s) (\<lambda>(r, fs, s).
           let n = with_files fs n in
           if r < 0 then Inr (False, n, s)
           else case (os_call s, fs primary_snapshot_path) of
             ((True, s), Some f) \<Rightarrow>
               if f = [] then Inr (False, n, s)
               else (case close_snapshot_reader n s of
                       (n, s) \<Rightarrow>
                         (case close_aof_reader n s of
                            (n, s) \<Rightarrow>
                              (case kvs_snapshot_reader_open (rm_snapshot_reader (mgr n)) primary_snapshot_path (int (length f)) (nd_files n) s of
                                 (r, rd, s) \<Rightarrow>
                                   let n = upd (\<lambda>m. m\<lparr>rm_snapshot_reader := rd\<rparr>) n in
                                   if r < 0 then Inr (False, n, s)
                                   else
                                     bindr (kvs_replication_generate_id s) (\<lambda>(generated, s).
                                     case generated of
                                       None \<Rightarrow> Inr (False, n, s)
                                     | Some sync_id \<Rightarrow>
                                         Inr (True,
                                           upd (\<lambda>m. m\<lparr>rm_full_sync_id := sync_id, rm_replication_offset := offset,
                                             rm_snapshot_file_size := int (length f), rm_snapshot_connection_fd := fd,
                                             rm_state := REPLICATION_FULL_SYNC\<rparr>) n, s)))))
           | ((_, s), _) \<Rightarrow> Inr (False, n, s)))"

definition kvs_replication_frame_protocol :: "(node \<times> sys) kvs_frame_handler" where
  "kvs_replication_frame_protocol fd frame capacity st =
     (let (n, s) = st;
          reply = (\<lambda>str st. let len = print_text str capacity in Inr (len, if len < 0 then [] else str, st))
      in if fd < 0 \<or> frame = [] \<or> capacity \<le> 0 then Inr (-1, [], st)
         else if frame = ''PING'' then reply (''PONG'' @ CRLF) st
         else if frame = ''PSYNC ? -1'' then
           (if \<not> rm_initialized (mgr n) \<or> rm_role (mgr n) \<noteq> ROLE_PRIMARY \<or> rm_replication_id (mgr n) = [] then Inr (-1, [], st)
            else if rm_snapshot_connection_fd (mgr n) \<ge> 0 \<or> conn n \<noteq> None \<or> rm_cleanup_connection (mgr n) \<noteq> None then Inr (-1, [], st)
            else
              bindr (psync_prepare fd n s) (\<lambda>(ok, n, s).
              if \<not> ok then Inr (-1, [], (n, s))
              else
                reply (full_resync_line \<lparr>fr_id = rm_replication_id (mgr n), fr_offset = rm_replication_offset (mgr n),
                  fr_size = rm_snapshot_file_size (mgr n), fr_port = rm_rdma_port (mgr n), fr_sync_id = rm_full_sync_id (mgr n)\<rparr> @ CRLF) (n, s)))
         else reply (''ERROR unknown replication command'' @ CRLF) st)"

definition kvs_replication_network_protocol ::
    "int \<Rightarrow> bytes \<Rightarrow> kvs_output_buffer_t \<Rightarrow> node \<Rightarrow> sys \<Rightarrow> (int \<times> int \<times> kvs_output_buffer_t \<times> node \<times> sys) run" where
  "kvs_replication_network_protocol fd msg response n s =
     (case out_data response of
        None \<Rightarrow> Inr (-1, 0, response, n, s)
      | Some region \<Rightarrow>
          if out_capacity response \<le> 0 then Inr (-1, 0, response, n, s)
          else
            bindr (kvs_line_batch_protocol fd msg (out_capacity response) kvs_replication_frame_protocol (n, s))
              (\<lambda>(r, consumed, _, str, (n, s)).
                 bindr (store_at region 0 str) (\<lambda>region.
                 Inr (r, int consumed, response\<lparr>out_data := Some region\<rparr>, n, s))))"

definition kvs_replication_init :: "kvs_role_t \<Rightarrow> bytes option \<Rightarrow> nat \<Rightarrow> bool \<Rightarrow> bool \<Rightarrow> node \<Rightarrow> sys \<Rightarrow> (int \<times> node \<times> sys) run" where
  "kvs_replication_init role primary_host primary_port install_handler command_handler n s =
     (if \<not> command_handler \<or> rm_initialized (mgr n) then Inr (-1, n, s)
      else if role = ROLE_REPLICA \<and> (primary_host = None \<or> the primary_host = [] \<or> primary_port = 0 \<or>
                length (the primary_host) \<ge> KVS_REPLICATION_HOST_MAX_LENGTH) then Inr (-1, n, s)
      else
        let offset = nd_offset n in
        if offset < 0 then Inr (-1, n, s)
        else
          bindr (if role = ROLE_PRIMARY then kvs_replication_generate_id s else Inr (Some [], s)) (\<lambda>(generated, s).
          case generated of
            None \<Rightarrow> Inr (-1, n, s)
          | Some new_id \<Rightarrow>
              Inr (0, upd (\<lambda>m. m\<lparr>rm_role := role, rm_replication_offset := offset, rm_install_handler := install_handler,
                rm_command_handler := command_handler, rm_snapshot_file_size := -1, rm_snapshot_connection_fd := -1,
                rm_snapshot_reader := snapshot_reader_idle, rm_aof_reader := reader_closed, rm_replication_id := new_id,
                rm_primary_connection_fd := -1, rm_state := REPLICATION_DISCONNECTED,
                rm_primary_host := (if role = ROLE_REPLICA then the primary_host else []),
                rm_primary_port := (if role = ROLE_REPLICA then primary_port else 0), rm_initialized := True\<rparr>) n, s)))"

definition kvs_replication_on_replica_disconnected :: "int \<Rightarrow> node \<Rightarrow> sys \<Rightarrow> node \<times> sys" where
  "kvs_replication_on_replica_disconnected fd n s =
     (if \<not> rm_initialized (mgr n) \<or> rm_role (mgr n) \<noteq> ROLE_PRIMARY \<or> fd < 0 \<or> rm_snapshot_connection_fd (mgr n) \<noteq> fd then (n, s)
      else case kvs_replication_rdma_sync_close n of
        (r, n) \<Rightarrow>
          (case close_snapshot_reader (upd (\<lambda>m. m\<lparr>rm_full_sync_id := []\<rparr>) n) s of
             (n, s) \<Rightarrow>
               (case close_aof_reader n s of
                  (n, s) \<Rightarrow>
                    (upd (\<lambda>m. m\<lparr>rm_snapshot_connection_fd := -1, rm_snapshot_file_size := -1,
                             rm_state := REPLICATION_DISCONNECTED\<rparr>) n, s))))"

definition kvs_replication_destroy :: "node \<Rightarrow> sys \<Rightarrow> node \<times> sys" where
  "kvs_replication_destroy n s =
     (if \<not> rm_initialized (mgr n) then (n, s)
      else case kvs_rdma_connection_close (rm_cleanup_connection (mgr n)) (nd_lib n) of
        (r, c, L) \<Rightarrow>
          let n = (upd (\<lambda>m. m\<lparr>rm_cleanup_connection := c\<rparr>) n)\<lparr>nd_lib := L\<rparr> in
          if r < 0 then (n, s)
          else case kvs_replication_rdma_sync_close n of
            (r, n) \<Rightarrow>
              if r < 0 then (n, s)
              else case kvs_rdma_listener_close (rm_listener (mgr n)) (nd_lib n) of
                (r, l, L) \<Rightarrow>
                  let n = (upd (\<lambda>m. m\<lparr>rm_listener := l\<rparr>) n)\<lparr>nd_lib := L\<rparr> in
                  if r < 0 then (n, s)
                  else case close_snapshot_reader n s of
                    (n, s) \<Rightarrow>
                      (case close_aof_reader n s of
                         (n, s) \<Rightarrow>
                           (case kvs_snapshot_writer_abort (rm_snapshot_writer (mgr n)) replica_temp_path (nd_files n) s of
                              (w, fs, s) \<Rightarrow>
                                (upd (\<lambda>m. m\<lparr>rm_rdma_port := 0, rm_role := ROLE_STANDALONE, rm_replication_offset := 0,
                                   rm_snapshot_writer := w, rm_snapshot_connection_fd := -1, rm_snapshot_file_size := -1,
                                   rm_replication_id := [], rm_primary_host := [], rm_primary_port := 0,
                                   rm_primary_connection_fd := -1, rm_state := REPLICATION_DISCONNECTED,
                                   rm_initialized := False\<rparr>) (with_files fs n), s))))"

definition kvs_replication_start_rdma_listener :: "(bytes \<Rightarrow> bool) \<Rightarrow> bytes option \<Rightarrow> nat \<Rightarrow> node \<Rightarrow> int \<times> node" where
  "kvs_replication_start_rdma_listener inet_pton bind_ip port n =
     (case bind_ip of
        None \<Rightarrow> (-1, n)
      | Some ip \<Rightarrow>
          if \<not> rm_initialized (mgr n) \<or> rm_role (mgr n) \<noteq> ROLE_PRIMARY \<or> port = 0 then (-1, n)
          else if rm_listener (mgr n) \<noteq> None then (-1, n)
          else case kvs_rdma_listener_create (nd_lib n) of
            (None, L) \<Rightarrow> (-1, n\<lparr>nd_lib := L\<rparr>)
          | (Some l, L) \<Rightarrow>
              (case kvs_rdma_listener_start inet_pton l ip port 1 L of
                 (r, l, L) \<Rightarrow>
                   let n = (upd (\<lambda>m. m\<lparr>rm_listener := Some l\<rparr>) n)\<lparr>nd_lib := L\<rparr> in
                   if r < 0 then (-1, n) else (0, upd (\<lambda>m. m\<lparr>rm_rdma_port := port\<rparr>) n)))"

end
