(* ===== verification/Samples.thy ===== *)
theory Samples
  imports Store_State Aof
begin

text \<open>Concrete surroundings for the witnesses: a machine that never refuses, engines just created on it, an idle ring.\<close>

text \<open>A machine where every request succeeds and every random number is 0.\<close>

definition calm :: sys where
  "calm = \<lparr>s_alloc = (\<lambda>_ _. True), s_fill = (\<lambda>_ _. NUL), s_rand = (\<lambda>_. 0), s_oscall = (\<lambda>_. True),
     s_kern = (\<lambda>_. 1), s_patience = 1000, s_nalloc = 0, s_nrand = 0, s_nos = 0, s_nkern = 0, s_live = 0\<rparr>"

lemma plenty_calm [simp]: "plenty calm"
  by (simp add: plenty_def calm_def)

lemma array_created_calm: "\<exists>inst s. kvs_array_create array_cleared calm = (0, inst, s)"
  using array_create_law [of array_cleared calm] by (auto simp: array_cleared_def)

lemma hash_created_calm: "\<exists>hash s. kvs_hash_create hash_cleared calm = (0, hash, s)"
  using hash_create_law [of hash_cleared calm] by auto

lemma skiplist_created_calm: "\<exists>sk s. kvs_skiplist_create skiplist_cleared calm = (0, sk, s)"
  using skiplist_create_law [of skiplist_cleared calm] by (auto simp: skiplist_cleared_def)

lemma rbtree_created_calm: "\<exists>T s. kvs_rbtree_create rbtree_cleared calm = (0, T, s)"
  using rbtree_create_law [of rbtree_cleared calm] by auto

lemma engines_created_calm:
  "\<exists>g s. init_kvengine \<lparr>global_array = array_cleared, global_rbtree = rbtree_cleared, global_hash = hash_cleared,
      global_skiplist = skiplist_cleared\<rparr> calm = Inr (0, g, s) \<and> engines_inv g \<and> engines_empty g"
  using init_kvengine_law [of "\<lparr>global_array = array_cleared, global_rbtree = rbtree_cleared, global_hash = hash_cleared,
      global_skiplist = skiplist_cleared\<rparr>" calm]
  by (auto simp: engines_fresh_def skiplist_cleared_def)

definition idle_ring :: kvs_uring_io_t where
  "idle_ring = io_cleared\<lparr>io_initialized := True\<rparr>"

definition two_blocks :: "kvs_uring_write_t list" where
  "two_blocks = [\<lparr>uw_data = ''xyz'', uw_offset = 1\<rparr>, \<lparr>uw_data = ''uvw'', uw_offset = 7\<rparr>]"

lemma idle_ring: "idle idle_ring"
  by (simp add: idle_ring_def idle_def io_cleared_def)

lemma two_blocks_run: "\<exists>io' f' s'. kvs_uring_io_write_batch idle_ring False two_blocks ''abcdef'' calm = Inr (0, io', f', s')"
  using write_batch_returns [OF idle_ring, of two_blocks calm]
  by (fastforce simp: two_blocks_def calm_def KVS_URING_QUEUE_DEPTH_def uw_overlap_def uw_end_def OFF_MAX_def progressing_def)

end
