(* ===== verification/Command_Laws.thy ===== *)
theory Command_Laws
  imports Commands
begin

text \<open>
  What the command layer does to the data.  The four engines are seen as four finite maps;
  a write command that is answered with success has changed exactly the map of its engine,
  and one that fails has changed nothing.  The locale states what the big switch of
  \<open>kvs_filter_protocol\<close> has in common for the four engines and is interpreted on each of
  them.
\<close>

section \<open>The store as four maps\<close>

text \<open>Engine number \<open>e\<close> serves the commands \<open>5 * e\<close> to \<open>5 * e + 4\<close>.\<close>

type_synonym store = "nat \<Rightarrow> bytes \<rightharpoonup> bytes"

definition store_of :: "engines \<Rightarrow> store" where
  "store_of g e = (if e = 0 then array_map (global_array g) else if e = 1 then rbtree_map (global_rbtree g)
     else if e = 2 then hash_map (global_hash g) else if e = 3 then skiplist_map (global_skiplist g) else Map.empty)"

definition engine_fits :: "nat \<Rightarrow> (bytes \<rightharpoonup> bytes) \<Rightarrow> bool" where
  "engine_fits e m \<longleftrightarrow> e = 0 \<longrightarrow> card (dom m) \<le> KVS_ARRAY_SIZE"

definition engine_key_ok :: "nat \<Rightarrow> bytes \<Rightarrow> bool" where
  "engine_key_ok e k \<longleftrightarrow> e = 2 \<longrightarrow> hash_ok k"

section \<open>Commands as operations\<close>

fun op_code :: "engine_op \<Rightarrow> nat" where
  "op_code (Op_set k v) = 0"
| "op_code (Op_del k) = 2"
| "op_code (Op_mod k v) = 3"

fun op_value :: "engine_op \<Rightarrow> bytes option" where
  "op_value (Op_set k v) = Some v"
| "op_value (Op_del k) = None"
| "op_value (Op_mod k v) = Some v"

fun op_text :: "engine_op \<Rightarrow> int \<Rightarrow> bytes" where
  "op_text (Op_set k v) r = set_text r"
| "op_text (Op_del k) r = change_text r"
| "op_text (Op_mod k v) r = change_text r"

text \<open>When an operation can succeed: a new key needs a free place, a change needs the key.\<close>

fun op_enabled :: "((bytes \<rightharpoonup> bytes) \<Rightarrow> bool) \<Rightarrow> engine_op \<Rightarrow> (bytes \<rightharpoonup> bytes) \<Rightarrow> bool" where
  "op_enabled fits (Op_set k v) m \<longleftrightarrow> fits (m(k \<mapsto> v))"
| "op_enabled fits (Op_mod k v) m \<longleftrightarrow> m k \<noteq> None"
| "op_enabled fits (Op_del k) m \<longleftrightarrow> m k \<noteq> None"

lemma op_text_short: "op_text x r \<noteq> []" "length (op_text x r) \<le> 10"
  by (cases x; simp add: set_text_def change_text_def)+

text \<open>
  One engine behind the command table: where it is kept among the four, that no more than
  \<open>engine_fits\<close> allows is stored, and which cases of the switch are its own.
\<close>

locale command_engine = kv_engine inv "engine_key_ok num" amap owned room entries eset emod edel eget eexist eforeach
  for num :: nat
    and inv :: "'e \<Rightarrow> bool"
    and amap owned room entries eset emod edel eget eexist
    and eforeach :: "'e \<Rightarrow> (bytes \<Rightarrow> bytes \<Rightarrow> 'c \<Rightarrow> (int \<times> 'c) run) \<Rightarrow> 'c \<Rightarrow> (int \<times> 'c) run" +
  fixes part :: "engines \<Rightarrow> 'e"
    and put :: "'e \<Rightarrow> engines \<Rightarrow> engines"
  assumes part_inv: "engines_inv g \<Longrightarrow> inv (part g)"
    and put_inv: "engines_inv g \<Longrightarrow> inv e \<Longrightarrow> engines_inv (put e g)"
    and put_owned: "engines_owned (put e g) = engines_owned g - owned (part g) + owned e"
    and part_contents: "store_of g num = amap (part g)"
    and put_contents: "store_of (put e g) = (store_of g)(num := amap e)"
    and fits_law: "inv e \<Longrightarrow> engine_fits num (amap e)"
    and room_law: "inv e \<Longrightarrow> engine_fits num ((amap e)(k \<mapsto> v)) \<Longrightarrow> amap e k \<noteq> None \<or> room e"
    and exec_write: "exec_engine (5 * num + op_code x) (Some (op_key x)) (op_value x) g s =
      bindr (run_op eset emod edel x (part g) s) (\<lambda>(r, e, s). Inr (r, op_text x r, put e g, s))"
    and exec_exist: "exec_engine (5 * num + 4) (Some k) val g s =
      bindr (eexist (part g) (Some k)) (\<lambda>r. Inr (r, exist_text r, g, s))"
    and exec_get: "kvs_get_value (5 * num + 1) (Some k) g = eget (part g) (Some k)"
begin

lemma op_law:
  assumes "inv e" "engine_key_ok num (op_key x)"
  obtains r e' s' where "run_op eset emod edel x e s = Inr (r, e', s')" "inv e'" "balanced owned e s e' s'"
    "amap e' = (if r = 0 then apply_op x (amap e) else amap e)"
    "r = 0 \<longrightarrow> op_enabled (engine_fits num) x (amap e)" "plenty s \<and> op_enabled (engine_fits num) x (amap e) \<longrightarrow> r = 0"
proof (cases x)
  case (Op_set k v)
  then obtain r e' s' where *: "eset e (Some k) (Some v) s = Inr (r, e', s')" "inv e'" "balanced owned e s e' s'"
      "r = 0 \<and> amap e' = (amap e)(k \<mapsto> v) \<or> r < 0 \<and> e' = e"
      "plenty s \<and> (amap e k \<noteq> None \<or> room e) \<longrightarrow> r = 0"
    using eset_law [OF assms(1), of k v s] assms(2) by auto
  show thesis
  proof (rule that [of r e' s'])
    show "r = 0 \<longrightarrow> op_enabled (engine_fits num) x (amap e)"
      using * fits_law [OF *(2)] Op_set by auto
    show "plenty s \<and> op_enabled (engine_fits num) x (amap e) \<longrightarrow> r = 0"
      using * room_law [OF assms(1)] Op_set by auto
  qed (use * Op_set in auto)
next
  case (Op_mod k v)
  then show thesis
    using emod_law [OF assms(1), of k v s] assms(2) that by auto
next
  case (Op_del k)
  then show thesis
    using edel_law [OF assms(1), of k s] assms(2) that by auto
qed

lemma write_law:
  assumes "engines_inv g" "engine_key_ok num (op_key x)"
  shows "\<exists>r g' s'. exec_engine (5 * num + op_code x) (Some (op_key x)) (op_value x) g s = Inr (r, op_text x r, g', s') \<and>
    engines_inv g' \<and> balanced engines_owned g s g' s' \<and>
    store_of g' = (if r = 0 then (store_of g)(num := apply_op x (store_of g num)) else store_of g) \<and>
    (r = 0 \<longrightarrow> op_enabled (engine_fits num) x (store_of g num)) \<and>
    (plenty s \<and> op_enabled (engine_fits num) x (store_of g num) \<longrightarrow> r = 0)"
proof (rule op_law [OF part_inv [OF assms(1)] assms(2), of s])
  fix r e s'
  assume "run_op eset emod edel x (part g) s = Inr (r, e, s')" "inv e" "balanced owned (part g) s e s'"
    "amap e = (if r = 0 then apply_op x (amap (part g)) else amap (part g))"
    "r = 0 \<longrightarrow> op_enabled (engine_fits num) x (amap (part g))" "plenty s \<and> op_enabled (engine_fits num) x (amap (part g)) \<longrightarrow> r = 0"
  then show ?thesis
    by (intro exI [of _ r] exI [of _ "put e g"] exI [of _ s'])
       (auto simp: exec_write put_inv [OF assms(1)] put_contents part_contents balanced_def put_owned fun_eq_iff)
qed

lemma read_law:
  assumes "engines_inv g" "engine_key_ok num k"
  shows "kvs_get_value (5 * num + 1) (Some k) g = Inr (store_of g num k)"
    and "exec_engine (5 * num + 4) (Some k) val g s =
      (let r = if store_of g num k = None then 1 else 0 in Inr (r, exist_text r, g, s))"
  using part_inv [OF assms(1)] assms(2) exec_get [of k g] exec_exist [of k val g s]
  by (simp_all add: eget_law eexist_law Let_def part_contents)

end

lemma run_op_cases:
  "bindr (run_op eset emod edel x e s) f =
     (case x of Op_set k v \<Rightarrow> bindr (eset e (Some k) (Some v) s) f
      | Op_mod k v \<Rightarrow> bindr (emod e (Some k) (Some v) s) f
      | Op_del k \<Rightarrow> bindr (edel e (Some k) s) f)"
  by (cases x) simp_all

lemma array_dom_card: "array_inv a \<Longrightarrow> card (dom (array_map a)) = tot a"
  by (simp add: array_inv_def array_map_def array_rep_def dom_map_of_conv_image_fst distinct_card flip: set_map)

lemma array_tot_le: "array_inv a \<Longrightarrow> tot a \<le> KVS_ARRAY_SIZE"
  by (auto simp: array_inv_def array_rep_def)

lemma array_has_room:
  assumes "array_inv a" "card (dom ((array_map a)(k \<mapsto> v))) \<le> KVS_ARRAY_SIZE" "array_map a k = None"
  shows "array_room a"
proof -
  have "k \<notin> dom (array_map a)" "finite (dom (array_map a))"
    using assms(3) by (auto simp: array_map_def finite_dom_map_of)
  then show ?thesis
    using assms(2) array_dom_card [OF assms(1)] by (simp add: card_insert_if array_room_def)
qed

lemmas engine_parts = engines_inv_def engines_owned_def store_of_def engine_fits_def engine_key_ok_def fun_eq_iff
  exec_engine_def kvs_get_value_def run_op_cases

lemma engine_key_ok_simps [simp]:
  "e \<noteq> 2 \<Longrightarrow> engine_key_ok e = (\<lambda>_. True)" "engine_key_ok 2 = hash_ok"
  by (simp_all add: engine_key_ok_def fun_eq_iff)

interpretation array_cmd: command_engine 0 array_inv array_map array_owned array_room array_entries
  kvs_array_set kvs_array_mod kvs_array_del kvs_array_get kvs_array_exist kvs_array_foreach
  global_array "\<lambda>x g. g\<lparr>global_array := x\<rparr>"
  by (rule command_engine.intro, simp, rule array.kv_engine_axioms, unfold_locales)
     (auto simp: engine_parts exec_array_def array_dom_card array_tot_le intro: array_has_room split: engine_op.split)

interpretation rbtree_cmd: command_engine 1 rbtree_inv rbtree_map rbtree_owned "\<lambda>_. True" rbtree_entries
  kvs_rbtree_set kvs_rbtree_mod kvs_rbtree_del kvs_rbtree_get kvs_rbtree_exist kvs_rbtree_foreach
  global_rbtree "\<lambda>x g. g\<lparr>global_rbtree := x\<rparr>"
  by (rule command_engine.intro, simp, rule rbtree.kv_engine_axioms, unfold_locales)
     (auto simp: engine_parts exec_rbtree_def split: engine_op.split)

interpretation hash_cmd: command_engine 2 hash_inv hash_map hash_owned "\<lambda>_. True" hash_entries
  kvs_hash_set kvs_hash_mod kvs_hash_del kvs_hash_get kvs_hash_exist kvs_hash_foreach
  global_hash "\<lambda>x g. g\<lparr>global_hash := x\<rparr>"
  by (rule command_engine.intro, simp, rule hash.kv_engine_axioms, unfold_locales)
     (auto simp: engine_parts exec_hash_def split: engine_op.split)

interpretation skip_cmd: command_engine 3 skiplist_inv skiplist_map skiplist_owned "\<lambda>_. True" skiplist_entries
  kvs_skiplist_set kvs_skiplist_mod kvs_skiplist_del kvs_skiplist_get kvs_skiplist_exist kvs_skiplist_foreach
  global_skiplist "\<lambda>x g. g\<lparr>global_skiplist := x\<rparr>"
  by (rule command_engine.intro, simp, rule skip.kv_engine_axioms, unfold_locales)
     (auto simp: engine_parts exec_skiplist_def split: engine_op.split)

section \<open>The executor\<close>

text \<open>The engine and the operation a write command stands for.\<close>

definition op_of :: "bytes list \<Rightarrow> (nat \<times> engine_op) option" where
  "op_of c =
     (case c of
        [name, k] \<Rightarrow>
          let i = command_index name in if i < KVS_CMD_COUNT \<and> i mod 5 = 2 then Some (i div 5, Op_del k) else None
      | [name, k, v] \<Rightarrow>
          let i = command_index name in
          if i < KVS_CMD_COUNT \<and> i mod 5 = 0 then Some (i div 5, Op_set k v)
          else if i < KVS_CMD_COUNT \<and> i mod 5 = 3 then Some (i div 5, Op_mod k v)
          else None
      | _ \<Rightarrow> None)"

definition enabled :: "bytes list \<Rightarrow> store \<Rightarrow> bool" where
  "enabled c st = (case op_of c of None \<Rightarrow> False | Some (e, x) \<Rightarrow> op_enabled (engine_fits e) x (st e))"

definition effect :: "bytes list \<Rightarrow> store \<Rightarrow> store" where
  "effect c st = (case op_of c of None \<Rightarrow> st | Some (e, x) \<Rightarrow> st(e := apply_op x (st e)))"

definition keys_ok :: "bytes list \<Rightarrow> bool" where
  "keys_ok c = (case op_of c of None \<Rightarrow> True | Some (e, x) \<Rightarrow> engine_key_ok e (op_key x))"

lemma op_of_command:
  assumes "op_of c = Some (e, x)"
  shows "command_index (hd c) = 5 * e + op_code x" "e < 4" "token c 1 = Some (op_key x)" "token c 2 = op_value x" "c \<noteq> []"
    "length c = expected_fields (5 * e + op_code x)" "length c = 2 \<or> length c = 3"
proof -
  have i: "i mod 5 = r \<Longrightarrow> i = 5 * (i div 5) + r" for i r :: nat
    by presburger
  show "command_index (hd c) = 5 * e + op_code x"
    using assms by (auto simp: op_of_def Let_def split: list.splits if_splits dest: i)
qed (use assms in \<open>auto simp: op_of_def Let_def token_def KVS_CMD_COUNT_def expected_fields_def split: list.splits if_splits\<close>)

text \<open>The switch on a write command, for all four engines.\<close>

lemma exec_write_law:
  assumes inv: "engines_inv g" and c: "op_of c = Some (e, x)" "keys_ok c"
  obtains r g' s' where "exec_engine (5 * e + op_code x) (Some (op_key x)) (op_value x) g s = Inr (r, op_text x r, g', s')"
    "engines_inv g'" "balanced engines_owned g s g' s'" "store_of g' = (if r = 0 then effect c (store_of g) else store_of g)"
    "r = 0 \<longrightarrow> enabled c (store_of g)" "plenty s \<and> enabled c (store_of g) \<longrightarrow> r = 0"
proof -
  have key: "engine_key_ok e (op_key x)"
    using c by (simp add: keys_ok_def)
  have eqs: "effect c (store_of g) = (store_of g)(e := apply_op x (store_of g e))"
      "enabled c (store_of g) = op_enabled (engine_fits e) x (store_of g e)"
    using c(1) by (simp_all add: effect_def enabled_def)
  consider "e = 0" | "e = 1" | "e = 2" | "e = 3"
    using op_of_command(2) [OF c(1)] by linarith
  then have "\<exists>r g' s'. exec_engine (5 * e + op_code x) (Some (op_key x)) (op_value x) g s = Inr (r, op_text x r, g', s') \<and>
    engines_inv g' \<and> balanced engines_owned g s g' s' \<and>
    store_of g' = (if r = 0 then effect c (store_of g) else store_of g) \<and>
    (r = 0 \<longrightarrow> enabled c (store_of g)) \<and> (plenty s \<and> enabled c (store_of g) \<longrightarrow> r = 0)"
    unfolding eqs
    using key array_cmd.write_law [OF inv, of x s] rbtree_cmd.write_law [OF inv, of x s]
      hash_cmd.write_law [OF inv, of x s] skip_cmd.write_law [OF inv, of x s] by cases (hypsubst, blast)+
  then show thesis
    using that by blast
qed

end
