(* ===== verification/Kernel_Frame.thy ===== *)
theory Kernel_Frame
  imports Commands
begin

text \<open>
  The engines and the copying of fields use memory and random numbers only: what the
  kernel will answer, and which of its answers comes next, is the same afterwards.
\<close>

definition same_kernel :: "sys \<Rightarrow> sys \<Rightarrow> bool" where
  "same_kernel s s' \<longleftrightarrow> s_oscall s' = s_oscall s \<and> s_nos s' = s_nos s \<and> s_kern s' = s_kern s \<and> s_nkern s' = s_nkern s \<and>
     s_patience s' = s_patience s"

lemma same_kernel_refl [simp]: "same_kernel s s"
  by (simp add: same_kernel_def)

lemma same_kernel_trans [trans]: "same_kernel s t \<Longrightarrow> same_kernel t u \<Longrightarrow> same_kernel s u"
  by (simp add: same_kernel_def)

lemma same_kernel_free [simp]: "same_kernel s (kvs_free t) = same_kernel s t" "same_kernel s (kvs_free_opt p t) = same_kernel s t"
  by (simp_all add: same_kernel_def kvs_free_def kvs_free_opt_def split: option.split)

lemma same_kernel_malloc:
  "kvs_malloc n t = (b, u) \<Longrightarrow> same_kernel s u = same_kernel s t" "same_kernel s (snd (kvs_malloc n t)) = same_kernel s t"
  "kvs_malloc_bytes n t = (d, u) \<Longrightarrow> same_kernel s u = same_kernel s t"
  by (auto simp: same_kernel_def kvs_malloc_def kvs_malloc_bytes_def Let_def split: prod.splits)

lemma same_kernel_rand: "c_rand t = (v, u) \<Longrightarrow> same_kernel s u = same_kernel s t"
  by (auto simp: same_kernel_def c_rand_def)

text \<open>An operation all of whose returns leave the kernel as in \<open>s\<close>.\<close>

definition keeps :: "sys \<Rightarrow> (int \<times> 'e \<times> sys) run \<Rightarrow> bool" where
  "keeps s x \<longleftrightarrow> (\<forall>r e s'. x = Inr (r, e, s') \<longrightarrow> same_kernel s s')"

named_theorems keeping

lemma keeps_return [keeping]: "same_kernel s t \<Longrightarrow> keeps s (Inr (r, e, t))" "keeps s (Inl h)"
  by (simp_all add: keeps_def)

lemma keeps_bind [keeping]: "(\<And>a. x = Inr a \<Longrightarrow> keeps s (f a)) \<Longrightarrow> keeps s (bindr x f)"
  by (cases x) (simp_all add: keeps_def)

lemma keeps_cases [keeping]:
  "(\<And>a b. p = (a, b) \<Longrightarrow> keeps s (F a b)) \<Longrightarrow> keeps s (case p of (a, b) \<Rightarrow> F a b)"
  "(b \<Longrightarrow> keeps s x) \<Longrightarrow> (\<not> b \<Longrightarrow> keeps s y) \<Longrightarrow> keeps s (case b of True \<Rightarrow> x | False \<Rightarrow> y)"
  "(b \<Longrightarrow> keeps s x) \<Longrightarrow> (\<not> b \<Longrightarrow> keeps s y) \<Longrightarrow> keeps s (if b then x else y)"
  "keeps s x \<Longrightarrow> (\<And>v. keeps s (g v)) \<Longrightarrow> keeps s (case w of None \<Rightarrow> x | Some v \<Rightarrow> g v)"
  by (cases p; cases b; cases w; simp)+

text \<open>Going back over a call that has returned.\<close>

named_theorems kept

lemma kept_calls [kept]:
  "kvs_malloc n t = (b, u) \<Longrightarrow> same_kernel s t \<Longrightarrow> same_kernel s u"
  "c_rand t = (v, u) \<Longrightarrow> same_kernel s t \<Longrightarrow> same_kernel s u"
  by (simp_all add: same_kernel_malloc(1) same_kernel_rand)

lemma keepsD: "(\<And>s. same_kernel s t \<Longrightarrow> keeps s x) \<Longrightarrow> x = Inr (r, e, u) \<Longrightarrow> same_kernel s t \<Longrightarrow> same_kernel s u"
  by (simp add: keeps_def)

lemma array_keeps [keeping]:
  "same_kernel s t \<Longrightarrow> keeps s (kvs_array_mod a k v t)" "same_kernel s t \<Longrightarrow> keeps s (array_insert a key val t)" "same_kernel s t \<Longrightarrow> keeps s (kvs_array_del a k t)"
  unfolding kvs_array_mod_def array_insert_def kvs_array_del_def by (auto intro!: keeping; blast intro: kept)+

lemma array_set_keeps [keeping]: "same_kernel s t \<Longrightarrow> keeps s (kvs_array_set a k v t)"
  unfolding kvs_array_set_def by (auto intro!: keeping intro: keepsD [OF array_keeps(1)])

lemma hash_node_kept [kept]: "hash_create_node k v t = (b, u) \<Longrightarrow> same_kernel s t \<Longrightarrow> same_kernel s u"
  by (auto simp: hash_create_node_def split: prod.splits bool.splits; blast intro: kept)

lemma hash_keeps [keeping]:
  "same_kernel s t \<Longrightarrow> keeps s (kvs_hash_set h k v t)" "same_kernel s t \<Longrightarrow> keeps s (kvs_hash_mod h k v t)" "same_kernel s t \<Longrightarrow> keeps s (kvs_hash_del h k t)"
  unfolding kvs_hash_set_def kvs_hash_mod_def kvs_hash_del_def hash_node_free_def by (auto intro!: keeping; blast intro: kept)+

lemma rbtree_replace_keeps [keeping]: "same_kernel s t \<Longrightarrow> keeps s (rbtree_replace_value T p v t)"
  unfolding rbtree_replace_value_def by (auto intro!: keeping; blast intro: kept)+

lemma rbtree_free_kept [kept]: "rbtree_node_free T p t = Inr (T', u) \<Longrightarrow> same_kernel s t \<Longrightarrow> same_kernel s u"
  by (auto simp: rbtree_node_free_def bindr_eq_Inr split: option.splits)

lemma rbtree_keeps [keeping]:
  "same_kernel s t \<Longrightarrow> keeps s (kvs_rbtree_set T k v t)" "same_kernel s t \<Longrightarrow> keeps s (kvs_rbtree_mod T k v t)" "same_kernel s t \<Longrightarrow> keeps s (kvs_rbtree_del T k t)"
  unfolding kvs_rbtree_set_def kvs_rbtree_mod_def kvs_rbtree_del_def
  by (auto intro!: keeping; blast intro: kept)+

lemma random_level_kept [kept]: "random_level_loop l t = (l', u) \<Longrightarrow> same_kernel s t \<Longrightarrow> same_kernel s u"
proof (induction l t rule: random_level_loop.induct)
  case (1 l t)
  obtain v t1 where v: "c_rand t = (v, t1)" by (metis surj_pair)
  have "same_kernel s t1"
    using v 1(3) by (rule kept)
  then show ?case
    using 1 v by (auto simp: random_level_loop.simps [of l t] split: if_splits)
qed

lemma skiplist_create_node_kept [kept]: "skiplist_create_node sk l k v t = (n, sk', u) \<Longrightarrow> same_kernel s t \<Longrightarrow> same_kernel s u"
  by (auto simp: skiplist_create_node_def Let_def split: prod.splits bool.splits if_splits; blast intro: kept)

lemma skiplist_parts_keep [keeping]:
  "same_kernel s t \<Longrightarrow> keeps s (sl_replace_value sk a v t)" "same_kernel s t \<Longrightarrow> keeps s (sl_insert sk h us key val t)"
  unfolding sl_replace_value_def sl_insert_def skiplist_random_level_def Let_def by (auto intro!: keeping; blast intro: kept)+

lemma skiplist_keeps [keeping]:
  "same_kernel s t \<Longrightarrow> keeps s (kvs_skiplist_set sk k v t)" "same_kernel s t \<Longrightarrow> keeps s (kvs_skiplist_mod sk k v t)" "same_kernel s t \<Longrightarrow> keeps s (kvs_skiplist_del sk k t)"
  unfolding kvs_skiplist_set_def kvs_skiplist_mod_def kvs_skiplist_del_def sl_release_def Let_def by (auto intro!: keeping; blast intro: kept)+

lemma keeps_returned: "x = Inr (r, e, s') \<Longrightarrow> keeps s x \<Longrightarrow> same_kernel s s'"
  by (simp add: keeps_def)

lemma exec_engine_frame:
  assumes "exec_engine cmd k v g s = Inr (r, str, g', s')"
  shows "same_kernel s s'"
proof -
  note ops = array_keeps array_set_keeps hash_keeps rbtree_keeps skiplist_keeps
  consider "exec_array cmd k v g s = Inr (r, str, g', s')" | "exec_rbtree cmd k v g s = Inr (r, str, g', s')"
    | "exec_hash cmd k v g s = Inr (r, str, g', s')" | "exec_skiplist cmd k v g s = Inr (r, str, g', s')"
    using assms by (auto simp: exec_engine_def split: if_splits)
  then show ?thesis
    by cases (auto simp: exec_array_def exec_rbtree_def exec_hash_def exec_skiplist_def bindr_eq_Inr split: if_splits
      dest!: keeps_returned intro: ops)
qed

lemma free_blocks_frame [simp]: "same_kernel s (free_blocks n t) = same_kernel s t"
  by (induction n arbitrary: t) simp_all

lemma copy_fields_frame: "copy_fields fs made t = (r, u) \<Longrightarrow> same_kernel s t \<Longrightarrow> same_kernel s u"
proof (induction fs arbitrary: made t r u)
  case (Cons f fs)
  show ?case
  proof (cases "f = None \<or> length (the f) = SIZE_MAX \<or> NUL \<in> set (the f)")
    case True
    then show ?thesis using Cons.prems by (auto split: option.splits)
  next
    case False
    then obtain d where d: "f = Some d" by auto
    obtain b t1 where m: "kvs_malloc (length d + 1) t = (b, t1)" by (metis surj_pair)
    have t1: "same_kernel s t1" using m Cons.prems(2) by (rule kept)
    obtain r1 t2 where rest: "copy_fields fs (Suc made) t1 = (r1, t2)" by (metis surj_pair)
    show ?thesis
      using Cons.prems Cons.IH [OF rest t1] False d m t1 rest by (cases b; cases r1) auto
  qed
qed simp

end
