(* ===== verification/Journal.thy ===== *)
theory Journal
  imports Command_Laws Kernel_Frame
begin

text \<open>
  The append-only file as a journal of the store.  As long as the server runs, replaying
  the commands in the file on the store it started from gives exactly the maps the engines
  hold; no request of a client, whatever its bytes, changes that or loses memory.
  Replaying after a restart therefore rebuilds the store.
\<close>

section \<open>Legal logs\<close>

definition plain :: "bytes list \<Rightarrow> bool" where
  "plain c \<longleftrightarrow> (\<forall>t \<in> set c. NUL \<notin> set t)"

fun legal_log :: "bytes list list \<Rightarrow> store \<Rightarrow> bool" where
  "legal_log [] st \<longleftrightarrow> True"
| "legal_log (c # cs) st \<longleftrightarrow> enabled c st \<and> keys_ok c \<and> plain c \<and> aof_command c \<and> legal_log cs (effect c st)"

fun replayed :: "bytes list list \<Rightarrow> store \<Rightarrow> store" where
  "replayed [] st = st"
| "replayed (c # cs) st = replayed cs (effect c st)"

lemma replayed_append [simp]: "replayed (cs @ ds) st = replayed ds (replayed cs st)"
  by (induction cs arbitrary: st) simp_all

lemma legal_log_append [simp]: "legal_log (cs @ ds) st \<longleftrightarrow> legal_log cs st \<and> legal_log ds (replayed cs st)"
  by (induction cs arbitrary: st) auto

lemma legal_log_commands: "legal_log cs st \<Longrightarrow> list_all aof_command cs"
  by (induction cs arbitrary: st) auto

section \<open>The journal\<close>

text \<open>
  The file \<open>path\<close> is open for appending, consists of \<open>pre\<close> and the commands \<open>cs\<close>, and
  the engines hold what these commands make of the store \<open>st\<close>.
\<close>

definition journal :: "bytes \<Rightarrow> bytes \<Rightarrow> store \<Rightarrow> bytes list list \<Rightarrow> server \<Rightarrow> bool" where
  "journal path pre st cs sv \<longleftrightarrow>
     engines_inv (sv_engines sv) \<and> aof_ok (sv_aof sv) (sv_files sv) \<and> aw_fd (sv_aof sv) = Some path \<and>
     aw_offset (sv_aof sv) = length (pre @ aof_image cs) \<and> sv_files sv path = Some (pre @ aof_image cs) \<and>
     legal_log cs st \<and> store_of (sv_engines sv) = replayed cs st"

text \<open>Memory the server holds beyond its engines.\<close>

definition ledger :: "server \<Rightarrow> sys \<Rightarrow> int" where
  "ledger sv s = s_live s - engines_owned (sv_engines sv)"

text \<open>What one request does: at most one command is added, nothing is lost.\<close>

definition advances ::
    "bytes \<Rightarrow> bytes \<Rightarrow> store \<Rightarrow> bytes list list \<Rightarrow> server \<Rightarrow> sys \<Rightarrow> server \<Rightarrow> sys \<Rightarrow> bool" where
  "advances path pre st cs sv s sv' s' \<longleftrightarrow>
     (\<exists>new. length new \<le> 1 \<and> journal path pre st (cs @ new) sv') \<and> ledger sv' s' = ledger sv s \<and>
     sv_role sv' = sv_role sv \<and> sv_mode sv' = sv_mode sv \<and> sv_suffix sv' = sv_suffix sv \<and> sv_replication sv' = sv_replication sv"

lemma advances_refl: "journal path pre st cs sv \<Longrightarrow> s_live s' = s_live s \<Longrightarrow> advances path pre st cs sv s sv s'"
  by (auto simp: advances_def ledger_def intro: exI [of _ "[]"])

text \<open>Allocations before and frees after a request cancel out.\<close>

lemma advances_shift:
  "advances path pre st cs sv s sv' s' \<Longrightarrow> s_live t - s_live s = s_live t' - s_live s' \<Longrightarrow> advances path pre st cs sv t sv' t'"
  by (auto simp: advances_def ledger_def)

section \<open>The executor\<close>

lemma exec_read_law:
  assumes "exec_engine cmd key val g s = Inr (ret, str, g', s')" "cmd < KVS_CMD_COUNT" "\<not> kvs_is_write_command cmd"
  shows "g' = g \<and> s' = s"
proof -
  have "cmd \<in> {KVS_CMD_GET, KVS_CMD_EXIST, KVS_CMD_RGET, KVS_CMD_REXIST, KVS_CMD_HGET, KVS_CMD_HEXIST, KVS_CMD_SGET, KVS_CMD_SEXIST}"
    using assms(2,3) by (simp add: kvs_is_write_command_def KVS_CMD_COUNT_def) presburger
  then show ?thesis
    using assms(1) by (auto simp: exec_engine_def exec_array_def exec_rbtree_def exec_hash_def exec_skiplist_def bindr_eq_Inr)
qed

lemma hash_returned:
  "bindr (hash_index (Some k) MAX_TABLE_SIZE) (\<lambda>i. bindr (bucket_read h i) (f i)) = Inr y \<Longrightarrow> hash_ok k"
  by (auto simp: bindr_eq_Inr hash_ok_def bucket_read_def split: option.splits if_splits)

text \<open>A command on the hash engine only returns for keys with an index inside the table.\<close>

lemma exec_returned_key_ok:
  assumes c: "op_of c = Some (e, x)" and run: "exec_engine (5 * e + op_code x) (Some (op_key x)) (op_value x) g s = Inr y"
  shows "keys_ok c"
proof (cases "e = 2")
  case True
  then obtain z where "run_op kvs_hash_set kvs_hash_mod kvs_hash_del x (global_hash g) s = Inr z"
    using run hash_cmd.exec_write [of x g s]
    by (cases "run_op kvs_hash_set kvs_hash_mod kvs_hash_del x (global_hash g) s") auto
  then have "hash_ok (op_key x)"
    by (cases x) (auto simp: kvs_hash_set_def kvs_hash_mod_def kvs_hash_del_def dest: hash_returned)
  then show ?thesis
    using c True by (simp add: keys_ok_def)
qed (use c in \<open>simp add: keys_ok_def\<close>)

lemma log_step:
  assumes j: "journal path pre st cs sv" and g: "engines_inv g"
    "store_of g = (if r = 0 then effect c (store_of (sv_engines sv)) else store_of (sv_engines sv))"
    and c: "r = 0 \<Longrightarrow> enabled c (store_of (sv_engines sv))" "keys_ok c" "plain c"
    and cfg: "source \<noteq> SOURCE_RECOVERY" "sv_mode sv \<noteq> PERSISTENCE_SNAPSHOT" "kvs_is_write_command cmd"
    and run: "log_command cmd r c source (sv\<lparr>sv_engines := g\<rparr>) s = Inr (sv', s')"
  shows "journal path pre st (if r = 0 then cs @ [c] else cs) sv' \<and> s_live s' = s_live s \<and>
    (\<exists>w fs. sv' = sv\<lparr>sv_engines := g, sv_aof := w, sv_files := fs\<rparr>)"
proof (cases "r = 0")
  case True
  then obtain q w fs where app: "kvs_aof_append (map Some c) (sv_aof sv) (sv_files sv) s = Inr (q, w, fs, s')"
      and q: "\<not> q < 0" and sv': "sv' = sv\<lparr>sv_engines := g, sv_aof := w, sv_files := fs\<rparr>"
    using run cfg by (auto simp: log_command_def bindr_eq_Inr split: if_splits)
  have ok: "aof_ok (sv_aof sv) (sv_files sv)" "aw_fd (sv_aof sv) = Some path"
    using j by (simp_all add: journal_def)
  have eff: "append_effect c q (sv_aof sv) (sv_files sv) w fs" "s_live s' = s_live s"
    using aof_append_law [OF ok(1) app] by auto
  then have "q = 0" using q by (auto simp: append_effect_def)
  have fd: "file_data (sv_files sv) path = pre @ aof_image cs" "aw_offset (sv_aof sv) = length (pre @ aof_image cs)"
    using j by (simp_all add: journal_def file_data_def)
  then have "file_data fs path = pre @ aof_image (cs @ [c])" "aof_ok w fs" "aw_fd w = Some path"
      "aw_offset w = length (pre @ aof_image (cs @ [c]))"
    using eff(1) \<open>q = 0\<close> ok(2) write_at_end [of "pre @ aof_image cs" "command_bytes c"] by (auto simp: append_effect_def)
  moreover from this have "fs path = Some (pre @ aof_image (cs @ [c]))"
    by (auto simp: file_data_def aof_image_def split: option.splits)
  moreover have "aof_command c"
    using app \<open>q = 0\<close> by (auto intro: aof_append_command)
  ultimately show ?thesis
    using j g c True eff(2) sv' by (auto simp: journal_def)
next
  case False
  then show ?thesis
    using j g run by (auto simp: log_command_def journal_def intro!: exI [of _ "sv_aof sv"] exI [of _ "sv_files sv"])
qed

lemma find_command_le: "find_command cs name \<le> length cs"
  by (induction cs) auto

lemma command_index_le: "command_index name \<le> 20"
  using find_command_le [of command name] by (simp add: command_index_def command_def)

lemma op_of_write:
  assumes "tokens \<noteq> []" "kvs_is_write_command (command_index (hd tokens))" "length tokens = expected_fields (command_index (hd tokens))"
  obtains e x where "op_of tokens = Some (e, x)"
proof -
  consider name k v where "tokens = [name, k, v]" "command_index name mod 5 \<noteq> 2" | name k where "tokens = [name, k]" "command_index name mod 5 = 2"
    using assms by (cases tokens; cases "tl tokens"; cases "tl (tl tokens)")
      (auto simp: expected_fields_def kvs_is_write_command_def split: if_splits)
  then show thesis
    using assms(2) that by cases (auto simp: op_of_def Let_def kvs_is_write_command_def)
qed

lemma filter_advances:
  assumes j: "journal path pre st cs sv" and cfg: "source \<noteq> SOURCE_RECOVERY" "sv_mode sv \<noteq> PERSISTENCE_SNAPSHOT"
    and t: "plain tokens" "command_index (hd tokens) < KVS_CMD_COUNT \<longrightarrow> length tokens = expected_fields (command_index (hd tokens))"
    and run: "kvs_filter_protocol tokens region source status sv s = Inr (n, region', status', sv', s')"
  shows "advances path pre st cs sv s sv' s'"
proof -
  let ?cmd = "command_index (hd tokens)"
  consider (same) "sv' = sv" "s' = s"
    | (exec) ret str g s1 where "tokens \<noteq> []" "?cmd \<noteq> KVS_CMD_COUNT"
        "exec_engine ?cmd (token tokens 1) (token tokens 2) (sv_engines sv) s = Inr (ret, str, g, s1)"
        "log_command ?cmd ret tokens source (sv\<lparr>sv_engines := g\<rparr>) s1 = Inr (sv', s')"
    using run by (auto simp: kvs_filter_protocol_def Let_def bindr_eq_Inr split_beta split: if_splits)
  then show ?thesis
  proof cases
    case same
    then show ?thesis using advances_refl [OF j] by simp
  next
    case exec
    have cmd: "?cmd < KVS_CMD_COUNT"
      using exec(2) command_index_le [of "hd tokens"] by (simp add: KVS_CMD_COUNT_def)
    show ?thesis
    proof (cases "kvs_is_write_command ?cmd")
      case False
      then have "g = sv_engines sv" "s1 = s"
        using exec_read_law [OF exec(3) cmd] by auto
      then show ?thesis
        using exec(4) False advances_refl [OF j] by (simp add: log_command_def)
    next
      case True
      obtain e x where c: "op_of tokens = Some (e, x)"
        using op_of_write [OF exec(1) True] t(2) cmd by blast
      note d = op_of_command [OF c]
      have keys: "keys_ok tokens"
        using exec_returned_key_ok [OF c] exec(3) d(1,3,4) by simp
      have inv: "engines_inv (sv_engines sv)"
        using j by (simp add: journal_def)
      have x: "engines_inv g" "balanced engines_owned (sv_engines sv) s g s1"
          "store_of g = (if ret = 0 then effect tokens (store_of (sv_engines sv)) else store_of (sv_engines sv))"
          "ret = 0 \<longrightarrow> enabled tokens (store_of (sv_engines sv))"
        using exec(3) d(1,3,4) by (auto intro: exec_write_law [OF inv c keys, of s])
      have "journal path pre st (if ret = 0 then cs @ [tokens] else cs) sv' \<and> s_live s' = s_live s1 \<and>
          (\<exists>w fs. sv' = sv\<lparr>sv_engines := g, sv_aof := w, sv_files := fs\<rparr>)"
        using log_step [OF j x(1) x(3) _ keys t(1) cfg True exec(4)] x(4) by blast
      then show ?thesis
        using x(2) by (auto simp: advances_def ledger_def balanced_def split: if_splits intro: exI [of _ "[tokens]"] exI [of _ "[]"])
    qed
  qed
qed

lemma grown_data:
  assumes "out_data buf \<noteq> None" "kvs_output_buffer_ensure_space buf n s = Inr (r, buf', s')"
  shows "out_data buf' \<noteq> None"
  using assms
  by (auto simp: kvs_output_buffer_ensure_space_def ensure_buffer_space_def replace_storage_def bindr_eq_Inr Let_def
      split: if_splits prod.splits option.splits)

section \<open>Requests of clients\<close>

lemma free_blocks_simps [simp]: "s_live (free_blocks n s) = s_live s - int n" "s_alloc (free_blocks n s) = s_alloc s"
  by (induction n arbitrary: s) simp_all

lemma copy_fields_law:
  "copy_fields fs made s = (r, s') \<Longrightarrow> s_alloc s' = s_alloc s \<and>
   (case r of None \<Rightarrow> s_live s' = s_live s - int made
    | Some ts \<Rightarrow> fs = map Some ts \<and> plain ts \<and> s_live s' = s_live s + int (length ts))"
proof (induction fs arbitrary: made s r s')
  case Nil
  then show ?case by (auto simp: plain_def)
next
  case (Cons f fs)
  show ?case
  proof (cases "f = None \<or> length (the f) = SIZE_MAX \<or> NUL \<in> set (the f)")
    case True
    then show ?thesis using Cons.prems by (auto split: option.splits)
  next
    case False
    then obtain d where d: "f = Some d" "length d \<noteq> SIZE_MAX" "NUL \<notin> set d" by auto
    show ?thesis
    proof (cases "length d + 1" s rule: kvs_malloc_cases)
      case (granted s1)
      obtain r1 s2 where rest: "copy_fields fs (Suc made) s1 = (r1, s2)" by (metis surj_pair)
      with Cons.IH [OF rest] granted d Cons.prems show ?thesis
        by (cases r1) (auto simp: plain_def)
    next
      case (refused s1)
      then show ?thesis using d Cons.prems by auto
    qed
  qed
qed

definition log_path :: "bytes \<Rightarrow> bool" where
  "log_path path \<longleftrightarrow> path = ''commands.aof'' \<or> path = ''appendonly.aof''"

text \<open>Saving a snapshot leaves the log alone.\<close>

lemma save_advances:
  assumes j: "journal path pre st cs sv" and p: "log_path path" and m: "sv_mode sv \<noteq> PERSISTENCE_SNAPSHOT"
    and run: "kvs_save_current_snapshot sv s = Inr (r, sv', s')"
  shows "advances path pre st cs sv s sv' s'"
proof (cases "sv_mode sv = PERSISTENCE_AOF \<or> kvs_aof_get_offset (sv_aof sv) < 0")
  case True
  then have "sv' = sv" "s' = s"
    using run m by (cases "sv_mode sv"; simp add: kvs_save_current_snapshot_def)+
  then show ?thesis using advances_refl [OF j] by simp
next
  case False
  then have "sv_mode sv = PERSISTENCE_LEGACY_HYBRID"
    using m by (cases "sv_mode sv") simp_all
  with False run obtain cp fs where save:
      "kvs_snapshot_store_save_with_checkpoint (sv_suffix sv) (sv_engines sv) ''snapshot.db'' cp (sv_files sv) s = Inr (r, fs, s')"
      and sv': "sv' = sv\<lparr>sv_files := fs\<rparr>"
    by (auto simp: kvs_save_current_snapshot_def bindr_eq_Inr)
  have inv: "engines_inv (sv_engines sv)" using j by (simp add: journal_def)
  have "path \<noteq> ''snapshot.db''" "path \<noteq> temp_name ''snapshot.db'' (sv_suffix sv)"
    using p by (auto simp: log_path_def temp_name_def)
  then have "fs path = sv_files sv path" "s_live s' = s_live s"
    using snapshot_save_law [OF inv save] by (auto simp: save_effect_def)
  then show ?thesis
    using j sv' by (auto simp: advances_def journal_def ledger_def aof_ok_def file_data_def intro!: exI [of _ "[]"])
qed

lemma encode_value_live:
  assumes ok: "output_ok buf" "out_data buf \<noteq> None" and run: "kvs_encode_value_to_output buf val s = Inr (r, buf', s')"
  shows "s_live s' = s_live s"
proof -
  have grow: "s_live s1 = s_live s" if "kvs_output_buffer_ensure_space buf n s = Inr (q, buf1, s1)" for n q buf1 s1
  proof (rule output_ensure_space [OF ok(1), of n s])
    fix q' buf2 s2
    assume a: "kvs_output_buffer_ensure_space buf n s = Inr (q', buf2, s2)"
      "s_live s2 - owned_data (out_data buf2) = s_live s - owned_data (out_data buf)"
      "output_ok buf2" "q' = 0 \<and> n \<le> out_capacity buf2 - out_length buf2 \<or> q' = -1 \<and> buf2 = buf"
    have "out_data buf2 \<noteq> None"
      using grown_data [OF ok(2)] a(1) by simp
    then show "s_live s1 = s_live s"
      using a(1,2) that ok(2) by (auto simp: owned_data_def split: option.splits)
  qed
  show ?thesis
    using run grow
    by (auto simp: kvs_encode_value_to_output_def bindr_eq_Inr split: if_splits option.splits)
qed

lemma execute_other_advances:
  assumes j: "journal path pre st cs sv" and cfg: "source \<noteq> SOURCE_RECOVERY" "sv_mode sv \<noteq> PERSISTENCE_SNAPSHOT"
    and t: "plain tokens" "command_index (hd tokens) < KVS_CMD_COUNT \<longrightarrow> length tokens = expected_fields (command_index (hd tokens))"
    and run: "execute_other cmd tokens buf source sv s = Inr (r, status, buf', sv', s')"
  shows "advances path pre st cs sv s sv' s'"
proof -
  obtain q region st1 where x: "kvs_execute_tokens tokens (reply_region buf) source EXEC_FAILED sv s = Inr (q, region, st1, sv', s')"
    using run by (auto simp: execute_other_def bindr_eq_Inr Let_def split: if_splits)
  then consider "sv' = sv" "s' = s"
    | n region1 where "kvs_filter_protocol tokens (reply_region buf) source EXEC_FAILED sv s = Inr (n, region1, st1, sv', s')"
    by (auto simp: kvs_execute_tokens_def bindr_eq_Inr split: if_splits)
  then show ?thesis
    using advances_refl [OF j] filter_advances [OF j cfg t] by cases auto
qed

lemma execute_get_live:
  assumes "output_ok buf" "out_data buf \<noteq> None" "execute_get cmd tokens buf sv s = Inr (r, buf', s')"
  shows "s_live s' = s_live s"
  using assms(3) encode_value_live [OF assms(1,2)] by (auto simp: execute_get_def bindr_eq_Inr split: option.splits)

lemma cascade:
  "(if a then x1 else if b then x2 else if c then x3 else if d then (if e then x4 else x5) else if f then x6 else if h then x7 else x8) = y \<Longrightarrow>
   x1 = y \<or> x2 = y \<or> x3 = y \<or> x4 = y \<or> x5 = y \<or> x6 = y \<or> x7 = y \<or> \<not> d \<and> x8 = y"
  by (simp split: if_splits)

lemma dispatch_advances:
  assumes j: "journal path pre st cs sv" and p: "log_path path"
    and cfg: "source \<noteq> SOURCE_RECOVERY" "sv_mode sv \<noteq> PERSISTENCE_SNAPSHOT"
    and buf: "output_ok buf" "out_data buf \<noteq> None" and t: "plain tokens"
    and run: "execute_dispatch tokens buf source sv s = Inr (r, status, buf', sv', s')"
  shows "advances path pre st cs sv s sv' s'"
proof -
  let ?cmd = "command_index (hd tokens)"
  consider (quiet) "sv' = sv" "s' = s"
    | (save) reply where "save_reply (length tokens) sv s = Inr (reply, sv', s')"
    | (read) q where "execute_get ?cmd tokens buf sv s = Inr (q, buf', s')" "sv' = sv"
    | (other) "?cmd < KVS_CMD_COUNT \<longrightarrow> length tokens = expected_fields ?cmd"
        "execute_other ?cmd tokens buf source sv s = Inr (r, status, buf', sv', s')"
    using cascade [OF run [unfolded execute_dispatch_def Let_def]]
    by (elim disjE conjE) (fastforce simp only: bindr_eq_Inr split_beta prod.inject sum.inject prod.sel fst_conv)+
  then show ?thesis
  proof cases
    case quiet
    then show ?thesis using advances_refl [OF j] by simp
  next
    case save
    then show ?thesis
      using advances_refl [OF j] save_advances [OF j p cfg(2)] by (auto simp: save_reply_def bindr_eq_Inr split: if_splits)
  next
    case read
    then show ?thesis
      using advances_refl [OF j] execute_get_live [OF buf] by auto
  next
    case other
    then show ?thesis
      using execute_other_advances [OF j cfg t] by blast
  qed
qed

lemma fields_advances:
  assumes j: "journal path pre st cs sv" and p: "log_path path"
    and cfg: "source \<noteq> SOURCE_RECOVERY" "sv_mode sv \<noteq> PERSISTENCE_SNAPSHOT" and buf: "output_ok buf"
    and run: "kvs_execute_fields flds buf source sv s = Inr (r, status, buf', sv', s')"
  shows "advances path pre st cs sv s sv' s'"
proof -
  have quiet: "advances path pre st cs sv s sv s"
    using advances_refl [OF j] by simp
  show ?thesis
  proof (cases "out_data buf = None \<or> out_capacity buf \<le> 0 \<or> out_length buf < 0 \<or> out_length buf > out_capacity buf \<or>
         flds = [] \<or> length flds > KVS_MAX_TOKENS \<or> int (length flds) > INT_MAX \<or> check_fields flds \<noteq> Inr True")
    case True
    then have "sv' = sv \<and> s' = s"
      using run by (auto simp: kvs_execute_fields_def bindr_eq_Inr split: if_splits sum.splits bool.splits)
    then show ?thesis using quiet by simp
  next
    case False
    obtain ts s1 where copied: "copy_fields flds 0 s = (ts, s1)" by (metis surj_pair)
    show ?thesis
    proof (cases ts)
      case None
      then have "sv' = sv" "s_live s' = s_live s"
        using False run copied copy_fields_law [OF copied]
        by (auto simp: kvs_execute_fields_def kvs_fields_to_tokens_def)
      then show ?thesis using advances_refl [OF j] by simp
    next
      case (Some tokens)
      then obtain s2 where d: "execute_dispatch tokens buf source sv s1 = Inr (r, status, buf', sv', s2)"
          and s': "s' = free_blocks (length tokens) s2"
        using False run copied by (auto simp: kvs_execute_fields_def kvs_fields_to_tokens_def bindr_eq_Inr)
      have "plain tokens" "s_live s1 = s_live s + int (length tokens)"
        using copy_fields_law [OF copied] Some by auto
      then show ?thesis
        using dispatch_advances [OF j p cfg buf _ _ d] False s' by (auto intro: advances_shift)
    qed
  qed
qed

lemma network_advances:
  assumes j: "journal path pre st cs sv" and p: "log_path path" and m: "sv_mode sv \<noteq> PERSISTENCE_SNAPSHOT" and buf: "output_ok buf"
    and run: "kvs_network_protocol msg buf sv s = Inr (r, used, buf', sv', s')"
  shows "advances path pre st cs sv s sv' s'"
proof -
  consider (quiet) "sv' = sv" "s' = s"
    | (exec) flds n status buf1 where "kvs_execute_fields (map Some flds) buf SOURCE_CLIENT sv s = Inr (n, status, buf1, sv', s')"
    using run
    by (auto simp: kvs_network_protocol_def Let_def bindr_eq_Inr split: if_splits parsed.splits)
  then show ?thesis
    using advances_refl [OF j] fields_advances [OF j p _ m buf, of SOURCE_CLIENT] by cases auto
qed

section \<open>Executing a logged command again\<close>

lemma get_names: "command_index ''GET'' = KVS_CMD_GET" "command_index ''RGET'' = KVS_CMD_RGET"
  "command_index ''HGET'' = KVS_CMD_HGET" "command_index ''SGET'' = KVS_CMD_SGET"
  by code_simp+

lemma get_command_index: "kvs_is_get_command name \<Longrightarrow> command_index name mod 5 = 1"
  unfolding kvs_is_get_command_def strcmp_eq_0 by (elim disjE) (simp_all only: get_names, simp_all)

lemma token_shorter:
  assumes "t \<in> set c"
  shows "length t < length (command_bytes c)"
proof -
  have "length t \<le> length (concat (map field_bytes c))"
    using assms by (induction c) (auto simp: field_bytes_def)
  then show ?thesis
    by (simp add: command_bytes_def)
qed

lemma plain_check:
  assumes "plain c" "\<And>t. t \<in> set c \<Longrightarrow> length t \<noteq> SIZE_MAX"
  shows "check_fields (map Some c) = Inr True"
  using assms by (induction c) (auto simp: bad_slice_def has_nul_def plain_def)

lemma plain_copied:
  assumes "plain c" "\<And>t. t \<in> set c \<Longrightarrow> length t \<noteq> SIZE_MAX" "plenty s"
  shows "\<exists>s'. copy_fields (map Some c) made s = (Some c, s')"
  using assms
proof (induction c arbitrary: made s)
  case (Cons t c)
  obtain s1 where m: "kvs_malloc (length t + 1) s = (True, s1)" "s_alloc s1 = s_alloc s"
    by (cases "length t + 1" s rule: kvs_malloc_cases) (use Cons.prems(3) in auto)
  then obtain s2 where "copy_fields (map Some c) (Suc made) s1 = (Some c, s2)"
    using Cons.IH [of s1 "Suc made"] Cons.prems by (auto simp: plain_def plenty_def)
  then show ?case
    using m(1) Cons.prems by (auto simp: plain_def)
qed simp

lemma op_code_mod: "(5 * e + op_code x) mod 5 = op_code x"
  by (cases x) (simp_all, presburger)

lemma other_names: "command_index ''PING'' = KVS_CMD_COUNT" "command_index ''SAVE'' = KVS_CMD_COUNT"
  by code_simp+

lemma write_op_names:
  assumes "op_of c = Some (e, x)"
  shows "5 * e + op_code x < KVS_CMD_COUNT" "\<not> kvs_is_get_command (hd c)"
    "strcmp (hd c) ''PING'' \<noteq> 0" "strcmp (hd c) ''SAVE'' \<noteq> 0" "kvs_is_write_command (5 * e + op_code x)"
proof -
  note d = op_of_command [OF assms]
  show lt: "5 * e + op_code x < KVS_CMD_COUNT"
    using d(2) by (cases x) (auto simp: KVS_CMD_COUNT_def)
  show "\<not> kvs_is_get_command (hd c)"
  proof
    assume "kvs_is_get_command (hd c)"
    then have "(5 * e + op_code x) mod 5 = 1"
      using d(1) get_command_index [of "hd c"] by simp
    then show False
      unfolding op_code_mod by (cases x) simp_all
  qed
  show "strcmp (hd c) ''PING'' \<noteq> 0" "strcmp (hd c) ''SAVE'' \<noteq> 0"
    using lt d(1) other_names by (auto simp: strcmp_eq_0)
  show "kvs_is_write_command (5 * e + op_code x)"
    using lt unfolding kvs_is_write_command_def op_code_mod by (cases x) simp_all
qed

text \<open>A write command that does not come from a client: copied, executed, logged, released.\<close>

lemma fields_protocol_write:
  assumes c: "op_of c = Some (e, x)" "plain c" "aof_command c" and source: "source \<noteq> SOURCE_CLIENT"
    and region: "10 < length region" and copied: "copy_fields (map Some c) 0 s = (Some c, s1)"
    and exec: "exec_engine (5 * e + op_code x) (Some (op_key x)) (op_value x) (sv_engines sv) s1 = Inr (ret, op_text x ret, g, s2)"
    and log: "log_command (5 * e + op_code x) ret c source (sv\<lparr>sv_engines := g\<rparr>) s2 = Inr (sv', s3)"
  shows "\<exists>region'. fields_protocol source c region sv s =
    Inr (if ret = 0 then int (length (op_text x ret)) else -1, region', sv', free_blocks (length c) s3) \<and> length region' = length region"
proof -
  note d = op_of_command [OF c(1)]
  have sz: "length t \<noteq> SIZE_MAX" if "t \<in> set c" for t
    using token_shorter [OF that] c(3) by (simp add: aof_command_def)
  note nget = write_op_names(2) [OF c(1)] and cmd = write_op_names(1) [OF c(1)]
  have short: "length (op_text x ret) < length region" "region \<noteq> []"
    using op_text_short [of x ret] region by auto
  have status: "exec_status (5 * e + op_code x) ret EXEC_FAILED = EXEC_OK \<longleftrightarrow> ret = 0"
    unfolding exec_status_def op_code_mod by (cases x) auto
  let ?buf = "\<lparr>out_data = Some region, out_length = 0, out_offset = 0, out_capacity = int (length region)\<rparr>"
  let ?region = "op_text x ret @ [NUL] @ drop (length (op_text x ret) + 1) region"
  have "kvs_execute_tokens c (reply_region ?buf) source EXEC_FAILED sv s1 =
      Inr (int (length (op_text x ret)), ?region, exec_status (5 * e + op_code x) ret EXEC_FAILED, sv', s3)"
    using exec log source short cmd d(1,3,4,5)
    by (simp add: kvs_execute_tokens_def kvs_filter_protocol_def Let_def reply_region_def c_snprintf_fits del: One_nat_def)
  then have "execute_dispatch c ?buf source sv s1 =
      Inr (int (length (op_text x ret)), exec_status (5 * e + op_code x) ret EXEC_FAILED, with_region ?buf ?region, sv', s3)"
    using source cmd d(1,5,6) nget by (auto simp: execute_dispatch_def execute_other_def Let_def)
  then have "kvs_execute_fields (map Some c) ?buf source sv s =
      Inr (int (length (op_text x ret)), exec_status (5 * e + op_code x) ret EXEC_FAILED, with_region ?buf ?region, sv', free_blocks (length c) s3)"
    using copied short d(5,7) plain_check [OF c(2) sz]
    by (auto simp: kvs_execute_fields_def kvs_fields_to_tokens_def KVS_MAX_TOKENS_def INT_MAX_def)
  then show ?thesis
    using short status by (auto simp: fields_protocol_def with_region_def)
qed

lemma recover_one:
  assumes inv: "engines_inv (sv_engines sv)" and c: "enabled c (store_of (sv_engines sv))" "keys_ok c" "plain c" "aof_command c"
    and s: "plenty s"
  obtains n region g s' where "kvs_recovery_fields_protocol c (replicate 1024 NUL) sv s = Inr (n, region, sv\<lparr>sv_engines := g\<rparr>, s')"
    "0 < n" "n \<le> 1024" "engines_inv g" "store_of g = effect c (store_of (sv_engines sv))"
    "ledger (sv\<lparr>sv_engines := g\<rparr>) s' = ledger sv s" "plenty s'" "same_kernel s s'"
proof -
  obtain e x where op: "op_of c = Some (e, x)"
    using c(1) by (auto simp: enabled_def split: option.splits)
  have sz: "length t \<noteq> SIZE_MAX" if "t \<in> set c" for t
    using token_shorter [OF that] c(4) by (simp add: aof_command_def)
  obtain s1 where copied: "copy_fields (map Some c) 0 s = (Some c, s1)"
    using plain_copied [OF c(3) sz s] by blast
  then have s1: "s_alloc s1 = s_alloc s" "s_live s1 = s_live s + int (length c)" "same_kernel s s1"
    using copy_fields_law [OF copied] copy_fields_frame [OF copied] by auto
  have p1: "plenty s1" using s s1 by (simp add: plenty_def)
  show thesis
  proof (rule exec_write_law [OF inv op c(2), of s1])
    fix r g s2
    assume x: "exec_engine (5 * e + op_code x) (Some (op_key x)) (op_value x) (sv_engines sv) s1 = Inr (r, op_text x r, g, s2)"
      "engines_inv g" "balanced engines_owned (sv_engines sv) s1 g s2"
      "store_of g = (if r = 0 then effect c (store_of (sv_engines sv)) else store_of (sv_engines sv))"
      "plenty s1 \<and> enabled c (store_of (sv_engines sv)) \<longrightarrow> r = 0"
    then have r: "r = 0" using p1 c(1) by simp
    have log: "log_command (5 * e + op_code x) r c SOURCE_RECOVERY (sv\<lparr>sv_engines := g\<rparr>) s2 = Inr (sv\<lparr>sv_engines := g\<rparr>, s2)"
      by (simp add: log_command_def)
    obtain region where "kvs_recovery_fields_protocol c (replicate 1024 NUL) sv s =
        Inr (int (length (op_text x r)), region, sv\<lparr>sv_engines := g\<rparr>, free_blocks (length c) s2)"
      using fields_protocol_write [OF op c(3,4) _ _ copied x(1) log, of "replicate 1024 NUL"] r
      by (auto simp: kvs_recovery_fields_protocol_def)
    then show thesis
      by (rule that) (use op_text_short [of x r] x r s1 s exec_engine_frame [OF x(1)] in
        \<open>auto simp: ledger_def balanced_def plenty_def intro: same_kernel_trans\<close>)
  qed
qed

lemma recover_log:
  "engines_inv (sv_engines sv) \<Longrightarrow> legal_log cs (store_of (sv_engines sv)) \<Longrightarrow> plenty s \<Longrightarrow>
   \<exists>g s'. run_commands kvs_recovery_fields_protocol cs sv s = Inr (0, sv\<lparr>sv_engines := g\<rparr>, s') \<and>
     engines_inv g \<and> store_of g = replayed cs (store_of (sv_engines sv)) \<and>
     ledger (sv\<lparr>sv_engines := g\<rparr>) s' = ledger sv s \<and> same_kernel s s'"
proof (induction cs arbitrary: sv s)
  case Nil
  then show ?case by (auto intro!: exI [of _ "sv_engines sv"])
next
  case (Cons c cs)
  have c: "enabled c (store_of (sv_engines sv))" "keys_ok c" "plain c" "aof_command c"
    using Cons.prems(2) by simp_all
  obtain n region g s1 where one: "kvs_recovery_fields_protocol c (replicate 1024 NUL) sv s = Inr (n, region, sv\<lparr>sv_engines := g\<rparr>, s1)"
      "0 < n" "n \<le> 1024" "engines_inv g" "store_of g = effect c (store_of (sv_engines sv))"
      "ledger (sv\<lparr>sv_engines := g\<rparr>) s1 = ledger sv s" "plenty s1" "same_kernel s s1"
    by (rule recover_one [OF Cons.prems(1) c Cons.prems(3)])
  then obtain g' s' where "run_commands kvs_recovery_fields_protocol cs (sv\<lparr>sv_engines := g\<rparr>) s1 = Inr (0, sv\<lparr>sv_engines := g'\<rparr>, s')"
      "engines_inv g'" "store_of g' = replayed cs (effect c (store_of (sv_engines sv)))"
      "ledger (sv\<lparr>sv_engines := g'\<rparr>) s' = ledger sv s" "same_kernel s1 s'"
    using Cons.IH [of "sv\<lparr>sv_engines := g\<rparr>" s1] Cons.prems(2) by auto
  then show ?case
    using one by (auto intro!: exI [of _ g'] intro: same_kernel_trans)
qed

lemma mapped_close_willing:
  assumes "\<forall>n. s_oscall s n"
  shows "\<exists>s'. kvs_mapped_file_close d s = (0, s') \<and> s_live s' = s_live s \<and> s_oscall s' = s_oscall s"
proof (cases "d = []")
  case True
  then show ?thesis by (simp add: kvs_mapped_file_close_def)
next
  case False
  then have "kvs_mapped_file_close d s = (0, snd (os_call s))" "s_oscall (snd (os_call s)) = s_oscall s"
    using assms by (simp_all add: kvs_mapped_file_close_def os_call_def)
  then show ?thesis by (simp del: split_paired_Ex)
qed

text \<open>
  The replay at start-up on a file of which the first \<open>length pre\<close> bytes are to be
  skipped; it needs memory and a kernel that maps and unmaps the file.
\<close>

lemma replay_rebuilds:
  assumes inv: "engines_inv (sv_engines sv)" and legal: "legal_log cs (store_of (sv_engines sv))"
    and disk: "fs path = Some (pre @ aof_image cs)" "path \<noteq> []" "length (pre @ aof_image cs) \<le> SIZE_MAX"
    and s: "plenty s" "\<forall>n. s_oscall s n"
  shows "\<exists>g s'. kvs_aof_replay fs path (int (length pre)) kvs_recovery_fields_protocol sv s = Inr (0, sv\<lparr>sv_engines := g\<rparr>, s') \<and>
    engines_inv g \<and> store_of g = replayed cs (store_of (sv_engines sv)) \<and> ledger (sv\<lparr>sv_engines := g\<rparr>) s' = ledger sv s \<and>
    s_oscall s' = s_oscall s"
proof -
  obtain s1 where m: "kvs_mapped_file_open fs path s = (Mapped (pre @ aof_image cs), s1)" "s_oscall s1 = s_oscall s"
    using mapped_open_willing [of fs path "pre @ aof_image cs" s] disk s(2) by blast
  then have s1: "s_live s1 = s_live s" "s_alloc s1 = s_alloc s"
    using disk(1) by (auto elim!: mapped_open_cases [of fs path _ s])
  then have "plenty s1" using s(1) by (simp add: plenty_def)
  then obtain g s2 where run: "run_commands kvs_recovery_fields_protocol cs sv s1 = Inr (0, sv\<lparr>sv_engines := g\<rparr>, s2)"
      "engines_inv g" "store_of g = replayed cs (store_of (sv_engines sv))"
      "ledger (sv\<lparr>sv_engines := g\<rparr>) s2 = ledger sv s1" "same_kernel s1 s2"
    using recover_log [OF inv legal] by blast
  have s2: "s_oscall s2 = s_oscall s"
    using m(2) run(5) by (simp add: same_kernel_def)
  then have os: "\<forall>n. s_oscall s2 n"
    using s(2) by simp
  obtain s3 where "kvs_mapped_file_close (pre @ aof_image cs) s2 = (0, s3)" "s_live s3 = s_live s2" "s_oscall s3 = s_oscall s2"
    using mapped_close_willing [OF os] by blast
  then show ?thesis
    using aof_replay_whole [OF m(1) legal_log_commands [OF legal], of kvs_recovery_fields_protocol sv] run s1 s2
    by (auto simp: ledger_def)
qed

section \<open>Serving clients\<close>

text \<open>A sequence of messages, each with the output buffer of the connection it came from.\<close>

fun serve :: "(bytes \<times> kvs_output_buffer_t) list \<Rightarrow> server \<Rightarrow> sys \<Rightarrow> (server \<times> sys) run" where
  "serve [] sv s = Inr (sv, s)"
| "serve ((msg, buf) # rs) sv s = bindr (kvs_network_protocol msg buf sv s) (\<lambda>(_, _, _, sv, s). serve rs sv s)"

lemma serve_journal:
  "journal path pre st cs sv \<Longrightarrow> log_path path \<Longrightarrow> sv_mode sv \<noteq> PERSISTENCE_SNAPSHOT \<Longrightarrow>
   list_all (\<lambda>(msg, buf). output_ok buf) rs \<Longrightarrow> serve rs sv s = Inr (sv', s') \<Longrightarrow>
   \<exists>new. length new \<le> length rs \<and> journal path pre st (cs @ new) sv' \<and> ledger sv' s' = ledger sv s"
proof (induction rs arbitrary: cs sv s)
  case Nil
  then show ?case by auto
next
  case (Cons r rs)
  obtain msg buf where r: "r = (msg, buf)" by (cases r)
  obtain a b buf1 sv1 s1 where one: "kvs_network_protocol msg buf sv s = Inr (a, b, buf1, sv1, s1)" "serve rs sv1 s1 = Inr (sv', s')"
    using Cons.prems(5) r by (auto simp: bindr_eq_Inr)
  have "advances path pre st cs sv s sv1 s1"
    using network_advances [OF Cons.prems(1-3) _ one(1)] Cons.prems(4) r by simp
  then obtain new where new: "length new \<le> 1" "journal path pre st (cs @ new) sv1" "ledger sv1 s1 = ledger sv s" "sv_mode sv1 = sv_mode sv"
    by (auto simp: advances_def)
  then obtain later where "length later \<le> length rs" "journal path pre st ((cs @ new) @ later) sv'" "ledger sv' s' = ledger sv1 s1"
    using Cons.IH [OF new(2) Cons.prems(2) _ _ one(2)] Cons.prems(3,4) by auto
  then show ?case
    using new(1,3) by (intro exI [of _ "new @ later"]) simp
qed

end
