(* ===== verification/Client_Writes.thy ===== *)
theory Client_Writes
  imports Journal
begin

text \<open>
  A write command of a client, from the bytes on its connection to the reply in its output
  buffer: on a machine that does not refuse, the reply says whether the command was carried
  out, and it is in the journal exactly when it was.
\<close>

text \<open>
  A reply is written where the queued output ends: the queue is kept, the reply follows it.
\<close>

lemma put_reply_fits:
  assumes "output_ok buf" "out_data buf \<noteq> None" "int (length reply) \<le> out_capacity buf - out_length buf"
  shows "\<exists>buf'. put_reply reply buf = Inr (int (length reply), buf') \<and> output_ok buf' \<and> out_data buf' \<noteq> None \<and>
    out_length buf' = out_length buf \<and> out_capacity buf' = out_capacity buf \<and>
    contents (out_data buf') (out_length buf + int (length reply)) = contents (out_data buf) (out_length buf) @ reply"
proof -
  obtain d where d: "out_data buf = Some d" "int (length d) = out_capacity buf" "0 \<le> out_length buf" "out_length buf \<le> int (length d)"
    using assms(1,2) by (auto simp: output_ok_def buffer_ok_def split: option.splits)
  obtain n where n: "out_length buf = int n" using d(3) by (auto elim: nonneg_int_cases)
  then have "n + length reply \<le> length d" using assms(3) d(2) by linarith
  then show ?thesis
    using assms d n
    by (auto simp: put_reply_def reply_region_def with_region_def store_at_def output_ok_def buffer_ok_def contents_def nat_add_distrib min_def
        simp flip: length_greater_0_conv)
qed

lemma with_region_ok:
  assumes "output_ok buf" "out_data buf \<noteq> None" "length region = length (reply_region buf)"
  shows "output_ok (with_region buf region)" "out_data (with_region buf region) \<noteq> None"
    "out_length (with_region buf region) = out_length buf" "out_capacity (with_region buf region) = out_capacity buf"
    "contents (out_data (with_region buf region)) (out_length buf) = contents (out_data buf) (out_length buf)"
proof -
  obtain d where d: "out_data buf = Some d" "int (length d) = out_capacity buf" "0 \<le> out_length buf" "out_length buf \<le> int (length d)"
    using assms(1,2) by (auto simp: output_ok_def buffer_ok_def split: option.splits)
  obtain n where n: "out_length buf = int n" using d(3) by (auto elim: nonneg_int_cases)
  show "output_ok (with_region buf region)" "out_data (with_region buf region) \<noteq> None"
    "out_length (with_region buf region) = out_length buf" "out_capacity (with_region buf region) = out_capacity buf"
    "contents (out_data (with_region buf region)) (out_length buf) = contents (out_data buf) (out_length buf)"
    using assms(1,3) d n by (auto simp: output_ok_def buffer_ok_def with_region_def reply_region_def contents_def)
qed

lemma reply_region_length:
  assumes "output_ok buf" "out_data buf \<noteq> None"
  shows "int (length (reply_region buf)) = out_capacity buf - out_length buf"
  using assms by (auto simp: output_ok_def buffer_ok_def reply_region_def split: option.splits)

definition write_reply :: "engine_op \<Rightarrow> int \<Rightarrow> bytes" where
  "write_reply x ret = client_reply (op_code x) (exec_status (op_code x) ret EXEC_FAILED)"

lemma write_reply_code:
  "client_reply (5 * e + op_code x) (exec_status (5 * e + op_code x) ret EXEC_FAILED) = write_reply x ret"
  unfolding write_reply_def client_reply_def exec_status_def op_code_mod by (cases x) simp_all

lemma write_reply_short: "length (write_reply x ret) \<le> 25"
  by (cases x) (simp_all add: write_reply_def client_reply_def exec_status_def)

lemma write_reply_ok: "write_reply x ret = write_reply x 0 \<longleftrightarrow> ret = 0"
  by (cases x) (auto simp: write_reply_def client_reply_def exec_status_def)


text \<open>The dispatch of a write command of a client on a server that takes writes.\<close>

lemma dispatch_client_write:
  assumes c: "op_of c = Some (e, x)" and role: "sv_role sv \<noteq> ROLE_REPLICA"
    and buf: "output_ok buf" "out_data buf \<noteq> None" "64 \<le> out_capacity buf - out_length buf"
    and exec: "exec_engine (5 * e + op_code x) (Some (op_key x)) (op_value x) (sv_engines sv) s1 = Inr (ret, op_text x ret, g, s2)"
    and log: "log_command (5 * e + op_code x) ret c SOURCE_CLIENT (sv\<lparr>sv_engines := g\<rparr>) s2 = Inr (sv', s3)"
  shows "\<exists>buf'. execute_dispatch c buf SOURCE_CLIENT sv s1 = Inr (int (length (write_reply x ret)),
        exec_status (5 * e + op_code x) ret EXEC_FAILED, buf', sv', s3) \<and>
      out_length buf' = out_length buf \<and> out_capacity buf' = out_capacity buf \<and>
      contents (out_data buf') (out_length buf + int (length (write_reply x ret))) =
        contents (out_data buf) (out_length buf) @ write_reply x ret"
proof -
  note d = op_of_command [OF c] and n = write_op_names [OF c]
  have short: "length (op_text x ret) < length (reply_region buf)" "reply_region buf \<noteq> []"
    using op_text_short [of x ret] reply_region_length [OF buf(1,2)] buf(3) by auto
  define region where "region = op_text x ret @ [NUL] @ drop (length (op_text x ret) + 1) (reply_region buf)"
  have len: "length region = length (reply_region buf)"
    using short by (simp add: region_def)
  have "kvs_execute_tokens c (reply_region buf) SOURCE_CLIENT EXEC_FAILED sv s1 =
      Inr (int (length (op_text x ret)), region, exec_status (5 * e + op_code x) ret EXEC_FAILED, sv', s3)"
    using exec log role short n(1) d(1,3,4,5)
    by (simp add: kvs_execute_tokens_def kvs_filter_protocol_def Let_def c_snprintf_fits region_def del: One_nat_def)
  moreover have "(5 * e + op_code x) mod 5 \<noteq> 1"
    unfolding op_code_mod by (cases x) simp_all
  moreover obtain buf' where "put_reply (write_reply x ret) (with_region buf region) = Inr (int (length (write_reply x ret)), buf')"
      "out_length buf' = out_length buf" "out_capacity buf' = out_capacity buf"
      "contents (out_data buf') (out_length buf + int (length (write_reply x ret))) =
        contents (out_data buf) (out_length buf) @ write_reply x ret"
    using put_reply_fits [of "with_region buf region" "write_reply x ret"] with_region_ok [OF buf(1,2) len]
      write_reply_short [of x ret] buf(3) by auto
  ultimately show ?thesis
    using role n d(1,5,6) by (auto simp: execute_dispatch_def execute_other_def Let_def write_reply_code)
qed

text \<open>The entry in the log, on a machine that has memory and whose kernel makes progress.\<close>

lemma log_command_willing:
  assumes w: "aw_fd (sv_aof sv) = Some path" "idle (aw_io (sv_aof sv))" and s: "willing s"
    and c: "length c = 2 \<or> length c = 3" "length (command_bytes c) \<le> SIZE_MAX"
      "aw_offset (sv_aof sv) + length (command_bytes c) \<le> OFF_MAX" "length (command_bytes c) < s_patience s"
  shows "\<exists>sv' s'. log_command cmd ret c source sv s = Inr (sv', s')"
  using aof_append_succeeds [OF w s c, of "sv_files sv"] by (auto simp: log_command_def)

lemma client_write:
  assumes j: "journal path pre st cs sv" and cfg: "sv_role sv \<noteq> ROLE_REPLICA" "sv_mode sv \<noteq> PERSISTENCE_SNAPSHOT"
    and c: "op_of c = Some (e, x)" "keys_ok c" "plain c" "length (command_bytes c) \<le> KVS_MAX_CLIENT_COMMAND_BYTES"
    and buf: "output_ok buf" "out_data buf \<noteq> None" "64 \<le> out_capacity buf - out_length buf"
    and w: "idle (aw_io (sv_aof sv))" "aw_offset (sv_aof sv) + length (command_bytes c) \<le> OFF_MAX"
    and s: "willing s" "length (command_bytes c) < s_patience s"
  shows "\<exists>ret buf' sv' s'. kvs_network_protocol (command_bytes c @ rest) buf sv s =
        Inr (int (length (write_reply x ret)), int (length (command_bytes c)), buf', sv', s') \<and>
      (ret = 0 \<longleftrightarrow> enabled c (store_of (sv_engines sv))) \<and>
      contents (out_data buf') (out_length buf + int (length (write_reply x ret))) =
        contents (out_data buf) (out_length buf) @ write_reply x ret \<and>
      journal path pre st (if ret = 0 then cs @ [c] else cs) sv' \<and> ledger sv' s' = ledger sv s"
proof -
  note d = op_of_command [OF c(1)] and names = write_op_names [OF c(1)]
  have size: "length (command_bytes c) \<le> SIZE_MAX"
    using c(4) by (simp add: KVS_MAX_CLIENT_COMMAND_BYTES_def SIZE_MAX_def)
  then have sz: "length t \<noteq> SIZE_MAX" if "t \<in> set c" for t
    using token_shorter [OF that] by simp
  have plenty: "plenty s" using s(1) by (simp add: willing_def)
  obtain s1 where copied: "copy_fields (map Some c) 0 s = (Some c, s1)"
    using plain_copied [OF c(3) sz plenty] by blast
  then have s1: "s_alloc s1 = s_alloc s" "s_live s1 = s_live s + int (length c)" "same_kernel s s1"
    using copy_fields_law [OF copied] copy_fields_frame [OF copied] by auto
  have inv: "engines_inv (sv_engines sv)" and fd: "aw_fd (sv_aof sv) = Some path"
    using j by (simp_all add: journal_def)
  obtain ret g s2 where x: "exec_engine (5 * e + op_code x) (Some (op_key x)) (op_value x) (sv_engines sv) s1 = Inr (ret, op_text x ret, g, s2)"
      "engines_inv g" "balanced engines_owned (sv_engines sv) s1 g s2"
      "store_of g = (if ret = 0 then effect c (store_of (sv_engines sv)) else store_of (sv_engines sv))"
      "ret = 0 \<longrightarrow> enabled c (store_of (sv_engines sv))" "plenty s1 \<and> enabled c (store_of (sv_engines sv)) \<longrightarrow> ret = 0"
    by (rule exec_write_law [OF inv c(1,2), of s1])
  have ret: "ret = 0 \<longleftrightarrow> enabled c (store_of (sv_engines sv))"
    using x(5,6) plenty s1(1) by (auto simp: plenty_def)
  have s2: "willing s2" "s_patience s2 = s_patience s"
    using s(1) s1 x(3) exec_engine_frame [OF x(1)] by (auto simp: willing_def same_kernel_def progressing_def plenty_def balanced_def)
  obtain sv' s3 where log: "log_command (5 * e + op_code x) ret c SOURCE_CLIENT (sv\<lparr>sv_engines := g\<rparr>) s2 = Inr (sv', s3)"
    using log_command_willing [of "sv\<lparr>sv_engines := g\<rparr>" path s2 c "5 * e + op_code x" ret SOURCE_CLIENT] fd w s2 s(2) size d(7) by auto
  have step: "journal path pre st (if ret = 0 then cs @ [c] else cs) sv' \<and> s_live s3 = s_live s2 \<and>
      (\<exists>w fs. sv' = sv\<lparr>sv_engines := g, sv_aof := w, sv_files := fs\<rparr>)"
    using log_step [OF j x(2,4) _ c(2,3) _ cfg(2) names(5) log] ret by simp
  obtain buf' where "execute_dispatch c buf SOURCE_CLIENT sv s1 = Inr (int (length (write_reply x ret)),
        exec_status (5 * e + op_code x) ret EXEC_FAILED, buf', sv', s3)"
      and b: "out_length buf' = out_length buf" "out_capacity buf' = out_capacity buf"
      "contents (out_data buf') (out_length buf + int (length (write_reply x ret))) =
        contents (out_data buf) (out_length buf) @ write_reply x ret"
    using dispatch_client_write [OF c(1) cfg(1) buf x(1) log] by blast
  moreover have usable: "\<not> (out_data buf = None \<or> out_capacity buf \<le> 0 \<or> out_length buf < 0 \<or> out_length buf > out_capacity buf)"
    using buf by (auto simp: output_ok_def buffer_ok_def)
  ultimately have exec: "kvs_execute_fields (map Some c) buf SOURCE_CLIENT sv s =
      Inr (int (length (write_reply x ret)), exec_status (5 * e + op_code x) ret EXEC_FAILED, buf', sv', free_blocks (length c) s3)"
    using copied d(5,7) plain_check [OF c(3) sz]
    by (auto simp: kvs_execute_fields_def kvs_fields_to_tokens_def KVS_MAX_TOKENS_def INT_MAX_def)
  have parse: "kvs_parse_command_limited (Some (command_bytes c @ rest)) KVS_MAX_TOKENS KVS_MAX_CLIENT_COMMAND_BYTES =
      Complete (c, length (command_bytes c))"
    by (rule parse_command_bytes) (use d(5,7) c(4) in \<open>auto simp: KVS_MAX_TOKENS_def KVS_MAX_CLIENT_COMMAND_BYTES_def SIZE_MAX_def\<close>)
  have "command_bytes c @ rest \<noteq> []"
    by (simp add: command_bytes_def)
  moreover have "\<not> (int (length (write_reply x ret)) < 0 \<or> int (length (write_reply x ret)) > out_capacity buf' - out_length buf')"
    using write_reply_short [of x ret] buf(3) b(1,2) by linarith
  ultimately have "kvs_network_protocol (command_bytes c @ rest) buf sv s =
      Inr (int (length (write_reply x ret)), int (length (command_bytes c)), buf', sv', free_blocks (length c) s3)"
    using usable by (simp only: kvs_network_protocol_def Let_def parse exec parsed.case prod.case bindr_simps if_False)
  moreover have "ledger sv' (free_blocks (length c) s3) = ledger sv s"
    using step x(3) s1(2) by (auto simp: ledger_def balanced_def)
  ultimately show ?thesis
    using ret conjunct1 [OF step] b(3) by blast
qed

end
