(* ===== verification/Server.thy ===== *)
theory Server
  imports Replication Config Allocator
begin

text \<open>
  Start-up and shutdown of the process, \<open>kvs_server_run\<close> and \<open>main\<close> of \<open>src/src/kvstore.c\<close>:
  creating the engines, recovering the data the way the configuration says, starting the
  replication, running the network, and giving everything back in the opposite order.
  The scheduler of the coroutine library is a parameter of the model.
\<close>

definition EXIT_FAILURE :: int where
  "EXIT_FAILURE = 1"

definition EXIT_SUCCESS :: int where
  "EXIT_SUCCESS = 0"

section \<open>Recovering the data\<close>

text \<open>A step of the start-up: \<open>Some\<close> of the exit code to return, or \<open>None\<close> to go on.\<close>

definition give_up :: "int \<Rightarrow> server \<Rightarrow> sys \<Rightarrow> (int option \<times> server \<times> sys) run" where
  "give_up code sv s =
     bindr (dest_kvengine (sv_engines sv) s) (\<lambda>(g, s). Inr (Some code, sv\<lparr>sv_engines := g\<rparr>, s))"

definition open_aof :: "bytes \<Rightarrow> server \<Rightarrow> sys \<Rightarrow> (int option \<times> server \<times> sys) run" where
  "open_aof path sv s =
     (case kvs_aof_open path (sv_aof sv) (sv_files sv) s of
        (r, w, fs, s) \<Rightarrow>
          let sv = sv\<lparr>sv_aof := w, sv_files := fs\<rparr>
          in if r < 0 then give_up EXIT_FAILURE sv s else Inr (None, sv, s))"

text \<open>Replay from an offset, then open the same file for appending.\<close>

definition replay_and_open :: "bytes \<Rightarrow> int \<Rightarrow> server \<Rightarrow> sys \<Rightarrow> (int option \<times> server \<times> sys) run" where
  "replay_and_open path offset sv s =
     bindr (kvs_aof_replay (sv_files sv) path offset kvs_recovery_fields_protocol sv s) (\<lambda>(r, sv, s).
     if r < 0 then give_up EXIT_FAILURE sv s else open_aof path sv s)"

definition recover_data :: "kvs_config_t \<Rightarrow> server \<Rightarrow> sys \<Rightarrow> (int option \<times> server \<times> sys) run" where
  "recover_data config sv s =
     (if cf_role config = ROLE_REPLICA then open_aof ''appendonly.aof'' sv s
      else case sv_mode sv of
        PERSISTENCE_SNAPSHOT \<Rightarrow>
          bindr (kvs_snapshot_store_load (sv_files sv) ''snapshot.bin'' (sv_engines sv) s) (\<lambda>(r, g, s).
          let sv = sv\<lparr>sv_engines := g\<rparr>
          in if r < 0 then give_up EXIT_FAILURE sv s else Inr (None, sv, s))
      | PERSISTENCE_AOF \<Rightarrow> replay_and_open ''commands.aof'' 0 sv s
      | PERSISTENCE_LEGACY_HYBRID \<Rightarrow>
          bindr (kvs_snapshot_store_load_with_checkpoint (sv_files sv) ''snapshot.db'' (sv_engines sv) s) (\<lambda>(r, cp, g, s).
          let sv = sv\<lparr>sv_engines := g\<rparr>; has = (case cp of None \<Rightarrow> False | Some c \<Rightarrow> has_offset c \<noteq> 0)
          in if r < 0 \<or> r = 0 \<and> \<not> has then give_up EXIT_FAILURE sv s
             else replay_and_open ''appendonly.aof'' (if r = 1 then 0 else ck_offset (the cp)) sv s))"

section \<open>Running and shutting down\<close>

definition kvs_close_current_persistence :: "server \<Rightarrow> sys \<Rightarrow> server \<times> sys" where
  "kvs_close_current_persistence sv s =
     (if sv_mode sv \<noteq> PERSISTENCE_SNAPSHOT
      then (case kvs_aof_close (sv_aof sv) s of (_, w, s) \<Rightarrow> (sv\<lparr>sv_aof := w\<rparr>, s))
      else (sv, s))"

definition shut_down :: "int \<Rightarrow> node \<Rightarrow> sys \<Rightarrow> (int \<times> node \<times> sys) run" where
  "shut_down code n s =
     (case kvs_replication_destroy n s of
        (n, s) \<Rightarrow>
          (case kvs_close_current_persistence (nd_server n) s of
             (sv, s) \<Rightarrow>
               bindr (dest_kvengine (sv_engines sv) s) (\<lambda>(g, s).
               Inr (code, n\<lparr>nd_server := sv\<lparr>sv_engines := g\<rparr>\<rparr>, s))))"

text \<open>The client protocol as the runtime calls it.\<close>

definition client_handler :: "node msg_handler" where
  "client_handler fd msg out n s =
     bindr (kvs_network_protocol msg out (nd_server n) s) (\<lambda>(r, used, out, sv, s). Inr (r, used, out, n\<lparr>nd_server := sv\<rparr>, s))"

text \<open>The listener of a stand-alone server and of a replica, and that of a primary.\<close>

definition service_listener :: "kvs_config_t \<Rightarrow> node kvs_listener_config_t" where
  "service_listener config =
     \<lparr>lc_port = cf_service_port config, lc_handler = Some client_handler, lc_stream_handler = None,
      lc_bind_ip = Some (cf_bind_ip config), lc_replication_handler = None, lc_replication_stream_handler = None,
      lc_replication_close_handler = None\<rparr>"

definition primary_listener :: "kvs_config_t \<Rightarrow> node kvs_listener_config_t" where
  "primary_listener config =
     (service_listener config)\<lparr>lc_replication_handler := Some kvs_replication_network_protocol,
        lc_replication_stream_handler := Some kvs_replication_stream,
        lc_replication_close_handler := Some kvs_replication_on_replica_disconnected\<rparr>"

text \<open>\<open>inet_pton\<close> says which strings are addresses; the return code of the runtime is kept.\<close>

definition run_network :: "(bytes \<Rightarrow> bool) \<Rightarrow> node schedule \<Rightarrow> kvs_config_t \<Rightarrow> node \<Rightarrow> sys \<Rightarrow> (int \<times> node \<times> sys) run" where
  "run_network inet_pton schedule config n s =
     bindr
       (case cf_role config of
          ROLE_PRIMARY \<Rightarrow> ntyco_start_listeners inet_pton schedule [primary_listener config] n s
        | ROLE_REPLICA \<Rightarrow>
            (case kvs_replication_build_connector_config n of
               None \<Rightarrow> Inr (-1, [], n, s)
             | Some connector \<Rightarrow> ntyco_start_runtime inet_pton schedule [service_listener config] [connector] n s)
        | ROLE_STANDALONE \<Rightarrow> ntyco_start_listeners inet_pton schedule [service_listener config] n s)
       (\<lambda>(r, _, n, s). Inr (r, n, s))"

definition serve_configured :: "(bytes \<Rightarrow> bool) \<Rightarrow> node schedule \<Rightarrow> kvs_config_t \<Rightarrow> node \<Rightarrow> sys \<Rightarrow> (int \<times> node \<times> sys) run" where
  "serve_configured inet_pton schedule config n s =
     (case (if cf_role config = ROLE_PRIMARY
            then kvs_replication_start_rdma_listener inet_pton (Some (cf_bind_ip config)) (cf_rdma_port config) n
            else (0, n)) of
        (r, n) \<Rightarrow>
          if r < 0 then shut_down EXIT_FAILURE n s
          else
            bindr (run_network inet_pton schedule config n s) (\<lambda>(r, n, s).
            shut_down (if r < 0 then -1 else EXIT_SUCCESS) n s))"

definition start_replication :: "kvs_config_t \<Rightarrow> node \<Rightarrow> sys \<Rightarrow> (int option \<times> node \<times> sys) run" where
  "start_replication config n s =
     (if cf_role config = ROLE_PRIMARY \<or> cf_role config = ROLE_REPLICA then
        bindr (kvs_replication_init (cf_role config) (Some (cf_primary_host config)) (cf_primary_port config) True True n s)
          (\<lambda>(r, n, s).
             if r < 0 then
               (case kvs_close_current_persistence (nd_server n) s of
                  (sv, s) \<Rightarrow> bindr (give_up (-1) sv s) (\<lambda>(code, sv, s). Inr (code, n\<lparr>nd_server := sv\<rparr>, s)))
             else Inr (None, n, s))
      else Inr (None, n, s))"

definition kvs_server_run :: "(bytes \<Rightarrow> bool) \<Rightarrow> node schedule \<Rightarrow> kvs_config_t \<Rightarrow> node \<Rightarrow> sys \<Rightarrow> (int \<times> node \<times> sys) run" where
  "kvs_server_run inet_pton schedule config n s =
     (let sv = (nd_server n)\<lparr>sv_role := cf_role config, sv_mode := cf_persistence_mode config\<rparr> in
      bindr (init_kvengine (sv_engines sv) s) (\<lambda>(r, g, s).
      let sv = sv\<lparr>sv_engines := g\<rparr> in
      if r < 0 then Inr (EXIT_FAILURE, n\<lparr>nd_server := sv\<rparr>, s)
      else
        bindr (recover_data config sv s) (\<lambda>(code, sv, s).
        let n = n\<lparr>nd_server := sv\<rparr> in
        case code of
          Some c \<Rightarrow> Inr (c, n, s)
        | None \<Rightarrow>
            bindr (start_replication config n s) (\<lambda>(code, n, s).
            case code of
              Some c \<Rightarrow> Inr (c, n, s)
            | None \<Rightarrow> serve_configured inet_pton schedule config n s))))"

text \<open>
  The allocator is there before the engines and goes after them; \<open>used\<close> is what the
  requests made through \<open>kvs_malloc\<close> and \<open>kvs_free\<close> in between turn its state into.
\<close>

definition main ::
    "(bytes \<Rightarrow> bool) \<Rightarrow> node schedule \<Rightarrow> (allocator \<Rightarrow> allocator) \<Rightarrow> bytes list \<Rightarrow> allocator \<Rightarrow> node \<Rightarrow> sys \<Rightarrow> (int \<times> allocator \<times> node \<times> sys) run" where
  "main inet_pton schedule used argv A n s =
     (if length argv \<noteq> 2 then Inr (EXIT_FAILURE, A, n, s)
      else case kvs_config_load inet_pton (nd_files n) (argv ! 1) s of
        (Inl _, s) \<Rightarrow> Inr (EXIT_FAILURE, A, n, s)
      | (Inr config, s) \<Rightarrow>
          (case kvs_allocator_init (cf_allocator_backend config) A of
             (r, A) \<Rightarrow>
               if r \<noteq> 0 then Inr (EXIT_FAILURE, A, n, s)
               else
                 bindr (kvs_server_run inet_pton schedule config n s) (\<lambda>(result, n, s).
                 bindr (kvs_allocator_destroy (used A)) (\<lambda>(r, A).
                 Inr (if r \<noteq> 0 then EXIT_FAILURE else result, A, n, s)))))"

end
