(* ===== verification/Recovery.thy ===== *)
theory Recovery
  imports Client_Writes Server Samples
begin

text \<open>
  Restarting from the append-only file: what \<open>kvs_server_run\<close> makes of the file a server
  has left behind, and that the journal of the old process is the journal of the new one.
\<close>

lemma empty_store:
  assumes "engines_inv g" "engines_empty g"
  shows "store_of g = (\<lambda>_. Map.empty)"
proof -
  have inv: "array_inv (global_array g)" "rbtree_inv (global_rbtree g)" "hash_inv (global_hash g)" "skiplist_inv (global_skiplist g)"
    using assms(1) by (simp_all add: engines_inv_def)
  show ?thesis
    using array.entries_law [OF inv(1)] rbtree.entries_law [OF inv(2)] hash.entries_law [OF inv(3)] skip.entries_law [OF inv(4)] assms(2)
    by (auto simp: engines_empty_def store_of_def fun_eq_iff)
qed

lemma open_willing:
  assumes "path \<noteq> []" "aw_fd w = None" "\<not> io_initialized (aw_io w)" "\<forall>n. s_oscall s n"
  obtains w' fs' s' where "kvs_aof_open path w fs s = (0, w', fs', s')"
  using assms by (simp add: kvs_aof_open_def os_call_def kvs_uring_io_init_def Let_def)

text \<open>
  A process that has just created its engines, on a file system where \<open>path\<close> holds a
  legal log: it ends up with the store the log stands for, appending behind it.
\<close>

lemma replay_and_open_journal:
  assumes g: "engines_inv (sv_engines sv)" "legal_log cs (store_of (sv_engines sv))"
    and disk: "sv_files sv path = Some (pre @ aof_image cs)" "path \<noteq> []" "length (pre @ aof_image cs) \<le> SIZE_MAX"
    and w: "sv_aof sv = aof_closed" and s: "plenty s" "\<forall>n. s_oscall s n"
  shows "\<exists>sv' s'. replay_and_open path (int (length pre)) sv s = Inr (None, sv', s') \<and>
    journal path pre (store_of (sv_engines sv)) cs sv' \<and> ledger sv' s' = ledger sv s \<and>
    (\<forall>p. p \<noteq> path \<longrightarrow> sv_files sv' p = sv_files sv p)"
proof -
  obtain g' s1 where r: "kvs_aof_replay (sv_files sv) path (int (length pre)) kvs_recovery_fields_protocol sv s
        = Inr (0, sv\<lparr>sv_engines := g'\<rparr>, s1)" "engines_inv g'" "store_of g' = replayed cs (store_of (sv_engines sv))"
      "ledger (sv\<lparr>sv_engines := g'\<rparr>) s1 = ledger sv s" "s_oscall s1 = s_oscall s"
    using replay_rebuilds [of sv cs "sv_files sv" path pre s] g disk s by blast
  obtain w' fs' s2 where o: "kvs_aof_open path aof_closed (sv_files sv) s1 = (0, w', fs', s2)"
    by (rule open_willing [of path aof_closed s1]) (use disk s r(5) in \<open>simp_all add: aof_closed_def\<close>)
  have opened: "aof_ok w' fs' \<and> aw_fd w' = Some path \<and> file_data fs' path = file_data (sv_files sv) path \<and>
      aw_offset w' = length (file_data (sv_files sv) path) \<and> (\<forall>p. p \<noteq> path \<longrightarrow> fs' p = sv_files sv p) \<and> s_live s2 = s_live s1"
    using aof_open_law [OF o] by (simp add: aof_closed_def)
  have "fs' path = Some (pre @ aof_image cs)"
    using o disk(1) by (auto simp: kvs_aof_open_def file_data_def os_call_def kvs_uring_io_init_def Let_def aof_closed_def split: if_splits bool.splits)
  then show ?thesis
    using r o opened w g disk(1)
    by (auto simp: replay_and_open_def open_aof_def journal_def ledger_def file_data_def Let_def)
qed

lemma aof_restart:
  assumes j: "journal ''commands.aof'' [] (\<lambda>_. Map.empty) cs sv"
    and size: "length (aof_image cs) \<le> SIZE_MAX" and config: "cf_role config = ROLE_STANDALONE"
    and started: "engines_inv (sv_engines new)" "engines_empty (sv_engines new)" "sv_mode new = PERSISTENCE_AOF"
      "sv_aof new = aof_closed" "sv_files new = sv_files sv"
    and t: "plenty t" "\<forall>n. s_oscall t n"
  shows "\<exists>sv' t'. recover_data config new t = Inr (None, sv', t') \<and> journal ''commands.aof'' [] (\<lambda>_. Map.empty) cs sv' \<and>
    ledger sv' t' = ledger new t"
proof -
  have disk: "sv_files new ''commands.aof'' = Some ([] @ aof_image cs)" and legal: "legal_log cs (\<lambda>_. Map.empty)"
    using j started(5) by (simp_all add: journal_def)
  show ?thesis
    using replay_and_open_journal [of new cs "''commands.aof''" "[]" t] started size t disk legal config
    by (auto simp: recover_data_def empty_store)
qed

text \<open>
  C33.  Nothing a client was told is lost by a restart.  A stand-alone server in append-only
  mode handles any sequence of messages, whatever their bytes; afterwards a new process
  started on the files it left behind recovers, without running out of anything, exactly the
  four maps the old one held, and its append-only file again is the journal of its store.
\<close>

theorem crash_recovery:
  assumes "journal ''commands.aof'' [] (\<lambda>_. Map.empty) cs sv" "sv_mode sv = PERSISTENCE_AOF"
    and "list_all (\<lambda>(msg, buf). output_ok buf) rs" "serve rs sv s = Inr (sv', s')"
    and "length (file_data (sv_files sv') ''commands.aof'') \<le> SIZE_MAX"
    and "cf_role config = ROLE_STANDALONE" "engines_inv (sv_engines new)" "engines_empty (sv_engines new)"
      "sv_mode new = PERSISTENCE_AOF" "sv_aof new = aof_closed" "sv_files new = sv_files sv'" "plenty t" "\<forall>n. s_oscall t n"
  shows "\<exists>cs' sv'' t'. length cs' \<le> length cs + length rs \<and> recover_data config new t = Inr (None, sv'', t') \<and>
    journal ''commands.aof'' [] (\<lambda>_. Map.empty) cs' sv'' \<and> store_of (sv_engines sv'') = store_of (sv_engines sv') \<and>
    ledger sv' s' = ledger sv s \<and> ledger sv'' t' = ledger new t"
proof -
  obtain ds where ds: "length ds \<le> length rs" "journal ''commands.aof'' [] (\<lambda>_. Map.empty) (cs @ ds) sv'" "ledger sv' s' = ledger sv s"
    using serve_journal [OF assms(1) _ _ assms(3,4)] assms(2) by (auto simp: log_path_def)
  then have "length (aof_image (cs @ ds)) \<le> SIZE_MAX"
    using assms(5) by (simp add: journal_def file_data_def)
  then obtain sv'' t' where "recover_data config new t = Inr (None, sv'', t')"
      "journal ''commands.aof'' [] (\<lambda>_. Map.empty) (cs @ ds) sv''" "ledger sv'' t' = ledger new t"
    using aof_restart [OF ds(2) _ assms(6-13)] by blast
  then show ?thesis
    using ds by (auto simp: journal_def intro!: exI [of _ "cs @ ds"])
qed

text \<open>A server on an empty file, and the request \<open>SET k v\<close>.\<close>

definition new_server :: "engines \<Rightarrow> server" where
  "new_server g = \<lparr>sv_role = ROLE_STANDALONE, sv_mode = PERSISTENCE_AOF, sv_engines = g,
     sv_aof = \<lparr>aw_fd = Some ''commands.aof'', aw_offset = 0, aw_io = idle_ring\<rparr>, sv_files = [''commands.aof'' \<mapsto> []],
     sv_replication = replication_manager, sv_suffix = ''x''\<rparr>"

lemma new_server_journal:
  assumes "engines_inv g" "engines_empty g"
  shows "journal ''commands.aof'' [] (\<lambda>_. Map.empty) [] (new_server g)"
  using assms by (simp add: journal_def new_server_def aof_ok_def idle_ring empty_store)

definition sample_set :: "bytes list" where
  "sample_set = [''SET'', ''k'', ''v'']"

definition sample_buffer :: kvs_output_buffer_t where
  "sample_buffer = \<lparr>out_data = Some (replicate 64 NUL), out_length = 0, out_offset = 0, out_capacity = 64\<rparr>"

lemma sample_set_op: "op_of sample_set = Some (0, Op_set ''k'' ''v'')"
  by code_simp

lemma sample_set_bytes: "length (command_bytes sample_set) = 27"
  by code_simp

lemma sample_set_ok: "keys_ok sample_set" "enabled sample_set (\<lambda>_. Map.empty)"
  by (simp_all add: keys_ok_def enabled_def sample_set_op engine_fits_def KVS_ARRAY_SIZE_def)

lemma sample_set_plain: "plain sample_set"
  by code_simp

lemma sample_buffer_ok: "output_ok sample_buffer" "out_data sample_buffer \<noteq> None" "out_capacity sample_buffer - out_length sample_buffer = 64"
  by (simp_all add: sample_buffer_def output_ok_def buffer_ok_def INT_MAX_def)

lemma calm_willing: "willing calm" "s_patience calm = 1000" "\<forall>n. s_oscall calm n"
  by (simp_all add: willing_def progressing_def calm_def plenty_def KVS_URING_QUEUE_DEPTH_def)

lemma new_server_parts [simp]:
  "sv_role (new_server g) = ROLE_STANDALONE" "sv_mode (new_server g) = PERSISTENCE_AOF" "sv_engines (new_server g) = g"
  "aw_fd (sv_aof (new_server g)) = Some ''commands.aof''" "aw_offset (sv_aof (new_server g)) = 0" "idle (aw_io (sv_aof (new_server g)))"
  by (simp_all add: new_server_def idle_ring)


definition sample_result :: store where
  "sample_result = (\<lambda>_. Map.empty)(0 := [''k'' \<mapsto> ''v''])"

lemma sample_effect: "effect sample_set (\<lambda>_. Map.empty) = sample_result"
  by (simp add: effect_def sample_set_op sample_result_def)

text \<open>The server on the empty file carries the request out and puts it into its file.\<close>

lemma sample_write:
  assumes "engines_inv g" "engines_empty g"
  shows "\<exists>n used buf sv' s'. kvs_network_protocol (command_bytes sample_set) sample_buffer (new_server g) calm = Inr (n, used, buf, sv', s') \<and>
    journal ''commands.aof'' [] (\<lambda>_. Map.empty) [sample_set] sv'"
  using client_write [OF new_server_journal [OF assms] _ _ sample_set_op sample_set_ok(1) sample_set_plain _ sample_buffer_ok(1,2) _ _ _ calm_willing(1), of "[]"]
    sample_buffer_ok(3) sample_set_bytes calm_willing(2) sample_set_ok(2) empty_store [OF assms]
  by (auto simp: KVS_MAX_CLIENT_COMMAND_BYTES_def OFF_MAX_def)

text \<open>The process started on what another has left.\<close>

definition restarted :: "engines \<Rightarrow> server \<Rightarrow> server" where
  "restarted g sv = (new_server g)\<lparr>sv_aof := aof_closed, sv_files := sv_files sv\<rparr>"

lemma restarted_parts [simp]:
  "sv_engines (restarted g sv) = g" "sv_mode (restarted g sv) = PERSISTENCE_AOF" "sv_aof (restarted g sv) = aof_closed"
  "sv_files (restarted g sv) = sv_files sv"
  by (simp_all add: restarted_def)

lemma default_role: "cf_role config_defaults = ROLE_STANDALONE"
  by (simp add: config_defaults_def)

theorem crash_recovery_witness:
  "\<exists>g sv' s' sv'' t'. serve [(command_bytes sample_set, sample_buffer)] (new_server g) calm = Inr (sv', s') \<and>
     recover_data config_defaults (restarted g sv') calm = Inr (None, sv'', t') \<and> store_of (sv_engines sv'') = sample_result"
proof -
  obtain g where g: "engines_inv g" "engines_empty g"
    using engines_created_calm by blast
  obtain n used buf sv' s' where w: "kvs_network_protocol (command_bytes sample_set) sample_buffer (new_server g) calm = Inr (n, used, buf, sv', s')"
      "journal ''commands.aof'' [] (\<lambda>_. Map.empty) [sample_set] sv'"
    using sample_write [OF g] by blast
  then have "serve [(command_bytes sample_set, sample_buffer)] (new_server g) calm = Inr (sv', s')"
      "length (file_data (sv_files sv') ''commands.aof'') \<le> SIZE_MAX" "store_of (sv_engines sv') = sample_result"
    using sample_set_bytes by (simp_all add: journal_def file_data_def aof_image_def SIZE_MAX_def sample_effect)
  then show ?thesis
    using crash_recovery [OF new_server_journal [OF g], of "[(command_bytes sample_set, sample_buffer)]" calm sv' s' config_defaults "restarted g sv'" calm]
      g sample_buffer_ok(1) default_role calm_willing(3)
    by (simp del: serve.simps) blast
qed

text \<open>
  C34.  A write of a client that is answered with success survives.  On a machine that does
  not refuse, a stand-alone server answers a write command whose bytes have arrived, whatever
  follows them: with the success reply of the command if it can be carried out and with
  another one if not, behind the replies already queued.  If the process ends at once, the
  next one starts with exactly the effect of the command, or with no effect in the second case.
\<close>

theorem acknowledged_write_survives:
  assumes "journal ''commands.aof'' [] (\<lambda>_. Map.empty) cs sv" "sv_role sv \<noteq> ROLE_REPLICA" "sv_mode sv \<noteq> PERSISTENCE_SNAPSHOT"
    and "op_of c = Some (e, x)" "keys_ok c" "plain c" "length (command_bytes c) \<le> KVS_MAX_CLIENT_COMMAND_BYTES"
    and "output_ok buf" "out_data buf \<noteq> None" "64 \<le> out_capacity buf - out_length buf"
    and "idle (aw_io (sv_aof sv))" "aw_offset (sv_aof sv) + length (command_bytes c) \<le> OFF_MAX"
    and "willing s" "length (command_bytes c) < s_patience s"
    and "engines_inv g" "engines_empty g" "cf_role config = ROLE_STANDALONE" "plenty t" "\<forall>n. s_oscall t n"
  shows "\<exists>ret buf' sv' s' sv'' t'. kvs_network_protocol (command_bytes c @ rest) buf sv s =
        Inr (int (length (write_reply x ret)), int (length (command_bytes c)), buf', sv', s') \<and>
      contents (out_data buf') (out_length buf + int (length (write_reply x ret))) =
        contents (out_data buf) (out_length buf) @ write_reply x ret \<and>
      (write_reply x ret = write_reply x 0 \<longleftrightarrow> enabled c (store_of (sv_engines sv))) \<and>
      recover_data config (restarted g sv') t = Inr (None, sv'', t') \<and>
      store_of (sv_engines sv'') =
        (if enabled c (store_of (sv_engines sv)) then effect c (store_of (sv_engines sv)) else store_of (sv_engines sv))"
proof -
  obtain ret buf' sv' s' where w: "kvs_network_protocol (command_bytes c @ rest) buf sv s =
        Inr (int (length (write_reply x ret)), int (length (command_bytes c)), buf', sv', s')"
      "ret = 0 \<longleftrightarrow> enabled c (store_of (sv_engines sv))"
      "contents (out_data buf') (out_length buf + int (length (write_reply x ret))) =
        contents (out_data buf) (out_length buf) @ write_reply x ret"
      and j: "journal ''commands.aof'' [] (\<lambda>_. Map.empty) (if ret = 0 then cs @ [c] else cs) sv'"
    using client_write [OF assms(1-14)] by blast
  let ?cs = "if ret = 0 then cs @ [c] else cs"
  have "length (aof_image cs) + length (command_bytes c) \<le> OFF_MAX"
    using assms(1,12) by (simp add: journal_def)
  then have "length (aof_image ?cs) \<le> SIZE_MAX"
    by (simp add: aof_image_def OFF_MAX_def SIZE_MAX_def)
  then obtain sv'' t' where r: "recover_data config (restarted g sv') t = Inr (None, sv'', t')"
      "journal ''commands.aof'' [] (\<lambda>_. Map.empty) ?cs sv''"
    using aof_restart [OF j _ assms(17), of "restarted g sv'" t] assms(15-19) by auto
  have "store_of (sv_engines sv'') =
      (if enabled c (store_of (sv_engines sv)) then effect c (store_of (sv_engines sv)) else store_of (sv_engines sv))"
    using r(2) assms(1) w(2) by (auto simp: journal_def split: if_splits)
  then show ?thesis
    using w r(1) write_reply_ok by blast
qed

theorem acknowledged_write_survives_witness:
  "\<exists>g buf' sv' s' sv'' t'. kvs_network_protocol (command_bytes sample_set @ ''*'') sample_buffer (new_server g) calm =
        Inr (5, 27, buf', sv', s') \<and> contents (out_data buf') 5 = ''+OK'' @ CRLF \<and>
      recover_data config_defaults (restarted g sv') calm = Inr (None, sv'', t') \<and> store_of (sv_engines sv'') = sample_result"
proof -
  obtain g where g: "engines_inv g" "engines_empty g"
    using engines_created_calm by blast
  have "write_reply (Op_set ''k'' ''v'') 0 = ''+OK'' @ CRLF"
    by (simp add: write_reply_def client_reply_def exec_status_def)
  moreover have "out_length sample_buffer = 0" "contents (out_data sample_buffer) 0 = []"
    by (simp_all add: sample_buffer_def contents_def)
  ultimately show ?thesis
    using acknowledged_write_survives [OF new_server_journal [OF g] _ _ sample_set_op sample_set_ok(1) sample_set_plain _ sample_buffer_ok(1,2)
        _ _ _ calm_willing(1) _ g default_role plenty_calm calm_willing(3), of "''*''"]
      sample_buffer_ok(3) sample_set_bytes calm_willing(2) sample_set_ok(2) empty_store [OF g]
    by (auto simp: KVS_MAX_CLIENT_COMMAND_BYTES_def OFF_MAX_def sample_effect) blast
qed

end
