(* ===== verification/Ordered_Engines.thy ===== *)
theory Ordered_Engines
  imports Samples
begin

text \<open>
  The two ordered engines against one reference.  The skip list and the red-black tree
  share nothing in the source, yet on a machine with memory they are the same finite map
  with the same return codes, and they hand their bindings to a visitor in the same order.
\<close>

section \<open>The reference\<close>

fun ref_op :: "engine_op \<Rightarrow> (bytes \<rightharpoonup> bytes) \<Rightarrow> int \<times> (bytes \<rightharpoonup> bytes)" where
  "ref_op (Op_set k v) m = (0, m(k \<mapsto> v))"
| "ref_op (Op_mod k v) m = (if m k = None then (1, m) else (0, m(k \<mapsto> v)))"
| "ref_op (Op_del k) m = (if m k = None then (1, m) else (0, m(k := None)))"

fun ref_ops :: "engine_op list \<Rightarrow> (bytes \<rightharpoonup> bytes) \<Rightarrow> int list \<times> (bytes \<rightharpoonup> bytes)" where
  "ref_ops [] m = ([], m)"
| "ref_ops (x # xs) m = (case ref_op x m of (r, m) \<Rightarrow> case ref_ops xs m of (rs, m) \<Rightarrow> (r # rs, m))"

text \<open>Bindings in increasing order of their keys are determined by the map.\<close>

lemma sorted_entries_unique:
  fixes xs ys :: "(bytes \<times> bytes) list"
  assumes "sorted_wrt (<) (map fst xs)" "sorted_wrt (<) (map fst ys)" "map_of xs = map_of ys"
  shows "xs = ys"
proof (rule map_sorted_distinct_set_unique)
  have d: "distinct (map fst xs)" "distinct (map fst ys)"
    using assms(1,2) by (simp_all add: strict_sorted_iff)
  then show "set xs = set ys"
    using assms(3) by (metis map_of_eqI map_of_inject_set)
  show "inj_on fst (set xs \<union> set ys)"
    using d(1) by (simp add: \<open>set xs = set ys\<close> [symmetric] distinct_map)
qed (use assms in \<open>auto simp: strict_sorted_iff distinct_map\<close>)

section \<open>Ordered engines\<close>

locale ordered_engine = kv_engine inv "\<lambda>_. True" amap owned "\<lambda>_. True" entries eset emod edel eget eexist eforeach
  for inv :: "'e \<Rightarrow> bool"
    and amap owned entries eset emod edel eget eexist
    and eforeach :: "'e \<Rightarrow> (bytes \<Rightarrow> bytes \<Rightarrow> 'c \<Rightarrow> (int \<times> 'c) run) \<Rightarrow> 'c \<Rightarrow> (int \<times> 'c) run" +
  assumes del_missing: "inv e \<Longrightarrow> amap e k = None \<Longrightarrow> edel e (Some k) s = Inr (1, e, s)"
    and in_order: "inv e \<Longrightarrow> sorted_wrt (<) (map fst (entries e))"
begin

lemma op_reference:
  assumes "inv e" "plenty s"
  shows "\<exists>e' s'. run_op eset emod edel x e s = Inr (fst (ref_op x (amap e)), e', s') \<and> inv e' \<and>
    amap e' = snd (ref_op x (amap e)) \<and> plenty s'"
proof (cases x)
  case (Op_set k v)
  then show ?thesis
    using eset_law [OF assms(1) TrueI, of k v s] assms(2) by (auto simp: balanced_plenty)
next
  case (Op_mod k v)
  obtain r e' s' where "emod e (Some k) (Some v) s = Inr (r, e', s')" "inv e'" "balanced owned e s e' s'"
      "r = 0 \<and> amap e k \<noteq> None \<and> amap e' = (amap e)(k \<mapsto> v) \<or> r = 1 \<and> amap e k = None \<and> e' = e"
    using emod_law [OF assms(1) TrueI, of k v s] assms(2) by blast
  then show ?thesis
    using Op_mod assms(2) balanced_plenty [of owned e s e' s'] by auto
next
  case (Op_del k)
  then show ?thesis
    using edel_law [OF assms(1) TrueI, of k s] del_missing [OF assms(1), of k s] assms by (cases "amap e k") (auto simp: balanced_plenty)
qed

lemma run_reference:
  "inv e \<Longrightarrow> plenty s \<Longrightarrow> \<exists>e' s'. run_ops eset emod edel xs e s = Inr (fst (ref_ops xs (amap e)), e', s') \<and> inv e' \<and>
     amap e' = snd (ref_ops xs (amap e))"
proof (induction xs arbitrary: e s)
  case (Cons x xs)
  obtain e1 s1 where one: "run_op eset emod edel x e s = Inr (fst (ref_op x (amap e)), e1, s1)" "inv e1"
      "amap e1 = snd (ref_op x (amap e))" "plenty s1"
    using op_reference [OF Cons.prems, of x] by blast
  with Cons.IH [OF one(2,4)] show ?case
    by (auto simp: split_beta)
qed simp

end

interpretation skip_order: ordered_engine skiplist_inv skiplist_map skiplist_owned skiplist_entries
  kvs_skiplist_set kvs_skiplist_mod kvs_skiplist_del kvs_skiplist_get kvs_skiplist_exist kvs_skiplist_foreach
proof (rule ordered_engine.intro [OF skip.kv_engine_axioms], unfold_locales)
  show "kvs_skiplist_del sk (Some k) s = Inr (1, sk, s)" if "skiplist_inv sk" "skiplist_map sk k = None" for sk k s
    using skiplist_del_law [OF that(1), of k s] that(2) by auto
qed (rule skiplist_entries_sorted)

lemma rbtree_pairs_sorted: "rbtree_inv T \<Longrightarrow> sorted_wrt (<) (map fst (rbtree_entries T))"
  using rbtree_entries_tree rb_tree_search by (fastforce simp: rbtree_inv_def search_tree_def entry_at_def comp_def)

interpretation rbtree_order: ordered_engine rbtree_inv rbtree_map rbtree_owned rbtree_entries
  kvs_rbtree_set kvs_rbtree_mod kvs_rbtree_del kvs_rbtree_get kvs_rbtree_exist kvs_rbtree_foreach
proof (rule ordered_engine.intro [OF rbtree.kv_engine_axioms], unfold_locales)
  show "kvs_rbtree_del T (Some k) s = Inr (1, T, s)" if inv: "rbtree_inv T" and none: "rbtree_map T k = None" for T k s
  proof -
    obtain t where "rb_tree T t" using inv by (auto simp: rbtree_inv_def)
    then show ?thesis
      by (cases rule: rbtree_found [where k = k]) (use none in \<open>auto simp: kvs_rbtree_del_def\<close>)
  qed
qed (rule rbtree_pairs_sorted)

text \<open>
  C37.  The commands of the red-black tree and those of the skip list are interchangeable: any
  run of operations on either, newly created on a machine with memory, gives the return
  codes of the reference, and afterwards every \<open>get\<close>, every \<open>exist\<close> and every walk over
  all bindings, with any visitor, gives the same on both.
\<close>

theorem ordered_engines_agree:
  assumes "rb_nil T = None" "kvs_rbtree_create T s = (0, T0, s0)" "plenty s"
    and "sl_heap sk = (\<lambda>_. None)" "kvs_skiplist_create sk t = (0, sk0, t0)" "plenty t"
  shows "\<exists>T1 s1 sk1 t1. run_ops kvs_rbtree_set kvs_rbtree_mod kvs_rbtree_del xs T0 s0 = Inr (fst (ref_ops xs Map.empty), T1, s1) \<and>
    run_ops kvs_skiplist_set kvs_skiplist_mod kvs_skiplist_del xs sk0 t0 = Inr (fst (ref_ops xs Map.empty), sk1, t1) \<and>
    (\<forall>k. kvs_rbtree_get T1 (Some k) = Inr (snd (ref_ops xs Map.empty) k) \<and> kvs_skiplist_get sk1 (Some k) = kvs_rbtree_get T1 (Some k) \<and>
       kvs_skiplist_exist sk1 (Some k) = kvs_rbtree_exist T1 (Some k)) \<and>
    (\<forall>f c. kvs_skiplist_foreach sk1 f c = kvs_rbtree_foreach T1 f c)"
proof -
  have T0: "rbtree_inv T0" "rbtree_map T0 = Map.empty" "plenty s0"
    using rbtree_life.created [OF assms(1,2)] assms(3) by (simp_all add: plenty_def)
  have sk0: "skiplist_inv sk0" "skiplist_map sk0 = Map.empty" "plenty t0"
    using skip_life.created [OF assms(4,5)] assms(6) by (simp_all add: plenty_def)
  obtain T1 s1 where T1: "run_ops kvs_rbtree_set kvs_rbtree_mod kvs_rbtree_del xs T0 s0 = Inr (fst (ref_ops xs Map.empty), T1, s1)"
      "rbtree_inv T1" "rbtree_map T1 = snd (ref_ops xs Map.empty)"
    using rbtree_order.run_reference [OF T0(1,3), of xs] T0(2) by auto
  obtain sk1 t1 where sk1: "run_ops kvs_skiplist_set kvs_skiplist_mod kvs_skiplist_del xs sk0 t0 = Inr (fst (ref_ops xs Map.empty), sk1, t1)"
      "skiplist_inv sk1" "skiplist_map sk1 = snd (ref_ops xs Map.empty)"
    using skip_order.run_reference [OF sk0(1,3), of xs] sk0(2) by auto
  have same: "skiplist_entries sk1 = rbtree_entries T1"
    using skip.entries_law [OF sk1(2)] rbtree.entries_law [OF T1(2)] sk1(3) T1(3)
    by (intro sorted_entries_unique skiplist_entries_sorted rbtree_pairs_sorted sk1(2) T1(2)) simp
  have walk: "kvs_skiplist_foreach sk1 f c = kvs_rbtree_foreach T1 f c" for f :: "bytes \<Rightarrow> bytes \<Rightarrow> 'a \<Rightarrow> (int \<times> 'a) run" and c
    using skip.eforeach_law [OF sk1(2), of f c] rbtree.eforeach_law [OF T1(2), of f c] same by simp
  show ?thesis
    using T1 sk1 walk rbtree.eget_law [OF T1(2) TrueI] skip.eget_law [OF sk1(2) TrueI]
      rbtree.eexist_law [OF T1(2) TrueI] skip.eexist_law [OF sk1(2) TrueI] by auto
qed

theorem ordered_engines_agree_witness:
  "\<exists>T0 s0 sk0 t0 T1 s1 sk1 t1. kvs_rbtree_create rbtree_cleared calm = (0, T0, s0) \<and> kvs_skiplist_create skiplist_cleared calm = (0, sk0, t0) \<and>
    run_ops kvs_rbtree_set kvs_rbtree_mod kvs_rbtree_del [Op_set ''b'' ''1'', Op_mod ''a'' ''2'', Op_del ''b''] T0 s0 = Inr ([0, 1, 0], T1, s1) \<and>
    run_ops kvs_skiplist_set kvs_skiplist_mod kvs_skiplist_del [Op_set ''b'' ''1'', Op_mod ''a'' ''2'', Op_del ''b''] sk0 t0 = Inr ([0, 1, 0], sk1, t1) \<and>
    (\<forall>f c. kvs_skiplist_foreach sk1 f (c::nat) = kvs_rbtree_foreach T1 f c)"
proof -
  obtain T0 s0 sk0 t0 where c: "kvs_rbtree_create rbtree_cleared calm = (0, T0, s0)" "kvs_skiplist_create skiplist_cleared calm = (0, sk0, t0)"
    using rbtree_created_calm skiplist_created_calm by blast
  have e: "rb_nil rbtree_cleared = None" "sl_heap skiplist_cleared = (\<lambda>_. None)"
    by (simp_all add: rbtree_cleared_def skiplist_cleared_def)
  have "fst (ref_ops [Op_set ''b'' ''1'', Op_mod ''a'' ''2'', Op_del ''b''] Map.empty) = [0, 1, 0]"
    by simp
  then show ?thesis
    using ordered_engines_agree [OF e(1) c(1) plenty_calm e(2) c(2) plenty_calm, of "[Op_set ''b'' ''1'', Op_mod ''a'' ''2'', Op_del ''b'']", where 'a = nat] c
    by (metis (no_types, lifting))
qed

end
