(* ===== verification/Connection_Laws.thy ===== *)
theory Connection_Laws
  imports Ntyco
begin

text \<open>
  What holds of the process while connections are served.  An invariant of the process that
  the handlers of a connection keep, and that the other coroutines keep whenever this one
  waits, holds wherever \<open>server_reader\<close> is suspended or ends, however the bytes are cut
  into pieces on their way in and out; and the coroutine gives back all of its memory.
\<close>

section \<open>The whole reader\<close>

locale connection_relation = reader_relation H P
  for H :: "halt \<Rightarrow> bool"
    and P :: "'p reader \<Rightarrow> 'p scene \<Rightarrow> bool" +
  fixes B :: "char \<Rightarrow> bool"
  assumes incoming: "P rd sc \<Longrightarrow> list_all B (sc_in sc)"
    and grows: "P rd sc \<Longrightarrow> \<exists>r inp s. kvs_input_buffer_ensure_space (rd_input rd) 1 (sc_sys sc) = Inr (r, inp, s) \<and>
      P (rd\<lparr>rd_input := inp\<rparr>) (sc\<lparr>sc_sys := s\<rparr>) \<and> (0 \<le> r \<longrightarrow> in_data inp \<noteq> None)"
    and stores: "P rd sc \<Longrightarrow> in_data (rd_input rd) \<noteq> None \<Longrightarrow> length d \<le> nat (in_capacity (rd_input rd) - in_length (rd_input rd)) \<Longrightarrow>
      list_all B d \<Longrightarrow> \<exists>buf buf'. in_data (rd_input rd) = Some buf \<and> store_at buf (nat (in_length (rd_input rd))) d = Inr buf' \<and>
        P (rd\<lparr>rd_input := (rd_input rd)\<lparr>in_data := Some buf', in_length := in_length (rd_input rd) + int (length d)\<rparr>\<rparr>) sc"
begin

lemma incoming_byte: "P rd sc \<Longrightarrow> c \<in> set (sc_in sc) \<Longrightarrow> B c"
  using incoming by (auto simp: list_all_iff)

lemma store_input_ends:
  assumes "P rd sc" "in_data (rd_input rd) \<noteq> None" "length d \<le> nat (in_capacity (rd_input rd) - in_length (rd_input rd))"
    and "list_all B d"
  shows "ends_with H P (store_input d rd sc)"
  using stores [OF assms] assms(1) by (auto simp: store_input_def)

lemma receive_ends:
  assumes "P rd sc"
  shows "ends_with H P (receive rd sc)"
proof -
  obtain r inp s where e: "kvs_input_buffer_ensure_space (rd_input rd) 1 (sc_sys sc) = Inr (r, inp, s)"
      and P: "P (rd\<lparr>rd_input := inp\<rparr>) (sc\<lparr>sc_sys := s\<rparr>)" and data: "0 \<le> r \<longrightarrow> in_data inp \<noteq> None"
    using grows [OF assms] by blast
  let ?rd = "rd\<lparr>rd_input := inp\<rparr>" and ?sc = "sc\<lparr>sc_sys := s\<rparr>" and ?room = "nat (in_capacity inp - in_length inp)"
  have st: "ends_with H P (store_input d ?rd sc1)" if "0 \<le> r" "P ?rd sc1" "length d \<le> ?room" "list_all B d" for d sc1
    using that data by (intro store_input_ends) auto
  have "ends_with H P (bindo (ntyco_recv_before_deadline ?room t ?sc) (\<lambda>d sc. case d of None \<Rightarrow> Finished (Some False, ?rd) sc | Some d \<Rightarrow> store_input d ?rd sc))"
    if "0 \<le> r" for t
  proof (rule ends_with_after [where rd = ?rd])
    show "ends H (P ?rd) (ntyco_recv_before_deadline ?room t ?sc)"
      by (rule recv_ends [OF waits P])
    fix d sc1
    assume e: "ntyco_recv_before_deadline ?room t ?sc = Finished d sc1" "P ?rd sc1"
    show "ends_with H P (case d of None \<Rightarrow> Finished (Some False, ?rd) sc1 | Some d \<Rightarrow> store_input d ?rd sc1)"
    proof (cases d)
      case (Some bs)
      have "list_all B bs"
        using recv_input [of ?room t ?sc bs sc1] e(1) Some incoming [OF P] by (auto simp: list_all_iff)
      then show ?thesis
        using Some st [OF that e(2)] recv_length [of ?room t ?sc bs sc1] e(1) by simp
    qed (use e(2) in simp)
  qed
  moreover have "ends_with H P (bindo (await ?sc) (\<lambda>a sc. case a of Answer n \<Rightarrow> (case take_in n ?room sc of (d, sc) \<Rightarrow> store_input d ?rd sc)
      | Interrupted \<Rightarrow> Finished (None, ?rd) sc | _ \<Rightarrow> Finished (Some False, ?rd) sc))" if "0 \<le> r"
    using that stableD(4) [OF waits]
    by (intro ends_with_after [where rd = ?rd] stableD(1) [OF waits P])
       (auto simp: take_in_def Let_def list_all_iff split: answer.split intro!: st intro: incoming_byte dest!: in_set_takeD)
  ultimately show ?thesis
    using P by (auto simp: receive_def e Let_def not_less)
qed

lemma reader_round_ends:
  assumes "P rd sc"
  shows "ends_with H P (reader_round rd sc)"
proof -
  have f: "ends_with H P (bindo (ntyco_flush_output (rd_fd rd1) (rd_output rd1) sc1) (\<lambda>(r, out) sc. Finished (r \<ge> 0, rd1\<lparr>rd_output := out\<rparr>) sc))"
    if "P rd1 sc1" for rd1 sc1
    using flush_ends [OF that, of "rd_fd rd1"] by (cases "ntyco_flush_output (rd_fd rd1) (rd_output rd1) sc1") auto
  show ?thesis
    unfolding reader_round_def
    by (rule ends_with_bindo [OF receive_ends [OF assms]])
       (auto split: option.split bool.split intro!: ends_with_bindo [OF reader_commands_ends] f)
qed

lemma reader_loop_ends: "P rd sc \<Longrightarrow> ends_with H P (reader_loop rd sc)"
proof (induction rd sc rule: reader_loop.induct)
  case (1 rd sc)
  show ?case
    using reader_round_ends [OF "1.prems"] "1.IH"
    by (subst reader_loop.simps) (auto intro!: ends_with_bindo)
qed

end

section \<open>Invariants of the process\<close>

text \<open>
  \<open>I p held\<close> speaks of the process and of the blocks of memory held by anything but this
  connection, \<open>H\<close> of the reasons for which a handler may end the process when the bytes of
  the peer are all in \<open>B\<close>.  A handler is given storage for a reply of at least \<open>BUFFER_LENGTH\<close> bytes in all and leaves such
  storage behind.
\<close>

definition usable :: "kvs_output_buffer_t \<Rightarrow> bool" where
  "usable out \<longleftrightarrow> output_ok out \<and> out_data out \<noteq> None \<and> BUFFER_LENGTH \<le> out_capacity out"

definition handler_keeps :: "(halt \<Rightarrow> bool) \<Rightarrow> (char \<Rightarrow> bool) \<Rightarrow> ('p \<Rightarrow> int \<Rightarrow> bool) \<Rightarrow> 'p msg_handler \<Rightarrow> bool" where
  "handler_keeps H B I f \<longleftrightarrow>
     (\<forall>fd msg out p s b. list_all B msg \<longrightarrow> usable out \<longrightarrow> I p (s_live s - b) \<longrightarrow>
        (case f fd msg out p s of Inl h \<Rightarrow> H h | Inr (n, used, out', p', s') \<Rightarrow> usable out' \<and> I p' (s_live s' - b)))"

definition stream_keeps :: "(halt \<Rightarrow> bool) \<Rightarrow> ('p \<Rightarrow> int \<Rightarrow> bool) \<Rightarrow> 'p kvs_connection_stream_handler \<Rightarrow> bool" where
  "stream_keeps H I f \<longleftrightarrow>
     (\<forall>fd p s b. I p (s_live s - b) \<longrightarrow>
        (case f fd BUFFER_LENGTH p s of
           Inl h \<Rightarrow> H h
         | Inr (r, str, p', s') \<Rightarrow> I p' (s_live s' - b) \<and> int (length str) \<le> BUFFER_LENGTH \<and> r \<le> BUFFER_LENGTH))"

definition close_keeps :: "('p \<Rightarrow> int \<Rightarrow> bool) \<Rightarrow> 'p kvs_connection_close_handler \<Rightarrow> bool" where
  "close_keeps I f \<longleftrightarrow> (\<forall>fd p s b. I p (s_live s - b) \<longrightarrow> (case f fd p s of (p', s') \<Rightarrow> I p' (s_live s' - b)))"

definition others_keep :: "('p \<Rightarrow> int \<Rightarrow> bool) \<Rightarrow> 'p resumption list \<Rightarrow> bool" where
  "others_keep I as \<longleftrightarrow>
     (\<forall>(others, a) \<in> set as. \<forall>p s b. I p (s_live s - b) \<longrightarrow> (case others (p, s) of (p', s') \<Rightarrow> I p' (s_live s' - b)))"

definition handlers_keep :: "(halt \<Rightarrow> bool) \<Rightarrow> (char \<Rightarrow> bool) \<Rightarrow> ('p \<Rightarrow> int \<Rightarrow> bool) \<Rightarrow> 'p reader \<Rightarrow> bool" where
  "handlers_keep H B I rd \<longleftrightarrow>
     handler_keeps H B I (rd_handler rd) \<and> pred_option (stream_keeps H I) (rd_stream_handler rd) \<and> pred_option (close_keeps I) (rd_close_handler rd) \<and>
     (rd_protocol_selected rd \<or> rd_replication_handler rd \<noteq> None \<and> handler_keeps H B I (the (rd_replication_handler rd)) \<and>
        pred_option (stream_keeps H I) (rd_replication_stream_handler rd) \<and> pred_option (close_keeps I) (rd_replication_close_handler rd))"

definition blocks_held :: "'p reader \<Rightarrow> int" where
  "blocks_held rd = owned_data (in_data (rd_input rd)) + owned_data (out_data (rd_output rd))"

definition service :: "(halt \<Rightarrow> bool) \<Rightarrow> (char \<Rightarrow> bool) \<Rightarrow> ('p \<Rightarrow> int \<Rightarrow> bool) \<Rightarrow> 'p reader \<Rightarrow> 'p scene \<Rightarrow> bool" where
  "service H B I rd sc \<longleftrightarrow>
     input_ok (rd_input rd) \<and> output_ok (rd_output rd) \<and> (out_data (rd_output rd) \<noteq> None \<longrightarrow> usable (rd_output rd)) \<and>
     list_all B (contents (in_data (rd_input rd)) (in_length (rd_input rd))) \<and> list_all B (sc_in sc) \<and>
     handlers_keep H B I rd \<and> others_keep I (sc_answers sc) \<and> I (sc_proc sc) (s_live (sc_sys sc) - blocks_held rd)"

lemma service_stable: "stable (service H B I rd)"
proof -
  have "service H B I rd sc \<Longrightarrow> ends (\<lambda>_. False) (service H B I rd) (await sc)" for sc
    by (cases "sc_answers sc") (fastforce simp: service_def await_def others_keep_def split: prod.split)+
  moreover have "service H B I rd sc \<Longrightarrow> ends (\<lambda>_. False) (service H B I rd) (ask sc)" for sc
    by (cases "sc_answers sc") (auto simp: service_def ask_def others_keep_def split: prod.split)
  moreover have "list_all B xs \<Longrightarrow> list_all B (drop n xs)" for xs :: bytes and n
    by (auto simp: list_all_iff dest: in_set_dropD)
  ultimately show ?thesis
    by (auto simp: stable_def service_def)
qed

lemma identify_keeps:
  assumes "identify rd = (pr, rd')" "handlers_keep H B I rd"
  shows "handlers_keep H B I rd' \<and> rd_input rd' = rd_input rd \<and> rd_output rd' = rd_output rd"
proof -
  have "handlers_keep H B I (snd (identify rd)) \<and> rd_input (snd (identify rd)) = rd_input rd \<and> rd_output (snd (identify rd)) = rd_output rd"
    using assms(2)
    by (cases "kvs_identify_connection (in_data (rd_input rd)) (nat (in_length (rd_input rd)))") (auto simp: identify_def handlers_keep_def)
  then show ?thesis
    by (simp only: assms(1) snd_conv)
qed

lemma handlers_keep_buffers [simp]:
  "handlers_keep H B I (rd\<lparr>rd_output := out\<rparr>) = handlers_keep H B I rd" "handlers_keep H B I (rd\<lparr>rd_input := inp\<rparr>) = handlers_keep H B I rd"
  by (simp_all add: handlers_keep_def)

lemma output_ok_rewound:
  "output_ok out \<Longrightarrow> output_ok (out\<lparr>out_offset := 0\<rparr>)" "output_ok out \<Longrightarrow> output_ok (out\<lparr>out_length := 0, out_offset := 0\<rparr>)"
  "usable out \<Longrightarrow> usable (out\<lparr>out_offset := 0\<rparr>)" "usable out \<Longrightarrow> usable (out\<lparr>out_length := 0, out_offset := 0\<rparr>)"
  by (auto simp: usable_def output_ok_def buffer_ok_def)

lemma service_identify:
  assumes "service H B I rd sc" "identify (rd\<lparr>rd_output := (rd_output rd)\<lparr>out_offset := 0\<rparr>\<rparr>) = (pr, rd')"
  shows "service H B I rd' sc"
  using identify_keeps [OF assms(2), of H B I] assms(1) by (simp add: service_def blocks_held_def output_ok_rewound)

text \<open>Consuming input never fails, and keeps the buffer's shape.\<close>

lemma consume_keeps:
  assumes "input_ok inp"
  shows "\<exists>r inp'. kvs_input_buffer_consume inp n = Inr (r, inp') \<and> input_ok inp' \<and> owned_data (in_data inp') = owned_data (in_data inp) \<and>
      set (contents (in_data inp') (in_length inp')) \<subseteq> set (contents (in_data inp) (in_length inp))"
proof (cases "0 \<le> n \<and> n \<le> in_length inp")
  case True
  then obtain inp' where c: "kvs_input_buffer_consume inp n = Inr (0, inp')" "input_ok inp'"
      "contents (in_data inp') (in_length inp') = drop (nat n) (contents (in_data inp) (in_length inp))"
    using input_consume [OF assms, of n] by auto
  moreover have "(in_data inp' = None) = (in_data inp = None)"
    using c(1) True by (auto simp: kvs_input_buffer_consume_def Let_def bindr_eq_Inr split: if_splits option.splits)
  ultimately show ?thesis
    by (auto simp: owned_data_def split: option.split dest!: in_set_dropD)
qed (use assms in \<open>auto simp: kvs_input_buffer_consume_def\<close>)

lemma take_reply_service:
  assumes rd: "service H B I rd sc" and out: "usable out" "out_data (rd_output rd) \<noteq> None"
  shows "\<exists>pr rd'. take_reply n used out rd = Inr (pr, rd') \<and> service H B I rd' sc \<and> out_data (rd_output rd') \<noteq> None"
proof -
  have owned: "owned_data (out_data out) = owned_data (out_data (rd_output rd))"
    using out by (auto simp: usable_def owned_data_def)
  show ?thesis
  proof (cases "n < 0 \<or> n > out_capacity out - out_length out")
    case True
    then show ?thesis
      using rd out owned by (auto simp: take_reply_def service_def blocks_held_def usable_def)
  next
    case False
    have inp: "input_ok (rd_input rd)"
      using rd by (simp add: service_def)
    obtain r inp where c: "kvs_input_buffer_consume (rd_input rd) used = Inr (r, inp)" "input_ok inp" "owned_data (in_data inp) = owned_data (in_data (rd_input rd))"
        "set (contents (in_data inp) (in_length inp)) \<subseteq> set (contents (in_data (rd_input rd)) (in_length (rd_input rd)))"
      using consume_keeps [OF inp] by blast
    have b: "list_all B (contents (in_data inp) (in_length inp))"
      using rd c(4) by (auto simp: service_def list_all_iff)
    have "usable (out\<lparr>out_length := out_length out + n\<rparr>)"
      using out(1) False by (auto simp: usable_def output_ok_def buffer_ok_def)
    then show ?thesis
      using rd owned c b False by (simp add: take_reply_def Let_def service_def blocks_held_def usable_def)
  qed
qed

lemma service_resized:
  assumes "service H B I rd sc" "input_ok (rd_input rd')" "output_ok (rd_output rd')" "out_data (rd_output rd') \<noteq> None \<longrightarrow> usable (rd_output rd')"
    and "list_all B (contents (in_data (rd_input rd')) (in_length (rd_input rd')))"
    and "handlers_keep H B I rd'" "s_live s - blocks_held rd' = s_live (sc_sys sc) - blocks_held rd"
  shows "service H B I rd' (sc\<lparr>sc_sys := s\<rparr>)"
  using assms by (simp add: service_def)

text \<open>The handler on the received bytes: no way out but those the handler itself has.\<close>

lemma handle_input_service:
  assumes rd: "service H B I rd sc"
  shows "case handle_input rd (sc_proc sc) (sc_sys sc) of
      Inl h \<Rightarrow> H h
    | Inr ((pr, rd'), p, s) \<Rightarrow> service H B I rd' (sc\<lparr>sc_proc := p, sc_sys := s\<rparr>) \<and> (pr \<noteq> Close_connection \<longrightarrow> out_data (rd_output rd') \<noteq> None)"
proof -
  have out: "output_ok (rd_output rd)" and h: "handler_keeps H B I (rd_handler rd)"
    using rd by (simp_all add: service_def handlers_keep_def)
  show ?thesis
  proof (rule output_ensure_space [OF out, of BUFFER_LENGTH "sc_sys sc"])
    fix r out1 s1
    assume e: "kvs_output_buffer_ensure_space (rd_output rd) BUFFER_LENGTH (sc_sys sc) = Inr (r, out1, s1)" "output_ok out1"
      "s_live s1 - owned_data (out_data out1) = s_live (sc_sys sc) - owned_data (out_data (rd_output rd))"
      "r = 0 \<and> BUFFER_LENGTH \<le> out_capacity out1 - out_length out1 \<or> r = -1 \<and> out1 = rd_output rd"
    have u: "r = 0 \<Longrightarrow> usable out1"
      using e(2,4) by (cases "out_data out1") (auto simp: usable_def output_ok_def buffer_ok_def BUFFER_LENGTH_def)
    have rd1: "service H B I (rd\<lparr>rd_output := out1\<rparr>) (sc\<lparr>sc_sys := s1\<rparr>)"
      using rd e(2-4) u by (intro service_resized [OF rd]) (auto simp: service_def blocks_held_def)
    show ?thesis
    proof (cases "r < 0")
      case True
      then show ?thesis
        using rd1 e(1) by (simp add: handle_input_def service_def)
    next
      case False
      then have u: "usable out1" using u e(4) by auto
      let ?msg = "contents (in_data (rd_input rd)) (in_length (rd_input rd))"
      have k: "case rd_handler rd (rd_fd rd) ?msg out1 (sc_proc sc) s1 of Inl h \<Rightarrow> H h
          | Inr (n, used, out', p', s') \<Rightarrow> usable out' \<and> I p' (s_live s' - blocks_held (rd\<lparr>rd_output := out1\<rparr>))"
      proof -
        have "list_all B ?msg" "I (sc_proc sc) (s_live s1 - blocks_held (rd\<lparr>rd_output := out1\<rparr>))"
          using rd1 by (simp_all add: service_def)
        then show ?thesis
          using h u unfolding handler_keeps_def by blast
      qed
      show ?thesis
      proof (cases "rd_handler rd (rd_fd rd) ?msg out1 (sc_proc sc) s1")
        case (Inl h)
        then show ?thesis using k False e(1) by (simp add: handle_input_def)
      next
        case (Inr res)
        obtain n used out2 p s2 where res: "res = (n, used, out2, p, s2)" by (cases res)
        have out2: "usable out2" and rd2: "service H B I (rd\<lparr>rd_output := out1\<rparr>) (sc\<lparr>sc_proc := p, sc_sys := s2\<rparr>)"
          using k Inr res rd1 by (simp_all add: service_def)
        have same: "take_reply n used out2 rd = take_reply n used out2 (rd\<lparr>rd_output := out1\<rparr>)"
          by (simp add: take_reply_def Let_def)
        have d1: "out_data (rd_output (rd\<lparr>rd_output := out1\<rparr>)) \<noteq> None"
          using u by (simp add: usable_def)
        obtain pr rd' where reply: "take_reply n used out2 (rd\<lparr>rd_output := out1\<rparr>) = Inr (pr, rd')"
            "service H B I rd' (sc\<lparr>sc_proc := p, sc_sys := s2\<rparr>)" "out_data (rd_output rd') \<noteq> None"
          using take_reply_service [OF rd2 out2 d1, of n used] by blast
        have "handle_input rd (sc_proc sc) (sc_sys sc) = Inr ((pr, rd'), p, s2)"
          using False by (simp add: handle_input_def e(1) Inr res same reply(1))
        then show ?thesis
          using reply(2,3) by simp
      qed
    qed
  qed
qed


lemma service_stream:
  assumes "service H B I rd sc" "rd_stream_handler rd = Some f"
  shows "case f fd BUFFER_LENGTH (sc_proc sc) (sc_sys sc) of
      Inl h \<Rightarrow> H h
    | Inr (r, str, p, s) \<Rightarrow> service H B I rd (sc\<lparr>sc_proc := p, sc_sys := s\<rparr>) \<and> int (length str) \<le> BUFFER_LENGTH \<and> r \<le> BUFFER_LENGTH"
proof -
  have "stream_keeps H I f" "I (sc_proc sc) (s_live (sc_sys sc) - blocks_held rd)"
    using assms by (simp_all add: service_def handlers_keep_def)
  then have "case f fd BUFFER_LENGTH (sc_proc sc) (sc_sys sc) of Inl h \<Rightarrow> H h
      | Inr (r, str, p', s') \<Rightarrow> I p' (s_live s' - blocks_held rd) \<and> int (length str) \<le> BUFFER_LENGTH \<and> r \<le> BUFFER_LENGTH"
    unfolding stream_keeps_def by blast
  then show ?thesis
    using assms(1) by (cases "f fd BUFFER_LENGTH (sc_proc sc) (sc_sys sc)") (auto simp: service_def)
qed

lemma service_output:
  "service H B I rd sc \<Longrightarrow> out_data (rd_output rd) = Some d \<Longrightarrow> int (length d) = out_capacity (rd_output rd) \<and> BUFFER_LENGTH \<le> int (length d) \<and>
   nat (out_length (rd_output rd)) \<le> length d"
  by (auto simp: service_def usable_def output_ok_def buffer_ok_def)

interpretation service: connection_relation H "service H B I" B for H B I
proof unfold_locales
  fix rd :: "'a reader" and sc :: "'a scene"
  show "stable (service H B I rd)" by (rule service_stable)
  note handler = handle_input_service [of H B I rd sc]
  show "service H B I rd sc \<Longrightarrow> handle_input rd (sc_proc sc) (sc_sys sc) = Inr ((pr, rd'), p, s) \<Longrightarrow> service H B I rd' (sc\<lparr>sc_proc := p, sc_sys := s\<rparr>)"
    for pr rd' p s using handler by simp
  show "service H B I rd sc \<Longrightarrow> handle_input rd (sc_proc sc) (sc_sys sc) = Inl h \<Longrightarrow> H h" for h
    using handler by simp
  show "service H B I rd sc \<Longrightarrow> handle_input rd (sc_proc sc) (sc_sys sc) = Inr ((Consumed k, rd'), p, s) \<Longrightarrow>
      out_data (rd_output rd') \<noteq> None \<or> (\<forall>h. H h)" for k rd' p s
    using handler by simp
  show "service H B I rd sc \<Longrightarrow> identify (rd\<lparr>rd_output := (rd_output rd)\<lparr>out_offset := 0\<rparr>\<rparr>) = (pr, rd') \<Longrightarrow> service H B I rd' sc" for pr rd'
    by (rule service_identify)
  show "service H B I rd sc \<Longrightarrow> out_data (rd_output rd) = Some d \<Longrightarrow> nat (out_length (rd_output rd)) \<le> length d \<or> (\<forall>h. H h)" for d
    using service_output by blast
  show "service H B I rd sc \<Longrightarrow> service H B I (rd\<lparr>rd_output := (rd_output rd)\<lparr>out_length := 0, out_offset := 0\<rparr>\<rparr>) sc"
    by (simp add: service_def blocks_held_def output_ok_rewound)
  note stream = service_stream [of H B I rd sc]
  show "service H B I rd sc \<Longrightarrow> rd_stream_handler rd = Some f \<Longrightarrow> f fd BUFFER_LENGTH (sc_proc sc) (sc_sys sc) = Inr (r, str, p, s) \<Longrightarrow>
      service H B I rd (sc\<lparr>sc_proc := p, sc_sys := s\<rparr>)" for f fd r str p s
    using stream [of f fd] by simp
  show "service H B I rd sc \<Longrightarrow> rd_stream_handler rd = Some f \<Longrightarrow> f fd BUFFER_LENGTH (sc_proc sc) (sc_sys sc) = Inl h \<Longrightarrow> H h" for f fd h
    using stream [of f fd] by simp
  show "service H B I rd sc \<Longrightarrow> rd_stream_handler rd = Some f \<Longrightarrow> out_data (rd_output rd) = Some d \<Longrightarrow>
      f fd BUFFER_LENGTH (sc_proc sc) (sc_sys sc) = Inr (r, str, p, s) \<Longrightarrow> 0 < r \<Longrightarrow>
      length str \<le> length d \<and> nat r \<le> length d \<or> (\<forall>h. H h)" for f d fd r str p s
    using stream [of f fd] service_output [of H B I rd sc d] by (intro disjI1) (simp add: nat_le_iff)
  show "service H B I rd sc \<Longrightarrow> out_data (rd_output rd) = Some d \<Longrightarrow> length d' = length d \<Longrightarrow>
      service H B I (rd\<lparr>rd_output := (rd_output rd)\<lparr>out_data := Some d'\<rparr>\<rparr>) sc" for d d'
    by (simp add: service_def blocks_held_def usable_def output_ok_def buffer_ok_def owned_data_def)
  show "service H B I rd sc \<Longrightarrow> list_all B (sc_in sc)"
    by (simp add: service_def)
  show "service H B I rd sc \<Longrightarrow> \<exists>r inp s. kvs_input_buffer_ensure_space (rd_input rd) 1 (sc_sys sc) = Inr (r, inp, s) \<and>
      service H B I (rd\<lparr>rd_input := inp\<rparr>) (sc\<lparr>sc_sys := s\<rparr>) \<and> (0 \<le> r \<longrightarrow> in_data inp \<noteq> None)"
  proof -
    assume rd: "service H B I rd sc"
    then obtain r inp s where e: "kvs_input_buffer_ensure_space (rd_input rd) 1 (sc_sys sc) = Inr (r, inp, s)" "input_ok inp"
        "s_live s - owned_data (in_data inp) = s_live (sc_sys sc) - owned_data (in_data (rd_input rd))"
        "r = 0 \<and> 1 \<le> in_capacity inp - in_length inp \<or> r = -1 \<and> inp = rd_input rd"
        "contents (in_data inp) (in_length inp) = contents (in_data (rd_input rd)) (in_length (rd_input rd))"
      using input_ensure_space [of "rd_input rd" 1 "sc_sys sc"] by (auto simp: service_def)
    have "0 \<le> r \<longrightarrow> in_data inp \<noteq> None"
      using e(2,4) by (cases "in_data inp") (auto simp: input_ok_def buffer_ok_def)
    moreover have "service H B I (rd\<lparr>rd_input := inp\<rparr>) (sc\<lparr>sc_sys := s\<rparr>)"
      using rd e(2,3,5) by (intro service_resized [OF rd]) (auto simp: service_def blocks_held_def)
    ultimately show ?thesis
      using e(1) by blast
  qed
  show "service H B I rd sc \<Longrightarrow> in_data (rd_input rd) \<noteq> None \<Longrightarrow> length d \<le> nat (in_capacity (rd_input rd) - in_length (rd_input rd)) \<Longrightarrow>
      list_all B d \<Longrightarrow> \<exists>buf buf'. in_data (rd_input rd) = Some buf \<and> store_at buf (nat (in_length (rd_input rd))) d = Inr buf' \<and>
        service H B I (rd\<lparr>rd_input := (rd_input rd)\<lparr>in_data := Some buf', in_length := in_length (rd_input rd) + int (length d)\<rparr>\<rparr>) sc" for d
  proof -
    assume rd: "service H B I rd sc" and "in_data (rd_input rd) \<noteq> None" and d: "length d \<le> nat (in_capacity (rd_input rd) - in_length (rd_input rd))"
      and bd: "list_all B d"
    then obtain buf where b: "in_data (rd_input rd) = Some buf" by blast
    have ok: "0 \<le> in_length (rd_input rd)" "in_length (rd_input rd) + int (length d) \<le> int (length buf)" "int (length buf) = in_capacity (rd_input rd)"
      using rd b d by (auto simp: service_def input_ok_def buffer_ok_def)
    let ?buf = "take (nat (in_length (rd_input rd))) buf @ d @ drop (nat (in_length (rd_input rd)) + length d) buf"
    have "store_at buf (nat (in_length (rd_input rd))) d = Inr ?buf"
      using ok by (simp add: store_at_def)
    moreover have "length ?buf = length buf"
        "contents (Some ?buf) (in_length (rd_input rd) + int (length d)) = contents (in_data (rd_input rd)) (in_length (rd_input rd)) @ d"
      using ok b by (simp_all add: contents_def nat_add_distrib)
    then have "service H B I (rd\<lparr>rd_input := (rd_input rd)\<lparr>in_data := Some ?buf, in_length := in_length (rd_input rd) + int (length d)\<rparr>\<rparr>) sc"
      using rd b bd ok by (simp add: service_def blocks_held_def input_ok_def buffer_ok_def owned_data_def)
    ultimately show ?thesis using b by blast
  qed
qed

text \<open>
  A connection from its start to its end: a context from the heap is a block of its own, the
  buffers are there only while the connection is.
\<close>

definition context_keeps :: "(halt \<Rightarrow> bool) \<Rightarrow> (char \<Rightarrow> bool) \<Rightarrow> ('p \<Rightarrow> int \<Rightarrow> bool) \<Rightarrow> 'p ntyco_connection_context_t \<Rightarrow> bool" where
  "context_keeps H B I context \<longleftrightarrow> handlers_keep H B I (new_reader context)"

lemma server_reader_law:
  assumes "context_keeps H B I context" "others_keep I (sc_answers sc)" "list_all B (sc_in sc)"
    and "I (sc_proc sc) (s_live (sc_sys sc) - (if cn_heap_owned context then 1 else 0))"
  shows "case server_reader context sc of
      Suspended sc' \<Rightarrow> \<exists>held. I (sc_proc sc') (s_live (sc_sys sc') - held)
    | Broken h \<Rightarrow> H h
    | Finished _ sc' \<Rightarrow> I (sc_proc sc') (s_live (sc_sys sc'))"
proof -
  let ?sc = "if cn_heap_owned context then sc\<lparr>sc_sys := kvs_free (sc_sys sc)\<rparr> else sc"
  have "service H B I (new_reader context) ?sc"
    using assms by (cases "cn_heap_owned context") (simp_all add: service_def context_keeps_def new_reader_def input_empty_def output_empty_def
        blocks_held_def input_ok_def output_ok_def buffer_ok_def owned_data_def kvs_free_def INT_MAX_def)
  note ends = service.reader_loop_ends [OF this]
  show ?thesis
  proof (cases "reader_loop (new_reader context) ?sc")
    case (Suspended sc')
    then obtain rd where "service H B I rd sc'" using ends by auto
    then show ?thesis
      using Suspended by (auto simp: server_reader_def Let_def service_def)
  next
    case (Finished res sc')
    obtain rd where rd: "res = ((), rd)" by (cases res) simp
    have s: "service H B I rd sc'" using ends Finished rd by simp
    let ?s = "snd (kvs_output_buffer_free (rd_output rd) (snd (kvs_input_buffer_free (rd_input rd) (sc_sys sc'))))"
    have "s_live ?s = s_live (sc_sys sc') - blocks_held rd"
      by (simp add: kvs_output_buffer_free_def kvs_input_buffer_free_def kvs_free_opt_def kvs_free_def blocks_held_def owned_data_def split: option.split)
    then have i: "I (sc_proc sc') (s_live ?s - 0)"
      using s by (simp add: service_def)
    have c: "pred_option (close_keeps I) (rd_close_handler rd)"
      using s by (simp add: service_def handlers_keep_def)
    obtain p s2 where cl: "close_connection rd (sc_proc sc') (sc_sys sc') = (p, s2)" by (metis surj_pair)
    have "I p (s_live s2)"
    proof (cases "rd_close_handler rd")
      case (Some f)
      then have f: "f (rd_fd rd) (sc_proc sc') ?s = (p, s2)"
        using cl by (simp add: close_connection_def split_beta)
      have "close_keeps I f" using c Some by simp
      then have "case f (rd_fd rd) (sc_proc sc') ?s of (p', s') \<Rightarrow> I p' (s_live s' - 0)"
        by (rule close_keeps_def [THEN iffD1, rule_format]) (rule i)
      then show ?thesis by (simp add: f)
    qed (use cl i in \<open>simp add: close_connection_def split_beta\<close>)
    then show ?thesis
      using Finished rd cl by (simp add: server_reader_def Let_def)
  qed (use ends in \<open>simp add: server_reader_def Let_def\<close>)
qed

end
