(* ===== verification/Client_Halts.thy ===== *)
theory Client_Halts
  imports Client_Writes Connection_Laws
begin

text \<open>
  How a request of a client can end the process, from the queue of the kernel up to
  \<open>kvs_network_protocol\<close>: for every function on the way, which halts its run may have.  On
  engines that keep their invariant and a usable reply buffer, the only ones are a kernel
  that never makes progress, the program's own \<open>exit\<close>, and, for keys with bytes outside
  ASCII, the index below the table of the hash engine.
\<close>

section \<open>Halts\<close>

text \<open>
  The ways in which a request may end the process.  It may keep asking a kernel that makes no
  progress, or give up by \<open>exit\<close>; with \<open>oob\<close> it may also leave the table of the hash engine.
\<close>

definition ends_process :: "bool \<Rightarrow> halt \<Rightarrow> bool" where
  "ends_process oob h \<longleftrightarrow> h = Diverges \<or> h = Exit_process 1 \<or> oob \<and> h = Out_of_bounds"

definition orderly :: "bool \<Rightarrow> 'a run \<Rightarrow> bool" where
  "orderly oob x \<longleftrightarrow> (\<forall>h. x = Inl h \<longrightarrow> ends_process oob h)"

lemma orderly_simps [simp]:
  "orderly oob (Inr a)" "orderly oob (Inl Diverges)" "orderly oob (Inl (Exit_process 1))"
  "orderly oob (Inl Out_of_bounds) = oob"
  by (simp_all add: orderly_def ends_process_def)

lemma orderly_bindr [intro]:
  "orderly oob x \<Longrightarrow> (\<And>a. x = Inr a \<Longrightarrow> orderly oob (f a)) \<Longrightarrow> orderly oob (bindr x f)"
  by (cases x) (auto simp: orderly_def)

lemma orderly_returned: "x = Inr a \<Longrightarrow> orderly oob x"
  by simp

section \<open>The queue\<close>

lemma wait_cqe_orderly: "orderly oob (io_uring_wait_cqe io f s)"
  by (simp add: io_uring_wait_cqe_def Let_def split: prod.split)

lemma submit_loop_orderly: "orderly oob (submit_loop fuel io prepared submitted s)"
  by (induction fuel io prepared submitted s rule: submit_loop.induct) (auto simp: Let_def split: prod.split)

lemma receive_loop_orderly: "orderly oob (receive_loop fuel io f s)"
  by (induction fuel io f s rule: receive_loop.induct) (auto simp: wait_cqe_orderly split: prod.split sum.split intro!: orderly_bindr)

lemma cancel_loop_orderly: "orderly oob (cancel_loop fuel s)"
  by (induction fuel s rule: cancel_loop.induct) (auto simp: Let_def split: prod.split)

lemma cancel_all_orderly: "orderly oob (cancel_all n s)"
  by (induction n s rule: cancel_all.induct) (auto simp: cancel_loop_orderly split: prod.split intro!: orderly_bindr)

lemma reap_all_orderly: "orderly oob (reap_all n io f s)"
  by (induction n io f s rule: reap_all.induct)
     (auto simp: uring_receive_write_result_def receive_loop_orderly split: prod.split intro!: orderly_bindr)

lemma abort_orderly: "orderly oob (uring_abort_requests io pending f s)"
  by (auto simp: uring_abort_requests_def cancel_all_orderly reap_all_orderly split: prod.split intro!: orderly_bindr)

lemma receive_round_orderly: "orderly oob (receive_round n count err ps io f s)"
  by (induction n count err ps io f s rule: receive_round.induct)
     (auto simp: uring_receive_write_result_def receive_loop_orderly Let_def split: prod.split option.split intro!: orderly_bindr)

lemma write_batch_loop_orderly: "orderly oob (write_batch_loop fuel ws ps io f s)"
proof (induction fuel arbitrary: ps io f s)
  case (Suc fuel)
  show ?case
    by (auto simp: Let_def uring_submit_prepared_def abort_orderly submit_loop_orderly receive_round_orderly Suc
        split: prod.split sum.split intro!: orderly_bindr)
qed simp

lemma write_batch_orderly: "orderly oob (kvs_uring_io_write_batch io o_append ws f s)"
  by (simp add: kvs_uring_io_write_batch_def write_batch_loop_orderly Let_def split: prod.split)

lemma sync_submit_orderly: "orderly oob (sync_submit_loop fuel io s)"
  by (induction fuel io s rule: sync_submit_loop.induct) (auto simp: Let_def split: prod.split)

lemma sync_loop_orderly: "orderly oob (sync_loop fuel io f s)"
proof (induction fuel arbitrary: io f s)
  case (Suc fuel)
  show ?case
    by (auto simp: uring_receive_write_result_def receive_loop_orderly sync_submit_orderly abort_orderly Suc
        split: option.split prod.split cqe.split intro!: orderly_bindr)
qed simp

lemma sync_orderly: "orderly oob (kvs_uring_io_sync io f s)"
  by (simp add: kvs_uring_io_sync_def sync_loop_orderly)

section \<open>Saving and logging\<close>

lemma writer_flush_orderly: "orderly oob (snapshot_writer_flush w f s)"
  by (auto simp: snapshot_writer_flush_def write_batch_orderly split: option.split prod.split intro!: orderly_bindr)

lemma writer_flush_buffer: "snapshot_writer_flush w f s = Inr (r, w', f', s') \<Longrightarrow> sw_buffer w \<noteq> None \<Longrightarrow> sw_buffer w' \<noteq> None"
  by (auto simp: snapshot_writer_flush_def bindr_eq_Inr split: option.splits if_splits)

lemma writer_append_loop_orderly: "sw_buffer w \<noteq> None \<Longrightarrow> orderly oob (writer_append_loop w d f s)"
proof (induction "length d" arbitrary: w d f s rule: less_induct)
  case less
  have go: "orderly oob (if r < 0 then Inr (-1, w1, f1, s1) else case sw_buffer w1 of
            None \<Rightarrow> Inl Null_deref
          | Some buf \<Rightarrow>
              let n = min (length d) (SNAPSHOT_WRITE_BUFFER_SIZE - length buf)
              in if n = 0 then Inl Diverges
                 else writer_append_loop (w1\<lparr>sw_buffer := Some (buf @ take n d)\<rparr>) (drop n d) f1 s1)"
    if "sw_buffer w1 \<noteq> None" "d \<noteq> []" for r :: int and w1 f1 s1
    using that less.hyps by (auto simp: Let_def)
  let ?x = "if sw_buffer w \<noteq> None \<and> length (the (sw_buffer w)) = SNAPSHOT_WRITE_BUFFER_SIZE
    then snapshot_writer_flush w f s else Inr (0, w, f, s)"
  have x: "orderly oob ?x"
    by (simp add: writer_flush_orderly)
  have buf: "sw_buffer w1 \<noteq> None" if "?x = Inr (r, w1, f1, s1)" for r w1 f1 s1
    using that less.prems writer_flush_buffer by (auto split: if_splits)
  show ?case
  proof (cases "d = []")
    case False
    have "orderly oob (bindr ?x (\<lambda>(r, w, f, s).
          if r < 0 then Inr (-1, w, f, s)
          else case sw_buffer w of
            None \<Rightarrow> Inl Null_deref
          | Some buf \<Rightarrow>
              let n = min (length d) (SNAPSHOT_WRITE_BUFFER_SIZE - length buf)
              in if n = 0 then Inl Diverges
                 else writer_append_loop (w\<lparr>sw_buffer := Some (buf @ take n d)\<rparr>) (drop n d) f s))"
    proof (rule orderly_bindr [OF x])
      fix a assume a: "?x = Inr a"
      obtain r w1 f1 s1 where a': "a = (r, w1, f1, s1)" by (cases a)
      show "orderly oob (case a of (r, w, f, s) \<Rightarrow>
          if r < 0 then Inr (-1, w, f, s)
          else case sw_buffer w of
            None \<Rightarrow> Inl Null_deref
          | Some buf \<Rightarrow>
              let n = min (length d) (SNAPSHOT_WRITE_BUFFER_SIZE - length buf)
              in if n = 0 then Inl Diverges
                 else writer_append_loop (w\<lparr>sw_buffer := Some (buf @ take n d)\<rparr>) (drop n d) f s)"
        unfolding a' prod.case by (rule go [OF buf [OF a [unfolded a']] False])
    qed
    then show ?thesis
      using False by (subst writer_append_loop.simps) simp
  qed (simp add: writer_append_loop.simps)
qed

lemma writer_append_orderly: "orderly oob (snapshot_writer_append w d f s)"
  by (auto simp: snapshot_writer_append_def writer_append_loop_orderly split: option.split)

lemma write_record_orderly: "orderly oob (snapshot_write_record e k v ctx)"
  by (auto simp: snapshot_write_record_def writer_append_orderly Let_def split: prod.split intro!: orderly_bindr)

lemma visit_records_orderly: "(\<And>e k v c. orderly oob (f e k v c)) \<Longrightarrow> orderly oob (visit_records f rs c)"
  by (induction f rs c rule: visit_records.induct) (auto split: prod.split intro!: orderly_bindr)

lemma write_contents_orderly:
  assumes "engines_inv g"
  shows "orderly oob (snapshot_write_contents g w f s)"
proof -
  have "orderly oob (snapshot_count_records g)"
    unfolding snapshot_count_records_def foreach_engines_law [OF assms]
    by (rule visit_records_orderly) (simp add: snapshot_count_item_def)
  moreover have "orderly oob (snapshot_write_records g ctx)" for ctx
    unfolding snapshot_write_records_def foreach_engines_law [OF assms]
    by (rule visit_records_orderly) (rule write_record_orderly)
  moreover have "orderly oob (snapshot_write_header w count crc f s)" for w count crc f s
    by (auto simp: snapshot_write_header_def Let_def writer_append_orderly split: prod.split intro!: orderly_bindr)
  ultimately show ?thesis
    by (auto simp: snapshot_write_contents_def writer_append_orderly writer_flush_orderly split: prod.split intro!: orderly_bindr)
qed

lemma sync_fd_orderly: "orderly oob (sync_fd_loop fuel s)"
  by (induction fuel s rule: sync_fd_loop.induct) (auto simp: Let_def split: prod.split)

lemma save_orderly:
  assumes "engines_inv g"
  shows "orderly oob (kvs_snapshot_store_save_with_checkpoint suffix g path cp fs s)"
proof -
  have "orderly oob (save_temp_file g path tmp w fs s)" for tmp w fs s
    by (auto simp: save_temp_file_def snapshot_sync_fd_def write_contents_orderly [OF assms] sync_orderly sync_fd_orderly Let_def
        split: prod.split bool.split intro!: orderly_bindr)
  then show ?thesis
    by (auto simp: kvs_snapshot_store_save_with_checkpoint_def Let_def split: prod.split bool.split intro!: orderly_bindr)
qed

lemma save_current_orderly: "engines_inv (sv_engines sv) \<Longrightarrow> orderly oob (kvs_save_current_snapshot sv s)"
  by (auto simp: kvs_save_current_snapshot_def kvs_snapshot_store_save_def save_orderly Let_def
      split: kvs_persistence_mode_t.split prod.split intro!: orderly_bindr)

lemma aof_append_orderly: "orderly oob (kvs_aof_append (map Some ts) w fs s)"
proof (cases "aw_fd w")
  case None
  then show ?thesis by (simp add: kvs_aof_append_def)
next
  case (Some path)
  show ?thesis
  proof (cases "\<not> io_initialized (aw_io w) \<or> (length ts \<noteq> 2 \<and> length ts \<noteq> 3) \<or> length (command_bytes ts) > SIZE_MAX")
    case True
    then show ?thesis
      using Some by (auto simp: kvs_aof_append_def kvs_encoded_command_size split: if_splits)
  next
    case False
    then have ts: "ts \<noteq> []" "length (command_bytes ts) \<le> SIZE_MAX" "length ts = 2 \<or> length ts = 3" "io_initialized (aw_io w)"
      by auto
    have sz: "kvs_encoded_command_size (map Some ts) = Some (length (command_bytes ts))" "None \<notin> set (map Some ts)"
      using ts by (auto simp: kvs_encoded_command_size)
    obtain mem s1 where m: "kvs_malloc_bytes (length (command_bytes ts)) s = (mem, s1)"
      by (metis surj_pair)
    show ?thesis
    proof (cases mem)
      case None
      then show ?thesis
        using \<open>aw_fd w = Some path\<close> ts sz m by (simp add: kvs_aof_append_def)
    next
      case (Some d)
      then have "length d = length (command_bytes ts)"
        using kvs_malloc_bytes_granted [of _ s d s1] m by auto
      then have "kvs_encode_command (map Some ts) (Some d) = Inr (0, Some (command_bytes ts), length (command_bytes ts))"
        using kvs_encode_command_fits [of ts d] ts by simp
      then show ?thesis
        using \<open>aw_fd w = Some path\<close> ts sz m Some
        by (auto simp: kvs_aof_append_def Let_def write_batch_orderly sync_orderly split: prod.split intro!: orderly_bindr)
    qed
  qed
qed

lemma log_orderly: "orderly oob (log_command cmd ret ts source sv s)"
  by (auto simp: log_command_def aof_append_orderly split: prod.split intro!: orderly_bindr)

section \<open>The engines\<close>

lemma hash_orderly:
  assumes inv: "hash_inv h" and k: "128 * int (length k) \<le> INT_MAX" "oob \<or> hash_ok k"
  shows "orderly oob (kvs_hash_set h (Some k) (Some v) s)" "orderly oob (kvs_hash_mod h (Some k) (Some v) s)"
    "orderly oob (kvs_hash_del h (Some k) s)" "orderly oob (kvs_hash_get h (Some k))" "orderly oob (kvs_hash_exist h (Some k))"
proof -
  consider "hash_ok k" | "leaves_table k" "oob"
    using hash_index_exact(3) [OF k(1)] k(2) by blast
  then show "orderly oob (kvs_hash_set h (Some k) (Some v) s)" "orderly oob (kvs_hash_mod h (Some k) (Some v) s)"
    "orderly oob (kvs_hash_del h (Some k) s)" "orderly oob (kvs_hash_get h (Some k))" "orderly oob (kvs_hash_exist h (Some k))"
    using hash.eset_law [OF inv, of k v s] hash.emod_law [OF inv, of k v s] hash.edel_law [OF inv, of k s]
      hash.eget_law [OF inv, of k] hash.eexist_law [OF inv, of k] hash_leaves_table [OF inv k(1)]
    by (cases; auto)+
qed

lemma array_orderly:
  assumes "array_inv a"
  shows "orderly oob (kvs_array_set a (Some k) (Some v) s)" "orderly oob (kvs_array_mod a (Some k) (Some v) s)"
    "orderly oob (kvs_array_del a (Some k) s)" "orderly oob (kvs_array_get a (Some k))" "orderly oob (kvs_array_exist a (Some k))"
  using array.eset_law [OF assms, of k v s] array.emod_law [OF assms, of k v s] array.edel_law [OF assms, of k s]
    array.eget_law [OF assms, of k] array.eexist_law [OF assms, of k] by auto

lemma rbtree_orderly:
  assumes "rbtree_inv a"
  shows "orderly oob (kvs_rbtree_set a (Some k) (Some v) s)" "orderly oob (kvs_rbtree_mod a (Some k) (Some v) s)"
    "orderly oob (kvs_rbtree_del a (Some k) s)" "orderly oob (kvs_rbtree_get a (Some k))" "orderly oob (kvs_rbtree_exist a (Some k))"
  using rbtree.eset_law [OF assms, of k v s] rbtree.emod_law [OF assms, of k v s] rbtree.edel_law [OF assms, of k s]
    rbtree.eget_law [OF assms, of k] rbtree.eexist_law [OF assms, of k] by auto

lemma skiplist_orderly:
  assumes "skiplist_inv a"
  shows "orderly oob (kvs_skiplist_set a (Some k) (Some v) s)" "orderly oob (kvs_skiplist_mod a (Some k) (Some v) s)"
    "orderly oob (kvs_skiplist_del a (Some k) s)" "orderly oob (kvs_skiplist_get a (Some k))" "orderly oob (kvs_skiplist_exist a (Some k))"
  using skip.eset_law [OF assms, of k v s] skip.emod_law [OF assms, of k v s] skip.edel_law [OF assms, of k s]
    skip.eget_law [OF assms, of k] skip.eexist_law [OF assms, of k] by auto

lemma get_value_orderly:
  assumes "engines_inv g" "128 * int (length k) \<le> INT_MAX" "oob \<or> hash_ok k"
  shows "orderly oob (kvs_get_value cmd (Some k) g)"
  using assms by (simp add: kvs_get_value_def engines_inv_def array_orderly rbtree_orderly hash_orderly skiplist_orderly)

lemma exec_orderly:
  assumes inv: "engines_inv g" and val: "cmd mod 5 = 0 \<or> cmd mod 5 = 3 \<longrightarrow> val \<noteq> None" and cmd: "cmd < KVS_CMD_COUNT"
    and k: "128 * int (length k) \<le> INT_MAX" "oob \<or> hash_ok k"
  shows "orderly oob (exec_engine cmd (Some k) val g s)"
proof -
  have e: "array_inv (global_array g)" "rbtree_inv (global_rbtree g)" "hash_inv (global_hash g)" "skiplist_inv (global_skiplist g)"
    using inv by (simp_all add: engines_inv_def)
  note laws = array_orderly [OF e(1)] rbtree_orderly [OF e(2)] hash_orderly [OF e(3) k] skiplist_orderly [OF e(4)]
    get_value_orderly [OF inv k]
  show ?thesis
  proof (cases val)
    case None
    then have "\<not> (cmd mod 5 = 0 \<or> cmd mod 5 = 3)"
      using val by simp
    then have "cmd \<noteq> 0" "cmd \<noteq> 3" "cmd \<noteq> 5" "cmd \<noteq> 8" "cmd \<noteq> 10" "cmd \<noteq> 13" "cmd \<noteq> 15" "cmd \<noteq> 18"
      by auto
    then show ?thesis
      by (simp add: exec_engine_def exec_array_def exec_rbtree_def exec_hash_def exec_skiplist_def)
         (auto simp: laws split: prod.split intro!: orderly_bindr)
  next
    case (Some v)
    then show ?thesis
      by (simp add: exec_engine_def exec_array_def exec_rbtree_def exec_hash_def exec_skiplist_def)
         (auto simp: laws split: prod.split intro!: orderly_bindr)
  qed
qed

section \<open>Replies\<close>

lemma with_region_usable: "usable out \<Longrightarrow> length region = length (reply_region out) \<Longrightarrow> usable (with_region out region)"
  using with_region_ok(1,2,4) by (simp add: usable_def)

lemma put_reply_usable: "usable out \<Longrightarrow> put_reply reply out = Inr (r, out') \<Longrightarrow> usable out'"
  by (auto simp: put_reply_def bindr_eq_Inr split: if_splits intro!: with_region_usable dest: store_at_length)

lemma filter_region_length:
  assumes "kvs_filter_protocol tokens region source status sv s = Inr (n, region', status', sv', s')"
  shows "length region' = length region"
proof -
  have "\<exists>str. region' = snd (c_snprintf region str) \<or> region' = region"
    using assms by (auto simp: kvs_filter_protocol_def Let_def bindr_eq_Inr split_beta split: if_splits)
  then show ?thesis
    by (auto simp: c_snprintf_length)
qed

lemma tokens_region_length:
  "kvs_execute_tokens tokens region source status sv s = Inr (n, region', status', sv', s') \<Longrightarrow> length region' = length region"
  by (auto simp: kvs_execute_tokens_def bindr_eq_Inr split: if_splits dest!: filter_region_length)

lemma put_reply_orderly: "usable out \<Longrightarrow> orderly oob (put_reply reply out)"
  using put_reply_fits [of out reply] by (cases "int (length reply) \<le> out_capacity out - out_length out") (auto simp: usable_def put_reply_def)

lemma encode_value_orderly:
  assumes "usable out"
  shows "orderly oob (kvs_encode_value_to_output out val s)"
proof -
  have ok: "output_ok out"
    using assms by (simp add: usable_def)
  have enc: "orderly oob (kvs_encode_value_response (Some (Some val)) (Some region))" for region
  proof (cases "length (field_bytes val) \<le> SIZE_MAX \<and> length (field_bytes val) \<le> length region")
    case True
    then have "encode_field_at region 0 val = Inr (field_bytes val @ drop (length (field_bytes val)) region, length (field_bytes val))"
      using encode_field_at [of "take (length (field_bytes val)) region" val "[]" "drop (length (field_bytes val)) region"] by simp
    then show ?thesis
      using True by (simp add: kvs_encode_value_response_def kvs_encoded_value_response_size_def encoded_field_size)
  next
    case False
    then show ?thesis
      by (auto simp: kvs_encode_value_response_def kvs_encoded_value_response_size_def encoded_field_size)
  qed
  have grow: "orderly oob (kvs_output_buffer_ensure_space out n s)" for n s
    by (rule output_ensure_space [OF ok, of n s]) simp
  show ?thesis
    by (auto simp: kvs_encode_value_to_output_def enc grow split: option.split prod.split intro!: orderly_bindr)
qed

section \<open>A request\<close>

text \<open>A key that stays in the table, or may leave it, and whose sum an \<open>int\<close> can hold.\<close>

definition tame :: "bool \<Rightarrow> bytes \<Rightarrow> bool" where
  "tame oob t \<longleftrightarrow> 128 * int (length t) \<le> INT_MAX \<and> (oob \<or> hash_ok t)"

lemma expected_two: "length ts = expected_fields cmd \<Longrightarrow> \<exists>k. token ts 1 = Some k \<and> k \<in> set ts"
  by (auto simp: expected_fields_def token_def split: if_splits)

lemma expected_three: "length ts = expected_fields cmd \<Longrightarrow> cmd mod 5 = 0 \<or> cmd mod 5 = 3 \<Longrightarrow> token ts 2 \<noteq> None"
  by (auto simp: expected_fields_def token_def split: if_splits)

lemma tokens_orderly:
  assumes "engines_inv (sv_engines sv)" "\<forall>t\<in>set ts. tame oob t"
    and "command_index (hd ts) < KVS_CMD_COUNT \<longrightarrow> length ts = expected_fields (command_index (hd ts))"
  shows "orderly oob (kvs_execute_tokens ts region source status sv s)"
proof -
  let ?cmd = "command_index (hd ts)"
  have "orderly oob (exec_engine ?cmd (token ts 1) (token ts 2) (sv_engines sv) s)" if "?cmd \<noteq> KVS_CMD_COUNT"
  proof -
    have c: "?cmd < KVS_CMD_COUNT"
      using that command_index_le [of "hd ts"] by (simp add: KVS_CMD_COUNT_def)
    then obtain k where k: "token ts 1 = Some k" "tame oob k"
      using expected_two assms(2,3) by blast
    then show ?thesis
      using exec_orderly [OF assms(1) _ c, of "token ts 2" k oob s] expected_three [of ts ?cmd] assms(3) c by (auto simp: tame_def)
  qed
  then show ?thesis
    by (auto simp: kvs_execute_tokens_def kvs_filter_protocol_def Let_def log_orderly split: prod.split intro!: orderly_bindr)
qed

lemma dispatch_orderly:
  assumes inv: "engines_inv (sv_engines sv)" and ts: "\<forall>t\<in>set ts. tame oob t" and out: "usable out"
  shows "orderly oob (execute_dispatch ts out source sv s)"
proof -
  let ?cmd = "command_index (hd ts)"
  have put: "orderly oob (put_reply reply out)" for reply
    by (rule put_reply_orderly [OF out])
  have get: "orderly oob (execute_get cmd ts out sv s)" if "length ts = 2" for cmd
  proof -
    have "token ts 1 = Some (ts ! 1)" "tame oob (ts ! 1)"
      using that ts by (auto simp: token_def)
    then have "orderly oob (kvs_get_value cmd (token ts 1) (sv_engines sv))"
      using get_value_orderly [OF inv] by (simp add: tame_def)
    then show ?thesis
      by (auto simp: execute_get_def encode_value_orderly [OF out] put split: option.split prod.split intro!: orderly_bindr)
  qed
  have other: "orderly oob (execute_other cmd ts out source sv s)" if "?cmd < KVS_CMD_COUNT \<longrightarrow> length ts = expected_fields ?cmd" for cmd
  proof -
    have "orderly oob (put_reply reply (with_region out region))"
      if "kvs_execute_tokens ts (reply_region out) source EXEC_FAILED sv s = Inr (r, region, status, sv', s')" for reply r region status sv' s'
      using put_reply_orderly with_region_usable [OF out] tokens_region_length [OF that] by blast
    then show ?thesis
      by (auto simp: execute_other_def Let_def tokens_orderly [OF inv ts that] split: prod.split intro!: orderly_bindr)
  qed
  have save: "orderly oob (save_reply n sv s)" for n
    by (auto simp: save_reply_def save_current_orderly [OF inv] split: prod.split intro!: orderly_bindr)
  have ifs: "P (if a then x1 else if b then x2 else if c then x3 else if d then (if e then x4 else x5) else if f then x6 else if h then x7 else x8)"
    if "P x1" "P x2" "P x3" "P x4" "P x5" "P x6" "h \<Longrightarrow> P x7" "\<not> d \<Longrightarrow> P x8"
    for P :: "(int \<times> kvs_exec_status_t \<times> kvs_output_buffer_t \<times> server \<times> sys) run \<Rightarrow> bool" and a b c d e f h x1 x2 x3 x4 x5 x6 x7 x8
    using that by simp
  show ?thesis
    unfolding execute_dispatch_def Let_def
  proof (rule ifs, goal_cases)
    case 3
    show ?case
      by (rule orderly_bindr [OF save]) (auto simp: put split: prod.split intro!: orderly_bindr)
  next
    case 7
    then have "length ts = 2" by simp
    from get [OF this] show ?case
      by (auto split: prod.split intro!: orderly_bindr)
  next
    case 8
    then show ?case by (intro other) blast
  qed (auto simp: put split: prod.split intro!: orderly_bindr)
qed

lemma copy_fields_tokens: "copy_fields (map Some fs) made s = (Some ts, s') \<Longrightarrow> ts = fs"
  by (induction fs arbitrary: made s ts s') (auto split: if_splits prod.splits option.splits bool.splits)

lemma fields_orderly:
  assumes "engines_inv (sv_engines sv)" "\<forall>t\<in>set fs. tame oob t" "usable out"
  shows "orderly oob (kvs_execute_fields (map Some fs) out source sv s)"
proof -
  have "orderly oob (execute_dispatch ts out source sv s1)" if "kvs_fields_to_tokens (map Some fs) n s = (Some ts, s1)" for n ts s1
    using that dispatch_orderly [OF assms(1) _ assms(3)] assms(2) copy_fields_tokens [of fs 0 s ts s1]
    by (auto simp: kvs_fields_to_tokens_def split: if_splits)
  then show ?thesis
    by (auto simp: kvs_execute_fields_def put_reply_orderly [OF assms(3)] split: sum.split bool.split prod.split option.split intro!: orderly_bindr)
qed

lemma parse_fields_bytes: "parse_fields input mx n offset = Complete (fs, p) \<Longrightarrow> f \<in> set fs \<Longrightarrow> set f \<subseteq> set input"
proof (induction n arbitrary: offset fs)
  case (Suc n)
  then obtain g o1 gs where g: "parse_field input offset mx = Complete (g, o1)" and gs: "parse_fields input mx n o1 = Complete (gs, p)" "fs = g # gs"
    by (auto split: parsed.splits)
  have "set g \<subseteq> set input"
  proof (rule parse_field_CompleteE [OF g])
    fix len pos assume "g = take len (drop pos input)"
    then show ?thesis by (meson in_set_dropD in_set_takeD subsetI)
  qed
  then show ?case
    using Suc.IH [OF gs(1)] Suc.prems(2) gs(2) by auto
qed simp

lemma parsed_tame:
  assumes p: "kvs_parse_command_limited (Some msg) cap KVS_MAX_CLIENT_COMMAND_BYTES = Complete (fs, p)" and f: "f \<in> set fs"
    and msg: "oob \<or> (\<forall>c\<in>set msg. byte_of c < 128)"
  shows "tame oob f"
proof -
  note c = parse_command_Complete [OF p]
  have "length f \<le> sum_list (map length fs)"
    using f by (simp add: member_le_sum_list)
  then have len: "length f \<le> 1048576"
    using c(4,5) by (simp add: KVS_MAX_CLIENT_COMMAND_BYTES_def)
  obtain n offset where "parse_fields msg KVS_MAX_CLIENT_COMMAND_BYTES n offset = Complete (fs, p)"
    using p by (auto simp: kvs_parse_command_limited_def split: if_splits parsed.splits)
  then have "set f \<subseteq> set msg"
    using f by (rule parse_fields_bytes)
  then have "oob \<or> hash_ok f"
    using msg len hash_ok_ascii [of f] by auto
  then show ?thesis
    using len by (simp add: tame_def INT_MAX_def)
qed

text \<open>
  One call of the client protocol on a usable reply buffer.  Out of the table of the hash
  engine it only gets by a message with a byte outside ASCII.
\<close>

lemma network_orderly:
  assumes "engines_inv (sv_engines sv)" "usable out" "oob \<or> (\<forall>c\<in>set msg. byte_of c < 128)"
  shows "orderly oob (kvs_network_protocol msg out sv s)"
  using parsed_tame [OF _ _ assms(3)]
  by (auto simp: kvs_network_protocol_def Let_def put_reply_orderly [OF assms(2)] split: parsed.split prod.split
      intro!: orderly_bindr fields_orderly [OF assms(1) _ assms(2)])

end
