(* ===== verification/Client_Connections.thy ===== *)
theory Client_Connections
  imports Client_Halts Recovery
begin

text \<open>
  Clients over the network: the replies of the client protocol stay inside the output
  buffer of the connection, and with that the journal law of \<open>Journal\<close> and the halts of
  \<open>Client_Halts\<close> carry over from single requests to whole connections that run beside each
  other.
\<close>

section \<open>Replies stay inside the output buffer\<close>

lemma execute_other_usable:
  assumes "usable out" "execute_other cmd tokens out source sv s = Inr (r, status, out', sv', s')"
  shows "usable out'"
  using assms
  by (auto simp: execute_other_def bindr_eq_Inr Let_def split: if_splits
      dest!: tokens_region_length intro: put_reply_usable with_region_usable)

lemma write_decimal_length: "write_decimal_loop d base i v = Inr d' \<Longrightarrow> length d' = length d"
  by (induction i arbitrary: d v) (auto simp: bindr_eq_Inr dest!: store_at_length)

lemma encode_field_length: "encode_field_at d pos v = Inr (d', n) \<Longrightarrow> length d' = length d"
  by (auto simp: encode_field_at_def write_decimal_def bindr_eq_Inr Let_def dest!: store_at_length write_decimal_length)

lemma grow_capacity_grows: "0 < c \<Longrightarrow> c \<le> INT_MAX \<Longrightarrow> required \<le> INT_MAX \<Longrightarrow> c \<le> grow_capacity c required"
proof (induction c required rule: grow_capacity.induct)
  case (1 c required)
  then show ?case
    by (subst grow_capacity.simps) (auto simp: INT_MAX_def)
qed

lemma grown_capacity:
  assumes "output_ok out" "kvs_output_buffer_ensure_space out n s = Inr (r, out', s')"
  shows "out_capacity out \<le> out_capacity out'"
proof -
  have "0 \<le> out_capacity out" "out_capacity out \<le> INT_MAX"
    using assms(1) by (auto simp: output_ok_def buffer_ok_def)
  then show ?thesis
    using assms(2) grow_capacity_grows [of "out_capacity out" "out_length out + n"]
      grow_capacity_ge [of BUFFER_LENGTH "out_length out + n"]
    by (auto simp: kvs_output_buffer_ensure_space_def ensure_buffer_space_def replace_storage_def bindr_eq_Inr Let_def
        BUFFER_LENGTH_def split: if_splits prod.splits option.splits)
qed

lemma encode_value_usable:
  assumes out: "usable out" and run: "kvs_encode_value_to_output out val s = Inr (r, out', s')"
  shows "usable out'"
proof -
  have grow: "usable out1" if e: "kvs_output_buffer_ensure_space out n s = Inr (q, out1, s1)" for n q out1 s1
    by (rule output_ensure_space [of out n s]) (use e out grown_data [OF _ e] grown_capacity [OF _ e] in \<open>auto simp: usable_def\<close>)
  have enc: "length (the region) = length (reply_region out1) \<and> region \<noteq> None"
    if "kvs_encode_value_response (Some (Some val)) (Some (reply_region out1)) = Inr (q, region, n)" for out1 q region n
    using that by (auto simp: kvs_encode_value_response_def bindr_eq_Inr split: option.splits if_splits dest!: encode_field_length)
  show ?thesis
    using run out grow enc
    by (auto simp: kvs_encode_value_to_output_def bindr_eq_Inr split: if_splits option.splits intro!: with_region_usable)
qed

lemma execute_get_usable: "usable out \<Longrightarrow> execute_get cmd tokens out sv s = Inr (r, out', s') \<Longrightarrow> usable out'"
  by (auto simp: execute_get_def bindr_eq_Inr split: option.splits intro: put_reply_usable encode_value_usable)

lemma dispatch_usable:
  assumes out: "usable out" and run: "execute_dispatch tokens out source sv s = Inr (r, status, out', sv', s')"
  shows "usable out'"
proof -
  let ?cmd = "command_index (hd tokens)"
  consider "out' = out" | reply q where "put_reply reply out = Inr (q, out')"
    | str where "out' = with_region out (snd (c_snprintf (reply_region out) str))"
    | q where "execute_get ?cmd tokens out sv s = Inr (q, out', s')"
    | "execute_other ?cmd tokens out source sv s = Inr (r, status, out', sv', s')"
    using cascade [OF run [unfolded execute_dispatch_def Let_def]]
    by (elim disjE conjE) (fastforce simp only: bindr_eq_Inr split_beta prod.inject sum.inject prod.sel fst_conv)+
  then show ?thesis
    using out by cases (auto intro: put_reply_usable execute_get_usable execute_other_usable intro!: with_region_usable simp: c_snprintf_length)
qed

lemma fields_usable:
  assumes "usable out" "kvs_execute_fields flds out source sv s = Inr (r, status, out', sv', s')"
  shows "usable out'"
  using assms
  by (auto simp: kvs_execute_fields_def bindr_eq_Inr split: if_splits sum.splits bool.splits option.splits prod.splits
      intro: put_reply_usable dispatch_usable)

lemma network_usable:
  assumes "usable out" "kvs_network_protocol msg out sv s = Inr (r, used, out', sv', s')"
  shows "usable out'"
  using assms
  by (auto simp: kvs_network_protocol_def Let_def bindr_eq_Inr split: if_splits parsed.splits
      intro: put_reply_usable fields_usable)

section \<open>The journal under many connections\<close>

text \<open>
  The append-only file is the journal of the store, and the blocks of memory held are those
  of the engines and \<open>spare\<close> others.
\<close>

definition journal_kept :: "bytes \<Rightarrow> bytes \<Rightarrow> store \<Rightarrow> int \<Rightarrow> node \<Rightarrow> int \<Rightarrow> bool" where
  "journal_kept path pre st spare n held \<longleftrightarrow>
     log_path path \<and> sv_mode (nd_server n) \<noteq> PERSISTENCE_SNAPSHOT \<and> (\<exists>cs. journal path pre st cs (nd_server n)) \<and>
     held - engines_owned (sv_engines (nd_server n)) = spare"

text \<open>
  The client protocol keeps it, on peers whose bytes all satisfy \<open>B\<close>: with \<open>oob\<close> any bytes,
  otherwise ASCII.
\<close>

lemma client_handler_keeps:
  assumes bytes: "\<And>c. B c \<Longrightarrow> oob \<or> byte_of c < 128"
  shows "handler_keeps (ends_process oob) B (journal_kept path pre st spare) client_handler"
  unfolding handler_keeps_def
proof (intro allI impI)
  fix fd msg out n b and s :: sys
  assume msg: "list_all B msg" and out: "usable out" and i: "journal_kept path pre st spare n (s_live s - b)"
  obtain cs where cs: "journal path pre st cs (nd_server n)" "log_path path" "sv_mode (nd_server n) \<noteq> PERSISTENCE_SNAPSHOT"
    using i by (auto simp: journal_kept_def)
  show "case client_handler fd msg out n s of Inl h \<Rightarrow> ends_process oob h
      | Inr (r, used, out', n', s') \<Rightarrow> usable out' \<and> journal_kept path pre st spare n' (s_live s' - b)"
  proof (cases "client_handler fd msg out n s")
    case (Inl h)
    then have "kvs_network_protocol msg out (nd_server n) s = Inl h"
      by (cases "kvs_network_protocol msg out (nd_server n) s") (auto simp: client_handler_def)
    moreover have "oob \<or> (\<forall>c\<in>set msg. byte_of c < 128)"
      using msg bytes by (auto simp: list_all_iff)
    then have "orderly oob (kvs_network_protocol msg out (nd_server n) s)"
      using cs(1) out by (intro network_orderly) (simp_all add: journal_def)
    ultimately show ?thesis
      using Inl by (simp add: orderly_def)
  next
    case (Inr res)
    obtain r used out' n' s' where res: "res = (r, used, out', n', s')" by (cases res)
    obtain sv' where x: "kvs_network_protocol msg out (nd_server n) s = Inr (r, used, out', sv', s')" "n' = n\<lparr>nd_server := sv'\<rparr>"
      using Inr res by (auto simp: client_handler_def bindr_eq_Inr)
    have "advances path pre st cs (nd_server n) s sv' s'"
      using network_advances [OF cs _ x(1)] out by (simp add: usable_def)
    then have "journal_kept path pre st spare n' (s_live s' - b)"
      using i x(2) by (auto simp: journal_kept_def advances_def ledger_def)
    then show ?thesis
      using Inr res network_usable [OF out x(1)] by simp
  qed
qed

lemma accepted_client:
  assumes "ntyco_listener_context_init (service_listener config) = Some listener" "accept_connection listener fd s = (Some context, s1)"
    and bytes: "\<And>c. B c \<Longrightarrow> oob \<or> byte_of c < 128"
  shows "context_keeps (ends_process oob) B (journal_kept path pre st spare) context" "cn_heap_owned context" "s_live s1 = s_live s + 1"
proof -
  have l: "ln_handler listener = client_handler" "ln_stream_handler listener = None" "ln_replication_handler listener = None"
    using assms(1) by (auto simp: ntyco_listener_context_init_def service_listener_def split: if_splits)
  have c: "cn_handler context = client_handler" "cn_stream_handler context = None" "cn_close_handler context = None"
      "cn_replication_handler context = None" "cn_heap_owned context" "s_live s1 = s_live s + 1"
  proof -
    obtain b s0 where m: "kvs_malloc ntyco_connection_bytes s = (b, s0)" by (metis surj_pair)
    obtain created s2 where os: "os_call s0 = (created, s2)" by (metis surj_pair)
    have ok: "b" "created"
      using assms(2) l m os by (cases b; cases created; simp add: accept_connection_def Let_def)+
    have x: "context = the (fst (accept_connection listener fd s))" "s1 = s2"
      using assms(2) l m os ok by (simp_all add: accept_connection_def Let_def)
    show "cn_handler context = client_handler" "cn_stream_handler context = None" "cn_close_handler context = None"
        "cn_replication_handler context = None" "cn_heap_owned context"
      unfolding x(1) using l m os ok by (simp_all add: accept_connection_def Let_def)
    show "s_live s1 = s_live s + 1"
      using x(2) kvs_malloc_granted [of ntyco_connection_bytes s s0] m ok os by simp
  qed
  then show "context_keeps (ends_process oob) B (journal_kept path pre st spare) context" "cn_heap_owned context" "s_live s1 = s_live s + 1"
    by (simp_all add: context_keeps_def handlers_keep_def new_reader_def client_handler_keeps [OF bytes])
qed

text \<open>
  C38.  A client connection, from being accepted to its end, on a server with an append-only
  file.  However the coroutine library schedules it, however the bytes arrive and leave in
  pieces, whatever the client sends and whatever the other coroutines do in between, as long
  as they keep it too: whenever the connection waits the file is the journal of the store,
  and when it has ended all its memory has been given back.  Nothing on the way writes or
  reads beyond a buffer, follows a null pointer or frees twice: the process can only end in
  between by the program's own \<open>exit\<close>, or hang on a kernel that never makes progress
  (\<open>Diverges\<close>), or, if the client sends a byte of 128 or more, by the index of the hash
  engine, which then may lie outside its table (C14).
\<close>

theorem client_connection_safe:
  assumes "ntyco_listener_context_init (service_listener config) = Some listener"
    and "accept_connection listener fd s = (Some context, sc_sys sc)"
    and "journal_kept path pre st spare (sc_proc sc) (s_live s)"
    and "others_keep (journal_kept path pre st spare) (sc_answers sc)"
  shows "case server_reader context sc of
      Suspended sc' \<Rightarrow> \<exists>cs. journal path pre st cs (nd_server (sc_proc sc'))
    | Broken h \<Rightarrow> h = Diverges \<or> h = Exit_process 1 \<or> h = Out_of_bounds \<and> (\<exists>c\<in>set (sc_in sc). 128 \<le> byte_of c)
    | Finished _ sc' \<Rightarrow> (\<exists>cs. journal path pre st cs (nd_server (sc_proc sc'))) \<and>
        ledger (nd_server (sc_proc sc')) (sc_sys sc') = ledger (nd_server (sc_proc sc)) s"
proof -
  let ?oob = "\<exists>c\<in>set (sc_in sc). 128 \<le> byte_of c" and ?B = "\<lambda>c. c \<in> set (sc_in sc)"
  have bytes: "c \<in> set (sc_in sc) \<Longrightarrow> ?oob \<or> byte_of c < 128" for c
    by (meson not_less)
  note c = accepted_client [where B = ?B, OF assms(1,2) bytes]
  have "journal_kept path pre st spare (sc_proc sc) (s_live (sc_sys sc) - (if cn_heap_owned context then 1 else 0))"
    using assms(3) c(2,3) by simp
  moreover have "list_all ?B (sc_in sc)"
    by (simp add: list_all_iff)
  ultimately show ?thesis
    using server_reader_law [OF c(1) assms(4)] assms(3)
    by (cases "server_reader context sc") (auto simp: journal_kept_def ledger_def ends_process_def)
qed

text \<open>
  A new server, a connection accepted on it, a client that sends one \<open>SET\<close> in two pieces and
  hangs up after the reply.
\<close>

definition sample_listener :: "node ntyco_listener_context_t" where
  "sample_listener = the (ntyco_listener_context_init (service_listener (config_defaults\<lparr>cf_service_port := 29000\<rparr>)))"

definition sample_scene :: "node \<Rightarrow> node scene" where
  "sample_scene n =
     \<lparr>sc_answers = [(\<lambda>x. x, Answer 20), (\<lambda>x. x, Answer 20), (\<lambda>x. x, Answer 5), (\<lambda>x. x, Answer 0)],
      sc_in = command_bytes sample_set, sc_out = [], sc_proc = n, sc_sys = snd (accept_connection sample_listener 7 calm)\<rparr>"

lemma sample_set_ascii: "\<forall>c\<in>set (command_bytes sample_set). byte_of c < 128"
  by code_simp

lemma sample_listener_init: "ntyco_listener_context_init (service_listener (config_defaults\<lparr>cf_service_port := 29000\<rparr>)) = Some sample_listener"
  by (simp add: sample_listener_def ntyco_listener_context_init_def service_listener_def)

lemma sample_accepted: "accept_connection sample_listener 7 calm = (Some context, s1) \<longleftrightarrow>
    context = the (fst (accept_connection sample_listener 7 calm)) \<and> s1 = snd (accept_connection sample_listener 7 calm)"
proof -
  have "fst (accept_connection sample_listener 7 calm) \<noteq> None"
    by (simp add: accept_connection_def sample_listener_def ntyco_listener_context_init_def service_listener_def
        kvs_malloc_def ntyco_connection_bytes_def os_call_def calm_def Let_def)
  then show ?thesis
    by (cases "accept_connection sample_listener 7 calm") auto
qed

theorem client_connection_safe_witness:
  "\<exists>g. \<forall>lib. case server_reader (the (fst (accept_connection sample_listener 7 calm)))
         (sample_scene \<lparr>nd_server = new_server g, nd_lib = lib, nd_resolvable = (\<lambda>_. False)\<rparr>) of
      Suspended sc' \<Rightarrow> \<exists>cs. journal ''commands.aof'' [] (\<lambda>_. Map.empty) cs (nd_server (sc_proc sc'))
    | Broken h \<Rightarrow> h = Diverges \<or> h = Exit_process 1
    | Finished _ sc' \<Rightarrow> (\<exists>cs. journal ''commands.aof'' [] (\<lambda>_. Map.empty) cs (nd_server (sc_proc sc'))) \<and>
        ledger (nd_server (sc_proc sc')) (sc_sys sc') = ledger (new_server g) calm"
proof -
  obtain g where g: "engines_inv g" "engines_empty g"
    using engines_created_calm by blast
  have *: "case server_reader (the (fst (accept_connection sample_listener 7 calm))) (sample_scene n) of
      Suspended sc' \<Rightarrow> \<exists>cs. journal ''commands.aof'' [] (\<lambda>_. Map.empty) cs (nd_server (sc_proc sc'))
    | Broken h \<Rightarrow> h = Diverges \<or> h = Exit_process 1
    | Finished _ sc' \<Rightarrow> (\<exists>cs. journal ''commands.aof'' [] (\<lambda>_. Map.empty) cs (nd_server (sc_proc sc'))) \<and>
        ledger (nd_server (sc_proc sc')) (sc_sys sc') = ledger (new_server g) calm"
    if n: "nd_server n = new_server g" for n
  proof -
    have p: "nd_server (sc_proc (sample_scene n)) = new_server g"
      using n by (simp add: sample_scene_def)
    have "accept_connection sample_listener 7 calm = (Some (the (fst (accept_connection sample_listener 7 calm))), sc_sys (sample_scene n))"
      by (simp add: sample_accepted sample_scene_def)
    moreover have "journal_kept ''commands.aof'' [] (\<lambda>_. Map.empty) (- engines_owned g) (sc_proc (sample_scene n)) (s_live calm)"
      using new_server_journal [OF g] p by (auto simp: journal_kept_def log_path_def calm_def)
    moreover have "others_keep I (sc_answers (sample_scene n))" for I
      by (simp add: others_keep_def sample_scene_def)
    ultimately have "case server_reader (the (fst (accept_connection sample_listener 7 calm))) (sample_scene n) of
        Suspended sc' \<Rightarrow> \<exists>cs. journal ''commands.aof'' [] (\<lambda>_. Map.empty) cs (nd_server (sc_proc sc'))
      | Broken h \<Rightarrow> h = Diverges \<or> h = Exit_process 1 \<or>
          h = Out_of_bounds \<and> (\<exists>c\<in>set (sc_in (sample_scene n)). 128 \<le> byte_of c)
      | Finished _ sc' \<Rightarrow> (\<exists>cs. journal ''commands.aof'' [] (\<lambda>_. Map.empty) cs (nd_server (sc_proc sc'))) \<and>
          ledger (nd_server (sc_proc sc')) (sc_sys sc') = ledger (nd_server (sc_proc (sample_scene n))) calm"
      by (rule client_connection_safe [OF sample_listener_init])
    moreover have "\<not> (\<exists>c\<in>set (sc_in (sample_scene n)). 128 \<le> byte_of c)"
      using sample_set_ascii by (simp add: sample_scene_def not_le)
    ultimately show ?thesis
      unfolding p by (auto split: outcome.split)
  qed
  show ?thesis
    by (intro exI [of _ g] allI) (rule *, simp)
qed

end
