(* ===== verification/Replica_Laws.thy ===== *)
theory Replica_Laws
  imports Recovery Connection_Laws
begin

text \<open>
  The replica's side of the replication protocol: control lines are read as they were
  written, the answer to \<open>PSYNC\<close> means to the replica what the primary meant, and a replica
  that receives the rest of the primary's append-only file ends with the primary's data.
\<close>

section \<open>Numbers and identifiers in control lines\<close>

lemma is_dec_digit: "is_dec = is_digit"
  by (rule ext) (simp add: is_dec_def is_digit_def)

lemma number_of_decimal: "number_of (decimal n) = n"
  using digits_value_decimal [of n] by (simp add: number_of_def digits_value_def digit_value_def)

lemma takeWhile_decimal: "xs = [] \<or> \<not> is_dec (hd xs) \<Longrightarrow> takeWhile is_dec (decimal n @ xs) = decimal n"
  using decimal_all_digits [of _ n] by (cases xs) (auto simp: is_dec_digit takeWhile_append)

lemma decimal_head: obtains c cs where "decimal n = c # cs" "is_dec c"
  using decimal_all_digits [of _ n] decimal_nonempty [of n] that by (cases "decimal n") (auto simp: is_dec_digit)

lemma skip_space_simps [simp]:
  "skip_space (CHR '' '' # xs) = skip_space xs" "skip_space (decimal n @ xs) = decimal n @ xs" "skip_space (decimal n) = decimal n"
proof -
  have "skip_space (decimal n @ xs) = decimal n @ xs" for xs
    by (rule decimal_head [of n]) (auto simp: skip_space_def Replication.is_space_def is_dec_def)
  from this [of xs] this [of "[]"] show "skip_space (decimal n @ xs) = decimal n @ xs" "skip_space (decimal n) = decimal n"
    by simp_all
qed (simp add: skip_space_def Replication.is_space_def)

lemma scan_sign_decimal: "scan_sign (decimal n @ xs) = (False, 0, decimal n @ xs)"
  by (rule decimal_head [of n]) (auto simp: scan_sign_def is_dec_def)

lemma scan_lld_decimal:
  assumes "int n \<le> LLONG_MAX" "xs = [] \<or> \<not> is_dec (hd xs)"
  shows "scan_lld (decimal n @ xs) = Some (int n, xs)"
  using assms by (simp add: scan_lld_def scan_sign_decimal takeWhile_decimal number_of_decimal Let_def)

lemma length_decimal_power: "n < 10 ^ Suc k \<Longrightarrow> length (decimal n) \<le> Suc k"
proof (induction k arbitrary: n)
  case 0
  then show ?case by (simp add: decimal.simps)
next
  case (Suc k)
  then have "length (decimal (n div 10)) \<le> Suc k"
    by (intro Suc.IH) (simp add: less_mult_imp_div_less mult.commute)
  then show ?case by (subst decimal.simps) simp
qed

lemma scan_u5_decimal:
  assumes "n \<le> 65535" "xs = [] \<or> \<not> is_dec (hd xs)"
  shows "scan_u5 (decimal n @ xs) = Some (n, xs)"
proof -
  have len: "length (decimal n) \<le> 5"
    using assms(1) length_decimal_power [of n 4] by simp
  have "takeWhile is_dec (take 5 (decimal n @ xs)) = takeWhile is_dec (decimal n @ take (5 - length (decimal n)) xs)"
    using len by simp
  also have "\<dots> = decimal n"
    by (rule takeWhile_decimal) (use assms(2) in \<open>cases xs; cases "5 - length (decimal n)"; simp\<close>)
  finally show ?thesis
    by (simp add: scan_u5_def scan_sign_decimal number_of_decimal Let_def)
qed

definition hex_id :: "bytes \<Rightarrow> bool" where
  "hex_id h \<longleftrightarrow> length h = KVS_REPLICATION_ID_HEX_LENGTH \<and> list_all is_hex h"

lemma scan_hex_id:
  assumes "hex_id h"
  shows "scan_hex (h @ xs) = Some (h, xs)"
proof -
  have h: "length h = KVS_REPLICATION_ID_HEX_LENGTH" "h \<noteq> []"
    using assms by (auto simp: hex_id_def KVS_REPLICATION_ID_HEX_LENGTH_def)
  have "takeWhile is_hex (take KVS_REPLICATION_ID_HEX_LENGTH (h @ xs)) = takeWhile is_hex h"
    by (simp add: h(1) [symmetric])
  also have "\<dots> = h"
    using assms by (simp add: hex_id_def list_all_iff takeWhile_eq_all_conv)
  finally show ?thesis
    using h(2) by (simp add: scan_hex_def)
qed

lemma skip_space_hex [simp]: "hex_id h \<Longrightarrow> skip_space (h @ xs) = h @ xs" "hex_id h \<Longrightarrow> skip_space h = h"
  by (cases h; auto simp: skip_space_def hex_id_def Replication.is_space_def is_hex_def KVS_REPLICATION_ID_HEX_LENGTH_def)+

text \<open>The identifiers \<open>kvs_replication_generate_id\<close> makes.\<close>

lemma hex_digit: "d < 16 \<Longrightarrow> is_hex (hex_digits ! d)"
  by (simp add: hex_digits_def is_hex_def less_Suc_eq numeral_eq_Suc) (elim disjE; simp)

lemma hex_text_id:
  assumes "length bs = 20" "list_all (\<lambda>b. b < 256) bs"
  shows "hex_id (hex_text bs)"
proof -
  have "length (hex_text cs) = 2 * length cs" for cs
    by (induction cs) (simp_all add: hex_text_def)
  moreover have "list_all is_hex (hex_text cs)" if "list_all (\<lambda>b. b < 256) cs" for cs
    using that by (induction cs) (simp_all add: hex_text_def hex_digit less_mult_imp_div_less)
  ultimately show ?thesis
    using assms by (simp add: hex_id_def KVS_REPLICATION_ID_HEX_LENGTH_def)
qed

section \<open>One control line\<close>

text \<open>A line without line feeds, carriage returns and NULs, as every control line is.\<close>

definition line_text :: "bytes \<Rightarrow> bool" where
  "line_text line \<longleftrightarrow> line \<noteq> [] \<and> LF \<notin> set line \<and> CR \<notin> set line \<and> NUL \<notin> set line"

lemma line_text_append: "line_text xs \<Longrightarrow> line_text ys \<Longrightarrow> line_text (xs @ ys)"
  by (auto simp: line_text_def)

lemma line_text_decimal: "line_text (decimal n)"
proof -
  have "c \<notin> {LF, CR, NUL}" if "c \<in> set (decimal n)" for c
    using decimal_all_digits [OF that] by (auto simp: is_digit_def LF_def CR_def NUL_def)
  then show ?thesis by (auto simp: line_text_def)
qed

lemma line_text_hex: "hex_id h \<Longrightarrow> line_text h"
  by (auto simp: line_text_def hex_id_def list_all_iff is_hex_def LF_def CR_def NUL_def KVS_REPLICATION_ID_HEX_LENGTH_def)

lemma c_string_line: "line_text line \<Longrightarrow> c_string line = line"
  by (auto simp: c_string_def line_text_def)

lemma find_line:
  assumes "line_text line"
  shows "kvs_find_line_end (line @ CRLF) = Some (length line, 2)"
proof -
  have no_LF: "(line @ CRLF) ! i \<noteq> LF" if "i \<le> length line" for i
  proof (cases "i < length line")
    case True
    then have "line ! i \<in> set line" by (rule nth_mem)
    then have "line ! i \<noteq> LF" using assms by (auto simp: line_text_def)
    then show ?thesis by (simp add: nth_append True)
  next
    case False
    then have "i = length line" using that by simp
    then show ?thesis by (simp add: CRLF_def CR_def LF_def)
  qed
  have "find_newline (line @ CRLF) i = Some (length line, 2)" if "i \<le> Suc (length line)" for i
    using that
  proof (induction rule: inc_induct)
    case base
    show ?case by (subst find_newline.simps) (simp add: CRLF_def nth_append)
  next
    case (step i)
    then show ?case
      using no_LF [of i] by (subst find_newline.simps) (simp add: CRLF_def)
  qed
  then show ?thesis by (simp add: kvs_find_line_end_def CRLF_def)
qed

lemma control_line:
  assumes "line_text line" "0 < capacity"
  shows "kvs_replication_control_line_protocol fd (line @ CRLF @ rest) capacity handler st =
    bindr (handler fd line capacity st) (\<lambda>(r, written, st).
      if r < 0 \<or> r > capacity then Inr (-1, 0, [], st)
      else Inr (int (length (take (nat r) written)), length line + 2, take (nat r) written, st))"
proof -
  have stop: "takeWhile (\<lambda>c. c \<noteq> LF) (line @ CRLF @ rest) = line @ [CR]"
    using assms(1) by (auto simp: line_text_def CRLF_def CR_def LF_def takeWhile_append)
  have msg: "take (Suc (length (line @ [CR]))) (line @ CRLF @ rest) = line @ CRLF"
    by (simp add: CRLF_def)
  define m where "m = (line @ CRLF)[length line := NUL]"
  have len: "length CRLF = 2" by (simp add: CRLF_def)
  have frame: "take (length line) m = line"
    by (simp add: m_def list_update_append)
  have over: "line_batch_loop fd m capacity handler (length line + 2) resp st1 = Inr (int (length resp), length line + 2, m, resp, st1)" for resp st1
    by (subst line_batch_loop.simps) (simp add: m_def len)
  have ne: "line \<noteq> []" using assms(1) by (simp add: line_text_def)
  have "kvs_line_batch_protocol fd (line @ CRLF) capacity handler st =
      bindr (handler fd line capacity st) (\<lambda>(r, written, st).
        if r < 0 \<or> r > capacity then Inr (-1, 0, m, [], st)
        else Inr (int (length (take (nat r) written)), length line + 2, m, take (nat r) written, st))"
    using assms(2) ne over frame
    by (simp add: kvs_line_batch_protocol_def line_batch_loop.simps [of fd "line @ CRLF" capacity handler 0] find_line [OF assms(1)]
        cong: if_cong flip: m_def)
  moreover have "kvs_replication_control_line_protocol fd (line @ CRLF @ rest) capacity handler st =
      bindr (kvs_line_batch_protocol fd (line @ CRLF) capacity handler st) (\<lambda>(r, consumed, _, response, st). Inr (r, consumed, response, st))"
    unfolding kvs_replication_control_line_protocol_def Let_def stop using msg by (simp add: len)
  ultimately show ?thesis
    by (cases "handler fd line capacity st") (auto simp: split_beta)
qed

section \<open>The answer to PSYNC\<close>

lemma full_resync_text:
  assumes "hex_id (fr_id fr)" "hex_id (fr_sync_id fr)" "full_resync_valid fr"
  shows "line_text (full_resync_line fr)"
proof -
  have parts: "line_text ''FULLRESYNC_RDMA ''" "line_text '' ''" "line_text (fr_id fr)" "line_text (fr_sync_id fr)"
      "line_text (int_text (fr_offset fr))" "line_text (int_text (fr_size fr))"
    using assms line_text_hex line_text_decimal
    by (simp_all add: full_resync_valid_def int_text_def) (simp_all add: line_text_def LF_def CR_def NUL_def)
  then show ?thesis
    unfolding full_resync_line_def by (intro line_text_append line_text_decimal)
qed

lemma scan_full_resync_line:
  assumes "hex_id (fr_id fr)" "hex_id (fr_sync_id fr)" "full_resync_valid fr" "fr_offset fr \<le> LLONG_MAX" "fr_size fr \<le> LLONG_MAX"
  shows "scan_full_resync (full_resync_line fr) = Some (fr, length (full_resync_line fr))"
proof -
  obtain a b where ab: "fr_offset fr = int a" "fr_size fr = int b"
    using assms(3) by (auto simp: full_resync_valid_def elim!: nonneg_int_cases [of "fr_offset fr"] dest!: less_imp_le elim: nonneg_int_cases)
  have port: "fr_port fr \<le> 65535"
    using assms(3) by (simp add: full_resync_valid_def)
  have space: "\<not> is_dec (CHR '' '')"
    by (simp add: is_dec_def)
  let ?rest = "decimal (fr_port fr) @ '' '' @ fr_sync_id fr"
  have line: "full_resync_line fr = ''FULLRESYNC_RDMA '' @ fr_id fr @ '' '' @ decimal a @ '' '' @ decimal b @ '' '' @ ?rest"
    using ab by (simp add: full_resync_line_def int_text_def)
  have scans: "scan_lld (decimal a @ '' '' @ xs) = Some (int a, '' '' @ xs)" "scan_lld (decimal b @ '' '' @ xs) = Some (int b, '' '' @ xs)"
      "scan_u5 (decimal (fr_port fr) @ '' '' @ xs) = Some (fr_port fr, '' '' @ xs)" for xs
    using assms(4,5) ab port space by (auto intro!: scan_lld_decimal scan_u5_decimal)
  have cut: "take (length ''FULLRESYNC_RDMA'') (full_resync_line fr) = ''FULLRESYNC_RDMA''"
      "drop (length ''FULLRESYNC_RDMA'') (full_resync_line fr) = '' '' @ fr_id fr @ '' '' @ decimal a @ '' '' @ decimal b @ '' '' @ ?rest"
    by (simp_all add: line)
  show ?thesis
    unfolding scan_full_resync_def Let_def c_string_line [OF full_resync_text [OF assms(1-3)]] cut
    using scan_hex_id [OF assms(1)] scan_hex_id [OF assms(2), of "[]"] scans assms(1,2) ab by simp
qed

lemma full_resync_received:
  assumes "fr_id fr = hex_text a" "fr_sync_id fr = hex_text b" "length a = 20" "length b = 20"
    and "list_all (\<lambda>x. x < 256) (a @ b)" "full_resync_valid fr" "fr_offset fr \<le> LLONG_MAX" "fr_size fr \<le> LLONG_MAX"
    and "rm_initialized (mgr n)" "rm_role (mgr n) = ROLE_REPLICA" "rm_state (mgr n) = REPLICATION_HANDSHAKE"
    and "0 \<le> fd" "fd = rm_primary_connection_fd (mgr n)" "out_data out = Some region" "0 < out_capacity out"
  shows "kvs_replication_upstream_network_protocol fd (full_resync_line fr @ CRLF @ rest) out n s =
    (case accept_full_resync fr n s of
       (r, n', s') \<Rightarrow> Inr (r, if r < 0 then 0 else int (length (full_resync_line fr @ CRLF)), out, n', s'))"
proof -
  have id: "hex_id (fr_id fr)" "hex_id (fr_sync_id fr)"
    using hex_text_id [of a] hex_text_id [of b] assms(1-5) by simp_all
  have line: "full_resync_line fr \<noteq> []" "take 16 (full_resync_line fr) = ''FULLRESYNC_RDMA ''" "full_resync_line fr \<noteq> ''PONG''"
    by (simp_all add: full_resync_line_def)
  have frame: "kvs_replication_upstream_frame_protocol fd (full_resync_line fr) (out_capacity out) (n, s) =
      (case accept_full_resync fr n s of (r, n, s) \<Rightarrow> Inr (r, [], (n, s)))"
    using assms(6,9-15) line scan_full_resync_line [OF id assms(6-8)] by (simp add: kvs_replication_upstream_frame_protocol_def split_beta)
  obtain r n' s' where acc: "accept_full_resync fr n s = (r, n', s')"
    by (metis surj_pair)
  have r: "r = 0 \<or> r = -1"
    using acc by (auto simp: accept_full_resync_def Let_def split: prod.splits if_splits)
  have out: "out\<lparr>out_data := Some region\<rparr> = out"
    using assms(14) by (cases out) simp
  have ne: "full_resync_line fr @ CRLF @ rest \<noteq> []"
    using line(1) by simp
  have line: "kvs_replication_control_line_protocol fd (full_resync_line fr @ CRLF @ rest) (out_capacity out)
      kvs_replication_upstream_frame_protocol (n, s) = Inr (r, if r < 0 then 0 else length (full_resync_line fr) + 2, [], (n', s'))"
    using r assms(15) by (auto simp: control_line [OF full_resync_text [OF id assms(6)] assms(15)] frame acc)
  have "CRLF \<noteq> []" "store_at region 0 [] = Inr region"
    by (simp_all add: CRLF_def store_at_def)
  then show ?thesis
    using assms(9-15) ne line acc out by (simp add: kvs_replication_upstream_network_protocol_def Let_def)
qed

text \<open>
  What a replica has after it has taken a synchronisation on: the values of the line, a fresh
  temporary file for as many bytes as announced, and the connection that is being made to
  the announced port of its primary.
\<close>

definition sync_begun :: "full_resync \<Rightarrow> node \<Rightarrow> node \<Rightarrow> bool" where
  "sync_begun fr n n' \<longleftrightarrow>
     mgr n' = (mgr n)\<lparr>rm_replication_id := fr_id fr, rm_replication_offset := fr_offset fr, rm_snapshot_file_size := fr_size fr,
       rm_primary_rdma_port := fr_port fr, rm_full_sync_id := fr_sync_id fr,
       rm_snapshot_writer := \<lparr>sn_fd = Some replica_temp_path, sn_pos = 0, sn_remaining = fr_size fr\<rparr>,
       rm_sync := (rm_sync (mgr n))\<lparr>sync_connection := conn n'\<rparr>, rm_state := REPLICATION_FULL_SYNC\<rparr> \<and>
     nd_files n' replica_temp_path = Some [] \<and>
     kvs_rdma_connection_start (nd_resolvable n) (conn n) (rm_primary_host (mgr n)) (fr_port fr)
       KVS_REPLICATION_RDMA_RESOLVE_TIMEOUT_MS (nd_lib n) = (0, conn n', nd_lib n')"

lemma connection_start_code:
  "fst (kvs_rdma_connection_start resolvable c host port t L) = 0 \<or> fst (kvs_rdma_connection_start resolvable c host port t L) = -1"
  by (simp add: kvs_rdma_connection_start_def lib_call_def Let_def split: prod.split bool.split)

lemma connection_start_live:
  assumes "c = None" "resolvable host" "port \<noteq> 0" "0 < t" "\<forall>k. rl_ok L k"
  shows "fst (kvs_rdma_connection_start resolvable c host port t L) = 0"
  using assms by (simp add: kvs_rdma_connection_start_def lib_call_def next_call_def Let_def)

lemmas node_simps = mgr_def upd_def upd_sync_def with_files_def with_conn_def conn_def begin_full_sync_def

lemma writer_reopened:
  assumes "0 < sz"
  shows "\<exists>r w fs' s2. (case kvs_snapshot_writer_abort w0 replica_temp_path fs s of (w, fs, s) \<Rightarrow>
      kvs_snapshot_writer_open w replica_temp_path sz fs s) = (r, w, fs', s2) \<and>
    (\<forall>p. p \<noteq> replica_temp_path \<longrightarrow> fs' p = fs p) \<and> ((\<forall>k. s_oscall s k) \<longrightarrow> r = 0) \<and>
    (r = -1 \<or> r = 0 \<and> w = \<lparr>sn_fd = Some replica_temp_path, sn_pos = 0, sn_remaining = sz\<rparr> \<and> fs' replica_temp_path = Some [])"
  using assms
  by (auto simp: kvs_snapshot_writer_abort_def kvs_snapshot_writer_open_def replica_temp_path_def os_call_def Let_def split: bool.split)

lemma accept_full_resync_law:
  assumes "full_resync_valid fr" "accept_full_resync fr n s = (r, n', s')"
  shows "sv_engines (nd_server n') = sv_engines (nd_server n)" "sv_aof (nd_server n') = sv_aof (nd_server n)"
    "\<forall>p. p \<noteq> replica_temp_path \<longrightarrow> nd_files n' p = nd_files n p"
    "r = -1 \<and> rm_state (mgr n') = rm_state (mgr n) \<or> r = 0 \<and> sync_begun fr n n'"
    "(\<forall>k. s_oscall s k) \<Longrightarrow> conn n = None \<Longrightarrow> nd_resolvable n (rm_primary_host (mgr n)) \<Longrightarrow> (\<forall>k. rl_ok (nd_lib n) k) \<Longrightarrow> r = 0"
proof -
  let ?t = KVS_REPLICATION_RDMA_RESOLVE_TIMEOUT_MS
  have v: "0 < fr_size fr" "fr_port fr \<noteq> 0" and t: "0 < ?t"
    using assms(1) by (simp_all add: full_resync_valid_def KVS_REPLICATION_RDMA_RESOLVE_TIMEOUT_MS_def)
  obtain r0 w fs' s2 where o: "(case kvs_snapshot_writer_abort (rm_snapshot_writer (mgr n)) replica_temp_path (nd_files n) s of
        (w, fs, s) \<Rightarrow> kvs_snapshot_writer_open w replica_temp_path (fr_size fr) fs s) = (r0, w, fs', s2)"
      and fs: "\<forall>p. p \<noteq> replica_temp_path \<longrightarrow> fs' p = nd_files n p" and live: "(\<forall>k. s_oscall s k) \<longrightarrow> r0 = 0"
      and w: "r0 = -1 \<or> r0 = 0 \<and> w = \<lparr>sn_fd = Some replica_temp_path, sn_pos = 0, sn_remaining = fr_size fr\<rparr> \<and> fs' replica_temp_path = Some []"
    using writer_reopened [OF v(1)] by blast
  obtain rc c L where c: "kvs_rdma_connection_start (nd_resolvable n) (conn n) (rm_primary_host (mgr n)) (fr_port fr) ?t (nd_lib n) = (rc, c, L)"
    by (cases "kvs_rdma_connection_start (nd_resolvable n) (conn n) (rm_primary_host (mgr n)) (fr_port fr) ?t (nd_lib n)")
  have rc: "rc = 0 \<or> rc = -1" "conn n = None \<Longrightarrow> nd_resolvable n (rm_primary_host (mgr n)) \<Longrightarrow> (\<forall>k. rl_ok (nd_lib n) k) \<Longrightarrow> rc = 0"
    using connection_start_code [of "nd_resolvable n" "conn n" "rm_primary_host (mgr n)" "fr_port fr" ?t "nd_lib n"]
      connection_start_live [OF _ _ v(2) t, of "conn n" "nd_resolvable n" "rm_primary_host (mgr n)" "nd_lib n"] c by simp_all
  define n1 where "n1 = upd (\<lambda>m. m\<lparr>rm_snapshot_writer := w\<rparr>) (with_files fs' n)"
  define n2 where "n2 = with_conn c L (begin_full_sync fr n1)"
  define n3 where "n3 = upd (\<lambda>m. m\<lparr>rm_state := REPLICATION_FULL_SYNC\<rparr>) n2"
  have acc: "accept_full_resync fr n s = (if r0 < 0 then (-1, n1, s2) else if rc < 0 then (-1, n2, s2) else (0, n3, s2))"
  proof -
    obtain w1 fs1 s1 where ab: "kvs_snapshot_writer_abort (rm_snapshot_writer (mgr n)) replica_temp_path (nd_files n) s = (w1, fs1, s1)"
      by (cases "kvs_snapshot_writer_abort (rm_snapshot_writer (mgr n)) replica_temp_path (nd_files n) s")
    then have op: "kvs_snapshot_writer_open w1 replica_temp_path (fr_size fr) fs1 s1 = (r0, w, fs', s2)"
      using o by simp
    let ?b = "begin_full_sync fr n1"
    have b: "nd_resolvable ?b = nd_resolvable n" "conn ?b = conn n" "rm_primary_host (mgr ?b) = rm_primary_host (mgr n)"
        "rm_primary_rdma_port (mgr ?b) = fr_port fr" "nd_lib ?b = nd_lib n"
      by (simp_all add: node_simps n1_def)
    show ?thesis
      unfolding accept_full_resync_def Let_def ab op prod.case n1_def [symmetric] b c n2_def [symmetric] n3_def [symmetric]
      by (rule refl)
  qed
  have cases: "r = -1 \<and> (n' = n1 \<or> n' = n2) \<and> (r0 = -1 \<or> rc = -1) \<or> r = 0 \<and> r0 = 0 \<and> rc = 0 \<and> n' = n3"
    using acc assms(2) w rc(1) by (auto split: if_splits)
  have kept: "sv_engines (nd_server m) = sv_engines (nd_server n) \<and> sv_aof (nd_server m) = sv_aof (nd_server n) \<and> nd_files m = fs'"
    if "m = n1 \<or> m = n2 \<or> m = n3" for m
    using that by (elim disjE) (simp_all add: n1_def n2_def n3_def node_simps)
  have n': "n' = n1 \<or> n' = n2 \<or> n' = n3"
    using cases by blast
  show "sv_engines (nd_server n') = sv_engines (nd_server n)" "sv_aof (nd_server n') = sv_aof (nd_server n)"
    "\<forall>p. p \<noteq> replica_temp_path \<longrightarrow> nd_files n' p = nd_files n p"
    using kept [OF n'] fs by simp_all
  have "rm_state (mgr n1) = rm_state (mgr n)" "rm_state (mgr n2) = rm_state (mgr n)"
    by (simp_all add: n1_def n2_def node_simps)
  moreover have "sync_begun fr n n3" if "r0 = 0" "rc = 0"
    using that w c by (simp add: sync_begun_def n1_def n2_def n3_def node_simps)
  ultimately show "r = -1 \<and> rm_state (mgr n') = rm_state (mgr n) \<or> r = 0 \<and> sync_begun fr n n'"
    using cases by blast
  show "r = 0" if "\<forall>k. s_oscall s k" "conn n = None" "nd_resolvable n (rm_primary_host (mgr n))" "\<forall>k. rl_ok (nd_lib n) k"
    using cases live rc(2) that by auto
qed

text \<open>
  C39.  The primary's answer to \<open>PSYNC\<close>, with identifiers as \<open>kvs_replication_generate_id\<close>
  makes them, is read back by a replica in its hand-shake exactly as it was meant, whatever
  follows it on the connection.  Either the replica cannot open its temporary file or start
  the connection: it answers -1, consumes nothing and stays in the hand-shake.  Or it answers
  0, the line and nothing else is consumed, and the synchronisation has begun: the manager
  holds the primary's identifier, offset, snapshot size, port and synchronisation identifier
  and is in \<open>REPLICATION_FULL_SYNC\<close>, the temporary file is open, empty, for that many bytes,
  and the connection is the one started to that port; this is the case whenever the kernel
  and the RDMA library do what they are asked and no connection is open.  The data, the log
  and every other file are as before in both cases.
\<close>

theorem full_resync_agreed:
  assumes "fr_id fr = hex_text a" "fr_sync_id fr = hex_text b" "length a = 20" "length b = 20"
    and "list_all (\<lambda>x. x < 256) (a @ b)" "full_resync_valid fr" "fr_offset fr \<le> LLONG_MAX" "fr_size fr \<le> LLONG_MAX"
    and "rm_initialized (mgr n)" "rm_role (mgr n) = ROLE_REPLICA" "rm_state (mgr n) = REPLICATION_HANDSHAKE"
    and "0 \<le> fd" "fd = rm_primary_connection_fd (mgr n)" "out_data out = Some region" "0 < out_capacity out"
  shows "\<exists>r n' s'. kvs_replication_upstream_network_protocol fd (full_resync_line fr @ CRLF @ rest) out n s =
      Inr (r, if r < 0 then 0 else int (length (full_resync_line fr @ CRLF)), out, n', s') \<and>
    sv_engines (nd_server n') = sv_engines (nd_server n) \<and> sv_aof (nd_server n') = sv_aof (nd_server n) \<and>
    (\<forall>p. p \<noteq> replica_temp_path \<longrightarrow> nd_files n' p = nd_files n p) \<and>
    (r = -1 \<and> rm_state (mgr n') = REPLICATION_HANDSHAKE \<or>
     r = 0 \<and> mgr n' = (mgr n)\<lparr>rm_replication_id := fr_id fr, rm_replication_offset := fr_offset fr,
         rm_snapshot_file_size := fr_size fr, rm_primary_rdma_port := fr_port fr, rm_full_sync_id := fr_sync_id fr,
         rm_snapshot_writer := \<lparr>sn_fd = Some replica_temp_path, sn_pos = 0, sn_remaining = fr_size fr\<rparr>,
         rm_sync := (rm_sync (mgr n))\<lparr>sync_connection := conn n'\<rparr>, rm_state := REPLICATION_FULL_SYNC\<rparr> \<and>
       nd_files n' replica_temp_path = Some [] \<and>
       kvs_rdma_connection_start (nd_resolvable n) (conn n) (rm_primary_host (mgr n)) (fr_port fr)
         KVS_REPLICATION_RDMA_RESOLVE_TIMEOUT_MS (nd_lib n) = (0, conn n', nd_lib n')) \<and>
    ((\<forall>k. s_oscall s k) \<and> conn n = None \<and> nd_resolvable n (rm_primary_host (mgr n)) \<and> (\<forall>k. rl_ok (nd_lib n) k) \<longrightarrow> r = 0)"
proof -
  obtain r n' s' where acc: "accept_full_resync fr n s = (r, n', s')"
    by (metis surj_pair)
  note law = accept_full_resync_law [OF assms(6) acc]
  have run: "kvs_replication_upstream_network_protocol fd (full_resync_line fr @ CRLF @ rest) out n s =
      Inr (r, if r < 0 then 0 else int (length (full_resync_line fr @ CRLF)), out, n', s')"
    using full_resync_received [OF assms] acc by simp
  have live: "(\<forall>k. s_oscall s k) \<and> conn n = None \<and> nd_resolvable n (rm_primary_host (mgr n)) \<and> (\<forall>k. rl_ok (nd_lib n) k) \<longrightarrow> r = 0"
    using law(5) by blast
  show ?thesis
    by (intro exI [of _ r] exI [of _ n'] exI [of _ s'] conjI run law(1-3) law(4) [unfolded sync_begun_def assms(11)] live)
qed

definition sample_resync :: full_resync where
  "sample_resync = \<lparr>fr_id = hex_text [1..<21], fr_offset = 27, fr_size = 64, fr_port = 2001, fr_sync_id = hex_text (replicate 20 255)\<rparr>"

text \<open>A replica that waits for the answer on descriptor 5, with a library that does what it is asked.\<close>

definition handshaking :: "node \<Rightarrow> node" where
  "handshaking n =
     (upd (\<lambda>m. m\<lparr>rm_initialized := True, rm_role := ROLE_REPLICA, rm_state := REPLICATION_HANDSHAKE, rm_primary_connection_fd := 5,
        rm_sync := rdma_sync_idle\<rparr>) n)\<lparr>nd_resolvable := (\<lambda>_. True), nd_lib := (nd_lib n)\<lparr>rl_ok := (\<lambda>_. True)\<rparr>\<rparr>"

theorem full_resync_agreed_witness:
  "\<forall>n. \<exists>n' s'. kvs_replication_upstream_network_protocol 5 (full_resync_line sample_resync @ CRLF @ ''x'') sample_buffer (handshaking n) calm =
      Inr (0, int (length (full_resync_line sample_resync @ CRLF)), sample_buffer, n', s') \<and>
    rm_replication_offset (mgr n') = 27 \<and> rm_snapshot_file_size (mgr n') = 64 \<and> rm_primary_rdma_port (mgr n') = 2001 \<and>
    rm_state (mgr n') = REPLICATION_FULL_SYNC \<and> nd_files n' replica_temp_path = Some []"
proof
  fix n
  let ?n = "handshaking n"
  have ids: "fr_id sample_resync = hex_text [1..<21]" "fr_sync_id sample_resync = hex_text (replicate 20 255)"
    by (simp_all add: sample_resync_def)
  have valid: "full_resync_valid sample_resync"
    using hex_text_id [of "[1..<21]"] hex_text_id [of "replicate 20 255"]
    by (simp add: full_resync_valid_def hex_id_def sample_resync_def list_all_iff)
  have m: "rm_initialized (mgr ?n)" "rm_role (mgr ?n) = ROLE_REPLICA" "rm_state (mgr ?n) = REPLICATION_HANDSHAKE"
      "rm_primary_connection_fd (mgr ?n) = 5" "conn ?n = None" "nd_resolvable ?n x" "\<forall>k. rl_ok (nd_lib ?n) k" for x
    by (simp_all add: handshaking_def upd_def mgr_def conn_def rdma_sync_idle_def)
  have out: "out_data sample_buffer = Some (the (out_data sample_buffer))" "0 < out_capacity sample_buffer"
    by (simp_all add: sample_buffer_def)
  have fr: "length [1..<21] = 20" "length (replicate 20 (255::nat)) = 20" "list_all (\<lambda>x. x < 256) ([1..<21] @ replicate 20 255)"
      "fr_offset sample_resync \<le> LLONG_MAX" "fr_size sample_resync \<le> LLONG_MAX" "(0::int) \<le> 5"
    by (simp_all add: sample_resync_def LLONG_MAX_def list_all_iff)
  have calm: "\<forall>k. s_oscall calm k"
    by (simp add: calm_def)
  obtain r n' s' where run: "kvs_replication_upstream_network_protocol 5 (full_resync_line sample_resync @ CRLF @ ''x'') sample_buffer ?n calm =
        Inr (r, if r < 0 then 0 else int (length (full_resync_line sample_resync @ CRLF)), sample_buffer, n', s')"
      and r: "r = 0" and begun: "sync_begun sample_resync ?n n'"
    using full_resync_agreed [OF ids fr(1-3) valid fr(4,5) m(1-3) fr(6) m(4) [symmetric] out, of "''x''" calm, folded sync_begun_def]
      m(5-7) calm by (metis one_neq_zero neg_equal_0_iff_equal)
  then show "\<exists>n' s'. kvs_replication_upstream_network_protocol 5 (full_resync_line sample_resync @ CRLF @ ''x'') sample_buffer ?n calm =
      Inr (0, int (length (full_resync_line sample_resync @ CRLF)), sample_buffer, n', s') \<and>
    rm_replication_offset (mgr n') = 27 \<and> rm_snapshot_file_size (mgr n') = 64 \<and> rm_primary_rdma_port (mgr n') = 2001 \<and>
    rm_state (mgr n') = REPLICATION_FULL_SYNC \<and> nd_files n' replica_temp_path = Some []"
    using begun run r by (intro exI [of _ n'] exI [of _ s']) (simp add: sync_begun_def sample_resync_def)
qed


section \<open>Catching up\<close>

text \<open>The same memory and kernel, asked more questions.\<close>

definition same_machine :: "sys \<Rightarrow> sys \<Rightarrow> bool" where
  "same_machine s s' \<longleftrightarrow> s_alloc s' = s_alloc s \<and> s_patience s' = s_patience s \<and> s_oscall s' = s_oscall s \<and> s_kern s' = s_kern s"

lemma same_machine_willing: "same_machine s s' \<Longrightarrow> willing s' = willing s"
  by (simp add: same_machine_def willing_def plenty_def progressing_def)

lemma same_machine_trans: "same_machine s t \<Longrightarrow> same_machine t u \<Longrightarrow> same_machine s u"
  by (simp add: same_machine_def)

lemma same_memory_machine: "same_memory s s' \<Longrightarrow> same_machine s s'"
  by (simp add: same_memory_def same_machine_def)

lemma same_kernel_machine: "same_kernel s s' \<Longrightarrow> s_alloc s' = s_alloc s \<Longrightarrow> same_machine s s'"
  by (simp add: same_kernel_def same_machine_def)

lemma same_machine_free [simp]: "same_machine s (kvs_free t) = same_machine s t" "same_machine (kvs_free s) t = same_machine s t"
  by (simp_all add: same_machine_def kvs_free_def)

lemma free_blocks_machine: "same_machine s (free_blocks n t) = same_machine s t"
  by (induction n arbitrary: t) simp_all

lemma append_again:
  assumes idle: "idle (aw_io w)" and run: "kvs_aof_append (map Some ts) w fs s = Inr (0, w', fs', s')"
  shows "idle (aw_io w') \<and> same_machine s s'"
proof -
  obtain n d s1 req o_append f q1 io1 f1 s2 q2 f2 where m: "kvs_malloc_bytes n s = (Some d, s1)"
      and b: "kvs_uring_io_write_batch (aw_io w) False [req] f s1 = Inr (q1, io1, f1, s2)" "\<not> q1 < 0"
      and y: "kvs_uring_io_sync io1 f1 (kvs_free s2) = Inr (q2, aw_io w', f2, s')" "\<not> q2 < 0"
    using run by (auto simp: kvs_aof_append_def bindr_eq_Inr Let_def split: option.splits if_splits prod.splits)
  have "same_machine s s1"
    using m by (auto simp: kvs_malloc_bytes_def kvs_malloc_def same_machine_def Let_def split: if_splits)
  moreover have b1: "idle io1" "same_machine s1 s2"
    using write_batch_law [OF idle b(1)] b(2) by (auto intro: same_memory_machine)
  moreover have "sync_loop (s_patience (kvs_free s2)) io1 f1 (kvs_free s2) = Inr (q2, aw_io w', f2, s')"
    using y(1) b1(1) by (simp add: kvs_uring_io_sync_def idle_def)
  from sync_loop_spec [OF b1(1) this] have "idle (aw_io w')" "same_machine (kvs_free s2) s'"
    using y(2) by (auto dest: same_memory_machine)
  ultimately show ?thesis
    by (auto intro: same_machine_trans)
qed

text \<open>One command of the primary on a replica that has memory and a kernel that makes progress.\<close>

lemma replicated_command:
  assumes j: "journal path pre st cs sv" and mode: "sv_mode sv \<noteq> PERSISTENCE_SNAPSHOT"
    and c: "enabled c (store_of (sv_engines sv))" "keys_ok c" "plain c" "aof_command c"
    and w: "idle (aw_io (sv_aof sv))" "aw_offset (sv_aof sv) + length (command_bytes c) \<le> OFF_MAX"
    and s: "willing s" "length (command_bytes c) < s_patience s" and region: "10 < length region"
  shows "\<exists>n region' g w' fs s'. kvs_replication_command_protocol c region sv s = Inr (n, region', sv\<lparr>sv_engines := g, sv_aof := w', sv_files := fs\<rparr>, s') \<and>
    0 < n \<and> n \<le> 10 \<and> length region' = length region \<and> journal path pre st (cs @ [c]) (sv\<lparr>sv_engines := g, sv_aof := w', sv_files := fs\<rparr>) \<and>
    idle (aw_io w') \<and> same_machine s s'"
proof -
  obtain e x where op: "op_of c = Some (e, x)"
    using c(1) by (auto simp: enabled_def split: option.splits)
  note d = op_of_command [OF op] and names = write_op_names [OF op]
  have size: "length (command_bytes c) \<le> SIZE_MAX" using c(4) by (simp add: aof_command_def)
  then have sz: "length t \<noteq> SIZE_MAX" if "t \<in> set c" for t
    using token_shorter [OF that] by simp
  have plenty: "plenty s" using s(1) by (simp add: willing_def)
  obtain s1 where copied: "copy_fields (map Some c) 0 s = (Some c, s1)"
    using plain_copied [OF c(3) sz plenty] by blast
  then have s1: "same_machine s s1"
    using copy_fields_law [OF copied] copy_fields_frame [OF copied] by (auto intro: same_kernel_machine)
  have inv: "engines_inv (sv_engines sv)" and fd: "aw_fd (sv_aof sv) = Some path"
    using j by (simp_all add: journal_def)
  obtain r g s2 where x: "exec_engine (5 * e + op_code x) (Some (op_key x)) (op_value x) (sv_engines sv) s1 = Inr (r, op_text x r, g, s2)"
      "engines_inv g" "balanced engines_owned (sv_engines sv) s1 g s2"
      "store_of g = (if r = 0 then effect c (store_of (sv_engines sv)) else store_of (sv_engines sv))"
      "plenty s1 \<and> enabled c (store_of (sv_engines sv)) \<longrightarrow> r = 0"
    by (rule exec_write_law [OF inv op c(2), of s1])
  have r: "r = 0"
    using x(5) c(1) plenty s1 by (simp add: same_machine_def plenty_def)
  have s2: "same_machine s s2"
    using same_machine_trans [OF s1 same_kernel_machine [OF exec_engine_frame [OF x(1)]]] x(3) by (simp add: balanced_def)
  obtain w' fs s3 where app: "kvs_aof_append (map Some c) (sv_aof sv) (sv_files sv) s2 = Inr (0, w', fs, s3)"
    using aof_append_succeeds [OF fd w(1) _ d(7) size w(2), of s2 "sv_files sv"] s same_machine_willing [OF s2] s2
    by (auto simp: same_machine_def)
  have again: "idle (aw_io w')" "same_machine s s3"
    using append_again [OF w(1) app] s2 by (auto intro: same_machine_trans)
  define sv' where "sv' = sv\<lparr>sv_engines := g, sv_aof := w', sv_files := fs\<rparr>"
  have log: "log_command (5 * e + op_code x) r c SOURCE_REPLICATION (sv\<lparr>sv_engines := g\<rparr>) s2 = Inr (sv', s3)"
    using app r names(5) mode by (simp add: log_command_def sv'_def)
  have "journal path pre st (cs @ [c]) sv'"
    using log_step [OF j x(2,4) _ c(2,3) _ mode names(5) log] r c(1) by simp
  moreover obtain region' where "kvs_replication_command_protocol c region sv s =
      Inr (int (length (op_text x r)), region', sv', free_blocks (length c) s3)" "length region' = length region"
    using fields_protocol_write [OF op c(3,4) _ region copied x(1) log] r by (auto simp: kvs_replication_command_protocol_def)
  ultimately show ?thesis
    using op_text_short [of x r] again unfolding sv'_def
    by (intro exI [of _ "int (length (op_text x r))"] exI [of _ region'] exI [of _ g] exI [of _ w'] exI [of _ fs] exI [of _ "free_blocks (length c) s3"])
       (simp add: free_blocks_machine)
qed

text \<open>
  The replica between two messages on its connection to the primary, with its output buffer;
  its own append-only file holds \<open>pre\<close> and the commands \<open>cs\<close>.
\<close>

definition catching_up :: "bytes \<Rightarrow> bytes \<Rightarrow> store \<Rightarrow> bytes list list \<Rightarrow> int \<Rightarrow> kvs_output_buffer_t \<Rightarrow> node \<Rightarrow> bool" where
  "catching_up path pre st cs fd out n \<longleftrightarrow>
     journal path pre st cs (nd_server n) \<and> receiving_commands fd n \<and> rm_command_handler (mgr n) \<and>
     sv_mode (nd_server n) \<noteq> PERSISTENCE_SNAPSHOT \<and> idle (aw_io (sv_aof (nd_server n))) \<and> usable out"

lemma catching_up_offset: "catching_up path pre st cs fd out n \<Longrightarrow> nd_offset n = int (length (pre @ aof_image cs))"
  by (simp add: catching_up_def journal_def kvs_aof_get_offset_def)

lemma catching_up_ready:
  assumes "catching_up path pre st cs fd out n"
  obtains region where "out_data out = Some region" "10 < length region" "5 \<le> out_capacity out" "rm_initialized (mgr n)" "rm_role (mgr n) = ROLE_REPLICA"
    "0 \<le> fd" "fd = rm_primary_connection_fd (mgr n)" "rm_state (mgr n) \<noteq> REPLICATION_HANDSHAKE" "rm_state (mgr n) \<noteq> REPLICATION_FULL_SYNC"
    "rm_state (mgr n) = REPLICATION_CATCH_UP \<or> rm_state (mgr n) = REPLICATION_ONLINE"
  using assms by (auto simp: catching_up_def usable_def output_ok_def buffer_ok_def receiving_commands_def BUFFER_LENGTH_def split: option.splits)

lemma journal_manager [simp]: "journal path pre st cs (sv\<lparr>sv_replication := m\<rparr>) = journal path pre st cs sv"
  by (simp add: journal_def)

lemma upstream_command:
  assumes cu: "catching_up path pre st cs fd out n" and s: "willing s" "length (command_bytes c) < s_patience s"
    and c: "enabled c (store_of (sv_engines (nd_server n)))" "keys_ok c" "plain c" "aof_command c"
    and room: "length (pre @ aof_image cs @ command_bytes c) \<le> OFF_MAX"
  shows "\<exists>out' n' s'. kvs_replication_upstream_network_protocol fd (command_bytes c @ rest) out n s = Inr (0, int (length (command_bytes c)), out', n', s') \<and>
    catching_up path pre st (cs @ [c]) fd out' n' \<and> same_machine s s'"
proof -
  obtain region where ready: "out_data out = Some region" "10 < length region" "5 \<le> out_capacity out" "rm_initialized (mgr n)"
      "rm_role (mgr n) = ROLE_REPLICA" "0 \<le> fd" "fd = rm_primary_connection_fd (mgr n)" "rm_state (mgr n) \<noteq> REPLICATION_HANDSHAKE"
      "rm_state (mgr n) \<noteq> REPLICATION_FULL_SYNC" "rm_state (mgr n) = REPLICATION_CATCH_UP \<or> rm_state (mgr n) = REPLICATION_ONLINE"
    by (rule catching_up_ready [OF cu])
  have k: "journal path pre st cs (nd_server n)" "receiving_commands fd n" "rm_command_handler (mgr n)"
      "sv_mode (nd_server n) \<noteq> PERSISTENCE_SNAPSHOT" "idle (aw_io (sv_aof (nd_server n)))" "usable out"
    using cu by (simp_all add: catching_up_def)
  have "aw_offset (sv_aof (nd_server n)) + length (command_bytes c) \<le> OFF_MAX"
    using k(1) room by (simp add: journal_def)
  then obtain len region' g w' fs s' where run: "kvs_replication_command_protocol c region (nd_server n) s =
        Inr (len, region', (nd_server n)\<lparr>sv_engines := g, sv_aof := w', sv_files := fs\<rparr>, s')" "0 < len" "len \<le> 10" "length region' = length region"
      "journal path pre st (cs @ [c]) ((nd_server n)\<lparr>sv_engines := g, sv_aof := w', sv_files := fs\<rparr>)" "idle (aw_io w')" "same_machine s s'"
    using replicated_command [OF k(1,4) c k(5) _ s ready(2)] by blast
  define n1 where "n1 = n\<lparr>nd_server := (nd_server n)\<lparr>sv_engines := g, sv_aof := w', sv_files := fs\<rparr>\<rparr>"
  define n' where "n' = upd (\<lambda>m. m\<lparr>rm_replication_offset := nd_offset n1\<rparr>) n1"
  have offset: "\<not> kvs_aof_get_offset w' < 0" "nd_offset n1 = kvs_aof_get_offset w'"
    using run(5) by (simp_all add: n1_def journal_def kvs_aof_get_offset_def)
  have c_ne: "c \<noteq> []" "length c \<le> 3" "length (command_bytes c) \<le> SIZE_MAX"
    using c(4) by (simp_all add: aof_command_def)
  have "kvs_replication_catch_up_command_protocol fd c region n s = Inr (0, region', n', s')"
    using k(2,3) c_ne(1) ready(2) run(1-4) offset
    by (auto simp: kvs_replication_catch_up_command_protocol_def Let_def n1_def [symmetric] n'_def)
  moreover have "kvs_parse_command (Some (command_bytes c @ rest)) 3 = Complete (c, length (command_bytes c))"
    unfolding kvs_parse_command_def by (rule parse_command_bytes) (use c_ne in auto)
  moreover have "command_bytes c @ rest \<noteq> []" "hd (command_bytes c @ rest) = CHR ''*''"
    by (simp_all add: command_bytes_def)
  ultimately have "kvs_replication_upstream_network_protocol fd (command_bytes c @ rest) out n s =
      Inr (0, int (length (command_bytes c)), out\<lparr>out_data := Some region'\<rparr>, n', s')"
    using ready by (simp add: kvs_replication_upstream_network_protocol_def Let_def)
  moreover have "usable (out\<lparr>out_data := Some region'\<rparr>)"
    using k(6) ready(1) run(4) by (simp add: usable_def output_ok_def buffer_ok_def)
  then have "catching_up path pre st (cs @ [c]) fd (out\<lparr>out_data := Some region'\<rparr>) n'"
    using run(5,6) k(2-4) by (simp add: catching_up_def n'_def n1_def upd_def mgr_def receiving_commands_def)
  ultimately show ?thesis
    using run(7) by blast
qed

text \<open>The line that ends the catch-up, with the offset both have reached.\<close>

definition online_line :: "int \<Rightarrow> bytes" where
  "online_line offset = ''ONLINE '' @ int_text offset"

lemma upstream_online:
  assumes cu: "catching_up path pre st cs fd out n" and room: "length (pre @ aof_image cs) \<le> OFF_MAX"
  shows "\<exists>n'. kvs_replication_upstream_network_protocol fd (online_line (nd_offset n) @ CRLF @ rest) out n s =
      Inr (0, int (length (online_line (nd_offset n) @ CRLF)), out, n', s) \<and>
    catching_up path pre st cs fd out n' \<and> kvs_replication_is_online (mgr n')"
proof -
  obtain region where ready: "out_data out = Some region" "10 < length region" "5 \<le> out_capacity out" "rm_initialized (mgr n)"
      "rm_role (mgr n) = ROLE_REPLICA" "0 \<le> fd" "fd = rm_primary_connection_fd (mgr n)" "rm_state (mgr n) \<noteq> REPLICATION_HANDSHAKE"
      "rm_state (mgr n) \<noteq> REPLICATION_FULL_SYNC" "rm_state (mgr n) = REPLICATION_CATCH_UP \<or> rm_state (mgr n) = REPLICATION_ONLINE"
    by (rule catching_up_ready [OF cu])
  define k where "k = length (pre @ aof_image cs)"
  have off: "nd_offset n = int k" "int k \<le> LLONG_MAX"
    using catching_up_offset [OF cu] room by (simp_all add: k_def LLONG_MAX_def OFF_MAX_def)
  have line: "online_line (nd_offset n) = ''ONLINE '' @ decimal k" "line_text (online_line (nd_offset n))"
    using line_text_append [OF _ line_text_decimal [of k], of "''ONLINE ''"] off(1)
    by (simp_all add: online_line_def int_text_def line_text_def LF_def CR_def NUL_def)
  have scan: "scan_online (online_line (nd_offset n)) = Some (nd_offset n, length (online_line (nd_offset n)))"
    using scan_lld_decimal [OF off(2), of "[]"] off(1) line(1) c_string_line [OF line(2)] by (simp add: scan_online_def Let_def)
  define n' where "n' = upd (\<lambda>m. m\<lparr>rm_replication_offset := nd_offset n, rm_state := REPLICATION_ONLINE\<rparr>) n"
  have frame: "kvs_replication_online_control_frame_protocol fd (online_line (nd_offset n)) (out_capacity out) (n, s) = Inr (0, [], (n', s))"
    using cu ready(3) off(1) scan line(1) by (simp add: kvs_replication_online_control_frame_protocol_def catching_up_def n'_def)
  have "kvs_replication_control_line_protocol fd (online_line (nd_offset n) @ CRLF @ rest) (out_capacity out)
      kvs_replication_online_control_frame_protocol (n, s) = Inr (0, length (online_line (nd_offset n)) + 2, [], (n', s))"
    using ready(3) control_line [OF line(2), of "out_capacity out" fd rest kvs_replication_online_control_frame_protocol "(n, s)"] frame by simp
  moreover have "out\<lparr>out_data := Some region\<rparr> = out" "store_at region 0 [] = Inr region" "CRLF \<noteq> []"
      "hd (online_line (nd_offset n) @ CRLF @ rest) \<noteq> CHR ''*''"
    using ready(1) line(1) by (cases out; simp add: store_at_def CRLF_def)+
  ultimately have "kvs_replication_upstream_network_protocol fd (online_line (nd_offset n) @ CRLF @ rest) out n s =
      Inr (0, int (length (online_line (nd_offset n) @ CRLF)), out, n', s)"
    using ready by (simp add: kvs_replication_upstream_network_protocol_def Let_def)
  moreover have "catching_up path pre st cs fd out n'" "kvs_replication_is_online (mgr n')"
    using cu by (simp_all add: catching_up_def n'_def upd_def mgr_def receiving_commands_def kvs_replication_is_online_def)
  ultimately show ?thesis by blast
qed

text \<open>
  The handler called as \<open>server_reader\<close> calls it: again on what it has left, until it takes
  nothing or fails.  \<open>k\<close> bounds the number of calls.
\<close>

fun follow :: "nat \<Rightarrow> int \<Rightarrow> bytes \<Rightarrow> kvs_output_buffer_t \<Rightarrow> node \<Rightarrow> sys \<Rightarrow> (bytes \<times> kvs_output_buffer_t \<times> node \<times> sys) run" where
  "follow 0 fd msg out n s = Inr (msg, out, n, s)"
| "follow (Suc k) fd msg out n s =
     (if msg = [] then Inr (msg, out, n, s)
      else bindr (kvs_replication_upstream_network_protocol fd msg out n s) (\<lambda>(r, used, out, n, s).
        if r < 0 \<or> used \<le> 0 then Inr (msg, out, n, s) else follow k fd (drop (nat used) msg) out n s))"

lemma follow_commands:
  "catching_up path pre st cs fd out n \<Longrightarrow> willing s \<Longrightarrow> legal_log ds (store_of (sv_engines (nd_server n))) \<Longrightarrow>
   list_all (\<lambda>d. length (command_bytes d) < s_patience s) ds \<Longrightarrow> length (pre @ aof_image (cs @ ds)) \<le> OFF_MAX \<Longrightarrow>
   \<exists>out' n' s'. follow (length ds + k) fd (aof_image ds @ rest) out n s = follow k fd rest out' n' s' \<and>
     catching_up path pre st (cs @ ds) fd out' n' \<and> same_machine s s'"
proof (induction ds arbitrary: cs out n s)
  case Nil
  then show ?case by (auto simp: same_machine_def)
next
  case (Cons c ds)
  have c: "enabled c (store_of (sv_engines (nd_server n)))" "keys_ok c" "plain c" "aof_command c"
    using Cons.prems(3) by simp_all
  obtain out1 n1 s1 where one: "kvs_replication_upstream_network_protocol fd (command_bytes c @ aof_image ds @ rest) out n s =
        Inr (0, int (length (command_bytes c)), out1, n1, s1)" "catching_up path pre st (cs @ [c]) fd out1 n1" "same_machine s s1"
    using upstream_command [OF Cons.prems(1,2) _ c, of "aof_image ds @ rest"] Cons.prems(4,5) by auto
  have st: "store_of (sv_engines (nd_server n1)) = effect c (store_of (sv_engines (nd_server n)))"
    using one(2) Cons.prems(1) by (simp add: catching_up_def journal_def)
  have s1: "willing s1" "s_patience s1 = s_patience s"
    using same_machine_willing [OF one(3)] Cons.prems(2) one(3) by (simp_all add: same_machine_def)
  obtain out' n' s' where "follow (length ds + k) fd (aof_image ds @ rest) out1 n1 s1 = follow k fd rest out' n' s'"
      "catching_up path pre st ((cs @ [c]) @ ds) fd out' n'" "same_machine s1 s'"
    using Cons.IH [OF one(2) s1(1)] Cons.prems(3-5) st s1(2) by auto
  moreover have "command_bytes c \<noteq> []"
    by (simp add: command_bytes_def)
  ultimately show ?case
    using one(1,3) by (auto intro: same_machine_trans)
qed

text \<open>
  C40.  A replica that has installed the primary's state up to some command, and whose offset
  is the position after that command in the primary's append-only file, is fed the rest of
  that file and the line \<open>ONLINE\<close> with the primary's offset.  On a machine with memory and a
  kernel that makes progress it carries out every command, writes it to its own file, and
  ends online, at the primary's offset, with the primary's data.
\<close>

theorem replica_converges:
  assumes primary: "journal ppath ppre pst (pcs @ ds) p"
    and replica: "journal path pre st cs (nd_server n)" "receiving_commands fd n" "rm_command_handler (mgr n)"
      "sv_mode (nd_server n) \<noteq> PERSISTENCE_SNAPSHOT" "idle (aw_io (sv_aof (nd_server n)))" "usable out"
    and installed: "store_of (sv_engines (nd_server n)) = replayed pcs pst" "nd_offset n = int (length (ppre @ aof_image pcs))"
    and machine: "willing s" "list_all (\<lambda>d. length (command_bytes d) < s_patience s) ds" "aw_offset (sv_aof p) \<le> OFF_MAX"
  shows "\<exists>out' n' s'. follow (length ds + 1) fd (drop (nat (nd_offset n)) (the (sv_files p ppath)) @
        online_line (kvs_aof_get_offset (sv_aof p)) @ CRLF) out n s = Inr ([], out', n', s') \<and>
      store_of (sv_engines (nd_server n')) = store_of (sv_engines p) \<and> journal path pre st (cs @ ds) (nd_server n') \<and>
      nd_offset n' = kvs_aof_get_offset (sv_aof p) \<and> kvs_replication_is_online (mgr n')"
proof -
  have cu: "catching_up path pre st cs fd out n"
    using replica by (simp add: catching_up_def)
  note here = catching_up_offset [OF cu]
  have p: "the (sv_files p ppath) = (ppre @ aof_image pcs) @ aof_image ds" "legal_log ds (replayed pcs pst)"
      "store_of (sv_engines p) = replayed ds (replayed pcs pst)" "kvs_aof_get_offset (sv_aof p) = int (length (ppre @ aof_image pcs) + length (aof_image ds))"
      "aw_offset (sv_aof p) = length (ppre @ aof_image pcs) + length (aof_image ds)"
    using primary by (simp_all add: journal_def kvs_aof_get_offset_def)
  have room: "length (pre @ aof_image (cs @ ds)) \<le> OFF_MAX"
    using here installed(2) p(5) machine(3) by simp
  have tail: "drop (nat (nd_offset n)) (the (sv_files p ppath)) = aof_image ds"
    unfolding p(1) installed(2) by simp
  obtain out1 n1 s1 where run: "follow (length ds + 1) fd (aof_image ds @ online_line (kvs_aof_get_offset (sv_aof p)) @ CRLF) out n s =
        follow 1 fd (online_line (kvs_aof_get_offset (sv_aof p)) @ CRLF) out1 n1 s1"
      and cu1: "catching_up path pre st (cs @ ds) fd out1 n1" and m1: "same_machine s s1"
    using follow_commands [OF cu machine(1) _ machine(2) room, of 1 "online_line (kvs_aof_get_offset (sv_aof p)) @ CRLF"] p(2) installed(1) by auto
  have off1: "nd_offset n1 = kvs_aof_get_offset (sv_aof p)"
    using catching_up_offset [OF cu1] here installed(2) p(4) by simp
  obtain n2 where "kvs_replication_upstream_network_protocol fd (online_line (nd_offset n1) @ CRLF @ []) out1 n1 s1 =
        Inr (0, int (length (online_line (nd_offset n1) @ CRLF)), out1, n2, s1)"
      and cu2: "catching_up path pre st (cs @ ds) fd out1 n2" "kvs_replication_is_online (mgr n2)"
    using upstream_online [OF cu1 room, of "[]" s1] by blast
  then have "follow 1 fd (online_line (nd_offset n1) @ CRLF) out1 n1 s1 = Inr ([], out1, n2, s1)"
    by (simp add: online_line_def)
  moreover have "store_of (sv_engines (nd_server n2)) = store_of (sv_engines p)"
    using cu2(1) replica(1) installed(1) p(3) by (simp add: catching_up_def journal_def)
  moreover have "nd_offset n2 = kvs_aof_get_offset (sv_aof p)" "journal path pre st (cs @ ds) (nd_server n2)"
    using catching_up_offset [OF cu2(1)] catching_up_offset [OF cu1] off1 cu2(1) by (simp_all add: catching_up_def)
  ultimately show ?thesis
    using run cu2(2) tail off1 by auto
qed

text \<open>An empty replica, connected on descriptor 5, and a primary that has carried out one \<open>SET\<close>.\<close>

definition empty_replica :: "engines \<Rightarrow> rdma_lib \<Rightarrow> node" where
  "empty_replica g lib =
     \<lparr>nd_server = (new_server g)\<lparr>sv_replication := replication_manager\<lparr>rm_initialized := True, rm_role := ROLE_REPLICA,
        rm_state := REPLICATION_CATCH_UP, rm_primary_connection_fd := 5, rm_command_handler := True\<rparr>\<rparr>,
      nd_lib = lib, nd_resolvable = (\<lambda>_. False)\<rparr>"

definition reply_buffer :: kvs_output_buffer_t where
  "reply_buffer = \<lparr>out_data = Some (replicate 1024 NUL), out_length = 0, out_offset = 0, out_capacity = 1024\<rparr>"

theorem replica_converges_witness:
  "\<exists>g (p::server). \<forall>lib. \<exists>out' n' s'. follow 2 5 (drop 0 (the (sv_files p ''commands.aof'')) @ online_line 27 @ CRLF) reply_buffer (empty_replica g lib) calm = Inr ([], out', n', s') \<and>
      store_of (sv_engines (nd_server n')) = store_of (sv_engines p) \<and> journal ''commands.aof'' [] (\<lambda>_. Map.empty) [sample_set] (nd_server n') \<and>
      nd_offset n' = 27 \<and> kvs_replication_is_online (mgr n')"
proof -
  obtain g where g: "engines_inv g" "engines_empty g"
    using engines_created_calm by blast
  obtain p where p: "journal ''commands.aof'' [] (\<lambda>_. Map.empty) ([] @ [sample_set]) p"
    using sample_write [OF g] by auto
  have off: "kvs_aof_get_offset (sv_aof p) = 27" "aw_offset (sv_aof p) \<le> OFF_MAX"
    using p sample_set_bytes by (simp_all add: journal_def kvs_aof_get_offset_def OFF_MAX_def)
  have *: "\<exists>out' n' s'. follow 2 5 (drop 0 (the (sv_files p ''commands.aof'')) @ online_line 27 @ CRLF) reply_buffer (empty_replica g lib) calm = Inr ([], out', n', s') \<and>
      store_of (sv_engines (nd_server n')) = store_of (sv_engines p) \<and> journal ''commands.aof'' [] (\<lambda>_. Map.empty) [sample_set] (nd_server n') \<and>
      nd_offset n' = 27 \<and> kvs_replication_is_online (mgr n')" for lib
  proof -
    have "journal ''commands.aof'' [] (\<lambda>_. Map.empty) [] (nd_server (empty_replica g lib))"
      using new_server_journal [OF g] by (simp add: empty_replica_def)
    moreover have "receiving_commands 5 (empty_replica g lib)" "rm_command_handler (mgr (empty_replica g lib))"
        "sv_mode (nd_server (empty_replica g lib)) \<noteq> PERSISTENCE_SNAPSHOT" "idle (aw_io (sv_aof (nd_server (empty_replica g lib))))"
        "store_of (sv_engines (nd_server (empty_replica g lib))) = replayed [] (\<lambda>_. Map.empty)" "nd_offset (empty_replica g lib) = 0"
      by (simp_all add: empty_replica_def receiving_commands_def mgr_def empty_store [OF g] kvs_aof_get_offset_def)
    moreover have "usable reply_buffer" "list_all (\<lambda>d. length (command_bytes d) < s_patience calm) [sample_set]"
      by (simp_all add: usable_def output_ok_def buffer_ok_def reply_buffer_def BUFFER_LENGTH_def INT_MAX_def sample_set_bytes calm_willing(2))
    ultimately show ?thesis
      using replica_converges [OF p, of "''commands.aof''" "[]" "\<lambda>_. Map.empty" "[]" "empty_replica g lib" 5 reply_buffer calm] off calm_willing(1)
      by (simp add: numeral_2_eq_2)
  qed
  show ?thesis
    by (intro exI [of _ g] exI [of _ p] allI) (rule *)
qed

end
