(* ===== verification/Spec2Isabelle.thy ===== *)
theory Spec2Isabelle
  imports Codec Buffer Array_Engine Hash_Engine Skiplist_Engine Rbtree_Engine Uring_Io
    Store_State Snapshot_Format Snapshot_Store Aof Snapshot_Io Replication_State Commands Config Memory_Client Replication
    Samples Recovery Ordered_Engines Client_Connections Replica_Laws
begin

text \<open>
  A verification library for the key-value server under \<open>src/\<close>: a single-process server with
  four storage engines, a length-prefixed wire protocol, an append-only file and snapshots
  for persistence, and replication from a primary to a replica.

  \<^bold>\<open>How the parts interact.\<close>  \<open>main\<close> (\<open>src/src/kvstore.c\<close>) reads the configuration, creates the
  engines, rebuilds them from the snapshot and the append-only file, starts the replication
  manager and hands over to the network runtime.  The runtime (\<open>src/src/network/ntyco.c\<close>) runs a
  coroutine per connection; it fills the input buffer (\<open>buffer.c\<close>) and calls the handler of
  the connection: \<open>kvs_network_protocol\<close> for a client, \<open>kvs_replication_network_protocol\<close> for
  a replica, \<open>kvs_replication_upstream_network_protocol\<close> for the connection to a primary.  The
  client handler parses (\<open>codec.c\<close>), executes on an engine, appends the command to the
  append-only file through io_uring (\<open>aof.c\<close>, \<open>uring_io.c\<close>), and writes the reply into the
  output buffer.  A primary answers \<open>PSYNC\<close> with a snapshot (\<open>snapshot_store.c\<close>,
  \<open>snapshot_io.c\<close>) sent over RDMA (\<open>rdma_transport.c\<close>) and then streams its append-only file.

  \<^bold>\<open>Conventions\<close> (\<open>Kvs_Prelude\<close>).  A function that can leave the defined behaviour of C returns
  \<open>halt + 'a\<close>: \<open>Inl\<close> for a NULL or dangling dereference, an access out of bounds, an
  overflow, a loop that does not end, \<open>exit\<close> or \<open>abort\<close>.  Bytes are characters, buffers are lists
  with bounds-checked stores, sizes of fields of structures are those of a 64-bit machine.
  The record \<open>sys\<close> stands for what is outside the process: what \<open>malloc\<close>, \<open>rand\<close> and the
  kernel will answer, as functions of the number of the call, and the number of blocks held.
  A theorem that mentions no condition on it holds whatever these answers are; \<open>plenty\<close>
  says that memory is granted, \<open>progressing\<close> and \<open>willing\<close> that the kernel makes progress.

  \<^bold>\<open>The theories\<close>, with the source they model and what they show.
  \<^item> \<open>Codec\<close> (\<open>protocol/codec.c\<close>): parsing, encoding, recognising a connection.  Round trip,
    stability under more input, prefixes are incomplete, limits.
  \<^item> \<open>Buffer\<close> (\<open>network/buffer.c\<close>): growth, consumption, the line protocol.  Contents and shape
    are kept, no memory is lost, and exactly the whole lines are handled.
  \<^item> \<open>Engine_Spec\<close>: the locales \<open>kv_engine\<close> and \<open>kv_managed\<close>, what the command layer expects of
    an engine: a finite map, its return codes, its memory, its life from creation to
    destruction.  \<open>Array_Engine\<close>, \<open>Hash_Engine\<close>, \<open>Skiplist_Engine\<close> and \<open>Rbtree_Engine\<close>
    (\<open>engines/*.c\<close>) model the four engines, the last two with their nodes in an explicit heap,
    and interpret the locales; \<open>Rbtree_Zipper\<close>, \<open>Rbtree_Insert\<close> and \<open>Rbtree_Delete\<close> carry the
    proof for the red-black tree.  \<open>Ordered_Engines\<close> shows that the two ordered engines cannot
    be told apart.
  \<^item> \<open>Allocator\<close> (\<open>memory/kvs_allocator.c\<close>), its invariant in \<open>Pool_Invariant\<close>, the laws of its
    operations in \<open>Allocator_Laws\<close>, and in \<open>Memory_Client\<close> the locale \<open>memory_manager\<close> with what
    a client may rely on: blocks are aligned, mapped, disjoint and counted, and only a kernel
    that refuses to take memory back makes a call abort.
  \<^item> \<open>Uring_Io\<close> (\<open>persistence/uring_io.c\<close>): batched writes with partial completions in any
    order.  A batch that returns 0 is in the file, and it returns when the kernel progresses.
  \<^item> \<open>Aof\<close> (\<open>persistence/aof.c\<close>), \<open>Snapshot_Format\<close> and \<open>Snapshot_Store\<close>
    (\<open>persistence/snapshot_store.c\<close>, \<open>mapped_file.c\<close>), \<open>Snapshot_Io\<close>
    (\<open>persistence/snapshot_io.c\<close>): appending, replaying, resetting; exactly which files are
    accepted as snapshots, their checksum, atomic saving, loading, copying in blocks.
  \<^item> \<open>Config\<close> (\<open>config/config.c\<close>): accepted configurations are valid and name exactly the fields
    of their role, valid ones are read back.
  \<^item> \<open>Store_State\<close>, \<open>Commands\<close>, \<open>Snapshot_Install\<close> and \<open>Server\<close> (\<open>kvstore.c\<close>): the engines'
    life cycle, the command layer, installing a replica's snapshot, start-up and shutdown.
    \<open>Kernel_Frame\<close> and \<open>Command_Laws\<close> say what a command leaves alone and what it changes
    (locale \<open>command_engine\<close>, interpreted on the four engines); \<open>Journal\<close>, \<open>Client_Writes\<close> and
    \<open>Recovery\<close> show that the append-only file is the journal of the store, whatever clients
    send, and that a restart recovers exactly the acknowledged writes.
  \<^item> \<open>Ntyco\<close> (\<open>network/ntyco.c\<close>): listeners, the connector, the reader coroutine, the runtime.
    \<open>Connection_Laws\<close> lifts an invariant of the process from handlers to whole connections
    that run beside each other (locales \<open>reader_relation\<close> and \<open>connection_relation\<close>).
    \<open>Client_Halts\<close> goes through every function behind the client protocol for the ways in
    which it may end the process, and \<open>Client_Connections\<close> puts both together for the journal.
  \<^item> \<open>Rdma_Transport\<close> (\<open>network/rdma_transport.c\<close>), \<open>Replication_State\<close> and \<open>Replication\<close>
    (\<open>replication/replication.c\<close>): both roles, from the hand-shake to going online.
    \<open>Replica_Laws\<close>: the answer to \<open>PSYNC\<close> is read as it was written and begins the
    synchronisation with its values, and a replica fed the
    rest of the primary's file ends online with the primary's data.
  \<^item> \<open>Samples\<close>: concrete machines and engines for the examples that follow the theorems.

  \<^bold>\<open>Bounds.\<close>  Loops of the source that retry an interrupted system call are bounded by
  \<open>s_patience\<close>, and running out is the value \<open>Diverges\<close>; the theorems that a call returns
  show that one more than the bytes to write, and more than the depth of the ring, is
  enough.  Walks over pointer structures (skip list, red-black tree, the allocator's lists)
  are bounded by the number of nodes or regions ever made, and the invariants show that the
  bound is never reached.  \<open>stream_aof_loop\<close> gets 3 rounds because the file cannot grow while it
  runs.  The coroutines need no bound: every wait takes an entry of a list of answers, and
  a coroutine whose list is empty is suspended.

  \<^bold>\<open>Parameters.\<close>  Not part of the repository, and arguments of the model: the coroutine library
  and its sockets (the list of answers, each with what the other coroutines have done to the
  process meanwhile, and the scheduler), the kernel behind io_uring and \<open>mmap\<close>, librdmacm and
  libibverbs (record \<open>rdma_lib\<close>), \<open>inet_pton\<close>, \<open>getrandom\<close>, the clock.

  \<^bold>\<open>Not modelled.\<close>  \<open>log/log.c\<close> and messages on standard error, which nothing depends on; debug
  printers and self-tests that are compiled out; the tests and scripts of the repository.
  What a crash of the machine leaves of unsynchronised writes is not modelled: a
  restart finds the file as the kernel had it.

  Each theorem below, and in \<open>Memory_Client\<close>, \<open>Recovery\<close>, \<open>Ordered_Engines\<close>,
  \<open>Client_Connections\<close> and \<open>Replica_Laws\<close>, that has
  hypotheses is followed by an example that applies it where they hold.
\<close>

section \<open>The wire protocol\<close>

text \<open>
  C1.  Whatever \<open>kvs_encode_command\<close> writes, \<open>kvs_parse_command_limited\<close> reads back: the
  encoder succeeds when the room suffices, touches nothing behind the command, and the
  parser returns exactly the fields and the length that were encoded, no matter what
  follows the command in the buffer.
\<close>

theorem command_roundtrip:
  assumes "fs \<noteq> []" "length fs \<le> cap" "length (command_bytes fs) \<le> mx" "mx \<le> SIZE_MAX"
    and "length (command_bytes fs) \<le> length out"
  shows "\<exists>out'. kvs_encode_command (map Some fs) (Some out) = Inr (0, Some out', length (command_bytes fs)) \<and>
    length out' = length out \<and>
    kvs_parse_command_limited (Some out') cap mx = Complete (fs, length (command_bytes fs))"
  using kvs_encode_command_fits [of fs out] parse_command_bytes [of fs cap mx] assms by auto

theorem command_roundtrip_witness:
  "\<exists>out'. kvs_encode_command (map Some [''SET'', ''k'', ''v'']) (Some (replicate 64 NUL)) =
      Inr (0, Some out', length (command_bytes [''SET'', ''k'', ''v''])) \<and> length out' = 64 \<and>
    kvs_parse_command_limited (Some out') 4 1024 = Complete ([''SET'', ''k'', ''v''], length (command_bytes [''SET'', ''k'', ''v'']))"
  using command_roundtrip [of "[''SET'', ''k'', ''v'']" 4 1024 "replicate 64 NUL"]
  by (simp add: command_bytes_def field_bytes_def decimal.simps SIZE_MAX_def)

text \<open>
  C2.  More input never changes an answer: once the parser has found a complete command or
  a malformed one, it finds the same whatever bytes arrive later.
\<close>

theorem parse_stable:
  assumes "kvs_parse_command_limited (Some input) cap mx \<noteq> Incomplete"
  shows "kvs_parse_command_limited (Some (input @ rest)) cap mx = kvs_parse_command_limited (Some input) cap mx"
  using assms parse_command_append_Complete parse_command_append_Malformed
  by (cases "kvs_parse_command_limited (Some input) cap mx") metis+

theorem parse_stable_witness:
  "kvs_parse_command_limited (Some (''x'' @ ''y'')) 3 1024 = kvs_parse_command_limited (Some ''x'') 3 1024"
  by (rule parse_stable) (simp add: kvs_parse_command_limited_def)

text \<open>
  C3.  A command that has only partly arrived is neither executed nor rejected: every
  strict prefix of an encoded command is \<open>KVS_PARSE_INCOMPLETE\<close>.
\<close>

theorem parse_partial:
  assumes "fs \<noteq> []" "length fs \<le> cap" "length (command_bytes fs) \<le> mx" "mx \<le> SIZE_MAX"
    and "n < length (command_bytes fs)"
  shows "kvs_parse_command_limited (Some (take n (command_bytes fs))) cap mx = Incomplete"
  using assms by (intro parse_command_strict_prefix [where missing = "drop n (command_bytes fs)"]) auto

theorem parse_partial_witness:
  "kvs_parse_command_limited (Some (take 7 (command_bytes [''GET'', ''k'']))) 3 1024 = Incomplete"
  by (rule parse_partial) (simp_all add: command_bytes_def field_bytes_def decimal.simps SIZE_MAX_def)

text \<open>
  C4.  The parser stays inside its input and its limits: a complete command has between one
  and \<open>field_capacity\<close> fields, ends within the bytes received and within the size limit, and
  its fields take up less than what was consumed.
\<close>

theorem parse_within_limits:
  assumes "kvs_parse_command_limited (Some input) cap mx = Complete (fs, p)"
  shows "0 < length fs \<and> length fs \<le> cap \<and> p \<le> length input \<and> p \<le> mx \<and>
    sum_list (map length fs) + 3 * length fs < p"
  using parse_command_Complete [OF assms] by simp

theorem parse_within_limits_witness:
  "0 < length [''PING''] \<and> length [''PING''] \<le> 3 \<and> length (command_bytes [''PING'']) \<le> length (command_bytes [''PING'']) \<and>
     length (command_bytes [''PING'']) \<le> 1024 \<and>
     sum_list (map length [''PING'']) + 3 * length [''PING''] < length (command_bytes [''PING''])"
  by (rule parse_within_limits)
     (use parse_command_bytes [of "[''PING'']" 3 1024 "[]"] in
       \<open>simp add: command_bytes_def field_bytes_def decimal.simps SIZE_MAX_def\<close>)

section \<open>Connection buffers\<close>

text \<open>
  C5.  \<open>kvs_output_buffer_ensure_space\<close> never loses output: it either makes at least the
  requested room or reports -1 and leaves the buffer alone, keeps every byte already
  queued, keeps the buffer's shape, and neither leaks nor frees twice.
\<close>

theorem output_growth:
  assumes "output_ok buf"
  shows "\<exists>r buf' s'. kvs_output_buffer_ensure_space buf minimum_free s = Inr (r, buf', s') \<and>
    output_ok buf' \<and> out_length buf' = out_length buf \<and> out_offset buf' = out_offset buf \<and>
    contents (out_data buf') (out_length buf') = contents (out_data buf) (out_length buf) \<and>
    s_live s' - owned_data (out_data buf') = s_live s - owned_data (out_data buf) \<and>
    (r = 0 \<and> minimum_free \<le> out_capacity buf' - out_length buf' \<or> r = -1 \<and> buf' = buf)"
  using assms by (rule output_ensure_space [of buf minimum_free s]) blast

theorem output_growth_witness:
  "\<exists>r buf' s'. kvs_output_buffer_ensure_space
      \<lparr>out_data = Some (replicate 8 CR), out_length = 5, out_offset = 2, out_capacity = 8\<rparr> 100 calm = Inr (r, buf', s') \<and>
    output_ok buf' \<and> out_length buf' = 5 \<and> out_offset buf' = 2 \<and>
    contents (out_data buf') (out_length buf') = replicate 5 CR"
  using output_growth [of "\<lparr>out_data = Some (replicate 8 CR), out_length = 5, out_offset = 2, out_capacity = 8\<rparr>" 100 calm]
  by (auto simp: output_ok_def buffer_ok_def contents_def INT_MAX_def)

text \<open>
  C6.  \<open>kvs_input_buffer_consume\<close> drops exactly the bytes that were handled: what remains in
  the buffer is the old contents without its first \<open>n\<close> bytes, at the front.
\<close>

theorem consume_front:
  assumes "input_ok buf" "0 \<le> n" "n \<le> in_length buf"
  shows "\<exists>buf'. kvs_input_buffer_consume buf n = Inr (0, buf') \<and> input_ok buf' \<and>
    in_length buf' = in_length buf - n \<and> in_capacity buf' = in_capacity buf \<and>
    contents (in_data buf') (in_length buf') = drop (nat n) (contents (in_data buf) (in_length buf))"
  using assms by (rule input_consume)

theorem consume_front_witness:
  "\<exists>buf'. kvs_input_buffer_consume \<lparr>in_data = Some ''abcde'', in_length = 4, in_capacity = 5\<rparr> 3 = Inr (0, buf') \<and>
     contents (in_data buf') (in_length buf') = ''d''"
  using consume_front [of "\<lparr>in_data = Some ''abcde'', in_length = 4, in_capacity = 5\<rparr>" 3]
  by (auto simp: input_ok_def buffer_ok_def contents_def INT_MAX_def eval_nat_numeral)

text \<open>
  C7.  The line protocol handles exactly the whole lines of a message.  The message splits
  into lines, each ended by a newline, and a rest without one.  The handler is called on the
  lines in order, each without its newline and the carriage return before it, with the
  responses put one after the other; an empty line, a full response or a length outside the
  room fails the batch with -1 and nothing consumed.  When it does not fail, the bytes
  consumed are exactly the lines with their newlines, the rest is untouched, and the value
  returned is the length of the response and within its capacity.
\<close>

theorem line_batch_whole_lines:
  "if msg = [] \<or> cap \<le> 0 then kvs_line_batch_protocol fd msg cap h st = Inr (-1, 0, msg, [], st)
   else \<exists>ls rest. msg = joined ls @ rest \<and> LF \<notin> set rest \<and> list_all (\<lambda>l. LF \<notin> set l) ls \<and>
     (case feed_lines fd cap h ls [] st of
        Inl e \<Rightarrow> kvs_line_batch_protocol fd msg cap h st = Inl e
      | Inr (r, response, st') \<Rightarrow>
          \<exists>msg'. kvs_line_batch_protocol fd msg cap h st =
              Inr (r, if r = -1 then 0 else length (joined ls), msg', response, st') \<and>
            (r = -1 \<or> r = int (length response) \<and> r \<le> cap \<and> drop (length (joined ls)) msg' = rest))"
proof (cases "msg = [] \<or> cap \<le> 0")
  case True
  then show ?thesis by (auto simp: kvs_line_batch_protocol_def)
next
  case False
  obtain ls rest where "msg = joined ls @ rest" "LF \<notin> set rest" "list_all (\<lambda>l. LF \<notin> set l) ls"
    using joined_exists by blast
  with line_batch_protocol_feed [OF _ _ this, of cap fd h st] False show ?thesis by auto
qed

section \<open>The storage engines\<close>

text \<open>
  C8.  Refinement of the skip list: between \<open>kvs_skiplist_create\<close> and \<open>kvs_skiplist_destory\<close>
  any sequence of \<open>set\<close>, \<open>mod\<close> and \<open>del\<close> returns, whatever the allocator refuses and
  whatever \<open>rand\<close> draws; every key then reads as in the abstract map that follows the return
  codes, and the destructor gives back every block.
\<close>

theorem skiplist_refines_map:
  assumes "sl_heap sk = (\<lambda>_. None)" "kvs_skiplist_create sk s = (0, sk0, s0)"
  shows "\<exists>rs sk1 s1 sk2 s2. run_ops kvs_skiplist_set kvs_skiplist_mod kvs_skiplist_del xs sk0 s0 = Inr (rs, sk1, s1) \<and>
    length rs = length xs \<and> (\<forall>k. kvs_skiplist_get sk1 (Some k) = Inr (apply_ops xs rs Map.empty k)) \<and>
    kvs_skiplist_destory sk1 s1 = Inr (sk2, s2) \<and> sl_heap sk2 = (\<lambda>_. None) \<and> s_live s2 = s_live s"
  using skip_life.lifecycle [OF assms, of xs] by auto

theorem skiplist_refines_map_witness:
  "\<exists>sk0 s0 rs sk1 s1 sk2 s2. kvs_skiplist_create skiplist_cleared calm = (0, sk0, s0) \<and>
    run_ops kvs_skiplist_set kvs_skiplist_mod kvs_skiplist_del [Op_set ''b'' ''1'', Op_set ''a'' ''2'', Op_del ''b''] sk0 s0
      = Inr (rs, sk1, s1) \<and> length rs = 3 \<and> kvs_skiplist_destory sk1 s1 = Inr (sk2, s2) \<and> s_live s2 = 0"
proof -
  obtain sk0 s0 where c: "kvs_skiplist_create skiplist_cleared calm = (0, sk0, s0)"
    using skiplist_created_calm by blast
  have "sl_heap skiplist_cleared = (\<lambda>_. None)" by (simp add: skiplist_cleared_def)
  from skiplist_refines_map [OF this c, of "[Op_set ''b'' ''1'', Op_set ''a'' ''2'', Op_del ''b'']"] c
  show ?thesis by (force simp: calm_def)
qed

text \<open>C9.  The same for the array engine, as long as its 1024 slots and the allocator permit.\<close>

theorem array_refines_map:
  assumes "table inst = None" "kvs_array_create inst s = (0, inst0, s0)"
  shows "\<exists>rs inst1 s1 inst2 s2. run_ops kvs_array_set kvs_array_mod kvs_array_del xs inst0 s0 = Inr (rs, inst1, s1) \<and>
    length rs = length xs \<and> (\<forall>k. kvs_array_get inst1 (Some k) = Inr (apply_ops xs rs Map.empty k)) \<and>
    kvs_array_destory inst1 s1 = Inr (inst2, s2) \<and> table inst2 = None \<and> s_live s2 = s_live s"
  using array_life.lifecycle [OF assms, of xs] by auto

theorem array_refines_map_witness:
  "\<exists>inst0 s0 rs inst1 s1 inst2 s2. kvs_array_create array_cleared calm = (0, inst0, s0) \<and>
    run_ops kvs_array_set kvs_array_mod kvs_array_del [Op_set ''b'' ''1'', Op_mod ''b'' ''2''] inst0 s0 = Inr (rs, inst1, s1) \<and>
    length rs = 2 \<and> kvs_array_destory inst1 s1 = Inr (inst2, s2) \<and> s_live s2 = 0"
proof -
  obtain inst0 s0 where c: "kvs_array_create array_cleared calm = (0, inst0, s0)"
    using array_created_calm by blast
  have "table array_cleared = None" by (simp add: array_cleared_def)
  from array_refines_map [OF this c, of "[Op_set ''b'' ''1'', Op_mod ''b'' ''2'']"] c
  show ?thesis by (force simp: calm_def)
qed

text \<open>
  C10.  The same for the hash engine, for the keys whose hash is a slot of the table
  (\<open>hash_ok\<close>): all of them when every key is plain ASCII.
\<close>

theorem hash_refines_map:
  assumes "kvs_hash_create hash s = (0, hash0, s0)" "\<And>x. x \<in> set xs \<Longrightarrow> hash_ok (op_key x)"
  shows "\<exists>rs hash1 s1 hash2 s2. run_ops kvs_hash_set kvs_hash_mod kvs_hash_del xs hash0 s0 = Inr (rs, hash1, s1) \<and>
    length rs = length xs \<and> (\<forall>k. hash_ok k \<longrightarrow> kvs_hash_get hash1 (Some k) = Inr (apply_ops xs rs Map.empty k)) \<and>
    kvs_hash_destory hash1 s1 = Inr (hash2, s2) \<and> s_live s2 = s_live s"
  using hash_life.lifecycle [OF TrueI assms] by auto

theorem hash_refines_map_witness:
  "\<exists>hash0 s0 rs hash1 s1 hash2 s2. kvs_hash_create hash_cleared calm = (0, hash0, s0) \<and>
    run_ops kvs_hash_set kvs_hash_mod kvs_hash_del [Op_set ''b'' ''1'', Op_del ''q''] hash0 s0 = Inr (rs, hash1, s1) \<and>
    length rs = 2 \<and> kvs_hash_destory hash1 s1 = Inr (hash2, s2) \<and> s_live s2 = 0"
proof -
  obtain hash0 s0 where c: "kvs_hash_create hash_cleared calm = (0, hash0, s0)"
    using hash_created_calm by blast
  have "hash_ok ''b''" "hash_ok ''q''"
    by (auto intro!: hash_ok_ascii)
  then have "\<exists>rs hash1 s1 hash2 s2. run_ops kvs_hash_set kvs_hash_mod kvs_hash_del [Op_set ''b'' ''1'', Op_del ''q''] hash0 s0
      = Inr (rs, hash1, s1) \<and> length rs = length [Op_set ''b'' ''1'', Op_del ''q''] \<and>
      (\<forall>k. hash_ok k \<longrightarrow> kvs_hash_get hash1 (Some k) = Inr (apply_ops [Op_set ''b'' ''1'', Op_del ''q''] rs Map.empty k)) \<and>
      kvs_hash_destory hash1 s1 = Inr (hash2, s2) \<and> s_live s2 = s_live calm"
    by (intro hash_refines_map [OF c]) auto
  with c
  show ?thesis by (force simp: calm_def)
qed

text \<open>
  C11.  A \<open>SET\<close> on the skip list succeeds when memory does, and is then read back: the key has
  the new value, every other key the value it had.  A refused allocation leaves the list
  as it was, with nothing leaked.
\<close>

theorem skiplist_set_get:
  assumes "skiplist_inv sk"
  shows "\<exists>r sk' s'. kvs_skiplist_set sk (Some k) (Some v) s = Inr (r, sk', s') \<and> skiplist_inv sk' \<and>
    s_live s' - skiplist_owned sk' = s_live s - skiplist_owned sk \<and> (plenty s \<longrightarrow> r = 0) \<and>
    (r = 0 \<and> (\<forall>k'. kvs_skiplist_get sk' (Some k') = Inr (if k' = k then Some v else skiplist_map sk k')) \<or>
     r < 0 \<and> sk' = sk)"
proof -
  obtain r sk' s' where set: "kvs_skiplist_set sk (Some k) (Some v) s = Inr (r, sk', s')" "skiplist_inv sk'"
      "balanced skiplist_owned sk s sk' s'"
      "r = 0 \<and> skiplist_map sk' = (skiplist_map sk)(k \<mapsto> v) \<or> r < 0 \<and> sk' = sk" "plenty s \<longrightarrow> r = 0"
    using skip.eset_law [OF assms TrueI, of k v s] by blast
  then show ?thesis
    using skip.eget_law [OF set(2) TrueI] by (auto simp: balanced_def)
qed

theorem skiplist_set_get_witness:
  "\<exists>sk s sk' s'. kvs_skiplist_create skiplist_cleared calm = (0, sk, s) \<and>
    kvs_skiplist_set sk (Some ''k'') (Some ''v'') s = Inr (0, sk', s') \<and> kvs_skiplist_get sk' (Some ''k'') = Inr (Some ''v'')"
proof -
  obtain sk s where c: "kvs_skiplist_create skiplist_cleared calm = (0, sk, s)"
    using skiplist_created_calm by blast
  have "skiplist_inv sk" "plenty s"
    using skip_life.created [OF _ c] by (auto simp: skiplist_cleared_def plenty_def calm_def)
  with skiplist_set_get [of sk "''k''" "''v''" s] c show ?thesis by fastforce
qed

text \<open>
  C12.  The skip list stays sorted: \<open>kvs_skiplist_foreach\<close> visits the bindings in strictly
  increasing key order, each exactly once, and they are the bindings \<open>kvs_skiplist_get\<close> sees.
\<close>

theorem skiplist_foreach_sorted:
  assumes "skiplist_inv sk"
  shows "\<exists>es. (\<forall>f c. kvs_skiplist_foreach sk f c = visit_all f es c) \<and>
    sorted_wrt (<) (map fst es) \<and> (\<forall>k v. (k, v) \<in> set es \<longleftrightarrow> kvs_skiplist_get sk (Some k) = Inr (Some v))"
proof (intro exI [of _ "skiplist_entries sk"] conjI allI)
  show "kvs_skiplist_foreach sk f c = visit_all f (skiplist_entries sk) c" for f :: "bytes \<Rightarrow> bytes \<Rightarrow> 'a \<Rightarrow> (int \<times> 'a) run" and c
    using skiplist_foreach_law [OF assms] .
  show "sorted_wrt (<) (map fst (skiplist_entries sk))"
    using assms by (rule skiplist_entries_sorted)
  show "(k, v) \<in> set (skiplist_entries sk) \<longleftrightarrow> kvs_skiplist_get sk (Some k) = Inr (Some v)" for k v
    using skip.visit_order_complete [OF assms] skip.eget_law [OF assms TrueI] by simp
qed

theorem skiplist_foreach_sorted_witness:
  "\<exists>sk s es. kvs_skiplist_create skiplist_cleared calm = (0, sk, s) \<and>
     (\<forall>f c. kvs_skiplist_foreach sk f (c::nat) = visit_all f es c) \<and> sorted_wrt (<) (map fst es)"
proof -
  obtain sk s where c: "kvs_skiplist_create skiplist_cleared calm = (0, sk, s)"
    using skiplist_created_calm by blast
  have "skiplist_inv sk"
    using skip_life.created [OF _ c] by (auto simp: skiplist_cleared_def)
  with skiplist_foreach_sorted [of sk, where 'a = nat] c show ?thesis by blast
qed

text \<open>
  C13.  Deleting a key that is not there: \<open>kvs_hash_del\<close> changes nothing and answers -1, where
  \<open>kvs_array_del\<close> and \<open>kvs_skiplist_del\<close> answer a positive code.
\<close>

theorem hash_del_missing:
  assumes "hash_inv hash" "hash_ok k" "kvs_hash_get hash (Some k) = Inr None"
  shows "kvs_hash_del hash (Some k) s = Inr (-1, hash, s)"
  using hash_del_law [OF assms(1,2), of s] hash.eget_law [OF assms(1,2)] assms(3) by auto

theorem hash_del_missing_witness:
  "\<exists>hash s. kvs_hash_create hash_cleared calm = (0, hash, s) \<and> kvs_hash_del hash (Some ''k'') s = Inr (-1, hash, s)"
proof -
  obtain hash s where c: "kvs_hash_create hash_cleared calm = (0, hash, s)"
    using hash_created_calm by blast
  have i: "hash_inv hash" "hash_map hash = Map.empty" and k: "hash_ok ''k''"
    using hash_life.created [OF TrueI c] by (auto intro!: hash_ok_ascii)
  then have "kvs_hash_get hash (Some ''k'') = Inr None"
    using hash.eget_law [OF i(1) k] by simp
  with hash_del_missing [OF i(1) k] c show ?thesis by blast
qed

text \<open>
  C14.  Which keys leave the table.  \<open>_hash\<close> adds the bytes as signed characters, so the
  remainder by the table's size is negative exactly when the sum is negative and no multiple
  of that size.  For such a key every operation indexes \<open>hash->nodes\<close> below its start; for
  every other key (whose sum an \<open>int\<close> can hold) every operation returns, a write leaves the
  table valid, and a read gives what the map has.
\<close>

theorem hash_index_leaves_table:
  assumes inv: "hash_inv hash" and len: "128 * int (length key) \<le> INT_MAX"
  shows "if leaves_table key
    then kvs_hash_set hash (Some key) (Some v) s = Inl Out_of_bounds \<and> kvs_hash_get hash (Some key) = Inl Out_of_bounds \<and>
      kvs_hash_mod hash (Some key) (Some v) s = Inl Out_of_bounds \<and> kvs_hash_del hash (Some key) s = Inl Out_of_bounds \<and>
      kvs_hash_exist hash (Some key) = Inl Out_of_bounds
    else kvs_hash_get hash (Some key) = Inr (hash_map hash key) \<and>
      kvs_hash_exist hash (Some key) = Inr (if hash_map hash key = None then 1 else 0) \<and>
      (\<exists>r hash' s'. kvs_hash_set hash (Some key) (Some v) s = Inr (r, hash', s') \<and> hash_inv hash') \<and>
      (\<exists>r hash' s'. kvs_hash_mod hash (Some key) (Some v) s = Inr (r, hash', s') \<and> hash_inv hash') \<and>
      (\<exists>r hash' s'. kvs_hash_del hash (Some key) s = Inr (r, hash', s') \<and> hash_inv hash')"
proof (cases "leaves_table key")
  case True
  then show ?thesis
    using hash_leaves_table [OF inv len] by simp
next
  case False
  then have ok: "hash_ok key"
    using hash_index_exact(3) [OF len] by simp
  have "kvs_hash_get hash (Some key) = Inr (hash_map hash key)"
    "\<exists>r hash' s'. kvs_hash_set hash (Some key) (Some v) s = Inr (r, hash', s') \<and> hash_inv hash'"
    "\<exists>r hash' s'. kvs_hash_mod hash (Some key) (Some v) s = Inr (r, hash', s') \<and> hash_inv hash'"
    "\<exists>r hash' s'. kvs_hash_del hash (Some key) s = Inr (r, hash', s') \<and> hash_inv hash'"
    using hash.eget_law [OF inv ok] hash_set_law [OF inv ok] hash_mod_law [OF inv ok] hash_del_law [OF inv ok]
    by blast+
  then show ?thesis
    using False by (simp add: kvs_hash_exist_def)
qed

theorem hash_index_leaves_table_witness:
  "\<exists>hash s. kvs_hash_create hash_cleared calm = (0, hash, s) \<and>
     kvs_hash_set hash (Some [char_of (65::nat), char_of (130::nat)]) (Some ''v'') s = Inl Out_of_bounds \<and>
     kvs_hash_get hash (Some [char_of (97::nat), char_of (200::nat)]) = Inr None"
proof -
  obtain hash s where c: "kvs_hash_create hash_cleared calm = (0, hash, s)"
    using hash_created_calm by blast
  have i: "hash_inv hash" "hash_map hash = Map.empty"
    using hash_life.created [OF TrueI c] by auto
  have "leaves_table [char_of (65::nat), char_of (130::nat)]" "\<not> leaves_table [char_of (97::nat), char_of (200::nat)]"
    by (simp_all add: leaves_table_def signed_char_def MAX_TABLE_SIZE_def)
  then show ?thesis
    using c i(2) hash_index_leaves_table [OF i(1), of "[char_of (65::nat), char_of (130::nat)]" "''v''" s]
      hash_index_leaves_table [OF i(1), of "[char_of (97::nat), char_of (200::nat)]" "''v''" s]
    by (simp add: INT_MAX_def)
qed

text \<open>
  C15.  The red-black tree implements the map.  Any run of operations on a fresh tree, with
  all its rotations and both rebalancings done on pointers, reads as its return codes say,
  and destroying the tree gives back every block of memory.
\<close>

theorem rbtree_refines_map:
  assumes "rb_nil T = None" "kvs_rbtree_create T s = (0, T0, s0)"
  shows "\<exists>rs T1 s1 T2 s2. run_ops kvs_rbtree_set kvs_rbtree_mod kvs_rbtree_del xs T0 s0 = Inr (rs, T1, s1) \<and>
    length rs = length xs \<and> (\<forall>k. kvs_rbtree_get T1 (Some k) = Inr (apply_ops xs rs Map.empty k)) \<and>
    kvs_rbtree_destory T1 s1 = Inr (T2, s2) \<and> rb_nil T2 = None \<and> s_live s2 = s_live s"
  using rbtree_life.lifecycle [OF assms, of xs] by auto

theorem rbtree_refines_map_witness:
  "\<exists>T0 s0 rs T1 s1 T2 s2. kvs_rbtree_create rbtree_cleared calm = (0, T0, s0) \<and>
    run_ops kvs_rbtree_set kvs_rbtree_mod kvs_rbtree_del [Op_set ''b'' ''1'', Op_set ''a'' ''2'', Op_del ''b''] T0 s0 = Inr (rs, T1, s1) \<and>
    length rs = 3 \<and> kvs_rbtree_destory T1 s1 = Inr (T2, s2) \<and> s_live s2 = 0"
proof -
  obtain T0 s0 where c: "kvs_rbtree_create rbtree_cleared calm = (0, T0, s0)"
    using rbtree_created_calm by blast
  have "rb_nil rbtree_cleared = None" by (simp add: rbtree_cleared_def)
  from rbtree_refines_map [OF this c, of "[Op_set ''b'' ''1'', Op_set ''a'' ''2'', Op_del ''b'']"] c
  show ?thesis by (force simp: calm_def)
qed

text \<open>
  C16.  The tree stays balanced: after any run of operations a search needs at most about
  twice the logarithm of the number of bindings many comparisons.  A search cut off after
  \<open>fuel\<close> comparisons is the full search as soon as \<open>2 ^ fuel\<close> exceeds the square of that
  number plus one.
\<close>

theorem rbtree_search_logarithmic:
  assumes "rb_nil T = None" "kvs_rbtree_create T s = (0, T0, s0)"
    and "run_ops kvs_rbtree_set kvs_rbtree_mod kvs_rbtree_del xs T0 s0 = Inr (rs, T1, s1)"
    and "(length (rbtree_entries T1) + 1) ^ 2 < 2 ^ fuel"
  shows "rbtree_search_loop fuel T1 k (rb_root T1) = rbtree_search T1 k \<and> \<not> isl (rbtree_search T1 k)"
proof -
  have "rbtree_inv T1"
    using rbtree.run_ops_law [OF rbtree_life.created(1) [OF assms(1,2)], of xs s0] assms(3) by auto
  then show ?thesis
    using rbtree_search_bound assms(4) rbtree.eexist_law [of T1 k]
    by (auto simp: kvs_rbtree_exist_def bindr_eq_Inr)
qed

theorem rbtree_search_logarithmic_witness:
  "\<exists>T0 s0 T1 s1. kvs_rbtree_create rbtree_cleared calm = (0, T0, s0) \<and>
     run_ops kvs_rbtree_set kvs_rbtree_mod kvs_rbtree_del [] T0 s0 = Inr ([], T1, s1) \<and>
     rbtree_search_loop 1 T1 ''k'' (rb_root T1) = rbtree_search T1 ''k''"
proof -
  obtain T0 s0 where c: "kvs_rbtree_create rbtree_cleared calm = (0, T0, s0)"
    using rbtree_created_calm by blast
  have n: "rb_nil rbtree_cleared = None" by (simp add: rbtree_cleared_def)
  have "rbtree_entries T0 = []"
    using rbtree_create_law [of rbtree_cleared calm] c by auto
  then show ?thesis
    using rbtree_search_logarithmic [OF n c, of "[]" "[]" T0 s0 1 "''k''"] c by simp
qed

section \<open>Batched writes\<close>

text \<open>
  C17.  \<open>kvs_uring_io_write_batch\<close> returns 0 only when every byte of every block is in the
  file, although the kernel may take fewer requests than offered, cut writes short and
  complete them in any order; it never changes a byte outside the blocks, not even when it
  fails; and the ring is left idle or closed.
\<close>

theorem write_batch_complete:
  assumes "idle io" "kvs_uring_io_write_batch io o_append ws f s = Inr (r, io', f', s')"
  shows "(\<forall>p. (\<forall>b \<in> set ws. \<not> in_block b p) \<and> p < length f \<longrightarrow> fbyte f' p = fbyte f p) \<and>
    (r = 0 \<and> idle io' \<and>
       (\<forall>b \<in> set ws. \<forall>j < length (uw_data b). fbyte f' (uw_offset b + j) = Some (uw_data b ! j)) \<or>
     r = -1 \<and> (idle io' \<or> io' = io_cleared))"
  using write_batch_law [OF assms] by (auto simp: framed_def)

theorem write_batch_complete_witness:
  "\<exists>io' f' s'. kvs_uring_io_write_batch idle_ring False two_blocks ''abcdef'' calm = Inr (0, io', f', s') \<and>
     fbyte f' 0 = Some CHR ''a'' \<and> fbyte f' 2 = Some CHR ''y'' \<and> fbyte f' 9 = Some CHR ''w''"
proof -
  obtain io' f' s' where r: "kvs_uring_io_write_batch idle_ring False two_blocks ''abcdef'' calm = Inr (0, io', f', s')"
    using two_blocks_run by blast
  note w = write_batch_complete [OF idle_ring r]
  have "fbyte f' 0 = fbyte ''abcdef'' 0"
    using w by (simp add: two_blocks_def in_block_def)
  moreover have all: "\<forall>b \<in> set two_blocks. \<forall>j < length (uw_data b). fbyte f' (uw_offset b + j) = Some (uw_data b ! j)"
    using w by simp
  have "fbyte f' (1 + 1) = Some (''xyz'' ! 1)" "fbyte f' (7 + 2) = Some (''uvw'' ! 2)"
    using all unfolding two_blocks_def by fastforce+
  ultimately show ?thesis
    using r by (simp add: fbyte_def numeral_2_eq_2)
qed

text \<open>
  C18.  Progress: with a kernel that takes at least one request per submission and writes at
  least one byte per request, the batch returns 0, however short the writes are and in
  whatever order they complete.
\<close>

theorem write_batch_terminates:
  assumes "idle io" "length ws \<le> KVS_URING_QUEUE_DEPTH" "ranges_ok [] ws" "\<And>n. 0 < s_kern s n"
    "\<And>n. s_oscall s n" "KVS_URING_QUEUE_DEPTH < s_patience s" "\<And>b. b \<in> set ws \<Longrightarrow> length (uw_data b) < s_patience s"
  shows "\<exists>io' f' s'. kvs_uring_io_write_batch io False ws f s = Inr (0, io', f', s')"
  using write_batch_returns [OF assms(1-3) _ assms(5-7), of f] assms(4) by (auto simp: progressing_def)

theorem write_batch_terminates_witness:
  "\<exists>io' f' s'. kvs_uring_io_write_batch idle_ring False two_blocks ''abcdef'' calm = Inr (0, io', f', s')"
  by (rule write_batch_terminates) (auto simp: two_blocks_def idle_ring calm_def KVS_URING_QUEUE_DEPTH_def
     uw_overlap_def uw_end_def OFF_MAX_def)

section \<open>Snapshots\<close>

text \<open>
  C19.  The snapshot reader accepts what the writer makes: validation of the image of any
  well-formed records succeeds, ends at the end of the file and recovers the checkpoint.
\<close>

theorem snapshot_accepts_image:
  assumes "checkpoint_ok cp" "list_all record_ok rs" "length rs < 2 ^ 64"
  shows "snapshot_validate (cursor_on (snapshot_image cp rs)) =
    Some \<lparr>cur_data = snapshot_image cp rs, cur_offset = length (snapshot_image cp rs), cur_checkpoint = cp\<rparr>"
  using validate_image [OF assms, of "cursor_on (snapshot_image cp rs)"] by (simp add: cursor_on_def)

theorem snapshot_accepts_image_witness:
  "snapshot_validate (cursor_on (snapshot_image no_checkpoint [(4, ''k'', ''v'')])) =
    Some \<lparr>cur_data = snapshot_image no_checkpoint [(4, ''k'', ''v'')],
          cur_offset = length (snapshot_image no_checkpoint [(4, ''k'', ''v'')]), cur_checkpoint = no_checkpoint\<rparr>"
  by (rule snapshot_accepts_image) (auto simp: checkpoint_ok_def no_checkpoint_def record_ok_def engine_code_ok_def NUL_def)

text \<open>
  C20.  Validation accepts exactly the well-formed files: the magic and one of the two
  versions, a header that announces the number of records and (in version 2) a checkpoint
  that is in order, that many records with a known engine code, no NUL in key or value and
  the lengths their headers give, and the checksum of all that, with nothing left over.  The
  cursor then stands at the end and holds the checkpoint of the header.
\<close>

theorem snapshot_validate_exact:
  "snapshot_validate (cursor_on d) = Some c \<longleftrightarrow>
     (\<exists>cp rs. list_all record_ok rs \<and> length rs < 2 ^ 64 \<and>
        (checkpoint_ok cp \<and> d = sealed (header_v2 cp (length rs) @ records_bytes rs) \<or>
         cp = no_checkpoint \<and> d = sealed (header_v1 (length rs) @ records_bytes rs)) \<and>
        c = \<lparr>cur_data = d, cur_offset = length d, cur_checkpoint = cp\<rparr>)"
  (is "_ \<longleftrightarrow> ?r")
proof
  assume "snapshot_validate (cursor_on d) = Some c"
  then show ?r
    using validate_sound [of "cursor_on d" c]
    by (intro exI [of _ "cur_checkpoint c"]) (fastforce simp: cursor_on_def is_header_def)
next
  assume ?r
  then obtain cp rs h where "list_all record_ok rs" "length rs < 2 ^ 64" "is_header cp (length rs) h"
      "d = sealed (h @ records_bytes rs)" "c = \<lparr>cur_data = d, cur_offset = length d, cur_checkpoint = cp\<rparr>"
    unfolding is_header_def by blast
  then show "snapshot_validate (cursor_on d) = Some c"
    using validate_at [of cp rs h "cursor_on d"] by (simp add: cursor_on_def)
qed

text \<open>
  C21.  Damage to one byte is always noticed: if a snapshot file is accepted, no file that
  differs from it in exactly one byte is accepted too.
\<close>

theorem snapshot_single_byte_damage:
  assumes "snapshot_validate (cursor_on (as @ x # bs)) \<noteq> None" "x \<noteq> y"
  shows "snapshot_validate (cursor_on (as @ y # bs)) = None"
proof (rule ccontr)
  assume "snapshot_validate (cursor_on (as @ y # bs)) \<noteq> None"
  then obtain c c' where "snapshot_validate (cursor_on (as @ x # bs)) = Some c"
      "snapshot_validate (cursor_on (as @ y # bs)) = Some c'"
    using assms(1) by blast
  then obtain b1 b2 where "as @ x # bs = sealed b1" "as @ y # bs = sealed b2"
    using validate_sound [of "cursor_on (as @ x # bs)"] validate_sound [of "cursor_on (as @ y # bs)"]
    by (fastforce simp: cursor_on_def)
  with assms(2) show False using sealed_single_byte by blast
qed

theorem snapshot_single_byte_damage_witness:
  "snapshot_validate (cursor_on (CHR ''k'' # tl (snapshot_image no_checkpoint []))) = None"
proof -
  have v: "snapshot_validate (cursor_on (snapshot_image no_checkpoint [])) \<noteq> None"
    using validate_image [of no_checkpoint "[]" "cursor_on (snapshot_image no_checkpoint [])"]
    by (simp add: checkpoint_ok_def no_checkpoint_def cursor_on_def)
  have "snapshot_image no_checkpoint [] = [] @ CHR ''9'' # tl (snapshot_image no_checkpoint [])"
    by (simp add: snapshot_image_def sealed_def header_v2_def SNAPSHOT_MAGIC_def)
  with v have "snapshot_validate (cursor_on ([] @ CHR ''9'' # tl (snapshot_image no_checkpoint []))) \<noteq> None"
    by metis
  from snapshot_single_byte_damage [OF this, of "CHR ''k''"] show ?thesis by simp
qed

text \<open>
  C22.  Saving a snapshot replaces the old one atomically: whatever the kernel answers, the
  name afterwards holds the complete image of the four engines or exactly what it held
  before, a result of 0 means the former, no other file than the temporary one is touched,
  and every block of memory is given back.
\<close>

theorem snapshot_save_atomic:
  assumes "engines_inv g" "kvs_snapshot_store_save_with_checkpoint suffix g path cp fs s = Inr (r, fs', s')"
  shows "(fs' path = Some (saved_image g cp) \<or> r = -1 \<and> fs' path = fs path) \<and>
    (\<forall>p. p \<noteq> path \<and> p \<noteq> temp_name path suffix \<longrightarrow> fs' p = fs p) \<and> s_live s' = s_live s"
  using snapshot_save_law [OF assms] by (auto simp: save_effect_def)


theorem snapshot_save_atomic_witness:
  "\<exists>g r fs' s'. engines_inv g \<and>
    kvs_snapshot_store_save_with_checkpoint ''x'' g ''dump'' None [''dump'' \<mapsto> ''old''] (calm\<lparr>s_oscall := (\<lambda>n. n \<noteq> 1)\<rparr>) = Inr (r, fs', s') \<and>
    (fs' ''dump'' = Some (saved_image g None) \<or> r = -1 \<and> fs' ''dump'' = Some ''old'') \<and> s_live s' = 0"
proof -
  obtain g where g: "engines_inv g"
    using engines_created_calm by blast
  let ?s = "calm\<lparr>s_oscall := (\<lambda>n. n \<noteq> 1)\<rparr>"
  have "\<exists>x. kvs_snapshot_store_save_with_checkpoint ''x'' g ''dump'' None [''dump'' \<mapsto> ''old''] ?s = Inr x"
    by (simp add: kvs_snapshot_store_save_with_checkpoint_def SIZE_MAX_def kvs_malloc_def calm_def os_call_def
        snapshot_open_parent_directory_def kvs_free_def Let_def split_beta del: split_paired_Ex)
  then obtain r fs' s' where run: "kvs_snapshot_store_save_with_checkpoint ''x'' g ''dump'' None [''dump'' \<mapsto> ''old''] ?s = Inr (r, fs', s')"
    by (metis surj_pair)
  from snapshot_save_atomic [OF g run] run g show ?thesis
    by (auto simp: calm_def)
qed


section \<open>The append-only file\<close>

text \<open>A freshly opened log, and a handler that accepts every command and keeps it.\<close>

definition open_log :: aof_writer_t where
  "open_log = \<lparr>aw_fd = Some ''log'', aw_offset = 0, aw_io = idle_ring\<rparr>"

definition recorder :: "bytes list list replay_handler" where
  "recorder = (\<lambda>flds response seen s. Inr (1, response, seen @ [flds], s))"

lemma open_log_ok: "aof_ok open_log (Map.empty(''log'' \<mapsto> []))"
  by (simp add: aof_ok_def open_log_def idle_ring)

lemma open_log_append:
  "\<exists>w' fs' s'. kvs_aof_append (map Some [''SET'', ''k'', ''v'']) open_log fs calm = Inr (0, w', fs', s')"
  by (rule aof_append_succeeds)
     (auto simp: open_log_def idle_ring willing_def calm_def plenty_def progressing_def KVS_URING_QUEUE_DEPTH_def
        command_bytes_def field_bytes_def decimal.simps SIZE_MAX_def OFF_MAX_def)

text \<open>
  C23.  An append that returns 0 has added exactly the encoded command behind everything
  committed before; an append that fails has kept all of it and the position.  No other
  file is touched and the encoding buffer is always given back.
\<close>

theorem aof_append_commits:
  assumes "aof_ok w fs" "kvs_aof_append (map Some ts) w fs s = Inr (r, w', fs', s')"
  shows "aof_ok w' fs' \<and> s_live s' = s_live s \<and> (\<forall>p. Some p \<noteq> aw_fd w \<longrightarrow> fs' p = fs p) \<and>
    (r = 0 \<and> committed w' fs' = committed w fs @ command_bytes ts \<and> aw_offset w' = aw_offset w + length (command_bytes ts) \<or>
     r = -1 \<and> committed w' fs' = committed w fs \<and> aw_offset w' = aw_offset w)"
proof -
  have "append_effect ts r w fs w' fs'" "s_live s' = s_live s"
    using aof_append_law [OF assms] by auto
  then show ?thesis
    unfolding append_effect_def by blast
qed

theorem aof_append_commits_witness:
  "\<exists>w' fs' s'. kvs_aof_append (map Some [''SET'', ''k'', ''v'']) open_log (Map.empty(''log'' \<mapsto> [])) calm = Inr (0, w', fs', s') \<and>
     committed w' fs' = command_bytes [''SET'', ''k'', ''v'']"
proof -
  obtain w' fs' s' where run: "kvs_aof_append (map Some [''SET'', ''k'', ''v'']) open_log (Map.empty(''log'' \<mapsto> [])) calm = Inr (0, w', fs', s')"
    using open_log_append by blast
  moreover have "committed open_log (Map.empty(''log'' \<mapsto> [])) = []"
    by (simp add: committed_def open_log_def)
  ultimately show ?thesis
    using aof_append_commits [OF open_log_ok run] by auto
qed

text \<open>
  C24.  The log is a faithful record.  Commands appended to an opened log, all of them
  acknowledged, are handed to the handler again, the same commands in the same order, when
  the file is replayed from the position the log had when it was opened, whatever was in
  the file before that position.
\<close>

theorem aof_log_replayed:
  assumes "kvs_aof_open path aof_closed fs s = (0, w, fs1, s1)"
    and "append_log cs w fs1 s1 = Inr (cs, w', fs2, s2)"
    and "kvs_mapped_file_open fs2 path s3 = (Mapped d, s4)"
  shows "kvs_aof_replay fs2 path (kvs_aof_get_offset w) handler g s3 =
    bindr (run_commands handler cs g s4) (\<lambda>(r, g, s).
      case kvs_mapped_file_close d s of (closed, s) \<Rightarrow> Inr (if closed < 0 \<and> r = 0 then -1 else r, g, s))"
proof -
  have w: "aof_ok w fs1" "aw_fd w = Some path" "aw_offset w = length (file_data fs1 path)"
    using aof_open_law [OF assms(1)] by (auto simp: aof_closed_def)
  have "d = file_data fs2 path"
    using aof_replay_mapped(1) [OF assms(3)] by (simp add: file_data_def)
  then have d: "d = file_data fs1 path @ aof_image cs"
    using append_log_whole [OF w assms(2)] by simp
  have "kvs_aof_get_offset w = int (length (file_data fs1 path))"
    using w by (simp add: kvs_aof_get_offset_def)
  with aof_replay_whole [OF assms(3) [unfolded d] append_log_commands [OF assms(2)], of handler g] d
  show ?thesis by simp
qed

theorem aof_log_replayed_witness:
  "\<exists>w fs1 s1 w' fs2 s2 s5. kvs_aof_open ''log'' aof_closed Map.empty calm = (0, w, fs1, s1) \<and>
     append_log [[''SET'', ''k'', ''v'']] w fs1 s1 = Inr ([[''SET'', ''k'', ''v'']], w', fs2, s2) \<and>
     kvs_aof_replay fs2 ''log'' 0 recorder [] calm = Inr (0, [[''SET'', ''k'', ''v'']], s5)"
proof -
  let ?c = "[''SET'', ''k'', ''v'']"
  obtain w fs1 s1 where o: "kvs_aof_open ''log'' aof_closed Map.empty calm = (0, w, fs1, s1)"
      and s1: "willing s1" "s_patience s1 = 1000"
    by (auto simp: kvs_aof_open_def aof_closed_def io_cleared_def kvs_uring_io_init_def calm_def os_call_def
        willing_def plenty_def progressing_def KVS_URING_QUEUE_DEPTH_def)
  have w: "aw_fd w = Some ''log''" "idle (aw_io w)" "aw_offset w = 0"
    using aof_open_law [OF o] by (auto simp: aof_closed_def file_data_def)
  obtain w' fs2 s2 where a: "kvs_aof_append (map Some ?c) w fs1 s1 = Inr (0, w', fs2, s2)"
    using aof_append_succeeds [OF w(1,2) s1(1), of ?c fs1] w(3) s1(2)
    by (auto simp: command_bytes_def field_bytes_def decimal.simps SIZE_MAX_def OFF_MAX_def)
  then have l: "append_log [?c] w fs1 s1 = Inr ([?c], w', fs2, s2)"
    by simp
  have "fs2 ''log'' \<noteq> None"
    using append_log_whole [OF _ w(1) _ l] aof_open_law [OF o] w(3)
    by (auto simp: aof_closed_def file_data_def command_bytes_def split: option.splits)
  then obtain d where d: "fs2 ''log'' = Some d" by blast
  have "length d \<le> SIZE_MAX"
    using append_log_whole [OF _ w(1) _ l] aof_open_law [OF o] w(3) d
    by (auto simp: aof_closed_def file_data_def command_bytes_def field_bytes_def decimal.simps SIZE_MAX_def)
  then obtain s4 where m: "kvs_mapped_file_open fs2 ''log'' calm = (Mapped d, s4)" and ok: "\<And>n. s_oscall s4 n"
    using mapped_open_willing [of fs2 "''log''" d calm] d by (auto simp: calm_def)
  have "kvs_aof_get_offset w = 0"
    using w by (simp add: kvs_aof_get_offset_def)
  with aof_log_replayed [OF o l m, of recorder "[]"] ok
  have "\<exists>s5. kvs_aof_replay fs2 ''log'' 0 recorder [] calm = Inr (0, [?c], s5)"
    by (simp add: recorder_def kvs_mapped_file_close_def os_call_def)
  with o l show ?thesis by blast
qed

text \<open>
  C25.  A torn tail is refused: when the file ends in the middle of a command, the replay
  fails, but only after every whole command before it has been executed.
\<close>

theorem aof_torn_tail:
  assumes "kvs_mapped_file_open fs path s = (Mapped (aof_image cs @ part), s1)" "list_all aof_command cs"
    and "aof_command c" "command_bytes c = part @ missing" "part \<noteq> []" "missing \<noteq> []"
    and "run_commands handler cs g s1 = Inr (r, g', s2)"
  shows "\<exists>s'. kvs_aof_replay fs path 0 handler g s = Inr (-1, g', s')"
  using aof_replay_mapped(2) [OF assms(1), of 0 handler g] replay_loop_torn [OF assms(2-7), of "[]"]
  by (auto split: prod.splits)

theorem aof_torn_tail_witness:
  "\<exists>s'. kvs_aof_replay (Map.empty(''log'' \<mapsto> command_bytes [''DEL'', ''a''] @ ''*3'')) ''log'' 0 recorder [] calm =
     Inr (-1, [[''DEL'', ''a'']], s')"
proof -
  have "\<exists>s1. kvs_mapped_file_open (Map.empty(''log'' \<mapsto> command_bytes [''DEL'', ''a''] @ ''*3'')) ''log'' calm =
      (Mapped (aof_image [[''DEL'', ''a'']] @ ''*3''), s1)"
    by (auto simp: kvs_mapped_file_open_def os_call_def calm_def command_bytes_def field_bytes_def decimal.simps SIZE_MAX_def)
  then obtain s1 where m: "kvs_mapped_file_open (Map.empty(''log'' \<mapsto> command_bytes [''DEL'', ''a''] @ ''*3'')) ''log'' calm =
      (Mapped (aof_image [[''DEL'', ''a'']] @ ''*3''), s1)" ..
  have c: "command_bytes [''SET'', ''b'', ''c''] = ''*3'' @ drop 2 (command_bytes [''SET'', ''b'', ''c''])"
    by code_simp
  have "aof_command [''SET'', ''b'', ''c'']" "list_all aof_command [[''DEL'', ''a'']]"
      "drop 2 (command_bytes [''SET'', ''b'', ''c'']) \<noteq> []"
    by (simp_all add: aof_command_def command_bytes_def field_bytes_def decimal.simps SIZE_MAX_def)
  with aof_torn_tail [OF m _ _ c, of recorder "[]" 0 "[[''DEL'', ''a'']]" s1] show ?thesis
    by (simp add: recorder_def)
qed

text \<open>
  C26.  Appending works: with a healthy kernel and memory, every command of two or three
  fields that fits the file is appended with result 0.
\<close>

theorem aof_append_live:
  assumes "aw_fd w = Some path" "idle (aw_io w)" "willing s" "length ts = 2 \<or> length ts = 3"
    and "length (command_bytes ts) \<le> SIZE_MAX" "aw_offset w + length (command_bytes ts) \<le> OFF_MAX"
    and "length (command_bytes ts) < s_patience s"
  shows "\<exists>w' fs' s'. kvs_aof_append (map Some ts) w fs s = Inr (0, w', fs', s')"
  by (rule aof_append_succeeds [OF assms])

theorem aof_append_live_witness:
  "\<exists>w' fs' s'. kvs_aof_append (map Some [''DEL'', ''k'']) open_log (Map.empty(''log'' \<mapsto> [])) calm = Inr (0, w', fs', s')"
  by (rule aof_append_live)
     (auto simp: open_log_def idle_ring willing_def calm_def plenty_def progressing_def KVS_URING_QUEUE_DEPTH_def
        command_bytes_def field_bytes_def decimal.simps SIZE_MAX_def OFF_MAX_def)

text \<open>
  C27.  Resetting the log to a replication offset: a result of 0 means the file has exactly
  that length, with everything below it kept and a gap filled with zero bytes, and the next
  append goes there; whatever happens, the position stays within the file.
\<close>

theorem aof_reset_exact:
  assumes "aof_ok w fs" "aw_fd w = Some path" "kvs_aof_reset_to_offset off w fs s = Inr (r, w', fs', s')"
  shows "aof_ok w' fs' \<and> aw_fd w' = Some path \<and> s_live s' = s_live s \<and>
    (r = 0 \<longrightarrow> 0 \<le> off \<and> file_data fs' path = file_resize (file_data fs path) (nat off) \<and> kvs_aof_get_offset w' = off)"
  by (rule aof_reset_law [OF assms])

theorem aof_reset_exact_witness:
  "\<exists>w' fs' s'. kvs_aof_reset_to_offset 5 open_log (Map.empty(''log'' \<mapsto> ''abcdefgh'')) calm = Inr (0, w', fs', s') \<and>
     file_data fs' ''log'' = ''abcde'' \<and> kvs_aof_get_offset w' = 5"
proof -
  let ?fs = "Map.empty(''log'' \<mapsto> ''abcdefgh'')"
  have ok: "aof_ok open_log ?fs"
    by (simp add: aof_ok_def open_log_def idle_ring)
  have t: "truncate_loop 1000 ''abcdefgh'' 5 calm = Inr (True, ''abcde'', snd (os_int calm))"
    by (simp add: eval_nat_numeral os_int_def calm_def EINTR_def file_resize_def)
  have "progressing (snd (os_int calm))" "0 < s_patience (snd (os_int calm))"
    by (simp_all add: os_int_def calm_def progressing_def)
  from sync_returns [OF idle_ring this, of "''abcde''"]
  obtain w' fs' s' where run: "kvs_aof_reset_to_offset 5 open_log ?fs calm = Inr (0, w', fs', s')"
    using t by (auto simp: kvs_aof_reset_to_offset_def open_log_def idle_ring_def OFF_MAX_def calm_def file_data_def)
  show ?thesis
    using aof_reset_exact [OF ok _ run] run by (auto simp: open_log_def file_data_def file_resize_def)
qed


text \<open>
  C28.  The block reader of the replication delivers the file as it is: each block it hands
  out is the next part of the pending range, never longer than the buffer; 0 is returned
  only when nothing is pending, and a failure loses nothing.
\<close>

theorem aof_reader_blocks:
  assumes "reader_ok reader fs" "0 < cap" "kvs_aof_reader_read reader cap fs s = Inr (n, out, reader', s')"
  shows "reader_ok reader' fs \<and>
    (n = -1 \<and> reader' = reader \<or>
     n = 0 \<and> reader' = reader \<and> reader_pending reader fs = [] \<or>
     0 < n \<and> n \<le> cap \<and> n = int (length out) \<and> reader_pending reader fs = out @ reader_pending reader' fs)"
  using reader_read_law [OF assms] assms(1) by auto

theorem aof_reader_blocks_witness:
  "\<exists>out reader' s'. kvs_aof_reader_read \<lparr>ar_fd = Some ''log'', ar_offset = 2, ar_remaining = 4\<rparr> 3 (Map.empty(''log'' \<mapsto> ''abcdefgh'')) calm
     = Inr (1, out, reader', s') \<and> ''cdef'' = out @ reader_pending reader' (Map.empty(''log'' \<mapsto> ''abcdefgh''))"
proof -
  let ?r = "\<lparr>ar_fd = Some ''log'', ar_offset = 2, ar_remaining = 4\<rparr>" and ?fs = "Map.empty(''log'' \<mapsto> ''abcdefgh'')"
  have "\<exists>out reader' s'. kvs_aof_reader_read ?r 3 ?fs calm = Inr (1, out, reader', s')"
    by (simp add: kvs_aof_reader_read_def calm_def os_int_def EINTR_def eval_nat_numeral file_data_def)
  then obtain out reader' s' where run: "kvs_aof_reader_read ?r 3 ?fs calm = Inr (1, out, reader', s')"
    by blast
  have "reader_pending ?r ?fs = ''cdef''" and ok: "reader_ok ?r ?fs"
    by (simp_all add: reader_pending_def reader_ok_def file_data_def)
  with aof_reader_blocks [OF ok _ run] run show ?thesis
    by auto
qed

section \<open>Sending a snapshot\<close>

text \<open>A machine that answers 9 to every request for bytes.\<close>

definition brisk :: sys where
  "brisk = \<lparr>s_alloc = (\<lambda>_ _. True), s_fill = (\<lambda>_ _. NUL), s_rand = (\<lambda>_. 0), s_oscall = (\<lambda>_. True),
     s_kern = (\<lambda>_. 9), s_patience = Suc (Suc 0), s_nalloc = 0, s_nrand = 0, s_nos = 0, s_nkern = 0, s_live = 0\<rparr>"

lemmas snapshot_io_simps = kvs_snapshot_reader_open_def kvs_snapshot_writer_open_def kvs_snapshot_reader_read_def
  kvs_snapshot_writer_write_def kvs_snapshot_writer_commit_def file_data_def os_call_def os_int_def EINTR_def write_at_def

text \<open>
  C29.  A snapshot read in blocks by the primary and written by the replica arrives whole:
  when the transfer ends well and the replica commits, its snapshot has exactly the bytes of
  the primary's, and the temporary file is gone.
\<close>

theorem snapshot_transfer_exact:
  assumes "kvs_snapshot_reader_open reader0 source n pfs s0 = (0, reader, s1)"
    and "kvs_snapshot_writer_open writer0 tmp n rfs0 s2 = (0, writer, rfs, s3)"
    and "0 < cap" "tmp \<noteq> final" "transfer blocks cap reader pfs ps writer rfs rs = Inr (True, reader', writer', rfs')"
    and "kvs_snapshot_writer_commit writer' tmp final rfs' s4 = (0, writer'', rfs'', s5)"
  shows "pfs source = Some (file_data rfs'' final) \<and> rfs'' tmp = None \<and> (\<forall>p. p \<noteq> tmp \<and> p \<noteq> final \<longrightarrow> rfs'' p = rfs0 p)"
proof -
  have r: "snapshot_reader_ok reader pfs" "snapshot_pending reader pfs = file_data pfs source" "n = int (length (file_data pfs source))" "0 < n"
    using snapshot_reader_open_law [OF assms(1)] by auto
  have w: "snapshot_writer_ok writer rfs" "sn_fd writer = Some tmp" "file_data rfs tmp = []" "sn_remaining writer = n"
      "\<forall>p. p \<noteq> tmp \<longrightarrow> rfs p = rfs0 p"
    using snapshot_writer_open_law [OF assms(2)] by auto
  have t: "file_data rfs' tmp = file_data pfs source" "\<forall>p. p \<noteq> tmp \<longrightarrow> rfs' p = rfs p"
    using transfer_copies [OF r(1) w(1,2) assms(3) _ assms(5)] w r by auto
  have c: "rfs'' = rfs'(final \<mapsto> file_data rfs' tmp, tmp := None)"
    using snapshot_writer_commit_law(3) [OF assms(6,4)] by simp
  have "pfs source = Some (file_data pfs source)"
    using r(3,4) by (auto simp: file_data_def split: option.splits)
  then show ?thesis
    using c t w(5) assms(4) by (auto simp: file_data_def)
qed

theorem snapshot_transfer_exact_witness:
  "\<exists>reader s1 writer rfs s3 reader' writer' rfs' writer'' rfs'' s5.
     kvs_snapshot_reader_open snapshot_reader_idle ''p'' 3 (Map.empty(''p'' \<mapsto> ''abc'')) brisk = (0, reader, s1) \<and>
     kvs_snapshot_writer_open snapshot_writer_idle ''t'' 3 Map.empty brisk = (0, writer, rfs, s3) \<and>
     transfer 3 2 reader (Map.empty(''p'' \<mapsto> ''abc'')) brisk writer rfs brisk = Inr (True, reader', writer', rfs') \<and>
     kvs_snapshot_writer_commit writer' ''t'' ''f'' rfs' brisk = (0, writer'', rfs'', s5) \<and>
     Some ''abc'' = Some (file_data rfs'' ''f'') \<and> rfs'' ''t'' = None"
proof -
  let ?pfs = "Map.empty(''p'' \<mapsto> ''abc'')"
  obtain reader s1 where r: "kvs_snapshot_reader_open snapshot_reader_idle ''p'' 3 ?pfs brisk = (0, reader, s1)"
      "reader = \<lparr>sr_fd = Some ''p'', sr_pos = 0, sr_remaining = 3\<rparr>"
    by (simp add: snapshot_io_simps brisk_def)
  obtain writer rfs s3 where w: "kvs_snapshot_writer_open snapshot_writer_idle ''t'' 3 Map.empty brisk = (0, writer, rfs, s3)"
      "writer = \<lparr>sn_fd = Some ''t'', sn_pos = 0, sn_remaining = 3\<rparr>" "rfs = Map.empty(''t'' \<mapsto> [])"
    by (simp add: snapshot_io_simps brisk_def)
  obtain reader' writer' rfs' where t: "transfer 3 2 reader ?pfs brisk writer rfs brisk = Inr (True, reader', writer', rfs')"
      "writer' = \<lparr>sn_fd = Some ''t'', sn_pos = 3, sn_remaining = 0\<rparr>" "rfs' = Map.empty(''t'' \<mapsto> ''abc'')"
    unfolding r(2) w(2,3) by (simp add: eval_nat_numeral snapshot_io_simps brisk_def Let_def)
  obtain writer'' rfs'' s5 where c: "kvs_snapshot_writer_commit writer' ''t'' ''f'' rfs' brisk = (0, writer'', rfs'', s5)"
    unfolding t(2,3) by (simp add: snapshot_io_simps brisk_def)
  from snapshot_transfer_exact [OF r(1) w(1) _ _ t(1) c] r w t c show ?thesis by auto
qed


section \<open>The configuration\<close>

text \<open>
  C35.  Whatever a configuration file holds, the configuration that is accepted is one the
  server can run with: its ports are within range and differ where they must, the role fits
  the persistence mode, and the removed \<open>replication_port\<close> is unset.  It is the one the lines
  of the file give, and they name exactly the fields of the role: every required one, and
  beside them only the three that any role may have.
\<close>

theorem config_accepts_valid:
  assumes "kvs_config_load inet_pton fs path s = (Inr cf, s')"
  shows "config_valid inet_pton cf \<and>
    (\<exists>content seen. fs path = Some content \<and>
       config_scan inet_pton (config_lines content) 0 config_defaults (\<lambda>_. None) = Inr (cf, seen) \<and>
       required_fields (cf_role cf) \<subseteq> dom seen \<and> dom seen \<subseteq> required_fields (cf_role cf) \<union> optional_fields)"
  using assms by (rule config_load_valid) blast

text \<open>
  C36.  Every such configuration can be had: written down field by field, it is read back
  from the file as it was.
\<close>

theorem config_read_back:
  assumes "config_valid inet_pton cf" "config_plain inet_pton cf"
    and "fs path = Some (config_text cf)" "path \<noteq> []" "\<forall>n. s_oscall s n"
  shows "fst (kvs_config_load inet_pton fs path s) = Inr cf"
  using assms by (rule load_config_text)

text \<open>A stand-alone server on port 29000, on a machine where \<open>inet_pton\<close> knows one address.\<close>

definition sample_config :: kvs_config_t where
  "sample_config = config_defaults\<lparr>cf_service_port := 29000, cf_persistence_mode := PERSISTENCE_AOF\<rparr>"

lemma sample_config_ok: "config_valid (\<lambda>v. v = ''0.0.0.0'') sample_config" "config_plain (\<lambda>v. v = ''0.0.0.0'') sample_config"
proof -
  have "token_text ''0.0.0.0''" by code_simp
  then show "config_valid (\<lambda>v. v = ''0.0.0.0'') sample_config" "config_plain (\<lambda>v. v = ''0.0.0.0'') sample_config"
    by (simp_all add: config_valid_def config_plain_def sample_config_def config_defaults_def port_ok_def)
qed

theorem config_read_back_witness:
  "fst (kvs_config_load (\<lambda>v. v = ''0.0.0.0'') [''kv.conf'' \<mapsto> config_text sample_config] ''kv.conf'' calm) = Inr sample_config"
  by (rule config_read_back) (simp_all add: sample_config_ok calm_willing)

theorem config_accepts_valid_witness:
  "\<exists>cf s'. kvs_config_load (\<lambda>v. v = ''0.0.0.0'') [''kv.conf'' \<mapsto> config_text sample_config] ''kv.conf'' calm = (Inr cf, s') \<and>
     config_valid (\<lambda>v. v = ''0.0.0.0'') cf"
proof -
  obtain s' where "kvs_config_load (\<lambda>v. v = ''0.0.0.0'') [''kv.conf'' \<mapsto> config_text sample_config] ''kv.conf'' calm = (Inr sample_config, s')"
    using load_config_text [OF sample_config_ok, of "[''kv.conf'' \<mapsto> config_text sample_config]" "''kv.conf''" calm] calm_willing(3)
    by (auto simp: prod_eq_iff)
  with config_accepts_valid [OF this] show ?thesis by blast
qed

end
